(* ===== verification/Prelude.thy ===== *)
theory Prelude
  imports Complex_Main "HOL-Library.Word" "HOL-Library.AList"
begin

text \<open>
  Shared vocabulary of the development.

  \<^item> JavaScript strings: a list of UTF-16 code units (\<open>js_string\<close>). The code only
    measures, compares, concatenates and encodes them. Literals are written with
    \<open>js_of ''...''\<close>.
  \<^item> JavaScript \<open>Map\<close> and \<open>Set\<close>: insertion-ordered association lists. \<open>jm_set\<close>
    overwrites in place or appends, \<open>jm_del\<close> removes, and iteration order is list order,
    which is what the eviction loops of the source rely on.
  \<^item> Option values that may be a number or \<open>Infinity\<close>: \<open>js_cap\<close>.
  \<^item> Two interfaces that several components share: \<open>machine\<close> (an initial state and a
    transition function that keeps an invariant, whence every run keeps it) and
    \<open>byte_codec\<close> (a writer and a reader of a byte stream, whence sequences of
    encodings are read back one after the other).
\<close>

named_theorems js_map_simps
named_theorems codec_simps

section \<open>Bytes and strings\<close>

type_synonym byte = "8 word"
type_synonym js_string = "16 word list"

definition byte_of :: "nat \<Rightarrow> byte" where
  "byte_of n = word_of_nat n"

lemma unat_byte_of [simp]: "unat (byte_of n) = n mod 256"
  by (simp add: byte_of_def unat_of_nat)

lemma byte_of_unat [simp]: "byte_of (unat b) = b"
  by (simp add: byte_of_def)

lemma byte_of_mod: "byte_of (n mod 256) = byte_of n"
  by (rule word_unat_eq_iff [THEN iffD2]) simp

lemma unat_byte_less: "unat (b :: byte) < 256"
  by (rule order_less_le_trans [OF unsigned_less]) simp

definition js_of :: "string \<Rightarrow> js_string" where
  "js_of s = map (\<lambda>c. of_nat (of_char c)) s"

lemma length_js_of [simp]: "length (js_of s) = length s"
  by (simp add: js_of_def)

lemma js_of_inj: "js_of a = js_of b \<longleftrightarrow> a = b"
proof -
  have "inj_on (\<lambda>c. of_nat (of_char c) :: 16 word) UNIV"
  proof (rule inj_onI)
    fix a b :: char assume e: "(of_nat (of_char a) :: 16 word) = of_nat (of_char b)"
    have l: "of_char c < (65536 :: nat)" for c :: char by (rule less_trans [OF nat_of_char_less_256]) simp
    have "unat (of_nat (of_char a) :: 16 word) = unat (of_nat (of_char b) :: 16 word)" by (simp only: e)
    then have "(of_char a :: nat) = of_char b" using l by (simp add: unat_of_nat)
    then show "a = b" by simp
  qed
  then show ?thesis by (auto simp: js_of_def inj_map_eq_map inj_on_def)
qed

text \<open>A natural number as a string.\<close>

fun decimal :: "nat \<Rightarrow> js_string" where
  "decimal n = (if n < 10 then [word_of_nat (48 + n)] else decimal (n div 10) @ [word_of_nat (48 + n mod 10)])"

declare decimal.simps [simp del]

section \<open>Numbers that may be Infinity\<close>

datatype js_cap = Finite real | Infinity

fun at_cap :: "nat \<Rightarrow> js_cap \<Rightarrow> bool" where
  "at_cap n (Finite c) = (c \<le> real n)"
| "at_cap n Infinity = False"

fun under_cap :: "nat \<Rightarrow> js_cap \<Rightarrow> bool" where
  "under_cap n (Finite c) = (real n < c + 1)"
| "under_cap n Infinity = True"

lemma under_cap_Suc: "\<not> at_cap n c \<Longrightarrow> under_cap (Suc n) c"
  by (cases c) auto

lemma under_cap_mono: "under_cap n c \<Longrightarrow> m \<le> n \<Longrightarrow> under_cap m c"
  by (cases c) auto

lemma not_at_cap_mono: "\<not> at_cap n c \<Longrightarrow> m \<le> n \<Longrightarrow> \<not> at_cap m c"
  by (cases c) auto

lemma under_cap_not_at: "\<not> at_cap n c \<Longrightarrow> under_cap n c"
  by (cases c) auto

section \<open>Computations that may throw\<close>

fun try_bind :: "'e + 'a \<Rightarrow> ('a \<Rightarrow> 'e + 'b) \<Rightarrow> 'e + 'b" where
  "try_bind (Inl e) f = Inl e"
| "try_bind (Inr x) f = f x"

lemma try_bind_Inr: "try_bind m f = Inr y \<longleftrightarrow> (\<exists>x. m = Inr x \<and> f x = Inr y)"
  by (cases m) auto

lemma bind_Some_conv: "Option.bind m f = Some y \<longleftrightarrow> (\<exists>x. m = Some x \<and> f x = Some y)"
  by (cases m) auto

section \<open>Insertion-ordered maps\<close>

type_synonym ('k, 'v) jsmap = "('k \<times> 'v) list"

definition jm_get :: "('k, 'v) jsmap \<Rightarrow> 'k \<Rightarrow> 'v option" where
  "jm_get m k = map_of m k"

definition jm_has :: "('k, 'v) jsmap \<Rightarrow> 'k \<Rightarrow> bool" where
  "jm_has m k \<longleftrightarrow> k \<in> fst ` set m"

fun jm_set :: "'k \<Rightarrow> 'v \<Rightarrow> ('k, 'v) jsmap \<Rightarrow> ('k, 'v) jsmap" where
  "jm_set k v [] = [(k, v)]"
| "jm_set k v (p # m) = (if fst p = k then (k, v) # m else p # jm_set k v m)"

definition jm_del :: "'k \<Rightarrow> ('k, 'v) jsmap \<Rightarrow> ('k, 'v) jsmap" where
  "jm_del k m = filter (\<lambda>p. fst p \<noteq> k) m"

definition jm_keys :: "('k, 'v) jsmap \<Rightarrow> 'k list" where
  "jm_keys m = map fst m"

abbreviation jm_size :: "('k, 'v) jsmap \<Rightarrow> nat" where
  "jm_size m \<equiv> length m"

definition jm_wf :: "('k, 'v) jsmap \<Rightarrow> bool" where
  "jm_wf m \<longleftrightarrow> distinct (jm_keys m)"

lemma jm_wf_Nil [simp]: "jm_wf []"
  by (simp add: jm_wf_def jm_keys_def)

lemma jm_get_Nil [js_map_simps, simp]: "jm_get [] k = None"
  by (simp add: jm_get_def)

lemma jm_keys_Nil [simp]: "jm_keys [] = []"
  by (simp add: jm_keys_def)

lemma jm_keys_Cons [simp]: "jm_keys (p # m) = fst p # jm_keys m"
  by (simp add: jm_keys_def)

lemma jm_keys_append [simp]: "jm_keys (a @ b) = jm_keys a @ jm_keys b"
  by (simp add: jm_keys_def)

lemma length_jm_keys [simp]: "length (jm_keys m) = length m"
  by (simp add: jm_keys_def)

lemma set_jm_keys: "set (jm_keys m) = fst ` set m"
  by (simp add: jm_keys_def)

lemma jm_has_keys: "jm_has m k \<longleftrightarrow> k \<in> set (jm_keys m)"
  by (simp add: jm_has_def set_jm_keys)

lemma jm_has_get: "jm_has m k \<longleftrightarrow> jm_get m k \<noteq> None"
  by (auto simp: jm_has_def jm_get_def map_of_eq_None_iff)

lemma jm_get_None: "jm_get m k = None \<longleftrightarrow> k \<notin> set (jm_keys m)"
  by (simp add: jm_get_def set_jm_keys map_of_eq_None_iff)

lemma jm_get_Some_mem: "jm_get m k = Some v \<Longrightarrow> (k, v) \<in> set m"
  by (simp add: jm_get_def map_of_SomeD)

lemma jm_mem_get: "jm_wf m \<Longrightarrow> (k, v) \<in> set m \<Longrightarrow> jm_get m k = Some v"
  by (simp add: jm_wf_def jm_get_def jm_keys_def)

lemma jm_get_iff_mem: "jm_wf m \<Longrightarrow> jm_get m k = Some v \<longleftrightarrow> (k, v) \<in> set m"
  by (auto intro: jm_mem_get jm_get_Some_mem)

lemma jm_get_set [js_map_simps, simp]:
  "jm_get (jm_set k v m) k' = (if k' = k then Some v else jm_get m k')"
  by (induction m) (auto simp: jm_get_def)

lemma jm_get_del [js_map_simps, simp]:
  "jm_get (jm_del k m) k' = (if k' = k then None else jm_get m k')"
  by (induction m) (auto simp: jm_get_def jm_del_def)

lemma jm_keys_set [js_map_simps]:
  "jm_keys (jm_set k v m) = (if k \<in> set (jm_keys m) then jm_keys m else jm_keys m @ [k])"
  by (induction m) (auto simp: jm_keys_def)

lemma set_keys_jm_set [simp]: "set (jm_keys (jm_set k v m)) = insert k (set (jm_keys m))"
  by (auto simp: jm_keys_set)

lemma jm_keys_del [js_map_simps]: "jm_keys (jm_del k m) = filter (\<lambda>x. x \<noteq> k) (jm_keys m)"
  by (induction m) (auto simp: jm_keys_def jm_del_def)

lemma set_keys_jm_del [simp]: "set (jm_keys (jm_del k m)) = set (jm_keys m) - {k}"
  by (auto simp: jm_keys_del)

lemma jm_wf_set [intro, simp]: "jm_wf m \<Longrightarrow> jm_wf (jm_set k v m)"
  by (simp add: jm_wf_def jm_keys_set)

lemma jm_wf_del [intro, simp]: "jm_wf m \<Longrightarrow> jm_wf (jm_del k m)"
  by (simp add: jm_wf_def jm_keys_del)

lemma jm_wf_ConsD: "jm_wf (p # m) \<Longrightarrow> jm_wf m \<and> fst p \<notin> set (jm_keys m)"
  by (simp add: jm_wf_def)

lemma jm_del_absent: "k \<notin> set (jm_keys m) \<Longrightarrow> jm_del k m = m"
  by (induction m) (auto simp: jm_del_def)

lemma jm_del_head: "jm_wf ((k, v) # m) \<Longrightarrow> jm_del k ((k, v) # m) = m"
  using jm_del_absent [of k m] by (simp add: jm_wf_def jm_del_def)

lemma length_jm_set:
  "length (jm_set k v m) = (if jm_get m k = None then Suc (length m) else length m)"
  by (induction m) (auto simp: jm_get_def)

lemma length_jm_set_le: "length (jm_set k v m) \<le> Suc (length m)"
  by (simp add: length_jm_set)

lemma length_jm_del_le: "length (jm_del k m) \<le> length m"
  by (simp add: jm_del_def)

lemma length_jm_del:
  assumes "jm_wf m"
  shows "length (jm_del k m) = (if jm_get m k = None then length m else length m - 1)"
  using assms
proof (induction m)
  case Nil
  then show ?case by (simp add: jm_del_def)
next
  case (Cons p m)
  obtain a b where p: "p = (a, b)" by fastforce
  from Cons.prems have wf: "jm_wf m" and nin: "a \<notin> set (jm_keys m)"
    by (auto simp: jm_wf_def p)
  show ?case
  proof (cases "a = k")
    case True
    then show ?thesis
      using jm_del_absent [of k m] nin by (simp add: p jm_del_def jm_get_def)
  next
    case False
    have "jm_get m k \<noteq> None \<Longrightarrow> m \<noteq> []" by auto
    then show ?thesis
      using False Cons.IH [OF wf] by (auto simp: p jm_del_def jm_get_def)
  qed
qed

lemma jm_set_append_new:
  "k \<notin> set (jm_keys m) \<Longrightarrow> jm_set k v m = m @ [(k, v)]"
  by (induction m) auto

lemma mem_jm_set_subset: "set (jm_set k v m) \<subseteq> insert (k, v) (set m)"
  by (induction m) auto

lemma mem_jm_del_subset: "set (jm_del k m) \<subseteq> set m"
  by (auto simp: jm_del_def)

lemma mem_jm_set: "x \<in> set (jm_set k v m) \<Longrightarrow> x = (k, v) \<or> x \<in> set m"
  using mem_jm_set_subset [of k v m] by auto

lemma mem_jm_set_wf:
  "jm_wf m \<Longrightarrow> (k', v') \<in> set (jm_set k v m) \<longleftrightarrow>
     (k' = k \<and> v' = v) \<or> (k' \<noteq> k \<and> (k', v') \<in> set m)"
  by (auto simp flip: jm_get_iff_mem split: if_splits)

lemma mem_jm_del_wf:
  "(k', v') \<in> set (jm_del k m) \<longleftrightarrow> k' \<noteq> k \<and> (k', v') \<in> set m"
  by (auto simp: jm_del_def)

lemma jm_wf_map_value:
  "jm_wf m \<Longrightarrow> jm_wf (map (\<lambda>(k, v). (k, f k v)) m)"
  by (auto simp: jm_wf_def jm_keys_def comp_def case_prod_unfold)

lemma jm_wf_filter [intro]: "jm_wf m \<Longrightarrow> jm_wf (filter P m)"
  by (induction m) (auto simp: jm_wf_def jm_keys_def)

lemma sum_list_map_jm_set:
  "sum_list (map (\<lambda>p. f (snd p)) (jm_set k v m)) + (case jm_get m k of None \<Rightarrow> 0 | Some u \<Rightarrow> f u)
     = sum_list (map (\<lambda>p. f (snd p)) m) + (f v :: nat)"
proof (induction m)
  case (Cons p m)
  then show ?case by (cases p) (auto simp: jm_get_def split: option.splits)
qed simp

lemma sum_list_map_jm_del:
  assumes "jm_wf m"
  shows "sum_list (map (\<lambda>p. f (snd p)) (jm_del k m)) + (case jm_get m k of None \<Rightarrow> 0 | Some u \<Rightarrow> f u)
     = (sum_list (map (\<lambda>p. f (snd p)) m) :: nat)"
  using assms
proof (induction m)
  case Nil
  then show ?case by (simp add: jm_del_def)
next
  case (Cons p m)
  obtain a b where p: "p = (a, b)" by fastforce
  from Cons.prems have wf: "jm_wf m" and nin: "a \<notin> set (jm_keys m)"
    by (auto simp: jm_wf_def p)
  show ?case
  proof (cases "a = k")
    case True
    then show ?thesis using jm_del_absent [of k m] nin
      by (simp add: p jm_del_def jm_get_def)
  next
    case False
    then show ?thesis using Cons.IH [OF wf]
      by (auto simp: p jm_del_def jm_get_def split: option.splits)
  qed
qed

lemma jm_get_map_value: "jm_get (map (\<lambda>(k, v). (k, f v)) m) k = map_option f (jm_get m k)"
  by (induction m) (auto simp: jm_get_def)

lemma jm_wf_map: "jm_wf (map (\<lambda>(k, v). (k, f v)) m) \<longleftrightarrow> jm_wf m"
  by (simp add: jm_wf_def jm_keys_def comp_def case_prod_unfold)

section \<open>Logs of keyed events\<close>

text \<open>What a log holds for one key, in log order.\<close>

definition of_key :: "'k \<Rightarrow> ('k \<times> 'a) list \<Rightarrow> 'a list" where
  "of_key k l = map snd (filter (\<lambda>p. fst p = k) l)"

lemma of_key_simps [simp]:
  "of_key k [] = []"
  "of_key k (p # l) = (if fst p = k then [snd p] else []) @ of_key k l"
  "of_key k (l @ l') = of_key k l @ of_key k l'"
  "of_key k (map (Pair k') xs) = (if k = k' then xs else [])"
  by (auto simp: of_key_def filter_map comp_def)

lemma of_key_remove1:
  "of_key k (remove1 (k', t) l) = (if k = k' then remove1 t (of_key k l) else of_key k l)"
  by (induction l) auto

lemma mem_of_key: "(k, t) \<in> set l \<longleftrightarrow> t \<in> set (of_key k l)"
  by (auto simp: of_key_def image_iff)

section \<open>Interface: a transition system with an invariant\<close>

locale machine =
  fixes init :: 's
    and step :: "'s \<Rightarrow> 'e \<Rightarrow> 's"
    and inv :: "'s \<Rightarrow> bool"
  assumes init_inv: "inv init"
    and step_inv: "inv s \<Longrightarrow> inv (step s e)"
begin

lemma run_from_inv: "inv s \<Longrightarrow> inv (foldl step s es)"
  by (induction es arbitrary: s) (auto intro: step_inv)

lemma run_inv: "inv (foldl step init es)"
  by (rule run_from_inv [OF init_inv])

end

section \<open>Interface: a transition system with a quantity that never decreases\<close>

locale monotone_machine = machine +
  fixes gauge :: "'s \<Rightarrow> 'g::preorder"
  assumes step_gauge: "inv s \<Longrightarrow> gauge s \<le> gauge (step s e)"
begin

lemma run_gauge: "inv s \<Longrightarrow> gauge s \<le> gauge (foldl step s es)"
proof (induction es arbitrary: s)
  case Nil
  then show ?case by simp
next
  case (Cons e es)
  have "gauge s \<le> gauge (step s e)" by (rule step_gauge [OF Cons.prems])
  also have "\<dots> \<le> gauge (foldl step (step s e) es)"
    by (rule Cons.IH) (rule step_inv [OF Cons.prems])
  finally show ?case by simp
qed

end

section \<open>Interface: a writer and reader of a stream\<close>

locale stream_codec =
  fixes put :: "'a \<Rightarrow> 'b list"
    and get :: "'b list \<Rightarrow> ('a \<times> 'b list) option"
    and ok :: "'a \<Rightarrow> bool"
  assumes get_put: "ok x \<Longrightarrow> get (put x @ rest) = Some (x, rest)"
begin

primrec get_many :: "nat \<Rightarrow> 'b list \<Rightarrow> ('a list \<times> 'b list) option" where
  "get_many 0 bs = Some ([], bs)"
| "get_many (Suc n) bs =
     (case get bs of None \<Rightarrow> None
      | Some (x, r) \<Rightarrow> map_option (\<lambda>(xs, r'). (x # xs, r')) (get_many n r))"

lemma get_many_put:
  "list_all ok xs \<Longrightarrow> get_many (length xs) (concat (map put xs) @ rest) = Some (xs, rest)"
  by (induction xs) (auto simp: get_put)

lemma put_prefix_free:
  assumes "ok x" and "ok y" and "put x @ r = put y @ r'"
  shows "x = y \<and> r = r'"
proof -
  have "get (put x @ r) = Some (x, r)" by (rule get_put [OF assms(1)])
  moreover have "get (put x @ r) = Some (y, r')"
    using get_put [OF assms(2), of r'] assms(3) by simp
  ultimately show ?thesis by simp
qed

lemma put_inj: "ok x \<Longrightarrow> ok y \<Longrightarrow> put x = put y \<Longrightarrow> x = y"
  using put_prefix_free [of x y "[]" "[]"] by simp

end

end
