(* ===== verification/Utf8.thy ===== *)
theory Utf8
  imports Prelude
begin

text \<open>
  The platform text codecs the wire modules call: \<open>TextEncoder.encode\<close> (UTF-16 code
  units to UTF-8, a lone surrogate becoming U+FFFD) and \<open>TextDecoder.decode\<close> (the
  streaming UTF-8 decoder of the Encoding standard with its replacement rule, and the
  removal of one leading byte-order mark, which the default \<open>ignoreBOM: false\<close> does).
  \<open>wire_text\<close> is what a string becomes after one trip through both.
\<close>

section \<open>UTF-16\<close>

definition is_high :: "16 word \<Rightarrow> bool" where
  "is_high u \<longleftrightarrow> 0xD800 \<le> unat u \<and> unat u < 0xDC00"

definition is_low :: "16 word \<Rightarrow> bool" where
  "is_low u \<longleftrightarrow> 0xDC00 \<le> unat u \<and> unat u < 0xE000"

definition unit_scalar :: "16 word \<Rightarrow> nat" where
  "unit_scalar u = (if is_high u \<or> is_low u then 0xFFFD else unat u)"

fun to_scalars :: "js_string \<Rightarrow> nat list" where
  "to_scalars [] = []"
| "to_scalars [u] = [unit_scalar u]"
| "to_scalars (u # v # us) =
     (if is_high u \<and> is_low v
      then (0x10000 + (unat u - 0xD800) * 0x400 + (unat v - 0xDC00)) # to_scalars us
      else unit_scalar u # to_scalars (v # us))"

definition of_scalar :: "nat \<Rightarrow> js_string" where
  "of_scalar n =
     (if n < 0x10000 then [word_of_nat n]
      else [word_of_nat (0xD800 + (n - 0x10000) div 0x400),
            word_of_nat (0xDC00 + (n - 0x10000) mod 0x400)])"

definition of_scalars :: "nat list \<Rightarrow> js_string" where
  "of_scalars ns = concat (map of_scalar ns)"

fun well_formed16 :: "js_string \<Rightarrow> bool" where
  "well_formed16 [] = True"
| "well_formed16 [u] = (\<not> is_high u \<and> \<not> is_low u)"
| "well_formed16 (u # v # us) =
     (if is_high u then is_low v \<and> well_formed16 us
      else \<not> is_low u \<and> well_formed16 (v # us))"

definition scalar_ok :: "nat \<Rightarrow> bool" where
  "scalar_ok n \<longleftrightarrow> n < 0xD800 \<or> 0xE000 \<le> n \<and> n < 0x110000"

lemma unat16_less: "unat (u :: 16 word) < 65536"
  by (rule order_less_le_trans [OF unsigned_less]) simp

lemma unit_scalar_ok: "scalar_ok (unit_scalar u)"
  using unat16_less [of u] by (auto simp: scalar_ok_def unit_scalar_def is_high_def is_low_def)

lemma pair_scalar_ok:
  "is_high u \<Longrightarrow> is_low v \<Longrightarrow> scalar_ok (0x10000 + (unat u - 0xD800) * 0x400 + (unat v - 0xDC00))"
  by (auto simp: scalar_ok_def is_high_def is_low_def)

lemma to_scalars_ok: "\<forall>n \<in> set (to_scalars s). scalar_ok n"
  by (induction s rule: to_scalars.induct) (simp_all add: unit_scalar_ok pair_scalar_ok)

lemma of_scalar_unit: "\<not> is_high u \<Longrightarrow> \<not> is_low u \<Longrightarrow> of_scalar (unit_scalar u) = [u]"
  using unat16_less [of u] by (simp add: of_scalar_def unit_scalar_def)

lemma of_scalar_pair:
  assumes "is_high u" and "is_low v"
  shows "of_scalar (0x10000 + (unat u - 0xD800) * 0x400 + (unat v - 0xDC00)) = [u, v]"
proof -
  define a where "a = unat u - 0xD800"
  define b where "b = unat v - 0xDC00"
  have b: "b < 0x400" using assms(2) by (auto simp: b_def is_low_def)
  have ua: "unat u = 0xD800 + a" using assms(1) by (simp add: a_def is_high_def)
  have vb: "unat v = 0xDC00 + b" using assms(2) by (simp add: b_def is_low_def)
  have "(a * 0x400 + b) div 0x400 = a" "(a * 0x400 + b) mod 0x400 = b"
    using b by simp_all
  then have "of_scalar (0x10000 + a * 0x400 + b) = [word_of_nat (unat u), word_of_nat (unat v)]"
    by (simp add: of_scalar_def ua vb)
  then show ?thesis by (simp add: a_def b_def)
qed

lemma of_scalars_Nil [simp]: "of_scalars [] = []"
  by (simp add: of_scalars_def)

lemma of_scalars_Cons [simp]: "of_scalars (n # ns) = of_scalar n @ of_scalars ns"
  by (simp add: of_scalars_def)

lemma of_scalars_to_scalars: "well_formed16 s \<Longrightarrow> of_scalars (to_scalars s) = s"
  by (induction s rule: to_scalars.induct)
    (auto simp: of_scalar_unit of_scalar_pair split: if_splits)

section \<open>UTF-8\<close>

definition utf8_of :: "nat \<Rightarrow> byte list" where
  "utf8_of n =
     (if n < 0x80 then [byte_of n]
      else if n < 0x800 then [byte_of (0xC0 + n div 64), byte_of (0x80 + n mod 64)]
      else if n < 0x10000 then
        [byte_of (0xE0 + n div 4096), byte_of (0x80 + n div 64 mod 64), byte_of (0x80 + n mod 64)]
      else
        [byte_of (0xF0 + n div 262144), byte_of (0x80 + n div 4096 mod 64),
         byte_of (0x80 + n div 64 mod 64), byte_of (0x80 + n mod 64)])"

definition utf8_encode :: "js_string \<Rightarrow> byte list" where
  "utf8_encode s = concat (map utf8_of (to_scalars s))"

function utf8_run :: "nat \<Rightarrow> nat \<Rightarrow> nat \<Rightarrow> nat \<Rightarrow> byte list \<Rightarrow> nat list" where
  "utf8_run need cp lo hi [] = (if need = 0 then [] else [0xFFFD])"
| "utf8_run need cp lo hi (b # bs) =
     (if need = 0 then
        (if unat b < 0x80 then unat b # utf8_run 0 0 0x80 0xBF bs
         else if 0xC2 \<le> unat b \<and> unat b \<le> 0xDF then utf8_run 1 (unat b - 0xC0) 0x80 0xBF bs
         else if 0xE0 \<le> unat b \<and> unat b \<le> 0xEF then
           utf8_run 2 (unat b - 0xE0) (if unat b = 0xE0 then 0xA0 else 0x80)
             (if unat b = 0xED then 0x9F else 0xBF) bs
         else if 0xF0 \<le> unat b \<and> unat b \<le> 0xF4 then
           utf8_run 3 (unat b - 0xF0) (if unat b = 0xF0 then 0x90 else 0x80)
             (if unat b = 0xF4 then 0x8F else 0xBF) bs
         else 0xFFFD # utf8_run 0 0 0x80 0xBF bs)
      else if unat b < lo \<or> hi < unat b then 0xFFFD # utf8_run 0 0 0x80 0xBF (b # bs)
      else if need = 1 then (cp * 64 + (unat b - 0x80)) # utf8_run 0 0 0x80 0xBF bs
      else utf8_run (need - 1) (cp * 64 + (unat b - 0x80)) 0x80 0xBF bs)"
  by pat_completeness auto
termination
  by (relation "measures [\<lambda>(need, cp, lo, hi, bs). length bs, \<lambda>(need, cp, lo, hi, bs). need]") auto

abbreviation utf8_scalars :: "byte list \<Rightarrow> nat list" where
  "utf8_scalars bs \<equiv> utf8_run 0 0 0x80 0xBF bs"

fun strip_bom :: "nat list \<Rightarrow> nat list" where
  "strip_bom [] = []"
| "strip_bom (n # ns) = (if n = 0xFEFF then ns else n # ns)"

definition utf8_decode :: "byte list \<Rightarrow> js_string" where
  "utf8_decode bs = of_scalars (strip_bom (utf8_scalars bs))"

definition wire_text :: "js_string \<Rightarrow> js_string" where
  "wire_text s = of_scalars (strip_bom (to_scalars s))"

declare utf8_run.simps [simp del]

lemma utf8_run_cont:
  assumes "need \<noteq> 0" and "lo \<le> k" and "k \<le> hi" and "hi < 256"
  shows "utf8_run need cp lo hi (byte_of k # bs) =
    (if need = 1 then (cp * 64 + (k - 0x80)) # utf8_scalars bs
     else utf8_run (need - 1) (cp * 64 + (k - 0x80)) 0x80 0xBF bs)"
proof -
  have "unat (byte_of k) = k" using assms by simp
  then show ?thesis using assms by (simp add: utf8_run.simps(2) [of need])
qed

lemma utf8_run_lead2:
  "2 \<le> a \<Longrightarrow> a < 32 \<Longrightarrow> utf8_scalars (byte_of (0xC0 + a) # bs) = utf8_run 1 a 0x80 0xBF bs"
  by (simp add: utf8_run.simps(2) [of 0])

lemma utf8_run_lead3:
  "a < 16 \<Longrightarrow> utf8_scalars (byte_of (0xE0 + a) # bs) =
     utf8_run 2 a (if a = 0 then 0xA0 else 0x80) (if a = 13 then 0x9F else 0xBF) bs"
  by (simp add: utf8_run.simps(2) [of 0])

lemma utf8_run_lead4:
  "a \<le> 4 \<Longrightarrow> utf8_scalars (byte_of (0xF0 + a) # bs) =
     utf8_run 3 a (if a = 0 then 0x90 else 0x80) (if a = 4 then 0x8F else 0xBF) bs"
  by (simp add: utf8_run.simps(2) [of 0])

lemma utf8_run_2:
  assumes "0x80 \<le> n" and "n < 0x800"
  shows "utf8_scalars (byte_of (0xC0 + n div 64) # byte_of (0x80 + n mod 64) # rest) =
    n # utf8_scalars rest"
proof -
  have a: "2 \<le> n div 64" "n div 64 < 32" using assms by auto
  have b: "n mod 64 < 64" by simp
  show ?thesis using b by (simp add: utf8_run_lead2 [OF a] utf8_run_cont)
qed

lemma split_div_64: "(n::nat) div 4096 = n div 64 div 64" "n div 262144 = n div 64 div 64 div 64"
  by (simp_all flip: div_mult2_eq)

lemma utf8_run_3:
  assumes "0x800 \<le> n" and "n < 0x10000" and "scalar_ok n"
  shows "utf8_scalars (byte_of (0xE0 + n div 4096) # byte_of (0x80 + n div 64 mod 64) #
    byte_of (0x80 + n mod 64) # rest) = n # utf8_scalars rest"
proof -
  define q where "q = n div 64"
  define a where "a = q div 64"
  define b where "b = q mod 64"
  define c where "c = n mod 64"
  have q: "q = a * 64 + b" and n: "n = q * 64 + c" by (simp_all add: q_def a_def b_def c_def)
  have lt: "b < 64" "c < 64" by (simp_all add: b_def c_def)
  have a: "a < 16" using assms(2) q n by linarith
  have low: "a = 0 \<Longrightarrow> 32 \<le> b" using assms(1) q n lt by linarith
  have sur: "a = 13 \<Longrightarrow> b < 32" using assms(3) q n lt by (auto simp: scalar_ok_def)
  have lohi: "(if a = 0 then 0xA0 else 0x80) \<le> 0x80 + b" "0x80 + b \<le> (if a = 13 then 0x9F else 0xBF)"
    using low sur lt by auto
  have v: "(a * 64 + b) * 64 + c = n" using q n by simp
  have "utf8_scalars (byte_of (0xE0 + a) # byte_of (0x80 + b) # byte_of (0x80 + c) # rest) =
      utf8_run 1 (a * 64 + b) 0x80 0xBF (byte_of (0x80 + c) # rest)"
    by (subst utf8_run_lead3 [OF a], subst utf8_run_cont) (use lohi in \<open>auto split: if_splits\<close>)
  also have "\<dots> = n # utf8_scalars rest"
    using lt v by (simp add: utf8_run_cont)
  finally show ?thesis by (simp add: split_div_64 q_def a_def b_def c_def)
qed

lemma utf8_run_4:
  assumes "0x10000 \<le> n" and "n < 0x110000"
  shows "utf8_scalars (byte_of (0xF0 + n div 262144) # byte_of (0x80 + n div 4096 mod 64) #
    byte_of (0x80 + n div 64 mod 64) # byte_of (0x80 + n mod 64) # rest) = n # utf8_scalars rest"
proof -
  define q where "q = n div 64"
  define p where "p = q div 64"
  define a where "a = p div 64"
  define b where "b = p mod 64"
  define c where "c = q mod 64"
  define d where "d = n mod 64"
  have p: "p = a * 64 + b" and q: "q = p * 64 + c" and n: "n = q * 64 + d"
    by (simp_all add: p_def q_def a_def b_def c_def d_def)
  have lt: "b < 64" "c < 64" "d < 64" by (simp_all add: b_def c_def d_def)
  have a: "a \<le> 4" using assms(2) p q n by linarith
  have low: "a = 0 \<Longrightarrow> 16 \<le> b" using assms(1) p q n lt by linarith
  have high: "a = 4 \<Longrightarrow> b < 16" using assms(2) p q n by linarith
  have lohi: "(if a = 0 then 0x90 else 0x80) \<le> 0x80 + b" "0x80 + b \<le> (if a = 4 then 0x8F else 0xBF)"
    using low high lt by auto
  have v: "((a * 64 + b) * 64 + c) * 64 + d = n" using p q n by simp
  have "utf8_scalars (byte_of (0xF0 + a) # byte_of (0x80 + b) # byte_of (0x80 + c) #
      byte_of (0x80 + d) # rest) =
      utf8_run 2 (a * 64 + b) 0x80 0xBF (byte_of (0x80 + c) # byte_of (0x80 + d) # rest)"
    by (subst utf8_run_lead4 [OF a], subst utf8_run_cont) (use lohi in \<open>auto split: if_splits\<close>)
  also have "\<dots> = n # utf8_scalars rest"
    using lt v by (simp add: utf8_run_cont)
  finally show ?thesis by (simp add: split_div_64 p_def q_def a_def b_def c_def d_def)
qed

lemma utf8_run_of:
  assumes "scalar_ok n"
  shows "utf8_scalars (utf8_of n @ rest) = n # utf8_scalars rest"
proof -
  consider "n < 0x80" | "0x80 \<le> n" "n < 0x800" | "0x800 \<le> n" "n < 0x10000" | "0x10000 \<le> n"
    by linarith
  then show ?thesis
  proof cases
    case 1
    then show ?thesis by (simp add: utf8_of_def utf8_run.simps(2) [of 0])
  next
    case 2
    then show ?thesis using utf8_run_2 [of n rest] by (simp add: utf8_of_def)
  next
    case 3
    then show ?thesis using utf8_run_3 [of n rest] assms
      by (simp add: utf8_of_def)
  next
    case 4
    then have "n < 0x110000" using assms by (simp add: scalar_ok_def)
    then show ?thesis using utf8_run_4 [of n rest] 4
      by (simp add: utf8_of_def)
  qed
qed

lemma utf8_run_concat:
  "\<forall>n \<in> set ns. scalar_ok n \<Longrightarrow> utf8_scalars (concat (map utf8_of ns) @ rest) = ns @ utf8_scalars rest"
  by (induction ns) (auto simp: utf8_run_of)

lemma utf8_decode_encode: "utf8_decode (utf8_encode s) = wire_text s"
  using utf8_run_concat [OF to_scalars_ok, of s "[]"]
  by (simp add: utf8_decode_def utf8_encode_def wire_text_def utf8_run.simps)

lemma to_scalars_hd_bom:
  "well_formed16 s \<Longrightarrow> s = [] \<or> hd s \<noteq> 0xFEFF \<Longrightarrow> strip_bom (to_scalars s) = to_scalars s"
  using word_unat_eq_iff [of "hd s" "0xFEFF"]
  by (cases s rule: to_scalars.cases) (auto simp: unit_scalar_def is_high_def is_low_def)

lemma wire_text_id:
  "well_formed16 s \<Longrightarrow> s = [] \<or> hd s \<noteq> 0xFEFF \<Longrightarrow> wire_text s = s"
  by (simp add: wire_text_def to_scalars_hd_bom of_scalars_to_scalars)

text \<open>Well-formed UTF-16 without a leading byte-order mark: the texts that come back as they were.\<close>

definition clean_text :: "js_string \<Rightarrow> bool" where
  "clean_text s \<longleftrightarrow> well_formed16 s \<and> (s = [] \<or> hd s \<noteq> 0xFEFF)"

lemma clean_text_wire: "clean_text s \<Longrightarrow> wire_text s = s"
  by (auto simp: clean_text_def intro: wire_text_id)

lemma wire_text_bom: "well_formed16 s \<Longrightarrow> wire_text (0xFEFF # s) = s"
proof -
  assume ok: "well_formed16 s"
  have "to_scalars (0xFEFF # s) = 0xFEFF # to_scalars s"
    by (cases s) (simp_all add: unit_scalar_def is_high_def is_low_def)
  then show ?thesis by (simp add: wire_text_def of_scalars_to_scalars [OF ok])
qed

lemma length_utf8_of: "length (utf8_of n) \<le> 4"
  by (simp add: utf8_of_def)

lemma length_utf8_encode_units: "length (utf8_encode s) \<le> 3 * length s"
proof (induction s rule: to_scalars.induct)
  case 1
  then show ?case by (simp add: utf8_encode_def)
next
  case (2 u)
  have "unit_scalar u < 0x10000" using unat16_less [of u] by (simp add: unit_scalar_def)
  then show ?case by (simp add: utf8_encode_def utf8_of_def)
next
  case (3 u v us)
  have u: "unit_scalar u < 0x10000" using unat16_less [of u] by (simp add: unit_scalar_def)
  show ?case
  proof (cases "is_high u \<and> is_low v")
    case True
    with 3 show ?thesis
      using length_utf8_of [of "0x10000 + (unat u - 0xD800) * 0x400 + (unat v - 0xDC00)"]
      by (simp add: utf8_encode_def)
  next
    case False
    then have "length (utf8_of (unit_scalar u)) \<le> 3" using u by (simp add: utf8_of_def)
    moreover have "length (utf8_encode (v # us)) \<le> 3 * length (v # us)" using 3 False by blast
    ultimately show ?thesis using False by (auto simp: utf8_encode_def)
  qed
qed

end
