(* ===== verification/Wire_Bytes.thy ===== *)
theory Wire_Bytes
  imports Utf8 "HOL-Library.Monad_Syntax"
begin

text \<open>
  \<open>ByteWriter\<close> and \<open>ByteReader\<close> of \<open>src/runtime/wire.js\<close>.

  The writer keeps its whole backing array and the number of bytes written; an operation
  is a function to an option, because the capacity-doubling loop of \<open>_ensure\<close> does not
  return when the capacity is 0. \<open>bw_out\<close> is the abstraction: the bytes \<open>take()\<close>
  returns. Every operation refines an append (\<open>appends\<close>). The reader keeps the whole
  buffer and its cursor; a \<open>RangeError\<close> is the left summand. \<open>parses\<close> relates a reader
  operation to a function on the remaining bytes, and the interpretations of
  \<open>stream_codec\<close> connect the two directions.

  Numbers are exact naturals. The source's doubles agree with them below \<open>2 ^ 53\<close>, the
  writer's documented domain, and the theorems about values state that bound.
\<close>

section \<open>The writer\<close>

record byte_writer =
  bw_buf :: "byte list"
  bw_len :: nat

definition bw_new :: "nat \<Rightarrow> byte_writer" where
  "bw_new initial = \<lparr>bw_buf = replicate initial 0, bw_len = 0\<rparr>"

partial_function (option) grow_cap :: "nat \<Rightarrow> nat \<Rightarrow> nat option" where
  "grow_cap cap want = (if cap < want then grow_cap (cap * 2) want else Some cap)"

definition bw_ensure :: "nat \<Rightarrow> byte_writer \<Rightarrow> byte_writer option" where
  "bw_ensure need w =
     (let want = bw_len w + need in
      if want \<le> length (bw_buf w) then Some w
      else case grow_cap (length (bw_buf w) * 2) want of
        None \<Rightarrow> None
      | Some cap \<Rightarrow> Some (w\<lparr>bw_buf := take (bw_len w) (bw_buf w) @ replicate (cap - bw_len w) 0\<rparr>))"

definition bw_u8 :: "nat \<Rightarrow> byte_writer \<Rightarrow> byte_writer option" where
  "bw_u8 n w = do {
     w \<leftarrow> bw_ensure 1 w;
     Some (w\<lparr>bw_buf := (bw_buf w)[bw_len w := byte_of n], bw_len := bw_len w + 1\<rparr>) }"

fun bw_varint :: "nat \<Rightarrow> byte_writer \<Rightarrow> byte_writer option" where
  "bw_varint value w =
     (if 0x7f < value then do { w \<leftarrow> bw_u8 (value mod 128 + 128) w; bw_varint (value div 128) w }
      else bw_u8 (value mod 128) w)"

declare bw_varint.simps [simp del]

definition bw_bytes :: "byte list \<Rightarrow> byte_writer \<Rightarrow> byte_writer option" where
  "bw_bytes bs w = do {
     w \<leftarrow> bw_ensure (length bs) w;
     Some (w\<lparr>bw_buf := take (bw_len w) (bw_buf w) @ bs @ drop (bw_len w + length bs) (bw_buf w),
             bw_len := bw_len w + length bs\<rparr>) }"

definition be_bytes64 :: "64 word \<Rightarrow> byte list" where
  "be_bytes64 v = map (\<lambda>i. byte_of (unat v div 256 ^ (7 - i))) [0..<8]"

definition be_bytes32 :: "32 word \<Rightarrow> byte list" where
  "be_bytes32 v = map (\<lambda>i. byte_of (unat v div 256 ^ (3 - i))) [0..<4]"

definition bw_f64 :: "64 word \<Rightarrow> byte_writer \<Rightarrow> byte_writer option" where
  "bw_f64 n w = bw_bytes (be_bytes64 n) w"

definition bw_f32 :: "32 word \<Rightarrow> byte_writer \<Rightarrow> byte_writer option" where
  "bw_f32 n w = bw_bytes (be_bytes32 n) w"

definition bw_str :: "js_string \<Rightarrow> byte_writer \<Rightarrow> byte_writer option" where
  "bw_str s w = do {
     let bs = utf8_encode s;
     w \<leftarrow> bw_varint (length bs) w;
     bw_bytes bs w }"

definition bw_take :: "byte_writer \<Rightarrow> byte list" where
  "bw_take w = take (bw_len w) (bw_buf w)"

subsection \<open>Every writer operation appends\<close>

definition bw_inv :: "byte_writer \<Rightarrow> bool" where
  "bw_inv w \<longleftrightarrow> bw_len w \<le> length (bw_buf w) \<and> 0 < length (bw_buf w)"

definition appends :: "(byte_writer \<Rightarrow> byte_writer option) \<Rightarrow> byte list \<Rightarrow> bool" where
  "appends op bs \<longleftrightarrow> (\<forall>w. bw_inv w \<longrightarrow>
     (\<exists>w'. op w = Some w' \<and> bw_inv w' \<and> bw_take w' = bw_take w @ bs))"

fun varint_bytes :: "nat \<Rightarrow> byte list" where
  "varint_bytes n =
     (if 0x7f < n then byte_of (n mod 128 + 128) # varint_bytes (n div 128) else [byte_of n])"

declare varint_bytes.simps [simp del]

definition str_bytes :: "js_string \<Rightarrow> byte list" where
  "str_bytes s = varint_bytes (length (utf8_encode s)) @ utf8_encode s"

lemma grow_cap_Some: "0 < cap \<Longrightarrow> \<exists>c. grow_cap cap want = Some c \<and> want \<le> c \<and> cap \<le> c"
proof (induction "want - cap" arbitrary: cap rule: less_induct)
  case less
  show ?case
  proof (cases "cap < want")
    case True
    then have "want - cap * 2 < want - cap" using less.prems by auto
    from less.hyps [OF this] less.prems obtain c
      where "grow_cap (cap * 2) want = Some c" "want \<le> c" "cap * 2 \<le> c" by auto
    then show ?thesis using True by (subst grow_cap.simps) auto
  next
    case False
    then show ?thesis by (subst grow_cap.simps) auto
  qed
qed

lemma grow_cap_min: "0 < cap \<Longrightarrow> grow_cap cap want = Some c \<Longrightarrow> c \<le> max cap (2 * want)"
proof (induction "want - cap" arbitrary: cap rule: less_induct)
  case less
  show ?case
  proof (cases "cap < want")
    case True
    then have lt: "want - cap * 2 < want - cap" using less.prems by auto
    have "grow_cap (cap * 2) want = Some c" using less.prems(2) True by (simp add: grow_cap.simps [of cap])
    from less.hyps [OF lt _ this] less.prems(1) True show ?thesis by auto
  next
    case False
    then show ?thesis using less.prems by (simp add: grow_cap.simps [of cap])
  qed
qed

lemma bw_ensure_ok:
  assumes "bw_inv w"
  obtains w' where "bw_ensure n w = Some w'" "bw_inv w'" "bw_take w' = bw_take w"
    "bw_len w' = bw_len w" "bw_len w + n \<le> length (bw_buf w')"
proof (cases "bw_len w + n \<le> length (bw_buf w)")
  case True
  then show ?thesis using that [of w] assms by (simp add: bw_ensure_def)
next
  case False
  have "0 < length (bw_buf w) * 2" using assms by (simp add: bw_inv_def)
  from grow_cap_Some [OF this, of "bw_len w + n"] obtain c
    where c: "grow_cap (length (bw_buf w) * 2) (bw_len w + n) = Some c" "bw_len w + n \<le> c"
      "length (bw_buf w) * 2 \<le> c" by auto
  then show ?thesis
    using that [of "w\<lparr>bw_buf := take (bw_len w) (bw_buf w) @ replicate (c - bw_len w) 0\<rparr>"] assms False
    by (auto simp: bw_ensure_def bw_inv_def bw_take_def)
qed

lemma appends_bytes: "appends (bw_bytes bs) bs"
  unfolding appends_def
proof (intro allI impI)
  fix w
  assume "bw_inv w"
  then obtain w1 where w1: "bw_ensure (length bs) w = Some w1" "bw_inv w1" "bw_take w1 = bw_take w"
    "bw_len w1 = bw_len w" "bw_len w + length bs \<le> length (bw_buf w1)"
    by (rule bw_ensure_ok)
  let ?w = "w1\<lparr>bw_buf := take (bw_len w1) (bw_buf w1) @ bs @ drop (bw_len w1 + length bs) (bw_buf w1),
      bw_len := bw_len w1 + length bs\<rparr>"
  have "length (take (bw_len w1) (bw_buf w1)) = bw_len w1" using w1(2) by (simp add: bw_inv_def)
  then have "bw_take ?w = bw_take w1 @ bs" by (simp add: bw_take_def)
  moreover have "bw_inv ?w" using w1(2,4,5) by (simp add: bw_inv_def)
  moreover have "bw_bytes bs w = Some ?w" using w1(1) by (simp add: bw_bytes_def)
  ultimately show "\<exists>w'. bw_bytes bs w = Some w' \<and> bw_inv w' \<and> bw_take w' = bw_take w @ bs"
    using w1(3) by auto
qed

lemma appends_u8: "appends (bw_u8 n) [byte_of n]"
  unfolding appends_def
proof (intro allI impI)
  fix w
  assume "bw_inv w"
  then obtain w1 where w1: "bw_ensure 1 w = Some w1" "bw_inv w1" "bw_take w1 = bw_take w"
    "bw_len w1 = bw_len w" "bw_len w + 1 \<le> length (bw_buf w1)"
    by (rule bw_ensure_ok)
  then have "take (Suc (bw_len w)) ((bw_buf w1)[bw_len w := byte_of n]) = bw_take w @ [byte_of n]"
    by (simp add: take_Suc_conv_app_nth bw_take_def)
  then show "\<exists>w'. bw_u8 n w = Some w' \<and> bw_inv w' \<and> bw_take w' = bw_take w @ [byte_of n]"
    using w1 by (auto simp: bw_u8_def bw_inv_def bw_take_def)
qed

lemma appends_bind:
  assumes "appends f a" and "appends g b"
  shows "appends (\<lambda>w. Option.bind (f w) g) (a @ b)"
  unfolding appends_def
proof (intro allI impI)
  fix w
  assume "bw_inv w"
  with assms(1) obtain w1 where "f w = Some w1" "bw_inv w1" "bw_take w1 = bw_take w @ a"
    by (auto simp: appends_def)
  moreover from assms(2) \<open>bw_inv w1\<close> obtain w2
    where "g w1 = Some w2" "bw_inv w2" "bw_take w2 = bw_take w1 @ b"
    by (auto simp: appends_def)
  ultimately show "\<exists>w'. Option.bind (f w) g = Some w' \<and> bw_inv w' \<and> bw_take w' = bw_take w @ a @ b"
    by auto
qed

lemma appends_Some: "appends Some []"
  by (simp add: appends_def)

lemma appends_varint: "appends (bw_varint n) (varint_bytes n)"
proof (induction n rule: varint_bytes.induct)
  case (1 n)
  show ?case
  proof (cases "0x7f < n")
    case True
    have "appends (\<lambda>w. Option.bind (bw_u8 (n mod 128 + 128) w) (bw_varint (n div 128)))
        ([byte_of (n mod 128 + 128)] @ varint_bytes (n div 128))"
      by (rule appends_bind [OF appends_u8 1 [OF True]])
    then show ?thesis
      using True by (simp add: bw_varint.simps [of n, abs_def] varint_bytes.simps [of n])
  next
    case False
    then show ?thesis
      using appends_u8 [of n] by (simp add: bw_varint.simps [of n, abs_def] varint_bytes.simps [of n])
  qed
qed

lemma appends_str: "appends (bw_str s) (str_bytes s)"
  unfolding bw_str_def [abs_def] str_bytes_def Let_def
  by (rule appends_bind [OF appends_varint appends_bytes])

lemma appends_f64: "appends (bw_f64 n) (be_bytes64 n)"
  unfolding bw_f64_def [abs_def] by (rule appends_bytes)

lemma appends_f32: "appends (bw_f32 n) (be_bytes32 n)"
  unfolding bw_f32_def [abs_def] by (rule appends_bytes)

lemma bw_inv_new: "0 < n \<Longrightarrow> bw_inv (bw_new n)"
  by (simp add: bw_inv_def bw_new_def)

lemma bw_take_new: "bw_take (bw_new n) = []"
  by (simp add: bw_take_def bw_new_def)

lemma appendsD:
  "appends op bs \<Longrightarrow> 0 < n \<Longrightarrow> \<exists>w. op (bw_new n) = Some w \<and> bw_take w = bs"
  using bw_inv_new [of n] by (fastforce simp: appends_def bw_take_new)

text \<open>A writer created with capacity 0 never finishes its first growth.\<close>

lemma grow_cap_zero: "grow_cap 0 want = Some c \<Longrightarrow> want = 0"
proof -
  assume ret: "grow_cap 0 want = Some c"
  have "(0::nat) = 0 \<longrightarrow> want = 0"
  proof (rule grow_cap.raw_induct [where P = "\<lambda>cap want c. cap = 0 \<longrightarrow> want = 0", OF _ ret])
    fix f :: "nat \<Rightarrow> nat \<Rightarrow> nat option" and cap want c
    assume ih: "\<And>cap want c. f cap want = Some c \<Longrightarrow> cap = 0 \<longrightarrow> want = 0"
      and eq: "(if cap < want then f (cap * 2) want else Some cap) = Some c"
    show "cap = 0 \<longrightarrow> want = 0"
      using ih [of "cap * 2" want c] eq by (cases "cap < want") auto
  qed
  then show ?thesis by simp
qed

section \<open>The reader\<close>

datatype range_error =
    ReadPastEnd          \<comment> \<open>\<open>RangeError('wire: read past end')\<close>\<close>
  | UnknownTag nat       \<comment> \<open>\<open>RangeError('wire-value: unknown tag ...')\<close>\<close>
  | BadArrayLength nat   \<comment> \<open>\<open>new Array(n)\<close> with \<open>n\<close> above \<open>2 ^ 32 - 1\<close>\<close>
  | OutOfFuel            \<comment> \<open>no error of the code: excluded by the theorems\<close>

record byte_reader =
  br_buf :: "byte list"
  br_pos :: nat

definition br_new :: "byte list \<Rightarrow> byte_reader" where
  "br_new buf = \<lparr>br_buf = buf, br_pos = 0\<rparr>"

definition br_done :: "byte_reader \<Rightarrow> bool" where
  "br_done r \<longleftrightarrow> length (br_buf r) \<le> br_pos r"

type_synonym 'a reads = "byte_reader \<Rightarrow> range_error + 'a \<times> byte_reader"

definition br_u8 :: "nat reads" where
  "br_u8 r = (if length (br_buf r) \<le> br_pos r then Inl ReadPastEnd
     else Inr (unat (br_buf r ! br_pos r), r\<lparr>br_pos := br_pos r + 1\<rparr>))"

function br_varint_loop :: "nat \<Rightarrow> nat \<Rightarrow> nat reads" where
  "br_varint_loop result mul r =
     (if length (br_buf r) \<le> br_pos r then Inl ReadPastEnd
      else let b = unat (br_buf r ! br_pos r); r = r\<lparr>br_pos := br_pos r + 1\<rparr>;
               result = result + b mod 128 * mul in
        if 128 \<le> b then br_varint_loop result (mul * 128) r else Inr (result, r))"
  by pat_completeness auto
termination
  by (relation "measure (\<lambda>(result, mul, r). length (br_buf r) - br_pos r)") auto

declare br_varint_loop.simps [simp del]

definition br_varint :: "nat reads" where
  "br_varint r =
     (if length (br_buf r) \<le> br_pos r then Inl ReadPastEnd
      else let first = unat (br_buf r ! br_pos r) in
        if first < 0x80 then Inr (first, r\<lparr>br_pos := br_pos r + 1\<rparr>)
        else br_varint_loop 0 1 r)"

definition of_be_bytes :: "byte list \<Rightarrow> nat" where
  "of_be_bytes bs = foldl (\<lambda>v b. v * 256 + unat b) 0 bs"

definition br_f64 :: "64 word reads" where
  "br_f64 r = (if length (br_buf r) < br_pos r + 8 then Inl ReadPastEnd
     else Inr (word_of_nat (of_be_bytes (take 8 (drop (br_pos r) (br_buf r)))),
               r\<lparr>br_pos := br_pos r + 8\<rparr>))"

definition br_f32 :: "32 word reads" where
  "br_f32 r = (if length (br_buf r) < br_pos r + 4 then Inl ReadPastEnd
     else Inr (word_of_nat (of_be_bytes (take 4 (drop (br_pos r) (br_buf r)))),
               r\<lparr>br_pos := br_pos r + 4\<rparr>))"

definition br_str :: "js_string reads" where
  "br_str r = try_bind (br_varint r) (\<lambda>(len, r).
     if length (br_buf r) < br_pos r + len then Inl ReadPastEnd
     else Inr (utf8_decode (take len (drop (br_pos r) (br_buf r))),
               r\<lparr>br_pos := br_pos r + len\<rparr>))"

definition br_rest :: "byte_reader \<Rightarrow> byte list" where
  "br_rest r = drop (br_pos r) (br_buf r)"

subsection \<open>Reader operations as functions of the remaining bytes\<close>

definition parses :: "'a reads \<Rightarrow> (byte list \<Rightarrow> ('a \<times> byte list) option) \<Rightarrow> bool" where
  "parses op get \<longleftrightarrow> (\<forall>r. br_pos r \<le> length (br_buf r) \<longrightarrow>
     (case get (br_rest r) of
        None \<Rightarrow> \<exists>e. op r = Inl e
      | Some (x, rest) \<Rightarrow> \<exists>r'. op r = Inr (x, r') \<and> br_buf r' = br_buf r \<and>
          br_pos r' \<le> length (br_buf r') \<and> br_rest r' = rest))"

fun get_u8 :: "byte list \<Rightarrow> (nat \<times> byte list) option" where
  "get_u8 [] = None"
| "get_u8 (b # bs) = Some (unat b, bs)"

fun get_varint_from :: "nat \<Rightarrow> nat \<Rightarrow> byte list \<Rightarrow> (nat \<times> byte list) option" where
  "get_varint_from result mul [] = None"
| "get_varint_from result mul (b # bs) =
     (if 128 \<le> unat b then get_varint_from (result + unat b mod 128 * mul) (mul * 128) bs
      else Some (result + unat b mod 128 * mul, bs))"

definition get_varint :: "byte list \<Rightarrow> (nat \<times> byte list) option" where
  "get_varint bs = get_varint_from 0 1 bs"

definition get_fixed :: "nat \<Rightarrow> byte list \<Rightarrow> (nat \<times> byte list) option" where
  "get_fixed n bs = (if length bs < n then None else Some (of_be_bytes (take n bs), drop n bs))"

definition get_f64 :: "byte list \<Rightarrow> (64 word \<times> byte list) option" where
  "get_f64 bs = map_option (apfst word_of_nat) (get_fixed 8 bs)"

definition get_str :: "byte list \<Rightarrow> (js_string \<times> byte list) option" where
  "get_str bs = (case get_varint bs of None \<Rightarrow> None
     | Some (len, bs) \<Rightarrow> if length bs < len then None else Some (utf8_decode (take len bs), drop len bs))"

lemma br_rest_Nil: "br_pos r \<le> length (br_buf r) \<Longrightarrow> br_rest r = [] \<longleftrightarrow> br_pos r = length (br_buf r)"
  by (auto simp: br_rest_def)

lemma br_rest_Cons: "br_rest r = b # bs \<Longrightarrow>
  br_pos r < length (br_buf r) \<and> br_buf r ! br_pos r = b \<and> br_rest (r\<lparr>br_pos := br_pos r + 1\<rparr>) = bs"
  unfolding br_rest_def
  by (cases "br_pos r < length (br_buf r)") (auto simp: Cons_nth_drop_Suc [symmetric])

lemma parses_u8: "parses br_u8 get_u8"
  unfolding parses_def
proof (intro allI impI)
  fix r :: byte_reader
  assume p: "br_pos r \<le> length (br_buf r)"
  show "case get_u8 (br_rest r) of None \<Rightarrow> \<exists>e. br_u8 r = Inl e
    | Some (x, rest) \<Rightarrow> \<exists>r'. br_u8 r = Inr (x, r') \<and> br_buf r' = br_buf r \<and>
        br_pos r' \<le> length (br_buf r') \<and> br_rest r' = rest"
  proof (cases "br_rest r")
    case Nil
    then show ?thesis using p br_rest_Nil [OF p] by (simp add: br_u8_def)
  next
    case (Cons b bs)
    then show ?thesis using br_rest_Cons [OF Cons] by (auto simp: br_u8_def)
  qed
qed

lemma br_varint_loop_get:
  "br_pos r \<le> length (br_buf r) \<Longrightarrow>
   (case get_varint_from res mul (br_rest r) of None \<Rightarrow> br_varint_loop res mul r = Inl ReadPastEnd
    | Some (x, rest) \<Rightarrow> \<exists>r'. br_varint_loop res mul r = Inr (x, r') \<and> br_buf r' = br_buf r \<and>
        br_pos r' \<le> length (br_buf r') \<and> br_rest r' = rest)"
proof (induction "br_rest r" arbitrary: res mul r)
  case Nil
  then show ?case using br_rest_Nil [of r] by (simp add: br_varint_loop.simps [of res])
next
  case (Cons b bs)
  note c = br_rest_Cons [OF Cons.hyps(2) [symmetric]]
  define r1 where "r1 = r\<lparr>br_pos := br_pos r + 1\<rparr>"
  have r1: "bs = br_rest r1" "br_pos r1 \<le> length (br_buf r1)" "br_buf r1 = br_buf r"
    using c by (simp_all add: r1_def)
  show ?case
  proof (cases "128 \<le> unat b")
    case True
    have "br_varint_loop res mul r = br_varint_loop (res + unat b mod 128 * mul) (mul * 128) r1"
      using c True by (simp add: br_varint_loop.simps [of res] Let_def r1_def)
    moreover have "get_varint_from res mul (br_rest r) =
        get_varint_from (res + unat b mod 128 * mul) (mul * 128) (br_rest r1)"
      using True r1(1) by (simp flip: Cons.hyps(2))
    ultimately show ?thesis
      using Cons.hyps(1) [OF r1(1,2), of "res + unat b mod 128 * mul" "mul * 128"] r1(3)
      by (auto split: option.splits)
  next
    case False
    then show ?thesis using c
      by (auto simp: br_varint_loop.simps [of res] Let_def simp flip: Cons.hyps(2))
  qed
qed

lemma br_varint_eq: "br_varint r = br_varint_loop 0 1 r"
  using unat_byte_less [of "br_buf r ! br_pos r"]
  by (auto simp: br_varint_def br_varint_loop.simps [of 0] Let_def)

lemma parses_varint: "parses br_varint get_varint"
  using br_varint_loop_get [of _ 0 1] by (fastforce simp: parses_def br_varint_eq get_varint_def split: option.splits)

lemma parses_f64: "parses br_f64 get_f64"
  by (auto simp: parses_def br_f64_def get_f64_def get_fixed_def br_rest_def add.commute)

lemma parses_bind_at_most:
  assumes "parses op get" and "br_pos r \<le> length (br_buf r)" and "get (br_rest r) = Some (x, rest)"
  obtains r' where "op r = Inr (x, r')" "br_buf r' = br_buf r" "br_pos r' \<le> length (br_buf r')"
    "br_rest r' = rest"
  using assms by (fastforce simp: parses_def)

lemma parses_None:
  assumes "parses op get" and "br_pos r \<le> length (br_buf r)" and "get (br_rest r) = None"
  obtains e where "op r = Inl e"
  using assms by (fastforce simp: parses_def)

lemma parses_str: "parses br_str get_str"
  unfolding parses_def
proof (intro allI impI)
  fix r :: byte_reader
  assume p: "br_pos r \<le> length (br_buf r)"
  show "case get_str (br_rest r) of None \<Rightarrow> \<exists>e. br_str r = Inl e
    | Some (x, rest) \<Rightarrow> \<exists>r'. br_str r = Inr (x, r') \<and> br_buf r' = br_buf r \<and>
        br_pos r' \<le> length (br_buf r') \<and> br_rest r' = rest"
  proof (cases "get_varint (br_rest r)")
    case None
    obtain e where "br_varint r = Inl e" by (rule parses_None [OF parses_varint p None])
    with None show ?thesis by (simp add: get_str_def br_str_def)
  next
    case (Some a)
    obtain len bs where a: "a = (len, bs)" by fastforce
    from parses_bind_at_most [OF parses_varint p Some [unfolded a]] obtain r' where
      r': "br_varint r = Inr (len, r')" "br_buf r' = br_buf r" "br_pos r' \<le> length (br_buf r')"
      "br_rest r' = bs" by blast
    then show ?thesis using Some
      by (auto simp: a get_str_def br_str_def br_rest_def add.commute)
  qed
qed

subsection \<open>Reading back what was written\<close>

lemma get_varint_from_bytes:
  "get_varint_from res mul (varint_bytes n @ rest) = Some (res + n * mul, rest)"
proof (induction n arbitrary: res mul rule: varint_bytes.induct)
  case (1 n)
  show ?case
  proof (cases "0x7f < n")
    case True
    have "n mod 128 * mul + n div 128 * (mul * 128) = (n div 128 * 128 + n mod 128) * mul"
      by (simp only: algebra_simps)
    also have "\<dots> = n * mul" by (simp only: div_mult_mod_eq)
    finally have e: "n mod 128 * mul + n div 128 * (mul * 128) = n * mul" .
    have "get_varint_from res mul (varint_bytes n @ rest) =
        get_varint_from (res + n mod 128 * mul) (mul * 128) (varint_bytes (n div 128) @ rest)"
      using True by (simp add: varint_bytes.simps [of n])
    then show ?thesis using "1" [OF True] e by (simp add: add.assoc)
  next
    case False
    then show ?thesis by (simp add: varint_bytes.simps [of n])
  qed
qed

lemma get_varint_bytes [codec_simps]: "get_varint (varint_bytes n @ rest) = Some (n, rest)"
  by (simp add: get_varint_def get_varint_from_bytes)

lemma of_be_bytes_snoc: "of_be_bytes (bs @ [b]) = of_be_bytes bs * 256 + unat b"
  by (simp add: of_be_bytes_def)

lemma of_be_bytes_fixed:
  "of_be_bytes (map (\<lambda>i. byte_of (v div 256 ^ (n - i))) [0..<Suc n]) = v mod 256 ^ Suc n"
proof (induction n arbitrary: v)
  case 0
  then show ?case by (simp add: of_be_bytes_def)
next
  case (Suc n)
  have "map (\<lambda>i. byte_of (v div 256 ^ (Suc n - i))) [0..<Suc n] =
      map (\<lambda>i. byte_of (v div 256 div 256 ^ (n - i))) [0..<Suc n]"
    by (rule map_cong) (auto simp: Suc_diff_le div_mult2_eq)
  then have ih: "of_be_bytes (map (\<lambda>i. byte_of (v div 256 ^ (Suc n - i))) [0..<Suc n]) =
      v div 256 mod 256 ^ Suc n"
    by (simp only: Suc.IH)
  have "[0..<Suc (Suc n)] = [0..<Suc n] @ [Suc n]" by simp
  then have "of_be_bytes (map (\<lambda>i. byte_of (v div 256 ^ (Suc n - i))) [0..<Suc (Suc n)]) =
      (v div 256 mod 256 ^ Suc n) * 256 + v mod 256"
    by (simp only: map_append list.map of_be_bytes_snoc ih) simp
  also have "\<dots> = v mod 256 ^ Suc (Suc n)"
    using mod_mult2_eq [of v 256 "256 ^ Suc n"] by (simp add: mult.commute)
  finally show ?case .
qed

lemma length_be_bytes64 [simp]: "length (be_bytes64 v) = 8"
  by (simp add: be_bytes64_def)

lemma numeral_eqs: "Suc 7 = 8" "[0..<Suc 7] = [0..<8]"
  by simp_all

lemma of_be_bytes64: "of_be_bytes (be_bytes64 v) = unat v"
proof -
  have "of_be_bytes (be_bytes64 v) = unat v mod 256 ^ 8"
    using of_be_bytes_fixed [of "unat v" 7] unfolding be_bytes64_def by (simp only: numeral_eqs)
  also have "\<dots> = unat v"
    by (rule mod_less) (rule order_less_le_trans [OF unsigned_less], simp)
  finally show ?thesis .
qed

lemma get_f64_bytes [codec_simps]: "get_f64 (be_bytes64 v @ rest) = Some (v, rest)"
  by (simp add: get_f64_def get_fixed_def of_be_bytes64)

lemma get_str_bytes [codec_simps]: "get_str (str_bytes s @ rest) = Some (wire_text s, rest)"
  by (simp add: get_str_def str_bytes_def get_varint_bytes utf8_decode_encode)

interpretation varint: stream_codec varint_bytes get_varint "\<lambda>_. True"
  by unfold_locales (rule get_varint_bytes)

interpretation f64: stream_codec be_bytes64 get_f64 "\<lambda>_. True"
  by unfold_locales (rule get_f64_bytes)

interpretation str: stream_codec str_bytes get_str "\<lambda>s. wire_text s = s"
  by unfold_locales (simp add: get_str_bytes)

text \<open>A successful read: the value and the bytes left.\<close>

definition ready :: "byte_reader \<Rightarrow> bool" where
  "ready r \<longleftrightarrow> br_pos r \<le> length (br_buf r)"

definition yields :: "'a reads \<Rightarrow> byte_reader \<Rightarrow> 'a \<Rightarrow> byte list \<Rightarrow> bool" where
  "yields op r x rest \<longleftrightarrow> (\<exists>r'. op r = Inr (x, r') \<and> ready r' \<and> br_rest r' = rest)"

lemma parses_yields:
  "parses op get \<Longrightarrow> ready r \<Longrightarrow> get (br_rest r) = Some (x, rest) \<Longrightarrow> yields op r x rest"
  by (fastforce simp: parses_def ready_def yields_def)

lemma br_u8_yields: "ready r \<Longrightarrow> br_rest r = b # bs \<Longrightarrow> yields br_u8 r (unat b) bs"
  by (rule parses_yields [OF parses_u8]) simp_all

lemma yields_varint: "ready r \<Longrightarrow> br_rest r = varint_bytes n @ bs \<Longrightarrow> yields br_varint r n bs"
  by (rule parses_yields [OF parses_varint]) (simp_all add: codec_simps)

lemma yields_f64: "ready r \<Longrightarrow> br_rest r = be_bytes64 v @ bs \<Longrightarrow> yields br_f64 r v bs"
  by (rule parses_yields [OF parses_f64]) (simp_all add: codec_simps)

lemma yields_str: "ready r \<Longrightarrow> br_rest r = str_bytes s @ bs \<Longrightarrow> yields br_str r (wire_text s) bs"
  by (rule parses_yields [OF parses_str]) (simp_all add: codec_simps)

subsection \<open>Readers consume\<close>

lemma get_varint_from_shorter: "get_varint_from r m bs = Some (x, rest) \<Longrightarrow> length rest < length bs"
  by (induction r m bs rule: get_varint_from.induct) (auto split: if_splits)

lemma get_varint_shorter: "get_varint bs = Some (x, rest) \<Longrightarrow> length rest < length bs"
  by (auto simp: get_varint_def dest: get_varint_from_shorter)

lemma get_u8_shorter: "get_u8 bs = Some (x, rest) \<Longrightarrow> length rest < length bs"
  by (cases bs) auto

lemma get_str_shorter: "get_str bs = Some (x, rest) \<Longrightarrow> length rest < length bs"
  by (auto simp: get_str_def split: option.splits if_splits dest!: get_varint_shorter)

lemma get_f64_shorter: "get_f64 bs = Some (x, rest) \<Longrightarrow> length rest < length bs"
  by (auto simp: get_f64_def get_fixed_def split: if_splits)

lemma varint_bytes_nonempty: "varint_bytes n \<noteq> []"
  by (simp add: varint_bytes.simps [of n])

end
