(* ===== verification/Float64.thy ===== *)
theory Float64
  imports Prelude
begin

text \<open>
  IEEE-754 double precision, as far as the wire modules look inside a number: its 64-bit
  pattern, whether it is finite, and which integer it denotes. A JavaScript number is its
  bit pattern (\<open>f64\<close>); the codecs ship the pattern itself or the integer it denotes.
  \<open>f64_of_int\<close> is exact for magnitudes up to \<open>2 ^ 53\<close>.
\<close>

type_synonym f64 = "64 word"

definition f64_neg :: "f64 \<Rightarrow> bool" where
  "f64_neg w \<longleftrightarrow> 2 ^ 63 \<le> unat w"

definition f64_expo :: "f64 \<Rightarrow> nat" where
  "f64_expo w = unat w div 2 ^ 52 mod 2 ^ 11"

definition f64_frac :: "f64 \<Rightarrow> nat" where
  "f64_frac w = unat w mod 2 ^ 52"

definition f64_make :: "bool \<Rightarrow> nat \<Rightarrow> nat \<Rightarrow> f64" where
  "f64_make s e m = word_of_nat ((if s then 2 ^ 63 else 0) + e * 2 ^ 52 + m)"

definition f64_finite :: "f64 \<Rightarrow> bool" where
  "f64_finite w \<longleftrightarrow> f64_expo w \<noteq> 2047"

definition f64_neg_zero :: f64 where
  "f64_neg_zero = f64_make True 0 0"

definition sgn_int :: "bool \<Rightarrow> nat \<Rightarrow> int" where
  "sgn_int s a = (if s then - int a else int a)"

text \<open>The integer a double denotes, when it denotes one (\<open>Number.isInteger\<close>).\<close>

definition f64_int :: "f64 \<Rightarrow> int option" where
  "f64_int w =
     (let e = f64_expo w; m = f64_frac w in
      if e = 2047 then None
      else if e = 0 then (if m = 0 then Some 0 else None)
      else if 1075 \<le> e then Some (sgn_int (f64_neg w) ((2 ^ 52 + m) * 2 ^ (e - 1075)))
      else if e < 1023 then None
      else if (2 ^ 52 + m) mod 2 ^ (1075 - e) = 0
           then Some (sgn_int (f64_neg w) ((2 ^ 52 + m) div 2 ^ (1075 - e)))
      else None)"

fun ilog2 :: "nat \<Rightarrow> nat" where
  "ilog2 n = (if n < 2 then 0 else Suc (ilog2 (n div 2)))"

declare ilog2.simps [simp del]

definition f64_of_int :: "int \<Rightarrow> f64" where
  "f64_of_int i =
     (if i = 0 then 0
      else let a = nat \<bar>i\<bar>; l = ilog2 a in
        f64_make (i < 0) (1023 + l)
          (if l \<le> 52 then a * 2 ^ (52 - l) - 2 ^ 52 else a div 2 ^ (l - 52) - 2 ^ 52))"

lemma ilog2_bounds: "0 < n \<Longrightarrow> 2 ^ ilog2 n \<le> n \<and> n < 2 ^ Suc (ilog2 n)"
proof (induction n rule: ilog2.induct)
  case (1 n)
  show ?case
  proof (cases "n < 2")
    case True
    then show ?thesis using 1 by (simp add: ilog2.simps [of n])
  next
    case False
    then have "2 ^ ilog2 (n div 2) \<le> n div 2 \<and> n div 2 < 2 ^ Suc (ilog2 (n div 2))"
      using 1 by auto
    moreover have "p \<le> n div 2 \<and> n div 2 < 2 * p \<Longrightarrow> 2 * p \<le> n \<and> n < 2 * (2 * p)" for p
      by arith
    ultimately show ?thesis using False by (simp add: ilog2.simps [of n])
  qed
qed

lemma ilog2_unique:
  assumes "2 ^ l \<le> n" and "n < 2 ^ Suc l"
  shows "ilog2 n = l"
proof -
  have "(0::nat) < 2 ^ l" by simp
  with assms(1) have "0 < n" by (rule order_less_le_trans [rotated])
  then have b: "2 ^ ilog2 n \<le> n" "n < 2 ^ Suc (ilog2 n)" using ilog2_bounds by auto
  from b(1) assms(2) have "(2::nat) ^ ilog2 n < 2 ^ Suc l" by (rule order_le_less_trans)
  moreover from assms(1) b(2) have "(2::nat) ^ l < 2 ^ Suc (ilog2 n)" by (rule order_le_less_trans)
  ultimately show ?thesis by (simp only: power_strict_increasing_iff)
qed

lemma unat_f64_make:
  assumes "e < 2048" and "m < 2 ^ 52"
  shows "unat (f64_make s e m) = (if s then 2 ^ 63 else 0) + e * 2 ^ 52 + m"
proof -
  have "(if s then 2 ^ 63 else 0) + e * 2 ^ 52 + m < (2 ^ 64 :: nat)"
    using assms by auto
  then show ?thesis by (simp only: f64_make_def unat_of_nat) simp
qed

lemma div_mod_split: "m < k \<Longrightarrow> (x * k + m) div k = (x::nat)" "m < k \<Longrightarrow> (x * k + m) mod k = m"
  by auto

lemma f64_make_fields:
  assumes "e < 2048" and "m < 2 ^ 52"
  shows "f64_neg (f64_make s e m) = s" "f64_expo (f64_make s e m) = e" "f64_frac (f64_make s e m) = m"
proof -
  show "f64_neg (f64_make s e m) = s"
    using assms by (auto simp: f64_neg_def unat_f64_make)
  have eq: "(if s then 2 ^ 63 else 0) + e * 2 ^ 52 + m = ((if s then 2048 else 0) + e) * 2 ^ 52 + m"
    by simp
  have "f64_expo (f64_make s e m) = (((if s then 2048 else 0) + e) * 2 ^ 52 + m) div 2 ^ 52 mod 2 ^ 11"
    by (simp only: f64_expo_def unat_f64_make [OF assms] eq)
  also have "\<dots> = ((if s then 2048 else 0) + e) mod 2 ^ 11"
    by (simp only: div_mod_split [OF assms(2)])
  also have "\<dots> = e" using assms(1) by simp
  finally show "f64_expo (f64_make s e m) = e" .
  have "f64_frac (f64_make s e m) = (((if s then 2048 else 0) + e) * 2 ^ 52 + m) mod 2 ^ 52"
    by (simp only: f64_frac_def unat_f64_make [OF assms] eq)
  then show "f64_frac (f64_make s e m) = m" by (simp only: div_mod_split [OF assms(2)])
qed

lemma unat64_less: "unat (w :: 64 word) < 2 ^ 64"
  by (rule order_less_le_trans [OF unsigned_less]) simp

lemma rebuild_fields:
  assumes "q < 4096" and "r < 2 ^ 52"
  shows "(if 2 ^ 63 \<le> q * 2 ^ 52 + r then 2 ^ 63 else 0) + q mod 2 ^ 11 * 2 ^ 52 + r = (q * 2 ^ 52 + r :: nat)"
proof (cases "2048 \<le> q")
  case True
  then obtain u where u: "q = 2048 + u" "u < 2048" using assms(1) by (auto simp: le_iff_add)
  then have "q mod 2 ^ 11 = u" by simp
  then show ?thesis using u by simp
next
  case False
  then have "q \<le> 2047" by simp
  then have "q * 2 ^ 52 \<le> 2047 * 2 ^ 52" by (rule mult_le_mono1)
  then have "\<not> 2 ^ 63 \<le> q * 2 ^ 52 + r" using assms(2) by simp
  then show ?thesis using False by simp
qed

lemma f64_make_of_fields: "f64_make (f64_neg w) (f64_expo w) (f64_frac w) = w"
proof -
  define q where "q = unat w div 2 ^ 52"
  define r where "r = unat w mod 2 ^ 52"
  have q: "q < 4096" using unat64_less [of w] by (simp add: q_def less_mult_imp_div_less)
  have n: "q * 2 ^ 52 + r = unat w" unfolding q_def r_def by (rule div_mult_mod_eq)
  have r: "r < 2 ^ 52" by (simp add: r_def)
  have "f64_make (f64_neg w) (f64_expo w) (f64_frac w) =
      word_of_nat ((if 2 ^ 63 \<le> unat w then 2 ^ 63 else 0) + q mod 2 ^ 11 * 2 ^ 52 + r)"
    by (simp only: f64_make_def f64_neg_def f64_expo_def f64_frac_def q_def r_def)
  also have "\<dots> = word_of_nat (unat w)"
    using rebuild_fields [OF q r] by (simp only: n)
  finally show ?thesis by simp
qed

lemma f64_fields_less: "f64_expo w < 2048" "f64_frac w < 2 ^ 52"
  by (simp_all add: f64_expo_def f64_frac_def)

lemma f64_int_zero: "f64_int 0 = Some 0"
  by (simp add: f64_int_def f64_expo_def f64_frac_def)

lemma signed_abs: "sgn_int (i < 0) (nat \<bar>i\<bar>) = i"
  by (simp add: sgn_int_def)

lemma abs_signed: "\<bar>sgn_int s a\<bar> = int a"
  by (simp add: sgn_int_def)

lemma mantissa:
  assumes "2 ^ l \<le> a" and "a < 2 ^ Suc l" and "l \<le> 52"
  shows "2 ^ 52 \<le> a * 2 ^ (52 - l)" "a * 2 ^ (52 - l) < (2 ^ 53 :: nat)"
proof -
  have "(2::nat) ^ 52 = 2 ^ l * 2 ^ (52 - l)" using assms(3) by (simp flip: power_add)
  then show "2 ^ 52 \<le> a * 2 ^ (52 - l)" using assms(1) by (metis mult_le_mono1)
  have "a * 2 ^ (52 - l) < 2 ^ Suc l * 2 ^ (52 - l)" using assms(2) by simp
  also have "\<dots> = (2::nat) ^ 53" using assms(3) by (simp flip: power_add power_Suc)
  finally show "a * 2 ^ (52 - l) < (2 ^ 53 :: nat)" .
qed

lemma f64_int_of_int:
  assumes "\<bar>i\<bar> \<le> 2 ^ 53"
  shows "f64_int (f64_of_int i) = Some i"
proof (cases "i = 0")
  case True
  then show ?thesis by (simp add: f64_of_int_def f64_int_zero)
next
  case False
  define a where "a = nat \<bar>i\<bar>"
  define l where "l = ilog2 a"
  have a: "0 < a" "a \<le> 2 ^ 53" using False assms by (auto simp: a_def nat_le_iff)
  have lb: "2 ^ l \<le> a" "a < 2 ^ Suc l" using ilog2_bounds [OF a(1)] by (auto simp: l_def)
  have si: "sgn_int (i < 0) a = i" by (simp add: a_def signed_abs)
  show ?thesis
  proof (cases "l \<le> 52")
    case True
    note m = mantissa [OF lb True]
    have f: "f64_of_int i = f64_make (i < 0) (1023 + l) (a * 2 ^ (52 - l) - 2 ^ 52)"
      using False True by (simp add: f64_of_int_def a_def [symmetric] l_def [symmetric])
    have e: "1023 + l < 2048" and fr: "a * 2 ^ (52 - l) - 2 ^ 52 < 2 ^ 52" using True m by auto
    have mant: "2 ^ 52 + (a * 2 ^ (52 - l) - 2 ^ 52) = a * 2 ^ (52 - l)" using m(1) by simp
    note fields = f64_make_fields [OF e fr]
    show ?thesis
    proof (cases "l = 52")
      case True
      then show ?thesis using si unfolding f f64_int_def Let_def fields mant by simp
    next
      case ne: False
      have k: "1075 - (1023 + l) = 52 - l" by simp
      show ?thesis using True ne si
        unfolding f f64_int_def Let_def fields mant k by simp
    qed
  next
    case l53: False
    have "(2::nat) ^ 53 \<le> 2 ^ l" using l53 by (intro power_increasing) auto
    then have a53: "a = 2 ^ 53" using lb(1) a(2) by linarith
    have "l = 53" unfolding l_def a53 by (rule ilog2_unique) auto
    have "f64_of_int i = f64_make (i < 0) (1023 + l)
        (if l \<le> 52 then a * 2 ^ (52 - l) - 2 ^ 52 else a div 2 ^ (l - 52) - 2 ^ 52)"
      using False by (simp add: f64_of_int_def a_def l_def Let_def)
    then have f: "f64_of_int i = f64_make (i < 0) 1076 0"
      using a53 \<open>l = 53\<close> by simp
    have fields: "f64_neg (f64_make (i < 0) 1076 0) = (i < 0)" "f64_expo (f64_make (i < 0) 1076 0) = 1076"
      "f64_frac (f64_make (i < 0) 1076 0) = 0"
      using f64_make_fields [of 1076 0 "i < 0"] by simp_all
    show ?thesis using si a53 by (simp add: f f64_int_def fields)
  qed
qed

lemma f64_of_int_int:
  assumes "f64_int w = Some i" and "\<bar>i\<bar> \<le> 2 ^ 53" and "w \<noteq> f64_neg_zero"
  shows "f64_of_int i = w"
proof -
  define e where "e = f64_expo w"
  define m where "m = f64_frac w"
  define s where "s = f64_neg w"
  have w: "w = f64_make s e m" by (simp add: e_def m_def s_def f64_make_of_fields)
  have m: "m < 2 ^ 52" unfolding m_def by (rule f64_fields_less)
  consider "e = 0" "m = 0" "i = 0"
    | "1075 \<le> e" "e \<noteq> 2047" "i = sgn_int s ((2 ^ 52 + m) * 2 ^ (e - 1075))"
    | "1023 \<le> e" "e < 1075" "(2 ^ 52 + m) mod 2 ^ (1075 - e) = 0"
      "i = sgn_int s ((2 ^ 52 + m) div 2 ^ (1075 - e))"
    using assms(1) by (auto simp: f64_int_def Let_def e_def m_def s_def split: if_splits)
  then show ?thesis
  proof cases
    case 1
    have "\<not> s" using assms(3) w 1 by (auto simp: f64_neg_zero_def)
    then show ?thesis using 1 w by (simp add: f64_of_int_def f64_make_def)
  next
    case 2
    have p53: "(2::int) ^ 53 = int (2 ^ 53)" by simp
    have le: "(2 ^ 52 + m) * 2 ^ (e - 1075) \<le> (2 ^ 53 :: nat)"
      using assms(2) unfolding 2(3) abs_signed p53 of_nat_le_iff .
    have "2 ^ 52 * p \<le> (2 ^ 52 + m) * p" for p :: nat by (rule mult_le_mono1) simp
    from this [of "2 ^ (e - 1075)"] le have "2 ^ 52 * 2 ^ (e - 1075) \<le> (2 ^ 53 :: nat)"
      by (rule order_trans)
    then have "(2::nat) ^ (e - 1075) \<le> 2 ^ 1" by simp
    then have "e - 1075 \<le> 1" by (simp only: power_increasing_iff)
    then consider "e = 1075" | "e = 1076" using 2(1) by linarith
    then show ?thesis
    proof cases
      case 1
      have l: "ilog2 (2 ^ 52 + m) = 52" by (rule ilog2_unique) (use m in auto)
      have i: "i = sgn_int s (2 ^ 52 + m)" using 2(3) 1 by simp
      have "i \<noteq> 0" "(i < 0) = s" "nat \<bar>i\<bar> = 2 ^ 52 + m"
        using i by (auto simp: sgn_int_def)
      then show ?thesis using l 1 w by (simp add: f64_of_int_def)
    next
      case eq: 2
      then have "m = 0" using le by simp
      have l: "ilog2 (2 ^ 53) = 53" by (rule ilog2_unique) auto
      have i: "i = sgn_int s (2 ^ 53)" using 2(3) eq \<open>m = 0\<close> by simp
      have "i \<noteq> 0" "(i < 0) = s" "nat \<bar>i\<bar> = 2 ^ 53" using i by (auto simp: sgn_int_def)
      then show ?thesis using l eq w \<open>m = 0\<close> by (simp add: f64_of_int_def)
    qed
  next
    case 3
    define k where "k = 1075 - e"
    define a where "a = (2 ^ 52 + m) div 2 ^ k"
    have k: "1 \<le> k" "k \<le> 52" "e = 1023 + (52 - k)" using 3(1,2) by (auto simp: k_def)
    have mant: "a * 2 ^ k = 2 ^ 52 + m"
      using 3(3) div_mult_mod_eq [of "2 ^ 52 + m" "2 ^ k"] by (simp add: a_def k_def)
    have p: "(2::nat) ^ 52 = 2 ^ (52 - k) * 2 ^ k" "(2::nat) ^ 53 = 2 ^ Suc (52 - k) * 2 ^ k"
      using k by (simp_all flip: power_add power_Suc)
    have "2 ^ (52 - k) * 2 ^ k \<le> a * 2 ^ k" using mant p(1) by linarith
    moreover have "2 ^ 52 + m < 2 ^ 53" using m by simp
    then have "a * 2 ^ k < 2 ^ Suc (52 - k) * 2 ^ k" by (simp only: mant p(2))
    ultimately have lb: "2 ^ (52 - k) \<le> a" "a < 2 ^ Suc (52 - k)"
      by (simp_all only: mult_le_cancel2 mult_less_cancel2)
    have l: "ilog2 a = 52 - k" by (rule ilog2_unique [OF lb])
    have "0 < a" using lb(1) by (metis less_le_trans zero_less_numeral zero_less_power)
    moreover have "i = sgn_int s a" using 3(4) by (simp add: a_def k_def)
    ultimately have "i \<noteq> 0" "(i < 0) = s" "nat \<bar>i\<bar> = a" by (auto simp: sgn_int_def)
    moreover have "52 - (52 - k) = k" using k by simp
    ultimately show ?thesis using l w k(3) mant by (simp add: f64_of_int_def)
  qed
qed

lemma f64_int_finite: "f64_int w = Some i \<Longrightarrow> f64_finite w"
  by (auto simp: f64_int_def f64_finite_def Let_def split: if_splits)

lemma f64_int_neg_zero: "f64_int f64_neg_zero = Some 0"
  by (simp add: f64_int_def f64_neg_zero_def f64_make_fields)

end
