(* ===== verification/Wire_Value.thy ===== *)
theory Wire_Value
  imports Wire_Bytes Float64
begin

text \<open>
  The schema-free value codec of \<open>src/runtime/wire-value.js\<close>: \<open>writeValue\<close>,
  \<open>readValue\<close>, \<open>encodeValue\<close>, \<open>decodeValue\<close>.

  \<open>value_bytes\<close> is the byte layout the writer is shown to produce, \<open>carried\<close> the value
  that arrives, and \<open>json_trip\<close> an independent definition of what
  \<open>JSON.parse(JSON.stringify(v))\<close> yields. The reader's recursion is over nesting depth;
  it is modelled with fuel, one unit per level, and \<open>decode_value\<close> supplies the length
  of the input, which \<open>decode_value_fuel\<close> shows is never exhausted.

  An object is its own enumerable properties in enumeration order. The reordering of
  integer-like keys, getters, \<open>toJSON\<close> methods and the depth of the JavaScript stack are
  outside the model. The \<open>__proto__\<close> branch of the reader defines the same own property
  that plain assignment defines for any other key, so both are \<open>jm_set\<close> here.
\<close>

section \<open>Values\<close>

datatype jsval =
    JUndef
  | JNull
  | JBool bool
  | JNum f64
  | JStr js_string
  | JArr "jsval list"
  | JObj "(js_string \<times> jsval) list"
  | JFun      \<comment> \<open>a function or a symbol\<close>
  | JBig      \<comment> \<open>a bigint\<close>

definition int_limit :: int where
  "int_limit = 0x10000000000000"

definition zigzag :: "int \<Rightarrow> nat" where
  "zigzag v = nat (if 0 \<le> v then v * 2 else v * (- 2) - 1)"

definition unzigzag :: "nat \<Rightarrow> int" where
  "unzigzag u = (if u mod 2 = 0 then int (u div 2) else - int ((u + 1) div 2))"

fun kept :: "jsval \<Rightarrow> bool" where
  "kept JUndef = False"
| "kept JFun = False"
| "kept _ = True"

section \<open>Writing\<close>

definition write_num :: "f64 \<Rightarrow> byte_writer \<Rightarrow> byte_writer option" where
  "write_num v w =
     (if \<not> f64_finite v then bw_u8 0 w
      else case f64_int v of
        Some i \<Rightarrow>
          if - int_limit \<le> i \<and> i \<le> int_limit
          then do { w \<leftarrow> bw_u8 3 w; bw_varint (zigzag i) w }
          else do { w \<leftarrow> bw_u8 4 w; bw_f64 v w }
      | None \<Rightarrow> do { w \<leftarrow> bw_u8 4 w; bw_f64 v w })"

fun write_value :: "jsval \<Rightarrow> byte_writer \<Rightarrow> byte_writer option"
  and write_elems :: "jsval list \<Rightarrow> byte_writer \<Rightarrow> byte_writer option"
  and write_pairs :: "(js_string \<times> jsval) list \<Rightarrow> byte_writer \<Rightarrow> byte_writer option"
where
  "write_value JUndef w = bw_u8 0 w"
| "write_value JNull w = bw_u8 0 w"
| "write_value (JBool b) w = bw_u8 (if b then 2 else 1) w"
| "write_value (JNum v) w = write_num v w"
| "write_value (JStr s) w = do { w \<leftarrow> bw_u8 5 w; bw_str s w }"
| "write_value (JArr vs) w =
     do { w \<leftarrow> bw_u8 6 w; w \<leftarrow> bw_varint (length vs) w; write_elems vs w }"
| "write_value (JObj kvs) w =
     do { w \<leftarrow> bw_u8 7 w; w \<leftarrow> bw_varint (length (filter (kept \<circ> snd) kvs)) w; write_pairs kvs w }"
| "write_value JFun w = bw_u8 0 w"
| "write_value JBig w = bw_u8 0 w"
| "write_elems [] w = Some w"
| "write_elems (v # vs) w = do { w \<leftarrow> write_value v w; write_elems vs w }"
| "write_pairs [] w = Some w"
| "write_pairs ((k, v) # kvs) w =
     (if \<not> kept v then write_pairs kvs w
      else do { w \<leftarrow> bw_str k w; w \<leftarrow> write_value v w; write_pairs kvs w })"

definition encode_value :: "jsval \<Rightarrow> byte list option" where
  "encode_value v = map_option bw_take (write_value v (bw_new 32))"

section \<open>Reading\<close>

fun read_value :: "nat \<Rightarrow> jsval reads"
  and read_elems :: "nat \<Rightarrow> nat \<Rightarrow> jsval list reads"
  and read_pairs :: "nat \<Rightarrow> nat \<Rightarrow> (js_string, jsval) jsmap \<Rightarrow> (js_string, jsval) jsmap reads"
where
  "read_value 0 r = Inl OutOfFuel"
| "read_value (Suc fuel) r =
     try_bind (br_u8 r) (\<lambda>(tag, r).
       if tag = 0 then Inr (JNull, r)
       else if tag = 1 then Inr (JBool False, r)
       else if tag = 2 then Inr (JBool True, r)
       else if tag = 3 then try_bind (br_varint r) (\<lambda>(u, r). Inr (JNum (f64_of_int (unzigzag u)), r))
       else if tag = 4 then try_bind (br_f64 r) (\<lambda>(v, r). Inr (JNum v, r))
       else if tag = 5 then try_bind (br_str r) (\<lambda>(s, r). Inr (JStr s, r))
       else if tag = 6 then try_bind (br_varint r) (\<lambda>(n, r).
         if 2 ^ 32 \<le> n then Inl (BadArrayLength n)
         else try_bind (read_elems fuel n r) (\<lambda>(vs, r). Inr (JArr vs, r)))
       else if tag = 7 then try_bind (br_varint r) (\<lambda>(n, r).
         try_bind (read_pairs fuel n [] r) (\<lambda>(kvs, r). Inr (JObj kvs, r)))
       else Inl (UnknownTag tag))"
| "read_elems fuel 0 r = Inr ([], r)"
| "read_elems fuel (Suc n) r =
     try_bind (read_value fuel r) (\<lambda>(v, r).
       try_bind (read_elems fuel n r) (\<lambda>(vs, r). Inr (v # vs, r)))"
| "read_pairs fuel 0 acc r = Inr (acc, r)"
| "read_pairs fuel (Suc n) acc r =
     try_bind (br_str r) (\<lambda>(key, r).
       try_bind (read_value fuel r) (\<lambda>(val, r). read_pairs fuel n (jm_set key val acc) r))"

definition decode_value :: "byte list \<Rightarrow> range_error + jsval" where
  "decode_value bytes = map_sum id fst (read_value (Suc (length bytes)) (br_new bytes))"

section \<open>What is written\<close>

definition num_bytes :: "f64 \<Rightarrow> byte list" where
  "num_bytes v =
     (if \<not> f64_finite v then [0]
      else case f64_int v of
        Some i \<Rightarrow> if \<bar>i\<bar> \<le> int_limit then 3 # varint_bytes (zigzag i) else 4 # be_bytes64 v
      | None \<Rightarrow> 4 # be_bytes64 v)"

fun value_bytes :: "jsval \<Rightarrow> byte list"
  and elems_bytes :: "jsval list \<Rightarrow> byte list"
  and pairs_bytes :: "(js_string \<times> jsval) list \<Rightarrow> byte list"
where
  "value_bytes JUndef = [0]"
| "value_bytes JNull = [0]"
| "value_bytes (JBool b) = [if b then 2 else 1]"
| "value_bytes (JNum v) = num_bytes v"
| "value_bytes (JStr s) = 5 # str_bytes s"
| "value_bytes (JArr vs) = 6 # varint_bytes (length vs) @ elems_bytes vs"
| "value_bytes (JObj kvs) = 7 # varint_bytes (length (filter (kept \<circ> snd) kvs)) @ pairs_bytes kvs"
| "value_bytes JFun = [0]"
| "value_bytes JBig = [0]"
| "elems_bytes [] = []"
| "elems_bytes (v # vs) = value_bytes v @ elems_bytes vs"
| "pairs_bytes [] = []"
| "pairs_bytes ((k, v) # kvs) =
     (if \<not> kept v then pairs_bytes kvs else str_bytes k @ value_bytes v @ pairs_bytes kvs)"

lemma byte_of_numerals:
  "byte_of 0 = 0" "byte_of (Suc 0) = 1" "byte_of 1 = 1" "byte_of 2 = 2" "byte_of 3 = 3"
  "byte_of 4 = 4" "byte_of 5 = 5" "byte_of 6 = 6" "byte_of 7 = 7"
  by (simp_all add: byte_of_def)

lemma appends_tag: "appends f bs \<Longrightarrow> appends (\<lambda>w. Option.bind (bw_u8 t w) f) (byte_of t # bs)"
  using appends_bind [OF appends_u8, of f bs t] by simp

lemma appends_num: "appends (write_num v) (num_bytes v)"
proof (cases "f64_int v")
  case None
  then show ?thesis
    using appends_u8 [of 0] appends_tag [OF appends_f64, of 4 v]
    by (simp add: write_num_def [abs_def] num_bytes_def byte_of_numerals)
next
  case (Some i)
  have "(- int_limit \<le> i \<and> i \<le> int_limit) = (\<bar>i\<bar> \<le> int_limit)" by arith
  then show ?thesis
    using Some appends_u8 [of 0] appends_tag [OF appends_f64, of 4 v]
      appends_tag [OF appends_varint, of 3 "zigzag i"]
    by (simp add: write_num_def [abs_def] num_bytes_def byte_of_numerals)
qed

lemma appends_write:
  "appends (write_value v) (value_bytes v)"
  "appends (write_elems vs) (elems_bytes vs)"
  "appends (write_pairs kvs) (pairs_bytes kvs)"
proof (induction v and vs and kvs rule: value_bytes_elems_bytes_pairs_bytes.induct)
  case (3 b)
  then show ?case
    using appends_u8 [of 1] appends_u8 [of 2] by (cases b) (simp_all add: byte_of_numerals [symmetric])
next
  case (5 s)
  then show ?case using appends_tag [OF appends_str, of 5 s] by (simp add: byte_of_numerals)
next
  case (6 vs)
  then show ?case
    using appends_tag [OF appends_bind [OF appends_varint], of "write_elems vs" "elems_bytes vs" 6 "length vs"]
    by (simp add: byte_of_numerals)
next
  case (7 kvs)
  then show ?case
    using appends_tag [OF appends_bind [OF appends_varint], of "write_pairs kvs" "pairs_bytes kvs" 7
      "length (filter (kept \<circ> snd) kvs)"]
    by (simp add: byte_of_numerals)
next
  case (11 v vs)
  then show ?case using appends_bind by fastforce
next
  case (13 k v kvs)
  show ?case
  proof (cases "kept v")
    case True
    then show ?thesis
      using appends_bind [OF appends_str appends_bind [OF 13(2,3)], of k] by simp
  next
    case False
    then show ?thesis using 13 by simp
  qed
qed (use appends_u8 [of 0] appends_num appends_Some in \<open>simp_all add: byte_of_numerals\<close>)

lemma encode_value_bytes: "encode_value v = Some (value_bytes v)"
  using appendsD [OF appends_write(1), of 32 v] by (auto simp: encode_value_def)

section \<open>What arrives\<close>

fun carried :: "jsval \<Rightarrow> jsval"
  and carried_pairs :: "(js_string, jsval) jsmap \<Rightarrow> (js_string \<times> jsval) list \<Rightarrow> (js_string, jsval) jsmap"
where
  "carried (JBool b) = JBool b"
| "carried (JNum v) =
     (if \<not> f64_finite v then JNull else if v = f64_neg_zero then JNum 0 else JNum v)"
| "carried (JStr s) = JStr (wire_text s)"
| "carried (JArr vs) = JArr (map carried vs)"
| "carried (JObj kvs) = JObj (carried_pairs [] kvs)"
| "carried _ = JNull"
| "carried_pairs acc [] = acc"
| "carried_pairs acc ((k, v) # kvs) =
     (if kept v then carried_pairs (jm_set (wire_text k) (carried v) acc) kvs
      else carried_pairs acc kvs)"

fun arrays_ok :: "jsval \<Rightarrow> bool"
where
  "arrays_ok (JArr vs) = (length vs < 2 ^ 32 \<and> list_all arrays_ok vs)"
| "arrays_ok (JObj kvs) = list_all (\<lambda>(k, v). arrays_ok v) kvs"
| "arrays_ok _ = True"

fun depth :: "jsval \<Rightarrow> nat"
where
  "depth (JArr vs) = Suc (Max (insert 0 (set (map depth vs))))"
| "depth (JObj kvs) = Suc (Max (insert 0 (set (map (\<lambda>(k, v). if kept v then depth v else 0) kvs))))"
| "depth _ = 1"

lemma unzigzag_zigzag [simp]: "unzigzag (zigzag i) = i"
proof (cases "0 \<le> i")
  case True
  then obtain n where "i = int n" using nonneg_int_cases by blast
  then show ?thesis by (simp add: zigzag_def unzigzag_def nat_mult_distrib)
next
  case False
  then obtain n where n: "i = - int (Suc n)" by (metis not_le zero_le_imp_eq_int negative_eq_positive neg_int_cases less_imp_Suc_add add.left_neutral zero_less_iff_neq_zero)
  have "zigzag i = 2 * n + 1" by (simp add: zigzag_def n)
  moreover have "(2 * n + 1) mod 2 = 1" "(2 * n + 1 + 1) div 2 = Suc n" by simp_all
  ultimately show ?thesis by (simp add: unzigzag_def n)
qed

lemma zigzag_bound: "\<bar>i\<bar> \<le> int_limit \<Longrightarrow> zigzag i < 2 ^ 53 + 1"
  by (auto simp: zigzag_def int_limit_def nat_less_iff)

lemma yields_tag:
  assumes "ready r" and "br_rest r = t # bs"
  obtains r' where "br_u8 r = Inr (unat t, r')" "ready r'" "br_rest r' = bs"
  using br_u8_yields [OF assms] by (auto simp: yields_def)

lemma number_arrives:
  assumes "f64_int v = Some i" and "\<bar>i\<bar> \<le> int_limit"
  shows "JNum (f64_of_int i) = carried (JNum v)"
proof (cases "v = f64_neg_zero")
  case True
  then show ?thesis using assms(1) f64_int_finite [OF assms(1)] by (simp add: f64_int_neg_zero f64_of_int_def)
next
  case False
  then show ?thesis
    using f64_of_int_int [OF assms(1) _ False] assms(2) f64_int_finite [OF assms(1)]
    by (simp add: int_limit_def)
qed

lemma yields_num:
  assumes "ready r" and "br_rest r = num_bytes v @ rest"
  shows "yields (read_value (Suc fuel)) r (carried (JNum v)) rest"
proof -
  consider "\<not> f64_finite v" "num_bytes v = [0]"
    | i where "f64_finite v" "f64_int v = Some i" "\<bar>i\<bar> \<le> int_limit" "num_bytes v = 3 # varint_bytes (zigzag i)"
    | "f64_finite v" "v \<noteq> f64_neg_zero" "num_bytes v = 4 # be_bytes64 v"
  proof (cases "f64_finite v")
    case False
    then show ?thesis using that(1) by (simp add: num_bytes_def)
  next
    case fin: True
    show ?thesis
    proof (cases "\<exists>i. f64_int v = Some i \<and> \<bar>i\<bar> \<le> int_limit")
      case True
      then show ?thesis using that(2) fin by (auto simp: num_bytes_def)
    next
      case False
      then have "v \<noteq> f64_neg_zero" using f64_int_neg_zero by (auto simp: int_limit_def)
      moreover have "num_bytes v = 4 # be_bytes64 v"
        using False fin by (auto simp: num_bytes_def split: option.split)
      ultimately show ?thesis using that(3) fin by blast
    qed
  qed
  then show ?thesis
  proof cases
    case 1
    with assms obtain r' where "br_u8 r = Inr (unat (0::byte), r')" "ready r'" "br_rest r' = rest"
      by (auto elim: yields_tag)
    then show ?thesis using 1 by (simp add: yields_def)
  next
    case 2
    with assms obtain r' where r': "br_u8 r = Inr (unat (3::byte), r')" "ready r'"
      "br_rest r' = varint_bytes (zigzag i) @ rest"
      by (auto elim: yields_tag)
    from yields_varint [OF r'(2,3)] show ?thesis
      using r'(1) number_arrives [OF 2(2,3)] by (auto simp: yields_def)
  next
    case 3
    with assms obtain r' where r': "br_u8 r = Inr (unat (4::byte), r')" "ready r'"
      "br_rest r' = be_bytes64 v @ rest"
      by (auto elim: yields_tag)
    from yields_f64 [OF r'(2,3)] show ?thesis
      using r'(1) 3 by (auto simp: yields_def)
  qed
qed

lemma yields_leaf:
  assumes "ready r" and "br_rest r = t # rest"
    and "unat t = 0 \<and> x = JNull \<or> unat t = 1 \<and> x = JBool False \<or> unat t = 2 \<and> x = JBool True"
  shows "yields (read_value (Suc fuel)) r x rest"
proof -
  from assms obtain r' where "br_u8 r = Inr (unat t, r')" "ready r'" "br_rest r' = rest"
    by (auto elim: yields_tag)
  then show ?thesis using assms(3) by (auto simp: yields_def)
qed

lemma read_back:
  "arrays_ok v \<Longrightarrow> depth v \<le> fuel \<Longrightarrow> ready r \<Longrightarrow> br_rest r = value_bytes v @ rest \<Longrightarrow>
     yields (read_value fuel) r (carried v) rest"
  "list_all arrays_ok vs \<Longrightarrow> \<forall>v \<in> set vs. depth v \<le> fuel \<Longrightarrow> ready r \<Longrightarrow>
     br_rest r = elems_bytes vs @ rest \<Longrightarrow>
     yields (read_elems fuel (length vs)) r (map carried vs) rest"
  "list_all (\<lambda>(k, v). arrays_ok v) kvs \<Longrightarrow> \<forall>(k, v) \<in> set kvs. kept v \<longrightarrow> depth v \<le> fuel \<Longrightarrow> ready r \<Longrightarrow>
     br_rest r = pairs_bytes kvs @ rest \<Longrightarrow>
     yields (read_pairs fuel (length (filter (kept \<circ> snd) kvs)) acc) r (carried_pairs acc kvs) rest"
proof (induction v and vs and kvs arbitrary: fuel r rest and fuel r rest and fuel r rest acc
    rule: value_bytes_elems_bytes_pairs_bytes.induct)
  case (4 v)
  then obtain f where "fuel = Suc f" by (cases fuel) auto
  then show ?case using yields_num [of r v rest f] 4 by (simp del: read_value.simps carried.simps)
next
  case (5 s)
  then obtain f where f: "fuel = Suc f" by (cases fuel) auto
  from 5(3,4) obtain r' where r': "br_u8 r = Inr (unat (5::byte), r')" "ready r'"
    "br_rest r' = str_bytes s @ rest"
    by (auto elim: yields_tag)
  from yields_str [OF r'(2,3)] show ?case using r'(1) by (auto simp: yields_def f)
next
  case (6 vs)
  then obtain f where f: "fuel = Suc f" by (cases fuel) auto
  from 6(4,5) obtain r1 where r1: "br_u8 r = Inr (unat (6::byte), r1)" "ready r1"
    "br_rest r1 = varint_bytes (length vs) @ elems_bytes vs @ rest"
    by (auto elim: yields_tag)
  from yields_varint [OF r1(2,3)] obtain r2 where r2: "br_varint r1 = Inr (length vs, r2)" "ready r2"
    "br_rest r2 = elems_bytes vs @ rest"
    by (auto simp: yields_def)
  have "list_all arrays_ok vs" "length vs < 2 ^ 32" using 6(2) by simp_all
  moreover have "\<forall>v \<in> set vs. depth v \<le> f" using 6(3) by (simp add: f)
  ultimately have "yields (read_elems f (length vs)) r2 (map carried vs) rest"
    using 6(1) [OF _ _ r2(2,3)] by blast
  then show ?case using r1(1) r2(1) \<open>length vs < 2 ^ 32\<close> by (auto simp: yields_def f)
next
  case (7 kvs)
  then obtain f where f: "fuel = Suc f" by (cases fuel) auto
  let ?n = "length (filter (kept \<circ> snd) kvs)"
  from 7(4,5) obtain r1 where r1: "br_u8 r = Inr (unat (7::byte), r1)" "ready r1"
    "br_rest r1 = varint_bytes ?n @ pairs_bytes kvs @ rest"
    by (auto elim: yields_tag)
  from yields_varint [OF r1(2,3)] obtain r2 where r2: "br_varint r1 = Inr (?n, r2)" "ready r2"
    "br_rest r2 = pairs_bytes kvs @ rest"
    by (auto simp: yields_def)
  have "list_all (\<lambda>(k, v). arrays_ok v) kvs" using 7(2) by simp
  moreover have "\<forall>(k, v) \<in> set kvs. kept v \<longrightarrow> depth v \<le> f"
    using 7(3) by (fastforce simp: f split: if_splits)
  ultimately have "yields (read_pairs f ?n []) r2 (carried_pairs [] kvs) rest"
    using 7(1) [OF _ _ r2(2,3)] by blast
  then show ?case using r1(1) r2(1) by (auto simp: yields_def f)
next
  case (11 v vs)
  from 11(3-6) obtain r1 where r1: "read_value fuel r = Inr (carried v, r1)" "ready r1"
    "br_rest r1 = elems_bytes vs @ rest"
    using 11(1) [of fuel r "elems_bytes vs @ rest"] by (auto simp: yields_def)
  then have "yields (read_elems fuel (length vs)) r1 (map carried vs) rest"
    using 11(2) [of fuel r1 rest] 11(3,4) by simp
  then show ?case using r1(1) by (auto simp: yields_def)
next
  case (13 k v kvs)
  show ?case
  proof (cases "kept v")
    case False
    then show ?thesis using 13 by simp
  next
    case True
    then have nn: "\<not> \<not> kept v" by simp
    from True have "br_rest r = str_bytes k @ value_bytes v @ pairs_bytes kvs @ rest" using 13(7) by simp
    from yields_str [OF 13(6) this] obtain r1 where r1: "br_str r = Inr (wire_text k, r1)" "ready r1"
      "br_rest r1 = value_bytes v @ pairs_bytes kvs @ rest"
      by (auto simp: yields_def)
    then obtain r2 where r2: "read_value fuel r1 = Inr (carried v, r2)" "ready r2"
      "br_rest r2 = pairs_bytes kvs @ rest"
      using 13(2) [OF nn, of fuel r1 "pairs_bytes kvs @ rest"] 13(4,5) True by (auto simp: yields_def)
    then have "yields (read_pairs fuel (length (filter (kept \<circ> snd) kvs)) (jm_set (wire_text k) (carried v) acc)) r2
        (carried_pairs (jm_set (wire_text k) (carried v) acc) kvs) rest"
      using 13(3) [OF nn, of fuel r2 rest] 13(4,5) True by (simp add: comp_def)
    then show ?thesis using r1(1) r2(1) True by (auto simp: yields_def comp_def)
  qed
next
  case (3 b)
  then obtain f where "fuel = Suc f" by (cases fuel) auto
  then show ?case using 3 yields_leaf [of r "if b then 2 else 1" rest "JBool b" f]
    by (cases b) (simp_all del: read_value.simps)
next
  case 1
  then obtain f where "fuel = Suc f" by (cases fuel) auto
  then show ?case using 1 yields_leaf [of r 0 rest JNull f] by (simp del: read_value.simps)
next
  case 2
  then obtain f where "fuel = Suc f" by (cases fuel) auto
  then show ?case using 2 yields_leaf [of r 0 rest JNull f] by (simp del: read_value.simps)
next
  case 8
  then obtain f where "fuel = Suc f" by (cases fuel) auto
  then show ?case using 8 yields_leaf [of r 0 rest JNull f] by (simp del: read_value.simps)
next
  case 9
  then obtain f where "fuel = Suc f" by (cases fuel) auto
  then show ?case using 9 yields_leaf [of r 0 rest JNull f] by (simp del: read_value.simps)
qed (auto simp: yields_def)

lemma value_bytes_nonempty: "1 \<le> length (value_bytes v)"
  using varint_bytes_nonempty by (cases v) (auto simp: num_bytes_def Suc_le_eq split: option.split)

lemma depth_le_bytes:
  "depth v \<le> length (value_bytes v)"
  "\<forall>v \<in> set vs. depth v \<le> length (elems_bytes vs)"
  "\<forall>(k, v) \<in> set kvs. kept v \<longrightarrow> depth v \<le> length (pairs_bytes kvs)"
proof (induction v and vs and kvs rule: value_bytes_elems_bytes_pairs_bytes.induct)
  case (6 vs)
  then show ?case by (auto simp: le_SucI trans_le_add2)
next
  case (7 kvs)
  then show ?case by (fastforce simp: le_SucI trans_le_add2)
next
  case (4 v)
  then show ?case using value_bytes_nonempty [of "JNum v"] by simp
next
  case (13 k v kvs)
  then show ?case by (fastforce simp: trans_le_add2)
qed (auto simp: trans_le_add2 trans_le_add1)

lemma decode_encode_carried:
  assumes "arrays_ok v"
  shows "decode_value (value_bytes v) = Inr (carried v)"
proof -
  have r: "ready (br_new (value_bytes v))" "br_rest (br_new (value_bytes v)) = value_bytes v @ []"
    by (simp_all add: ready_def br_new_def br_rest_def)
  have "depth v \<le> Suc (length (value_bytes v))" using depth_le_bytes(1) [of v] by simp
  from read_back(1) [OF assms this r] show ?thesis by (auto simp: decode_value_def yields_def)
qed

section \<open>The reader returns on every input\<close>

definition progress :: "byte_reader \<Rightarrow> range_error + 'a \<times> byte_reader \<Rightarrow> bool" where
  "progress r res \<longleftrightarrow> (case res of Inl e \<Rightarrow> e \<noteq> OutOfFuel
     | Inr (x, r') \<Rightarrow> ready r' \<and> br_buf r' = br_buf r \<and> br_pos r < br_pos r')"

definition no_regress :: "byte_reader \<Rightarrow> range_error + 'a \<times> byte_reader \<Rightarrow> bool" where
  "no_regress r res \<longleftrightarrow> (case res of Inl e \<Rightarrow> e \<noteq> OutOfFuel
     | Inr (x, r') \<Rightarrow> ready r' \<and> br_buf r' = br_buf r \<and> br_pos r \<le> br_pos r')"

lemma progress_u8: "progress r (br_u8 r)"
  by (auto simp: progress_def br_u8_def ready_def)

lemma progress_varint_loop: "progress r (br_varint_loop res m r)"
proof (induction res m r rule: br_varint_loop.induct)
  case (1 res m r)
  let ?b = "unat (br_buf r ! br_pos r)"
  let ?r = "r\<lparr>br_pos := br_pos r + 1\<rparr>"
  show ?case
  proof (cases "length (br_buf r) \<le> br_pos r")
    case True
    then show ?thesis by (simp add: br_varint_loop.simps [of res] progress_def)
  next
    case inside: False
    show ?thesis
    proof (cases "128 \<le> ?b")
      case True
      have "progress ?r (br_varint_loop (res + ?b mod 128 * m) (m * 128) ?r)"
        using 1 [OF inside refl refl refl] True by simp
      then show ?thesis
        using inside True
        by (auto simp: progress_def br_varint_loop.simps [of res] Let_def split: sum.splits)
    next
      case False
      then show ?thesis
        using inside by (simp add: progress_def br_varint_loop.simps [of res] Let_def ready_def)
    qed
  qed
qed

lemma progress_varint: "progress r (br_varint r)"
  by (simp add: br_varint_eq progress_varint_loop)

lemma progress_f64: "progress r (br_f64 r)"
  by (auto simp: progress_def br_f64_def ready_def)

lemma progress_bind:
  assumes "progress r m" and "\<And>x r'. m = Inr (x, r') \<Longrightarrow> ready r' \<Longrightarrow> br_buf r' = br_buf r \<Longrightarrow>
    br_pos r < br_pos r' \<Longrightarrow> no_regress r' (f (x, r'))"
  shows "progress r (try_bind m f)"
proof (cases m)
  case (Inl e)
  then show ?thesis using assms(1) by (simp add: progress_def)
next
  case (Inr xr)
  obtain x r' where xr: "xr = (x, r')" by fastforce
  have a: "ready r'" "br_buf r' = br_buf r" "br_pos r < br_pos r'"
    using assms(1) by (simp_all add: Inr xr progress_def)
  from assms(2) [OF Inr [unfolded xr] a] a show ?thesis
    by (simp add: Inr xr progress_def no_regress_def split: sum.splits) fastforce
qed

lemma progress_no_regress: "progress r m \<Longrightarrow> no_regress r m"
  by (auto simp: progress_def no_regress_def split: sum.splits)

lemma no_regress_bind:
  assumes "no_regress r m" and "\<And>x r'. m = Inr (x, r') \<Longrightarrow> ready r' \<Longrightarrow> br_buf r' = br_buf r \<Longrightarrow>
    br_pos r \<le> br_pos r' \<Longrightarrow> no_regress r' (f (x, r'))"
  shows "no_regress r (try_bind m f)"
proof (cases m)
  case (Inl e)
  then show ?thesis using assms(1) by (simp add: no_regress_def)
next
  case (Inr xr)
  obtain x r' where xr: "xr = (x, r')" by fastforce
  have a: "ready r'" "br_buf r' = br_buf r" "br_pos r \<le> br_pos r'"
    using assms(1) by (simp_all add: Inr xr no_regress_def)
  from assms(2) [OF Inr [unfolded xr] a] a show ?thesis
    by (simp add: Inr xr no_regress_def split: sum.splits) fastforce
qed

lemma no_regress_Inl: "e \<noteq> OutOfFuel \<Longrightarrow> no_regress r (Inl e)"
  by (simp add: no_regress_def)

lemma no_regress_Inr: "ready r \<Longrightarrow> no_regress r (Inr (x, r))"
  by (simp add: no_regress_def)

lemma progress_str: "progress r (br_str r)"
  unfolding br_str_def
  by (rule progress_bind [OF progress_varint]) (auto simp: no_regress_def ready_def)

lemmas no_regress_reads =
  progress_no_regress [OF progress_varint] progress_no_regress [OF progress_f64]
  progress_no_regress [OF progress_str]

definition enough :: "nat \<Rightarrow> byte_reader \<Rightarrow> bool" where
  "enough fuel r \<longleftrightarrow> ready r \<and> length (br_buf r) < br_pos r + fuel"

lemma enough_mono:
  "enough fuel r \<Longrightarrow> ready r' \<Longrightarrow> br_buf r' = br_buf r \<Longrightarrow> br_pos r \<le> br_pos r' \<Longrightarrow> enough fuel r'"
  by (simp add: enough_def)

lemma elems_return:
  assumes "\<And>r. enough fuel r \<Longrightarrow> progress r (read_value fuel r)" and "enough fuel r"
  shows "no_regress r (read_elems fuel n r)"
  using assms(2)
proof (induction n arbitrary: r)
  case 0
  then show ?case by (simp add: no_regress_Inr enough_def)
next
  case (Suc n)
  show ?case
    unfolding read_elems.simps
    by (rule no_regress_bind [OF progress_no_regress [OF assms(1) [OF Suc.prems]]])
      (auto intro!: no_regress_bind no_regress_Inr Suc.IH intro: enough_mono [OF Suc.prems])
qed

lemma pairs_return:
  assumes "\<And>r. enough fuel r \<Longrightarrow> progress r (read_value fuel r)" and "enough fuel r"
  shows "no_regress r (read_pairs fuel n acc r)"
  using assms(2)
proof (induction n arbitrary: r acc)
  case 0
  then show ?case by (simp add: no_regress_Inr enough_def)
next
  case (Suc n)
  show ?case
    unfolding read_pairs.simps
  proof (rule no_regress_bind [OF progress_no_regress [OF progress_str]], goal_cases)
    case (1 k r1)
    then have e: "enough fuel r1" by (auto intro: enough_mono [OF Suc.prems])
    show ?case
      by (simp, rule no_regress_bind [OF progress_no_regress [OF assms(1) [OF e]]])
        (auto intro!: Suc.IH intro: enough_mono [OF e])
  qed
qed

lemma value_returns: "enough fuel r \<Longrightarrow> progress r (read_value fuel r)"
proof (induction fuel arbitrary: r)
  case 0
  then have False by (auto simp: enough_def ready_def)
  then show ?case ..
next
  case (Suc fuel)
  show ?case
    unfolding read_value.simps
  proof (rule progress_bind [OF progress_u8], goal_cases)
    case (1 tag r1)
    then have e: "enough fuel r1" using Suc.prems by (simp add: enough_def)
    note sub = elems_return [OF Suc.IH] pairs_return [OF Suc.IH]
    show ?case
      using 1(2)
      by (auto intro!: no_regress_bind no_regress_Inr no_regress_Inl no_regress_reads sub
          intro: enough_mono [OF e])
  qed
qed

lemma decode_value_fuel: "decode_value bytes \<noteq> Inl OutOfFuel"
proof -
  have "enough (Suc (length bytes)) (br_new bytes)" by (simp add: enough_def ready_def br_new_def)
  from value_returns [OF this] show ?thesis
    by (auto simp: decode_value_def progress_def map_sum_def split: sum.splits)
qed

section \<open>Parity with JSON\<close>

text \<open>
  \<open>JSON.stringify\<close> as the language defines it: \<open>None\<close> for what has no text (undefined, a function, a
  symbol), which an array replaces by null and an object leaves out. A bigint makes it throw, so \<open>clean\<close>
  excludes it. \<open>json_trip\<close> is what \<open>JSON.parse\<close> of the text yields for a value at an element position.
\<close>

fun serialized :: "jsval \<Rightarrow> jsval option" where
  "serialized JUndef = None"
| "serialized JFun = None"
| "serialized JBig = None"
| "serialized JNull = Some JNull"
| "serialized (JBool b) = Some (JBool b)"
| "serialized (JNum v) =
     Some (if \<not> f64_finite v then JNull else if v = f64_neg_zero then JNum 0 else JNum v)"
| "serialized (JStr s) = Some (JStr s)"
| "serialized (JArr vs) = Some (JArr (map (\<lambda>v. case serialized v of None \<Rightarrow> JNull | Some x \<Rightarrow> x) vs))"
| "serialized (JObj kvs) =
     Some (JObj (concat (map (\<lambda>(k, v). case serialized v of None \<Rightarrow> [] | Some x \<Rightarrow> [(k, x)]) kvs)))"

definition json_trip :: "jsval \<Rightarrow> jsval" where
  "json_trip v = (case serialized v of None \<Rightarrow> JNull | Some x \<Rightarrow> x)"

fun clean :: "jsval \<Rightarrow> bool"
where
  "clean (JStr s) = clean_text s"
| "clean (JArr vs) = (length vs < 2 ^ 32 \<and> list_all clean vs)"
| "clean (JObj kvs) =
     (distinct (map fst kvs) \<and> list_all (\<lambda>(k, v). clean_text k \<and> clean v) kvs)"
| "clean JBig = False"
| "clean _ = True"

lemma clean_arrays_ok: "clean v \<Longrightarrow> arrays_ok v"
proof (induction v rule: arrays_ok.induct)
  case (2 kvs)
  have "arrays_ok y" if "(x, y) \<in> set kvs" for x y
    using 2 that by (fastforce simp: list_all_iff)
  then show ?case by (auto simp: list_all_iff)
qed (auto simp: list_all_iff)

lemma serialized_kept: "v \<noteq> JBig \<Longrightarrow> serialized v = (if kept v then Some (json_trip v) else None)"
  by (cases v) (simp_all add: json_trip_def)

lemma carried_json:
  "clean v \<Longrightarrow> carried v = json_trip v"
  "list_all (\<lambda>(k, v). clean_text k \<and> clean v) kvs \<Longrightarrow> distinct (jm_keys acc @ map fst kvs) \<Longrightarrow>
     carried_pairs acc kvs =
       acc @ concat (map (\<lambda>(k, v). case serialized v of None \<Rightarrow> [] | Some x \<Rightarrow> [(k, x)]) kvs)"
proof (induction v and acc kvs rule: carried_carried_pairs.induct)
  case (4 vs)
  then show ?case by (auto simp: list_all_iff json_trip_def)
next
  case (8 acc k v kvs)
  have ser: "serialized v = (if kept v then Some (json_trip v) else None)"
    by (rule serialized_kept) (use 8(4) in auto)
  show ?case
  proof (cases "kept v")
    case False
    then show ?thesis using 8 ser by simp
  next
    case True
    have "k \<notin> set (jm_keys acc)" using 8(5) by auto
    then have "jm_set k (json_trip v) acc = acc @ [(k, json_trip v)]" by (rule jm_set_append_new)
    then show ?thesis using True 8 ser by (simp add: clean_text_wire)
  qed
qed (simp_all add: clean_text_wire json_trip_def)

text \<open>C20: a value with no bigint, whose strings and keys are well-formed UTF-16 without a
  leading byte-order mark and whose arrays have fewer than \<open>2 ^ 32\<close> elements, encodes, and decoding the bytes gives exactly what
  \<open>JSON.parse(JSON.stringify(v))\<close> gives.\<close>

theorem value_json_parity:
  assumes "clean v"
  shows "\<exists>bs. encode_value v = Some bs \<and> decode_value bs = Inr (json_trip v)"
  using decode_encode_carried [OF clean_arrays_ok [OF assms]] carried_json(1) [OF assms]
  by (simp add: encode_value_bytes)

theorem value_json_parity_witness:
  "\<exists>bs. encode_value (JObj [(js_of ''a'', JArr [JUndef, JNum f64_neg_zero]), (js_of ''b'', JFun), (js_of ''c'', JUndef)]) = Some bs \<and>
     decode_value bs = Inr (json_trip (JObj [(js_of ''a'', JArr [JUndef, JNum f64_neg_zero]), (js_of ''b'', JFun), (js_of ''c'', JUndef)]))"
  by (rule value_json_parity) (simp add: js_of_def clean_text_def is_high_def is_low_def)

text \<open>a string value that begins with U+FEFF arrives without it, where
  \<open>JSON.stringify\<close> and \<open>JSON.parse\<close> keep it.\<close>

theorem value_loses_bom:
  assumes "well_formed16 s"
  shows "map_option decode_value (encode_value (JStr (0xFEFF # s))) = Some (Inr (JStr s))"
  using decode_encode_carried [of "JStr (0xFEFF # s)"] wire_text_bom [OF assms] by (simp add: encode_value_bytes)

theorem value_loses_bom_witness:
  "map_option decode_value (encode_value (JStr (0xFEFF # js_of ''x''))) = Some (Inr (JStr (js_of ''x'')))"
  by (rule value_loses_bom) (simp add: js_of_def is_high_def is_low_def)

text \<open>on every byte string the decoder returns: a value, or one of the range errors the
  code throws, and never for want of recursion fuel.\<close>

theorem decode_value_total:
  "(\<exists>v. decode_value bytes = Inr v) \<or>
   (\<exists>e. decode_value bytes = Inl e \<and> (e = ReadPastEnd \<or> (\<exists>t. e = UnknownTag t) \<or> (\<exists>n. e = BadArrayLength n)))"
  using decode_value_fuel [of bytes]
  by (cases "decode_value bytes") (auto intro: range_error.exhaust)

end
