(* ===== verification/Wire_Frame.thy ===== *)
theory Wire_Frame
  imports Wire_Bytes
begin

text \<open>
  The \<open>0x03\<close> frame envelope of \<open>src/runtime/wire.js\<close> (\<open>buildBinaryFrame\<close>,
  \<open>parseBinaryFrame\<close>), the per-connection table of topic ids (\<open>allocWireId\<close>,
  \<open>retireWireId\<close>) and the per-process capability counts (\<open>createCapCounts\<close>).

  The builder allocates an exactly sized array and writes into it by index: a write past
  the end of a typed array is ignored, as \<open>list_update\<close> is. The injectable allocation
  boundary is the native one, a zeroed allocation and \<open>TypedArray.set\<close>.
\<close>

section \<open>Building a frame\<close>

definition wire_binary_tag :: nat where
  "wire_binary_tag = 3"

fun length_of_varint :: "nat \<Rightarrow> nat" where
  "length_of_varint value = (if 0x7f < value then Suc (length_of_varint (value div 128)) else 1)"

declare length_of_varint.simps [simp del]

type_synonym frame_cursor = "nat \<times> byte list"

definition frame_u8 :: "nat \<Rightarrow> frame_cursor \<Rightarrow> frame_cursor" where
  "frame_u8 n = (\<lambda>(pos, frame). (pos + 1, frame[pos := byte_of n]))"

fun frame_varint :: "nat \<Rightarrow> frame_cursor \<Rightarrow> frame_cursor" where
  "frame_varint value c =
     (if 0x7f < value then frame_varint (value div 128) (frame_u8 (value mod 128 + 128) c)
      else frame_u8 (value mod 128) c)"

declare frame_varint.simps [simp del]

definition frame_copy :: "byte list \<Rightarrow> frame_cursor \<Rightarrow> byte list" where
  "frame_copy payload = (\<lambda>(pos, frame). take pos frame @ payload @ drop (pos + length payload) frame)"

definition build_binary_frame :: "nat \<Rightarrow> nat \<Rightarrow> nat \<Rightarrow> byte list \<Rightarrow> byte list" where
  "build_binary_frame schema_version topic_id seq payload =
     (let header_length = 2 + length_of_varint topic_id + length_of_varint seq;
          frame = replicate (header_length + length payload) 0;
          c = frame_u8 wire_binary_tag (0, frame);
          c = frame_u8 schema_version c;
          c = frame_varint topic_id c;
          c = frame_varint seq c
      in frame_copy payload c)"

record frame_header =
  fh_schema_version :: nat
  fh_topic_id :: nat
  fh_seq :: nat
  fh_payload :: "byte list"

definition parse_binary_frame :: "byte list \<Rightarrow> frame_header option" where
  "parse_binary_frame bytes =
     (if length bytes < 2 \<or> unat (bytes ! 0) \<noteq> wire_binary_tag then None
      else case try_bind (br_u8 (br_new bytes)) (\<lambda>(tag, r).
             try_bind (br_u8 r) (\<lambda>(schema_version, r).
             try_bind (br_varint r) (\<lambda>(topic_id, r).
             try_bind (br_varint r) (\<lambda>(seq, r).
               Inr \<lparr>fh_schema_version = schema_version, fh_topic_id = topic_id, fh_seq = seq,
                     fh_payload = drop (br_pos r) bytes\<rparr>)))) of
        Inl e \<Rightarrow> None
      | Inr h \<Rightarrow> Some h)"

subsection \<open>The bytes of a frame\<close>

definition fills :: "(frame_cursor \<Rightarrow> frame_cursor) \<Rightarrow> byte list \<Rightarrow> bool" where
  "fills op bs \<longleftrightarrow> (\<forall>pos frame. pos + length bs \<le> length frame \<longrightarrow>
     (\<exists>frame'. op (pos, frame) = (pos + length bs, frame') \<and> length frame' = length frame \<and>
       take (pos + length bs) frame' = take pos frame @ bs))"

lemma fillsE:
  assumes "fills op bs" and "pos + length bs \<le> length frame"
  obtains frame' where "op (pos, frame) = (pos + length bs, frame')" "length frame' = length frame"
    "take (pos + length bs) frame' = take pos frame @ bs"
  using assms by (auto simp: fills_def)

lemma fills_u8: "fills (frame_u8 n) [byte_of n]"
  by (simp add: fills_def frame_u8_def take_Suc_conv_app_nth)

lemma fills_comp:
  assumes "fills f a" and "fills g b"
  shows "fills (\<lambda>c. g (f c)) (a @ b)"
  unfolding fills_def
proof (intro allI impI)
  fix pos frame
  assume l: "pos + length (a @ b) \<le> length (frame :: byte list)"
  then have "pos + length a \<le> length frame" by simp
  with assms(1) obtain f1 where f1: "f (pos, frame) = (pos + length a, f1)" "length f1 = length frame"
    "take (pos + length a) f1 = take pos frame @ a"
    by (rule fillsE)
  have "pos + length a + length b \<le> length f1" using l f1(2) by simp
  with assms(2) obtain f2 where f2: "g (pos + length a, f1) = (pos + length a + length b, f2)"
    "length f2 = length f1" "take (pos + length a + length b) f2 = take (pos + length a) f1 @ b"
    by (rule fillsE)
  show "\<exists>frame'. g (f (pos, frame)) = (pos + length (a @ b), frame') \<and> length frame' = length frame \<and>
      take (pos + length (a @ b)) frame' = take pos frame @ a @ b"
    using f1 f2 by (auto simp: add.assoc)
qed

lemma fills_varint: "fills (frame_varint n) (varint_bytes n)"
proof (induction n rule: varint_bytes.induct)
  case (1 n)
  show ?case
  proof (cases "0x7f < n")
    case True
    have "fills (\<lambda>c. frame_varint (n div 128) (frame_u8 (n mod 128 + 128) c))
        ([byte_of (n mod 128 + 128)] @ varint_bytes (n div 128))"
      by (rule fills_comp [OF fills_u8 1 [OF True]])
    then show ?thesis
      using True by (simp add: frame_varint.simps [of n, abs_def] varint_bytes.simps [of n])
  next
    case False
    then show ?thesis
      using fills_u8 [of n] by (simp add: frame_varint.simps [of n, abs_def] varint_bytes.simps [of n])
  qed
qed

lemma length_of_varint_bytes: "length_of_varint n = length (varint_bytes n)"
  by (induction n rule: varint_bytes.induct)
    (simp add: length_of_varint.simps varint_bytes.simps)

definition frame_head :: "nat \<Rightarrow> nat \<Rightarrow> nat \<Rightarrow> byte list" where
  "frame_head v t s = [byte_of wire_binary_tag] @ [byte_of v] @ varint_bytes t @ varint_bytes s"

lemma build_binary_frame_bytes:
  "build_binary_frame v t s payload = frame_head v t s @ payload"
proof -
  let ?f = "replicate (2 + length_of_varint t + length_of_varint s + length payload) 0 :: byte list"
  have "fills (\<lambda>c. frame_varint s (frame_varint t (frame_u8 v (frame_u8 wire_binary_tag c)))) (frame_head v t s)"
    unfolding frame_head_def
    using fills_comp [OF fills_comp [OF fills_comp [OF fills_u8 fills_u8] fills_varint] fills_varint]
    by simp
  moreover have "0 + length (frame_head v t s) \<le> length ?f"
    by (simp add: frame_head_def length_of_varint_bytes)
  ultimately obtain f' where
    "frame_varint s (frame_varint t (frame_u8 v (frame_u8 wire_binary_tag (0, ?f)))) =
       (0 + length (frame_head v t s), f')"
    "length f' = length ?f" "take (0 + length (frame_head v t s)) f' = take 0 ?f @ frame_head v t s"
    by (rule fillsE)
  moreover have "drop (length (frame_head v t s) + length payload) f' = []" if "length f' = length ?f" for f' :: "byte list"
    using that by (simp add: frame_head_def length_of_varint_bytes)
  ultimately show ?thesis by (simp add: build_binary_frame_def frame_copy_def Let_def)
qed

subsection \<open>Parsing a frame\<close>

definition get_header :: "byte list \<Rightarrow> frame_header option" where
  "get_header bs = (case get_u8 bs of None \<Rightarrow> None | Some (tag, bs) \<Rightarrow>
     (case get_u8 bs of None \<Rightarrow> None | Some (v, bs) \<Rightarrow>
       if tag \<noteq> wire_binary_tag then None else
       (case get_varint bs of None \<Rightarrow> None | Some (t, bs) \<Rightarrow>
         (case get_varint bs of None \<Rightarrow> None | Some (s, bs) \<Rightarrow>
           Some \<lparr>fh_schema_version = v, fh_topic_id = t, fh_seq = s, fh_payload = bs\<rparr>))))"

lemma varint_step:
  assumes "br_pos r \<le> length (br_buf r)"
  shows "case get_varint (br_rest r) of None \<Rightarrow> \<exists>e. br_varint r = Inl e
     | Some (x, rest) \<Rightarrow> \<exists>r'. br_varint r = Inr (x, r') \<and> br_buf r' = br_buf r \<and>
          br_pos r' \<le> length (br_buf r') \<and> br_rest r' = rest"
  using parses_varint assms by (simp add: parses_def)

lemma parse_binary_frame_get: "parse_binary_frame bytes = get_header bytes"
proof (cases bytes)
  case Nil
  then show ?thesis by (simp add: parse_binary_frame_def get_header_def)
next
  case (Cons b bs)
  note b = this
  show ?thesis
  proof (cases bs)
    case Nil
    then show ?thesis by (simp add: b parse_binary_frame_def get_header_def)
  next
    case (Cons c cs)
    let ?r = "\<lparr>br_buf = bytes, br_pos = 2\<rparr>"
    have two: "br_u8 (br_new bytes) = Inr (unat b, \<lparr>br_buf = bytes, br_pos = 1\<rparr>)"
      "br_u8 \<lparr>br_buf = bytes, br_pos = 1\<rparr> = Inr (unat c, ?r)"
      by (simp_all add: br_u8_def br_new_def b Cons)
    have rest: "br_rest ?r = cs" "br_pos ?r \<le> length (br_buf ?r)" by (simp_all add: br_rest_def b Cons)
    show ?thesis
    proof (cases "get_varint cs")
      case None
      then show ?thesis using varint_step [OF rest(2)] two rest
        by (auto simp: parse_binary_frame_def get_header_def b Cons)
    next
      case (Some p)
      obtain t cs' where p: "p = (t, cs')" by fastforce
      then obtain r1 where r1: "br_varint ?r = Inr (t, r1)" "br_buf r1 = bytes"
        "br_pos r1 \<le> length (br_buf r1)" "br_rest r1 = cs'"
        using varint_step [OF rest(2)] rest Some by auto
      show ?thesis
        using varint_step [OF r1(3)] two r1 Some p
        by (auto simp: parse_binary_frame_def get_header_def b Cons br_rest_def split: option.splits)
    qed
  qed
qed

lemma get_varint_cut:
  "k < length (varint_bytes n) \<Longrightarrow> get_varint_from res mul (take k (varint_bytes n)) = None"
proof (induction n arbitrary: k res mul rule: varint_bytes.induct)
  case (1 n)
  show ?case
  proof (cases "0x7f < n")
    case True
    with 1 show ?thesis by (cases k) (simp_all add: varint_bytes.simps [of n])
  next
    case False
    with 1 show ?thesis by (cases k) (simp_all add: varint_bytes.simps [of n])
  qed
qed

lemma get_header_cut:
  assumes "k < length (frame_head v t s)"
  shows "get_header (take k (frame_head v t s @ payload)) = None"
proof -
  have t: "take k (frame_head v t s @ payload) = take k (frame_head v t s)" using assms by simp
  consider "k = 0" | "k = 1" | j where "k = Suc (Suc j)" "j < length (varint_bytes t)"
    | j where "k = Suc (Suc (length (varint_bytes t) + j))" "j < length (varint_bytes s)"
  proof (cases "k < 2")
    case True
    then show ?thesis using that(1,2) by linarith
  next
    case False
    then obtain j where j: "k = Suc (Suc j)" by (metis add_2_eq_Suc le_add_diff_inverse not_less)
    show ?thesis
    proof (cases "j < length (varint_bytes t)")
      case True
      then show ?thesis using that(3) j by blast
    next
      case False
      then show ?thesis using that(4) [of "j - length (varint_bytes t)"] j assms
        by (simp add: frame_head_def)
    qed
  qed
  then show ?thesis
    unfolding t
    by cases (simp_all add: get_header_def frame_head_def get_varint_cut get_varint_bytes
        get_varint_def [of "take _ _"])
qed

section \<open>Topic ids of a connection\<close>

record wire_ids =
  wid_by_name :: "(js_string, nat) jsmap"
  wid_next :: nat

definition alloc_wire_id :: "js_string \<Rightarrow> wire_ids option \<Rightarrow> (nat \<times> bool) \<times> wire_ids option" where
  "alloc_wire_id topic slot =
     (let s = (case slot of None \<Rightarrow> \<lparr>wid_by_name = [], wid_next = 1\<rparr> | Some s \<Rightarrow> s) in
      case jm_get (wid_by_name s) topic of
        Some existing \<Rightarrow> ((existing, False), Some s)
      | None \<Rightarrow> ((wid_next s, True),
          Some \<lparr>wid_by_name = jm_set topic (wid_next s) (wid_by_name s), wid_next = wid_next s + 1\<rparr>))"

definition retire_wire_id :: "js_string \<Rightarrow> wire_ids option \<Rightarrow> wire_ids option" where
  "retire_wire_id topic slot = map_option (\<lambda>s. s\<lparr>wid_by_name := jm_del topic (wid_by_name s)\<rparr>) slot"

datatype wire_id_op = AllocId js_string | RetireId js_string

text \<open>The table together with every answer it has given.\<close>

type_synonym wire_id_log = "wire_ids option \<times> (js_string \<times> nat \<times> bool) list"

fun wire_id_step :: "wire_id_log \<Rightarrow> wire_id_op \<Rightarrow> wire_id_log" where
  "wire_id_step (slot, hist) (AllocId t) =
     (case alloc_wire_id t slot of ((i, new), slot') \<Rightarrow> (slot', hist @ [(t, i, new)]))"
| "wire_id_step (slot, hist) (RetireId t) = (retire_wire_id t slot, hist)"

definition wire_id_run :: "wire_id_op list \<Rightarrow> wire_id_log" where
  "wire_id_run ops = foldl wire_id_step (None, []) ops"

definition new_ids :: "(js_string \<times> nat \<times> bool) list \<Rightarrow> nat list" where
  "new_ids hist = map (\<lambda>(t, i, new). i) (filter (\<lambda>(t, i, new). new) hist)"

definition wire_id_inv :: "wire_id_log \<Rightarrow> bool" where
  "wire_id_inv = (\<lambda>(slot, hist).
     (case slot of None \<Rightarrow> hist = []
      | Some s \<Rightarrow> (\<forall>(t, i) \<in> set (wid_by_name s). (t, i, True) \<in> set hist) \<and>
          1 \<le> wid_next s \<and>
          (\<forall>(t, i, new) \<in> set hist. 1 \<le> i \<and> i < wid_next s \<and> (t, i, True) \<in> set hist)) \<and>
     distinct (new_ids hist))"

lemma new_ids_snoc: "new_ids (hist @ [(t, i, b)]) = new_ids hist @ (if b then [i] else [])"
  by (simp add: new_ids_def)

lemma set_new_ids: "set (new_ids hist) = {i. \<exists>t. (t, i, True) \<in> set hist}"
  by (force simp: new_ids_def)

lemma wire_id_inv_step: "wire_id_inv s \<Longrightarrow> wire_id_inv (wire_id_step s e)"
proof -
  assume inv: "wire_id_inv s"
  obtain slot hist where s: "s = (slot, hist)" by fastforce
  show ?thesis
  proof (cases e)
    case (RetireId t)
    then show ?thesis using inv
      by (cases slot) (auto simp: s wire_id_inv_def retire_wire_id_def dest: mem_jm_del_subset [THEN subsetD])
  next
    case (AllocId t)
    show ?thesis
    proof (cases slot)
      case None
      then show ?thesis using inv AllocId
        by (auto simp: s wire_id_inv_def alloc_wire_id_def new_ids_def Let_def)
    next
      case (Some w)
      show ?thesis
      proof (cases "jm_get (wid_by_name w) t")
        case None
        let ?n = "wid_next w"
        have names: "\<And>t i. (t, i) \<in> set (wid_by_name w) \<Longrightarrow> (t, i, True) \<in> set hist"
          and seen: "\<And>t i b. (t, i, b) \<in> set hist \<Longrightarrow> 1 \<le> i \<and> i < ?n \<and> (t, i, True) \<in> set hist"
          and d: "distinct (new_ids hist)" and pos: "1 \<le> ?n"
          using inv by (auto simp: s Some wire_id_inv_def)
        have "?n \<notin> set (new_ids hist)" using seen by (fastforce simp: set_new_ids)
        then have d': "distinct (new_ids (hist @ [(t, ?n, True)]))" using d by (simp add: new_ids_snoc)
        have names': "(t', i, True) \<in> set (hist @ [(t, ?n, True)])"
          if "(t', i) \<in> set (jm_set t ?n (wid_by_name w))" for t' i
          using mem_jm_set [OF that] names by auto
        have seen': "1 \<le> i \<and> i < ?n + 1 \<and> (t', i, True) \<in> set (hist @ [(t, ?n, True)])"
          if "(t', i, b) \<in> set (hist @ [(t, ?n, True)])" for t' i b
          using that seen [of t' i b] pos by auto
        have "wire_id_step s e = (Some \<lparr>wid_by_name = jm_set t ?n (wid_by_name w), wid_next = ?n + 1\<rparr>,
            hist @ [(t, ?n, True)])"
          by (simp add: s Some AllocId alloc_wire_id_def None)
        then show ?thesis using names' seen' d' pos by (fastforce simp: wire_id_inv_def)
      next
        case (Some i)
        then have "(t, i, True) \<in> set hist"
          using inv jm_get_Some_mem [OF Some] by (fastforce simp: s \<open>slot = Some w\<close> wire_id_inv_def)
        then show ?thesis using inv AllocId Some
          by (fastforce simp: s \<open>slot = Some w\<close> wire_id_inv_def alloc_wire_id_def new_ids_snoc Let_def)
      qed
    qed
  qed
qed

interpretation wire_ids: machine "(None, [])" wire_id_step wire_id_inv
  by unfold_locales (simp add: wire_id_inv_def new_ids_def, rule wire_id_inv_step)

lemma new_id_topic:
  "distinct (new_ids hist) \<Longrightarrow> (t, i, True) \<in> set hist \<Longrightarrow> (t', i, True) \<in> set hist \<Longrightarrow> t = t'"
proof (induction hist)
  case Nil
  then show ?case by simp
next
  case (Cons x hist)
  obtain a j b where x: "x = (a, j, b)" by (cases x) auto
  have split: "new_ids (x # hist) = (if b then [j] else []) @ new_ids hist"
    by (simp add: x new_ids_def)
  show ?case
    using Cons split set_new_ids [of hist] by (auto simp: x split: if_splits)
qed

section \<open>Capability counts\<close>

type_synonym cap_counts = "(js_string, nat) jsmap"

definition count_of :: "cap_counts \<Rightarrow> js_string \<Rightarrow> nat" where
  "count_of counts cap = (case jm_get counts cap of None \<Rightarrow> 0 | Some n \<Rightarrow> n)"

definition cap_has :: "cap_counts \<Rightarrow> js_string \<Rightarrow> bool" where
  "cap_has counts cap \<longleftrightarrow> 0 < count_of counts cap"

definition cap_drop :: "js_string \<Rightarrow> cap_counts \<Rightarrow> cap_counts" where
  "cap_drop c counts = (let n = count_of counts c - 1 in
     if 0 < n then jm_set c n counts else jm_del c counts)"

definition cap_add :: "js_string \<Rightarrow> cap_counts \<Rightarrow> cap_counts" where
  "cap_add c counts = jm_set c (count_of counts c + 1) counts"

definition cap_adjust :: "js_string list option \<Rightarrow> js_string list option \<Rightarrow> cap_counts \<Rightarrow> cap_counts" where
  "cap_adjust prev next counts =
     (let counts = (case prev of None \<Rightarrow> counts | Some p \<Rightarrow> fold cap_drop p counts)
      in case next of None \<Rightarrow> counts | Some q \<Rightarrow> fold cap_add q counts)"

text \<open>The connections and what each last advertised (\<open>userData[WS_CAPS]\<close>): a hello
  replaces the set, a close withdraws it. A \<open>Set\<close> is a list without repetitions.\<close>

datatype 'c caps_op = Hello 'c "js_string list" | Bye 'c

type_synonym 'c caps_state = "('c, js_string list) jsmap \<times> cap_counts"

fun caps_step :: "'c caps_state \<Rightarrow> 'c caps_op \<Rightarrow> 'c caps_state" where
  "caps_step (conns, counts) (Hello c caps) =
     (let caps = remdups caps in
      (jm_set c caps conns, cap_adjust (jm_get conns c) (Some caps) counts))"
| "caps_step (conns, counts) (Bye c) = (jm_del c conns, cap_adjust (jm_get conns c) None counts)"

definition holders :: "('c, js_string list) jsmap \<Rightarrow> js_string \<Rightarrow> nat" where
  "holders conns cap = sum_list (map (\<lambda>p. if cap \<in> set (snd p) then 1 else 0) conns)"

definition caps_inv :: "'c caps_state \<Rightarrow> bool" where
  "caps_inv = (\<lambda>(conns, counts). jm_wf conns \<and> (\<forall>p \<in> set conns. distinct (snd p)) \<and>
     (\<forall>cap. count_of counts cap = holders conns cap))"

lemma count_drop: "count_of (cap_drop c counts) cap = count_of counts cap - (if cap = c then 1 else 0)"
  by (simp add: cap_drop_def count_of_def)

lemma count_add: "count_of (cap_add c counts) cap = count_of counts cap + (if cap = c then 1 else 0)"
  by (simp add: cap_add_def count_of_def)

lemma count_drops:
  "distinct p \<Longrightarrow> count_of (fold cap_drop p counts) cap = count_of counts cap - (if cap \<in> set p then 1 else 0)"
  by (induction p arbitrary: counts) (auto simp: count_drop)

lemma count_adds:
  "distinct p \<Longrightarrow> count_of (fold cap_add p counts) cap = count_of counts cap + (if cap \<in> set p then 1 else 0)"
  by (induction p arbitrary: counts) (auto simp: count_add)

lemma count_adjust:
  assumes "\<forall>p. prev = Some p \<longrightarrow> distinct p" and "\<forall>q. next = Some q \<longrightarrow> distinct q"
  shows "count_of (cap_adjust prev next counts) cap =
     count_of counts cap - (case prev of None \<Rightarrow> 0 | Some p \<Rightarrow> if cap \<in> set p then 1 else 0)
       + (case next of None \<Rightarrow> 0 | Some q \<Rightarrow> if cap \<in> set q then 1 else 0)"
  using assms by (auto simp: cap_adjust_def count_drops count_adds split: option.splits)

lemma holders_set:
  "jm_wf conns \<Longrightarrow> holders (jm_set c caps conns) cap =
     holders conns cap - (case jm_get conns c of None \<Rightarrow> 0 | Some p \<Rightarrow> if cap \<in> set p then 1 else 0)
       + (if cap \<in> set caps then 1 else 0)"
  using sum_list_map_jm_set [of "\<lambda>s. if cap \<in> set s then 1 else 0" c caps conns]
    sum_list_map_jm_del [of conns "\<lambda>s. if cap \<in> set s then 1 else 0" c]
  unfolding holders_def by linarith

lemma holders_del:
  "jm_wf conns \<Longrightarrow> holders (jm_del c conns) cap =
     holders conns cap - (case jm_get conns c of None \<Rightarrow> 0 | Some p \<Rightarrow> if cap \<in> set p then 1 else 0)"
  using sum_list_map_jm_del [of conns "\<lambda>s. if cap \<in> set s then 1 else 0" c]
  unfolding holders_def by linarith

lemma caps_inv_step: "caps_inv s \<Longrightarrow> caps_inv (caps_step s e)"
proof -
  assume inv: "caps_inv s"
  obtain conns counts where s: "s = (conns, counts)" by fastforce
  have wf: "jm_wf conns" and d: "\<And>c p. jm_get conns c = Some p \<Longrightarrow> distinct p"
    using inv jm_get_Some_mem by (fastforce simp: s caps_inv_def)+
  show ?thesis
  proof (cases e)
    case (Hello c caps)
    have "count_of (cap_adjust (jm_get conns c) (Some (remdups caps)) counts) cap =
        holders (jm_set c (remdups caps) conns) cap" for cap
      using inv holders_set [OF wf, of c "remdups caps" cap] d
      by (subst count_adjust) (auto simp: s caps_inv_def)
    then show ?thesis using inv wf mem_jm_set [of _ c "remdups caps" conns]
      by (fastforce simp: s Hello caps_inv_def Let_def)
  next
    case (Bye c)
    have "count_of (cap_adjust (jm_get conns c) None counts) cap = holders (jm_del c conns) cap" for cap
      using inv holders_del [OF wf, of c cap] d
      by (subst count_adjust) (auto simp: s caps_inv_def)
    then show ?thesis using inv wf mem_jm_del_subset [of c conns]
      by (auto simp: s Bye caps_inv_def)
  qed
qed

interpretation caps: machine "([], [])" caps_step caps_inv
  by unfold_locales (simp add: caps_inv_def holders_def count_of_def, rule caps_inv_step)

lemma holders_pos: "0 < holders conns cap \<longleftrightarrow> (\<exists>(c, caps) \<in> set conns. cap \<in> set caps)"
  by (induction conns) (auto simp: holders_def)

section \<open>Properties\<close>

text \<open>C37: a built frame parses back to its own header and payload, for every schema version
  byte, topic id, sequence number and payload.\<close>

theorem frame_roundtrip:
  "parse_binary_frame (build_binary_frame v t s payload) =
     Some \<lparr>fh_schema_version = v mod 256, fh_topic_id = t, fh_seq = s, fh_payload = payload\<rparr>"
  by (simp add: parse_binary_frame_get build_binary_frame_bytes get_header_def frame_head_def
      wire_binary_tag_def codec_simps)

text \<open>a frame that is cut anywhere inside its header is rejected: the parser returns no
  header at all, never a wrong one.\<close>

theorem frame_truncated:
  assumes "k < 2 + length_of_varint t + length_of_varint s"
  shows "parse_binary_frame (take k (build_binary_frame v t s payload)) = None"
  unfolding parse_binary_frame_get build_binary_frame_bytes
  by (rule get_header_cut) (use assms in \<open>simp add: frame_head_def length_of_varint_bytes\<close>)

theorem frame_truncated_witness:
  "parse_binary_frame (take 4 (build_binary_frame 1 300 5 [9, 9])) = None"
  by (rule frame_truncated) (simp add: length_of_varint.simps)

text \<open>over any sequence of allocations and retirements on a connection, every id ever
  handed out belongs to one topic, and no id is announced as new twice.\<close>

theorem wire_ids_never_reused:
  "distinct (new_ids (snd (wire_id_run ops))) \<and>
   (\<forall>t t' i a b. (t, i, a) \<in> set (snd (wire_id_run ops)) \<longrightarrow>
      (t', i, b) \<in> set (snd (wire_id_run ops)) \<longrightarrow> t = t')"
proof -
  obtain slot hist where run: "wire_id_run ops = (slot, hist)" by fastforce
  have "wire_id_inv (slot, hist)"
    using wire_ids.run_inv [of ops] by (simp add: run flip: wire_id_run_def)
  then have "distinct (new_ids hist)" "\<And>t i a. (t, i, a) \<in> set hist \<Longrightarrow> (t, i, True) \<in> set hist"
    by (auto simp: wire_id_inv_def split: option.splits)
  then show ?thesis using new_id_topic [of hist] by (simp add: run) blast
qed

theorem wire_ids_never_reused_witness:
  "snd (wire_id_run [AllocId [97], RetireId [97], AllocId [98], AllocId [97], AllocId [98]]) =
     [([97], 1, True), ([98], 2, True), ([97], 3, True), ([98], 2, False)] \<and>
   distinct (new_ids (snd (wire_id_run [AllocId [97], RetireId [97], AllocId [98], AllocId [97], AllocId [98]])))"
  using wire_ids_never_reused [of "[AllocId [97], RetireId [97], AllocId [98], AllocId [97], AllocId [98]]"]
  by (simp add: wire_id_run_def alloc_wire_id_def retire_wire_id_def jm_del_def jm_get_def Let_def)

text \<open>after any sequence of hellos, repeated hellos and closes, the capability counts
  report a capability as present exactly when some open connection advertises it.\<close>

theorem caps_present_iff:
  "(case foldl caps_step ([], []) ops of (conns, counts) \<Rightarrow>
     cap_has counts cap = (\<exists>(c, caps) \<in> set conns. cap \<in> set caps))"
proof -
  obtain conns counts where run: "foldl caps_step ([], []) ops = (conns, counts)" by fastforce
  then have "count_of counts cap = holders conns cap"
    using caps.run_inv [of ops] by (simp add: caps_inv_def)
  then show ?thesis using holders_pos [of conns cap] by (simp add: run cap_has_def)
qed

end
