(* ===== verification/Wire_Lease.thy ===== *)
theory Wire_Lease
  imports Prelude
begin

text \<open>
  The per-connection send gate of \<open>src/runtime/wire.js\<close>: \<open>createLeaseState\<close> and the pure
  functions that size a window and fold saturation (\<open>leasePressureValue\<close>,
  \<open>leaseReportedSaturation\<close>, \<open>leaseGrantSize\<close>, \<open>samplePressureValue\<close>).

  Clock readings and durations are reals, and every operation that reads the clock takes
  the reading as an argument. Permit counts are integers, as the control frames carry
  them. Ratios are exact reals, so rounding of doubles is not modelled; \<open>Math.round\<close> is
  \<open>js_round\<close>. A field the source tests with \<open>typeof\<close> or against \<open>undefined\<close> or \<open>false\<close> is
  an option.
\<close>

section \<open>The gate\<close>

definition max_queued_requests :: nat where
  "max_queued_requests = 256"

definition default_grant_count :: int where
  "default_grant_count = 256"

record lease_opts =
  lo_max_queue :: "nat option"
  lo_request_count :: "int option"
  lo_ttl :: "real option"

record 'a lease =
  ls_max_queue :: nat
  ls_default_count :: int
  ls_default_ttl :: real
  ls_expires_at :: real
  ls_available :: int
  ls_granted :: int
  ls_queue :: "'a list"

definition create_lease :: "lease_opts \<Rightarrow> 'a lease" where
  "create_lease opts =
     \<lparr>ls_max_queue = (case lo_max_queue opts of None \<Rightarrow> max_queued_requests | Some n \<Rightarrow> n),
      ls_default_count = (case lo_request_count opts of None \<Rightarrow> 0 | Some n \<Rightarrow> n),
      ls_default_ttl = (case lo_ttl opts of None \<Rightarrow> 0 | Some t \<Rightarrow> t),
      ls_expires_at = 0, ls_available = 0, ls_granted = 0, ls_queue = []\<rparr>"

definition lease_fresh :: "real \<Rightarrow> 'a lease \<Rightarrow> bool" where
  "lease_fresh now s \<longleftrightarrow> 0 < ls_available s \<and> now < ls_expires_at s"

definition lease_grant :: "real \<Rightarrow> int option \<Rightarrow> real option \<Rightarrow> 'a lease \<Rightarrow> 'a lease" where
  "lease_grant now count ttl s =
     (let c = (case count of None \<Rightarrow> ls_default_count s | Some c \<Rightarrow> c);
          t = (case ttl of None \<Rightarrow> ls_default_ttl s | Some t \<Rightarrow> t)
      in s\<lparr>ls_expires_at := now + t, ls_available := c, ls_granted := c\<rparr>)"

definition lease_try_acquire :: "real \<Rightarrow> 'a lease \<Rightarrow> bool \<times> 'a lease" where
  "lease_try_acquire now s =
     (if \<not> lease_fresh now s then (False, s)
      else (True, s\<lparr>ls_available := ls_available s - 1\<rparr>))"

definition lease_enqueue :: "'a \<Rightarrow> 'a lease \<Rightarrow> bool \<times> 'a lease" where
  "lease_enqueue item s =
     (if ls_max_queue s \<le> length (ls_queue s) then (False, s)
      else (True, s\<lparr>ls_queue := ls_queue s @ [item]\<rparr>))"

fun lease_drain :: "int \<Rightarrow> 'a list \<Rightarrow> 'a list \<times> int \<times> 'a list" where
  "lease_drain available [] = ([], available, [])"
| "lease_drain available (x # queue) =
     (if 0 < available then
        (case lease_drain (available - 1) queue of (drained, a, q) \<Rightarrow> (x # drained, a, q))
      else ([], available, x # queue))"

definition lease_request_n :: "real \<Rightarrow> int \<Rightarrow> real option \<Rightarrow> 'a lease \<Rightarrow> 'a list \<times> 'a lease" where
  "lease_request_n now count ttl s =
     (let t = (case ttl of None \<Rightarrow> ls_default_ttl s | Some t \<Rightarrow> t) in
      case lease_drain count (ls_queue s) of (drained, a, q) \<Rightarrow>
        (drained, s\<lparr>ls_expires_at := now + t, ls_available := a, ls_granted := count, ls_queue := q\<rparr>))"

definition to_int32 :: "int \<Rightarrow> int" where
  "to_int32 i = sint (word_of_int i :: 32 word)"

definition clamp01 :: "real \<Rightarrow> real" where
  "clamp01 r = (if r < 0 then 0 else if r > 1 then 1 else r)"

definition lease_pressure_value :: "int \<Rightarrow> int \<Rightarrow> real option \<Rightarrow> real" where
  "lease_pressure_value granted available fallback =
     (let granted = to_int32 granted in
      if granted \<le> 0 then clamp01 (case fallback of None \<Rightarrow> 0 | Some f \<Rightarrow> f)
      else
        let outstanding = granted - (if available > 0 then available else 0)
        in clamp01 (real_of_int outstanding / real_of_int granted))"

definition lease_pressure :: "real \<Rightarrow> 'a lease \<Rightarrow> real" where
  "lease_pressure now s =
     lease_pressure_value (ls_granted s) (if lease_fresh now s then ls_available s else 0) (Some 0)"

subsection \<open>Runs of the gate\<close>

datatype 'a lease_op =
    LGrant real "int option" "real option"
  | LAcquire real
  | LEnqueue 'a
  | LRequestN real int "real option"

text \<open>The gate beside a ledger: the permits spent in the current window, the items ever
  accepted and the items ever released, in order.\<close>

record 'a lease_ledger =
  ll_gate :: "'a lease"
  ll_spent :: int
  ll_accepted :: "'a list"
  ll_released :: "'a list"

fun lease_step :: "'a lease_ledger \<Rightarrow> 'a lease_op \<Rightarrow> 'a lease_ledger" where
  "lease_step l (LGrant now c t) = l\<lparr>ll_gate := lease_grant now c t (ll_gate l), ll_spent := 0\<rparr>"
| "lease_step l (LAcquire now) =
     (case lease_try_acquire now (ll_gate l) of (ok, g) \<Rightarrow>
        l\<lparr>ll_gate := g, ll_spent := ll_spent l + (if ok then 1 else 0)\<rparr>)"
| "lease_step l (LEnqueue x) =
     (case lease_enqueue x (ll_gate l) of (ok, g) \<Rightarrow>
        l\<lparr>ll_gate := g, ll_accepted := ll_accepted l @ (if ok then [x] else [])\<rparr>)"
| "lease_step l (LRequestN now c t) =
     (case lease_request_n now c t (ll_gate l) of (drained, g) \<Rightarrow>
        l\<lparr>ll_gate := g, ll_spent := int (length drained), ll_released := ll_released l @ drained\<rparr>)"

definition lease_start :: "lease_opts \<Rightarrow> 'a lease_ledger" where
  "lease_start opts = \<lparr>ll_gate = create_lease opts, ll_spent = 0, ll_accepted = [], ll_released = []\<rparr>"

definition lease_inv :: "nat \<Rightarrow> 'a lease_ledger \<Rightarrow> bool" where
  "lease_inv maxq l \<longleftrightarrow>
     ls_max_queue (ll_gate l) = maxq \<and> length (ls_queue (ll_gate l)) \<le> maxq \<and>
     ll_accepted l = ll_released l @ ls_queue (ll_gate l) \<and>
     ls_available (ll_gate l) + ll_spent l = ls_granted (ll_gate l) \<and>
     0 \<le> ll_spent l \<and> ll_spent l \<le> max 0 (ls_granted (ll_gate l))"

lemma lease_drain_spec:
  "lease_drain a q = (d, a', q') \<Longrightarrow>
     q = d @ q' \<and> a' + int (length d) = a \<and> int (length d) \<le> max 0 a \<and> (0 < a' \<longrightarrow> q' = [])"
  by (induction a q arbitrary: d a' q' rule: lease_drain.induct)
    (fastforce split: if_splits prod.splits)+

lemma lease_inv_start:
  "lease_inv (case lo_max_queue opts of None \<Rightarrow> max_queued_requests | Some n \<Rightarrow> n) (lease_start opts)"
  by (simp add: lease_inv_def lease_start_def create_lease_def)

lemma lease_inv_step:
  assumes inv: "lease_inv m l"
  shows "lease_inv m (lease_step l e)"
proof (cases e)
  case (LRequestN now c t)
  obtain d a q where d: "lease_drain c (ls_queue (ll_gate l)) = (d, a, q)" by (metis prod_cases3)
  then have "lease_step l e = l\<lparr>ll_gate := (ll_gate l)\<lparr>ls_expires_at := now + (case t of None \<Rightarrow> ls_default_ttl (ll_gate l) | Some t \<Rightarrow> t),
      ls_available := a, ls_granted := c, ls_queue := q\<rparr>,
      ll_spent := int (length d), ll_released := ll_released l @ d\<rparr>"
    by (simp add: LRequestN lease_request_n_def)
  with lease_drain_spec [OF d] inv show ?thesis by (simp add: lease_inv_def)
qed (use inv in \<open>auto simp: lease_inv_def lease_grant_def lease_try_acquire_def lease_fresh_def lease_enqueue_def Let_def\<close>)

interpretation lease: machine
    "lease_start opts" lease_step
    "lease_inv (case lo_max_queue opts of None \<Rightarrow> max_queued_requests | Some n \<Rightarrow> n)"
  for opts
  by unfold_locales (rule lease_inv_start, rule lease_inv_step)

section \<open>Saturation and sizing\<close>

definition lease_reported_saturation :: "int option \<Rightarrow> real" where
  "lease_reported_saturation raw =
     (case raw of None \<Rightarrow> 0
      | Some raw \<Rightarrow> if raw \<le> 0 then 0
          else if raw \<ge> int max_queued_requests then 1
          else real_of_int raw / real max_queued_requests)"

definition js_round :: "real \<Rightarrow> int" where
  "js_round x = \<lfloor>x + 1 / 2\<rfloor>"

definition heap_knee :: real where
  "heap_knee = 7 / 10"

definition lease_scale :: "real \<Rightarrow> real \<Rightarrow> real" where
  "lease_scale heap_ratio sub_ratio =
     (let scale = 1;
          scale = (if heap_ratio > heap_knee then scale * ((1 - heap_ratio) / (1 - heap_knee)) else scale);
          scale = (if sub_ratio > 25 then scale * (25 / sub_ratio) else scale)
      in if scale < 5 / 100 then 5 / 100 else if scale > 1 then 1 else scale)"

definition lease_grant_size ::
  "real option \<Rightarrow> real option \<Rightarrow> int option \<Rightarrow> int option \<Rightarrow> int"
where
  "lease_grant_size heap sub base_opt floor_opt =
     (let base_n = (case base_opt of None \<Rightarrow> default_grant_count | Some b \<Rightarrow> b);
          floor_n = (case floor_opt of None \<Rightarrow> 8 | Some f \<Rightarrow> f);
          heap_ratio = (case heap of None \<Rightarrow> 0 | Some h \<Rightarrow> if h > 0 then h else 0);
          sub_ratio = (case sub of None \<Rightarrow> 0 | Some s \<Rightarrow> if s > 0 then s else 0)
      in max floor_n (js_round (real_of_int base_n * lease_scale heap_ratio sub_ratio)))"

record pressure_sample =
  ps_heap_used_ratio :: real
  ps_publish_rate :: real
  ps_subscriber_ratio :: real
  ps_psi_cpu :: "real option"
  ps_psi_memory :: "real option"
  ps_psi_io :: "real option"
  ps_throttled :: "real option"

record pressure_thresholds =
  pt_heap_used_ratio :: "real option"
  pt_publish_rate :: "real option"
  pt_subscriber_ratio :: "real option"
  pt_psi_cpu :: "real option"
  pt_psi_memory :: "real option"
  pt_psi_io :: "real option"
  pt_throttled :: "real option"

definition fold_ratio :: "real option \<Rightarrow> real option \<Rightarrow> real \<Rightarrow> real" where
  "fold_ratio threshold reading value =
     (case (threshold, reading) of
        (Some t, Some x) \<Rightarrow> if t > 0 then (let r = x / t in if r > value then r else value) else value
      | _ \<Rightarrow> value)"

definition sample_pressure_value :: "pressure_sample \<Rightarrow> pressure_thresholds \<Rightarrow> real \<Rightarrow> real" where
  "sample_pressure_value s th peak =
     (let value = (if peak > 0 then peak else 0);
          value = fold_ratio (pt_heap_used_ratio th) (Some (ps_heap_used_ratio s)) value;
          value = fold_ratio (pt_publish_rate th) (Some (ps_publish_rate s)) value;
          value = fold_ratio (pt_subscriber_ratio th) (Some (ps_subscriber_ratio s)) value;
          value = fold_ratio (pt_psi_cpu th) (ps_psi_cpu s) value;
          value = fold_ratio (pt_psi_memory th) (ps_psi_memory s) value;
          value = fold_ratio (pt_psi_io th) (ps_psi_io s) value;
          value = fold_ratio (pt_throttled th) (ps_throttled s) value
      in clamp01 value)"

text \<open>The specification of the fold: a reading is at or past a threshold.\<close>

definition pressure_pairs :: "pressure_sample \<Rightarrow> pressure_thresholds \<Rightarrow> (real option \<times> real option) list" where
  "pressure_pairs s th =
     [(pt_heap_used_ratio th, Some (ps_heap_used_ratio s)), (pt_publish_rate th, Some (ps_publish_rate s)),
      (pt_subscriber_ratio th, Some (ps_subscriber_ratio s)), (pt_psi_cpu th, ps_psi_cpu s),
      (pt_psi_memory th, ps_psi_memory s), (pt_psi_io th, ps_psi_io s), (pt_throttled th, ps_throttled s)]"

definition breached :: "real option \<times> real option \<Rightarrow> bool" where
  "breached p = (case p of (Some t, Some x) \<Rightarrow> t > 0 \<and> t \<le> x | _ \<Rightarrow> False)"

lemma clamp01_range: "0 \<le> clamp01 r \<and> clamp01 r \<le> 1"
  by (simp add: clamp01_def)

lemma fold_ratio_ge: "1 \<le> fold_ratio t x v \<longleftrightarrow> 1 \<le> v \<or> breached (t, x)"
proof (cases "\<exists>a b. t = Some a \<and> x = Some b \<and> 0 < a")
  case True
  then obtain a b where ab: "t = Some a" "x = Some b" "0 < a" by blast
  have "fold_ratio t x v = max v (b / a)" by (simp add: ab fold_ratio_def Let_def max_def)
  moreover have "1 \<le> b / a \<longleftrightarrow> a \<le> b" using ab(3) by (rule le_divide_eq_1_pos)
  ultimately show ?thesis using ab by (simp add: breached_def le_max_iff_disj)
next
  case False
  then show ?thesis by (auto simp: fold_ratio_def breached_def split: option.splits)
qed

lemma clamp01_one: "clamp01 r = 1 \<longleftrightarrow> 1 \<le> r"
  by (auto simp: clamp01_def)

lemma fold_ratio_mono: "v \<le> w \<Longrightarrow> fold_ratio t x v \<le> fold_ratio t x w"
  by (auto simp: fold_ratio_def Let_def split: option.splits)

lemma clamp01_mono: "a \<le> b \<Longrightarrow> clamp01 a \<le> clamp01 b"
  by (auto simp: clamp01_def)

lemma lease_scale_range: "5 / 100 \<le> lease_scale h s \<and> lease_scale h s \<le> 1"
  by (simp add: lease_scale_def Let_def)

definition lease_raw_scale :: "real \<Rightarrow> real \<Rightarrow> real" where
  "lease_raw_scale h s =
     (if h > heap_knee then (1 - h) / (1 - heap_knee) else 1) * (if s > 25 then 25 / s else 1)"

lemma lease_scale_raw: "lease_scale h s = max (5 / 100) (min 1 (lease_raw_scale h s))"
proof -
  have "lease_scale h s = (let r = lease_raw_scale h s in if r < 5 / 100 then 5 / 100 else if r > 1 then 1 else r)"
    unfolding lease_scale_def lease_raw_scale_def Let_def by (simp only: mult_1_left mult_1_right if_cancel split: if_split) simp
  then show ?thesis by (simp add: Let_def max_def min_def)
qed

lemma lease_scale_antimono:
  assumes "0 \<le> h" "h \<le> h'" "0 \<le> s" "s \<le> s'"
  shows "lease_scale h' s' \<le> lease_scale h s"
proof -
  let ?a = "\<lambda>h. if h > heap_knee then (1 - h) / (1 - heap_knee) else (1::real)"
  let ?b = "\<lambda>s. if s > 25 then 25 / s else (1::real)"
  have a: "?a h' \<le> ?a h" using assms(1,2) by (simp add: heap_knee_def)
  have b: "?b s' \<le> ?b s" "0 < ?b s'" "0 < ?b s"
    using assms(3,4) by (auto simp: frac_le)
  show ?thesis
  proof (cases "0 \<le> ?a h'")
    case True
    with a have "0 \<le> ?a h" by linarith
    then have "?a h' * ?b s' \<le> ?a h * ?b s"
      using a b True by (intro mult_mono) auto
    then show ?thesis by (simp add: lease_scale_raw lease_raw_scale_def)
  next
    case False
    then have "?a h' * ?b s' \<le> 0" using b(2) by (simp only: mult_nonpos_nonneg)
    then show ?thesis using lease_scale_range [of h s]
      by (simp add: lease_scale_raw [of h'] lease_raw_scale_def [of h'])
  qed
qed

section \<open>Properties\<close>

text \<open>over any sequence of grants, acquisitions, enqueues and replenishments, no window
  spends more permits than it was granted, the queue never passes its bound, and the items
  accepted are exactly the items released so far followed by the items still queued, in
  the order they arrived.\<close>

theorem lease_window_and_fifo:
  fixes opts :: lease_opts and ops :: "'a lease_op list"
  defines "l \<equiv> foldl lease_step (lease_start opts) ops"
  shows "ll_spent l \<le> max 0 (ls_granted (ll_gate l)) \<and>
     length (ls_queue (ll_gate l)) \<le>
       (case lo_max_queue opts of None \<Rightarrow> max_queued_requests | Some n \<Rightarrow> n) \<and>
     ll_accepted l = ll_released l @ ls_queue (ll_gate l)"
  using lease.run_inv [of opts ops] by (simp add: lease_inv_def l_def)

text \<open>at or past a window's absolute deadline no acquisition succeeds or changes the
  gate, and a gate that was granted a window reads as fully saturated.\<close>

theorem lease_dead_after_deadline:
  assumes "ls_expires_at s \<le> now"
  shows "lease_try_acquire now s = (False, s) \<and>
     (0 < to_int32 (ls_granted s) \<longrightarrow> lease_pressure now s = 1)"
  using assms by (simp add: lease_try_acquire_def lease_fresh_def lease_pressure_def
      lease_pressure_value_def clamp01_def Let_def)

theorem lease_dead_after_deadline_witness:
  "lease_try_acquire 20 (lease_grant 0 (Some 3) (Some 10) (create_lease \<lparr>lo_max_queue = None, lo_request_count = None, lo_ttl = None\<rparr> :: nat lease))
     = (False, lease_grant 0 (Some 3) (Some 10) (create_lease \<lparr>lo_max_queue = None, lo_request_count = None, lo_ttl = None\<rparr>))"
  using lease_dead_after_deadline [of
    "lease_grant 0 (Some 3) (Some 10) (create_lease \<lparr>lo_max_queue = None, lo_request_count = None, lo_ttl = None\<rparr> :: nat lease)" 20]
  by (simp add: lease_grant_def)

text \<open>the size of the next window is never below the floor, never above the base where
  the base is at least the floor, and never grows when heap use or subscriber load grow.\<close>

theorem lease_grant_size_bounds:
  assumes "0 \<le> h" and "h \<le> h'" and "0 \<le> s" and "s \<le> s'" and "fl \<le> b" and "0 \<le> b"
  shows "fl \<le> lease_grant_size (Some h) (Some s) (Some b) (Some fl) \<and>
     lease_grant_size (Some h) (Some s) (Some b) (Some fl) \<le> b \<and>
     lease_grant_size (Some h') (Some s') (Some b) (Some fl) \<le> lease_grant_size (Some h) (Some s) (Some b) (Some fl)"
proof -
  have pos: "(if x > 0 then x else 0) = x" if "0 \<le> x" for x :: real using that by simp
  have size: "lease_grant_size (Some x) (Some y) (Some b) (Some fl) = max fl (js_round (b * lease_scale x y))"
    if "0 \<le> x" "0 \<le> y" for x y
    using that by (simp add: lease_grant_size_def pos)
  have "real_of_int b * lease_scale h s \<le> real_of_int b * 1"
    using assms(6) lease_scale_range [of h s] by (intro mult_left_mono) auto
  then have top: "js_round (b * lease_scale h s) \<le> b" by (simp add: js_round_def floor_le_iff)
  have "b * lease_scale h' s' \<le> b * lease_scale h s"
    using assms lease_scale_antimono by (intro mult_left_mono) auto
  then have "js_round (b * lease_scale h' s') \<le> js_round (b * lease_scale h s)"
    unfolding js_round_def by (intro floor_mono) simp
  then show ?thesis using top assms by (simp add: size)
qed

theorem lease_grant_size_bounds_witness:
  "lease_grant_size (Some 1) (Some 50) (Some 256) (Some 8) \<le> lease_grant_size (Some (1 / 2)) (Some 10) (Some 256) (Some 8)"
  using lease_grant_size_bounds [of "1 / 2" 1 10 50 8 256] by simp

text \<open>the worker's pressure scalar stays between 0 and 1, and it reaches 1 exactly when
  the reported gate peak is at 1 or some enabled threshold is reached by its reading.\<close>

theorem pressure_saturates_iff_breached:
  "0 \<le> sample_pressure_value s th peak \<and> sample_pressure_value s th peak \<le> 1 \<and>
   (sample_pressure_value s th peak = 1 \<longleftrightarrow> 1 \<le> peak \<or> (\<exists>p \<in> set (pressure_pairs s th). breached p))"
proof -
  have peak: "1 \<le> (if peak > 0 then peak else 0) \<longleftrightarrow> 1 \<le> peak" by simp
  show ?thesis
    by (simp add: sample_pressure_value_def clamp01_range clamp01_one fold_ratio_ge peak
        pressure_pairs_def Let_def disj_assoc del: if_split)
qed

end
