(* ===== verification/Seq_Bound.thy ===== *)
theory Seq_Bound
  imports Prelude
begin

unbundle bit_operations_syntax

text \<open>
  The bounded sequence registry: \<open>createSeqBound\<close> of \<open>src/runtime/utils/seq-bound.js\<close>
  over the counter map (\<open>topicSeqs\<close>) and the observed map (\<open>maxSeenSeq\<close>), with the
  recorders \<open>recordSeen\<close> and \<open>recordStampedSeen\<close> of \<open>src/runtime/handler/state.js\<close> and the
  counter arm of \<open>stampSeqValue\<close> of \<open>src/runtime/utils/epoch.js\<close>.

  The answers of the two probes, the runtime's \<open>isProtected\<close> and the reporter's quiet
  judgment, are read afresh at every sweep, so every operation takes them as arguments
  (\<open>probes\<close>). The calls of \<open>onOverCap\<close> are logged.

  The safety argument is an interface, \<open>counter_registry\<close>: a store of counters whose
  housekeeping may forget a counter but never lets the number a topic would resume from
  go down. Every client that draws \<open>resume point + 1\<close> then never repeats a number.
\<close>

section \<open>State\<close>

definition default_scan_limit :: nat where
  "default_scan_limit = 16"

definition blocked_backoff :: nat where
  "blocked_backoff = 16"

record seq_bound =
  sb_seq :: "(js_string, nat) jsmap"
  sb_seen :: "(js_string, nat) jsmap"
  sb_capacity :: nat
  sb_floor_cap :: nat
  sb_scan_limit :: nat
  sb_floors :: "(32 word, nat) jsmap"
  sb_has_probe :: bool
  sb_high_water :: nat
  sb_skip_seq :: nat
  sb_skip_seen :: nat
  sb_over_cap :: "nat list"
  sb_foreign :: bool

definition create_seq_bound :: "nat \<Rightarrow> nat \<Rightarrow> nat \<Rightarrow> seq_bound" where
  "create_seq_bound capacity floor_cap scan_limit =
     \<lparr>sb_seq = [], sb_seen = [], sb_capacity = capacity, sb_floor_cap = floor_cap,
      sb_scan_limit = scan_limit, sb_floors = [], sb_has_probe = False, sb_high_water = 0,
      sb_skip_seq = 0, sb_skip_seen = 0, sb_over_cap = [], sb_foreign = False\<rparr>"

record probes =
  pr_quiet :: "js_string \<Rightarrow> bool"
  pr_protected :: "js_string \<Rightarrow> bool"

definition fnv32 :: "js_string \<Rightarrow> 32 word" where
  "fnv32 s = foldl (\<lambda>h c. (h XOR ucast c) * 0x01000193) 0x811c9dc5 s"

section \<open>Floors\<close>

definition record_floor :: "js_string \<Rightarrow> nat \<Rightarrow> seq_bound \<Rightarrow> seq_bound" where
  "record_floor topic last_seq s =
     (let key = fnv32 topic;
          floors = (case jm_get (sb_floors s) key of
              None \<Rightarrow> jm_set key last_seq (sb_floors s)
            | Some prev \<Rightarrow> if prev < last_seq then jm_set key last_seq (sb_floors s) else sb_floors s)
      in if sb_floor_cap s < jm_size floors
         then s\<lparr>sb_floors := [],
                sb_high_water := foldl (\<lambda>h v. if h < v then v else h) (sb_high_water s) (map snd floors)\<rparr>
         else s\<lparr>sb_floors := floors\<rparr>)"

definition floor_of :: "seq_bound \<Rightarrow> js_string \<Rightarrow> nat" where
  "floor_of s topic =
     (case (if sb_floors s = [] then None else jm_get (sb_floors s) (fnv32 topic)) of
        Some exact \<Rightarrow> if sb_high_water s < exact then exact else sb_high_water s
      | None \<Rightarrow> sb_high_water s)"

definition sb_evict :: "js_string \<Rightarrow> seq_bound \<Rightarrow> seq_bound" where
  "sb_evict topic s =
     (let s = (case jm_get (sb_seq s) topic of
          None \<Rightarrow> s
        | Some last_seq \<Rightarrow> (record_floor topic last_seq s)\<lparr>sb_seq := jm_del topic (sb_seq s)\<rparr>)
      in s\<lparr>sb_seen := jm_del topic (sb_seen s)\<rparr>)"

section \<open>The sweep\<close>

datatype registry = SeqRegistry | SeenRegistry

fun from_map :: "registry \<Rightarrow> seq_bound \<Rightarrow> (js_string, nat) jsmap" where
  "from_map SeqRegistry s = sb_seq s"
| "from_map SeenRegistry s = sb_seen s"

fun with_map :: "registry \<Rightarrow> (js_string, nat) jsmap \<Rightarrow> seq_bound \<Rightarrow> seq_bound" where
  "with_map SeqRegistry m s = s\<lparr>sb_seq := m\<rparr>"
| "with_map SeenRegistry m s = s\<lparr>sb_seen := m\<rparr>"

definition sb_busy :: "probes \<Rightarrow> seq_bound \<Rightarrow> js_string \<Rightarrow> bool" where
  "sb_busy p s c \<longleftrightarrow> (sb_has_probe s \<and> \<not> pr_quiet p c) \<or> pr_protected p c"

fun sweep_scan ::
  "nat \<Rightarrow> (js_string \<Rightarrow> bool) \<Rightarrow> js_string \<Rightarrow> nat \<Rightarrow> js_string list \<Rightarrow> js_string list \<times> js_string option"
where
  "sweep_scan limit busy admitted scanned [] = ([], None)"
| "sweep_scan limit busy admitted scanned (c # cs) =
     (if c = admitted then sweep_scan limit busy admitted scanned cs
      else if limit < scanned + 1 then ([], None)
      else if busy c then
        (case sweep_scan limit busy admitted (scanned + 1) cs of (passed, victim) \<Rightarrow> (c # passed, victim))
      else ([], Some c))"

definition rotate_to_tail :: "js_string list \<Rightarrow> (js_string, nat) jsmap \<Rightarrow> (js_string, nat) jsmap" where
  "rotate_to_tail passed m =
     foldl (\<lambda>m t. case jm_get m t of None \<Rightarrow> m | Some v \<Rightarrow> jm_set t v (jm_del t m)) m passed"

fun sweep_passes :: "nat \<Rightarrow> probes \<Rightarrow> registry \<Rightarrow> js_string \<Rightarrow> seq_bound \<Rightarrow> bool \<times> seq_bound" where
  "sweep_passes 0 p from admitted s = (False, s)"
| "sweep_passes (Suc pass) p from admitted s =
     (case sweep_scan (sb_scan_limit s) (sb_busy p s) admitted 0 (jm_keys (from_map from s)) of
        (passed, victim) \<Rightarrow>
          let s = with_map from (rotate_to_tail passed (from_map from s)) s in
          case victim of
            Some v \<Rightarrow> (True, sb_evict v s)
          | None \<Rightarrow> if passed = [] then (False, s) else sweep_passes pass p from admitted s)"

definition evict_oldest_unprotected :: "probes \<Rightarrow> registry \<Rightarrow> js_string \<Rightarrow> seq_bound \<Rightarrow> bool \<times> seq_bound" where
  "evict_oldest_unprotected p from admitted s = sweep_passes 2 p from admitted s"

definition note_over_cap :: "nat \<Rightarrow> seq_bound \<Rightarrow> seq_bound" where
  "note_over_cap n s = s\<lparr>sb_over_cap := sb_over_cap s @ [n]\<rparr>"

definition on_insert :: "probes \<Rightarrow> js_string \<Rightarrow> seq_bound \<Rightarrow> seq_bound" where
  "on_insert p topic s =
     (if sb_capacity s = 0 \<or> jm_size (sb_seq s) \<le> sb_capacity s then s
      else if 0 < sb_skip_seq s then
        note_over_cap (jm_size (sb_seq s)) (s\<lparr>sb_skip_seq := sb_skip_seq s - 1\<rparr>)
      else case evict_oldest_unprotected p SeqRegistry topic s of
          (True, s) \<Rightarrow> s
        | (False, s) \<Rightarrow> note_over_cap (jm_size (sb_seq s)) (s\<lparr>sb_skip_seq := blocked_backoff\<rparr>))"

definition on_seen_insert :: "probes \<Rightarrow> js_string \<Rightarrow> seq_bound \<Rightarrow> seq_bound" where
  "on_seen_insert p topic s =
     (if sb_capacity s = 0 \<or> jm_size (sb_seen s) \<le> sb_capacity s then s
      else if 0 < sb_skip_seen s then
        note_over_cap (jm_size (sb_seen s)) (s\<lparr>sb_skip_seen := sb_skip_seen s - 1\<rparr>)
      else case evict_oldest_unprotected p SeenRegistry topic s of
          (True, s) \<Rightarrow> s
        | (False, s) \<Rightarrow> note_over_cap (jm_size (sb_seen s)) (s\<lparr>sb_skip_seen := blocked_backoff\<rparr>))"

definition use_quiet_probe :: "seq_bound \<Rightarrow> seq_bound" where
  "use_quiet_probe s = s\<lparr>sb_has_probe := True\<rparr>"

section \<open>The callers\<close>

definition stamp_counter :: "probes \<Rightarrow> js_string \<Rightarrow> seq_bound \<Rightarrow> nat \<times> seq_bound" where
  "stamp_counter p topic s =
     (case jm_get (sb_seq s) topic of
        Some current \<Rightarrow> (current + 1, s\<lparr>sb_seq := jm_set topic (current + 1) (sb_seq s)\<rparr>)
      | None \<Rightarrow>
          let n = floor_of s topic + 1
          in (n, on_insert p topic (s\<lparr>sb_seq := jm_set topic n (sb_seq s)\<rparr>)))"

definition record_seen :: "probes \<Rightarrow> js_string \<Rightarrow> nat \<Rightarrow> seq_bound \<Rightarrow> seq_bound" where
  "record_seen p topic seq s =
     (let s = s\<lparr>sb_foreign := True\<rparr> in
      case jm_get (sb_seen s) topic of
        None \<Rightarrow> on_seen_insert p topic (s\<lparr>sb_seen := jm_set topic seq (sb_seen s)\<rparr>)
      | Some prev \<Rightarrow> if prev < seq then s\<lparr>sb_seen := jm_set topic seq (sb_seen s)\<rparr> else s)"

definition record_stamped_seen :: "probes \<Rightarrow> js_string \<Rightarrow> nat \<Rightarrow> seq_bound \<Rightarrow> seq_bound" where
  "record_stamped_seen p topic seq s =
     (if sb_foreign s then
        (case jm_get (sb_seen s) topic of
          None \<Rightarrow> on_seen_insert p topic (s\<lparr>sb_seen := jm_set topic seq (sb_seen s)\<rparr>)
        | Some prev \<Rightarrow> if prev < seq then s\<lparr>sb_seen := jm_set topic seq (sb_seen s)\<rparr> else s)
      else
        (let before = jm_size (sb_seen s);
             s = s\<lparr>sb_seen := jm_set topic seq (sb_seen s)\<rparr>
         in if jm_size (sb_seen s) \<noteq> before then on_seen_insert p topic s else s))"

section \<open>Interface: a registry that may forget a counter but not its number\<close>

locale counter_registry =
  fixes reach :: "'s \<Rightarrow> 'k \<Rightarrow> nat"
    and store :: "'k \<Rightarrow> nat \<Rightarrow> 's \<Rightarrow> 's"
    and tidy :: "'e \<Rightarrow> 's \<Rightarrow> 's"
    and ok :: "'s \<Rightarrow> bool"
  assumes store_ok: "ok s \<Longrightarrow> ok (store k n s)"
    and tidy_ok: "ok s \<Longrightarrow> ok (tidy e s)"
    and reach_store: "ok s \<Longrightarrow> reach s k \<le> n \<Longrightarrow> n \<le> reach (store k n s) k"
    and reach_other: "ok s \<Longrightarrow> reach s k \<le> n \<Longrightarrow> reach s k' \<le> reach (store k n s) k'"
    and reach_tidy: "ok s \<Longrightarrow> reach s k \<le> reach (tidy e s) k"
begin

definition draw :: "'k \<Rightarrow> 'e \<Rightarrow> 's \<Rightarrow> nat \<times> 's" where
  "draw k e s = (let n = reach s k + 1 in (n, tidy e (store k n s)))"

text \<open>A run draws for some keys and tidies at will; the numbers drawn are logged.\<close>

fun drive :: "'s \<times> ('k \<times> nat) list \<Rightarrow> ('k \<times> 'e) + 'e \<Rightarrow> 's \<times> ('k \<times> nat) list" where
  "drive (s, out) (Inl (k, e)) = (case draw k e s of (n, s') \<Rightarrow> (s', out @ [(k, n)]))"
| "drive (s, out) (Inr e) = (tidy e s, out)"

definition covered :: "'s \<times> ('k \<times> nat) list \<Rightarrow> bool" where
  "covered = (\<lambda>(s, out). ok s \<and> (\<forall>(k, n) \<in> set out. n \<le> reach s k) \<and>
     (\<forall>k. sorted_wrt (<) (map snd (filter (\<lambda>q. fst q = k) out))))"

lemma covered_draw:
  assumes "covered (s, out)"
  shows "covered (drive (s, out) (Inl (k, e)))"
proof -
  let ?n = "reach s k + 1"
  let ?s = "store k ?n s"
  have ok: "ok s" and le: "\<And>k n. (k, n) \<in> set out \<Longrightarrow> n \<le> reach s k"
    and st: "\<And>k. sorted_wrt (<) (map snd (filter (\<lambda>q. fst q = k) out))"
    using assms by (auto simp: covered_def)
  have ok': "ok ?s" "ok (tidy e ?s)" using ok by (simp_all add: store_ok tidy_ok)
  have k: "?n \<le> reach (tidy e ?s) k"
    using reach_store [OF ok, of k ?n] reach_tidy [OF ok'(1), of k e] by linarith
  have o: "reach s k' \<le> reach (tidy e ?s) k'" for k'
    using reach_other [OF ok, of k ?n k'] reach_tidy [OF ok'(1), of k' e] by linarith
  have "n \<le> reach (tidy e ?s) k'" if "(k', n) \<in> set (out @ [(k, ?n)])" for k' n
    using that k le [of k' n] o [of k'] by auto
  moreover have "sorted_wrt (<) (map snd (filter (\<lambda>q. fst q = k') (out @ [(k, ?n)])))" for k'
    using st [of k'] le by (fastforce simp: sorted_wrt_append)
  ultimately show ?thesis using ok'(2) by (auto simp: covered_def draw_def Let_def)
qed

lemma covered_drive: "covered so \<Longrightarrow> covered (drive so x)"
proof (cases so)
  case (Pair s out)
  assume c: "covered so"
  show ?thesis
  proof (cases x)
    case (Inl ke)
    then show ?thesis using covered_draw c by (cases ke) (simp add: Pair)
  next
    case (Inr e)
    have "n \<le> reach (tidy e s) k" if "(k, n) \<in> set out" for k n
      using c that reach_tidy [of s k e] by (auto simp: Pair covered_def intro: order_trans)
    then show ?thesis using c by (auto simp: Pair Inr covered_def tidy_ok)
  qed
qed

lemma drive_strict:
  "ok s \<Longrightarrow> sorted_wrt (<) (map snd (filter (\<lambda>q. fst q = k) (snd (foldl drive (s, []) xs))))"
proof -
  assume "ok s"
  then have "covered (s, [])" by (simp add: covered_def)
  then have "covered (foldl drive (s, []) xs)"
    by (induction xs rule: rev_induct) (auto intro: covered_drive)
  then show ?thesis by (auto simp: covered_def split: prod.splits)
qed

end

section \<open>The registry implements the interface\<close>

definition sb_reach :: "seq_bound \<Rightarrow> js_string \<Rightarrow> nat" where
  "sb_reach s t = (case jm_get (sb_seq s) t of Some n \<Rightarrow> n | None \<Rightarrow> floor_of s t)"

definition sb_ok :: "seq_bound \<Rightarrow> bool" where
  "sb_ok s \<longleftrightarrow> jm_wf (sb_seq s) \<and> jm_wf (sb_seen s)"

definition sb_store :: "js_string \<Rightarrow> nat \<Rightarrow> seq_bound \<Rightarrow> seq_bound" where
  "sb_store t n s = s\<lparr>sb_seq := jm_set t n (sb_seq s)\<rparr>"

datatype bound_event =
    InsertCheck probes js_string
  | SeenRecord probes js_string nat
  | StampedRecord probes js_string nat
  | InstallProbe
  | NoEvent

fun sb_tidy :: "bound_event \<Rightarrow> seq_bound \<Rightarrow> seq_bound" where
  "sb_tidy (InsertCheck p t) s = on_insert p t s"
| "sb_tidy (SeenRecord p t n) s = record_seen p t n s"
| "sb_tidy (StampedRecord p t n) s = record_stamped_seen p t n s"
| "sb_tidy InstallProbe s = use_quiet_probe s"
| "sb_tidy NoEvent s = s"

lemma fold_max_ge: "h \<le> foldl (\<lambda>h v. if h < v then v else h) (h :: nat) vs"
  by (induction vs arbitrary: h) (auto intro: order_trans [OF less_imp_le])

lemma fold_max_mem: "v \<in> set vs \<Longrightarrow> v \<le> foldl (\<lambda>h v. if h < v then v else h) (h :: nat) vs"
proof (induction vs arbitrary: h)
  case Nil
  then show ?case by simp
next
  case (Cons a vs)
  let ?h = "if h < a then a else h"
  have "a \<le> ?h" by simp
  then have "a \<le> foldl (\<lambda>h v. if h < v then v else h) ?h vs"
    using fold_max_ge order_trans by blast
  then show ?case using Cons by auto
qed

lemma floor_of_max:
  "floor_of s t = max (sb_high_water s) (case jm_get (sb_floors s) (fnv32 t) of Some e \<Rightarrow> e | None \<Rightarrow> 0)"
  by (auto simp: floor_of_def split: option.splits)

lemma floor_of_mono:
  assumes "sb_high_water s \<le> sb_high_water s'"
    and "\<And>e. jm_get (sb_floors s) (fnv32 t) = Some e \<Longrightarrow>
      e \<le> sb_high_water s' \<or> (\<exists>e'. jm_get (sb_floors s') (fnv32 t) = Some e' \<and> e \<le> e')"
  shows "floor_of s t \<le> floor_of s' t"
  using assms by (cases "jm_get (sb_floors s) (fnv32 t)") (fastforce simp: floor_of_max)+

lemma record_floor_other [simp]:
  "sb_seq (record_floor t l s) = sb_seq s" "sb_seen (record_floor t l s) = sb_seen s"
  "sb_capacity (record_floor t l s) = sb_capacity s" "sb_scan_limit (record_floor t l s) = sb_scan_limit s"
  "sb_has_probe (record_floor t l s) = sb_has_probe s" "sb_foreign (record_floor t l s) = sb_foreign s"
  by (simp_all add: record_floor_def Let_def)

lemma jm_get_values: "jm_get m k = Some v \<Longrightarrow> v \<in> set (map snd m)"
  using jm_get_Some_mem [of m k v] by force

lemma floor_record: "floor_of s t \<le> floor_of (record_floor v l s) t"
proof -
  define fl where "fl = (case jm_get (sb_floors s) (fnv32 v) of None \<Rightarrow> jm_set (fnv32 v) l (sb_floors s)
      | Some prev \<Rightarrow> if prev < l then jm_set (fnv32 v) l (sb_floors s) else sb_floors s)"
  have fl: "\<exists>e'. jm_get fl k = Some e' \<and> e \<le> e'" if "jm_get (sb_floors s) k = Some e" for k e
    using that by (auto simp: fl_def split: option.splits)
  have r: "record_floor v l s = (if sb_floor_cap s < length fl
      then s\<lparr>sb_floors := [], sb_high_water := foldl (\<lambda>h v. if h < v then v else h) (sb_high_water s) (map snd fl)\<rparr>
      else s\<lparr>sb_floors := fl\<rparr>)"
    by (simp add: record_floor_def fl_def Let_def)
  show ?thesis
  proof (rule floor_of_mono)
    show "sb_high_water s \<le> sb_high_water (record_floor v l s)" using fold_max_ge by (simp add: r)
  next
    fix e
    assume "jm_get (sb_floors s) (fnv32 t) = Some e"
    then obtain e' where e': "jm_get fl (fnv32 t) = Some e'" "e \<le> e'" using fl by blast
    then show "e \<le> sb_high_water (record_floor v l s) \<or>
        (\<exists>e'. jm_get (sb_floors (record_floor v l s)) (fnv32 t) = Some e' \<and> e \<le> e')"
      using fold_max_mem [OF jm_get_values [OF e'(1)], of "sb_high_water s"] by (auto simp: r)
  qed
qed

lemma floor_recorded: "l \<le> floor_of (record_floor v l s) v"
proof -
  define fl where "fl = (case jm_get (sb_floors s) (fnv32 v) of None \<Rightarrow> jm_set (fnv32 v) l (sb_floors s)
      | Some prev \<Rightarrow> if prev < l then jm_set (fnv32 v) l (sb_floors s) else sb_floors s)"
  have "jm_get fl (fnv32 v) = Some (case jm_get (sb_floors s) (fnv32 v) of None \<Rightarrow> l | Some prev \<Rightarrow> max prev l)"
    by (auto simp: fl_def max_def split: option.split)
  then obtain e where e: "jm_get fl (fnv32 v) = Some e" "l \<le> e"
    by (auto split: option.splits)
  have r: "record_floor v l s = (if sb_floor_cap s < length fl
      then s\<lparr>sb_floors := [], sb_high_water := foldl (\<lambda>h v. if h < v then v else h) (sb_high_water s) (map snd fl)\<rparr>
      else s\<lparr>sb_floors := fl\<rparr>)"
    by (simp add: record_floor_def fl_def Let_def)
  show ?thesis
    using e fold_max_mem [OF jm_get_values [OF e(1)], of "sb_high_water s"]
    by (auto simp: r floor_of_max)
qed

lemma floor_of_cong [simp]:
  "floor_of (s\<lparr>sb_seq := m\<rparr>) t = floor_of s t" "floor_of (s\<lparr>sb_seen := m\<rparr>) t = floor_of s t"
  "floor_of (s\<lparr>sb_skip_seq := n\<rparr>) t = floor_of s t" "floor_of (s\<lparr>sb_skip_seen := n\<rparr>) t = floor_of s t"
  "floor_of (s\<lparr>sb_over_cap := w\<rparr>) t = floor_of s t" "floor_of (s\<lparr>sb_has_probe := b\<rparr>) t = floor_of s t"
  "floor_of (s\<lparr>sb_foreign := b\<rparr>) t = floor_of s t"
  by (simp_all add: floor_of_max)

text \<open>What a sweep may do to a state: keep the resume points, keep the maps well formed, keep
  or drop entries without changing them, and drop none of a given set of topics.\<close>

definition gentle :: "(js_string \<Rightarrow> bool) \<Rightarrow> seq_bound \<Rightarrow> seq_bound \<Rightarrow> bool" where
  "gentle keep s s' \<longleftrightarrow>
     (sb_ok s \<longrightarrow> sb_ok s') \<and> (\<forall>t. sb_reach s t \<le> sb_reach s' t) \<and>
     (\<forall>t n. jm_get (sb_seq s') t = Some n \<longrightarrow> jm_get (sb_seq s) t = Some n) \<and>
     (\<forall>t n. jm_get (sb_seen s') t = Some n \<longrightarrow> jm_get (sb_seen s) t = Some n) \<and>
     (\<forall>t. keep t \<longrightarrow> jm_get (sb_seq s') t = jm_get (sb_seq s) t \<and> jm_get (sb_seen s') t = jm_get (sb_seen s) t) \<and>
     sb_capacity s' = sb_capacity s \<and> sb_scan_limit s' = sb_scan_limit s \<and>
     sb_has_probe s' = sb_has_probe s \<and> sb_foreign s' = sb_foreign s"

lemma gentle_refl: "gentle keep s s"
  by (simp add: gentle_def)

lemma gentleD:
  assumes "gentle keep s s'"
  shows "sb_ok s \<Longrightarrow> sb_ok s'" and "sb_reach s t \<le> sb_reach s' t"
    and "jm_get (sb_seq s') t = Some n \<Longrightarrow> jm_get (sb_seq s) t = Some n"
    and "jm_get (sb_seen s') t = Some n \<Longrightarrow> jm_get (sb_seen s) t = Some n"
    and "keep t \<Longrightarrow> jm_get (sb_seq s') t = jm_get (sb_seq s) t"
    and "keep t \<Longrightarrow> jm_get (sb_seen s') t = jm_get (sb_seen s) t"
    and "sb_capacity s' = sb_capacity s" and "sb_scan_limit s' = sb_scan_limit s"
    and "sb_has_probe s' = sb_has_probe s" and "sb_foreign s' = sb_foreign s"
  using assms unfolding gentle_def by blast+

lemma gentle_trans:
  assumes "gentle keep a b" and "gentle keep b c"
  shows "gentle keep a c"
proof -
  note a = gentleD [OF assms(1)] and b = gentleD [OF assms(2)]
  have "sb_reach a t \<le> sb_reach c t" for t by (rule order_trans [OF a(2) b(2)])
  moreover have "sb_ok a \<longrightarrow> sb_ok c" using a(1) b(1) by blast
  moreover have "jm_get (sb_seq c) t = Some n \<Longrightarrow> jm_get (sb_seq a) t = Some n" for t n by (rule a(3) [OF b(3)])
  moreover have "jm_get (sb_seen c) t = Some n \<Longrightarrow> jm_get (sb_seen a) t = Some n" for t n by (rule a(4) [OF b(4)])
  moreover have "keep t \<Longrightarrow> jm_get (sb_seq c) t = jm_get (sb_seq a) t" for t by (rule trans [OF b(5) a(5)])
  moreover have "keep t \<Longrightarrow> jm_get (sb_seen c) t = jm_get (sb_seen a) t" for t by (rule trans [OF b(6) a(6)])
  moreover have "sb_capacity c = sb_capacity a \<and> sb_scan_limit c = sb_scan_limit a \<and>
      sb_has_probe c = sb_has_probe a \<and> sb_foreign c = sb_foreign a"
    by (simp add: a(7-10) b(7-10))
  ultimately show ?thesis unfolding gentle_def by blast
qed

lemma gentle_evict:
  assumes "\<not> keep v"
  shows "gentle keep s (sb_evict v s)"
proof -
  let ?s = "sb_evict v s"
  have ok: "sb_ok s \<Longrightarrow> sb_ok ?s"
    by (auto simp: sb_ok_def sb_evict_def Let_def split: option.splits)
  have maps: "jm_get (sb_seq ?s) t = (if t = v then None else jm_get (sb_seq s) t)"
    "jm_get (sb_seen ?s) t = (if t = v then None else jm_get (sb_seen s) t)" for t
    by (auto simp: sb_evict_def Let_def split: option.splits)
  have "sb_reach s t \<le> sb_reach ?s t" for t
    using floor_record floor_recorded
    by (auto simp: sb_reach_def sb_evict_def Let_def split: option.splits)
  then show ?thesis using ok maps assms
    by (auto simp: gentle_def sb_evict_def Let_def split: option.splits)
qed

lemma rotate_get [simp]: "jm_get (rotate_to_tail passed m) t = jm_get m t"
  unfolding rotate_to_tail_def by (induction passed arbitrary: m) (auto split: option.splits)

lemma rotate_wf: "jm_wf m \<Longrightarrow> jm_wf (rotate_to_tail passed m)"
  unfolding rotate_to_tail_def by (induction passed arbitrary: m) (auto split: option.splits)

lemma rotate_length: "jm_wf m \<Longrightarrow> length (rotate_to_tail passed m) = length m"
  unfolding rotate_to_tail_def
proof (induction passed arbitrary: m)
  case Nil
  then show ?case by simp
next
  case (Cons t ts)
  have "length (jm_set t v (jm_del t m)) = length m" if "jm_get m t = Some v" for v
    using Cons.prems that by (cases m) (auto simp: length_jm_set length_jm_del)
  then show ?case using Cons by (auto split: option.splits)
qed

lemma gentle_rotate: "gentle keep s (with_map from (rotate_to_tail passed (from_map from s)) s)"
  by (cases "from") (auto simp: gentle_def sb_ok_def sb_reach_def rotate_wf split: option.split)

lemma sweep_scan_victim:
  "sweep_scan limit busy admitted n ks = (passed, Some v) \<Longrightarrow> v \<in> set ks \<and> v \<noteq> admitted \<and> \<not> busy v"
  by (induction limit busy admitted n ks arbitrary: passed rule: sweep_scan.induct)
    (auto split: if_splits prod.splits)

lemma gentle_sweep:
  assumes "\<And>t. keep t \<Longrightarrow> t = admitted \<or> sb_busy p s t"
  shows "gentle keep s (snd (sweep_passes n p from admitted s))"
  using assms
proof (induction n p "from" admitted s rule: sweep_passes.induct)
  case (1 p "from" admitted s)
  then show ?case by (simp add: gentle_refl)
next
  case (2 n p "from" admitted s)
  obtain passed victim where sc: "sweep_scan (sb_scan_limit s) (sb_busy p s) admitted 0 (jm_keys (from_map from s)) = (passed, victim)"
    by fastforce
  define s1 where "s1 = with_map from (rotate_to_tail passed (from_map from s)) s"
  have g: "gentle keep s s1" unfolding s1_def by (rule gentle_rotate)
  then have busy: "sb_busy p s1 = sb_busy p s" by (auto simp: gentle_def sb_busy_def)
  show ?case
  proof (cases victim)
    case None
    have "gentle keep s1 (snd (sweep_passes n p from admitted s1))" if "passed \<noteq> []"
      using "2.IH" [OF sc [symmetric] s1_def None that] 2(2) by (simp add: busy)
    moreover have "snd (sweep_passes (Suc n) p from admitted s) =
        (if passed = [] then s1 else snd (sweep_passes n p from admitted s1))"
      by (simp add: sc None Let_def s1_def)
    ultimately show ?thesis using g gentle_trans by (cases "passed = []") auto
  next
    case (Some v)
    then have "\<not> keep v" using sweep_scan_victim sc 2(2) by blast
    then show ?thesis using gentle_trans [OF g gentle_evict] by (simp add: sc Some Let_def flip: s1_def)
  qed
qed

lemma gentle_note:
  assumes "gentle keep s s'"
  shows "gentle keep s (note_over_cap k (s'\<lparr>sb_skip_seq := n\<rparr>))"
    and "gentle keep s (note_over_cap k (s'\<lparr>sb_skip_seen := n\<rparr>))"
  by (rule gentle_trans [OF assms],
      simp add: gentle_def note_over_cap_def sb_ok_def sb_reach_def split: option.split)+

lemma gentle_on_insert:
  assumes "\<And>t. keep t \<Longrightarrow> t = admitted \<or> sb_busy p s t"
  shows "gentle keep s (on_insert p admitted s)"
proof -
  obtain b s' where e: "evict_oldest_unprotected p SeqRegistry admitted s = (b, s')" by fastforce
  have "gentle keep s s'" using gentle_sweep [of keep admitted p s 2 SeqRegistry] assms e by (simp add: evict_oldest_unprotected_def)
  then show ?thesis using gentle_refl by (cases b) (simp_all add: on_insert_def e gentle_note)
qed

lemma gentle_on_seen_insert:
  assumes "\<And>t. keep t \<Longrightarrow> t = admitted \<or> sb_busy p s t"
  shows "gentle keep s (on_seen_insert p admitted s)"
proof -
  obtain b s' where e: "evict_oldest_unprotected p SeenRegistry admitted s = (b, s')" by fastforce
  have "gentle keep s s'" using gentle_sweep [of keep admitted p s 2 SeenRegistry] assms e by (simp add: evict_oldest_unprotected_def)
  then show ?thesis using gentle_refl by (cases b) (simp_all add: on_seen_insert_def e gentle_note)
qed

lemmas gentle_insert = gentle_on_insert [where keep = "\<lambda>_. False", simplified]
lemmas gentle_seen_insert = gentle_on_seen_insert [where keep = "\<lambda>_. False", simplified]

lemma sb_ok_seen [simp]: "sb_ok s \<Longrightarrow> sb_ok (s\<lparr>sb_foreign := b, sb_seen := jm_set t n (sb_seen s)\<rparr>)"
  "sb_ok s \<Longrightarrow> sb_ok (s\<lparr>sb_seen := jm_set t n (sb_seen s)\<rparr>)"
  "sb_ok s \<Longrightarrow> sb_ok (s\<lparr>sb_seq := jm_set t n (sb_seq s)\<rparr>)" "sb_ok (s\<lparr>sb_foreign := b\<rparr>) = sb_ok s"
  "sb_ok (s\<lparr>sb_has_probe := b\<rparr>) = sb_ok s"
  by (simp_all add: sb_ok_def)

lemma sb_reach_cong [simp]: "sb_reach (s\<lparr>sb_seen := m\<rparr>) t = sb_reach s t"
  "sb_reach (s\<lparr>sb_foreign := b\<rparr>) t = sb_reach s t" "sb_reach (s\<lparr>sb_has_probe := b\<rparr>) t = sb_reach s t"
  by (simp_all add: sb_reach_def split: option.split)

lemma seen_insert_reach: "sb_reach s t \<le> sb_reach (on_seen_insert p k (s\<lparr>sb_seen := m\<rparr>)) t"
  using gentleD(2) [OF gentle_seen_insert [of "s\<lparr>sb_seen := m\<rparr>" p k]] by simp

lemma record_seen_keeps:
  "sb_ok s \<Longrightarrow> sb_ok (record_seen p t n s)" "sb_reach s k \<le> sb_reach (record_seen p t n s) k"
  using seen_insert_reach [of "s\<lparr>sb_foreign := True\<rparr>" k p t] gentleD(1) [OF gentle_seen_insert]
  by (auto simp: record_seen_def Let_def split: option.splits)

lemma record_stamped_seen_keeps:
  "sb_ok s \<Longrightarrow> sb_ok (record_stamped_seen p t n s)" "sb_reach s k \<le> sb_reach (record_stamped_seen p t n s) k"
  using seen_insert_reach [of s k p t] gentleD(1) [OF gentle_seen_insert]
  by (auto simp: record_stamped_seen_def Let_def split: option.splits)

interpretation registry: counter_registry sb_reach sb_store sb_tidy sb_ok
proof unfold_locales
  fix s t k n e
  show "sb_ok s \<Longrightarrow> sb_ok (sb_store t n s)" by (simp add: sb_store_def)
  show "sb_ok s \<Longrightarrow> sb_ok (sb_tidy e s)"
    using gentleD(1) [OF gentle_insert] record_seen_keeps record_stamped_seen_keeps
    by (cases e) (auto simp: use_quiet_probe_def)
  show "sb_reach s t \<le> n \<Longrightarrow> n \<le> sb_reach (sb_store t n s) t"
    by (simp add: sb_reach_def sb_store_def)
  show "sb_reach s t \<le> n \<Longrightarrow> sb_reach s k \<le> sb_reach (sb_store t n s) k"
    by (simp add: sb_reach_def sb_store_def split: option.splits)
  show "sb_reach s t \<le> sb_reach (sb_tidy e s) t"
    using gentleD(2) [OF gentle_insert] record_seen_keeps record_stamped_seen_keeps
    by (cases e) (auto simp: use_quiet_probe_def)
qed

lemma stamp_counter_draw:
  "stamp_counter p t s =
     registry.draw t (if jm_get (sb_seq s) t = None then InsertCheck p t else NoEvent) s"
  by (simp add: stamp_counter_def registry.draw_def sb_reach_def sb_store_def split: option.split)

section \<open>Runs\<close>

text \<open>Publishing through the counter, publishing or relaying an explicit number, and the
  reporter installing its probe. The numbers the counter issued are logged.\<close>

datatype bound_op =
    PublishCounter probes js_string
  | PublishExplicit probes js_string nat
  | UseProbe

fun bound_step :: "seq_bound \<times> (js_string \<times> nat) list \<Rightarrow> bound_op \<Rightarrow> seq_bound \<times> (js_string \<times> nat) list" where
  "bound_step (s, out) (PublishCounter p t) =
     (case stamp_counter p t s of (n, s) \<Rightarrow> (record_stamped_seen p t n s, out @ [(t, n)]))"
| "bound_step (s, out) (PublishExplicit p t n) = (record_seen p t n s, out)"
| "bound_step (s, out) UseProbe = (use_quiet_probe s, out)"

definition bound_run :: "nat \<Rightarrow> nat \<Rightarrow> nat \<Rightarrow> bound_op list \<Rightarrow> seq_bound \<times> (js_string \<times> nat) list" where
  "bound_run capacity floor_cap scan_limit ops =
     foldl bound_step (create_seq_bound capacity floor_cap scan_limit, []) ops"

lemma covered_step: "registry.covered so \<Longrightarrow> registry.covered (bound_step so x)"
proof (cases so)
  case (Pair s out)
  assume c: "registry.covered so"
  show ?thesis
  proof (cases x)
    case (PublishCounter p t)
    let ?e = "if jm_get (sb_seq s) t = None then InsertCheck p t else NoEvent"
    obtain n s1 where d: "stamp_counter p t s = (n, s1)" by fastforce
    then have "registry.drive so (Inl (t, ?e)) = (s1, out @ [(t, n)])"
      by (simp add: Pair stamp_counter_draw)
    with registry.covered_drive [OF c, of "Inl (t, ?e)"] have "registry.covered (s1, out @ [(t, n)])" by simp
    from registry.covered_drive [OF this, of "Inr (StampedRecord p t n)"] show ?thesis
      by (simp add: Pair PublishCounter d)
  next
    case (PublishExplicit p t n)
    from registry.covered_drive [OF c, of "Inr (SeenRecord p t n)"] show ?thesis
      by (simp add: Pair PublishExplicit)
  next
    case UseProbe
    from registry.covered_drive [OF c, of "Inr InstallProbe"] show ?thesis
      by (simp add: Pair UseProbe)
  qed
qed

lemma covered_create: "registry.covered (create_seq_bound c f l, [])"
  by (simp add: registry.covered_def sb_ok_def create_seq_bound_def)

interpretation bound_runs: machine "(create_seq_bound c f l, [])" bound_step registry.covered for c f l
  by unfold_locales (rule covered_create, rule covered_step)

subsection \<open>A protected topic keeps its entries\<close>

lemma stamp_counter_keeps:
  assumes "t' \<noteq> t" and "sb_busy p s t'"
  shows "jm_get (sb_seq (snd (stamp_counter p t s))) t' = jm_get (sb_seq s) t'"
proof -
  let ?s = "s\<lparr>sb_seq := jm_set t (floor_of s t + 1) (sb_seq s)\<rparr>"
  have "gentle (\<lambda>k. k = t') ?s (on_insert p t ?s)"
    by (rule gentle_on_insert) (use assms in \<open>simp add: sb_busy_def\<close>)
  from gentleD(5) [OF this, of t'] assms(1) show ?thesis
    by (simp add: stamp_counter_def Let_def split: option.split)
qed

lemma recorded_keeps:
  assumes "sb_busy p s t'"
  shows "jm_get (sb_seq (record_seen p t n s)) t' = jm_get (sb_seq s) t'"
    and "jm_get (sb_seq (record_stamped_seen p t n s)) t' = jm_get (sb_seq s) t'"
proof -
  have g: "jm_get (sb_seq (on_seen_insert p t s1)) t' = jm_get (sb_seq s1) t'" if "sb_busy p s1 t'" for s1
    by (rule gentleD(5) [OF gentle_on_seen_insert [where keep = "\<lambda>k. k = t'"]]) (use that in auto)
  show "jm_get (sb_seq (record_seen p t n s)) t' = jm_get (sb_seq s) t'"
    "jm_get (sb_seq (record_stamped_seen p t n s)) t' = jm_get (sb_seq s) t'"
    using assms g [of "s\<lparr>sb_foreign := True, sb_seen := jm_set t n (sb_seen s)\<rparr>"]
      g [of "s\<lparr>sb_seen := jm_set t n (sb_seen s)\<rparr>"]
    by (auto simp: record_seen_def record_stamped_seen_def Let_def sb_busy_def split: option.split)
qed

subsection \<open>The cap holds when nothing is protected\<close>

definition idle :: "probes \<Rightarrow> bool" where
  "idle p \<longleftrightarrow> (\<forall>t. \<not> pr_protected p t)"

lemma sweep_scan_idle:
  assumes "0 < limit" and "\<And>c. \<not> busy c"
  shows "k \<in> set ks \<Longrightarrow> k \<noteq> admitted \<Longrightarrow>
     \<exists>v. sweep_scan limit busy admitted 0 ks = ([], Some v) \<and> v \<in> set ks"
  using assms by (induction ks) auto

lemma other_key: "jm_wf m \<Longrightarrow> 2 \<le> length m \<Longrightarrow> \<exists>k \<in> set (jm_keys m). k \<noteq> t"
  by (cases m; cases "tl m") (auto simp: jm_wf_def)

lemma evict_sizes:
  assumes "sb_ok s"
  shows "length (sb_seq (sb_evict v s)) = length (sb_seq s) - (if v \<in> set (jm_keys (sb_seq s)) then 1 else 0)"
    and "length (sb_seen (sb_evict v s)) = length (sb_seen s) - (if v \<in> set (jm_keys (sb_seen s)) then 1 else 0)"
proof -
  have wf: "jm_wf (sb_seq s)" "jm_wf (sb_seen s)" using assms by (simp_all add: sb_ok_def)
  have maps: "sb_seq (sb_evict v s) = jm_del v (sb_seq s)" "sb_seen (sb_evict v s) = jm_del v (sb_seen s)"
    by (auto simp: sb_evict_def Let_def jm_get_None jm_del_absent split: option.split)
  show "length (sb_seq (sb_evict v s)) = length (sb_seq s) - (if v \<in> set (jm_keys (sb_seq s)) then 1 else 0)"
    "length (sb_seen (sb_evict v s)) = length (sb_seen s) - (if v \<in> set (jm_keys (sb_seen s)) then 1 else 0)"
    by (simp_all add: maps wf length_jm_del jm_get_None)
qed

lemma idle_sweep:
  assumes "sb_ok s" and "0 < sb_scan_limit s" and "\<not> sb_has_probe s" and "idle p"
    and "2 \<le> length (from_map from s)"
  obtains v where "evict_oldest_unprotected p from t s = (True, sb_evict v s)"
    "v \<in> set (jm_keys (from_map from s))"
proof -
  have nb: "\<not> sb_busy p s c" for c using assms(3,4) by (simp add: sb_busy_def idle_def)
  have "jm_wf (from_map from s)" using assms(1) by (cases "from") (simp_all add: sb_ok_def)
  from other_key [OF this assms(5)] obtain k where "k \<in> set (jm_keys (from_map from s))" "k \<noteq> t" by blast
  from sweep_scan_idle [where busy = "sb_busy p s", OF assms(2) nb this] obtain v where
    v: "sweep_scan (sb_scan_limit s) (sb_busy p s) t 0 (jm_keys (from_map from s)) = ([], Some v)"
    "v \<in> set (jm_keys (from_map from s))" by blast
  have "with_map from (rotate_to_tail [] (from_map from s)) s = s"
    by (cases "from") (simp_all add: rotate_to_tail_def)
  then have "evict_oldest_unprotected p from t s = (True, sb_evict v s)"
    by (simp add: evict_oldest_unprotected_def numeral_2_eq_2 v(1) Let_def)
  then show ?thesis using that v(2) by blast
qed

definition capped :: "seq_bound \<Rightarrow> bool" where
  "capped s \<longleftrightarrow> sb_ok s \<and> 0 < sb_scan_limit s \<and> 0 < sb_capacity s \<and> \<not> sb_has_probe s \<and>
     sb_skip_seq s = 0 \<and> sb_skip_seen s = 0 \<and>
     length (sb_seq s) \<le> sb_capacity s \<and> length (sb_seen s) \<le> sb_capacity s"

lemma sb_evict_same [simp]:
  "sb_capacity (sb_evict v s) = sb_capacity s" "sb_scan_limit (sb_evict v s) = sb_scan_limit s"
  "sb_has_probe (sb_evict v s) = sb_has_probe s"
  "sb_skip_seq (sb_evict v s) = sb_skip_seq s" "sb_skip_seen (sb_evict v s) = sb_skip_seen s"
  by (simp_all add: sb_evict_def record_floor_def Let_def split: option.split)

lemma capped_evict: "capped s' \<Longrightarrow> capped (sb_evict v s')"
  using evict_sizes [of s' v] gentleD(1) [OF gentle_evict [of "\<lambda>_. False" v s']] by (auto simp: capped_def)

lemma capped_insert:
  assumes "capped s" and "idle p"
  shows "capped (on_insert p t (s\<lparr>sb_seq := jm_set t n (sb_seq s)\<rparr>))"
proof -
  let ?s = "s\<lparr>sb_seq := jm_set t n (sb_seq s)\<rparr>"
  have ok: "sb_ok ?s" using assms(1) by (simp add: capped_def)
  show ?thesis
  proof (cases "length (sb_seq ?s) \<le> sb_capacity s")
    case True
    then show ?thesis using assms(1) ok by (simp add: on_insert_def capped_def)
  next
    case False
    have "2 \<le> length (from_map SeqRegistry ?s)" using False assms(1) by (simp add: capped_def)
    then obtain v where v: "evict_oldest_unprotected p SeqRegistry t ?s = (True, sb_evict v ?s)"
      "v \<in> set (jm_keys (sb_seq ?s))"
      using idle_sweep [OF ok, of p SeqRegistry t] assms by (auto simp: capped_def)
    have "length (sb_seq ?s) \<le> Suc (sb_capacity s)"
      using assms(1) length_jm_set_le [of t n "sb_seq s"] by (simp add: capped_def)
    then show ?thesis
      using False v assms(1) evict_sizes [OF ok, of v] gentleD(1) [OF gentle_evict [of "\<lambda>_. False" v ?s]] ok
      by (auto simp: on_insert_def capped_def)
  qed
qed

lemma capped_seen_insert:
  assumes "capped s" and "idle p"
  shows "capped (on_seen_insert p t (s\<lparr>sb_seen := jm_set t n (sb_seen s)\<rparr>))"
proof -
  let ?s = "s\<lparr>sb_seen := jm_set t n (sb_seen s)\<rparr>"
  have ok: "sb_ok ?s" using assms(1) by (simp add: capped_def)
  show ?thesis
  proof (cases "length (sb_seen ?s) \<le> sb_capacity s")
    case True
    then show ?thesis using assms(1) ok by (simp add: on_seen_insert_def capped_def)
  next
    case False
    have "2 \<le> length (from_map SeenRegistry ?s)" using False assms(1) by (simp add: capped_def)
    then obtain v where v: "evict_oldest_unprotected p SeenRegistry t ?s = (True, sb_evict v ?s)"
      "v \<in> set (jm_keys (sb_seen ?s))"
      using idle_sweep [OF ok, of p SeenRegistry t] assms by (auto simp: capped_def)
    have "length (sb_seen ?s) \<le> Suc (sb_capacity s)"
      using assms(1) length_jm_set_le [of t n "sb_seen s"] by (simp add: capped_def)
    then show ?thesis
      using False v assms(1) evict_sizes [OF ok, of v] gentleD(1) [OF gentle_evict [of "\<lambda>_. False" v ?s]] ok
      by (auto simp: on_seen_insert_def capped_def)
  qed
qed

lemma capped_foreign: "capped (s\<lparr>sb_foreign := b\<rparr>) = capped s"
  by (simp add: capped_def)

lemma capped_overwrite:
  "capped s \<Longrightarrow> jm_get (sb_seen s) t \<noteq> None \<Longrightarrow> capped (s\<lparr>sb_seen := jm_set t n (sb_seen s)\<rparr>)"
  "capped s \<Longrightarrow> jm_get (sb_seq s) t \<noteq> None \<Longrightarrow> capped (s\<lparr>sb_seq := jm_set t n (sb_seq s)\<rparr>)"
  by (auto simp: capped_def length_jm_set)

lemma capped_record_seen: "capped s \<Longrightarrow> idle p \<Longrightarrow> capped (record_seen p t n s)"
  using capped_seen_insert [of "s\<lparr>sb_foreign := True\<rparr>" p t n] capped_overwrite(1) [of "s\<lparr>sb_foreign := True\<rparr>" t n]
  by (auto simp: record_seen_def Let_def capped_foreign split: option.split)

lemma capped_record_stamped: "capped s \<Longrightarrow> idle p \<Longrightarrow> capped (record_stamped_seen p t n s)"
  using capped_seen_insert [of s p t n] capped_overwrite(1) [of s t n]
  by (auto simp: record_stamped_seen_def Let_def length_jm_set split: option.split)

lemma capped_stamp: "capped s \<Longrightarrow> idle p \<Longrightarrow> capped (snd (stamp_counter p t s))"
  using capped_insert [of s p t "floor_of s t + 1"] capped_overwrite(2) [of s t]
  by (auto simp: stamp_counter_def Let_def split: option.split)

fun idle_op :: "bound_op \<Rightarrow> bool" where
  "idle_op (PublishCounter p t) = idle p"
| "idle_op (PublishExplicit p t n) = idle p"
| "idle_op UseProbe = False"

lemma capped_step: "capped s \<Longrightarrow> idle_op x \<Longrightarrow> capped (fst (bound_step (s, out) x))"
proof (cases x)
  case (PublishCounter p t)
  assume a: "capped s" "idle_op x"
  obtain n s1 where d: "stamp_counter p t s = (n, s1)" by fastforce
  have "capped s1" using capped_stamp [of s p t] a PublishCounter d by simp
  then show ?thesis using capped_record_stamped a PublishCounter d by simp
qed (auto intro: capped_record_seen)

lemma capped_run: "list_all idle_op ops \<Longrightarrow> capped (fst so) \<Longrightarrow> capped (fst (foldl bound_step so ops))"
proof (induction ops arbitrary: so)
  case Nil
  then show ?case by simp
next
  case (Cons x ops)
  then show ?case using capped_step [of "fst so" x "snd so"] by simp
qed

lemma gentle_capacity [simp]:
  "sb_capacity (on_insert p t s) = sb_capacity s" "sb_capacity (on_seen_insert p t s) = sb_capacity s"
  by (rule gentleD(7) [OF gentle_insert], rule gentleD(7) [OF gentle_seen_insert])

lemma bound_step_capacity: "sb_capacity (fst (bound_step so x)) = sb_capacity (fst so)"
  by (cases so; cases x) (auto simp: stamp_counter_def record_seen_def record_stamped_seen_def
      use_quiet_probe_def Let_def split: option.split prod.splits)

lemma stamp_counter_seen:
  assumes "stamp_counter p t s = (n, s1)"
  shows "jm_get (sb_seen s1) t = jm_get (sb_seen s) t"
proof -
  let ?s = "s\<lparr>sb_seq := jm_set t n (sb_seq s)\<rparr>"
  have "s1 = ?s \<or> s1 = on_insert p t ?s"
    using assms by (auto simp: stamp_counter_def Let_def split: option.splits)
  moreover have "jm_get (sb_seen (on_insert p t ?s)) t = jm_get (sb_seen ?s) t"
    by (rule gentleD(6) [OF gentle_on_insert [where keep = "\<lambda>k. k = t"]]) simp_all
  ultimately show ?thesis by auto
qed

subsection \<open>The observed maximum\<close>

definition seen_inv :: "seq_bound \<Rightarrow> bool" where
  "seen_inv s \<longleftrightarrow> \<not> sb_foreign s \<longrightarrow> (\<forall>t v. jm_get (sb_seen s) t = Some v \<longrightarrow> v \<le> sb_reach s t)"

lemma stamped_facts:
  assumes "stamp_counter p t s = (n, s1)"
  shows "n = sb_reach s t + 1" and "sb_foreign s1 = sb_foreign s" and "sb_has_probe s1 = sb_has_probe s"
    and "jm_get (sb_seen s1) k = Some v \<Longrightarrow> jm_get (sb_seen s) k = Some v"
    and "sb_reach s k \<le> sb_reach s1 k" and "n \<le> sb_reach s1 t"
proof -
  let ?s = "s\<lparr>sb_seq := jm_set t (sb_reach s t + 1) (sb_seq s)\<rparr>"
  have s1: "n = sb_reach s t + 1 \<and> (s1 = ?s \<or> s1 = on_insert p t ?s)"
    using assms by (auto simp: stamp_counter_def sb_reach_def Let_def split: option.splits)
  have g: "gentle (\<lambda>_. False) ?s s1" using s1 gentle_refl gentle_insert by auto
  show "n = sb_reach s t + 1" using s1 by simp
  show "sb_foreign s1 = sb_foreign s" "sb_has_probe s1 = sb_has_probe s" using gentleD(9,10) [OF g] by simp_all
  show "jm_get (sb_seen s1) k = Some v \<Longrightarrow> jm_get (sb_seen s) k = Some v" using gentleD(4) [OF g] by fastforce
  have r: "sb_reach s k \<le> sb_reach ?s k" "n \<le> sb_reach ?s t" using s1 by (auto simp: sb_reach_def split: option.split)
  show "sb_reach s k \<le> sb_reach s1 k" by (rule order_trans [OF r(1) gentleD(2) [OF g]])
  show "n \<le> sb_reach s1 t" by (rule order_trans [OF r(2) gentleD(2) [OF g]])
qed

lemma seen_insert_value:
  "jm_get (sb_seen (on_seen_insert p t (s\<lparr>sb_seen := m\<rparr>))) k = Some v \<Longrightarrow> jm_get m k = Some v"
  using gentleD(4) [OF gentle_seen_insert [of "s\<lparr>sb_seen := m\<rparr>" p t]] by simp

lemma foreign_seen_insert [simp]: "sb_foreign (on_seen_insert p t s) = sb_foreign s"
  by (rule gentleD(10) [OF gentle_seen_insert])

lemma recorded_value:
  assumes "jm_get (sb_seen (record_stamped_seen p t n s)) k = Some v'"
  shows "jm_get (sb_seen s) k = Some v' \<or>
    k = t \<and> v' = n \<and> (sb_foreign s \<longrightarrow> (\<forall>v. jm_get (sb_seen s) t = Some v \<longrightarrow> v < n))"
  using assms
  by (auto simp: record_stamped_seen_def Let_def split: option.splits if_splits dest!: seen_insert_value)

lemma recorded_foreign_value:
  assumes "jm_get (sb_seen (record_seen p t n s)) k = Some v'"
  shows "jm_get (sb_seen s) k = Some v' \<or> k = t \<and> v' = n \<and> (\<forall>v. jm_get (sb_seen s) t = Some v \<longrightarrow> v < n)"
proof -
  let ?s = "s\<lparr>sb_foreign := True\<rparr>"
  show ?thesis
  proof (cases "jm_get (sb_seen s) t")
    case None
    then have "jm_get (sb_seen (on_seen_insert p t (?s\<lparr>sb_seen := jm_set t n (sb_seen s)\<rparr>))) k = Some v'"
      using assms by (simp add: record_seen_def)
    from seen_insert_value [OF this] None show ?thesis by (auto split: if_splits)
  next
    case (Some prev)
    then show ?thesis using assms by (auto simp: record_seen_def Let_def split: if_splits)
  qed
qed

lemma foreign_record [simp]: "sb_foreign (record_seen p t n s)"
  "sb_foreign (record_stamped_seen p t n s) = sb_foreign s"
  by (auto simp: record_seen_def record_stamped_seen_def Let_def split: option.split)

lemma seen_inv_step: "seen_inv (fst so) \<Longrightarrow> seen_inv (fst (bound_step so x))"
proof (cases so)
  case (Pair s out)
  assume "seen_inv (fst so)"
  then have inv: "seen_inv s" by (simp add: Pair)
  show ?thesis
  proof (cases x)
    case (PublishCounter p t)
    obtain n s1 where d: "stamp_counter p t s = (n, s1)" by fastforce
    note f = stamped_facts [OF d]
    have "v \<le> sb_reach (record_stamped_seen p t n s1) k"
      if "\<not> sb_foreign s" "jm_get (sb_seen (record_stamped_seen p t n s1)) k = Some v" for k v
    proof -
      have "v \<le> sb_reach s1 k"
        using recorded_value [OF that(2)]
      proof (elim disjE conjE)
        assume "jm_get (sb_seen s1) k = Some v"
        then have "v \<le> sb_reach s k" using f(4) inv that(1) by (auto simp: seen_inv_def)
        then show ?thesis using f(5) [of k] by linarith
      qed (use f(6) in simp)
      then show ?thesis using record_stamped_seen_keeps(2) [of s1 k p t n] by linarith
    qed
    then show ?thesis by (simp add: Pair PublishCounter d seen_inv_def f(2))
  qed (use inv in \<open>simp_all add: Pair seen_inv_def use_quiet_probe_def\<close>)
qed

lemma seen_inv_run: "seen_inv (fst (bound_run c f l ops))"
proof -
  have "seen_inv (fst (foldl bound_step so ops))" if "seen_inv (fst so)" for so
    using that
  proof (induction ops arbitrary: so)
    case (Cons x ops)
    then show ?case using Cons.IH [OF seen_inv_step [OF Cons.prems]] by simp
  qed simp
  then show ?thesis by (simp add: bound_run_def seen_inv_def create_seq_bound_def)
qed

section \<open>Properties\<close>

text \<open>C12: over any sequence of publishes, relayed numbers, sweeps and evictions, under any
  answers of the probes and any capacity, floor cap and scan limit, the numbers the counter
  issues for a topic strictly increase: a topic the registry forgot never repeats a number,
  not even through the collisions of the hashed floors.\<close>

theorem seq_never_repeats:
  "sorted_wrt (<) (map snd (filter (\<lambda>q. fst q = t) (snd (bound_run capacity floor_cap scan_limit ops))))"
  using bound_runs.run_inv [of capacity floor_cap scan_limit ops]
  by (auto simp: bound_run_def registry.covered_def split: prod.splits)

text \<open>a topic the probes hold busy or protected keeps its counter while other topics are
  published, whatever the pressure on the cap.\<close>

theorem seq_protected_survives:
  assumes "t' \<noteq> t" and "sb_busy p s t'"
  shows "jm_get (sb_seq (fst (bound_step (s, out) (PublishCounter p t)))) t' = jm_get (sb_seq s) t'"
proof -
  obtain n s1 where d: "stamp_counter p t s = (n, s1)" by fastforce
  have "sb_busy p s1 t'" using assms(2) stamped_facts(3) [OF d] by (simp add: sb_busy_def)
  then show ?thesis using stamp_counter_keeps [OF assms] by (simp add: d recorded_keeps)
qed

theorem seq_protected_survives_witness:
  "jm_get (sb_seq (fst (bound_step ((create_seq_bound 1 8 16)\<lparr>sb_seq := [([97], 7)], sb_seen := [([97], 7)]\<rparr>, [])
     (PublishCounter \<lparr>pr_quiet = (\<lambda>_. True), pr_protected = (\<lambda>t. t = [97])\<rparr> [98])))) [97] = Some 7"
  using seq_protected_survives [of "[97]" "[98]" "\<lparr>pr_quiet = (\<lambda>_. True), pr_protected = (\<lambda>t. t = [97])\<rparr>"
    "(create_seq_bound 1 8 16)\<lparr>sb_seq := [([97], 7)], sb_seen := [([97], 7)]\<rparr>" "[]"]
  by (simp add: sb_busy_def jm_get_def)

text \<open>while nothing is protected and no reporter is installed, neither registry ever holds
  more topics than the capacity.\<close>

theorem seq_registry_capped:
  assumes "0 < capacity" and "0 < scan_limit" and "list_all idle_op ops"
  shows "length (sb_seq (fst (bound_run capacity floor_cap scan_limit ops))) \<le> capacity \<and>
     length (sb_seen (fst (bound_run capacity floor_cap scan_limit ops))) \<le> capacity"
proof -
  let ?s0 = "create_seq_bound capacity floor_cap scan_limit"
  have "capped ?s0" using assms by (simp add: capped_def create_seq_bound_def sb_ok_def)
  then have "capped (fst (bound_run capacity floor_cap scan_limit ops))"
    using capped_run [OF assms(3), of "(?s0, [])"] by (simp add: bound_run_def)
  moreover have "sb_capacity (fst (foldl bound_step so ops)) = sb_capacity (fst so)" for so
    by (induction ops arbitrary: so) (simp_all add: bound_step_capacity)
  ultimately show ?thesis by (simp add: capped_def bound_run_def create_seq_bound_def)
qed

theorem seq_registry_capped_witness:
  "length (sb_seq (fst (bound_run 1 0 16 [PublishCounter \<lparr>pr_quiet = (\<lambda>_. True), pr_protected = (\<lambda>_. False)\<rparr> [97],
      PublishCounter \<lparr>pr_quiet = (\<lambda>_. True), pr_protected = (\<lambda>_. False)\<rparr> [98]]))) \<le> 1"
  using seq_registry_capped [of 1 16 "[PublishCounter \<lparr>pr_quiet = (\<lambda>_. True), pr_protected = (\<lambda>_. False)\<rparr> [97],
      PublishCounter \<lparr>pr_quiet = (\<lambda>_. True), pr_protected = (\<lambda>_. False)\<rparr> [98]]" 0]
  by (simp add: idle_def)

text \<open>in every run the observed maximum of a topic never moves backward while the topic
  stays in the registry, across counter publishes (with and without the foreign-number
  latch), explicit numbers and relayed numbers.\<close>

theorem seen_never_regresses:
  assumes "jm_get (sb_seen (fst (bound_run c f l ops))) k = Some v"
    and "jm_get (sb_seen (fst (bound_run c f l (ops @ [x])))) k = Some v'"
  shows "v \<le> v'"
proof -
  obtain s out where run: "bound_run c f l ops = (s, out)" by fastforce
  have inv: "seen_inv s" using seen_inv_run [of c f l ops] by (simp add: run)
  have v: "jm_get (sb_seen s) k = Some v" using assms(1) by (simp add: run)
  have v': "jm_get (sb_seen (fst (bound_step (s, out) x))) k = Some v'"
    using assms(2) run by (simp add: bound_run_def)
  show ?thesis
  proof (cases x)
    case (PublishCounter p t)
    obtain n s1 where d: "stamp_counter p t s = (n, s1)" by fastforce
    note fact = stamped_facts [OF d]
    have r: "jm_get (sb_seen (record_stamped_seen p t n s1)) k = Some v'"
      using v' by (simp add: PublishCounter d)
    show ?thesis
      using recorded_value [OF r]
    proof (elim disjE conjE)
      assume "jm_get (sb_seen s1) k = Some v'"
      then show ?thesis using fact(4) v by force
    next
      assume kt: "k = t" "v' = n" and g: "sb_foreign s1 \<longrightarrow> (\<forall>v. jm_get (sb_seen s1) t = Some v \<longrightarrow> v < n)"
      have keep: "jm_get (sb_seen s1) t = jm_get (sb_seen s) t" by (rule stamp_counter_seen [OF d])
      show ?thesis
      proof (cases "sb_foreign s")
        case True
        then show ?thesis using g keep v kt fact(2) by auto
      next
        case False
        then show ?thesis using inv v kt fact(1) by (fastforce simp: seen_inv_def)
      qed
    qed
  next
    case (PublishExplicit p t n)
    then have "jm_get (sb_seen (record_seen p t n s)) k = Some v'" using v' by simp
    from recorded_foreign_value [OF this] v show ?thesis by (auto simp: less_imp_le)
  next
    case UseProbe
    then show ?thesis using v v' by (simp add: use_quiet_probe_def)
  qed
qed

theorem seen_never_regresses_witness:
  "\<exists>v v'. jm_get (sb_seen (fst (bound_run 4 8 16
      [PublishExplicit \<lparr>pr_quiet = (\<lambda>_. True), pr_protected = (\<lambda>_. False)\<rparr> [97] 9]))) [97] = Some v \<and>
     jm_get (sb_seen (fst (bound_run 4 8 16
      ([PublishExplicit \<lparr>pr_quiet = (\<lambda>_. True), pr_protected = (\<lambda>_. False)\<rparr> [97] 9] @
       [PublishCounter \<lparr>pr_quiet = (\<lambda>_. True), pr_protected = (\<lambda>_. False)\<rparr> [97]])))) [97] = Some v' \<and> v \<le> v'"
  using seen_never_regresses [of 4 8 16
      "[PublishExplicit \<lparr>pr_quiet = (\<lambda>_. True), pr_protected = (\<lambda>_. False)\<rparr> [97] 9]" "[97]" 9
      "PublishCounter \<lparr>pr_quiet = (\<lambda>_. True), pr_protected = (\<lambda>_. False)\<rparr> [97]" 9]
  by (simp add: bound_run_def create_seq_bound_def record_seen_def record_stamped_seen_def
      on_seen_insert_def stamp_counter_def on_insert_def floor_of_def jm_get_def Let_def)

end
