(* ===== verification/Epoch.thy ===== *)
theory Epoch
  imports Seq_Bound Float64 "HOL-Library.Product_Lexorder"
begin

text \<open>
  \<open>src/runtime/utils/epoch.js\<close>: the process generation and the per-topic epoch overrides,
  the resolution of a publish's \<open>seq\<close> option, and the hybrid logical clock.

  The seam's random source and clock are parameters: a function from the number of draws
  made so far to the value drawn, and the list of clock readings. A number of the source
  is a bit pattern (\<open>f64\<close>), so that the integrality and range tests are the real ones; a
  bigint is an integer. The re-roll loop of \<open>mintTopicEpoch\<close> may not end for a constant
  random source, so it is a partial function.
\<close>

section \<open>Epochs\<close>

record epochs =
  ep_draws :: nat
  ep_process :: "nat option"
  ep_topics :: "(js_string, nat) jsmap"

definition topic_epoch_override_max :: nat where
  "topic_epoch_override_max = 4096"

definition epochs_init :: epochs where
  "epochs_init = \<lparr>ep_draws = 0, ep_process = None, ep_topics = []\<rparr>"

definition random_u32 :: "(nat \<Rightarrow> nat) \<Rightarrow> epochs \<Rightarrow> nat \<times> epochs" where
  "random_u32 rng s = (rng (ep_draws s), s\<lparr>ep_draws := ep_draws s + 1\<rparr>)"

definition process_epoch :: "(nat \<Rightarrow> nat) \<Rightarrow> epochs \<Rightarrow> nat \<times> epochs" where
  "process_epoch rng s =
     (case ep_process s of
        Some e \<Rightarrow> (e, s)
      | None \<Rightarrow> (case random_u32 rng s of (e, s) \<Rightarrow> (e, s\<lparr>ep_process := Some e\<rparr>)))"

definition reset_process_epoch :: "epochs \<Rightarrow> epochs" where
  "reset_process_epoch s = s\<lparr>ep_process := None\<rparr>"

definition topic_epoch_value :: "(nat \<Rightarrow> nat) \<Rightarrow> js_string \<Rightarrow> epochs \<Rightarrow> nat \<times> epochs" where
  "topic_epoch_value rng topic s =
     (case jm_get (ep_topics s) topic of Some e \<Rightarrow> (e, s) | None \<Rightarrow> process_epoch rng s)"

definition override_topic_epoch :: "js_string \<Rightarrow> nat \<Rightarrow> epochs \<Rightarrow> epochs" where
  "override_topic_epoch topic epoch s =
     (let present = jm_has (ep_topics s) topic;
          m = jm_del topic (ep_topics s);
          m = (if \<not> present \<and> topic_epoch_override_max \<le> jm_size m
               then (case jm_keys m of [] \<Rightarrow> m | oldest # _ \<Rightarrow> jm_del oldest m) else m)
      in s\<lparr>ep_topics := jm_set topic epoch m\<rparr>)"

definition reset_topic_epochs :: "epochs \<Rightarrow> epochs" where
  "reset_topic_epochs s = s\<lparr>ep_topics := []\<rparr>"

partial_function (option) reroll :: "(nat \<Rightarrow> nat) \<Rightarrow> nat \<Rightarrow> nat \<times> epochs \<Rightarrow> (nat \<times> epochs) option" where
  "reroll rng current ms =
     (if fst ms = current then reroll rng current (random_u32 rng (snd ms)) else Some ms)"

definition mint_topic_epoch :: "(nat \<Rightarrow> nat) \<Rightarrow> js_string \<Rightarrow> epochs \<Rightarrow> (nat \<times> epochs) option" where
  "mint_topic_epoch rng topic s =
     (case topic_epoch_value rng topic s of (current, s) \<Rightarrow>
        (case reroll rng current (random_u32 rng s) of
           None \<Rightarrow> None
         | Some (minted, s) \<Rightarrow> Some (minted, override_topic_epoch topic minted s)))"

lemma override_get:
  "jm_get (ep_topics (override_topic_epoch t e s)) t = Some e"
  by (simp add: override_topic_epoch_def Let_def)

lemma override_wf: "jm_wf (ep_topics s) \<Longrightarrow> jm_wf (ep_topics (override_topic_epoch t e s))"
  by (auto simp: override_topic_epoch_def Let_def split: list.split)

lemma override_size:
  assumes "jm_wf (ep_topics s)" and "length (ep_topics s) \<le> topic_epoch_override_max"
  shows "length (ep_topics (override_topic_epoch t e s)) \<le> topic_epoch_override_max"
proof (cases "jm_get (ep_topics s) t")
  case None
  then have nh: "\<not> jm_has (ep_topics s) t" and d: "jm_del t (ep_topics s) = ep_topics s"
    by (simp_all add: jm_has_get jm_del_absent jm_get_None)
  show ?thesis
  proof (cases "topic_epoch_override_max \<le> length (ep_topics s)")
    case True
    then obtain k v m where m: "ep_topics s = (k, v) # m"
      by (cases "ep_topics s") (auto simp: topic_epoch_override_max_def)
    have "jm_del k ((k, v) # m) = m" using assms(1) m by (simp add: jm_del_head)
    then show ?thesis
      using nh d True assms(2) m length_jm_set_le [of t e m]
      by (simp add: override_topic_epoch_def Let_def)
  next
    case False
    then show ?thesis using nh d length_jm_set_le [of t e "ep_topics s"]
      by (simp add: override_topic_epoch_def Let_def)
  qed
next
  case (Some v)
  then have "jm_has (ep_topics s) t" by (simp add: jm_has_get)
  moreover have "length (ep_topics s) \<noteq> 0" using Some by auto
  ultimately show ?thesis using assms Some
    by (simp add: override_topic_epoch_def Let_def length_jm_set length_jm_del)
qed

lemma reroll_returns:
  assumes "rng (ep_draws s + n) \<noteq> current"
  shows "\<exists>m s'. reroll rng current (random_u32 rng s) = Some (m, s') \<and> m \<noteq> current \<and>
    ep_topics s' = ep_topics s \<and> ep_process s' = ep_process s"
  using assms
proof (induction n arbitrary: s)
  case 0
  then show ?case by (subst reroll.simps) (auto simp: random_u32_def)
next
  case (Suc n)
  let ?s = "s\<lparr>ep_draws := ep_draws s + 1\<rparr>"
  show ?case
  proof (cases "rng (ep_draws s) = current")
    case True
    have "reroll rng current (random_u32 rng s) = reroll rng current (random_u32 rng ?s)"
      using True by (subst reroll.simps) (simp add: random_u32_def)
    then show ?thesis using Suc.IH [of ?s] Suc.prems by auto
  next
    case False
    then show ?thesis by (subst reroll.simps) (auto simp: random_u32_def)
  qed
qed

section \<open>The \<open>seq\<close> option\<close>

datatype seq_opt =
    SeqAbsent
  | SeqNull
  | SeqBool bool
  | SeqNumber f64
  | SeqBigint int
  | SeqOther        \<comment> \<open>a string, an object, a symbol, a function\<close>

datatype seq_error =
    InvalidSeq            \<comment> \<open>\<open>throwInvalidSeq\<close>\<close>
  | UncarryableSeq        \<comment> \<open>\<open>throwUncarryableSeq\<close>\<close>
  | SendSeqForm           \<comment> \<open>the refusal of \<open>resolveSendSeq\<close>\<close>
  | BatchEntry nat seq_error

definition max_safe_integer :: int where
  "max_safe_integer = 9007199254740991"

definition is_safe_integer :: "f64 \<Rightarrow> bool" where
  "is_safe_integer v = (case f64_int v of None \<Rightarrow> False | Some i \<Rightarrow> \<bar>i\<bar> \<le> max_safe_integer)"

definition f64_ge_one :: "f64 \<Rightarrow> bool" where
  "f64_ge_one v = (case f64_int v of None \<Rightarrow> False | Some i \<Rightarrow> 1 \<le> i)"

text \<open>\<open>Number(b)\<close> for a bigint is a safe integer exactly when \<open>b\<close> is at most
  \<open>2 ^ 53 - 1\<close> in magnitude, and then it is \<open>b\<close>: the conversion rounds to nearest, is
  exact below \<open>2 ^ 53\<close>, and maps everything from \<open>2 ^ 53\<close> on to at least \<open>2 ^ 53\<close>.\<close>

definition explicit_seq_value :: "seq_opt \<Rightarrow> seq_error + nat" where
  "explicit_seq_value value =
     (case value of
        SeqNumber v \<Rightarrow>
          (case f64_int v of
             None \<Rightarrow> Inl InvalidSeq
           | Some i \<Rightarrow>
               if is_safe_integer v \<and> 1 \<le> i then Inr (nat i)
               else if 1 \<le> i then Inl UncarryableSeq
               else Inl InvalidSeq)
      | SeqBigint b \<Rightarrow>
          if 1 \<le> b then
            (if b \<le> max_safe_integer then Inr (nat b) else Inl UncarryableSeq)
          else Inl InvalidSeq
      | _ \<Rightarrow> Inl InvalidSeq)"

datatype entry_seq = InheritSeq | EntrySeq nat | DrawSeq | NoSeq

definition resolve_entry_seq_value :: "seq_opt \<Rightarrow> seq_error + entry_seq" where
  "resolve_entry_seq_value value =
     (case value of
        SeqAbsent \<Rightarrow> Inr InheritSeq
      | SeqNumber v \<Rightarrow> map_sum id EntrySeq (explicit_seq_value value)
      | SeqBigint b \<Rightarrow> map_sum id EntrySeq (explicit_seq_value value)
      | SeqBool False \<Rightarrow> Inr NoSeq
      | SeqNull \<Rightarrow> Inr NoSeq
      | SeqBool True \<Rightarrow> Inr DrawSeq
      | SeqOther \<Rightarrow> Inl InvalidSeq)"

definition resolve_entry_seq :: "seq_opt \<Rightarrow> nat option \<Rightarrow> seq_error + entry_seq" where
  "resolve_entry_seq value index =
     (case resolve_entry_seq_value value of
        Inr r \<Rightarrow> Inr r
      | Inl e \<Rightarrow> (case index of None \<Rightarrow> Inl e | Some i \<Rightarrow> Inl (BatchEntry i e)))"

definition resolve_send_seq :: "seq_opt \<Rightarrow> seq_error + nat option" where
  "resolve_send_seq opt =
     (if opt = SeqAbsent \<or> opt = SeqBool False \<or> opt = SeqNull then Inr None
      else case opt of
        SeqNumber v \<Rightarrow> map_sum id Some (explicit_seq_value opt)
      | SeqBigint b \<Rightarrow> map_sum id Some (explicit_seq_value opt)
      | _ \<Rightarrow> Inl SendSeqForm)"

definition stamp_seq_value ::
  "probes \<Rightarrow> seq_opt \<Rightarrow> js_string \<Rightarrow> seq_bound \<Rightarrow> seq_error + nat option \<times> seq_bound"
where
  "stamp_seq_value p opt topic s =
     (if opt = SeqBool False \<or> opt = SeqNull then Inr (None, s)
      else case opt of
        SeqNumber v \<Rightarrow>
          if is_safe_integer v \<and> f64_ge_one v
          then Inr (map_option nat (f64_int v), s)
          else map_sum id (\<lambda>n. (Some n, s)) (explicit_seq_value opt)
      | SeqBigint b \<Rightarrow> map_sum id (\<lambda>n. (Some n, s)) (explicit_seq_value opt)
      | SeqOther \<Rightarrow> Inl InvalidSeq
      | _ \<Rightarrow> (case stamp_counter p topic s of (n, s) \<Rightarrow> Inr (Some n, s)))"

definition next_topic_seq :: "(js_string, nat) jsmap \<Rightarrow> js_string \<Rightarrow> nat \<times> (js_string, nat) jsmap" where
  "next_topic_seq m topic =
     (let n = (case jm_get m topic of None \<Rightarrow> 0 | Some k \<Rightarrow> k) + 1 in (n, jm_set topic n m))"

definition assert_stampable_seq :: "seq_opt \<Rightarrow> seq_error + unit" where
  "assert_stampable_seq opt =
     (if opt = SeqAbsent \<or> opt = SeqBool True then Inr ()
      else map_sum id (\<lambda>_. ()) (stamp_seq_value \<lparr>pr_quiet = (\<lambda>_. False), pr_protected = (\<lambda>_. False)\<rparr>
        opt [] (create_seq_bound 0 0 0)))"

section \<open>The hybrid logical clock\<close>

record hlc_state =
  hlc_last_wall :: int
  hlc_logical :: nat

definition hlc_init :: hlc_state where
  "hlc_init = \<lparr>hlc_last_wall = 0, hlc_logical = 0\<rparr>"

definition hlc_stamp :: "int \<Rightarrow> hlc_state \<Rightarrow> (int \<times> nat) \<times> hlc_state" where
  "hlc_stamp w s =
     (let s = (if hlc_last_wall s < w then \<lparr>hlc_last_wall = w, hlc_logical = 0\<rparr>
               else s\<lparr>hlc_logical := hlc_logical s + 1\<rparr>)
      in ((hlc_last_wall s, hlc_logical s), s))"

fun hlc_run :: "hlc_state \<Rightarrow> int list \<Rightarrow> (int \<times> nat) list" where
  "hlc_run s [] = []"
| "hlc_run s (w # ws) = (case hlc_stamp w s of (stamp, s) \<Rightarrow> stamp # hlc_run s ws)"

definition hlc_pair :: "hlc_state \<Rightarrow> int \<times> nat" where
  "hlc_pair s = (hlc_last_wall s, hlc_logical s)"

lemma hlc_stamp_less: "hlc_stamp w s = (st, s') \<Longrightarrow> st = hlc_pair s' \<and> hlc_pair s < st"
  by (auto simp: hlc_stamp_def hlc_pair_def Let_def split: if_splits)

lemma hlc_step_le: "hlc_pair s \<le> hlc_pair (snd (hlc_stamp w s))"
  using hlc_stamp_less [of w s "fst (hlc_stamp w s)" "snd (hlc_stamp w s)"]
  by (metis less_imp_le prod.collapse)

interpretation hlc_clock: monotone_machine hlc_init "\<lambda>s w. snd (hlc_stamp w s)" "\<lambda>_. True" hlc_pair
  by unfold_locales (simp_all add: hlc_step_le)

lemma hlc_run_above: "st \<in> set (hlc_run s ws) \<Longrightarrow> hlc_pair s < st"
proof (induction ws arbitrary: s)
  case (Cons w ws)
  obtain st1 s1 where h: "hlc_stamp w s = (st1, s1)" by fastforce
  note less = hlc_stamp_less [OF h]
  show ?case using Cons less by (auto simp: h intro: less_trans)
qed simp

section \<open>Properties\<close>

text \<open>C36: whatever the clock reads, repeated readings and backward steps included, the stamps
  of the hybrid clock strictly increase in the order of (wall, logical).\<close>

theorem hlc_strictly_increasing: "sorted_wrt (<) (hlc_run s ws)"
proof (induction ws arbitrary: s)
  case (Cons w ws)
  obtain st s1 where h: "hlc_stamp w s = (st, s1)" by fastforce
  then show ?case using Cons hlc_run_above hlc_stamp_less [OF h] by (auto simp: h)
qed simp

text \<open>C39: when the random source has some later draw that differs from the topic's current
  epoch, minting returns: the minted epoch differs from the current one, it is what the
  topic answers from then on, and the table of overrides stays within its bound.\<close>

theorem mint_topic_epoch_fresh:
  assumes "topic_epoch_value rng t s = (current, s1)" and "rng (ep_draws s1 + n) \<noteq> current"
    and "jm_wf (ep_topics s)" and "length (ep_topics s) \<le> topic_epoch_override_max"
  shows "\<exists>m s'. mint_topic_epoch rng t s = Some (m, s') \<and> m \<noteq> current \<and>
     topic_epoch_value rng t s' = (m, s') \<and> length (ep_topics s') \<le> topic_epoch_override_max"
proof -
  have same: "ep_topics s1 = ep_topics s"
    using assms(1) by (auto simp: topic_epoch_value_def process_epoch_def random_u32_def split: option.splits)
  from reroll_returns [where rng = rng and s = s1 and n = n, OF assms(2)] obtain m s2 where r:
    "reroll rng current (random_u32 rng s1) = Some (m, s2)" "m \<noteq> current" "ep_topics s2 = ep_topics s"
    using same by auto
  have "mint_topic_epoch rng t s = Some (m, override_topic_epoch t m s2)"
    by (simp add: mint_topic_epoch_def assms(1) r(1))
  moreover have "topic_epoch_value rng t (override_topic_epoch t m s2) = (m, override_topic_epoch t m s2)"
    by (simp add: topic_epoch_value_def override_get)
  ultimately show ?thesis using r override_size [of s2 t m] assms(3,4) by auto
qed

theorem mint_topic_epoch_fresh_witness:
  "\<exists>m s'. mint_topic_epoch (\<lambda>n. if n < 3 then 7 else 8) [97] epochs_init = Some (m, s') \<and> m \<noteq> 7"
  using mint_topic_epoch_fresh [of "\<lambda>n. if n < 3 then 7 else 8" "[97]" epochs_init 7
      "epochs_init\<lparr>ep_draws := 1, ep_process := Some 7\<rparr>" 5]
  by (auto simp: topic_epoch_value_def process_epoch_def random_u32_def epochs_init_def)

text \<open>the number and the bigint spelling of an explicit sequence number agree: whenever a
  number is the integer \<open>i\<close>, both are accepted with the value \<open>i\<close> or refused with the same
  error, and what is accepted is between 1 and \<open>2 ^ 53 - 1\<close>.\<close>

theorem explicit_seq_spellings_agree:
  assumes "f64_int v = Some i"
  shows "explicit_seq_value (SeqNumber v) = explicit_seq_value (SeqBigint i) \<and>
     (\<forall>n. explicit_seq_value (SeqNumber v) = Inr n \<longrightarrow> 1 \<le> n \<and> int n = i \<and> int n \<le> max_safe_integer)"
  using assms by (auto simp: explicit_seq_value_def is_safe_integer_def max_safe_integer_def)

theorem explicit_seq_spellings_agree_witness:
  "explicit_seq_value (SeqNumber (f64_of_int 5)) = explicit_seq_value (SeqBigint 5)"
  using explicit_seq_spellings_agree [of "f64_of_int 5" 5] f64_int_of_int [of 5] by simp

text \<open>the early check and the stamp agree: \<open>assertStampableSeq\<close> refuses an option with an
  error exactly when \<open>stampSeqValue\<close> refuses it, for every topic and registry, with the
  same error; and a refused stamp or an explicit number never advances the counter.\<close>

theorem assert_stampable_agrees:
  "(\<forall>e. assert_stampable_seq opt = Inl e \<longleftrightarrow> stamp_seq_value p opt topic s = Inl e) \<and>
   (stamp_seq_value p opt topic s = Inr (r, s') \<and> opt \<noteq> SeqAbsent \<and> opt \<noteq> SeqBool True \<longrightarrow> s' = s)"
proof (cases opt)
  case (SeqNumber v)
  then show ?thesis
    by (cases "explicit_seq_value opt") (auto simp: assert_stampable_seq_def stamp_seq_value_def)
next
  case (SeqBigint b)
  then show ?thesis
    by (cases "explicit_seq_value opt") (auto simp: assert_stampable_seq_def stamp_seq_value_def)
qed (auto simp: assert_stampable_seq_def stamp_seq_value_def split: prod.splits)

theorem assert_stampable_agrees_witness:
  "stamp_seq_value \<lparr>pr_quiet = (\<lambda>_. False), pr_protected = (\<lambda>_. False)\<rparr> SeqOther [97] (create_seq_bound 4 4 4) = Inl InvalidSeq"
  using assert_stampable_agrees [of SeqOther "\<lparr>pr_quiet = (\<lambda>_. False), pr_protected = (\<lambda>_. False)\<rparr>" "[97]" "create_seq_bound 4 4 4"]
  by (simp add: assert_stampable_seq_def stamp_seq_value_def)

end
