(* ===== verification/Relay_Ring.thy ===== *)
theory Relay_Ring
  imports Prelude
begin

unbundle bit_operations_syntax

text \<open>
  The shared-memory relay ring of \<open>src/runtime/relay-ring.js\<close>: \<open>createRelayRingBuffer\<close>,
  \<open>RingWriter\<close> and \<open>RingReader\<close>.

  The two index cells are 32-bit words that wrap; the data area is a list of bytes whose
  length is a power of two. First the ring alone is treated at the granularity of the
  atomic accesses: a side may load the other side's index, the other side may move on, and
  only then does the first side copy and store its own index (\<open>spsc_step\<close>). Then the
  writer's backlog, ceilings and flush wait, and the reader's accumulator and framing, are
  modelled on top of it (\<open>link_step\<close>).
\<close>

section \<open>The ring\<close>

record ring =
  rg_data :: "byte list"
  rg_write :: "32 word"
  rg_read :: "32 word"

function power_of_two_from :: "nat \<Rightarrow> nat \<Rightarrow> nat" where
  "power_of_two_from p n = (if 0 < p \<and> p < n then power_of_two_from (p * 2) n else p)"
  by pat_completeness auto
termination by (relation "measure (\<lambda>(p, n). n - p)") auto

declare power_of_two_from.simps [simp del]

definition power_of_two :: "nat \<Rightarrow> nat" where
  "power_of_two n = power_of_two_from 1 n"

definition create_relay_ring_buffer :: "nat \<Rightarrow> ring" where
  "create_relay_ring_buffer data_bytes =
     \<lparr>rg_data = replicate (power_of_two (max 1024 data_bytes)) 0, rg_write = 0, rg_read = 0\<rparr>"

definition blit :: "nat \<Rightarrow> 'a list \<Rightarrow> 'a list \<Rightarrow> 'a list" where
  "blit at_pos bs xs = take at_pos xs @ bs @ drop (at_pos + length bs) xs"

definition ring_pos :: "ring \<Rightarrow> 32 word \<Rightarrow> nat" where
  "ring_pos g w = unat (w AND word_of_nat (length (rg_data g) - 1))"

text \<open>\<open>_push\<close> with the read position it has loaded.\<close>

definition ring_push :: "32 word \<Rightarrow> byte list \<Rightarrow> nat \<Rightarrow> ring \<Rightarrow> nat \<times> ring" where
  "ring_push read bytes offset g =
     (let cap = length (rg_data g);
          free = cap - unat (rg_write g - read);
          remaining = length bytes - offset;
          n = min free remaining;
          pos = ring_pos g (rg_write g);
          first_part = min n (cap - pos);
          data = blit pos (take first_part (drop offset bytes)) (rg_data g);
          data = (if first_part < n
                  then blit 0 (take (n - first_part) (drop (offset + first_part) bytes)) data else data)
      in if n = 0 then (0, g)
         else (n, g\<lparr>rg_data := data, rg_write := rg_write g + word_of_nat n\<rparr>))"

text \<open>One round of \<open>_drain\<close> with the write position it has loaded: the bytes copied out.\<close>

definition ring_drain :: "32 word \<Rightarrow> ring \<Rightarrow> byte list \<times> ring" where
  "ring_drain write g =
     (let cap = length (rg_data g);
          avail = unat (write - rg_read g);
          pos = ring_pos g (rg_read g);
          first_part = min avail (cap - pos)
      in (take first_part (drop pos (rg_data g)) @ take (avail - first_part) (rg_data g),
          g\<lparr>rg_read := rg_read g + word_of_nat avail\<rparr>))"

subsection \<open>Sizes\<close>

lemma power_of_two_from_pow: "\<exists>k. p = 2 ^ k \<Longrightarrow> \<exists>k. power_of_two_from p n = 2 ^ k"
proof (induction p n rule: power_of_two_from.induct)
  case (1 p n)
  then obtain k where p: "p = 2 ^ k" by blast
  show ?case
  proof (cases "p < n")
    case True
    have "\<exists>k. p * 2 = 2 ^ k" using p by (intro exI [of _ "Suc k"]) simp
    moreover have "power_of_two_from p n = power_of_two_from (p * 2) n"
      using True p by (subst power_of_two_from.simps) simp
    ultimately show ?thesis using 1 True p by simp
  next
    case False
    then have "power_of_two_from p n = p" by (subst power_of_two_from.simps) simp
    then show ?thesis using p by auto
  qed
qed

lemma power_of_two_pow: "\<exists>k. power_of_two n = 2 ^ k"
  unfolding power_of_two_def by (rule power_of_two_from_pow) (rule exI [of _ 0], simp)

lemma power_of_two_from_ge: "0 < p \<Longrightarrow> n \<le> power_of_two_from p n"
  by (induction p n rule: power_of_two_from.induct) (subst power_of_two_from.simps, auto)

lemma power_of_two_from_le: "0 < p \<Longrightarrow> p < 2 * n \<Longrightarrow> power_of_two_from p n < 2 * n"
  by (induction p n rule: power_of_two_from.induct) (subst power_of_two_from.simps, auto)

definition ring_size :: "ring \<Rightarrow> bool" where
  "ring_size g \<longleftrightarrow> (\<exists>k \<le> 31. length (rg_data g) = 2 ^ k)"

lemma create_ring_size:
  assumes "data_bytes \<le> 2 ^ 31"
  shows "ring_size (create_relay_ring_buffer data_bytes)"
proof -
  let ?n = "max 1024 data_bytes"
  obtain k where k: "power_of_two ?n = 2 ^ k" using power_of_two_pow by blast
  have n: "?n \<le> 2 ^ 31" using assms by simp
  have "power_of_two ?n < 2 * ?n" unfolding power_of_two_def by (rule power_of_two_from_le) simp_all
  also have "\<dots> \<le> 2 * 2 ^ 31" using n by (rule mult_le_mono2)
  finally have "(2::nat) ^ k < 2 ^ 32" by (simp add: k)
  then have "k < 32" by (rule power_less_imp_less_exp [rotated]) simp
  then show ?thesis using k by (auto simp: ring_size_def create_relay_ring_buffer_def intro!: exI [of _ k])
qed

lemma ring_size_pos: "ring_size g \<Longrightarrow> 0 < length (rg_data g)"
  by (auto simp: ring_size_def)

lemma ring_size_le: "ring_size g \<Longrightarrow> length (rg_data g) \<le> 2 ^ 31"
  unfolding ring_size_def using power_increasing [of _ 31 "2::nat"] by fastforce

lemma unat_nat32: "unat (word_of_nat n :: 32 word) = n mod 2 ^ 32"
  by (simp add: unat_of_nat)

lemma ring_pos_mod:
  assumes "ring_size g"
  shows "ring_pos g (word_of_nat n) = n mod length (rg_data g)"
proof -
  obtain k where k: "k \<le> 31" "length (rg_data g) = 2 ^ k" using assms by (auto simp: ring_size_def)
  have "word_of_nat (2 ^ k - 1) = (mask k :: 32 word)"
    by (simp add: mask_eq_exp_minus_1 of_nat_diff)
  then have "ring_pos g (word_of_nat n) = unat (take_bit k (word_of_nat n :: 32 word))"
    by (simp add: ring_pos_def k take_bit_eq_mask)
  also have "\<dots> = take_bit k (unat (word_of_nat n :: 32 word))" by (rule unsigned_take_bit_eq)
  also have "\<dots> = n mod 2 ^ 32 mod 2 ^ k" by (simp only: take_bit_eq_mod unat_nat32)
  also have "\<dots> = n mod 2 ^ k"
    by (rule mod_mod_cancel) (rule le_imp_power_dvd, use k(1) in \<open>simp\<close>)
  finally show ?thesis by (simp add: k)
qed

lemma unat_diff32:
  assumes "a \<le> b" and "b \<le> a + 2 ^ 31"
  shows "unat (word_of_nat b - word_of_nat a :: 32 word) = b - a"
proof -
  have "(word_of_nat b - word_of_nat a :: 32 word) = word_of_nat (b - a)" using assms(1) by (simp add: of_nat_diff)
  moreover have "b - a < 2 ^ 32" using assms by simp
  ultimately show ?thesis by (simp only: unat_nat32 mod_less)
qed

subsection \<open>The stream view of the data area\<close>

text \<open>The cells from stream index \<open>r\<close> up to the length of \<open>sent\<close> hold \<open>sent\<close>.\<close>

definition holds :: "byte list \<Rightarrow> byte list \<Rightarrow> nat \<Rightarrow> bool" where
  "holds data sent r \<longleftrightarrow> (\<forall>i. r \<le> i \<and> i < length sent \<longrightarrow> data ! (i mod length data) = sent ! i)"

lemma length_blit [simp]: "p + length bs \<le> length xs \<Longrightarrow> length (blit p bs xs) = length xs"
  by (simp add: blit_def)

lemma nth_blit:
  "p + length bs \<le> length xs \<Longrightarrow> j < length xs \<Longrightarrow>
     blit p bs xs ! j = (if p \<le> j \<and> j < p + length bs then bs ! (j - p) else xs ! j)"
  by (auto simp: blit_def nth_append)

lemma mod_within:
  assumes "(w::nat) \<le> i" "i < w + n" "n \<le> cap" "0 < cap"
  shows "i mod cap = (if w mod cap + (i - w) < cap then w mod cap + (i - w) else w mod cap + (i - w) - cap)"
proof -
  have "i = w + (i - w)" using assms(1) by simp
  then have "i mod cap = (w mod cap + (i - w)) mod cap" using mod_add_left_eq [of w cap "i - w"] by simp
  moreover have "w mod cap + (i - w) < 2 * cap"
    using assms mod_less_divisor [of cap w] by linarith
  moreover have "x mod cap = (if x < cap then x else x - cap)" if "x < 2 * cap" for x
    using that by (simp add: le_mod_geq)
  ultimately show ?thesis by simp
qed

lemma ring_push_spec:
  assumes "ring_size g" and "rg_write g = word_of_nat (length sent)" and "read = word_of_nat r0"
    and "r0 \<le> r" and "r \<le> length sent" and "length sent \<le> r0 + length (rg_data g)"
    and "holds (rg_data g) sent r" and "ring_push read bytes offset g = (n, g')"
  shows "n = min (length (rg_data g) - (length sent - r0)) (length bytes - offset)"
    and "length (rg_data g') = length (rg_data g)" and "rg_read g' = rg_read g"
    and "rg_write g' = word_of_nat (length (sent @ take n (drop offset bytes)))"
    and "holds (rg_data g') (sent @ take n (drop offset bytes)) r"
    and "length sent + n \<le> r0 + length (rg_data g)"
proof -
  let ?cap = "length (rg_data g)" and ?w = "length sent"
  let ?chunk = "take n (drop offset bytes)"
  have cap: "0 < ?cap" using assms(1) by (rule ring_size_pos)
  have diff: "unat (rg_write g - read) = ?w - r0"
    unfolding assms(2,3) by (rule unat_diff32) (use assms(4-6) ring_size_le [OF assms(1)] in \<open>linarith\<close>)+
  define m where "m = min (?cap - (?w - r0)) (length bytes - offset)"
  define f where "f = min m (?cap - ?w mod ?cap)"
  define d1 where "d1 = blit (?w mod ?cap) (take f (drop offset bytes)) (rg_data g)"
  define d2 where "d2 = (if f < m then blit 0 (take (m - f) (drop (offset + f) bytes)) d1 else d1)"
  have pos: "ring_pos g (rg_write g) = ?w mod ?cap"
    by (simp add: assms(2) ring_pos_mod [OF assms(1)])
  have out: "ring_push read bytes offset g =
      (if m = 0 then (0, g) else (m, g\<lparr>rg_data := d2, rg_write := rg_write g + word_of_nat m\<rparr>))"
    unfolding ring_push_def Let_def diff pos d2_def d1_def f_def m_def by (rule refl)
  then have n: "n = m" using assms(8) by (simp split: if_splits)
  have lenc: "length ?chunk = m" by (simp add: n m_def)
  have mcap: "m \<le> ?cap" by (simp add: m_def)
  have fl: "?w mod ?cap + f \<le> ?cap" using mod_less_divisor [OF cap, of ?w] by (simp add: f_def)
  have lf: "length (take f (drop offset bytes)) = f" by (simp add: f_def m_def)
  have l1: "length d1 = ?cap" using fl by (simp add: d1_def lf)
  have ls: "length (take (m - f) (drop (offset + f) bytes)) = m - f" by (simp add: m_def)
  have l2: "length d2 = ?cap" using l1 mcap by (simp add: d2_def ls)
  have "m \<le> length bytes - offset" unfolding m_def by (rule min.cobounded2)
  moreover have "f \<le> m" unfolding f_def by (rule min.cobounded1)
  ultimately have fb: "f \<le> length bytes - offset" "m - f \<le> length bytes - (offset + f)" "m \<le> length bytes - offset"
    by linarith+
  have d1n: "d1 ! j = (if ?w mod ?cap \<le> j \<and> j < ?w mod ?cap + f then bytes ! (offset + (j - ?w mod ?cap)) else rg_data g ! j)"
    if "j < ?cap" for j
    using nth_blit [of "?w mod ?cap" "take f (drop offset bytes)" "rg_data g" j] that fl fb
    unfolding d1_def lf by auto
  have d2n: "d2 ! j = (if f < m \<and> j < m - f then bytes ! (offset + f + j) else d1 ! j)" if "j < ?cap" for j
    using nth_blit [of 0 "take (m - f) (drop (offset + f) bytes)" d1 j] that mcap fb
    unfolding d2_def ls l1 by auto
  show "n = min (?cap - (?w - r0)) (length bytes - offset)" by (simp add: n m_def)
  show "length (rg_data g') = ?cap" using out assms(8) l2 by (auto split: if_splits)
  show "rg_read g' = rg_read g" using out assms(8) by (auto split: if_splits)
  show "rg_write g' = word_of_nat (length (sent @ ?chunk))"
    using out assms(8) assms(2) n lenc by (auto split: if_splits)
  show "?w + n \<le> r0 + ?cap" using assms(4-6) by (simp add: n m_def)
  have cell: "d2 ! (i mod ?cap) = (sent @ ?chunk) ! i" if i: "r \<le> i" "i < ?w + m" "0 < m" for i
  proof (cases "i < ?w")
    case True
    have old: "rg_data g ! (i mod ?cap) = sent ! i" using assms(7) i(1) True by (simp add: holds_def)
    let ?p = "?w mod ?cap"
    have im: "i mod ?cap < ?cap" using cap by simp
    have "m \<le> ?cap - (?w - r0)" by (simp add: m_def)
    then have far: "?w + m - i \<le> ?cap" using i assms(4-6) by linarith
    have wi: "?w mod ?cap = (if i mod ?cap + (?w - i) < ?cap then i mod ?cap + (?w - i) else i mod ?cap + (?w - i) - ?cap)"
      by (rule mod_within [of i ?w ?cap ?cap]) (use True far cap i(3) in linarith)+
    have "\<not> (?p \<le> i mod ?cap \<and> i mod ?cap < ?p + f)"
      using wi far True im by (auto simp: f_def split: if_splits)
    moreover have "\<not> i mod ?cap < m - f" if "f < m"
    proof -
      have "f = ?cap - ?p" using that by (simp add: f_def min_def split: if_splits)
      then show ?thesis using wi far True im mod_less_divisor [OF cap, of ?w] by (auto split: if_splits)
    qed
    ultimately have "d2 ! (i mod ?cap) = rg_data g ! (i mod ?cap)"
      unfolding d2n [OF im] d1n [OF im] by meson
    then show ?thesis using old True by (simp add: nth_append)
  next
    case False
    let ?p = "?w mod ?cap" and ?j = "i - ?w"
    have j: "?j < m" "i = ?w + ?j" using i False by linarith+
    have im: "i mod ?cap = (if ?p + ?j < ?cap then ?p + ?j else ?p + ?j - ?cap)"
      using mod_within [of ?w i m ?cap] i False mcap cap by simp
    have want: "(sent @ ?chunk) ! i = bytes ! (offset + ?j)"
    proof -
      have "take m (drop offset bytes) ! ?j = bytes ! (offset + ?j)"
        using j(1) fb(3) by (subst nth_take) (auto intro: nth_drop)
      then show ?thesis using False by (simp add: nth_append n)
    qed
    show ?thesis
    proof (cases "?p + ?j < ?cap")
      case True
      then have jf: "?j < f" using j by (simp add: f_def)
      have "d1 ! (?p + ?j) = bytes ! (offset + ?j)" using True jf by (simp add: d1n)
      moreover have "\<not> ?p + ?j < m - f" if "f < m"
        using that j mcap by (simp add: f_def min_def split: if_splits)
      ultimately have "d2 ! (?p + ?j) = bytes ! (offset + ?j)" using True by (auto simp: d2n)
      then show ?thesis using im True want by simp
    next
      case wrap: False
      then have f: "f = ?cap - ?p" "f < m" using j by (simp_all add: f_def)
      have k: "?p + ?j - ?cap = ?j - f" using f(1) wrap mod_less_divisor [OF cap, of ?w] by linarith
      have jf: "?j - f < m - f" and off: "offset + f + (?j - f) = offset + ?j"
        using f wrap j mod_less_divisor [OF cap, of ?w] by linarith+
      have "?j - f < ?cap" using j mcap by linarith
      from d2n [OF this] have "d2 ! (?j - f) = bytes ! (offset + ?j)" using f(2) jf off by metis
      then show ?thesis using im wrap k want by simp
    qed
  qed
  show "holds (rg_data g') (sent @ ?chunk) r"
  proof (cases "m = 0")
    case True
    then show ?thesis using assms(7,8) out n by simp
  next
    case False
    then have "rg_data g' = d2" using out assms(8) by auto
    then show ?thesis using cell l2 lenc False by (auto simp: holds_def)
  qed
qed

lemma ring_drain_spec:
  assumes "ring_size g" and "rg_read g = word_of_nat r" and "write = word_of_nat w0"
    and "r \<le> w0" and "w0 \<le> length sent" and "length sent \<le> r + length (rg_data g)"
    and "holds (rg_data g) sent r" and "ring_drain write g = (chunk, g')"
  shows "chunk = take (w0 - r) (drop r sent)"
    and "rg_data g' = rg_data g" and "rg_write g' = rg_write g" and "rg_read g' = word_of_nat w0"
proof -
  let ?cap = "length (rg_data g)"
  have cap: "0 < ?cap" using assms(1) by (rule ring_size_pos)
  have avail: "unat (write - rg_read g) = w0 - r"
    unfolding assms(2,3) by (rule unat_diff32) (use assms(4-6) ring_size_le [OF assms(1)] in \<open>linarith\<close>)+
  have pos: "ring_pos g (rg_read g) = r mod ?cap" by (simp add: assms(2) ring_pos_mod [OF assms(1)])
  define f where "f = min (w0 - r) (?cap - r mod ?cap)"
  have out: "chunk = take f (drop (r mod ?cap) (rg_data g)) @ take (w0 - r - f) (rg_data g)"
    "g' = g\<lparr>rg_read := rg_read g + word_of_nat (w0 - r)\<rparr>"
    using assms(8) unfolding ring_drain_def Let_def avail pos f_def by auto
  show "rg_data g' = rg_data g" "rg_write g' = rg_write g" by (simp_all add: out(2))
  show "rg_read g' = word_of_nat w0" using assms(2,4) by (simp add: out(2) flip: of_nat_add)
  have a: "w0 - r \<le> ?cap" using assms(5,6) by linarith
  have pl: "r mod ?cap < ?cap" using cap by simp
  show "chunk = take (w0 - r) (drop r sent)"
  proof (rule nth_equalityI)
    show "length chunk = length (take (w0 - r) (drop r sent))"
      using assms(4,5) a pl by (simp add: out(1) f_def)
  next
    fix j
    assume "j < length chunk"
    then have j: "j < w0 - r" using a pl by (simp add: out(1) f_def)
    have h: "rg_data g ! ((r + j) mod ?cap) = sent ! (r + j)"
      using assms(5,7) j by (simp add: holds_def)
    have im: "(r + j) mod ?cap = (if r mod ?cap + j < ?cap then r mod ?cap + j else r mod ?cap + j - ?cap)"
      using mod_within [of r "r + j" "w0 - r" ?cap] j a cap by simp
    have "chunk ! j = rg_data g ! ((r + j) mod ?cap)"
    proof (cases "r mod ?cap + j < ?cap")
      case True
      then have "j < f" using j by (simp add: f_def)
      then show ?thesis using True im by (simp add: out(1) nth_append f_def)
    next
      case False
      then have f: "f = ?cap - r mod ?cap" using j by (simp add: f_def)
      then have "\<not> j < f" "r mod ?cap + j - ?cap = j - f" using False pl by linarith+
      then show ?thesis using False im f j by (simp add: out(1) nth_append min_def)
    qed
    then show "chunk ! j = take (w0 - r) (drop r sent) ! j"
      using h j assms(4,5) by simp
  qed
qed

section \<open>One producer, one consumer, any interleaving\<close>

text \<open>Each side works in two atomic steps: load the other side's index, then copy and store its
  own. \<open>sp_sent\<close> and \<open>sp_recv\<close> log the bytes put in and taken out.\<close>

record spsc =
  sp_ring :: ring
  sp_seen_read :: "32 word option"
  sp_seen_write :: "32 word option"
  sp_sent :: "byte list"
  sp_recv :: "byte list"

datatype spsc_act = WLoad | WPush "byte list" nat | RLoad | RDrain

fun spsc_step :: "spsc \<Rightarrow> spsc_act \<Rightarrow> spsc" where
  "spsc_step s WLoad = s\<lparr>sp_seen_read := Some (rg_read (sp_ring s))\<rparr>"
| "spsc_step s (WPush bytes offset) =
     (case sp_seen_read s of None \<Rightarrow> s
      | Some read \<Rightarrow> (case ring_push read bytes offset (sp_ring s) of (n, g) \<Rightarrow>
          s\<lparr>sp_ring := g, sp_seen_read := None, sp_sent := sp_sent s @ take n (drop offset bytes)\<rparr>))"
| "spsc_step s RLoad = s\<lparr>sp_seen_write := Some (rg_write (sp_ring s))\<rparr>"
| "spsc_step s RDrain =
     (case sp_seen_write s of None \<Rightarrow> s
      | Some wr \<Rightarrow> (case ring_drain wr (sp_ring s) of (chunk, g) \<Rightarrow>
          s\<lparr>sp_ring := g, sp_seen_write := None, sp_recv := sp_recv s @ chunk\<rparr>))"

definition spsc_start :: "nat \<Rightarrow> spsc" where
  "spsc_start n = \<lparr>sp_ring = create_relay_ring_buffer n, sp_seen_read = None, sp_seen_write = None,
     sp_sent = [], sp_recv = []\<rparr>"

definition ring_inv :: "ring \<Rightarrow> byte list \<Rightarrow> byte list \<Rightarrow> bool" where
  "ring_inv g sent recv \<longleftrightarrow> ring_size g \<and> rg_write g = word_of_nat (length sent) \<and>
     rg_read g = word_of_nat (length recv) \<and> recv = take (length recv) sent \<and>
     length recv \<le> length sent \<and> length sent \<le> length recv + length (rg_data g) \<and>
     holds (rg_data g) sent (length recv)"

definition spsc_inv :: "spsc \<Rightarrow> bool" where
  "spsc_inv s \<longleftrightarrow> ring_inv (sp_ring s) (sp_sent s) (sp_recv s) \<and>
     (\<forall>read. sp_seen_read s = Some read \<longrightarrow> (\<exists>r0. read = word_of_nat r0 \<and> r0 \<le> length (sp_recv s) \<and>
        length (sp_sent s) \<le> r0 + length (rg_data (sp_ring s)))) \<and>
     (\<forall>wr. sp_seen_write s = Some wr \<longrightarrow> (\<exists>w0. wr = word_of_nat w0 \<and>
        length (sp_recv s) \<le> w0 \<and> w0 \<le> length (sp_sent s)))"

lemma ring_size_cong: "length (rg_data g') = length (rg_data g) \<Longrightarrow> ring_size g' = ring_size g"
  by (simp add: ring_size_def)

lemma ring_inv_push:
  assumes inv: "ring_inv g sent recv" and r0: "r0 \<le> length recv" "length sent \<le> r0 + length (rg_data g)"
    and push: "ring_push (word_of_nat r0) bytes offset g = (n, g')"
  shows "ring_inv g' (sent @ take n (drop offset bytes)) recv"
    and "n = min (length (rg_data g) - (length sent - r0)) (length bytes - offset)"
    and "length (rg_data g') = length (rg_data g)" and "rg_read g' = rg_read g"
proof -
  have a: "ring_size g" "rg_write g = word_of_nat (length sent)" "length recv \<le> length sent"
    "holds (rg_data g) sent (length recv)"
    using inv by (simp_all add: ring_inv_def)
  note sp = ring_push_spec [OF a(1,2) refl r0(1) a(3) r0(2) a(4) push]
  show n: "n = min (length (rg_data g) - (length sent - r0)) (length bytes - offset)" by (rule sp(1))
  show len: "length (rg_data g') = length (rg_data g)" and rd: "rg_read g' = rg_read g" by (rule sp(2), rule sp(3))
  have "length (take n (drop offset bytes)) = n" using n by simp
  then have "length (sent @ take n (drop offset bytes)) \<le> length recv + length (rg_data g')"
    using sp(6) r0(1) len by simp
  then show "ring_inv g' (sent @ take n (drop offset bytes)) recv"
    using inv sp(4,5) rd len ring_size_cong [OF len] by (auto simp: ring_inv_def)
qed

lemma ring_inv_drain:
  assumes inv: "ring_inv g sent recv" and w0: "length recv \<le> w0" "w0 \<le> length sent"
    and drain: "ring_drain (word_of_nat w0) g = (chunk, g')"
  shows "ring_inv g' sent (recv @ chunk)" and "recv @ chunk = take w0 sent"
    and "rg_data g' = rg_data g" and "rg_write g' = rg_write g"
proof -
  have a: "ring_size g" "rg_read g = word_of_nat (length recv)" "length sent \<le> length recv + length (rg_data g)"
    "holds (rg_data g) sent (length recv)" "recv = take (length recv) sent"
    using inv by (simp_all add: ring_inv_def)
  note sp = ring_drain_spec [OF a(1,2) refl w0 a(3,4) drain]
  have "take (length recv) sent @ take (w0 - length recv) (drop (length recv) sent) = take w0 sent"
    using w0(1) by (simp add: take_add [symmetric])
  then show all: "recv @ chunk = take w0 sent" using a(5) sp(1) by simp
  show "rg_data g' = rg_data g" "rg_write g' = rg_write g" by (rule sp(2), rule sp(3))
  have "length (recv @ chunk) = w0" using w0(2) by (simp only: all length_take min_absorb2)
  moreover have "holds (rg_data g') sent w0" using a(4) w0(1) sp(2) by (simp add: holds_def)
  ultimately show "ring_inv g' sent (recv @ chunk)"
    using inv w0 sp(2-4) a(3) all ring_size_cong [of g' g] unfolding ring_inv_def by simp
qed

lemma spsc_inv_start: "n \<le> 2 ^ 31 \<Longrightarrow> spsc_inv (spsc_start n)"
  using create_ring_size [of n]
  by (auto simp: spsc_inv_def ring_inv_def spsc_start_def holds_def create_relay_ring_buffer_def)

lemma spsc_inv_step:
  assumes inv: "spsc_inv s"
  shows "spsc_inv (spsc_step s a)"
proof (cases a)
  case WLoad
  then show ?thesis using inv by (auto simp: spsc_inv_def ring_inv_def)
next
  case RLoad
  then show ?thesis using inv by (auto simp: spsc_inv_def ring_inv_def)
next
  case (WPush bytes offset)
  show ?thesis
  proof (cases "sp_seen_read s")
    case (Some read)
    obtain n g where p: "ring_push read bytes offset (sp_ring s) = (n, g)" by fastforce
    from inv Some obtain r0 where r0: "read = word_of_nat r0" "r0 \<le> length (sp_recv s)"
      "length (sp_sent s) \<le> r0 + length (rg_data (sp_ring s))"
      by (auto simp: spsc_inv_def)
    have "ring_inv (sp_ring s) (sp_sent s) (sp_recv s)" using inv by (simp add: spsc_inv_def)
    note sp = ring_inv_push [OF this r0(2,3) p [unfolded r0(1)]]
    then show ?thesis using inv Some p by (fastforce simp: WPush spsc_inv_def)
  qed (use WPush inv in \<open>simp\<close>)
next
  case RDrain
  show ?thesis
  proof (cases "sp_seen_write s")
    case (Some wr)
    obtain chunk g where d: "ring_drain wr (sp_ring s) = (chunk, g)" by fastforce
    from inv Some obtain w0 where w0: "wr = word_of_nat w0" "length (sp_recv s) \<le> w0" "w0 \<le> length (sp_sent s)"
      by (auto simp: spsc_inv_def)
    have "ring_inv (sp_ring s) (sp_sent s) (sp_recv s)" using inv by (simp add: spsc_inv_def)
    note sp = ring_inv_drain [OF this w0(2,3) d [unfolded w0(1)]]
    have seen: "length (sp_recv s) \<le> length (sp_recv s @ chunk)" by simp
    have rd: "\<exists>r0. read = word_of_nat r0 \<and> r0 \<le> length (sp_recv s @ chunk) \<and>
        length (sp_sent s) \<le> r0 + length (rg_data g)" if "sp_seen_read s = Some read" for read
    proof -
      from inv that obtain r0 where "read = word_of_nat r0" "r0 \<le> length (sp_recv s)"
        "length (sp_sent s) \<le> r0 + length (rg_data (sp_ring s))"
        by (auto simp: spsc_inv_def)
      then show ?thesis using seen sp(3) by (intro exI [of _ r0]) auto
    qed
    show ?thesis using sp(1) rd by (simp add: RDrain Some d spsc_inv_def)
  qed (use RDrain inv in \<open>simp\<close>)
qed

lemma spsc_inv_run: "n \<le> 2 ^ 31 \<Longrightarrow> spsc_inv (foldl spsc_step (spsc_start n) acts)"
proof -
  have "spsc_inv (foldl spsc_step s acts)" if "spsc_inv s" for s
    using that by (induction acts arbitrary: s) (auto intro: spsc_inv_step)
  then show "n \<le> 2 ^ 31 \<Longrightarrow> ?thesis" using spsc_inv_start by blast
qed

section \<open>Properties\<close>

text \<open>C13: under every interleaving of the producer's and the consumer's atomic steps, with
  indices loaded before the other side moves on, with any ring size, chunk sizes and any
  number of wrap-arounds of the 32-bit indices, the bytes taken out are a prefix of the
  bytes put in, what is in flight fits the ring, and a drain now would yield exactly it.\<close>

theorem relay_ring_fifo:
  fixes acts :: "spsc_act list"
  assumes "n \<le> 2 ^ 31"
  defines "s \<equiv> foldl spsc_step (spsc_start n) acts"
  shows "\<exists>flight. sp_sent s = sp_recv s @ flight \<and> length flight \<le> length (rg_data (sp_ring s)) \<and>
     fst (ring_drain (rg_write (sp_ring s)) (sp_ring s)) = flight"
proof -
  have inv: "ring_inv (sp_ring s) (sp_sent s) (sp_recv s)"
    using spsc_inv_run [OF assms(1)] by (simp add: spsc_inv_def s_def)
  then have f: "rg_write (sp_ring s) = word_of_nat (length (sp_sent s))" "length (sp_recv s) \<le> length (sp_sent s)"
    "length (sp_sent s) \<le> length (sp_recv s) + length (rg_data (sp_ring s))"
    by (simp_all add: ring_inv_def)
  obtain chunk g where d: "ring_drain (rg_write (sp_ring s)) (sp_ring s) = (chunk, g)" by fastforce
  from ring_inv_drain(2) [OF inv f(2) order_refl d [unfolded f(1)]] have e: "sp_recv s @ chunk = sp_sent s" by simp
  then have "length (sp_sent s) = length (sp_recv s) + length chunk" by (metis length_append)
  then show ?thesis using e d f(3) by (intro exI [of _ chunk]) auto
qed

theorem relay_ring_fifo_witness:
  "\<exists>flight. sp_sent (foldl spsc_step (spsc_start 16) [WLoad, WPush [1, 2] 0, RLoad, WLoad, RDrain, WPush [3] 0]) =
     sp_recv (foldl spsc_step (spsc_start 16) [WLoad, WPush [1, 2] 0, RLoad, WLoad, RDrain, WPush [3] 0]) @ flight"
  using relay_ring_fifo [of 16 "[WLoad, WPush [1, 2] 0, RLoad, WLoad, RDrain, WPush [3] 0]"] by auto

end
