(* ===== verification/Relay_Link.thy ===== *)
theory Relay_Link
  imports Relay_Ring
begin

text \<open>
  The two ends of the relay ring of \<open>src/runtime/relay-ring.js\<close>: \<open>RingWriter\<close> with its
  backlog, its byte and age ceilings, its flush wait and its quarantine, and \<open>RingReader\<close>
  with its accumulator, its framing and its size ceiling.

  The two ends run on different threads. The writer's code is cut where the consumer can get in
  between: every push is a step, and so is the registration of the flush wait after the push that
  failed; meanwhile the writer's thread does nothing else. The consumer's code is cut between the store of
  the read position and the notification that follows it, and a drain may see an older write position.
  A push reads the read position and stores the write position in one step: a drain between the two
  would see the old write position, which is the older position that the later drain may see.

  The backlog is the part of the deque from \<open>pendingHead\<close> on. The age timer may fire at any moment,
  which covers every arming of it. The overflow reports are logged. The frame callback does not close the
  reader.
\<close>

section \<open>The writer\<close>

text \<open>Where the flush is: nowhere, about to register its wait, parked in \<open>Atomics.waitAsync\<close>, queued to run,
  or between two pushes of its loop. \<open>flushArmed\<close> holds in the second, third and fourth.\<close>

datatype flush_wait = FlushIdle | FlushArming | FlushParked | FlushQueued | FlushRunning

datatype overflow_reason = OverBytes | OverAge

record relay_writer =
  rw_pending :: "byte list list"
  rw_offset :: nat
  rw_pending_bytes :: nat
  rw_since :: real
  rw_max_bytes :: js_cap
  rw_max_age :: js_cap
  rw_wait :: flush_wait
  rw_closed :: bool
  rw_snapshot :: "32 word"
  rw_reports :: "(overflow_reason \<times> nat) list"

definition new_relay_writer :: "js_cap \<Rightarrow> js_cap \<Rightarrow> relay_writer" where
  "new_relay_writer max_bytes max_age =
     \<lparr>rw_pending = [], rw_offset = 0, rw_pending_bytes = 0, rw_since = 0, rw_max_bytes = max_bytes,
      rw_max_age = max_age, rw_wait = FlushIdle, rw_closed = False, rw_snapshot = 0, rw_reports = []\<rparr>"

fun reaches :: "real \<Rightarrow> js_cap \<Rightarrow> bool" where
  "reaches x (Finite c) = (c \<le> x)"
| "reaches x Infinity = False"

fun exceeds :: "nat \<Rightarrow> js_cap \<Rightarrow> bool" where
  "exceeds n (Finite c) = (c < real n)"
| "exceeds n Infinity = False"

definition rw_age :: "real \<Rightarrow> relay_writer \<Rightarrow> real" where
  "rw_age now w = (if 0 < rw_pending_bytes w then max 0 (now - rw_since w) else 0)"

definition rw_close :: "relay_writer \<Rightarrow> relay_writer" where
  "rw_close w = w\<lparr>rw_closed := True, rw_pending := [], rw_offset := 0, rw_pending_bytes := 0,
     rw_since := 0, rw_wait := (if rw_wait w = FlushParked then FlushQueued else rw_wait w)\<rparr>"

definition rw_overflow :: "overflow_reason \<Rightarrow> nat \<Rightarrow> relay_writer \<Rightarrow> relay_writer" where
  "rw_overflow reason incoming w =
     (rw_close w)\<lparr>rw_reports := rw_reports w @ [(reason, rw_pending_bytes w + incoming)]\<rparr>"

definition rw_push :: "byte list \<Rightarrow> nat \<Rightarrow> relay_writer \<times> ring \<Rightarrow> nat \<times> relay_writer \<times> ring" where
  "rw_push bytes offset wg =
     (case wg of (w, g) \<Rightarrow> case ring_push (rg_read g) bytes offset g of (n, g') \<Rightarrow>
        (n, (if n < length bytes - offset then w\<lparr>rw_snapshot := rg_read g\<rparr> else w), g'))"

definition rw_arm_flush :: "relay_writer \<Rightarrow> relay_writer" where
  "rw_arm_flush w = (if rw_wait w \<noteq> FlushIdle \<or> rw_closed w then w else w\<lparr>rw_wait := FlushArming\<rparr>)"

text \<open>\<open>waitAsync\<close> compares the read position of this moment with the one the failed push saw.\<close>

definition rw_register :: "relay_writer \<times> ring \<Rightarrow> relay_writer \<times> ring" where
  "rw_register wg =
     (case wg of (w, g) \<Rightarrow>
        if rw_wait w \<noteq> FlushArming then (w, g)
        else (w\<lparr>rw_wait := (if rg_read g = rw_snapshot w then FlushParked else FlushQueued)\<rparr>, g))"

definition rw_write :: "real \<Rightarrow> byte list \<Rightarrow> relay_writer \<times> ring \<Rightarrow> bool \<times> relay_writer \<times> ring" where
  "rw_write now bytes wg =
     (case wg of (w, g) \<Rightarrow>
        if rw_closed w then (False, w, g)
        else if 0 < rw_pending_bytes w then
          (if reaches (rw_age now w) (rw_max_age w) then (False, rw_overflow OverAge (length bytes) w, g)
           else if exceeds (rw_pending_bytes w) (rw_max_bytes w)
           then (False, rw_overflow OverBytes (length bytes) w, g)
           else (True, rw_arm_flush (w\<lparr>rw_pending := rw_pending w @ [bytes],
                   rw_pending_bytes := rw_pending_bytes w + length bytes\<rparr>), g))
        else case rw_push bytes 0 (w, g) of (n, w, g) \<Rightarrow>
          if n < length bytes then
            (True, rw_arm_flush (w\<lparr>rw_pending := rw_pending w @ [bytes], rw_offset := n,
               rw_pending_bytes := length bytes - n, rw_since := now\<rparr>), g)
          else (True, w, g))"

text \<open>After the loop of the flush.\<close>

definition rw_flush_end :: "relay_writer \<Rightarrow> relay_writer" where
  "rw_flush_end w =
     (let w = w\<lparr>rw_wait := FlushIdle\<rparr>
      in if rw_pending_bytes w = 0 then w\<lparr>rw_pending := [], rw_since := 0\<rparr> else rw_arm_flush w)"

text \<open>One round of the loop.\<close>

definition rw_flush_round :: "real \<Rightarrow> relay_writer \<times> ring \<Rightarrow> relay_writer \<times> ring" where
  "rw_flush_round now wg =
     (case wg of (w, g) \<Rightarrow>
        if rw_wait w \<noteq> FlushRunning then (w, g)
        else if rw_pending_bytes w = 0 then (rw_flush_end w, g)
        else case rw_pending w of
          [] \<Rightarrow> (rw_flush_end w, g)
        | head # rest \<Rightarrow>
            (case rw_push head (rw_offset w) (w, g) of (n, w', g') \<Rightarrow>
               if n = 0 then (rw_flush_end w', g')
               else
                 let w' = w'\<lparr>rw_since := now, rw_offset := rw_offset w + n,
                             rw_pending_bytes := rw_pending_bytes w - n\<rparr>
                 in (if length head \<le> rw_offset w' then w'\<lparr>rw_pending := rest, rw_offset := 0\<rparr> else w', g')))"

definition rw_flush_pending :: "real \<Rightarrow> relay_writer \<Rightarrow> relay_writer" where
  "rw_flush_pending now w =
     (if reaches (rw_age now w) (rw_max_age w) then rw_overflow OverAge 0 w else w\<lparr>rw_wait := FlushRunning\<rparr>)"

text \<open>The continuation of the flush wait; it runs only when it is queued.\<close>

definition rw_resume :: "real \<Rightarrow> relay_writer \<Rightarrow> relay_writer" where
  "rw_resume now w =
     (if rw_wait w \<noteq> FlushQueued then w
      else let w = w\<lparr>rw_wait := FlushIdle\<rparr> in if rw_closed w then w else rw_flush_pending now w)"

definition rw_age_timer :: "real \<Rightarrow> relay_writer \<Rightarrow> relay_writer" where
  "rw_age_timer now w =
     (if rw_closed w \<or> rw_pending_bytes w = 0 then w
      else if reaches (rw_age now w) (rw_max_age w) then rw_overflow OverAge 0 w
      else w)"

text \<open>The writer's thread is inside \<open>_armFlush\<close> or \<open>_flushPending\<close>.\<close>

definition rw_busy :: "relay_writer \<Rightarrow> bool" where
  "rw_busy w \<longleftrightarrow> rw_wait w \<in> {FlushArming, FlushRunning}"

section \<open>The reader\<close>

record relay_reader =
  rr_acc :: "byte list"
  rr_closed :: bool
  rr_max_frame :: js_cap
  rr_oversized :: "nat list"

definition new_relay_reader :: "js_cap \<Rightarrow> relay_reader" where
  "new_relay_reader max_frame = \<lparr>rr_acc = [], rr_closed = False, rr_max_frame = max_frame, rr_oversized = []\<rparr>"

definition le_prefix :: "byte list \<Rightarrow> nat" where
  "le_prefix buf = unat (buf ! 0) + unat (buf ! 1) * 2 ^ 8 + unat (buf ! 2) * 2 ^ 16 + unat (buf ! 3) * 2 ^ 24"

text \<open>The frames cut off a buffer, what remains, and the declared size that stopped it.\<close>

function rr_parse :: "js_cap \<Rightarrow> byte list \<Rightarrow> byte list list \<times> byte list \<times> nat option" where
  "rr_parse max_frame buf =
     (if length buf < 4 then ([], buf, None)
      else let len = le_prefix buf in
        if exceeds len max_frame then ([], [], Some len)
        else if length buf - 4 < len then ([], buf, None)
        else case rr_parse max_frame (drop (4 + len) buf) of
            (frames, rest, over) \<Rightarrow> (take (4 + len) buf # frames, rest, over))"
  by pat_completeness auto
termination
  by (relation "measure (\<lambda>(m, buf). length buf)") auto

declare rr_parse.simps [simp del]

definition rr_receive :: "byte list \<Rightarrow> relay_reader \<Rightarrow> byte list list \<times> relay_reader" where
  "rr_receive chunk r =
     (case rr_parse (rr_max_frame r) (rr_acc r @ chunk) of
        (frames, rest, None) \<Rightarrow> (frames, r\<lparr>rr_acc := rest\<rparr>)
      | (frames, rest, Some len) \<Rightarrow>
          (frames, r\<lparr>rr_acc := [], rr_closed := True, rr_oversized := rr_oversized r @ [len]\<rparr>))"

section \<open>The link\<close>

record link =
  lk_writer :: relay_writer
  lk_ring :: ring
  lk_reader :: relay_reader
  lk_owed :: bool
  lk_accepted :: "byte list list"
  lk_recv :: "byte list"
  lk_frames :: "byte list list"

datatype link_event =
    LinkWrite real "byte list"
  | LinkRegister
  | LinkResume real
  | LinkFlush real
  | LinkAgeTimer real
  | LinkDrain nat
  | LinkNotify

text \<open>\<open>lk_owed\<close>: the consumer has stored its read position and is about to notify. \<open>lk_accepted\<close> logs the
  writes answered with true, \<open>lk_recv\<close> the bytes taken out of the ring, \<open>lk_frames\<close> the frames handed to the
  consumer. A drain sees a write position \<open>lag\<close> bytes old.\<close>

definition wake_writer :: "relay_writer \<Rightarrow> relay_writer" where
  "wake_writer w = (if rw_wait w = FlushParked then w\<lparr>rw_wait := FlushQueued\<rparr> else w)"

definition link_drain :: "nat \<Rightarrow> link \<Rightarrow> link" where
  "link_drain lag s =
     (if rr_closed (lk_reader s) \<or> lk_owed s \<or> unat (rg_write (lk_ring s) - rg_read (lk_ring s)) \<le> lag then s
      else case ring_drain (rg_write (lk_ring s) - word_of_nat lag) (lk_ring s) of (chunk, g) \<Rightarrow>
        case rr_receive chunk (lk_reader s) of (frames, r) \<Rightarrow>
          s\<lparr>lk_ring := g, lk_reader := r, lk_owed := True,
            lk_recv := lk_recv s @ chunk, lk_frames := lk_frames s @ frames\<rparr>)"

definition link_notify :: "link \<Rightarrow> link" where
  "link_notify s = (if lk_owed s then s\<lparr>lk_writer := wake_writer (lk_writer s), lk_owed := False\<rparr> else s)"

fun link_step :: "link \<Rightarrow> link_event \<Rightarrow> link" where
  "link_step s (LinkWrite now bytes) =
     (if rw_busy (lk_writer s) then s
      else case rw_write now bytes (lk_writer s, lk_ring s) of (ok, w, g) \<Rightarrow>
        s\<lparr>lk_writer := w, lk_ring := g, lk_accepted := lk_accepted s @ (if ok then [bytes] else [])\<rparr>)"
| "link_step s LinkRegister = (case rw_register (lk_writer s, lk_ring s) of (w, g) \<Rightarrow> s\<lparr>lk_writer := w, lk_ring := g\<rparr>)"
| "link_step s (LinkResume now) = s\<lparr>lk_writer := rw_resume now (lk_writer s)\<rparr>"
| "link_step s (LinkFlush now) =
     (case rw_flush_round now (lk_writer s, lk_ring s) of (w, g) \<Rightarrow> s\<lparr>lk_writer := w, lk_ring := g\<rparr>)"
| "link_step s (LinkAgeTimer now) =
     (if rw_busy (lk_writer s) then s else s\<lparr>lk_writer := rw_age_timer now (lk_writer s)\<rparr>)"
| "link_step s (LinkDrain lag) = link_drain lag s"
| "link_step s LinkNotify = link_notify s"

definition link_start :: "nat \<Rightarrow> js_cap \<Rightarrow> js_cap \<Rightarrow> js_cap \<Rightarrow> link" where
  "link_start n max_bytes max_age max_frame =
     \<lparr>lk_writer = new_relay_writer max_bytes max_age, lk_ring = create_relay_ring_buffer n,
      lk_reader = new_relay_reader max_frame, lk_owed = False, lk_accepted = [], lk_recv = [], lk_frames = []\<rparr>"

section \<open>Framing\<close>

lemma le_prefix_append: "4 \<le> length a \<Longrightarrow> le_prefix (a @ b) = le_prefix a"
  by (cases a) (auto simp: le_prefix_def nth_append)

lemma rr_parse_step:
  assumes "4 \<le> length buf" and "\<not> exceeds (le_prefix buf) m" and "4 + le_prefix buf \<le> length buf"
  shows "rr_parse m buf = (case rr_parse m (drop (4 + le_prefix buf) buf) of
     (frames, rest, over) \<Rightarrow> (take (4 + le_prefix buf) buf # frames, rest, over))"
proof -
  have "\<not> length buf < 4" "\<not> length buf - 4 < le_prefix buf" using assms by linarith+
  then show ?thesis using assms(2) by (simp add: rr_parse.simps [of m buf] Let_def)
qed

lemma rr_parse_wait:
  assumes "4 \<le> length buf" and "\<not> exceeds (le_prefix buf) m" and "length buf < 4 + le_prefix buf"
  shows "rr_parse m buf = ([], buf, None)"
proof -
  have "\<not> length buf < 4" "length buf - 4 < le_prefix buf" using assms by linarith+
  then show ?thesis using assms(2) by (simp add: rr_parse.simps [of m buf] Let_def)
qed

lemma rr_parse_append:
  "rr_parse m a = (fs, rest, None) \<Longrightarrow>
     rr_parse m (a @ b) = (case rr_parse m (rest @ b) of (fs', rest', over) \<Rightarrow> (fs @ fs', rest', over))"
proof (induction m a arbitrary: fs rule: rr_parse.induct)
  case (1 m buf)
  show ?case
  proof (cases "length buf < 4")
    case True
    then have "fs = [] \<and> rest = buf" using 1(2) by (simp add: rr_parse.simps [of m buf])
    then show ?thesis by (simp split: prod.split)
  next
    case big: False
    have pre: "le_prefix (buf @ b) = le_prefix buf" using big by (simp add: le_prefix_append)
    show ?thesis
    proof (cases "exceeds (le_prefix buf) m")
      case True
      then show ?thesis using 1(2) big by (simp add: rr_parse.simps [of m buf])
    next
      case fits: False
      show ?thesis
      proof (cases "length buf - 4 < le_prefix buf")
        case True
        then have "fs = [] \<and> rest = buf" using 1(2) big fits by (simp add: rr_parse.simps [of m buf])
        then show ?thesis by (simp split: prod.split)
      next
        case False
        obtain fs1 where fs1: "rr_parse m (drop (4 + le_prefix buf) buf) = (fs1, rest, None)"
          "fs = take (4 + le_prefix buf) buf # fs1"
          using 1(2) big fits False by (auto simp: rr_parse.simps [of m buf] Let_def split: prod.splits)
        have "4 + le_prefix buf \<le> length buf" using big False by linarith
        then have "rr_parse m (buf @ b) = (case rr_parse m (drop (4 + le_prefix buf) buf @ b) of
            (frames, rest, over) \<Rightarrow> (take (4 + le_prefix buf) buf # frames, rest, over))"
          using rr_parse_step [of "buf @ b" m] big fits by (simp add: pre)
        then show ?thesis
          using 1(1) [OF big refl fits False fs1(1)] fs1(2) by (simp split: prod.splits)
      qed
    qed
  qed
qed

text \<open>A frame as the encoders build it: a prefix that counts the rest, within the ceiling.\<close>

definition frame_ok :: "js_cap \<Rightarrow> byte list \<Rightarrow> bool" where
  "frame_ok m f \<longleftrightarrow> 4 \<le> length f \<and> le_prefix f = length f - 4 \<and> \<not> exceeds (le_prefix f) m"

lemma le_prefix_take: "4 \<le> k \<Longrightarrow> k \<le> length f \<Longrightarrow> le_prefix (take k f) = le_prefix f"
  by (simp add: le_prefix_def)

lemma rr_parse_frame:
  assumes "frame_ok m f"
  shows "rr_parse m (f @ rest) = (case rr_parse m rest of (fs, r, over) \<Rightarrow> (f # fs, r, over))"
proof -
  have f: "4 \<le> length f" "le_prefix f = length f - 4" "\<not> exceeds (le_prefix f) m"
    using assms unfolding frame_ok_def by blast+
  have "le_prefix (f @ rest) = le_prefix f" using f(1) by (rule le_prefix_append)
  moreover have l: "4 + le_prefix f = length f" using f by simp
  ultimately show ?thesis using rr_parse_step [of "f @ rest" m] f(1,3) by simp
qed

lemma rr_parse_part:
  assumes "frame_ok m f" and "f = a @ tl_rest" and "tl_rest \<noteq> []"
  shows "rr_parse m a = ([], a, None)"
proof (cases "length a < 4")
  case False
  then have pre: "le_prefix f = le_prefix a" using assms(2) by (simp add: le_prefix_append)
  have "4 + le_prefix a = length f" "\<not> exceeds (le_prefix a) m"
    using assms(1) unfolding frame_ok_def pre by auto
  moreover have "length a < length f" using assms(2,3) by simp
  ultimately show ?thesis using rr_parse_wait [of a m] False by simp
qed (simp add: rr_parse.simps)

lemma rr_parse_prefix:
  "list_all (frame_ok m) fs \<Longrightarrow> a @ tl_rest = concat fs \<Longrightarrow>
     \<exists>j rest. rr_parse m a = (take j fs, rest, None) \<and> (tl_rest = [] \<longrightarrow> take j fs = fs)"
proof (induction fs arbitrary: a)
  case Nil
  then show ?case by (simp add: rr_parse.simps)
next
  case (Cons f fs)
  have ok: "frame_ok m f" using Cons.prems(1) by simp
  from Cons.prems(2) consider rest where "a = f @ rest" "rest @ tl_rest = concat fs"
    | x where "f = a @ x" "x \<noteq> []" "tl_rest = x @ concat fs"
    by (auto simp: append_eq_append_conv2) (metis append.right_neutral)
  then show ?case
  proof cases
    case 1
    then obtain j r where "rr_parse m rest = (take j fs, r, None)" "tl_rest = [] \<longrightarrow> take j fs = fs"
      using Cons.IH [of rest] Cons.prems(1) by auto
    then show ?thesis by (intro exI [of _ "Suc j"]) (simp add: 1(1) rr_parse_frame [OF ok])
  next
    case 2
    from rr_parse_part [OF ok 2(1,2)] 2 show ?thesis by (intro exI [of _ 0]) simp
  qed
qed

section \<open>The invariant of the link\<close>

definition backlog :: "relay_writer \<Rightarrow> byte list" where
  "backlog w = drop (rw_offset w) (concat (rw_pending w))"

definition writer_ok :: "relay_writer \<Rightarrow> bool" where
  "writer_ok w \<longleftrightarrow>
     (if rw_closed w then rw_pending_bytes w = 0
      else rw_pending_bytes w = length (backlog w) \<and> (\<forall>b \<in> set (rw_pending w). b \<noteq> []) \<and>
        (case rw_pending w of [] \<Rightarrow> rw_offset w = 0 | h # t \<Rightarrow> rw_offset w < length h))"

text \<open>The write position is a whole ring ahead of the read position the failed push saw.\<close>

definition filled :: "relay_writer \<Rightarrow> ring \<Rightarrow> bool" where
  "filled w g \<longleftrightarrow> unat (rg_write g - rw_snapshot w) = length (rg_data g)"

definition wakeable :: "bool \<Rightarrow> relay_writer \<Rightarrow> ring \<Rightarrow> bool" where
  "wakeable owed w g \<longleftrightarrow> rw_closed w \<or>
     (case rw_wait w of
        FlushIdle \<Rightarrow> rw_pending_bytes w = 0
      | FlushArming \<Rightarrow> 0 < rw_pending_bytes w \<and> filled w g
      | FlushParked \<Rightarrow> 0 < rw_pending_bytes w \<and> filled w g \<and> (owed \<or> rw_snapshot w = rg_read g)
      | FlushQueued \<Rightarrow> 0 < rw_pending_bytes w
      | FlushRunning \<Rightarrow> True)"

text \<open>A state of the writer side: \<open>todo\<close> is what of the accepted bytes is not in the ring.\<close>

definition side_ok :: "byte list \<Rightarrow> byte list \<Rightarrow> relay_writer \<Rightarrow> ring \<Rightarrow> bool" where
  "side_ok recv all w g \<longleftrightarrow> writer_ok w \<and>
     (\<exists>sent todo. ring_inv g sent recv \<and> all = sent @ todo \<and> (\<not> rw_closed w \<longrightarrow> todo = backlog w))"

lemma ring_inv_used:
  assumes "ring_inv g sent recv"
  shows "unat (rg_write g - rg_read g) = length sent - length recv"
proof -
  have "ring_size g" "length recv \<le> length sent" "length sent \<le> length recv + length (rg_data g)"
    using assms by (simp_all add: ring_inv_def)
  then show ?thesis
    using assms ring_size_le [of g] unat_diff32 [of "length recv" "length sent"] by (simp add: ring_inv_def)
qed

lemma rw_push_side:
  assumes inv: "ring_inv g sent recv" and push: "rw_push bytes offset (w, g) = (n, w', g')"
    and off: "offset \<le> length bytes"
  shows "ring_inv g' (sent @ take n (drop offset bytes)) recv" and "n \<le> length bytes - offset"
    and "n < length bytes - offset \<Longrightarrow> filled w' g'"
    and "w' = w \<or> (\<exists>x. w' = w\<lparr>rw_snapshot := x\<rparr>)" and "rg_read g' = rg_read g"
proof -
  obtain g1 where p: "ring_push (rg_read g) bytes offset g = (n, g1)" and g1: "g' = g1"
    and w': "w' = (if n < length bytes - offset then w\<lparr>rw_snapshot := rg_read g\<rparr> else w)"
    using push by (auto simp: rw_push_def split: prod.splits)
  have b: "length sent \<le> length recv + length (rg_data g)" and rd: "rg_read g = word_of_nat (length recv)"
    and le: "length recv \<le> length sent"
    using inv by (simp_all add: ring_inv_def)
  note sp = ring_inv_push [OF inv order_refl b p [unfolded rd]]
  show "ring_inv g' (sent @ take n (drop offset bytes)) recv" using sp(1) g1 by simp
  show "n \<le> length bytes - offset" using sp(2) by simp
  show "rg_read g' = rg_read g" using sp(4) g1 by simp
  show "w' = w \<or> (\<exists>x. w' = w\<lparr>rw_snapshot := x\<rparr>)" using w' by auto
  show "filled w' g'" if lt: "n < length bytes - offset"
  proof -
    have n: "n = length (rg_data g) - (length sent - length recv)" using sp(2) lt by simp
    have "length (take n (drop offset bytes)) = n" using lt by simp
    then show ?thesis
      using ring_inv_used [OF sp(1)] n b le sp(3,4) w' lt by (simp add: filled_def g1)
  qed
qed

lemma backlog_Cons: "rw_pending w = h # t \<Longrightarrow> rw_offset w \<le> length h \<Longrightarrow>
  backlog w = drop (rw_offset w) h @ concat t"
  by (simp add: backlog_def)

lemma side_wait: "side_ok recv all (w\<lparr>rw_wait := x\<rparr>) g = side_ok recv all w g"
  by (simp add: side_ok_def writer_ok_def backlog_def cong: list.case_cong)

lemma rw_overflow_same [simp]:
  "rw_closed (rw_overflow r n w)" "rw_pending_bytes (rw_overflow r n w) = 0"
  "rw_max_bytes (rw_overflow r n w) = rw_max_bytes w"
  by (simp_all add: rw_overflow_def rw_close_def)

lemma side_overflow:
  "side_ok recv all w g \<Longrightarrow> side_ok recv all (rw_overflow r n w) g" "wakeable owed (rw_overflow r n w) g"
  by (auto simp: side_ok_def writer_ok_def wakeable_def)

lemma side_more: "side_ok recv all w g \<Longrightarrow> rw_closed w \<Longrightarrow> side_ok recv (all @ x) w g"
  by (fastforce simp: side_ok_def)

lemma writer_empty:
  assumes "writer_ok w" and "\<not> rw_closed w" and "rw_pending_bytes w = 0"
  shows "rw_pending w = [] \<and> rw_offset w = 0 \<and> backlog w = []"
proof (cases "rw_pending w")
  case Nil
  then show ?thesis using assms by (simp add: writer_ok_def backlog_def)
next
  case (Cons h t)
  then have "rw_offset w < length h" using assms by (simp add: writer_ok_def)
  then have "backlog w \<noteq> []" using backlog_Cons [OF Cons] by simp
  then show ?thesis using assms by (simp add: writer_ok_def)
qed

lemma side_okI:
  "writer_ok w \<Longrightarrow> ring_inv g sent recv \<Longrightarrow> all = sent @ todo \<Longrightarrow> (\<not> rw_closed w \<longrightarrow> todo = backlog w) \<Longrightarrow>
     side_ok recv all w g"
  by (auto simp: side_ok_def)

lemma side_write:
  assumes side: "side_ok recv all w g" and wake: "wakeable owed w g" and ne: "bytes \<noteq> []"
    and wr: "rw_write now bytes (w, g) = (ok, w', g')" and free: "\<not> rw_busy w"
  shows "side_ok recv (all @ (if ok then bytes else [])) w' g'" and "wakeable owed w' g'"
    and "\<not> rw_closed w \<Longrightarrow> rw_pending_bytes w = 0 \<Longrightarrow> ok"
proof -
  have "side_ok recv (all @ (if ok then bytes else [])) w' g' \<and> wakeable owed w' g' \<and>
    (\<not> rw_closed w \<longrightarrow> rw_pending_bytes w = 0 \<longrightarrow> ok)"
  proof (cases "rw_closed w")
    case True
    then show ?thesis using side wake wr by (simp add: rw_write_def)
  next
    case opn: False
    have wok: "writer_ok w" using side by (simp add: side_ok_def)
    from side opn obtain sent where inv: "ring_inv g sent recv" and all: "all = sent @ backlog w"
      by (auto simp: side_ok_def)
    show ?thesis
    proof (cases "0 < rw_pending_bytes w")
      case pos: True
      show ?thesis
      proof (cases "reaches (rw_age now w) (rw_max_age w) \<or> exceeds (rw_pending_bytes w) (rw_max_bytes w)")
        case True
        then have "\<not> ok" "g' = g" "\<exists>r n. w' = rw_overflow r n w"
          using wr opn pos by (auto simp: rw_write_def split: if_splits)
        then show ?thesis using side_overflow side pos by auto
      next
        case False
        have armed: "rw_wait w \<noteq> FlushIdle" using wake opn pos by (auto simp: wakeable_def)
        have out: "ok" "g' = g" "w' = w\<lparr>rw_pending := rw_pending w @ [bytes], rw_pending_bytes := rw_pending_bytes w + length bytes\<rparr>"
          using wr opn pos False armed by (auto simp: rw_write_def rw_arm_flush_def)
        obtain h t where ht: "rw_pending w = h # t" "rw_offset w < length h"
          using wok opn pos by (cases "rw_pending w") (auto simp: writer_ok_def backlog_def)
        have "backlog w' = backlog w @ bytes" using ht by (simp add: backlog_def out(3))
        moreover have "writer_ok w'"
          using wok opn ne ht calculation by (auto simp: writer_ok_def out(3))
        ultimately have "side_ok recv (all @ bytes) w' g'"
          using inv all opn by (auto simp: side_ok_def out(2))
        moreover have "wakeable owed w' g'"
          using out(2,3) wake pos by (simp add: wakeable_def filled_def split: flush_wait.splits)
        ultimately show ?thesis using out(1) pos by simp
      qed
    next
      case False
      then have zero: "rw_pending_bytes w = 0" by simp
      note emp = writer_empty [OF wok opn zero]
      obtain n w1 g1 where push: "rw_push bytes 0 (w, g) = (n, w1, g1)" by (metis prod_cases3)
      note sp = rw_push_side [OF inv push le0]
      have w1: "rw_pending w1 = []" "rw_offset w1 = 0" "rw_closed w1 = rw_closed w"
        "rw_pending_bytes w1 = 0" "rw_wait w1 = rw_wait w"
        using sp(4) emp zero by auto
      have idle: "rw_wait w = FlushIdle"
        using wake opn zero free by (cases "rw_wait w") (simp_all add: wakeable_def rw_busy_def)
      show ?thesis
      proof (cases "n < length bytes")
        case True
        have full: "filled w1 g1" using sp(3) True by simp
        have out: "ok" "g' = g1" "w' = w1\<lparr>rw_pending := [bytes], rw_offset := n, rw_pending_bytes := length bytes - n,
            rw_since := now, rw_wait := FlushArming\<rparr>"
          using wr opn zero push True w1 idle by (auto simp: rw_write_def rw_arm_flush_def)
        have "backlog w' = drop n bytes" by (simp add: backlog_def out(3))
        moreover have "writer_ok w'" using True ne w1 opn calculation by (simp add: writer_ok_def out(3))
        moreover have "all @ bytes = (sent @ take n bytes) @ drop n bytes" using all emp by simp
        moreover have "ring_inv g' (sent @ take n bytes) recv" using sp(1) out(2) by simp
        ultimately have "side_ok recv (all @ bytes) w' g'"
          by (intro side_okI [of _ _ "sent @ take n bytes" _ _ "drop n bytes"]) simp_all
        then show ?thesis using out full opn w1 True by (simp add: wakeable_def filled_def)
      next
        case False
        then have n: "n = length bytes" using sp(2) by simp
        have out: "ok" "g' = g1" "w' = w1" using wr opn zero push False by (auto simp: rw_write_def)
        have "writer_ok w1" using w1 opn by (simp add: writer_ok_def backlog_def)
        moreover have "backlog w1 = []" using w1 by (simp add: backlog_def)
        moreover have "ring_inv g' (sent @ bytes) recv" "all @ bytes = (sent @ bytes) @ []"
          using sp(1) out(2) n all emp by simp_all
        ultimately have "side_ok recv (all @ bytes) w' g'"
          using out(3) by (intro side_okI [of _ _ "sent @ bytes" _ _ "[]"]) simp_all
        then show ?thesis using out opn w1 idle by (simp add: wakeable_def)
      qed
    qed
  qed
  then show "side_ok recv (all @ (if ok then bytes else [])) w' g'" "wakeable owed w' g'"
    "\<not> rw_closed w \<Longrightarrow> rw_pending_bytes w = 0 \<Longrightarrow> ok" by auto
qed

lemma side_flush_end:
  assumes side: "side_ok recv all w g" and full: "\<not> rw_closed w \<Longrightarrow> 0 < rw_pending_bytes w \<Longrightarrow> filled w g"
  shows "side_ok recv all (rw_flush_end w) g \<and> wakeable owed (rw_flush_end w) g"
proof (cases "rw_pending_bytes w = 0")
  case zero: True
  then have out: "rw_flush_end w = w\<lparr>rw_wait := FlushIdle, rw_pending := [], rw_since := 0\<rparr>"
    by (simp add: rw_flush_end_def)
  have wok: "writer_ok w" using side by (simp add: side_ok_def)
  have "rw_closed w \<or> rw_pending w = [] \<and> rw_offset w = 0 \<and> backlog w = []" using writer_empty [OF wok _ zero] by blast
  then show ?thesis using side zero by (auto simp: side_ok_def out writer_ok_def backlog_def wakeable_def)
next
  case pos: False
  then have opn: "\<not> rw_closed w" using side by (auto simp: side_ok_def writer_ok_def)
  then have out: "rw_flush_end w = w\<lparr>rw_wait := FlushArming\<rparr>" using pos by (simp add: rw_flush_end_def rw_arm_flush_def)
  then show ?thesis using side full opn pos by (simp add: side_wait wakeable_def filled_def)
qed

lemma side_round:
  assumes side: "side_ok recv all w g" and wake: "wakeable owed w g" and round: "rw_flush_round now (w, g) = (w', g')"
  shows "side_ok recv all w' g' \<and> wakeable owed w' g'"
proof (cases "rw_wait w = FlushRunning \<and> rw_pending_bytes w \<noteq> 0")
  case False
  then consider "w' = w" "g' = g" | "rw_wait w = FlushRunning" "rw_pending_bytes w = 0" "w' = rw_flush_end w" "g' = g"
    using round by (auto simp: rw_flush_round_def split: if_splits)
  then show ?thesis using side wake side_flush_end [OF side] by cases simp_all
next
  case True
  have wok: "writer_ok w" using side by (simp add: side_ok_def)
  have opn: "\<not> rw_closed w" using wok True by (auto simp: writer_ok_def)
  then obtain h t where ht: "rw_pending w = h # t" "rw_offset w < length h"
    using wok True by (cases "rw_pending w") (auto simp: writer_ok_def backlog_def)
  obtain n w1 g1 where push: "rw_push h (rw_offset w) (w, g) = (n, w1, g1)" by (metis prod_cases3)
  from side opn obtain sent where inv: "ring_inv g sent recv" and all: "all = sent @ backlog w"
    by (auto simp: side_ok_def)
  note sp = rw_push_side [OF inv push less_imp_le [OF ht(2)]]
  have w1: "rw_pending w1 = rw_pending w" "rw_offset w1 = rw_offset w" "rw_closed w1 = rw_closed w"
    "rw_pending_bytes w1 = rw_pending_bytes w" "rw_wait w1 = rw_wait w"
    using sp(4) by auto
  show ?thesis
  proof (cases "n = 0")
    case True
    then have out: "w' = rw_flush_end w1" "g' = g1"
      using round ht push \<open>rw_wait w = FlushRunning \<and> rw_pending_bytes w \<noteq> 0\<close> by (simp_all add: rw_flush_round_def)
    have "backlog w1 = backlog w" using w1 by (simp add: backlog_def)
    moreover have "writer_ok w1" using wok w1 by (simp add: writer_ok_def backlog_def split: list.splits)
    ultimately have "side_ok recv all w1 g1" using sp(1) True all by (auto simp: side_ok_def)
    moreover have "filled w1 g1" using sp(3) True ht(2) by simp
    ultimately show ?thesis using side_flush_end unfolding out by blast
  next
    case False
    define w2 where "w2 = w1\<lparr>rw_since := now, rw_offset := rw_offset w + n, rw_pending_bytes := rw_pending_bytes w - n\<rparr>"
    have "rw_flush_round now (w, g) =
        (if length h \<le> rw_offset w2 then w2\<lparr>rw_pending := t, rw_offset := 0\<rparr> else w2, g1)"
      unfolding w2_def using True False by (simp add: rw_flush_round_def Let_def ht(1) push)
    then have out: "w' = (if length h \<le> rw_offset w2 then w2\<lparr>rw_pending := t, rw_offset := 0\<rparr> else w2)" "g' = g1"
      unfolding round by simp_all
    have nle: "rw_offset w + n \<le> length h" using sp(2) ht(2) by linarith
    have "backlog w' = drop (rw_offset w + n) h @ concat t"
      by (cases "length h \<le> rw_offset w + n") (simp_all add: out w2_def backlog_def w1 ht(1))
    then have bl: "backlog w = take n (drop (rw_offset w) h) @ backlog w'"
      using backlog_Cons [OF ht(1)] ht(2) append_take_drop_id [of n "drop (rw_offset w) h"] by (simp add: add.commute)
    have "length (take n (drop (rw_offset w) h)) = n" using nle by simp
    then have "length (backlog w) = n + length (backlog w')" using bl by (metis length_append)
    moreover have "rw_pending_bytes w = length (backlog w)" "\<forall>b \<in> set (h # t). b \<noteq> []"
      using wok opn ht(1) by (simp_all add: writer_ok_def)
    moreover have "rw_pending_bytes w' = rw_pending_bytes w - n" "\<not> rw_closed w'" "rw_wait w' = FlushRunning"
      using opn w1 True by (simp_all add: out w2_def)
    moreover have "(\<forall>b \<in> set (rw_pending w'). b \<noteq> []) \<and>
        (case rw_pending w' of [] \<Rightarrow> rw_offset w' = 0 | h # t \<Rightarrow> rw_offset w' < length h)"
      using calculation(3) w1(1) ht(1)
      by (cases "length h \<le> rw_offset w + n") (simp_all add: out(1) w2_def split: list.split)
    ultimately have "writer_ok w'" and run: "rw_wait w' = FlushRunning" by (simp_all add: writer_ok_def)
    moreover have "all = (sent @ take n (drop (rw_offset w) h)) @ backlog w'" using all bl by simp
    moreover have "ring_inv g' (sent @ take n (drop (rw_offset w) h)) recv" using sp(1) out(2) by simp
    ultimately have "side_ok recv all w' g'"
      by (intro side_okI [of _ _ "sent @ take n (drop (rw_offset w) h)" _ _ "backlog w'"]) simp_all
    then show ?thesis using run by (simp add: wakeable_def)
  qed
qed

lemma side_resume:
  assumes side: "side_ok recv all w g" and wake: "wakeable owed w g"
  shows "side_ok recv all (rw_resume now w) g \<and> wakeable owed (rw_resume now w) g"
proof (cases "rw_wait w = FlushQueued \<and> \<not> rw_closed w")
  case True
  have "side_ok recv all (w\<lparr>rw_wait := FlushIdle\<rparr>) g" using side by (simp add: side_wait)
  note over = side_overflow(1) [OF this]
  show ?thesis
  proof (cases "reaches (rw_age now (w\<lparr>rw_wait := FlushIdle\<rparr>)) (rw_max_age w)")
    case True
    then have "rw_resume now w = rw_overflow OverAge 0 (w\<lparr>rw_wait := FlushIdle\<rparr>)"
      using \<open>rw_wait w = FlushQueued \<and> \<not> rw_closed w\<close> by (simp add: rw_resume_def rw_flush_pending_def Let_def)
    then show ?thesis using over side_overflow(2) by simp
  next
    case False
    then have "rw_resume now w = w\<lparr>rw_wait := FlushRunning\<rparr>"
      using True by (simp add: rw_resume_def rw_flush_pending_def Let_def)
    then show ?thesis using side by (simp add: side_wait wakeable_def)
  qed
next
  case False
  then show ?thesis using side wake by (auto simp: rw_resume_def side_wait wakeable_def)
qed

lemma side_register:
  assumes side: "side_ok recv all w g" and wake: "wakeable owed w g" and reg: "rw_register (w, g) = (w', g')"
  shows "side_ok recv all w' g' \<and> wakeable owed w' g'"
  using assms by (auto simp: rw_register_def side_wait wakeable_def filled_def split: if_splits)

definition link_inv :: "js_cap \<Rightarrow> link \<Rightarrow> bool" where
  "link_inv m s \<longleftrightarrow>
     list_all (frame_ok m) (lk_accepted s) \<and> \<not> rr_closed (lk_reader s) \<and> rr_max_frame (lk_reader s) = m \<and>
     side_ok (lk_recv s) (concat (lk_accepted s)) (lk_writer s) (lk_ring s) \<and>
     wakeable (lk_owed s) (lk_writer s) (lk_ring s) \<and>
     rr_parse m (lk_recv s) = (lk_frames s, rr_acc (lk_reader s), None)"

fun event_ok :: "js_cap \<Rightarrow> link_event \<Rightarrow> bool" where
  "event_ok m (LinkWrite now bytes) = frame_ok m bytes"
| "event_ok m _ = True"

lemma link_inv_start:
  assumes "n \<le> 2 ^ 31"
  shows "link_inv m (link_start n max_bytes max_age m)"
proof -
  have "ring_inv (create_relay_ring_buffer n) [] []"
    using create_ring_size [OF assms] by (simp add: ring_inv_def holds_def create_relay_ring_buffer_def)
  then show ?thesis
    by (simp add: link_inv_def link_start_def new_relay_reader_def new_relay_writer_def side_ok_def
        writer_ok_def backlog_def wakeable_def rr_parse.simps)
qed

lemma link_inv_drain:
  assumes inv: "link_inv m s"
  shows "link_inv m (link_drain lag s)"
proof (cases "lk_owed s \<or> unat (rg_write (lk_ring s) - rg_read (lk_ring s)) \<le> lag")
  case True
  then show ?thesis using inv by (simp add: link_drain_def)
next
  case False
  let ?w = "lk_writer s" and ?g = "lk_ring s" and ?r = "lk_reader s" and ?recv = "lk_recv s"
  from inv obtain sent todo where ri: "ring_inv ?g sent ?recv" and all: "concat (lk_accepted s) = sent @ todo"
    and bl: "\<not> rw_closed ?w \<longrightarrow> todo = backlog ?w" and wok: "writer_ok ?w"
    by (auto simp: link_inv_def side_ok_def)
  have lag: "lag < length sent - length ?recv" using False ring_inv_used [OF ri] by simp
  obtain chunk g where dr: "ring_drain (rg_write ?g - word_of_nat lag) ?g = (chunk, g)" by fastforce
  have wr: "rg_write ?g - word_of_nat lag = word_of_nat (length sent - lag)"
    using ri lag by (simp add: ring_inv_def of_nat_diff)
  have le: "length ?recv \<le> length sent - lag" using lag by linarith
  note rd = ring_inv_drain [OF ri le diff_le_self dr [unfolded wr]]
  have ok: "list_all (frame_ok m) (lk_accepted s)" using inv by (simp add: link_inv_def)
  have "(?recv @ chunk) @ drop (length sent - lag) sent @ todo = concat (lk_accepted s)"
    unfolding rd(2) all by simp
  then obtain j rest where pp: "rr_parse m (?recv @ chunk) = (take j (lk_accepted s), rest, None)"
    using rr_parse_prefix [OF ok] by blast
  have old: "rr_parse m ?recv = (lk_frames s, rr_acc ?r, None)" using inv by (simp add: link_inv_def)
  obtain fs rest' over where new: "rr_parse m (rr_acc ?r @ chunk) = (fs, rest', over)" by (metis prod_cases3)
  have "rr_parse m (?recv @ chunk) = (lk_frames s @ fs, rest', over)"
    using rr_parse_append [OF old, of chunk] new by simp
  then have both: "over = None" "rr_parse m (?recv @ chunk) = (lk_frames s @ fs, rest', None)" using pp by auto
  have rc: "rr_receive chunk ?r = (fs, ?r\<lparr>rr_acc := rest'\<rparr>)"
    using inv new both(1) by (simp add: rr_receive_def link_inv_def)
  have step: "link_drain lag s = s\<lparr>lk_ring := g, lk_reader := ?r\<lparr>rr_acc := rest'\<rparr>, lk_owed := True,
      lk_recv := ?recv @ chunk, lk_frames := lk_frames s @ fs\<rparr>"
    using inv False dr rc by (simp add: link_drain_def link_inv_def)
  have "side_ok (?recv @ chunk) (concat (lk_accepted s)) ?w g"
    using rd(1) all bl wok by (auto simp: side_ok_def)
  moreover have "wakeable True ?w g"
    using inv rd(3,4) by (auto simp: link_inv_def wakeable_def filled_def split: flush_wait.splits)
  ultimately show ?thesis using inv both(2) by (simp add: step link_inv_def)
qed

lemma link_inv_notify:
  assumes inv: "link_inv m s"
  shows "link_inv m (link_notify s)"
proof (cases "rw_wait (lk_writer s) = FlushParked")
  case True
  then have "wake_writer (lk_writer s) = (lk_writer s)\<lparr>rw_wait := FlushQueued\<rparr>" by (simp add: wake_writer_def)
  moreover have "wakeable owed ((lk_writer s)\<lparr>rw_wait := FlushQueued\<rparr>) (lk_ring s)" for owed
    using inv True by (auto simp: link_inv_def wakeable_def)
  ultimately show ?thesis using inv by (cases "lk_owed s") (simp_all add: link_inv_def link_notify_def side_wait)
next
  case False
  then have "wakeable owed (lk_writer s) (lk_ring s)" for owed
    using inv by (cases "rw_wait (lk_writer s)") (simp_all add: link_inv_def wakeable_def)
  then show ?thesis using inv False by (simp add: link_inv_def link_notify_def wake_writer_def)
qed

lemma link_inv_step:
  assumes inv: "link_inv m s" and e: "event_ok m e"
  shows "link_inv m (link_step s e)"
proof -
  have a: "side_ok (lk_recv s) (concat (lk_accepted s)) (lk_writer s) (lk_ring s)"
    "wakeable (lk_owed s) (lk_writer s) (lk_ring s)" using inv by (simp_all add: link_inv_def)
  show ?thesis
  proof (cases e)
    case (LinkWrite now bytes)
    obtain ok w g where wr: "rw_write now bytes (lk_writer s, lk_ring s) = (ok, w, g)" by (metis prod_cases3)
    have fo: "frame_ok m bytes" using e LinkWrite by simp
    then have ne: "bytes \<noteq> []" by (auto simp: frame_ok_def)
    show ?thesis
    proof (cases "rw_busy (lk_writer s)")
      case True
      then show ?thesis using inv LinkWrite by simp
    next
      case False
      note sw = side_write [OF a ne wr False]
      then show ?thesis using inv fo False by (cases ok) (simp_all add: LinkWrite wr link_inv_def)
    qed
  next
    case LinkRegister
    obtain w g where rs: "rw_register (lk_writer s, lk_ring s) = (w, g)" by fastforce
    from side_register [OF a rs] show ?thesis using inv by (simp add: LinkRegister rs link_inv_def)
  next
    case (LinkResume now)
    from side_resume [OF a] show ?thesis using inv by (simp add: LinkResume link_inv_def)
  next
    case (LinkFlush now)
    obtain w g where rs: "rw_flush_round now (lk_writer s, lk_ring s) = (w, g)" by fastforce
    from side_round [OF a rs] show ?thesis using inv by (simp add: LinkFlush rs link_inv_def)
  next
    case (LinkAgeTimer now)
    then show ?thesis using inv side_overflow by (simp add: link_inv_def rw_age_timer_def)
  next
    case (LinkDrain lag)
    then show ?thesis using link_inv_drain [OF inv] by simp
  next
    case LinkNotify
    then show ?thesis using link_inv_notify [OF inv] by simp
  qed
qed

lemma link_inv_run:
  assumes "n \<le> 2 ^ 31" and "list_all (event_ok m) es"
  shows "link_inv m (foldl link_step (link_start n max_bytes max_age m) es)"
proof -
  have "link_inv m (foldl link_step s es)" if "link_inv m s" "list_all (event_ok m) es" for s
    using that by (induction es arbitrary: s) (auto intro: link_inv_step)
  then show ?thesis using assms link_inv_start by blast
qed

subsection \<open>The backlog\<close>

definition backlog_bound :: "real \<Rightarrow> nat \<Rightarrow> relay_writer \<Rightarrow> bool" where
  "backlog_bound c F w \<longleftrightarrow> rw_max_bytes w = Finite c \<and> real (rw_pending_bytes w) \<le> max 0 c + real F"

lemma arm_flush_bytes [simp]:
  "rw_pending_bytes (rw_arm_flush w) = rw_pending_bytes w" "rw_max_bytes (rw_arm_flush w) = rw_max_bytes w"
  "rw_pending_bytes (rw_flush_end w) = rw_pending_bytes w" "rw_max_bytes (rw_flush_end w) = rw_max_bytes w"
  by (simp_all add: rw_arm_flush_def rw_flush_end_def Let_def)

lemma backlog_bound_write:
  assumes "backlog_bound c F w" and "length bytes \<le> F" and "rw_write now bytes (w, g) = (ok, w', g')"
  shows "backlog_bound c F w'"
  using assms
  by (auto simp: backlog_bound_def rw_write_def rw_push_def not_less split: if_splits prod.splits)

lemma backlog_bound_round:
  assumes "backlog_bound c F w" and "rw_flush_round now (w, g) = (w', g')"
  shows "backlog_bound c F w'"
  using assms
  by (auto simp: backlog_bound_def rw_flush_round_def rw_push_def Let_def split: if_splits prod.splits list.splits)

fun event_size :: "nat \<Rightarrow> link_event \<Rightarrow> bool" where
  "event_size F (LinkWrite now bytes) = (length bytes \<le> F)"
| "event_size F _ = True"

lemma backlog_bound_step:
  assumes b: "backlog_bound c F (lk_writer s)" and "event_size F e"
  shows "backlog_bound c F (lk_writer (link_step s e))"
proof (cases e)
  case (LinkWrite now bytes)
  then show ?thesis using assms backlog_bound_write by (auto split: prod.splits)
next
  case LinkRegister
  then show ?thesis using b by (auto simp: rw_register_def backlog_bound_def)
next
  case (LinkResume now)
  then show ?thesis using b by (simp add: rw_resume_def rw_flush_pending_def backlog_bound_def Let_def)
next
  case (LinkFlush now)
  then show ?thesis using b backlog_bound_round by (auto split: prod.splits)
next
  case (LinkAgeTimer now)
  then show ?thesis using b by (simp add: rw_age_timer_def backlog_bound_def)
next
  case (LinkDrain lag)
  then show ?thesis using b by (auto simp: link_drain_def split: prod.splits)
next
  case LinkNotify
  then show ?thesis using b by (simp add: link_notify_def wake_writer_def backlog_bound_def)
qed

section \<open>Properties\<close>

text \<open>C5: over any sequence of writes of well-formed frames, flushes, age-timer firings and
  drains, through any ring size, wrap-around, backlog and quarantine, the frames handed to
  the consumer are exactly a prefix of the accepted frames in the order of their
  acceptance: none is reordered, duplicated, torn or invented. When the writer is open
  with no backlog and the ring is empty, it is all of them.\<close>

theorem relay_delivers_in_order:
  fixes max_bytes max_age :: js_cap
  assumes "n \<le> 2 ^ 31" and "list_all (event_ok m) es"
  defines "s \<equiv> foldl link_step (link_start n max_bytes max_age m) es"
  shows "(\<exists>k. lk_frames s = take k (lk_accepted s)) \<and>
     (\<not> rw_closed (lk_writer s) \<and> rw_pending_bytes (lk_writer s) = 0 \<and> rg_write (lk_ring s) = rg_read (lk_ring s)
        \<longrightarrow> lk_frames s = lk_accepted s)"
proof -
  have inv: "link_inv m s" unfolding s_def by (rule link_inv_run [OF assms(1,2)])
  then obtain sent todo where ri: "ring_inv (lk_ring s) sent (lk_recv s)"
    and all: "concat (lk_accepted s) = sent @ todo"
    and bl: "\<not> rw_closed (lk_writer s) \<longrightarrow> todo = backlog (lk_writer s)" and wok: "writer_ok (lk_writer s)"
    by (auto simp: link_inv_def side_ok_def)
  have ok: "list_all (frame_ok m) (lk_accepted s)"
    and parse: "rr_parse m (lk_recv s) = (lk_frames s, rr_acc (lk_reader s), None)"
    using inv by (simp_all add: link_inv_def)
  have recv: "lk_recv s = take (length (lk_recv s)) sent" using ri by (simp add: ring_inv_def)
  let ?left = "drop (length (lk_recv s)) sent @ todo"
  have "lk_recv s @ ?left = concat (lk_accepted s)"
    using recv all append_take_drop_id [of "length (lk_recv s)" sent] by (metis append.assoc)
  from rr_parse_prefix [OF ok this] parse obtain j where
    j: "lk_frames s = take j (lk_accepted s)" "?left = [] \<longrightarrow> take j (lk_accepted s) = lk_accepted s" by auto
  have "?left = []" if "\<not> rw_closed (lk_writer s)" "rw_pending_bytes (lk_writer s) = 0"
    "rg_write (lk_ring s) = rg_read (lk_ring s)"
    using ring_inv_used [OF ri] that bl writer_empty [OF wok that(1,2)] by simp
  then show ?thesis using j by auto
qed

theorem relay_delivers_in_order_witness:
  "\<exists>k. lk_frames (foldl link_step (link_start 1024 (Finite 4096) Infinity Infinity)
       [LinkWrite 0 [1, 0, 0, 0, 7], LinkDrain 0]) =
     take k (lk_accepted (foldl link_step (link_start 1024 (Finite 4096) Infinity Infinity)
       [LinkWrite 0 [1, 0, 0, 0, 7], LinkDrain 0]))"
  using relay_delivers_in_order [of 1024 Infinity "[LinkWrite 0 [1, 0, 0, 0, 7], LinkDrain 0]" "Finite 4096" Infinity]
  by (simp add: frame_ok_def le_prefix_def)

lemma notified_queued:
  assumes inv: "link_inv m s" and opn: "\<not> rw_closed (lk_writer s)" and w: "rw_wait (lk_writer s) \<in> {FlushParked, FlushQueued}"
  shows "rw_wait (lk_writer (link_notify (link_drain 0 s))) = FlushQueued"
proof -
  have keep: "lk_writer (link_drain 0 s) = lk_writer s" by (simp add: link_drain_def split: prod.split)
  have "rw_wait (lk_writer s) = FlushQueued \<or> lk_owed (link_drain 0 s)"
  proof (cases "rw_wait (lk_writer s) = FlushParked \<and> \<not> lk_owed s")
    case True
    obtain sent where ri: "ring_inv (lk_ring s) sent (lk_recv s)" using inv by (auto simp: link_inv_def side_ok_def)
    have "unat (rg_write (lk_ring s) - rg_read (lk_ring s)) = length (rg_data (lk_ring s))"
      using inv opn True by (auto simp: link_inv_def wakeable_def filled_def)
    then have "0 < unat (rg_write (lk_ring s) - rg_read (lk_ring s))" using ri ring_size_pos by (simp add: ring_inv_def)
    then show ?thesis using inv True by (simp add: link_drain_def link_inv_def split: prod.split)
  next
    case False
    then show ?thesis using w by (auto simp: link_drain_def)
  qed
  then show ?thesis using w by (auto simp: link_notify_def wake_writer_def keep)
qed

text \<open>C32: no wake-up is lost: whenever an open writer has a backlog, its flush is running or queued to run, or
  it is queued as soon as the writer has registered its wait and the consumer has finished the drain it is in
  or done the next one, notification included; wherever the consumer gets in between a push that failed and
  the registration, and between its own store and its notification.\<close>

theorem relay_no_lost_wakeup:
  fixes max_bytes max_age :: js_cap
  assumes "n \<le> 2 ^ 31" and "list_all (event_ok m) es"
  defines "s \<equiv> foldl link_step (link_start n max_bytes max_age m) es"
  assumes "\<not> rw_closed (lk_writer s)" and "0 < rw_pending_bytes (lk_writer s)"
  shows "rw_wait (lk_writer s) \<in> {FlushRunning, FlushQueued} \<or>
    rw_wait (lk_writer (foldl link_step s [LinkRegister, LinkDrain 0, LinkNotify])) = FlushQueued"
proof -
  have inv: "link_inv m s" unfolding s_def by (rule link_inv_run [OF assms(1,2)])
  let ?s = "link_step s LinkRegister"
  have inv': "link_inv m ?s" by (rule link_inv_step [OF inv]) simp
  have opn: "\<not> rw_closed (lk_writer ?s)" using assms(4) by (simp add: rw_register_def split: prod.split)
  have "rw_wait (lk_writer s) \<noteq> FlushIdle" using inv assms(4,5) by (auto simp: link_inv_def wakeable_def)
  then have "rw_wait (lk_writer s) \<in> {FlushRunning, FlushQueued} \<or> rw_wait (lk_writer ?s) \<in> {FlushParked, FlushQueued}"
    by (cases "rw_wait (lk_writer s)") (simp_all add: rw_register_def)
  moreover have "foldl link_step s [LinkRegister, LinkDrain 0, LinkNotify] = link_notify (link_drain 0 ?s)" by simp
  ultimately show ?thesis using notified_queued [OF inv' opn] by metis
qed

definition long_frame :: "byte list" where
  "long_frame = [252, 7, 0, 0] @ replicate 2044 0"

definition spilled :: link where
  "spilled = foldl link_step (link_start 0 Infinity Infinity Infinity) [LinkWrite 0 long_frame]"

lemma spilled_writer:
  "\<not> rw_closed (lk_writer spilled)" "rw_pending_bytes (lk_writer spilled) = 1024"
  "rw_wait (lk_writer spilled) = FlushArming"
proof -
  have p: "power_of_two 1024 = 1024" by (simp add: power_of_two_def power_of_two_from.simps)
  show "\<not> rw_closed (lk_writer spilled)" "rw_pending_bytes (lk_writer spilled) = 1024"
    "rw_wait (lk_writer spilled) = FlushArming"
    by (simp_all add: spilled_def link_start_def new_relay_writer_def create_relay_ring_buffer_def p rw_write_def
        rw_push_def ring_push_def rw_arm_flush_def rw_busy_def Let_def long_frame_def)
qed

theorem relay_no_lost_wakeup_witness:
  "rw_wait (lk_writer spilled) = FlushArming \<and> 0 < rw_pending_bytes (lk_writer spilled) \<and>
   rw_wait (lk_writer (foldl link_step spilled [LinkRegister, LinkDrain 0, LinkNotify])) = FlushQueued"
proof -
  have "list_all (event_ok Infinity) [LinkWrite 0 long_frame]"
    by (simp add: long_frame_def frame_ok_def le_prefix_def)
  from relay_no_lost_wakeup [OF _ this, of 0 Infinity Infinity, folded spilled_def]
  have "rw_wait (lk_writer spilled) \<in> {FlushRunning, FlushQueued} \<or>
      rw_wait (lk_writer (foldl link_step spilled [LinkRegister, LinkDrain 0, LinkNotify])) = FlushQueued"
    using spilled_writer by (simp del: foldl.simps)
  then show ?thesis using spilled_writer by (simp del: foldl.simps)
qed

text \<open>the byte ceiling bounds the backlog by the ceiling plus one frame, and a peer that
  has nothing queued is never refused, however large the frame.\<close>

theorem relay_backlog_bounded:
  fixes c :: real and n :: nat and max_age m :: js_cap
  assumes "list_all (event_size F) es"
  defines "s \<equiv> foldl link_step (link_start n (Finite c) max_age m) es"
  shows "real (rw_pending_bytes (lk_writer s)) \<le> max 0 c + real F \<and>
     (\<not> rw_closed (lk_writer s) \<and> rw_pending_bytes (lk_writer s) = 0 \<longrightarrow>
        fst (rw_write now bytes (lk_writer s, lk_ring s)))"
proof -
  have "backlog_bound c F (lk_writer (foldl link_step s0 es))" if "backlog_bound c F (lk_writer s0)" for s0
    using that assms(1) by (induction es arbitrary: s0) (auto intro: backlog_bound_step)
  moreover have "backlog_bound c F (lk_writer (link_start n (Finite c) max_age m))"
    by (simp add: backlog_bound_def link_start_def new_relay_writer_def)
  ultimately have "backlog_bound c F (lk_writer s)" unfolding s_def by blast
  then show ?thesis by (simp add: backlog_bound_def rw_write_def split: prod.split)
qed

theorem relay_backlog_bounded_witness:
  "real (rw_pending_bytes (lk_writer (foldl link_step (link_start 0 (Finite 8) Infinity Infinity)
     [LinkWrite 0 [1, 0, 0, 0, 7], LinkDrain 0]))) \<le> 13"
  using relay_backlog_bounded [of 5 "[LinkWrite 0 [1, 0, 0, 0, 7], LinkDrain 0]" 0 8 Infinity Infinity]
  by simp

end
