(* ===== verification/Relay_Codec.thy ===== *)
theory Relay_Codec
  imports Relay_Link Utf8
begin

text \<open>
  The relay frame codec of \<open>src/runtime/relay-ring.js\<close>: \<open>encodePublishFrame\<close>,
  \<open>encodePublishBatchedFrame\<close>, \<open>decodeRelayFrame\<close>.

  A JSON payload (\<open>data\<close>, \<open>events\<close>) is its JSON text: \<open>JSON.stringify\<close> runs before the
  model's encoder and \<open>JSON.parse\<close> after its decoder. Doubles are their bit patterns. A
  frame of the encoder is laid out in order in an array of exactly the computed length; the
  decoder reads by offset, a \<open>DataView\<close> read past the end throws (\<open>None\<close>), a \<open>subarray\<close>
  is clamped.
\<close>

section \<open>Little-endian integers\<close>

fun le_bytes :: "nat \<Rightarrow> nat \<Rightarrow> byte list" where
  "le_bytes 0 n = []"
| "le_bytes (Suc k) n = byte_of n # le_bytes k (n div 256)"

fun of_le :: "byte list \<Rightarrow> nat" where
  "of_le [] = 0"
| "of_le (b # bs) = unat b + 256 * of_le bs"

lemma length_le_bytes [simp]: "length (le_bytes k n) = k"
  by (induction k n rule: le_bytes.induct) auto

lemma of_le_bytes: "of_le (le_bytes k n) = n mod 256 ^ k"
proof (induction k n rule: le_bytes.induct)
  case (2 k n)
  have "n mod 256 ^ Suc k = n mod 256 + 256 * (n div 256 mod 256 ^ k)"
    using mod_mult2_eq [of n 256 "256 ^ k"] by simp
  then show ?case using 2 by simp
qed simp

definition get_le :: "nat \<Rightarrow> byte list \<Rightarrow> (nat \<times> byte list) option" where
  "get_le k bs = (if length bs < k then None else Some (of_le (take k bs), drop k bs))"

lemma get_le_bytes [codec_simps]: "n < 256 ^ k \<Longrightarrow> get_le k (le_bytes k n @ rest) = Some (n, rest)"
  by (simp add: get_le_def of_le_bytes)

interpretation u16le: stream_codec "le_bytes 2" "get_le 2" "\<lambda>n. n < 256 ^ 2"
  by unfold_locales (rule get_le_bytes)

interpretation u32le: stream_codec "le_bytes 4" "get_le 4" "\<lambda>n. n < 256 ^ 4"
  by unfold_locales (rule get_le_bytes)

definition put_f64le :: "64 word \<Rightarrow> byte list" where
  "put_f64le v = le_bytes 8 (unat v)"

definition get_f64le :: "byte list \<Rightarrow> (64 word \<times> byte list) option" where
  "get_f64le bs = map_option (apfst word_of_nat) (get_le 8 bs)"

lemma get_f64le_put [codec_simps]: "get_f64le (put_f64le v @ rest) = Some (v, rest)"
proof -
  have "unat v < 256 ^ 8" by (rule order_less_le_trans [OF unsigned_less]) simp
  then show ?thesis by (simp add: get_f64le_def put_f64le_def get_le_bytes)
qed

interpretation f64le: stream_codec put_f64le get_f64le "\<lambda>_. True"
  by unfold_locales (rule get_f64le_put)

text \<open>A length prefix of \<open>k\<close> bytes and that many bytes of text; the read is clamped.\<close>

definition put_text :: "nat \<Rightarrow> js_string \<Rightarrow> byte list" where
  "put_text k s = le_bytes k (length (utf8_encode s)) @ utf8_encode s"

definition get_text :: "nat \<Rightarrow> byte list \<Rightarrow> (js_string \<times> byte list) option" where
  "get_text k bs = map_option (\<lambda>(n, bs). (utf8_decode (take n bs), drop n bs)) (get_le k bs)"

lemma get_text_put [codec_simps]:
  "length (utf8_encode s) < 256 ^ k \<Longrightarrow> get_text k (put_text k s @ rest) = Some (wire_text s, rest)"
  by (simp add: get_text_def put_text_def get_le_bytes utf8_decode_encode)

interpretation text16: stream_codec "put_text 2" "get_text 2" "\<lambda>s. length (utf8_encode s) < 256 ^ 2 \<and> wire_text s = s"
  by unfold_locales (simp add: get_text_put)

section \<open>Messages\<close>

record relay_publish =
  rp_topic :: js_string
  rp_envelope :: js_string
  rp_compress :: bool
  rp_seq :: "64 word option"
  rp_capability :: "js_string option"
  rp_event :: "js_string option"
  rp_data :: "js_string option"
  rp_origin :: "(nat \<times> 64 word \<times> 64 word) option"

datatype relay_message =
    RelayPublish relay_publish
  | RelayBatched js_string bool

fun opt_len :: "nat \<Rightarrow> js_string option \<Rightarrow> nat" where
  "opt_len k None = 0"
| "opt_len k (Some s) = k + length (utf8_encode s)"

fun put_opt :: "('a \<Rightarrow> byte list) \<Rightarrow> 'a option \<Rightarrow> byte list" where
  "put_opt put None = []"
| "put_opt put (Some x) = put x"

definition flag :: "nat \<Rightarrow> bool \<Rightarrow> nat" where
  "flag v b = (if b then v else 0)"

definition publish_flags :: "relay_publish \<Rightarrow> nat" where
  "publish_flags p = flag 1 (rp_compress p) + flag 2 (rp_seq p \<noteq> None) + flag 4 (rp_capability p \<noteq> None) +
     flag 8 (rp_event p \<noteq> None) + flag 16 (rp_data p \<noteq> None) + flag 32 (rp_origin p \<noteq> None)"

definition publish_len :: "relay_publish \<Rightarrow> nat" where
  "publish_len p =
     (let len = 1 + 1 + 2 + length (utf8_encode (rp_topic p)) + 4 + length (utf8_encode (rp_envelope p));
          len = len + (if rp_seq p \<noteq> None then 8 else 0);
          len = len + opt_len 2 (rp_capability p);
          len = len + opt_len 2 (rp_event p);
          len = len + opt_len 4 (rp_data p);
          len = len + (if rp_origin p \<noteq> None then 4 + 8 + 8 else 0)
      in len)"

definition put_origin :: "nat \<times> 64 word \<times> 64 word \<Rightarrow> byte list" where
  "put_origin x = (case x of (origin, ord, birth) \<Rightarrow> le_bytes 4 origin @ put_f64le ord @ put_f64le birth)"

definition encode_publish_frame :: "relay_publish \<Rightarrow> byte list" where
  "encode_publish_frame p =
     le_bytes 4 (publish_len p) @ [1, byte_of (publish_flags p)] @
     put_text 2 (rp_topic p) @ put_text 4 (rp_envelope p) @
     put_opt put_f64le (rp_seq p) @ put_opt (put_text 2) (rp_capability p) @
     put_opt (put_text 2) (rp_event p) @ put_opt (put_text 4) (rp_data p) @
     put_opt put_origin (rp_origin p)"

definition encode_publish_batched_frame :: "js_string \<Rightarrow> bool \<Rightarrow> byte list" where
  "encode_publish_batched_frame events compress =
     le_bytes 4 (1 + 1 + 4 + length (utf8_encode events)) @ [2, byte_of (flag 1 compress)] @ put_text 4 events"

definition get_opt ::
  "bool \<Rightarrow> (byte list \<Rightarrow> ('a \<times> byte list) option) \<Rightarrow> byte list \<Rightarrow> ('a option \<times> byte list) option"
where
  "get_opt present get bs = (if present then map_option (apfst Some) (get bs) else Some (None, bs))"

definition get_origin :: "byte list \<Rightarrow> ((nat \<times> 64 word \<times> 64 word) \<times> byte list) option" where
  "get_origin bs = (case get_le 4 bs of None \<Rightarrow> None | Some (origin, bs) \<Rightarrow>
     (case get_f64le bs of None \<Rightarrow> None | Some (ord, bs) \<Rightarrow>
       map_option (\<lambda>(birth, bs). ((origin, ord, birth), bs)) (get_f64le bs)))"

definition byte_at :: "nat \<Rightarrow> byte list \<Rightarrow> nat" where
  "byte_at i bs = (if i < length bs then unat (bs ! i) else 0)"

definition has_flag :: "nat \<Rightarrow> nat \<Rightarrow> bool" where
  "has_flag flags v \<longleftrightarrow> flags div v mod 2 = 1"

definition decode_publish :: "nat \<Rightarrow> byte list \<Rightarrow> relay_publish option" where
  "decode_publish flags bs =
     (case get_text 2 bs of None \<Rightarrow> None | Some (topic, bs) \<Rightarrow>
      case get_text 4 bs of None \<Rightarrow> None | Some (envelope, bs) \<Rightarrow>
      case get_opt (has_flag flags 2) get_f64le bs of None \<Rightarrow> None | Some (seq, bs) \<Rightarrow>
      case get_opt (has_flag flags 4) (get_text 2) bs of None \<Rightarrow> None | Some (capability, bs) \<Rightarrow>
      case get_opt (has_flag flags 8) (get_text 2) bs of None \<Rightarrow> None | Some (event, bs) \<Rightarrow>
      case get_opt (has_flag flags 16) (get_text 4) bs of None \<Rightarrow> None | Some (data, bs) \<Rightarrow>
      case get_opt (has_flag flags 32) get_origin bs of None \<Rightarrow> None | Some (origin, bs) \<Rightarrow>
        Some \<lparr>rp_topic = topic, rp_envelope = envelope, rp_compress = has_flag flags 1, rp_seq = seq,
              rp_capability = capability, rp_event = event, rp_data = data, rp_origin = origin\<rparr>)"

text \<open>The outer option is a thrown \<open>RangeError\<close>, the inner the code's \<open>null\<close>.\<close>

definition decode_relay_frame :: "byte list \<Rightarrow> relay_message option option" where
  "decode_relay_frame frame =
     (let kind = byte_at 4 frame in
      if kind = 1 then
        map_option (\<lambda>p. Some (RelayPublish p)) (decode_publish (byte_at 5 frame) (drop 6 frame))
      else if kind = 2 then
        map_option (\<lambda>(events, bs). Some (RelayBatched events (has_flag (byte_at 5 frame) 1)))
          (get_text 4 (drop 6 frame))
      else Some None)"

section \<open>Round trip\<close>

lemma publish_flags_less: "publish_flags p < 64"
  by (simp add: publish_flags_def flag_def)

lemma flag_of_bool: "flag v b = v * of_bool b"
  by (simp add: flag_def)

lemma has_flag_at:
  assumes "n = r + v * of_bool b + 2 * v * q" and "r < v"
  shows "has_flag n v = b"
proof -
  have "n = r + v * (of_bool b + 2 * q)" by (simp add: assms(1) algebra_simps)
  then have "n div v = of_bool b + 2 * q" using assms(2) by simp
  then show ?thesis by (simp add: has_flag_def)
qed

lemma has_flags:
  fixes a b c d e f :: bool
  defines "n \<equiv> flag 1 a + flag 2 b + flag 4 c + flag 8 d + flag 16 e + flag 32 f"
  shows "has_flag n 1 = a" "has_flag n 2 = b" "has_flag n 4 = c" "has_flag n 8 = d" "has_flag n 16 = e" "has_flag n 32 = f"
proof -
  have le: "of_bool x \<le> (1 :: nat)" for x by simp
  note bounds = le [of a] le [of b] le [of c] le [of d] le [of e]
  show "has_flag n 1 = a"
    by (rule has_flag_at [where r = 0 and q = "of_bool b + 2 * of_bool c + 4 * of_bool d + 8 * of_bool e + 16 * of_bool f"])
      (simp_all add: n_def flag_of_bool)
  show "has_flag n 2 = b"
    by (rule has_flag_at [where r = "of_bool a" and q = "of_bool c + 2 * of_bool d + 4 * of_bool e + 8 * of_bool f"])
      (use bounds in \<open>simp_all add: n_def flag_of_bool del: of_bool_less_eq_one\<close>)
  show "has_flag n 4 = c"
    by (rule has_flag_at [where r = "of_bool a + 2 * of_bool b" and q = "of_bool d + 2 * of_bool e + 4 * of_bool f"])
      (use bounds in \<open>simp_all add: n_def flag_of_bool del: of_bool_less_eq_one\<close>)
  show "has_flag n 8 = d"
    by (rule has_flag_at [where r = "of_bool a + 2 * of_bool b + 4 * of_bool c" and q = "of_bool e + 2 * of_bool f"])
      (use bounds in \<open>simp_all add: n_def flag_of_bool del: of_bool_less_eq_one\<close>)
  show "has_flag n 16 = e"
    by (rule has_flag_at [where r = "of_bool a + 2 * of_bool b + 4 * of_bool c + 8 * of_bool d" and q = "of_bool f"])
      (use bounds in \<open>simp_all add: n_def flag_of_bool del: of_bool_less_eq_one\<close>)
  show "has_flag n 32 = f"
    by (rule has_flag_at [where r = "of_bool a + 2 * of_bool b + 4 * of_bool c + 8 * of_bool d + 16 * of_bool e" and q = 0])
      (use bounds in \<open>simp_all add: n_def flag_of_bool del: of_bool_less_eq_one\<close>)
qed

lemma has_publish_flags:
  "has_flag (publish_flags p) 1 = rp_compress p" "has_flag (publish_flags p) 2 = (rp_seq p \<noteq> None)"
  "has_flag (publish_flags p) 4 = (rp_capability p \<noteq> None)" "has_flag (publish_flags p) 8 = (rp_event p \<noteq> None)"
  "has_flag (publish_flags p) 16 = (rp_data p \<noteq> None)" "has_flag (publish_flags p) 32 = (rp_origin p \<noteq> None)"
  unfolding publish_flags_def by (rule has_flags)+

definition text_fits :: "nat \<Rightarrow> js_string \<Rightarrow> bool" where
  "text_fits k s \<longleftrightarrow> length (utf8_encode s) < 256 ^ k"

definition publish_fits :: "relay_publish \<Rightarrow> bool" where
  "publish_fits p \<longleftrightarrow> text_fits 2 (rp_topic p) \<and> text_fits 4 (rp_envelope p) \<and>
     pred_option (text_fits 2) (rp_capability p) \<and> pred_option (text_fits 2) (rp_event p) \<and>
     pred_option (text_fits 4) (rp_data p) \<and> pred_option (\<lambda>(origin, ord, birth). origin < 256 ^ 4) (rp_origin p)"

definition publish_arrives :: "relay_publish \<Rightarrow> relay_publish" where
  "publish_arrives p = p\<lparr>rp_topic := wire_text (rp_topic p), rp_envelope := wire_text (rp_envelope p),
     rp_capability := map_option wire_text (rp_capability p), rp_event := map_option wire_text (rp_event p),
     rp_data := map_option wire_text (rp_data p)\<rparr>"

definition publish_texts :: "relay_publish \<Rightarrow> js_string list" where
  "publish_texts p = rp_topic p # rp_envelope p #
     concat (map (case_option [] (\<lambda>s. [s])) [rp_capability p, rp_event p, rp_data p])"

lemma publish_arrives_clean: "list_all clean_text (publish_texts p) \<Longrightarrow> publish_arrives p = p"
  by (cases p) (auto simp: publish_arrives_def publish_texts_def clean_text_wire split: option.splits)

lemma get_origin_put: "fst x < 256 ^ 4 \<Longrightarrow> get_origin (put_origin x @ rest) = Some (x, rest)"
  by (cases x) (simp add: get_origin_def put_origin_def get_le_bytes get_f64le_put)

lemma get_opt_put:
  assumes "\<And>x. x \<in> set_option o' \<Longrightarrow> get (put x @ rest) = Some (f x, rest)"
  shows "get_opt (o' \<noteq> None) get (put_opt put o' @ rest) = Some (map_option f o', rest)"
  using assms by (cases o') (simp_all add: get_opt_def)

lemma get_opt_text:
  "pred_option (text_fits k) o' \<Longrightarrow>
     get_opt (o' \<noteq> None) (get_text k) (put_opt (put_text k) o' @ rest) = Some (map_option wire_text o', rest)"
  by (rule get_opt_put) (simp add: text_fits_def get_text_put option.pred_set)

lemma get_opt_f64:
  "get_opt (o' \<noteq> None) get_f64le (put_opt put_f64le o' @ rest) = Some (o', rest)"
  using get_opt_put [of o' get_f64le put_f64le rest "\<lambda>x. x"] by (simp add: get_f64le_put option.map_ident)

lemma get_opt_origin:
  "pred_option (\<lambda>(origin, ord, birth). origin < 256 ^ 4) o' \<Longrightarrow>
     get_opt (o' \<noteq> None) get_origin (put_opt put_origin o') = Some (o', [])"
  using get_opt_put [of o' get_origin put_origin "[]" "\<lambda>x. x"] get_origin_put [of _ "[]"]
  by (cases o') (auto simp: option.map_ident split: prod.splits)

lemma decode_publish_frame:
  assumes "publish_fits p"
  shows "decode_publish (publish_flags p) (drop 6 (encode_publish_frame p)) = Some (publish_arrives p)"
proof -
  have d: "drop 6 (encode_publish_frame p) = put_text 2 (rp_topic p) @ put_text 4 (rp_envelope p) @
     put_opt put_f64le (rp_seq p) @ put_opt (put_text 2) (rp_capability p) @
     put_opt (put_text 2) (rp_event p) @ put_opt (put_text 4) (rp_data p) @ put_opt put_origin (rp_origin p)"
    by (simp add: encode_publish_frame_def)
  have fits: "length (utf8_encode (rp_topic p)) < 256 ^ 2" "length (utf8_encode (rp_envelope p)) < 256 ^ 4"
    "pred_option (text_fits 2) (rp_capability p)" "pred_option (text_fits 2) (rp_event p)"
    "pred_option (text_fits 4) (rp_data p)" "pred_option (\<lambda>(origin, ord, birth). origin < 256 ^ 4) (rp_origin p)"
    using assms by (simp_all add: publish_fits_def text_fits_def)
  show ?thesis
    unfolding decode_publish_def d has_publish_flags get_text_put [OF fits(1)] get_text_put [OF fits(2)]
      get_opt_text [OF fits(3)] get_opt_text [OF fits(4)] get_opt_text [OF fits(5)] get_opt_f64
      get_opt_origin [OF fits(6)] option.case prod.case
    by (simp add: publish_arrives_def)
qed

lemma encode_head:
  "byte_at 4 (encode_publish_frame p) = 1" "byte_at 5 (encode_publish_frame p) = publish_flags p"
  using publish_flags_less [of p]
  by (simp_all add: byte_at_def encode_publish_frame_def nth_append)

lemma length_put_opt:
  "length (put_opt (put_text k) o') = opt_len k o'" "length (put_opt put_f64le o2) = (if o2 \<noteq> None then 8 else 0)"
  "length (put_opt put_origin o3) = (if o3 \<noteq> None then 20 else 0)"
proof -
  show "length (put_opt (put_text k) o') = opt_len k o'" by (cases o') (simp_all add: put_text_def)
  show "length (put_opt put_f64le o2) = (if o2 \<noteq> None then 8 else 0)" by (cases o2) (simp_all add: put_f64le_def)
  show "length (put_opt put_origin o3) = (if o3 \<noteq> None then 20 else 0)"
    by (cases o3) (simp_all add: put_origin_def put_f64le_def split: prod.split)
qed

lemma length_publish_frame: "length (encode_publish_frame p) = 4 + publish_len p"
  by (simp add: encode_publish_frame_def publish_len_def length_put_opt put_text_def Let_def)

lemma le_prefix_of_le: "4 \<le> length bs \<Longrightarrow> le_prefix bs = of_le (take 4 bs)"
proof -
  assume l: "4 \<le> length bs"
  then obtain a r1 where 1: "bs = a # r1" "3 \<le> length r1" by (cases bs) auto
  then obtain b r2 where 2: "r1 = b # r2" "2 \<le> length r2" by (cases r1) auto
  then obtain c r3 where 3: "r2 = c # r3" "1 \<le> length r3" by (cases r2) auto
  then obtain d r4 where 4: "r3 = d # r4" by (cases r3) auto
  show ?thesis by (simp add: 1 2 3 4 le_prefix_def)
qed

section \<open>Properties\<close>

text \<open>C34: the encoded frame of a publish whose texts fit their length fields is one frame of the stream, and
  decodes to the message with every text as the decoder returns it; when no text has a lone surrogate or begins
  with a byte-order mark, that is the message that was encoded, field by field.\<close>

theorem relay_publish_roundtrip:
  assumes "publish_fits p" and "publish_len p < 2 ^ 32"
  shows "frame_ok Infinity (encode_publish_frame p) \<and>
     decode_relay_frame (encode_publish_frame p) = Some (Some (RelayPublish (publish_arrives p))) \<and>
     (list_all clean_text (publish_texts p) \<longrightarrow>
        decode_relay_frame (encode_publish_frame p) = Some (Some (RelayPublish p)))"
proof -
  have "take 4 (encode_publish_frame p) = le_bytes 4 (publish_len p)"
    by (simp add: encode_publish_frame_def)
  then have "le_prefix (encode_publish_frame p) = publish_len p"
    using assms(2) by (simp add: le_prefix_of_le length_publish_frame of_le_bytes)
  then show ?thesis
    using decode_publish_frame [OF assms(1)] publish_arrives_clean [of p]
    by (simp add: decode_relay_frame_def encode_head frame_ok_def length_publish_frame)
qed

definition sample_publish :: "js_string \<Rightarrow> relay_publish" where
  "sample_publish topic = \<lparr>rp_topic = topic, rp_envelope = [123, 125], rp_compress = True,
      rp_seq = Some 0, rp_capability = None, rp_event = Some [98], rp_data = None, rp_origin = Some (3, 0, 0)\<rparr>"

lemmas text_evals = utf8_encode_def unit_scalar_def is_high_def is_low_def utf8_of_def

theorem relay_publish_roundtrip_witness:
  "decode_relay_frame (encode_publish_frame (sample_publish [97])) = Some (Some (RelayPublish (sample_publish [97])))"
proof -
  have "publish_fits (sample_publish [97])" "publish_len (sample_publish [97]) < 2 ^ 32"
    "list_all clean_text (publish_texts (sample_publish [97]))"
    by (simp_all add: sample_publish_def publish_fits_def text_fits_def publish_len_def publish_texts_def
        clean_text_def text_evals)
  then show ?thesis using relay_publish_roundtrip [of "sample_publish [97]"] by blast
qed

text \<open>the relay changes a topic that begins with U+FEFF: the sibling workers publish to another topic.\<close>

theorem relay_loses_bom:
  assumes "publish_fits p" and "rp_topic p = 0xFEFF # t" and "well_formed16 t"
  shows "\<exists>q. decode_relay_frame (encode_publish_frame p) = Some (Some (RelayPublish q)) \<and> rp_topic q = t"
  using decode_publish_frame [OF assms(1)] wire_text_bom [OF assms(3)]
  by (simp add: decode_relay_frame_def encode_head publish_arrives_def assms(2))

theorem relay_loses_bom_witness:
  "\<exists>q. decode_relay_frame (encode_publish_frame (sample_publish [0xFEFF, 97])) = Some (Some (RelayPublish q)) \<and>
     rp_topic q = [97]"
  by (rule relay_loses_bom) (simp_all add: sample_publish_def publish_fits_def text_fits_def text_evals)

text \<open>a batched relay decodes to its events text and compress flag.\<close>

theorem relay_batched_roundtrip:
  assumes "length (utf8_encode events) < 2 ^ 32"
  shows "decode_relay_frame (encode_publish_batched_frame events compress) =
     Some (Some (RelayBatched (wire_text events) compress))"
proof -
  let ?f = "encode_publish_batched_frame events compress"
  have h: "byte_at 4 ?f = 2" "byte_at 5 ?f = flag 1 compress"
    by (simp_all add: byte_at_def encode_publish_batched_frame_def nth_append flag_def)
  have "drop 6 ?f = put_text 4 events @ []" by (simp add: encode_publish_batched_frame_def)
  then have "get_text 4 (drop 6 ?f) = Some (wire_text events, [])"
    using get_text_put [of events 4 "[]"] assms by simp
  then show ?thesis by (simp add: decode_relay_frame_def h flag_def has_flag_def)
qed

theorem relay_batched_roundtrip_witness:
  "decode_relay_frame (encode_publish_batched_frame [91, 93] True) = Some (Some (RelayBatched (wire_text [91, 93]) True))"
  by (rule relay_batched_roundtrip)
    (simp add: utf8_encode_def unit_scalar_def is_high_def is_low_def utf8_of_def)

end
