(* ===== verification/Task_Queue.thy ===== *)
theory Task_Queue
  imports Prelude "HOL-Library.Sublist" "HOL-Library.Multiset"
begin

text \<open>
  The per-key task queue of \<open>src/plugins/queue/server.js\<close>.

  A task is its identity; what it computes and the promise it settles are represented by
  the logs of tasks accepted, started and settled. The waiting list threaded through the
  tasks is a list; the doubly linked service line is a list of keys, and a key's
  \<open>lineNode\<close> is whether it is in it. The microtask that runs a started task is the
  \<open>TaskDone\<close> event of a task in flight, in any order.
\<close>

section \<open>State\<close>

record 'a task_entry =
  te_items :: "'a list"
  te_running :: nat
  te_drains :: "nat list"
  te_in_line :: bool

record queue_opts =
  qo_concurrency :: nat
  qo_max_size :: js_cap
  qo_max_keys :: js_cap
  qo_max_pending_total :: js_cap
  qo_max_running_total :: js_cap
  qo_max_key_length :: nat
  qo_on_drop_throws :: bool

datatype shed_reason = ShedMaxSize | ShedMaxKeys | ShedMaxPendingTotal

datatype push_result = PushAccepted | PushKeyTooLong | PushShed shed_reason

record 'a task_queue =
  tq_opts :: queue_opts
  tq_queues :: "(js_string, 'a task_entry) jsmap"
  tq_line :: "js_string list"
  tq_pending :: nat
  tq_running :: nat
  tq_keys_peak :: nat
  tq_pending_peak :: nat
  tq_running_peak :: nat
  tq_completed :: nat
  tq_failed :: nat
  tq_dropped :: "shed_reason list"
  tq_drop_errors :: nat
  tq_inflight :: "(js_string \<times> 'a) list"
  tq_accepted :: "(js_string \<times> 'a) list"
  tq_started :: "(js_string \<times> 'a) list"
  tq_cleared :: "(js_string \<times> 'a) list"
  tq_drained :: "nat list"

datatype queue_error = BadConcurrency | BadCap | BadKeyLength

fun cap_valid :: "js_cap \<Rightarrow> bool" where
  "cap_valid Infinity = True"
| "cap_valid (Finite c) = (1 \<le> c)"

definition new_task_queue :: "queue_opts \<Rightarrow> 'a task_queue" where
  "new_task_queue opts = \<lparr>tq_opts = opts, tq_queues = [], tq_line = [], tq_pending = 0, tq_running = 0,
     tq_keys_peak = 0, tq_pending_peak = 0, tq_running_peak = 0, tq_completed = 0, tq_failed = 0,
     tq_dropped = [], tq_drop_errors = 0, tq_inflight = [], tq_accepted = [], tq_started = [],
     tq_cleared = [], tq_drained = []\<rparr>"

definition create_queue :: "queue_opts \<Rightarrow> queue_error + 'a task_queue" where
  "create_queue opts =
     (if qo_concurrency opts < 1 then Inl BadConcurrency
      else if \<not> (cap_valid (qo_max_size opts) \<and> cap_valid (qo_max_keys opts) \<and>
                 cap_valid (qo_max_pending_total opts) \<and> cap_valid (qo_max_running_total opts)) then Inl BadCap
      else if qo_max_key_length opts < 1 then Inl BadKeyLength
      else Inr (new_task_queue opts))"

section \<open>The scheduler\<close>

definition put_entry :: "js_string \<Rightarrow> 'a task_entry \<Rightarrow> 'a task_queue \<Rightarrow> 'a task_queue" where
  "put_entry key q s = s\<lparr>tq_queues := jm_set key q (tq_queues s)\<rparr>"

definition mark_ready :: "js_string \<Rightarrow> 'a task_queue \<Rightarrow> 'a task_queue" where
  "mark_ready key s =
     (case jm_get (tq_queues s) key of
        None \<Rightarrow> s
      | Some q \<Rightarrow>
          if te_in_line q \<or> te_items q = [] \<or> qo_concurrency (tq_opts s) \<le> te_running q then s
          else put_entry key (q\<lparr>te_in_line := True\<rparr>) (s\<lparr>tq_line := tq_line s @ [key]\<rparr>))"

definition unmark_ready :: "js_string \<Rightarrow> 'a task_queue \<Rightarrow> 'a task_queue" where
  "unmark_ready key s =
     (case jm_get (tq_queues s) key of
        None \<Rightarrow> s
      | Some q \<Rightarrow>
          if \<not> te_in_line q then s
          else put_entry key (q\<lparr>te_in_line := False\<rparr>) (s\<lparr>tq_line := remove1 key (tq_line s)\<rparr>))"

definition start_task :: "js_string \<Rightarrow> 'a task_queue \<Rightarrow> 'a task_queue" where
  "start_task key s =
     (case jm_get (tq_queues s) key of
        None \<Rightarrow> s
      | Some q \<Rightarrow>
          (case te_items q of
             [] \<Rightarrow> s
           | t # rest \<Rightarrow>
               put_entry key (q\<lparr>te_items := rest, te_running := te_running q + 1\<rparr>)
                 (s\<lparr>tq_pending := tq_pending s - 1, tq_running := tq_running s + 1,
                    tq_running_peak := max (tq_running_peak s) (tq_running s + 1),
                    tq_inflight := tq_inflight s @ [(key, t)], tq_started := tq_started s @ [(key, t)]\<rparr>)))"

definition waiting_total :: "'a task_queue \<Rightarrow> nat" where
  "waiting_total s = sum_list (map (\<lambda>p. length (te_items (snd p))) (tq_queues s))"

function pump :: "'a task_queue \<Rightarrow> 'a task_queue" where
  "pump s =
     (if at_cap (tq_running s) (qo_max_running_total (tq_opts s)) then s
      else case tq_line s of
        [] \<Rightarrow> s
      | key # line \<Rightarrow>
          let s = s\<lparr>tq_line := line\<rparr> in
          case jm_get (tq_queues s) key of
            None \<Rightarrow> pump s
          | Some q \<Rightarrow>
              let s = put_entry key (q\<lparr>te_in_line := False\<rparr>) s in
              if te_items q = [] \<or> qo_concurrency (tq_opts s) \<le> te_running q then pump s
              else pump (mark_ready key (start_task key s)))"
  by pat_completeness auto

lemma waiting_put_entry:
  "waiting_total (put_entry k q s) + (case jm_get (tq_queues s) k of None \<Rightarrow> 0 | Some u \<Rightarrow> length (te_items u)) =
     waiting_total s + length (te_items q)"
  using sum_list_map_jm_set [of "\<lambda>q. length (te_items q)" k q "tq_queues s"]
  by (simp add: waiting_total_def put_entry_def)

lemma waiting_cong [simp]:
  "waiting_total (s\<lparr>tq_line := l\<rparr>) = waiting_total s"
  by (simp add: waiting_total_def)

lemma waiting_put_same:
  "jm_get (tq_queues s) k = Some q \<Longrightarrow> te_items q' = te_items q \<Longrightarrow> waiting_total (put_entry k q' s) = waiting_total s"
  using waiting_put_entry [of k q' s] by simp

lemma waiting_mark_ready: "waiting_total (mark_ready k s) = waiting_total s"
proof (cases "jm_get (tq_queues s) k")
  case (Some q)
  then show ?thesis
    using waiting_put_same [of "s\<lparr>tq_line := tq_line s @ [k]\<rparr>" k q "q\<lparr>te_in_line := True\<rparr>"]
    by (simp add: mark_ready_def)
qed (simp add: mark_ready_def)

lemma waiting_start_task:
  assumes "jm_get (tq_queues s) k = Some q" and "te_items q = t # rest"
  shows "waiting_total (start_task k s) + 1 = waiting_total s"
proof -
  let ?s = "s\<lparr>tq_pending := tq_pending s - 1, tq_running := tq_running s + 1,
    tq_running_peak := max (tq_running_peak s) (tq_running s + 1),
    tq_inflight := tq_inflight s @ [(k, t)], tq_started := tq_started s @ [(k, t)]\<rparr>"
  have "waiting_total ?s = waiting_total s" by (simp add: waiting_total_def)
  then show ?thesis
    using assms waiting_put_entry [of k "q\<lparr>te_items := rest, te_running := te_running q + 1\<rparr>" ?s]
    by (simp add: start_task_def)
qed

lemma length_line_mark: "length (tq_line (mark_ready k s)) \<le> Suc (length (tq_line s))"
  by (simp add: mark_ready_def put_entry_def split: option.split)

lemma line_start [simp]: "tq_line (start_task k s) = tq_line s"
  by (simp add: start_task_def put_entry_def split: option.split list.split)

termination pump
proof (relation "measures [waiting_total, \<lambda>s. length (tq_line s)]", goal_cases)
  case 1
  show ?case by simp
next
  case (2 s key line s1)
  then show ?case by simp
next
  case (3 s key line s1 q s2)
  have "waiting_total s2 = waiting_total s" using 3 waiting_put_same [of s1 key q "q\<lparr>te_in_line := False\<rparr>"] by simp
  moreover have "tq_line s2 = line" using 3 by (simp add: put_entry_def)
  ultimately show ?case using 3 by simp
next
  case (4 s key line s1 q s2)
  have w: "waiting_total s2 = waiting_total s" using 4 waiting_put_same [of s1 key q "q\<lparr>te_in_line := False\<rparr>"] by simp
  obtain t rest where "te_items q = t # rest" using 4 by (cases "te_items q") auto
  then have "waiting_total (start_task key s2) + 1 = waiting_total s2"
    using waiting_start_task [of s2 key "q\<lparr>te_in_line := False\<rparr>" t rest] 4 by (simp add: put_entry_def)
  then show ?case using w by (simp add: waiting_mark_ready)
qed

declare pump.simps [simp del]

definition schedule :: "js_string \<Rightarrow> 'a task_queue \<Rightarrow> 'a task_queue" where
  "schedule key s =
     (case jm_get (tq_queues s) key of
        None \<Rightarrow> s
      | Some q \<Rightarrow>
          let s = (if tq_line s = [] \<and> te_items q \<noteq> [] \<and> te_running q < qo_concurrency (tq_opts s) \<and>
                      \<not> at_cap (tq_running s) (qo_max_running_total (tq_opts s))
                   then start_task key s else s)
          in pump (mark_ready key s))"

definition cleanup :: "js_string \<Rightarrow> 'a task_queue \<Rightarrow> 'a task_queue" where
  "cleanup key s =
     (case jm_get (tq_queues s) key of
        None \<Rightarrow> s
      | Some q \<Rightarrow>
          if te_running q = 0 \<and> te_items q = [] then
            let s = unmark_ready key s
            in s\<lparr>tq_queues := jm_del key (tq_queues s), tq_drained := tq_drained s @ te_drains q\<rparr>
          else s)"

section \<open>The operations\<close>

definition shed :: "shed_reason \<Rightarrow> 'a task_queue \<Rightarrow> push_result \<times> 'a task_queue" where
  "shed reason s = (PushShed reason, s\<lparr>tq_dropped := tq_dropped s @ [reason],
     tq_drop_errors := tq_drop_errors s + (if qo_on_drop_throws (tq_opts s) then 1 else 0)\<rparr>)"

definition push_task :: "js_string \<Rightarrow> 'a \<Rightarrow> 'a task_queue \<Rightarrow> push_result \<times> 'a task_queue" where
  "push_task key t s =
     (let opts = tq_opts s; q0 = jm_get (tq_queues s) key in
      if qo_max_key_length opts < length key then (PushKeyTooLong, s)
      else if (case q0 of None \<Rightarrow> False | Some q \<Rightarrow> at_cap (length (te_items q)) (qo_max_size opts))
        then shed ShedMaxSize s
      else if q0 = None \<and> at_cap (jm_size (tq_queues s)) (qo_max_keys opts) then shed ShedMaxKeys s
      else if at_cap (tq_pending s) (qo_max_pending_total opts) then shed ShedMaxPendingTotal s
      else
        let q = (case q0 of None \<Rightarrow> \<lparr>te_items = [], te_running = 0, te_drains = [], te_in_line = False\<rparr> | Some q \<Rightarrow> q);
            s = put_entry key (q\<lparr>te_items := te_items q @ [t]\<rparr>) s;
            s = s\<lparr>tq_keys_peak := max (tq_keys_peak s) (jm_size (tq_queues s)),
                  tq_pending := tq_pending s + 1, tq_pending_peak := max (tq_pending_peak s) (tq_pending s + 1),
                  tq_accepted := tq_accepted s @ [(key, t)]\<rparr>
        in (PushAccepted, schedule key s))"

definition reject_waiting :: "js_string \<Rightarrow> 'a task_queue \<Rightarrow> 'a task_queue" where
  "reject_waiting key s =
     (let s = unmark_ready key s in
      case jm_get (tq_queues s) key of
        None \<Rightarrow> s
      | Some q \<Rightarrow> put_entry key (q\<lparr>te_items := []\<rparr>)
          (s\<lparr>tq_pending := tq_pending s - length (te_items q),
             tq_cleared := tq_cleared s @ map (Pair key) (te_items q)\<rparr>))"

definition clear_key :: "js_string \<Rightarrow> 'a task_queue \<Rightarrow> 'a task_queue" where
  "clear_key key s = (if jm_has (tq_queues s) key then cleanup key (reject_waiting key s) else s)"

definition clear_all :: "'a task_queue \<Rightarrow> 'a task_queue" where
  "clear_all s = fold (\<lambda>k s. cleanup k (reject_waiting k s)) (jm_keys (tq_queues s)) s"

definition queue_size :: "js_string option \<Rightarrow> 'a task_queue \<Rightarrow> nat" where
  "queue_size key s =
     (case key of
        Some k \<Rightarrow> (case jm_get (tq_queues s) k of None \<Rightarrow> 0 | Some q \<Rightarrow> length (te_items q) + te_running q)
      | None \<Rightarrow> tq_pending s + tq_running s)"

definition drain_key :: "js_string \<Rightarrow> nat \<Rightarrow> 'a task_queue \<Rightarrow> 'a task_queue" where
  "drain_key key waiter s =
     (case jm_get (tq_queues s) key of
        None \<Rightarrow> s\<lparr>tq_drained := tq_drained s @ [waiter]\<rparr>
      | Some q \<Rightarrow>
          if te_items q = [] \<and> te_running q = 0 then s\<lparr>tq_drained := tq_drained s @ [waiter]\<rparr>
          else put_entry key (q\<lparr>te_drains := te_drains q @ [waiter]\<rparr>) s)"

text \<open>A task in flight settles; \<open>ok\<close> is whether it resolved.\<close>

definition task_done :: "js_string \<Rightarrow> 'a \<Rightarrow> bool \<Rightarrow> 'a task_queue \<Rightarrow> 'a task_queue" where
  "task_done key t ok s =
     (if (key, t) \<notin> set (tq_inflight s) then s
      else case jm_get (tq_queues s) key of
        None \<Rightarrow> s
      | Some q \<Rightarrow>
          let s = put_entry key (q\<lparr>te_running := te_running q - 1\<rparr>)
                (s\<lparr>tq_inflight := remove1 (key, t) (tq_inflight s), tq_running := tq_running s - 1,
                   tq_completed := tq_completed s + (if ok then 1 else 0),
                   tq_failed := tq_failed s + (if ok then 0 else 1)\<rparr>)
          in cleanup key (schedule key s))"

datatype 'a queue_op =
    QPush js_string 'a
  | QDone js_string 'a bool
  | QClear js_string
  | QClearAll
  | QDrain js_string nat

fun queue_step :: "'a task_queue \<Rightarrow> 'a queue_op \<Rightarrow> 'a task_queue" where
  "queue_step s (QPush k t) = snd (push_task k t s)"
| "queue_step s (QDone k t ok) = task_done k t ok s"
| "queue_step s (QClear k) = clear_key k s"
| "queue_step s QClearAll = clear_all s"
| "queue_step s (QDrain k w) = drain_key k w s"

section \<open>The invariant\<close>

definition fresh_entry :: "'a task_entry" where
  "fresh_entry = \<lparr>te_items = [], te_running = 0, te_drains = [], te_in_line = False\<rparr>"

definition entry_of :: "'a task_queue \<Rightarrow> js_string \<Rightarrow> 'a task_entry" where
  "entry_of s k = (case jm_get (tq_queues s) k of None \<Rightarrow> fresh_entry | Some q \<Rightarrow> q)"

definition startable :: "'a task_queue \<Rightarrow> js_string \<Rightarrow> bool" where
  "startable s k \<longleftrightarrow> te_items (entry_of s k) \<noteq> [] \<and> te_running (entry_of s k) < qo_concurrency (tq_opts s)"

text \<open>What holds of one key, whatever the others do.\<close>

definition key_line_ok :: "'a task_queue \<Rightarrow> js_string \<Rightarrow> bool" where
  "key_line_ok s k \<longleftrightarrow> (te_in_line (entry_of s k) \<longleftrightarrow> k \<in> set (tq_line s)) \<and>
     (te_in_line (entry_of s k) \<longrightarrow> startable s k)"

definition key_bounds_ok :: "'a task_queue \<Rightarrow> js_string \<Rightarrow> bool" where
  "key_bounds_ok s k \<longleftrightarrow> te_running (entry_of s k) \<le> qo_concurrency (tq_opts s) \<and>
     under_cap (length (te_items (entry_of s k))) (qo_max_size (tq_opts s)) \<and>
     length (of_key k (tq_inflight s)) = te_running (entry_of s k)"

definition key_fifo_ok :: "'a task_queue \<Rightarrow> js_string \<Rightarrow> bool" where
  "key_fifo_ok s k \<longleftrightarrow>
     subseq (of_key k (tq_started s) @ te_items (entry_of s k)) (of_key k (tq_accepted s)) \<and>
     mset (of_key k (tq_accepted s)) =
       mset (of_key k (tq_started s)) + mset (of_key k (tq_cleared s)) + mset (te_items (entry_of s k))"

definition totals_ok :: "'a task_queue \<Rightarrow> bool" where
  "totals_ok s \<longleftrightarrow> jm_wf (tq_queues s) \<and> distinct (tq_line s) \<and> tq_pending s = waiting_total s \<and>
     tq_running s = length (tq_inflight s) \<and>
     length (tq_started s) = length (tq_inflight s) + tq_completed s + tq_failed s \<and>
     1 \<le> qo_concurrency (tq_opts s) \<and> under_cap 1 (qo_max_size (tq_opts s)) \<and>
     \<not> at_cap 0 (qo_max_running_total (tq_opts s)) \<and>
     under_cap (tq_running s) (qo_max_running_total (tq_opts s)) \<and>
     under_cap (tq_pending s) (qo_max_pending_total (tq_opts s)) \<and>
     under_cap (jm_size (tq_queues s)) (qo_max_keys (tq_opts s))"

definition queue_core :: "'a task_queue \<Rightarrow> bool" where
  "queue_core s \<longleftrightarrow> totals_ok s \<and> (\<forall>k. key_line_ok s k) \<and> (\<forall>k. key_bounds_ok s k) \<and> (\<forall>k. key_fifo_ok s k)"

lemmas queue_core_defs = queue_core_def totals_ok_def key_line_ok_def key_bounds_ok_def key_fifo_ok_def startable_def

text \<open>Every key but those in \<open>X\<close> that could start a task has its place in line, and every
  live key but those in \<open>X\<close> has work.\<close>

definition all_ready :: "js_string set \<Rightarrow> 'a task_queue \<Rightarrow> bool" where
  "all_ready X s \<longleftrightarrow> (\<forall>k. k \<notin> X \<longrightarrow> startable s k \<longrightarrow> k \<in> set (tq_line s))"

definition all_live :: "js_string set \<Rightarrow> 'a task_queue \<Rightarrow> bool" where
  "all_live X s \<longleftrightarrow> (\<forall>k q. jm_get (tq_queues s) k = Some q \<longrightarrow> k \<notin> X \<longrightarrow> te_items q \<noteq> [] \<or> 0 < te_running q)"

definition line_waits :: "'a task_queue \<Rightarrow> bool" where
  "line_waits s \<longleftrightarrow> (tq_line s \<noteq> [] \<longrightarrow> at_cap (tq_running s) (qo_max_running_total (tq_opts s)))"

definition queue_inv :: "'a task_queue \<Rightarrow> bool" where
  "queue_inv s \<longleftrightarrow> queue_core s \<and> all_ready {} s \<and> all_live {} s \<and> line_waits s"

lemma entry_of_put [simp]: "entry_of (put_entry k q s) k' = (if k' = k then q else entry_of s k')"
  by (simp add: entry_of_def put_entry_def)

lemma entry_of_update [simp]:
  "entry_of (s\<lparr>tq_line := x0\<rparr>) k = entry_of s k"
  "entry_of (s\<lparr>tq_pending := x1\<rparr>) k = entry_of s k"
  "entry_of (s\<lparr>tq_running := x2\<rparr>) k = entry_of s k"
  "entry_of (s\<lparr>tq_keys_peak := x3\<rparr>) k = entry_of s k"
  "entry_of (s\<lparr>tq_pending_peak := x4\<rparr>) k = entry_of s k"
  "entry_of (s\<lparr>tq_running_peak := x5\<rparr>) k = entry_of s k"
  "entry_of (s\<lparr>tq_completed := x6\<rparr>) k = entry_of s k"
  "entry_of (s\<lparr>tq_failed := x7\<rparr>) k = entry_of s k"
  "entry_of (s\<lparr>tq_dropped := x8\<rparr>) k = entry_of s k"
  "entry_of (s\<lparr>tq_drop_errors := x9\<rparr>) k = entry_of s k"
  "entry_of (s\<lparr>tq_inflight := x10\<rparr>) k = entry_of s k"
  "entry_of (s\<lparr>tq_accepted := x11\<rparr>) k = entry_of s k"
  "entry_of (s\<lparr>tq_started := x12\<rparr>) k = entry_of s k"
  "entry_of (s\<lparr>tq_cleared := x13\<rparr>) k = entry_of s k"
  "entry_of (s\<lparr>tq_drained := x14\<rparr>) k = entry_of s k"
  by (simp_all add: entry_of_def)

lemma waiting_total_update [simp]:
  "waiting_total (s\<lparr>tq_pending := x1\<rparr>) = waiting_total s"
  "waiting_total (s\<lparr>tq_running := x2\<rparr>) = waiting_total s"
  "waiting_total (s\<lparr>tq_keys_peak := x3\<rparr>) = waiting_total s"
  "waiting_total (s\<lparr>tq_pending_peak := x4\<rparr>) = waiting_total s"
  "waiting_total (s\<lparr>tq_running_peak := x5\<rparr>) = waiting_total s"
  "waiting_total (s\<lparr>tq_completed := x6\<rparr>) = waiting_total s"
  "waiting_total (s\<lparr>tq_failed := x7\<rparr>) = waiting_total s"
  "waiting_total (s\<lparr>tq_dropped := x8\<rparr>) = waiting_total s"
  "waiting_total (s\<lparr>tq_drop_errors := x9\<rparr>) = waiting_total s"
  "waiting_total (s\<lparr>tq_inflight := x10\<rparr>) = waiting_total s"
  "waiting_total (s\<lparr>tq_accepted := x11\<rparr>) = waiting_total s"
  "waiting_total (s\<lparr>tq_started := x12\<rparr>) = waiting_total s"
  "waiting_total (s\<lparr>tq_cleared := x13\<rparr>) = waiting_total s"
  "waiting_total (s\<lparr>tq_drained := x14\<rparr>) = waiting_total s"
  by (simp_all add: waiting_total_def)

lemma put_entry_sel [simp]:
  "tq_opts (put_entry k q s) = tq_opts s" "tq_line (put_entry k q s) = tq_line s"
  "tq_pending (put_entry k q s) = tq_pending s" "tq_running (put_entry k q s) = tq_running s"
  "tq_inflight (put_entry k q s) = tq_inflight s" "tq_accepted (put_entry k q s) = tq_accepted s"
  "tq_started (put_entry k q s) = tq_started s" "tq_cleared (put_entry k q s) = tq_cleared s"
  "tq_completed (put_entry k q s) = tq_completed s" "tq_failed (put_entry k q s) = tq_failed s"
  "tq_queues (put_entry k q s) = jm_set k q (tq_queues s)"
  by (simp_all add: put_entry_def)

lemma entry_of_del [simp]:
  "entry_of (s\<lparr>tq_queues := jm_del k (tq_queues s)\<rparr>) k' = (if k' = k then fresh_entry else entry_of s k')"
  by (simp add: entry_of_def)

lemma get_entry_of: "jm_get (tq_queues s) k = Some q \<Longrightarrow> entry_of s k = q"
  by (simp add: entry_of_def)

lemma size_put_same: "jm_get (tq_queues s) k = Some q \<Longrightarrow> jm_size (jm_set k q' (tq_queues s)) = jm_size (tq_queues s)"
  by (simp add: length_jm_set)

lemma core_put_line:
  assumes c: "queue_core s" and g: "jm_get (tq_queues s) k = Some q" and "te_items q' = te_items q" "te_running q' = te_running q"
    and "distinct l" and "set l - {k} = set (tq_line s) - {k}" and "te_in_line q' \<longleftrightarrow> k \<in> set l"
    and "te_in_line q' \<Longrightarrow> startable s k"
  shows "queue_core (put_entry k q' (s\<lparr>tq_line := l\<rparr>))"
proof -
  let ?s = "put_entry k q' (s\<lparr>tq_line := l\<rparr>)"
  have e: "entry_of ?s k' = (if k' = k then q' else entry_of s k')" for k'
    by simp
  have q: "entry_of s k = q" by (rule get_entry_of [OF g])
  have w: "waiting_total ?s = waiting_total s"
    using waiting_put_same [of "s\<lparr>tq_line := l\<rparr>" k q q'] g assms(3) by simp
  have lk: "key_line_ok ?s k'" for k'
    using c assms(6-8) q e [of k'] assms(3,4) by (auto simp: queue_core_defs)
  have "key_bounds_ok ?s k'" "key_fifo_ok ?s k'" for k'
    using c q assms(3,4) by (auto simp: queue_core_defs e)
  moreover have "totals_ok ?s"
    using c w assms(5) by (auto simp: queue_core_defs size_put_same [OF g])
  ultimately show ?thesis using lk by (simp add: queue_core_def)
qed

lemma core_mark_ready:
  assumes c: "queue_core s"
  shows "queue_core (mark_ready k s)"
proof (cases "jm_get (tq_queues s) k")
  case None
  then show ?thesis using c by (simp add: mark_ready_def)
next
  case (Some q)
  show ?thesis
  proof (cases "te_in_line q \<or> te_items q = [] \<or> qo_concurrency (tq_opts s) \<le> te_running q")
    case True
    then show ?thesis using c Some by (simp add: mark_ready_def)
  next
    case False
    have st: "startable s k" using False get_entry_of [OF Some] by (simp add: startable_def)
    have "k \<notin> set (tq_line s)" using c False get_entry_of [OF Some] by (auto simp: queue_core_defs)
    moreover have "distinct (tq_line s)" using c by (simp add: queue_core_defs)
    ultimately have "queue_core (put_entry k (q\<lparr>te_in_line := True\<rparr>) (s\<lparr>tq_line := tq_line s @ [k]\<rparr>))"
      by (intro core_put_line [OF c Some]) (auto simp: st)
    then show ?thesis using False Some by (simp add: mark_ready_def)
  qed
qed

lemma core_unmark_ready:
  assumes c: "queue_core s"
  shows "queue_core (unmark_ready k s)"
proof (cases "jm_get (tq_queues s) k")
  case None
  then show ?thesis using c by (simp add: unmark_ready_def)
next
  case (Some q)
  have d: "distinct (tq_line s)" using c by (simp add: queue_core_defs)
  have "queue_core (put_entry k (q\<lparr>te_in_line := False\<rparr>) (s\<lparr>tq_line := remove1 k (tq_line s)\<rparr>))"
    using d by (intro core_put_line [OF c Some]) auto
  then show ?thesis using c Some by (simp add: unmark_ready_def)
qed

lemma core_pop:
  assumes c: "queue_core s" and l: "tq_line s = k # l" and g: "jm_get (tq_queues s) k = Some q"
  shows "queue_core (put_entry k (q\<lparr>te_in_line := False\<rparr>) (s\<lparr>tq_line := l\<rparr>))"
proof -
  have d: "distinct (k # l)" using c l by (simp add: queue_core_defs)
  then show ?thesis using l by (intro core_put_line [OF c g]) auto
qed

lemma core_start:
  assumes c: "queue_core s" and g: "jm_get (tq_queues s) k = Some q" and nl: "\<not> te_in_line q"
    and st: "startable s k" and room: "\<not> at_cap (tq_running s) (qo_max_running_total (tq_opts s))"
  shows "queue_core (start_task k s)"
proof -
  have q: "entry_of s k = q" by (rule get_entry_of [OF g])
  obtain t rest where it: "te_items q = t # rest" using st q by (cases "te_items q") (auto simp: startable_def)
  define s1 where "s1 = s\<lparr>tq_pending := tq_pending s - 1, tq_running := tq_running s + 1,
    tq_running_peak := max (tq_running_peak s) (tq_running s + 1),
    tq_inflight := tq_inflight s @ [(k, t)], tq_started := tq_started s @ [(k, t)]\<rparr>"
  have eq: "start_task k s = put_entry k (q\<lparr>te_items := rest, te_running := te_running q + 1\<rparr>) s1"
    using g it by (simp add: start_task_def s1_def)
  have w: "waiting_total (start_task k s) + 1 = waiting_total s" by (rule waiting_start_task [OF g it])
  have "totals_ok (start_task k s)"
    using c w g room by (auto simp: eq s1_def queue_core_defs size_put_same intro: under_cap_Suc elim: under_cap_mono)
  moreover have "key_line_ok (start_task k s) k'" for k'
    using c nl q by (auto simp: eq s1_def queue_core_defs)
  moreover have "under_cap (length (t # rest)) (qo_max_size (tq_opts s))"
    using c q it by (metis key_bounds_ok_def queue_core_def)
  then have "under_cap (length rest) (qo_max_size (tq_opts s))" by (rule under_cap_mono) simp
  then have "key_bounds_ok (start_task k s) k'" for k'
    using c st q by (auto simp: eq s1_def queue_core_defs)
  moreover have "key_fifo_ok s k" and "key_fifo_ok s k'" for k' using c by (simp_all add: queue_core_def)
  then have "key_fifo_ok (start_task k s) k'" for k'
    using q it by (cases "k' = k") (simp_all add: eq s1_def key_fifo_ok_def)
  ultimately show ?thesis by (simp add: queue_core_def)
qed


section \<open>Readiness\<close>

lemma opts_step [simp]:
  "tq_opts (mark_ready k s) = tq_opts s" "tq_opts (unmark_ready k s) = tq_opts s" "tq_opts (start_task k s) = tq_opts s"
  by (simp_all add: mark_ready_def unmark_ready_def start_task_def split: option.split list.split)

lemma running_mark [simp]: "tq_running (mark_ready k s) = tq_running s" "tq_running (unmark_ready k s) = tq_running s"
  by (simp_all add: mark_ready_def unmark_ready_def split: option.split)

lemma startable_mark [simp]: "startable (mark_ready k s) k' \<longleftrightarrow> startable s k'"
  by (auto simp: mark_ready_def startable_def get_entry_of split: option.split)

lemma ready_mark:
  assumes "queue_core s" and "all_ready {k} s"
  shows "all_ready {} (mark_ready k s)"
proof -
  have "set (tq_line s) \<subseteq> set (tq_line (mark_ready k s))"
    by (auto simp: mark_ready_def split: option.split)
  moreover have "startable s k \<Longrightarrow> k \<in> set (tq_line (mark_ready k s))"
    using assms(1) by (auto simp: mark_ready_def queue_core_defs entry_of_def fresh_entry_def split: option.splits)
  ultimately have "k' \<in> set (tq_line (mark_ready k s))" if "startable s k'" for k'
    using assms(2) that by (cases "k' = k") (auto simp: all_ready_def)
  then show ?thesis by (simp add: all_ready_def)
qed

lemma ready_start: "all_ready X s \<Longrightarrow> all_ready (insert k X) (start_task k s)"
  by (auto simp: all_ready_def start_task_def startable_def split: option.split list.split)

lemma ready_pop:
  "all_ready {} s \<Longrightarrow> tq_line s = k # l \<Longrightarrow> all_ready {k} (put_entry k q (s\<lparr>tq_line := l\<rparr>))"
  by (auto simp: all_ready_def startable_def)

lemma live_mark: "all_live X s \<Longrightarrow> all_live X (mark_ready k s)"
  by (auto simp: all_live_def mark_ready_def split: option.splits)

lemma live_start: "all_live X s \<Longrightarrow> all_live X (start_task k s)"
  by (auto simp: all_live_def start_task_def split: option.splits list.splits)

lemma live_put: "all_live X s \<Longrightarrow> jm_get (tq_queues s) k = Some q \<Longrightarrow> te_items q' = te_items q \<Longrightarrow>
   te_running q' = te_running q \<Longrightarrow> all_live X (put_entry k q' (s\<lparr>tq_line := l\<rparr>))"
  by (auto simp: all_live_def)

lemma pump_sel: "tq_queues (s\<lparr>tq_line := l\<rparr>) = tq_queues s"
  by simp

lemma pump_inv:
  assumes "queue_core s" and "all_ready {} s" and "all_live X s"
  shows "queue_core (pump s) \<and> all_ready {} (pump s) \<and> all_live X (pump s) \<and> line_waits (pump s) \<and> tq_opts (pump s) = tq_opts s"
  using assms
proof (induction s rule: pump.induct)
  case (1 s)
  show ?case
  proof (cases "at_cap (tq_running s) (qo_max_running_total (tq_opts s)) \<or> tq_line s = []")
    case True
    then have "pump s = s" by (subst pump.simps) auto
    then show ?thesis using 1(4-) True by (auto simp: line_waits_def)
  next
    case False
    then obtain key line where l: "tq_line s = key # line" by (cases "tq_line s") auto
    have room: "\<not> at_cap (tq_running s) (qo_max_running_total (tq_opts s))" using False by simp
    have "te_in_line (entry_of s key)" and st: "startable s key" using 1(4) l by (auto simp: queue_core_defs)
    then obtain q where g: "jm_get (tq_queues s) key = Some q"
      by (cases "jm_get (tq_queues s) key") (auto simp: entry_of_def fresh_entry_def)
    have q: "entry_of s key = q" by (rule get_entry_of [OF g])
    define s2 where "s2 = put_entry key (q\<lparr>te_in_line := False\<rparr>) (s\<lparr>tq_line := line\<rparr>)"
    have c2: "queue_core s2" unfolding s2_def by (rule core_pop [OF 1(4) l g])
    have g2: "jm_get (tq_queues s2) key = Some (q\<lparr>te_in_line := False\<rparr>)" by (simp add: s2_def)
    have nst: "\<not> (te_items q = [] \<or> qo_concurrency (tq_opts s2) \<le> te_running q)"
      using st q by (auto simp: startable_def s2_def)
    have st2: "startable s2 key" using st q by (simp add: startable_def s2_def)
    let ?s3 = "mark_ready key (start_task key s2)"
    have c3: "queue_core (start_task key s2)"
      by (rule core_start [OF c2 g2 _ st2]) (use room in \<open>simp_all add: s2_def\<close>)
    have r3: "all_ready {key} (start_task key s2)"
      using ready_start [OF ready_pop [OF 1(5) l], where k = key] by (simp add: s2_def)
    have l3: "all_live X (start_task key s2)"
      unfolding s2_def by (intro live_start live_put [OF 1(6) g]) simp_all
    have p: "pump s = pump ?s3" using l g room nst
      by (subst pump.simps) (simp add: s2_def Let_def)
    have o: "tq_opts ?s3 = tq_opts s" by (simp add: s2_def)
    note 1(3) [OF room l refl, unfolded pump_sel, OF g s2_def nst, OF core_mark_ready [OF c3] ready_mark [OF c3 r3] live_mark [OF l3]]
    then show ?thesis unfolding p o by blast
  qed
qed


lemma schedule_inv:
  assumes c: "queue_core s" and r: "all_ready {k} s" and v: "all_live X s"
    and g: "jm_get (tq_queues s) k = Some q"
  shows "queue_core (schedule k s) \<and> all_ready {} (schedule k s) \<and> all_live X (schedule k s) \<and>
    line_waits (schedule k s) \<and> tq_opts (schedule k s) = tq_opts s"
proof -
  let ?short = "tq_line s = [] \<and> te_items q \<noteq> [] \<and> te_running q < qo_concurrency (tq_opts s) \<and>
    \<not> at_cap (tq_running s) (qo_max_running_total (tq_opts s))"
  define s1 where "s1 = (if ?short then start_task k s else s)"
  have e: "schedule k s = pump (mark_ready k s1)" by (simp add: schedule_def g s1_def Let_def)
  have q: "entry_of s k = q" by (rule get_entry_of [OF g])
  have nl: "tq_line s = [] \<Longrightarrow> \<not> te_in_line q" using c q by (auto simp: queue_core_defs)
  have "queue_core s1"
    using core_start [OF c g] nl c q by (auto simp: s1_def startable_def)
  moreover have "all_ready {k} s1" using r ready_start [OF r, of k] by (simp add: s1_def)
  moreover have "all_live X s1" using v live_start by (auto simp: s1_def)
  moreover have "tq_opts s1 = tq_opts s" by (simp add: s1_def)
  ultimately show ?thesis
    using pump_inv [OF core_mark_ready [of s1 k] ready_mark live_mark, of X] by (simp add: e)
qed

section \<open>The operations keep the invariant\<close>

lemma core_cleanup:
  assumes c: "queue_core s" and r: "all_ready {} s" and v: "all_live {k} s" and w: "line_waits s"
  shows "queue_inv (cleanup k s) \<and> tq_opts (cleanup k s) = tq_opts s"
proof (cases "\<exists>q. jm_get (tq_queues s) k = Some q \<and> te_running q = 0 \<and> te_items q = []")
  case False
  then have "cleanup k s = s" by (auto simp: cleanup_def split: option.split)
  moreover have "all_live {} s" using v False unfolding all_live_def by (metis gr0I singletonD)
  ultimately show ?thesis using assms by (simp add: queue_inv_def)
next
  case True
  then obtain q where g: "jm_get (tq_queues s) k = Some q" and q0: "te_running q = 0" "te_items q = []" by blast
  have q: "entry_of s k = q" by (rule get_entry_of [OF g])
  have nl: "\<not> te_in_line q" and nk: "k \<notin> set (tq_line s)"
    using c q q0 by (auto simp: queue_core_def key_line_ok_def startable_def)
  define s1 where "s1 = s\<lparr>tq_queues := jm_del k (tq_queues s), tq_drained := tq_drained s @ te_drains q\<rparr>"
  have e: "cleanup k s = s1" using g q0 nl by (simp add: cleanup_def unmark_ready_def s1_def)
  have ent: "entry_of s1 k' = (if k' = k then fresh_entry else entry_of s k')" for k'
    by (simp add: entry_of_def s1_def)
  have wf: "jm_wf (tq_queues s)" using c by (simp add: queue_core_defs)
  have "waiting_total s1 = waiting_total s"
    using sum_list_map_jm_del [OF wf, of "\<lambda>q. length (te_items q)" k] g q0 by (simp add: waiting_total_def s1_def)
  then have "totals_ok s1"
    using c length_jm_del_le [of k "tq_queues s"] by (auto simp: queue_core_def totals_ok_def s1_def elim: under_cap_mono)
  moreover have l: "key_line_ok s k'" for k' using c by (simp add: queue_core_def)
  have "key_line_ok s1 k'" for k' using l [of k'] nk
    by (cases "k' = k") (auto simp: key_line_ok_def startable_def ent fresh_entry_def s1_def)
  moreover have b: "key_bounds_ok s k'" and f: "key_fifo_ok s k'" for k' using c by (simp_all add: queue_core_def)
  have "key_bounds_ok s1 k'" for k' using b [of k'] q q0
    by (cases "k' = k") (auto simp: key_bounds_ok_def ent fresh_entry_def s1_def)
  moreover have "key_fifo_ok s1 k'" for k' using f [of k'] q q0
    by (cases "k' = k") (auto simp: key_fifo_ok_def ent fresh_entry_def s1_def)
  moreover have "all_ready {} s1" using r by (auto simp: all_ready_def startable_def ent fresh_entry_def) (simp add: s1_def)
  moreover have "all_live {} s1" using v by (auto simp: all_live_def s1_def split: if_splits)
  moreover have "line_waits s1" using w by (simp add: line_waits_def s1_def)
  ultimately show ?thesis by (simp add: queue_inv_def queue_core_def e s1_def)
qed

lemma reject_inv:
  assumes i: "queue_inv s"
  shows "queue_core (reject_waiting k s) \<and> all_ready {} (reject_waiting k s) \<and>
    all_live {k} (reject_waiting k s) \<and> line_waits (reject_waiting k s) \<and> tq_opts (reject_waiting k s) = tq_opts s"
proof (cases "jm_get (tq_queues s) k")
  case None
  then have "reject_waiting k s = s" by (simp add: reject_waiting_def unmark_ready_def Let_def)
  moreover have "all_live {k} s" using i by (simp add: queue_inv_def all_live_def)
  ultimately show ?thesis using i by (simp add: queue_inv_def)
next
  case (Some q0)
  define u where "u = unmark_ready k s"
  have c: "queue_core u" unfolding u_def by (rule core_unmark_ready) (use i in \<open>simp add: queue_inv_def\<close>)
  obtain q where g: "jm_get (tq_queues u) k = Some q" using Some by (cases "te_in_line q0") (auto simp: u_def unmark_ready_def)
  have q: "entry_of u k = q" by (rule get_entry_of [OF g])
  have d: "distinct (tq_line s)" and kl: "key_line_ok s k" using i by (simp_all add: queue_inv_def queue_core_def totals_ok_def)
  have lu: "set (tq_line u) = set (tq_line s) - {k}"
    using d kl Some by (auto simp: u_def unmark_ready_def key_line_ok_def get_entry_of)
  define s1 where "s1 = put_entry k (q\<lparr>te_items := []\<rparr>) (u\<lparr>tq_pending := tq_pending u - length (te_items q),
             tq_cleared := tq_cleared u @ map (Pair k) (te_items q)\<rparr>)"
  have e: "reject_waiting k s = s1"
    by (simp add: reject_waiting_def s1_def Let_def g flip: u_def)
  have w: "waiting_total s1 + length (te_items q) = waiting_total u"
    using waiting_put_entry [of k "q\<lparr>te_items := []\<rparr>" "u\<lparr>tq_pending := tq_pending u - length (te_items q),
             tq_cleared := tq_cleared u @ map (Pair k) (te_items q)\<rparr>"] g by (simp add: s1_def)
  have ut: "totals_ok u" using c by (simp add: queue_core_def)
  moreover have "tq_pending s1 = waiting_total s1" using ut w by (simp add: totals_ok_def s1_def)
  moreover have "tq_pending s1 \<le> tq_pending u" by (simp add: s1_def)
  ultimately have "totals_ok s1"
    by (auto simp: totals_ok_def s1_def size_put_same [OF g] elim: under_cap_mono)
  moreover have l: "key_line_ok u k'" and b: "key_bounds_ok u k'" and f: "key_fifo_ok u k'" for k'
    using c by (simp_all add: queue_core_def)
  have nk: "\<not> te_in_line q" using l [of k] lu q by (auto simp: key_line_ok_def)
  have "key_line_ok s1 k'" for k' using l [of k'] nk lu by (auto simp: key_line_ok_def startable_def s1_def)
  moreover have "key_bounds_ok s1 k'" for k' using b [of k'] q
    by (cases "k' = k") (auto simp: key_bounds_ok_def s1_def elim: under_cap_mono)
  moreover have "key_fifo_ok s1 k'" for k' using f [of k'] q
    by (cases "k' = k") (auto simp: key_fifo_ok_def s1_def intro: subseq_order.trans)
  ultimately have "queue_core s1" by (simp add: queue_core_def)
  moreover have "entry_of u k' = entry_of s k'" if "k' \<noteq> k" for k'
    using that by (simp add: u_def unmark_ready_def split: option.split)
  then have "all_ready {} s1" using i lu
    by (auto simp: queue_inv_def all_ready_def startable_def s1_def u_def split: if_splits)
  moreover have "all_live {k} s1" using i Some
    by (auto simp: queue_inv_def all_live_def s1_def u_def unmark_ready_def split: if_splits)
  moreover have "line_waits s1"
  proof -
    have ne: "tq_line s \<noteq> []" if "tq_line u \<noteq> []" using lu that by (cases "tq_line s") simp_all
    have "tq_running u = tq_running s" and "tq_opts u = tq_opts s" by (simp_all add: u_def)
    then show ?thesis using i ne by (simp add: queue_inv_def line_waits_def s1_def)
  qed
  ultimately show ?thesis by (simp add: e s1_def u_def)
qed

lemma inv_clear_one: "queue_inv s \<Longrightarrow> queue_inv (cleanup k (reject_waiting k s)) \<and>
  tq_opts (cleanup k (reject_waiting k s)) = tq_opts s"
  using reject_inv [of s k] core_cleanup [of "reject_waiting k s" k] by simp


lemma inv_clear_all: "queue_inv s \<Longrightarrow> queue_inv (clear_all s) \<and> tq_opts (clear_all s) = tq_opts s"
proof -
  have "queue_inv s \<Longrightarrow> queue_inv (fold (\<lambda>k s. cleanup k (reject_waiting k s)) ks s) \<and>
      tq_opts (fold (\<lambda>k s. cleanup k (reject_waiting k s)) ks s) = tq_opts s" for ks
  proof (induction ks arbitrary: s)
    case (Cons k ks)
    have "queue_inv (cleanup k (reject_waiting k s))" and o: "tq_opts (cleanup k (reject_waiting k s)) = tq_opts s"
      using inv_clear_one [OF Cons.prems] by simp_all
    from Cons.IH [OF this(1)] o show ?case by simp
  qed simp
  then show "queue_inv s \<Longrightarrow> ?thesis" by (simp add: clear_all_def)
qed

lemma inv_log [simp]:
  "queue_inv (s\<lparr>tq_drained := x\<rparr>) \<longleftrightarrow> queue_inv s"
  "queue_inv (s\<lparr>tq_dropped := y\<rparr>) \<longleftrightarrow> queue_inv s"
  "queue_inv (s\<lparr>tq_drop_errors := n\<rparr>) \<longleftrightarrow> queue_inv s"
  by (auto simp: queue_inv_def queue_core_defs all_ready_def all_live_def line_waits_def)

lemma inv_drain: "queue_inv s \<Longrightarrow> queue_inv (drain_key k w s) \<and> tq_opts (drain_key k w s) = tq_opts s"
proof (cases "jm_get (tq_queues s) k")
  case None
  then show "queue_inv s \<Longrightarrow> ?thesis"
    by (simp add: drain_key_def)
next
  case (Some q)
  assume i: "queue_inv s"
  have kl: "key_line_ok s k" and d: "distinct (tq_line s)" and c: "queue_core s"
    using i by (auto simp: queue_inv_def queue_core_def totals_ok_def)
  define s1 where "s1 = put_entry k (q\<lparr>te_drains := te_drains q @ [w]\<rparr>) s"
  have q: "entry_of s k = q" by (rule get_entry_of [OF Some])
  have "queue_core (put_entry k (q\<lparr>te_drains := te_drains q @ [w]\<rparr>) (s\<lparr>tq_line := tq_line s\<rparr>))"
    by (rule core_put_line [OF c Some]) (use kl d q in \<open>simp_all add: key_line_ok_def\<close>)
  then have c1: "queue_core s1" by (simp add: s1_def)
  have "queue_inv s1" using c1 i Some q
    by (auto simp: queue_inv_def all_ready_def startable_def all_live_def line_waits_def s1_def)
  then show ?thesis using Some i by (simp add: drain_key_def s1_def)
qed

lemma inv_shed: "queue_inv s \<Longrightarrow> queue_inv (snd (shed r s)) \<and> tq_opts (snd (shed r s)) = tq_opts s"
  by (simp add: shed_def)

lemma inv_push:
  assumes i: "queue_inv s"
  shows "queue_inv (snd (push_task k t s)) \<and> tq_opts (snd (push_task k t s)) = tq_opts s"
proof (cases "fst (push_task k t s) = PushAccepted")
  case False
  then show ?thesis using i inv_shed [OF i]
    by (auto simp: push_task_def Let_def split: if_splits)
next
  case True
  define q where "q = entry_of s k"
  let ?room = "under_cap (length (te_items q @ [t])) (qo_max_size (tq_opts s)) \<and>
    under_cap (jm_size (jm_set k (q\<lparr>te_items := te_items q @ [t]\<rparr>) (tq_queues s))) (qo_max_keys (tq_opts s)) \<and>
    under_cap (tq_pending s + 1) (qo_max_pending_total (tq_opts s))"
  define s1 where "s1 = (put_entry k (q\<lparr>te_items := te_items q @ [t]\<rparr>) s)\<lparr>
     tq_keys_peak := max (tq_keys_peak s) (jm_size (jm_set k (q\<lparr>te_items := te_items q @ [t]\<rparr>) (tq_queues s))),
     tq_pending := tq_pending s + 1, tq_pending_peak := max (tq_pending_peak s) (tq_pending s + 1),
     tq_accepted := tq_accepted s @ [(k, t)]\<rparr>"
  have qe: "q = (case jm_get (tq_queues s) k of None \<Rightarrow> \<lparr>te_items = [], te_running = 0, te_drains = [], te_in_line = False\<rparr> | Some q \<Rightarrow> q)"
    by (simp add: q_def entry_of_def fresh_entry_def split: option.split)
  have e: "snd (push_task k t s) = schedule k s1"
    using True by (auto simp: push_task_def Let_def shed_def s1_def put_entry_def simp flip: qe split: if_splits)
  have t: "totals_ok s" and l: "key_line_ok s k'" and b: "key_bounds_ok s k'" and f: "key_fifo_ok s k'" for k'
    using i by (simp_all add: queue_inv_def queue_core_def)
  have room: ?room
  proof (cases "jm_get (tq_queues s) k")
    case None
    then show ?thesis using True t qe
      by (auto simp: push_task_def Let_def shed_def length_jm_set totals_ok_def split: if_splits intro: under_cap_Suc)
  next
    case (Some u)
    then show ?thesis using True t qe
      by (auto simp: push_task_def Let_def shed_def length_jm_set totals_ok_def split: if_splits intro: under_cap_Suc)
  qed
  have "waiting_total s1 = waiting_total s + 1"
    using waiting_put_entry [of k "q\<lparr>te_items := te_items q @ [t]\<rparr>" s] qe
    by (auto simp: s1_def split: option.splits)
  then have "totals_ok s1" using t room by (auto simp: totals_ok_def s1_def)
  moreover have "key_line_ok s1 k'" for k' using l [of k'] q_def by (auto simp: key_line_ok_def startable_def s1_def)
  moreover have "key_bounds_ok s1 k'" for k' using b [of k'] q_def room by (auto simp: key_bounds_ok_def s1_def)
  moreover have "key_fifo_ok s1 k'" for k' using f [of k'] q_def
    by (cases "k' = k") (auto simp: key_fifo_ok_def s1_def simp flip: append_assoc)
  ultimately have "queue_core s1" by (simp add: queue_core_def)
  moreover have "all_ready {k} s1" using i by (auto simp: queue_inv_def all_ready_def startable_def s1_def)
  moreover have "all_live {} s1" using i by (auto simp: queue_inv_def all_live_def s1_def)
  moreover have "jm_get (tq_queues s1) k = Some (q\<lparr>te_items := te_items q @ [t]\<rparr>)" by (simp add: s1_def)
  moreover have "tq_opts s1 = tq_opts s" by (simp add: s1_def)
  ultimately show ?thesis using schedule_inv [of s1 k "{}"] by (simp add: e queue_inv_def)
qed

lemma inv_done:
  assumes i: "queue_inv s"
  shows "queue_inv (task_done k t ok s) \<and> tq_opts (task_done k t ok s) = tq_opts s"
proof (cases "(k, t) \<in> set (tq_inflight s)")
  case False
  then show ?thesis using i by (simp add: task_done_def)
next
  case True
  define q where "q = entry_of s k"
  have tt: "totals_ok s" and l: "key_line_ok s k'" and b: "key_bounds_ok s k'" and f: "key_fifo_ok s k'" for k'
    using i by (simp_all add: queue_inv_def queue_core_def)
  have m: "t \<in> set (of_key k (tq_inflight s))" using True by (simp add: mem_of_key)
  then have pos: "0 < te_running q" using b [of k] by (cases "of_key k (tq_inflight s)") (auto simp: key_bounds_ok_def q_def)
  have g: "jm_get (tq_queues s) k = Some q"
    using pos by (auto simp: q_def entry_of_def fresh_entry_def split: option.splits)
  have len: "0 < length (tq_inflight s)" using True by (cases "tq_inflight s") auto
  define s1 where "s1 = put_entry k (q\<lparr>te_running := te_running q - 1\<rparr>)
    (s\<lparr>tq_inflight := remove1 (k, t) (tq_inflight s), tq_running := tq_running s - 1,
       tq_completed := tq_completed s + (if ok then 1 else 0),
       tq_failed := tq_failed s + (if ok then 0 else 1)\<rparr>)"
  have e: "task_done k t ok s = cleanup k (schedule k s1)"
    using True g by (simp add: task_done_def Let_def s1_def)
  have "waiting_total s1 = waiting_total s"
    using waiting_put_same [of "s\<lparr>tq_inflight := remove1 (k, t) (tq_inflight s), tq_running := tq_running s - 1,
       tq_completed := tq_completed s + (if ok then 1 else 0),
       tq_failed := tq_failed s + (if ok then 0 else 1)\<rparr>" k q "q\<lparr>te_running := te_running q - 1\<rparr>"] g
    by (simp add: s1_def)
  then have "totals_ok s1" using tt len True
    by (auto simp: totals_ok_def s1_def size_put_same [OF g] length_remove1 elim: under_cap_mono)
  moreover have "key_line_ok s1 k'" for k' using l [of k'] q_def by (auto simp: key_line_ok_def startable_def s1_def)
  moreover have "key_bounds_ok s1 k'" for k' using b [of k'] q_def m pos
    by (auto simp: key_bounds_ok_def s1_def of_key_remove1 length_remove1)
  moreover have "key_fifo_ok s1 k'" for k' using f [of k'] q_def by (auto simp: key_fifo_ok_def s1_def)
  ultimately have c1: "queue_core s1" by (simp add: queue_core_def)
  have r1: "all_ready {k} s1" using i by (auto simp: queue_inv_def all_ready_def startable_def s1_def)
  have v1: "all_live {k} s1" using i by (auto simp: queue_inv_def all_live_def s1_def)
  have g1: "jm_get (tq_queues s1) k = Some (q\<lparr>te_running := te_running q - 1\<rparr>)" by (simp add: s1_def)
  note s = schedule_inv [OF c1 r1 v1 g1]
  moreover have "tq_opts s1 = tq_opts s" by (simp add: s1_def)
  ultimately show ?thesis using core_cleanup [of "schedule k s1" k] by (simp add: e)
qed

lemma inv_step: "queue_inv s \<Longrightarrow> queue_inv (queue_step s e) \<and> tq_opts (queue_step s e) = tq_opts s"
  by (cases e) (auto simp: inv_push inv_done inv_clear_all inv_drain clear_key_def inv_clear_one)


lemma cap_valid_room: "cap_valid c \<Longrightarrow> \<not> at_cap 0 c \<and> under_cap 0 c \<and> under_cap 1 c"
  by (cases c) auto

definition queue_opts_ok :: "queue_opts \<Rightarrow> bool" where
  "queue_opts_ok opts \<longleftrightarrow> 1 \<le> qo_concurrency opts \<and> cap_valid (qo_max_size opts) \<and> cap_valid (qo_max_keys opts) \<and>
     cap_valid (qo_max_pending_total opts) \<and> cap_valid (qo_max_running_total opts)"

lemma create_queue_ok: "create_queue opts = Inr s \<Longrightarrow> s = new_task_queue opts \<and> queue_opts_ok opts"
  by (auto simp: create_queue_def queue_opts_ok_def split: if_splits)

lemma new_task_queue_inv: "queue_opts_ok opts \<Longrightarrow> queue_inv (new_task_queue opts)"
  using cap_valid_room [of "qo_max_size opts"] cap_valid_room [of "qo_max_keys opts"]
    cap_valid_room [of "qo_max_pending_total opts"] cap_valid_room [of "qo_max_running_total opts"]
  by (simp add: queue_opts_ok_def queue_inv_def queue_core_defs all_ready_def all_live_def line_waits_def
      new_task_queue_def entry_of_def fresh_entry_def waiting_total_def)

interpretation tasks: machine "new_task_queue opts" queue_step
    "\<lambda>s. queue_opts_ok opts \<longrightarrow> queue_inv s \<and> tq_opts s = opts" for opts
  by unfold_locales (auto simp: inv_step new_task_queue_inv, simp add: new_task_queue_def)

lemma run_queue_inv:
  assumes "create_queue opts = Inr s0"
  shows "queue_inv (foldl queue_step s0 es) \<and> tq_opts (foldl queue_step s0 es) = opts"
  using create_queue_ok [OF assms] tasks.run_inv [of opts es] by simp


lemma waiting_total_pos: "0 < waiting_total s \<Longrightarrow> jm_wf (tq_queues s) \<Longrightarrow>
   \<exists>k q. jm_get (tq_queues s) k = Some q \<and> te_items q \<noteq> []"
proof -
  assume p: "0 < waiting_total s" and wf: "jm_wf (tq_queues s)"
  have "\<exists>p\<in>set (tq_queues s). te_items (snd p) \<noteq> []"
  proof (rule ccontr)
    assume "\<not> ?thesis"
    then have "waiting_total s = 0" by (simp add: waiting_total_def)
    then show False using p by simp
  qed
  then show ?thesis using wf by (metis jm_mem_get prod.collapse)
qed

lemma startable_live: "startable s k \<Longrightarrow> k \<in> set (jm_keys (tq_queues s))"
  using jm_get_None [of "tq_queues s" k] by (auto simp: startable_def entry_of_def fresh_entry_def)

lemma inv_line: "queue_inv s \<Longrightarrow> set (tq_line s) = {k. startable s k} \<and> distinct (tq_line s)"
  by (auto simp: queue_inv_def all_ready_def queue_core_def key_line_ok_def totals_ok_def)

section \<open>Properties\<close>

text \<open>Every bound of the queue holds in every state reached by pushes, settlements,
  clears and drains, in any order: tasks in flight, waiting tasks and live keys never exceed
  the aggregate caps, no key exceeds its own caps, every live key has work, and the
  counters agree with the tasks there are.\<close>

theorem queue_bounds:
  assumes "create_queue opts = Inr s0" and "s = foldl queue_step s0 es"
  shows "under_cap (tq_running s) (qo_max_running_total opts) \<and>
    under_cap (tq_pending s) (qo_max_pending_total opts) \<and>
    under_cap (jm_size (tq_queues s)) (qo_max_keys opts) \<and>
    (\<forall>(k, q) \<in> set (tq_queues s). te_running q \<le> qo_concurrency opts \<and>
       under_cap (length (te_items q)) (qo_max_size opts) \<and> (te_items q \<noteq> [] \<or> 0 < te_running q)) \<and>
    tq_pending s = waiting_total s \<and> tq_running s = length (tq_inflight s) \<and>
    length (tq_started s) = tq_running s + tq_completed s + tq_failed s"
proof -
  have i: "queue_inv s" and o: "tq_opts s = opts" using run_queue_inv [OF assms(1), of es] assms(2) by simp_all
  have t: "totals_ok s" and b: "key_bounds_ok s k" for k using i by (simp_all add: queue_inv_def queue_core_def)
  have "te_running q \<le> qo_concurrency opts \<and> under_cap (length (te_items q)) (qo_max_size opts) \<and>
      (te_items q \<noteq> [] \<or> 0 < te_running q)" if "(k, q) \<in> set (tq_queues s)" for k q
  proof -
    have g: "jm_get (tq_queues s) k = Some q" using t that by (simp add: totals_ok_def jm_mem_get)
    then show ?thesis using b [of k] i o get_entry_of [OF g]
      by (simp add: key_bounds_ok_def queue_inv_def all_live_def)
  qed
  then show ?thesis using t o unfolding totals_ok_def by auto
qed

definition sample_queue_opts :: queue_opts where
  "sample_queue_opts = \<lparr>qo_concurrency = 1, qo_max_size = Finite 2, qo_max_keys = Finite 2,
     qo_max_pending_total = Infinity, qo_max_running_total = Finite 1, qo_max_key_length = 4,
     qo_on_drop_throws = False\<rparr>"

lemma sample_queue_created: "create_queue sample_queue_opts = Inr (new_task_queue sample_queue_opts)"
  by (simp add: create_queue_def sample_queue_opts_def)

lemma sample_queue_running: "qo_max_running_total sample_queue_opts = Finite 1"
  by (simp add: sample_queue_opts_def)

theorem queue_bounds_witness:
  "under_cap (tq_running (foldl queue_step (new_task_queue sample_queue_opts)
     [QPush [1] (7::nat), QPush [2] 8, QDone [1] 7 True])) (Finite 1)"
  using queue_bounds [OF sample_queue_created refl, of "[QPush [1] (7::nat), QPush [2] 8, QDone [1] 7 True]"]
  unfolding sample_queue_running by blast

text \<open>C33: Every accepted task of a key is exactly one of started, waiting or cleared, and the
  tasks of a key start in the order they were pushed, whatever the other keys do.\<close>

theorem queue_key_fifo:
  assumes "create_queue opts = Inr s0" and "s = foldl queue_step s0 es"
  shows "subseq (of_key k (tq_started s) @ te_items (entry_of s k)) (of_key k (tq_accepted s)) \<and>
    mset (of_key k (tq_accepted s)) =
      mset (of_key k (tq_started s)) + mset (te_items (entry_of s k)) + mset (of_key k (tq_cleared s))"
proof -
  have "queue_inv s" using run_queue_inv [OF assms(1), of es] assms(2) by simp
  then have "key_fifo_ok s k" by (simp add: queue_inv_def queue_core_def)
  then show ?thesis by (simp add: key_fifo_ok_def ac_simps)
qed

definition sample_queue_run :: "nat task_queue" where
  "sample_queue_run = foldl queue_step (new_task_queue sample_queue_opts) [QPush [1] 7, QPush [1] 8, QDone [1] 7 True]"

theorem queue_key_fifo_witness:
  "subseq (of_key [1] (tq_started sample_queue_run) @ te_items (entry_of sample_queue_run [1]))
     (of_key [1] (tq_accepted sample_queue_run)) \<and> of_key [1] (tq_started sample_queue_run) = [7, 8]"
proof -
  have "of_key [1] (tq_started sample_queue_run) = [7, 8]" by code_simp
  then show ?thesis
    using queue_key_fifo [OF sample_queue_created sample_queue_run_def, of "[1]"] by blast
qed

text \<open>C35: No startable work idles. The service line holds exactly the keys that could start a
  task, each once; it is empty unless the in-flight bound is reached; and as long as tasks wait
  some task is in flight, so the queue never strands accepted work.\<close>

theorem queue_work_conserving:
  assumes "create_queue opts = Inr s0" and "s = foldl queue_step s0 es"
  shows "set (tq_line s) = {k. startable s k} \<and> distinct (tq_line s) \<and>
    length (tq_line s) \<le> jm_size (tq_queues s) \<and>
    (tq_line s \<noteq> [] \<longrightarrow> at_cap (tq_running s) (qo_max_running_total opts)) \<and>
    (0 < tq_pending s \<longrightarrow> 0 < tq_running s)"
proof -
  have i: "queue_inv s" and o: "tq_opts s = opts" using run_queue_inv [OF assms(1), of es] assms(2) by simp_all
  note l = inv_line [OF i]
  have t: "totals_ok s" and b: "key_bounds_ok s k" for k using i by (simp_all add: queue_inv_def queue_core_def)
  have w: "tq_line s \<noteq> [] \<Longrightarrow> at_cap (tq_running s) (qo_max_running_total opts)"
    using i o by (simp add: queue_inv_def line_waits_def)
  have "set (tq_line s) \<subseteq> set (jm_keys (tq_queues s))" using l startable_live by auto
  then have "card (set (tq_line s)) \<le> card (set (jm_keys (tq_queues s)))" by (intro card_mono) simp
  then have len: "length (tq_line s) \<le> jm_size (tq_queues s)"
    using l card_length [of "jm_keys (tq_queues s)"] distinct_card [of "tq_line s"] by simp
  have "0 < tq_running s" if p: "0 < tq_pending s"
  proof (rule ccontr)
    assume "\<not> ?thesis"
    then have r: "tq_running s = 0" by simp
    obtain k q where g: "jm_get (tq_queues s) k = Some q" and ne: "te_items q \<noteq> []"
      using p t waiting_total_pos [of s] by (auto simp: totals_ok_def)
    have "te_running q = 0" using b [of k] t r get_entry_of [OF g] by (simp add: key_bounds_ok_def totals_ok_def)
    then have "startable s k" using get_entry_of [OF g] ne t by (simp add: startable_def totals_ok_def)
    then have "tq_line s \<noteq> []" using l by auto
    from w [OF this] show False using t o r by (simp add: totals_ok_def)
  qed
  then show ?thesis using l len w by blast
qed

theorem queue_work_conserving_witness:
  "0 < tq_pending (foldl queue_step (new_task_queue sample_queue_opts)
     [QPush [1] (7::nat), QPush [1] 8]) \<and>
   0 < tq_running (foldl queue_step (new_task_queue sample_queue_opts)
     [QPush [1] (7::nat), QPush [1] 8])"
proof -
  let ?es = "[QPush [1] (7::nat), QPush [1] 8]"
  have "0 < tq_pending (foldl queue_step (new_task_queue sample_queue_opts) ?es)" by code_simp
  then show ?thesis using queue_work_conserving [OF sample_queue_created refl, of ?es] by blast
qed

end
