(* ===== verification/Lock.thy ===== *)
theory Lock
  imports Prelude "HOL-Library.Sublist" "HOL-Library.Multiset"
begin

text \<open>
  The per-key lock of \<open>src/plugins/lock/server.js\<close>.

  The registry maps a key to a state object, and a running holder keeps a reference to the
  object it was started with, so objects live in a store (\<open>lk_objs\<close>) and are named by their
  index: \<open>clear\<close> empties the registry while holders still point at the old objects. A call
  is a number given in call order. The settling of a running \<open>fn\<close> and the firing of a timer
  are events, in any order.
\<close>

section \<open>State\<close>

record waiter =
  wt_key :: js_string
  wt_call :: nat
  wt_timer :: bool
  wt_cancelled :: bool

record key_state =
  ks_running :: bool
  ks_queue :: "waiter list"

datatype lock_reject = LockTimeout | LockCleared | LockQueueFull | LockTooManyKeys | LockKeyEmpty | LockKeyTooLong

record lock_opts =
  lo_max_keys :: nat
  lo_max_key_length :: nat
  lo_max_waiters :: nat

record lock_reg =
  lk_opts :: lock_opts
  lk_states :: "(js_string, nat) jsmap"
  lk_objs :: "key_state list"
  lk_heads :: "(js_string \<times> nat \<times> nat) list"
  lk_next :: nat
  lk_arrived :: "(js_string \<times> nat) list"
  lk_started :: "(js_string \<times> nat) list"
  lk_gave_up :: "(js_string \<times> nat) list"
  lk_rejected :: "(nat \<times> lock_reject) list"

definition new_lock :: "lock_opts \<Rightarrow> lock_reg" where
  "new_lock opts = \<lparr>lk_opts = opts, lk_states = [], lk_objs = [], lk_heads = [], lk_next = 0,
     lk_arrived = [], lk_started = [], lk_gave_up = [], lk_rejected = []\<rparr>"

definition create_lock :: "lock_opts \<Rightarrow> lock_reg option" where
  "create_lock opts =
     (if lo_max_keys opts < 1 \<or> lo_max_key_length opts < 1 \<or> lo_max_waiters opts < 1 then None
      else Some (new_lock opts))"

section \<open>Operations\<close>

definition run_head :: "js_string \<Rightarrow> nat \<Rightarrow> nat \<Rightarrow> lock_reg \<Rightarrow> lock_reg" where
  "run_head key obj call s = s\<lparr>lk_heads := lk_heads s @ [(key, obj, call)], lk_started := lk_started s @ [(key, call)]\<rparr>"

definition put_queue :: "nat \<Rightarrow> bool \<Rightarrow> waiter list \<Rightarrow> lock_reg \<Rightarrow> lock_reg" where
  "put_queue obj r q s = s\<lparr>lk_objs := (lk_objs s)[obj := \<lparr>ks_running = r, ks_queue = q\<rparr>]\<rparr>"

definition advance :: "js_string \<Rightarrow> nat \<Rightarrow> lock_reg \<Rightarrow> lock_reg" where
  "advance key obj s =
     (let st = lk_objs s ! obj in
      case dropWhile wt_cancelled (ks_queue st) of
        w # rest \<Rightarrow> run_head key obj (wt_call w) (put_queue obj (ks_running st) rest s)
      | [] \<Rightarrow> (put_queue obj False [] s)\<lparr>lk_states := jm_del key (lk_states s)\<rparr>)"

definition lock_reject_call :: "lock_reject \<Rightarrow> lock_reg \<Rightarrow> lock_reg" where
  "lock_reject_call r s = s\<lparr>lk_rejected := lk_rejected s @ [(lk_next s, r)], lk_next := lk_next s + 1\<rparr>"

text \<open>\<open>timed\<close> is whether \<open>maxWaitMs\<close> is given.\<close>

definition with_lock :: "js_string \<Rightarrow> bool \<Rightarrow> lock_reg \<Rightarrow> lock_reg" where
  "with_lock key timed s =
     (let call = lk_next s in
      if key = [] then lock_reject_call LockKeyEmpty s
      else if lo_max_key_length (lk_opts s) < length key then lock_reject_call LockKeyTooLong s
      else case jm_get (lk_states s) key of
        None \<Rightarrow>
          if lo_max_keys (lk_opts s) \<le> jm_size (lk_states s) then lock_reject_call LockTooManyKeys s
          else
            let obj = length (lk_objs s) in
            run_head key obj call
              (s\<lparr>lk_states := jm_set key obj (lk_states s), lk_objs := lk_objs s @ [\<lparr>ks_running = True, ks_queue = []\<rparr>],
                 lk_next := call + 1, lk_arrived := lk_arrived s @ [(key, call)]\<rparr>)
      | Some obj \<Rightarrow>
          let st = lk_objs s ! obj in
          if \<not> ks_running st then
            run_head key obj call (put_queue obj True (ks_queue st)
              (s\<lparr>lk_next := call + 1, lk_arrived := lk_arrived s @ [(key, call)]\<rparr>))
          else if lo_max_waiters (lk_opts s) \<le> length (ks_queue st) then lock_reject_call LockQueueFull s
          else put_queue obj True (ks_queue st @ [\<lparr>wt_key = key, wt_call = call, wt_timer = timed, wt_cancelled = False\<rparr>])
              (s\<lparr>lk_next := call + 1, lk_arrived := lk_arrived s @ [(key, call)]\<rparr>))"

definition settle :: "js_string \<Rightarrow> nat \<Rightarrow> nat \<Rightarrow> lock_reg \<Rightarrow> lock_reg" where
  "settle key obj call s =
     (if (key, obj, call) \<in> set (lk_heads s)
      then advance key obj (s\<lparr>lk_heads := remove1 (key, obj, call) (lk_heads s)\<rparr>) else s)"

definition cancel_waiter :: "waiter \<Rightarrow> waiter" where
  "cancel_waiter w = w\<lparr>wt_cancelled := True, wt_timer := False\<rparr>"

text \<open>The timer of a waiter queued on object \<open>obj\<close> fires.\<close>

definition timer_fires :: "nat \<Rightarrow> nat \<Rightarrow> lock_reg \<Rightarrow> lock_reg" where
  "timer_fires obj call s =
     (if length (lk_objs s) \<le> obj then s
      else let st = lk_objs s ! obj in
        case find (\<lambda>w. wt_call w = call \<and> wt_timer w \<and> \<not> wt_cancelled w) (ks_queue st) of
          None \<Rightarrow> s
        | Some w \<Rightarrow>
            put_queue obj (ks_running st) (map (\<lambda>w. if wt_call w = call then cancel_waiter w else w) (ks_queue st))
              (s\<lparr>lk_gave_up := lk_gave_up s @ [(wt_key w, call)],
                 lk_rejected := lk_rejected s @ [(call, LockTimeout)]\<rparr>))"

definition lock_held :: "js_string \<Rightarrow> lock_reg \<Rightarrow> bool" where
  "lock_held key s \<longleftrightarrow> jm_has (lk_states s) key"

definition lock_size :: "lock_reg \<Rightarrow> nat" where
  "lock_size s = jm_size (lk_states s)"

definition live_waiters :: "waiter list \<Rightarrow> nat list" where
  "live_waiters q = map wt_call (filter (\<lambda>w. \<not> wt_cancelled w) q)"

definition clear_one :: "js_string \<times> nat \<Rightarrow> lock_reg \<Rightarrow> lock_reg" where
  "clear_one p s =
     (let st = lk_objs s ! snd p; calls = live_waiters (ks_queue st) in
      put_queue (snd p) (ks_running st) (map (\<lambda>w. if wt_cancelled w then w else cancel_waiter w) (ks_queue st))
        (s\<lparr>lk_gave_up := lk_gave_up s @ map (Pair (fst p)) calls,
           lk_rejected := lk_rejected s @ map (\<lambda>c. (c, LockCleared)) calls\<rparr>))"

definition lock_clear :: "lock_reg \<Rightarrow> lock_reg" where
  "lock_clear s = (fold clear_one (lk_states s) s)\<lparr>lk_states := []\<rparr>"

datatype lock_event =
    LWith js_string bool
  | LSettle js_string nat nat
  | LTimer nat nat
  | LClear

fun lock_step :: "lock_reg \<Rightarrow> lock_event \<Rightarrow> lock_reg" where
  "lock_step s (LWith key timed) = with_lock key timed s"
| "lock_step s (LSettle key obj call) = settle key obj call s"
| "lock_step s (LTimer obj call) = timer_fires obj call s"
| "lock_step s LClear = lock_clear s"

section \<open>The invariant\<close>

definition queue_of :: "lock_reg \<Rightarrow> js_string \<Rightarrow> waiter list" where
  "queue_of s k = (case jm_get (lk_states s) k of None \<Rightarrow> [] | Some o1 \<Rightarrow> ks_queue (lk_objs s ! o1))"

text \<open>The shape of the registry and the store, whatever happened.\<close>

definition lock_shape :: "lock_reg \<Rightarrow> bool" where
  "lock_shape s \<longleftrightarrow> jm_wf (lk_states s) \<and> jm_size (lk_states s) \<le> lo_max_keys (lk_opts s) \<and>
     (\<forall>st \<in> set (lk_objs s). length (ks_queue st) \<le> lo_max_waiters (lk_opts s)) \<and>
     (\<forall>k o1. jm_get (lk_states s) k = Some o1 \<longrightarrow> o1 < length (lk_objs s)) \<and>
     (\<forall>h \<in> set (lk_heads s). fst (snd h) < length (lk_objs s))"

text \<open>Without \<open>clear\<close>: one holder per registered key, none elsewhere.\<close>

definition lock_exclusive :: "lock_reg \<Rightarrow> bool" where
  "lock_exclusive s \<longleftrightarrow>
     (\<forall>k k' o1. jm_get (lk_states s) k = Some o1 \<longrightarrow> jm_get (lk_states s) k' = Some o1 \<longrightarrow> k = k') \<and>
     (\<forall>k o1. jm_get (lk_states s) k = Some o1 \<longrightarrow> ks_running (lk_objs s ! o1) \<and> k \<in> fst ` set (lk_heads s)) \<and>
     distinct (map fst (lk_heads s)) \<and>
     (\<forall>k o1 c. (k, o1, c) \<in> set (lk_heads s) \<longrightarrow> jm_get (lk_states s) k = Some o1) \<and>
     (\<forall>o1 < length (lk_objs s). (\<forall>k. jm_get (lk_states s) k \<noteq> Some o1) \<longrightarrow> ks_queue (lk_objs s ! o1) = [])"

definition waiting_ok :: "lock_reg \<Rightarrow> js_string \<Rightarrow> bool" where
  "waiting_ok s k \<longleftrightarrow> distinct (map wt_call (queue_of s k)) \<and>
     (\<forall>w \<in> set (queue_of s k). wt_call w < lk_next s \<and> wt_key w = k) \<and>
     subseq (of_key k (lk_started s) @ live_waiters (queue_of s k)) (of_key k (lk_arrived s)) \<and>
     mset (of_key k (lk_arrived s)) =
       mset (of_key k (lk_started s)) + mset (live_waiters (queue_of s k)) + mset (of_key k (lk_gave_up s))"

definition lock_inv :: "lock_reg \<Rightarrow> bool" where
  "lock_inv s \<longleftrightarrow> lock_shape s \<and> lock_exclusive s \<and> (\<forall>k. waiting_ok s k)"

lemma live_waiters_simps [simp]:
  "live_waiters [] = []"
  "live_waiters (w # q) = (if wt_cancelled w then [] else [wt_call w]) @ live_waiters q"
  "live_waiters (q @ q') = live_waiters q @ live_waiters q'"
  by (auto simp: live_waiters_def)

lemma dropWhile_live: "live_waiters (dropWhile wt_cancelled q) = live_waiters q"
  by (induction q) auto

lemma put_queue_sel [simp]:
  "lk_opts (put_queue b r q s) = lk_opts s" "lk_states (put_queue b r q s) = lk_states s"
  "lk_objs (put_queue b r q s) = (lk_objs s)[b := \<lparr>ks_running = r, ks_queue = q\<rparr>]"
  "lk_heads (put_queue b r q s) = lk_heads s" "lk_next (put_queue b r q s) = lk_next s"
  "lk_arrived (put_queue b r q s) = lk_arrived s" "lk_started (put_queue b r q s) = lk_started s"
  "lk_gave_up (put_queue b r q s) = lk_gave_up s"
  by (simp_all add: put_queue_def)

lemma run_head_sel [simp]:
  "lk_opts (run_head k b c s) = lk_opts s" "lk_states (run_head k b c s) = lk_states s"
  "lk_objs (run_head k b c s) = lk_objs s" "lk_heads (run_head k b c s) = lk_heads s @ [(k, b, c)]"
  "lk_next (run_head k b c s) = lk_next s" "lk_arrived (run_head k b c s) = lk_arrived s"
  "lk_started (run_head k b c s) = lk_started s @ [(k, c)]" "lk_gave_up (run_head k b c s) = lk_gave_up s"
  by (simp_all add: run_head_def)

lemma length_dropWhile_tl: "dropWhile P q = w # rest \<Longrightarrow> length rest \<le> length q"
  using length_dropWhile_le [of P q] by simp

lemma advance_cases:
  obtains (release) "dropWhile wt_cancelled (ks_queue (lk_objs s ! b)) = []"
      "live_waiters (ks_queue (lk_objs s ! b)) = []"
      "advance k b s = (put_queue b False [] s)\<lparr>lk_states := jm_del k (lk_states s)\<rparr>"
  | (promote) w rest where "dropWhile wt_cancelled (ks_queue (lk_objs s ! b)) = w # rest"
      "live_waiters (ks_queue (lk_objs s ! b)) = wt_call w # live_waiters rest"
      "advance k b s = run_head k b (wt_call w) (put_queue b (ks_running (lk_objs s ! b)) rest s)"
proof (cases "dropWhile wt_cancelled (ks_queue (lk_objs s ! b))")
  case Nil
  show ?thesis
    using release [OF Nil] Nil dropWhile_live [of "ks_queue (lk_objs s ! b)"]
    by (simp only: advance_def Let_def list.case live_waiters_simps)
next
  case (Cons w rest)
  have "\<not> wt_cancelled w" using Cons by (simp add: dropWhile_eq_Cons_conv)
  then show ?thesis
    using promote [OF Cons] Cons dropWhile_live [of "ks_queue (lk_objs s ! b)"]
    by (simp add: advance_def Let_def)
qed

lemma shape_advance:
  assumes "lock_shape s" and "b < length (lk_objs s)"
  shows "lock_shape (advance k b s)"
proof -
  have q: "length (ks_queue (lk_objs s ! b)) \<le> lo_max_waiters (lk_opts s)"
    using assms by (simp add: lock_shape_def)
  show ?thesis
  proof (cases rule: advance_cases [of s b k])
    case release
    then show ?thesis
      using assms length_jm_del_le [of k "lk_states s"]
      by (auto simp: lock_shape_def dest!: set_update_subset_insert [THEN subsetD])
  next
    case (promote w rest)
    have "length rest \<le> lo_max_waiters (lk_opts s)" using q length_dropWhile_tl [OF promote(1)] by simp
    then show ?thesis using assms promote(3)
      by (auto simp: lock_shape_def dest!: set_update_subset_insert [THEN subsetD])
  qed
qed

lemma shape_with_lock: "lock_shape s \<Longrightarrow> lock_shape (with_lock k t s)"
  by (auto simp: with_lock_def Let_def lock_shape_def lock_reject_call_def length_jm_set nth_append not_le
      intro: less_SucI dest!: set_update_subset_insert [THEN subsetD] split: option.splits if_splits)

lemma shape_settle: "lock_shape s \<Longrightarrow> lock_shape (settle k b c s)"
proof -
  assume a: "lock_shape s"
  show ?thesis
  proof (cases "(k, b, c) \<in> set (lk_heads s)")
    case True
    then have b: "b < length (lk_objs s)" using a by (auto simp: lock_shape_def)
    have "lock_shape (s\<lparr>lk_heads := remove1 (k, b, c) (lk_heads s)\<rparr>)"
      using a by (auto simp: lock_shape_def dest: notin_set_remove1 set_remove1_subset [THEN subsetD])
    then show ?thesis using True b by (simp add: settle_def shape_advance)
  qed (use a in \<open>simp add: settle_def\<close>)
qed

lemma shape_put_queue:
  "lock_shape s \<Longrightarrow> b < length (lk_objs s) \<Longrightarrow> length q \<le> length (ks_queue (lk_objs s ! b)) \<Longrightarrow> lock_shape (put_queue b r q s)"
proof -
  assume a: "lock_shape s" "b < length (lk_objs s)" "length q \<le> length (ks_queue (lk_objs s ! b))"
  have "length (ks_queue (lk_objs s ! b)) \<le> lo_max_waiters (lk_opts s)" using a by (simp add: lock_shape_def)
  then have "length q \<le> lo_max_waiters (lk_opts s)" using a by simp
  then show ?thesis using a by (auto simp: lock_shape_def dest!: set_update_subset_insert [THEN subsetD])
qed

lemma shape_log [simp]:
  "lock_shape (s\<lparr>lk_gave_up := x, lk_rejected := y\<rparr>) \<longleftrightarrow> lock_shape s"
  by (simp add: lock_shape_def)

lemma shape_timer: "lock_shape s \<Longrightarrow> lock_shape (timer_fires b c s)"
  by (auto simp: timer_fires_def Let_def not_le intro!: shape_put_queue split: option.split)

lemma shape_clear: "lock_shape s \<Longrightarrow> lock_shape (lock_clear s)"
proof -
  have "lock_shape s \<Longrightarrow> \<forall>p \<in> set ps. snd p < length (lk_objs s) \<Longrightarrow> lock_shape (fold clear_one ps s)" for ps
  proof (induction ps arbitrary: s)
    case (Cons p ps)
    have "lock_shape (clear_one p s)" using Cons.prems
      by (auto simp: clear_one_def Let_def intro!: shape_put_queue)
    moreover have "length (lk_objs (clear_one p s)) = length (lk_objs s)" by (simp add: clear_one_def Let_def)
    ultimately show ?case using Cons by simp
  qed simp
  moreover have "lock_shape s \<Longrightarrow> \<forall>p \<in> set (lk_states s). snd p < length (lk_objs s)"
    unfolding lock_shape_def by (metis jm_mem_get prod.collapse)
  moreover have "lock_shape t \<Longrightarrow> lock_shape (t\<lparr>lk_states := []\<rparr>)" for t by (simp add: lock_shape_def)
  ultimately show "lock_shape s \<Longrightarrow> ?thesis" by (simp add: lock_clear_def)
qed

lemma remove1_key:
  "distinct (map fst l) \<Longrightarrow> (k, x) \<in> set l \<Longrightarrow>
   set (remove1 (k, x) l) = {h \<in> set l. fst h \<noteq> k} \<and> distinct (map fst (remove1 (k, x) l))"
proof (induction l)
  case (Cons h l)
  show ?case
  proof (cases "h = (k, x)")
    case True
    then show ?thesis using Cons.prems by force
  next
    case False
    then have m: "(k, x) \<in> set l" using Cons.prems by auto
    then have "fst h \<noteq> k" using Cons.prems(1) by (cases h) force
    then show ?thesis using Cons m False by (auto dest: notin_set_remove1)
  qed
qed simp

lemma queue_of_put:
  "lock_shape s \<Longrightarrow> queue_of (put_queue b r q s) k = (if jm_get (lk_states s) k = Some b then q else queue_of s k)"
  by (auto simp: queue_of_def lock_shape_def split: option.split)

lemma exclusiveD:
  assumes "lock_exclusive s"
  shows "jm_get (lk_states s) k = Some b \<Longrightarrow> jm_get (lk_states s) k' = Some b \<Longrightarrow> k = k'"
    and "jm_get (lk_states s) k = Some b \<Longrightarrow> ks_running (lk_objs s ! b)"
    and "jm_get (lk_states s) k = Some b \<Longrightarrow> k \<in> fst ` set (lk_heads s)"
    and "distinct (map fst (lk_heads s))"
    and "(k, b, c) \<in> set (lk_heads s) \<Longrightarrow> jm_get (lk_states s) k = Some b"
    and "b < length (lk_objs s) \<Longrightarrow> (\<And>k. jm_get (lk_states s) k \<noteq> Some b) \<Longrightarrow> ks_queue (lk_objs s ! b) = []"
  using assms unfolding lock_exclusive_def by blast+

lemma exclusiveI:
  assumes "\<And>k k' b. jm_get (lk_states s) k = Some b \<Longrightarrow> jm_get (lk_states s) k' = Some b \<Longrightarrow> k = k'"
    and "\<And>k b. jm_get (lk_states s) k = Some b \<Longrightarrow> ks_running (lk_objs s ! b)"
    and "\<And>k b. jm_get (lk_states s) k = Some b \<Longrightarrow> k \<in> fst ` set (lk_heads s)"
    and "distinct (map fst (lk_heads s))"
    and "\<And>k b c. (k, b, c) \<in> set (lk_heads s) \<Longrightarrow> jm_get (lk_states s) k = Some b"
    and "\<And>b. b < length (lk_objs s) \<Longrightarrow> (\<And>k. jm_get (lk_states s) k \<noteq> Some b) \<Longrightarrow> ks_queue (lk_objs s ! b) = []"
  shows "lock_exclusive s"
  unfolding lock_exclusive_def using assms by blast

lemma exclusive_settle:
  assumes sh: "lock_shape s" and ex: "lock_exclusive s" and h: "(k, b, c) \<in> set (lk_heads s)"
  shows "lock_exclusive (settle k b c s)"
proof -
  note r = remove1_key [OF exclusiveD(4) [OF ex] h]
  have g: "jm_get (lk_states s) k = Some b" by (rule exclusiveD(5) [OF ex h])
  have b: "b < length (lk_objs s)" using sh g by (auto simp: lock_shape_def)
  note run = exclusiveD(2) [OF ex g]
  have inj: "k' \<noteq> k \<Longrightarrow> jm_get (lk_states s) k' = Some b' \<Longrightarrow> b' \<noteq> b" for k' b' using exclusiveD(1) [OF ex g] by blast
  have heads: "k' \<noteq> k \<Longrightarrow> jm_get (lk_states s) k' = Some b' \<Longrightarrow> k' \<in> fst ` set (remove1 (k, b, c) (lk_heads s))" for k' b'
    using exclusiveD(3) [OF ex, of k' b'] r by force
  let ?s = "s\<lparr>lk_heads := remove1 (k, b, c) (lk_heads s)\<rparr>"
  have e: "settle k b c s = advance k b ?s" using h by (simp add: settle_def)
  show ?thesis
  proof (cases rule: advance_cases [of ?s b k])
    case release
    show ?thesis unfolding e release(3)
    proof (rule exclusiveI, goal_cases)
      case (6 b')
      have "jm_get (lk_states s) k' \<noteq> Some b'" if "b' \<noteq> b" for k' using 6(2) [of k'] g that by (auto split: if_splits)
      then show ?case using 6(1) exclusiveD(6) [OF ex, of b'] b by (cases "b' = b") auto
    qed (use b inj heads r exclusiveD(1,2,5) [OF ex] in \<open>auto simp: nth_list_update split: if_splits\<close>)
  next
    case (promote w rest)
    show ?thesis unfolding e promote(3)
    proof (rule exclusiveI, goal_cases)
      case (3 k' b')
      then show ?case using heads [of k' b'] by (cases "k' = k") (auto simp: image_iff)
    next
      case 4
      then show ?case using r by (auto simp: image_iff)
    next
      case (6 b')
      have "b' \<noteq> b" using 6(2) [of k] g by auto
      then show ?case using 6 exclusiveD(6) [OF ex, of b'] by auto
    qed (use b run g inj r exclusiveD(1,2,5) [OF ex] in \<open>auto simp: nth_list_update\<close>)
  qed
qed

lemma waiting_settle:
  assumes sh: "lock_shape s" and ex: "lock_exclusive s" and w: "\<And>k. waiting_ok s k" and h: "(k, b, c) \<in> set (lk_heads s)"
  shows "waiting_ok (settle k b c s) k'"
proof -
  let ?s = "s\<lparr>lk_heads := remove1 (k, b, c) (lk_heads s)\<rparr>"
  have g: "jm_get (lk_states s) k = Some b" by (rule exclusiveD(5) [OF ex h])
  have b: "b < length (lk_objs s)" using sh g by (auto simp: lock_shape_def)
  have inj: "jm_get (lk_states s) j = Some b \<Longrightarrow> j = k" for j using exclusiveD(1) [OF ex g] by blast
  have e: "settle k b c s = advance k b ?s" using h by (simp add: settle_def)
  have q: "queue_of s k = ks_queue (lk_objs s ! b)" by (simp add: queue_of_def g)
  note wk = w [of k'] w [of k]
  show ?thesis
  proof (cases rule: advance_cases [of ?s b k])
    case release
    have "queue_of (advance k b ?s) j = (if j = k then [] else queue_of s j)" for j
      unfolding release(3) using inj [of j] sh b by (auto simp: queue_of_def lock_shape_def nth_list_update split: option.split)
    moreover have "live_waiters (queue_of s k) = []" using release(2) q by simp
    moreover have "lk_started (advance k b ?s) = lk_started s" "lk_arrived (advance k b ?s) = lk_arrived s"
      "lk_gave_up (advance k b ?s) = lk_gave_up s" by (simp_all add: release(3))
    ultimately show ?thesis using wk unfolding e
      by (cases "k' = k") (simp_all add: waiting_ok_def release(3))
  next
    case (promote u rest)
    have qu: "queue_of (advance k b ?s) j = (if j = k then rest else queue_of s j)" for j
    proof -
      have "queue_of (advance k b ?s) j = queue_of (put_queue b (ks_running (lk_objs ?s ! b)) rest s) j"
        by (simp add: promote(3) queue_of_def split: option.split)
      moreover have "jm_get (lk_states s) j = Some b \<longleftrightarrow> j = k" using inj [of j] g by blast
      ultimately show ?thesis by (simp add: queue_of_put [OF sh])
    qed
    have "dropWhile wt_cancelled (ks_queue (lk_objs s ! b)) = u # rest" using promote(1) by simp
    then obtain pre where pre: "ks_queue (lk_objs s ! b) = pre @ u # rest" by (metis takeWhile_dropWhile_id)
    have l: "live_waiters (ks_queue (lk_objs s ! b)) = wt_call u # live_waiters rest" using promote(2) by simp
    show ?thesis
    proof (cases "k' = k")
      case True
      have lq: "live_waiters (queue_of s k) = wt_call u # live_waiters rest" using l q by simp
      have f: "subseq (of_key k (lk_started s) @ wt_call u # live_waiters rest) (of_key k (lk_arrived s)) \<and>
          mset (of_key k (lk_arrived s)) =
            mset (of_key k (lk_started s)) + mset (wt_call u # live_waiters rest) + mset (of_key k (lk_gave_up s))"
        using w [of k] unfolding waiting_ok_def lq by blast
      have m: "distinct (map wt_call rest) \<and> (\<forall>w \<in> set rest. wt_call w < lk_next s \<and> wt_key w = k)"
        using w [of k] unfolding waiting_ok_def q pre by simp
      have qk: "queue_of (advance k b ?s) k = rest" using qu [of k] by simp
      show ?thesis using f m unfolding e True waiting_ok_def qk by (simp add: promote(3))
    next
      case False
      then show ?thesis using w [of k'] promote(3) qu by (simp add: e waiting_ok_def)
    qed
  qed
qed

lemma exclusive_put_queue:
  assumes sh: "lock_shape s" and ex: "lock_exclusive s" and g: "jm_get (lk_states s) k = Some b"
  shows "lock_exclusive (put_queue b True q s)"
proof -
  have b: "b < length (lk_objs s)" using sh g by (auto simp: lock_shape_def)
  show ?thesis
  proof (rule exclusiveI, goal_cases)
    case (6 b')
    have "b' \<noteq> b" using 6(2) [of k] g by auto
    then show ?case using 6 exclusiveD(6) [OF ex, of b'] by auto
  qed (use b exclusiveD [OF ex] in \<open>auto simp: nth_list_update\<close>)
qed

lemma exclusive_log [simp]:
  "lock_exclusive (s\<lparr>lk_gave_up := x\<rparr>) = lock_exclusive s"
  "lock_exclusive (s\<lparr>lk_rejected := y\<rparr>) = lock_exclusive s"
  "lock_exclusive (s\<lparr>lk_next := n\<rparr>) = lock_exclusive s"
  "lock_exclusive (s\<lparr>lk_arrived := a\<rparr>) = lock_exclusive s"
  by (simp_all add: lock_exclusive_def)

lemma shape_log' [simp]:
  "lock_shape (s\<lparr>lk_gave_up := x\<rparr>) = lock_shape s"
  "lock_shape (s\<lparr>lk_rejected := y\<rparr>) = lock_shape s"
  "lock_shape (s\<lparr>lk_next := n\<rparr>) = lock_shape s"
  "lock_shape (s\<lparr>lk_arrived := a\<rparr>) = lock_shape s"
  by (simp_all add: lock_shape_def)

lemma queue_of_log [simp]:
  "queue_of (s\<lparr>lk_gave_up := x\<rparr>) k = queue_of s k"
  "queue_of (s\<lparr>lk_rejected := y\<rparr>) k = queue_of s k"
  "queue_of (s\<lparr>lk_next := n\<rparr>) k = queue_of s k"
  "queue_of (s\<lparr>lk_arrived := a\<rparr>) k = queue_of s k"
  by (simp_all add: queue_of_def split: option.split)

lemma subseq_remove1: "subseq (remove1 x xs) xs"
  by (induction xs) auto

lemma live_cancel:
  assumes "distinct (map wt_call q)" and "w \<in> set q" and "\<not> wt_cancelled w"
  shows "live_waiters (map (\<lambda>v. if wt_call v = wt_call w then cancel_waiter v else v) q) = remove1 (wt_call w) (live_waiters q)"
  using assms
proof (induction q)
  case (Cons v q)
  show ?case
  proof (cases "v = w")
    case True
    have "map (\<lambda>v. if wt_call v = wt_call w then cancel_waiter v else v) q = q"
    proof (rule map_idI)
      fix x assume "x \<in> set q"
      then have "wt_call x \<noteq> wt_call w" using Cons.prems(1) True by (metis distinct.simps(2) image_eqI image_set list.simps(9))
      then show "(if wt_call x = wt_call w then cancel_waiter x else x) = x" by simp
    qed
    then show ?thesis using True Cons.prems by (simp add: cancel_waiter_def)
  next
    case False
    then have "wt_call v \<noteq> wt_call w" using Cons.prems by auto
    then show ?thesis using Cons False by (simp add: cancel_waiter_def)
  qed
qed simp

lemma live_waiters_mem: "w \<in> set q \<Longrightarrow> \<not> wt_cancelled w \<Longrightarrow> wt_call w \<in> set (live_waiters q)"
  by (auto simp: live_waiters_def)

lemma inv_timer:
  assumes i: "lock_inv s"
  shows "lock_inv (timer_fires b c s)"
proof (cases "b < length (lk_objs s) \<and> find (\<lambda>w. wt_call w = c \<and> wt_timer w \<and> \<not> wt_cancelled w) (ks_queue (lk_objs s ! b)) \<noteq> None")
  case False
  then have "timer_fires b c s = s" by (auto simp: timer_fires_def Let_def)
  then show ?thesis using i by simp
next
  case True
  have sh: "lock_shape s" and ex: "lock_exclusive s" and wt: "waiting_ok s k" for k using i by (simp_all add: lock_inv_def)
  obtain w where f: "find (\<lambda>w. wt_call w = c \<and> wt_timer w \<and> \<not> wt_cancelled w) (ks_queue (lk_objs s ! b)) = Some w"
    using True by auto
  have w: "w \<in> set (ks_queue (lk_objs s ! b))" "wt_call w = c" "\<not> wt_cancelled w"
    using f by (auto simp: find_Some_iff in_set_conv_nth)
  obtain k where g: "jm_get (lk_states s) k = Some b" using exclusiveD(6) [OF ex, of b] True w(1) by fastforce
  have q: "queue_of s k = ks_queue (lk_objs s ! b)" by (simp add: queue_of_def g)
  have k: "wt_key w = k" using wt [of k] w(1) q by (auto simp: waiting_ok_def)
  let ?q = "map (\<lambda>w. if wt_call w = c then cancel_waiter w else w) (ks_queue (lk_objs s ! b))"
  let ?s = "s\<lparr>lk_gave_up := lk_gave_up s @ [(k, c)], lk_rejected := lk_rejected s @ [(c, LockTimeout)]\<rparr>"
  have e: "timer_fires b c s = put_queue b True ?q ?s"
    using True f exclusiveD(2) [OF ex g] k by (simp add: timer_fires_def Let_def)
  have qs: "queue_of (put_queue b True ?q ?s) j = (if j = k then ?q else queue_of s j)" for j
  proof -
    have "jm_get (lk_states s) j = Some b \<longleftrightarrow> j = k" using exclusiveD(1) [OF ex g, of j] g by blast
    then show ?thesis using queue_of_put [of ?s b True ?q j] sh by simp
  qed
  have lv: "live_waiters ?q = remove1 c (live_waiters (queue_of s k))"
    using live_cancel [of "ks_queue (lk_objs s ! b)" w] wt [of k] w q by (simp add: waiting_ok_def)
  have cm: "c \<in> set (live_waiters (queue_of s k))" using live_waiters_mem [OF w(1,3)] w(2) q by simp
  have "waiting_ok (put_queue b True ?q ?s) j" for j
  proof (cases "j = k")
    case False
    then show ?thesis using wt [of j] qs [of j] by (simp add: waiting_ok_def)
  next
    case True
    have cs: "map wt_call ?q = map wt_call (queue_of s k)" by (simp add: q cancel_waiter_def)
    have ks: "\<forall>w \<in> set ?q. wt_call w < lk_next s \<and> wt_key w = k"
      using wt [of k] by (auto simp: waiting_ok_def q cancel_waiter_def)
    have "subseq (of_key k (lk_started s) @ remove1 c (live_waiters (queue_of s k))) (of_key k (lk_started s) @ live_waiters (queue_of s k))"
      by (simp add: subseq_append' subseq_remove1)
    then have "subseq (of_key k (lk_started s) @ live_waiters ?q) (of_key k (lk_arrived s))"
      using wt [of k] unfolding lv waiting_ok_def by (meson subseq_order.trans)
    moreover have "add_mset c (mset (live_waiters ?q)) = mset (live_waiters (queue_of s k))"
      using cm by (simp add: lv)
    then have "mset (of_key k (lk_arrived s)) = mset (of_key k (lk_started s)) + add_mset c (mset (live_waiters ?q)) + mset (of_key k (lk_gave_up s))"
      using wt [of k] by (simp add: waiting_ok_def)
    moreover have "distinct (map wt_call ?q)" using wt [of k] unfolding cs waiting_ok_def by blast
    moreover have "queue_of (put_queue b True ?q ?s) k = ?q" using qs [of k] by simp
    moreover obtain Q where Q: "Q = ?q" by simp
    ultimately show ?thesis using ks unfolding True waiting_ok_def Q [symmetric] by simp
  qed
  moreover have "lock_shape (put_queue b True ?q ?s)" using sh True by (intro shape_put_queue) simp_all
  moreover have "lock_exclusive (put_queue b True ?q ?s)" using sh ex g by (intro exclusive_put_queue) simp_all
  ultimately show ?thesis by (simp add: e lock_inv_def)
qed

lemma waiting_next: "waiting_ok s k \<Longrightarrow> lk_next s \<le> n \<Longrightarrow> waiting_ok (s\<lparr>lk_next := n, lk_rejected := r\<rparr>) k"
  by (auto simp: waiting_ok_def)

lemma inv_reject: "lock_inv s \<Longrightarrow> lock_inv (lock_reject_call r s)"
  using waiting_next [of s _ "lk_next s + 1"] 
  by (auto simp: lock_inv_def lock_reject_call_def waiting_ok_def)

lemma inv_with_lock:
  assumes i: "lock_inv s"
  shows "lock_inv (with_lock k t s)"
proof (cases "k = [] \<or> lo_max_key_length (lk_opts s) < length k")
  case True
  then show ?thesis using inv_reject [OF i] by (auto simp: with_lock_def Let_def)
next
  case ok: False
  have sh: "lock_shape s" and ex: "lock_exclusive s" and wt: "waiting_ok s j" for j using i by (simp_all add: lock_inv_def)
  show ?thesis
  proof (cases "jm_get (lk_states s) k")
    case None
    show ?thesis
    proof (cases "lo_max_keys (lk_opts s) \<le> jm_size (lk_states s)")
      case True
      then show ?thesis using ok None inv_reject [OF i] by (simp add: with_lock_def)
    next
      case False
      let ?b = "length (lk_objs s)"
      let ?s = "with_lock k t s"
      have e: "?s = run_head k ?b (lk_next s) (s\<lparr>lk_states := jm_set k ?b (lk_states s), lk_objs := lk_objs s @ [\<lparr>ks_running = True, ks_queue = []\<rparr>],
                 lk_next := lk_next s + 1, lk_arrived := lk_arrived s @ [(k, lk_next s)]\<rparr>)"
        using ok None False by (simp add: with_lock_def Let_def)
      have lt: "jm_get (lk_states s) j = Some b \<Longrightarrow> b < ?b" for j b using sh by (auto simp: lock_shape_def)
      have nk: "(k, b, c) \<notin> set (lk_heads s)" for b c using exclusiveD(5) [OF ex, of k b c] None by auto
      have "lock_exclusive ?s" unfolding e
      proof (rule exclusiveI, goal_cases)
        case (1 j j' b)
        then show ?case using lt [of j b] lt [of j' b] exclusiveD(1) [OF ex, of j b j'] by (auto split: if_splits)
      next
        case (2 j b)
        then show ?case using lt [of j b] exclusiveD(2) [OF ex, of j b] by (auto simp: nth_append split: if_splits)
      next
        case (3 j b)
        then show ?case using exclusiveD(3) [OF ex, of j b] by (auto split: if_splits)
      next
        case 4
        then show ?case using nk exclusiveD(4) [OF ex] by (auto simp: image_iff)
      next
        case (5 j b c)
        then show ?case using nk exclusiveD(5) [OF ex, of j b c] by auto
      next
        case (6 b)
        have "jm_get (lk_states s) j \<noteq> Some b" for j using 6(2) [of j] None by (auto split: if_splits)
        then show ?case using 6(1) exclusiveD(6) [OF ex, of b] by (auto simp: nth_append less_Suc_eq)
      qed
      moreover have qs: "queue_of ?s j = (if j = k then [] else queue_of s j)" for j
        using lt [of j] by (auto simp: e queue_of_def nth_append split: option.split)
      have q0: "queue_of s k = []" by (simp add: queue_of_def None)
      have "waiting_ok ?s j" for j
      proof (cases "j = k")
        case True
        then show ?thesis using wt [of k] qs [of k] unfolding waiting_ok_def q0 by (simp add: e)
      next
        case False
        then have "queue_of ?s j = queue_of s j" using qs by simp
        then show ?thesis using wt [of j] False unfolding waiting_ok_def by (auto simp: e)
      qed
      ultimately show ?thesis using shape_with_lock [OF sh] by (simp add: lock_inv_def)
    qed
  next
    case (Some b)
    have r: "ks_running (lk_objs s ! b)" by (rule exclusiveD(2) [OF ex Some])
    have q: "queue_of s k = ks_queue (lk_objs s ! b)" by (simp add: queue_of_def Some)
    show ?thesis
    proof (cases "lo_max_waiters (lk_opts s) \<le> length (ks_queue (lk_objs s ! b))")
      case True
      then show ?thesis using ok Some r inv_reject [OF i] by (simp add: with_lock_def Let_def)
    next
      case False
      let ?w = "\<lparr>wt_key = k, wt_call = lk_next s, wt_timer = t, wt_cancelled = False\<rparr>"
      let ?base = "s\<lparr>lk_next := lk_next s + 1, lk_arrived := lk_arrived s @ [(k, lk_next s)]\<rparr>"
      let ?s = "with_lock k t s"
      have e: "?s = put_queue b True (queue_of s k @ [?w]) ?base"
        using ok Some False r by (simp add: with_lock_def Let_def q)
      have "lock_exclusive ?s" unfolding e by (rule exclusive_put_queue) (use sh ex Some in simp_all)
      moreover have qs: "queue_of ?s j = (if j = k then queue_of s k @ [?w] else queue_of s j)" for j
      proof -
        have "jm_get (lk_states s) j = Some b \<longleftrightarrow> j = k" using exclusiveD(1) [OF ex Some, of j] Some by blast
        then show ?thesis unfolding e using queue_of_put [of ?base b True "queue_of s k @ [?w]" j] sh by simp
      qed
      have "waiting_ok ?s j" for j
      proof (cases "j = k")
        case False
        then show ?thesis using wt [of j] qs [of j] by (auto simp: e waiting_ok_def)
      next
        case True
        have "queue_of ?s k = queue_of s k @ [?w]" using qs by simp
        moreover have "lk_next s \<notin> wt_call ` set (queue_of s k)" using wt [of k] by (auto simp: waiting_ok_def)
        ultimately show ?thesis using wt [of k] unfolding True waiting_ok_def
          by (auto simp: e simp flip: append_assoc)
      qed
      ultimately show ?thesis using shape_with_lock [OF sh] by (simp add: lock_inv_def)
    qed
  qed
qed

lemma inv_settle: "lock_inv s \<Longrightarrow> lock_inv (settle k b c s)"
proof (cases "(k, b, c) \<in> set (lk_heads s)")
  case True
  then show "lock_inv s \<Longrightarrow> ?thesis"
    by (simp add: lock_inv_def shape_settle exclusive_settle waiting_settle)
qed (simp add: settle_def)

lemma inv_step_no_clear: "lock_inv s \<Longrightarrow> e \<noteq> LClear \<Longrightarrow> lock_inv (lock_step s e)"
  by (cases e) (auto simp: inv_with_lock inv_settle inv_timer)

lemma shape_step: "lock_shape s \<Longrightarrow> lock_shape (lock_step s e)"
  by (cases e) (auto simp: shape_with_lock shape_settle shape_timer shape_clear)

lemma lock_inv_new: "lock_inv (new_lock opts)"
  by (simp add: lock_inv_def lock_shape_def lock_exclusive_def waiting_ok_def new_lock_def queue_of_def)

lemma opts_clear_fold: "lk_opts (fold clear_one ps s) = lk_opts s"
  by (induction ps arbitrary: s) (auto simp: clear_one_def Let_def)

lemma opts_lock_step: "lk_opts (lock_step s e) = lk_opts s"
proof (cases e)
  case (LWith k t)
  then show ?thesis by (simp add: with_lock_def Let_def lock_reject_call_def split: option.split)
next
  case (LSettle k b c)
  have "lk_opts (advance k b t) = lk_opts t" for t
    by (cases rule: advance_cases [of t b k]) simp_all
  then show ?thesis using LSettle by (simp add: settle_def)
next
  case (LTimer b c)
  then show ?thesis by (simp add: timer_fires_def Let_def split: option.split)
next
  case LClear
  then show ?thesis by (simp add: lock_clear_def opts_clear_fold)
qed

text \<open>Every run keeps the shape; a run without \<open>clear\<close> keeps the whole invariant.\<close>

interpretation lock_shapes: machine "new_lock opts" lock_step "\<lambda>s. lock_shape s \<and> lk_opts s = opts" for opts
  using lock_inv_new [of opts]
  by unfold_locales (auto simp: lock_inv_def shape_step opts_lock_step, simp add: new_lock_def)

interpretation locks: machine "new_lock opts" "\<lambda>s e. if e = LClear then s else lock_step s e" lock_inv for opts
  by unfold_locales (auto simp: lock_inv_new inv_step_no_clear)

lemma lock_run_inv: "LClear \<notin> set es \<Longrightarrow> lock_inv (foldl lock_step (new_lock opts) es)"
proof -
  have "LClear \<notin> set es \<Longrightarrow> foldl lock_step s es = foldl (\<lambda>s e. if e = LClear then s else lock_step s e) s es" for s
    by (induction es arbitrary: s) auto
  then show "LClear \<notin> set es \<Longrightarrow> ?thesis" using locks.run_inv [of opts es] by simp
qed

lemma create_lock_new: "create_lock opts = Some s \<Longrightarrow> s = new_lock opts"
  by (simp add: create_lock_def split: if_splits)

section \<open>Properties\<close>

text \<open>C25: Mutual exclusion. However calls, settlements and timeouts interleave, as long as
  \<open>clear\<close> is not called no key ever has two holders, and a key is registered exactly while
  some call holds it.\<close>

theorem lock_mutual_exclusion:
  assumes "create_lock opts = Some s0" and "LClear \<notin> set es" and "s = foldl lock_step s0 es"
  shows "distinct (map fst (lk_heads s)) \<and> (\<forall>key. lock_held key s \<longleftrightarrow> key \<in> fst ` set (lk_heads s))"
proof -
  have i: "lock_exclusive s"
    using lock_run_inv [OF assms(2), of opts] create_lock_new [OF assms(1)] assms(3) by (simp add: lock_inv_def)
  have "lock_held key s \<longleftrightarrow> key \<in> fst ` set (lk_heads s)" for key
    using exclusiveD(3) [OF i, of key] exclusiveD(5) [OF i, of key] by (force simp: lock_held_def jm_has_get)
  then show ?thesis using exclusiveD(4) [OF i] by blast
qed

definition sample_lock_opts :: lock_opts where
  "sample_lock_opts = \<lparr>lo_max_keys = 2, lo_max_key_length = 8, lo_max_waiters = 2\<rparr>"

definition sample_lock_run :: "lock_event list" where
  "sample_lock_run = [LWith [1] False, LWith [1] True, LWith [2] False, LWith [1] False, LTimer 0 1, LSettle [1] 0 0]"

lemma sample_lock_created: "create_lock sample_lock_opts = Some (new_lock sample_lock_opts)"
  by (simp add: create_lock_def sample_lock_opts_def)

lemma sample_lock_no_clear: "LClear \<notin> set sample_lock_run"
  by (simp add: sample_lock_run_def)

theorem lock_mutual_exclusion_witness:
  "lk_heads (foldl lock_step (new_lock sample_lock_opts) sample_lock_run) = [([2], 1, 2), ([1], 0, 3)] \<and>
   distinct (map fst (lk_heads (foldl lock_step (new_lock sample_lock_opts) sample_lock_run)))"
proof -
  have "lk_heads (foldl lock_step (new_lock sample_lock_opts) sample_lock_run) = [([2], 1, 2), ([1], 0, 3)]"
    by code_simp
  then show ?thesis
    using lock_mutual_exclusion [OF sample_lock_created sample_lock_no_clear refl] by blast
qed

text \<open>Callers of a key run in arrival order, and every accepted call is exactly one of
  started, still waiting, or given up by its timeout: a timeout never blocks, reorders or loses
  the callers behind it.\<close>

theorem lock_fifo:
  assumes "create_lock opts = Some s0" and "LClear \<notin> set es" and "s = foldl lock_step s0 es"
  shows "subseq (of_key key (lk_started s) @ live_waiters (queue_of s key)) (of_key key (lk_arrived s)) \<and>
    mset (of_key key (lk_arrived s)) = mset (of_key key (lk_started s)) +
      mset (live_waiters (queue_of s key)) + mset (of_key key (lk_gave_up s)) \<and>
    (queue_of s key \<noteq> [] \<longrightarrow> key \<in> fst ` set (lk_heads s))"
proof -
  have i: "lock_exclusive s" "waiting_ok s key"
    using lock_run_inv [OF assms(2), of opts] create_lock_new [OF assms(1)] assms(3) by (simp_all add: lock_inv_def)
  have "queue_of s key \<noteq> [] \<Longrightarrow> key \<in> fst ` set (lk_heads s)"
    using exclusiveD(3) [OF i(1), of key] by (auto simp: queue_of_def split: option.splits)
  then show ?thesis using i(2) unfolding waiting_ok_def by blast
qed

theorem lock_fifo_witness:
  "of_key [1] (lk_started (foldl lock_step (new_lock sample_lock_opts) sample_lock_run)) = [0, 3] \<and>
   mset (of_key [1] (lk_arrived (foldl lock_step (new_lock sample_lock_opts) sample_lock_run))) = {#0, 3, 1#}"
proof -
  let ?s = "foldl lock_step (new_lock sample_lock_opts) sample_lock_run"
  have "of_key [1] (lk_started ?s) = [0, 3]" and "live_waiters (queue_of ?s [1]) = []"
    and "of_key [1] (lk_gave_up ?s) = [1]" by code_simp+
  then show ?thesis using lock_fifo [OF sample_lock_created sample_lock_no_clear refl, of "[1]"] by simp
qed

text \<open>The registry never exceeds \<open>maxKeys\<close> and no key ever queues more than
  \<open>maxWaitersPerKey\<close> callers, timed-out ones included, in any run, \<open>clear\<close> included.\<close>

theorem lock_bounds:
  assumes "create_lock opts = Some s0" and "s = foldl lock_step s0 es"
  shows "lock_size s \<le> lo_max_keys opts \<and> (\<forall>st \<in> set (lk_objs s). length (ks_queue st) \<le> lo_max_waiters opts)"
proof -
  have "lock_shape s \<and> lk_opts s = opts"
    using lock_shapes.run_inv [of opts es] create_lock_new [OF assms(1)] assms(2) by simp
  then show ?thesis by (auto simp: lock_shape_def lock_size_def)
qed

theorem lock_bounds_witness:
  "lock_size (foldl lock_step (new_lock sample_lock_opts) (LClear # sample_lock_run)) \<le> 2"
  using lock_bounds [OF sample_lock_created refl, of "LClear # sample_lock_run"]
  by (simp add: sample_lock_opts_def)

text \<open>After \<open>clear\<close>, the holder it left running unregisters the key of the next holder when
  it settles: a third call then runs beside the second, although the first is long done. The
  source says the late \<open>advance\<close> is a no-op.\<close>

theorem lock_clear_admits_two_holders:
  "lk_heads (foldl lock_step (new_lock sample_lock_opts)
     [LWith [1] False, LClear, LWith [1] False, LSettle [1] 0 0, LWith [1] False]) =
   [([1], 1, 1), ([1], 2, 2)]"
  by code_simp

end
