(* ===== verification/Replay.thy ===== *)
theory Replay
  imports Wire_Value
begin

text \<open>
  The replay buffer of \<open>src/plugins/replay/server.js\<close>: a sequence counter and a ring of the
  last messages per topic, with least-recently-used eviction of topics.

  \<open>rt_hist\<close> logs every call of \<open>publish\<close> for a topic since its state was created, with the payload it
  was given; the code keeps only the ring. Payloads are the values of \<open>Wire_Value\<close>: a payload is copied by
  \<open>structuredClone\<close>, which throws on a function or symbol, and then by way of its JSON text, which throws on a
  bigint. The number handed to \<open>platform.publish\<close> and the frames of a replay are the results of the operations.
\<close>

section \<open>State\<close>

record replay_msg =
  rm_seq :: nat
  rm_event :: js_string
  rm_data :: jsval

record replay_topic =
  rt_seq :: nat
  rt_buf :: "replay_msg option list"
  rt_start :: nat
  rt_len :: nat
  rt_hist :: "(js_string \<times> jsval) list"

record replay_buffer =
  rb_size :: nat
  rb_max_topics :: nat
  rb_topics :: "(js_string, replay_topic) jsmap"
  rb_order :: "js_string list"

datatype replay_frame = ReplayMsg nat js_string jsval | ReplayEnd bool

definition create_replay :: "nat \<Rightarrow> nat \<Rightarrow> nat \<Rightarrow> replay_buffer option" where
  "create_replay workers n max_topics =
     (if 1 < workers \<or> n < 1 \<or> max_topics < 1 then None
      else Some \<lparr>rb_size = n, rb_max_topics = max_topics, rb_topics = [], rb_order = []\<rparr>)"

section \<open>Operations\<close>

definition to_back :: "js_string \<Rightarrow> js_string list \<Rightarrow> js_string list" where
  "to_back t ts = filter (\<lambda>u. u \<noteq> t) ts @ [t]"

definition touch_topic :: "js_string \<Rightarrow> replay_buffer \<Rightarrow> replay_buffer" where
  "touch_topic t s = (if jm_has (rb_topics s) t then s\<lparr>rb_order := to_back t (rb_order s)\<rparr> else s)"

definition fresh_topic :: "nat \<Rightarrow> replay_topic" where
  "fresh_topic n = \<lparr>rt_seq = 0, rt_buf = replicate n None, rt_start = 0, rt_len = 0, rt_hist = []\<rparr>"

definition get_topic :: "js_string \<Rightarrow> replay_buffer \<Rightarrow> replay_topic \<times> replay_buffer" where
  "get_topic t s =
     (case jm_get (rb_topics s) t of
        Some st \<Rightarrow> (st, s\<lparr>rb_order := to_back t (rb_order s)\<rparr>)
      | None \<Rightarrow>
          let s = (if rb_max_topics s \<le> jm_size (rb_topics s) then
                     (case rb_order s of [] \<Rightarrow> s
                      | lru # rest \<Rightarrow> s\<lparr>rb_topics := jm_del lru (rb_topics s), rb_order := rest\<rparr>)
                   else s);
              st = fresh_topic (rb_size s)
          in (st, s\<lparr>rb_topics := jm_set t st (rb_topics s), rb_order := to_back t (rb_order s)\<rparr>))"

definition push_message :: "nat \<Rightarrow> replay_msg \<Rightarrow> replay_topic \<Rightarrow> replay_topic" where
  "push_message max_size msg st =
     (let idx = (rt_start st + rt_len st) mod max_size;
          st = st\<lparr>rt_buf := (rt_buf st)[idx := Some msg]\<rparr>
      in if rt_len st < max_size then st\<lparr>rt_len := rt_len st + 1\<rparr>
         else st\<lparr>rt_start := (rt_start st + 1) mod max_size\<rparr>)"

definition ring_view :: "nat \<Rightarrow> replay_topic \<Rightarrow> replay_msg option list" where
  "ring_view max_size st = map (\<lambda>i. rt_buf st ! ((rt_start st + i) mod max_size)) [0..<rt_len st]"

definition read_since :: "nat \<Rightarrow> nat \<Rightarrow> replay_topic \<Rightarrow> replay_msg list" where
  "read_since max_size since st =
     (if rt_len st = 0 \<or> rt_seq st \<le> since then []
      else filter (\<lambda>m. since < rm_seq m) (List.map_filter (\<lambda>x. x) (ring_view max_size st)))"

text \<open>\<open>structuredClone\<close> and \<open>JSON.parse(JSON.stringify(data))\<close> of an array or object; \<open>None\<close> is a throw.\<close>

fun structured_clone :: "jsval \<Rightarrow> jsval option" where
  "structured_clone (JArr vs) = map_option JArr (those (map structured_clone vs))"
| "structured_clone (JObj kvs) =
     map_option JObj (those (map (\<lambda>(k, v). map_option (Pair k) (structured_clone v)) kvs))"
| "structured_clone JFun = None"
| "structured_clone v = Some v"

fun stringify_throws :: "jsval \<Rightarrow> bool" where
  "stringify_throws (JArr vs) = list_ex stringify_throws vs"
| "stringify_throws (JObj kvs) = list_ex (\<lambda>(k, v). stringify_throws v) kvs"
| "stringify_throws JBig = True"
| "stringify_throws v = False"

definition is_object :: "jsval \<Rightarrow> bool" where
  "is_object v = (case v of JArr vs \<Rightarrow> True | JObj kvs \<Rightarrow> True | _ \<Rightarrow> False)"

definition snapshot :: "jsval \<Rightarrow> jsval option" where
  "snapshot data =
     (if \<not> is_object data then Some data
      else case structured_clone data of
        Some copy \<Rightarrow> Some copy
      | None \<Rightarrow> if stringify_throws data then None else Some (json_trip data))"

text \<open>The sequence number goes out on the broadcast frame; \<open>None\<close> when the call throws: the counter has moved.\<close>

definition replay_publish :: "js_string \<Rightarrow> js_string \<Rightarrow> jsval \<Rightarrow> replay_buffer \<Rightarrow> nat option \<times> replay_buffer" where
  "replay_publish t event data s =
     (case get_topic t s of (st, s) \<Rightarrow>
        let st = st\<lparr>rt_seq := rt_seq st + 1, rt_hist := rt_hist st @ [(event, data)]\<rparr>
        in case snapshot data of
             None \<Rightarrow> (None, s\<lparr>rb_topics := jm_set t st (rb_topics s)\<rparr>)
           | Some copy \<Rightarrow>
               let st = push_message (rb_size s) \<lparr>rm_seq = rt_seq st, rm_event = event, rm_data = copy\<rparr> st
               in (Some (rt_seq st), s\<lparr>rb_topics := jm_set t st (rb_topics s)\<rparr>))"

definition replay_seq :: "js_string \<Rightarrow> replay_buffer \<Rightarrow> nat \<times> replay_buffer" where
  "replay_seq t s =
     (let s = touch_topic t s in
      (case jm_get (rb_topics s) t of None \<Rightarrow> 0 | Some st \<Rightarrow> rt_seq st, s))"

text \<open>A position that is no integer is out of the type; a negative one is refused.\<close>

definition replay_since :: "js_string \<Rightarrow> int \<Rightarrow> replay_buffer \<Rightarrow> replay_msg list \<times> replay_buffer" where
  "replay_since t since s =
     (if since < 0 then ([], s)
      else let s = touch_topic t s in
        (case jm_get (rb_topics s) t of None \<Rightarrow> [] | Some st \<Rightarrow> read_since (rb_size s) (nat since) st, s))"

definition replay_to :: "js_string \<Rightarrow> int \<Rightarrow> replay_buffer \<Rightarrow> replay_frame list \<times> replay_buffer" where
  "replay_to t since s =
     (if since < 0 then ([ReplayEnd False], s)
      else let s = touch_topic t s in
        (case jm_get (rb_topics s) t of
           None \<Rightarrow> [ReplayEnd False]
         | Some st \<Rightarrow>
             map (\<lambda>m. ReplayMsg (rm_seq m) (rm_event m) (rm_data m)) (read_since (rb_size s) (nat since) st) @
             [ReplayEnd (0 < rt_len st \<and>
                (case rt_buf st ! rt_start st of None \<Rightarrow> False | Some m \<Rightarrow> nat since + 1 < rm_seq m))], s))"

definition replay_clear :: "replay_buffer \<Rightarrow> replay_buffer" where
  "replay_clear s = s\<lparr>rb_topics := [], rb_order := []\<rparr>"

definition clear_topic :: "js_string \<Rightarrow> replay_buffer \<Rightarrow> replay_buffer" where
  "clear_topic t s = s\<lparr>rb_topics := jm_del t (rb_topics s), rb_order := filter (\<lambda>u. u \<noteq> t) (rb_order s)\<rparr>"

datatype replay_op =
    RPublish js_string js_string jsval
  | RSeq js_string
  | RSince js_string int
  | RReplay js_string int
  | RClear
  | RClearTopic js_string

fun replay_step :: "replay_buffer \<Rightarrow> replay_op \<Rightarrow> replay_buffer" where
  "replay_step s (RPublish t e d) = snd (replay_publish t e d s)"
| "replay_step s (RSeq t) = snd (replay_seq t s)"
| "replay_step s (RSince t n) = snd (replay_since t n s)"
| "replay_step s (RReplay t n) = snd (replay_to t n s)"
| "replay_step s RClear = replay_clear s"
| "replay_step s (RClearTopic t) = clear_topic t s"

section \<open>The ring is the tail of what was published\<close>

text \<open>What a payload is kept as: itself when it holds no function or symbol, else what survives a trip through JSON,
  and nothing when a bigint stands in the way of that.\<close>

fun leaves :: "jsval \<Rightarrow> jsval list" where
  "leaves (JArr vs) = concat (map leaves vs)"
| "leaves (JObj kvs) = concat (map (\<lambda>(k, v). leaves v) kvs)"
| "leaves v = [v]"

definition kept_copy :: "jsval \<Rightarrow> jsval option" where
  "kept_copy v =
     (if JFun \<notin> set (leaves v) \<or> v = JFun then Some v
      else if JBig \<in> set (leaves v) then None else Some (json_trip v))"

text \<open>The calls of \<open>publish\<close> that were kept; a number is the position of the call.\<close>

fun entries_from :: "nat \<Rightarrow> (js_string \<times> jsval) list \<Rightarrow> replay_msg list" where
  "entries_from i [] = []"
| "entries_from i ((e, v) # calls) =
     (case kept_copy v of None \<Rightarrow> [] | Some x \<Rightarrow> [\<lparr>rm_seq = i, rm_event = e, rm_data = x\<rparr>]) @ entries_from (i + 1) calls"

definition last_n :: "nat \<Rightarrow> 'a list \<Rightarrow> 'a list" where
  "last_n n xs = drop (length xs - n) xs"

lemma those_map: "those (map f xs) = (if \<exists>x \<in> set xs. f x = None then None else Some (map (the \<circ> f) xs))"
  by (induction xs) (auto split: option.split)

lemma structured_clone_leaves: "structured_clone v = (if JFun \<in> set (leaves v) then None else Some v)"
proof (induction v rule: structured_clone.induct)
  case (1 vs)
  then show ?case by (auto simp: those_map intro: map_idI)
next
  case (2 kvs)
  let ?f = "\<lambda>(k, v). map_option (Pair k) (structured_clone v)"
  have one: "?f p = (if JFun \<in> set (leaves (snd p)) then None else Some p)" if "p \<in> set kvs" for p
    using 2 [OF that, of "fst p" "snd p"] by (cases p) simp
  have leaf: "JFun \<in> set (leaves (JObj kvs)) \<longleftrightarrow> (\<exists>p \<in> set kvs. JFun \<in> set (leaves (snd p)))"
    by (simp add: case_prod_beta)
  have none: "(\<exists>p \<in> set kvs. ?f p = None) \<longleftrightarrow> JFun \<in> set (leaves (JObj kvs))"
    unfolding leaf by (intro bex_cong refl) (simp add: one)
  show ?case
  proof (cases "JFun \<in> set (leaves (JObj kvs))")
    case True
    then show ?thesis using none by (simp add: those_map del: leaves.simps)
  next
    case False
    then have "map (the \<circ> ?f) kvs = kvs" unfolding leaf by (intro map_idI) (simp add: one)
    then show ?thesis using False none by (simp add: those_map del: leaves.simps)
  qed
qed auto

lemma stringify_throws_leaves: "stringify_throws v \<longleftrightarrow> JBig \<in> set (leaves v)"
  by (induction v rule: stringify_throws.induct) (fastforce simp: list_ex_iff)+

lemma snapshot_kept: "snapshot v = kept_copy v"
  by (cases v) (simp_all add: snapshot_def is_object_def kept_copy_def structured_clone_leaves stringify_throws_leaves
      del: leaves.simps, simp_all)

lemma entries_from_snoc:
  "entries_from i (calls @ [(e, v)]) = entries_from i calls @
     (case kept_copy v of None \<Rightarrow> [] | Some x \<Rightarrow> [\<lparr>rm_seq = i + length calls, rm_event = e, rm_data = x\<rparr>])"
  by (induction i calls rule: entries_from.induct) (auto split: option.split)

lemma entries_from_seq: "msg \<in> set (entries_from i calls) \<Longrightarrow> i \<le> rm_seq msg \<and> rm_seq msg < i + length calls"
  by (induction i calls rule: entries_from.induct) (fastforce split: option.splits)+

definition ring_holds :: "nat \<Rightarrow> replay_topic \<Rightarrow> replay_msg list \<Rightarrow> bool" where
  "ring_holds n st h \<longleftrightarrow> length (rt_buf st) = n \<and> rt_start st < n \<and> rt_len st = min n (length h) \<and>
     (\<forall>i < rt_len st. rt_buf st ! ((rt_start st + i) mod n) = Some (h ! (length h - rt_len st + i)))"

definition topic_ok :: "nat \<Rightarrow> replay_topic \<Rightarrow> bool" where
  "topic_ok n st \<longleftrightarrow> ring_holds n st (entries_from 1 (rt_hist st)) \<and> rt_seq st = length (rt_hist st)"

lemma topic_ok_fresh: "0 < n \<Longrightarrow> topic_ok n (fresh_topic n)"
  by (simp add: topic_ok_def ring_holds_def fresh_topic_def)

lemma mod_add_inj:
  assumes "i < n" and "j < n" and "(a + i) mod n = (a + j) mod n"
  shows "i = (j :: nat)"
proof -
  have "x = y" if "y \<le> x" and "x < n" and "(a + x) mod n = (a + y) mod n" for x y :: nat
  proof -
    have "n dvd x - y" using that mod_eq_dvd_iff_nat [of "a + y" "a + x" n] by simp
    then show ?thesis using that by (metis dvd_imp_le less_imp_diff_less not_less zero_less_diff le_antisym)
  qed
  then show ?thesis using assms by (metis nat_le_linear)
qed

lemma ring_holds_push:
  assumes ok: "ring_holds n st h"
  shows "ring_holds n (push_message n m st) (h @ [m])"
proof -
  let ?s = "rt_start st" and ?l = "rt_len st"
  let ?b = "(rt_buf st)[(?s + ?l) mod n := Some m]"
  have n: "0 < n" and lb: "length (rt_buf st) = n" and l: "?l = min n (length h)"
    using ok by (auto simp: ring_holds_def)
  have old: "rt_buf st ! ((?s + i) mod n) = Some (h ! (length h - ?l + i))" if "i < ?l" for i
    using ok that by (simp add: ring_holds_def)
  have keep: "?b ! ((?s + i) mod n) = rt_buf st ! ((?s + i) mod n)" if "i < n" "i \<noteq> ?l" "?l < n" for i
    using that mod_add_inj [of i n ?l ?s] by (intro nth_list_update_neq) auto
  have new: "?b ! ((?s + ?l) mod n) = Some m" using lb n by simp
  show ?thesis
  proof (cases "?l < n")
    case True
    then have le: "?l = length h" using l by simp
    have "?b ! ((?s + i) mod n) = Some ((h @ [m]) ! i)" if "i < Suc ?l" for i
      using that old [of i] keep [of i] new True le by (cases "i = ?l") (auto simp: nth_append)
    then show ?thesis using True lb le ok
      by (auto simp: ring_holds_def push_message_def Let_def)
  next
    case False
    then have full: "?l = n" "n \<le> length h" using l by auto
    have at0: "(?s + n) mod n = (?s + 0) mod n" by simp
    have "?b ! (((?s + 1) mod n + i) mod n) = Some ((h @ [m]) ! (Suc (length h) - n + i))" if i: "i < n" for i
    proof -
      have e: "((?s + 1) mod n + i) mod n = (?s + Suc i) mod n" by (simp add: mod_add_left_eq)
      show ?thesis
      proof (cases "Suc i = n")
        case True
        then show ?thesis using new full unfolding e by (auto simp: nth_append)
      next
        case neq: False
        then have si: "Suc i < n" using i by simp
        have "(?s + n) mod n \<noteq> (?s + Suc i) mod n" using mod_add_inj [of "Suc i" n 0 ?s] si n at0 by auto
        then have "?b ! ((?s + Suc i) mod n) = rt_buf st ! ((?s + Suc i) mod n)" using full by (intro nth_list_update_neq) auto
        also have "\<dots> = Some (h ! (length h - n + Suc i))" using old [of "Suc i"] si full by simp
        also have "length h - n + Suc i = Suc (length h) - n + i" using full by simp
        finally show ?thesis using full si unfolding e by (simp add: nth_append)
      qed
    qed
    then show ?thesis using False full lb n
      by (auto simp: ring_holds_def push_message_def Let_def)
  qed
qed

lemma topic_ok_publish:
  assumes ok: "topic_ok n st" and st': "st' = st\<lparr>rt_seq := rt_seq st + 1, rt_hist := rt_hist st @ [(e, v)]\<rparr>"
  shows "snapshot v = None \<Longrightarrow> topic_ok n st'"
    and "snapshot v = Some x \<Longrightarrow> topic_ok n (push_message n \<lparr>rm_seq = rt_seq st', rm_event = e, rm_data = x\<rparr> st')"
proof -
  have ring: "ring_holds n st' (entries_from 1 (rt_hist st))" and q: "rt_seq st = length (rt_hist st)"
    using ok by (simp_all add: topic_ok_def ring_holds_def st')
  show "topic_ok n st'" if "snapshot v = None"
    using ring q that by (simp add: topic_ok_def st' entries_from_snoc snapshot_kept)
  have keep: "rt_hist (push_message n m st') = rt_hist st' \<and> rt_seq (push_message n m st') = rt_seq st'" for m
    by (simp add: push_message_def Let_def)
  show "topic_ok n (push_message n \<lparr>rm_seq = rt_seq st', rm_event = e, rm_data = x\<rparr> st')" if "snapshot v = Some x"
    using ring_holds_push [OF ring] q that keep by (simp add: topic_ok_def entries_from_snoc snapshot_kept st')
qed

lemma ring_view_tail:
  assumes "ring_holds n st h"
  shows "ring_view n st = map Some (last_n n h)"
  using assms by (intro nth_equalityI) (auto simp: ring_view_def ring_holds_def last_n_def min_def)

lemma map_filter_Some: "List.map_filter (\<lambda>x. x) (map Some xs) = xs"
  by (induction xs) (auto simp: List.map_filter_simps)

lemma read_since_entries:
  assumes ok: "topic_ok n st" and n: "0 < n"
  shows "read_since n k st = filter (\<lambda>m. k < rm_seq m) (last_n n (entries_from 1 (rt_hist st)))"
proof -
  let ?h = "entries_from 1 (rt_hist st)"
  have ring: "ring_holds n st ?h" and q: "rt_seq st = length (rt_hist st)" using ok by (simp_all add: topic_ok_def)
  have "filter (\<lambda>m. k < rm_seq m) (last_n n ?h) = []" if none: "rt_len st = 0 \<or> rt_seq st \<le> k"
  proof (cases "rt_len st = 0")
    case True
    then have "?h = []" using ring n by (auto simp: ring_holds_def min_def split: if_splits)
    then show ?thesis by (simp add: last_n_def)
  next
    case False
    have "rm_seq m \<le> k" if "m \<in> set (last_n n ?h)" for m
      using entries_from_seq [of m 1 "rt_hist st"] in_set_dropD [of m] that False none q by (fastforce simp: last_n_def)
    then show ?thesis by (simp add: filter_empty_conv not_less)
  qed
  then show ?thesis using ring_view_tail [OF ring] by (auto simp: read_since_def map_filter_Some)
qed

section \<open>The invariant\<close>

definition replay_inv :: "replay_buffer \<Rightarrow> bool" where
  "replay_inv s \<longleftrightarrow> 0 < rb_size s \<and> 0 < rb_max_topics s \<and> jm_wf (rb_topics s) \<and> distinct (rb_order s) \<and>
     set (rb_order s) = set (jm_keys (rb_topics s)) \<and> jm_size (rb_topics s) \<le> rb_max_topics s \<and>
     (\<forall>t st. jm_get (rb_topics s) t = Some st \<longrightarrow> topic_ok (rb_size s) st)"

lemma to_back_set [simp]: "set (to_back t ts) = insert t (set ts)" and to_back_distinct: "distinct ts \<Longrightarrow> distinct (to_back t ts)"
  by (auto simp: to_back_def)

lemma inv_touch: "replay_inv s \<Longrightarrow> replay_inv (touch_topic t s)"
  by (auto simp: replay_inv_def touch_topic_def jm_has_keys to_back_distinct)

lemma inv_get_topic:
  assumes i: "replay_inv s"
  shows "replay_inv (snd (get_topic t s)) \<and> topic_ok (rb_size s) (fst (get_topic t s)) \<and>
    jm_get (rb_topics (snd (get_topic t s))) t = Some (fst (get_topic t s)) \<and>
    rb_size (snd (get_topic t s)) = rb_size s \<and> rb_max_topics (snd (get_topic t s)) = rb_max_topics s"
proof (cases "jm_get (rb_topics s) t")
  case (Some st)
  then have "t \<in> set (jm_keys (rb_topics s))" using jm_get_None [of "rb_topics s" t] by auto
  then show ?thesis using i Some by (auto simp: get_topic_def replay_inv_def to_back_distinct)
next
  case None
  define s1 where "s1 = (if rb_max_topics s \<le> jm_size (rb_topics s) then
       (case rb_order s of [] \<Rightarrow> s
        | lru # rest \<Rightarrow> s\<lparr>rb_topics := jm_del lru (rb_topics s), rb_order := rest\<rparr>) else s)"
  have e: "get_topic t s = (fresh_topic (rb_size s1),
      s1\<lparr>rb_topics := jm_set t (fresh_topic (rb_size s1)) (rb_topics s1), rb_order := to_back t (rb_order s1)\<rparr>)"
    by (simp add: get_topic_def None Let_def s1_def)
  have "replay_inv s1 \<and> jm_size (rb_topics s1) < rb_max_topics s1 \<and> rb_size s1 = rb_size s \<and>
      rb_max_topics s1 = rb_max_topics s \<and> jm_get (rb_topics s1) t = None"
  proof (cases "rb_order s")
    case Nil
    then have "rb_topics s = []" using i by (auto simp: replay_inv_def set_jm_keys)
    then show ?thesis using i Nil by (auto simp: s1_def replay_inv_def)
  next
    case (Cons lru rest)
    then have k: "lru \<in> set (jm_keys (rb_topics s))" using i by (auto simp: replay_inv_def)
    have "length (jm_del lru (rb_topics s)) = length (rb_topics s) - 1"
      using i k length_jm_del [of "rb_topics s" lru] jm_get_None [of "rb_topics s" lru] by (simp add: replay_inv_def)
    moreover have "rb_topics s \<noteq> []" using k by auto
    moreover have "lru \<notin> set rest" using i Cons by (auto simp: replay_inv_def)
    ultimately show ?thesis using i Cons None by (auto simp: s1_def replay_inv_def)
  qed
  then show ?thesis unfolding e
    by (auto simp: replay_inv_def to_back_distinct length_jm_set topic_ok_fresh)
qed

lemma inv_publish: "replay_inv s \<Longrightarrow> replay_inv (snd (replay_publish t e d s))"
proof -
  assume "replay_inv s"
  from inv_get_topic [OF this, of t] obtain st s1 where g: "get_topic t s = (st, s1)" and i: "replay_inv s1"
    and ok: "topic_ok (rb_size s) st" and m: "jm_get (rb_topics s1) t = Some st" and z: "rb_size s1 = rb_size s"
    by (cases "get_topic t s") auto
  have "t \<in> set (rb_order s1)" using i m jm_get_None [of "rb_topics s1" t] by (auto simp: replay_inv_def)
  then show ?thesis using i m z topic_ok_publish [OF ok refl, where e = e and v = d]
    by (auto simp: replay_publish_def g Let_def replay_inv_def length_jm_set split: option.split)
qed

lemma inv_replay_step: "replay_inv s \<Longrightarrow> replay_inv (replay_step s x)"
proof (cases x)
  case (RClearTopic t)
  assume "replay_inv s"
  then show ?thesis using RClearTopic length_jm_del_le [of t "rb_topics s"]
    by (auto simp: clear_topic_def replay_inv_def)
qed (auto simp: inv_publish inv_touch replay_seq_def replay_since_def replay_to_def Let_def replay_clear_def
      replay_inv_def [of "s\<lparr>rb_topics := [], rb_order := []\<rparr>"] replay_inv_def [of s])

lemma replay_caps_step: "rb_size (replay_step s x) = rb_size s \<and> rb_max_topics (replay_step s x) = rb_max_topics s"
proof -
  have t: "rb_size (touch_topic t s) = rb_size s \<and> rb_max_topics (touch_topic t s) = rb_max_topics s" for t
    by (simp add: touch_topic_def)
  have g: "rb_size (snd (get_topic t s)) = rb_size s \<and> rb_max_topics (snd (get_topic t s)) = rb_max_topics s" for t
    by (auto simp: get_topic_def Let_def split: option.split list.split)
  have p: "rb_size (snd (replay_publish t e d s)) = rb_size s \<and> rb_max_topics (snd (replay_publish t e d s)) = rb_max_topics s" for t e d
    using g [of t] by (cases "get_topic t s") (simp add: replay_publish_def Let_def split: option.split)
  show ?thesis using t p
    by (cases x) (auto simp: replay_seq_def replay_since_def replay_to_def Let_def replay_clear_def clear_topic_def)
qed

definition new_replay :: "nat \<Rightarrow> nat \<Rightarrow> replay_buffer" where
  "new_replay n m = \<lparr>rb_size = n, rb_max_topics = m, rb_topics = [], rb_order = []\<rparr>"

lemma replay_inv_new: "0 < n \<and> 0 < m \<Longrightarrow> replay_inv (new_replay n m)"
  by (simp add: new_replay_def replay_inv_def)

interpretation replays: machine "new_replay n m" replay_step
    "\<lambda>s. rb_size s = n \<and> rb_max_topics s = m \<and> (0 < n \<and> 0 < m \<longrightarrow> replay_inv s)" for n m
  using replay_inv_new [of n m]
  by unfold_locales (auto simp: inv_replay_step replay_caps_step, simp_all add: new_replay_def)

lemma replay_run_inv:
  assumes "create_replay w n m = Some s0"
  shows "replay_inv (foldl replay_step s0 es) \<and> rb_size (foldl replay_step s0 es) = n \<and>
    rb_max_topics (foldl replay_step s0 es) = m"
  using assms replays.run_inv [of n m es] by (auto simp: create_replay_def new_replay_def split: if_splits)

lemma replay_since_tail:
  assumes "replay_inv s" and "jm_get (rb_topics s) t = Some st"
  shows "read_since (rb_size s) k st = filter (\<lambda>m. k < rm_seq m) (last_n (rb_size s) (entries_from 1 (rt_hist st)))"
  using assms by (intro read_since_entries) (auto simp: replay_inv_def)

lemma touch_topics [simp]: "rb_topics (touch_topic t s) = rb_topics s" "rb_size (touch_topic t s) = rb_size s"
  by (simp_all add: touch_topic_def)

section \<open>Properties\<close>

text \<open>C28: For a tracked topic, \<open>since\<close> returns exactly the messages after the given position among the last
  \<open>size\<close> that were kept, in publish order. A message is numbered with the position of its call since the topic
  was created, and \<open>seq\<close> answers the number of calls; a call whose payload cannot be copied takes its number and
  keeps nothing, so the numbers have a hole exactly where a call threw.\<close>

theorem replay_since_complete:
  assumes "create_replay w n m = Some s0" and "s = foldl replay_step s0 es"
    and "jm_get (rb_topics s) t = Some st"
  shows "fst (replay_since t (int k) s) = filter (\<lambda>m. k < rm_seq m) (last_n n (entries_from 1 (rt_hist st))) \<and>
    fst (replay_seq t s) = length (rt_hist st)"
proof -
  have i: "replay_inv s" "rb_size s = n" using replay_run_inv [OF assms(1), of es] assms(2) by simp_all
  have "rt_seq st = length (rt_hist st)" using i assms(3) by (auto simp: replay_inv_def topic_ok_def)
  then show ?thesis using replay_since_tail [OF i(1) assms(3), of k] i(2) assms(3)
    by (simp add: replay_since_def replay_seq_def Let_def)
qed

definition sample_replay_run :: "replay_op list" where
  "sample_replay_run = [RPublish [1] [9] (JStr [10]), RPublish [1] [9] (JStr [20]), RPublish [1] [9] (JArr [JFun, JBig]),
     RPublish [1] [9] (JArr [JFun]), RPublish [1] [9] (JArr [JBig])]"

definition sample_replay :: replay_buffer where
  "sample_replay = foldl replay_step (new_replay 3 1) sample_replay_run"

lemma sample_replay_created: "create_replay 1 3 1 = Some (new_replay 3 1)"
  by (simp add: create_replay_def new_replay_def)

lemma sample_replay_topic:
  obtains st where "jm_get (rb_topics sample_replay) [1] = Some st"
    "rt_hist st = [([9], JStr [10]), ([9], JStr [20]), ([9], JArr [JFun, JBig]), ([9], JArr [JFun]), ([9], JArr [JBig])]"
proof -
  have "map_option rt_hist (jm_get (rb_topics sample_replay) [1]) =
      Some [([9], JStr [10]), ([9], JStr [20]), ([9], JArr [JFun, JBig]), ([9], JArr [JFun]), ([9], JArr [JBig])]"
    by code_simp
  then show ?thesis using that by auto
qed

theorem replay_since_complete_witness:
  "map (\<lambda>m. (rm_seq m, rm_data m)) (fst (replay_since [1] (int 1) sample_replay)) =
     [(2, JStr [20]), (4, JArr [JNull]), (5, JArr [JBig])]"
proof -
  obtain st where g: "jm_get (rb_topics sample_replay) [1] = Some st"
    and h: "rt_hist st = [([9], JStr [10]), ([9], JStr [20]), ([9], JArr [JFun, JBig]), ([9], JArr [JFun]), ([9], JArr [JBig])]"
    by (rule sample_replay_topic)
  show ?thesis
    using replay_since_complete [OF sample_replay_created sample_replay_def g, of 1]
    by (simp add: h kept_copy_def last_n_def json_trip_def)
qed

text \<open>A replay to a connection sends the retained messages after its position in order and closes with an end marker
  that says truncated exactly when the number of the oldest retained message is past the next position, as long as
  the topic is tracked.\<close>

theorem replay_marks_gaps:
  assumes "create_replay w n m = Some s0" and "s = foldl replay_step s0 es"
    and "jm_get (rb_topics s) t = Some st"
  defines "retained \<equiv> last_n n (entries_from 1 (rt_hist st))"
  shows "fst (replay_to t (int k) s) =
    map (\<lambda>m. ReplayMsg (rm_seq m) (rm_event m) (rm_data m)) (filter (\<lambda>m. k < rm_seq m) retained) @
    [ReplayEnd (case retained of [] \<Rightarrow> False | m # ms \<Rightarrow> k + 1 < rm_seq m)]"
proof -
  have i: "replay_inv s" and z: "rb_size s = n" using replay_run_inv [OF assms(1), of es] assms(2) by simp_all
  have ok: "ring_holds n st (entries_from 1 (rt_hist st))" and n: "0 < n"
    using i z assms(3) by (auto simp: replay_inv_def topic_ok_def)
  have view: "ring_view n st = map Some retained" using ring_view_tail [OF ok] by (simp add: retained_def)
  have len: "length retained = rt_len st" using ok by (auto simp: ring_holds_def retained_def last_n_def)
  have "(0 < rt_len st \<and> (case rt_buf st ! rt_start st of None \<Rightarrow> False | Some m \<Rightarrow> nat (int k) + 1 < rm_seq m)) \<longleftrightarrow>
      (case retained of [] \<Rightarrow> False | m # ms \<Rightarrow> k + 1 < rm_seq m)"
  proof (cases retained)
    case Nil
    then show ?thesis using len by simp
  next
    case (Cons m ms)
    then have pos: "0 < rt_len st" using len by simp
    have "ring_view n st ! 0 = rt_buf st ! ((rt_start st + 0) mod n)" using pos by (simp add: ring_view_def)
    moreover have "ring_view n st ! 0 = Some m" using view Cons by simp
    ultimately have "rt_buf st ! rt_start st = Some m" using ok by (simp add: ring_holds_def)
    then show ?thesis using pos Cons by simp
  qed
  then show ?thesis using replay_since_tail [OF i assms(3), of k] z assms(3)
    by (simp add: replay_to_def Let_def retained_def)
qed

theorem replay_marks_gaps_witness:
  "fst (replay_to [1] (int 0) sample_replay) =
     [ReplayMsg 2 [9] (JStr [20]), ReplayMsg 4 [9] (JArr [JNull]), ReplayMsg 5 [9] (JArr [JBig]), ReplayEnd True]"
proof -
  obtain st where g: "jm_get (rb_topics sample_replay) [1] = Some st"
    and h: "rt_hist st = [([9], JStr [10]), ([9], JStr [20]), ([9], JArr [JFun, JBig]), ([9], JArr [JFun]), ([9], JArr [JBig])]"
    by (rule sample_replay_topic)
  show ?thesis
    using replay_marks_gaps [OF sample_replay_created sample_replay_def g, of 0]
    by (simp add: h kept_copy_def last_n_def json_trip_def)
qed

text \<open>The counter moves before the payload is copied. A call whose payload cannot be copied throws and leaves a hole
  in the numbers, which the next messages carry; a client that has seen everything is then one number behind.\<close>

theorem replay_failed_copy_leaves_hole:
  "map rm_seq (fst (replay_since [1] 0 (foldl replay_step (new_replay 5 1)
     [RPublish [1] [9] (JStr [10]), RPublish [1] [9] (JArr [JFun, JBig]), RPublish [1] [9] (JStr [30])]))) = [1, 3] \<and>
   fst (replay_publish [1] [9] (JArr [JFun, JBig]) (new_replay 5 1)) = None"
  by code_simp

text \<open>Eviction of a topic forgets its counter. A client that had seen two messages of a topic
  that was then evicted and published to again is told it missed nothing: the replay is an empty,
  untruncated end marker.\<close>

theorem replay_eviction_hides_gap:
  "fst (replay_to [1] 2 (foldl replay_step (new_replay 2 1)
     [RPublish [1] [9] (JStr [10]), RPublish [1] [9] (JStr [20]), RPublish [2] [9] (JStr [1]), RPublish [1] [9] (JStr [30])])) =
   [ReplayEnd False]"
  by code_simp

end
