(* ===== verification/Rate_Key.thy ===== *)
theory Rate_Key
  imports Prelude
begin

text \<open>
  The client bucket key of \<open>src/runtime/utils/rate-limiter.js\<close>: \<open>expandIpv6\<close>,
  \<open>foldToPrefix\<close> and \<open>rateLimitKey\<close> on strings of UTF-16 code units. The regular expressions
  are written out as predicates. Lower-casing maps the ASCII letters; no other code unit
  lower-cases into a digit, a letter from a to f, a dot or a colon, which is all the parsed
  text may hold.
\<close>

unbundle bit_operations_syntax

section \<open>Characters\<close>

definition cc :: "nat \<Rightarrow> 16 word" where
  "cc n = word_of_nat n"

definition is_digit :: "16 word \<Rightarrow> bool" where
  "is_digit c \<longleftrightarrow> 48 \<le> unat c \<and> unat c \<le> 57"

definition is_hex :: "16 word \<Rightarrow> bool" where
  "is_hex c \<longleftrightarrow> is_digit c \<or> (97 \<le> unat c \<and> unat c \<le> 102)"

definition lower_char :: "16 word \<Rightarrow> 16 word" where
  "lower_char c = (if 65 \<le> unat c \<and> unat c \<le> 90 then c + 32 else c)"

definition dec_value :: "js_string \<Rightarrow> nat" where
  "dec_value s = foldl (\<lambda>n c. 10 * n + (unat c - 48)) 0 s"

definition hex_digit_value :: "16 word \<Rightarrow> nat" where
  "hex_digit_value c = (if is_digit c then unat c - 48 else unat c - 87)"

definition hex_value :: "js_string \<Rightarrow> nat" where
  "hex_value s = foldl (\<lambda>n c. 16 * n + hex_digit_value c) 0 s"

definition hex_digit :: "nat \<Rightarrow> 16 word" where
  "hex_digit n = (if n < 10 then cc (48 + n) else cc (87 + n))"

fun hex_string :: "nat \<Rightarrow> js_string" where
  "hex_string n = (if n < 16 then [hex_digit n] else hex_string (n div 16) @ [hex_digit (n mod 16)])"

declare hex_string.simps [simp del]

definition digits_upto :: "nat \<Rightarrow> js_string \<Rightarrow> bool" where
  "digits_upto n s \<longleftrightarrow> 1 \<le> length s \<and> length s \<le> n \<and> list_all is_digit s"

definition hex_group :: "js_string \<Rightarrow> bool" where
  "hex_group s \<longleftrightarrow> 1 \<le> length s \<and> length s \<le> 4 \<and> list_all is_hex s"

section \<open>Splitting\<close>

fun split_on :: "'a \<Rightarrow> 'a list \<Rightarrow> 'a list list" where
  "split_on c [] = [[]]"
| "split_on c (x # xs) =
     (if x = c then [] # split_on c xs
      else case split_on c xs of [] \<Rightarrow> [[x]] | p # ps \<Rightarrow> (x # p) # ps)"

fun split_twice :: "'a \<Rightarrow> 'a list \<Rightarrow> 'a list list" where
  "split_twice c [] = [[]]"
| "split_twice c [x] = [[x]]"
| "split_twice c (x # y # xs) =
     (if x = c \<and> y = c then [] # split_twice c xs
      else case split_twice c (y # xs) of [] \<Rightarrow> [[x]] | p # ps \<Rightarrow> (x # p) # ps)"

definition index_of :: "'a \<Rightarrow> 'a list \<Rightarrow> nat option" where
  "index_of c xs = (if c \<in> set xs then Some (length (takeWhile (\<lambda>x. x \<noteq> c) xs)) else None)"

definition split_nonempty :: "js_string \<Rightarrow> js_string list" where
  "split_nonempty s = (if s = [] then [] else split_on (cc 58) s)"

section \<open>IPv6 groups\<close>

definition embedded_octets :: "js_string \<Rightarrow> nat list option" where
  "embedded_octets s =
     (let octets = split_on (cc 46) s in
      if length octets \<noteq> 4 \<or> \<not> list_all (digits_upto 3) octets \<or> \<not> list_all (\<lambda>p. dec_value p \<le> 255) octets then None
      else Some (map dec_value octets))"

definition expand_groups :: "js_string \<Rightarrow> js_string list option" where
  "expand_groups head =
     (let parts = split_twice (cc 58) head in
      if 2 < length parts then None
      else
        let left = split_nonempty (parts ! 0);
            right = (if length parts = 2 then split_nonempty (parts ! 1) else []);
            used = length left + length right
        in if (if length parts = 2 then 8 < used else used \<noteq> 8) then None
           else Some (left @ replicate (8 - used) [cc 48] @ right))"

definition split_embedded :: "js_string \<Rightarrow> (js_string \<times> js_string list) option" where
  "split_embedded host =
     (let last1 = List.last (split_on (cc 58) host);
          before = take (length host - length last1) host
      in if cc 46 \<in> set last1 then
           map_option (\<lambda>n. (before @ [cc 48, cc 58, cc 48],
             [hex_string (n ! 0 * 256 + n ! 1), hex_string (n ! 2 * 256 + n ! 3)])) (embedded_octets last1)
         else Some (host, []))"

definition finish_groups :: "js_string list \<Rightarrow> js_string list \<Rightarrow> js_string list option" where
  "finish_groups tail groups =
     (let groups = (if tail = [] then groups else take 6 groups @ tail) in
      if list_all hex_group groups
      then Some (map (\<lambda>g. hex_string (hex_value g)) (take 4 groups) @ drop 4 groups) else None)"

definition expand_ipv6 :: "js_string \<Rightarrow> js_string list option" where
  "expand_ipv6 host =
     Option.bind (split_embedded host) (\<lambda>(head, tail). Option.bind (expand_groups head) (finish_groups tail))"

section \<open>Folding\<close>

fun strip_zero_groups :: "nat \<Rightarrow> js_string \<Rightarrow> bool" where
  "strip_zero_groups 0 s = True"
| "strip_zero_groups (Suc n) s =
     (let z = length (takeWhile (\<lambda>c. c = cc 48) s) in
      1 \<le> z \<and> z \<le> 4 \<and> z < length s \<and> s ! z = cc 58 \<and> strip_zero_groups n (drop (Suc z) s))"

definition zero_prefix :: "js_string \<Rightarrow> bool" where
  "zero_prefix s \<longleftrightarrow> strip_zero_groups 4 s \<or> take 2 s = [cc 58, cc 58]"

definition ip_port :: "js_string \<Rightarrow> (js_string \<times> js_string) option" where
  "ip_port s =
     (case split_on (cc 58) s of
        [ip, port] \<Rightarrow>
          if length (split_on (cc 46) ip) = 4 \<and> list_all (digits_upto 3) (split_on (cc 46) ip) \<and> digits_upto 5 port
          then Some (ip, port) else None
      | _ \<Rightarrow> None)"

definition octet_ok :: "js_string \<Rightarrow> bool" where
  "octet_ok p \<longleftrightarrow> \<not> (1 < length p \<and> p ! 0 = cc 48) \<and> dec_value p \<le> 255"

definition shared_prefix :: "js_string list \<Rightarrow> bool" where
  "shared_prefix g \<longleftrightarrow> take 4 g = replicate 4 [cc 48] \<or>
     (g ! 0 = js_of ''64'' \<and> g ! 1 = js_of ''ff9b'') \<or> (g ! 0 = js_of ''2001'' \<and> g ! 1 = js_of ''0'') \<or>
     hex_value (g ! 0) AND 0xffc0 = 0xfe80"

definition colon_join :: "js_string list \<Rightarrow> js_string" where
  "colon_join gs = concat (map (\<lambda>g. g @ [cc 58]) gs) @ [cc 58]"

definition prefix_groups :: "js_string list \<Rightarrow> js_string list" where
  "prefix_groups g = (if g ! 0 = js_of ''2002'' then take 3 g else take 4 g)"

definition unbracket :: "js_string \<Rightarrow> js_string option" where
  "unbracket value =
     (if value \<noteq> [] \<and> value ! 0 = cc 91 then
        (case index_of (cc 93) value of
           None \<Rightarrow> None
         | Some e \<Rightarrow>
             let suffix = drop (Suc e) value in
             if suffix = [] \<or> (suffix ! 0 = cc 58 \<and> digits_upto 5 (tl suffix) \<and> dec_value (tl suffix) \<le> 65535)
             then Some (drop 1 (take e value)) else None)
      else Some value)"

definition fold_host :: "js_string \<Rightarrow> js_string option" where
  "fold_host host =
     (if cc 58 \<notin> set host \<or> zero_prefix host \<or> cc 37 \<in> set host then None
      else
        let host = map lower_char host in
        case ip_port host of
          Some (ip, port) \<Rightarrow>
            if dec_value port \<le> 65535 \<and> list_all octet_ok (split_on (cc 46) ip) then Some ip else None
        | None \<Rightarrow>
            (case expand_ipv6 host of
               None \<Rightarrow> None
             | Some g \<Rightarrow> if shared_prefix g then None else Some (colon_join (prefix_groups g))))"

definition fold_to_prefix :: "js_string \<Rightarrow> js_string" where
  "fold_to_prefix value =
     (case unbracket value of
        None \<Rightarrow> value
      | Some host \<Rightarrow> (case fold_host host of None \<Rightarrow> value | Some key \<Rightarrow> key))"

definition rate_limit_key :: "js_string \<Rightarrow> nat \<Rightarrow> js_string" where
  "rate_limit_key ip max_len = take max_len (fold_to_prefix (take max_len ip))"

section \<open>Hexadecimal round trip\<close>

lemma unat_cc: "n < 65536 \<Longrightarrow> unat (cc n) = n"
  by (simp add: cc_def unat_of_nat)

lemma hex_digit_props:
  "n < 16 \<Longrightarrow> hex_digit_value (hex_digit n) = n \<and> is_hex (hex_digit n)"
  by (auto simp: hex_digit_def hex_digit_value_def is_hex_def is_digit_def unat_cc)

lemma hex_value_snoc: "hex_value (s @ [c]) = 16 * hex_value s + hex_digit_value c"
  by (simp add: hex_value_def)

lemma hex_value_string: "hex_value (hex_string n) = n"
proof (induction n rule: hex_string.induct)
  case (1 n)
  show ?case
  proof (cases "n < 16")
    case True
    then show ?thesis by (simp add: hex_string.simps [of n] hex_value_def hex_digit_props)
  next
    case False
    then show ?thesis using 1 by (simp add: hex_string.simps [of n] hex_value_snoc hex_digit_props)
  qed
qed

lemma hex_string_inj: "hex_string m = hex_string n \<longleftrightarrow> m = n"
  by (metis hex_value_string)

lemma hex_string_hex: "list_all is_hex (hex_string n) \<and> hex_string n \<noteq> []"
proof (induction n rule: hex_string.induct)
  case (1 n)
  then show ?case by (cases "n < 16") (auto simp: hex_string.simps [of n] hex_digit_props)
qed

lemma hex_string_length: "n < 16 ^ k \<Longrightarrow> 1 \<le> k \<Longrightarrow> length (hex_string n) \<le> k"
proof (induction k arbitrary: n)
  case (Suc k)
  show ?case
  proof (cases "n < 16")
    case True
    then show ?thesis by (simp add: hex_string.simps [of n])
  next
    case False
    then have "n div 16 < 16 ^ k" and "1 \<le> k" using Suc.prems by (auto simp: less_mult_imp_div_less Suc_le_eq intro: gr0I)
    then show ?thesis using Suc.IH [of "n div 16"] False by (simp add: hex_string.simps [of n])
  qed
qed simp

lemma colon_not_hex: "\<not> is_hex (cc 58)"
  by (simp add: is_hex_def is_digit_def unat_cc)

lemma hex_digit_value_less: "is_hex c \<Longrightarrow> hex_digit_value c < 16"
  by (auto simp: is_hex_def is_digit_def hex_digit_value_def)

lemma hex_value_less: "list_all is_hex s \<Longrightarrow> hex_value s < 16 ^ length s"
proof (induction s rule: rev_induct)
  case (snoc c s)
  then have "hex_value s < 16 ^ length s" "hex_digit_value c < 16" by (auto simp: hex_digit_value_less)
  then show ?case unfolding hex_value_snoc by simp
qed (simp add: hex_value_def)

section \<open>Keys of IPv6 clients\<close>

definition plain :: "js_string \<Rightarrow> bool" where
  "plain s \<longleftrightarrow> s \<noteq> [] \<and> cc 58 \<notin> set s"

lemma plain_hex_string: "plain (hex_string n)"
  using hex_string_hex [of n] colon_not_hex by (auto simp: plain_def list_all_iff)

lemma cut_at: "c \<notin> set a \<Longrightarrow> c \<notin> set b \<Longrightarrow> a @ c # r = b @ c # r' \<longleftrightarrow> a = b \<and> r = r'"
proof (induction a arbitrary: b)
  case Nil
  then show ?case by (cases b) auto
next
  case (Cons x a)
  then show ?case by (cases b) auto
qed

lemma colon_join_inj: "list_all plain gs \<Longrightarrow> list_all plain hs \<Longrightarrow> colon_join gs = colon_join hs \<longleftrightarrow> gs = hs"
proof (induction gs arbitrary: hs)
  case Nil
  then show ?case by (cases hs) (auto simp: colon_join_def plain_def append_eq_Cons_conv Cons_eq_append_conv)
next
  case (Cons g gs)
  show ?case
  proof (cases hs)
    case Nil
    then show ?thesis using Cons.prems by (auto simp: colon_join_def plain_def append_eq_Cons_conv)
  next
    case (Cons h hs')
    have "colon_join (g # gs) = colon_join (h # hs') \<longleftrightarrow> g @ cc 58 # colon_join gs = h @ cc 58 # colon_join hs'"
      by (simp add: colon_join_def)
    also have "\<dots> \<longleftrightarrow> g = h \<and> colon_join gs = colon_join hs'"
      using Cons Cons.prems by (intro cut_at) (auto simp: plain_def)
    finally show ?thesis using Cons Cons.IH [of hs'] Cons.prems by auto
  qed
qed

lemma expand_groups_length: "expand_groups h = Some g \<Longrightarrow> length g = 8"
  by (auto simp: expand_groups_def Let_def split: if_splits)

lemma expand_ipv6_groups:
  assumes "expand_ipv6 h = Some g"
  shows "\<exists>ns. length ns = 4 \<and> (\<forall>n \<in> set ns. n < 65536) \<and> take 4 g = map hex_string ns"
proof -
  obtain head tail gs where e: "expand_groups head = Some gs" and f: "finish_groups tail gs = Some g"
    using assms unfolding expand_ipv6_def by (auto simp: bind_Some_conv)
  define hs where "hs = (if tail = [] then gs else take 6 gs @ tail)"
  have a: "list_all hex_group hs" and g: "g = map (\<lambda>g. hex_string (hex_value g)) (take 4 hs) @ drop 4 hs"
    using f by (auto simp: finish_groups_def hs_def Let_def split: if_splits)
  have l: "length (take 4 hs) = 4" using expand_groups_length [OF e] by (simp add: hs_def)
  let ?ns = "map hex_value (take 4 hs)"
  have "n < 65536" if mem: "n \<in> set ?ns" for n
  proof -
    obtain x where m: "n = hex_value x" "x \<in> set (take 4 hs)" using mem by auto
    then have x: "n = hex_value x" "hex_group x" using a in_set_takeD [OF m(2)] by (auto simp: list_all_iff)
    then have "hex_value x < 16 ^ length x" by (intro hex_value_less) (simp add: hex_group_def)
    also have "\<dots> \<le> 16 ^ 4" using x(2) by (intro power_increasing) (auto simp: hex_group_def)
    finally show ?thesis using x(1) by simp
  qed
  moreover have "take 4 g = map hex_string ?ns" unfolding g using l by (simp add: comp_def)
  ultimately show ?thesis using l by (intro exI [of _ ?ns]) simp
qed

lemma prefix_groups_map:
  assumes "expand_ipv6 h = Some g"
  shows "\<exists>ns. prefix_groups g = map hex_string ns \<and> length ns \<le> 4 \<and> (\<forall>n \<in> set ns. n < 65536)"
proof -
  obtain ns where n: "length ns = 4" "\<forall>n \<in> set ns. n < 65536" "take 4 g = map hex_string ns"
    using expand_ipv6_groups [OF assms] by blast
  have "take 3 g = take 3 (take 4 g)" by simp
  then have t3: "take 3 g = map hex_string (take 3 ns)" using n(3) by (simp add: take_map)
  show ?thesis
  proof (cases "g ! 0 = js_of ''2002''")
    case True
    then show ?thesis using n t3 by (intro exI [of _ "take 3 ns"]) (auto simp: prefix_groups_def dest: in_set_takeD)
  next
    case False
    then show ?thesis using n by (intro exI [of _ ns]) (simp add: prefix_groups_def)
  qed
qed

lemma key_length:
  assumes "length ns \<le> 4" and "\<forall>n \<in> set ns. n < 65536"
  shows "length (colon_join (map hex_string ns)) \<le> 21"
proof -
  have "length (hex_string n) \<le> 4" if "n \<in> set ns" for n using assms(2) that by (intro hex_string_length) auto
  then have "sum_list (map (\<lambda>n. Suc (length (hex_string n))) ns) \<le> sum_list (map (\<lambda>n. 5) ns)"
    by (intro sum_list_mono) auto
  also have "\<dots> \<le> 20" using assms(1) by (simp add: sum_list_triv)
  finally show ?thesis by (simp add: colon_join_def length_concat comp_def)
qed

lemma map_hex_eq: "map hex_string ns = map hex_string ms \<longleftrightarrow> ns = ms"
  by (metis (no_types, lifting) hex_string_inj inj_map_eq_map injI)

text \<open>The text names an IPv6 client that is folded to its allocation prefix.\<close>

definition ipv6_client :: "js_string \<Rightarrow> js_string list \<Rightarrow> bool" where
  "ipv6_client a g \<longleftrightarrow>
     (case unbracket a of None \<Rightarrow> False
      | Some h \<Rightarrow> fold_host h \<noteq> None \<and> ip_port (map lower_char h) = None \<and> expand_ipv6 (map lower_char h) = Some g)"

lemma ipv6_client_key:
  assumes c: "ipv6_client a g" and l: "length a \<le> L" "21 \<le> L"
  shows "rate_limit_key a L = colon_join (prefix_groups g)"
proof -
  obtain h where h: "unbracket a = Some h" "fold_host h \<noteq> None" "ip_port (map lower_char h) = None"
      "expand_ipv6 (map lower_char h) = Some g"
    using c by (auto simp: ipv6_client_def split: option.splits)
  then have "fold_to_prefix a = colon_join (prefix_groups g)"
    by (auto simp: fold_to_prefix_def fold_host_def Let_def split: if_splits)
  moreover obtain ns where "prefix_groups g = map hex_string ns" "length ns \<le> 4" "\<forall>n \<in> set ns. n < 65536"
    using prefix_groups_map [OF h(4)] by blast
  then have "length (colon_join (prefix_groups g)) \<le> L" using key_length [of ns] l by simp
  ultimately show ?thesis using l by (simp add: rate_limit_key_def)
qed

section \<open>Keys of IPv4 clients\<close>

lemma split_on_not_Nil: "split_on c s \<noteq> []"
  by (induction s) (auto split: list.split)

lemma split_on_mem: "x \<in> set s \<Longrightarrow> x = c \<or> (\<exists>p \<in> set (split_on c s). x \<in> set p)"
proof (induction s)
  case (Cons y s)
  then show ?case using split_on_not_Nil [of c s]
    by (cases "split_on c s") auto
qed simp

lemma split_on_single: "c \<notin> set s \<Longrightarrow> split_on c s = [s]"
  by (induction s) auto

lemma split_on_pair: "c \<notin> set a \<Longrightarrow> c \<notin> set b \<Longrightarrow> split_on c (a @ c # b) = [a, b]"
  by (induction a) (auto simp: split_on_single)

definition dotted_quad :: "js_string \<Rightarrow> bool" where
  "dotted_quad ip \<longleftrightarrow> length (split_on (cc 46) ip) = 4 \<and> list_all (digits_upto 3) (split_on (cc 46) ip) \<and>
     list_all octet_ok (split_on (cc 46) ip)"

lemma quad_chars: "dotted_quad ip \<Longrightarrow> c \<in> set ip \<Longrightarrow> c = cc 46 \<or> is_digit c"
  using split_on_mem [of c ip "cc 46"] by (auto simp: dotted_quad_def digits_upto_def list_all_iff)

lemma quad_dot: "dotted_quad ip \<Longrightarrow> cc 46 \<in> set ip"
  using split_on_single [of "cc 46" ip] by (cases "cc 46 \<in> set ip") (auto simp: dotted_quad_def)

lemma punctuation:
  "\<not> is_digit (cc 58)" "\<not> is_digit (cc 37)" "\<not> is_digit (cc 91)" "\<not> is_digit (cc 46)"
  "cc 58 \<noteq> cc 46" "cc 37 \<noteq> cc 46" "cc 91 \<noteq> cc 46" "cc 48 \<noteq> cc 46" "cc 37 \<noteq> cc 58" "cc 91 \<noteq> cc 58"
  by (auto simp: is_digit_def unat_cc dest: arg_cong [of _ _ unat])

lemma no_zero_group:
  assumes "cc 46 \<in> set ip" and "cc 58 \<notin> set ip"
  shows "\<not> strip_zero_groups (Suc n) (ip @ r)"
proof
  assume z: "strip_zero_groups (Suc n) (ip @ r)"
  define k where "k = length (takeWhile (\<lambda>c. c = cc 48) (ip @ r))"
  have k: "k < length (ip @ r)" "(ip @ r) ! k = cc 58" using z by (simp_all add: k_def Let_def)
  have "cc 46 \<in> set (take k (ip @ r))"
  proof -
    have "\<not> k < length ip"
    proof
      assume less: "k < length ip"
      then have "ip ! k = cc 58" using k(2) by (simp add: nth_append)
      with nth_mem [OF less] assms(2) show False by metis
    qed
    then show ?thesis using assms(1) by simp
  qed
  moreover have "take k (ip @ r) = takeWhile (\<lambda>c. c = cc 48) (ip @ r)" by (metis k_def takeWhile_eq_take)
  ultimately have "cc 46 = cc 48" by (metis set_takeWhileD)
  then show False using punctuation(8) by simp
qed

lemma lower_same: "c = cc 46 \<or> c = cc 58 \<or> is_digit c \<Longrightarrow> lower_char c = c"
  by (auto simp: lower_char_def is_digit_def unat_cc)

lemma quad_port_fold:
  assumes q: "dotted_quad ip" and p: "digits_upto 5 port" "dec_value port \<le> 65535"
  shows "fold_to_prefix (ip @ cc 58 # port) = ip"
proof -
  let ?s = "ip @ cc 58 # port"
  have n58: "cc 58 \<notin> set ip" and n37: "cc 37 \<notin> set ?s" and p58: "cc 58 \<notin> set port"
    using quad_chars [OF q] punctuation p(1) by (auto simp: digits_upto_def list_all_iff)
  have ne: "ip \<noteq> []" using quad_dot [OF q] by auto
  have first: "ip ! 0 = cc 46 \<or> is_digit (ip ! 0)" using quad_chars [OF q, of "ip ! 0"] ne by simp
  then have "ip ! 0 \<noteq> cc 91" using punctuation by auto
  then have u: "unbracket ?s = Some ?s" using ne by (simp add: unbracket_def nth_append)
  have "take 2 ?s \<noteq> [cc 58, cc 58]" using first ne punctuation by (cases ip) auto
  then have z: "\<not> zero_prefix ?s"
    using no_zero_group [OF quad_dot [OF q] n58, of 3 "cc 58 # port"]
    by (simp add: zero_prefix_def eval_nat_numeral del: strip_zero_groups.simps)
  have low: "map lower_char ?s = ?s"
    using quad_chars [OF q] p(1) by (intro map_idI lower_same) (auto simp: digits_upto_def list_all_iff)
  have ipp: "ip_port ?s = Some (ip, port)"
    using q p(1) by (simp add: ip_port_def split_on_pair [OF n58 p58] dotted_quad_def)
  have "fold_host ?s = Some ip" unfolding fold_host_def Let_def low ipp
    using n37 z p(2) q by (simp add: dotted_quad_def)
  then show ?thesis by (simp add: fold_to_prefix_def u)
qed

lemma quad_fold: "dotted_quad ip \<Longrightarrow> fold_to_prefix ip = ip"
proof -
  assume q: "dotted_quad ip"
  have n58: "cc 58 \<notin> set ip" using quad_chars [OF q] punctuation by auto
  have ne: "ip \<noteq> []" using quad_dot [OF q] by auto
  have "ip ! 0 \<noteq> cc 91" using quad_chars [OF q, of "ip ! 0"] ne punctuation by auto
  then have "unbracket ip = Some ip" by (simp add: unbracket_def)
  then show ?thesis using n58 by (simp add: fold_to_prefix_def fold_host_def)
qed

section \<open>Properties\<close>

text \<open>Two IPv6 clients share a bucket exactly when their allocation prefixes are the same
  numbers: the first 64 bits, or the first 48 for 6to4. However the addresses are spelled, no two
  prefixes are ever merged and no prefix is split.\<close>

theorem ipv6_bucket_iff:
  assumes "ipv6_client a g" and "ipv6_client b h" and "length a \<le> L" and "length b \<le> L" and "21 \<le> L"
  shows "rate_limit_key a L = rate_limit_key b L \<longleftrightarrow>
    map hex_value (prefix_groups g) = map hex_value (prefix_groups h)"
proof -
  obtain a' where "expand_ipv6 a' = Some g" using assms(1) by (auto simp: ipv6_client_def split: option.splits)
  then obtain ns where ns: "prefix_groups g = map hex_string ns" using prefix_groups_map by blast
  obtain b' where "expand_ipv6 b' = Some h" using assms(2) by (auto simp: ipv6_client_def split: option.splits)
  then obtain ms where ms: "prefix_groups h = map hex_string ms" using prefix_groups_map by blast
  have "rate_limit_key a L = rate_limit_key b L \<longleftrightarrow> map hex_string ns = map hex_string ms"
    unfolding ipv6_client_key [OF assms(1,3,5)] ipv6_client_key [OF assms(2,4,5)] ns ms
    by (intro colon_join_inj) (auto simp: list_all_iff plain_hex_string)
  then show ?thesis unfolding ns ms by (simp add: map_hex_eq comp_def hex_value_string)
qed

lemma replicate_eval:
  "replicate 5 x = [x, x, x, x, x]" "replicate 4 x = [x, x, x, x]" "replicate 2 x = [x, x]"
  by (simp_all add: numeral_eq_Suc)

lemmas address_eval = js_of_def cc_def lower_char_def Let_def is_hex_def is_digit_def hex_value_def hex_digit_def
  hex_digit_value_def hex_group_def split_embedded_def expand_groups_def split_nonempty_def finish_groups_def
  replicate_eval

lemma no_leading_zero: "takeWhile (\<lambda>c. c = cc 48) s = [] \<Longrightarrow> \<not> strip_zero_groups 4 s"
  by (simp add: numeral_eq_Suc Let_def)

lemma sample_ipv6_plain:
  "ipv6_client (js_of ''2001:DB8::1'') (map js_of [''2001'', ''db8'', ''0'', ''0'', ''0'', ''0'', ''0'', ''1''])"
proof -
  have l: "map lower_char (js_of ''2001:DB8::1'') = js_of ''2001:db8::1''" by (simp add: address_eval)
  have e: "expand_ipv6 (js_of ''2001:db8::1'') = Some (map js_of [''2001'', ''db8'', ''0'', ''0'', ''0'', ''0'', ''0'', ''1''])"
    by (simp add: expand_ipv6_def address_eval hex_string.simps)
  have i: "ip_port (js_of ''2001:db8::1'') = None" by (simp add: ip_port_def address_eval)
  have z: "\<not> zero_prefix (js_of ''2001:DB8::1'')" by (simp add: zero_prefix_def no_leading_zero address_eval)
  have f: "fold_host (js_of ''2001:DB8::1'') \<noteq> None"
    using z by (simp add: fold_host_def l e i Let_def shared_prefix_def) (simp add: address_eval)
  have u: "unbracket (js_of ''2001:DB8::1'') = Some (js_of ''2001:DB8::1'')" by (simp add: unbracket_def address_eval)
  show ?thesis using f by (simp add: ipv6_client_def u l i e)
qed

lemma sample_ipv6_bracketed:
  "ipv6_client (js_of ''[2001:db8:0:0:ffff::2]:443'') (map js_of [''2001'', ''db8'', ''0'', ''0'', ''ffff'', ''0'', ''0'', ''2''])"
proof -
  let ?h = "js_of ''2001:db8:0:0:ffff::2''"
  have l: "map lower_char ?h = ?h" by (simp add: address_eval)
  have e: "expand_ipv6 ?h = Some (map js_of [''2001'', ''db8'', ''0'', ''0'', ''ffff'', ''0'', ''0'', ''2''])"
    by (simp add: expand_ipv6_def address_eval hex_string.simps)
  have i: "ip_port ?h = None" by (simp add: ip_port_def address_eval)
  have z: "\<not> zero_prefix ?h" by (simp add: zero_prefix_def no_leading_zero address_eval)
  have f: "fold_host ?h \<noteq> None"
    using z by (simp add: fold_host_def l e i Let_def shared_prefix_def) (simp add: address_eval)
  have u: "unbracket (js_of ''[2001:db8:0:0:ffff::2]:443'') = Some ?h"
    by (simp add: unbracket_def index_of_def digits_upto_def dec_value_def address_eval)
  show ?thesis using f by (simp add: ipv6_client_def u l i e)
qed

theorem ipv6_bucket_iff_witness:
  "rate_limit_key (js_of ''2001:DB8::1'') 64 = rate_limit_key (js_of ''[2001:db8:0:0:ffff::2]:443'') 64"
  using ipv6_bucket_iff [OF sample_ipv6_plain sample_ipv6_bracketed, of 64] by (simp add: prefix_groups_def)

text \<open>A port is not part of a client's identity: an IPv4 address with any port has the key of
  the bare address, the address itself.\<close>

theorem ipv4_port_dropped:
  assumes "dotted_quad ip" and "digits_upto 5 port" and "dec_value port \<le> 65535"
    and "length (ip @ cc 58 # port) \<le> L"
  shows "rate_limit_key (ip @ cc 58 # port) L = ip \<and> rate_limit_key ip L = ip"
  using assms quad_port_fold [OF assms(1-3)] quad_fold [OF assms(1)] by (simp add: rate_limit_key_def)

theorem ipv4_port_dropped_witness:
  "rate_limit_key (js_of ''203.0.113.7'' @ cc 58 # js_of ''51234'') 64 = js_of ''203.0.113.7''"
proof -
  have "dotted_quad (js_of ''203.0.113.7'')"
    by (simp add: dotted_quad_def digits_upto_def octet_ok_def dec_value_def address_eval)
  moreover have "digits_upto 5 (js_of ''51234'')" and "dec_value (js_of ''51234'') \<le> 65535"
    by (simp_all add: digits_upto_def dec_value_def address_eval)
  moreover have "length (js_of ''203.0.113.7'' @ cc 58 # js_of ''51234'') \<le> 64" by simp
  ultimately show ?thesis using ipv4_port_dropped by blast
qed

end
