(* ===== verification/Restart_Supervisor.thy ===== *)
theory Restart_Supervisor
  imports Prelude
begin

text \<open>
  The crash-restart supervisor of the cluster primary, \<open>src/runtime/restart-supervisor.js\<close>.

  A slot is named by its key \<open>role#index\<close>. A pending respawn timer is the delay it was armed
  with; its firing is an event, as is everything a worker reports. The spawn callback of the
  primary calls \<open>noteSpawn\<close> first, so a firing timer does. Clock readings are event arguments,
  and the primary's shutting-down flag is part of the state.
\<close>

section \<open>State\<close>

record slot_state =
  sl_attempts :: nat
  sl_delay :: nat
  sl_timer :: "nat option"
  sl_live :: bool
  sl_spawning :: bool
  sl_ready_at :: "real option"

record supervisor =
  sv_delay_base :: nat
  sv_delay_max :: nat
  sv_max_attempts :: nat
  sv_stable_ms :: real
  sv_down :: bool
  sv_slots :: "(js_string, slot_state) jsmap"
  sv_spawned :: "js_string list"
  sv_exhausted :: "js_string list"

datatype exit_result = ExitShutdown | ExitRestart nat nat | ExitExhausted nat

definition fresh_slot :: slot_state where
  "fresh_slot = \<lparr>sl_attempts = 0, sl_delay = 0, sl_timer = None, sl_live = False, sl_spawning = False, sl_ready_at = None\<rparr>"

definition create_supervisor :: "nat \<Rightarrow> nat \<Rightarrow> nat \<Rightarrow> real \<Rightarrow> supervisor" where
  "create_supervisor delay_base delay_max max_attempts stable_ms =
     \<lparr>sv_delay_base = delay_base, sv_delay_max = delay_max, sv_max_attempts = max_attempts,
      sv_stable_ms = stable_ms, sv_down = False, sv_slots = [], sv_spawned = [], sv_exhausted = []\<rparr>"

section \<open>Operations\<close>

definition state_of :: "js_string \<Rightarrow> supervisor \<Rightarrow> slot_state" where
  "state_of k v = (case jm_get (sv_slots v) k of None \<Rightarrow> fresh_slot | Some s \<Rightarrow> s)"

definition put_slot :: "js_string \<Rightarrow> slot_state \<Rightarrow> supervisor \<Rightarrow> supervisor" where
  "put_slot k s v = v\<lparr>sv_slots := jm_set k s (sv_slots v)\<rparr>"

definition cancel_timer :: "slot_state \<Rightarrow> slot_state" where
  "cancel_timer s = s\<lparr>sl_timer := None\<rparr>"

text \<open>The delay used, or nothing when a timer is pending or the primary is going down.\<close>

definition schedule_slot :: "bool \<Rightarrow> slot_state \<Rightarrow> nat option \<times> slot_state" where
  "schedule_slot down s =
     (if down \<or> sl_timer s \<noteq> None then (None, s) else (Some (sl_delay s), s\<lparr>sl_timer := Some (sl_delay s)\<rparr>))"

definition register_slot :: "js_string \<Rightarrow> supervisor \<Rightarrow> supervisor" where
  "register_slot k v = put_slot k (state_of k v) v"

definition note_spawn :: "js_string \<Rightarrow> supervisor \<Rightarrow> supervisor" where
  "note_spawn k v = put_slot k ((cancel_timer (state_of k v))\<lparr>sl_live := False, sl_spawning := True, sl_ready_at := None\<rparr>) v"

definition note_ready :: "real \<Rightarrow> js_string \<Rightarrow> supervisor \<Rightarrow> supervisor" where
  "note_ready now k v =
     put_slot k ((cancel_timer (state_of k v))\<lparr>sl_live := True, sl_spawning := False, sl_ready_at := Some now\<rparr>) v"

definition stably_up :: "real \<Rightarrow> real \<Rightarrow> slot_state \<Rightarrow> bool" where
  "stably_up stable_ms now s = (case sl_ready_at s of None \<Rightarrow> False | Some t \<Rightarrow> stable_ms \<le> now - t)"

definition note_exit :: "real \<Rightarrow> js_string \<Rightarrow> supervisor \<Rightarrow> exit_result \<times> supervisor" where
  "note_exit now k v =
     (let s0 = state_of k v;
          s = s0\<lparr>sl_live := False, sl_spawning := False, sl_ready_at := None\<rparr>
      in if sv_down v then (ExitShutdown, put_slot k s v)
      else
        let s = (if stably_up (sv_stable_ms v) now s0 then s\<lparr>sl_attempts := 0, sl_delay := 0\<rparr> else s);
            s = s\<lparr>sl_attempts := sl_attempts s + 1\<rparr>
        in if sv_max_attempts v < sl_attempts s
           then (ExitExhausted (sl_attempts s), (put_slot k s v)\<lparr>sv_exhausted := sv_exhausted v @ [k]\<rparr>)
           else
             let s = s\<lparr>sl_delay := (if sl_delay s \<noteq> 0 then min (sl_delay s * 2) (sv_delay_max v) else sv_delay_base v)\<rparr>
             in case schedule_slot (sv_down v) s of
                  (delay, s) \<Rightarrow> (ExitRestart (case delay of None \<Rightarrow> sl_delay s | Some d \<Rightarrow> d) (sl_attempts s), put_slot k s v))"

definition timer_due :: "js_string \<Rightarrow> supervisor \<Rightarrow> supervisor" where
  "timer_due k v =
     (let s = state_of k v in
      if sl_timer s = None then v
      else
        let v = put_slot k (cancel_timer s) v
        in if sv_down v then v else note_spawn k (v\<lparr>sv_spawned := sv_spawned v @ [k]\<rparr>))"

definition dropped_slot :: "supervisor \<Rightarrow> slot_state \<Rightarrow> bool" where
  "dropped_slot v s \<longleftrightarrow> \<not> sl_live s \<and> \<not> sl_spawning s \<and> sl_timer s = None \<and> sl_attempts s \<le> sv_max_attempts v"

definition reconcile :: "supervisor \<Rightarrow> nat \<times> supervisor" where
  "reconcile v =
     (if sv_down v then (0, v)
      else (length (filter (\<lambda>p. dropped_slot v (snd p)) (sv_slots v)),
            v\<lparr>sv_slots := map (\<lambda>(k, s). (k, if dropped_slot v s then snd (schedule_slot (sv_down v) s) else s)) (sv_slots v)\<rparr>))"

definition stop_all :: "supervisor \<Rightarrow> supervisor" where
  "stop_all v = v\<lparr>sv_slots := map (\<lambda>(k, s). (k, cancel_timer s)) (sv_slots v)\<rparr>"

definition desired :: "supervisor \<Rightarrow> nat" where
  "desired v = jm_size (sv_slots v)"

definition live_count :: "supervisor \<Rightarrow> nat" where
  "live_count v = length (filter (\<lambda>p. sl_live (snd p)) (sv_slots v))"

definition pending_count :: "supervisor \<Rightarrow> nat" where
  "pending_count v = length (filter (\<lambda>p. sl_timer (snd p) \<noteq> None) (sv_slots v))"

definition has_pending :: "js_string \<Rightarrow> supervisor \<Rightarrow> bool" where
  "has_pending k v = (case jm_get (sv_slots v) k of None \<Rightarrow> False | Some s \<Rightarrow> sl_timer s \<noteq> None)"

definition attempts_for :: "js_string \<Rightarrow> supervisor \<Rightarrow> nat" where
  "attempts_for k v = (case jm_get (sv_slots v) k of None \<Rightarrow> 0 | Some s \<Rightarrow> sl_attempts s)"

datatype slot_event =
    SRegister js_string
  | SSpawn js_string
  | SReady real js_string
  | SExit real js_string
  | STimer js_string
  | SReconcile
  | SShutdown

text \<open>Shutting down raises the flag and cancels every pending respawn.\<close>

fun supervisor_step :: "supervisor \<Rightarrow> slot_event \<Rightarrow> supervisor" where
  "supervisor_step v (SRegister k) = register_slot k v"
| "supervisor_step v (SSpawn k) = note_spawn k v"
| "supervisor_step v (SReady now k) = note_ready now k v"
| "supervisor_step v (SExit now k) = snd (note_exit now k v)"
| "supervisor_step v (STimer k) = timer_due k v"
| "supervisor_step v SReconcile = snd (reconcile v)"
| "supervisor_step v SShutdown = stop_all (v\<lparr>sv_down := True\<rparr>)"

section \<open>The invariant\<close>

definition idle_slot :: "slot_state \<Rightarrow> bool" where
  "idle_slot s \<longleftrightarrow> \<not> sl_live s \<and> \<not> sl_spawning s \<and> sl_timer s = None"

definition slot_excl :: "slot_state \<Rightarrow> bool" where
  "slot_excl s \<longleftrightarrow> \<not> (sl_live s \<and> sl_spawning s) \<and> (sl_timer s \<noteq> None \<longrightarrow> \<not> sl_live s \<and> \<not> sl_spawning s)"

definition backoff :: "nat \<Rightarrow> nat \<Rightarrow> nat \<Rightarrow> nat" where
  "backoff b m n = (if n = 0 then 0 else min (b * 2 ^ (n - 1)) m)"

definition slot_ok :: "supervisor \<Rightarrow> slot_state \<Rightarrow> bool" where
  "slot_ok v s \<longleftrightarrow> slot_excl s \<and> (sv_down v \<longrightarrow> sl_timer s = None) \<and>
     (sl_attempts s \<le> sv_max_attempts v \<longrightarrow> sl_delay s = backoff (sv_delay_base v) (sv_delay_max v) (sl_attempts s)) \<and>
     (idle_slot s \<longrightarrow> sv_down v \<or> sv_max_attempts v < sl_attempts s \<or> s = fresh_slot)"

definition supervisor_inv :: "supervisor \<Rightarrow> bool" where
  "supervisor_inv v \<longleftrightarrow> 0 < sv_delay_base v \<and> sv_delay_base v \<le> sv_delay_max v \<and> jm_wf (sv_slots v) \<and>
     (\<forall>k s. jm_get (sv_slots v) k = Some s \<longrightarrow> slot_ok v s)"

lemma put_slot_sel [simp]:
  "sv_delay_base (put_slot k s v) = sv_delay_base v" "sv_delay_max (put_slot k s v) = sv_delay_max v"
  "sv_max_attempts (put_slot k s v) = sv_max_attempts v" "sv_stable_ms (put_slot k s v) = sv_stable_ms v"
  "sv_down (put_slot k s v) = sv_down v" "sv_spawned (put_slot k s v) = sv_spawned v"
  "sv_exhausted (put_slot k s v) = sv_exhausted v" "sv_slots (put_slot k s v) = jm_set k s (sv_slots v)"
  by (simp_all add: put_slot_def)

lemma state_of_put [simp]: "state_of k (put_slot k' s v) = (if k = k' then s else state_of k v)"
  by (simp add: state_of_def)

lemma slot_ok_state_of: "supervisor_inv v \<Longrightarrow> slot_ok v (state_of k v)"
  by (cases "jm_get (sv_slots v) k")
    (simp_all add: supervisor_inv_def state_of_def, simp add: slot_ok_def slot_excl_def fresh_slot_def backoff_def)

lemma slot_ok_cong: "sv_delay_base v = sv_delay_base v' \<Longrightarrow> sv_delay_max v = sv_delay_max v' \<Longrightarrow>
    sv_max_attempts v = sv_max_attempts v' \<Longrightarrow> sv_down v = sv_down v' \<Longrightarrow> slot_ok v s \<longleftrightarrow> slot_ok v' s"
  by (simp add: slot_ok_def)

lemma inv_put_slot: "supervisor_inv v \<Longrightarrow> slot_ok v s \<Longrightarrow> supervisor_inv (put_slot k s v)"
  by (auto simp: supervisor_inv_def slot_ok_cong [of "put_slot k s v" v])

lemma inv_logs [simp]:
  "supervisor_inv (v\<lparr>sv_spawned := x\<rparr>) \<longleftrightarrow> supervisor_inv v" "supervisor_inv (v\<lparr>sv_exhausted := y\<rparr>) \<longleftrightarrow> supervisor_inv v"
  by (simp_all add: supervisor_inv_def slot_ok_def)

lemma state_of_logs [simp]:
  "state_of k (v\<lparr>sv_spawned := x\<rparr>) = state_of k v" "state_of k (v\<lparr>sv_exhausted := y\<rparr>) = state_of k v"
  by (simp_all add: state_of_def)

lemma inv_note_spawn: "supervisor_inv v \<Longrightarrow> supervisor_inv (note_spawn k v)"
  using slot_ok_state_of [of v k]
  by (auto simp: note_spawn_def slot_ok_def slot_excl_def idle_slot_def cancel_timer_def intro!: inv_put_slot)

lemma inv_note_ready: "supervisor_inv v \<Longrightarrow> supervisor_inv (note_ready now k v)"
  using slot_ok_state_of [of v k]
  by (auto simp: note_ready_def slot_ok_def slot_excl_def idle_slot_def cancel_timer_def intro!: inv_put_slot)

lemma backoff_Suc:
  assumes "0 < b" and "b \<le> m"
  shows "(if backoff b m n \<noteq> 0 then min (backoff b m n * 2) m else b) = backoff b m (Suc n)"
proof (cases n)
  case 0
  then show ?thesis using assms by (simp add: backoff_def)
next
  case (Suc j)
  have "min (min (b * 2 ^ j) m * 2) m = min (b * 2 ^ Suc j) m"
    by (cases "b * 2 ^ j \<le> m") (auto simp: min_def)
  moreover have "0 < min (b * 2 ^ j) m" using assms by simp
  ultimately show ?thesis by (simp add: backoff_def Suc)
qed

lemma note_exit_state:
  "note_exit now k v =
     (let s0 = state_of k v; up = stably_up (sv_stable_ms v) now s0;
          n = (if up then 0 else sl_attempts s0); d = (if up then 0 else sl_delay s0);
          s = s0\<lparr>sl_live := False, sl_spawning := False, sl_ready_at := None\<rparr>
      in if sv_down v then (ExitShutdown, put_slot k s v)
      else if sv_max_attempts v < Suc n
      then (ExitExhausted (Suc n), (put_slot k (s\<lparr>sl_attempts := Suc n, sl_delay := d\<rparr>) v)\<lparr>sv_exhausted := sv_exhausted v @ [k]\<rparr>)
      else
        let e = (if d \<noteq> 0 then min (d * 2) (sv_delay_max v) else sv_delay_base v);
            t = (if sl_timer s0 = None then Some e else sl_timer s0)
        in (ExitRestart e (Suc n), put_slot k (s\<lparr>sl_attempts := Suc n, sl_delay := e, sl_timer := t\<rparr>) v))"
  by (cases "state_of k v") (auto simp: note_exit_def Let_def schedule_slot_def)

lemma inv_note_exit:
  assumes i: "supervisor_inv v"
  shows "supervisor_inv (snd (note_exit now k v))"
proof -
  have ok: "slot_ok v (state_of k v)" by (rule slot_ok_state_of [OF i])
  have b: "0 < sv_delay_base v" "sv_delay_base v \<le> sv_delay_max v" using i by (simp_all add: supervisor_inv_def)
  define n where "n = (if stably_up (sv_stable_ms v) now (state_of k v) then 0 else sl_attempts (state_of k v))"
  define d where "d = (if stably_up (sv_stable_ms v) now (state_of k v) then 0 else sl_delay (state_of k v))"
  have nd: "Suc n \<le> sv_max_attempts v \<Longrightarrow> d = backoff (sv_delay_base v) (sv_delay_max v) n"
    using ok by (cases "stably_up (sv_stable_ms v) now (state_of k v)") (simp_all add: n_def d_def slot_ok_def backoff_def)
  define e where "e = (if d \<noteq> 0 then min (d * 2) (sv_delay_max v) else sv_delay_base v)"
  define t where "t = (if sl_timer (state_of k v) = None then Some e else sl_timer (state_of k v))"
  let ?s = "(state_of k v)\<lparr>sl_live := False, sl_spawning := False, sl_ready_at := None\<rparr>"
  have out: "snd (note_exit now k v) = (if sv_down v then put_slot k ?s v
      else if sv_max_attempts v < Suc n then (put_slot k (?s\<lparr>sl_attempts := Suc n, sl_delay := d\<rparr>) v)\<lparr>sv_exhausted := sv_exhausted v @ [k]\<rparr>
      else put_slot k (?s\<lparr>sl_attempts := Suc n, sl_delay := e, sl_timer := t\<rparr>) v)"
    by (simp add: note_exit_state Let_def n_def d_def e_def t_def)
  have "slot_ok v ?s" if "sv_down v" using ok that by (simp add: slot_ok_def slot_excl_def)
  moreover have "slot_ok v (?s\<lparr>sl_attempts := Suc n, sl_delay := d\<rparr>)" if "sv_max_attempts v < Suc n"
    using ok that by (simp add: slot_ok_def slot_excl_def)
  moreover have "slot_ok v (?s\<lparr>sl_attempts := Suc n, sl_delay := e, sl_timer := t\<rparr>)" if "Suc n \<le> sv_max_attempts v" "\<not> sv_down v"
  proof -
    have "e = backoff (sv_delay_base v) (sv_delay_max v) (Suc n)" unfolding e_def nd [OF that(1)] by (rule backoff_Suc [OF b])
    moreover obtain u where "t = Some u" by (cases t) (simp_all add: t_def split: if_splits)
    ultimately show ?thesis using that(2) by (simp add: slot_ok_def slot_excl_def idle_slot_def)
  qed
  ultimately show ?thesis unfolding out using i by (auto intro!: inv_put_slot)
qed

lemma inv_timer_due: "supervisor_inv v \<Longrightarrow> supervisor_inv (timer_due k v)"
proof -
  assume i: "supervisor_inv v"
  have ok: "slot_ok v (state_of k v)" by (rule slot_ok_state_of [OF i])
  show ?thesis
  proof (cases "sl_timer (state_of k v) = None")
    case True
    then show ?thesis using i by (simp add: timer_due_def)
  next
    case False
    then obtain d where d: "sl_timer (state_of k v) = Some d" by blast
    then have "\<not> sv_down v" using ok by (auto simp: slot_ok_def)
    moreover have "note_spawn k ((put_slot k (cancel_timer (state_of k v)) v)\<lparr>sv_spawned := x\<rparr>) =
        (put_slot k ((cancel_timer (state_of k v))\<lparr>sl_live := False, sl_spawning := True, sl_ready_at := None\<rparr>)
          (put_slot k (cancel_timer (state_of k v)) v))\<lparr>sv_spawned := x\<rparr>" for x
      by (simp add: note_spawn_def put_slot_def cancel_timer_def state_of_def)
    moreover have "supervisor_inv (put_slot k ((cancel_timer (state_of k v))\<lparr>sl_live := False, sl_spawning := True, sl_ready_at := None\<rparr>)
          (put_slot k (cancel_timer (state_of k v)) v))"
    proof -
      have e: "put_slot k x (put_slot k y v) = put_slot k x v" for x y
      proof -
        have "jm_set k x (jm_set k y m) = jm_set k x m" for m :: "(js_string, slot_state) jsmap" by (induction m) auto
        then show ?thesis by (simp add: put_slot_def)
      qed
      show ?thesis using ok unfolding e
        by (intro inv_put_slot [OF i]) (auto simp: slot_ok_def slot_excl_def idle_slot_def cancel_timer_def)
    qed
    ultimately show ?thesis using d by (simp add: timer_due_def Let_def)
  qed
qed

lemma slot_ok_reschedule: "slot_ok v s \<Longrightarrow> dropped_slot v s \<Longrightarrow> \<not> sv_down v \<Longrightarrow> slot_ok v (snd (schedule_slot (sv_down v) s))"
  unfolding slot_ok_def dropped_slot_def schedule_slot_def slot_excl_def idle_slot_def by auto

lemma inv_map_slots:
  assumes "supervisor_inv v" and "\<And>s. slot_ok v s \<Longrightarrow> slot_ok v' (f s)"
    and "sv_delay_base v' = sv_delay_base v" "sv_delay_max v' = sv_delay_max v"
    and "sv_slots v' = map (\<lambda>(k, s). (k, f s)) (sv_slots v)"
  shows "supervisor_inv v'"
  using assms by (auto simp: supervisor_inv_def jm_wf_map jm_get_map_value)

lemma inv_reconcile:
  assumes i: "supervisor_inv v"
  shows "supervisor_inv (snd (reconcile v))"
proof (cases "sv_down v")
  case True
  then show ?thesis using i by (simp add: reconcile_def)
next
  case False
  let ?f = "\<lambda>s. if dropped_slot v s then snd (schedule_slot (sv_down v) s) else s"
  have "slot_ok (snd (reconcile v)) s \<longleftrightarrow> slot_ok v s" for s
    by (intro slot_ok_cong) (simp_all add: reconcile_def)
  then show ?thesis
    using False slot_ok_reschedule [of v] by (intro inv_map_slots [OF i, of _ ?f]) (auto simp: reconcile_def)
qed

lemma inv_shutdown: "supervisor_inv v \<Longrightarrow> supervisor_inv (stop_all (v\<lparr>sv_down := True\<rparr>))"
  by (rule inv_map_slots [of v _ cancel_timer])
    (auto simp: stop_all_def slot_ok_def cancel_timer_def slot_excl_def idle_slot_def)

lemma inv_supervisor_step: "supervisor_inv v \<Longrightarrow> supervisor_inv (supervisor_step v e)"
  by (cases e) (auto simp: inv_note_spawn inv_note_ready inv_note_exit inv_timer_due inv_reconcile inv_shutdown
      register_slot_def intro: inv_put_slot slot_ok_state_of)

interpretation supervisor: machine "create_supervisor b m n st" supervisor_step
    "\<lambda>v. 0 < b \<and> b \<le> m \<longrightarrow> supervisor_inv v" for b m n st
  by unfold_locales (auto simp: inv_supervisor_step, simp add: supervisor_inv_def create_supervisor_def)

section \<open>Counting the slots\<close>

definition spawning_count :: "supervisor \<Rightarrow> nat" where
  "spawning_count v = length (filter (\<lambda>p. sl_spawning (snd p)) (sv_slots v))"

definition exhausted_count :: "supervisor \<Rightarrow> nat" where
  "exhausted_count v = length (filter (\<lambda>p. idle_slot (snd p) \<and> sv_max_attempts v < sl_attempts (snd p)) (sv_slots v))"

lemma count_four:
  assumes "\<forall>p \<in> set m. slot_excl (snd p)" and "\<forall>p \<in> set m. idle_slot (snd p) \<longrightarrow> n < sl_attempts (snd p)"
  shows "length m = length (filter (\<lambda>p. sl_live (snd p)) m) + length (filter (\<lambda>p. sl_spawning (snd p)) m)
    + length (filter (\<lambda>p. sl_timer (snd p) \<noteq> None) m)
    + length (filter (\<lambda>p. idle_slot (snd p) \<and> n < sl_attempts (snd p)) m)"
  using assms by (induction m) (auto simp: slot_excl_def idle_slot_def)

lemma supervisor_inv_mem: "supervisor_inv v \<Longrightarrow> p \<in> set (sv_slots v) \<Longrightarrow> slot_ok v (snd p)"
  using jm_get_iff_mem [of "sv_slots v" "fst p" "snd p"] by (auto simp: supervisor_inv_def)

lemma reconcile_fills:
  assumes "\<not> sv_down v" and "p \<in> set (sv_slots (snd (reconcile v)))" and "idle_slot (snd p)"
  shows "sv_max_attempts v < sl_attempts (snd p)"
  using assms by (auto simp: reconcile_def idle_slot_def dropped_slot_def schedule_slot_def split: if_splits)

lemma down_only_by_shutdown: "e \<noteq> SShutdown \<Longrightarrow> sv_down (supervisor_step v e) = sv_down v"
  by (cases e) (auto simp: register_slot_def note_spawn_def note_ready_def note_exit_state timer_due_def reconcile_def Let_def)

lemma up_run: "SShutdown \<notin> set es \<Longrightarrow> sv_down (foldl supervisor_step v es) = sv_down v"
proof (induction es arbitrary: v)
  case (Cons e es)
  then show ?case using down_only_by_shutdown [of e v] Cons.IH [of "supervisor_step v e"] by auto
qed simp

lemma params_step:
  "sv_max_attempts (supervisor_step v e) = sv_max_attempts v \<and> sv_delay_base (supervisor_step v e) = sv_delay_base v \<and>
   sv_delay_max (supervisor_step v e) = sv_delay_max v \<and> sv_stable_ms (supervisor_step v e) = sv_stable_ms v"
  by (cases e) (auto simp: register_slot_def note_spawn_def note_ready_def note_exit_state timer_due_def reconcile_def
      stop_all_def Let_def)

lemma params_run:
  "sv_max_attempts (foldl supervisor_step v es) = sv_max_attempts v \<and> sv_delay_base (foldl supervisor_step v es) = sv_delay_base v \<and>
   sv_delay_max (foldl supervisor_step v es) = sv_delay_max v \<and> sv_stable_ms (foldl supervisor_step v es) = sv_stable_ms v"
  by (induction es arbitrary: v) (simp_all add: params_step)

section \<open>Flapping\<close>

text \<open>How often a slot exits in a run, and whether none of these exits follows a stable uptime.\<close>

definition exits_of :: "js_string \<Rightarrow> slot_event list \<Rightarrow> nat" where
  "exits_of k es = length (filter (\<lambda>e. case e of SExit now k' \<Rightarrow> k' = k | _ \<Rightarrow> False) es)"

fun flapping :: "js_string \<Rightarrow> supervisor \<Rightarrow> slot_event list \<Rightarrow> bool" where
  "flapping k v [] \<longleftrightarrow> True"
| "flapping k v (e # es) \<longleftrightarrow>
     (case e of SExit now k' \<Rightarrow> k' = k \<longrightarrow> \<not> stably_up (sv_stable_ms v) now (state_of k v) | _ \<Rightarrow> True) \<and>
     flapping k (supervisor_step v e) es"

lemma attempts_for_state: "attempts_for k v = sl_attempts (state_of k v)"
  by (simp add: attempts_for_def state_of_def fresh_slot_def split: option.split)

lemma state_of_map:
  "f fresh_slot = fresh_slot \<Longrightarrow> sv_slots v' = map (\<lambda>(k, s). (k, f s)) (sv_slots v) \<Longrightarrow> state_of k v' = f (state_of k v)"
  by (simp add: state_of_def jm_get_map_value split: option.split)

lemma attempts_schedule [simp]: "sl_attempts (snd (schedule_slot d s)) = sl_attempts s"
  by (simp add: schedule_slot_def)

lemma attempts_map:
  "(\<And>s. sl_attempts (f s) = sl_attempts s) \<Longrightarrow> sv_slots v' = map (\<lambda>(k, s). (k, f s)) (sv_slots v) \<Longrightarrow>
   attempts_for k v' = attempts_for k v"
  by (simp add: attempts_for_def jm_get_map_value split: option.split)

lemma attempts_step_other:
  assumes "\<And>now. e \<noteq> SExit now k"
  shows "attempts_for k (supervisor_step v e) = attempts_for k v \<and>
    (k \<in> set (sv_exhausted (supervisor_step v e)) \<longleftrightarrow> k \<in> set (sv_exhausted v))"
proof (cases e)
  case SReconcile
  have "attempts_for k (snd (reconcile v)) = attempts_for k v"
  proof (cases "sv_down v")
    case False
    then show ?thesis
      by (intro attempts_map [of "\<lambda>s. if dropped_slot v s then snd (schedule_slot (sv_down v) s) else s"])
        (simp_all add: reconcile_def)
  qed (simp add: reconcile_def)
  then show ?thesis by (simp add: SReconcile, simp add: reconcile_def)
next
  case SShutdown
  have "attempts_for k (stop_all (v\<lparr>sv_down := True\<rparr>)) = attempts_for k v"
    by (rule attempts_map [of cancel_timer]) (simp_all add: cancel_timer_def stop_all_def)
  then show ?thesis by (simp add: SShutdown, simp add: stop_all_def)
qed (use assms in \<open>auto simp: attempts_for_state register_slot_def note_spawn_def note_ready_def note_exit_state
      timer_due_def cancel_timer_def Let_def\<close>)

lemma attempts_step_exit:
  assumes "\<not> sv_down v" and "\<not> stably_up (sv_stable_ms v) now (state_of k v)"
  shows "attempts_for k (supervisor_step v (SExit now k)) = Suc (attempts_for k v) \<and>
    (k \<in> set (sv_exhausted (supervisor_step v (SExit now k))) \<longleftrightarrow>
       k \<in> set (sv_exhausted v) \<or> sv_max_attempts v < Suc (attempts_for k v))"
  using assms by (auto simp: attempts_for_state note_exit_state Let_def)

lemma flapping_run:
  assumes "\<not> sv_down v" and "SShutdown \<notin> set es" and "flapping k v es"
  shows "attempts_for k (foldl supervisor_step v es) = attempts_for k v + exits_of k es \<and>
    (k \<in> set (sv_exhausted (foldl supervisor_step v es)) \<longleftrightarrow>
       k \<in> set (sv_exhausted v) \<or> (0 < exits_of k es \<and> sv_max_attempts v < attempts_for k v + exits_of k es))"
  using assms
proof (induction es arbitrary: v)
  case (Cons e es)
  have up: "\<not> sv_down (supervisor_step v e)" using Cons.prems down_only_by_shutdown [of e v] by auto
  have ih: "attempts_for k (foldl supervisor_step (supervisor_step v e) es) =
      attempts_for k (supervisor_step v e) + exits_of k es \<and>
    (k \<in> set (sv_exhausted (foldl supervisor_step (supervisor_step v e) es)) \<longleftrightarrow>
       k \<in> set (sv_exhausted (supervisor_step v e)) \<or>
       (0 < exits_of k es \<and> sv_max_attempts v < attempts_for k (supervisor_step v e) + exits_of k es))"
    using Cons.IH [OF up] Cons.prems by (simp add: params_step)
  show ?case
  proof (cases "\<exists>now. e = SExit now k")
    case True
    then obtain now where e: "e = SExit now k" by blast
    then have "\<not> stably_up (sv_stable_ms v) now (state_of k v)" using Cons.prems by simp
    then show ?thesis
      using attempts_step_exit [of v now k] Cons.prems(1) ih by (auto simp: e exits_of_def)
  next
    case False
    then have "exits_of k (e # es) = exits_of k es" by (cases e) (auto simp: exits_of_def)
    then show ?thesis using attempts_step_other [of e k v] False ih by auto
  qed
qed (simp add: exits_of_def)

section \<open>Properties\<close>

text \<open>C30: Capacity is accounted for. In every run before shutdown each slot is in at most one of the
  states live, booting and waiting for its respawn, its delay is the base doubled once per
  attempt up to the ceiling, and after \<open>reconcile\<close> the registered slots are exactly the live,
  the booting, the waiting and the exhausted ones; \<open>reconcile\<close> finds nothing but freshly
  registered slots to do.\<close>

theorem supervisor_accounts_slots:
  assumes "0 < b" and "b \<le> m" and "SShutdown \<notin> set es"
    and "v = foldl supervisor_step (create_supervisor b m n st) es"
  shows "(\<forall>k s. jm_get (sv_slots v) k = Some s \<longrightarrow> slot_excl s \<and>
      (sl_attempts s \<le> n \<longrightarrow> sl_delay s = backoff b m (sl_attempts s)) \<and>
      (dropped_slot v s \<longrightarrow> s = fresh_slot)) \<and>
    desired (snd (reconcile v)) = live_count (snd (reconcile v)) + spawning_count (snd (reconcile v))
      + pending_count (snd (reconcile v)) + exhausted_count (snd (reconcile v))"
proof -
  have i: "supervisor_inv v" using supervisor.run_inv [of b m n st es] assms by simp
  have p: "sv_max_attempts v = n" "sv_delay_base v = b" "sv_delay_max v = m"
    using params_run [of "create_supervisor b m n st" es] assms(4) by (simp_all add: create_supervisor_def)
  have up: "\<not> sv_down v" using up_run [OF assms(3)] assms(4) by (simp add: create_supervisor_def)
  have "slot_ok v s" if "jm_get (sv_slots v) k = Some s" for k s using i that by (simp add: supervisor_inv_def)
  then have slots: "\<forall>k s. jm_get (sv_slots v) k = Some s \<longrightarrow> slot_excl s \<and>
      (sl_attempts s \<le> n \<longrightarrow> sl_delay s = backoff b m (sl_attempts s)) \<and> (dropped_slot v s \<longrightarrow> s = fresh_slot)"
    using up by (fastforce simp: slot_ok_def p dropped_slot_def idle_slot_def)
  define w where "w = snd (reconcile v)"
  have w: "supervisor_inv w" "sv_max_attempts w = n" using inv_reconcile [OF i] by (simp_all add: w_def reconcile_def p)
  have "\<forall>p \<in> set (sv_slots w). slot_excl (snd p)"
    using supervisor_inv_mem [OF w(1)] by (auto simp: slot_ok_def)
  moreover have "\<forall>p \<in> set (sv_slots w). idle_slot (snd p) \<longrightarrow> n < sl_attempts (snd p)"
    using reconcile_fills [OF up] p by (auto simp: w_def)
  ultimately have "desired w = live_count w + spawning_count w + pending_count w + exhausted_count w"
    using count_four [of "sv_slots w" n]
    by (simp add: desired_def live_count_def spawning_count_def pending_count_def exhausted_count_def w(2))
  then show ?thesis using slots by (simp add: w_def)
qed

definition sample_supervisor_run :: "slot_event list" where
  "sample_supervisor_run =
     [SRegister [1], SSpawn [1], SReady 0 [1], SExit 5 [1], STimer [1], SReady 6 [1], SExit 7 [1], SRegister [2]]"

lemmas supervisor_eval = create_supervisor_def register_slot_def note_spawn_def note_ready_def note_exit_def timer_due_def
  reconcile_def state_of_def put_slot_def cancel_timer_def schedule_slot_def stably_up_def fresh_slot_def dropped_slot_def
  jm_get_def desired_def live_count_def spawning_count_def pending_count_def exhausted_count_def idle_slot_def Let_def

theorem supervisor_accounts_slots_witness:
  "sv_slots (foldl supervisor_step (create_supervisor 100 5000 3 30000) sample_supervisor_run) =
     [([1], \<lparr>sl_attempts = 2, sl_delay = 200, sl_timer = Some 200, sl_live = False, sl_spawning = False, sl_ready_at = None\<rparr>),
      ([2], fresh_slot)] \<and>
   backoff 100 5000 2 = 200"
proof -
  have e: "sv_slots (foldl supervisor_step (create_supervisor 100 5000 3 30000) sample_supervisor_run) =
     [([1], \<lparr>sl_attempts = 2, sl_delay = 200, sl_timer = Some 200, sl_live = False, sl_spawning = False, sl_ready_at = None\<rparr>),
      ([2], fresh_slot)]"
    by (simp add: sample_supervisor_run_def supervisor_eval)
  then have g: "jm_get (sv_slots (foldl supervisor_step (create_supervisor 100 5000 3 30000) sample_supervisor_run)) [1] =
      Some \<lparr>sl_attempts = 2, sl_delay = 200, sl_timer = Some 200, sl_live = False, sl_spawning = False, sl_ready_at = None\<rparr>"
    by (simp add: jm_get_def)
  have no: "SShutdown \<notin> set sample_supervisor_run" by (simp add: sample_supervisor_run_def)
  have pos: "0 < (100 :: nat)" "100 \<le> (5000 :: nat)" by simp_all
  show ?thesis
    using mp [OF spec [OF spec [OF conjunct1 [OF supervisor_accounts_slots [OF pos no refl]]]] g] e by simp
qed

text \<open>A flapping slot always exhausts. A slot whose every exit comes before it has been up for
  \<open>stableMs\<close> accumulates one attempt per exit, whatever it reports in between and whatever the
  other slots do, and is reported exhausted exactly when its exits pass \<open>maxAttempts\<close>.\<close>

theorem supervisor_flapper_exhausts:
  assumes "SShutdown \<notin> set es" and "flapping k (create_supervisor b m n st) es"
    and "v = foldl supervisor_step (create_supervisor b m n st) es"
  shows "attempts_for k v = exits_of k es \<and> (k \<in> set (sv_exhausted v) \<longleftrightarrow> n < exits_of k es)"
  using flapping_run [of "create_supervisor b m n st" es k] assms
  by (auto simp: create_supervisor_def attempts_for_def)

theorem supervisor_flapper_exhausts_witness:
  "[1] \<in> set (sv_exhausted (foldl supervisor_step (create_supervisor 100 5000 1 30000) sample_supervisor_run)) \<and>
   attempts_for [1] (foldl supervisor_step (create_supervisor 100 5000 1 30000) sample_supervisor_run) = 2"
proof -
  have no: "SShutdown \<notin> set sample_supervisor_run" by (simp add: sample_supervisor_run_def)
  have f: "flapping [1] (create_supervisor 100 5000 1 30000) sample_supervisor_run"
    by (simp add: sample_supervisor_run_def supervisor_eval)
  have "exits_of [1] sample_supervisor_run = 2" by (simp add: exits_of_def sample_supervisor_run_def)
  then show ?thesis using supervisor_flapper_exhausts [OF no f refl] by simp
qed

end
