(* ===== verification/Message_Admission.thy ===== *)
theory Message_Admission
  imports Prelude "HOL-Library.Sublist"
begin

text \<open>
  The established-message gate, \<open>src/runtime/utils/message-admission.js\<close>: normalisation of its
  options, token buckets, per-connection and global concurrency, and the bounded queue.

  A connection is a number (the identity of its socket object), every call of \<open>enter\<close> has a
  ticket, and a permit is the pair of both. Clock readings are arguments. Bucket levels and
  clock readings are reals, so the rounding of doubles is not modelled. The fields from
  \<open>ga_next\<close> on name and log the calls, they hold nothing the code reads.
\<close>

section \<open>Options\<close>

datatype limit_arg = LUndefined | LNumber real | LNotNumber

datatype admission_error =
    NotAnObject
  | UnsupportedFields "js_string list"
  | BadLimit js_string bool
  | QueueNeedsConcurrency

record admission_config =
  ac_conn_rate :: int
  ac_global_rate :: int
  ac_conn_bytes :: int
  ac_global_bytes :: int
  ac_window :: int
  ac_conn_concurrent :: int
  ac_global_concurrent :: int
  ac_max_queue :: int

datatype admission_input = InUndefined | InNotObject | InObject "(js_string \<times> limit_arg) list"

definition safe_integer_arg :: "real \<Rightarrow> bool" where
  "safe_integer_arg x \<longleftrightarrow> x = of_int \<lfloor>x\<rfloor> \<and> \<bar>x\<bar> \<le> 2 ^ 53 - 1"

fun limit_of :: "limit_arg \<Rightarrow> js_string \<Rightarrow> bool \<Rightarrow> admission_error + int" where
  "limit_of LUndefined name positive = Inr 0"
| "limit_of (LNumber x) name positive =
     (if \<not> safe_integer_arg x \<or> x < (if positive then 1 else 0) then Inl (BadLimit name positive) else Inr \<lfloor>x\<rfloor>)"
| "limit_of LNotNumber name positive = Inl (BadLimit name positive)"

definition admission_keys :: "js_string list" where
  "admission_keys = map js_of [''perConnectionRate'', ''globalRate'', ''perConnectionBytesRate'', ''globalBytesRate'',
     ''rateWindowMs'', ''perConnectionConcurrent'', ''globalConcurrent'', ''maxQueue'']"

definition default_window_ms :: int where
  "default_window_ms = 1000"

definition admission_field :: "(js_string \<times> limit_arg) list \<Rightarrow> string \<Rightarrow> limit_arg" where
  "admission_field obj name = (case map_of obj (js_of name) of None \<Rightarrow> LUndefined | Some v \<Rightarrow> v)"

definition admission_defaults :: admission_config where
  "admission_defaults = \<lparr>ac_conn_rate = 0, ac_global_rate = 0, ac_conn_bytes = 0, ac_global_bytes = 0,
     ac_window = default_window_ms, ac_conn_concurrent = 0, ac_global_concurrent = 0, ac_max_queue = 0\<rparr>"

definition normalize_object :: "(js_string \<times> limit_arg) list \<Rightarrow> admission_error + admission_config" where
  "normalize_object obj =
     (let get = (\<lambda>name positive. limit_of (admission_field obj name) (js_of name) positive) in
      try_bind (get ''perConnectionRate'' False) (\<lambda>conn_rate.
      try_bind (get ''globalRate'' False) (\<lambda>global_rate.
      try_bind (if admission_field obj ''rateWindowMs'' = LUndefined then Inr default_window_ms
                else get ''rateWindowMs'' True) (\<lambda>window.
      try_bind (get ''perConnectionBytesRate'' False) (\<lambda>conn_bytes.
      try_bind (get ''globalBytesRate'' False) (\<lambda>global_bytes.
      try_bind (get ''perConnectionConcurrent'' False) (\<lambda>conn_concurrent.
      try_bind (get ''globalConcurrent'' False) (\<lambda>global_concurrent.
      try_bind (get ''maxQueue'' False) (\<lambda>max_queue.
        if 0 < max_queue \<and> conn_concurrent = 0 \<and> global_concurrent = 0 then Inl QueueNeedsConcurrency
        else Inr \<lparr>ac_conn_rate = conn_rate, ac_global_rate = global_rate, ac_conn_bytes = conn_bytes,
          ac_global_bytes = global_bytes, ac_window = window, ac_conn_concurrent = conn_concurrent,
          ac_global_concurrent = global_concurrent, ac_max_queue = max_queue\<rparr>)))))))))"

fun normalize_admission :: "admission_input \<Rightarrow> admission_error + admission_config" where
  "normalize_admission InUndefined = Inr admission_defaults"
| "normalize_admission InNotObject = Inl NotAnObject"
| "normalize_admission (InObject obj) =
     (let unknown = filter (\<lambda>k. k \<notin> set admission_keys) (map fst obj)
      in if unknown \<noteq> [] then Inl (UnsupportedFields unknown) else normalize_object obj)"

section \<open>Token buckets\<close>

record token_bucket =
  tb_tokens :: real
  tb_updated :: real

definition refill :: "token_bucket option \<Rightarrow> int \<Rightarrow> int \<Rightarrow> real \<Rightarrow> token_bucket" where
  "refill bucket capacity window now =
     (case bucket of
        None \<Rightarrow> \<lparr>tb_tokens = of_int capacity, tb_updated = now\<rparr>
      | Some b \<Rightarrow>
          (let elapsed = max 0 (now - tb_updated b)
           in \<lparr>tb_tokens = min (of_int capacity) (tb_tokens b + elapsed * of_int capacity / of_int window), tb_updated = now\<rparr>))"

datatype reject_reason = RateLimit | ConcurrencyLimit | QueueFull | ConnectionClosed

datatype reject_scope = ScConnection | ScGlobal

datatype admission_decision =
    Permitted nat
  | Refused reject_reason reject_scope "int option"
  | Waiting nat

definition retry_after :: "token_bucket \<Rightarrow> int \<Rightarrow> int \<Rightarrow> int \<Rightarrow> int" where
  "retry_after b capacity window cost =
     max 1 \<lceil>(of_int (min cost capacity) - tb_tokens b) * of_int window / of_int capacity\<rceil>"

definition rate_rejection :: "reject_scope \<Rightarrow> token_bucket \<Rightarrow> int \<Rightarrow> int \<Rightarrow> int \<Rightarrow> admission_decision" where
  "rate_rejection scope b capacity window cost = Refused RateLimit scope (Some (retry_after b capacity window cost))"

text \<open>One rate lane of \<open>enter\<close>: off, too few tokens in the refilled bucket, or enough.\<close>

datatype lane = LaneOff | LaneShort token_bucket | LaneOk token_bucket

definition lane_check :: "int \<Rightarrow> int \<Rightarrow> int \<Rightarrow> real \<Rightarrow> token_bucket option \<Rightarrow> lane" where
  "lane_check capacity window cost now bucket =
     (if cost \<le> 0 \<or> capacity \<le> 0 then LaneOff
      else let b = refill bucket capacity window now
           in if tb_tokens b < of_int cost then LaneShort b else LaneOk b)"

fun lane_charge :: "int \<Rightarrow> lane \<Rightarrow> token_bucket option \<Rightarrow> token_bucket option" where
  "lane_charge cost (LaneOk b) old = Some (b\<lparr>tb_tokens := tb_tokens b - of_int cost\<rparr>)"
| "lane_charge cost LaneOff old = old"
| "lane_charge cost (LaneShort b) old = old"

section \<open>The gate\<close>

record conn_gate =
  cg_active :: int
  cg_queued :: int
  cg_rate :: "token_bucket option"
  cg_bytes :: "token_bucket option"
  cg_closed :: bool

record gate =
  ga_config :: admission_config
  ga_conns :: "(nat, conn_gate) jsmap"
  ga_queue :: "(nat \<times> nat) list"
  ga_active :: int
  ga_rate :: "token_bucket option"
  ga_bytes :: "token_bucket option"
  ga_running :: "(nat \<times> nat) list"
  ga_next :: nat
  ga_arrived :: "(nat \<times> nat) list"
  ga_started :: "(nat \<times> nat) list"
  ga_cancelled :: "(nat \<times> nat) list"

definition gate_of :: "admission_config \<Rightarrow> gate" where
  "gate_of c = \<lparr>ga_config = c, ga_conns = [], ga_queue = [], ga_active = 0, ga_rate = None, ga_bytes = None,
     ga_running = [], ga_next = 0, ga_arrived = [], ga_started = [], ga_cancelled = []\<rparr>"

definition create_message_admission :: "admission_input \<Rightarrow> admission_error + gate" where
  "create_message_admission input = try_bind (normalize_admission input) (\<lambda>c. Inr (gate_of c))"

definition admission_enabled :: "admission_config \<Rightarrow> bool" where
  "admission_enabled c \<longleftrightarrow> 0 < ac_conn_rate c \<or> 0 < ac_global_rate c \<or> 0 < ac_conn_bytes c \<or> 0 < ac_global_bytes c \<or>
     0 < ac_conn_concurrent c \<or> 0 < ac_global_concurrent c"

definition fresh_conn :: conn_gate where
  "fresh_conn = \<lparr>cg_active = 0, cg_queued = 0, cg_rate = None, cg_bytes = None, cg_closed = False\<rparr>"

definition conn_of :: "gate \<Rightarrow> nat \<Rightarrow> conn_gate" where
  "conn_of s ws = (case jm_get (ga_conns s) ws of None \<Rightarrow> fresh_conn | Some c \<Rightarrow> c)"

definition put_conn :: "nat \<Rightarrow> conn_gate \<Rightarrow> gate \<Rightarrow> gate" where
  "put_conn ws c s = s\<lparr>ga_conns := jm_set ws c (ga_conns s)\<rparr>"

definition can_start :: "gate \<Rightarrow> nat \<Rightarrow> bool" where
  "can_start s ws \<longleftrightarrow>
     (ac_global_concurrent (ga_config s) = 0 \<or> ga_active s < ac_global_concurrent (ga_config s)) \<and>
     (ac_conn_concurrent (ga_config s) = 0 \<or> cg_active (conn_of s ws) < ac_conn_concurrent (ga_config s))"

definition blocked_scope :: "gate \<Rightarrow> nat \<Rightarrow> reject_scope" where
  "blocked_scope s ws =
     (if 0 < ac_conn_concurrent (ga_config s) \<and> ac_conn_concurrent (ga_config s) \<le> cg_active (conn_of s ws)
      then ScConnection else ScGlobal)"

definition permit :: "nat \<Rightarrow> nat \<Rightarrow> gate \<Rightarrow> gate" where
  "permit ws t s =
     (let c = conn_of s ws
      in (put_conn ws (c\<lparr>cg_active := cg_active c + 1\<rparr>) s)
           \<lparr>ga_active := ga_active s + 1, ga_running := ga_running s @ [(ws, t)], ga_started := ga_started s @ [(ws, t)]\<rparr>)"

text \<open>The first entry of the queue that may start, and the queue without it.\<close>

primrec take_startable :: "(nat \<times> nat \<Rightarrow> bool) \<Rightarrow> (nat \<times> nat) list \<Rightarrow> ((nat \<times> nat) \<times> (nat \<times> nat) list) option" where
  "take_startable P [] = None"
| "take_startable P (e # q) = (if P e then Some (e, q) else map_option (\<lambda>(x, r). (x, e # r)) (take_startable P q))"

definition entry_startable :: "gate \<Rightarrow> nat \<times> nat \<Rightarrow> bool" where
  "entry_startable s e \<longleftrightarrow> \<not> cg_closed (conn_of s (fst e)) \<and> can_start s (fst e)"

definition dequeue_start :: "nat \<Rightarrow> nat \<Rightarrow> (nat \<times> nat) list \<Rightarrow> gate \<Rightarrow> gate" where
  "dequeue_start ws t q s =
     (let c = conn_of s ws in permit ws t ((put_conn ws (c\<lparr>cg_queued := cg_queued c - 1\<rparr>) s)\<lparr>ga_queue := q\<rparr>))"

lemma take_startable_split:
  "take_startable P q = Some (e, r) \<Longrightarrow> \<exists>a b. q = a @ e # b \<and> r = a @ b \<and> P e \<and> (\<forall>x \<in> set a. \<not> P x)"
proof (induction q arbitrary: r)
  case (Cons x q)
  show ?case
  proof (cases "P x")
    case True
    then show ?thesis using Cons.prems by (intro exI [of _ "[]"] exI [of _ q]) auto
  next
    case False
    then obtain r' where "take_startable P q = Some (e, r')" "r = x # r'" using Cons.prems by auto
    moreover obtain a b where "q = a @ e # b" "r' = a @ b" "P e" "\<forall>x \<in> set a. \<not> P x"
      using Cons.IH calculation by blast
    ultimately show ?thesis using False by (intro exI [of _ "x # a"] exI [of _ b]) auto
  qed
qed simp

lemma take_startable_None: "take_startable P q = None \<longleftrightarrow> (\<forall>e \<in> set q. \<not> P e)"
  by (induction q) auto

lemma dequeue_start_queue [simp]: "ga_queue (dequeue_start ws t q s) = q"
  by (simp add: dequeue_start_def permit_def put_conn_def Let_def)

function drain :: "gate \<Rightarrow> gate" where
  "drain s =
     (case take_startable (entry_startable s) (ga_queue s) of
        None \<Rightarrow> s
      | Some ((ws, t), q) \<Rightarrow> drain (dequeue_start ws t q s))"
  by pat_completeness auto

termination
  by (relation "measure (\<lambda>s. length (ga_queue s))") (auto dest!: take_startable_split)

declare drain.simps [simp del]

definition release_permit :: "nat \<times> nat \<Rightarrow> gate \<Rightarrow> gate" where
  "release_permit p s =
     (if p \<notin> set (ga_running s) then s
      else let c = conn_of s (fst p)
           in drain ((put_conn (fst p) (c\<lparr>cg_active := cg_active c - 1\<rparr>) s)
                \<lparr>ga_active := ga_active s - 1, ga_running := remove1 p (ga_running s)\<rparr>))"

text \<open>The four rate lanes: every lane is checked before any is charged.\<close>

definition charge_lanes :: "nat \<Rightarrow> int \<Rightarrow> lane \<Rightarrow> lane \<Rightarrow> lane \<Rightarrow> lane \<Rightarrow> gate \<Rightarrow> gate" where
  "charge_lanes ws cost conn_rate global_rate conn_bytes global_bytes s =
     (let c = conn_of s ws
      in (put_conn ws (c\<lparr>cg_rate := lane_charge 1 conn_rate (cg_rate c), cg_bytes := lane_charge cost conn_bytes (cg_bytes c)\<rparr>) s)
           \<lparr>ga_rate := lane_charge 1 global_rate (ga_rate s), ga_bytes := lane_charge cost global_bytes (ga_bytes s)\<rparr>)"

definition rate_gate :: "nat \<Rightarrow> int \<Rightarrow> real \<Rightarrow> gate \<Rightarrow> admission_decision option \<times> gate" where
  "rate_gate ws cost now s =
     (let cf = ga_config s; w = ac_window cf; c = conn_of s ws;
          conn_rate = lane_check (ac_conn_rate cf) w 1 now (cg_rate c);
          global_rate = lane_check (ac_global_rate cf) w 1 now (ga_rate s);
          conn_bytes = lane_check (ac_conn_bytes cf) w cost now (cg_bytes c);
          global_bytes = lane_check (ac_global_bytes cf) w cost now (ga_bytes s)
      in case conn_rate of
           LaneShort b \<Rightarrow> (Some (rate_rejection ScConnection b (ac_conn_rate cf) w 1), put_conn ws (c\<lparr>cg_rate := Some b\<rparr>) s)
         | _ \<Rightarrow> (case global_rate of
           LaneShort b \<Rightarrow> (Some (rate_rejection ScGlobal b (ac_global_rate cf) w 1), s\<lparr>ga_rate := Some b\<rparr>)
         | _ \<Rightarrow> (case conn_bytes of
           LaneShort b \<Rightarrow> (Some (rate_rejection ScConnection b (ac_conn_bytes cf) w cost), put_conn ws (c\<lparr>cg_bytes := Some b\<rparr>) s)
         | _ \<Rightarrow> (case global_bytes of
           LaneShort b \<Rightarrow> (Some (rate_rejection ScGlobal b (ac_global_bytes cf) w cost), s\<lparr>ga_bytes := Some b\<rparr>)
         | _ \<Rightarrow> (None, charge_lanes ws cost conn_rate global_rate conn_bytes global_bytes s)))))"

definition enqueue_entry :: "nat \<Rightarrow> nat \<Rightarrow> gate \<Rightarrow> gate" where
  "enqueue_entry ws t s =
     (let c = conn_of s ws in (put_conn ws (c\<lparr>cg_queued := cg_queued c + 1\<rparr>) s)\<lparr>ga_queue := ga_queue s @ [(ws, t)]\<rparr>)"

definition place_entry :: "nat \<Rightarrow> nat \<Rightarrow> gate \<Rightarrow> admission_decision \<times> gate" where
  "place_entry ws t s =
     (let maxq = ac_max_queue (ga_config s); arrived = ga_arrived s @ [(ws, t)]
      in if can_start s ws then (Permitted t, permit ws t (s\<lparr>ga_arrived := arrived\<rparr>))
      else if maxq = 0 then (Refused ConcurrencyLimit (blocked_scope s ws) None, s)
      else if maxq \<le> int (length (ga_queue s)) \<or> maxq \<le> cg_queued (conn_of s ws)
      then (Refused QueueFull (if maxq \<le> int (length (ga_queue s)) then ScGlobal else ScConnection) None, s)
      else (Waiting t, enqueue_entry ws t (s\<lparr>ga_arrived := arrived\<rparr>)))"

definition admission_enter :: "nat \<Rightarrow> nat \<Rightarrow> real \<Rightarrow> gate \<Rightarrow> admission_decision \<times> gate" where
  "admission_enter ws bytes now s =
     (let t = ga_next s; s = (put_conn ws (conn_of s ws) s)\<lparr>ga_next := Suc t\<rparr>
      in if \<not> admission_enabled (ga_config s) then (Permitted t, permit ws t (s\<lparr>ga_arrived := ga_arrived s @ [(ws, t)]\<rparr>))
      else if cg_closed (conn_of s ws) then (Refused ConnectionClosed ScConnection None, s)
      else case rate_gate ws (int bytes) now s of
             (Some rejection, s) \<Rightarrow> (rejection, s)
           | (None, s) \<Rightarrow> place_entry ws t s)"

definition admission_close :: "nat \<Rightarrow> gate \<Rightarrow> gate" where
  "admission_close ws s =
     (case jm_get (ga_conns s) ws of
        None \<Rightarrow> s
      | Some c \<Rightarrow>
          (let gone = filter (\<lambda>e. fst e = ws) (ga_queue s)
           in drain ((put_conn ws (c\<lparr>cg_closed := True, cg_queued := cg_queued c - int (length gone)\<rparr>) s)
                \<lparr>ga_queue := filter (\<lambda>e. fst e \<noteq> ws) (ga_queue s), ga_cancelled := ga_cancelled s @ rev gone\<rparr>)))"

datatype gate_event = GEnter nat nat real | GRelease "nat \<times> nat" | GClose nat

fun gate_step :: "gate \<Rightarrow> gate_event \<Rightarrow> gate" where
  "gate_step s (GEnter ws bytes now) = snd (admission_enter ws bytes now s)"
| "gate_step s (GRelease p) = release_permit p s"
| "gate_step s (GClose ws) = admission_close ws s"


section \<open>The invariant\<close>

text \<open>\<open>gate_core\<close> is what every intermediate state satisfies, \<open>work_conserving\<close> holds between calls.\<close>

definition conn_counts :: "gate \<Rightarrow> nat \<Rightarrow> bool" where
  "conn_counts s ws \<longleftrightarrow>
     cg_active (conn_of s ws) = int (length (of_key ws (ga_running s))) \<and>
     cg_queued (conn_of s ws) = int (length (of_key ws (ga_queue s))) \<and>
     (0 < ac_conn_concurrent (ga_config s) \<longrightarrow> cg_active (conn_of s ws) \<le> ac_conn_concurrent (ga_config s))"

definition conn_order :: "gate \<Rightarrow> nat \<Rightarrow> bool" where
  "conn_order s ws \<longleftrightarrow>
     of_key ws (ga_arrived s) = of_key ws (ga_started s) @ of_key ws (ga_queue s) @ rev (of_key ws (ga_cancelled s)) \<and>
     (cg_closed (conn_of s ws) \<longrightarrow> of_key ws (ga_queue s) = []) \<and>
     (\<not> cg_closed (conn_of s ws) \<longrightarrow> of_key ws (ga_cancelled s) = [])"

definition config_ok :: "admission_config \<Rightarrow> bool" where
  "config_ok c \<longleftrightarrow> 0 \<le> ac_conn_rate c \<and> 0 \<le> ac_global_rate c \<and> 0 \<le> ac_conn_bytes c \<and> 0 \<le> ac_global_bytes c \<and>
     0 < ac_window c \<and> 0 \<le> ac_conn_concurrent c \<and> 0 \<le> ac_global_concurrent c \<and> 0 \<le> ac_max_queue c \<and>
     (0 < ac_max_queue c \<longrightarrow> 0 < ac_conn_concurrent c \<or> 0 < ac_global_concurrent c)"

definition gate_core :: "gate \<Rightarrow> bool" where
  "gate_core s \<longleftrightarrow> config_ok (ga_config s) \<and>
     ga_active s = int (length (ga_running s)) \<and>
     (0 < ac_global_concurrent (ga_config s) \<longrightarrow> ga_active s \<le> ac_global_concurrent (ga_config s)) \<and>
     int (length (ga_queue s)) \<le> ac_max_queue (ga_config s) \<and>
     (ac_max_queue (ga_config s) = 0 \<longrightarrow> ga_cancelled s = []) \<and>
     (\<forall>ws. conn_counts s ws) \<and> (\<forall>ws. conn_order s ws)"

definition work_conserving :: "gate \<Rightarrow> bool" where
  "work_conserving s \<longleftrightarrow> (\<forall>e \<in> set (ga_queue s). \<not> entry_startable s e)"

lemma conn_of_put [simp]: "conn_of (put_conn ws c s) ws' = (if ws' = ws then c else conn_of s ws')"
  by (simp add: conn_of_def put_conn_def)

lemma put_conn_sel [simp]:
  "ga_config (put_conn ws c s) = ga_config s" "ga_queue (put_conn ws c s) = ga_queue s"
  "ga_active (put_conn ws c s) = ga_active s" "ga_rate (put_conn ws c s) = ga_rate s"
  "ga_bytes (put_conn ws c s) = ga_bytes s" "ga_running (put_conn ws c s) = ga_running s"
  "ga_next (put_conn ws c s) = ga_next s" "ga_arrived (put_conn ws c s) = ga_arrived s"
  "ga_started (put_conn ws c s) = ga_started s" "ga_cancelled (put_conn ws c s) = ga_cancelled s"
  by (simp_all add: put_conn_def)

lemma conn_of_upd [simp]:
  "conn_of (s\<lparr>ga_queue := a\<rparr>) ws = conn_of s ws" "conn_of (s\<lparr>ga_active := b\<rparr>) ws = conn_of s ws"
  "conn_of (s\<lparr>ga_rate := c\<rparr>) ws = conn_of s ws" "conn_of (s\<lparr>ga_bytes := c\<rparr>) ws = conn_of s ws"
  "conn_of (s\<lparr>ga_running := d\<rparr>) ws = conn_of s ws" "conn_of (s\<lparr>ga_next := e\<rparr>) ws = conn_of s ws"
  "conn_of (s\<lparr>ga_arrived := a\<rparr>) ws = conn_of s ws" "conn_of (s\<lparr>ga_started := a\<rparr>) ws = conn_of s ws"
  "conn_of (s\<lparr>ga_cancelled := a\<rparr>) ws = conn_of s ws"
  by (simp_all add: conn_of_def)

lemma permit_sel [simp]:
  "ga_config (permit ws t s) = ga_config s" "ga_queue (permit ws t s) = ga_queue s"
  "ga_active (permit ws t s) = ga_active s + 1" "ga_rate (permit ws t s) = ga_rate s" "ga_bytes (permit ws t s) = ga_bytes s"
  "ga_running (permit ws t s) = ga_running s @ [(ws, t)]" "ga_started (permit ws t s) = ga_started s @ [(ws, t)]"
  "ga_arrived (permit ws t s) = ga_arrived s" "ga_cancelled (permit ws t s) = ga_cancelled s" "ga_next (permit ws t s) = ga_next s"
  "conn_of (permit ws t s) ws' = (if ws' = ws then (conn_of s ws)\<lparr>cg_active := cg_active (conn_of s ws) + 1\<rparr> else conn_of s ws')"
  by (simp_all add: permit_def Let_def)

lemma dequeue_start_sel [simp]:
  "ga_config (dequeue_start ws t q s) = ga_config s"
  "ga_active (dequeue_start ws t q s) = ga_active s + 1" "ga_rate (dequeue_start ws t q s) = ga_rate s" "ga_bytes (dequeue_start ws t q s) = ga_bytes s"
  "ga_running (dequeue_start ws t q s) = ga_running s @ [(ws, t)]" "ga_started (dequeue_start ws t q s) = ga_started s @ [(ws, t)]"
  "ga_arrived (dequeue_start ws t q s) = ga_arrived s" "ga_cancelled (dequeue_start ws t q s) = ga_cancelled s"
  "ga_next (dequeue_start ws t q s) = ga_next s"
  "conn_of (dequeue_start ws t q s) ws' = (if ws' = ws then (conn_of s ws)\<lparr>cg_queued := cg_queued (conn_of s ws) - 1,
     cg_active := cg_active (conn_of s ws) + 1\<rparr> else conn_of s ws')"
  by (simp_all add: dequeue_start_def Let_def)

lemma gate_coreD:
  assumes "gate_core s"
  shows "config_ok (ga_config s)" "ga_active s = int (length (ga_running s))"
    "0 < ac_global_concurrent (ga_config s) \<Longrightarrow> ga_active s \<le> ac_global_concurrent (ga_config s)"
    "int (length (ga_queue s)) \<le> ac_max_queue (ga_config s)" "conn_counts s ws" "conn_order s ws"
    "ac_max_queue (ga_config s) = 0 \<Longrightarrow> ga_cancelled s = []"
  using assms by (simp_all add: gate_core_def)

lemma core_dequeue_start:
  assumes i: "gate_core s" and t: "take_startable (entry_startable s) (ga_queue s) = Some ((ws, t), q)"
  shows "gate_core (dequeue_start ws t q s)"
proof -
  obtain a b where ab: "ga_queue s = a @ (ws, t) # b" "q = a @ b" "entry_startable s (ws, t)" "\<forall>x \<in> set a. \<not> entry_startable s x"
    using take_startable_split [OF t] by blast
  have can: "can_start s ws" "\<not> cg_closed (conn_of s ws)" using ab(3) by (simp_all add: entry_startable_def)
  have "(ws, t') \<notin> set a" for t' using ab(3,4) by (auto simp: entry_startable_def)
  then have none: "of_key ws a = []" by (auto simp: of_key_def filter_empty_conv)
  have "conn_counts (dequeue_start ws t q s) ws'" for ws'
    using gate_coreD(5) [OF i, of ws'] can(1) by (auto simp: conn_counts_def ab none can_start_def)
  moreover have "conn_order (dequeue_start ws t q s) ws'" for ws'
    using gate_coreD(6) [OF i, of ws'] can(2) none by (cases "ws' = ws") (simp_all add: conn_order_def ab)
  ultimately show ?thesis
    using gate_coreD [OF i] can(1) unfolding gate_core_def by (auto simp: ab can_start_def)
qed

lemma drain_None: "take_startable (entry_startable s) (ga_queue s) = None \<Longrightarrow> drain s = s"
  by (subst drain.simps) simp

lemma drain_Some: "take_startable (entry_startable s) (ga_queue s) = Some ((ws, t), q) \<Longrightarrow> drain s = drain (dequeue_start ws t q s)"
  by (subst drain.simps) simp

lemma drain_inv: "gate_core s \<Longrightarrow> gate_core (drain s) \<and> work_conserving (drain s)"
proof (induction s rule: drain.induct)
  case (1 s)
  show ?case
  proof (cases "take_startable (entry_startable s) (ga_queue s)")
    case None
    then show ?thesis
      using 1(2) drain_None [OF None] by (simp add: work_conserving_def take_startable_None)
  next
    case (Some p)
    obtain ws t q where p: "p = ((ws, t), q)" by (metis surj_pair)
    show ?thesis
      using 1(1) [OF Some] core_dequeue_start [OF 1(2)] Some p drain_Some by simp
  qed
qed

lemma drain_config [simp]: "ga_config (drain s) = ga_config s"
proof (induction s rule: drain.induct)
  case (1 s)
  then show ?case by (subst drain.simps) (simp split: option.split prod.split)
qed

lemma drain_logs [simp]:
  "ga_arrived (drain s) = ga_arrived s \<and> ga_rate (drain s) = ga_rate s \<and> ga_bytes (drain s) = ga_bytes s"
proof (induction s rule: drain.induct)
  case (1 s)
  then show ?case by (subst (1 2 3) drain.simps) (simp split: option.split prod.split)
qed

lemma length_remove1_mem: "x \<in> set l \<Longrightarrow> int (length (remove1 x l)) = int (length l) - 1"
  by (induction l) auto

lemma inv_release:
  assumes i: "gate_core s" and w: "work_conserving s"
  shows "gate_core (release_permit p s) \<and> work_conserving (release_permit p s)"
proof (cases "p \<in> set (ga_running s)")
  case False
  then show ?thesis using assms by (simp add: release_permit_def)
next
  case True
  obtain ws t where p: "p = (ws, t)" by (cases p)
  define c where "c = conn_of s ws"
  define u where "u = (put_conn ws (c\<lparr>cg_active := cg_active c - 1\<rparr>) s)
      \<lparr>ga_active := ga_active s - 1, ga_running := remove1 (ws, t) (ga_running s)\<rparr>"
  have mem: "t \<in> set (of_key ws (ga_running s))" using True by (simp add: p flip: mem_of_key)
  have "conn_counts u ws'" for ws'
    using gate_coreD(5) [OF i, of ws'] length_remove1_mem [OF mem]
    by (auto simp: conn_counts_def u_def c_def of_key_remove1)
  moreover have "conn_order u ws'" for ws'
    using gate_coreD(6) [OF i, of ws'] by (auto simp: conn_order_def u_def c_def)
  moreover have "ga_active u = int (length (ga_running u))"
    using gate_coreD(2) [OF i] length_remove1_mem [of p "ga_running s"] True by (simp add: u_def p)
  ultimately have "gate_core u"
    using gate_coreD(1,3,4,7) [OF i] unfolding gate_core_def by (auto simp: u_def)
  then show ?thesis using drain_inv True by (simp add: release_permit_def Let_def p u_def c_def)
qed

lemma of_key_filter_other: "of_key ws' (filter (\<lambda>e. fst e \<noteq> ws) q) = (if ws' = ws then [] else of_key ws' q)"
  by (induction q) auto

lemma of_key_filter_same: "of_key ws' (filter (\<lambda>e. fst e = ws) q) = (if ws' = ws then of_key ws q else [])"
  by (induction q) auto

lemma of_key_rev: "of_key k (rev l) = rev (of_key k l)"
  by (induction l) auto

lemma length_filter_key: "length (filter (\<lambda>e. fst e = k) l) = length (of_key k l)"
  by (simp add: of_key_def)

lemma conn_of_get: "jm_get (ga_conns s) ws = Some c \<Longrightarrow> conn_of s ws = c"
  by (simp add: conn_of_def)

lemma inv_close:
  assumes i: "gate_core s" and w: "work_conserving s"
  shows "gate_core (admission_close ws s) \<and> work_conserving (admission_close ws s)"
proof (cases "jm_get (ga_conns s) ws")
  case None
  then show ?thesis using assms by (simp add: admission_close_def)
next
  case (Some c)
  note c = conn_of_get [OF Some]
  define gone where "gone = filter (\<lambda>e. fst e = ws) (ga_queue s)"
  define u where "u = (put_conn ws (c\<lparr>cg_closed := True, cg_queued := cg_queued c - int (length gone)\<rparr>) s)
      \<lparr>ga_queue := filter (\<lambda>e. fst e \<noteq> ws) (ga_queue s), ga_cancelled := ga_cancelled s @ rev gone\<rparr>"
  have "conn_counts u ws'" for ws'
    using gate_coreD(5) [OF i, of ws'] c
    by (auto simp: conn_counts_def u_def gone_def of_key_filter_other length_filter_key)
  moreover have "conn_order u ws'" for ws'
    using gate_coreD(6) [OF i, of ws'] c
    by (auto simp: conn_order_def u_def gone_def of_key_filter_other of_key_filter_same of_key_rev)
  moreover have "int (length (ga_queue u)) \<le> ac_max_queue (ga_config s)"
    using gate_coreD(4) [OF i] length_filter_le [of "\<lambda>e. fst e \<noteq> ws" "ga_queue s"] by (simp add: u_def del: length_filter_le)
  moreover have gone: "ga_cancelled u = []" if "ac_max_queue (ga_config s) = 0"
    using gate_coreD(4,7) [OF i] that by (simp add: u_def gone_def)
  ultimately have "gate_core u"
    using gate_coreD(1,2,3) [OF i] gone unfolding gate_core_def by (auto simp: u_def)
  then show ?thesis using drain_inv Some by (simp add: admission_close_def Let_def u_def gone_def)
qed


text \<open>The rate lanes touch nothing but buckets.\<close>

definition same_core :: "gate \<Rightarrow> gate \<Rightarrow> bool" where
  "same_core s u \<longleftrightarrow> ga_config u = ga_config s \<and> ga_queue u = ga_queue s \<and> ga_active u = ga_active s \<and>
     ga_running u = ga_running s \<and> ga_arrived u = ga_arrived s \<and> ga_started u = ga_started s \<and>
     ga_cancelled u = ga_cancelled s \<and>
     (\<forall>ws. cg_active (conn_of u ws) = cg_active (conn_of s ws) \<and> cg_queued (conn_of u ws) = cg_queued (conn_of s ws) \<and>
       cg_closed (conn_of u ws) = cg_closed (conn_of s ws))"

lemma same_core_inv:
  assumes "same_core s u"
  shows "gate_core u = gate_core s" "work_conserving u = work_conserving s" "can_start u ws = can_start s ws"
  using assms unfolding same_core_def
  by (auto simp: gate_core_def work_conserving_def entry_startable_def can_start_def conn_counts_def conn_order_def)

lemma rate_gate_same_core: "same_core s (snd (rate_gate ws cost now s))"
  by (auto simp: same_core_def rate_gate_def charge_lanes_def Let_def split: lane.split)

lemma start_keeps_waiting:
  assumes "work_conserving s" and "ga_queue u = ga_queue s" and "ga_config u = ga_config s" and "ga_active s \<le> ga_active u"
    and "\<And>w. cg_active (conn_of s w) \<le> cg_active (conn_of u w) \<and> cg_closed (conn_of u w) = cg_closed (conn_of s w)"
  shows "work_conserving u"
  unfolding work_conserving_def
proof
  fix e assume "e \<in> set (ga_queue u)"
  then have "\<not> entry_startable s e" using assms(1,2) by (simp add: work_conserving_def)
  moreover have "cg_active (conn_of s (fst e)) \<le> cg_active (conn_of u (fst e))"
    "cg_closed (conn_of u (fst e)) = cg_closed (conn_of s (fst e))" using assms(5) by simp_all
  ultimately show "\<not> entry_startable u e" using assms(3,4) by (auto simp: entry_startable_def can_start_def)
qed

lemma inv_permit_arrival:
  assumes i: "gate_core s" and w: "work_conserving s" and ok: "can_start s ws"
    and none: "of_key ws (ga_queue s) = []" "of_key ws (ga_cancelled s) = []"
  shows "gate_core (permit ws t (s\<lparr>ga_arrived := ga_arrived s @ [(ws, t)]\<rparr>)) \<and>
    work_conserving (permit ws t (s\<lparr>ga_arrived := ga_arrived s @ [(ws, t)]\<rparr>))"
proof -
  let ?u = "permit ws t (s\<lparr>ga_arrived := ga_arrived s @ [(ws, t)]\<rparr>)"
  have "conn_counts ?u ws'" for ws'
    using gate_coreD(5) [OF i, of ws'] ok by (auto simp: conn_counts_def can_start_def)
  moreover have "conn_order ?u ws'" for ws'
    using gate_coreD(6) [OF i, of ws'] none by (cases "ws' = ws") (simp_all add: conn_order_def)
  ultimately have "gate_core ?u"
    using gate_coreD [OF i] ok unfolding gate_core_def by (auto simp: can_start_def)
  moreover have "work_conserving ?u" by (rule start_keeps_waiting [OF w]) auto
  ultimately show ?thesis by blast
qed

lemma startable_none_waiting: "work_conserving s \<Longrightarrow> entry_startable s (ws, t) \<Longrightarrow> of_key ws (ga_queue s) = []"
  by (auto simp: work_conserving_def entry_startable_def of_key_def filter_empty_conv)

lemma inv_enqueue_entry:
  assumes i: "gate_core s" and w: "work_conserving s" and no: "\<not> can_start s ws" and cl: "\<not> cg_closed (conn_of s ws)"
    and room: "int (length (ga_queue s)) < ac_max_queue (ga_config s)"
  shows "gate_core (enqueue_entry ws t (s\<lparr>ga_arrived := ga_arrived s @ [(ws, t)]\<rparr>))"
    and "work_conserving (enqueue_entry ws t (s\<lparr>ga_arrived := ga_arrived s @ [(ws, t)]\<rparr>))"
proof -
  let ?u = "enqueue_entry ws t (s\<lparr>ga_arrived := ga_arrived s @ [(ws, t)]\<rparr>)"
  have sel: "ga_queue ?u = ga_queue s @ [(ws, t)]" "ga_config ?u = ga_config s" "ga_active ?u = ga_active s"
    "ga_running ?u = ga_running s" "ga_arrived ?u = ga_arrived s @ [(ws, t)]" "ga_started ?u = ga_started s"
    "ga_cancelled ?u = ga_cancelled s"
    "conn_of ?u ws' = (if ws' = ws then (conn_of s ws)\<lparr>cg_queued := cg_queued (conn_of s ws) + 1\<rparr> else conn_of s ws')" for ws'
    by (simp_all add: enqueue_entry_def Let_def)
  have "conn_counts ?u ws'" for ws'
    using gate_coreD(5) [OF i, of ws'] by (auto simp: conn_counts_def sel)
  moreover have "conn_order ?u ws'" for ws'
    using gate_coreD(6) [OF i, of ws'] cl by (cases "ws' = ws") (simp_all add: conn_order_def sel)
  ultimately show "gate_core ?u"
    using gate_coreD [OF i] room unfolding gate_core_def by (auto simp: sel)
  show "work_conserving ?u"
    using w no by (auto simp: work_conserving_def entry_startable_def can_start_def sel)
qed

lemma inv_place_entry:
  assumes i: "gate_core s" and w: "work_conserving s" and cl: "\<not> cg_closed (conn_of s ws)"
  shows "gate_core (snd (place_entry ws t s)) \<and> work_conserving (snd (place_entry ws t s))"
proof -
  have "of_key ws (ga_cancelled s) = []" using gate_coreD(6) [OF i, of ws] cl by (simp add: conn_order_def)
  then show ?thesis
    using assms inv_permit_arrival [OF i w] startable_none_waiting [OF w, of ws t] inv_enqueue_entry [OF i w _ cl]
    by (simp add: place_entry_def Let_def entry_startable_def)
qed

lemma length_int_le_0: "int (length l) \<le> n \<Longrightarrow> \<not> 0 < n \<Longrightarrow> l = []"
  by (cases l) auto

lemma disabled_gate:
  assumes "gate_core s" and "\<not> admission_enabled (ga_config s)"
  shows "can_start s ws" "ga_queue s = []" "ga_cancelled s = []"
  using gate_coreD(1,4,7) [OF assms(1)] assms(2)
  by (auto simp: config_ok_def admission_enabled_def can_start_def dest: length_int_le_0)

definition touch_conn :: "nat \<Rightarrow> gate \<Rightarrow> gate" where
  "touch_conn ws s = (put_conn ws (conn_of s ws) s)\<lparr>ga_next := Suc (ga_next s)\<rparr>"

lemma touch_same_core: "same_core s (touch_conn ws s)"
  by (simp add: same_core_def touch_conn_def)

lemma admission_enter_touch:
  "admission_enter ws bytes now s =
     (if \<not> admission_enabled (ga_config s)
      then (Permitted (ga_next s), permit ws (ga_next s) ((touch_conn ws s)\<lparr>ga_arrived := ga_arrived (touch_conn ws s) @ [(ws, ga_next s)]\<rparr>))
      else if cg_closed (conn_of s ws) then (Refused ConnectionClosed ScConnection None, touch_conn ws s)
      else case rate_gate ws (int bytes) now (touch_conn ws s) of
             (Some rejection, s) \<Rightarrow> (rejection, s)
           | (None, u) \<Rightarrow> place_entry ws (ga_next s) u)"
  by (simp add: admission_enter_def touch_conn_def Let_def)

lemma inv_enter:
  assumes i: "gate_core s" and w: "work_conserving s"
  shows "gate_core (snd (admission_enter ws bytes now s)) \<and> work_conserving (snd (admission_enter ws bytes now s))"
proof -
  define t where "t = touch_conn ws s"
  have t: "gate_core t" "work_conserving t" "ga_config t = ga_config s" "cg_closed (conn_of t ws) = cg_closed (conn_of s ws)"
    using same_core_inv [OF touch_same_core, of ws s] touch_same_core [of s ws] i w by (simp_all add: t_def same_core_def)
  show ?thesis
  proof (cases "admission_enabled (ga_config s)")
    case False
    then show ?thesis
      using inv_permit_arrival [OF t(1,2), of ws] disabled_gate [OF t(1)] t(3)
      by (simp add: admission_enter_touch flip: t_def)
  next
    case on: True
    obtain d u where u: "rate_gate ws (int bytes) now t = (d, u)" by fastforce
    have same: "same_core t u" using rate_gate_same_core [of t ws "int bytes" now] u by simp
    then have u2: "gate_core u" "work_conserving u" using same_core_inv [OF same] t by simp_all
    have "cg_closed (conn_of u ws) = cg_closed (conn_of s ws)" using same t(4) by (simp add: same_core_def)
    then show ?thesis
      using on u u2 t(1,2) inv_place_entry [OF u2] by (simp add: admission_enter_touch split: option.split flip: t_def)
  qed
qed

definition gate_inv :: "gate \<Rightarrow> bool" where
  "gate_inv s \<longleftrightarrow> gate_core s \<and> work_conserving s"

lemma gate_inv_step: "gate_inv s \<Longrightarrow> gate_inv (gate_step s e)"
  by (cases e) (simp_all add: gate_inv_def inv_enter inv_release inv_close)

lemma gate_inv_init: "config_ok c \<Longrightarrow> gate_inv (gate_of c)"
  by (simp add: gate_inv_def gate_core_def gate_of_def work_conserving_def conn_counts_def conn_order_def conn_of_def
      fresh_conn_def config_ok_def)

interpretation gates: machine "gate_of c" gate_step "\<lambda>s. config_ok c \<longrightarrow> gate_inv s" for c
  by unfold_locales (auto simp: gate_inv_init gate_inv_step)

section \<open>Normalisation\<close>

definition safe_limit :: "int \<Rightarrow> bool" where
  "safe_limit n \<longleftrightarrow> 0 \<le> n \<and> n \<le> 2 ^ 53 - 1"

lemma limit_of_Inr: "limit_of v name positive = Inr n \<Longrightarrow> safe_limit n \<and> (positive \<and> v \<noteq> LUndefined \<longrightarrow> 0 < n)"
proof (cases v)
  case (LNumber x)
  assume "limit_of v name positive = Inr n"
  then have x: "safe_integer_arg x" "(if positive then 1 else 0) \<le> x" "n = \<lfloor>x\<rfloor>"
    by (simp_all add: LNumber not_less split: if_splits)
  then have "\<bar>real_of_int n\<bar> \<le> 2 ^ 53 - 1" "(if positive then 1 else 0) \<le> real_of_int n" by (simp_all add: safe_integer_arg_def)
  then show ?thesis by (auto simp: safe_limit_def split: if_splits)
qed (auto simp: safe_limit_def)

lemma normalize_object_Inr:
  assumes "normalize_object obj = Inr c"
  shows "safe_limit (ac_conn_rate c) \<and> safe_limit (ac_global_rate c) \<and> safe_limit (ac_conn_bytes c) \<and>
    safe_limit (ac_global_bytes c) \<and> safe_limit (ac_conn_concurrent c) \<and> safe_limit (ac_global_concurrent c) \<and>
    safe_limit (ac_max_queue c) \<and> safe_limit (ac_window c) \<and> config_ok c"
proof -
  obtain r g w rb gb rc gc q where parts:
    "limit_of (admission_field obj ''perConnectionRate'') (js_of ''perConnectionRate'') False = Inr r"
    "limit_of (admission_field obj ''globalRate'') (js_of ''globalRate'') False = Inr g"
    "(if admission_field obj ''rateWindowMs'' = LUndefined then Inr default_window_ms
       else limit_of (admission_field obj ''rateWindowMs'') (js_of ''rateWindowMs'') True) = Inr w"
    "limit_of (admission_field obj ''perConnectionBytesRate'') (js_of ''perConnectionBytesRate'') False = Inr rb"
    "limit_of (admission_field obj ''globalBytesRate'') (js_of ''globalBytesRate'') False = Inr gb"
    "limit_of (admission_field obj ''perConnectionConcurrent'') (js_of ''perConnectionConcurrent'') False = Inr rc"
    "limit_of (admission_field obj ''globalConcurrent'') (js_of ''globalConcurrent'') False = Inr gc"
    "limit_of (admission_field obj ''maxQueue'') (js_of ''maxQueue'') False = Inr q"
    "\<not> (0 < q \<and> rc = 0 \<and> gc = 0)"
    "c = \<lparr>ac_conn_rate = r, ac_global_rate = g, ac_conn_bytes = rb, ac_global_bytes = gb, ac_window = w,
       ac_conn_concurrent = rc, ac_global_concurrent = gc, ac_max_queue = q\<rparr>"
    using assms unfolding normalize_object_def Let_def try_bind_Inr by (auto split: if_splits)
  have "safe_limit w \<and> 0 < w"
    using parts(3) limit_of_Inr [of _ _ True w] by (auto simp: safe_limit_def default_window_ms_def split: if_splits)
  moreover note parts(1,2,4-8) [THEN limit_of_Inr]
  ultimately show ?thesis using parts(9) by (auto simp: parts(10) config_ok_def safe_limit_def)
qed

lemma default_config_ok: "config_ok admission_defaults"
  by (simp add: admission_defaults_def config_ok_def default_window_ms_def)

lemma normalize_config_ok: "normalize_admission input = Inr c \<Longrightarrow> config_ok c"
  by (cases input) (auto simp: Let_def normalize_object_Inr default_config_ok split: if_splits)

lemma create_gate: "create_message_admission input = Inr s \<longleftrightarrow> (\<exists>c. normalize_admission input = Inr c \<and> s = gate_of c)"
  by (cases "normalize_admission input") (auto simp: create_message_admission_def)

lemma created_run_inv: "create_message_admission input = Inr s0 \<Longrightarrow> gate_inv (foldl gate_step s0 es)"
  using gates.run_inv normalize_config_ok by (auto simp: create_gate)

section \<open>Token buckets, quantitatively\<close>

lemma refill_tokens_le: "tb_tokens (refill b cap w now) \<le> of_int cap"
  by (simp add: refill_def Let_def split: option.split)

lemma refill_updated [simp]: "tb_updated (refill b cap w now) = now"
  by (simp add: refill_def Let_def split: option.split)

lemma retry_wait_suffices:
  assumes short: "lane_check cap w cost now b = LaneShort b'" and pos: "0 < w" and fits: "cost \<le> cap"
    and later: "now + of_int (retry_after b' cap w cost) \<le> now'"
  shows "\<exists>b''. lane_check cap w cost now' (Some b') = LaneOk b''"
proof -
  have c: "0 < cost" "0 < cap" and b': "b' = refill b cap w now" using short by (auto simp: lane_check_def Let_def split: if_splits)
  let ?need = "(of_int cost - tb_tokens b') * of_int w / of_int cap"
  have "?need \<le> of_int \<lceil>?need\<rceil>" by (rule le_of_int_ceiling)
  also have "\<dots> \<le> of_int (retry_after b' cap w cost)"
    unfolding of_int_le_iff retry_after_def using fits by (simp add: min_absorb1)
  finally have "?need \<le> of_int (retry_after b' cap w cost)" .
  then have need: "?need \<le> now' - now" using later by linarith
  have up: "tb_updated b' = now" by (simp add: b')
  have one: "1 \<le> retry_after b' cap w cost" by (simp add: retry_after_def)
  then have el: "0 \<le> now' - now" using later by linarith
  have "of_int cost - tb_tokens b' = ?need * of_int cap / of_int w" using c pos by simp
  also have "\<dots> \<le> (now' - now) * of_int cap / of_int w"
    using need c pos by (intro divide_right_mono mult_right_mono) simp_all
  finally have "of_int cost \<le> tb_tokens b' + (now' - now) * of_int cap / of_int w" by simp
  then have "of_int cost \<le> tb_tokens (refill (Some b') cap w now')"
    using el fits up by (simp add: refill_def Let_def max_absorb2)
  then show ?thesis using c by (simp add: lane_check_def Let_def)
qed

section \<open>The global frame rate over time\<close>

text \<open>Clock readings of a run that never go back, and the last of them.\<close>

fun clocked :: "real \<Rightarrow> gate_event list \<Rightarrow> bool" where
  "clocked t [] \<longleftrightarrow> True"
| "clocked t (e # es) \<longleftrightarrow> (case e of GEnter ws bytes now \<Rightarrow> t \<le> now \<and> clocked now es | _ \<Rightarrow> clocked t es)"

fun clock_after :: "real \<Rightarrow> gate_event list \<Rightarrow> real" where
  "clock_after t [] = t"
| "clock_after t (e # es) = (case e of GEnter ws bytes now \<Rightarrow> clock_after now es | _ \<Rightarrow> clock_after t es)"

definition budget :: "int \<Rightarrow> int \<Rightarrow> real \<Rightarrow> real \<Rightarrow> real" where
  "budget cap w t0 t = of_int cap + (t - t0) * of_int cap / of_int w"

definition charged_within :: "real \<Rightarrow> real \<Rightarrow> gate \<Rightarrow> bool" where
  "charged_within t0 now s \<longleftrightarrow>
     (case ga_rate s of
        None \<Rightarrow> ga_arrived s = []
      | Some b \<Rightarrow> tb_updated b \<le> now \<and>
          real (length (ga_arrived s)) + tb_tokens b \<le> budget (ac_global_rate (ga_config s)) (ac_window (ga_config s)) t0 (tb_updated b) \<and>
          0 \<le> tb_tokens b) \<and> t0 \<le> now"

lemma budget_mono: "0 < cap \<Longrightarrow> 0 < w \<Longrightarrow> t \<le> t' \<Longrightarrow> budget cap w t0 t \<le> budget cap w t0 t'"
  by (simp add: budget_def divide_right_mono mult_right_mono)

lemma refill_budget:
  assumes "0 < cap" and "0 < w" and "tb_updated b \<le> now" and "n + tb_tokens b \<le> budget cap w t0 (tb_updated b)"
  shows "n + tb_tokens (refill (Some b) cap w now) \<le> budget cap w t0 now"
proof -
  have "tb_tokens (refill (Some b) cap w now) \<le> tb_tokens b + (now - tb_updated b) * of_int cap / of_int w"
    using assms(3) by (simp add: refill_def Let_def max_absorb2)
  moreover have "budget cap w t0 now = budget cap w t0 (tb_updated b) + (now - tb_updated b) * of_int cap / of_int w"
    unfolding budget_def by (simp add: algebra_simps diff_divide_distrib)
  ultimately show ?thesis using assms(4) by linarith
qed

lemma charged_refill:
  assumes i: "charged_within t0 t s" and t: "t \<le> now" and g: "0 < ac_global_rate (ga_config s)" "0 < ac_window (ga_config s)"
    and b: "b = refill (ga_rate s) (ac_global_rate (ga_config s)) (ac_window (ga_config s)) now"
  shows "real (length (ga_arrived s)) + tb_tokens b \<le> budget (ac_global_rate (ga_config s)) (ac_window (ga_config s)) t0 now"
    and "0 \<le> tb_tokens b" and "tb_updated b = now"
proof -
  let ?c = "ac_global_rate (ga_config s)" and ?w = "ac_window (ga_config s)"
  show "real (length (ga_arrived s)) + tb_tokens b \<le> budget ?c ?w t0 now"
  proof (cases "ga_rate s")
    case None
    then show ?thesis using i t g
      by (simp add: b charged_within_def refill_def budget_def)
  next
    case (Some x)
    then show ?thesis using i t refill_budget [OF g, of x now _ t0] by (auto simp: b charged_within_def)
  qed
  have "0 \<le> tb_tokens (refill (ga_rate s) ?c ?w now)"
    using i g by (auto simp: charged_within_def refill_def Let_def intro!: add_nonneg_nonneg split: option.splits)
  then show "0 \<le> tb_tokens b" by (simp add: b)
  show "tb_updated b = now" by (simp add: b)
qed

lemma rate_gate_global:
  fixes now :: real
  assumes "0 < ac_global_rate (ga_config s)"
  defines "b \<equiv> refill (ga_rate s) (ac_global_rate (ga_config s)) (ac_window (ga_config s)) now"
  shows "fst (rate_gate ws cost now s) = Some d \<Longrightarrow>
      ga_rate (snd (rate_gate ws cost now s)) = ga_rate s \<or> ga_rate (snd (rate_gate ws cost now s)) = Some b"
    and "fst (rate_gate ws cost now s) = None \<Longrightarrow>
      1 \<le> tb_tokens b \<and> ga_rate (snd (rate_gate ws cost now s)) = Some (b\<lparr>tb_tokens := tb_tokens b - 1\<rparr>)"
  using assms(1) by (auto simp: b_def rate_gate_def lane_check_def [of "ac_global_rate (ga_config s)"] charge_lanes_def
      Let_def not_less split: lane.splits if_splits)

lemma place_entry_rate:
  "ga_rate (snd (place_entry ws t u)) = ga_rate u" "ga_config (snd (place_entry ws t u)) = ga_config u"
  "length (ga_arrived (snd (place_entry ws t u))) \<le> Suc (length (ga_arrived u))"
  "ga_bytes (snd (place_entry ws t u)) = ga_bytes u"
  "cg_rate (conn_of (snd (place_entry ws t u)) ws') = cg_rate (conn_of u ws')"
  "cg_bytes (conn_of (snd (place_entry ws t u)) ws') = cg_bytes (conn_of u ws')"
  by (simp_all add: place_entry_def enqueue_entry_def Let_def)

lemma charged_enter:
  assumes i: "charged_within t0 t s" and t: "t \<le> now" and g: "0 < ac_global_rate (ga_config s)" "0 < ac_window (ga_config s)"
  shows "charged_within t0 now (snd (admission_enter ws bytes now s))"
proof -
  define v where "v = touch_conn ws s"
  have v: "ga_rate v = ga_rate s" "ga_config v = ga_config s" "ga_arrived v = ga_arrived s"
    by (simp_all add: v_def touch_conn_def)
  have keep: "charged_within t0 now u" if "ga_rate u = ga_rate s" "ga_config u = ga_config s" "ga_arrived u = ga_arrived s" for u
    using i t that by (auto simp: charged_within_def split: option.splits)
  have on: "admission_enabled (ga_config s)" using g by (simp add: admission_enabled_def)
  show ?thesis
  proof (cases "cg_closed (conn_of s ws)")
    case True
    then show ?thesis using on keep [OF v] by (simp add: admission_enter_touch flip: v_def)
  next
    case open_conn: False
    define b where "b = refill (ga_rate v) (ac_global_rate (ga_config v)) (ac_window (ga_config v)) now"
    obtain d u where u: "rate_gate ws (int bytes) now v = (d, u)" by fastforce
    have same: "same_core v u" using rate_gate_same_core [of v ws "int bytes" now] u by simp
    then have u2: "ga_config u = ga_config s" "ga_arrived u = ga_arrived s" using v by (simp_all add: same_core_def)
    note b = charged_refill [OF i t g, of b] 
    have be: "b = refill (ga_rate s) (ac_global_rate (ga_config s)) (ac_window (ga_config s)) now" by (simp add: b_def v)
    have gv: "0 < ac_global_rate (ga_config v)" using g v by simp
    show ?thesis
    proof (cases d)
      case (Some rej)
      then have "ga_rate u = ga_rate s \<or> ga_rate u = Some b"
        using rate_gate_global(1) [OF gv, of ws "int bytes" now rej] u v by (simp add: b_def)
      moreover have "charged_within t0 now u" if "ga_rate u = Some b"
        using b [OF be] i t that by (simp add: charged_within_def u2)
      ultimately have "charged_within t0 now u" using keep [OF _ u2] by blast
      then show ?thesis using on open_conn u Some by (simp add: admission_enter_touch flip: v_def)
    next
      case None
      then have r: "1 \<le> tb_tokens b" "ga_rate u = Some (b\<lparr>tb_tokens := tb_tokens b - 1\<rparr>)"
        using rate_gate_global(2) [OF gv, of ws "int bytes" now] u v by (simp_all add: b_def)
      have "real (length (ga_arrived (snd (place_entry ws (ga_next s) u)))) \<le> real (length (ga_arrived s)) + 1"
        using place_entry_rate(3) [of ws "ga_next s" u] u2 by simp
      then have "charged_within t0 now (snd (place_entry ws (ga_next s) u))"
        using b [OF be] r i t by (auto simp: charged_within_def place_entry_rate u2)
      then show ?thesis using on open_conn u None by (simp add: admission_enter_touch flip: v_def)
    qed
  qed
qed

lemma gate_step_config [simp]: "ga_config (gate_step s e) = ga_config s"
proof (cases e)
  case (GEnter ws bytes now)
  obtain d u where u: "rate_gate ws (int bytes) now (touch_conn ws s) = (d, u)" by fastforce
  have "ga_config u = ga_config s"
    using rate_gate_same_core [of "touch_conn ws s" ws "int bytes" now] u touch_same_core [of s ws]
    by (simp add: same_core_def)
  moreover have "ga_config (touch_conn ws s) = ga_config s" by (simp add: touch_conn_def)
  ultimately show ?thesis
    by (simp add: GEnter admission_enter_touch u place_entry_rate split: option.split)
qed (simp_all add: release_permit_def admission_close_def Let_def split: option.split)

lemma charged_other:
  "charged_within t0 t s \<Longrightarrow> (\<And>ws bytes now. e \<noteq> GEnter ws bytes now) \<Longrightarrow> charged_within t0 t (gate_step s e)"
  by (cases e) (auto simp: charged_within_def release_permit_def admission_close_def Let_def split: option.split)

lemma charged_run:
  assumes "charged_within t0 t s" and "clocked t es" and "0 < ac_global_rate (ga_config s)" "0 < ac_window (ga_config s)"
  shows "charged_within t0 (clock_after t es) (foldl gate_step s es)"
  using assms
proof (induction es arbitrary: s t)
  case (Cons e es)
  show ?case
  proof (cases "\<exists>ws bytes now. e = GEnter ws bytes now")
    case True
    then obtain ws bytes now where e: "e = GEnter ws bytes now" by blast
    then have t: "t \<le> now" "clocked now es" using Cons.prems(2) by simp_all
    have "charged_within t0 now (gate_step s e)" using charged_enter [OF Cons.prems(1) t(1) Cons.prems(3,4)] by (simp add: e)
    then have "charged_within t0 (clock_after now es) (foldl gate_step (gate_step s e) es)"
      by (rule Cons.IH [OF _ t(2)]) (simp_all only: gate_step_config Cons.prems)
    then show ?thesis by (simp add: e)
  next
    case False
    then have "charged_within t0 t (gate_step s e)" using charged_other Cons.prems(1) by blast
    moreover have "clocked t es" "clock_after t (e # es) = clock_after t es" using False Cons.prems(2) by (cases e; auto)+
    ultimately show ?thesis using Cons.IH [of t "gate_step s e"] Cons.prems by simp
  qed
qed simp

lemma charged_total: "charged_within t0 t s \<Longrightarrow> 0 < ac_global_rate (ga_config s) \<Longrightarrow> 0 < ac_window (ga_config s) \<Longrightarrow>
    real (length (ga_arrived s)) \<le> budget (ac_global_rate (ga_config s)) (ac_window (ga_config s)) t0 t"
proof -
  assume a: "charged_within t0 t s" "0 < ac_global_rate (ga_config s)" "0 < ac_window (ga_config s)"
  show ?thesis
  proof (cases "ga_rate s")
    case None
    then show ?thesis using a by (simp add: charged_within_def budget_def)
  next
    case (Some b)
    then show ?thesis
      using a budget_mono [OF a(2,3), of "tb_updated b" t t0] by (auto simp: charged_within_def)
  qed
qed

section \<open>Properties\<close>

text \<open>C38: Options that are accepted are well-typed: every limit is a safe integer that is not
  negative, the window is positive, and a queue bound comes with a concurrency bound. Absent
  options mean a gate that is off; anything but an object, an unknown field or a bad limit is
  an error.\<close>

theorem admission_options_typed:
  assumes "normalize_admission input = Inr c"
  shows "safe_limit (ac_conn_rate c) \<and> safe_limit (ac_global_rate c) \<and> safe_limit (ac_conn_bytes c) \<and>
    safe_limit (ac_global_bytes c) \<and> safe_limit (ac_conn_concurrent c) \<and> safe_limit (ac_global_concurrent c) \<and>
    safe_limit (ac_max_queue c) \<and> safe_limit (ac_window c) \<and> 0 < ac_window c \<and>
    (0 < ac_max_queue c \<longrightarrow> 0 < ac_conn_concurrent c \<or> 0 < ac_global_concurrent c) \<and>
    (\<forall>obj. input = InObject obj \<longrightarrow> fst ` set obj \<subseteq> set admission_keys) \<and>
    (input = InUndefined \<longrightarrow> \<not> admission_enabled c)"
proof (cases input)
  case InUndefined
  then have "c = admission_defaults" using assms by simp
  then show ?thesis
    by (simp add: admission_defaults_def default_window_ms_def safe_limit_def admission_enabled_def InUndefined)
next
  case InNotObject
  then show ?thesis using assms by simp
next
  case (InObject obj)
  then have "normalize_object obj = Inr c" "filter (\<lambda>k. k \<notin> set admission_keys) (map fst obj) = []"
    using assms by (simp_all add: Let_def split: if_splits)
  then show ?thesis
    using normalize_object_Inr [of obj c] by (auto simp: InObject config_ok_def filter_empty_conv)
qed

definition sample_admission :: "(js_string \<times> limit_arg) list" where
  "sample_admission = [(js_of ''globalRate'', LNumber 4), (js_of ''globalConcurrent'', LNumber 2), (js_of ''maxQueue'', LNumber 2)]"

definition sample_admission_config :: admission_config where
  "sample_admission_config = \<lparr>ac_conn_rate = 0, ac_global_rate = 4, ac_conn_bytes = 0, ac_global_bytes = 0,
     ac_window = 1000, ac_conn_concurrent = 0, ac_global_concurrent = 2, ac_max_queue = 2\<rparr>"

lemma sample_admission_normal: "normalize_admission (InObject sample_admission) = Inr sample_admission_config"
  by (simp add: sample_admission_def sample_admission_config_def admission_keys_def normalize_object_def admission_field_def
      js_of_inj safe_integer_arg_def default_window_ms_def Let_def)

theorem admission_options_typed_witness:
  "normalize_admission (InObject sample_admission) = Inr sample_admission_config \<and> 0 < ac_window sample_admission_config \<and>
   fst ` set sample_admission \<subseteq> set admission_keys"
  using admission_options_typed [OF sample_admission_normal] sample_admission_normal by blast

text \<open>C9: The caps hold and no capacity idles. In every run of the gate the permits out are the
  active count and stay within the global and the per-connection bound, the queue stays within
  \<open>maxQueue\<close>, and an entry waits only while as many permits are out as the global bound allows, or as the
  bound of its own connection allows. Calls of one connection start in arrival
  order, and every accepted call is started, waiting, or was cancelled when its connection closed.\<close>

theorem admission_caps_and_order:
  assumes "create_message_admission input = Inr s0" and "s = foldl gate_step s0 es"
  shows "ga_active s = int (length (ga_running s)) \<and>
    (0 < ac_global_concurrent (ga_config s) \<longrightarrow> ga_active s \<le> ac_global_concurrent (ga_config s)) \<and>
    (0 < ac_conn_concurrent (ga_config s) \<longrightarrow>
       int (length (of_key ws (ga_running s))) \<le> ac_conn_concurrent (ga_config s)) \<and>
    int (length (ga_queue s)) \<le> ac_max_queue (ga_config s) \<and>
    (\<forall>e \<in> set (ga_queue s). \<not> cg_closed (conn_of s (fst e)) \<and>
       (0 < ac_global_concurrent (ga_config s) \<and> int (length (ga_running s)) = ac_global_concurrent (ga_config s) \<or>
        0 < ac_conn_concurrent (ga_config s) \<and> int (length (of_key (fst e) (ga_running s))) = ac_conn_concurrent (ga_config s))) \<and>
    of_key ws (ga_arrived s) = of_key ws (ga_started s) @ of_key ws (ga_queue s) @ rev (of_key ws (ga_cancelled s)) \<and>
    (of_key ws (ga_cancelled s) \<noteq> [] \<longrightarrow> cg_closed (conn_of s ws))"
proof -
  have i: "gate_core s" "work_conserving s" using created_run_inv [OF assms(1)] assms(2) by (simp_all add: gate_inv_def)
  have cl: "\<not> cg_closed (conn_of s (fst e))" if "e \<in> set (ga_queue s)" for e
  proof -
    have "snd e \<in> set (of_key (fst e) (ga_queue s))" using that by (simp flip: mem_of_key)
    then show ?thesis using gate_coreD(6) [OF i(1), of "fst e"] by (auto simp: conn_order_def)
  qed
  have full: "0 < ac_global_concurrent (ga_config s) \<and> int (length (ga_running s)) = ac_global_concurrent (ga_config s) \<or>
      0 < ac_conn_concurrent (ga_config s) \<and> int (length (of_key (fst e) (ga_running s))) = ac_conn_concurrent (ga_config s)"
    if "e \<in> set (ga_queue s)" for e
  proof -
    have "\<not> can_start s (fst e)" using i(2) cl [OF that] that by (auto simp: work_conserving_def entry_startable_def)
    then show ?thesis using gate_coreD(1-3) [OF i(1)] gate_coreD(5) [OF i(1), of "fst e"]
      by (auto simp: can_start_def conn_counts_def config_ok_def)
  qed
  then show ?thesis
    using cl gate_coreD(1-4) [OF i(1)] gate_coreD(5,6) [OF i(1), of ws] by (auto simp: conn_counts_def conn_order_def)
qed

definition sample_gate_run :: "gate_event list" where
  "sample_gate_run = [GEnter 7 0 0, GEnter 8 0 0, GEnter 7 0 1, GEnter 8 0 2, GRelease (8, 1), GClose 8]"

lemmas gate_eval = gate_of_def admission_enter_def place_entry_def enqueue_entry_def rate_gate_def lane_check_def
  charge_lanes_def refill_def permit_def put_conn_def conn_of_def fresh_conn_def can_start_def entry_startable_def
  release_permit_def admission_close_def admission_enabled_def dequeue_start_def jm_get_def Let_def
  sample_gate_run_def sample_admission_config_def rate_rejection_def retry_after_def

lemma sample_gate_created: "create_message_admission (InObject sample_admission) = Inr (gate_of sample_admission_config)"
  using sample_admission_normal by (simp add: create_message_admission_def)

lemma sample_gate_result:
  "ga_running (foldl gate_step (gate_of sample_admission_config) sample_gate_run) = [(7, 0), (7, 2)]"
  "ga_cancelled (foldl gate_step (gate_of sample_admission_config) sample_gate_run) = [(8, 3)]"
  "length (ga_arrived (foldl gate_step (gate_of sample_admission_config) sample_gate_run)) = 4"
  "ga_config (foldl gate_step (gate_of sample_admission_config) sample_gate_run) = sample_admission_config"
  by (simp_all add: gate_eval drain.simps)

theorem admission_caps_and_order_witness:
  "ga_active (foldl gate_step (gate_of sample_admission_config) sample_gate_run) = 2 \<and>
   of_key 8 (ga_arrived (foldl gate_step (gate_of sample_admission_config) sample_gate_run)) =
     of_key 8 (ga_started (foldl gate_step (gate_of sample_admission_config) sample_gate_run)) @
     of_key 8 (ga_queue (foldl gate_step (gate_of sample_admission_config) sample_gate_run)) @ [3]"
  using admission_caps_and_order [OF sample_gate_created refl, of sample_gate_run 8] sample_gate_result by simp

text \<open>The global frame rate is kept over any stretch of time. In a run whose clock never goes
  back, the frames admitted or queued never exceed one bucket plus what refills between the
  first and the last reading.\<close>

theorem admission_global_rate_bound:
  assumes "create_message_admission input = Inr s0" and "s = foldl gate_step s0 es"
    and "clocked t0 es" and "0 < ac_global_rate (ga_config s0)"
  shows "real (length (ga_arrived s)) \<le> of_int (ac_global_rate (ga_config s0)) +
    (clock_after t0 es - t0) * of_int (ac_global_rate (ga_config s0)) / of_int (ac_window (ga_config s0))"
proof -
  obtain c where c: "s0 = gate_of c" "config_ok c" using assms(1) normalize_config_ok by (auto simp: create_gate)
  have w: "0 < ac_window (ga_config s0)" using c by (simp add: config_ok_def gate_of_def)
  have "charged_within t0 t0 s0" by (simp add: c charged_within_def gate_of_def)
  then have ch: "charged_within t0 (clock_after t0 es) s"
    using charged_run [OF _ assms(3,4) w] assms(2) by simp
  have "ga_config (foldl gate_step v es) = ga_config v" for v by (induction es arbitrary: v) simp_all
  then have "ga_config s = ga_config s0" by (simp add: assms(2))
  then show ?thesis using charged_total [OF ch] assms(4) w by (simp add: budget_def)
qed

theorem admission_global_rate_bound_witness:
  "real (length (ga_arrived (foldl gate_step (gate_of sample_admission_config) sample_gate_run))) \<le> 4 + (2 - 0) * 4 / 1000"
proof -
  have "clocked 0 sample_gate_run" "clock_after 0 sample_gate_run = 2" by (simp_all add: sample_gate_run_def)
  moreover have "ac_global_rate (ga_config (gate_of sample_admission_config)) = 4"
    "ac_window (ga_config (gate_of sample_admission_config)) = 1000" by (simp_all add: gate_of_def sample_admission_config_def)
  ultimately show ?thesis using admission_global_rate_bound [OF sample_gate_created refl, of 0 sample_gate_run] by simp
qed

text \<open>What a refused and an accepted frame may do to one bucket.\<close>

definition spared :: "int \<Rightarrow> int \<Rightarrow> real \<Rightarrow> token_bucket option \<Rightarrow> token_bucket option \<Rightarrow> bool" where
  "spared cap w now old new \<longleftrightarrow> new = old \<or> new = Some (refill old cap w now)"

definition charged :: "int \<Rightarrow> int \<Rightarrow> int \<Rightarrow> real \<Rightarrow> token_bucket option \<Rightarrow> token_bucket option \<Rightarrow> bool" where
  "charged cap w cost now old new \<longleftrightarrow>
     (if cost \<le> 0 \<or> cap \<le> 0 then new = old
      else of_int cost \<le> tb_tokens (refill old cap w now) \<and>
        new = Some ((refill old cap w now)\<lparr>tb_tokens := tb_tokens (refill old cap w now) - of_int cost\<rparr>))"

lemma rate_gate_refused:
  assumes "rate_gate ws cost now s = (Some d, u)"
  shows "(\<exists>scope r. d = Refused RateLimit scope r) \<and>
    spared (ac_conn_rate (ga_config s)) (ac_window (ga_config s)) now (cg_rate (conn_of s ws)) (cg_rate (conn_of u ws)) \<and>
    spared (ac_global_rate (ga_config s)) (ac_window (ga_config s)) now (ga_rate s) (ga_rate u) \<and>
    spared (ac_conn_bytes (ga_config s)) (ac_window (ga_config s)) now (cg_bytes (conn_of s ws)) (cg_bytes (conn_of u ws)) \<and>
    spared (ac_global_bytes (ga_config s)) (ac_window (ga_config s)) now (ga_bytes s) (ga_bytes u)"
  using assms by (auto simp: rate_gate_def lane_check_def spared_def rate_rejection_def Let_def split: if_splits)

lemma rate_gate_passed:
  assumes "rate_gate ws cost now s = (None, u)"
  shows "charged (ac_conn_rate (ga_config s)) (ac_window (ga_config s)) 1 now (cg_rate (conn_of s ws)) (cg_rate (conn_of u ws)) \<and>
    charged (ac_global_rate (ga_config s)) (ac_window (ga_config s)) 1 now (ga_rate s) (ga_rate u) \<and>
    charged (ac_conn_bytes (ga_config s)) (ac_window (ga_config s)) cost now (cg_bytes (conn_of s ws)) (cg_bytes (conn_of u ws)) \<and>
    charged (ac_global_bytes (ga_config s)) (ac_window (ga_config s)) cost now (ga_bytes s) (ga_bytes u)"
  using assms by (auto simp: rate_gate_def lane_check_def charged_def charge_lanes_def Let_def not_less split: if_splits)

lemma touch_conn_sel [simp]:
  "ga_config (touch_conn ws s) = ga_config s" "ga_rate (touch_conn ws s) = ga_rate s" "ga_bytes (touch_conn ws s) = ga_bytes s"
  "conn_of (touch_conn ws s) ws' = conn_of s ws'"
  by (simp_all add: touch_conn_def)

lemma place_entry_decision: "fst (place_entry ws t s) \<noteq> Refused RateLimit scope r"
  by (simp add: place_entry_def Let_def)

text \<open>The rate lanes are all or nothing: a frame refused for its rate leaves every bucket
  uncharged, a frame that gets past them is charged in every lane that is on, and could afford it.\<close>

theorem admission_rate_all_or_nothing:
  assumes "admission_enabled (ga_config s)" and "\<not> cg_closed (conn_of s ws)"
    and "admission_enter ws bytes now s = (d, u)"
  shows "if \<exists>scope r. d = Refused RateLimit scope r
    then ga_running u = ga_running s \<and> ga_queue u = ga_queue s \<and>
      spared (ac_conn_rate (ga_config s)) (ac_window (ga_config s)) now (cg_rate (conn_of s ws)) (cg_rate (conn_of u ws)) \<and>
      spared (ac_global_rate (ga_config s)) (ac_window (ga_config s)) now (ga_rate s) (ga_rate u) \<and>
      spared (ac_conn_bytes (ga_config s)) (ac_window (ga_config s)) now (cg_bytes (conn_of s ws)) (cg_bytes (conn_of u ws)) \<and>
      spared (ac_global_bytes (ga_config s)) (ac_window (ga_config s)) now (ga_bytes s) (ga_bytes u)
    else
      charged (ac_conn_rate (ga_config s)) (ac_window (ga_config s)) 1 now (cg_rate (conn_of s ws)) (cg_rate (conn_of u ws)) \<and>
      charged (ac_global_rate (ga_config s)) (ac_window (ga_config s)) 1 now (ga_rate s) (ga_rate u) \<and>
      charged (ac_conn_bytes (ga_config s)) (ac_window (ga_config s)) (int bytes) now (cg_bytes (conn_of s ws)) (cg_bytes (conn_of u ws)) \<and>
      charged (ac_global_bytes (ga_config s)) (ac_window (ga_config s)) (int bytes) now (ga_bytes s) (ga_bytes u)"
proof -
  obtain e v where v: "rate_gate ws (int bytes) now (touch_conn ws s) = (e, v)" by fastforce
  show ?thesis
  proof (cases e)
    case (Some rej)
    then have eq: "d = rej" "u = v" using assms v by (simp_all add: admission_enter_touch)
    have "same_core (touch_conn ws s) v" using rate_gate_same_core [of "touch_conn ws s" ws "int bytes" now] v by simp
    then have "ga_running v = ga_running s" "ga_queue v = ga_queue s" by (simp_all add: same_core_def touch_conn_def)
    then show ?thesis using rate_gate_refused [of ws "int bytes" now "touch_conn ws s" rej v] v eq Some by simp
  next
    case None
    then have "place_entry ws (ga_next s) v = (d, u)" using assms v by (simp add: admission_enter_touch)
    then have "fst (place_entry ws (ga_next s) v) = d" "snd (place_entry ws (ga_next s) v) = u" by simp_all
    then have "\<nexists>scope r. d = Refused RateLimit scope r" and "ga_rate u = ga_rate v" "ga_bytes u = ga_bytes v"
        "cg_rate (conn_of u ws) = cg_rate (conn_of v ws)" "cg_bytes (conn_of u ws) = cg_bytes (conn_of v ws)"
      using place_entry_decision [of ws "ga_next s" v] place_entry_rate [of ws "ga_next s" v] by auto
    then show ?thesis using rate_gate_passed [of ws "int bytes" now "touch_conn ws s" v] v None by simp
  qed
qed

definition sample_rated_gate :: gate where
  "sample_rated_gate = (gate_of sample_admission_config)\<lparr>ga_rate := Some \<lparr>tb_tokens = 1 / 2, tb_updated = 10\<rparr>\<rparr>"

lemma sample_rated_refused:
  "admission_enter 7 3 20 sample_rated_gate =
     (Refused RateLimit ScGlobal (Some 115),
      (touch_conn 7 sample_rated_gate)\<lparr>ga_rate := Some \<lparr>tb_tokens = 27 / 50, tb_updated = 20\<rparr>\<rparr>)"
  by (simp add: sample_rated_gate_def touch_conn_def gate_eval)

theorem admission_rate_all_or_nothing_witness:
  "spared 4 1000 20 (ga_rate sample_rated_gate) (ga_rate (snd (admission_enter 7 3 20 sample_rated_gate))) \<and>
   fst (admission_enter 7 3 20 sample_rated_gate) = Refused RateLimit ScGlobal (Some 115)"
proof -
  have a: "admission_enabled (ga_config sample_rated_gate)" "\<not> cg_closed (conn_of sample_rated_gate 7)"
    by (simp_all add: sample_rated_gate_def gate_eval)
  note admission_rate_all_or_nothing [OF a sample_rated_refused]
  moreover have "ac_global_rate (ga_config sample_rated_gate) = 4" "ac_window (ga_config sample_rated_gate) = 1000"
    by (simp_all add: sample_rated_gate_def gate_of_def sample_admission_config_def)
  ultimately show ?thesis using sample_rated_refused by simp
qed

text \<open>The retry hint is honest. A frame refused by a rate lane whose capacity can hold its cost
  passes that lane when it comes back \<open>retryAfterMs\<close> later and no other frame came in between.\<close>

theorem admission_retry_after_suffices:
  assumes "lane_check cap w cost now b = LaneShort b'" and "0 < w" and "cost \<le> cap"
    and "now + of_int (retry_after b' cap w cost) \<le> now'"
  shows "\<exists>b''. lane_check cap w cost now' (Some b') = LaneOk b''"
  by (rule retry_wait_suffices [OF assms])

theorem admission_retry_after_suffices_witness:
  "\<exists>b''. lane_check 4 1000 1 135 (Some \<lparr>tb_tokens = 27 / 50, tb_updated = 20\<rparr>) = LaneOk b''"
proof -
  have "lane_check 4 1000 1 20 (Some \<lparr>tb_tokens = 1 / 2, tb_updated = 10\<rparr>) = LaneShort \<lparr>tb_tokens = 27 / 50, tb_updated = 20\<rparr>"
    by (simp add: lane_check_def refill_def Let_def)
  moreover have "retry_after \<lparr>tb_tokens = 27 / 50, tb_updated = 20\<rparr> 4 1000 1 = 115" by (simp add: retry_after_def)
  ultimately show ?thesis using admission_retry_after_suffices [of 4 1000 1 20 _ _ 135] by simp
qed

end
