(* ===== verification/Upgrade_Admission.thy ===== *)
theory Upgrade_Admission
  imports Message_Admission
begin

text \<open>
  The WebSocket upgrade gate, \<open>createUpgradeAdmission\<close> of
  \<open>src/runtime/utils/upgrade-admission.js\<close>: the concurrency, connection and cursor-lane counters,
  and the per-tick pacing of upgrade callbacks with its bounded circular queue.

  A callback is a number. Running it appends the number to \<open>ug_ran\<close>; callbacks do not call
  \<open>admit\<close> themselves. The turn of the event loop that \<open>setImmediate\<close> buys is the event \<open>UDrain\<close>,
  which can only happen while a drain is scheduled. \<open>ug_ran\<close> and \<open>ug_admitted\<close> are logs.
\<close>

section \<open>Options and state\<close>

record upgrade_opts =
  uo_max_concurrent :: limit_arg
  uo_max_connections :: limit_arg
  uo_per_tick :: limit_arg
  uo_max_deferred :: limit_arg
  uo_cursor_lane :: bool
  uo_fraction :: "js_cap option"

record upgrade_gate =
  ug_max_concurrent :: nat
  ug_max_connections :: nat
  ug_per_tick :: nat
  ug_max_deferred :: nat
  ug_cursor_max :: nat
  ug_in_flight :: int
  ug_cursor :: int
  ug_permits :: int
  ug_tick_count :: nat
  ug_deferred :: "nat \<Rightarrow> (nat \<times> real) option"
  ug_head :: nat
  ug_tail :: nat
  ug_depth :: nat
  ug_rejected :: nat
  ug_scheduled :: bool
  ug_ran :: "nat list"
  ug_admitted :: "nat list"

definition default_max_deferred :: nat where
  "default_max_deferred = 1024"

definition cursor_fraction :: "upgrade_opts \<Rightarrow> real" where
  "cursor_fraction opts =
     (case uo_fraction opts of
        Some (Finite f) \<Rightarrow> if uo_cursor_lane opts \<and> 0 < f then min 1 f else 1 / 4
      | Some Infinity \<Rightarrow> if uo_cursor_lane opts then 1 else 1 / 4
      | None \<Rightarrow> 1 / 4)"

definition cursor_ceiling :: "upgrade_opts \<Rightarrow> nat \<Rightarrow> nat" where
  "cursor_ceiling opts max_concurrent =
     (if 0 < max_concurrent \<and> uo_cursor_lane opts
      then max 1 (nat \<lfloor>real max_concurrent * cursor_fraction opts\<rfloor>) else 0)"

definition upgrade_gate_of :: "nat \<Rightarrow> nat \<Rightarrow> nat \<Rightarrow> nat \<Rightarrow> nat \<Rightarrow> upgrade_gate" where
  "upgrade_gate_of max_concurrent max_connections per_tick max_deferred cursor_max =
     \<lparr>ug_max_concurrent = max_concurrent, ug_max_connections = max_connections, ug_per_tick = per_tick,
      ug_max_deferred = max_deferred, ug_cursor_max = cursor_max, ug_in_flight = 0, ug_cursor = 0, ug_permits = 0,
      ug_tick_count = 0, ug_deferred = (\<lambda>i. None), ug_head = 0, ug_tail = 0, ug_depth = 0, ug_rejected = 0,
      ug_scheduled = False, ug_ran = [], ug_admitted = []\<rparr>"

text \<open>Absent or null options configure nothing.\<close>

definition no_upgrade_opts :: upgrade_opts where
  "no_upgrade_opts = \<lparr>uo_max_concurrent = LUndefined, uo_max_connections = LUndefined, uo_per_tick = LUndefined,
     uo_max_deferred = LUndefined, uo_cursor_lane = False, uo_fraction = None\<rparr>"

definition create_upgrade_admission :: "upgrade_opts option \<Rightarrow> admission_error + upgrade_gate" where
  "create_upgrade_admission given =
     (let opts = (case given of None \<Rightarrow> no_upgrade_opts | Some o' \<Rightarrow> o') in
      try_bind (limit_of (uo_max_concurrent opts) (js_of ''maxConcurrent'') False) (\<lambda>max_concurrent.
      try_bind (limit_of (uo_max_connections opts) (js_of ''maxConnections'') False) (\<lambda>max_connections.
      try_bind (limit_of (uo_per_tick opts) (js_of ''perTickBudget'') False) (\<lambda>per_tick.
      try_bind (limit_of (uo_max_deferred opts) (js_of ''maxDeferred'') False) (\<lambda>configured.
        let max_deferred =
          (if 0 < per_tick then (if uo_max_deferred opts = LUndefined then default_max_deferred else nat configured) else 0)
        in Inr (upgrade_gate_of (nat max_concurrent) (nat max_connections) (nat per_tick) max_deferred
             (cursor_ceiling opts (nat max_concurrent))))))))"

section \<open>Counters\<close>

definition try_acquire :: "upgrade_gate \<Rightarrow> bool \<times> upgrade_gate" where
  "try_acquire s =
     (if 0 < ug_max_concurrent s \<and> int (ug_max_concurrent s) \<le> ug_in_flight s then (False, s)
      else (True, s\<lparr>ug_in_flight := ug_in_flight s + 1\<rparr>))"

definition release_upgrade :: "upgrade_gate \<Rightarrow> upgrade_gate" where
  "release_upgrade s = s\<lparr>ug_in_flight := ug_in_flight s - 1\<rparr>"

definition try_acquire_connection :: "upgrade_gate \<Rightarrow> bool \<times> upgrade_gate" where
  "try_acquire_connection s =
     (if ug_max_connections s = 0 then (True, s)
      else if int (ug_max_connections s) \<le> ug_permits s then (False, s)
      else (True, s\<lparr>ug_permits := ug_permits s + 1\<rparr>))"

datatype permit_error = ReleasedWithoutAcquisition

definition release_connection :: "upgrade_gate \<Rightarrow> permit_error + upgrade_gate" where
  "release_connection s =
     (if ug_max_connections s = 0 then Inr s
      else if ug_permits s \<le> 0 then Inl ReleasedWithoutAcquisition
      else Inr (s\<lparr>ug_permits := ug_permits s - 1\<rparr>))"

definition try_acquire_cursor :: "upgrade_gate \<Rightarrow> bool \<times> upgrade_gate" where
  "try_acquire_cursor s =
     (if 0 < ug_max_concurrent s \<and> int (ug_max_concurrent s) \<le> ug_in_flight s then (False, s)
      else if int (ug_cursor_max s) \<le> ug_cursor s then (False, s)
      else (True, s\<lparr>ug_in_flight := ug_in_flight s + 1, ug_cursor := ug_cursor s + 1\<rparr>))"

definition release_cursor :: "upgrade_gate \<Rightarrow> upgrade_gate" where
  "release_cursor s = s\<lparr>ug_in_flight := ug_in_flight s - 1, ug_cursor := ug_cursor s - 1\<rparr>"

definition connection_headroom :: "upgrade_gate \<Rightarrow> int option" where
  "connection_headroom s = (if 0 < ug_max_connections s then Some (int (ug_max_connections s) - ug_permits s) else None)"

section \<open>Pacing\<close>

definition schedule_drain :: "upgrade_gate \<Rightarrow> upgrade_gate" where
  "schedule_drain s = (if ug_scheduled s then s else s\<lparr>ug_scheduled := True\<rparr>)"

definition run_callback :: "nat \<Rightarrow> upgrade_gate \<Rightarrow> upgrade_gate" where
  "run_callback f s = s\<lparr>ug_ran := ug_ran s @ [f]\<rparr>"

definition oldest_deferred_age :: "real \<Rightarrow> upgrade_gate \<Rightarrow> real" where
  "oldest_deferred_age now s =
     (if ug_depth s = 0 then 0
      else case ug_deferred s (ug_head s) of None \<Rightarrow> 0 | Some (f, at_time) \<Rightarrow> max 0 (now - at_time))"

definition next_slot :: "upgrade_gate \<Rightarrow> nat \<Rightarrow> nat" where
  "next_slot s i = (if i + 1 = ug_max_deferred s then 0 else i + 1)"

definition dequeue_upgrade :: "upgrade_gate \<Rightarrow> (nat \<times> real) option \<times> upgrade_gate" where
  "dequeue_upgrade s =
     (let entry = ug_deferred s (ug_head s);
          s = s\<lparr>ug_deferred := (ug_deferred s)(ug_head s := None), ug_head := next_slot s (ug_head s), ug_depth := ug_depth s - 1\<rparr>
      in (entry, if ug_depth s = 0 then s\<lparr>ug_head := 0, ug_tail := 0\<rparr> else s))"

text \<open>The loop of \<open>drain\<close>. An entry read from a hole would throw inside the try block, so nothing
  runs then.\<close>

definition drain_one :: "upgrade_gate \<Rightarrow> upgrade_gate" where
  "drain_one s =
     (case dequeue_upgrade s of
        (entry, s) \<Rightarrow>
          (let s = s\<lparr>ug_tick_count := ug_tick_count s + 1\<rparr>
           in case entry of None \<Rightarrow> s | Some (f, at_time) \<Rightarrow> run_callback f s))"

lemma depth_drain_one [simp]: "ug_depth (drain_one s) = ug_depth s - 1"
  by (simp add: drain_one_def dequeue_upgrade_def run_callback_def Let_def split: option.split)

function drain_loop :: "upgrade_gate \<Rightarrow> upgrade_gate" where
  "drain_loop s = (if ug_tick_count s < ug_per_tick s \<and> 0 < ug_depth s then drain_loop (drain_one s) else s)"
  by pat_completeness auto

termination
  by (relation "measure ug_depth") auto

declare drain_loop.simps [simp del]

definition drain_upgrades :: "upgrade_gate \<Rightarrow> upgrade_gate" where
  "drain_upgrades s =
     (let s = drain_loop (s\<lparr>ug_scheduled := False, ug_tick_count := 0\<rparr>)
      in if 0 < ug_depth s \<or> 0 < ug_tick_count s then schedule_drain s else s)"

definition has_capacity :: "upgrade_gate \<Rightarrow> bool" where
  "has_capacity s \<longleftrightarrow>
     \<not> (0 < ug_max_concurrent s \<and> int (ug_max_concurrent s) \<le> ug_in_flight s) \<and>
     \<not> (0 < ug_max_connections s \<and> int (ug_max_connections s) \<le> ug_permits s) \<and>
     \<not> (0 < ug_per_tick s \<and> ug_per_tick s \<le> ug_tick_count s \<and> ug_max_deferred s \<le> ug_depth s)"

definition upgrade_admit :: "nat \<Rightarrow> real \<Rightarrow> upgrade_gate \<Rightarrow> bool option \<times> upgrade_gate" where
  "upgrade_admit f now s =
     (if ug_per_tick s = 0 then (Some True, run_callback f (s\<lparr>ug_admitted := ug_admitted s @ [f]\<rparr>))
      else if ug_tick_count s < ug_per_tick s
      then (Some True, run_callback f (schedule_drain (s\<lparr>ug_tick_count := ug_tick_count s + 1, ug_admitted := ug_admitted s @ [f]\<rparr>)))
      else if ug_max_deferred s \<le> ug_depth s then (None, s\<lparr>ug_rejected := ug_rejected s + 1\<rparr>)
      else (Some False, schedule_drain (s\<lparr>ug_deferred := (ug_deferred s)(ug_tail s := Some (f, now)),
              ug_tail := next_slot s (ug_tail s), ug_depth := ug_depth s + 1, ug_admitted := ug_admitted s @ [f]\<rparr>)))"

datatype upgrade_event =
    UAcquire | URelease | UConnect | UDisconnect | UAcquireCursor | UReleaseCursor
  | UAdmit nat real
  | UDrain

fun upgrade_step :: "upgrade_gate \<Rightarrow> upgrade_event \<Rightarrow> upgrade_gate" where
  "upgrade_step s UAcquire = snd (try_acquire s)"
| "upgrade_step s URelease = release_upgrade s"
| "upgrade_step s UConnect = snd (try_acquire_connection s)"
| "upgrade_step s UDisconnect = (case release_connection s of Inl e \<Rightarrow> s | Inr s' \<Rightarrow> s')"
| "upgrade_step s UAcquireCursor = snd (try_acquire_cursor s)"
| "upgrade_step s UReleaseCursor = release_cursor s"
| "upgrade_step s (UAdmit f now) = snd (upgrade_admit f now s)"
| "upgrade_step s UDrain = (if ug_scheduled s then drain_upgrades s else s)"

section \<open>The pacing queue refines a list\<close>

definition slot_at :: "upgrade_gate \<Rightarrow> nat \<Rightarrow> nat" where
  "slot_at s i = (ug_head s + i) mod ug_max_deferred s"

definition waiting_upgrades :: "upgrade_gate \<Rightarrow> nat list" where
  "waiting_upgrades s = map (\<lambda>i. fst (the (ug_deferred s (slot_at s i)))) [0..<ug_depth s]"

definition ring_ok :: "upgrade_gate \<Rightarrow> bool" where
  "ring_ok s \<longleftrightarrow> ug_depth s \<le> ug_max_deferred s \<and>
     (0 < ug_max_deferred s \<longrightarrow> ug_head s < ug_max_deferred s \<and> ug_tail s = slot_at s (ug_depth s)) \<and>
     (\<forall>i < ug_depth s. ug_deferred s (slot_at s i) \<noteq> None)"

definition pacing_inv :: "upgrade_gate \<Rightarrow> bool" where
  "pacing_inv s \<longleftrightarrow> ring_ok s \<and> ug_admitted s = ug_ran s @ waiting_upgrades s \<and>
     ug_tick_count s \<le> ug_per_tick s \<and> (0 < ug_depth s \<longrightarrow> ug_per_tick s \<le> ug_tick_count s \<and> 0 < ug_per_tick s) \<and>
     (0 < ug_tick_count s \<longrightarrow> ug_scheduled s)"

lemma next_slot_mod: "i < ug_max_deferred s \<Longrightarrow> next_slot s i = Suc i mod ug_max_deferred s"
  by (auto simp: next_slot_def)

lemma mod_shift_inj:
  fixes h i j m :: nat
  assumes "i < m" and "j < m" and "(h + i) mod m = (h + j) mod m"
  shows "i = j"
proof -
  have "i = j" if "i \<le> j" "j < m" "(h + i) mod m = (h + j) mod m" for i j :: nat
  proof -
    have "m dvd (h + j) - (h + i)" using that by (metis mod_eq_dvd_iff_nat nat_add_left_cancel_le)
    then have "m dvd j - i" by simp
    then show ?thesis using that(1,2) by (metis dvd_imp_le le_antisym less_imp_diff_less not_le zero_less_diff)
  qed
  from this [of i j] this [of j i] assms show ?thesis by (cases "i \<le> j") auto
qed

lemma slot_at_inj: "i < ug_max_deferred s \<Longrightarrow> j < ug_max_deferred s \<Longrightarrow> slot_at s i = slot_at s j \<Longrightarrow> i = j"
  unfolding slot_at_def by (rule mod_shift_inj)

lemma slot_at_0: "ug_head s < ug_max_deferred s \<Longrightarrow> slot_at s 0 = ug_head s"
  by (simp add: slot_at_def)

lemma waiting_length [simp]: "length (waiting_upgrades s) = ug_depth s"
  by (simp add: waiting_upgrades_def)

lemma ring_okD:
  assumes "ring_ok s" and "0 < ug_depth s"
  shows "0 < ug_max_deferred s" "ug_head s < ug_max_deferred s" "ug_tail s = slot_at s (ug_depth s)"
    "ug_deferred s (slot_at s i) \<noteq> None \<or> ug_depth s \<le> i" "ug_depth s \<le> ug_max_deferred s"
  using assms by (auto simp: ring_ok_def not_less)

lemma drain_one_refines:
  assumes ok: "ring_ok s" and d: "0 < ug_depth s"
  shows "ring_ok (drain_one s)" and "ug_ran (drain_one s) = ug_ran s @ [hd (waiting_upgrades s)]"
    and "waiting_upgrades (drain_one s) = tl (waiting_upgrades s)"
proof -
  note r = ring_okD [OF ok d]
  let ?m = "ug_max_deferred s"
  obtain f at_time where e: "ug_deferred s (ug_head s) = Some (f, at_time)"
    using r(4) [of 0] d slot_at_0 [OF r(2)] by (cases "ug_deferred s (ug_head s)") auto
  have h: "hd (waiting_upgrades s) = f"
    using d e slot_at_0 [OF r(2)] by (simp add: waiting_upgrades_def hd_map upt_conv_Cons)
  have n: "next_slot s (ug_head s) = Suc (ug_head s) mod ?m" by (rule next_slot_mod [OF r(2)])
  define u where "u = drain_one s"
  have u: "ug_max_deferred u = ?m" "ug_depth u = ug_depth s - 1" "ug_ran u = ug_ran s @ [f]"
    "ug_deferred u = (ug_deferred s)(ug_head s := None)"
    "ug_head u = (if ug_depth s = 1 then 0 else Suc (ug_head s) mod ?m)"
    "ug_tail u = (if ug_depth s = 1 then 0 else ug_tail s)"
    using d by (auto simp: u_def drain_one_def dequeue_upgrade_def e run_callback_def Let_def n)
  show "ug_ran (drain_one s) = ug_ran s @ [hd (waiting_upgrades s)]" using u(3) h by (simp add: u_def)
  show "ring_ok (drain_one s)" and "waiting_upgrades (drain_one s) = tl (waiting_upgrades s)"
  proof -
    have sl: "slot_at u i = slot_at s (Suc i)" if "ug_depth s \<noteq> 1" for i
      using that by (simp add: slot_at_def u mod_add_left_eq)
    have ne: "slot_at s (Suc i) \<noteq> ug_head s" if "i < ug_depth u" for i
    proof -
      have "Suc i < ug_max_deferred s" using that u(2) r(5) by linarith
      then show ?thesis using slot_at_inj [of "Suc i" s 0] slot_at_0 [OF r(2)] r(1) by auto
    qed
    have kept: "ug_deferred u (slot_at u i) = ug_deferred s (slot_at s (Suc i))" if "i < ug_depth u" for i
      using sl ne [OF that] that u(2) by (auto simp: u(4))
    have "ug_depth s = Suc (ug_depth u)" using d u(2) by simp
    then have "ug_tail u = slot_at u (ug_depth u)"
      using r(3) sl [of "ug_depth u"] by (cases "ug_depth s = 1") (simp add: u(5,6) slot_at_def, simp add: u(6))
    moreover have "ug_deferred u (slot_at u i) \<noteq> None" if "i < ug_depth u" for i
      using kept [OF that] r(4) [of "Suc i"] that u(2) by auto
    moreover have "ug_depth u \<le> ug_max_deferred u" "ug_head u < ug_max_deferred u" using r(1,5) u(1,2,5) by auto
    ultimately have "ring_ok u" by (simp add: ring_ok_def)
    then show "ring_ok (drain_one s)" by (simp add: u_def)
    have up: "[1..<ug_depth s] = map Suc [0..<ug_depth u]" using d u(2) by (simp add: map_Suc_upt)
    have "waiting_upgrades u = map (\<lambda>i. fst (the (ug_deferred s (slot_at s (Suc i))))) [0..<ug_depth u]"
      unfolding waiting_upgrades_def using kept by (intro map_cong) auto
    also have "\<dots> = map (\<lambda>i. fst (the (ug_deferred s (slot_at s i)))) [1..<ug_depth s]"
      unfolding up map_map comp_def ..
    also have "\<dots> = tl (waiting_upgrades s)" by (simp add: waiting_upgrades_def flip: map_tl)
    finally show "waiting_upgrades (drain_one s) = tl (waiting_upgrades s)" by (simp add: u_def)
  qed
qed

lemma defer_refines:
  fixes now :: real and f :: nat and ad :: "nat list"
  assumes ok: "ring_ok s" and room: "ug_depth s < ug_max_deferred s"
  defines "u \<equiv> s\<lparr>ug_deferred := (ug_deferred s)(ug_tail s := Some (f, now)),
    ug_tail := next_slot s (ug_tail s), ug_depth := ug_depth s + 1, ug_admitted := ad\<rparr>"
  shows "ring_ok u" and "waiting_upgrades u = waiting_upgrades s @ [f]"
proof -
  have m: "0 < ug_max_deferred s" "ug_head s < ug_max_deferred s" "ug_tail s = slot_at s (ug_depth s)"
    using ok room by (auto simp: ring_ok_def)
  have sl: "slot_at u i = slot_at s i" for i by (simp add: u_def slot_at_def)
  have "ug_tail s < ug_max_deferred s" using m by (simp add: slot_at_def)
  then have t: "next_slot s (ug_tail s) = slot_at s (Suc (ug_depth s))"
    using m(3) by (simp add: next_slot_mod slot_at_def mod_Suc_eq)
  have old: "ug_deferred u (slot_at s i) = ug_deferred s (slot_at s i)" if "i < ug_depth s" for i
    using slot_at_inj [of i s "ug_depth s"] that room m(3) by (auto simp: u_def)
  have new: "ug_deferred u (slot_at s (ug_depth s)) = Some (f, now)" by (simp add: u_def m(3))
  have "ug_deferred u (slot_at u i) \<noteq> None" if "i < Suc (ug_depth s)" for i
    using old new ok that by (cases "i = ug_depth s") (auto simp: sl ring_ok_def)
  moreover have "ug_tail u = slot_at u (ug_depth u)" "ug_depth u = Suc (ug_depth s)" "ug_head u = ug_head s"
    "ug_max_deferred u = ug_max_deferred s" by (simp_all add: u_def t slot_at_def)
  ultimately show "ring_ok u" using room m(2) by (simp add: ring_ok_def)
  have du: "ug_depth u = Suc (ug_depth s)" by (simp add: u_def)
  have "waiting_upgrades u = map (\<lambda>i. fst (the (ug_deferred u (slot_at s i)))) ([0..<ug_depth s] @ [ug_depth s])"
    by (simp add: waiting_upgrades_def sl du)
  also have "\<dots> = map (\<lambda>i. fst (the (ug_deferred s (slot_at s i)))) [0..<ug_depth s] @ [f]"
    using old new by simp
  finally show "waiting_upgrades u = waiting_upgrades s @ [f]" by (simp add: waiting_upgrades_def)
qed


section \<open>A drain\<close>

lemma drain_one_sel [simp]:
  "ug_per_tick (drain_one s) = ug_per_tick s" "ug_tick_count (drain_one s) = ug_tick_count s + 1"
  "ug_admitted (drain_one s) = ug_admitted s" "ug_scheduled (drain_one s) = ug_scheduled s"
  "ug_max_deferred (drain_one s) = ug_max_deferred s" "ug_max_concurrent (drain_one s) = ug_max_concurrent s"
  "ug_max_connections (drain_one s) = ug_max_connections s" "ug_cursor_max (drain_one s) = ug_cursor_max s"
  "ug_in_flight (drain_one s) = ug_in_flight s" "ug_cursor (drain_one s) = ug_cursor s" "ug_permits (drain_one s) = ug_permits s"
  by (simp_all add: drain_one_def dequeue_upgrade_def run_callback_def Let_def split: option.split)

lemma drain_loop_stop: "\<not> (ug_tick_count s < ug_per_tick s \<and> 0 < ug_depth s) \<Longrightarrow> drain_loop s = s"
  by (subst drain_loop.simps) auto

lemma drain_loop_go: "ug_tick_count s < ug_per_tick s \<and> 0 < ug_depth s \<Longrightarrow> drain_loop s = drain_loop (drain_one s)"
  by (subst drain_loop.simps) auto

lemma drain_loop_sel [simp]:
  "ug_per_tick (drain_loop s) = ug_per_tick s \<and> ug_admitted (drain_loop s) = ug_admitted s \<and>
   ug_scheduled (drain_loop s) = ug_scheduled s \<and> ug_max_deferred (drain_loop s) = ug_max_deferred s \<and>
   ug_max_concurrent (drain_loop s) = ug_max_concurrent s \<and> ug_max_connections (drain_loop s) = ug_max_connections s \<and>
   ug_cursor_max (drain_loop s) = ug_cursor_max s \<and> ug_in_flight (drain_loop s) = ug_in_flight s \<and>
   ug_cursor (drain_loop s) = ug_cursor s \<and> ug_permits (drain_loop s) = ug_permits s"
proof (induction s rule: drain_loop.induct)
  case (1 s)
  then show ?case
    by (cases "ug_tick_count s < ug_per_tick s \<and> 0 < ug_depth s") (simp_all add: drain_loop_go drain_loop_stop)
qed

lemma drain_loop_refines:
  assumes "ring_ok s" and "ug_tick_count s \<le> ug_per_tick s"
  shows "ring_ok (drain_loop s) \<and>
    ug_ran (drain_loop s) = ug_ran s @ take (ug_per_tick s - ug_tick_count s) (waiting_upgrades s) \<and>
    waiting_upgrades (drain_loop s) = drop (ug_per_tick s - ug_tick_count s) (waiting_upgrades s) \<and>
    ug_tick_count (drain_loop s) = ug_tick_count s + min (ug_per_tick s - ug_tick_count s) (ug_depth s)"
  using assms
proof (induction s rule: drain_loop.induct)
  case (1 s)
  show ?case
  proof (cases "ug_tick_count s < ug_per_tick s \<and> 0 < ug_depth s")
    case True
    note d = drain_one_refines [OF 1(2)]
    note e = drain_loop_go [OF True]
    have "waiting_upgrades s \<noteq> []" using True waiting_length [of s] by (metis length_0_conv less_nat_zero_code)
    then obtain f q where w: "waiting_upgrades s = f # q" by (cases "waiting_upgrades s") auto
    obtain k where k: "ug_per_tick s - ug_tick_count s = Suc k" using True by (metis Suc_diff_Suc)
    have "ug_per_tick s - Suc (ug_tick_count s) = k" using k by simp
    then show ?thesis
      using 1(1) [OF True d(1)] d True w by (simp add: e k) linarith
  next
    case False
    then have "drain_loop s = s" by (rule drain_loop_stop)
    moreover have "ug_per_tick s - ug_tick_count s = 0 \<or> waiting_upgrades s = []"
      using False waiting_length [of s] by (metis diff_is_0_eq length_0_conv not_gr_zero not_le)
    ultimately show ?thesis using 1(2) False by auto
  qed
qed

lemma ring_ok_upd [simp]:
  "ring_ok (s\<lparr>ug_scheduled := a\<rparr>) = ring_ok s" "ring_ok (s\<lparr>ug_tick_count := b\<rparr>) = ring_ok s"
  "ring_ok (s\<lparr>ug_ran := c\<rparr>) = ring_ok s" "ring_ok (s\<lparr>ug_admitted := c\<rparr>) = ring_ok s"
  "ring_ok (s\<lparr>ug_in_flight := d\<rparr>) = ring_ok s" "ring_ok (s\<lparr>ug_cursor := d\<rparr>) = ring_ok s"
  "ring_ok (s\<lparr>ug_permits := d\<rparr>) = ring_ok s" "ring_ok (s\<lparr>ug_rejected := b\<rparr>) = ring_ok s"
  by (simp_all add: ring_ok_def slot_at_def)

lemma waiting_upd [simp]:
  "waiting_upgrades (s\<lparr>ug_scheduled := a\<rparr>) = waiting_upgrades s" "waiting_upgrades (s\<lparr>ug_tick_count := b\<rparr>) = waiting_upgrades s"
  "waiting_upgrades (s\<lparr>ug_ran := c\<rparr>) = waiting_upgrades s" "waiting_upgrades (s\<lparr>ug_admitted := c\<rparr>) = waiting_upgrades s"
  "waiting_upgrades (s\<lparr>ug_in_flight := d\<rparr>) = waiting_upgrades s" "waiting_upgrades (s\<lparr>ug_cursor := d\<rparr>) = waiting_upgrades s"
  "waiting_upgrades (s\<lparr>ug_permits := d\<rparr>) = waiting_upgrades s" "waiting_upgrades (s\<lparr>ug_rejected := b\<rparr>) = waiting_upgrades s"
  by (simp_all add: waiting_upgrades_def slot_at_def)

lemma schedule_drain_eq: "schedule_drain s = s\<lparr>ug_scheduled := True\<rparr>"
  by (cases s) (simp add: schedule_drain_def)

lemma drain_upgrades_refines:
  assumes "ring_ok s"
  shows "ring_ok (drain_upgrades s)"
    and "ug_ran (drain_upgrades s) = ug_ran s @ take (ug_per_tick s) (waiting_upgrades s)"
    and "waiting_upgrades (drain_upgrades s) = drop (ug_per_tick s) (waiting_upgrades s)"
    and "ug_tick_count (drain_upgrades s) = min (ug_per_tick s) (ug_depth s)"
    and "ug_admitted (drain_upgrades s) = ug_admitted s" and "ug_per_tick (drain_upgrades s) = ug_per_tick s"
    and "ug_scheduled (drain_upgrades s) \<longleftrightarrow> 0 < ug_depth (drain_upgrades s) \<or> 0 < ug_tick_count (drain_upgrades s)"
  using drain_loop_refines [of "s\<lparr>ug_scheduled := False, ug_tick_count := 0\<rparr>"] assms
  by (simp_all add: drain_upgrades_def schedule_drain_eq Let_def)

section \<open>The invariants\<close>

lemma pacing_admit:
  assumes i: "pacing_inv s"
  shows "pacing_inv (snd (upgrade_admit f now s))"
proof -
  consider "ug_per_tick s = 0" | "ug_tick_count s < ug_per_tick s" | "0 < ug_per_tick s" "ug_tick_count s = ug_per_tick s" "ug_max_deferred s \<le> ug_depth s"
    | "0 < ug_per_tick s" "ug_tick_count s = ug_per_tick s" "ug_depth s < ug_max_deferred s"
  proof -
    have "ug_tick_count s \<le> ug_per_tick s" using i by (simp add: pacing_inv_def)
    then have "ug_per_tick s = 0 \<or> ug_tick_count s < ug_per_tick s \<or> 0 < ug_per_tick s \<and> ug_tick_count s = ug_per_tick s"
      by linarith
    then show ?thesis using that not_le by blast
  qed
  then show ?thesis
  proof cases
    case 1
    then have "ug_depth s = 0" using i by (auto simp: pacing_inv_def)
    then have "waiting_upgrades s = []" using waiting_length [of s] by (metis length_0_conv)
    then show ?thesis using i 1 by (simp add: upgrade_admit_def run_callback_def pacing_inv_def)
  next
    case 2
    then have "ug_depth s = 0" using i by (auto simp: pacing_inv_def)
    then have "waiting_upgrades s = []" using waiting_length [of s] by (metis length_0_conv)
    then show ?thesis using i 2 by (simp add: upgrade_admit_def run_callback_def schedule_drain_eq pacing_inv_def)
  next
    case 3
    then show ?thesis using i by (simp add: upgrade_admit_def pacing_inv_def)
  next
    case 4
    have "ring_ok s" using i by (simp add: pacing_inv_def)
    note d = defer_refines [OF this 4(3), where f = f and now = now and ad = "ug_admitted s @ [f]"]
    show ?thesis using i 4 d by (simp add: upgrade_admit_def schedule_drain_eq pacing_inv_def)
  qed
qed

lemma pacing_drain:
  assumes i: "pacing_inv s"
  shows "pacing_inv (drain_upgrades s)"
proof -
  have ok: "ring_ok s" using i by (simp add: pacing_inv_def)
  note d = drain_upgrades_refines [OF ok]
  have "ug_depth (drain_upgrades s) = ug_depth s - ug_per_tick s"
    using d(3) waiting_length [of "drain_upgrades s"] by (metis length_drop waiting_length)
  moreover have "0 < ug_depth s \<Longrightarrow> 0 < ug_per_tick s" using i by (simp add: pacing_inv_def)
  ultimately show ?thesis using i d by (simp add: pacing_inv_def)
qed

lemma pacing_upd [simp]:
  "pacing_inv (s\<lparr>ug_in_flight := d\<rparr>) = pacing_inv s" "pacing_inv (s\<lparr>ug_cursor := d\<rparr>) = pacing_inv s"
  "pacing_inv (s\<lparr>ug_permits := d\<rparr>) = pacing_inv s"
  by (simp_all add: pacing_inv_def)

lemma pacing_step: "pacing_inv s \<Longrightarrow> pacing_inv (upgrade_step s e)"
  by (cases e) (simp_all add: pacing_admit pacing_drain try_acquire_def release_upgrade_def try_acquire_connection_def
      release_connection_def try_acquire_cursor_def release_cursor_def)

lemma pacing_init: "pacing_inv (upgrade_gate_of a b c d e)"
  by (simp add: pacing_inv_def ring_ok_def upgrade_gate_of_def waiting_upgrades_def slot_at_def)

interpretation pacing: machine "upgrade_gate_of a b c d e" upgrade_step pacing_inv for a b c d e
  by unfold_locales (simp_all add: pacing_init pacing_step)


text \<open>A turn begins with the drain that was scheduled. \<open>turn_base s n es\<close> is the number of callbacks that had
  run when the last turn of the run began, \<open>n\<close> when no drain happens in it.\<close>

fun turn_base :: "upgrade_gate \<Rightarrow> nat \<Rightarrow> upgrade_event list \<Rightarrow> nat" where
  "turn_base s n [] = n"
| "turn_base s n (e # es) =
     turn_base (upgrade_step s e) (if e = UDrain \<and> ug_scheduled s then length (ug_ran s) else n) es"

definition turn_counted :: "nat \<Rightarrow> upgrade_gate \<Rightarrow> bool" where
  "turn_counted n s \<longleftrightarrow> (0 < ug_per_tick s \<longrightarrow> length (ug_ran s) = n + ug_tick_count s)"

lemma turn_counted_upd [simp]:
  "turn_counted n (s\<lparr>ug_in_flight := d\<rparr>) = turn_counted n s" "turn_counted n (s\<lparr>ug_cursor := d\<rparr>) = turn_counted n s"
  "turn_counted n (s\<lparr>ug_permits := d\<rparr>) = turn_counted n s"
  by (simp_all add: turn_counted_def)

lemma turn_counted_step:
  assumes "pacing_inv s" and "turn_counted n s"
  shows "turn_counted (if e = UDrain \<and> ug_scheduled s then length (ug_ran s) else n) (upgrade_step s e)"
proof (cases e)
  case (UAdmit f now)
  then show ?thesis using assms(2)
    by (simp add: turn_counted_def upgrade_admit_def run_callback_def schedule_drain_eq)
next
  case UDrain
  have "ring_ok s" using assms(1) by (simp add: pacing_inv_def)
  then show ?thesis using assms(2) UDrain by (simp add: turn_counted_def drain_upgrades_refines min.commute)
qed (use assms(2) in \<open>simp_all add: try_acquire_def release_upgrade_def try_acquire_connection_def
      release_connection_def try_acquire_cursor_def release_cursor_def\<close>)

lemma turn_counted_run:
  "pacing_inv s \<Longrightarrow> turn_counted n s \<Longrightarrow> turn_counted (turn_base s n es) (foldl upgrade_step s es)"
proof (induction es arbitrary: s n)
  case (Cons e es)
  from Cons.IH [OF pacing_step [OF Cons.prems(1)] turn_counted_step [OF Cons.prems]] show ?case
    by (simp del: upgrade_step.simps)
qed simp

text \<open>The counters, when releases match acquisitions.\<close>

definition release_matched :: "upgrade_gate \<Rightarrow> upgrade_event \<Rightarrow> bool" where
  "release_matched s e \<longleftrightarrow>
     (case e of URelease \<Rightarrow> ug_cursor s < ug_in_flight s | UReleaseCursor \<Rightarrow> 0 < ug_cursor s | _ \<Rightarrow> True)"

fun releases_matched :: "upgrade_gate \<Rightarrow> upgrade_event list \<Rightarrow> bool" where
  "releases_matched s [] \<longleftrightarrow> True"
| "releases_matched s (e # es) \<longleftrightarrow> release_matched s e \<and> releases_matched (upgrade_step s e) es"

definition ceilings_inv :: "upgrade_gate \<Rightarrow> bool" where
  "ceilings_inv s \<longleftrightarrow> 0 \<le> ug_cursor s \<and> ug_cursor s \<le> ug_in_flight s \<and> ug_cursor s \<le> int (ug_cursor_max s) \<and>
     (0 < ug_max_concurrent s \<longrightarrow> ug_in_flight s \<le> int (ug_max_concurrent s)) \<and>
     0 \<le> ug_permits s \<and> ug_permits s \<le> int (ug_max_connections s)"

lemma drain_upgrades_sel [simp]:
  "ug_max_concurrent (drain_upgrades s) = ug_max_concurrent s" "ug_max_connections (drain_upgrades s) = ug_max_connections s"
  "ug_cursor_max (drain_upgrades s) = ug_cursor_max s" "ug_in_flight (drain_upgrades s) = ug_in_flight s"
  "ug_cursor (drain_upgrades s) = ug_cursor s" "ug_permits (drain_upgrades s) = ug_permits s"
  "ug_per_tick (drain_upgrades s) = ug_per_tick s" "ug_max_deferred (drain_upgrades s) = ug_max_deferred s"
  by (simp_all add: drain_upgrades_def schedule_drain_eq Let_def)

lemma upgrade_admit_sel [simp]:
  "ug_max_concurrent (snd (upgrade_admit f now s)) = ug_max_concurrent s"
  "ug_max_connections (snd (upgrade_admit f now s)) = ug_max_connections s"
  "ug_cursor_max (snd (upgrade_admit f now s)) = ug_cursor_max s" "ug_in_flight (snd (upgrade_admit f now s)) = ug_in_flight s"
  "ug_cursor (snd (upgrade_admit f now s)) = ug_cursor s" "ug_permits (snd (upgrade_admit f now s)) = ug_permits s"
  "ug_per_tick (snd (upgrade_admit f now s)) = ug_per_tick s" "ug_max_deferred (snd (upgrade_admit f now s)) = ug_max_deferred s"
  by (simp_all add: upgrade_admit_def run_callback_def schedule_drain_eq)

lemmas counter_defs = try_acquire_def release_upgrade_def try_acquire_connection_def release_connection_def
  try_acquire_cursor_def release_cursor_def

lemma ceilings_step: "ceilings_inv s \<Longrightarrow> release_matched s e \<Longrightarrow> ceilings_inv (upgrade_step s e)"
  by (cases e) (auto simp: ceilings_inv_def release_matched_def counter_defs)

lemma ceilings_run: "ceilings_inv s \<Longrightarrow> releases_matched s es \<Longrightarrow> ceilings_inv (foldl upgrade_step s es)"
  by (induction es arbitrary: s) (auto simp: ceilings_step)

lemma upgrade_params_step:
  "ug_max_concurrent (upgrade_step s e) = ug_max_concurrent s \<and> ug_max_connections (upgrade_step s e) = ug_max_connections s \<and>
   ug_cursor_max (upgrade_step s e) = ug_cursor_max s \<and> ug_per_tick (upgrade_step s e) = ug_per_tick s \<and>
   ug_max_deferred (upgrade_step s e) = ug_max_deferred s"
  by (cases e) (simp_all add: counter_defs)

lemma upgrade_params_run:
  "ug_max_concurrent (foldl upgrade_step s es) = ug_max_concurrent s \<and> ug_max_connections (foldl upgrade_step s es) = ug_max_connections s \<and>
   ug_cursor_max (foldl upgrade_step s es) = ug_cursor_max s \<and> ug_per_tick (foldl upgrade_step s es) = ug_per_tick s \<and>
   ug_max_deferred (foldl upgrade_step s es) = ug_max_deferred s"
  by (induction es arbitrary: s) (simp_all add: upgrade_params_step)

lemma created_upgrade_gate:
  assumes "create_upgrade_admission opts = Inr s0"
  shows "\<exists>a b c d e. s0 = upgrade_gate_of a b c d e"
  using assms unfolding create_upgrade_admission_def Let_def try_bind_Inr by blast

lemma ceilings_init: "ceilings_inv (upgrade_gate_of a b c d e)"
  by (simp add: ceilings_inv_def upgrade_gate_of_def)

section \<open>Properties\<close>

text \<open>The ceilings hold. While releases match acquisitions the upgrades in flight never exceed
  \<open>maxConcurrent\<close>, the cursor upgrades among them never exceed the cursor budget, the permits
  never exceed \<open>maxConnections\<close>, and main upgrades short of the ceiling minus the cursor budget
  are always let in.\<close>

theorem upgrade_ceilings_hold:
  assumes "create_upgrade_admission opts = Inr s0" and "releases_matched s0 es" and "s = foldl upgrade_step s0 es"
  shows "0 \<le> ug_cursor s \<and> ug_cursor s \<le> ug_in_flight s \<and> ug_cursor s \<le> int (ug_cursor_max s0) \<and>
    (0 < ug_max_concurrent s0 \<longrightarrow> ug_in_flight s \<le> int (ug_max_concurrent s0)) \<and>
    0 \<le> ug_permits s \<and> ug_permits s \<le> int (ug_max_connections s0) \<and>
    (ug_in_flight s - ug_cursor s < int (ug_max_concurrent s0) - int (ug_cursor_max s0) \<longrightarrow> fst (try_acquire s))"
proof -
  have "ceilings_inv s0" using created_upgrade_gate [OF assms(1)] ceilings_init by auto
  then have i: "ceilings_inv s" using ceilings_run assms(2,3) by simp
  have p: "ug_max_concurrent s = ug_max_concurrent s0" "ug_cursor_max s = ug_cursor_max s0" "ug_max_connections s = ug_max_connections s0"
    using upgrade_params_run [of s0 es] assms(3) by simp_all
  show ?thesis using i by (auto simp: ceilings_inv_def p try_acquire_def)
qed

definition sample_upgrade_opts :: upgrade_opts where
  "sample_upgrade_opts = \<lparr>uo_max_concurrent = LNumber 4, uo_max_connections = LNumber 9, uo_per_tick = LNumber 1,
     uo_max_deferred = LNumber 2, uo_cursor_lane = True, uo_fraction = Some (Finite (1 / 2))\<rparr>"

definition sample_upgrade_run :: "upgrade_event list" where
  "sample_upgrade_run = [UAcquire, UAcquireCursor, UAcquireCursor, UAcquireCursor, UAdmit 5 0, UAdmit 6 1, UAdmit 7 2, UDrain,
     UAdmit 8 3, UReleaseCursor, UConnect]"

lemma sample_upgrade_created: "create_upgrade_admission (Some sample_upgrade_opts) = Inr (upgrade_gate_of 4 9 1 2 2)"
  by (simp add: create_upgrade_admission_def sample_upgrade_opts_def safe_integer_arg_def cursor_ceiling_def cursor_fraction_def
      Let_def numeral_2_eq_2)

lemmas upgrade_eval = sample_upgrade_run_def upgrade_gate_of_def counter_defs upgrade_admit_def run_callback_def
  schedule_drain_def next_slot_def drain_upgrades_def drain_loop.simps drain_one_def dequeue_upgrade_def Let_def

lemma sample_upgrade_matched: "releases_matched (upgrade_gate_of 4 9 1 2 2) sample_upgrade_run"
  by (simp add: upgrade_eval release_matched_def)

lemma sample_upgrade_result:
  "ug_in_flight (foldl upgrade_step (upgrade_gate_of 4 9 1 2 2) sample_upgrade_run) = 2"
  "ug_cursor (foldl upgrade_step (upgrade_gate_of 4 9 1 2 2) sample_upgrade_run) = 1"
  "ug_ran (foldl upgrade_step (upgrade_gate_of 4 9 1 2 2) sample_upgrade_run) = [5, 6]"
  "ug_depth (foldl upgrade_step (upgrade_gate_of 4 9 1 2 2) sample_upgrade_run) = 2"
  by (simp_all add: upgrade_eval)

theorem upgrade_ceilings_hold_witness:
  "ug_in_flight (foldl upgrade_step (upgrade_gate_of 4 9 1 2 2) sample_upgrade_run) = 2 \<and>
   fst (try_acquire (foldl upgrade_step (upgrade_gate_of 4 9 1 2 2) sample_upgrade_run))"
proof -
  have "ug_max_concurrent (upgrade_gate_of 4 9 1 2 2) = 4" "ug_cursor_max (upgrade_gate_of 4 9 1 2 2) = 2"
    by (simp_all add: upgrade_gate_of_def)
  then show ?thesis
    using upgrade_ceilings_hold [OF sample_upgrade_created sample_upgrade_matched refl] sample_upgrade_result by simp
qed

text \<open>C29: Pacing is first in, first out, and nothing is stranded. In every run the callbacks run so far
  and those waiting are the admitted ones in order; with a budget, no more than \<open>perTickBudget\<close> of them have
  run since the current turn began, by its drain and by the calls after it together; at most \<open>maxDeferred\<close>
  wait; a call is refused exactly when the budget of the turn and the queue are both used up; a drain is
  scheduled while any waits, and \<open>n\<close> further turns run the next \<open>n * perTickBudget\<close> of them.\<close>

theorem upgrade_pacing_fifo:
  assumes "create_upgrade_admission opts = Inr s0" and "s = foldl upgrade_step s0 es"
  shows "ug_admitted s = ug_ran s @ waiting_upgrades s \<and> ug_tick_count s \<le> ug_per_tick s0 \<and>
    (0 < ug_per_tick s0 \<longrightarrow> length (ug_ran s) \<le> turn_base s0 0 es + ug_per_tick s0) \<and>
    (fst (upgrade_admit f now s) = None \<longleftrightarrow> 0 < ug_per_tick s0 \<and>
       length (ug_ran s) = turn_base s0 0 es + ug_per_tick s0 \<and> length (waiting_upgrades s) = ug_max_deferred s0) \<and>
    length (waiting_upgrades s) \<le> ug_max_deferred s0 \<and> (waiting_upgrades s \<noteq> [] \<longrightarrow> ug_scheduled s) \<and>
    ug_ran (foldl upgrade_step s (replicate n UDrain)) = ug_ran s @ take (n * ug_per_tick s0) (waiting_upgrades s)"
proof -
  obtain a b c d e where s0: "s0 = upgrade_gate_of a b c d e" using created_upgrade_gate [OF assms(1)] by blast
  have i: "pacing_inv s" using pacing.run_inv assms(2) s0 by simp
  have p: "ug_per_tick s = ug_per_tick s0" "ug_max_deferred s = ug_max_deferred s0"
    using upgrade_params_run [of s0 es] assms(2) by simp_all
  have "turn_counted (turn_base s0 0 es) s" unfolding assms(2) s0
    by (rule turn_counted_run [OF pacing_init]) (simp add: turn_counted_def upgrade_gate_of_def)
  then have t: "0 < ug_per_tick s0 \<Longrightarrow> length (ug_ran s) = turn_base s0 0 es + ug_tick_count s"
    by (simp add: turn_counted_def p)
  have dep: "ug_depth s \<le> ug_max_deferred s" and tick: "ug_tick_count s \<le> ug_per_tick s"
    using i by (simp_all add: pacing_inv_def ring_ok_def)
  have full: "fst (upgrade_admit f now s) = None \<longleftrightarrow> 0 < ug_per_tick s0 \<and>
       length (ug_ran s) = turn_base s0 0 es + ug_per_tick s0 \<and> length (waiting_upgrades s) = ug_max_deferred s0"
    using t dep tick by (auto simp: upgrade_admit_def p)
  have budget: "0 < ug_per_tick s0 \<longrightarrow> length (ug_ran s) \<le> turn_base s0 0 es + ug_per_tick s0"
    using t tick by (simp add: p)
  have w: "waiting_upgrades v \<noteq> [] \<longrightarrow> ug_scheduled v" if "pacing_inv v" for v
  proof -
    have "0 < ug_depth v \<longrightarrow> ug_scheduled v" using that by (auto simp: pacing_inv_def)
    then show ?thesis using waiting_length [of v] by (metis length_greater_0_conv)
  qed
  have "ug_ran (foldl upgrade_step v (replicate n UDrain)) = ug_ran v @ take (n * ug_per_tick v) (waiting_upgrades v)"
    if "pacing_inv v" for v n
    using that
  proof (induction n arbitrary: v)
    case (Suc n)
    have ok: "ring_ok v" using Suc.prems by (simp add: pacing_inv_def)
    show ?case
    proof (cases "ug_scheduled v")
      case True
      have "pacing_inv (drain_upgrades v)" by (rule pacing_drain [OF Suc.prems])
      then show ?thesis
        using Suc.IH [of "drain_upgrades v"] drain_upgrades_refines [OF ok] True by (simp add: take_add)
    next
      case False
      then have "waiting_upgrades v = []" using w [OF Suc.prems] by blast
      then show ?thesis using Suc.IH [OF Suc.prems] False by simp
    qed
  qed simp
  then show ?thesis using i w [OF i] full budget unfolding p(1) [symmetric] p(2) [symmetric] by (simp add: pacing_inv_def ring_ok_def)
qed

theorem upgrade_pacing_fifo_witness:
  "ug_ran (foldl upgrade_step (foldl upgrade_step (upgrade_gate_of 4 9 1 2 2) sample_upgrade_run) (replicate 2 UDrain)) = [5, 6, 7, 8]"
proof -
  let ?s = "foldl upgrade_step (upgrade_gate_of 4 9 1 2 2) sample_upgrade_run"
  have "ug_ran (foldl upgrade_step ?s (replicate 2 UDrain)) =
      ug_ran ?s @ take (2 * ug_per_tick (upgrade_gate_of 4 9 1 2 2)) (waiting_upgrades ?s)"
    using upgrade_pacing_fifo [OF sample_upgrade_created refl, of sample_upgrade_run 2] by blast
  moreover have "waiting_upgrades ?s = [7, 8]" by (simp add: waiting_upgrades_def slot_at_def upgrade_eval upt_rec)
  moreover have "ug_per_tick (upgrade_gate_of 4 9 1 2 2) = 1" by (simp add: upgrade_gate_of_def)
  ultimately show ?thesis using sample_upgrade_result(3) by (simp only:) simp
qed

text \<open>The capacity probe is exact: it holds just when an upgrade, a connection permit and the
  pacing queue would each take one more at this moment.\<close>

theorem capacity_probe_exact:
  "has_capacity s \<longleftrightarrow> fst (try_acquire s) \<and> fst (try_acquire_connection s) \<and> fst (upgrade_admit f now s) \<noteq> None"
  by (auto simp: has_capacity_def try_acquire_def try_acquire_connection_def upgrade_admit_def not_le)

text \<open>The cursor lane can fill the gate. With a ceiling of one, or a fraction of one, cursor
  upgrades alone take every slot and a main upgrade is refused, although the source says a
  flood of cursor upgrades never starves the main lane.\<close>

theorem cursor_lane_fills_gate:
  "create_upgrade_admission (Some \<lparr>uo_max_concurrent = LNumber 1, uo_max_connections = LUndefined, uo_per_tick = LUndefined,
      uo_max_deferred = LUndefined, uo_cursor_lane = True, uo_fraction = None\<rparr>) = Inr (upgrade_gate_of 1 0 0 0 1) \<and>
   fst (try_acquire_cursor (upgrade_gate_of 1 0 0 0 1)) \<and>
   \<not> fst (try_acquire (snd (try_acquire_cursor (upgrade_gate_of 1 0 0 0 1))))"
  by (simp add: create_upgrade_admission_def safe_integer_arg_def cursor_ceiling_def cursor_fraction_def Let_def
      try_acquire_def try_acquire_cursor_def upgrade_gate_of_def)

end
