(* ===== verification/Expiring_Cache.thy ===== *)
theory Expiring_Cache
  imports Prelude
begin

text \<open>
  The two in-process caches with a time to live: the dedup plugin
  (\<open>src/plugins/dedup/server.js\<close>, fixed window) and the session plugin
  (\<open>src/plugins/session/server.js\<close>, sliding window). Both prune by the same rule: past 110% of
  \<open>maxEntries\<close> they drop what has expired and then the oldest entries. Clock readings are
  arguments of the operations; an operation that prunes reads the clock twice.
\<close>

section \<open>Pruning\<close>

fun evict_oldest :: "nat \<Rightarrow> ('k, 'v) jsmap \<Rightarrow> ('k, 'v) jsmap" where
  "evict_oldest cap [] = []"
| "evict_oldest cap (p # m) = (if length (p # m) \<le> cap then p # m else evict_oldest cap m)"

definition prune_if_full :: "('v \<Rightarrow> real) \<Rightarrow> nat \<Rightarrow> real \<Rightarrow> ('k, 'v) jsmap \<Rightarrow> ('k, 'v) jsmap" where
  "prune_if_full expires cap now m =
     (if real (length m) \<le> real cap * (11 / 10) then m
      else evict_oldest cap (filter (\<lambda>p. \<not> expires (snd p) \<le> now) m))"

section \<open>The dedup plugin\<close>

datatype dedup_error = BadTtl | BadMaxEntries | BadMaxIdLength | EmptyId | IdTooLong

record dedup =
  dd_ttl :: real
  dd_max :: nat
  dd_max_len :: nat
  dd_seen :: "(js_string, real) jsmap"

definition create_dedup :: "real \<Rightarrow> int \<Rightarrow> int \<Rightarrow> dedup_error + dedup" where
  "create_dedup ttl max_entries max_id_length =
     (if ttl \<le> 0 then Inl BadTtl
      else if max_entries \<le> 0 then Inl BadMaxEntries
      else if max_id_length \<le> 0 then Inl BadMaxIdLength
      else Inr \<lparr>dd_ttl = ttl, dd_max = nat max_entries, dd_max_len = nat max_id_length, dd_seen = []\<rparr>)"

definition validate_id :: "nat \<Rightarrow> js_string \<Rightarrow> dedup_error + unit" where
  "validate_id max_len key =
     (if key = [] then Inl EmptyId else if max_len < length key then Inl IdTooLong else Inr ())"

definition dedup_claim :: "js_string \<Rightarrow> real \<Rightarrow> real \<Rightarrow> dedup \<Rightarrow> (dedup_error + bool) \<times> dedup" where
  "dedup_claim key now later d =
     (case validate_id (dd_max_len d) key of
        Inl e \<Rightarrow> (Inl e, d)
      | Inr _ \<Rightarrow>
          (let prev = jm_get (dd_seen d) key in
           if (case prev of None \<Rightarrow> False | Some e \<Rightarrow> now < e) then (Inr False, d)
           else
             let seen = (if prev \<noteq> None then jm_del key (dd_seen d) else dd_seen d);
                 seen = jm_set key (now + dd_ttl d) seen
             in (Inr True, d\<lparr>dd_seen := prune_if_full (\<lambda>e. e) (dd_max d) later seen\<rparr>)))"

definition dedup_has :: "js_string \<Rightarrow> real \<Rightarrow> dedup \<Rightarrow> (dedup_error + bool) \<times> dedup" where
  "dedup_has key now d =
     (case validate_id (dd_max_len d) key of
        Inl e \<Rightarrow> (Inl e, d)
      | Inr _ \<Rightarrow>
          (case jm_get (dd_seen d) key of
             None \<Rightarrow> (Inr False, d)
           | Some e \<Rightarrow> if e \<le> now then (Inr False, d\<lparr>dd_seen := jm_del key (dd_seen d)\<rparr>) else (Inr True, d)))"

definition dedup_delete :: "js_string \<Rightarrow> real \<Rightarrow> dedup \<Rightarrow> (dedup_error + bool) \<times> dedup" where
  "dedup_delete key now d =
     (case validate_id (dd_max_len d) key of
        Inl e \<Rightarrow> (Inl e, d)
      | Inr _ \<Rightarrow>
          (case jm_get (dd_seen d) key of
             None \<Rightarrow> (Inr False, d)
           | Some e \<Rightarrow> (Inr (now < e), d\<lparr>dd_seen := jm_del key (dd_seen d)\<rparr>)))"

definition dedup_size :: "dedup \<Rightarrow> nat" where
  "dedup_size d = jm_size (dd_seen d)"

definition dedup_clear :: "dedup \<Rightarrow> dedup" where
  "dedup_clear d = d\<lparr>dd_seen := []\<rparr>"

datatype dedup_event =
    DClaim js_string real real
  | DHas js_string real
  | DDelete js_string real
  | DClear

fun dedup_step :: "dedup \<Rightarrow> dedup_event \<Rightarrow> (dedup_error + bool) option \<times> dedup" where
  "dedup_step d (DClaim key now later) = (case dedup_claim key now later d of (r, d) \<Rightarrow> (Some r, d))"
| "dedup_step d (DHas key now) = (case dedup_has key now d of (r, d) \<Rightarrow> (Some r, d))"
| "dedup_step d (DDelete key now) = (case dedup_delete key now d of (r, d) \<Rightarrow> (Some r, d))"
| "dedup_step d DClear = (None, dedup_clear d)"

section \<open>The session plugin\<close>

record 'a session_entry =
  se_data :: 'a
  se_expires :: real

record 'a session_store =
  ss_ttl :: real
  ss_max :: nat
  ss_entries :: "(js_string, 'a session_entry) jsmap"

datatype session_error = BadSessionTtl | BadSessionMax | EmptyToken

definition create_session :: "real \<Rightarrow> int \<Rightarrow> session_error + 'a session_store" where
  "create_session ttl max_entries =
     (if ttl \<le> 0 then Inl BadSessionTtl
      else if max_entries \<le> 0 then Inl BadSessionMax
      else Inr \<lparr>ss_ttl = ttl, ss_max = nat max_entries, ss_entries = []\<rparr>)"

definition session_get :: "js_string \<Rightarrow> real \<Rightarrow> 'a session_store \<Rightarrow> (session_error + 'a option) \<times> 'a session_store" where
  "session_get token now s =
     (if token = [] then (Inl EmptyToken, s)
      else case jm_get (ss_entries s) token of
        None \<Rightarrow> (Inr None, s)
      | Some entry \<Rightarrow>
          if se_expires entry \<le> now then (Inr None, s\<lparr>ss_entries := jm_del token (ss_entries s)\<rparr>)
          else (Inr (Some (se_data entry)), s\<lparr>ss_entries := jm_set token (entry\<lparr>se_expires := now + ss_ttl s\<rparr>) (ss_entries s)\<rparr>))"

definition session_set :: "js_string \<Rightarrow> 'a \<Rightarrow> real \<Rightarrow> real \<Rightarrow> 'a session_store \<Rightarrow> (session_error + unit) \<times> 'a session_store" where
  "session_set token data now later s =
     (if token = [] then (Inl EmptyToken, s)
      else
        let entries = (if jm_has (ss_entries s) token then jm_del token (ss_entries s) else ss_entries s);
            entries = jm_set token \<lparr>se_data = data, se_expires = now + ss_ttl s\<rparr> entries
        in (Inr (), s\<lparr>ss_entries := prune_if_full se_expires (ss_max s) later entries\<rparr>))"

definition session_delete :: "js_string \<Rightarrow> real \<Rightarrow> 'a session_store \<Rightarrow> (session_error + bool) \<times> 'a session_store" where
  "session_delete token now s =
     (if token = [] then (Inl EmptyToken, s)
      else case jm_get (ss_entries s) token of
        None \<Rightarrow> (Inr False, s)
      | Some entry \<Rightarrow> (Inr (now < se_expires entry), s\<lparr>ss_entries := jm_del token (ss_entries s)\<rparr>))"

definition session_touch :: "js_string \<Rightarrow> real \<Rightarrow> 'a session_store \<Rightarrow> (session_error + bool) \<times> 'a session_store" where
  "session_touch token now s =
     (if token = [] then (Inl EmptyToken, s)
      else case jm_get (ss_entries s) token of
        None \<Rightarrow> (Inr False, s)
      | Some entry \<Rightarrow>
          if se_expires entry \<le> now then (Inr False, s\<lparr>ss_entries := jm_del token (ss_entries s)\<rparr>)
          else (Inr True, s\<lparr>ss_entries := jm_set token (entry\<lparr>se_expires := now + ss_ttl s\<rparr>) (ss_entries s)\<rparr>))"

definition session_size :: "'a session_store \<Rightarrow> nat" where
  "session_size s = jm_size (ss_entries s)"

definition session_clear :: "'a session_store \<Rightarrow> 'a session_store" where
  "session_clear s = s\<lparr>ss_entries := []\<rparr>"

datatype 'a session_event =
    SGet js_string real
  | SSet js_string 'a real real
  | SDelete js_string real
  | STouch js_string real
  | SClear

datatype 'a session_result = RGot "session_error + 'a option" | RSet "session_error + unit" | RFlag "session_error + bool" | RNone

fun session_step :: "'a session_store \<Rightarrow> 'a session_event \<Rightarrow> 'a session_result \<times> 'a session_store" where
  "session_step s (SGet token now) = (case session_get token now s of (r, s) \<Rightarrow> (RGot r, s))"
| "session_step s (SSet token data now later) = (case session_set token data now later s of (r, s) \<Rightarrow> (RSet r, s))"
| "session_step s (SDelete token now) = (case session_delete token now s of (r, s) \<Rightarrow> (RFlag r, s))"
| "session_step s (STouch token now) = (case session_touch token now s of (r, s) \<Rightarrow> (RFlag r, s))"
| "session_step s SClear = (RNone, session_clear s)"

section \<open>Interface: a store whose entries expire\<close>

text \<open>What the clients need of a pruning step: it keeps to entries of the map, it bounds the size,
  and while the live entries fit it drops nothing that is live. Two maps agree at a time when
  they hold the same live entries.\<close>

definition alive_count :: "('v \<Rightarrow> real) \<Rightarrow> real \<Rightarrow> ('k, 'v) jsmap \<Rightarrow> nat" where
  "alive_count expires now m = length (filter (\<lambda>p. now < expires (snd p)) m)"

locale expiring_store =
  fixes expires :: "'v \<Rightarrow> real"
    and prune :: "nat \<Rightarrow> real \<Rightarrow> ('k, 'v) jsmap \<Rightarrow> ('k, 'v) jsmap"
  assumes prune_wf: "jm_wf m \<Longrightarrow> jm_wf (prune cap now m)"
    and prune_sub: "set (prune cap now m) \<subseteq> set m"
    and prune_bound: "real (length (prune cap now m)) \<le> real cap * (11 / 10)"
    and prune_live: "alive_count expires now m \<le> cap \<Longrightarrow> p \<in> set m \<Longrightarrow> now < expires (snd p) \<Longrightarrow> p \<in> set (prune cap now m)"
begin

definition agree :: "real \<Rightarrow> ('k, 'v) jsmap \<Rightarrow> ('k, 'v) jsmap \<Rightarrow> bool" where
  "agree now m n \<longleftrightarrow> jm_wf m \<and> jm_wf n \<and> (\<forall>k v. now < expires v \<longrightarrow> (jm_get m k = Some v \<longleftrightarrow> jm_get n k = Some v))"

lemma agree_later: "agree now m n \<Longrightarrow> now \<le> later \<Longrightarrow> agree later m n"
  by (auto simp: agree_def)

lemma agree_del: "agree now m n \<Longrightarrow> agree now (jm_del k m) (jm_del k n)"
  by (simp add: agree_def)

lemma agree_set: "agree now m n \<Longrightarrow> agree now (jm_set k v m) (jm_set k v n)"
  by (simp add: agree_def)

lemma agree_reinsert: "agree now m n \<Longrightarrow> agree now (jm_set k v (if c then jm_del k m else m)) (jm_set k v n)"
  by (simp add: agree_def)

lemma agree_drop_expired: "agree now m n \<Longrightarrow> jm_get m k = Some v \<Longrightarrow> expires v \<le> now \<Longrightarrow> agree now (jm_del k m) n"
  unfolding agree_def by (auto simp: not_less) (metis not_le option.inject)+

definition live_get :: "real \<Rightarrow> ('k, 'v) jsmap \<Rightarrow> 'k \<Rightarrow> 'v option" where
  "live_get now m k = (case jm_get m k of None \<Rightarrow> None | Some v \<Rightarrow> if now < expires v then Some v else None)"

lemma live_get_Some: "live_get now m k = Some v \<longleftrightarrow> jm_get m k = Some v \<and> now < expires v"
  by (auto simp: live_get_def split: option.split)

lemma live_get_alive: "live_get now m k \<noteq> None \<longleftrightarrow> (case jm_get m k of None \<Rightarrow> False | Some v \<Rightarrow> now < expires v)"
  by (auto simp: live_get_def split: option.split)

lemma agree_live_get:
  assumes "agree now m n"
  shows "live_get now m k = live_get now n k"
proof -
  have "live_get now m k = Some v \<longleftrightarrow> live_get now n k = Some v" for v
    using assms by (auto simp: live_get_Some agree_def)
  then show ?thesis by (metis not_None_eq)
qed

lemma agree_alive_count:
  assumes "agree now m n"
  shows "alive_count expires now m = alive_count expires now n"
proof -
  have d: "distinct (filter P l)" if "jm_wf l" for P and l :: "('k, 'v) jsmap"
    using that by (simp add: jm_wf_def jm_keys_def distinct_map)
  have "set (filter (\<lambda>p. now < expires (snd p)) m) = set (filter (\<lambda>p. now < expires (snd p)) n)"
    using assms by (auto simp: agree_def simp flip: jm_get_iff_mem)
  then show ?thesis
    using d assms unfolding alive_count_def agree_def by (metis distinct_card)
qed

lemma agree_prune:
  assumes a: "agree now m n" and few: "alive_count expires now m \<le> cap"
  shows "agree now (prune cap now m) n"
proof -
  have wf: "jm_wf m" "jm_wf (prune cap now m)" using a prune_wf by (auto simp: agree_def)
  have "jm_get (prune cap now m) k = Some v \<longleftrightarrow> jm_get m k = Some v" if "now < expires v" for k v
    using prune_sub [of cap now m] prune_live [OF few, of "(k, v)"] that wf by (auto simp: jm_get_iff_mem)
  then show ?thesis using a wf(2) by (simp add: agree_def)
qed

end

lemma evict_oldest_drop: "evict_oldest cap m = drop (length m - cap) m"
  by (induction m) (auto simp: Suc_diff_le not_le)

interpretation pruned: expiring_store expires "prune_if_full expires" for expires :: "'v \<Rightarrow> real"
proof
  fix cap :: nat and now :: real and m :: "('k, 'v) jsmap" and p
  have wf_drop: "jm_wf (drop n l)" if "jm_wf l" for n and l :: "('k, 'v) jsmap"
    using that by (simp add: jm_wf_def jm_keys_def flip: drop_map)
  show "jm_wf m \<Longrightarrow> jm_wf (prune_if_full expires cap now m)"
    by (simp add: prune_if_full_def evict_oldest_drop wf_drop jm_wf_filter)
  show "set (prune_if_full expires cap now m) \<subseteq> set m"
    unfolding prune_if_full_def evict_oldest_drop by (auto dest: in_set_dropD)
  have ev: "real (length (evict_oldest cap l)) \<le> real cap * (11 / 10)" for l :: "('k, 'v) jsmap"
  proof -
    have "real (length (evict_oldest cap l)) \<le> real cap" by (simp add: evict_oldest_drop)
    also have "\<dots> \<le> real cap * (11 / 10)" by simp
    finally show ?thesis .
  qed
  show "real (length (prune_if_full expires cap now m)) \<le> real cap * (11 / 10)"
    using ev by (auto simp only: prune_if_full_def split: if_split)
  show "alive_count expires now m \<le> cap \<Longrightarrow> p \<in> set m \<Longrightarrow> now < expires (snd p) \<Longrightarrow> p \<in> set (prune_if_full expires cap now m)"
    by (simp add: prune_if_full_def evict_oldest_drop alive_count_def not_le)
qed

section \<open>The caches without bounds\<close>

text \<open>What each plugin promises when memory is not bounded.\<close>

fun dedup_ideal :: "real \<Rightarrow> nat \<Rightarrow> (js_string, real) jsmap \<Rightarrow> dedup_event \<Rightarrow> (dedup_error + bool) option \<times> (js_string, real) jsmap" where
  "dedup_ideal ttl max_len m (DClaim key now later) =
     (case validate_id max_len key of
        Inl e \<Rightarrow> (Some (Inl e), m)
      | Inr _ \<Rightarrow> if pruned.live_get (\<lambda>e. e) now m key \<noteq> None then (Some (Inr False), m)
                 else (Some (Inr True), jm_set key (now + ttl) m))"
| "dedup_ideal ttl max_len m (DHas key now) =
     (case validate_id max_len key of
        Inl e \<Rightarrow> (Some (Inl e), m) | Inr _ \<Rightarrow> (Some (Inr (pruned.live_get (\<lambda>e. e) now m key \<noteq> None)), m))"
| "dedup_ideal ttl max_len m (DDelete key now) =
     (case validate_id max_len key of
        Inl e \<Rightarrow> (Some (Inl e), m)
      | Inr _ \<Rightarrow> (Some (Inr (pruned.live_get (\<lambda>e. e) now m key \<noteq> None)), jm_del key m))"
| "dedup_ideal ttl max_len m DClear = (None, [])"

fun dedup_time :: "real \<Rightarrow> dedup_event \<Rightarrow> real \<times> real" where
  "dedup_time t (DClaim key now later) = (now, later)"
| "dedup_time t (DHas key now) = (now, now)"
| "dedup_time t (DDelete key now) = (now, now)"
| "dedup_time t DClear = (t, t)"

text \<open>Along a run: the clock does not go back, and after every event the ids inside their window fit.\<close>

fun dedup_uncrowded :: "real \<Rightarrow> nat \<Rightarrow> nat \<Rightarrow> real \<Rightarrow> (js_string, real) jsmap \<Rightarrow> dedup_event list \<Rightarrow> bool" where
  "dedup_uncrowded ttl max_len cap t m [] \<longleftrightarrow> True"
| "dedup_uncrowded ttl max_len cap t m (e # es) \<longleftrightarrow>
     (case dedup_time t e of (now, later) \<Rightarrow> t \<le> now \<and> now \<le> later \<and>
        alive_count (\<lambda>e. e) later (snd (dedup_ideal ttl max_len m e)) \<le> cap \<and>
        dedup_uncrowded ttl max_len cap later (snd (dedup_ideal ttl max_len m e)) es)"

fun outcomes :: "('s \<Rightarrow> 'e \<Rightarrow> 'r \<times> 's) \<Rightarrow> 's \<Rightarrow> 'e list \<Rightarrow> 'r list" where
  "outcomes f s [] = []"
| "outcomes f s (e # es) = fst (f s e) # outcomes f (snd (f s e)) es"

abbreviation dedup_agree :: "real \<Rightarrow> (js_string, real) jsmap \<Rightarrow> (js_string, real) jsmap \<Rightarrow> bool" where
  "dedup_agree \<equiv> pruned.agree (\<lambda>e. e)"

lemma dedup_delete_valid:
  "validate_id (dd_max_len d) key = Inr u \<Longrightarrow> dedup_delete key now d =
     (Inr (case jm_get (dd_seen d) key of None \<Rightarrow> False | Some e \<Rightarrow> now < e), d\<lparr>dd_seen := jm_del key (dd_seen d)\<rparr>)"
  using jm_del_absent [OF jm_get_None [THEN iffD1], of "dd_seen d" key]
  by (cases "jm_get (dd_seen d) key") (simp_all add: dedup_delete_def)

lemma dedup_step_sim:
  assumes a: "dedup_agree t (dd_seen d) m" and tm: "dedup_time t e = (now, later)" "t \<le> now" "now \<le> later"
    and few: "alive_count (\<lambda>e. e) later (snd (dedup_ideal (dd_ttl d) (dd_max_len d) m e)) \<le> dd_max d"
  shows "fst (dedup_step d e) = fst (dedup_ideal (dd_ttl d) (dd_max_len d) m e) \<and>
    dedup_agree later (dd_seen (snd (dedup_step d e))) (snd (dedup_ideal (dd_ttl d) (dd_max_len d) m e)) \<and>
    dd_ttl (snd (dedup_step d e)) = dd_ttl d \<and> dd_max_len (snd (dedup_step d e)) = dd_max_len d \<and> dd_max (snd (dedup_step d e)) = dd_max d"
proof -
  have an: "dedup_agree now (dd_seen d) m" by (rule pruned.agree_later [OF a tm(2)])
  have al: "dedup_agree later (dd_seen d) m" by (rule pruned.agree_later [OF an tm(3)])
  have same: "pruned.live_get (\<lambda>e. e) now (dd_seen d) key = pruned.live_get (\<lambda>e. e) now m key" for key
    by (rule pruned.agree_live_get [OF an])
  have alive: "(case jm_get (dd_seen d) key of None \<Rightarrow> False | Some e \<Rightarrow> now < e) \<longleftrightarrow> pruned.live_get (\<lambda>e. e) now m key \<noteq> None" for key
    unfolding same [of key, symmetric] pruned.live_get_alive ..
  show ?thesis
  proof (cases e)
    case (DClaim key now' later')
    then have n: "now' = now" "later' = later" using tm(1) by simp_all
    show ?thesis
    proof (cases "validate_id (dd_max_len d) key")
      case (Inl err)
      then show ?thesis using al by (simp add: DClaim dedup_claim_def)
    next
      case (Inr u)
      define live where "live \<longleftrightarrow> pruned.live_get (\<lambda>e. e) now m key \<noteq> None"
      have lv: "(case jm_get (dd_seen d) key of None \<Rightarrow> False | Some e \<Rightarrow> now < e) \<longleftrightarrow> live"
        unfolding live_def by (rule alive)
      show ?thesis
      proof (cases live)
        case True
        then show ?thesis using al lv by (simp add: DClaim n Inr dedup_claim_def Let_def live_def)
      next
        case False
        define seen where "seen = jm_set key (now + dd_ttl d)
          (if jm_get (dd_seen d) key \<noteq> None then jm_del key (dd_seen d) else dd_seen d)"
        have "dedup_agree later seen (jm_set key (now + dd_ttl d) m)"
          unfolding seen_def by (rule pruned.agree_reinsert [OF al])
        then have "dedup_agree later (prune_if_full (\<lambda>e. e) (dd_max d) later seen) (jm_set key (now + dd_ttl d) m)"
          using few False Inr by (intro pruned.agree_prune) (simp_all add: pruned.agree_alive_count DClaim n live_def)
        then show ?thesis using False lv
          by (simp add: DClaim n Inr dedup_claim_def Let_def live_def seen_def)
      qed
    qed
  next
    case (DHas key now')
    then have n: "now' = now" "later = now" using tm(1) by simp_all
    have "dedup_agree now (dd_seen (snd (dedup_has key now d))) m"
      using an by (auto simp: dedup_has_def pruned.agree_drop_expired split: sum.split option.split)
    then show ?thesis using same [of key]
      by (auto simp: DHas n dedup_has_def pruned.live_get_def split: sum.split option.splits)
  next
    case (DDelete key now')
    then have n: "now' = now" "later = now" using tm(1) by simp_all
    show ?thesis
    proof (cases "validate_id (dd_max_len d) key")
      case (Inl err)
      then show ?thesis using an by (simp add: DDelete n dedup_delete_def)
    next
      case (Inr u)
      then show ?thesis using pruned.agree_del [OF an, of key] alive [of key]
        by (simp add: DDelete n dedup_delete_valid [OF Inr])
    qed
  next
    case DClear
    then show ?thesis by (simp add: dedup_clear_def pruned.agree_def)
  qed
qed

lemma dedup_run_sim:
  assumes "dedup_agree t (dd_seen d) m" and "dedup_uncrowded (dd_ttl d) (dd_max_len d) (dd_max d) t m es"
  shows "outcomes dedup_step d es = outcomes (dedup_ideal (dd_ttl d) (dd_max_len d)) m es"
  using assms
proof (induction es arbitrary: d m t)
  case (Cons e es)
  obtain now later where tm: "dedup_time t e = (now, later)" by fastforce
  note u = Cons.prems(2) [unfolded dedup_uncrowded.simps tm prod.case]
  note st = dedup_step_sim [OF Cons.prems(1) tm conjunct1 [OF u] conjunct1 [OF conjunct2 [OF u]]
      conjunct1 [OF conjunct2 [OF conjunct2 [OF u]]]]
  show ?case
    using Cons.IH [of later "snd (dedup_step d e)" "snd (dedup_ideal (dd_ttl d) (dd_max_len d) m e)"] st u by simp
qed simp

lemma dedup_step_bound:
  assumes "real (dedup_size d) \<le> real (dd_max d) * (11 / 10)"
  shows "real (dedup_size (snd (dedup_step d e))) \<le> real (dd_max (snd (dedup_step d e))) * (11 / 10) \<and>
    dd_max (snd (dedup_step d e)) = dd_max d"
proof -
  have shrink: "real (length l) \<le> real (dd_max d) * (11 / 10)" if "length l \<le> length (dd_seen d)" for l :: "(js_string, real) jsmap"
    using assms that unfolding dedup_size_def by (meson of_nat_le_iff order_trans)
  show ?thesis
    using assms shrink [OF length_jm_del_le] shrink [of "[]"] pruned.prune_bound
    by (cases e) (simp_all only: dedup_step.simps dedup_claim_def dedup_has_def dedup_delete_def dedup_clear_def dedup_size_def
        Let_def split: sum.split option.split if_split prod.split, auto)
qed

interpretation dedups: machine d "\<lambda>d e. snd (dedup_step d e)"
    "\<lambda>s. real (dedup_size d) \<le> real (dd_max d) * (11 / 10) \<longrightarrow> real (dedup_size s) \<le> real (dd_max s) * (11 / 10) \<and> dd_max s = dd_max d" for d
  using dedup_step_bound by unfold_locales auto

section \<open>The session plugin against its unbounded form\<close>

fun session_ideal :: "real \<Rightarrow> (js_string, 'a session_entry) jsmap \<Rightarrow> 'a session_event \<Rightarrow> 'a session_result \<times> (js_string, 'a session_entry) jsmap" where
  "session_ideal ttl m (SGet token now) =
     (if token = [] then (RGot (Inl EmptyToken), m)
      else case pruned.live_get se_expires now m token of
        None \<Rightarrow> (RGot (Inr None), m)
      | Some entry \<Rightarrow> (RGot (Inr (Some (se_data entry))), jm_set token (entry\<lparr>se_expires := now + ttl\<rparr>) m))"
| "session_ideal ttl m (SSet token data now later) =
     (if token = [] then (RSet (Inl EmptyToken), m)
      else (RSet (Inr ()), jm_set token \<lparr>se_data = data, se_expires = now + ttl\<rparr> m))"
| "session_ideal ttl m (SDelete token now) =
     (if token = [] then (RFlag (Inl EmptyToken), m)
      else (RFlag (Inr (pruned.live_get se_expires now m token \<noteq> None)), jm_del token m))"
| "session_ideal ttl m (STouch token now) =
     (if token = [] then (RFlag (Inl EmptyToken), m)
      else case pruned.live_get se_expires now m token of
        None \<Rightarrow> (RFlag (Inr False), m)
      | Some entry \<Rightarrow> (RFlag (Inr True), jm_set token (entry\<lparr>se_expires := now + ttl\<rparr>) m))"
| "session_ideal ttl m SClear = (RNone, [])"

fun session_time :: "real \<Rightarrow> 'a session_event \<Rightarrow> real \<times> real" where
  "session_time t (SGet token now) = (now, now)"
| "session_time t (SSet token data now later) = (now, later)"
| "session_time t (SDelete token now) = (now, now)"
| "session_time t (STouch token now) = (now, now)"
| "session_time t SClear = (t, t)"

fun session_uncrowded :: "real \<Rightarrow> nat \<Rightarrow> real \<Rightarrow> (js_string, 'a session_entry) jsmap \<Rightarrow> 'a session_event list \<Rightarrow> bool" where
  "session_uncrowded ttl cap t m [] \<longleftrightarrow> True"
| "session_uncrowded ttl cap t m (e # es) \<longleftrightarrow>
     (case session_time t e of (now, later) \<Rightarrow> t \<le> now \<and> now \<le> later \<and>
        alive_count se_expires later (snd (session_ideal ttl m e)) \<le> cap \<and>
        session_uncrowded ttl cap later (snd (session_ideal ttl m e)) es)"

abbreviation session_agree :: "real \<Rightarrow> (js_string, 'a session_entry) jsmap \<Rightarrow> (js_string, 'a session_entry) jsmap \<Rightarrow> bool" where
  "session_agree \<equiv> pruned.agree se_expires"

lemma lookup_cases:
  assumes "session_agree now m n"
  obtains (absent) "jm_get m k = None" "pruned.live_get se_expires now n k = None"
  | (expired) v where "jm_get m k = Some v" "se_expires v \<le> now" "pruned.live_get se_expires now n k = None"
  | (live) v where "jm_get m k = Some v" "now < se_expires v" "pruned.live_get se_expires now n k = Some v"
proof (cases "jm_get m k")
  case None
  then show thesis
    using absent pruned.agree_live_get [OF assms, of k] by (simp add: pruned.live_get_def)
next
  case (Some v)
  then show thesis
    using expired live pruned.agree_live_get [OF assms, of k] by (cases "now < se_expires v") (simp_all add: pruned.live_get_def)
qed

lemma session_step_sim:
  assumes a: "session_agree t (ss_entries s) m" and tm: "session_time t e = (now, later)" "t \<le> now" "now \<le> later"
    and few: "alive_count se_expires later (snd (session_ideal (ss_ttl s) m e)) \<le> ss_max s"
  shows "fst (session_step s e) = fst (session_ideal (ss_ttl s) m e) \<and>
    session_agree later (ss_entries (snd (session_step s e))) (snd (session_ideal (ss_ttl s) m e)) \<and>
    ss_ttl (snd (session_step s e)) = ss_ttl s \<and> ss_max (snd (session_step s e)) = ss_max s"
proof -
  have an: "session_agree now (ss_entries s) m" by (rule pruned.agree_later [OF a tm(2)])
  have al: "session_agree later (ss_entries s) m" by (rule pruned.agree_later [OF an tm(3)])
  show ?thesis
  proof (cases e)
    case (SGet token now')
    then have n: "now' = now" "later = now" using tm(1) by simp_all
    show ?thesis
      by (rule lookup_cases [OF an, of token])
        (simp_all add: SGet n session_get_def an pruned.agree_drop_expired [OF an] pruned.agree_set [OF an] not_le)
  next
    case (SSet token data now' later')
    then have n: "now' = now" "later' = later" using tm(1) by simp_all
    let ?v = "\<lparr>se_data = data, se_expires = now + ss_ttl s\<rparr>"
    let ?m = "jm_set token ?v (if jm_has (ss_entries s) token then jm_del token (ss_entries s) else ss_entries s)"
    have "session_agree later ?m (jm_set token ?v m)" by (rule pruned.agree_reinsert [OF al])
    then have "session_agree later (prune_if_full se_expires (ss_max s) later ?m) (jm_set token ?v m)" if "token \<noteq> []"
      using few that by (intro pruned.agree_prune) (simp_all add: pruned.agree_alive_count SSet n)
    then show ?thesis using al by (simp add: SSet n session_set_def Let_def)
  next
    case (SDelete token now')
    then have n: "now' = now" "later = now" using tm(1) by simp_all
    have d: "session_agree now (jm_del token (ss_entries s)) (jm_del token m)" by (rule pruned.agree_del [OF an])
    show ?thesis
    proof (rule lookup_cases [OF an, of token])
      assume x: "jm_get (ss_entries s) token = None" "pruned.live_get se_expires now m token = None"
      then have "jm_del token (ss_entries s) = ss_entries s" by (simp add: jm_del_absent jm_get_None)
      then show ?thesis using x d an by (simp add: SDelete n session_delete_def)
    qed (simp_all add: SDelete n session_delete_def an d)
  next
    case (STouch token now')
    then have n: "now' = now" "later = now" using tm(1) by simp_all
    show ?thesis
      by (rule lookup_cases [OF an, of token])
        (simp_all add: STouch n session_touch_def an pruned.agree_drop_expired [OF an] pruned.agree_set [OF an] not_le)
  next
    case SClear
    then show ?thesis by (simp add: session_clear_def pruned.agree_def)
  qed
qed

lemma session_run_sim:
  assumes "session_agree t (ss_entries s) m" and "session_uncrowded (ss_ttl s) (ss_max s) t m es"
  shows "outcomes session_step s es = outcomes (session_ideal (ss_ttl s)) m es"
  using assms
proof (induction es arbitrary: s m t)
  case (Cons e es)
  obtain now later where tm: "session_time t e = (now, later)" by fastforce
  note u = Cons.prems(2) [unfolded session_uncrowded.simps tm prod.case]
  note st = session_step_sim [OF Cons.prems(1) tm conjunct1 [OF u] conjunct1 [OF conjunct2 [OF u]]
      conjunct1 [OF conjunct2 [OF conjunct2 [OF u]]]]
  show ?case
    using Cons.IH [of later "snd (session_step s e)" "snd (session_ideal (ss_ttl s) m e)"] st u by simp
qed simp

section \<open>Properties\<close>

text \<open>C24: The dedup cache is a window. Its size never passes 110% of \<open>maxEntries\<close>, and as long as the
  ids inside their windows fit in \<open>maxEntries\<close> every answer of every call is that of a cache that
  never forgets: an id is claimed once per window, whatever is pruned meanwhile.\<close>

theorem dedup_refines_window:
  assumes "create_dedup ttl max_entries max_len = Inr d"
  shows "real (dedup_size (foldl (\<lambda>d e. snd (dedup_step d e)) d es)) \<le> real_of_int max_entries * (11 / 10) \<and>
    (dedup_uncrowded ttl (nat max_len) (nat max_entries) t [] es \<longrightarrow>
     outcomes dedup_step d es = outcomes (dedup_ideal ttl (nat max_len)) [] es)"
proof -
  have d: "d = \<lparr>dd_ttl = ttl, dd_max = nat max_entries, dd_max_len = nat max_len, dd_seen = []\<rparr>" and pos: "0 < max_entries"
    using assms by (auto simp: create_dedup_def split: if_splits)
  have "real (dedup_size d) \<le> real (dd_max d) * (11 / 10)" by (simp add: d dedup_size_def)
  then have "real (dedup_size (foldl (\<lambda>d e. snd (dedup_step d e)) d es)) \<le> real (nat max_entries) * (11 / 10)"
    using dedups.run_inv [of d es] by (simp add: d)
  moreover have "dedup_agree t (dd_seen d) []" by (simp add: d pruned.agree_def)
  then have "dedup_uncrowded ttl (nat max_len) (nat max_entries) t [] es \<Longrightarrow>
      outcomes dedup_step d es = outcomes (dedup_ideal ttl (nat max_len)) [] es"
    using dedup_run_sim [of t d "[]" es] by (simp add: d)
  ultimately show ?thesis using pos by simp
qed

definition sample_dedup_run :: "dedup_event list" where
  "sample_dedup_run = [DClaim [1] 0 0, DClaim [1] 5 5, DClaim [2] 6 6, DClaim [1] 10 10, DClaim [] 11 11, DHas [2] 17]"

lemma sample_dedup_created: "create_dedup 10 2 4 = Inr \<lparr>dd_ttl = 10, dd_max = 2, dd_max_len = 4, dd_seen = []\<rparr>"
  by (simp add: create_dedup_def)

theorem dedup_refines_window_witness:
  "outcomes dedup_step \<lparr>dd_ttl = 10, dd_max = 2, dd_max_len = 4, dd_seen = []\<rparr> sample_dedup_run =
     [Some (Inr True), Some (Inr False), Some (Inr True), Some (Inr True), Some (Inl EmptyId), Some (Inr False)]"
proof -
  have "dedup_uncrowded 10 (nat 4) (nat 2) 0 [] sample_dedup_run"
    by (simp add: sample_dedup_run_def validate_id_def pruned.live_get_def jm_get_def alive_count_def)
  moreover have "outcomes (dedup_ideal 10 (nat 4)) [] sample_dedup_run =
      [Some (Inr True), Some (Inr False), Some (Inr True), Some (Inr True), Some (Inl EmptyId), Some (Inr False)]"
    by (simp add: sample_dedup_run_def validate_id_def pruned.live_get_def jm_get_def)
  ultimately show ?thesis
    using dedup_refines_window [OF sample_dedup_created, of sample_dedup_run 0] by simp
qed

text \<open>The session store is a sliding window. As long as the live sessions fit in \<open>maxEntries\<close>
  every call answers as a store that never forgets: a session lives until \<open>ttl\<close> after the last
  \<open>set\<close>, \<open>get\<close> or \<open>touch\<close> that found it alive.\<close>

theorem session_refines_sliding_window:
  assumes "create_session ttl max_entries = Inr s" and "session_uncrowded ttl (nat max_entries) t [] es"
  shows "outcomes session_step s es = outcomes (session_ideal ttl) [] es"
proof -
  have s: "s = \<lparr>ss_ttl = ttl, ss_max = nat max_entries, ss_entries = []\<rparr>"
    using assms(1) by (auto simp: create_session_def split: if_splits)
  have "session_agree t (ss_entries s) []" by (simp add: s pruned.agree_def)
  then show ?thesis using session_run_sim [of t s "[]" es] assms(2) by (simp add: s)
qed

definition sample_session_run :: "nat session_event list" where
  "sample_session_run = [SSet [1] 7 0 0, SGet [1] 8, STouch [1] 16, SGet [1] 25, SGet [1] 35, SDelete [1] 36]"

theorem session_refines_sliding_window_witness:
  "outcomes session_step \<lparr>ss_ttl = 10, ss_max = 1, ss_entries = []\<rparr> sample_session_run =
     [RSet (Inr ()), RGot (Inr (Some 7)), RFlag (Inr True), RGot (Inr (Some 7)), RGot (Inr None), RFlag (Inr False)]"
proof -
  have c: "create_session 10 1 = Inr \<lparr>ss_ttl = 10, ss_max = 1, ss_entries = [] :: (js_string, nat session_entry) jsmap\<rparr>"
    by (simp add: create_session_def)
  have u: "session_uncrowded 10 (nat 1) 0 [] sample_session_run"
    by (simp add: sample_session_run_def pruned.live_get_def jm_get_def alive_count_def jm_del_def)
  have "outcomes (session_ideal 10) [] sample_session_run =
      [RSet (Inr ()), RGot (Inr (Some 7)), RFlag (Inr True), RGot (Inr (Some 7)), RGot (Inr None), RFlag (Inr False)]"
    by (simp add: sample_session_run_def pruned.live_get_def jm_get_def jm_del_def)
  then show ?thesis using session_refines_sliding_window [OF c u] by simp
qed

end
