(* ===== verification/Resume_Buffer.thy ===== *)
theory Resume_Buffer
  imports Prelude "HOL-Library.Sublist"
begin

text \<open>
  The replay-to-live cutover, \<open>src/runtime/handler/resume-buffer.js\<close> with \<open>captureResumeFrame\<close>
  of \<open>src/runtime/handler/state.js\<close>: buffers of live frames held while a resume hook runs, and
  their flush to a socket that may refuse, drop or be gone.

  Buffers are mutable objects shared by the registry and the handle, so they live in a store
  and are named by number. The socket is the list of payloads it took and the script of its
  answers to \<open>send\<close> (a socket whose script is used up takes everything).
\<close>

section \<open>State\<close>

record resume_frame =
  rf_seq :: "real option"
  rf_envelope :: js_string
  rf_compress :: bool

record resume_buffer =
  rb_frames :: "resume_frame list"
  rb_overflow :: bool

record resume_registry =
  rr_sets :: "(js_string, nat list) jsmap"
  rr_bufs :: "resume_buffer list"
  rr_seen :: "(js_string, real) jsmap"

record resume_entry =
  re_topic :: js_string
  re_buf :: nat
  re_before :: real

datatype send_answer = Taken | DroppedFull | SocketGone

datatype payload = Envelope js_string bool | TruncationMarker js_string

record resume_socket =
  so_taken :: "payload list"
  so_answers :: "send_answer list"
  so_end_throws :: bool
  so_ended :: bool
  so_aborts :: nat

definition max_resume_frames :: nat where
  "max_resume_frames = 4096"

definition buf_of :: "resume_registry \<Rightarrow> nat \<Rightarrow> resume_buffer" where
  "buf_of s b = (if b < length (rr_bufs s) then rr_bufs s ! b else \<lparr>rb_frames = [], rb_overflow = False\<rparr>)"

section \<open>Operations\<close>

definition capture_into :: "resume_frame \<Rightarrow> resume_buffer \<Rightarrow> resume_buffer" where
  "capture_into f b =
     (if max_resume_frames \<le> length (rb_frames b) then b\<lparr>rb_overflow := True\<rparr>
      else b\<lparr>rb_frames := rb_frames b @ [f]\<rparr>)"

definition capture_frame :: "js_string \<Rightarrow> resume_frame \<Rightarrow> resume_registry \<Rightarrow> resume_registry" where
  "capture_frame topic f s =
     (case jm_get (rr_sets s) topic of
        None \<Rightarrow> s
      | Some ids \<Rightarrow> s\<lparr>rr_bufs := foldl (\<lambda>bufs b. bufs[b := capture_into f (bufs ! b)]) (rr_bufs s) ids\<rparr>)"

definition begin_topic :: "js_string \<Rightarrow> resume_registry \<Rightarrow> resume_entry \<times> resume_registry" where
  "begin_topic topic s =
     (let b = length (rr_bufs s);
          ids = (case jm_get (rr_sets s) topic of None \<Rightarrow> [] | Some ids \<Rightarrow> ids);
          before = (case jm_get (rr_seen s) topic of None \<Rightarrow> 0 | Some n \<Rightarrow> n)
      in (\<lparr>re_topic = topic, re_buf = b, re_before = before\<rparr>,
          s\<lparr>rr_sets := jm_set topic (ids @ [b]) (rr_sets s), rr_bufs := rr_bufs s @ [\<lparr>rb_frames = [], rb_overflow = False\<rparr>]\<rparr>))"

primrec begin_capture :: "js_string list \<Rightarrow> resume_registry \<Rightarrow> resume_entry list \<times> resume_registry" where
  "begin_capture [] s = ([], s)"
| "begin_capture (topic # topics) s =
     (case begin_topic topic s of (e, s) \<Rightarrow> (case begin_capture topics s of (es, s) \<Rightarrow> (e # es, s)))"

definition unregister :: "resume_entry \<Rightarrow> resume_registry \<Rightarrow> resume_registry" where
  "unregister e s =
     (case jm_get (rr_sets s) (re_topic e) of
        None \<Rightarrow> s
      | Some ids \<Rightarrow>
          (let ids = filter (\<lambda>b. b \<noteq> re_buf e) ids
           in s\<lparr>rr_sets := (if ids = [] then jm_del (re_topic e) (rr_sets s) else jm_set (re_topic e) ids (rr_sets s))\<rparr>))"

definition discard_capture :: "resume_entry list \<Rightarrow> resume_registry \<Rightarrow> resume_registry" where
  "discard_capture entries s = foldl (\<lambda>s e. unregister e s) s entries"

text \<open>The result of one send: whether the bytes were taken, and whether the socket is gone.\<close>

definition deliver :: "payload \<Rightarrow> resume_socket \<Rightarrow> bool \<times> bool \<times> resume_socket" where
  "deliver p k =
     (let answer = (case so_answers k of [] \<Rightarrow> Taken | a # as \<Rightarrow> a); k = k\<lparr>so_answers := tl (so_answers k)\<rparr>
      in case answer of
           SocketGone \<Rightarrow> (False, True, k\<lparr>so_aborts := so_aborts k + 1\<rparr>)
         | DroppedFull \<Rightarrow> (False, False, k)
         | Taken \<Rightarrow> (True, False, k\<lparr>so_taken := so_taken k @ [p]\<rparr>))"

definition covered_frame :: "real \<Rightarrow> resume_frame \<Rightarrow> bool" where
  "covered_frame low f = (case rf_seq f of None \<Rightarrow> False | Some n \<Rightarrow> n \<le> low)"

text \<open>The loop over the frames. The flags are \<open>needsSignal\<close> and \<open>gone\<close>.\<close>

fun flush_frames :: "real \<Rightarrow> bool \<Rightarrow> resume_frame list \<Rightarrow> bool \<Rightarrow> bool \<Rightarrow> resume_socket \<Rightarrow> bool \<times> bool \<times> resume_socket" where
  "flush_frames low compression [] needs_signal gone k = (needs_signal, gone, k)"
| "flush_frames low compression (f # fs) needs_signal gone k =
     (if gone then (needs_signal, gone, k)
      else if covered_frame low f then flush_frames low compression fs needs_signal gone k
      else case deliver (Envelope (rf_envelope f) (compression \<and> rf_compress f)) k of
             (ok, gone, k) \<Rightarrow>
               if ok then flush_frames low compression fs needs_signal gone k
               else (if gone then needs_signal else True, gone, k))"

definition end_socket :: "resume_socket \<Rightarrow> bool \<times> bool \<times> resume_socket" where
  "end_socket k =
     (if so_end_throws k then (False, True, k\<lparr>so_aborts := so_aborts k + 1\<rparr>) else (True, False, k\<lparr>so_ended := True\<rparr>))"

definition flush_entry :: "bool \<Rightarrow> resume_entry \<Rightarrow> real option \<Rightarrow> resume_buffer \<Rightarrow> resume_socket \<Rightarrow> bool \<times> resume_socket" where
  "flush_entry compression e covered_seq b k =
     (let needs_signal = rb_overflow b in
      case (if needs_signal then deliver (TruncationMarker (re_topic e)) k else (False, False, k)) of
        (signalled, gone, k) \<Rightarrow>
          (let low = (case covered_seq of None \<Rightarrow> re_before e | Some n \<Rightarrow> n) in
           case flush_frames low compression (rb_frames b) needs_signal gone k of
             (needs_signal, gone, k) \<Rightarrow>
               if needs_signal \<and> \<not> signalled \<and> \<not> gone
               then (case deliver (TruncationMarker (re_topic e)) k of
                       (ok, gone, k) \<Rightarrow>
                         if \<not> ok \<and> \<not> gone then (case end_socket k of (was_closed, gone, k) \<Rightarrow> (was_closed \<or> gone, k))
                         else (gone, k))
               else (gone, k)))"

text \<open>The first entry of the topic, if the handle still has one, and the handle without it.\<close>

fun take_entry :: "js_string \<Rightarrow> resume_entry list \<Rightarrow> (resume_entry \<times> resume_entry list) option" where
  "take_entry topic [] = None"
| "take_entry topic (e # es) =
     (if re_topic e = topic then Some (e, es) else map_option (\<lambda>(x, r). (x, e # r)) (take_entry topic es))"

definition flush_topic :: "bool \<Rightarrow> resume_entry list \<Rightarrow> js_string \<Rightarrow> real option \<Rightarrow> resume_socket \<Rightarrow> resume_registry \<Rightarrow>
    bool \<times> resume_entry list \<times> resume_socket \<times> resume_registry" where
  "flush_topic compression entries topic covered_seq k s =
     (case take_entry topic entries of
        None \<Rightarrow> (False, entries, k, s)
      | Some (e, rest) \<Rightarrow>
          (case flush_entry compression e covered_seq (buf_of s (re_buf e)) k of
             (unusable, k) \<Rightarrow> (unusable, rest, k, unregister e s)))"

definition topic_overflowed :: "resume_entry list \<Rightarrow> js_string \<Rightarrow> resume_registry \<Rightarrow> bool" where
  "topic_overflowed entries topic s =
     (case take_entry topic entries of None \<Rightarrow> False | Some (e, rest) \<Rightarrow> rb_overflow (buf_of s (re_buf e)))"

text \<open>What a resume hook may return: nothing, a number, a map by topic whose reads may throw, or
  anything else.\<close>

datatype covered_value = CvNothing | CvNumber real | CvMap "js_string \<Rightarrow> unit + real option" | CvOther

fun covered_seq_for :: "covered_value \<Rightarrow> js_string \<Rightarrow> real option" where
  "covered_seq_for CvNothing topic = None"
| "covered_seq_for (CvNumber n) topic = Some n"
| "covered_seq_for (CvMap m) topic = (case m topic of Inl _ \<Rightarrow> None | Inr v \<Rightarrow> v)"
| "covered_seq_for CvOther topic = None"

section \<open>One flush\<close>

text \<open>What the client still needs: a frame without a number, which no resume can have covered, and a frame
  whose number is above the floor.\<close>

definition beyond :: "real \<Rightarrow> resume_frame \<Rightarrow> bool" where
  "beyond low f \<longleftrightarrow> (case rf_seq f of None \<Rightarrow> True | Some n \<Rightarrow> low < n)"

lemma covered_beyond: "covered_frame low f \<longleftrightarrow> \<not> beyond low f"
  by (auto simp: covered_frame_def beyond_def split: option.split)

definition wanted :: "real \<Rightarrow> bool \<Rightarrow> resume_frame list \<Rightarrow> payload list" where
  "wanted low compression fs = map (\<lambda>f. Envelope (rf_envelope f) (compression \<and> rf_compress f)) (filter (beyond low) fs)"

lemma deliver_cases:
  obtains (taken) k' where "deliver p k = (True, False, k')" "so_taken k' = so_taken k @ [p]" "so_aborts k' = so_aborts k"
  | (dropped) k' where "deliver p k = (False, False, k')" "so_taken k' = so_taken k" "so_aborts k' = so_aborts k"
  | (vanished) k' where "deliver p k = (False, True, k')" "so_taken k' = so_taken k" "so_aborts k' = so_aborts k + 1"
proof (cases "case so_answers k of [] \<Rightarrow> Taken | a # as \<Rightarrow> a")
  case Taken
  then show thesis using taken [of "k\<lparr>so_answers := tl (so_answers k), so_taken := so_taken k @ [p]\<rparr>"] by (simp add: deliver_def Let_def)
next
  case DroppedFull
  then show thesis using dropped [of "k\<lparr>so_answers := tl (so_answers k)\<rparr>"] by (simp add: deliver_def Let_def)
next
  case SocketGone
  then show thesis
    using vanished [of "k\<lparr>so_answers := tl (so_answers k), so_aborts := so_aborts k + 1\<rparr>"] by (simp add: deliver_def Let_def)
qed

lemma flush_frames_outcome:
  assumes "flush_frames low compression fs needs False k = (needs', gone, k')"
  shows "(\<exists>sent. prefix sent (wanted low compression fs) \<and> so_taken k' = so_taken k @ sent \<and>
      (sent = wanted low compression fs \<and> \<not> gone \<and> needs' = needs \<or> gone \<and> needs' = needs \<or> needs' \<and> \<not> gone)) \<and>
    so_aborts k' = so_aborts k + (if gone then 1 else 0)"
  using assms
proof (induction fs arbitrary: k)
  case Nil
  then show ?case by (simp add: wanted_def)
next
  case (Cons f fs)
  let ?p = "Envelope (rf_envelope f) (compression \<and> rf_compress f)"
  show ?case
  proof (cases "covered_frame low f")
    case True
    then show ?thesis using Cons by (simp add: wanted_def covered_beyond)
  next
    case False
    then have w: "wanted low compression (f # fs) = ?p # wanted low compression fs" by (simp add: wanted_def covered_beyond)
    show ?thesis
    proof (rule deliver_cases [of ?p k])
      fix j assume d: "deliver ?p k = (True, False, j)" "so_taken j = so_taken k @ [?p]" "so_aborts j = so_aborts k"
      then have "flush_frames low compression fs needs False j = (needs', gone, k')" using Cons.prems False by simp
      from Cons.IH [OF this] obtain sent where s: "prefix sent (wanted low compression fs)" "so_taken k' = so_taken j @ sent"
        "sent = wanted low compression fs \<and> \<not> gone \<and> needs' = needs \<or> gone \<and> needs' = needs \<or> needs' \<and> \<not> gone"
        "so_aborts k' = so_aborts j + (if gone then 1 else 0)" by blast
      then show ?thesis using d w by (intro conjI exI [of _ "?p # sent"]) auto
    next
      fix j assume d: "deliver ?p k = (False, False, j)" "so_taken j = so_taken k" "so_aborts j = so_aborts k"
      then show ?thesis using Cons.prems False by (intro conjI exI [of _ "[]"]) auto
    next
      fix j assume d: "deliver ?p k = (False, True, j)" "so_taken j = so_taken k" "so_aborts j = so_aborts k + 1"
      then show ?thesis using Cons.prems False by (intro conjI exI [of _ "[]"]) auto
    qed
  qed
qed

lemma flush_entry_outcome:
  assumes "flush_entry compression e covered_seq b k = (unusable, k')"
  defines "w \<equiv> wanted (case covered_seq of None \<Rightarrow> re_before e | Some n \<Rightarrow> n) compression (rb_frames b)"
  shows "\<exists>before sent after. so_taken k' = so_taken k @ before @ sent @ after \<and> prefix sent w \<and>
    set (before @ after) \<subseteq> {TruncationMarker (re_topic e)} \<and>
    (unusable \<or> before @ after \<noteq> [] \<or> sent = w \<and> \<not> rb_overflow b) \<and>
    (unusable \<longrightarrow> so_ended k' \<or> so_aborts k < so_aborts k')"
proof -
  define low where "low = (case covered_seq of None \<Rightarrow> re_before e | Some n \<Rightarrow> n)"
  let ?m = "TruncationMarker (re_topic e)"
  obtain signalled gone1 k1 where first: "(if rb_overflow b then deliver ?m k else (False, False, k)) = (signalled, gone1, k1)"
    by (metis surj_pair)
  then have f1: "so_taken k1 = so_taken k @ (if signalled then [?m] else []) \<and> (gone1 \<longrightarrow> rb_overflow b \<and> \<not> signalled) \<and>
      (signalled \<longrightarrow> rb_overflow b) \<and> so_aborts k1 = so_aborts k + (if gone1 then 1 else 0)"
    by (cases "rb_overflow b") (auto intro: deliver_cases [of ?m k])
  obtain needs gone2 k2 where loop: "flush_frames low compression (rb_frames b) (rb_overflow b) gone1 k1 = (needs, gone2, k2)"
    by (metis surj_pair)
  define rest where "rest = (if needs \<and> \<not> signalled \<and> \<not> gone2
    then (case deliver ?m k2 of (ok, gone, k) \<Rightarrow>
      if \<not> ok \<and> \<not> gone then (case end_socket k of (was_closed, gone, k) \<Rightarrow> (was_closed \<or> gone, k)) else (gone, k))
    else (gone2, k2))"
  have whole: "rest = (unusable, k')"
    using assms(1) by (simp add: flush_entry_def first loop rest_def flip: low_def)
  show ?thesis
  proof (cases gone1)
    case True
    then have "needs = rb_overflow b \<and> gone2 \<and> k2 = k1" using loop by (cases "rb_frames b") auto
    then have "unusable \<and> k' = k1" using whole by (simp add: rest_def)
    then show ?thesis using f1 True by (intro exI [of _ "[]"]) simp
  next
    case False
    then have g: "gone1 = False" by simp
    obtain sent where s: "prefix sent w" "so_taken k2 = so_taken k1 @ sent"
      "sent = w \<and> \<not> gone2 \<and> needs = rb_overflow b \<or> gone2 \<and> needs = rb_overflow b \<or> needs \<and> \<not> gone2"
      "so_aborts k2 = so_aborts k1 + (if gone2 then 1 else 0)"
      using flush_frames_outcome [OF loop [unfolded g]] unfolding w_def low_def by blast
    show ?thesis
    proof (cases "needs \<and> \<not> signalled \<and> \<not> gone2")
      case False
      then have "unusable = gone2" "k' = k2" using whole by (simp_all add: rest_def split: if_splits)
      then show ?thesis
        using f1 s False by (intro exI [of _ "if signalled then [?m] else []"] exI [of _ sent] exI [of _ "[]"]) auto
    next
      case True
      show ?thesis
      proof (rule deliver_cases [of ?m k2])
        fix j assume "deliver ?m k2 = (True, False, j)" "so_taken j = so_taken k2 @ [?m]" "so_aborts j = so_aborts k2"
        then show ?thesis using whole True f1 s
          by (intro exI [of _ "[]"] exI [of _ sent] exI [of _ "[?m]"]) (auto simp: rest_def)
      next
        fix j assume "deliver ?m k2 = (False, False, j)" "so_taken j = so_taken k2" "so_aborts j = so_aborts k2"
        then show ?thesis using whole True f1 s
          by (intro exI [of _ "[]"] exI [of _ sent] exI [of _ "[]"]) (auto simp: rest_def end_socket_def split: if_splits)
      next
        fix j assume "deliver ?m k2 = (False, True, j)" "so_taken j = so_taken k2" "so_aborts j = so_aborts k2 + 1"
        then show ?thesis using whole True f1 s
          by (intro exI [of _ "[]"] exI [of _ sent] exI [of _ "[]"]) (auto simp: rest_def)
      qed
    qed
  qed
qed

section \<open>The window\<close>

datatype window_event = WCapture js_string resume_frame | WBegin "js_string list" | WClose resume_entry

fun window_step :: "resume_registry \<Rightarrow> window_event \<Rightarrow> resume_registry" where
  "window_step s (WCapture topic f) = capture_frame topic f s"
| "window_step s (WBegin topics) = snd (begin_capture topics s)"
| "window_step s (WClose e) = unregister e s"

definition ids_of :: "resume_registry \<Rightarrow> js_string \<Rightarrow> nat list" where
  "ids_of s topic = (case jm_get (rr_sets s) topic of None \<Rightarrow> [] | Some ids \<Rightarrow> ids)"

definition registry_inv :: "resume_registry \<Rightarrow> bool" where
  "registry_inv s \<longleftrightarrow> (\<forall>topic. distinct (ids_of s topic) \<and> (\<forall>b \<in> set (ids_of s topic). b < length (rr_bufs s))) \<and>
     (\<forall>t t' b. b \<in> set (ids_of s t) \<longrightarrow> b \<in> set (ids_of s t') \<longrightarrow> t = t')"

definition registered :: "resume_registry \<Rightarrow> resume_entry \<Rightarrow> bool" where
  "registered s e \<longleftrightarrow> re_buf e \<in> set (ids_of s (re_topic e))"

lemma nth_foldl_update:
  assumes "distinct ids" and "\<forall>b \<in> set ids. b < length bufs" and "i < length bufs"
  shows "foldl (\<lambda>l b. l[b := g (l ! b)]) bufs ids ! i = (if i \<in> set ids then g (bufs ! i) else bufs ! i) \<and>
    length (foldl (\<lambda>l b. l[b := g (l ! b)]) bufs ids) = length bufs"
  using assms
proof (induction ids arbitrary: bufs)
  case (Cons x ids)
  then show ?case using Cons.IH [of "bufs[x := g (bufs ! x)]"] by (auto simp: nth_list_update)
qed simp

lemma ids_of_capture [simp]: "ids_of (capture_frame topic f s) = ids_of s"
  by (auto simp: capture_frame_def ids_of_def split: option.split)

lemma buf_of_capture:
  assumes "registry_inv s" and "b < length (rr_bufs s)"
  shows "buf_of (capture_frame topic f s) b = (if b \<in> set (ids_of s topic) then capture_into f (buf_of s b) else buf_of s b) \<and>
    length (rr_bufs (capture_frame topic f s)) = length (rr_bufs s)"
proof (cases "jm_get (rr_sets s) topic")
  case None
  then show ?thesis by (simp add: capture_frame_def ids_of_def)
next
  case (Some ids)
  then have "distinct ids" "\<forall>b \<in> set ids. b < length (rr_bufs s)"
    using assms(1) unfolding registry_inv_def ids_of_def by (metis option.simps(5))+
  then show ?thesis
    using nth_foldl_update [of ids "rr_bufs s" b "capture_into f"] assms(2) Some
    by (simp add: capture_frame_def buf_of_def ids_of_def)
qed

lemma length_foldl_update [simp]: "length (foldl (\<lambda>l b. l[b := g (l ! b)]) bufs ids) = length bufs"
  by (induction ids arbitrary: bufs) auto

lemma inv_capture: "registry_inv s \<Longrightarrow> registry_inv (capture_frame topic f s)"
  unfolding registry_inv_def ids_of_capture by (auto simp: capture_frame_def split: option.split)

lemma begin_topic_effect:
  "ids_of (snd (begin_topic topic s)) t = (if t = topic then ids_of s t @ [length (rr_bufs s)] else ids_of s t)"
  "length (rr_bufs (snd (begin_topic topic s))) = Suc (length (rr_bufs s))"
  "b < length (rr_bufs s) \<Longrightarrow> buf_of (snd (begin_topic topic s)) b = buf_of s b"
  "fst (begin_topic topic s) = \<lparr>re_topic = topic, re_buf = length (rr_bufs s),
     re_before = (case jm_get (rr_seen s) topic of None \<Rightarrow> 0 | Some n \<Rightarrow> n)\<rparr>"
  "rr_seen (snd (begin_topic topic s)) = rr_seen s"
  by (simp_all add: begin_topic_def Let_def ids_of_def buf_of_def nth_append split: option.split)

lemma inv_begin_topic:
  assumes i: "registry_inv s"
  shows "registry_inv (snd (begin_topic topic s))"
proof -
  have lt: "b < length (rr_bufs s)" if "b \<in> set (ids_of s t)" for b t using i that by (simp add: registry_inv_def)
  then have "length (rr_bufs s) \<notin> set (ids_of s t)" for t by blast
  then show ?thesis using i lt unfolding registry_inv_def begin_topic_effect
    by (auto simp: less_Suc_eq)
qed

lemma begin_capture_effect:
  "registry_inv s \<Longrightarrow> registry_inv (snd (begin_capture topics s)) \<and> length (rr_bufs s) \<le> length (rr_bufs (snd (begin_capture topics s))) \<and>
     (\<forall>t. set (ids_of s t) \<subseteq> set (ids_of (snd (begin_capture topics s)) t)) \<and>
     (\<forall>b < length (rr_bufs s). buf_of (snd (begin_capture topics s)) b = buf_of s b)"
proof (induction topics arbitrary: s)
  case (Cons topic topics)
  define u where "u = snd (begin_topic topic s)"
  have ih: "registry_inv (snd (begin_capture topics u)) \<and> length (rr_bufs u) \<le> length (rr_bufs (snd (begin_capture topics u))) \<and>
     (\<forall>t. set (ids_of u t) \<subseteq> set (ids_of (snd (begin_capture topics u)) t)) \<and>
     (\<forall>b < length (rr_bufs u). buf_of (snd (begin_capture topics u)) b = buf_of u b)"
    using Cons.IH inv_begin_topic [OF Cons.prems] by (simp add: u_def)
  have "set (ids_of s t) \<subseteq> set (ids_of u t)" for t by (auto simp: u_def begin_topic_effect)
  moreover have "snd (begin_capture (topic # topics) s) = snd (begin_capture topics u)"
    by (simp add: u_def split: prod.split)
  moreover have "length (rr_bufs u) = Suc (length (rr_bufs s))" by (simp add: u_def begin_topic_effect)
  moreover have "b < length (rr_bufs s) \<Longrightarrow> buf_of u b = buf_of s b" for b by (simp add: u_def begin_topic_effect)
  ultimately show ?case using ih by fastforce
qed simp

lemma unregister_effect:
  "ids_of (unregister e s) t = (if t = re_topic e then filter (\<lambda>b. b \<noteq> re_buf e) (ids_of s t) else ids_of s t)"
  "rr_bufs (unregister e s) = rr_bufs s"
  by (simp_all add: unregister_def ids_of_def Let_def split: option.split)

lemma inv_unregister: "registry_inv s \<Longrightarrow> registry_inv (unregister e s)"
  unfolding registry_inv_def unregister_effect by auto

lemma registry_inv_step: "registry_inv s \<Longrightarrow> registry_inv (window_step s ev)"
  by (cases ev) (simp_all add: inv_capture begin_capture_effect inv_unregister)

definition empty_registry :: "(js_string, real) jsmap \<Rightarrow> resume_registry" where
  "empty_registry seen = \<lparr>rr_sets = [], rr_bufs = [], rr_seen = seen\<rparr>"

interpretation registries: machine "empty_registry seen" window_step registry_inv for seen
  by unfold_locales (simp_all add: registry_inv_step, simp add: registry_inv_def empty_registry_def ids_of_def)

text \<open>The frames published to a topic in a window.\<close>

fun captured_of :: "js_string \<Rightarrow> window_event list \<Rightarrow> resume_frame list" where
  "captured_of topic [] = []"
| "captured_of topic (WCapture t f # es) = (if t = topic then [f] else []) @ captured_of topic es"
| "captured_of topic (WBegin topics # es) = captured_of topic es"
| "captured_of topic (WClose e # es) = captured_of topic es"

lemma capture_many:
  "foldl (\<lambda>b f. capture_into f b) b fs =
     b\<lparr>rb_frames := rb_frames b @ take (max_resume_frames - length (rb_frames b)) fs,
       rb_overflow := rb_overflow b \<or> (fs \<noteq> [] \<and> max_resume_frames < length (rb_frames b) + length fs)\<rparr>"
proof (induction fs arbitrary: b)
  case (Cons f fs)
  show ?case
  proof (cases "max_resume_frames \<le> length (rb_frames b)")
    case True
    then show ?thesis using Cons.IH [of "b\<lparr>rb_overflow := True\<rparr>"] by (simp add: capture_into_def)
  next
    case False
    then obtain n where n: "max_resume_frames - length (rb_frames b) = Suc n" by (metis Suc_diff_Suc not_le)
    then have "max_resume_frames - Suc (length (rb_frames b)) = n" by simp
    then show ?thesis using Cons.IH [of "b\<lparr>rb_frames := rb_frames b @ [f]\<rparr>"] False n by (cases fs) (auto simp: capture_into_def)
  qed
qed (cases b, simp)

lemma window_run:
  assumes "registry_inv s" and "registered s e" and "\<forall>x. WClose x \<in> set es \<longrightarrow> re_buf x \<noteq> re_buf e"
  shows "buf_of (foldl window_step s es) (re_buf e) = foldl (\<lambda>b f. capture_into f b) (buf_of s (re_buf e)) (captured_of (re_topic e) es) \<and>
    registered (foldl window_step s es) e"
  using assms
proof (induction es arbitrary: s)
  case (Cons ev es)
  have lt: "re_buf e < length (rr_bufs s)" using Cons.prems by (auto simp: registered_def registry_inv_def)
  have only: "re_buf e \<in> set (ids_of s t) \<longleftrightarrow> t = re_topic e" for t
    using Cons.prems unfolding registered_def registry_inv_def by blast
  have ih: "registered (window_step s ev) e \<Longrightarrow>
      buf_of (foldl window_step (window_step s ev) es) (re_buf e) =
        foldl (\<lambda>b f. capture_into f b) (buf_of (window_step s ev) (re_buf e)) (captured_of (re_topic e) es) \<and>
      registered (foldl window_step (window_step s ev) es) e"
    using Cons.IH [OF registry_inv_step [OF Cons.prems(1)]] Cons.prems(3) by auto
  show ?case
  proof (cases ev)
    case (WCapture t f)
    then show ?thesis
      using ih buf_of_capture [OF Cons.prems(1) lt, of t f] only Cons.prems(2) by (simp add: registered_def)
  next
    case (WBegin topics)
    then show ?thesis
      using ih begin_capture_effect [OF Cons.prems(1), of topics] lt Cons.prems(2) by (auto simp: registered_def)
  next
    case (WClose x)
    then have ne: "re_buf x \<noteq> re_buf e" using Cons.prems(3) by auto
    have "buf_of (unregister x s) b = buf_of s b" for b by (simp add: buf_of_def unregister_effect)
    moreover have "registered (unregister x s) e"
      using Cons.prems(2) ne by (auto simp: registered_def unregister_effect)
    ultimately show ?thesis using ih WClose by simp
  qed
qed simp

lemma begin_capture_entry:
  assumes "registry_inv s" and "begin_capture topics s = (entries, u)" and "topic \<in> set topics"
  shows "\<exists>e rest. take_entry topic entries = Some (e, rest) \<and> re_topic e = topic \<and> registered u e \<and>
    buf_of u (re_buf e) = \<lparr>rb_frames = [], rb_overflow = False\<rparr> \<and> registry_inv u \<and>
    re_before e = (case jm_get (rr_seen s) topic of None \<Rightarrow> 0 | Some n \<Rightarrow> n)"
  using assms
proof (induction topics arbitrary: s entries)
  case (Cons t topics)
  define v where "v = snd (begin_topic t s)"
  obtain rest where r: "begin_capture topics v = (rest, u)" "entries = fst (begin_topic t s) # rest"
    using Cons.prems(2) by (auto simp: v_def split: prod.splits)
  have iv: "registry_inv v" unfolding v_def by (rule inv_begin_topic [OF Cons.prems(1)])
  note eff = begin_capture_effect [OF iv, of topics]
  let ?e = "fst (begin_topic t s)"
  show ?case
  proof (cases "t = topic")
    case True
    have fresh: "buf_of v (length (rr_bufs s)) = \<lparr>rb_frames = [], rb_overflow = False\<rparr>"
      by (simp add: v_def begin_topic_def Let_def buf_of_def)
    have "re_buf ?e \<in> set (ids_of v topic)" by (simp add: v_def begin_topic_effect True)
    then have "registered u ?e" using eff r(1) True by (auto simp: registered_def begin_topic_effect)
    moreover have "buf_of u (re_buf ?e) = \<lparr>rb_frames = [], rb_overflow = False\<rparr>"
      using eff r(1) fresh by (simp add: begin_topic_effect(2,4) v_def)
    ultimately show ?thesis using eff r True by (simp add: begin_topic_effect)
  next
    case False
    then have "topic \<in> set topics" using Cons.prems(3) by simp
    from Cons.IH [OF iv r(1) this] show ?thesis
      using r(2) False by (auto simp: begin_topic_effect v_def)
  qed
qed simp

section \<open>Properties\<close>

text \<open>C10: No silent gap. A connection opens buffers for topics, any events follow while its resume hook
  runs (frames published, other connections opening and closing theirs), then one topic is
  flushed. Whatever the socket answers, what it took of the live frames is a prefix, in order, of
  those it still needs, which are the frames without a number and those numbered above the floor; and either
  the whole of them arrived, or a truncation marker did, or the flush reports the connection unusable, which
  it does only when it ended the socket or a call found it gone.\<close>

theorem resume_no_silent_gap:
  assumes "registry_inv s" and "begin_capture topics s = (entries, u)" and "topic \<in> set topics"
    and "\<forall>x. WClose x \<in> set es \<longrightarrow> x \<notin> set entries \<and> re_buf x \<notin> re_buf ` set entries"
    and "flush_topic compression entries topic covered_seq k (foldl window_step u es) = (unusable, rest, k', v)"
  defines "w \<equiv> wanted (case covered_seq of None \<Rightarrow> (case jm_get (rr_seen s) topic of None \<Rightarrow> 0 | Some n \<Rightarrow> n) | Some n \<Rightarrow> n)
    compression (captured_of topic es)"
  shows "\<exists>before sent after. so_taken k' = so_taken k @ before @ sent @ after \<and> prefix sent w \<and>
    set (before @ after) \<subseteq> {TruncationMarker topic} \<and> (unusable \<or> before @ after \<noteq> [] \<or> sent = w) \<and>
    (unusable \<longrightarrow> so_ended k' \<or> so_aborts k < so_aborts k')"
proof -
  obtain e r where e: "take_entry topic entries = Some (e, r)" "re_topic e = topic" "registered u e"
    "buf_of u (re_buf e) = \<lparr>rb_frames = [], rb_overflow = False\<rparr>" "registry_inv u"
    "re_before e = (case jm_get (rr_seen s) topic of None \<Rightarrow> 0 | Some n \<Rightarrow> n)"
    using begin_capture_entry [OF assms(1-3)] by blast
  have "e \<in> set entries" if "take_entry topic es = Some (e, r)" "es = entries" for es
  proof -
    have "take_entry t l = Some (x, q) \<Longrightarrow> x \<in> set l" for t l x q by (induction l arbitrary: q) (auto split: if_splits)
    then show ?thesis using that by blast
  qed
  then have mem: "e \<in> set entries" using e(1) by blast
  have "buf_of (foldl window_step u es) (re_buf e) = foldl (\<lambda>b f. capture_into f b) (buf_of u (re_buf e)) (captured_of topic es)"
    using window_run [OF e(5,3), of es] assms(4) mem e(2) by blast
  then have b: "buf_of (foldl window_step u es) (re_buf e) =
      \<lparr>rb_frames = take max_resume_frames (captured_of topic es), rb_overflow = captured_of topic es \<noteq> [] \<and> max_resume_frames < length (captured_of topic es)\<rparr>"
    by (simp add: capture_many e(4))
  define low where "low = (case covered_seq of None \<Rightarrow> re_before e | Some n \<Rightarrow> n)"
  define part where "part = wanted low compression (take max_resume_frames (captured_of topic es))"
  have w: "w = wanted low compression (captured_of topic es)" unfolding w_def low_def e(6) ..
  have whole: "part = w" if "length (captured_of topic es) \<le> max_resume_frames" using that by (simp add: part_def w)
  have "w = part @ wanted low compression (drop max_resume_frames (captured_of topic es))"
    unfolding part_def w wanted_def by (simp flip: map_append filter_append)
  then have pre: "prefix part w" by (rule prefixI)
  have "flush_entry compression e covered_seq (buf_of (foldl window_step u es) (re_buf e)) k = (unusable, k')"
    using assms(5) by (simp add: flush_topic_def e(1) split: prod.splits)
  from flush_entry_outcome [OF this] obtain before sent after where
    o: "so_taken k' = so_taken k @ before @ sent @ after" "prefix sent part" "set (before @ after) \<subseteq> {TruncationMarker topic}"
      "unusable \<or> before @ after \<noteq> [] \<or> sent = part \<and> \<not> (captured_of topic es \<noteq> [] \<and> max_resume_frames < length (captured_of topic es))"
      "unusable \<longrightarrow> so_ended k' \<or> so_aborts k < so_aborts k'"
    unfolding b resume_buffer.simps e(2) low_def [symmetric] part_def [symmetric] by blast
  have all: "sent = w" if "sent = part" "\<not> (captured_of topic es \<noteq> [] \<and> max_resume_frames < length (captured_of topic es))"
    using that whole by (cases "captured_of topic es") (auto simp: not_less max_resume_frames_def)
  have "prefix sent w" using o(2) pre by (rule prefix_order.trans)
  moreover have "unusable \<or> before @ after \<noteq> [] \<or> sent = w" using o(4) all by blast
  ultimately show ?thesis using o(1,3,5) by blast
qed

definition sample_frame :: "real \<Rightarrow> resume_frame" where
  "sample_frame n = \<lparr>rf_seq = Some n, rf_envelope = [of_nat (nat \<lfloor>n\<rfloor>)], rf_compress = False\<rparr>"

definition sample_window :: "window_event list" where
  "sample_window = [WCapture [1] (sample_frame 4), WCapture [2] (sample_frame 9), WBegin [[1]], WCapture [1] (sample_frame 5),
     WCapture [1] (sample_frame 6)]"

definition sample_socket :: "send_answer list \<Rightarrow> resume_socket" where
  "sample_socket answers = \<lparr>so_taken = [], so_answers = answers, so_end_throws = False, so_ended = False, so_aborts = 0\<rparr>"

lemma sample_begin:
  "begin_capture [[1]] (empty_registry [([1], 3)]) =
     ([\<lparr>re_topic = [1], re_buf = 0, re_before = 3\<rparr>],
      \<lparr>rr_sets = [([1], [0])], rr_bufs = [\<lparr>rb_frames = [], rb_overflow = False\<rparr>], rr_seen = [([1], 3)]\<rparr>)"
  by (simp add: begin_topic_def empty_registry_def jm_get_def Let_def)

lemmas resume_eval = sample_window_def sample_frame_def sample_socket_def capture_frame_def capture_into_def begin_topic_def
  max_resume_frames_def jm_get_def Let_def flush_topic_def flush_entry_def buf_of_def covered_frame_def deliver_def end_socket_def

text \<open>The socket takes the first frame, drops the second and takes the marker.\<close>

theorem resume_no_silent_gap_witness:
  "\<exists>rest k' v. flush_topic True [\<lparr>re_topic = [1], re_buf = 0, re_before = 3\<rparr>] [1] (Some 4) (sample_socket [Taken, DroppedFull])
      (foldl window_step (snd (begin_capture [[1]] (empty_registry [([1], 3)]))) sample_window) = (False, rest, k', v) \<and>
    so_taken k' = [Envelope [5] False, TruncationMarker [1]] \<and>
    (\<exists>before sent after. so_taken k' = before @ sent @ after \<and> prefix sent (wanted 4 True (captured_of [1] sample_window)))"
proof -
  let ?u = "\<lparr>rr_sets = [([1], [0])], rr_bufs = [\<lparr>rb_frames = [], rb_overflow = False\<rparr>], rr_seen = [([1], 3)]\<rparr> :: resume_registry"
  let ?es = "[\<lparr>re_topic = [1], re_buf = 0, re_before = 3\<rparr>]"
  obtain rest k' v where f: "flush_topic True ?es [1] (Some 4) (sample_socket [Taken, DroppedFull]) (foldl window_step ?u sample_window) =
      (False, rest, k', v)" "so_taken k' = [Envelope [5] False, TruncationMarker [1]]"
    by (simp add: resume_eval)
  have "\<forall>x. WClose x \<in> set sample_window \<longrightarrow> x \<notin> set ?es \<and> re_buf x \<notin> re_buf ` set ?es" by (simp add: sample_window_def)
  from resume_no_silent_gap [OF registries.init_inv sample_begin _ this f(1)]
  have "\<exists>before sent after. so_taken k' = so_taken (sample_socket [Taken, DroppedFull]) @ before @ sent @ after \<and>
      prefix sent (wanted 4 True (captured_of [1] sample_window)) \<and> set (before @ after) \<subseteq> {TruncationMarker [1]} \<and>
      (False \<or> before @ after \<noteq> [] \<or> sent = wanted 4 True (captured_of [1] sample_window))"
    by simp
  then have "\<exists>before sent after. so_taken k' = before @ sent @ after \<and> prefix sent (wanted 4 True (captured_of [1] sample_window))"
    by (auto simp: sample_socket_def)
  then show ?thesis unfolding sample_begin snd_conv using f by blast
qed

end
