(* ===== verification/Gap_Tracker.thy ===== *)
theory Gap_Tracker
  imports Prelude "HOL-Library.Sublist"
begin

text \<open>
  Relay gap detection, \<open>recordOriginStream\<close> and \<open>takeConfirmedGaps\<close> of
  \<open>src/runtime/handler/state.js\<close>: per topic and origin a watermark, a bounded set of the lowest
  ordinals that arrived above it, bounded ranges for the rest, and staged reports of what is lost.

  Ordinals are naturals. The set \<open>above\<close> is a list without repetitions, minus infinity is the
  absent maximum, plus infinity the absent floor; an instant of 0 means that no hole is open.
\<close>

section \<open>State\<close>

record gap_stream =
  gs_w :: nat
  gs_hi :: nat
  gs_above :: "nat list option"
  gs_max :: "nat option"
  gs_ranges :: "(nat \<times> nat) list"
  gs_saturated :: bool
  gs_floor :: "nat option"
  gs_hole :: real

type_synonym gap_streams = "(js_string, (nat, gap_stream) jsmap) jsmap"

record gap_report =
  gr_topic :: js_string
  gr_origin :: nat
  gr_from :: nat
  gr_to :: nat
  gr_count :: nat

definition max_pending_above :: nat where
  "max_pending_above = 64"

section \<open>Ranges\<close>

text \<open>Absorb the following ranges that now touch.\<close>

fun merge_ranges :: "nat \<Rightarrow> nat \<Rightarrow> (nat \<times> nat) list \<Rightarrow> (nat \<times> nat) list" where
  "merge_ranges lo hi [] = [(lo, hi)]"
| "merge_ranges lo hi (r # rs) = (if fst r \<le> hi + 1 then merge_ranges lo (max hi (snd r)) rs else (lo, hi) # r # rs)"

text \<open>The new ranges and the lowest delivered ordinal that had to be forgotten, 0 for none.\<close>

definition retain_above_range :: "(nat \<times> nat) list \<Rightarrow> nat \<Rightarrow> (nat \<times> nat) list \<times> nat" where
  "retain_above_range ranges ord =
     (let before = takeWhile (\<lambda>r. snd r + 1 < ord) ranges; rest = dropWhile (\<lambda>r. snd r + 1 < ord) ranges
      in if rest \<noteq> [] \<and> fst (hd rest) \<le> ord + 1 \<and> ord \<le> snd (hd rest) + 1
         then (before @ merge_ranges (min ord (fst (hd rest))) (max ord (snd (hd rest))) (tl rest), 0)
         else if length ranges < max_pending_above then (before @ (ord, ord) # rest, 0)
         else if rest \<noteq> []
         then (butlast (before @ (ord, ord) # rest), fst (last (before @ (ord, ord) # rest)))
         else (ranges, ord))"

fun above_ranges_contain :: "(nat \<times> nat) list \<Rightarrow> nat \<Rightarrow> bool" where
  "above_ranges_contain [] ord \<longleftrightarrow> False"
| "above_ranges_contain (r # rs) ord \<longleftrightarrow> (if ord < fst r then False else if ord \<le> snd r then True else above_ranges_contain rs ord)"

section \<open>Recording\<close>

function drain_exact :: "nat \<Rightarrow> nat list \<Rightarrow> nat \<times> nat list" where
  "drain_exact w pend = (if w + 1 \<in> set pend then drain_exact (w + 1) (remove1 (w + 1) pend) else (w, pend))"
  by pat_completeness auto

termination
  by (relation "measure (\<lambda>(w, pend). length pend)")
    (auto simp: length_remove1 dest: length_pos_if_in_set)

declare drain_exact.simps [simp del]

fun drain_above :: "nat \<Rightarrow> nat list \<Rightarrow> (nat \<times> nat) list \<Rightarrow> nat \<times> nat list \<times> (nat \<times> nat) list" where
  "drain_above w pend [] = (case drain_exact w pend of (w, pend) \<Rightarrow> (w, pend, []))"
| "drain_above w pend (r # rs) =
     (case drain_exact w pend of (w, pend) \<Rightarrow>
        if fst r \<noteq> w + 1 then (w, pend, r # rs) else drain_above (snd r) pend rs)"

definition note_forgotten :: "nat \<Rightarrow> gap_stream \<Rightarrow> gap_stream" where
  "note_forgotten forgot st =
     (if forgot = 0 then st
      else st\<lparr>gs_saturated := True, gs_floor := Some (case gs_floor st of None \<Rightarrow> forgot | Some f \<Rightarrow> min f forgot)\<rparr>)"

text \<open>A stream with nothing outstanding resumes at the highest arrival.\<close>

definition clean_stream :: "gap_stream \<Rightarrow> gap_stream" where
  "clean_stream st = st\<lparr>gs_w := gs_hi st, gs_above := None, gs_max := None, gs_ranges := [], gs_saturated := False,
     gs_floor := None, gs_hole := 0\<rparr>"

definition first_sighting :: "nat \<Rightarrow> real \<Rightarrow> real \<Rightarrow> real \<Rightarrow> gap_stream" where
  "first_sighting ord birth attached now =
     (if 1 < ord \<and> attached < birth
      then \<lparr>gs_w = 0, gs_hi = ord, gs_above = Some [ord], gs_max = Some ord, gs_ranges = [], gs_saturated = False,
            gs_floor = None, gs_hole = now\<rparr>
      else \<lparr>gs_w = ord, gs_hi = ord, gs_above = None, gs_max = None, gs_ranges = [], gs_saturated = False,
            gs_floor = None, gs_hole = 0\<rparr>)"

definition record_next :: "real \<Rightarrow> gap_stream \<Rightarrow> gap_stream" where
  "record_next now st =
     (let st = st\<lparr>gs_w := gs_w st + 1\<rparr> in
      case gs_above st of
        None \<Rightarrow> st
      | Some pend \<Rightarrow>
          (case drain_above (gs_w st) pend (gs_ranges st) of (w, pend, ranges) \<Rightarrow>
             if pend = [] \<and> ranges = [] then clean_stream st
             else st\<lparr>gs_w := w, gs_above := Some pend, gs_ranges := ranges,
                     gs_max := (if pend = [] then None else gs_max st), gs_hole := now\<rparr>))"

definition list_max :: "nat list \<Rightarrow> nat option" where
  "list_max xs = (if xs = [] then None else Some (foldr max xs 0))"

definition open_hole :: "real \<Rightarrow> gap_stream \<Rightarrow> gap_stream" where
  "open_hole now st =
     (let st = (if gs_above st = None
                then st\<lparr>gs_above := Some [], gs_max := None, gs_ranges := [], gs_saturated := False, gs_floor := None\<rparr> else st)
      in if gs_hole st = 0 then st\<lparr>gs_hole := now\<rparr> else st)"

definition record_ahead :: "nat \<Rightarrow> real \<Rightarrow> gap_stream \<Rightarrow> gap_stream" where
  "record_ahead ord now st =
     (let st = open_hole now st; pend = (case gs_above st of None \<Rightarrow> [] | Some a \<Rightarrow> a) in
      if ord \<in> set pend \<or> above_ranges_contain (gs_ranges st) ord then st
      else if length pend < max_pending_above
      then st\<lparr>gs_above := Some (pend @ [ord]), gs_max := Some (case gs_max st of None \<Rightarrow> ord | Some m \<Rightarrow> max m ord)\<rparr>
      else case gs_max st of
        Some m \<Rightarrow>
          if ord < m
          then (let kept = remove1 m pend @ [ord] in
                case retain_above_range (gs_ranges st) m of (ranges, forgot) \<Rightarrow>
                  note_forgotten forgot (st\<lparr>gs_above := Some kept, gs_max := list_max kept, gs_ranges := ranges\<rparr>))
          else (case retain_above_range (gs_ranges st) ord of (ranges, forgot) \<Rightarrow> note_forgotten forgot (st\<lparr>gs_ranges := ranges\<rparr>))
      | None \<Rightarrow> (case retain_above_range (gs_ranges st) ord of (ranges, forgot) \<Rightarrow> note_forgotten forgot (st\<lparr>gs_ranges := ranges\<rparr>)))"

definition record_known :: "nat \<Rightarrow> real \<Rightarrow> gap_stream \<Rightarrow> gap_stream" where
  "record_known ord now st =
     (let st = (if gs_hi st < ord then st\<lparr>gs_hi := ord\<rparr> else st)
      in if ord \<le> gs_w st then st
         else if ord = gs_w st + 1 then record_next now st
         else record_ahead ord now st)"

definition record_origin_stream :: "gap_streams \<Rightarrow> js_string \<Rightarrow> nat \<Rightarrow> nat \<Rightarrow> real \<Rightarrow> real \<Rightarrow> real \<Rightarrow> gap_streams" where
  "record_origin_stream streams topic origin ord birth attached now =
     (let by_origin = (case jm_get streams topic of None \<Rightarrow> [] | Some m \<Rightarrow> m);
          st = (case jm_get by_origin origin of
                  None \<Rightarrow> first_sighting ord birth attached now
                | Some st \<Rightarrow> record_known ord now st)
      in jm_set topic (jm_set origin st by_origin) streams)"

section \<open>Reporting\<close>

definition list_min :: "nat list \<Rightarrow> nat option" where
  "list_min xs = (case xs of [] \<Rightarrow> None | x # xs \<Rightarrow> Some (foldr min xs x))"

text \<open>The exact ordinals and the ranges in one ascending list.\<close>

fun merge_items :: "nat list \<Rightarrow> (nat \<times> nat) list \<Rightarrow> (nat \<times> nat) list" where
  "merge_items [] rs = rs"
| "merge_items (e # es) [] = (e, e) # merge_items es []"
| "merge_items (e # es) (r # rs) = (if e < fst r then (e, e) # merge_items es (r # rs) else r # merge_items (e # es) rs)"

fun extend_run :: "nat \<Rightarrow> (nat \<times> nat) list \<Rightarrow> nat" where
  "extend_run run_end [] = run_end"
| "extend_run run_end (i # is) = (if fst i \<le> run_end + 1 then extend_run (if run_end < snd i then snd i else run_end) is else run_end)"

definition first_run :: "nat list \<Rightarrow> (nat \<times> nat) list \<Rightarrow> (nat \<times> nat) option" where
  "first_run exact ranges =
     (case merge_items exact ranges of [] \<Rightarrow> None | i # is \<Rightarrow> Some (fst i, extend_run (snd i) is))"

definition take_saturated :: "gap_stream \<Rightarrow> (nat \<times> nat) option \<times> gap_stream" where
  "take_saturated st =
     (let pend = (case gs_above st of None \<Rightarrow> [] | Some a \<Rightarrow> a);
          low = list_min (pend @ map fst (take 1 (gs_ranges st)) @ (case gs_floor st of None \<Rightarrow> [] | Some f \<Rightarrow> [f]));
          from_ord = gs_w st + 1
      in (case low of None \<Rightarrow> None | Some m \<Rightarrow> if from_ord \<le> m - 1 then Some (from_ord, m - 1) else None,
          clean_stream st))"

text \<open>Without an arrival above the watermark there is no run; an open hole always has one.\<close>

definition take_staged :: "real \<Rightarrow> gap_stream \<Rightarrow> (nat \<times> nat) option \<times> gap_stream" where
  "take_staged now st =
     (let pend = (case gs_above st of None \<Rightarrow> [] | Some a \<Rightarrow> a) in
      case first_run (sort pend) (gs_ranges st) of
        None \<Rightarrow> (None, st)
      | Some (run_start, run_end) \<Rightarrow>
          (let kept = filter (\<lambda>s. \<not> s \<le> run_end) pend;
               ranges = dropWhile (\<lambda>r. snd r \<le> run_end) (gs_ranges st)
           in (Some (gs_w st + 1, run_start - 1),
               if kept = [] \<and> ranges = [] then clean_stream st
               else st\<lparr>gs_w := run_end, gs_above := Some kept, gs_ranges := ranges,
                       gs_max := (if kept = [] then None else gs_max st), gs_hole := now\<rparr>)))"

definition take_stream :: "real \<Rightarrow> real \<Rightarrow> gap_stream \<Rightarrow> (nat \<times> nat) option \<times> gap_stream" where
  "take_stream now grace st =
     (if gs_hole st = 0 \<or> now - gs_hole st < grace then (None, st)
      else if gs_saturated st then take_saturated st
      else take_staged now st)"

definition gap_entry :: "js_string \<Rightarrow> nat \<Rightarrow> (nat \<times> nat) option \<Rightarrow> gap_report list" where
  "gap_entry topic origin gap =
     (case gap of None \<Rightarrow> []
      | Some (a, b) \<Rightarrow> [\<lparr>gr_topic = topic, gr_origin = origin, gr_from = a, gr_to = b, gr_count = b - a + 1\<rparr>])"

definition take_confirmed_gaps :: "gap_streams \<Rightarrow> real \<Rightarrow> real \<Rightarrow> gap_report list \<times> gap_streams" where
  "take_confirmed_gaps streams now grace =
     (concat (map (\<lambda>(topic, by_origin). concat (map (\<lambda>(origin, st). gap_entry topic origin (fst (take_stream now grace st))) by_origin)) streams),
      map (\<lambda>(topic, by_origin). (topic, map (\<lambda>(origin, st). (origin, snd (take_stream now grace st))) by_origin)) streams)"

section \<open>Range arithmetic\<close>

definition in_ranges :: "(nat \<times> nat) list \<Rightarrow> nat \<Rightarrow> bool" where
  "in_ranges rs x \<longleftrightarrow> (\<exists>r \<in> set rs. fst r \<le> x \<and> x \<le> snd r)"

definition ranges_ok :: "(nat \<times> nat) list \<Rightarrow> bool" where
  "ranges_ok rs \<longleftrightarrow> sorted_wrt (\<lambda>r s. snd r + 1 < fst s) rs \<and> (\<forall>r \<in> set rs. fst r \<le> snd r)"

lemma in_ranges_simps [simp]:
  "\<not> in_ranges [] x" "in_ranges (r # rs) x \<longleftrightarrow> (fst r \<le> x \<and> x \<le> snd r) \<or> in_ranges rs x"
  "in_ranges (rs @ rs') x \<longleftrightarrow> in_ranges rs x \<or> in_ranges rs' x"
  by (auto simp: in_ranges_def)

lemma ranges_ok_simps [simp]:
  "ranges_ok []" "ranges_ok (r # rs) \<longleftrightarrow> fst r \<le> snd r \<and> (\<forall>s \<in> set rs. snd r + 1 < fst s) \<and> ranges_ok rs"
  "ranges_ok (rs @ rs') \<longleftrightarrow> ranges_ok rs \<and> ranges_ok rs' \<and> (\<forall>r \<in> set rs. \<forall>s \<in> set rs'. snd r + 1 < fst s)"
  by (auto simp: ranges_ok_def sorted_wrt_append)

lemma contain_in_ranges: "ranges_ok rs \<Longrightarrow> above_ranges_contain rs x \<longleftrightarrow> in_ranges rs x"
  by (induction rs) (fastforce simp: in_ranges_def)+

lemma merge_ranges_ok:
  assumes "ranges_ok rs" and "lo \<le> hi" and "\<forall>s \<in> set rs. lo \<le> fst s"
  shows "ranges_ok (merge_ranges lo hi rs) \<and> (\<forall>x. in_ranges (merge_ranges lo hi rs) x \<longleftrightarrow> lo \<le> x \<and> x \<le> hi \<or> in_ranges rs x) \<and>
    (\<forall>s \<in> set (merge_ranges lo hi rs). lo \<le> fst s) \<and> length (merge_ranges lo hi rs) \<le> Suc (length rs)"
  using assms
proof (induction rs arbitrary: hi)
  case (Cons r rs)
  show ?case
  proof (cases "fst r \<le> hi + 1")
    case True
    have "\<forall>x. in_ranges (merge_ranges lo (max hi (snd r)) rs) x \<longleftrightarrow> lo \<le> x \<and> x \<le> max hi (snd r) \<or> in_ranges rs x"
      and "ranges_ok (merge_ranges lo (max hi (snd r)) rs)" and "\<forall>s \<in> set (merge_ranges lo (max hi (snd r)) rs). lo \<le> fst s"
      and "length (merge_ranges lo (max hi (snd r)) rs) \<le> Suc (length rs)"
      using Cons.IH [of "max hi (snd r)"] Cons.prems by auto
    moreover have "lo \<le> x \<and> x \<le> max hi (snd r) \<longleftrightarrow> lo \<le> x \<and> x \<le> hi \<or> fst r \<le> x \<and> x \<le> snd r" for x
      using True Cons.prems(1,3) by (auto simp: le_max_iff_disj)
    ultimately show ?thesis using True by auto
  next
    case False
    then show ?thesis using Cons.prems by auto
  qed
qed simp

lemma range_start_in: "ranges_ok rs \<Longrightarrow> r \<in> set rs \<Longrightarrow> in_ranges rs (fst r)"
  by (auto simp: in_ranges_def ranges_ok_def)

definition retained :: "(nat \<times> nat) list \<Rightarrow> nat \<Rightarrow> (nat \<times> nat) list \<Rightarrow> nat \<Rightarrow> bool" where
  "retained rs ord rs' forgot \<longleftrightarrow> ranges_ok rs' \<and> length rs' \<le> max max_pending_above (length rs) \<and>
     (\<forall>x. in_ranges rs' x \<longrightarrow> in_ranges rs x \<or> x = ord) \<and>
     (\<forall>x. in_ranges rs x \<or> x = ord \<longrightarrow> in_ranges rs' x \<or> forgot \<noteq> 0 \<and> forgot \<le> x) \<and>
     (forgot \<noteq> 0 \<longrightarrow> forgot = ord \<or> in_ranges rs forgot)"

lemma retain_above_range_retained:
  assumes ok: "ranges_ok rs" and pos: "0 < ord" "\<forall>r \<in> set rs. 0 < fst r"
  shows "case_prod (retained rs ord) (retain_above_range rs ord)"
proof -
  define before where "before = takeWhile (\<lambda>r. snd r + 1 < ord) rs"
  define rest where "rest = dropWhile (\<lambda>r. snd r + 1 < ord) rs"
  have split: "rs = before @ rest" by (simp add: before_def rest_def)
  have oks: "ranges_ok before" "ranges_ok rest" and sep: "\<And>r s. r \<in> set before \<Longrightarrow> s \<in> set rest \<Longrightarrow> snd r + 1 < fst s"
    using ok unfolding split by auto
  have low: "snd r + 1 < ord" if "r \<in> set before" for r using that by (auto simp: before_def dest: set_takeWhileD)
  have unfold: "retain_above_range rs ord =
      (if rest \<noteq> [] \<and> fst (hd rest) \<le> ord + 1 \<and> ord \<le> snd (hd rest) + 1
       then (before @ merge_ranges (min ord (fst (hd rest))) (max ord (snd (hd rest))) (tl rest), 0)
       else if length rs < max_pending_above then (before @ (ord, ord) # rest, 0)
       else if rest \<noteq> [] then (butlast (before @ (ord, ord) # rest), fst (last (before @ (ord, ord) # rest)))
       else (rs, ord))"
    unfolding retain_above_range_def Let_def before_def [symmetric] rest_def [symmetric] ..
  show ?thesis
  proof (cases rest)
    case Nil
    have new: "ranges_ok (rs @ [(ord, ord)])" using ok low split Nil by auto
    show ?thesis
    proof (cases "length rs < max_pending_above")
      case True
      then have e: "retain_above_range rs ord = (before @ (ord, ord) # rest, 0)" using Nil by (simp only: unfold) simp
      have "before @ (ord, ord) # rest = rs @ [(ord, ord)]" using split Nil by simp
      then show ?thesis unfolding e prod.case retained_def using new True by auto
    next
      case False
      then have e: "retain_above_range rs ord = (rs, ord)" using Nil by (simp only: unfold) simp
      show ?thesis unfolding e prod.case retained_def using ok pos by auto
    qed
  next
    case (Cons r tl')
    have hd: "ord \<le> snd r + 1" using Cons by (simp add: rest_def dropWhile_eq_Cons_conv not_less)
    show ?thesis
    proof (cases "fst r \<le> ord + 1")
      case touch: True
      let ?lo = "min ord (fst r)" and ?hi = "max ord (snd r)"
      have pre: "ranges_ok tl'" "?lo \<le> ?hi" "\<forall>s \<in> set tl'. ?lo \<le> fst s" "fst r \<le> snd r" using oks(2) by (auto simp: Cons)
      note m = merge_ranges_ok [OF pre(1-3)]
      have lo: "snd q + 1 < ?lo" if "q \<in> set before" for q using low [OF that] sep [OF that, of r] by (simp add: Cons)
      have "\<forall>q \<in> set before. \<forall>s \<in> set (merge_ranges ?lo ?hi tl'). snd q + 1 < fst s"
        using lo m by (meson less_le_trans)
      then have "ranges_ok (before @ merge_ranges ?lo ?hi tl')" using oks(1) m by (simp only: ranges_ok_simps)
      moreover have "?lo \<le> x \<and> x \<le> ?hi \<longleftrightarrow> fst r \<le> x \<and> x \<le> snd r \<or> x = ord" for x
        using touch hd pre(4) by (auto simp: min_le_iff_disj le_max_iff_disj)
      moreover have e: "retain_above_range rs ord = (before @ merge_ranges ?lo ?hi tl', 0)"
        using touch hd by (simp only: unfold Cons) simp
      moreover have "length (before @ merge_ranges ?lo ?hi tl') \<le> length rs" using m split by (simp add: Cons)
      moreover have "in_ranges rs x \<longleftrightarrow> in_ranges before x \<or> fst r \<le> x \<and> x \<le> snd r \<or> in_ranges tl' x" for x
        using split by (simp add: Cons)
      ultimately show ?thesis
        unfolding e prod.case retained_def using m by auto
    next
      case far: False
      have new: "ranges_ok (before @ (ord, ord) # rest)" using oks low sep far by (auto simp: Cons)
      have mem: "in_ranges (before @ (ord, ord) # rest) x \<longleftrightarrow> in_ranges rs x \<or> x = ord" for x using split by auto
      show ?thesis
      proof (cases "length rs < max_pending_above")
        case True
        then have e: "retain_above_range rs ord = (before @ (ord, ord) # rest, 0)" using far by (simp only: unfold) (simp add: Cons)
        show ?thesis unfolding e prod.case retained_def using new mem True split by simp
      next
        case False
        define l where "l = last (before @ (ord, ord) # rest)"
        have bl: "before @ (ord, ord) # rest = butlast (before @ (ord, ord) # rest) @ [l]"
          unfolding l_def by (rule append_butlast_last_id [symmetric]) simp
        have "ranges_ok (butlast (before @ (ord, ord) # rest)) \<and> fst l \<le> snd l" using new by (subst (asm) bl) auto
        moreover have sp: "in_ranges (butlast (before @ (ord, ord) # rest)) x \<or> fst l \<le> x \<and> x \<le> snd l \<longleftrightarrow> in_ranges rs x \<or> x = ord" for x
          unfolding mem [symmetric] by (subst (2) bl) auto
        moreover have "l \<in> set rest" using Cons by (simp add: l_def)
        then have "0 < fst l" "in_ranges rs (fst l)" using pos(2) split range_start_in [OF ok, of l] by auto
        moreover have "length (butlast (before @ (ord, ord) # rest)) = length rs" using split by simp
        ultimately have "retained rs ord (butlast (before @ (ord, ord) # rest)) (fst l)"
          unfolding retained_def by (metis max.cobounded2 neq0_conv)
        moreover have "retain_above_range rs ord = (butlast (before @ (ord, ord) # rest), fst l)"
          using far False unfolding l_def by (simp only: unfold) (simp add: Cons)
        ultimately show ?thesis by simp
      qed
    qed
  qed
qed

section \<open>Draining\<close>

lemma drain_exact_spec:
  "distinct pend \<Longrightarrow> \<forall>x \<in> set pend. w < x \<Longrightarrow> drain_exact w pend = (w', p') \<Longrightarrow>
     w \<le> w' \<and> distinct p' \<and> set p' = {x \<in> set pend. w' < x} \<and> (\<forall>x. w < x \<and> x \<le> w' \<longrightarrow> x \<in> set pend) \<and>
     (\<forall>x \<in> set p'. w' + 1 < x)"
proof (induction w pend rule: drain_exact.induct)
  case (1 w pend)
  show ?case
  proof (cases "w + 1 \<in> set pend")
    case True
    have d: "distinct (remove1 (w + 1) pend)" "\<forall>x \<in> set (remove1 (w + 1) pend). w + 1 < x"
      using 1(2,3) by (auto simp: Suc_lessI)
    have "drain_exact (w + 1) (remove1 (w + 1) pend) = (w', p')" using 1(4) True by (simp add: drain_exact.simps [of w])
    from 1(1) [OF True d this] show ?thesis
      using 1(2) True by (auto simp: Suc_le_eq) (metis Suc_leI le_neq_implies_less Suc_lessI)+
  next
    case False
    then have "w' = w" "p' = pend" using 1(4) by (simp_all add: drain_exact.simps [of w])
    then show ?thesis using 1(2,3) False by (auto intro: Suc_lessI)
  qed
qed

lemma drain_above_spec:
  "distinct pend \<Longrightarrow> \<forall>x \<in> set pend. w < x \<Longrightarrow> ranges_ok rs \<Longrightarrow> \<forall>r \<in> set rs. w < fst r \<Longrightarrow> \<forall>x \<in> set pend. \<not> in_ranges rs x \<Longrightarrow>
   drain_above w pend rs = (w', p', rs') \<Longrightarrow>
     w \<le> w' \<and> distinct p' \<and> set p' = {x \<in> set pend. w' < x} \<and> suffix rs' rs \<and>
     (\<forall>x. in_ranges rs' x \<longleftrightarrow> in_ranges rs x \<and> w' < x) \<and> (\<forall>x. w < x \<and> x \<le> w' \<longrightarrow> x \<in> set pend \<or> in_ranges rs x) \<and>
     (\<forall>x \<in> set p'. w' + 1 < x) \<and> (\<forall>r \<in> set rs'. w' + 1 < fst r)"
proof (induction rs arbitrary: w pend)
  case Nil
  then show ?case using drain_exact_spec [OF Nil(1,2)] by (auto split: prod.splits)
next
  case (Cons r rs)
  obtain v q where e: "drain_exact w pend = (v, q)" by fastforce
  note s = drain_exact_spec [OF Cons.prems(1,2) e]
  show ?case
  proof (cases "fst r = v + 1")
    case False
    then have eq: "w' = v" "p' = q" "rs' = r # rs" using Cons.prems(6) e by simp_all
    have "v < fst r"
    proof (rule ccontr)
      assume "\<not> v < fst r"
      then have "fst r \<in> set pend" using s Cons.prems(4) by simp
      then show False using Cons.prems(3,5) by auto
    qed
    then have "v + 1 < fst r" using False by simp
    then show ?thesis using s Cons.prems(3) by (auto simp: eq in_ranges_def)
  next
    case True
    have ok: "ranges_ok rs" "fst r \<le> snd r" "\<forall>s \<in> set rs. snd r + 1 < fst s" using Cons.prems(3) by auto
    have q: "\<forall>x \<in> set q. snd r < x"
    proof
      fix x assume x: "x \<in> set q"
      then have "v + 1 \<le> x" "x \<in> set pend" using s by auto
      then have "\<not> in_ranges (r # rs) x" "fst r \<le> x" using Cons.prems(5) True by auto
      then show "snd r < x" by simp
    qed
    have d: "drain_above (snd r) q rs = (w', p', rs')" using Cons.prems(6) e True by simp
    have "\<forall>x \<in> set q. \<not> in_ranges rs x" "\<forall>s \<in> set rs. snd r < fst s" using s Cons.prems(5) ok(3) by auto
    note i = Cons.IH [OF conjunct1 [OF conjunct2 [OF s]] q ok(1) this(2,1) d]
    have le: "v < snd r" "snd r \<le> w'" "w \<le> w'" using i s ok(2) True by auto
    have sq: "set q = {x \<in> set pend. v < x}" using s by blast
    have "x \<in> set pend \<or> in_ranges (r # rs) x" if "w < x" "x \<le> w'" for x
    proof -
      consider "x \<le> v" | "v + 1 \<le> x" "x \<le> snd r" | "snd r < x" by linarith
      then show ?thesis
      proof cases
        case 1
        then show ?thesis using s that(1) by blast
      next
        case 2
        then show ?thesis using True by simp
      next
        case 3
        then have "x \<in> set q \<or> in_ranges rs x" using i that(2) by blast
        then show ?thesis using sq by auto
      qed
    qed
    moreover have "set p' = {x \<in> set pend. w' < x}" using i sq le by auto
    moreover have "in_ranges rs' x \<longleftrightarrow> in_ranges (r # rs) x \<and> w' < x" for x using i le by auto
    moreover have "suffix rs' (r # rs)" using i by (simp add: suffix_ConsI)
    ultimately show ?thesis using i le by blast
  qed
qed

section \<open>The invariant of a stream\<close>

text \<open>Against the set \<open>A\<close> of the ordinals that arrived.\<close>

definition pending :: "gap_stream \<Rightarrow> nat list" where
  "pending st = (case gs_above st of None \<Rightarrow> [] | Some a \<Rightarrow> a)"

definition forgotten_at :: "gap_stream \<Rightarrow> nat \<Rightarrow> bool" where
  "forgotten_at st x \<longleftrightarrow> (case gs_floor st of None \<Rightarrow> False | Some f \<Rightarrow> f \<le> x)"

definition shape_ok :: "gap_stream \<Rightarrow> bool" where
  "shape_ok st \<longleftrightarrow> distinct (pending st) \<and> ranges_ok (gs_ranges st) \<and> (\<forall>x \<in> set (pending st). \<not> in_ranges (gs_ranges st) x) \<and>
     (\<forall>x \<in> set (pending st). gs_w st + 1 < x) \<and> (\<forall>r \<in> set (gs_ranges st). gs_w st + 1 < fst r) \<and>
     length (pending st) \<le> max_pending_above \<and> length (gs_ranges st) \<le> max_pending_above \<and>
     gs_max st = list_max (pending st) \<and> (gs_saturated st \<longleftrightarrow> gs_floor st \<noteq> None) \<and>
     (gs_above st = None \<longrightarrow> gs_ranges st = [] \<and> gs_floor st = None \<and> gs_hole st = 0) \<and>
     (gs_above st \<noteq> None \<longrightarrow> pending st \<noteq> [] \<or> gs_ranges st \<noteq> [])"

definition cover_ok :: "nat set \<Rightarrow> gap_stream \<Rightarrow> bool" where
  "cover_ok A st \<longleftrightarrow> (\<forall>a \<in> A. a \<le> gs_hi st) \<and> gs_w st \<le> gs_hi st \<and> (gs_hi st \<in> A \<or> gs_hi st = gs_w st) \<and>
     (\<forall>a \<in> A. gs_w st < a \<longrightarrow> a \<in> set (pending st) \<or> in_ranges (gs_ranges st) a \<or> forgotten_at st a) \<and>
     (\<forall>x. x \<in> set (pending st) \<or> in_ranges (gs_ranges st) x \<longrightarrow> x \<in> A)"

definition stream_ok :: "nat set \<Rightarrow> gap_stream \<Rightarrow> bool" where
  "stream_ok A st \<longleftrightarrow> shape_ok st \<and> cover_ok A st"

lemma list_max_props:
  "list_max xs = Some m \<Longrightarrow> m \<in> set xs \<and> (\<forall>x \<in> set xs. x \<le> m)"
  "list_max xs = None \<longleftrightarrow> xs = []"
proof -
  have "xs \<noteq> [] \<Longrightarrow> foldr max xs 0 \<in> set xs \<and> (\<forall>x \<in> set xs. x \<le> foldr max xs 0)" for xs :: "nat list"
  proof (induction xs)
    case (Cons x xs)
    then show ?case by (cases "xs = []") (auto simp: max_def)
  qed simp
  then show "list_max xs = Some m \<Longrightarrow> m \<in> set xs \<and> (\<forall>x \<in> set xs. x \<le> m)"
    by (auto simp: list_max_def split: if_splits)
qed (simp add: list_max_def)

lemma list_max_eqI: "m \<in> set xs \<Longrightarrow> \<forall>x \<in> set xs. x \<le> m \<Longrightarrow> list_max xs = Some m"
  using list_max_props [of xs] by (cases "list_max xs") (auto intro: antisym)

lemma list_max_snoc: "list_max (xs @ [x]) = Some (case list_max xs of None \<Rightarrow> x | Some m \<Rightarrow> max m x)"
proof (cases "list_max xs")
  case None
  then show ?thesis using list_max_props(2) [of xs] by (simp add: list_max_def)
next
  case (Some m)
  then show ?thesis using list_max_props(1) [of xs m] by (auto intro!: list_max_eqI simp: max_def intro: order_trans)
qed

lemma list_max_filter_gt:
  "list_max (filter P xs) = (if filter P xs = [] then None else list_max xs)" if "\<And>x y. x \<in> set xs \<Longrightarrow> P x \<Longrightarrow> x \<le> y \<Longrightarrow> P y"
proof (cases "filter P xs = []")
  case True
  then show ?thesis by (simp add: list_max_def)
next
  case False
  then have "xs \<noteq> []" by auto
  then obtain m where m: "list_max xs = Some m" using list_max_props(2) [of xs] by (cases "list_max xs") auto
  obtain x where "x \<in> set xs" "P x" using False by (auto simp: filter_empty_conv)
  then have "P m" using that list_max_props(1) [OF m] by blast
  then have "list_max (filter P xs) = Some m" using list_max_props(1) [OF m] by (intro list_max_eqI) auto
  then show ?thesis using False m by simp
qed

lemma list_max_cong: "set xs = set ys \<Longrightarrow> list_max xs = list_max ys"
proof -
  assume e: "set xs = set ys"
  show ?thesis
  proof (cases "list_max xs")
    case None
    then have "ys = []" using e list_max_props(2) [of xs] by simp
    then show ?thesis using None by (simp add: list_max_def)
  next
    case (Some m)
    then show ?thesis using list_max_props(1) [OF Some] e list_max_eqI [of m ys] by simp
  qed
qed

lemma clean_stream_ok:
  assumes "\<forall>a \<in> A. a \<le> gs_hi st"
  shows "stream_ok A (clean_stream st)"
  using assms by (auto simp: stream_ok_def shape_ok_def cover_ok_def clean_stream_def pending_def list_max_def)

lemma first_sighting_ok: "stream_ok {ord} (first_sighting ord birth attached now)"
  by (auto simp: stream_ok_def shape_ok_def cover_ok_def first_sighting_def pending_def list_max_def max_pending_above_def)

lemma stream_okD:
  assumes "stream_ok A st"
  shows "distinct (pending st)" "ranges_ok (gs_ranges st)" "\<forall>x \<in> set (pending st). \<not> in_ranges (gs_ranges st) x"
    "\<forall>x \<in> set (pending st). gs_w st + 1 < x" "\<forall>r \<in> set (gs_ranges st). gs_w st + 1 < fst r"
    "length (pending st) \<le> max_pending_above" "length (gs_ranges st) \<le> max_pending_above"
    "gs_max st = list_max (pending st)" "gs_saturated st \<longleftrightarrow> gs_floor st \<noteq> None"
    "gs_above st = None \<Longrightarrow> gs_ranges st = [] \<and> gs_floor st = None \<and> gs_hole st = 0"
    "gs_above st \<noteq> None \<Longrightarrow> pending st \<noteq> [] \<or> gs_ranges st \<noteq> []"
    "\<forall>a \<in> A. a \<le> gs_hi st" "gs_w st \<le> gs_hi st" "gs_hi st \<in> A \<or> gs_hi st = gs_w st"
    "\<forall>a \<in> A. gs_w st < a \<longrightarrow> a \<in> set (pending st) \<or> in_ranges (gs_ranges st) a \<or> forgotten_at st a"
    "\<forall>x. x \<in> set (pending st) \<or> in_ranges (gs_ranges st) x \<longrightarrow> x \<in> A"
  using assms by (simp_all add: stream_ok_def shape_ok_def cover_ok_def)

lemma stream_okI:
  assumes "distinct (pending st)" "ranges_ok (gs_ranges st)" "\<forall>x \<in> set (pending st). \<not> in_ranges (gs_ranges st) x"
    "\<forall>x \<in> set (pending st). gs_w st + 1 < x" "\<forall>r \<in> set (gs_ranges st). gs_w st + 1 < fst r"
    "length (pending st) \<le> max_pending_above" "length (gs_ranges st) \<le> max_pending_above"
    "gs_max st = list_max (pending st)" "gs_saturated st \<longleftrightarrow> gs_floor st \<noteq> None"
    "gs_above st = None \<Longrightarrow> gs_ranges st = [] \<and> gs_floor st = None \<and> gs_hole st = 0"
    "gs_above st \<noteq> None \<Longrightarrow> pending st \<noteq> [] \<or> gs_ranges st \<noteq> []"
    "\<forall>a \<in> A. a \<le> gs_hi st" "gs_w st \<le> gs_hi st" "gs_hi st \<in> A \<or> gs_hi st = gs_w st"
    "\<forall>a \<in> A. gs_w st < a \<longrightarrow> a \<in> set (pending st) \<or> in_ranges (gs_ranges st) a \<or> forgotten_at st a"
    "\<forall>x. x \<in> set (pending st) \<or> in_ranges (gs_ranges st) x \<longrightarrow> x \<in> A"
  shows "stream_ok A st"
  using assms by (simp add: stream_ok_def shape_ok_def cover_ok_def)

lemma suffix_ranges_ok: "suffix rs' rs \<Longrightarrow> ranges_ok rs \<Longrightarrow> ranges_ok rs'"
  by (auto simp: suffix_def)

lemma suffix_length: "suffix rs' rs \<Longrightarrow> length rs \<le> n \<Longrightarrow> length rs' \<le> n"
  using suffix_length_le by fastforce

lemma record_next_ok:
  assumes ok: "stream_ok A st" and h: "h = max (gs_hi st) (gs_w st + 1)"
  shows "stream_ok (insert (gs_w st + 1) A) (record_next now (st\<lparr>gs_hi := h\<rparr>)) \<and>
    (\<not> gs_saturated st \<longrightarrow> (\<forall>x. gs_w st < x \<and> x \<le> gs_w (record_next now (st\<lparr>gs_hi := h\<rparr>)) \<longrightarrow> x \<in> insert (gs_w st + 1) A))"
proof (cases "gs_above st")
  case None
  then have p: "pending st = []" "gs_ranges st = []" "gs_floor st = None" using stream_okD(10) [OF ok] by (simp_all add: pending_def)
  have r: "record_next now (st\<lparr>gs_hi := h\<rparr>) = st\<lparr>gs_hi := h, gs_w := gs_w st + 1\<rparr>"
    by (cases st) (use None in \<open>simp add: record_next_def\<close>)
  have le: "a \<le> gs_w st" if "a \<in> A" for a using stream_okD(15) [OF ok] that p by (force simp: forgotten_at_def)
  have "stream_ok (insert (gs_w st + 1) A) (st\<lparr>gs_hi := h, gs_w := gs_w st + 1\<rparr>)"
    using stream_okD(8-14) [OF ok] p None h
    by (intro stream_okI) (auto simp: pending_def max_pending_above_def list_max_def forgotten_at_def le_Suc_eq dest: le)
  then show ?thesis unfolding r by auto
next
  case (Some pend)
  then have pd: "pending st = pend" by (simp add: pending_def)
  note d = stream_okD [OF ok, unfolded pd]
  obtain w' p' rs' where dr: "drain_above (gs_w st + 1) pend (gs_ranges st) = (w', p', rs')" by (metis surj_pair)
  have "\<forall>x \<in> set pend. gs_w st + 1 < x" "\<forall>r \<in> set (gs_ranges st). gs_w st + 1 < fst r" using d(4,5) by simp_all
  note sp = drain_above_spec [OF d(1) this(1) d(2) this(2) d(3) dr]
  have covered: "x \<in> insert (gs_w st + 1) A" if "gs_w st < x" "x \<le> w'" for x
  proof (cases "x = gs_w st + 1")
    case False
    then have "gs_w st + 1 < x" using that(1) by simp
    then show ?thesis using sp d(16) that(2) by blast
  qed simp
  have wh: "w' \<le> h" using sp covered [of w'] d(12) by (auto simp: h le_max_iff_disj)
  have hiA: "\<forall>a \<in> insert (gs_w st + 1) A. a \<le> h" using d(12) by (auto simp: h le_max_iff_disj)
  show ?thesis
  proof (cases "p' = [] \<and> rs' = []")
    case True
    let ?v = "st\<lparr>gs_hi := h, gs_w := gs_w st + 1\<rparr>"
    have r: "record_next now (st\<lparr>gs_hi := h\<rparr>) = clean_stream ?v"
      using Some True dr by (cases st) (simp add: record_next_def)
    have "x \<in> insert (gs_w st + 1) A" if "\<not> gs_saturated st" "gs_w st < x" "x \<le> h" for x
    proof -
      have "gs_floor st = None" using that(1) d(9) by simp
      then have "gs_hi st \<le> w'"
        using d(14,15) sp True by (cases "gs_w st < gs_hi st") (force simp: forgotten_at_def)+
      then have "x \<le> w'" using that(3) conjunct1 [OF sp] by (simp add: h max_def split: if_splits)
      then show ?thesis using covered that(2) by blast
    qed
    then show ?thesis using clean_stream_ok [of _ ?v] hiA by (simp add: r) (simp add: clean_stream_def)
  next
    case False
    define v where "v = record_next now (st\<lparr>gs_hi := h\<rparr>)"
    have v: "gs_w v = w'" "gs_hi v = h" "gs_above v = Some p'" "gs_ranges v = rs'" "gs_saturated v = gs_saturated st"
      "gs_floor v = gs_floor st" "gs_max v = (if p' = [] then None else gs_max st)" "pending v = p'"
      using Some False dr by (auto simp: v_def record_next_def pending_def)
    have "list_max p' = list_max (filter (\<lambda>x. w' < x) pend)" using sp by (intro list_max_cong) auto
    also have "\<dots> = (if filter (\<lambda>x. w' < x) pend = [] then None else list_max pend)" by (rule list_max_filter_gt) simp
    also have "filter (\<lambda>x. w' < x) pend = [] \<longleftrightarrow> p' = []" using sp by (auto simp: filter_empty_conv simp flip: set_empty)
    finally have mx: "list_max p' = (if p' = [] then None else list_max pend)" .
    have len: "length p' \<le> length pend" using sp d(1) by (metis (no_types, lifting) card_mono distinct_card finite_set mem_Collect_eq subsetI)
    have "stream_ok (insert (gs_w st + 1) A) v"
    proof (rule stream_okI, unfold v)
      show "distinct p'" using sp by blast
      show "ranges_ok rs'" using sp suffix_ranges_ok d(2) by blast
      show "\<forall>x \<in> set p'. \<not> in_ranges rs' x" using sp d(3) by auto
      show "\<forall>x \<in> set p'. w' + 1 < x" "\<forall>r \<in> set rs'. w' + 1 < fst r" using sp by blast+
      show "length p' \<le> max_pending_above" using len d(6) by simp
      show "length rs' \<le> max_pending_above" using sp suffix_length d(7) by blast
      show "(if p' = [] then None else gs_max st) = list_max p'" by (simp add: mx d(8))
      show "gs_saturated st \<longleftrightarrow> gs_floor st \<noteq> None" by (rule d(9))
      show "Some p' = None \<Longrightarrow> rs' = [] \<and> gs_floor st = None \<and> gs_hole v = 0" by simp
      show "p' \<noteq> [] \<or> rs' \<noteq> []" using False by blast
      show "\<forall>a \<in> insert (gs_w st + 1) A. a \<le> h" by (rule hiA)
      show "w' \<le> h" by (rule wh)
      show "h \<in> insert (gs_w st + 1) A \<or> h = w'" using d(13,14) by (auto simp: h max_def)
      have "x \<in> set p' \<or> in_ranges rs' x \<or> forgotten_at st x" if "x \<in> A" "w' < x" for x
        using d(15) sp that by auto
      then show "\<forall>a \<in> insert (gs_w st + 1) A. w' < a \<longrightarrow> a \<in> set p' \<or> in_ranges rs' a \<or> forgotten_at v a"
        using sp by (auto simp: forgotten_at_def v)
      show "\<forall>x. x \<in> set p' \<or> in_ranges rs' x \<longrightarrow> x \<in> insert (gs_w st + 1) A" using sp d(16) by auto
    qed
    then show ?thesis using covered v(1) by (auto simp flip: v_def)
  qed
qed

lemma note_forgotten_sel [simp]:
  "gs_w (note_forgotten f st) = gs_w st" "gs_hi (note_forgotten f st) = gs_hi st" "gs_above (note_forgotten f st) = gs_above st"
  "gs_max (note_forgotten f st) = gs_max st" "gs_ranges (note_forgotten f st) = gs_ranges st" "gs_hole (note_forgotten f st) = gs_hole st"
  "pending (note_forgotten f st) = pending st"
  "forgotten_at (note_forgotten f st) x \<longleftrightarrow> forgotten_at st x \<or> (f \<noteq> 0 \<and> f \<le> x)"
  by (auto simp: note_forgotten_def pending_def forgotten_at_def split: option.split)

lemma forgotten_at_upd [simp]:
  "forgotten_at (st\<lparr>gs_above := a\<rparr>) x \<longleftrightarrow> forgotten_at st x" "forgotten_at (st\<lparr>gs_max := b\<rparr>) x \<longleftrightarrow> forgotten_at st x"
  "forgotten_at (st\<lparr>gs_ranges := c\<rparr>) x \<longleftrightarrow> forgotten_at st x"
  by (simp_all add: forgotten_at_def)

lemma note_forgotten_sat:
  "(gs_saturated st \<longleftrightarrow> gs_floor st \<noteq> None) \<Longrightarrow> (gs_saturated (note_forgotten f st) \<longleftrightarrow> gs_floor (note_forgotten f st) \<noteq> None)"
  by (simp add: note_forgotten_def)

lemma open_hole_sel:
  assumes "stream_ok A st"
  shows "gs_w (open_hole now st) = gs_w st" "gs_hi (open_hole now (st\<lparr>gs_hi := h\<rparr>)) = h" "pending (open_hole now st) = pending st"
    "gs_max (open_hole now st) = gs_max st" "gs_ranges (open_hole now st) = gs_ranges st" "gs_saturated (open_hole now st) = gs_saturated st"
    "gs_floor (open_hole now st) = gs_floor st" "gs_above (open_hole now st) = Some (pending st)"
    "open_hole now (st\<lparr>gs_hi := h\<rparr>) = (open_hole now st)\<lparr>gs_hi := h\<rparr>"
  using stream_okD(8-10) [OF assms] by (auto simp: open_hole_def pending_def list_max_def Let_def split: option.split)

lemma record_ahead_ok:
  assumes ok: "stream_ok A st" and ahead: "gs_w st + 1 < ord" and h: "h = max (gs_hi st) ord"
  shows "stream_ok (insert ord A) (record_ahead ord now (st\<lparr>gs_hi := h\<rparr>)) \<and>
    gs_w (record_ahead ord now (st\<lparr>gs_hi := h\<rparr>)) = gs_w st"
proof -
  note d = stream_okD [OF ok] and o = open_hole_sel [OF ok]
  define v where "v = (open_hole now st)\<lparr>gs_hi := h\<rparr>"
  have v: "gs_w v = gs_w st" "gs_hi v = h" "gs_above v = Some (pending st)" "gs_max v = list_max (pending st)" "gs_ranges v = gs_ranges st"
    "gs_saturated v = gs_saturated st" "gs_floor v = gs_floor st" "pending v = pending st"
    using o d(8) by (simp_all add: v_def pending_def)
  have fv: "forgotten_at v x \<longleftrightarrow> forgotten_at st x" for x by (simp add: forgotten_at_def v)
  have hi: "\<forall>a \<in> insert ord A. a \<le> h" "gs_w st \<le> h" "h \<in> insert ord A \<or> h = gs_w st"
    using d(12-14) ahead by (auto simp: h max_def)
  have pos: "0 < ord" "\<forall>r \<in> set (gs_ranges st). 0 < fst r" using ahead d(5) by auto
  have unf: "record_ahead ord now (st\<lparr>gs_hi := h\<rparr>) =
     (if ord \<in> set (pending st) \<or> in_ranges (gs_ranges st) ord then v
      else if length (pending st) < max_pending_above
      then v\<lparr>gs_above := Some (pending st @ [ord]), gs_max := list_max (pending st @ [ord])\<rparr>
      else case list_max (pending st) of
        Some m \<Rightarrow>
          if ord < m
          then (case retain_above_range (gs_ranges st) m of (ranges, forgot) \<Rightarrow>
                  note_forgotten forgot (v\<lparr>gs_above := Some (remove1 m (pending st) @ [ord]),
                    gs_max := list_max (remove1 m (pending st) @ [ord]), gs_ranges := ranges\<rparr>))
          else (case retain_above_range (gs_ranges st) ord of (ranges, forgot) \<Rightarrow> note_forgotten forgot (v\<lparr>gs_ranges := ranges\<rparr>))
      | None \<Rightarrow> (case retain_above_range (gs_ranges st) ord of (ranges, forgot) \<Rightarrow> note_forgotten forgot (v\<lparr>gs_ranges := ranges\<rparr>)))"
    unfolding record_ahead_def Let_def o(9) v_def [symmetric]
    by (cases "list_max (pending st)") (simp_all add: v contain_in_ranges [OF d(2)] list_max_snoc)
  have start: "gs_w st + 1 < fst r" if "ranges_ok rs'" "\<forall>x. in_ranges rs' x \<longrightarrow> in_ranges (gs_ranges st) x \<or> x = n" "gs_w st + 1 < n"
      "r \<in> set rs'" for rs' n r
  proof -
    have "in_ranges (gs_ranges st) (fst r) \<or> fst r = n" using range_start_in [OF that(1,4)] that(2) by blast
    moreover have "gs_w st + 1 < x" if "in_ranges (gs_ranges st) x" for x using that d(5) by (fastforce simp: in_ranges_def)
    ultimately show ?thesis using that(3) by auto
  qed
  consider (known) "ord \<in> set (pending st) \<or> in_ranges (gs_ranges st) ord"
    | (room) "ord \<notin> set (pending st)" "\<not> in_ranges (gs_ranges st) ord" "length (pending st) < max_pending_above"
    | (evict) m where "ord \<notin> set (pending st)" "\<not> in_ranges (gs_ranges st) ord" "\<not> length (pending st) < max_pending_above"
        "list_max (pending st) = Some m" "ord < m"
    | (compact) m where "ord \<notin> set (pending st)" "\<not> in_ranges (gs_ranges st) ord" "\<not> length (pending st) < max_pending_above"
        "list_max (pending st) = Some m" "\<not> ord < m"
    using list_max_props(2) [of "pending st"]
    by (cases "list_max (pending st)") (fastforce simp: max_pending_above_def)+
  then show ?thesis
  proof cases
    case known
    then have r: "record_ahead ord now (st\<lparr>gs_hi := h\<rparr>) = v" by (simp add: unf)
    have "ord \<in> A" using known d(16) by blast
    then have "stream_ok (insert ord A) v"
      using d(1-9,15,16) hi known fv by (intro stream_okI) (auto simp: v)
    then show ?thesis by (simp add: r v)
  next
    case room
    let ?u = "v\<lparr>gs_above := Some (pending st @ [ord]), gs_max := list_max (pending st @ [ord])\<rparr>"
    have r: "record_ahead ord now (st\<lparr>gs_hi := h\<rparr>) = ?u" using room by (simp add: unf)
    have "stream_ok (insert ord A) ?u"
      using d(1-9,15,16) hi room fv ahead by (intro stream_okI) (auto simp: v pending_def forgotten_at_def)
    then show ?thesis by (simp add: r v)
  next
    case (evict m)
    obtain rs' f where rt: "retain_above_range (gs_ranges st) m = (rs', f)" by fastforce
    have m: "m \<in> set (pending st)" using list_max_props(1) [OF evict(4)] by simp
    have mw: "gs_w st + 1 < m" using ahead evict(5) by simp
    have ret: "retained (gs_ranges st) m rs' f"
      using retain_above_range_retained [OF d(2), of m] pos(2) mw rt by simp
    let ?k = "remove1 m (pending st) @ [ord]"
    let ?u = "note_forgotten f (v\<lparr>gs_above := Some ?k, gs_max := list_max ?k, gs_ranges := rs'\<rparr>)"
    have r: "record_ahead ord now (st\<lparr>gs_hi := h\<rparr>) = ?u" using evict rt by (simp add: unf)
    have pu: "pending ?u = ?k" by (simp add: pending_def)
    have ks: "set ?k = insert ord (set (pending st) - {m})" "distinct ?k" using d(1) evict(1) by auto
    have len: "length ?k = length (pending st)" using m by (simp add: length_remove1) (metis Suc_pred length_pos_if_in_set)
    have dis: "\<not> in_ranges rs' x" if "x \<in> set ?k" for x
      using ret ks d(3) evict(2,5) that unfolding retained_def by auto
    have "stream_ok (insert ord A) ?u"
    proof (rule stream_okI, unfold pu)
      show "gs_saturated ?u \<longleftrightarrow> gs_floor ?u \<noteq> None" by (rule note_forgotten_sat) (simp add: v d(9))
      show "\<forall>x \<in> set ?k. gs_w ?u + 1 < x" using ks(1) d(4) ahead by (auto simp: v)
      show "\<forall>r \<in> set (gs_ranges ?u). gs_w ?u + 1 < fst r" using start [of rs' m] ret mw by (simp add: retained_def v)
      show "length ?k \<le> max_pending_above" using len d(6) by simp
      show "length (gs_ranges ?u) \<le> max_pending_above" using ret d(7) by (simp add: retained_def)
      show "\<forall>a \<in> insert ord A. gs_w ?u < a \<longrightarrow> a \<in> set ?k \<or> in_ranges (gs_ranges ?u) a \<or> forgotten_at ?u a"
      proof (intro ballI impI)
        fix a assume a: "a \<in> insert ord A" "gs_w ?u < a"
        then have "a = ord \<or> a \<in> set (pending st) \<or> in_ranges (gs_ranges st) a \<or> forgotten_at st a" using d(15) by (auto simp: v)
        moreover have "in_ranges (gs_ranges st) x \<or> x = m \<longrightarrow> in_ranges rs' x \<or> f \<noteq> 0 \<and> f \<le> x" for x
          using ret by (simp add: retained_def)
        ultimately show "a \<in> set ?k \<or> in_ranges (gs_ranges ?u) a \<or> forgotten_at ?u a"
          using ks(1) fv by auto
      qed
      show "\<forall>x. x \<in> set ?k \<or> in_ranges (gs_ranges ?u) x \<longrightarrow> x \<in> insert ord A"
        using ks(1) ret d(16) m by (auto simp: retained_def)
    qed (use ks dis ret hi in \<open>simp_all add: retained_def v\<close>)
    then show ?thesis by (simp add: r v)
  next
    case (compact m)
    obtain rs' f where rt: "retain_above_range (gs_ranges st) ord = (rs', f)" by fastforce
    have ret: "retained (gs_ranges st) ord rs' f"
      using retain_above_range_retained [OF d(2) pos] rt by simp
    let ?u = "note_forgotten f (v\<lparr>gs_ranges := rs'\<rparr>)"
    have r: "record_ahead ord now (st\<lparr>gs_hi := h\<rparr>) = ?u" using compact rt by (simp add: unf)
    have pu: "pending ?u = pending st" using v(8) by (simp add: pending_def v)
    have ne: "pending st \<noteq> []" using compact(4) by (auto simp: list_max_def)
    have "stream_ok (insert ord A) ?u"
    proof (rule stream_okI, unfold pu)
      show "gs_saturated ?u \<longleftrightarrow> gs_floor ?u \<noteq> None" by (rule note_forgotten_sat) (simp add: v d(9))
      show "\<forall>x \<in> set (pending st). \<not> in_ranges (gs_ranges ?u) x" using ret d(3) compact(1) by (auto simp: retained_def)
      show "\<forall>r \<in> set (gs_ranges ?u). gs_w ?u + 1 < fst r" using start [of rs' ord] ret ahead by (simp add: retained_def v)
      show "length (gs_ranges ?u) \<le> max_pending_above" using ret d(7) by (simp add: retained_def)
      show "\<forall>a \<in> insert ord A. gs_w ?u < a \<longrightarrow> a \<in> set (pending st) \<or> in_ranges (gs_ranges ?u) a \<or> forgotten_at ?u a"
      proof (intro ballI impI)
        fix a assume a: "a \<in> insert ord A" "gs_w ?u < a"
        then have "a = ord \<or> a \<in> set (pending st) \<or> in_ranges (gs_ranges st) a \<or> forgotten_at st a" using d(15) by (auto simp: v)
        moreover have "in_ranges (gs_ranges st) x \<or> x = ord \<longrightarrow> in_ranges rs' x \<or> f \<noteq> 0 \<and> f \<le> x" for x
          using ret by (simp add: retained_def)
        ultimately show "a \<in> set (pending st) \<or> in_ranges (gs_ranges ?u) a \<or> forgotten_at ?u a"
          using fv by auto
      qed
      show "\<forall>x. x \<in> set (pending st) \<or> in_ranges (gs_ranges ?u) x \<longrightarrow> x \<in> insert ord A"
        using ret d(16) by (auto simp: retained_def)
    qed (use d ret hi ne in \<open>simp_all add: retained_def v\<close>)
    then show ?thesis by (simp add: r v)
  qed
qed

text \<open>One arrival keeps the invariant, and while nothing is forgotten the watermark passes only
  ordinals that arrived.\<close>

lemma record_known_ok:
  assumes ok: "stream_ok A st"
  shows "stream_ok (insert ord A) (record_known ord now st) \<and>
    (\<not> gs_saturated st \<longrightarrow> (\<forall>x. gs_w st < x \<and> x \<le> gs_w (record_known ord now st) \<longrightarrow> x \<in> insert ord A))"
proof -
  have st1: "(if gs_hi st < ord then st\<lparr>gs_hi := ord\<rparr> else st) = st\<lparr>gs_hi := max (gs_hi st) ord\<rparr>"
    by (cases st) (auto simp: max_def)
  note unf = record_known_def Let_def st1
  consider "ord \<le> gs_w st" | "ord = gs_w st + 1" | "gs_w st + 1 < ord" by linarith
  then show ?thesis
  proof cases
    case 1
    then have "max (gs_hi st) ord = gs_hi st" using stream_okD(13) [OF ok] by simp
    then have r: "record_known ord now st = st" using 1 unfolding unf by (cases st) simp
    have "stream_ok (insert ord A) st"
      using stream_okD [OF ok] 1 by (intro stream_okI) auto
    then show ?thesis by (simp add: r)
  next
    case 2
    have r: "record_known ord now st = record_next now (st\<lparr>gs_hi := max (gs_hi st) ord\<rparr>)"
      unfolding unf using 2 by simp
    show ?thesis unfolding r by (rule record_next_ok [OF ok refl, of now, folded 2])
  next
    case 3
    have r: "record_known ord now st = record_ahead ord now (st\<lparr>gs_hi := max (gs_hi st) ord\<rparr>)"
      unfolding unf using 3 by simp
    show ?thesis using record_ahead_ok [OF ok 3 refl] by (simp add: r)
  qed
qed

section \<open>Reports\<close>

definition items_ok :: "(nat \<times> nat) list \<Rightarrow> bool" where
  "items_ok is \<longleftrightarrow> sorted_wrt (\<lambda>i j. snd i < fst j) is \<and> (\<forall>i \<in> set is. fst i \<le> snd i)"

lemma merge_items_set: "set (merge_items exact rs) = (\<lambda>e. (e, e)) ` set exact \<union> set rs"
  by (induction exact rs rule: merge_items.induct) auto

lemma merge_items_ok:
  "sorted_wrt (<) exact \<Longrightarrow> ranges_ok rs \<Longrightarrow> \<forall>e \<in> set exact. \<not> in_ranges rs e \<Longrightarrow> items_ok (merge_items exact rs)"
proof (induction exact rs rule: merge_items.induct)
  case (1 rs)
  then show ?case by (auto simp: items_ok_def ranges_ok_def intro: sorted_wrt_mono_rel [rotated])
next
  case (2 e es)
  then show ?case by (auto simp: items_ok_def merge_items_set)
next
  case (3 e es r rs)
  show ?case
  proof (cases "e < fst r")
    case True
    have "items_ok (merge_items es (r # rs))" using 3 True by simp
    then show ?thesis using 3(3,4) True by (fastforce simp: items_ok_def merge_items_set)
  next
    case False
    have "items_ok (merge_items (e # es) rs)" using 3 False by simp
    moreover have "snd r < e" using False 3(5) by auto
    ultimately show ?thesis using 3(3,4) False by (fastforce simp: items_ok_def merge_items_set)
  qed
qed

lemma extend_run_spec:
  "items_ok is \<Longrightarrow> \<forall>i \<in> set is. e < fst i \<Longrightarrow>
     e \<le> extend_run e is \<and> (\<forall>x. e < x \<and> x \<le> extend_run e is \<longrightarrow> in_ranges is x) \<and>
     (\<forall>i \<in> set is. snd i \<le> extend_run e is \<or> extend_run e is + 1 < fst i)"
proof (induction "is" arbitrary: e)
  case (Cons i "is")
  have ok: "items_ok is" "fst i \<le> snd i" "\<forall>j \<in> set is. snd i < fst j" using Cons.prems(1) by (auto simp: items_ok_def)
  show ?case
  proof (cases "fst i \<le> e + 1")
    case True
    then have f: "fst i = e + 1" using Cons.prems(2) by simp
    have "extend_run e (i # is) = extend_run (snd i) is" using True ok(2) f by simp
    then show ?thesis using Cons.IH [OF ok(1,3)] f ok(2) by auto (metis not_le)
  next
    case False
    then have "extend_run e (i # is) = e" by simp
    then show ?thesis using False ok by fastforce
  qed
qed simp

lemma first_run_spec:
  assumes "first_run (sort pend) rs = Some (a, b)" and d: "distinct pend" "ranges_ok rs" "\<forall>x \<in> set pend. \<not> in_ranges rs x"
  shows "a \<le> b \<and> (\<forall>x. x \<in> set pend \<or> in_ranges rs x \<longrightarrow> a \<le> x) \<and> (\<forall>x. a \<le> x \<and> x \<le> b \<longrightarrow> x \<in> set pend \<or> in_ranges rs x) \<and>
    (\<forall>x \<in> set pend. x \<le> b \<or> b + 1 < x) \<and> (\<forall>r \<in> set rs. snd r \<le> b \<or> b + 1 < fst r) \<and>
    (a \<in> set pend \<or> (\<exists>r \<in> set rs. fst r = a))"
proof -
  have "sorted_wrt (<) (sort pend)" using d(1) by (simp add: strict_sorted_iff)
  then have ok: "items_ok (merge_items (sort pend) rs)" using merge_items_ok [of "sort pend" rs] d by simp
  obtain i "is" where i: "merge_items (sort pend) rs = i # is" "a = fst i" "b = extend_run (snd i) is"
    using assms(1) by (auto simp: first_run_def split: list.splits)
  have oi: "items_ok is" "fst i \<le> snd i" "\<forall>j \<in> set is. snd i < fst j" using ok by (auto simp: i items_ok_def)
  note e = extend_run_spec [OF oi(1,3), folded i(3)]
  have mem: "set (i # is) = (\<lambda>e. (e, e)) ` set pend \<union> set rs" using merge_items_set [of "sort pend" rs] i(1) by simp
  have inm: "in_ranges (i # is) x \<longleftrightarrow> x \<in> set pend \<or> in_ranges rs x" for x
    unfolding in_ranges_def mem bex_Un bex_simps by auto
  have low: "a \<le> x" if "in_ranges (i # is) x" for x using that oi i(2) by (fastforce simp: in_ranges_def)
  have cov: "in_ranges (i # is) x" if "a \<le> x" "x \<le> b" for x
    using that e i(2) by (cases "x \<le> snd i") auto
  have sep: "snd j \<le> b \<or> b + 1 < fst j" if "j \<in> set (i # is)" for j using that e by auto
  have "x \<le> b \<or> b + 1 < x" if "x \<in> set pend" for x using sep [of "(x, x)"] that mem by auto
  moreover have "snd r \<le> b \<or> b + 1 < fst r" if "r \<in> set rs" for r using sep [of r] that mem by auto
  moreover have "a \<in> set pend \<or> (\<exists>r \<in> set rs. fst r = a)"
  proof -
    have "i \<in> (\<lambda>e. (e, e)) ` set pend \<union> set rs" using mem by auto
    then show ?thesis using i(2) by auto
  qed
  ultimately show ?thesis using low cov inm e oi(2) i(2) by (meson le_trans)
qed

lemma first_run_None: "first_run (sort pend) rs = None \<longleftrightarrow> pend = [] \<and> rs = []"
proof -
  have "merge_items (sort pend) rs = [] \<longleftrightarrow> pend = [] \<and> rs = []"
    using merge_items_set [of "sort pend" rs] by (auto simp flip: set_empty)
  then show ?thesis by (auto simp: first_run_def split: list.split)
qed

lemma dropWhile_ranges:
  "ranges_ok rs \<Longrightarrow> \<forall>r \<in> set rs. snd r \<le> b \<or> b + 1 < fst r \<Longrightarrow>
     dropWhile (\<lambda>r. snd r \<le> b) rs = filter (\<lambda>r. b + 1 < fst r) rs"
proof (induction rs)
  case (Cons r rs)
  show ?case
  proof (cases "snd r \<le> b")
    case True
    then show ?thesis using Cons by auto
  next
    case False
    then have "b + 1 < fst s" if "s \<in> set (r # rs)" for s using Cons.prems that by fastforce
    then show ?thesis using False Cons.prems by (auto simp: filter_id_conv)
  qed
qed simp

definition reported :: "(nat \<times> nat) option \<Rightarrow> nat \<Rightarrow> bool" where
  "reported gap x \<longleftrightarrow> (case gap of None \<Rightarrow> False | Some (a, b) \<Rightarrow> a \<le> x \<and> x \<le> b)"

lemma list_min_props: "list_min xs = Some m \<Longrightarrow> m \<in> set xs \<and> (\<forall>x \<in> set xs. m \<le> x)"
proof -
  have f: "foldr min xs x \<in> insert x (set xs) \<and> (\<forall>y \<in> insert x (set xs). foldr min xs x \<le> y)" for xs and x :: nat
    by (induction xs) (auto simp: min_def)
  show "list_min xs = Some m \<Longrightarrow> m \<in> set xs \<and> (\<forall>x \<in> set xs. m \<le> x)"
    using f by (cases xs) (auto simp: list_min_def)
qed

lemma take_saturated_ok:
  assumes ok: "stream_ok A st"
  shows "(\<forall>x. reported (fst (take_saturated st)) x \<longrightarrow> gs_w st < x \<and> x \<notin> A) \<and> stream_ok A (snd (take_saturated st))"
proof -
  note d = stream_okD [OF ok]
  let ?l = "pending st @ map fst (take 1 (gs_ranges st)) @ (case gs_floor st of None \<Rightarrow> [] | Some f \<Rightarrow> [f])"
  have sound: "x \<notin> A" if m: "list_min ?l = Some m" and x: "gs_w st < x" "x < m" for m x
  proof
    assume "x \<in> A"
    then have "x \<in> set (pending st) \<or> in_ranges (gs_ranges st) x \<or> forgotten_at st x" using d(15) x(1) by blast
    moreover have "\<forall>y \<in> set ?l. m \<le> y" using list_min_props [OF m] by blast
    moreover have "fst (hd (gs_ranges st)) \<le> x \<and> gs_ranges st \<noteq> []" if "in_ranges (gs_ranges st) x"
      using that d(2) by (cases "gs_ranges st") (fastforce simp: in_ranges_def)+
    moreover have "fst (hd (gs_ranges st)) \<in> set ?l" if "gs_ranges st \<noteq> []" using that by (cases "gs_ranges st") auto
    moreover have "\<exists>f. gs_floor st = Some f \<and> f \<le> x \<and> f \<in> set ?l" if "forgotten_at st x"
      using that by (auto simp: forgotten_at_def split: option.splits)
    ultimately have "m \<le> x" by (metis (no_types, lifting) Un_iff le_trans set_append)
    then show False using x(2) by simp
  qed
  have unf: "take_saturated st = (case list_min ?l of None \<Rightarrow> None | Some m \<Rightarrow> if gs_w st + 1 \<le> m - 1 then Some (gs_w st + 1, m - 1) else None,
      clean_stream st)"
    unfolding take_saturated_def pending_def Let_def ..
  have "gs_w st < x \<and> x \<notin> A" if "reported (fst (take_saturated st)) x" for x
    using that sound unfolding unf by (fastforce simp: reported_def split: option.splits if_splits)
  moreover have "stream_ok A (snd (take_saturated st))" using clean_stream_ok [OF d(12)] by (simp add: unf)
  ultimately show ?thesis by blast
qed

lemma take_staged_ok:
  assumes ok: "stream_ok A st" and some: "pending st \<noteq> [] \<or> gs_ranges st \<noteq> []" and all: "\<not> gs_saturated st"
  shows "(\<forall>x. reported (fst (take_staged now st)) x \<longrightarrow> gs_w st < x \<and> x \<notin> A) \<and> stream_ok A (snd (take_staged now st)) \<and>
    fst (take_staged now st) \<noteq> None \<and> (\<exists>x. reported (fst (take_staged now st)) x) \<and>
    (\<forall>x. gs_w st < x \<and> x \<le> gs_w (snd (take_staged now st)) \<longrightarrow> x \<in> A \<or> reported (fst (take_staged now st)) x)"
proof -
  note d = stream_okD [OF ok]
  obtain a b where run: "first_run (sort (pending st)) (gs_ranges st) = Some (a, b)"
    using some first_run_None [of "pending st" "gs_ranges st"] by (cases "first_run (sort (pending st)) (gs_ranges st)") auto
  have f: "a \<le> b" "\<And>x. x \<in> set (pending st) \<or> in_ranges (gs_ranges st) x \<Longrightarrow> a \<le> x"
      "\<And>x. a \<le> x \<Longrightarrow> x \<le> b \<Longrightarrow> x \<in> set (pending st) \<or> in_ranges (gs_ranges st) x"
      "\<And>x. x \<in> set (pending st) \<Longrightarrow> x \<le> b \<or> b + 1 < x" "\<And>r. r \<in> set (gs_ranges st) \<Longrightarrow> snd r \<le> b \<or> b + 1 < fst r"
      "a \<in> set (pending st) \<or> (\<exists>r \<in> set (gs_ranges st). fst r = a)"
    using first_run_spec [OF run d(1-3)] by blast+
  define kept where "kept = filter (\<lambda>s. \<not> s \<le> b) (pending st)"
  define ranges where "ranges = dropWhile (\<lambda>r. snd r \<le> b) (gs_ranges st)"
  have rf: "ranges = filter (\<lambda>r. b + 1 < fst r) (gs_ranges st)" unfolding ranges_def using dropWhile_ranges d(2) f(5) by blast
  have inr: "in_ranges ranges x \<longleftrightarrow> in_ranges (gs_ranges st) x \<and> b < x" for x
  proof
    assume "in_ranges (gs_ranges st) x \<and> b < x"
    then obtain r where r: "r \<in> set (gs_ranges st)" "fst r \<le> x" "x \<le> snd r" "b < x" by (auto simp: in_ranges_def)
    then have "b + 1 < fst r" using f(5) [OF r(1)] by linarith
    then have "r \<in> set ranges" using r(1) by (simp add: rf)
    then show "in_ranges ranges x" using r(2,3) unfolding in_ranges_def by blast
  next
    assume "in_ranges ranges x"
    then obtain r where r: "r \<in> set ranges" "fst r \<le> x" "x \<le> snd r" unfolding in_ranges_def by blast
    then have "r \<in> set (gs_ranges st)" "b + 1 < fst r" by (simp_all add: rf)
    then show "in_ranges (gs_ranges st) x \<and> b < x" using r(2,3) unfolding in_ranges_def by auto
  qed
  define v where "v = st\<lparr>gs_w := b, gs_above := Some kept, gs_ranges := ranges, gs_max := (if kept = [] then None else gs_max st), gs_hole := now\<rparr>"
  have out: "take_staged now st = (Some (gs_w st + 1, a - 1), if kept = [] \<and> ranges = [] then clean_stream st else v)"
    using run by (simp add: take_staged_def pending_def kept_def ranges_def v_def Let_def)
  have aw: "gs_w st + 1 < a" using f(6) d(4,5) by blast
  have fl: "gs_floor st = None" using all d(9) by simp
  have inA: "x \<in> A \<and> (x \<in> set (pending st) \<or> in_ranges (gs_ranges st) x)" if "a \<le> x" "x \<le> b" for x using f(3) d(16) that by blast
  have sound: "gs_w st < x \<and> x \<notin> A" if "reported (fst (take_staged now st)) x" for x
  proof -
    have x: "gs_w st < x" "x < a" using that aw by (auto simp: out reported_def)
    have "x \<notin> A"
    proof
      assume "x \<in> A"
      then have "x \<in> set (pending st) \<or> in_ranges (gs_ranges st) x" using d(15) x(1) fl by (auto simp: forgotten_at_def)
      then show False using f(2) [of x] x(2) by simp
    qed
    then show ?thesis using x(1) by simp
  qed
  have upto: "x \<in> A \<or> reported (fst (take_staged now st)) x" if "gs_w st < x" "x \<le> b" for x
    using that inA by (cases "a \<le> x") (auto simp: out reported_def)
  have bh: "b \<le> gs_hi st" using inA [of b] f(1) d(12) by blast
  have hA: "gs_hi st \<in> A" using d(14) bh aw f(1) by auto
  have above_b: "x \<in> set kept \<or> in_ranges ranges x" if "x \<in> A" "b < x" for x
  proof -
    have "gs_w st < x" using that(2) aw f(1) by linarith
    then have "x \<in> set (pending st) \<or> in_ranges (gs_ranges st) x" using d(15) that(1) fl by (auto simp: forgotten_at_def)
    then show ?thesis using inr that(2) by (auto simp: kept_def)
  qed
  have kept_ok: "stream_ok A v" if "\<not> (kept = [] \<and> ranges = [])"
  proof (rule stream_okI)
    have pv: "pending v = kept" by (simp add: v_def pending_def)
    have vs: "gs_w v = b" "gs_hi v = gs_hi st" "gs_above v = Some kept" "gs_ranges v = ranges" "gs_saturated v = gs_saturated st"
      "gs_floor v = gs_floor st" "gs_max v = (if kept = [] then None else gs_max st)" by (simp_all add: v_def)
    show "distinct (pending v)" using d(1) by (simp add: pv kept_def)
    show "ranges_ok (gs_ranges v)" using d(2) suffix_ranges_ok [OF suffix_dropWhile] by (simp add: vs ranges_def)
    show "\<forall>x \<in> set (pending v). \<not> in_ranges (gs_ranges v) x" using d(3) inr by (simp add: pv kept_def vs)
    show "\<forall>x \<in> set (pending v). gs_w v + 1 < x" using f(4) by (auto simp: pv kept_def vs)
    show "\<forall>r \<in> set (gs_ranges v). gs_w v + 1 < fst r" by (auto simp: vs rf)
    show "length (pending v) \<le> max_pending_above" using d(6) by (simp add: pv kept_def) (meson le_trans length_filter_le)
    show "length (gs_ranges v) \<le> max_pending_above" using d(7) by (simp add: vs rf) (meson le_trans length_filter_le)
    have "list_max kept = (if kept = [] then None else list_max (pending st))"
      unfolding kept_def by (rule list_max_filter_gt) simp
    then show "gs_max v = list_max (pending v)" using d(8) by (simp add: pv vs)
    show "gs_saturated v \<longleftrightarrow> gs_floor v \<noteq> None" using d(9) by (simp add: vs)
    show "gs_above v = None \<Longrightarrow> gs_ranges v = [] \<and> gs_floor v = None \<and> gs_hole v = 0" by (simp add: vs)
    show "\<forall>x \<in> A. x \<le> gs_hi v" using d(12) by (simp add: vs)
    show "gs_w v \<le> gs_hi v" using bh by (simp add: vs)
    show "pending v \<noteq> [] \<or> gs_ranges v \<noteq> []" if "gs_above v \<noteq> None"
      using \<open>\<not> (kept = [] \<and> ranges = [])\<close> by (simp add: pv vs)
    show "gs_hi v \<in> A \<or> gs_hi v = gs_w v" using hA by (simp add: vs)
    show "\<forall>x \<in> A. gs_w v < x \<longrightarrow> x \<in> set (pending v) \<or> in_ranges (gs_ranges v) x \<or> forgotten_at v x"
      using above_b unfolding pv vs by blast
    show "\<forall>x. x \<in> set (pending v) \<or> in_ranges (gs_ranges v) x \<longrightarrow> x \<in> A"
      using d(16) inr by (auto simp: pv kept_def vs)
  qed
  have "gs_w st + 1 \<le> a - 1" using aw by linarith
  then have new: "\<exists>x. reported (fst (take_staged now st)) x"
    by (intro exI [of _ "gs_w st + 1"]) (simp add: out reported_def)
  show ?thesis
  proof (cases "kept = [] \<and> ranges = []")
    case True
    then have "gs_hi st \<le> b" using above_b [OF hA] by (auto simp: not_le [symmetric])
    then have "\<forall>x. gs_w st < x \<and> x \<le> gs_hi st \<longrightarrow> x \<in> A \<or> reported (fst (take_staged now st)) x" using upto by auto
    moreover have "snd (take_staged now st) = clean_stream st" "fst (take_staged now st) \<noteq> None" using True by (simp_all add: out)
    moreover have "gs_w (clean_stream st) = gs_hi st" by (simp add: clean_stream_def)
    ultimately show ?thesis using sound new clean_stream_ok [OF d(12)] by simp
  next
    case False
    have "snd (take_staged now st) = v" "fst (take_staged now st) \<noteq> None" "gs_w v = b"
      using False by (auto simp: out v_def)
    moreover have "stream_ok A v" by (rule kept_ok [OF False])
    ultimately show ?thesis using sound new upto by simp
  qed
qed

section \<open>Runs\<close>

datatype gap_event =
    GRecord js_string nat nat real real real
  | GTake real real

fun gap_step :: "gap_streams \<Rightarrow> gap_event \<Rightarrow> gap_streams" where
  "gap_step streams (GRecord topic origin ord birth attached now) = record_origin_stream streams topic origin ord birth attached now"
| "gap_step streams (GTake now grace) = snd (take_confirmed_gaps streams now grace)"

text \<open>What arrived of one stream, and its state.\<close>

definition arrived_at :: "js_string \<Rightarrow> nat \<Rightarrow> gap_event list \<Rightarrow> nat set" where
  "arrived_at topic origin es = {ord. \<exists>birth attached now. GRecord topic origin ord birth attached now \<in> set es}"

definition stream_at :: "gap_streams \<Rightarrow> js_string \<Rightarrow> nat \<Rightarrow> gap_stream option" where
  "stream_at streams topic origin = (case jm_get streams topic of None \<Rightarrow> None | Some m \<Rightarrow> jm_get m origin)"

definition streams_wf :: "gap_streams \<Rightarrow> bool" where
  "streams_wf streams \<longleftrightarrow> jm_wf streams \<and> (\<forall>topic m. jm_get streams topic = Some m \<longrightarrow> jm_wf m)"

definition tracked :: "gap_event list \<Rightarrow> gap_streams \<Rightarrow> bool" where
  "tracked es streams \<longleftrightarrow> streams_wf streams \<and>
     (\<forall>topic origin. case stream_at streams topic origin of
        None \<Rightarrow> arrived_at topic origin es = {}
      | Some st \<Rightarrow> stream_ok (arrived_at topic origin es) st)"

lemma stream_at_record:
  "stream_at (record_origin_stream streams topic origin ord birth attached now) t og =
     (if t = topic \<and> og = origin
      then Some (case stream_at streams topic origin of
          None \<Rightarrow> first_sighting ord birth attached now | Some st \<Rightarrow> record_known ord now st)
      else stream_at streams t og)"
  by (simp add: stream_at_def record_origin_stream_def Let_def split: option.split)

lemma streams_wf_record: "streams_wf streams \<Longrightarrow> streams_wf (record_origin_stream streams topic origin ord birth attached now)"
  by (auto simp: streams_wf_def record_origin_stream_def Let_def split: option.split)

lemma stream_at_take:
  "stream_at (snd (take_confirmed_gaps streams now grace)) t og = map_option (\<lambda>st. snd (take_stream now grace st)) (stream_at streams t og)"
  by (simp add: stream_at_def take_confirmed_gaps_def jm_get_map_value split: option.split)

lemma streams_wf_take: "streams_wf streams \<Longrightarrow> streams_wf (snd (take_confirmed_gaps streams now grace))"
  by (auto simp: streams_wf_def take_confirmed_gaps_def jm_get_map_value jm_wf_map)

lemma arrived_at_snoc:
  "arrived_at t og (es @ [GTake now grace]) = arrived_at t og es"
  "arrived_at t og (es @ [GRecord topic origin ord birth attached now']) =
     (if t = topic \<and> og = origin then insert ord (arrived_at t og es) else arrived_at t og es)"
  by (auto simp: arrived_at_def)

lemma open_hole_pending: "stream_ok A st \<Longrightarrow> gs_hole st \<noteq> 0 \<Longrightarrow> pending st \<noteq> [] \<or> gs_ranges st \<noteq> []"
  using stream_okD(10,11) [of A st] by (cases "gs_above st") auto

lemma take_stream_ok:
  assumes ok: "stream_ok A st"
  shows "stream_ok A (snd (take_stream now grace st))"
    and "reported (fst (take_stream now grace st)) x \<Longrightarrow> gs_w st < x \<and> x \<notin> A"
    and "fst (take_stream now grace st) = Some (a, b) \<Longrightarrow> a \<le> b"
    and "\<not> gs_saturated st \<Longrightarrow> gs_w st < x \<Longrightarrow> x \<le> gs_w (snd (take_stream now grace st)) \<Longrightarrow>
      x \<in> A \<or> reported (fst (take_stream now grace st)) x"
    and "\<not> gs_saturated st \<Longrightarrow> gs_hole st \<noteq> 0 \<Longrightarrow> grace \<le> now - gs_hole st \<Longrightarrow> reported (fst (take_stream now grace st)) (gs_w st + 1)"
proof -
  consider (idle) "gs_hole st = 0 \<or> now - gs_hole st < grace" | (sat) "gs_hole st \<noteq> 0" "grace \<le> now - gs_hole st" "gs_saturated st"
    | (staged) "gs_hole st \<noteq> 0" "grace \<le> now - gs_hole st" "\<not> gs_saturated st" by linarith
  then have "stream_ok A (snd (take_stream now grace st)) \<and> (\<forall>x. reported (fst (take_stream now grace st)) x \<longrightarrow> gs_w st < x \<and> x \<notin> A) \<and>
      (\<forall>a b. fst (take_stream now grace st) = Some (a, b) \<longrightarrow> a \<le> b) \<and>
      (\<not> gs_saturated st \<longrightarrow> (\<forall>x. gs_w st < x \<longrightarrow> x \<le> gs_w (snd (take_stream now grace st)) \<longrightarrow>
        x \<in> A \<or> reported (fst (take_stream now grace st)) x)) \<and>
      (\<not> gs_saturated st \<longrightarrow> gs_hole st \<noteq> 0 \<longrightarrow> grace \<le> now - gs_hole st \<longrightarrow> reported (fst (take_stream now grace st)) (gs_w st + 1))"
  proof cases
    case idle
    then have "take_stream now grace st = (None, st)" by (simp add: take_stream_def)
    then show ?thesis using ok idle by (auto simp: reported_def)
  next
    case sat
    then have e: "take_stream now grace st = take_saturated st" by (simp add: take_stream_def)
    have "a \<le> b" if "fst (take_saturated st) = Some (a, b)" for a b
      using that by (auto simp: take_saturated_def Let_def split: option.splits if_splits)
    then show ?thesis using take_saturated_ok [OF ok] sat(3) by (simp add: e)
  next
    case staged
    then have e: "take_stream now grace st = take_staged now st" by (simp add: take_stream_def)
    note t = take_staged_ok [OF ok open_hole_pending [OF ok staged(1)] staged(3), of now]
    have le: "a = gs_w st + 1 \<and> a \<le> b" if "fst (take_staged now st) = Some (a, b)" for a b
      using that t by (auto simp: take_staged_def Let_def reported_def split: option.splits prod.splits)
    moreover have "reported (fst (take_staged now st)) (gs_w st + 1)"
      using t le by (cases "fst (take_staged now st)") (auto simp: reported_def)
    ultimately show ?thesis using t by (simp add: e)
  qed
  then show "stream_ok A (snd (take_stream now grace st))" "reported (fst (take_stream now grace st)) x \<Longrightarrow> gs_w st < x \<and> x \<notin> A"
    "fst (take_stream now grace st) = Some (a, b) \<Longrightarrow> a \<le> b"
    "\<not> gs_saturated st \<Longrightarrow> gs_w st < x \<Longrightarrow> x \<le> gs_w (snd (take_stream now grace st)) \<Longrightarrow>
      x \<in> A \<or> reported (fst (take_stream now grace st)) x"
    "\<not> gs_saturated st \<Longrightarrow> gs_hole st \<noteq> 0 \<Longrightarrow> grace \<le> now - gs_hole st \<Longrightarrow> reported (fst (take_stream now grace st)) (gs_w st + 1)"
    by blast+
qed

lemma tracked_step: "tracked es streams \<Longrightarrow> tracked (es @ [e]) (gap_step streams e)"
proof (cases e)
  case (GTake now grace)
  assume t: "tracked es streams"
  show ?thesis unfolding tracked_def
  proof (intro conjI allI)
    show "streams_wf (gap_step streams e)" using t streams_wf_take by (simp add: GTake tracked_def)
    fix topic origin
    have old: "case stream_at streams topic origin of None \<Rightarrow> arrived_at topic origin es = {} | Some st \<Rightarrow> stream_ok (arrived_at topic origin es) st"
      using t by (simp add: tracked_def)
    show "case stream_at (gap_step streams e) topic origin of None \<Rightarrow> arrived_at topic origin (es @ [e]) = {}
      | Some st \<Rightarrow> stream_ok (arrived_at topic origin (es @ [e])) st"
      using old unfolding GTake gap_step.simps stream_at_take arrived_at_snoc
      by (cases "stream_at streams topic origin") (simp_all add: take_stream_ok(1))
  qed
next
  case (GRecord topic origin ord birth attached now)
  assume t: "tracked es streams"
  have "case stream_at streams topic origin of None \<Rightarrow> arrived_at topic origin es = {} | Some st \<Rightarrow> stream_ok (arrived_at topic origin es) st"
    using t by (simp add: tracked_def)
  then have "stream_ok (insert ord (arrived_at topic origin es))
      (case stream_at streams topic origin of None \<Rightarrow> first_sighting ord birth attached now | Some st \<Rightarrow> record_known ord now st)"
    using first_sighting_ok [of ord birth attached now] record_known_ok by (auto split: option.splits)
  then show ?thesis using t streams_wf_record unfolding tracked_def GRecord gap_step.simps stream_at_record arrived_at_snoc by simp
qed

lemma tracked_run: "tracked es (foldl gap_step [] es)"
proof (induction es rule: rev_induct)
  case Nil
  then show ?case by (simp add: tracked_def streams_wf_def stream_at_def arrived_at_def)
next
  case (snoc e es)
  then show ?case using tracked_step by simp
qed

interpretation gap_runs: machine "([], [])" "\<lambda>(es, s) e. (es @ [e], gap_step s e)" "\<lambda>(es, s). tracked es s"
  using tracked_run [of "[]"] by unfold_locales (auto intro: tracked_step)

lemma stream_at_Some:
  assumes "streams_wf streams"
  shows "stream_at streams t og = Some st \<longleftrightarrow> (\<exists>m. (t, m) \<in> set streams \<and> (og, st) \<in> set m)"
proof -
  have "jm_get streams t = Some m \<longleftrightarrow> (t, m) \<in> set streams" for m
    using assms by (simp add: streams_wf_def jm_get_iff_mem)
  moreover have "jm_get streams t = Some m \<Longrightarrow> jm_get m og = Some st \<longleftrightarrow> (og, st) \<in> set m" for m
    using assms by (auto simp: streams_wf_def jm_get_iff_mem)
  moreover have "stream_at streams t og = Some st \<longleftrightarrow> (\<exists>m. jm_get streams t = Some m \<and> jm_get m og = Some st)"
    by (simp add: stream_at_def split: option.split)
  ultimately show ?thesis by blast
qed

lemma gap_entry_mem:
  "g \<in> set (gap_entry t og gap) \<longleftrightarrow> (\<exists>a b. gap = Some (a, b) \<and>
     g = \<lparr>gr_topic = t, gr_origin = og, gr_from = a, gr_to = b, gr_count = b - a + 1\<rparr>)"
  by (cases gap) (auto simp: gap_entry_def)

lemma report_mem:
  assumes "streams_wf streams"
  shows "g \<in> set (fst (take_confirmed_gaps streams now grace)) \<longleftrightarrow>
    (\<exists>t og st a b. stream_at streams t og = Some st \<and> fst (take_stream now grace st) = Some (a, b) \<and>
      g = \<lparr>gr_topic = t, gr_origin = og, gr_from = a, gr_to = b, gr_count = b - a + 1\<rparr>)"
proof -
  have "g \<in> set (fst (take_confirmed_gaps streams now grace)) \<longleftrightarrow>
      (\<exists>p \<in> set streams. \<exists>q \<in> set (snd p). g \<in> set (gap_entry (fst p) (fst q) (fst (take_stream now grace (snd q)))))"
    by (simp add: take_confirmed_gaps_def case_prod_unfold)
  also have "\<dots> \<longleftrightarrow> (\<exists>t og st. stream_at streams t og = Some st \<and> g \<in> set (gap_entry t og (fst (take_stream now grace st))))"
    unfolding stream_at_Some [OF assms] by force
  finally show ?thesis unfolding gap_entry_mem by blast
qed

lemma reported_iff: "reported gap x \<longleftrightarrow> (\<exists>a b. gap = Some (a, b) \<and> a \<le> x \<and> x \<le> b)"
  by (auto simp: reported_def split: option.split)

section \<open>Properties\<close>

text \<open>C3: A gap report never blames a delivered frame. Whatever arrives in whatever order, with
  duplicates and reorderings deeper than what is retained, every report names a nonempty run of
  ordinals of its stream none of which has arrived, and counts them.\<close>

theorem gaps_name_only_missing:
  assumes "g \<in> set (fst (take_confirmed_gaps (foldl gap_step [] es) now grace))"
  shows "gr_from g \<le> gr_to g \<and> gr_count g = gr_to g - gr_from g + 1 \<and>
    (\<forall>x. gr_from g \<le> x \<and> x \<le> gr_to g \<longrightarrow> x \<notin> arrived_at (gr_topic g) (gr_origin g) es)"
proof -
  have t: "tracked es (foldl gap_step [] es)" by (rule tracked_run)
  then have "streams_wf (foldl gap_step [] es)" by (simp add: tracked_def)
  from report_mem [OF this] assms obtain t og st a b where
    st: "stream_at (foldl gap_step [] es) t og = Some st" "fst (take_stream now grace st) = Some (a, b)"
    and g: "g = \<lparr>gr_topic = t, gr_origin = og, gr_from = a, gr_to = b, gr_count = b - a + 1\<rparr>" by blast
  have ok: "stream_ok (arrived_at t og es) st"
    using tracked_run [of es] st(1) unfolding tracked_def by (metis (no_types, lifting) option.simps(5))
  have "x \<notin> arrived_at t og es" if "a \<le> x" "x \<le> b" for x
    using take_stream_ok(2) [OF ok, of now grace x] st(2) that by (simp add: reported_iff)
  then show ?thesis using take_stream_ok(3) [OF ok st(2)] by (simp add: g)
qed

definition sample_gap_run :: "gap_event list" where
  "sample_gap_run = [GRecord [1] 7 1 0 5 10, GRecord [1] 7 3 0 5 11, GRecord [1] 7 4 0 5 12, GRecord [1] 7 7 0 5 13]"

lemmas gap_eval = sample_gap_run_def record_origin_stream_def first_sighting_def record_known_def record_next_def record_ahead_def
  open_hole_def max_pending_above_def jm_get_def drain_exact.simps take_confirmed_gaps_def take_stream_def take_staged_def
  first_run_def gap_entry_def Let_def

lemma sample_gap_reports:
  "fst (take_confirmed_gaps (foldl gap_step [] sample_gap_run) 2000 1000) =
     [\<lparr>gr_topic = [1], gr_origin = 7, gr_from = 2, gr_to = 2, gr_count = 1\<rparr>]"
  by (simp add: gap_eval)

theorem gaps_name_only_missing_witness:
  "\<lparr>gr_topic = [1], gr_origin = 7, gr_from = 2, gr_to = 2, gr_count = 1\<rparr> \<in>
     set (fst (take_confirmed_gaps (foldl gap_step [] sample_gap_run) 2000 1000)) \<and>
   2 \<notin> arrived_at [1] 7 sample_gap_run"
proof -
  let ?g = "\<lparr>gr_topic = [1], gr_origin = 7, gr_from = 2, gr_to = 2, gr_count = 1\<rparr> :: gap_report"
  have g: "?g \<in> set (fst (take_confirmed_gaps (foldl gap_step [] sample_gap_run) 2000 1000))"
    by (simp add: sample_gap_reports)
  show ?thesis using gaps_name_only_missing [OF g] g by simp
qed

section \<open>The age of a hole\<close>

text \<open>\<open>hole_open\<close>: something arrived above the watermark. \<open>stuck_since\<close> is read off the run: the clock of the
  last event that opened the hole or moved the watermark. It does not look at the age the code keeps.\<close>

fun reading :: "gap_event \<Rightarrow> real" where
  "reading (GRecord topic origin ord birth attached now) = now"
| "reading (GTake now grace) = now"

definition watermark :: "js_string \<Rightarrow> nat \<Rightarrow> gap_event list \<Rightarrow> nat option" where
  "watermark topic origin es = map_option gs_w (stream_at (foldl gap_step [] es) topic origin)"

definition hole_open :: "js_string \<Rightarrow> nat \<Rightarrow> gap_event list \<Rightarrow> bool" where
  "hole_open topic origin es \<longleftrightarrow>
     (case watermark topic origin es of None \<Rightarrow> False | Some w \<Rightarrow> \<exists>x \<in> arrived_at topic origin es. w < x)"

function stuck_since :: "js_string \<Rightarrow> nat \<Rightarrow> gap_event list \<Rightarrow> real" where
  "stuck_since topic origin es =
     (if es = [] then 0
      else if hole_open topic origin (butlast es) \<and> watermark topic origin (butlast es) = watermark topic origin es
      then stuck_since topic origin (butlast es)
      else reading (List.last es))"
  by pat_completeness auto

termination
  by (relation "measure (\<lambda>(topic, origin, es). length es)") auto

declare stuck_since.simps [simp del]

lemma stuck_since_snoc:
  "stuck_since topic origin (es @ [e]) =
     (if hole_open topic origin es \<and> watermark topic origin es = watermark topic origin (es @ [e])
      then stuck_since topic origin es else reading e)"
  by (subst stuck_since.simps) simp

definition aged :: "real \<Rightarrow> gap_stream \<Rightarrow> bool" where
  "aged a st \<longleftrightarrow> gs_hole st = (if gs_above st = None then 0 else a)"

lemma hole_iff:
  assumes "stream_ok A st"
  shows "(\<exists>x \<in> A. gs_w st < x) \<longleftrightarrow> gs_above st \<noteq> None"
proof
  note d = stream_okD [OF assms]
  show "gs_above st \<noteq> None" if "\<exists>x \<in> A. gs_w st < x"
  proof
    assume none: "gs_above st = None"
    then have "pending st = []" "gs_ranges st = []" "gs_floor st = None" using d(10) by (simp_all add: pending_def)
    then show False using d(15) that by (auto simp: forgotten_at_def)
  qed
  assume "gs_above st \<noteq> None"
  then consider x where "x \<in> set (pending st)" | r where "r \<in> set (gs_ranges st)"
    using d(11) by (metis ex_in_conv set_empty)
  then show "\<exists>x \<in> A. gs_w st < x"
  proof cases
    case (1 x)
    then show ?thesis using d(4,16) by (intro bexI [of _ x]) auto
  next
    case (2 r)
    then show ?thesis using d(2,5,16) range_start_in [of "gs_ranges st" r] by (intro bexI [of _ "fst r"]) auto
  qed
qed

lemma drain_exact_le: "fst (drain_exact w pend) \<ge> w"
proof (induction w pend rule: drain_exact.induct)
  case (1 w pend)
  then show ?case by (subst drain_exact.simps) (auto intro: Suc_leD)
qed

lemma drain_above_le: "\<forall>r \<in> set rs. fst r \<le> snd r \<Longrightarrow> w \<le> fst (drain_above w pend rs)"
proof (induction w pend rs rule: drain_above.induct)
  case (1 w pend)
  then show ?case using drain_exact_le [of w pend] by (auto simp: case_prod_unfold)
next
  case (2 w pend r rs)
  obtain v q where e: "drain_exact w pend = (v, q)" by fastforce
  then have le: "w \<le> v" using drain_exact_le [of w pend] by simp
  show ?case
  proof (cases "fst r = v + 1")
    case True
    then have "snd r \<le> fst (drain_above (snd r) q rs)" using "2.IH" [OF e [symmetric]] True "2.prems" by simp
    moreover have "fst r \<le> snd r" using "2.prems" by simp
    ultimately show ?thesis using e le True by simp
  qed (use e le in simp)
qed

lemma ahead_hole:
  "gs_hole (record_ahead ord now st) = (if gs_hole st = 0 then now else gs_hole st) \<and> gs_above (record_ahead ord now st) \<noteq> None"
  by (auto simp: record_ahead_def open_hole_def Let_def split: prod.split option.split)

lemma aged_record_next:
  assumes ok: "stream_ok A st" and a: "aged a st"
  shows "aged now (record_next now (st\<lparr>gs_hi := h\<rparr>)) \<and> gs_w (record_next now (st\<lparr>gs_hi := h\<rparr>)) \<noteq> gs_w st \<or>
    gs_above (record_next now (st\<lparr>gs_hi := h\<rparr>)) = None \<and> gs_hole (record_next now (st\<lparr>gs_hi := h\<rparr>)) = 0"
proof (cases "gs_above st")
  case None
  then show ?thesis using a by (simp add: record_next_def aged_def)
next
  case (Some pend)
  obtain w' p' rs' where dr: "drain_above (gs_w st + 1) pend (gs_ranges st) = (w', p', rs')" by (metis surj_pair)
  have "\<forall>r \<in> set (gs_ranges st). fst r \<le> snd r" using stream_okD(2) [OF ok] by (simp add: ranges_ok_def)
  from drain_above_le [OF this, of "gs_w st + 1" pend] have "gs_w st < w'" using dr by simp
  then show ?thesis using Some dr
    by (cases "p' = [] \<and> rs' = []"; cases "p' = []") (simp_all add: record_next_def aged_def clean_stream_def Let_def)
qed

lemma aged_record:
  assumes ok: "stream_ok A st" and a: "aged a st" "gs_above st \<noteq> None \<Longrightarrow> a \<noteq> 0"
  shows "aged (if gs_above st \<noteq> None \<and> gs_w (record_known ord now st) = gs_w st then a else now) (record_known ord now st)"
proof -
  have st1: "(if gs_hi st < ord then st\<lparr>gs_hi := ord\<rparr> else st) = st\<lparr>gs_hi := max (gs_hi st) ord\<rparr>"
    by (cases st) (auto simp: max_def)
  note unf = record_known_def Let_def st1
  consider "ord \<le> gs_w st" | "ord = gs_w st + 1" | "gs_w st + 1 < ord" by linarith
  then show ?thesis
  proof cases
    case 1
    then show ?thesis using a unfolding unf by (simp add: aged_def)
  next
    case 2
    then have r: "record_known ord now st = record_next now (st\<lparr>gs_hi := max (gs_hi st) ord\<rparr>)" unfolding unf by simp
    show ?thesis using aged_record_next [OF ok a(1), of now "max (gs_hi st) ord"] unfolding r by (auto simp: aged_def)
  next
    case 3
    have r: "record_known ord now st = record_ahead ord now (st\<lparr>gs_hi := max (gs_hi st) ord\<rparr>)" unfolding unf using 3 by simp
    show ?thesis using ahead_hole [of ord now "st\<lparr>gs_hi := max (gs_hi st) ord\<rparr>"] record_ahead_ok [OF ok 3 refl, of now] a
      unfolding r by (auto simp: aged_def)
  qed
qed

lemma staged_moves:
  assumes ok: "stream_ok A st"
  shows "snd (take_staged now st) = st \<or> snd (take_staged now st) = clean_stream st \<or>
    gs_w st < gs_w (snd (take_staged now st)) \<and> gs_hole (snd (take_staged now st)) = now \<and> gs_above (snd (take_staged now st)) \<noteq> None"
proof (cases "first_run (sort (pending st)) (gs_ranges st)")
  case None
  then show ?thesis by (simp add: take_staged_def pending_def)
next
  case (Some ab)
  obtain a b where ab: "ab = (a, b)" by fastforce
  note d = stream_okD [OF ok]
  have f: "a \<le> b" "a \<in> set (pending st) \<or> (\<exists>r \<in> set (gs_ranges st). fst r = a)"
    using first_run_spec [OF Some [unfolded ab] d(1-3)] by blast+
  then have "gs_w st < b" using d(4,5) by fastforce
  then show ?thesis using Some ab by (auto simp: take_staged_def pending_def Let_def)
qed

lemma aged_take:
  assumes ok: "stream_ok A st" and a: "aged a st"
  shows "aged (if gs_above st \<noteq> None \<and> gs_w (snd (take_stream now grace st)) = gs_w st then a else now) (snd (take_stream now grace st))"
proof -
  have idle: "aged (if gs_above st \<noteq> None then a else now) st" using a by (simp add: aged_def)
  have clean: "aged b (clean_stream st)" for b by (simp add: aged_def clean_stream_def)
  consider (same) "snd (take_stream now grace st) = st" | (clean) "snd (take_stream now grace st) = clean_stream st"
    | (moved) "gs_w st < gs_w (snd (take_stream now grace st))" "gs_hole (snd (take_stream now grace st)) = now"
        "gs_above (snd (take_stream now grace st)) \<noteq> None"
  proof (cases "gs_hole st = 0 \<or> now - gs_hole st < grace \<or> gs_saturated st")
    case True
    then have "snd (take_stream now grace st) = st \<or> snd (take_stream now grace st) = clean_stream st"
      by (auto simp: take_stream_def take_saturated_def Let_def)
    then show thesis using same clean by blast
  next
    case False
    then have "take_stream now grace st = take_staged now st" by (simp add: take_stream_def)
    then show thesis using staged_moves [OF ok, of now] same clean moved by auto
  qed
  then show ?thesis
  proof cases
    case same
    then show ?thesis using idle by simp
  next
    case clean
    then show ?thesis using \<open>\<And>b. aged b (clean_stream st)\<close> by simp
  next
    case moved
    then show ?thesis by (auto simp: aged_def)
  qed
qed

lemma stuck_positive: "es \<noteq> [] \<Longrightarrow> \<forall>e \<in> set es. 0 < reading e \<Longrightarrow> 0 < stuck_since topic origin es"
proof (induction es rule: rev_induct)
  case (snoc e es)
  have "\<not> hole_open topic origin []" by (simp add: hole_open_def arrived_at_def split: option.split)
  then show ?case using snoc stuck_since_snoc [of topic origin es e] by (cases "es = []") auto
qed simp

lemma stream_ok_at: "stream_at (foldl gap_step [] es) topic origin = Some st \<Longrightarrow> stream_ok (arrived_at topic origin es) st"
  using tracked_run [of es] unfolding tracked_def by (metis (no_types, lifting) option.simps(5))

lemma hole_open_iff:
  assumes "stream_at (foldl gap_step [] es) topic origin = Some st"
  shows "hole_open topic origin es \<longleftrightarrow> gs_above st \<noteq> None"
  using hole_iff [OF stream_ok_at [OF assms]] assms by (simp add: hole_open_def watermark_def)

lemma aged_run:
  assumes "\<forall>e \<in> set es. 0 < reading e"
  shows "stream_at (foldl gap_step [] es) topic origin = Some st \<Longrightarrow> aged (stuck_since topic origin es) st"
  using assms
proof (induction es arbitrary: st rule: rev_induct)
  case Nil
  then show ?case by (simp add: stream_at_def)
next
  case (snoc e es)
  let ?s = "foldl gap_step [] es" and ?a = "stuck_since topic origin es"
  have at': "stream_at (gap_step ?s e) topic origin = Some st" using snoc.prems(1) by simp
  show ?case
  proof (cases "stream_at ?s topic origin")
    case None
    have "\<not> hole_open topic origin es" using None by (simp add: hole_open_def watermark_def)
    moreover have "aged (reading e) st" using at' None
      by (cases e) (auto simp: stream_at_record stream_at_take first_sighting_def aged_def split: if_splits)
    ultimately show ?thesis by (simp add: stuck_since_snoc)
  next
    case (Some st0)
    have ok: "stream_ok (arrived_at topic origin es) st0" by (rule stream_ok_at [OF Some])
    have a: "aged ?a st0" using snoc.IH [OF Some] snoc.prems(2) by simp
    have "es \<noteq> []" using Some by (auto simp: stream_at_def)
    then have pos: "?a \<noteq> 0" using stuck_positive [of es topic origin] snoc.prems(2) by auto
    have stuck: "stuck_since topic origin (es @ [e]) = (if gs_above st0 \<noteq> None \<and> gs_w st = gs_w st0 then ?a else reading e)"
      using hole_open_iff [OF Some] Some at' by (auto simp: stuck_since_snoc watermark_def)
    have "aged (if gs_above st0 \<noteq> None \<and> gs_w st = gs_w st0 then ?a else reading e) st"
    proof (cases e)
      case (GTake now grace)
      then have st: "st = snd (take_stream now grace st0)" using at' Some by (simp add: stream_at_take)
      show ?thesis unfolding st GTake reading.simps by (rule aged_take [OF ok a])
    next
      case (GRecord t og ord birth attached now)
      show ?thesis
      proof (cases "t = topic \<and> og = origin")
        case True
        then have st: "st = record_known ord now st0" using at' Some GRecord by (simp add: stream_at_record)
        show ?thesis unfolding st GRecord reading.simps by (rule aged_record [OF ok a pos])
      next
        case False
        then have "st = st0" using at' Some GRecord by (auto simp: stream_at_record split: if_splits)
        then show ?thesis using a by (simp add: aged_def)
      qed
    qed
    then show ?thesis unfolding stuck .
  qed
qed

text \<open>What a drain reports of one stream, and what the watermark passes.\<close>

lemma reported_entry:
  assumes "stream_at (foldl gap_step [] es) topic origin = Some st" and "reported (fst (take_stream now grace st)) x"
  shows "\<exists>g \<in> set (fst (take_confirmed_gaps (foldl gap_step [] es) now grace)). gr_topic g = topic \<and> gr_origin g = origin \<and> gr_from g \<le> x \<and> x \<le> gr_to g"
proof -
  have wf: "streams_wf (foldl gap_step [] es)" using tracked_run [of es] by (simp add: tracked_def)
  obtain a b where ab: "fst (take_stream now grace st) = Some (a, b)" "a \<le> x" "x \<le> b"
    using assms(2) unfolding reported_iff by blast
  let ?g = "\<lparr>gr_topic = topic, gr_origin = origin, gr_from = a, gr_to = b, gr_count = b - a + 1\<rparr>"
  have "?g \<in> set (fst (take_confirmed_gaps (foldl gap_step [] es) now grace))" using report_mem [OF wf, of ?g] assms(1) ab(1) by blast
  then show ?thesis using ab by (intro bexI [of _ ?g]) simp_all
qed

lemma watermark_passes:
  assumes "stream_at (foldl gap_step [] es) topic origin = Some st" and "\<not> gs_saturated st"
    and "stream_at (foldl gap_step [] (es @ [e])) topic origin = Some st'" and x: "gs_w st < x" "x \<le> gs_w st'"
  shows "x \<in> arrived_at topic origin (es @ [e]) \<or> (\<exists>now grace. e = GTake now grace \<and> reported (fst (take_stream now grace st)) x)"
proof (cases e)
  case (GTake now grace)
  then have "st' = snd (take_stream now grace st)" using assms(1,3) by (simp add: stream_at_take)
  then show ?thesis using take_stream_ok(4) [OF stream_ok_at [OF assms(1)] assms(2), of x now grace] x GTake by (auto simp: arrived_at_snoc)
next
  case (GRecord t' og ord birth attached now)
  show ?thesis
  proof (cases "t' = topic \<and> og = origin")
    case True
    then have "st' = record_known ord now st" using assms(1,3) GRecord by (simp add: stream_at_record)
    then show ?thesis using record_known_ok [OF stream_ok_at [OF assms(1)], of ord now] assms(2) x True GRecord by (simp add: arrived_at_snoc)
  next
    case False
    then have "st' = st" using assms(1,3) GRecord by (auto simp: stream_at_record split: if_splits)
    then show ?thesis using x by simp
  qed
qed

text \<open>C31: No loss is passed over silently. While a stream has forgotten no arrival, its watermark
  only passes ordinals that arrived or that this very drain reports; and whenever something has arrived above
  the watermark and neither the watermark has moved nor the hole been opened for the length of the grace, a
  drain reports from the first missing ordinal on. Every further hole that a drain or an arrival exposes gets
  a grace of its own. Clock readings are positive (zero is the code's mark for no hole).\<close>

theorem gaps_leave_no_loss_unreported:
  assumes "stream_at (foldl gap_step [] es) topic origin = Some st" and "\<not> gs_saturated st"
    and "stream_at (foldl gap_step [] (es @ [e])) topic origin = Some st'" and "\<forall>x \<in> set es. 0 < reading x"
  shows "(\<forall>x. gs_w st < x \<and> x \<le> gs_w st' \<longrightarrow> x \<in> arrived_at topic origin (es @ [e]) \<or>
      (\<exists>now grace. e = GTake now grace \<and> (\<exists>g \<in> set (fst (take_confirmed_gaps (foldl gap_step [] es) now grace)).
         gr_topic g = topic \<and> gr_origin g = origin \<and> gr_from g \<le> x \<and> x \<le> gr_to g))) \<and>
    (\<forall>now grace. (\<exists>x \<in> arrived_at topic origin es. gs_w st < x) \<and> grace \<le> now - stuck_since topic origin es \<longrightarrow>
      (\<exists>g \<in> set (fst (take_confirmed_gaps (foldl gap_step [] es) now grace)).
         gr_topic g = topic \<and> gr_origin g = origin \<and> gr_from g \<le> gs_w st + 1 \<and> gs_w st + 1 \<le> gr_to g))"
proof (rule conjI; intro allI impI)
  fix x assume "gs_w st < x \<and> x \<le> gs_w st'"
  then have "x \<in> arrived_at topic origin (es @ [e]) \<or> (\<exists>now grace. e = GTake now grace \<and> reported (fst (take_stream now grace st)) x)"
    using watermark_passes [OF assms(1-3)] by blast
  then show "x \<in> arrived_at topic origin (es @ [e]) \<or>
      (\<exists>now grace. e = GTake now grace \<and> (\<exists>g \<in> set (fst (take_confirmed_gaps (foldl gap_step [] es) now grace)).
         gr_topic g = topic \<and> gr_origin g = origin \<and> gr_from g \<le> x \<and> x \<le> gr_to g))"
    using reported_entry [OF assms(1)] by blast
next
  fix now grace assume old: "(\<exists>x \<in> arrived_at topic origin es. gs_w st < x) \<and> grace \<le> now - stuck_since topic origin es"
  have ok: "stream_ok (arrived_at topic origin es) st" by (rule stream_ok_at [OF assms(1)])
  have above: "gs_above st \<noteq> None" using old hole_iff [OF ok] by blast
  have "es \<noteq> []" using assms(1) by (auto simp: stream_at_def)
  then have "0 < stuck_since topic origin es" by (rule stuck_positive [OF _ assms(4)])
  then have "gs_hole st \<noteq> 0 \<and> grace \<le> now - gs_hole st"
    using aged_run [OF assms(4,1)] above old by (simp add: aged_def)
  then show "\<exists>g \<in> set (fst (take_confirmed_gaps (foldl gap_step [] es) now grace)).
      gr_topic g = topic \<and> gr_origin g = origin \<and> gr_from g \<le> gs_w st + 1 \<and> gs_w st + 1 \<le> gr_to g"
    using take_stream_ok(5) [OF ok assms(2)] by (intro reported_entry [OF assms(1)]) simp
qed

text \<open>The second hole of the sample, exposed by the drain at 2000, is reported one grace later.\<close>

definition sample_staged_run :: "gap_event list" where
  "sample_staged_run = sample_gap_run @ [GTake 2000 1000]"

theorem gaps_leave_no_loss_unreported_witness:
  "\<exists>g \<in> set (fst (take_confirmed_gaps (foldl gap_step [] sample_staged_run) 3000 1000)). gr_from g \<le> 5 \<and> 5 \<le> gr_to g"
proof -
  let ?st = "\<lparr>gs_w = 4, gs_hi = 7, gs_above = Some [7], gs_max = Some 7, gs_ranges = [], gs_saturated = False,
    gs_floor = None, gs_hole = 2000\<rparr>"
  have st: "stream_at (foldl gap_step [] sample_staged_run) [1] 7 = Some ?st"
    by (simp add: stream_at_def gap_eval sample_staged_run_def)
  have "\<exists>st'. stream_at (foldl gap_step [] (sample_staged_run @ [GTake 3000 1000])) [1] 7 = Some st'"
    by (simp add: stream_at_take st)
  then obtain st' where st': "stream_at (foldl gap_step [] (sample_staged_run @ [GTake 3000 1000])) [1] 7 = Some st'" by blast
  have ns: "\<not> gs_saturated ?st" by simp
  have pos: "\<forall>x \<in> set sample_staged_run. 0 < reading x" by (simp add: sample_staged_run_def sample_gap_run_def)
  have "stream_at (foldl gap_step [] sample_gap_run) [1] 7 =
      Some \<lparr>gs_w = 1, gs_hi = 7, gs_above = Some [3, 4, 7], gs_max = Some 7, gs_ranges = [], gs_saturated = False, gs_floor = None, gs_hole = 11\<rparr>"
    by (simp add: stream_at_def gap_eval)
  then have "stuck_since [1] 7 sample_staged_run = 2000"
    using st unfolding sample_staged_run_def by (simp add: stuck_since_snoc watermark_def)
  moreover have "7 \<in> arrived_at [1] 7 sample_staged_run" by (simp add: arrived_at_def sample_staged_run_def sample_gap_run_def)
  ultimately have "(\<exists>x \<in> arrived_at [1] 7 sample_staged_run. gs_w ?st < x) \<and> 1000 \<le> 3000 - stuck_since [1] 7 sample_staged_run"
    by (auto intro!: bexI [of _ 7])
  from mp [OF spec [OF spec [OF conjunct2 [OF gaps_leave_no_loss_unreported [OF st ns st' pos]]]] this]
  obtain g where "g \<in> set (fst (take_confirmed_gaps (foldl gap_step [] sample_staged_run) 3000 1000))"
    and "gr_from g \<le> gs_w ?st + 1" "gs_w ?st + 1 \<le> gr_to g" by (elim bexE conjE)
  then show ?thesis by (intro bexI [of _ g]) simp_all
qed

text \<open>What the tracker retains of a damaged stream is bounded: at most 64 ordinals and at most 64
  separate ranges, the ranges ascending and apart, whatever arrives.\<close>

theorem gap_memory_bounded:
  assumes "stream_at (foldl gap_step [] es) topic origin = Some st"
  shows "(case gs_above st of None \<Rightarrow> True | Some l \<Rightarrow> length l \<le> 64 \<and> distinct l) \<and> length (gs_ranges st) \<le> 64 \<and>
    sorted_wrt (\<lambda>r s. snd r + 1 < fst s) (gs_ranges st)"
proof -
  have "stream_ok (arrived_at topic origin es) st"
    using tracked_run [of es] assms unfolding tracked_def by (metis (no_types, lifting) option.simps(5))
  from stream_okD(1,2,6,7) [OF this] show ?thesis
    by (auto simp: pending_def max_pending_above_def ranges_ok_def split: option.splits)
qed

theorem gap_memory_bounded_witness:
  "\<exists>st. stream_at (foldl gap_step [] sample_gap_run) [1] 7 = Some st \<and> length (gs_ranges st) \<le> 64"
proof -
  have "\<exists>st. stream_at (foldl gap_step [] sample_gap_run) [1] 7 = Some st" by (simp add: stream_at_def gap_eval)
  then show ?thesis using gap_memory_bounded by blast
qed

end
