(* ===== verification/Wire_Bits.thy ===== *)
theory Wire_Bits
  imports Wire_Bytes Float64
begin

text \<open>
  \<open>BitWriter\<close>, \<open>BitReader\<close> and the word helpers of \<open>src/runtime/wire-bits.js\<close>.

  Bits travel most significant first. The abstraction of a writer is the list of bits it has
  taken (\<open>written\<close>), that of a reader the list it still holds (\<open>unread\<close>); every operation is
  characterised on these lists. A 64-bit quantity is a pair of 32-bit words as in the code.
\<close>

unbundle bit_operations_syntax

section \<open>The writer\<close>

record bit_writer =
  bits_done :: "byte list"
  bits_cur :: byte
  bits_fill :: nat

definition new_bit_writer :: bit_writer where
  "new_bit_writer = \<lparr>bits_done = [], bits_cur = 0, bits_fill = 0\<rparr>"

definition shift_in :: "bool \<Rightarrow> byte \<Rightarrow> byte" where
  "shift_in b c = push_bit 1 c OR of_bool b"

definition write_bit :: "bool \<Rightarrow> bit_writer \<Rightarrow> bit_writer" where
  "write_bit b w =
     (let cur = shift_in b (bits_cur w) in
      if bits_fill w + 1 = 8
      then w\<lparr>bits_done := bits_done w @ [cur], bits_cur := 0, bits_fill := 0\<rparr>
      else w\<lparr>bits_cur := cur, bits_fill := bits_fill w + 1\<rparr>)"

primrec write_bits :: "nat \<Rightarrow> nat \<Rightarrow> bit_writer \<Rightarrow> bit_writer" where
  "write_bits 0 v w = w"
| "write_bits (Suc i) v w = write_bits i v (write_bit (odd (v div 2 ^ i)) w)"

definition finish_bits :: "bit_writer \<Rightarrow> byte list" where
  "finish_bits w = (if 0 < bits_fill w then bits_done w @ [push_bit (8 - bits_fill w) (bits_cur w)] else bits_done w)"

section \<open>The reader\<close>

record bit_reader =
  bits_buf :: "byte list"
  bits_byte :: nat
  bits_bit :: nat

definition new_bit_reader :: "byte list \<Rightarrow> bit_reader" where
  "new_bit_reader buf = \<lparr>bits_buf = buf, bits_byte = 0, bits_bit = 0\<rparr>"

type_synonym 'a bit_reads = "bit_reader \<Rightarrow> range_error + 'a \<times> bit_reader"

definition read_bit :: "bool bit_reads" where
  "read_bit r =
     (if length (bits_buf r) \<le> bits_byte r then Inl ReadPastEnd
      else Inr (odd (drop_bit (7 - bits_bit r) (bits_buf r ! bits_byte r)),
        if bits_bit r + 1 = 8 then r\<lparr>bits_bit := 0, bits_byte := bits_byte r + 1\<rparr> else r\<lparr>bits_bit := bits_bit r + 1\<rparr>))"

primrec read_bits_loop :: "nat \<Rightarrow> nat \<Rightarrow> nat bit_reads" where
  "read_bits_loop 0 v r = Inr (v, r)"
| "read_bits_loop (Suc n) v r = try_bind (read_bit r) (\<lambda>(b, r). read_bits_loop n (v * 2 + of_bool b) r)"

definition read_bits :: "nat \<Rightarrow> nat bit_reads" where
  "read_bits count r = read_bits_loop count 0 r"

section \<open>Words\<close>

definition f64_to_words :: "f64 \<Rightarrow> 32 word \<times> 32 word" where
  "f64_to_words v = (ucast (drop_bit 32 v), ucast v)"

definition words_to_f64 :: "32 word \<Rightarrow> 32 word \<Rightarrow> f64" where
  "words_to_f64 hi lo = push_bit 32 (ucast hi) OR ucast lo"

definition clz32 :: "32 word \<Rightarrow> nat" where
  "clz32 x = length (takeWhile (\<lambda>i. \<not> bit x i) (rev [0..<32]))"

definition ctz32 :: "32 word \<Rightarrow> nat" where
  "ctz32 x = 31 - clz32 (x AND - x)"

definition clz64 :: "32 word \<Rightarrow> 32 word \<Rightarrow> nat" where
  "clz64 hi lo = (if hi \<noteq> 0 then clz32 hi else if lo \<noteq> 0 then 32 + clz32 lo else 64)"

definition ctz64 :: "32 word \<Rightarrow> 32 word \<Rightarrow> nat" where
  "ctz64 hi lo = (if lo \<noteq> 0 then ctz32 lo else if hi \<noteq> 0 then 32 + ctz32 hi else 64)"

section \<open>What a writer has taken\<close>

definition byte_bits :: "byte \<Rightarrow> bool list" where
  "byte_bits b = map (\<lambda>i. bit b (7 - i)) [0..<8]"

lemma length_byte_bits [simp]: "length (byte_bits b) = 8"
  by (simp add: byte_bits_def)

definition written :: "bit_writer \<Rightarrow> bool list" where
  "written w = concat (map byte_bits (bits_done w)) @ map (\<lambda>i. bit (bits_cur w) (bits_fill w - 1 - i)) [0..<bits_fill w]"

lemma written_new [simp]: "written new_bit_writer = []" "bits_fill new_bit_writer < 8"
  by (simp_all add: written_def new_bit_writer_def)

lemma bit_shift_in: "bit (shift_in b c) n \<longleftrightarrow> (if n = 0 then b else n < 8 \<and> bit c (n - 1))"
  unfolding shift_in_def bit_or_iff bit_push_bit_iff bit_of_bool_iff by auto

lemma write_bit_appends:
  assumes "bits_fill w < 8"
  shows "written (write_bit b w) = written w @ [b]" and "bits_fill (write_bit b w) < 8"
proof -
  have shifted: "map (\<lambda>i. bit (shift_in b (bits_cur w)) (n - i)) [0..<Suc n] =
      map (\<lambda>i. bit (bits_cur w) (n - 1 - i)) [0..<n] @ [b]" if "n < 8" for n
    using that by (auto simp: bit_shift_in)
  show "written (write_bit b w) = written w @ [b]"
  proof (cases "bits_fill w = 7")
    case True
    have "byte_bits (shift_in b (bits_cur w)) = map (\<lambda>i. bit (bits_cur w) (7 - 1 - i)) [0..<7] @ [b]"
      using shifted [of 7] by (simp add: byte_bits_def)
    then show ?thesis using True by (simp add: written_def write_bit_def Let_def)
  next
    case False
    then show ?thesis using assms shifted [of "bits_fill w"] by (simp add: written_def write_bit_def Let_def)
  qed
  show "bits_fill (write_bit b w) < 8" using assms by (auto simp: write_bit_def Let_def)
qed

definition nat_bits :: "nat \<Rightarrow> nat \<Rightarrow> bool list" where
  "nat_bits n v = map (\<lambda>i. odd (v div 2 ^ i)) (rev [0..<n])"

lemma write_bits_appends:
  assumes "bits_fill w < 8"
  shows "written (write_bits n v w) = written w @ nat_bits n v \<and> bits_fill (write_bits n v w) < 8"
  using assms by (induction n arbitrary: w) (simp_all add: nat_bits_def write_bit_appends)

lemma finish_bits_view:
  assumes "bits_fill w < 8"
  shows "\<exists>n<8. concat (map byte_bits (finish_bits w)) = written w @ replicate n False"
proof (cases "bits_fill w = 0")
  case True
  then show ?thesis by (intro exI [of _ 0]) (simp add: finish_bits_def written_def)
next
  case False
  have "byte_bits (push_bit (8 - bits_fill w) (bits_cur w)) =
      map (\<lambda>i. bit (bits_cur w) (bits_fill w - 1 - i)) [0..<bits_fill w] @ replicate (8 - bits_fill w) False"
    using assms by (intro nth_equalityI) (auto simp: byte_bits_def bit_simps nth_append intro!: arg_cong2 [of _ _ _ _ bit])
  then show ?thesis using False assms
    by (intro exI [of _ "8 - bits_fill w"]) (simp add: finish_bits_def written_def)
qed

section \<open>What a reader still holds\<close>

definition unread :: "bit_reader \<Rightarrow> bool list" where
  "unread r = drop (8 * bits_byte r + bits_bit r) (concat (map byte_bits (bits_buf r)))"

lemma unread_new [simp]: "unread (new_bit_reader buf) = concat (map byte_bits buf)" "bits_bit (new_bit_reader buf) < 8"
  by (simp_all add: unread_def new_bit_reader_def)

lemma drop_byte_bits:
  "k < length xs \<Longrightarrow> j \<le> 8 \<Longrightarrow>
   drop (8 * k + j) (concat (map byte_bits xs)) = drop j (byte_bits (xs ! k)) @ concat (map byte_bits (drop (Suc k) xs))"
proof (induction k arbitrary: xs)
  case 0
  then show ?case by (cases xs) auto
next
  case (Suc k)
  then show ?case by (cases xs) auto
qed

lemma length_byte_lists: "length (concat (map byte_bits xs)) = 8 * length xs"
  by (induction xs) auto

lemma read_bit_unread:
  assumes "bits_bit r < 8"
  shows "case unread r of [] \<Rightarrow> read_bit r = Inl ReadPastEnd
    | b # rest \<Rightarrow> \<exists>r'. read_bit r = Inr (b, r') \<and> unread r' = rest \<and> bits_bit r' < 8"
proof (cases "bits_byte r < length (bits_buf r)")
  case True
  let ?k = "bits_byte r" and ?j = "bits_bit r" and ?x = "bits_buf r ! bits_byte r"
  define more where "more = concat (map byte_bits (drop (Suc ?k) (bits_buf r)))"
  have u: "unread r = drop ?j (byte_bits ?x) @ more"
    using drop_byte_bits [OF True] assms by (simp add: unread_def more_def)
  have "drop ?j (byte_bits ?x) = byte_bits ?x ! ?j # drop (Suc ?j) (byte_bits ?x)"
    using assms by (intro Cons_nth_drop_Suc [symmetric]) simp
  then have u': "unread r = bit ?x (7 - ?j) # drop (Suc ?j) (byte_bits ?x) @ more"
    using u assms by (simp add: byte_bits_def)
  let ?r = "if ?j + 1 = 8 then r\<lparr>bits_bit := 0, bits_byte := ?k + 1\<rparr> else r\<lparr>bits_bit := ?j + 1\<rparr>"
  have "unread ?r = drop (Suc ?j) (byte_bits ?x) @ more"
  proof (cases "?j + 1 = 8")
    case True
    have "8 * Suc ?k = 8 * ?k + 8" by simp
    then have "unread ?r = drop (8 * ?k + 8) (concat (map byte_bits (bits_buf r)))"
      using True by (simp add: unread_def add.commute)
    also have "\<dots> = drop 8 (byte_bits ?x) @ more"
      unfolding more_def using \<open>?k < length (bits_buf r)\<close> by (rule drop_byte_bits) simp
    finally show ?thesis using True by simp
  next
    case False
    have "unread ?r = drop (8 * ?k + Suc ?j) (concat (map byte_bits (bits_buf r)))"
      using False by (simp add: unread_def)
    also have "\<dots> = drop (Suc ?j) (byte_bits ?x) @ more"
      unfolding more_def using \<open>?k < length (bits_buf r)\<close> by (rule drop_byte_bits) (use assms in simp)
    finally show ?thesis .
  qed
  moreover have "read_bit r = Inr (bit ?x (7 - ?j), ?r)"
    using True by (simp add: read_bit_def bit_iff_odd_drop_bit)
  moreover have "bits_bit ?r < 8" using assms by auto
  ultimately show ?thesis by (simp add: u')
next
  case False
  then have "length (concat (map byte_bits (bits_buf r))) \<le> 8 * bits_byte r + bits_bit r" by (simp add: length_byte_lists)
  then have "unread r = []" by (simp add: unread_def)
  then show ?thesis using False by (simp add: read_bit_def)
qed

text \<open>A reader operation takes exactly the given bits and yields a value.\<close>

definition takes :: "'a bit_reads \<Rightarrow> bool list \<Rightarrow> 'a \<Rightarrow> bool" where
  "takes m bs x \<longleftrightarrow> (\<forall>r rest. bits_bit r < 8 \<and> unread r = bs @ rest \<longrightarrow>
     (\<exists>r'. m r = Inr (x, r') \<and> unread r' = rest \<and> bits_bit r' < 8))"

lemma takes_bit: "takes read_bit [b] b"
  unfolding takes_def using read_bit_unread by fastforce

lemma takes_return: "takes (\<lambda>r. Inr (x, r)) [] x"
  by (simp add: takes_def)

lemma takes_bind:
  assumes "takes m bs x" and "takes (f x) cs y"
  shows "takes (\<lambda>r. try_bind (m r) (\<lambda>(x, r). f x r)) (bs @ cs) y"
  unfolding takes_def
proof (intro allI impI)
  fix r rest assume a: "bits_bit r < 8 \<and> unread r = (bs @ cs) @ rest"
  then obtain r' where "m r = Inr (x, r')" "unread r' = cs @ rest" "bits_bit r' < 8"
    using assms(1) unfolding takes_def by (metis append.assoc)
  moreover from this obtain r'' where "f x r' = Inr (y, r'')" "unread r'' = rest" "bits_bit r'' < 8"
    using assms(2) unfolding takes_def by blast
  ultimately show "\<exists>r'. try_bind (m r) (\<lambda>(x, r). f x r) = Inr (y, r') \<and> unread r' = rest \<and> bits_bit r' < 8"
    by simp
qed

lemma nat_bits_Suc: "nat_bits (Suc n) v = odd (v div 2 ^ n) # nat_bits n v"
  by (simp add: nat_bits_def)

lemma mod_top_bit: "(v :: nat) mod 2 ^ Suc n = of_bool (odd (v div 2 ^ n)) * 2 ^ n + v mod 2 ^ n"
proof -
  have "v mod 2 ^ Suc n = 2 ^ n * (v div 2 ^ n mod 2) + v mod 2 ^ n"
    using mod_mult2_eq [of v "2 ^ n" 2] by (simp add: mult.commute)
  then show ?thesis by (simp add: of_bool_odd_eq_mod_2)
qed

lemma takes_bits_loop: "takes (read_bits_loop n acc) (nat_bits n v) (acc * 2 ^ n + v mod 2 ^ n)"
proof (induction n arbitrary: acc)
  case 0
  then show ?case using takes_return [of "acc"] by (simp add: nat_bits_def)
next
  case (Suc n)
  have eq: "(acc * 2 + of_bool (odd (v div 2 ^ n))) * 2 ^ n + v mod 2 ^ n = acc * 2 ^ Suc n + v mod 2 ^ Suc n"
    unfolding mod_top_bit by (simp add: algebra_simps)
  from Suc.IH [of "acc * 2 + of_bool (odd (v div 2 ^ n))"]
  have "takes (read_bits_loop n (acc * 2 + of_bool (odd (v div 2 ^ n)))) (nat_bits n v) (acc * 2 ^ Suc n + v mod 2 ^ Suc n)"
    unfolding eq .
  from takes_bind [where m = read_bit and f = "\<lambda>b. read_bits_loop n (acc * 2 + of_bool b)", OF takes_bit this]
  have "takes (\<lambda>r. try_bind (read_bit r) (\<lambda>(b, r). read_bits_loop n (acc * 2 + of_bool b) r))
      ([odd (v div 2 ^ n)] @ nat_bits n v) (acc * 2 ^ Suc n + v mod 2 ^ Suc n)" .
  then show ?case by (simp add: nat_bits_Suc)
qed

lemma takes_bits: "v < 2 ^ n \<Longrightarrow> takes (read_bits n) (nat_bits n v) v"
  using takes_bits_loop [of n 0 v] by (simp add: read_bits_def [abs_def])

end
