(* ===== verification/Wire_Stream.thy ===== *)
theory Wire_Stream
  imports Wire_Bits
begin

text \<open>
  The temporal codec of \<open>src/runtime/wire-stream.js\<close>: each series keeps a slot with its previous
  sample; integers travel as a difference of differences, other numbers as the XOR with the
  previous bit pattern inside a window of meaningful bits.

  Numbers are bit patterns. The sums and differences of the integer path are exact integers,
  which \<open>stream_delta_bounded\<close> justifies: differences that travel stay below \<open>2 ^ 44\<close>. A
  decoder that meets an integer step after a number that is no safe integer adds doubles; that
  addition is the parameter \<open>add\<close>, and no theorem depends on it.
\<close>

unbundle bit_operations_syntax

section \<open>Slots\<close>

record stream_slot =
  ss_has :: bool
  ss_prev :: f64
  ss_delta :: int
  ss_window :: bool
  ss_lead :: nat
  ss_len :: nat

definition create_stream_slot :: stream_slot where
  "create_stream_slot = \<lparr>ss_has = False, ss_prev = 0, ss_delta = 0, ss_window = False, ss_lead = 0, ss_len = 64\<rparr>"

section \<open>Spans and signed fields\<close>

definition bit_at :: "32 word \<Rightarrow> 32 word \<Rightarrow> nat \<Rightarrow> bool" where
  "bit_at hi lo p = (if p < 32 then odd (drop_bit (31 - p) hi) else odd (drop_bit (63 - p) lo))"

primrec write_span :: "nat \<Rightarrow> 32 word \<Rightarrow> 32 word \<Rightarrow> nat \<Rightarrow> bit_writer \<Rightarrow> bit_writer" where
  "write_span 0 hi lo p w = w"
| "write_span (Suc n) hi lo p w = write_span n hi lo (p + 1) (write_bit (bit_at hi lo p) w)"

definition put_bit :: "nat \<Rightarrow> 32 word \<times> 32 word \<Rightarrow> 32 word \<times> 32 word" where
  "put_bit p x = (if p < 32 then (fst x OR push_bit (31 - p) 1, snd x) else (fst x, snd x OR push_bit (63 - p) 1))"

primrec read_span_loop :: "nat \<Rightarrow> nat \<Rightarrow> 32 word \<times> 32 word \<Rightarrow> (32 word \<times> 32 word) bit_reads" where
  "read_span_loop 0 p x r = Inr (x, r)"
| "read_span_loop (Suc n) p x r =
     try_bind (read_bit r) (\<lambda>(b, r). read_span_loop n (p + 1) (if b then put_bit p x else x) r)"

definition read_span :: "nat \<Rightarrow> nat \<Rightarrow> (32 word \<times> 32 word) bit_reads" where
  "read_span start len r = read_span_loop len start (0, 0) r"

definition write_signed :: "int \<Rightarrow> nat \<Rightarrow> bit_writer \<Rightarrow> bit_writer" where
  "write_signed value bits w = write_bits bits (nat (if value < 0 then value + 2 ^ bits else value)) w"

definition read_signed :: "nat \<Rightarrow> int bit_reads" where
  "read_signed bits r =
     try_bind (read_bits bits r) (\<lambda>(u, r). Inr (if 2 ^ (bits - 1) \<le> u then int u - 2 ^ bits else int u, r))"

section \<open>Writing a sample\<close>

definition dod_max :: int where
  "dod_max = 2 ^ 31"

definition safe_int :: "f64 \<Rightarrow> int option" where
  "safe_int v = (case f64_int v of None \<Rightarrow> None | Some i \<Rightarrow> if \<bar>i\<bar> \<le> 2 ^ 53 - 1 then Some i else None)"

text \<open>The first and second difference, when the integer path applies.\<close>

definition int_step :: "stream_slot \<Rightarrow> f64 \<Rightarrow> (int \<times> int) option" where
  "int_step slot v =
     (case (safe_int v, safe_int (ss_prev slot)) of
        (Some i, Some p) \<Rightarrow>
          (let delta = i - p; dod = delta - ss_delta slot
           in if - dod_max \<le> dod \<and> dod < dod_max then Some (delta, dod) else None)
      | _ \<Rightarrow> None)"

definition write_dod :: "int \<Rightarrow> bit_writer \<Rightarrow> bit_writer" where
  "write_dod dod w =
     (if dod = 0 then write_bit False w
      else
        let w = write_bit True w
        in if - 64 \<le> dod \<and> dod \<le> 63 then write_signed dod 7 (write_bit False w)
           else if - 256 \<le> dod \<and> dod \<le> 255 then write_signed dod 9 (write_bits 2 2 w)
           else if - 2048 \<le> dod \<and> dod \<le> 2047 then write_signed dod 12 (write_bits 3 6 w)
           else write_signed dod 32 (write_bits 3 7 w))"

definition write_xor :: "stream_slot \<Rightarrow> 32 word \<Rightarrow> 32 word \<Rightarrow> bit_writer \<Rightarrow> bit_writer \<times> stream_slot" where
  "write_xor slot xhi xlo w =
     (if xhi = 0 \<and> xlo = 0 then (write_bit False w, slot)
      else
        let w = write_bit True w;
            lead = clz64 xhi xlo;
            trail = ctz64 xhi xlo;
            len = 64 - lead - trail
        in if ss_window slot \<and> ss_lead slot \<le> lead \<and> lead + len \<le> ss_lead slot + ss_len slot
           then (write_span (ss_len slot) xhi xlo (ss_lead slot) (write_bit False w), slot)
           else (write_span len xhi xlo lead (write_bits 6 (len - 1) (write_bits 6 lead (write_bit True w))),
                 slot\<lparr>ss_window := True, ss_lead := lead, ss_len := len\<rparr>))"

definition write_stream_value :: "stream_slot \<Rightarrow> f64 \<Rightarrow> bit_writer \<Rightarrow> bit_writer \<times> stream_slot" where
  "write_stream_value slot v w =
     (if \<not> ss_has slot
      then (case f64_to_words v of (hi, lo) \<Rightarrow>
        (write_bits 32 (unat lo) (write_bits 32 (unat hi) w),
         slot\<lparr>ss_has := True, ss_prev := v, ss_delta := 0, ss_window := False\<rparr>))
      else case int_step slot v of
        Some (delta, dod) \<Rightarrow> (write_dod dod (write_bit False w), slot\<lparr>ss_prev := v, ss_delta := delta\<rparr>)
      | None \<Rightarrow>
          (case (f64_to_words v, f64_to_words (ss_prev slot)) of
             ((chi, clo), (phi, plo)) \<Rightarrow>
               (case write_xor slot (chi XOR phi) (clo XOR plo) (write_bit True w) of
                  (w, slot) \<Rightarrow> (w, slot\<lparr>ss_prev := v, ss_delta := 0\<rparr>))))"

section \<open>Reading a sample\<close>

definition read_dod :: "int bit_reads" where
  "read_dod r =
     try_bind (read_bit r) (\<lambda>(b, r). if \<not> b then Inr (0, r) else
     try_bind (read_bit r) (\<lambda>(b, r). if \<not> b then read_signed 7 r else
     try_bind (read_bit r) (\<lambda>(b, r). if \<not> b then read_signed 9 r else
     try_bind (read_bit r) (\<lambda>(b, r). if \<not> b then read_signed 12 r else read_signed 32 r))))"

definition add_delta :: "(f64 \<Rightarrow> int \<Rightarrow> f64) \<Rightarrow> f64 \<Rightarrow> int \<Rightarrow> f64" where
  "add_delta add prev delta =
     (case safe_int prev of
        Some p \<Rightarrow> if \<bar>p + delta\<bar> \<le> 2 ^ 53 then f64_of_int (p + delta) else add prev delta
      | None \<Rightarrow> add prev delta)"

definition read_window :: "stream_slot \<Rightarrow> stream_slot bit_reads" where
  "read_window slot r =
     try_bind (read_bit r) (\<lambda>(b, r). if \<not> b then Inr (slot, r) else
     try_bind (read_bits 6 r) (\<lambda>(lead, r).
     try_bind (read_bits 6 r) (\<lambda>(n, r). Inr (slot\<lparr>ss_window := True, ss_lead := lead, ss_len := n + 1\<rparr>, r))))"

definition read_xor :: "stream_slot \<Rightarrow> (f64 \<times> stream_slot) bit_reads" where
  "read_xor slot r =
     try_bind (read_bit r) (\<lambda>(b, r). if \<not> b then Inr ((ss_prev slot, slot), r) else
     try_bind (read_window slot r) (\<lambda>(slot, r).
     try_bind (read_span (ss_lead slot) (ss_len slot) r) (\<lambda>((xhi, xlo), r).
       case f64_to_words (ss_prev slot) of (phi, plo) \<Rightarrow>
         Inr ((words_to_f64 (xhi XOR phi) (xlo XOR plo), slot), r))))"

definition read_stream_value :: "(f64 \<Rightarrow> int \<Rightarrow> f64) \<Rightarrow> stream_slot \<Rightarrow> (f64 \<times> stream_slot) bit_reads" where
  "read_stream_value add slot r =
     (if \<not> ss_has slot
      then try_bind (read_bits 32 r) (\<lambda>(hi, r). try_bind (read_bits 32 r) (\<lambda>(lo, r).
        let v = words_to_f64 (word_of_nat hi) (word_of_nat lo)
        in Inr ((v, slot\<lparr>ss_has := True, ss_prev := v, ss_delta := 0, ss_window := False\<rparr>), r)))
      else try_bind (read_bit r) (\<lambda>(mode, r).
        if \<not> mode
        then try_bind (read_dod r) (\<lambda>(dod, r).
          let delta = ss_delta slot + dod; v = add_delta add (ss_prev slot) delta
          in Inr ((v, slot\<lparr>ss_prev := v, ss_delta := delta\<rparr>), r))
        else try_bind (read_xor slot r) (\<lambda>((v, slot), r). Inr ((v, slot\<lparr>ss_prev := v, ss_delta := 0\<rparr>), r))))"

section \<open>Words and their bits\<close>

lemma bit_at_bit: "p < 64 \<Longrightarrow> bit_at hi lo p \<longleftrightarrow> (if p < 32 then bit hi (31 - p) else bit lo (63 - p))"
  by (simp add: bit_at_def bit_iff_odd_drop_bit)

lemma words_eqI:
  assumes "\<And>p. p < 64 \<Longrightarrow> bit_at h l p \<longleftrightarrow> bit_at h' l' p"
  shows "h = h' \<and> l = l'"
proof
  show "h = h'"
  proof (rule bit_word_eqI)
    fix n assume n: "n < LENGTH(32)"
    then have "31 - n < 64" "31 - n < 32" "31 - (31 - n) = n" by simp_all
    then show "bit h n \<longleftrightarrow> bit h' n" using assms [of "31 - n"] by (simp add: bit_at_bit)
  qed
  show "l = l'"
  proof (rule bit_word_eqI)
    fix n assume n: "n < LENGTH(32)"
    then have "63 - n < 64" "\<not> 63 - n < 32" "63 - (63 - n) = n" by simp_all
    then show "bit l n \<longleftrightarrow> bit l' n" using assms [of "63 - n"] by (simp add: bit_at_bit)
  qed
qed

lemma words_of_words: "words_to_f64 (fst (f64_to_words v)) (snd (f64_to_words v)) = v"
  by (rule bit_word_eqI) (auto simp: words_to_f64_def f64_to_words_def bit_simps not_less)

lemma words_xor:
  "words_to_f64 (h XOR fst (f64_to_words v)) (l XOR snd (f64_to_words v)) = words_to_f64 h l XOR v"
  by (rule bit_word_eqI) (auto simp: words_to_f64_def f64_to_words_def bit_simps not_less dest: bit_imp_le_length)

lemma xor_words:
  "words_to_f64 (fst (f64_to_words v) XOR fst (f64_to_words u)) (snd (f64_to_words v) XOR snd (f64_to_words u)) = v XOR u"
  by (simp add: words_xor words_of_words)

lemma takeWhile_rev_upt:
  "(\<exists>i<n. P i) \<Longrightarrow>
   length (takeWhile (\<lambda>i. \<not> P i) (rev [0..<n])) < n \<and> P (n - 1 - length (takeWhile (\<lambda>i. \<not> P i) (rev [0..<n]))) \<and>
   (\<forall>j. n - 1 - length (takeWhile (\<lambda>i. \<not> P i) (rev [0..<n])) < j \<longrightarrow> j < n \<longrightarrow> \<not> P j)"
proof (induction n)
  case (Suc n)
  show ?case
  proof (cases "P n")
    case True
    then show ?thesis by (cases n) auto
  next
    case False
    then have "\<exists>i<n. P i" using Suc.prems less_Suc_eq by metis
    define l where "l = length (takeWhile (\<lambda>i. \<not> P i) (rev [0..<n]))"
    have "l < n \<and> P (n - 1 - l) \<and> (\<forall>j. n - 1 - l < j \<longrightarrow> j < n \<longrightarrow> \<not> P j)"
      using Suc.IH [OF \<open>\<exists>i<n. P i\<close>] unfolding l_def .
    then have IH: "l < n" "P (n - 1 - l)" "\<forall>j. n - 1 - l < j \<longrightarrow> j < n \<longrightarrow> \<not> P j" by blast+
    have eq: "length (takeWhile (\<lambda>i. \<not> P i) (rev [0..<Suc n])) = Suc l" "Suc n - 1 - Suc l = n - 1 - l"
      using False by (simp_all add: l_def)
    have "\<not> P j" if "n - 1 - l < j" "j < Suc n" for j
      using that False IH(3) by (cases "j = n") auto
    then show ?thesis unfolding eq using IH(1,2) by blast
  qed
qed simp

lemma clz32:
  assumes "x \<noteq> 0"
  shows "clz32 x < 32" and "bit x (31 - clz32 x)" and "31 - clz32 x < i \<Longrightarrow> \<not> bit x i"
proof -
  obtain j where j: "j < 32" "bit x j"
  proof (rule ccontr)
    assume "\<not> thesis"
    then have "x = 0" using that by (intro bit_word_eqI) auto
    then show False using assms by simp
  qed
  then have ex: "\<exists>j<32. bit x j" by blast
  from takeWhile_rev_upt [OF ex, folded clz32_def]
  have k: "clz32 x < 32 \<and> bit x (31 - clz32 x) \<and> (\<forall>j. 31 - clz32 x < j \<longrightarrow> j < 32 \<longrightarrow> \<not> bit x j)"
    by simp
  then show "clz32 x < 32" "bit x (31 - clz32 x)" by blast+
  show "31 - clz32 x < i \<Longrightarrow> \<not> bit x i"
    using k bit_imp_le_length [of x i] by (cases "i < 32") auto
qed

lemma bit_unat: "bit w n \<longleftrightarrow> odd (unat w div 2 ^ n)" for w :: "32 word"
proof -
  have "bit (unat w) n \<longleftrightarrow> bit w n" by (simp add: bit_unsigned_iff)
  then show ?thesis by (simp add: bit_iff_odd)
qed

lemma low_bits_zero: "(\<forall>i<k. even ((v :: nat) div 2 ^ i)) \<longleftrightarrow> v mod 2 ^ k = 0"
proof (induction k)
  case (Suc k)
  have "v mod 2 ^ Suc k = 0 \<longleftrightarrow> even (v div 2 ^ k) \<and> v mod 2 ^ k = 0" unfolding mod_top_bit by simp
  then show ?case using Suc by (auto simp: less_Suc_eq)
qed simp

lemma pred_div_power:
  assumes "0 < (v :: nat)"
  shows "v mod 2 ^ k \<noteq> 0 \<Longrightarrow> (v - 1) div 2 ^ k = v div 2 ^ k" and "v mod 2 ^ k = 0 \<Longrightarrow> (v - 1) div 2 ^ k = v div 2 ^ k - 1"
proof -
  define q r where "q = v div 2 ^ k" and "r = v mod 2 ^ k"
  then have v: "v = q * 2 ^ k + r" and r: "r < 2 ^ k" by (simp_all add: div_mult_mod_eq)
  show "v mod 2 ^ k \<noteq> 0 \<Longrightarrow> (v - 1) div 2 ^ k = v div 2 ^ k"
  proof -
    assume "v mod 2 ^ k \<noteq> 0"
    then have "r \<noteq> 0" by (simp add: r_def)
    then have "v - 1 = q * 2 ^ k + (r - 1)" "r - 1 < 2 ^ k" using v r by linarith+
    then show ?thesis using div_mod_split(1) [of "r - 1" "2 ^ k" q] by (simp add: q_def)
  qed
  show "v mod 2 ^ k = 0 \<Longrightarrow> (v - 1) div 2 ^ k = v div 2 ^ k - 1"
  proof -
    assume "v mod 2 ^ k = 0"
    then have "r = 0" by (simp add: r_def)
    then obtain p where p: "q = Suc p" using v assms by (cases q) auto
    have "v = p * 2 ^ k + 2 ^ k" using v \<open>r = 0\<close> p by simp
    then have "v - 1 = p * 2 ^ k + (2 ^ k - 1)" using one_le_power [of "2 :: nat" k, OF one_le_numeral] by linarith
    then show ?thesis using div_mod_split(1) [of "2 ^ k - 1" "2 ^ k" p] p by (simp add: q_def)
  qed
qed

lemma ctz32:
  assumes "x \<noteq> 0"
  shows "ctz32 x < 32" and "bit x (ctz32 x)" and "i < ctz32 x \<Longrightarrow> \<not> bit x i"
proof -
  let ?v = "unat x" and ?y = "x AND - x"
  have v: "0 < ?v" using assms by (simp add: unat_gt_0)
  have y: "bit ?y n \<longleftrightarrow> odd (?v div 2 ^ n) \<and> n < 32 \<and> even ((?v - 1) div 2 ^ n)" for n
  proof -
    have "bit (x - 1) n \<longleftrightarrow> odd ((?v - 1) div 2 ^ n)" using unat_minus_one [OF assms] by (simp add: bit_unat)
    then show ?thesis
      unfolding minus_eq_not_minus_1 bit_and_iff bit_not_iff_eq using bit_imp_le_length [of x n] by (auto simp: bit_unat)
  qed
  obtain j where j: "bit x j" using clz32(2) [OF assms] by blast
  define t where "t = (LEAST n. bit x n)"
  have t: "bit x t" "\<forall>i<t. \<not> bit x i" unfolding t_def using LeastI [of "bit x", OF j] not_less_Least by blast+
  have "?v mod 2 ^ t = 0" using t(2) low_bits_zero [of t ?v] by (simp add: bit_unat)
  then have "even ((?v - 1) div 2 ^ t)" using pred_div_power(2) [OF v, of t] t(1) by (simp add: bit_unat)
  then have "bit ?y t" unfolding y using t(1) bit_imp_le_length [OF t(1)] by (simp add: bit_unat)
  then have "?y \<noteq> 0" by auto
  then have k: "bit ?y (ctz32 x)" using clz32(2) unfolding ctz32_def by blast
  show "ctz32 x < 32" by (simp add: ctz32_def)
  show "bit x (ctz32 x)" using k y by (simp add: bit_unat)
  have "?v mod 2 ^ ctz32 x = 0" using k y pred_div_power(1) [OF v] by metis
  then show "i < ctz32 x \<Longrightarrow> \<not> bit x i" using low_bits_zero [of "ctz32 x" ?v] by (simp add: bit_unat)
qed

section \<open>The meaningful bits\<close>

lemma clz64_zero:
  assumes "p < clz64 hi lo" and "p < 64"
  shows "\<not> bit_at hi lo p"
proof (cases "p < 32")
  case True
  have "\<not> bit hi (31 - p)"
    using assms(1) clz32(1) [of hi] clz32(3) [of hi "31 - p"] True by (cases "hi = 0") (auto simp: clz64_def)
  then show ?thesis using True by (simp add: bit_at_bit)
next
  case False
  have "hi = 0" using assms(1) False clz32(1) [of hi] by (auto simp: clz64_def split: if_splits)
  then have "\<not> bit lo (63 - p)"
    using assms clz32(1) [of lo] clz32(3) [of lo "63 - p"] False by (cases "lo = 0") (auto simp: clz64_def)
  then show ?thesis using assms(2) False by (simp add: bit_at_bit)
qed

lemma ctz64_zero:
  assumes "64 - ctz64 hi lo \<le> p" and "p < 64"
  shows "\<not> bit_at hi lo p"
proof (cases "p < 32")
  case True
  have "lo = 0" using assms True ctz32(1) [of lo] by (auto simp: ctz64_def split: if_splits)
  then have "\<not> bit hi (31 - p)"
    using assms ctz32(3) [of hi "31 - p"] True by (cases "hi = 0") (auto simp: ctz64_def)
  then show ?thesis using True by (simp add: bit_at_bit)
next
  case False
  have "\<not> bit lo (63 - p)"
    using assms ctz32(3) [of lo "63 - p"] False by (cases "lo = 0") (auto simp: ctz64_def)
  then show ?thesis using assms(2) False by (simp add: bit_at_bit)
qed

lemma clz_ctz64:
  assumes "\<not> (hi = 0 \<and> lo = 0)"
  shows "clz64 hi lo < 64" and "clz64 hi lo + ctz64 hi lo < 64"
proof -
  show lz: "clz64 hi lo < 64" using assms clz32(1) [of hi] clz32(1) [of lo] by (auto simp: clz64_def)
  have "bit_at hi lo (clz64 hi lo)"
  proof (cases "hi = 0")
    case True
    then have lo: "lo \<noteq> 0" using assms by simp
    have "63 - (32 + clz32 lo) = 31 - clz32 lo" using clz32(1) [OF lo] by simp
    then show ?thesis using True lz clz32(2) [OF lo] lo by (simp add: bit_at_bit clz64_def)
  next
    case False
    then show ?thesis using lz clz32(1,2) [of hi] by (simp add: bit_at_bit clz64_def)
  qed
  then have "\<not> 64 - ctz64 hi lo \<le> clz64 hi lo" using ctz64_zero lz by blast
  then show "clz64 hi lo + ctz64 hi lo < 64" by simp
qed

section \<open>Spans travel unchanged\<close>

text \<open>A writer operation appends the given bits.\<close>

definition emits :: "(bit_writer \<Rightarrow> bit_writer) \<Rightarrow> bool list \<Rightarrow> bool" where
  "emits g bs \<longleftrightarrow> (\<forall>w. bits_fill w < 8 \<longrightarrow> written (g w) = written w @ bs \<and> bits_fill (g w) < 8)"

lemma emits_bit: "emits (write_bit b) [b]"
  by (simp add: emits_def write_bit_appends)

lemma emits_bits: "emits (write_bits n v) (nat_bits n v)"
  by (simp add: emits_def write_bits_appends)

lemma emits_comp: "emits g as \<Longrightarrow> emits h bs \<Longrightarrow> emits (\<lambda>w. h (g w)) (as @ bs)"
  by (simp add: emits_def)

lemma emits_if: "emits f as \<Longrightarrow> emits g bs \<Longrightarrow> emits (\<lambda>w. if b then f w else g w) (if b then as else bs)"
  by simp

definition span_bits :: "32 word \<Rightarrow> 32 word \<Rightarrow> nat \<Rightarrow> nat \<Rightarrow> bool list" where
  "span_bits hi lo p n = map (\<lambda>i. bit_at hi lo (p + i)) [0..<n]"

lemma span_bits_Suc: "span_bits hi lo p (Suc n) = [bit_at hi lo p] @ span_bits hi lo (p + 1) n"
  by (simp add: span_bits_def map_upt_Suc del: upt_Suc)

lemma emits_span: "emits (write_span n hi lo p) (span_bits hi lo p n)"
proof (induction n arbitrary: p)
  case 0
  then show ?case by (simp add: emits_def span_bits_def)
next
  case (Suc n)
  show ?case using emits_comp [OF emits_bit Suc.IH [of "p + 1"], of "bit_at hi lo p"]
    unfolding span_bits_Suc by simp
qed

lemma bit_put_bit:
  assumes "p < 64" and "q < 64"
  shows "bit_at (fst (put_bit p x)) (snd (put_bit p x)) q \<longleftrightarrow> bit_at (fst x) (snd x) q \<or> q = p"
proof -
  have "bit (w OR push_bit k 1 :: 32 word) j \<longleftrightarrow> bit w j \<or> j = k" if "j < 32" for w k j
    using that unfolding bit_or_iff bit_push_bit_iff bit_1_iff by auto
  then show ?thesis using assms by (auto simp: put_bit_def bit_at_bit)
qed

lemma takes_span_loop:
  "p + n \<le> 64 \<Longrightarrow> \<exists>y. takes (read_span_loop n p x) (span_bits hi lo p n) y \<and>
     (\<forall>q<64. bit_at (fst y) (snd y) q \<longleftrightarrow> bit_at (fst x) (snd x) q \<or> (p \<le> q \<and> q < p + n \<and> bit_at hi lo q))"
proof (induction n arbitrary: p x)
  case 0
  show ?case by (intro exI [of _ x]) (auto simp: takes_def span_bits_def)
next
  case (Suc n)
  let ?b = "bit_at hi lo p" and ?x = "if bit_at hi lo p then put_bit p x else x"
  obtain y where y: "takes (read_span_loop n (p + 1) ?x) (span_bits hi lo (p + 1) n) y"
    "\<forall>q<64. bit_at (fst y) (snd y) q \<longleftrightarrow> bit_at (fst ?x) (snd ?x) q \<or> (p + 1 \<le> q \<and> q < p + 1 + n \<and> bit_at hi lo q)"
    using Suc.IH [of "p + 1" ?x] Suc.prems by auto
  have "takes (read_span_loop (Suc n) p x) (span_bits hi lo p (Suc n)) y"
    using takes_bind [where m = read_bit and f = "\<lambda>b. read_span_loop n (p + 1) (if b then put_bit p x else x)", OF takes_bit y(1)]
    unfolding span_bits_Suc by (simp add: takes_def)
  moreover have "bit_at (fst ?x) (snd ?x) q \<longleftrightarrow> bit_at (fst x) (snd x) q \<or> (q = p \<and> bit_at hi lo p)" if "q < 64" for q
    using that bit_put_bit [of p q x] Suc.prems by auto
  moreover have "p \<le> q \<and> q < p + Suc n \<longleftrightarrow> q = p \<or> (p + 1 \<le> q \<and> q < p + 1 + n)" for q by auto
  ultimately have "takes (read_span_loop (Suc n) p x) (span_bits hi lo p (Suc n)) y \<and>
     (\<forall>q<64. bit_at (fst y) (snd y) q \<longleftrightarrow> bit_at (fst x) (snd x) q \<or> (p \<le> q \<and> q < p + Suc n \<and> bit_at hi lo q))"
    using y(2) by metis
  then show ?case by (rule exI)
qed

lemma takes_span:
  assumes "p + n \<le> 64" and "\<And>q. q < 64 \<Longrightarrow> bit_at hi lo q \<Longrightarrow> p \<le> q \<and> q < p + n"
  shows "takes (read_span p n) (span_bits hi lo p n) (hi, lo)"
proof -
  obtain y where y: "takes (read_span_loop n p (0, 0)) (span_bits hi lo p n) y"
    "\<forall>q<64. bit_at (fst y) (snd y) q \<longleftrightarrow> bit_at 0 0 q \<or> (p \<le> q \<and> q < p + n \<and> bit_at hi lo q)"
    using takes_span_loop [OF assms(1), of "(0, 0)" hi lo] unfolding fst_conv snd_conv by blast
  have "fst y = hi \<and> snd y = lo"
    using y(2) assms(2) by (intro words_eqI) (auto simp: bit_at_bit)
  then show ?thesis using y(1) by (cases y) (simp add: read_span_def [abs_def])
qed


section \<open>Fields travel unchanged\<close>

definition signed_bits :: "nat \<Rightarrow> int \<Rightarrow> bool list" where
  "signed_bits n v = nat_bits n (nat (if v < 0 then v + 2 ^ n else v))"

lemma emits_signed: "emits (write_signed v n) (signed_bits n v)"
  unfolding write_signed_def signed_bits_def by (rule emits_bits)

lemma takes_signed:
  assumes "0 < n" and "- (2 ^ (n - 1)) \<le> v" and "v < 2 ^ (n - 1)"
  shows "takes (read_signed n) (signed_bits n v) v"
proof -
  define u where "u = nat (if v < 0 then v + 2 ^ n else v)"
  obtain m where n: "n = Suc m" using assms(1) by (cases n) auto
  have m: "- (2 ^ m) \<le> v" "v < 2 ^ m" "(2 :: int) ^ n = 2 * 2 ^ m" using assms by (simp_all add: n)
  have u: "int u = (if v < 0 then v + 2 ^ n else v)" using m by (simp add: u_def)
  have "int u < 2 ^ n" using m unfolding u by simp
  then have "u < 2 ^ n" by (simp only: of_nat_less_numeral_power_cancel_iff)
  have "2 ^ m \<le> u \<longleftrightarrow> (2 :: int) ^ m \<le> int u" by (simp only: numeral_power_le_of_nat_cancel_iff)
  then have "2 ^ m \<le> u \<longleftrightarrow> v < 0" using m unfolding u by simp
  then have v: "(if 2 ^ (n - 1) \<le> u then int u - 2 ^ n else int u) = v" using u by (simp add: n)
  have "takes (\<lambda>r. Inr (if 2 ^ (n - 1) \<le> u then int u - 2 ^ n else int u, r)) [] v"
    unfolding v by (rule takes_return)
  from takes_bind [where f = "\<lambda>u r. Inr (if 2 ^ (n - 1) \<le> u then int u - 2 ^ n else int u, r)", OF takes_bits [OF \<open>u < 2 ^ n\<close>] this]
  show ?thesis by (simp add: read_signed_def [abs_def] signed_bits_def u_def)
qed

text \<open>A reader operation that branches on a bit.\<close>

lemma takes_no:
  assumes "takes n bs x"
  shows "takes (\<lambda>r. try_bind (read_bit r) (\<lambda>(b, r). if \<not> b then n r else m r)) (False # bs) x"
  using takes_bind [where m = read_bit and f = "\<lambda>b r. if \<not> b then n r else m r" and x = False, OF takes_bit, of bs x] assms
  by simp

lemma takes_yes:
  assumes "takes m bs x"
  shows "takes (\<lambda>r. try_bind (read_bit r) (\<lambda>(b, r). if \<not> b then n r else m r)) (True # bs) x"
  using takes_bind [where m = read_bit and f = "\<lambda>b r. if \<not> b then n r else m r" and x = True, OF takes_bit, of bs x] assms
  by simp

definition dod_bits :: "int \<Rightarrow> bool list" where
  "dod_bits d =
     (if d = 0 then [False]
      else if - 64 \<le> d \<and> d \<le> 63 then True # False # signed_bits 7 d
      else if - 256 \<le> d \<and> d \<le> 255 then True # True # False # signed_bits 9 d
      else if - 2048 \<le> d \<and> d \<le> 2047 then True # True # True # False # signed_bits 12 d
      else True # True # True # True # signed_bits 32 d)"

lemma nat_bits_codes: "nat_bits 2 2 = [True, False]" "nat_bits 3 6 = [True, True, False]" "nat_bits 3 7 = [True, True, True]"
  by (simp_all add: nat_bits_def upt_rec)

lemma emits_dod: "emits (write_dod d) (dod_bits d)"
proof -
  have e: "emits (write_bit False) [False]"
    "emits (\<lambda>w. write_signed d 7 (write_bit False (write_bit True w))) (True # False # signed_bits 7 d)"
    "emits (\<lambda>w. write_signed d 9 (write_bits 2 2 (write_bit True w))) (True # True # False # signed_bits 9 d)"
    "emits (\<lambda>w. write_signed d 12 (write_bits 3 6 (write_bit True w))) (True # True # True # False # signed_bits 12 d)"
    "emits (\<lambda>w. write_signed d 32 (write_bits 3 7 (write_bit True w))) (True # True # True # True # signed_bits 32 d)"
    using emits_bit [of False] emits_comp [OF emits_comp [OF emits_bit [of True] emits_bit [of False]] emits_signed [of d 7]]
      emits_comp [OF emits_comp [OF emits_bit [of True] emits_bits [of 2 2]] emits_signed [of d 9]]
      emits_comp [OF emits_comp [OF emits_bit [of True] emits_bits [of 3 6]] emits_signed [of d 12]]
      emits_comp [OF emits_comp [OF emits_bit [of True] emits_bits [of 3 7]] emits_signed [of d 32]]
    unfolding nat_bits_codes by simp_all
  show ?thesis unfolding dod_bits_def write_dod_def [abs_def] Let_def by (intro emits_if e)
qed

lemma takes_dod:
  assumes "- dod_max \<le> d" and "d < dod_max"
  shows "takes read_dod (dod_bits d) d"
proof -
  consider (zero) "d = 0" | (seven) "d \<noteq> 0" "- 64 \<le> d \<and> d \<le> 63" | (nine) "d \<noteq> 0" "\<not> (- 64 \<le> d \<and> d \<le> 63)" "- 256 \<le> d \<and> d \<le> 255"
    | (twelve) "d \<noteq> 0" "\<not> (- 64 \<le> d \<and> d \<le> 63)" "\<not> (- 256 \<le> d \<and> d \<le> 255)" "- 2048 \<le> d \<and> d \<le> 2047"
    | (long) "d \<noteq> 0" "\<not> (- 64 \<le> d \<and> d \<le> 63)" "\<not> (- 256 \<le> d \<and> d \<le> 255)" "\<not> (- 2048 \<le> d \<and> d \<le> 2047)" by blast
  then show ?thesis
  proof cases
    case zero
    then have "dod_bits d = [False]" by (simp add: dod_bits_def)
    then show ?thesis unfolding zero read_dod_def [abs_def] by (simp only:) (rule takes_no takes_return)+
  next
    case seven
    then have "dod_bits d = True # False # signed_bits 7 d" by (simp add: dod_bits_def)
    then show ?thesis unfolding read_dod_def [abs_def]
      by (simp only:) (rule takes_yes takes_no takes_signed | use seven in simp)+
  next
    case nine
    then have "dod_bits d = True # True # False # signed_bits 9 d" unfolding dod_bits_def by (simp only: if_False if_True simp_thms)
    then show ?thesis unfolding read_dod_def [abs_def]
      by (simp only:) (rule takes_yes takes_no takes_signed | use nine in simp)+
  next
    case twelve
    then have "dod_bits d = True # True # True # False # signed_bits 12 d" unfolding dod_bits_def by (simp only: if_False if_True simp_thms)
    then show ?thesis unfolding read_dod_def [abs_def]
      by (simp only:) (rule takes_yes takes_no takes_signed | use twelve in simp)+
  next
    case long
    then have "dod_bits d = True # True # True # True # signed_bits 32 d" unfolding dod_bits_def by (simp only: if_False if_True simp_thms)
    then show ?thesis unfolding read_dod_def [abs_def]
      by (simp only:) (rule takes_yes takes_signed | use assms in \<open>simp add: dod_max_def\<close>)+
  qed
qed

section \<open>The XOR path\<close>

definition stream_slot_ok :: "stream_slot \<Rightarrow> bool" where
  "stream_slot_ok slot \<longleftrightarrow> (ss_window slot \<longrightarrow> ss_lead slot + ss_len slot \<le> 64)"

definition reuses :: "stream_slot \<Rightarrow> 32 word \<Rightarrow> 32 word \<Rightarrow> bool" where
  "reuses slot xhi xlo \<longleftrightarrow> ss_window slot \<and> ss_lead slot \<le> clz64 xhi xlo \<and>
     clz64 xhi xlo + (64 - clz64 xhi xlo - ctz64 xhi xlo) \<le> ss_lead slot + ss_len slot"

definition xor_bits :: "stream_slot \<Rightarrow> 32 word \<Rightarrow> 32 word \<Rightarrow> bool list" where
  "xor_bits slot xhi xlo =
     (let lead = clz64 xhi xlo; len = 64 - lead - ctz64 xhi xlo in
      if xhi = 0 \<and> xlo = 0 then [False]
      else if reuses slot xhi xlo then True # False # span_bits xhi xlo (ss_lead slot) (ss_len slot)
      else True # True # nat_bits 6 lead @ nat_bits 6 (len - 1) @ span_bits xhi xlo lead len)"

definition window_after :: "stream_slot \<Rightarrow> 32 word \<Rightarrow> 32 word \<Rightarrow> stream_slot" where
  "window_after slot xhi xlo =
     (if xhi = 0 \<and> xlo = 0 \<or> reuses slot xhi xlo then slot
      else slot\<lparr>ss_window := True, ss_lead := clz64 xhi xlo, ss_len := 64 - clz64 xhi xlo - ctz64 xhi xlo\<rparr>)"

lemma write_xor_slot: "snd (write_xor slot xhi xlo w) = window_after slot xhi xlo"
  by (simp add: write_xor_def window_after_def reuses_def Let_def)

lemma emits_xor: "emits (\<lambda>w. fst (write_xor slot xhi xlo w)) (xor_bits slot xhi xlo)"
proof -
  let ?lead = "clz64 xhi xlo" and ?len = "64 - clz64 xhi xlo - ctz64 xhi xlo"
  have "emits (\<lambda>w. write_span (ss_len slot) xhi xlo (ss_lead slot) (write_bit False (write_bit True w)))
      (True # False # span_bits xhi xlo (ss_lead slot) (ss_len slot))"
    using emits_comp [OF emits_comp [OF emits_bit [of True] emits_bit [of False]] emits_span] by simp
  moreover have "emits (\<lambda>w. write_span ?len xhi xlo ?lead (write_bits 6 (?len - 1) (write_bits 6 ?lead (write_bit True (write_bit True w)))))
      (True # True # nat_bits 6 ?lead @ nat_bits 6 (?len - 1) @ span_bits xhi xlo ?lead ?len)"
    using emits_comp [OF emits_comp [OF emits_comp [OF emits_comp [OF emits_bit [of True] emits_bit [of True]] emits_bits] emits_bits] emits_span]
    by simp
  ultimately show ?thesis
    unfolding xor_bits_def write_xor_def Let_def reuses_def if_distrib [of fst] fst_conv by (intro emits_if emits_bit)
qed

lemma takes_xor:
  assumes ok: "stream_slot_ok slot"
  shows "takes (read_xor (slot\<lparr>ss_prev := p\<rparr>)) (xor_bits slot xhi xlo)
    (words_to_f64 xhi xlo XOR p, window_after slot xhi xlo\<lparr>ss_prev := p\<rparr>)"
proof (cases "xhi = 0 \<and> xlo = 0")
  case True
  then have "words_to_f64 xhi xlo = 0" by (simp add: words_to_f64_def)
  moreover have "takes (read_xor (slot\<lparr>ss_prev := p\<rparr>)) [False] (p, slot\<lparr>ss_prev := p\<rparr>)"
    unfolding read_xor_def [abs_def] by (rule takes_no) (simp add: takes_return)
  ultimately show ?thesis using True by (simp add: xor_bits_def window_after_def)
next
  case False
  let ?lead = "clz64 xhi xlo" and ?len = "64 - clz64 xhi xlo - ctz64 xhi xlo"
  let ?s = "window_after slot xhi xlo\<lparr>ss_prev := p\<rparr>"
  have lead: "?lead < 64" "?lead + ctz64 xhi xlo < 64" using clz_ctz64 [OF False] by auto
  have inside: "?lead \<le> q \<and> q < ?lead + ?len" if "q < 64" "bit_at xhi xlo q" for q
  proof -
    have "\<not> q < ?lead" using clz64_zero that by blast
    moreover have "\<not> 64 - ctz64 xhi xlo \<le> q" using ctz64_zero that by blast
    ultimately show ?thesis using lead by simp
  qed
  have xor: "words_to_f64 (xhi XOR fst (f64_to_words p)) (xlo XOR snd (f64_to_words p)) = words_to_f64 xhi xlo XOR p"
    by (rule words_xor)
  have tail: "takes (\<lambda>r. try_bind (read_span (ss_lead ?s) (ss_len ?s) r) (\<lambda>((xhi, xlo), r).
       case f64_to_words (ss_prev ?s) of (phi, plo) \<Rightarrow> Inr ((words_to_f64 (xhi XOR phi) (xlo XOR plo), ?s), r)))
     (span_bits xhi xlo (ss_lead ?s) (ss_len ?s) @ []) (words_to_f64 xhi xlo XOR p, ?s)"
  proof -
    have "takes (read_span (ss_lead ?s) (ss_len ?s)) (span_bits xhi xlo (ss_lead ?s) (ss_len ?s)) (xhi, xlo)"
    proof (rule takes_span)
      show "ss_lead ?s + ss_len ?s \<le> 64"
        using ok lead False by (auto simp: window_after_def reuses_def stream_slot_ok_def)
      show "ss_lead ?s \<le> q \<and> q < ss_lead ?s + ss_len ?s" if "q < 64" "bit_at xhi xlo q" for q
        using inside [OF that] False by (auto simp: window_after_def reuses_def)
    qed
    then show ?thesis by (rule takes_bind) (use xor in \<open>simp add: case_prod_beta takes_return\<close>)
  qed
  have window: "takes (read_window (slot\<lparr>ss_prev := p\<rparr>))
      (if reuses slot xhi xlo then [False] else True # nat_bits 6 ?lead @ nat_bits 6 (?len - 1) @ []) ?s"
  proof (cases "reuses slot xhi xlo")
    case True
    have "takes (read_window (slot\<lparr>ss_prev := p\<rparr>)) [False] (slot\<lparr>ss_prev := p\<rparr>)"
      unfolding read_window_def [abs_def] by (rule takes_no) (rule takes_return)
    then show ?thesis using True by (simp add: window_after_def)
  next
    case fresh: False
    have s: "?s = slot\<lparr>ss_prev := p, ss_window := True, ss_lead := ?lead, ss_len := ?len - 1 + 1\<rparr>"
    proof -
      have "window_after slot xhi xlo = slot\<lparr>ss_window := True, ss_lead := ?lead, ss_len := ?len\<rparr>"
        unfolding window_after_def using fresh False by (simp only: if_False simp_thms)
      moreover have "?len - 1 + 1 = ?len" using lead by simp
      ultimately show ?thesis by simp
    qed
    have b: "?lead < 2 ^ 6" "?len - 1 < 2 ^ 6" using lead by auto
    have "takes (read_window (slot\<lparr>ss_prev := p\<rparr>)) (True # nat_bits 6 ?lead @ nat_bits 6 (?len - 1) @ []) ?s"
      unfolding read_window_def [abs_def] s
      by (rule takes_yes, rule takes_bind [OF takes_bits [OF b(1)]], rule takes_bind [OF takes_bits [OF b(2)]])
        (simp add: takes_return)
    then show ?thesis using fresh by simp
  qed
  have "takes (read_xor (slot\<lparr>ss_prev := p\<rparr>))
      (True # (if reuses slot xhi xlo then [False] else True # nat_bits 6 ?lead @ nat_bits 6 (?len - 1) @ []) @
        span_bits xhi xlo (ss_lead ?s) (ss_len ?s) @ []) (words_to_f64 xhi xlo XOR p, ?s)"
    unfolding read_xor_def [abs_def] by (rule takes_yes, rule takes_bind, rule window, rule tail)
  moreover have "xor_bits slot xhi xlo = True # (if reuses slot xhi xlo then [False] else True # nat_bits 6 ?lead @ nat_bits 6 (?len - 1) @ []) @
        span_bits xhi xlo (ss_lead ?s) (ss_len ?s) @ []"
    using False by (auto simp: xor_bits_def window_after_def Let_def)
  ultimately show ?thesis by simp
qed

section \<open>Samples travel unchanged\<close>

definition sample_bits :: "stream_slot \<Rightarrow> f64 \<Rightarrow> bool list" where
  "sample_bits slot v =
     (if \<not> ss_has slot then nat_bits 32 (unat (fst (f64_to_words v))) @ nat_bits 32 (unat (snd (f64_to_words v)))
      else case int_step slot v of
        Some (delta, dod) \<Rightarrow> False # dod_bits dod
      | None \<Rightarrow> True # xor_bits slot (fst (f64_to_words v) XOR fst (f64_to_words (ss_prev slot)))
          (snd (f64_to_words v) XOR snd (f64_to_words (ss_prev slot))))"

definition slot_after :: "stream_slot \<Rightarrow> f64 \<Rightarrow> stream_slot" where
  "slot_after slot v = snd (write_stream_value slot v new_bit_writer)"

lemma slot_after_eq:
  "slot_after slot v =
     (if \<not> ss_has slot then slot\<lparr>ss_has := True, ss_prev := v, ss_delta := 0, ss_window := False\<rparr>
      else case int_step slot v of
        Some (delta, dod) \<Rightarrow> slot\<lparr>ss_prev := v, ss_delta := delta\<rparr>
      | None \<Rightarrow> window_after slot (fst (f64_to_words v) XOR fst (f64_to_words (ss_prev slot)))
          (snd (f64_to_words v) XOR snd (f64_to_words (ss_prev slot)))\<lparr>ss_prev := v, ss_delta := 0\<rparr>)"
  by (simp add: slot_after_def write_stream_value_def case_prod_beta write_xor_slot split: option.split)

lemma write_sample_slot: "snd (write_stream_value slot v w) = slot_after slot v"
  by (simp add: slot_after_def write_stream_value_def case_prod_beta write_xor_slot split: option.split)

lemma emits_sample: "emits (\<lambda>w. fst (write_stream_value slot v w)) (sample_bits slot v)"
proof -
  have "emits (\<lambda>w. fst (write_xor slot xhi xlo (write_bit True w))) (True # xor_bits slot xhi xlo)" for xhi xlo
    using emits_comp [OF emits_bit emits_xor] by simp
  moreover have "emits (\<lambda>w. write_dod d (write_bit False w)) (False # dod_bits d)" for d
    using emits_comp [OF emits_bit emits_dod] by simp
  moreover have "emits (\<lambda>w. write_bits 32 lo (write_bits 32 hi w)) (nat_bits 32 hi @ nat_bits 32 lo)" for hi lo
    by (rule emits_comp [OF emits_bits emits_bits])
  ultimately show ?thesis
    by (simp add: sample_bits_def write_stream_value_def case_prod_beta split: option.split)
qed

lemma window_after_keeps [simp]: "ss_has (window_after slot xhi xlo) = ss_has slot" "ss_prev (window_after slot xhi xlo) = ss_prev slot"
  by (simp_all add: window_after_def)

lemma slot_ok_after: "stream_slot_ok slot \<Longrightarrow> stream_slot_ok (slot_after slot v)"
proof -
  assume ok: "stream_slot_ok slot"
  have "stream_slot_ok (window_after slot xhi xlo)" for xhi xlo
    using ok clz_ctz64 [of xhi xlo] by (auto simp: stream_slot_ok_def window_after_def)
  then show ?thesis using ok by (simp add: slot_after_eq stream_slot_ok_def split: option.split)
qed

lemma words_bound: "unat (w :: 32 word) < 2 ^ 32"
  using unsigned_less [of w] by simp

lemma read_sample_has:
  assumes "ss_has slot"
  shows "read_stream_value add slot = (\<lambda>r. try_bind (read_bit r) (\<lambda>(mode, r).
        if \<not> mode
        then try_bind (read_dod r) (\<lambda>(dod, r).
          let delta = ss_delta slot + dod; v = add_delta add (ss_prev slot) delta
          in Inr ((v, slot\<lparr>ss_prev := v, ss_delta := delta\<rparr>), r))
        else try_bind (read_xor slot r) (\<lambda>((v, slot), r). Inr ((v, slot\<lparr>ss_prev := v, ss_delta := 0\<rparr>), r))))"
  using assms by (intro ext) (simp add: read_stream_value_def)

lemma slot_swap: "slot\<lparr>ss_delta := d, ss_prev := p\<rparr> = slot\<lparr>ss_prev := p, ss_delta := d\<rparr>"
  by (cases slot) simp

text \<open>The decoder may hold another previous number: it then reads another number.\<close>

lemma takes_sample_xor:
  assumes "stream_slot_ok slot" and "ss_has slot" and "int_step slot v = None"
  shows "takes (read_stream_value add (slot\<lparr>ss_prev := p\<rparr>)) (sample_bits slot v)
    (v XOR ss_prev slot XOR p, (slot_after slot v)\<lparr>ss_prev := v XOR ss_prev slot XOR p\<rparr>)"
proof -
  let ?xhi = "fst (f64_to_words v) XOR fst (f64_to_words (ss_prev slot))"
    and ?xlo = "snd (f64_to_words v) XOR snd (f64_to_words (ss_prev slot))"
  let ?v = "v XOR ss_prev slot XOR p"
  have "takes (read_xor (slot\<lparr>ss_prev := p\<rparr>)) (xor_bits slot ?xhi ?xlo) (?v, window_after slot ?xhi ?xlo\<lparr>ss_prev := p\<rparr>)"
    using takes_xor [OF assms(1), of p ?xhi ?xlo] by (simp only: xor_words xor.assoc)
  then have "takes (\<lambda>r. try_bind (read_xor (slot\<lparr>ss_prev := p\<rparr>) r) (\<lambda>((v, slot), r). Inr ((v, slot\<lparr>ss_prev := v, ss_delta := 0\<rparr>), r)))
      (xor_bits slot ?xhi ?xlo @ []) (?v, window_after slot ?xhi ?xlo\<lparr>ss_prev := ?v, ss_delta := 0\<rparr>)"
    by (rule takes_bind) (simp add: takes_return)
  then have "takes (read_stream_value add (slot\<lparr>ss_prev := p\<rparr>)) (True # xor_bits slot ?xhi ?xlo @ [])
      (?v, window_after slot ?xhi ?xlo\<lparr>ss_prev := ?v, ss_delta := 0\<rparr>)"
    by (subst read_sample_has) (use assms(2) in simp, rule takes_yes)
  then show ?thesis using assms(2,3) by (simp add: sample_bits_def slot_after_eq slot_swap)
qed

lemma takes_sample_int:
  assumes "ss_has slot" and "int_step slot v = Some (delta, dod)" and "safe_int p = safe_int (ss_prev slot)"
  shows "takes (read_stream_value add (slot\<lparr>ss_prev := p\<rparr>)) (sample_bits slot v)
    (f64_of_int (the (safe_int v)), (slot_after slot v)\<lparr>ss_prev := f64_of_int (the (safe_int v))\<rparr>)"
proof -
  from assms(2) obtain i q where iq: "safe_int v = Some i" "safe_int (ss_prev slot) = Some q"
    "delta = i - q" "dod = delta - ss_delta slot" "- dod_max \<le> dod" "dod < dod_max"
    by (auto simp: int_step_def Let_def split: option.splits if_splits)
  have "\<bar>i\<bar> \<le> 2 ^ 53" using iq(1) by (auto simp: safe_int_def split: option.splits if_splits)
  then have add: "add_delta add p (ss_delta slot + dod) = f64_of_int i"
    using assms(3) iq by (simp add: add_delta_def)
  have "takes (\<lambda>r. try_bind (read_dod r) (\<lambda>(dod, r).
          let delta = ss_delta slot + dod; v = add_delta add p delta
          in Inr ((v, slot\<lparr>ss_prev := v, ss_delta := delta\<rparr>), r)))
      (dod_bits dod @ []) (f64_of_int i, slot\<lparr>ss_prev := f64_of_int i, ss_delta := delta\<rparr>)"
    using takes_dod [OF iq(5,6)] by (rule takes_bind) (use add iq(4) in \<open>simp add: Let_def takes_return\<close>)
  then have "takes (read_stream_value add (slot\<lparr>ss_prev := p\<rparr>)) (False # dod_bits dod @ [])
      (f64_of_int i, slot\<lparr>ss_prev := f64_of_int i, ss_delta := delta\<rparr>)"
    by (subst read_sample_has) (use assms(1) in simp, rule takes_no, simp)
  then show ?thesis using assms(1,2) iq(1) by (simp add: sample_bits_def slot_after_eq slot_swap)
qed

lemma slot_after_prev: "ss_prev (slot_after slot v) = v" "ss_has (slot_after slot v)"
  by (auto simp: slot_after_eq split: option.split)

lemma slot_keep: "ss_prev slot = p \<Longrightarrow> slot\<lparr>ss_prev := p\<rparr> = slot"
  by (cases slot) simp

lemma takes_sample:
  assumes "stream_slot_ok slot" and "ss_has slot \<longrightarrow> v \<noteq> f64_neg_zero"
  shows "takes (read_stream_value add slot) (sample_bits slot v) (v, slot_after slot v)"
proof (cases "ss_has slot")
  case False
  have v: "words_to_f64 (word_of_nat (unat (fst (f64_to_words v)))) (word_of_nat (unat (snd (f64_to_words v)))) = v"
    by (simp add: words_of_words)
  have second: "takes (\<lambda>r. try_bind (read_bits 32 r) (\<lambda>(lo, r).
        let v = words_to_f64 (word_of_nat (unat (fst (f64_to_words v)))) (word_of_nat lo)
        in Inr ((v, slot\<lparr>ss_has := True, ss_prev := v, ss_delta := 0, ss_window := False\<rparr>), r)))
      (nat_bits 32 (unat (snd (f64_to_words v))) @ []) (v, slot_after slot v)"
    by (rule takes_bind, rule takes_bits, rule words_bound) (use v False in \<open>simp add: Let_def takes_return slot_after_eq\<close>)
  have "takes (\<lambda>r. try_bind (read_bits 32 r) (\<lambda>(hi, r). try_bind (read_bits 32 r) (\<lambda>(lo, r).
        let v = words_to_f64 (word_of_nat hi) (word_of_nat lo)
        in Inr ((v, slot\<lparr>ss_has := True, ss_prev := v, ss_delta := 0, ss_window := False\<rparr>), r))))
      (nat_bits 32 (unat (fst (f64_to_words v))) @ nat_bits 32 (unat (snd (f64_to_words v))) @ []) (v, slot_after slot v)"
    by (rule takes_bind, rule takes_bits, rule words_bound, rule second)
  then show ?thesis using False by (simp add: read_stream_value_def [abs_def] sample_bits_def)
next
  case has: True
  show ?thesis
  proof (cases "int_step slot v")
    case None
    then show ?thesis using takes_sample_xor [OF assms(1) has None, of add "ss_prev slot"] slot_keep [OF slot_after_prev(1) [of slot v]]
      by simp
  next
    case (Some s)
    then obtain delta dod where s: "int_step slot v = Some (delta, dod)" by (cases s) auto
    then obtain i where i: "safe_int v = Some i" by (auto simp: int_step_def split: option.splits)
    then have "f64_of_int i = v"
      using assms(2) has by (intro f64_of_int_int) (auto simp: safe_int_def split: option.splits if_splits)
    then show ?thesis using takes_sample_int [OF has s refl, of add] slot_keep [OF slot_after_prev(1) [of slot v]]
        slot_keep [OF refl, of slot] i by simp
  qed
qed

section \<open>Frames over many series\<close>

text \<open>A frame is one bit block with a sample of some series each; every series has its slot on either
  side, kept from frame to frame.\<close>

fun write_items :: "(nat \<Rightarrow> stream_slot) \<Rightarrow> (nat \<times> f64) list \<Rightarrow> bit_writer \<Rightarrow> bit_writer \<times> (nat \<Rightarrow> stream_slot)" where
  "write_items slots [] w = (w, slots)"
| "write_items slots ((k, v) # items) w =
     (case write_stream_value (slots k) v w of (w, slot) \<Rightarrow> write_items (slots(k := slot)) items w)"

fun read_items :: "(f64 \<Rightarrow> int \<Rightarrow> f64) \<Rightarrow> (nat \<Rightarrow> stream_slot) \<Rightarrow> nat list \<Rightarrow> (f64 list \<times> (nat \<Rightarrow> stream_slot)) bit_reads" where
  "read_items add slots [] r = Inr (([], slots), r)"
| "read_items add slots (k # ks) r =
     try_bind (read_stream_value add (slots k) r) (\<lambda>((v, slot), r).
     try_bind (read_items add (slots(k := slot)) ks r) (\<lambda>((vs, slots), r). Inr ((v # vs, slots), r)))"

fun encode_frames :: "(nat \<Rightarrow> stream_slot) \<Rightarrow> (nat \<times> f64) list list \<Rightarrow> byte list list" where
  "encode_frames slots [] = []"
| "encode_frames slots (f # fs) =
     (case write_items slots f new_bit_writer of (w, slots) \<Rightarrow> finish_bits w # encode_frames slots fs)"

fun decode_frames :: "(f64 \<Rightarrow> int \<Rightarrow> f64) \<Rightarrow> (nat \<Rightarrow> stream_slot) \<Rightarrow> (nat list \<times> byte list) list \<Rightarrow> range_error + f64 list list" where
  "decode_frames add slots [] = Inr []"
| "decode_frames add slots ((ks, bytes) # fs) =
     try_bind (read_items add slots ks (new_bit_reader bytes)) (\<lambda>((vs, slots), r).
     try_bind (decode_frames add slots fs) (\<lambda>vss. Inr (vs # vss)))"

definition fresh_slots :: "nat \<Rightarrow> stream_slot" where
  "fresh_slots k = create_stream_slot"

text \<open>What the receiver is told of a run of frames: which series each sample belongs to, and the bytes.\<close>

definition sent_frames :: "(nat \<times> f64) list list \<Rightarrow> (nat list \<times> byte list) list" where
  "sent_frames fs = zip (map (map fst) fs) (encode_frames fresh_slots fs)"

fun items_bits :: "(nat \<Rightarrow> stream_slot) \<Rightarrow> (nat \<times> f64) list \<Rightarrow> bool list" where
  "items_bits slots [] = []"
| "items_bits slots ((k, v) # items) = sample_bits (slots k) v @ items_bits (slots(k := slot_after (slots k) v)) items"

fun slots_after :: "(nat \<Rightarrow> stream_slot) \<Rightarrow> (nat \<times> f64) list \<Rightarrow> nat \<Rightarrow> stream_slot" where
  "slots_after slots [] = slots"
| "slots_after slots ((k, v) # items) = slots_after (slots(k := slot_after (slots k) v)) items"

lemma write_items_emits:
  "bits_fill w < 8 \<Longrightarrow> snd (write_items slots items w) = slots_after slots items \<and>
     written (fst (write_items slots items w)) = written w @ items_bits slots items \<and> bits_fill (fst (write_items slots items w)) < 8"
proof (induction items arbitrary: slots w)
  case (Cons item items)
  obtain k v where item: "item = (k, v)" by fastforce
  have w: "written (fst (write_stream_value (slots k) v w)) = written w @ sample_bits (slots k) v"
    "bits_fill (fst (write_stream_value (slots k) v w)) < 8"
    using emits_sample [of "slots k" v] Cons.prems by (simp_all add: emits_def)
  show ?case using Cons.IH [OF w(2), of "slots(k := slot_after (slots k) v)"] w(1) by (simp add: item case_prod_beta write_sample_slot del: fun_upd_apply)
qed simp

lemma read_frame:
  assumes "takes m bs x" and "written w = bs" and "bits_fill w < 8"
  shows "\<exists>r. m (new_bit_reader (finish_bits w)) = Inr (x, r)"
  using assms finish_bits_view [OF assms(3)] unfolding takes_def by (metis unread_new)

lemma read_items_takes:
  assumes "\<forall>k. stream_slot_ok (slots k)" and "\<forall>(k, v) \<in> set items. v \<noteq> f64_neg_zero"
  shows "takes (read_items add slots (map fst items)) (items_bits slots items) (map snd items, slots_after slots items)"
  using assms
proof (induction items arbitrary: slots)
  case Nil
  then show ?case by (simp add: takes_def)
next
  case (Cons item items)
  obtain k v where item: "item = (k, v)" by fastforce
  let ?slots = "slots(k := slot_after (slots k) v)"
  have "\<forall>k. stream_slot_ok (?slots k)" using Cons.prems(1) slot_ok_after by simp
  then have "takes (read_items add ?slots (map fst items)) (items_bits ?slots items) (map snd items, slots_after ?slots items)"
    using Cons.IH [of ?slots] Cons.prems(2) by (simp del: fun_upd_apply)
  then have "takes (\<lambda>r. try_bind (read_items add ?slots (map fst items) r) (\<lambda>((vs, slots), r). Inr ((v # vs, slots), r)))
      (items_bits ?slots items @ []) (v # map snd items, slots_after ?slots items)"
    by (rule takes_bind) (simp add: takes_return)
  then have rest: "takes (\<lambda>r. case (v, slot_after (slots k) v) of (v, slot) \<Rightarrow>
      try_bind (read_items add (slots(k := slot)) (map fst items) r) (\<lambda>((vs, slots), r). Inr ((v # vs, slots), r)))
      (items_bits ?slots items) (v # map snd items, slots_after ?slots items)" by simp
  have "takes (read_stream_value add (slots k)) (sample_bits (slots k) v) (v, slot_after (slots k) v)"
    using Cons.prems by (intro takes_sample) (auto simp: item)
  from takes_bind [where f = "\<lambda>(v, slot) r. try_bind (read_items add (slots(k := slot)) (map fst items) r) (\<lambda>((vs, slots), r). Inr ((v # vs, slots), r))",
      OF this, of "items_bits ?slots items"] rest
  show ?case by (simp add: takes_def item)
qed

lemma slots_ok_after: "\<forall>k. stream_slot_ok (slots k) \<Longrightarrow> \<forall>k. stream_slot_ok (slots_after slots items k)"
proof (induction items arbitrary: slots)
  case (Cons item items)
  then show ?case using slot_ok_after by (cases item) simp
qed simp

lemma fresh_slots_ok: "stream_slot_ok (fresh_slots k)"
  by (simp add: stream_slot_ok_def fresh_slots_def create_stream_slot_def)

lemma decode_encode:
  assumes "\<forall>k. stream_slot_ok (slots k)" and "\<forall>f \<in> set fs. \<forall>(k, v) \<in> set f. v \<noteq> f64_neg_zero"
  shows "decode_frames add slots (zip (map (map fst) fs) (encode_frames slots fs)) = Inr (map (map snd) fs)"
  using assms
proof (induction fs arbitrary: slots)
  case (Cons f fs)
  note w = write_items_emits [OF written_new(2), of slots f, unfolded written_new append_Nil]
  have "takes (read_items add slots (map fst f)) (items_bits slots f) (map snd f, slots_after slots f)"
    using Cons.prems by (intro read_items_takes) auto
  from read_frame [OF this] w obtain r where
    "read_items add slots (map fst f) (new_bit_reader (finish_bits (fst (write_items slots f new_bit_writer)))) = Inr ((map snd f, slots_after slots f), r)"
    by blast
  moreover have "decode_frames add (slots_after slots f) (zip (map (map fst) fs) (encode_frames (slots_after slots f) fs)) = Inr (map (map snd) fs)"
    using Cons.prems slots_ok_after by (intro Cons.IH) auto
  ultimately show ?case using w by (simp add: case_prod_beta)
qed simp

section \<open>Differences stay small\<close>

text \<open>From the lowest safe integer upwards, a first difference that grows by less than \<open>2 ^ 31\<close> per
  sample cannot exceed the square root of the distance travelled.\<close>

definition delta_ok :: "stream_slot \<Rightarrow> bool" where
  "delta_ok slot \<longleftrightarrow>
     (case safe_int (ss_prev slot) of
        None \<Rightarrow> ss_delta slot = 0
      | Some p \<Rightarrow> (ss_delta slot)\<^sup>2 \<le> 2 ^ 32 * (2 ^ 53 + (if 0 \<le> ss_delta slot then p else - p)))"

lemma delta_grows:
  fixes d e p :: int
  assumes "0 \<le> p + d + e" and "0 \<le> p" and "0 \<le> d + e" and "e \<le> 2 ^ 31" and "0 \<le> d \<longrightarrow> d\<^sup>2 \<le> 2 ^ 32 * p"
  shows "(d + e)\<^sup>2 \<le> 2 ^ 32 * (p + d + e)"
proof (cases "d + e \<le> 2 ^ 31")
  case True
  have "(d + e)\<^sup>2 \<le> 2 ^ 31 * (d + e)"
    unfolding power2_eq_square using mult_right_mono [OF True assms(3)] by simp
  also have "\<dots> \<le> 2 ^ 32 * (p + d + e)" using assms(2,3) by simp
  finally show ?thesis .
next
  case False
  then have d: "0 \<le> d" "d + e - 2 ^ 31 \<le> d" using assms(4) by auto
  have "(d + e)\<^sup>2 = (d + e - 2 ^ 31)\<^sup>2 + 2 ^ 32 * (d + e) - 2 ^ 62" by (simp add: power2_eq_square algebra_simps)
  also have "(d + e - 2 ^ 31)\<^sup>2 \<le> d\<^sup>2" using False d by (intro power_mono) auto
  also have "d\<^sup>2 \<le> 2 ^ 32 * p" using assms(5) d(1) by simp
  finally show ?thesis by (simp add: algebra_simps)
qed

lemma safe_int_bound: "safe_int v = Some i \<Longrightarrow> \<bar>i\<bar> \<le> 2 ^ 53 - 1"
  by (auto simp: safe_int_def split: option.splits if_splits)

lemma delta_ok_step:
  assumes ok: "delta_ok slot"
  shows "delta_ok (slot_after slot v)"
proof (cases "ss_has slot \<and> int_step slot v \<noteq> None")
  case True
  then obtain delta dod where s: "int_step slot v = Some (delta, dod)" by auto
  then obtain i p where ip: "safe_int v = Some i" "safe_int (ss_prev slot) = Some p"
    "delta = i - p" "delta = ss_delta slot + dod" "- (2 ^ 31) \<le> dod" "dod < 2 ^ 31"
    by (auto simp: int_step_def dod_max_def Let_def split: option.splits if_splits)
  let ?d = "ss_delta slot"
  have b: "\<bar>i\<bar> \<le> 2 ^ 53 - 1" "\<bar>p\<bar> \<le> 2 ^ 53 - 1" using safe_int_bound ip(1,2) by auto
  have old: "?d\<^sup>2 \<le> 2 ^ 32 * (2 ^ 53 + (if 0 \<le> ?d then p else - p))" using ok ip(2) by (simp add: delta_ok_def)
  have "delta\<^sup>2 \<le> 2 ^ 32 * (2 ^ 53 + (if 0 \<le> delta then i else - i))"
  proof (cases "0 \<le> delta")
    case True
    have "(?d + dod)\<^sup>2 \<le> 2 ^ 32 * ((2 ^ 53 + p) + ?d + dod)"
      by (rule delta_grows) (use True b ip old in auto)
    then show ?thesis using True ip(3,4) by (simp add: algebra_simps)
  next
    case False
    have "0 \<le> - ?d \<longrightarrow> (- ?d)\<^sup>2 \<le> 2 ^ 32 * (2 ^ 53 - p)"
      using old b(2) by (cases "?d = 0") auto
    then have "(- ?d + - dod)\<^sup>2 \<le> 2 ^ 32 * ((2 ^ 53 - p) + - ?d + - dod)"
      using False b ip by (intro delta_grows) auto
    then show ?thesis using False ip(3,4) by (simp add: algebra_simps power2_eq_square)
  qed
  then show ?thesis using True s ip by (simp add: slot_after_eq delta_ok_def)
next
  case False
  have "delta_ok slot'" if "ss_delta slot' = 0" for slot'
    using that safe_int_bound [of "ss_prev slot'"] by (auto simp: delta_ok_def split: option.split)
  then show ?thesis using False by (auto simp: slot_after_eq split: option.split)
qed

interpretation slots: machine create_stream_slot slot_after delta_ok
  by unfold_locales (simp_all add: delta_ok_step, simp add: delta_ok_def create_stream_slot_def safe_int_def f64_int_zero)

lemma delta_ok_bound:
  assumes "delta_ok slot"
  shows "\<bar>ss_delta slot\<bar> \<le> 2 ^ 43"
proof (cases "safe_int (ss_prev slot)")
  case None
  then show ?thesis using assms by (simp add: delta_ok_def)
next
  case (Some p)
  then have "(ss_delta slot)\<^sup>2 \<le> 2 ^ 32 * (2 ^ 53 + (if 0 \<le> ss_delta slot then p else - p))"
    using assms by (simp add: delta_ok_def)
  also have "\<dots> \<le> 2 ^ 32 * 2 ^ 54" using safe_int_bound [OF Some] by (intro mult_left_mono) auto
  also have "\<dots> = (2 ^ 43)\<^sup>2" by simp
  finally have "\<bar>ss_delta slot\<bar>\<^sup>2 \<le> (2 ^ 43)\<^sup>2" by simp
  then show ?thesis using power2_le_imp_le [of "\<bar>ss_delta slot\<bar>" "2 ^ 43"] by simp
qed

lemma bit63: "f64_neg v \<longleftrightarrow> bit v 63"
proof -
  have "bit (unat v) 63 \<longleftrightarrow> bit v 63" by (simp add: bit_unsigned_iff)
  then have b: "bit v 63 \<longleftrightarrow> odd (unat v div 2 ^ 63)" by (simp add: bit_iff_odd)
  have lt: "unat v < 2 * 2 ^ 63" using unat64_less [of v] by simp
  show ?thesis
  proof (cases "2 ^ 63 \<le> unat v")
    case True
    then have "unat v div 2 ^ 63 = 1" using lt by (intro div_nat_eqI) simp_all
    then show ?thesis using True b by (simp add: f64_neg_def)
  next
    case False
    then have "unat v div 2 ^ 63 = 0" by simp
    then show ?thesis using False b by (simp add: f64_neg_def)
  qed
qed

lemma decode_single:
  assumes "takes (read_stream_value add (received k)) (sample_bits (sent k) v) (x, slot)"
  shows "decode_frames add received (zip (map (map fst) ([(k, v)] # fs)) (encode_frames sent ([(k, v)] # fs))) =
    try_bind (decode_frames add (received(k := slot)) (zip (map (map fst) fs) (encode_frames (sent(k := slot_after (sent k) v)) fs)))
      (\<lambda>vss. Inr ([x] # vss))"
proof -
  note w = write_items_emits [OF written_new(2), of sent "[(k, v)]", unfolded written_new append_Nil]
  from read_frame [OF assms, of "fst (write_items sent [(k, v)] new_bit_writer)"] w obtain r where
    "read_stream_value add (received k) (new_bit_reader (finish_bits (fst (write_items sent [(k, v)] new_bit_writer)))) = Inr ((x, slot), r)"
    by auto
  then show ?thesis using w by (simp add: case_prod_beta del: fun_upd_apply)
qed

section \<open>Properties\<close>

text \<open>C23: Samples survive the stream. Whatever frames are sent over whatever series, the receiver reads
  every sample back bit for bit, on the integer path and on the XOR path alike, unless a sample is
  negative zero.\<close>

theorem stream_roundtrip:
  assumes "\<forall>f \<in> set fs. \<forall>(k, v) \<in> set f. v \<noteq> f64_neg_zero"
  shows "decode_frames add fresh_slots (sent_frames fs) = Inr (map (map snd) fs)"
  unfolding sent_frames_def using assms fresh_slots_ok by (intro decode_encode) auto

theorem stream_roundtrip_witness:
  "decode_frames (\<lambda>v d. v) fresh_slots (sent_frames [[(0, 0x4014000000000000), (1, 0x3FE0000000000000)], [(0, 0x4018000000000000)]]) =
     Inr [[0x4014000000000000, 0x3FE0000000000000], [0x4018000000000000]]"
proof -
  have nz: "f64_neg_zero = 0x8000000000000000" by (simp add: f64_neg_zero_def f64_make_def)
  show ?thesis
    using stream_roundtrip [of "[[(0, 0x4014000000000000), (1, 0x3FE0000000000000)], [(0, 0x4018000000000000)]]" "\<lambda>v d. v"]
    by (simp add: nz)
qed

text \<open>Negative zero corrupts the stream: after an integer and a negative zero, the next number that
  is no integer is read back with its sign flipped.\<close>

theorem stream_negative_zero_flips_sign:
  assumes "safe_int p = Some i" and "\<bar>i\<bar> < 2 ^ 31" and "safe_int v = None"
  shows "decode_frames add fresh_slots (sent_frames [[(k, p)], [(k, f64_neg_zero)], [(k, v)]]) =
      Inr [[p], [0], [v XOR f64_neg_zero]] \<and> f64_neg (v XOR f64_neg_zero) = (\<not> f64_neg v)"
proof -
  let ?s1 = "slot_after create_stream_slot p"
  let ?s2 = "slot_after ?s1 f64_neg_zero"
  have ok: "stream_slot_ok ?s1" "stream_slot_ok ?s2" using fresh_slots_ok slot_ok_after by (simp_all add: fresh_slots_def)
  have s1: "ss_has ?s1" "ss_prev ?s1 = p" "ss_delta ?s1 = 0"
    by (simp_all add: slot_after_eq create_stream_slot_def)
  have zero: "safe_int f64_neg_zero = Some 0" by (simp add: safe_int_def f64_int_neg_zero)
  have step: "int_step ?s1 f64_neg_zero = Some (- i, - i)"
    using assms(1,2) by (auto simp: int_step_def s1 zero dod_max_def Let_def)
  have none: "int_step ?s2 v = None" using assms(3) by (simp add: int_step_def)
  have first: "takes (read_stream_value add create_stream_slot) (sample_bits create_stream_slot p) (p, ?s1)"
    using fresh_slots_ok by (intro takes_sample) (simp_all add: fresh_slots_def, simp add: create_stream_slot_def)
  have second: "takes (read_stream_value add ?s1) (sample_bits ?s1 f64_neg_zero) (0, ?s2\<lparr>ss_prev := 0\<rparr>)"
    using takes_sample_int [OF s1(1) step refl, of add] slot_keep [OF s1(2)] by (simp add: s1 zero f64_of_int_def)
  have third: "takes (read_stream_value add (?s2\<lparr>ss_prev := 0\<rparr>)) (sample_bits ?s2 v)
      (v XOR f64_neg_zero, slot_after ?s2 v\<lparr>ss_prev := v XOR f64_neg_zero\<rparr>)"
    using takes_sample_xor [OF ok(2) slot_after_prev(2) none, of add 0] by (simp add: slot_after_prev)
  have "decode_frames add fresh_slots (sent_frames [[(k, p)], [(k, f64_neg_zero)], [(k, v)]]) = Inr [[p], [0], [v XOR f64_neg_zero]]"
    unfolding sent_frames_def using first second third
    by (simp add: decode_single fresh_slots_def del: encode_frames.simps(2) list.map(2) zip_Cons_Cons)
  moreover have "bit f64_neg_zero 63" using bit63 [of f64_neg_zero] by (simp add: f64_neg_zero_def f64_make_fields)
  then have "f64_neg (v XOR f64_neg_zero) = (\<not> f64_neg v)" by (simp add: bit63 bit_xor_iff)
  ultimately show ?thesis by blast
qed

theorem stream_negative_zero_flips_sign_witness:
  "decode_frames (\<lambda>v d. v) fresh_slots (sent_frames [[(0, 0x4014000000000000)], [(0, f64_neg_zero)], [(0, 0x3FE0000000000000)]]) =
     Inr [[0x4014000000000000], [0], [0x3FE0000000000000 XOR f64_neg_zero]]"
proof -
  have five: "safe_int 0x4014000000000000 = Some 5"
    by (simp add: safe_int_def f64_int_def f64_expo_def f64_frac_def f64_neg_def sgn_int_def Let_def)
  have half: "safe_int 0x3FE0000000000000 = None"
    by (simp add: safe_int_def f64_int_def f64_expo_def f64_frac_def Let_def)
  show ?thesis using stream_negative_zero_flips_sign [OF five _ half, of "\<lambda>v d. v" 0] by simp
qed

text \<open>The integer path never leaves exact arithmetic: along any run of samples the first difference
  that travels stays within \<open>2 ^ 43\<close>, far below the \<open>2 ^ 53\<close> at which doubles lose integers.\<close>

theorem stream_delta_bounded:
  "\<bar>ss_delta (foldl slot_after create_stream_slot vs)\<bar> \<le> 2 ^ 43"
  by (rule delta_ok_bound) (rule slots.run_inv)

end
