(* ===== verification/Key_Dict.thy ===== *)
theory Key_Dict
  imports Wire_Bytes
begin

text \<open>
  Key dictionaries and delta stamps of \<open>src/runtime/keydict.js\<close>: the encoder interns each key under
  a small id, announces it once and evicts the least recently used key of an earlier frame when the
  ids run out; the decoder follows.

  The time source's reading is an argument: \<open>None\<close> is a value that is no finite number. An id of
  -1 in the code is \<open>None\<close>.
\<close>

section \<open>Encoder\<close>

definition default_max_entries :: nat where
  "default_max_entries = 65536"

record key_entry =
  ke_id :: nat
  ke_used :: nat

record key_encode =
  kd_max :: nat
  kd_by_key :: "(js_string, key_entry) jsmap"
  kd_next :: nat
  kd_clock :: nat
  kd_last :: int

definition new_key_encode :: "nat \<Rightarrow> key_encode" where
  "new_key_encode max_entries = \<lparr>kd_max = max_entries, kd_by_key = [], kd_next = 0, kd_clock = 0, kd_last = -1\<rparr>"

definition begin_key_frame :: "key_encode \<Rightarrow> key_encode" where
  "begin_key_frame d = d\<lparr>kd_clock := kd_clock d + 1\<rparr>"

text \<open>The first entry with the least \<open>lastUsed\<close> among those of earlier frames.\<close>

fun scan_victim :: "nat \<Rightarrow> (js_string \<times> key_entry) option \<Rightarrow> (js_string, key_entry) jsmap \<Rightarrow> (js_string \<times> key_entry) option" where
  "scan_victim now best [] = best"
| "scan_victim now best (p # m) =
     scan_victim now
       (if ke_used (snd p) < now \<and> (case best of None \<Rightarrow> True | Some b \<Rightarrow> ke_used (snd p) < ke_used (snd b)) then Some p else best) m"

definition alloc_key :: "key_encode \<Rightarrow> nat option \<times> key_encode" where
  "alloc_key d =
     (if kd_next d < kd_max d then (Some (kd_next d), d\<lparr>kd_next := kd_next d + 1\<rparr>)
      else case scan_victim (kd_clock d) None (kd_by_key d) of
        None \<Rightarrow> (None, d)
      | Some (k, e) \<Rightarrow> (Some (ke_id e), d\<lparr>kd_by_key := jm_del k (kd_by_key d)\<rparr>))"

definition write_key :: "js_string \<Rightarrow> key_encode \<Rightarrow> byte_writer \<Rightarrow> key_encode \<times> byte_writer option" where
  "write_key key d w =
     (case jm_get (kd_by_key d) key of
        Some e \<Rightarrow> (d\<lparr>kd_by_key := jm_set key (e\<lparr>ke_used := kd_clock d\<rparr>) (kd_by_key d)\<rparr>, bw_varint (ke_id e + 2) w)
      | None \<Rightarrow>
          (case alloc_key d of
             (None, d) \<Rightarrow> (d, do { w \<leftarrow> bw_varint 1 w; bw_str key w })
           | (Some i, d) \<Rightarrow>
               (d\<lparr>kd_by_key := jm_set key \<lparr>ke_id = i, ke_used = kd_clock d\<rparr> (kd_by_key d)\<rparr>,
                do { w \<leftarrow> bw_varint 0 w; w \<leftarrow> bw_varint i w; bw_str key w })))"

definition write_delta_stamp :: "real option \<Rightarrow> key_encode \<Rightarrow> byte_writer \<Rightarrow> key_encode \<times> byte_writer option" where
  "write_delta_stamp reading d w =
     (let held = (if kd_last d < 0 then 0 else kd_last d);
          t = (case reading of None \<Rightarrow> held | Some t \<Rightarrow> if t < 0 then held else \<lfloor>t\<rfloor>)
      in if kd_last d < 0 then (d\<lparr>kd_last := t\<rparr>, bw_varint (nat t) w)
         else
           let delta = (if t - kd_last d < 0 then 0 else t - kd_last d)
           in (d\<lparr>kd_last := kd_last d + delta\<rparr>, bw_varint (nat delta) w))"

section \<open>Decoder\<close>

record key_decode =
  kx_by_id :: "(nat, js_string) jsmap"
  kx_last :: int

definition new_key_decode :: key_decode where
  "new_key_decode = \<lparr>kx_by_id = [], kx_last = -1\<rparr>"

text \<open>An unknown id is \<open>None\<close>: the caller drops the frame.\<close>

definition read_key :: "key_decode \<Rightarrow> (js_string option \<times> key_decode) reads" where
  "read_key x r =
     try_bind (br_varint r) (\<lambda>(v, r).
       if v = 0 then
         try_bind (br_varint r) (\<lambda>(i, r). try_bind (br_str r) (\<lambda>(key, r).
           Inr ((Some key, x\<lparr>kx_by_id := jm_set i key (kx_by_id x)\<rparr>), r)))
       else if v = 1 then try_bind (br_str r) (\<lambda>(key, r). Inr ((Some key, x), r))
       else Inr ((jm_get (kx_by_id x) (v - 2), x), r))"

definition read_delta_stamp :: "key_decode \<Rightarrow> (int \<times> key_decode) reads" where
  "read_delta_stamp x r =
     try_bind (br_varint r) (\<lambda>(v, r).
       if kx_last x < 0 then Inr ((int v, x\<lparr>kx_last := int v\<rparr>), r)
       else Inr ((kx_last x + int v, x\<lparr>kx_last := kx_last x + int v\<rparr>), r))"

section \<open>Reading exactly what was written\<close>

definition reads_back :: "'a reads \<Rightarrow> byte list \<Rightarrow> 'a \<Rightarrow> bool" where
  "reads_back op bs x \<longleftrightarrow> (\<forall>r rest. ready r \<and> br_rest r = bs @ rest \<longrightarrow> yields op r x rest)"

lemma reads_back_return: "reads_back (\<lambda>r. Inr (x, r)) [] x"
  by (simp add: reads_back_def yields_def)

lemma reads_back_bind:
  assumes "reads_back m bs x" and "reads_back (f x) cs y"
  shows "reads_back (\<lambda>r. try_bind (m r) (\<lambda>(x, r). f x r)) (bs @ cs) y"
  unfolding reads_back_def
proof (intro allI impI)
  fix r rest assume a: "ready r \<and> br_rest r = (bs @ cs) @ rest"
  then obtain r' where r': "m r = Inr (x, r')" "ready r'" "br_rest r' = cs @ rest"
    using assms(1) unfolding reads_back_def yields_def by (metis append.assoc)
  then show "yields (\<lambda>r. try_bind (m r) (\<lambda>(x, r). f x r)) r y rest"
    using assms(2) unfolding reads_back_def yields_def by simp
qed

lemma reads_varint: "reads_back br_varint (varint_bytes n) n"
  by (simp add: reads_back_def yields_varint)

lemma reads_str: "reads_back br_str (str_bytes s) (wire_text s)"
  using yields_str by (fastforce simp: reads_back_def)

definition key_bytes :: "js_string \<Rightarrow> key_encode \<Rightarrow> byte list" where
  "key_bytes key d =
     (case jm_get (kd_by_key d) key of
        Some e \<Rightarrow> varint_bytes (ke_id e + 2)
      | None \<Rightarrow> (case fst (alloc_key d) of
          None \<Rightarrow> varint_bytes 1 @ str_bytes key
        | Some i \<Rightarrow> varint_bytes 0 @ varint_bytes i @ str_bytes key))"

lemma appends_key: "appends (\<lambda>w. snd (write_key key d w)) (key_bytes key d)"
proof -
  have "appends (\<lambda>w. do { w \<leftarrow> bw_varint 1 w; bw_str key w }) (varint_bytes 1 @ str_bytes key)"
    by (rule appends_bind [OF appends_varint appends_str])
  moreover have "appends (\<lambda>w. do { w \<leftarrow> bw_varint 0 w; w \<leftarrow> bw_varint i w; bw_str key w }) (varint_bytes 0 @ varint_bytes i @ str_bytes key)" for i
    by (rule appends_bind [OF appends_varint appends_bind [OF appends_varint appends_str]])
  ultimately show ?thesis
    using appends_varint by (auto simp: write_key_def key_bytes_def case_prod_beta split: option.split)
qed

definition key_after :: "js_string \<Rightarrow> key_encode \<Rightarrow> key_encode" where
  "key_after key d = fst (write_key key d (bw_new 1))"

lemma key_after_eq: "fst (write_key key d w) = key_after key d"
  by (simp add: key_after_def write_key_def split: option.split prod.split)

section \<open>The encoder's table\<close>

definition enc_ok :: "key_encode \<Rightarrow> bool" where
  "enc_ok d \<longleftrightarrow> jm_wf (kd_by_key d) \<and> kd_next d \<le> kd_max d \<and> -1 \<le> kd_last d \<and>
     (\<forall>k e. jm_get (kd_by_key d) k = Some e \<longrightarrow> ke_id e < kd_next d \<and> ke_used e \<le> kd_clock d) \<and>
     (\<forall>k e k' e'. jm_get (kd_by_key d) k = Some e \<longrightarrow> jm_get (kd_by_key d) k' = Some e' \<longrightarrow> ke_id e = ke_id e' \<longrightarrow> k = k')"

lemma scan_victim_mem:
  "scan_victim now best m = Some p \<Longrightarrow> best = Some p \<or> (p \<in> set m \<and> ke_used (snd p) < now)"
proof (induction m arbitrary: best)
  case (Cons q m)
  let ?best = "if ke_used (snd q) < now \<and> (case best of None \<Rightarrow> True | Some b \<Rightarrow> ke_used (snd q) < ke_used (snd b)) then Some q else best"
  have "?best = Some p \<or> (p \<in> set m \<and> ke_used (snd p) < now)" using Cons.IH [of ?best] Cons.prems by simp
  then show ?case by (auto split: if_splits)
qed simp

lemma scan_victim_None: "scan_victim now best m = None \<Longrightarrow> best = None \<and> (\<forall>p \<in> set m. now \<le> ke_used (snd p))"
proof (induction m arbitrary: best)
  case (Cons q m)
  let ?best = "if ke_used (snd q) < now \<and> (case best of None \<Rightarrow> True | Some b \<Rightarrow> ke_used (snd q) < ke_used (snd b)) then Some q else best"
  have ih: "?best = None" "\<forall>p \<in> set m. now \<le> ke_used (snd p)" using Cons.IH [of ?best] Cons.prems by simp_all
  have "best = None" using ih(1) by (simp split: if_splits)
  then have "now \<le> ke_used (snd q)" using ih(1) by (simp split: if_splits)
  then show ?case using ih(2) \<open>best = None\<close> by simp
qed simp

lemma alloc_cases:
  assumes "enc_ok d"
  obtains (fresh) "alloc_key d = (Some (kd_next d), d\<lparr>kd_next := kd_next d + 1\<rparr>)" "kd_next d < kd_max d"
    | (full) "alloc_key d = (None, d)" "kd_next d = kd_max d" "\<forall>k e. jm_get (kd_by_key d) k = Some e \<longrightarrow> ke_used e = kd_clock d"
    | (victim) k e where "alloc_key d = (Some (ke_id e), d\<lparr>kd_by_key := jm_del k (kd_by_key d)\<rparr>)" "kd_next d = kd_max d"
      "jm_get (kd_by_key d) k = Some e" "ke_used e < kd_clock d"
proof (cases "kd_next d < kd_max d")
  case True
  then show ?thesis using fresh by (simp add: alloc_key_def)
next
  case False
  then have n: "kd_next d = kd_max d" and wf: "jm_wf (kd_by_key d)" using assms by (simp_all add: enc_ok_def)
  show ?thesis
  proof (cases "scan_victim (kd_clock d) None (kd_by_key d)")
    case None
    have "ke_used e = kd_clock d" if "jm_get (kd_by_key d) k = Some e" for k e
      using scan_victim_None [OF None] jm_get_Some_mem [OF that] assms that by (fastforce simp: enc_ok_def)
    then show ?thesis using full n False None by (simp add: alloc_key_def)
  next
    case (Some p)
    obtain k e where p: "p = (k, e)" by fastforce
    then have "(k, e) \<in> set (kd_by_key d)" "ke_used e < kd_clock d" using scan_victim_mem [OF Some] by auto
    then show ?thesis using victim [of e k] n False Some p jm_mem_get [OF wf] by (simp add: alloc_key_def)
  qed
qed

text \<open>The table the next key is entered in.\<close>

lemma enc_ok_insert:
  assumes "enc_ok d" and "i < kd_next d" and "\<And>k e. jm_get (kd_by_key d) k = Some e \<Longrightarrow> ke_id e \<noteq> i"
  shows "enc_ok (d\<lparr>kd_by_key := jm_set key \<lparr>ke_id = i, ke_used = kd_clock d\<rparr> (kd_by_key d)\<rparr>)"
  using assms unfolding enc_ok_def by (auto split: if_splits)

lemma enc_ok_enter:
  assumes ok: "enc_ok d" and a: "alloc_key d = (Some i, d')"
  shows "kd_clock d' = kd_clock d \<and> kd_last d' = kd_last d \<and> enc_ok d' \<and> i < kd_next d' \<and>
    (\<forall>k e. jm_get (kd_by_key d') k = Some e \<longrightarrow> jm_get (kd_by_key d) k = Some e \<and> ke_id e \<noteq> i)"
proof (rule alloc_cases [OF ok])
  assume "alloc_key d = (Some (kd_next d), d\<lparr>kd_next := kd_next d + 1\<rparr>)" "kd_next d < kd_max d"
  then have d': "i = kd_next d" "d' = d\<lparr>kd_next := kd_next d + 1\<rparr>" "kd_next d < kd_max d" using a by auto
  have "ke_id e < kd_next d" if "jm_get (kd_by_key d) k = Some e" for k e using ok that by (simp add: enc_ok_def)
  moreover have "enc_ok d'" using ok d' by (auto simp: enc_ok_def less_Suc_eq)
  ultimately show ?thesis using d' by fastforce
next
  fix k e assume v: "alloc_key d = (Some (ke_id e), d\<lparr>kd_by_key := jm_del k (kd_by_key d)\<rparr>)" "jm_get (kd_by_key d) k = Some e"
  then have d': "i = ke_id e" "d' = d\<lparr>kd_by_key := jm_del k (kd_by_key d)\<rparr>" using a by auto
  have others: "jm_get (kd_by_key d') k' = Some e' \<Longrightarrow> jm_get (kd_by_key d) k' = Some e' \<and> ke_id e' \<noteq> i" for k' e'
    using ok v(2) by (auto simp: d' enc_ok_def split: if_splits)
  moreover have "enc_ok d'" using ok unfolding d' enc_ok_def by (auto split: if_splits)
  moreover have "ke_id e < kd_next d" using ok v(2) by (simp add: enc_ok_def)
  ultimately show ?thesis using d' by auto
qed (use a in auto)

definition in_sync :: "key_encode \<Rightarrow> key_decode \<Rightarrow> bool" where
  "in_sync d x \<longleftrightarrow> enc_ok d \<and> kx_last x = kd_last d \<and>
     (\<forall>k e. jm_get (kd_by_key d) k = Some e \<longrightarrow> jm_get (kx_by_id x) (ke_id e) = Some (wire_text k))"

lemma in_sync_new: "in_sync (new_key_encode n) new_key_decode"
  by (simp add: in_sync_def enc_ok_def new_key_encode_def new_key_decode_def)

lemma in_sync_begin: "in_sync d x \<Longrightarrow> in_sync (begin_key_frame d) x"
  by (fastforce simp: in_sync_def enc_ok_def begin_key_frame_def)

lemma key_step:
  assumes sync: "in_sync d x"
  shows "\<exists>x'. reads_back (read_key x) (key_bytes key d) (Some (wire_text key), x') \<and> in_sync (key_after key d) x'"
proof -
  have ok: "enc_ok d" using sync by (simp add: in_sync_def)
  have ref: "reads_back (read_key x) (varint_bytes (i + 2) @ []) (jm_get (kx_by_id x) i, x)" for i
    unfolding read_key_def [abs_def] by (rule reads_back_bind, rule reads_varint) (simp add: reads_back_return)
  have inline: "reads_back (read_key x) (varint_bytes 1 @ str_bytes key @ []) (Some (wire_text key), x)"
  proof -
    have "reads_back (\<lambda>r. try_bind (br_str r) (\<lambda>(key, r). Inr ((Some key, x), r))) (str_bytes key @ []) (Some (wire_text key), x)"
      by (rule reads_back_bind, rule reads_str, rule reads_back_return)
    then show ?thesis unfolding read_key_def [abs_def] by (intro reads_back_bind [OF reads_varint]) simp
  qed
  have assign: "reads_back (read_key x) (varint_bytes 0 @ varint_bytes i @ str_bytes key @ []) (Some (wire_text key), x\<lparr>kx_by_id := jm_set i (wire_text key) (kx_by_id x)\<rparr>)" for i
  proof -
    have "reads_back (\<lambda>r. try_bind (br_varint r) (\<lambda>(i, r). try_bind (br_str r) (\<lambda>(key, r).
           Inr ((Some key, x\<lparr>kx_by_id := jm_set i key (kx_by_id x)\<rparr>), r)))) (varint_bytes i @ str_bytes key @ [])
        (Some (wire_text key), x\<lparr>kx_by_id := jm_set i (wire_text key) (kx_by_id x)\<rparr>)"
      by (rule reads_back_bind, rule reads_varint, rule reads_back_bind, rule reads_str , rule reads_back_return)
    then show ?thesis unfolding read_key_def [abs_def] by (intro reads_back_bind [OF reads_varint]) simp
  qed
  show ?thesis
  proof (cases "jm_get (kd_by_key d) key")
    case (Some e)
    then have "jm_get (kx_by_id x) (ke_id e) = Some (wire_text key)" using sync by (simp add: in_sync_def)
    moreover have "in_sync (key_after key d) x"
      using sync Some by (fastforce simp: key_after_def write_key_def in_sync_def enc_ok_def split: if_splits)
    ultimately show ?thesis using ref [of "ke_id e"] Some by (auto simp: key_bytes_def)
  next
    case None
    show ?thesis
    proof (cases "alloc_key d")
      case (Pair i d')
      show ?thesis
      proof (cases i)
        case ni: None
        have "d' = d" by (rule alloc_cases [OF ok]) (use Pair ni in auto)
        then show ?thesis using inline sync None Pair ni
          by (auto simp: key_bytes_def key_after_def write_key_def)
      next
        case (Some j)
        note enter = enc_ok_enter [OF ok Pair [unfolded Some]]
        have "enc_ok (key_after key d)"
          using enc_ok_insert [of d' j key] enter None Pair Some by (simp add: key_after_def write_key_def)
        then have "in_sync (key_after key d) (x\<lparr>kx_by_id := jm_set j (wire_text key) (kx_by_id x)\<rparr>)"
          using enter sync None Pair Some by (auto simp: key_after_def write_key_def in_sync_def)
        then show ?thesis using assign [of j] None Pair Some by (auto simp: key_bytes_def)
      qed
    qed
  qed
qed

section \<open>Stamps\<close>

text \<open>What the receiver should be told: the clock, floored and held at its highest value.\<close>

definition next_stamp :: "real option \<Rightarrow> int \<Rightarrow> int" where
  "next_stamp reading last_t =
     max (max last_t 0) (case reading of None \<Rightarrow> 0 | Some t \<Rightarrow> if t < 0 then 0 else \<lfloor>t\<rfloor>)"

definition stamp_bytes :: "real option \<Rightarrow> key_encode \<Rightarrow> byte list" where
  "stamp_bytes reading d = varint_bytes (nat (next_stamp reading (kd_last d) - max (kd_last d) 0))"

lemma write_stamp_eq:
  assumes "-1 \<le> kd_last d"
  shows "write_delta_stamp reading d w =
    (d\<lparr>kd_last := next_stamp reading (kd_last d)\<rparr>, bw_varint (nat (next_stamp reading (kd_last d) - max (kd_last d) 0)) w)"
proof -
  have "0 \<le> \<lfloor>t\<rfloor>" if "\<not> t < 0" for t :: real using that by simp
  then have "\<lfloor>t\<rfloor> < kd_last d \<Longrightarrow> kd_last d < 0 \<Longrightarrow> t < 0" for t :: real using assms by fastforce
  then show ?thesis
    using assms by (cases reading) (auto simp: write_delta_stamp_def next_stamp_def Let_def max_def)
qed

lemma stamp_step:
  assumes sync: "in_sync d x"
  shows "appends (\<lambda>w. snd (write_delta_stamp reading d w)) (stamp_bytes reading d)"
    and "reads_back (read_delta_stamp x) (stamp_bytes reading d)
      (next_stamp reading (kd_last d), x\<lparr>kx_last := next_stamp reading (kd_last d)\<rparr>)"
    and "in_sync (fst (write_delta_stamp reading d w)) (x\<lparr>kx_last := next_stamp reading (kd_last d)\<rparr>)"
proof -
  let ?t = "next_stamp reading (kd_last d)" and ?n = "nat (next_stamp reading (kd_last d) - max (kd_last d) 0)"
  have low: "-1 \<le> kd_last d" and kx: "kx_last x = kd_last d" using sync by (simp_all add: in_sync_def enc_ok_def)
  note eq = write_stamp_eq [OF low]
  show "appends (\<lambda>w. snd (write_delta_stamp reading d w)) (stamp_bytes reading d)"
    using appends_varint [of ?n] by (simp add: eq stamp_bytes_def)
  have t: "max (kd_last d) 0 \<le> ?t" by (simp add: next_stamp_def)
  have n: "int ?n = (if kx_last x < 0 then ?t else ?t - kx_last x)" using t kx by auto
  have "reads_back (read_delta_stamp x) (varint_bytes ?n @ []) (?t, x\<lparr>kx_last := ?t\<rparr>)"
    unfolding read_delta_stamp_def [abs_def]
    by (rule reads_back_bind, rule reads_varint) (use n in \<open>simp add: reads_back_return split: if_splits\<close>)
  then show "reads_back (read_delta_stamp x) (stamp_bytes reading d) (?t, x\<lparr>kx_last := ?t\<rparr>)"
    by (simp add: stamp_bytes_def)
  have "-1 \<le> ?t" using t by linarith
  then show "in_sync (fst (write_delta_stamp reading d w)) (x\<lparr>kx_last := ?t\<rparr>)"
    using sync by (simp add: eq in_sync_def enc_ok_def)
qed

section \<open>Frames\<close>

text \<open>A frame advances the clock, writes its stamp and its keys; the receiver knows how many keys to read.\<close>

fun write_keys :: "js_string list \<Rightarrow> key_encode \<Rightarrow> byte_writer \<Rightarrow> key_encode \<times> byte_writer option" where
  "write_keys [] d w = (d, Some w)"
| "write_keys (k # ks) d w =
     (case write_key k d w of (d, None) \<Rightarrow> (d, None) | (d, Some w) \<Rightarrow> write_keys ks d w)"

definition write_dict_frame :: "real option \<times> js_string list \<Rightarrow> key_encode \<Rightarrow> key_encode \<times> byte list option" where
  "write_dict_frame f d =
     (case write_delta_stamp (fst f) (begin_key_frame d) (bw_new 16) of
        (d, None) \<Rightarrow> (d, None)
      | (d, Some w) \<Rightarrow> map_prod id (map_option bw_take) (write_keys (snd f) d w))"

fun read_keys :: "nat \<Rightarrow> key_decode \<Rightarrow> (js_string option list \<times> key_decode) reads" where
  "read_keys 0 x r = Inr (([], x), r)"
| "read_keys (Suc n) x r =
     try_bind (read_key x r) (\<lambda>((k, x), r). try_bind (read_keys n x r) (\<lambda>((ks, x), r). Inr ((k # ks, x), r)))"

definition read_dict_frame :: "nat \<Rightarrow> key_decode \<Rightarrow> ((int \<times> js_string option list) \<times> key_decode) reads" where
  "read_dict_frame n x r =
     try_bind (read_delta_stamp x r) (\<lambda>((t, x), r). try_bind (read_keys n x r) (\<lambda>((ks, x), r). Inr (((t, ks), x), r)))"

fun key_session :: "(real option \<times> js_string list) list \<Rightarrow> key_encode \<Rightarrow> key_decode \<Rightarrow> (range_error + int \<times> js_string option list) list" where
  "key_session [] d x = []"
| "key_session (f # fs) d x =
     (case write_dict_frame f d of
        (d, None) \<Rightarrow> []
      | (d, Some bytes) \<Rightarrow>
          (case read_dict_frame (length (snd f)) x (br_new bytes) of
             Inl e \<Rightarrow> [Inl e]
           | Inr ((frame, x), r) \<Rightarrow> Inr frame # key_session fs d x))"

fun keys_after :: "js_string list \<Rightarrow> key_encode \<Rightarrow> key_encode" where
  "keys_after [] d = d"
| "keys_after (k # ks) d = keys_after ks (key_after k d)"

fun keys_bytes :: "js_string list \<Rightarrow> key_encode \<Rightarrow> byte list" where
  "keys_bytes [] d = []"
| "keys_bytes (k # ks) d = key_bytes k d @ keys_bytes ks (key_after k d)"

lemma write_keys_ok:
  "bw_inv w \<Longrightarrow> \<exists>w'. write_keys ks d w = (keys_after ks d, Some w') \<and> bw_inv w' \<and> bw_take w' = bw_take w @ keys_bytes ks d"
proof (induction ks arbitrary: d w)
  case (Cons k ks)
  obtain w1 where w1: "snd (write_key k d w) = Some w1" "bw_inv w1" "bw_take w1 = bw_take w @ key_bytes k d"
    using appends_key [of k d] Cons.prems unfolding appends_def by blast
  moreover have "fst (write_key k d w) = key_after k d" by (rule key_after_eq)
  ultimately have "write_key k d w = (key_after k d, Some w1)" by (metis prod.collapse)
  then show ?case using Cons.IH [OF w1(2), of "key_after k d"] w1(3) by auto
qed simp

lemma read_keys_ok:
  assumes "in_sync d x"
  shows "\<exists>x'. reads_back (read_keys (length ks) x) (keys_bytes ks d) (map (Some \<circ> wire_text) ks, x') \<and> in_sync (keys_after ks d) x'"
  using assms
proof (induction ks arbitrary: d x)
  case Nil
  then show ?case by (auto simp: reads_back_def yields_def)
next
  case (Cons k ks)
  obtain x1 where x1: "reads_back (read_key x) (key_bytes k d) (Some (wire_text k), x1)" "in_sync (key_after k d) x1"
    using key_step Cons.prems by fastforce
  obtain x2 where x2: "reads_back (read_keys (length ks) x1) (keys_bytes ks (key_after k d)) (map (Some \<circ> wire_text) ks, x2)" "in_sync (keys_after ks (key_after k d)) x2"
    using Cons.IH [OF x1(2)] by blast
  have "reads_back (\<lambda>r. try_bind (read_keys (length ks) x1 r) (\<lambda>((ks, x), r). Inr ((Some (wire_text k) # ks, x), r)))
      (keys_bytes ks (key_after k d) @ []) (Some (wire_text k) # map (Some \<circ> wire_text) ks, x2)"
    by (rule reads_back_bind, rule x2(1)) (simp add: reads_back_return)
  then have "reads_back (\<lambda>r. try_bind (read_key x r) (\<lambda>((k, x), r). try_bind (read_keys (length ks) x r) (\<lambda>((ks, x), r). Inr ((k # ks, x), r))))
      (key_bytes k d @ keys_bytes ks (key_after k d)) (Some (wire_text k) # map (Some \<circ> wire_text) ks, x2)"
    by (intro reads_back_bind [OF x1(1)]) simp
  moreover have "read_keys (length (k # ks)) x = (\<lambda>r. try_bind (read_key x r) (\<lambda>((k, x), r).
      try_bind (read_keys (length ks) x r) (\<lambda>((ks, x), r). Inr ((k # ks, x), r))))"
    by (simp add: fun_eq_iff)
  ultimately have "reads_back (read_keys (length (k # ks)) x) (keys_bytes (k # ks) d) (map (Some \<circ> wire_text) (k # ks), x2)"
    by simp
  then show ?case using x2(2) unfolding keys_after.simps by blast
qed

lemma frame_ok:
  assumes sync: "in_sync d x"
  shows "\<exists>bytes x' r. write_dict_frame (reading, ks) d =
      (keys_after ks (begin_key_frame d\<lparr>kd_last := next_stamp reading (kd_last d)\<rparr>), Some bytes) \<and>
    read_dict_frame (length ks) x (br_new bytes) = Inr (((next_stamp reading (kd_last d), map (Some \<circ> wire_text) ks), x'), r) \<and>
    in_sync (keys_after ks (begin_key_frame d\<lparr>kd_last := next_stamp reading (kd_last d)\<rparr>)) x'"
proof -
  let ?d = "begin_key_frame d" and ?t = "next_stamp reading (kd_last d)"
  let ?d1 = "?d\<lparr>kd_last := ?t\<rparr>" and ?x1 = "x\<lparr>kx_last := ?t\<rparr>"
  have d: "in_sync ?d x" "kd_last ?d = kd_last d" using in_sync_begin [OF sync] by (simp_all add: begin_key_frame_def)
  have low: "-1 \<le> kd_last ?d" using d(1) by (simp add: in_sync_def enc_ok_def)
  obtain w1 where w1: "write_delta_stamp reading ?d (bw_new 16) = (?d1, Some w1)" "bw_inv w1" "bw_take w1 = stamp_bytes reading ?d"
    using stamp_step(1) [OF d(1), of reading] bw_inv_new [of 16] write_stamp_eq [OF low, of reading "bw_new 16"] d(2)
    unfolding appends_def by (fastforce simp: bw_take_new)
  obtain w2 where w2: "write_keys ks ?d1 w1 = (keys_after ks ?d1, Some w2)" "bw_take w2 = bw_take w1 @ keys_bytes ks ?d1"
    using write_keys_ok [OF w1(2)] by blast
  have d1: "in_sync ?d1 ?x1" using stamp_step(3) [OF d(1), of reading "bw_new 16"] w1(1) d(2) by simp
  obtain x2 where x2: "reads_back (read_keys (length ks) ?x1) (keys_bytes ks ?d1) (map (Some \<circ> wire_text) ks, x2)" "in_sync (keys_after ks ?d1) x2"
    using read_keys_ok [OF d1] by blast
  have tail: "reads_back (\<lambda>r. try_bind (read_keys (length ks) ?x1 r) (\<lambda>((ks, x), r). Inr (((?t, ks), x), r)))
      (keys_bytes ks ?d1 @ []) ((?t, map (Some \<circ> wire_text) ks), x2)"
    by (rule reads_back_bind, rule x2(1)) (simp add: reads_back_return)
  have "reads_back (read_dict_frame (length ks) x) (stamp_bytes reading ?d @ keys_bytes ks ?d1 @ []) ((?t, map (Some \<circ> wire_text) ks), x2)"
    unfolding read_dict_frame_def [abs_def]
    by (rule reads_back_bind, rule stamp_step(2) [OF d(1), of reading, unfolded d(2)], unfold prod.case, rule tail)
  moreover have "ready (br_new bs)" "br_rest (br_new bs) = bs" for bs
    by (simp_all add: ready_def br_new_def br_rest_def)
  ultimately obtain r where "read_dict_frame (length ks) x (br_new (bw_take w2)) = Inr (((?t, map (Some \<circ> wire_text) ks), x2), r)"
    unfolding reads_back_def yields_def using w2(2) w1(3) by (metis append_Nil2 append.assoc)
  moreover have "write_dict_frame (reading, ks) d = (keys_after ks ?d1, Some (bw_take w2))"
    using w1(1) w2(1) by (simp add: write_dict_frame_def)
  ultimately show ?thesis using x2(2) by blast
qed

fun stamps :: "int \<Rightarrow> real option list \<Rightarrow> int list" where
  "stamps t [] = []"
| "stamps t (r # rs) = next_stamp r t # stamps (next_stamp r t) rs"

lemma keys_after_last: "kd_last (keys_after ks d) = kd_last d"
proof -
  have one: "kd_last (key_after k d) = kd_last d" for k d
    by (simp add: key_after_def write_key_def alloc_key_def split: option.split)
  show ?thesis by (induction ks arbitrary: d) (simp_all add: one)
qed

lemma key_session_ok:
  "in_sync d x \<Longrightarrow>
   key_session fs d x = map Inr (zip (stamps (kd_last d) (map fst fs)) (map (map (Some \<circ> wire_text) \<circ> snd) fs))"
proof (induction fs arbitrary: d x)
  case (Cons f fs)
  obtain reading ks where f: "f = (reading, ks)" by fastforce
  let ?d = "keys_after ks (begin_key_frame d\<lparr>kd_last := next_stamp reading (kd_last d)\<rparr>)"
  obtain bytes x' r where ok: "write_dict_frame f d = (?d, Some bytes)"
    "read_dict_frame (length ks) x (br_new bytes) = Inr (((next_stamp reading (kd_last d), map (Some \<circ> wire_text) ks), x'), r)" "in_sync ?d x'"
    using frame_ok [OF Cons.prems, where ks = ks and reading = reading] f by auto
  have "kd_last ?d = next_stamp reading (kd_last d)" by (simp add: keys_after_last)
  then show ?case using ok Cons.IH [OF ok(3)] by (simp add: f)
qed simp

text \<open>Clocks that read below \<open>2 ^ 53\<close>, where the doubles of the code are exact.\<close>

lemma stamps_below:
  "t < 2 ^ 53 \<Longrightarrow> list_all (pred_option (\<lambda>x. x < 2 ^ 53)) rs \<Longrightarrow> list_all (\<lambda>t. 0 \<le> t \<and> t < 2 ^ 53) (stamps t rs)"
proof (induction rs arbitrary: t)
  case (Cons r rs)
  have "next_stamp r t < 2 ^ 53" using Cons.prems by (cases r) (simp_all add: next_stamp_def floor_less_iff)
  moreover have "0 \<le> next_stamp r t" by (simp add: next_stamp_def)
  ultimately show ?case using Cons.IH [of "next_stamp r t"] Cons.prems(2) by simp
qed simp

lemma clean_keys:
  "list_all (list_all clean_text \<circ> snd) fs \<Longrightarrow> map (map (Some \<circ> wire_text) \<circ> snd) fs = map (map Some \<circ> snd) fs"
  by (auto simp: list_all_iff clean_text_wire)

section \<open>Eviction\<close>

lemma key_after_keeps:
  assumes "enc_ok d" and "jm_get (kd_by_key d) k = Some e" and "ke_used e = kd_clock d"
  shows "jm_get (kd_by_key (key_after key d)) k = Some e \<and> kd_clock (key_after key d) = kd_clock d"
proof (cases "jm_get (kd_by_key d) key")
  case (Some e')
  then show ?thesis using assms by (auto simp: key_after_def write_key_def)
next
  case None
  then have ne: "key \<noteq> k" using assms(2) by auto
  show ?thesis
    by (rule alloc_cases [OF assms(1)]) (use None ne assms in \<open>auto simp: key_after_def write_key_def\<close>)
qed

lemma enc_ok_key: "enc_ok d \<Longrightarrow> enc_ok (key_after k d) \<and> kd_max (key_after k d) = kd_max d"
proof (cases "jm_get (kd_by_key d) k")
  case (Some e)
  assume "enc_ok d"
  then show ?thesis using Some by (auto simp: key_after_def write_key_def enc_ok_def split: if_splits)
next
  case None
  assume ok: "enc_ok d"
  have max: "kd_max (snd (alloc_key d)) = kd_max d" by (simp add: alloc_key_def split: option.split)
  show ?thesis
  proof (cases "alloc_key d")
    case (Pair i d')
    then show ?thesis
    proof (cases i)
      case ni: None
      have "d' = d" by (rule alloc_cases [OF ok]) (use Pair ni in auto)
      then show ?thesis using ok None Pair ni by (simp add: key_after_def write_key_def)
    next
      case (Some j)
      note enter = enc_ok_enter [OF ok Pair [unfolded Some]]
      show ?thesis
        using enc_ok_insert [of d' j k] enter max None Pair Some by (simp add: key_after_def write_key_def)
    qed
  qed
qed

lemma keys_after_keeps:
  assumes "enc_ok d" and "jm_get (kd_by_key d) k = Some e" and "ke_used e = kd_clock d"
  shows "jm_get (kd_by_key (keys_after ks d)) k = Some e"
  using assms
proof (induction ks arbitrary: d)
  case (Cons key ks)
  then show ?case using key_after_keeps [of d k e key] enc_ok_key [of d key] by simp
qed simp

lemma enc_ok_size: "enc_ok d \<Longrightarrow> length (kd_by_key d) \<le> kd_max d"
proof -
  assume ok: "enc_ok d"
  have "ke_id (snd p) < kd_next d" if "p \<in> set (kd_by_key d)" for p
    using ok that jm_get_iff_mem [of "kd_by_key d" "fst p" "snd p"] by (simp add: enc_ok_def)
  then have "(ke_id \<circ> snd) ` set (kd_by_key d) \<subseteq> {..<kd_next d}" by auto
  moreover have "inj_on (ke_id \<circ> snd) (set (kd_by_key d))"
  proof (rule inj_onI)
    fix p q assume pq: "p \<in> set (kd_by_key d)" "q \<in> set (kd_by_key d)" "(ke_id \<circ> snd) p = (ke_id \<circ> snd) q"
    then have "jm_get (kd_by_key d) (fst p) = Some (snd p)" "jm_get (kd_by_key d) (fst q) = Some (snd q)"
      using ok by (simp_all add: enc_ok_def jm_get_iff_mem)
    moreover from this have "fst p = fst q" using ok pq(3) unfolding enc_ok_def by (metis comp_apply)
    ultimately show "p = q" by (simp add: prod_eq_iff)
  qed
  ultimately have "card (set (kd_by_key d)) \<le> card {..<kd_next d}" by (metis card_inj_on_le finite_lessThan)
  moreover have "distinct (kd_by_key d)" using ok by (simp add: enc_ok_def jm_wf_def distinct_map jm_keys_def)
  ultimately show ?thesis using ok distinct_card [of "kd_by_key d"] by (simp add: enc_ok_def)
qed

section \<open>Properties\<close>

text \<open>C17: Encoder and decoder never drift apart. However many keys appear, however small the id space and
  whatever is evicted, every frame reads back, for each key it was given, that key as the decoder of its text returns
  it, which is the key itself when it has no lone surrogate and no leading byte-order mark; and its stamp is the clock
  floored and held at its highest value, even when the clock runs backwards or is no number. The clock's readings
  are below \<open>2 ^ 53\<close>; then so is every stamp, where the code's doubles are exact.\<close>

theorem key_dictionaries_stay_in_sync:
  assumes "list_all (pred_option (\<lambda>t. t < 2 ^ 53)) (map fst fs)"
  defines "ts \<equiv> stamps (-1) (map fst fs)"
  shows "key_session fs (new_key_encode n) new_key_decode =
      map Inr (zip ts (map (map (Some \<circ> wire_text) \<circ> snd) fs)) \<and>
    (list_all (list_all clean_text \<circ> snd) fs \<longrightarrow>
      key_session fs (new_key_encode n) new_key_decode = map Inr (zip ts (map (map Some \<circ> snd) fs))) \<and>
    list_all (\<lambda>t. 0 \<le> t \<and> t < 2 ^ 53) ts"
proof -
  have "key_session fs (new_key_encode n) new_key_decode = map Inr (zip ts (map (map (Some \<circ> wire_text) \<circ> snd) fs))"
    using key_session_ok [OF in_sync_new, of fs n] by (simp add: new_key_encode_def ts_def)
  moreover have "list_all (\<lambda>t. 0 \<le> t \<and> t < 2 ^ 53) ts" using stamps_below [OF _ assms(1), of "-1"] by (simp add: ts_def)
  ultimately show ?thesis by (intro conjI impI) (simp_all only: clean_keys)
qed

theorem key_dictionaries_stay_in_sync_witness:
  "key_session [(Some (5 / 2), [[97], [98]]), (None, [[99], [97]]), (Some 1, [[99]])] (new_key_encode 1) new_key_decode =
     [Inr (2, [Some [97], Some [98]]), Inr (2, [Some [99], Some [97]]), Inr (2, [Some [99]])]"
proof -
  let ?fs = "[(Some (5 / 2), [[97], [98]]), (None, [[99], [97]]), (Some 1, [[99]])] :: (real option \<times> js_string list) list"
  have "list_all (pred_option (\<lambda>t. t < 2 ^ 53)) (map fst ?fs)" "list_all (list_all clean_text \<circ> snd) ?fs"
    by (simp_all add: clean_text_def is_high_def is_low_def)
  then have "key_session ?fs (new_key_encode 1) new_key_decode =
      map Inr (zip (stamps (-1) (map fst ?fs)) (map (map Some \<circ> snd) ?fs))"
    using key_dictionaries_stay_in_sync [of ?fs 1] by blast
  then show ?thesis by (simp add: next_stamp_def del: key_session.simps)
qed

text \<open>The id space is respected: after any frames the table holds at most \<open>maxEntries\<close> keys with ids
  below it, and a key used in the running frame keeps its id until the frame ends.\<close>

theorem key_ids_bounded:
  fixes fs :: "(real option \<times> js_string list) list" and n :: nat
  defines "d \<equiv> foldl (\<lambda>d f. fst (write_dict_frame f d)) (new_key_encode n) fs"
  shows "length (kd_by_key d) \<le> n \<and> (\<forall>k e. jm_get (kd_by_key d) k = Some e \<longrightarrow> ke_id e < n) \<and>
    (\<forall>ks more k e. jm_get (kd_by_key (keys_after ks (begin_key_frame d))) k = Some e \<and>
       ke_used e = kd_clock (keys_after ks (begin_key_frame d)) \<longrightarrow>
       jm_get (kd_by_key (keys_after (ks @ more) (begin_key_frame d))) k = Some e)"
proof -
  have keys: "enc_ok d' \<Longrightarrow> enc_ok (keys_after ks d') \<and> kd_max (keys_after ks d') = kd_max d'" for ks d'
    by (induction ks arbitrary: d') (simp_all add: enc_ok_key)
  have frame: "enc_ok (fst (write_dict_frame f d')) \<and> kd_max (fst (write_dict_frame f d')) = kd_max d'" if ok: "enc_ok d'" for f d'
  proof -
    let ?b = "begin_key_frame d'"
    have low: "-1 \<le> kd_last ?b" using ok by (simp add: begin_key_frame_def enc_ok_def)
    let ?d1 = "?b\<lparr>kd_last := next_stamp (fst f) (kd_last ?b)\<rparr>"
    have "-1 \<le> next_stamp (fst f) (kd_last ?b)" by (simp add: next_stamp_def)
    then have d1: "enc_ok ?d1" "kd_max ?d1 = kd_max d'" using ok by (auto simp: begin_key_frame_def enc_ok_def le_SucI)
    obtain w where "bw_varint (nat (next_stamp (fst f) (kd_last ?b) - max (kd_last ?b) 0)) (bw_new 16) = Some w" "bw_inv w"
      using appends_varint bw_inv_new [of 16] unfolding appends_def by fastforce
    then have "fst (write_dict_frame f d') = keys_after (snd f) ?d1"
      using write_keys_ok [of w "snd f" ?d1] by (auto simp: write_dict_frame_def write_stamp_eq [OF low])
    then show ?thesis using keys [OF d1(1), of "snd f"] d1(2) by simp
  qed
  have "enc_ok d' \<Longrightarrow> enc_ok (foldl (\<lambda>d f. fst (write_dict_frame f d)) d' fs) \<and>
      kd_max (foldl (\<lambda>d f. fst (write_dict_frame f d)) d' fs) = kd_max d'" for d'
    by (induction fs arbitrary: d') (simp_all add: frame)
  moreover have "enc_ok (new_key_encode n)" using in_sync_new by (simp add: in_sync_def)
  ultimately have ok: "enc_ok d" "kd_max d = n" by (simp_all add: d_def, simp add: new_key_encode_def)
  then have "enc_ok (begin_key_frame d)" by (auto simp: begin_key_frame_def enc_ok_def le_SucI)
  then have inner: "enc_ok (keys_after ks (begin_key_frame d))" for ks using keys by blast
  have split: "keys_after (ks @ more) d' = keys_after more (keys_after ks d')" for ks more d'
    by (induction ks arbitrary: d') simp_all
  have "ke_id e < n" if "jm_get (kd_by_key d) k = Some e" for k e
  proof -
    have "ke_id e < kd_next d" "kd_next d \<le> kd_max d" using ok(1) that by (simp_all add: enc_ok_def)
    then show ?thesis using ok(2) by simp
  qed
  then show ?thesis using enc_ok_size [OF ok(1)] ok(2) keys_after_keeps [OF inner] by (simp add: split)
qed

theorem key_ids_bounded_witness:
  "length (kd_by_key (foldl (\<lambda>d f. fst (write_dict_frame f d)) (new_key_encode 1) [(Some 2, [[97], [98]]), (None, [[99]])])) \<le> 1"
  by (rule conjunct1 [OF key_ids_bounded])

end
