(* ===== verification/Throttle.thy ===== *)
theory Throttle
  imports Prelude "HOL-Library.Sublist"
begin

text \<open>
  The throttle and debounce plugin, \<open>src/plugins/throttle/server.js\<close>.

  A payload stands for the platform, event, data and options of a publish. \<open>bad\<close> says on which
  payloads \<open>platform.publish\<close> throws, a parameter of every operation that publishes; \<open>lm_sent\<close>
  logs the publishes that went out, with their instants. A timer handle stays truthy after its timer
  has fired or was cleared: \<open>Stale\<close>. A timer fires as an event at an instant not before it is due.
\<close>

section \<open>State\<close>

datatype timer_handle = NoTimer | Armed real | Stale

record 'v topic_slot =
  ts_timer :: timer_handle
  ts_pending :: "'v option"

record 'v limiter =
  lm_interval :: real
  lm_max :: nat
  lm_max_len :: nat
  lm_topics :: "(js_string, 'v topic_slot) jsmap"
  lm_sent :: "(js_string \<times> 'v \<times> real) list"

datatype limiter_error = BadInterval | BadMaxTopics | BadMaxTopicLength | EmptyTopic | LongTopic | PublishThrew

text \<open>\<open>None\<close> stands for an interval that is no finite number and for an omitted option.\<close>

definition create_limiter :: "real option \<Rightarrow> int option \<Rightarrow> int option \<Rightarrow> limiter_error + 'v limiter" where
  "create_limiter interval max_topics max_len =
     (let m = (case max_topics of None \<Rightarrow> 1000000 | Some m \<Rightarrow> m); l = (case max_len of None \<Rightarrow> 256 | Some l \<Rightarrow> l) in
      case interval of
        None \<Rightarrow> Inl BadInterval
      | Some i \<Rightarrow>
          if i < 0 then Inl BadInterval
          else if m < 1 then Inl BadMaxTopics
          else if l < 1 then Inl BadMaxTopicLength
          else Inr \<lparr>lm_interval = i, lm_max = nat m, lm_max_len = nat l, lm_topics = [], lm_sent = []\<rparr>)"

definition validate_topic :: "nat \<Rightarrow> js_string \<Rightarrow> limiter_error + unit" where
  "validate_topic max_len topic =
     (if topic = [] then Inl EmptyTopic else if max_len < length topic then Inl LongTopic else Inr ())"

definition note_sent :: "js_string \<Rightarrow> 'v \<Rightarrow> real \<Rightarrow> 'v limiter \<Rightarrow> 'v limiter" where
  "note_sent topic v now s = s\<lparr>lm_sent := lm_sent s @ [(topic, v, now)]\<rparr>"

definition put_topic :: "js_string \<Rightarrow> 'v topic_slot \<Rightarrow> 'v limiter \<Rightarrow> 'v limiter" where
  "put_topic topic slot s = s\<lparr>lm_topics := jm_set topic slot (lm_topics s)\<rparr>"

definition drop_topic :: "js_string \<Rightarrow> 'v limiter \<Rightarrow> 'v limiter" where
  "drop_topic topic s = s\<lparr>lm_topics := jm_del topic (lm_topics s)\<rparr>"

definition clear_handle :: "timer_handle \<Rightarrow> timer_handle" where
  "clear_handle t = (if t = NoTimer then NoTimer else Stale)"

section \<open>Flush, cancel, evict\<close>

definition flush_one :: "('v \<Rightarrow> bool) \<Rightarrow> real \<Rightarrow> js_string \<Rightarrow> 'v limiter \<Rightarrow> (limiter_error + unit) \<times> 'v limiter" where
  "flush_one bad now topic s =
     (case jm_get (lm_topics s) topic of
        None \<Rightarrow> (Inr (), s)
      | Some slot \<Rightarrow>
          (case ts_pending slot of
             None \<Rightarrow> (Inr (), drop_topic topic s)
           | Some p \<Rightarrow>
               if bad p then (Inl PublishThrew, put_topic topic (slot\<lparr>ts_timer := clear_handle (ts_timer slot)\<rparr>) s)
               else (Inr (), drop_topic topic (note_sent topic p now s))))"

text \<open>The loop of \<open>flushAll\<close>: every topic it reaches loses its timer, a throw ends it.\<close>

fun flush_loop :: "('v \<Rightarrow> bool) \<Rightarrow> real \<Rightarrow> (js_string, 'v topic_slot) jsmap \<Rightarrow> 'v limiter \<Rightarrow> bool \<times> 'v limiter" where
  "flush_loop bad now [] s = (True, s)"
| "flush_loop bad now ((topic, slot) # m) s =
     (let s = put_topic topic (slot\<lparr>ts_timer := clear_handle (ts_timer slot)\<rparr>) s in
      case ts_pending slot of
        None \<Rightarrow> flush_loop bad now m s
      | Some p \<Rightarrow> if bad p then (False, s) else flush_loop bad now m (note_sent topic p now s))"

definition flush_all :: "('v \<Rightarrow> bool) \<Rightarrow> real \<Rightarrow> 'v limiter \<Rightarrow> (limiter_error + unit) \<times> 'v limiter" where
  "flush_all bad now s =
     (case flush_loop bad now (lm_topics s) s of
        (True, s) \<Rightarrow> (Inr (), s\<lparr>lm_topics := []\<rparr>)
      | (False, s) \<Rightarrow> (Inl PublishThrew, s))"

definition limiter_flush :: "('v \<Rightarrow> bool) \<Rightarrow> real \<Rightarrow> js_string option \<Rightarrow> 'v limiter \<Rightarrow> (limiter_error + unit) \<times> 'v limiter" where
  "limiter_flush bad now topic s = (case topic of None \<Rightarrow> flush_all bad now s | Some t \<Rightarrow> flush_one bad now t s)"

definition limiter_cancel :: "js_string option \<Rightarrow> 'v limiter \<Rightarrow> 'v limiter" where
  "limiter_cancel topic s = (case topic of None \<Rightarrow> s\<lparr>lm_topics := []\<rparr> | Some t \<Rightarrow> drop_topic t s)"

text \<open>A throw while the oldest topic is sent off early is swallowed.\<close>

definition evict_oldest_topic :: "('v \<Rightarrow> bool) \<Rightarrow> real \<Rightarrow> 'v limiter \<Rightarrow> 'v limiter" where
  "evict_oldest_topic bad now s =
     (if jm_size (lm_topics s) < lm_max s then s
      else case lm_topics s of
        [] \<Rightarrow> s
      | (oldest, slot) # _ \<Rightarrow>
          drop_topic oldest
            (case ts_pending slot of None \<Rightarrow> s | Some p \<Rightarrow> if bad p then s else note_sent oldest p now s))"

text \<open>The slot of a topic, entered if it is new.\<close>

definition enter_topic :: "('v \<Rightarrow> bool) \<Rightarrow> real \<Rightarrow> js_string \<Rightarrow> 'v limiter \<Rightarrow> 'v topic_slot \<times> 'v limiter" where
  "enter_topic bad now topic s =
     (case jm_get (lm_topics s) topic of
        Some slot \<Rightarrow> (slot, s)
      | None \<Rightarrow>
          let slot = \<lparr>ts_timer = NoTimer, ts_pending = None\<rparr>
          in (slot, put_topic topic slot (evict_oldest_topic bad now s)))"

section \<open>Throttle\<close>

definition throttle_publish :: "('v \<Rightarrow> bool) \<Rightarrow> real \<Rightarrow> js_string \<Rightarrow> 'v \<Rightarrow> 'v limiter \<Rightarrow> (limiter_error + unit) \<times> 'v limiter" where
  "throttle_publish bad now topic v s =
     (case validate_topic (lm_max_len s) topic of
        Inl e \<Rightarrow> (Inl e, s)
      | Inr _ \<Rightarrow>
          (case enter_topic bad now topic s of (slot, s) \<Rightarrow>
             if ts_timer slot = NoTimer then
               (if bad v then (Inl PublishThrew, s)
                else (Inr (), put_topic topic (slot\<lparr>ts_pending := None, ts_timer := Armed (now + lm_interval s)\<rparr>) (note_sent topic v now s)))
             else (Inr (), put_topic topic (slot\<lparr>ts_pending := Some v\<rparr>) s)))"

definition timer_ready :: "real \<Rightarrow> timer_handle \<Rightarrow> bool" where
  "timer_ready now t = (case t of Armed due \<Rightarrow> due \<le> now | _ \<Rightarrow> False)"

definition throttle_tick :: "('v \<Rightarrow> bool) \<Rightarrow> real \<Rightarrow> js_string \<Rightarrow> 'v limiter \<Rightarrow> 'v limiter" where
  "throttle_tick bad now topic s =
     (case jm_get (lm_topics s) topic of
        None \<Rightarrow> s
      | Some slot \<Rightarrow>
          if \<not> timer_ready now (ts_timer slot) then s
          else case ts_pending slot of
            None \<Rightarrow> drop_topic topic s
          | Some p \<Rightarrow>
              if bad p then put_topic topic \<lparr>ts_timer = Stale, ts_pending = None\<rparr> s
              else put_topic topic \<lparr>ts_timer = Armed (now + lm_interval s), ts_pending = None\<rparr> (note_sent topic p now s))"

section \<open>Debounce\<close>

definition debounce_publish :: "('v \<Rightarrow> bool) \<Rightarrow> real \<Rightarrow> js_string \<Rightarrow> 'v \<Rightarrow> 'v limiter \<Rightarrow> (limiter_error + unit) \<times> 'v limiter" where
  "debounce_publish bad now topic v s =
     (case validate_topic (lm_max_len s) topic of
        Inl e \<Rightarrow> (Inl e, s)
      | Inr _ \<Rightarrow>
          (case enter_topic bad now topic s of (slot, s) \<Rightarrow>
             (Inr (), put_topic topic \<lparr>ts_timer = Armed (now + lm_interval s), ts_pending = Some v\<rparr> s)))"

definition debounce_fire :: "('v \<Rightarrow> bool) \<Rightarrow> real \<Rightarrow> js_string \<Rightarrow> 'v limiter \<Rightarrow> 'v limiter" where
  "debounce_fire bad now topic s =
     (case jm_get (lm_topics s) topic of
        None \<Rightarrow> s
      | Some slot \<Rightarrow>
          if \<not> timer_ready now (ts_timer slot) then s
          else case ts_pending slot of
            None \<Rightarrow> drop_topic topic s
          | Some p \<Rightarrow>
              if bad p then put_topic topic (slot\<lparr>ts_timer := Stale\<rparr>) s
              else drop_topic topic (note_sent topic p now s))"

section \<open>Runs\<close>

datatype 'v limiter_event =
    LmPublish real js_string 'v
  | LmTimer real js_string
  | LmFlush real "js_string option"
  | LmCancel "js_string option"

fun throttle_step :: "('v \<Rightarrow> bool) \<Rightarrow> 'v limiter \<Rightarrow> 'v limiter_event \<Rightarrow> 'v limiter" where
  "throttle_step bad s (LmPublish now topic v) = snd (throttle_publish bad now topic v s)"
| "throttle_step bad s (LmTimer now topic) = throttle_tick bad now topic s"
| "throttle_step bad s (LmFlush now topic) = snd (limiter_flush bad now topic s)"
| "throttle_step bad s (LmCancel topic) = limiter_cancel topic s"

fun debounce_step :: "('v \<Rightarrow> bool) \<Rightarrow> 'v limiter \<Rightarrow> 'v limiter_event \<Rightarrow> 'v limiter" where
  "debounce_step bad s (LmPublish now topic v) = snd (debounce_publish bad now topic v s)"
| "debounce_step bad s (LmTimer now topic) = debounce_fire bad now topic s"
| "debounce_step bad s (LmFlush now topic) = snd (limiter_flush bad now topic s)"
| "debounce_step bad s (LmCancel topic) = limiter_cancel topic s"

section \<open>Interface: a coalescing sender\<close>

definition opt_list :: "'a option \<Rightarrow> 'a list" where
  "opt_list x = (case x of None \<Rightarrow> [] | Some v \<Rightarrow> [v])"

lemma opt_list_simps [simp]: "opt_list None = []" "opt_list (Some v) = [v]"
  by (simp_all add: opt_list_def)

text \<open>\<open>out\<close> is what went out for a topic followed by what is held for it; \<open>taken\<close> is the value an event
  hands over.\<close>

locale coalescer =
  fixes step :: "'s \<Rightarrow> 'e \<Rightarrow> 's"
    and taken :: "'s \<Rightarrow> 'e \<Rightarrow> ('t \<times> 'v) option"
    and sent :: "'s \<Rightarrow> 't \<Rightarrow> 'v list"
    and held :: "'s \<Rightarrow> 't \<Rightarrow> 'v option"
    and good :: "'s \<Rightarrow> bool"
    and plain :: "'e \<Rightarrow> bool"
  assumes good_step: "good s \<Longrightarrow> plain e \<Longrightarrow> good (step s e)"
    and quiet: "good s \<Longrightarrow> plain e \<Longrightarrow> (\<forall>v. taken s e \<noteq> Some (t, v)) \<Longrightarrow>
      sent (step s e) t @ opt_list (held (step s e) t) = sent s t @ opt_list (held s t)"
    and take: "good s \<Longrightarrow> plain e \<Longrightarrow> taken s e = Some (t, v) \<Longrightarrow>
      sent (step s e) t @ opt_list (held (step s e) t) = sent s t @ [v]"
begin

fun all_taken :: "'s \<Rightarrow> 'e list \<Rightarrow> 't \<Rightarrow> 'v list" where
  "all_taken s [] t = []"
| "all_taken s (e # es) t = (case taken s e of Some (t', v) \<Rightarrow> if t' = t then [v] else [] | None \<Rightarrow> []) @ all_taken (step s e) es t"

definition settled :: "'s \<Rightarrow> 't \<Rightarrow> 'v list" where
  "settled s t = sent s t @ opt_list (held s t)"

lemma latest_wins_from:
  assumes "good s" and "list_all plain es" and "subseq (settled s t) vs"
    and "vs \<noteq> [] \<longrightarrow> settled s t \<noteq> [] \<and> last (settled s t) = last vs"
  shows "good (foldl step s es) \<and> subseq (settled (foldl step s es) t) (vs @ all_taken s es t) \<and>
    (vs @ all_taken s es t \<noteq> [] \<longrightarrow> settled (foldl step s es) t \<noteq> [] \<and> last (settled (foldl step s es) t) = last (vs @ all_taken s es t))"
  using assms
proof (induction es arbitrary: s vs)
  case (Cons e es)
  have plain: "plain e" "list_all plain es" and good: "good (step s e)" using Cons.prems good_step by auto
  show ?case
  proof (cases "\<exists>v. taken s e = Some (t, v)")
    case True
    then obtain v where v: "taken s e = Some (t, v)" by blast
    have now: "settled (step s e) t = sent s t @ [v]" using take [OF Cons.prems(1) plain(1) v] by (simp add: settled_def)
    have "subseq (sent s t) (settled s t)" unfolding settled_def by (rule prefix_imp_subseq) simp
    then have "subseq (sent s t) vs" using Cons.prems(3) subseq_order.trans by blast
    then have sub: "subseq (settled (step s e) t) (vs @ [v])" unfolding now by (intro list_emb_append_mono) simp_all
    have last_ok: "vs @ [v] \<noteq> [] \<longrightarrow> settled (step s e) t \<noteq> [] \<and> last (settled (step s e) t) = last (vs @ [v])" by (simp add: now)
    have eq: "vs @ all_taken s (e # es) t = (vs @ [v]) @ all_taken (step s e) es t" by (simp add: v)
    show ?thesis unfolding eq foldl.simps by (rule Cons.IH [OF good plain(2) sub last_ok])
  next
    case False
    then have none: "(case taken s e of Some (t', v) \<Rightarrow> if t' = t then [v] else [] | None \<Rightarrow> []) = []"
      by (auto split: option.split)
    have same: "settled (step s e) t = settled s t" using quiet [OF Cons.prems(1) plain(1), of t] False by (simp add: settled_def)
    have eq: "all_taken s (e # es) t = all_taken (step s e) es t" by (simp only: all_taken.simps none append_Nil)
    show ?thesis unfolding eq foldl.simps by (rule Cons.IH [OF good plain(2)]) (use Cons.prems(3,4) same in simp_all)
  qed
qed simp

lemma latest_wins:
  assumes "good s" and "list_all plain es" and "settled s t = []"
  shows "good (foldl step s es) \<and> subseq (settled (foldl step s es) t) (all_taken s es t) \<and>
    (all_taken s es t \<noteq> [] \<longrightarrow> last (settled (foldl step s es) t) = last (all_taken s es t))"
  using latest_wins_from [OF assms(1,2), of t "[]"] assms(3) by simp

end

section \<open>What the operations do to a topic\<close>

definition sent_of :: "'v limiter \<Rightarrow> js_string \<Rightarrow> 'v list" where
  "sent_of s t = map (\<lambda>(u, v, n). v) (filter (\<lambda>(u, v, n). u = t) (lm_sent s))"

definition held_of :: "'v limiter \<Rightarrow> js_string \<Rightarrow> 'v option" where
  "held_of s t = (case jm_get (lm_topics s) t of None \<Rightarrow> None | Some slot \<Rightarrow> ts_pending slot)"

definition out_of :: "'v limiter \<Rightarrow> js_string \<Rightarrow> 'v list" where
  "out_of s t = sent_of s t @ opt_list (held_of s t)"

definition limiter_good :: "'v limiter \<Rightarrow> bool" where
  "limiter_good s \<longleftrightarrow> jm_wf (lm_topics s) \<and>
     (\<forall>t slot. jm_get (lm_topics s) t = Some slot \<longrightarrow> (\<exists>due. ts_timer slot = Armed due))"

lemma view_simps [simp]:
  "sent_of (put_topic t slot s) u = sent_of s u" "sent_of (drop_topic t s) u = sent_of s u"
  "sent_of (note_sent t v n s) u = sent_of s u @ (if u = t then [v] else [])"
  "held_of (put_topic t slot s) u = (if u = t then ts_pending slot else held_of s u)"
  "held_of (drop_topic t s) u = (if u = t then None else held_of s u)" "held_of (note_sent t v n s) u = held_of s u"
  "lm_topics (put_topic t slot s) = jm_set t slot (lm_topics s)" "lm_topics (drop_topic t s) = jm_del t (lm_topics s)"
  "lm_topics (note_sent t v n s) = lm_topics s" "lm_interval (put_topic t slot s) = lm_interval s"
  "lm_interval (drop_topic t s) = lm_interval s" "lm_interval (note_sent t v n s) = lm_interval s"
  "lm_max (put_topic t slot s) = lm_max s" "lm_max (drop_topic t s) = lm_max s" "lm_max (note_sent t v n s) = lm_max s"
  "lm_max_len (put_topic t slot s) = lm_max_len s" "lm_max_len (drop_topic t s) = lm_max_len s"
  "lm_max_len (note_sent t v n s) = lm_max_len s"
  "lm_sent (put_topic t slot s) = lm_sent s" "lm_sent (drop_topic t s) = lm_sent s"
  by (simp_all add: put_topic_def drop_topic_def note_sent_def sent_of_def held_of_def)

text \<open>When no publish throws.\<close>

abbreviation never :: "'v \<Rightarrow> bool" where
  "never \<equiv> \<lambda>_. False"

lemma evict_keeps:
  assumes "jm_wf (lm_topics s)"
  shows "out_of (evict_oldest_topic never n s) u = out_of s u"
    and "\<exists>m. lm_topics (evict_oldest_topic never n s) = m \<and> jm_wf m \<and> (\<forall>k slot. jm_get m k = Some slot \<longrightarrow> jm_get (lm_topics s) k = Some slot)"
    and "lm_interval (evict_oldest_topic never n s) = lm_interval s \<and> lm_max (evict_oldest_topic never n s) = lm_max s \<and>
      lm_max_len (evict_oldest_topic never n s) = lm_max_len s"
proof -
  have h: "held_of s t = ts_pending slot" if "lm_topics s = (t, slot) # m" for t slot m
    using that by (simp add: held_of_def jm_get_def)
  show "out_of (evict_oldest_topic never n s) u = out_of s u"
    by (auto simp: evict_oldest_topic_def out_of_def h split: list.split option.split)
  show "\<exists>m. lm_topics (evict_oldest_topic never n s) = m \<and> jm_wf m \<and> (\<forall>k slot. jm_get m k = Some slot \<longrightarrow> jm_get (lm_topics s) k = Some slot)"
    using assms by (auto simp: evict_oldest_topic_def split: list.split option.split if_splits)
  show "lm_interval (evict_oldest_topic never n s) = lm_interval s \<and> lm_max (evict_oldest_topic never n s) = lm_max s \<and>
      lm_max_len (evict_oldest_topic never n s) = lm_max_len s"
    by (auto simp: evict_oldest_topic_def split: list.split option.split)
qed

lemma enter_keeps:
  assumes good: "limiter_good s" and e: "enter_topic never n t s = (slot, s')"
  shows "out_of s' u = out_of s u" and "jm_get (lm_topics s') t = Some slot" and "jm_wf (lm_topics s')"
    and "k \<noteq> t \<Longrightarrow> jm_get (lm_topics s') k = Some slot' \<Longrightarrow> \<exists>due. ts_timer slot' = Armed due"
    and "ts_timer slot \<noteq> NoTimer \<Longrightarrow> \<exists>due. ts_timer slot = Armed due"
    and "ts_timer slot = NoTimer \<Longrightarrow> ts_pending slot = None"
    and "lm_max_len s' = lm_max_len s"
proof -
  have wf: "jm_wf (lm_topics s)" using good by (simp add: limiter_good_def)
  note ev = evict_keeps [OF wf, of n]
  have all: "out_of s' u = out_of s u \<and> jm_get (lm_topics s') t = Some slot \<and> jm_wf (lm_topics s') \<and>
      (\<forall>k slot'. k \<noteq> t \<longrightarrow> jm_get (lm_topics s') k = Some slot' \<longrightarrow> (\<exists>due. ts_timer slot' = Armed due)) \<and>
      (ts_timer slot \<noteq> NoTimer \<longrightarrow> (\<exists>due. ts_timer slot = Armed due)) \<and> (ts_timer slot = NoTimer \<longrightarrow> ts_pending slot = None) \<and>
      lm_max_len s' = lm_max_len s"
  proof (cases "jm_get (lm_topics s) t")
    case (Some slot0)
    then have "slot = slot0" "s' = s" using e by (simp_all add: enter_topic_def)
    moreover obtain due where "ts_timer slot0 = Armed due" using Some good by (auto simp: limiter_good_def)
    ultimately show ?thesis using Some good by (auto simp: limiter_good_def)
  next
    case None
    let ?s = "evict_oldest_topic never n s" and ?slot = "\<lparr>ts_timer = NoTimer, ts_pending = None\<rparr> :: 'a topic_slot"
    have s': "slot = ?slot" "s' = put_topic t ?slot ?s" using None e by (auto simp: enter_topic_def Let_def)
    have "jm_get (lm_topics ?s) t = None"
      using ev(2) None by (metis option.exhaust option.simps(3))
    then have "held_of ?s t = None" by (simp add: held_of_def)
    then have "out_of s' u = out_of ?s u" by (simp add: out_of_def s')
    moreover have "\<exists>due. ts_timer slot' = Armed due" if "jm_get (lm_topics ?s) k = Some slot'" for k slot'
      using ev(2) that good unfolding limiter_good_def by metis
    ultimately show ?thesis using ev by (auto simp: s')
  qed
  then show "out_of s' u = out_of s u" "jm_get (lm_topics s') t = Some slot" "jm_wf (lm_topics s')"
    "k \<noteq> t \<Longrightarrow> jm_get (lm_topics s') k = Some slot' \<Longrightarrow> \<exists>due. ts_timer slot' = Armed due"
    "ts_timer slot \<noteq> NoTimer \<Longrightarrow> \<exists>due. ts_timer slot = Armed due" "ts_timer slot = NoTimer \<Longrightarrow> ts_pending slot = None"
    "lm_max_len s' = lm_max_len s" by blast+
qed

fun taken_by :: "'v limiter \<Rightarrow> 'v limiter_event \<Rightarrow> (js_string \<times> 'v) option" where
  "taken_by s (LmPublish now t v) = (if validate_topic (lm_max_len s) t = Inr () then Some (t, v) else None)"
| "taken_by s _ = None"

fun not_cancel :: "'v limiter_event \<Rightarrow> bool" where
  "not_cancel (LmCancel t) = False"
| "not_cancel _ = True"

lemma goodI:
  assumes "jm_wf (lm_topics s)" and "\<And>t slot. jm_get (lm_topics s) t = Some slot \<Longrightarrow> \<exists>due. ts_timer slot = Armed due"
  shows "limiter_good s"
  using assms by (simp add: limiter_good_def)

lemma good_simps:
  "limiter_good s \<Longrightarrow> limiter_good (drop_topic t s)"
  "limiter_good s \<Longrightarrow> limiter_good (put_topic t \<lparr>ts_timer = Armed due, ts_pending = p\<rparr> s)"
  "limiter_good (note_sent t v n s) \<longleftrightarrow> limiter_good s"
  by (auto simp: limiter_good_def split: if_splits)

lemma publish_keeps:
  assumes good: "limiter_good s" and valid: "validate_topic (lm_max_len s) t = Inr ()"
    and step: "s' = snd (throttle_publish never now t v s) \<or> s' = snd (debounce_publish never now t v s)"
  shows "limiter_good s'" and "out_of s' t = sent_of s t @ [v]" and "u \<noteq> t \<Longrightarrow> out_of s' u = out_of s u"
    and "held_of s' t = None \<or> held_of s' t = Some v"
proof -
  obtain slot s1 where e: "enter_topic never now t s = (slot, s1)" by fastforce
  note keeps = enter_keeps [OF good e]
  have held: "held_of s1 t = ts_pending slot" using keeps(2) by (simp add: held_of_def)
  have sent: "sent_of s1 t = sent_of s t"
  proof (cases "jm_get (lm_topics s) t")
    case None
    then have "held_of s t = None" by (simp add: held_of_def)
    moreover have "ts_pending slot = None" using e None by (auto simp: enter_topic_def Let_def)
    ultimately show ?thesis using keeps(1) [of t] held by (simp add: out_of_def)
  next
    case (Some slot0)
    then show ?thesis using e by (simp add: enter_topic_def)
  qed
  have cases: "s' = put_topic t (slot\<lparr>ts_pending := None, ts_timer := Armed (now + lm_interval s1)\<rparr>) (note_sent t v now s1) \<or>
      (s' = put_topic t (slot\<lparr>ts_pending := Some v\<rparr>) s1 \<and> ts_timer slot \<noteq> NoTimer) \<or>
      s' = put_topic t \<lparr>ts_timer = Armed (now + lm_interval s1), ts_pending = Some v\<rparr> s1"
    using step valid e by (auto simp: throttle_publish_def debounce_publish_def)
  show "limiter_good s'"
    using cases keeps(3,4,5) by (intro goodI) (auto split: if_splits)
  show "out_of s' t = sent_of s t @ [v]" using cases sent by (auto simp: out_of_def)
  show "held_of s' t = None \<or> held_of s' t = Some v" using cases by auto
  have "out_of s' u = out_of s1 u" if "u \<noteq> t" using cases that by (auto simp: out_of_def)
  then show "u \<noteq> t \<Longrightarrow> out_of s' u = out_of s u" using keeps(1) by simp
qed

lemma timer_keeps:
  assumes good: "limiter_good s" and step: "s' = throttle_tick never now t s \<or> s' = debounce_fire never now t s"
  shows "limiter_good s' \<and> out_of s' u = out_of s u"
proof (cases "jm_get (lm_topics s) t")
  case None
  then show ?thesis using good step by (auto simp: throttle_tick_def debounce_fire_def)
next
  case (Some slot)
  then have h: "held_of s t = ts_pending slot" by (simp add: held_of_def)
  have "s' = s \<or> (ts_pending slot = None \<and> s' = drop_topic t s) \<or>
      (\<exists>p. ts_pending slot = Some p \<and> (s' = drop_topic t (note_sent t p now s) \<or>
        s' = put_topic t \<lparr>ts_timer = Armed (now + lm_interval s), ts_pending = None\<rparr> (note_sent t p now s)))"
    using step Some by (auto simp: throttle_tick_def debounce_fire_def split: option.splits)
  then show ?thesis using good h by (elim disjE exE conjE) (simp_all add: good_simps out_of_def)
qed

lemma flush_loop_never:
  "fst (flush_loop never now m s) \<and>
   (jm_wf m \<longrightarrow> sent_of (snd (flush_loop never now m s)) u = sent_of s u @ (case jm_get m u of None \<Rightarrow> [] | Some slot \<Rightarrow> opt_list (ts_pending slot)))"
proof (induction m arbitrary: s)
  case (Cons p m)
  obtain t slot where p: "p = (t, slot)" by fastforce
  have "jm_wf (p # m) \<longrightarrow> jm_wf m \<and> (u = t \<longrightarrow> jm_get m u = None)"
    using jm_wf_ConsD [of p m] p by (auto simp: jm_get_None)
  moreover have "jm_get (p # m) u = (if u = t then Some slot else jm_get m u)" by (simp add: jm_get_def p)
  ultimately show ?case using Cons.IH by (auto simp: p Let_def split: option.split)
qed simp

lemma flush_keeps:
  assumes good: "limiter_good s" and step: "s' = snd (limiter_flush never now topic s)"
  shows "limiter_good s' \<and> out_of s' u = out_of s u"
proof (cases topic)
  case None
  obtain s1 where f: "flush_loop never now (lm_topics s) s = (True, s1)"
    using flush_loop_never [of now "lm_topics s" s] by (cases "flush_loop never now (lm_topics s) s") auto
  then have s': "s' = s1\<lparr>lm_topics := []\<rparr>" using step None by (simp add: limiter_flush_def flush_all_def)
  have "sent_of s1 u = sent_of s u @ (case jm_get (lm_topics s) u of None \<Rightarrow> [] | Some slot \<Rightarrow> opt_list (ts_pending slot))"
    using flush_loop_never [of now "lm_topics s" s u] f good by (simp add: limiter_good_def)
  moreover have "sent_of s' u = sent_of s1 u" "held_of s' u = None" by (simp_all add: s' sent_of_def held_of_def)
  moreover have "limiter_good s'" by (simp add: s' limiter_good_def)
  ultimately show ?thesis by (auto simp: out_of_def held_of_def split: option.split)
next
  case (Some t)
  show ?thesis
  proof (cases "jm_get (lm_topics s) t")
    case None
    then show ?thesis using good step Some by (simp add: limiter_flush_def flush_one_def)
  next
    case slot: (Some slot)
    then have "held_of s t = ts_pending slot" by (simp add: held_of_def)
    then show ?thesis using good step Some slot
      by (cases "ts_pending slot") (simp_all add: limiter_flush_def flush_one_def good_simps out_of_def)
  qed
qed

lemma invalid_publish:
  assumes "validate_topic (lm_max_len s) t \<noteq> Inr ()"
  shows "snd (throttle_publish bad now t v s) = s \<and> snd (debounce_publish bad now t v s) = s"
  using assms by (cases "validate_topic (lm_max_len s) t") (auto simp: throttle_publish_def debounce_publish_def)

text \<open>Both senders, from their publish and timer operations.\<close>

lemma step_quiet:
  assumes good: "limiter_good s" and plain: "not_cancel e" and none: "\<forall>v. taken_by s e \<noteq> Some (t, v)"
    and step: "s' = throttle_step never s e \<or> s' = debounce_step never s e"
  shows "limiter_good s' \<and> out_of s' t = out_of s t"
proof (cases e)
  case (LmPublish now u v)
  show ?thesis
  proof (cases "validate_topic (lm_max_len s) u = Inr ()")
    case True
    then have "u \<noteq> t" using none LmPublish by simp
    then show ?thesis using publish_keeps(1,3) [OF good True] step LmPublish by auto
  next
    case False
    then show ?thesis using invalid_publish [OF False, of never now v] good step LmPublish by auto
  qed
next
  case (LmTimer now u)
  then show ?thesis using timer_keeps [OF good] step by auto
next
  case (LmFlush now u)
  then show ?thesis using flush_keeps [OF good] step by auto
qed (use plain in simp)

lemma step_take:
  assumes good: "limiter_good s" and taken: "taken_by s e = Some (t, v)"
    and step: "s' = throttle_step never s e \<or> s' = debounce_step never s e"
  shows "limiter_good s' \<and> out_of s' t = sent_of s t @ [v]"
proof -
  obtain now where e: "e = LmPublish now t v" "validate_topic (lm_max_len s) t = Inr ()"
    using taken by (cases e) (auto split: if_splits)
  then show ?thesis using publish_keeps(1,2) [OF good e(2)] step by auto
qed

lemma step_good:
  assumes "limiter_good s" and "not_cancel e" and "s' = throttle_step never s e \<or> s' = debounce_step never s e"
  shows "limiter_good s'"
proof (cases "taken_by s e")
  case None
  then show ?thesis using step_quiet [OF assms(1,2) _ assms(3)] by simp
next
  case (Some p)
  then show ?thesis using step_take [OF assms(1) _ assms(3)] by (cases p) auto
qed

lemma throttle_sender:
  assumes "limiter_good s" and "not_cancel e"
  shows "limiter_good (throttle_step never s e)"
    and "\<forall>v. taken_by s e \<noteq> Some (t, v) \<Longrightarrow> out_of (throttle_step never s e) t = out_of s t"
    and "taken_by s e = Some (t, v) \<Longrightarrow> out_of (throttle_step never s e) t = sent_of s t @ [v]"
proof -
  have step: "throttle_step never s e = throttle_step never s e \<or> throttle_step never s e = debounce_step never s e" by simp
  show "limiter_good (throttle_step never s e)" by (rule step_good [OF assms step])
  show "\<forall>v. taken_by s e \<noteq> Some (t, v) \<Longrightarrow> out_of (throttle_step never s e) t = out_of s t"
    using step_quiet [OF assms _ step] by simp
  show "taken_by s e = Some (t, v) \<Longrightarrow> out_of (throttle_step never s e) t = sent_of s t @ [v]"
    using step_take [OF assms(1) _ step] by simp
qed

lemma debounce_sender:
  assumes "limiter_good s" and "not_cancel e"
  shows "limiter_good (debounce_step never s e)"
    and "\<forall>v. taken_by s e \<noteq> Some (t, v) \<Longrightarrow> out_of (debounce_step never s e) t = out_of s t"
    and "taken_by s e = Some (t, v) \<Longrightarrow> out_of (debounce_step never s e) t = sent_of s t @ [v]"
proof -
  have step: "debounce_step never s e = throttle_step never s e \<or> debounce_step never s e = debounce_step never s e" by simp
  show "limiter_good (debounce_step never s e)" by (rule step_good [OF assms step])
  show "\<forall>v. taken_by s e \<noteq> Some (t, v) \<Longrightarrow> out_of (debounce_step never s e) t = out_of s t"
    using step_quiet [OF assms _ step] by simp
  show "taken_by s e = Some (t, v) \<Longrightarrow> out_of (debounce_step never s e) t = sent_of s t @ [v]"
    using step_take [OF assms(1) _ step] by simp
qed

interpretation throttled: coalescer "throttle_step never" taken_by sent_of held_of limiter_good not_cancel
  by unfold_locales (rule throttle_sender [unfolded out_of_def]; assumption)+

interpretation debounced: coalescer "debounce_step never" taken_by sent_of held_of limiter_good not_cancel
  by unfold_locales (rule debounce_sender [unfolded out_of_def]; assumption)+

text \<open>The values a run accepts for a topic.\<close>

fun accepted :: "nat \<Rightarrow> 'v limiter_event list \<Rightarrow> js_string \<Rightarrow> 'v list" where
  "accepted len [] t = []"
| "accepted len (LmPublish now u v # es) t = (if u = t \<and> validate_topic len u = Inr () then [v] else []) @ accepted len es t"
| "accepted len (_ # es) t = accepted len es t"

lemma evict_len [simp]: "lm_max_len (evict_oldest_topic bad n s) = lm_max_len s"
  by (auto simp: evict_oldest_topic_def split: list.split option.split)

lemma enter_len: "lm_max_len (snd (enter_topic bad n t s)) = lm_max_len s"
  by (auto simp: enter_topic_def Let_def split: option.split)

lemma flush_loop_len: "lm_max_len (snd (flush_loop bad n m s)) = lm_max_len s"
  by (induction m arbitrary: s) (auto simp: Let_def split: option.split)

lemma limiter_flush_len: "lm_max_len (snd (limiter_flush bad n t s)) = lm_max_len s"
  using flush_loop_len [of bad n "lm_topics s" s]
  by (auto simp: limiter_flush_def flush_all_def flush_one_def split: option.split prod.split bool.split)

lemma cancel_len: "lm_max_len (limiter_cancel t s) = lm_max_len s"
  by (simp add: limiter_cancel_def split: option.split)

lemma step_len:
  "lm_max_len (throttle_step bad s e) = lm_max_len s" "lm_max_len (debounce_step bad s e) = lm_max_len s"
  by (cases e; use enter_len [of bad _ _ s] in \<open>auto simp: throttle_publish_def debounce_publish_def throttle_tick_def debounce_fire_def
      limiter_flush_len cancel_len split: sum.split prod.split option.split; metis snd_conv\<close>)+

lemma taken_accepted:
  "throttled.all_taken s es t = accepted (lm_max_len s) es t" "debounced.all_taken s es t = accepted (lm_max_len s) es t"
  by (induction es arbitrary: s) (simp_all add: step_len split: limiter_event.split; (rename_tac e es s; case_tac e; simp))+

lemma create_good:
  assumes "create_limiter interval max_topics max_len = Inr s"
  shows "limiter_good s \<and> lm_topics s = [] \<and> lm_sent s = [] \<and> 0 \<le> lm_interval s \<and> 0 < lm_max s"
  using assms by (auto simp: create_limiter_def Let_def limiter_good_def split: option.splits if_splits)

lemma create_empty:
  assumes "create_limiter interval max_topics max_len = Inr s"
  shows "sent_of s t = []" and "held_of s t = None"
  using create_good [OF assms] by (simp_all add: sent_of_def held_of_def)

lemma held_armed:
  assumes "limiter_good s" and "held_of s t \<noteq> None"
  shows "\<exists>slot due. jm_get (lm_topics s) t = Some slot \<and> ts_timer slot = Armed due"
  using assms by (auto simp: limiter_good_def held_of_def split: option.splits)

text \<open>C27: Throttle and debounce coalesce without reordering and never lose the latest value: as long as no
  publish throws and nothing is cancelled, what goes out for a topic (followed by what is still held
  for it) is a subsequence of the values accepted for it and ends with the last of them, and a held
  value always has an armed timer that will send it.\<close>

theorem limiter_latest_wins:
  assumes "create_limiter interval max_topics max_len = Inr s0" and "list_all not_cancel es"
    and "s = foldl (throttle_step (\<lambda>_. False)) s0 es \<or> s = foldl (debounce_step (\<lambda>_. False)) s0 es"
  shows "subseq (sent_of s t @ opt_list (held_of s t)) (accepted (lm_max_len s0) es t) \<and>
    (accepted (lm_max_len s0) es t \<noteq> [] \<longrightarrow>
       last (sent_of s t @ opt_list (held_of s t)) = last (accepted (lm_max_len s0) es t)) \<and>
    (held_of s t \<noteq> None \<longrightarrow> (\<exists>slot due. jm_get (lm_topics s) t = Some slot \<and> ts_timer slot = Armed due))"
proof -
  note good = create_good [OF assms(1), THEN conjunct1]
  have empty: "throttled.settled s0 t = []" by (simp add: throttled.settled_def create_empty [OF assms(1)])
  note runs = throttled.latest_wins [OF good assms(2) empty] debounced.latest_wins [OF good assms(2), of t]
  have "limiter_good s" using assms(3) runs empty by (auto simp: throttled.settled_def debounced.settled_def)
  then show ?thesis
    using assms(3) runs empty held_armed [of s t] unfolding throttled.settled_def debounced.settled_def taken_accepted by auto
qed

theorem limiter_latest_wins_witness:
  "sent_of (foldl (throttle_step (\<lambda>_. False)) \<lparr>lm_interval = 10, lm_max = 2, lm_max_len = 256, lm_topics = [], lm_sent = []\<rparr>
      [LmPublish 0 [97] (1::nat), LmPublish 1 [97] 2, LmPublish 2 [97] 3, LmTimer 10 [97]]) [97] @ [] = [1, 3] \<and>
   last (sent_of (foldl (throttle_step (\<lambda>_. False)) \<lparr>lm_interval = 10, lm_max = 2, lm_max_len = 256, lm_topics = [], lm_sent = []\<rparr>
      [LmPublish 0 [97] (1::nat), LmPublish 1 [97] 2, LmPublish 2 [97] 3, LmTimer 10 [97]]) [97] @
     opt_list (held_of (foldl (throttle_step (\<lambda>_. False)) \<lparr>lm_interval = 10, lm_max = 2, lm_max_len = 256, lm_topics = [], lm_sent = []\<rparr>
      [LmPublish 0 [97] (1::nat), LmPublish 1 [97] 2, LmPublish 2 [97] 3, LmTimer 10 [97]]) [97])) = 3"
proof -
  let ?s0 = "\<lparr>lm_interval = 10, lm_max = 2, lm_max_len = 256, lm_topics = [], lm_sent = []\<rparr> :: nat limiter"
  let ?es = "[LmPublish 0 [97] 1, LmPublish 1 [97] 2, LmPublish 2 [97] 3, LmTimer 10 [97]] :: nat limiter_event list"
  have new: "create_limiter (Some 10) (Some 2) None = Inr ?s0" by (simp add: create_limiter_def)
  have plain: "list_all not_cancel ?es" by simp
  have acc: "accepted (lm_max_len ?s0) ?es [97] = [1, 2, 3]" by (simp add: validate_topic_def)
  have "sent_of (foldl (throttle_step (\<lambda>_. False)) ?s0 ?es) [97] = [1, 3]"
    by (simp add: Let_def throttle_publish_def throttle_tick_def validate_topic_def enter_topic_def evict_oldest_topic_def timer_ready_def
        put_topic_def note_sent_def sent_of_def jm_get_def)
  then show ?thesis
    using limiter_latest_wins [OF new plain disjI1 [OF refl], of "[97]"] unfolding acc by simp
qed

section \<open>The rate of a throttle\<close>

definition times_of :: "'v limiter \<Rightarrow> js_string \<Rightarrow> real list" where
  "times_of s t = map (\<lambda>(u, v, n). n) (filter (\<lambda>(u, v, n). u = t) (lm_sent s))"

lemma times_simps [simp]:
  "times_of (put_topic t slot s) u = times_of s u" "times_of (drop_topic t s) u = times_of s u"
  "times_of (note_sent t v n s) u = times_of s u @ (if u = t then [n] else [])"
  by (simp_all add: put_topic_def drop_topic_def note_sent_def times_of_def)

text \<open>Runs of publishes and timers only, over at most \<open>maxTopics\<close> topics, with a clock that does not
  run backwards.\<close>

fun paced_run :: "real \<Rightarrow> js_string list \<Rightarrow> 'v limiter_event list \<Rightarrow> bool" where
  "paced_run now ts [] \<longleftrightarrow> True"
| "paced_run now ts (LmPublish n t v # es) \<longleftrightarrow> now \<le> n \<and> t \<in> set ts \<and> paced_run n ts es"
| "paced_run now ts (LmTimer n t # es) \<longleftrightarrow> now \<le> n \<and> paced_run n ts es"
| "paced_run now ts (_ # es) \<longleftrightarrow> False"

definition spaced :: "real \<Rightarrow> real list \<Rightarrow> bool" where
  "spaced d ns \<longleftrightarrow> sorted_wrt (\<lambda>a b. a + d \<le> b) ns"

lemma spaced_snoc: "spaced d (ns @ [n]) \<longleftrightarrow> spaced d ns \<and> (\<forall>a \<in> set ns. a + d \<le> n)"
  by (simp add: spaced_def sorted_wrt_append)

text \<open>The instant from which a send of the topic would be in order: the time its timer is due, or now.\<close>

definition topic_spaced :: "real \<Rightarrow> real \<Rightarrow> 'v topic_slot option \<Rightarrow> real list \<Rightarrow> bool" where
  "topic_spaced d now entry ns \<longleftrightarrow> spaced d ns \<and>
     (case entry of
        None \<Rightarrow> \<forall>a \<in> set ns. a + d \<le> now
      | Some slot \<Rightarrow> \<exists>due. ts_timer slot = Armed due \<and> (\<forall>a \<in> set ns. a + d \<le> due))"

definition spaced_good :: "js_string list \<Rightarrow> real \<Rightarrow> 'v limiter \<Rightarrow> bool" where
  "spaced_good ts now s \<longleftrightarrow> jm_wf (lm_topics s) \<and> set (jm_keys (lm_topics s)) \<subseteq> set ts \<and> card (set ts) \<le> lm_max s \<and>
     (\<forall>t. topic_spaced (lm_interval s) now (jm_get (lm_topics s) t) (times_of s t))"

lemma spaced_goodD:
  assumes "spaced_good ts now s"
  shows "topic_spaced (lm_interval s) now (jm_get (lm_topics s) t) (times_of s t)"
  using assms by (simp add: spaced_good_def)

lemma no_evict:
  assumes "spaced_good ts now s" and "t \<in> set ts" and "jm_get (lm_topics s) t = None"
  shows "evict_oldest_topic bad n s = s"
proof -
  have wf: "distinct (jm_keys (lm_topics s))" and sub: "set (jm_keys (lm_topics s)) \<subseteq> set ts" and cap: "card (set ts) \<le> lm_max s"
    using assms(1) by (simp_all add: spaced_good_def jm_wf_def)
  have "t \<notin> set (jm_keys (lm_topics s))" using assms(3) by (simp add: jm_get_None)
  then have "card (set (jm_keys (lm_topics s))) < card (set ts)" using sub assms(2) by (intro psubset_card_mono) auto
  then have "jm_size (lm_topics s) < lm_max s" using cap distinct_card [OF wf] by simp
  then show ?thesis by (simp add: evict_oldest_topic_def)
qed

lemma spaced_later: "spaced_good ts now s \<Longrightarrow> now \<le> n \<Longrightarrow> spaced_good ts n s"
proof -
  assume good: "spaced_good ts now s" and le: "now \<le> n"
  have "topic_spaced d n entry ns" if "topic_spaced d now entry ns" for d ns and entry :: "'a topic_slot option"
    using that le by (cases entry) (auto simp: topic_spaced_def)
  then show "spaced_good ts n s" using good by (simp add: spaced_good_def)
qed

lemma spaced_send:
  assumes "spaced_good ts now s" and "t \<in> set ts" and "\<forall>a \<in> set (times_of s t). a + lm_interval s \<le> now" and "0 \<le> lm_interval s"
  shows "spaced_good ts now (put_topic t \<lparr>ts_timer = Armed (now + lm_interval s), ts_pending = p\<rparr> (note_sent t v now s))"
proof -
  have "topic_spaced (lm_interval s) now (Some \<lparr>ts_timer = Armed (now + lm_interval s), ts_pending = p\<rparr>) (times_of s t @ [now])"
    using assms(3,4) spaced_goodD [OF assms(1), of t] by (fastforce simp: topic_spaced_def spaced_snoc)
  then show ?thesis using assms(1,2) by (auto simp: spaced_good_def jm_keys_set)
qed

lemma jm_set_twice: "jm_set k v (jm_set k w m) = jm_set k v m"
  by (induction m) auto

lemma put_twice: "put_topic t a (note_sent u v n (put_topic t b s)) = put_topic t a (note_sent u v n s)"
  by (simp add: put_topic_def note_sent_def jm_set_twice)

lemma spaced_hold:
  assumes "spaced_good ts now s" and "jm_get (lm_topics s) t = Some slot" and "ts_timer slot' = ts_timer slot"
  shows "spaced_good ts now (put_topic t slot' s)"
proof -
  have "topic_spaced (lm_interval s) now (Some slot') (times_of s t)"
    using spaced_goodD [OF assms(1), of t] assms(2,3) by (simp add: topic_spaced_def)
  moreover have "t \<in> set (jm_keys (lm_topics s))" using assms(2) jm_get_None [of "lm_topics s" t] by auto
  ultimately show ?thesis using assms(1) by (auto simp: spaced_good_def jm_keys_set)
qed

lemma spaced_drop:
  assumes "spaced_good ts now s" and "\<forall>a \<in> set (times_of s t). a + lm_interval s \<le> now"
  shows "spaced_good ts now (drop_topic t s)"
proof -
  have "topic_spaced (lm_interval s) now None (times_of s t)"
    using spaced_goodD [OF assms(1), of t] assms(2) by (simp add: topic_spaced_def)
  then show ?thesis using assms(1) by (auto simp: spaced_good_def jm_keys_del)
qed

lemma spaced_publish:
  assumes good: "spaced_good ts now s" and t: "t \<in> set ts" and pos: "0 \<le> lm_interval s"
  shows "spaced_good ts now (snd (throttle_publish (\<lambda>_. False) now t v s))"
proof (cases "validate_topic (lm_max_len s) t = Inr ()")
  case False
  then show ?thesis using invalid_publish [OF False] good by simp
next
  case True
  show ?thesis
  proof (cases "jm_get (lm_topics s) t")
    case None
    then have "\<forall>a \<in> set (times_of s t). a + lm_interval s \<le> now" using spaced_goodD [OF good, of t] by (simp add: topic_spaced_def)
    then show ?thesis using spaced_send [OF good t _ pos, where p = None and v = v] True None no_evict [OF good t None]
      by (simp add: throttle_publish_def enter_topic_def Let_def put_twice)
  next
    case (Some slot)
    then obtain due where due: "ts_timer slot = Armed due" using spaced_goodD [OF good, of t] by (auto simp: topic_spaced_def)
    show ?thesis using spaced_hold [OF good Some, of "slot\<lparr>ts_pending := Some v\<rparr>"] True Some due
      by (simp add: throttle_publish_def enter_topic_def)
  qed
qed

lemma spaced_tick:
  assumes good: "spaced_good ts now s" and pos: "0 \<le> lm_interval s"
  shows "spaced_good ts now (throttle_tick (\<lambda>_. False) now t s)"
proof (cases "jm_get (lm_topics s) t")
  case None
  then show ?thesis using good by (simp add: throttle_tick_def)
next
  case (Some slot)
  then obtain due where due: "ts_timer slot = Armed due" "\<forall>a \<in> set (times_of s t). a + lm_interval s \<le> due"
    using spaced_goodD [OF good, of t] by (auto simp: topic_spaced_def)
  have t: "t \<in> set ts" using Some good jm_get_None [of "lm_topics s" t] by (auto simp: spaced_good_def)
  show ?thesis
  proof (cases "due \<le> now")
    case True
    then have le: "\<forall>a \<in> set (times_of s t). a + lm_interval s \<le> now" using due(2) by fastforce
    show ?thesis using spaced_drop [OF good le] spaced_send [OF good t le pos] True Some due(1) good
      by (simp add: throttle_tick_def timer_ready_def split: option.split)
  next
    case False
    then show ?thesis using good Some due(1) by (simp add: throttle_tick_def timer_ready_def)
  qed
qed

lemma step_interval:
  "lm_interval (snd (throttle_publish bad n t v s)) = lm_interval s" "lm_interval (throttle_tick bad n t s) = lm_interval s"
  by (auto simp: throttle_publish_def throttle_tick_def enter_topic_def evict_oldest_topic_def Let_def
      split: sum.split option.split list.split)

lemma spaced_run:
  assumes "paced_run now ts es" and "spaced_good ts now s" and "0 \<le> lm_interval s"
  shows "\<exists>n. spaced_good ts n (foldl (throttle_step (\<lambda>_. False)) s es) \<and>
    lm_interval (foldl (throttle_step (\<lambda>_. False)) s es) = lm_interval s"
  using assms
proof (induction now ts es arbitrary: s rule: paced_run.induct)
  case (2 now ts n t v es)
  then show ?case using spaced_publish [OF spaced_later [of ts now s n], of t v] by (auto simp: step_interval)
next
  case (3 now ts n t es)
  then show ?case using spaced_tick [OF spaced_later [of ts now s n], of t] by (auto simp: step_interval)
qed auto

text \<open>A throttle never sends a topic faster than its interval: in every run of publishes and timers
  over no more topics than the cap, any two sends of a topic are at least the interval apart.\<close>

theorem throttle_spacing:
  assumes "create_limiter interval max_topics max_len = Inr s0" and "paced_run now ts es" and "card (set ts) \<le> lm_max s0"
  shows "sorted_wrt (\<lambda>a b. a + lm_interval s0 \<le> b) (times_of (foldl (throttle_step (\<lambda>_. False)) s0 es) t)"
proof -
  have "spaced_good ts now s0" and "0 \<le> lm_interval s0"
    using create_good [OF assms(1)] assms(3) by (simp_all add: spaced_good_def topic_spaced_def spaced_def times_of_def)
  then show ?thesis using spaced_run [OF assms(2), of s0] spaced_goodD [of ts _ _ t] by (metis spaced_def topic_spaced_def)
qed

theorem throttle_spacing_witness:
  "sorted_wrt (\<lambda>a b. a + 10 \<le> b) (times_of (foldl (throttle_step (\<lambda>_. False)) \<lparr>lm_interval = 10, lm_max = 2, lm_max_len = 256, lm_topics = [], lm_sent = []\<rparr>
      [LmPublish 0 [97] (1::nat), LmPublish 1 [97] 2, LmTimer 10 [97], LmPublish 11 [98] 4, LmTimer 20 [97], LmPublish 21 [97] 5]) [97])"
  using throttle_spacing [of "Some 10" "Some 2" None "\<lparr>lm_interval = 10, lm_max = 2, lm_max_len = 256, lm_topics = [], lm_sent = []\<rparr>" 0
      "[[97], [98]]" "[LmPublish 0 [97] (1::nat), LmPublish 1 [97] 2, LmTimer 10 [97], LmPublish 11 [98] 4, LmTimer 20 [97], LmPublish 21 [97] 5]" "[97]"]
  by (simp add: create_limiter_def)

section \<open>A throw inside the tick\<close>

lemma wedged_run:
  assumes "jm_get (lm_topics s) t = Some slot" and "ts_timer slot = Stale" and "0 < lm_max_len s"
    and "list_all (\<lambda>e. (\<exists>n v. e = LmPublish n t v) \<or> (\<exists>n. e = LmTimer n t)) es"
  shows "lm_sent (foldl (throttle_step bad) s es) = lm_sent s"
  using assms
proof (induction es arbitrary: s slot)
  case (Cons e es)
  have "\<exists>slot'. jm_get (lm_topics (throttle_step bad s e)) t = Some slot' \<and> ts_timer slot' = Stale \<and>
      lm_sent (throttle_step bad s e) = lm_sent s \<and> lm_max_len (throttle_step bad s e) = lm_max_len s"
    using Cons.prems by (auto simp: throttle_publish_def throttle_tick_def enter_topic_def timer_ready_def split: sum.split)
  then show ?case using Cons.IH Cons.prems(3,4) by simp metis
qed simp

text \<open>A throw wedges the topic: when \<open>platform.publish\<close> throws for the trailing value inside the tick,
  the handle of the fired timer stays recorded, so no later publish of the topic is ever sent and no
  timer is armed, until the topic is flushed, cancelled or evicted.\<close>

theorem throttle_throw_wedges:
  assumes "create_limiter (Some interval) max_topics max_len = Inr s0" and "validate_topic (lm_max_len s0) t = Inr ()"
    and "\<not> bad a" and "bad b" and "n + interval \<le> n'"
    and "list_all (\<lambda>e. (\<exists>n v. e = LmPublish n t v) \<or> (\<exists>n. e = LmTimer n t)) es"
  shows "lm_sent (foldl (throttle_step bad) s0 ([LmPublish n t a, LmPublish m t b, LmTimer n' t] @ es)) = [(t, a, n)]"
proof -
  let ?s = "foldl (throttle_step bad) s0 [LmPublish n t a, LmPublish m t b, LmTimer n' t]"
  have new: "lm_topics s0 = []" "lm_sent s0 = []" "lm_interval s0 = interval" "0 < lm_max s0"
    using assms(1) by (auto simp: create_limiter_def Let_def split: option.splits if_splits)
  have len: "0 < lm_max_len s0" using assms(2) by (cases t) (auto simp: validate_topic_def split: if_splits)
  have "jm_get (lm_topics ?s) t = Some \<lparr>ts_timer = Stale, ts_pending = None\<rparr> \<and> lm_sent ?s = [(t, a, n)] \<and> lm_max_len ?s = lm_max_len s0"
    using new assms(2-5)
    by (simp add: Let_def throttle_publish_def throttle_tick_def enter_topic_def evict_oldest_topic_def timer_ready_def)
      (simp add: put_topic_def note_sent_def jm_get_def timer_ready_def)
  then show ?thesis using wedged_run [of ?s t, OF _ _ _ assms(6)] len by simp
qed

theorem throttle_throw_wedges_witness:
  "lm_sent (foldl (throttle_step (\<lambda>v. v = 2)) \<lparr>lm_interval = 10, lm_max = 2, lm_max_len = 256, lm_topics = [], lm_sent = []\<rparr>
      ([LmPublish 0 [97] (1::nat), LmPublish 1 [97] 2, LmTimer 10 [97]] @ [LmPublish 500 [97] 3, LmTimer 600 [97], LmPublish 700 [97] 4])) =
   [([97], 1, 0)]"
  by (rule throttle_throw_wedges [of 10 "Some 2" None]) (simp_all add: create_limiter_def validate_topic_def)

end
