(* ===== verification/Rotating_Cursor.thy ===== *)
theory Rotating_Cursor
  imports Prelude
begin

text \<open>
  A \<open>Map\<close> iterator that is kept across calls, as the eviction samplers of
  \<open>src/runtime/utils/rate-limiter.js\<close> and \<open>src/plugins/ratelimit/server.js\<close> keep one. The language
  defines it as a position in the insertion order: entries deleted before it move it back, entries
  inserted later come after it. So it is the number of entries before it; \<open>None\<close> is no iterator.
\<close>

type_synonym map_cursor = "nat option"

text \<open>Deleting a key while an iterator is open.\<close>

definition cursor_del :: "('k, 'v) jsmap \<Rightarrow> 'k \<Rightarrow> map_cursor \<Rightarrow> map_cursor" where
  "cursor_del m k cur = (case cur of None \<Rightarrow> None | Some i \<Rightarrow> Some (length (jm_del k (take i m))))"

text \<open>The sampling loop both files share: at most \<open>target\<close> entries, the iterator opened at most twice.
  \<open>visit\<close> is the body; it says whether to break.\<close>

function sample_loop ::
  "('k \<times> 'v \<Rightarrow> 'a \<Rightarrow> bool \<times> 'a) \<Rightarrow> nat \<Rightarrow> ('k, 'v) jsmap \<Rightarrow> nat \<Rightarrow> nat \<Rightarrow> map_cursor \<Rightarrow> 'a \<Rightarrow> map_cursor \<times> 'a" where
  "sample_loop visit target m sampled wrapped cur acc =
     (if \<not> (sampled < target \<and> wrapped < 2) then (cur, acc)
      else
        let i = (case cur of None \<Rightarrow> 0 | Some i \<Rightarrow> i);
            wrapped' = (case cur of None \<Rightarrow> wrapped + 1 | Some _ \<Rightarrow> wrapped)
        in if i < length m
           then (case visit (m ! i) acc of (stop, acc') \<Rightarrow>
                   if stop then (Some (i + 1), acc') else sample_loop visit target m (sampled + 1) wrapped' (Some (i + 1)) acc')
           else sample_loop visit target m sampled wrapped' None acc)"
  by pat_completeness auto

termination
  by (relation "measure (\<lambda>(visit, target, m, sampled, wrapped, cur, acc).
        (target - sampled) + 2 * (2 - wrapped) + (case cur of None \<Rightarrow> 0 | Some _ \<Rightarrow> 1))")
    (auto split: option.splits)

declare sample_loop.simps [simp del]

section \<open>Filtered maps\<close>

lemma get_filter:
  "jm_wf m \<Longrightarrow> jm_get (filter P m) k = (case jm_get m k of None \<Rightarrow> None | Some v \<Rightarrow> if P (k, v) then Some v else None)"
proof (induction m)
  case (Cons p m)
  then show ?case using jm_get_None [of m k] by (cases p) (auto simp: jm_get_def jm_wf_def split: option.splits)
qed simp

lemma wf_filter: "jm_wf m \<Longrightarrow> jm_wf (filter P m)"
  by (auto simp: jm_wf_def jm_keys_def distinct_map inj_on_def)

section \<open>Which entries are visited\<close>

text \<open>The positions the loop reaches when the body never breaks.\<close>

function visits :: "nat \<Rightarrow> nat \<Rightarrow> nat \<Rightarrow> nat \<Rightarrow> map_cursor \<Rightarrow> nat list" where
  "visits target len sampled wrapped cur =
     (if \<not> (sampled < target \<and> wrapped < 2) then []
      else
        let i = (case cur of None \<Rightarrow> 0 | Some i \<Rightarrow> i);
            wrapped' = (case cur of None \<Rightarrow> wrapped + 1 | Some _ \<Rightarrow> wrapped)
        in if i < len then i # visits target len (sampled + 1) wrapped' (Some (i + 1))
           else visits target len sampled wrapped' None)"
  by pat_completeness auto

termination
  by (relation "measure (\<lambda>(target, len, sampled, wrapped, cur).
        (target - sampled) + 2 * (2 - wrapped) + (case cur of None \<Rightarrow> 0 | Some _ \<Rightarrow> 1))")
    (auto split: option.splits)

declare visits.simps [simp del]

fun visit_all :: "('e \<Rightarrow> 'a \<Rightarrow> bool \<times> 'a) \<Rightarrow> 'e list \<Rightarrow> 'a \<Rightarrow> 'a" where
  "visit_all visit [] acc = acc"
| "visit_all visit (e # es) acc = (case visit e acc of (stop, acc') \<Rightarrow> if stop then acc' else visit_all visit es acc')"

lemma sample_loop_visits:
  "snd (sample_loop visit target m sampled wrapped cur acc) =
     visit_all visit (map ((!) m) (visits target (length m) sampled wrapped cur)) acc"
proof (induction visit target m sampled wrapped cur acc rule: sample_loop.induct)
  case (1 visit target m sampled wrapped cur acc)
  then show ?case
    by (subst sample_loop.simps, subst visits.simps) (auto simp: Let_def split: prod.split option.splits)
qed

lemma visits_bound: "set (visits target len sampled wrapped cur) \<subseteq> {..< len}"
  by (induction target len sampled wrapped cur rule: visits.induct) (subst visits.simps, auto simp: Let_def split: option.splits if_splits)

lemma visits_open:
  assumes "sampled < target" and "wrapped < 2" and "0 < len"
  shows "visits target len sampled wrapped None = 0 # visits target len (sampled + 1) (wrapped + 1) (Some 1)"
  using assms by (subst visits.simps) simp

lemma visits_next:
  assumes "sampled < target" and "wrapped < 2" and "i < len"
  shows "visits target len sampled wrapped (Some i) = i # visits target len (sampled + 1) wrapped (Some (i + 1))"
  using assms by (subst visits.simps) simp

lemma visits_done:
  assumes "sampled < target" and "wrapped < 2" and "\<not> i < len"
  shows "visits target len sampled wrapped (Some i) = visits target len sampled wrapped None"
  using assms by (subst visits.simps) simp

text \<open>A call starts with no pass counted, so it always samples, and two different entries if it may.\<close>

lemma visits_some:
  assumes "0 < target" and "0 < len"
  shows "visits target len 0 0 cur \<noteq> []"
proof (cases cur)
  case None
  then show ?thesis using visits_open [of 0 target 0 len] assms by simp
next
  case (Some i)
  then show ?thesis using visits_next [of 0 target 0 i len] visits_done [of 0 target 0 i len] visits_open [of 0 target 0 len] assms
    by (cases "i < len") simp_all
qed

lemma visits_two:
  assumes "2 \<le> target" and "2 \<le> len"
  shows "\<exists>i j rest. visits target len 0 0 cur = i # j # rest \<and> i \<noteq> j"
proof -
  have open_at: "\<exists>i j rest. visits target len 0 0 None = i # j # rest \<and> i \<noteq> j"
    using visits_open [of 0 target 0 len] visits_next [of 1 target 1 1 len] assms by auto
  show ?thesis
  proof (cases cur)
    case None
    then show ?thesis using open_at by simp
  next
    case (Some i)
    show ?thesis
    proof (cases "i < len")
      case True
      have "\<exists>j rest. visits target len 1 0 (Some (i + 1)) = j # rest \<and> i \<noteq> j"
      proof (cases "i + 1 < len")
        case True
        then show ?thesis using visits_next [of 1 target 0 "i + 1" len] assms by auto
      next
        case False
        then show ?thesis using visits_done [of 1 target 0 "i + 1" len] visits_open [of 1 target 0 len] assms \<open>i < len\<close> by auto
      qed
      then show ?thesis using visits_next [of 0 target 0 i len] True assms Some by auto
    next
      case False
      then show ?thesis using visits_done [of 0 target 0 i len] open_at assms Some by simp
    qed
  qed
qed

section \<open>Interface: a meter per key\<close>

text \<open>
  What a rate limiter keeps for one key: an entry that is charged with costs it admits, and that may be
  adjusted by other operations and forgotten once it is stale. \<open>good\<close> relates the entry to the accepted charges so far. Every run then keeps the bound.
\<close>

locale keyed_meter =
  fixes charge :: "real \<Rightarrow> real \<Rightarrow> 'e option \<Rightarrow> bool \<times> 'e"
    and stale :: "real \<Rightarrow> 'e \<Rightarrow> bool"
    and adjust :: "real \<Rightarrow> 'e option \<Rightarrow> 'e \<Rightarrow> bool"
    and good :: "real \<Rightarrow> 'e option \<Rightarrow> (real \<times> real) list \<Rightarrow> bool"
    and bound :: "(real \<times> real) list \<Rightarrow> bool"
    and cost_ok :: "real \<Rightarrow> bool"
  assumes good_start: "good now None []"
    and good_later: "good now x h \<Longrightarrow> now \<le> n \<Longrightarrow> good n x h"
    and good_charge: "good now x h \<Longrightarrow> cost_ok c \<Longrightarrow> charge now c x = (ok, e') \<Longrightarrow> good now (Some e') (if ok then h @ [(now, c)] else h)"
    and good_forget: "good now (Some e) h \<Longrightarrow> stale now e \<Longrightarrow> good now None h"
    and good_adjust: "good now x h \<Longrightarrow> adjust now x e' \<Longrightarrow> good now (Some e') h"
    and good_bound: "good now x h \<Longrightarrow> bound h"
begin

inductive metered :: "real \<Rightarrow> 'e option \<Rightarrow> (real \<times> real) list \<Rightarrow> bool" where
  start: "metered now None []"
| wait: "metered now x h \<Longrightarrow> now \<le> n \<Longrightarrow> metered n x h"
| charge: "metered now x h \<Longrightarrow> cost_ok c \<Longrightarrow> charge now c x = (ok, e') \<Longrightarrow> metered now (Some e') (if ok then h @ [(now, c)] else h)"
| adjust: "metered now x h \<Longrightarrow> adjust now x e' \<Longrightarrow> metered now (Some e') h"
| forget: "metered now (Some e) h \<Longrightarrow> stale now e \<Longrightarrow> metered now None h"

lemma metered_good: "metered now x h \<Longrightarrow> good now x h"
  by (induction rule: metered.induct) (blast intro: good_start good_later good_charge good_adjust good_forget)+

lemma metered_bound: "metered now x h \<Longrightarrow> bound h"
  using metered_good good_bound by blast

end

text \<open>The cost accepted in a stretch of time.\<close>

definition cost_in :: "(real \<Rightarrow> bool) \<Rightarrow> (real \<times> real) list \<Rightarrow> real" where
  "cost_in P h = sum_list (map snd (filter (\<lambda>p. P (fst p)) h))"

lemma cost_in_simps [simp]:
  "cost_in P [] = 0" "cost_in P (a @ b) = cost_in P a + cost_in P b"
  "cost_in P (p # h) = (if P (fst p) then snd p else 0) + cost_in P h"
  by (simp_all add: cost_in_def)

lemma cost_in_mono: "\<forall>p \<in> set h. 0 \<le> snd p \<and> (P (fst p) \<longrightarrow> Q (fst p)) \<Longrightarrow> cost_in P h \<le> cost_in Q h"
  by (induction h) auto

lemma cost_in_split: "cost_in P h = cost_in (\<lambda>t. P t \<and> Q t) h + cost_in (\<lambda>t. P t \<and> \<not> Q t) h"
  by (induction h) auto

lemma cost_in_none: "(\<And>p. p \<in> set h \<Longrightarrow> \<not> P (fst p)) \<Longrightarrow> cost_in P h = 0"
  by (induction h) auto

end
