(* ===== verification/Sliding_Window.thy ===== *)
theory Sliding_Window
  imports Rate_Key Rotating_Cursor
begin

text \<open>
  The sliding-window limiter of \<open>src/runtime/utils/rate-limiter.js\<close>, \<open>createSlidingWindowLimiter\<close>:
  one entry per client key, two-window counts, eviction of the least active entry of a rotating
  sample when the table is full, and the periodic sweep. Instants are reals. \<open>sw_accepted\<close> and
  \<open>sw_evicted\<close> log the requests let through and the evictions reported; no operation reads them.
\<close>

section \<open>State and operations\<close>

record sw_entry =
  sw_prev :: nat
  sw_curr :: nat
  sw_start :: real

record sw_config =
  swc_max :: nat
  swc_window :: real
  swc_entries :: nat
  swc_sample :: "real option"
  swc_key_len :: nat

record sw_state =
  sw_map :: "(js_string, sw_entry) jsmap"
  sw_cursor :: map_cursor
  sw_accepted :: "(js_string \<times> real) list"
  sw_evicted :: "js_string list"

definition create_sliding_window :: sw_state where
  "create_sliding_window = \<lparr>sw_map = [], sw_cursor = None, sw_accepted = [], sw_evicted = []\<rparr>"

text \<open>\<open>None\<close> stands for a sample that is not a finite number.\<close>

definition sample_target :: "real option \<Rightarrow> nat" where
  "sample_target x = (case x of None \<Rightarrow> 1 | Some n \<Rightarrow> if 1 \<le> n then nat \<lfloor>n\<rfloor> else 1)"

definition sw_visit :: "js_string \<times> sw_entry \<Rightarrow> (nat \<times> js_string) option \<Rightarrow> bool \<times> (nat \<times> js_string) option" where
  "sw_visit p best =
     (let score = sw_prev (snd p) + sw_curr (snd p)
      in (False, case best of
            None \<Rightarrow> Some (score, fst p)
          | Some (least, _) \<Rightarrow> if score < least then Some (score, fst p) else best))"

definition sw_evict_one :: "sw_config \<Rightarrow> sw_state \<Rightarrow> sw_state" where
  "sw_evict_one cfg s =
     (case sample_loop sw_visit (sample_target (swc_sample cfg)) (sw_map s) 0 0 (sw_cursor s) None of
        (cur, None) \<Rightarrow> s\<lparr>sw_cursor := cur\<rparr>
      | (cur, Some (_, k)) \<Rightarrow>
          s\<lparr>sw_cursor := cursor_del (sw_map s) k cur, sw_map := jm_del k (sw_map s), sw_evicted := sw_evicted s @ [k]\<rparr>)"

text \<open>The windows of an entry, rotated to the instant of a request.\<close>

definition rotate_entry :: "sw_config \<Rightarrow> real \<Rightarrow> sw_entry \<Rightarrow> sw_entry" where
  "rotate_entry cfg now e =
     (let elapsed = now - sw_start e
      in if 2 * swc_window cfg \<le> elapsed then \<lparr>sw_prev = 0, sw_curr = 0, sw_start = now\<rparr>
         else if swc_window cfg \<le> elapsed then \<lparr>sw_prev = sw_curr e, sw_curr = 0, sw_start = now\<rparr>
         else e)"

definition sw_estimate :: "sw_config \<Rightarrow> real \<Rightarrow> sw_entry \<Rightarrow> real" where
  "sw_estimate cfg now e = real (sw_prev e) * (1 - (now - sw_start e) / swc_window cfg) + real (sw_curr e)"

text \<open>The entry for a key, made when there is none.\<close>

definition sw_lookup :: "sw_config \<Rightarrow> js_string \<Rightarrow> real \<Rightarrow> sw_state \<Rightarrow> sw_entry \<times> sw_state" where
  "sw_lookup cfg key now s =
     (case jm_get (sw_map s) key of
        None \<Rightarrow>
          let s = (if swc_entries cfg \<le> jm_size (sw_map s) then sw_evict_one cfg s else s);
              e = \<lparr>sw_prev = 0, sw_curr = 0, sw_start = now\<rparr>
          in (e, s\<lparr>sw_map := jm_set key e (sw_map s)\<rparr>)
      | Some e \<Rightarrow> let e = rotate_entry cfg now e in (e, s\<lparr>sw_map := jm_set key e (sw_map s)\<rparr>))"

definition sw_exceeded :: "sw_config \<Rightarrow> js_string \<Rightarrow> real \<Rightarrow> sw_state \<Rightarrow> bool \<times> sw_state" where
  "sw_exceeded cfg client now s =
     (if swc_max cfg = 0 then (False, s)
      else
        let key = rate_limit_key client (swc_key_len cfg)
        in case sw_lookup cfg key now s of
          (e, s) \<Rightarrow>
            if real (swc_max cfg) \<le> sw_estimate cfg now e then (True, s)
            else (False, s\<lparr>sw_map := jm_set key (e\<lparr>sw_curr := sw_curr e + 1\<rparr>) (sw_map s), sw_accepted := sw_accepted s @ [(key, now)]\<rparr>))"

definition sw_sweep :: "sw_config \<Rightarrow> real \<Rightarrow> sw_state \<Rightarrow> sw_state" where
  "sw_sweep cfg now s =
     s\<lparr>sw_map := filter (\<lambda>p. \<not> 2 * swc_window cfg \<le> now - sw_start (snd p)) (sw_map s), sw_cursor := None\<rparr>"

datatype sw_event = SwRequest js_string real | SwSweep real

fun sw_time :: "sw_event \<Rightarrow> real" where
  "sw_time (SwRequest _ now) = now"
| "sw_time (SwSweep now) = now"

fun sw_step :: "sw_config \<Rightarrow> sw_state \<Rightarrow> sw_event \<Rightarrow> sw_state" where
  "sw_step cfg s (SwRequest client now) = snd (sw_exceeded cfg client now s)"
| "sw_step cfg s (SwSweep now) = sw_sweep cfg now s"

section \<open>The entry of one key\<close>

definition sw_charge :: "sw_config \<Rightarrow> real \<Rightarrow> real \<Rightarrow> sw_entry option \<Rightarrow> bool \<times> sw_entry" where
  "sw_charge cfg now c entry =
     (let e = (case entry of None \<Rightarrow> \<lparr>sw_prev = 0, sw_curr = 0, sw_start = now\<rparr> | Some e \<Rightarrow> rotate_entry cfg now e)
      in if real (swc_max cfg) \<le> sw_estimate cfg now e then (False, e) else (True, e\<lparr>sw_curr := sw_curr e + 1\<rparr>))"

definition sw_stale :: "sw_config \<Rightarrow> real \<Rightarrow> sw_entry \<Rightarrow> bool" where
  "sw_stale cfg now e \<longleftrightarrow> 2 * swc_window cfg \<le> now - sw_start e"

text \<open>The bound across the seam of two windows: in a stretch of length \<open>d\<close>, at most the allowance plus
  its share of the window, plus the request that crosses it.\<close>

definition seam_bound :: "sw_config \<Rightarrow> (real \<times> real) list \<Rightarrow> bool" where
  "seam_bound cfg h \<longleftrightarrow> (\<forall>a d. 0 \<le> d \<longrightarrow> d \<le> swc_window cfg \<longrightarrow>
     cost_in (\<lambda>t. a \<le> t \<and> t \<le> a + d) h < real (swc_max cfg) * (1 + d / swc_window cfg) + 1)"

definition unit_costs :: "real \<Rightarrow> (real \<times> real) list \<Rightarrow> bool" where
  "unit_costs now h \<longleftrightarrow> (\<forall>p \<in> set h. snd p = 1 \<and> fst p \<le> now)"

definition sw_windows :: "sw_config \<Rightarrow> sw_entry \<Rightarrow> (real \<times> real) list \<Rightarrow> bool" where
  "sw_windows cfg e h \<longleftrightarrow> (\<forall>p \<in> set h. fst p < sw_start e + swc_window cfg) \<and>
     cost_in (\<lambda>t. sw_start e \<le> t) h = real (sw_curr e) \<and> sw_curr e \<le> swc_max cfg \<and> sw_prev e \<le> swc_max cfg \<and>
     (\<forall>a \<ge> sw_start e - swc_window cfg. cost_in (\<lambda>t. a \<le> t \<and> t < sw_start e) h \<le> real (sw_prev e))"

definition sw_good :: "sw_config \<Rightarrow> real \<Rightarrow> sw_entry option \<Rightarrow> (real \<times> real) list \<Rightarrow> bool" where
  "sw_good cfg now entry h \<longleftrightarrow> 0 < swc_max cfg \<and> 0 < swc_window cfg \<longrightarrow>
     unit_costs now h \<and> seam_bound cfg h \<and>
     (case entry of
        None \<Rightarrow> \<forall>p \<in> set h. fst p + swc_window cfg < now
      | Some e \<Rightarrow> sw_start e \<le> now \<and> sw_windows cfg e h)"

lemma unit_mono: "unit_costs now h \<Longrightarrow> \<forall>p \<in> set h. P (fst p) \<longrightarrow> Q (fst p) \<Longrightarrow> cost_in P h \<le> cost_in Q h"
  by (rule cost_in_mono) (simp add: unit_costs_def)

lemma fresh_windows:
  assumes "\<forall>p \<in> set h. fst p + swc_window cfg < now" and "0 < swc_window cfg"
  shows "sw_windows cfg \<lparr>sw_prev = 0, sw_curr = 0, sw_start = now\<rparr> h"
proof -
  have "cost_in (\<lambda>t. now \<le> t) h = 0" "cost_in (\<lambda>t. a \<le> t \<and> t < now) h = 0" if "now - swc_window cfg \<le> a" for a
    using assms that by (auto intro!: cost_in_none dest!: bspec)
  moreover have "now - swc_window cfg \<le> now" using assms(2) by simp
  ultimately show ?thesis using assms by (fastforce simp: sw_windows_def)
qed

lemma rotate_windows:
  assumes w: "sw_windows cfg e h" and pos: "0 < swc_window cfg" and u: "unit_costs now h" and le: "sw_start e \<le> now"
  shows "sw_windows cfg (rotate_entry cfg now e) h" and "sw_start (rotate_entry cfg now e) \<le> now"
    and "now < sw_start (rotate_entry cfg now e) + swc_window cfg"
proof -
  have times: "\<forall>p \<in> set h. fst p < sw_start e + swc_window cfg" using w by (simp add: sw_windows_def)
  show "sw_windows cfg (rotate_entry cfg now e) h"
  proof (cases "2 * swc_window cfg \<le> now - sw_start e")
    case True
    then have "\<forall>p \<in> set h. fst p + swc_window cfg < now" using times by fastforce
    then show ?thesis using fresh_windows pos True by (simp add: rotate_entry_def Let_def)
  next
    case False
    show ?thesis
    proof (cases "swc_window cfg \<le> now - sw_start e")
      case True
      have now: "\<forall>p \<in> set h. fst p < now" using times True by fastforce
      have "cost_in (\<lambda>t. now \<le> t) h = 0" using now by (auto intro!: cost_in_none dest!: bspec)
      moreover have "cost_in (\<lambda>t. a \<le> t \<and> t < now) h \<le> real (sw_curr e)" if "now - swc_window cfg \<le> a" for a
      proof -
        have "cost_in (\<lambda>t. a \<le> t \<and> t < now) h \<le> cost_in (\<lambda>t. sw_start e \<le> t) h"
          using u by (rule unit_mono) (use that True in auto)
        then show ?thesis using w by (simp add: sw_windows_def)
      qed
      ultimately show ?thesis using False True now w pos by (force simp: rotate_entry_def Let_def sw_windows_def)
    next
      case False
      then show ?thesis using w pos by (simp add: rotate_entry_def Let_def)
    qed
  qed
  show "sw_start (rotate_entry cfg now e) \<le> now" "now < sw_start (rotate_entry cfg now e) + swc_window cfg"
    using le pos by (auto simp: rotate_entry_def Let_def)
qed

lemma accept_room:
  assumes w: "sw_windows cfg e h" and pos: "0 < swc_window cfg" and t: "sw_start e \<le> now" "now < sw_start e + swc_window cfg"
    and room: "sw_estimate cfg now e < real (swc_max cfg)"
  shows "sw_curr e < swc_max cfg"
    and "real (sw_prev e) + real (sw_curr e) < real (swc_max cfg) * (1 + (now - sw_start e) / swc_window cfg)"
proof -
  let ?f = "(now - sw_start e) / swc_window cfg"
  have f: "0 \<le> ?f" "?f \<le> 1" using t pos by (simp_all add: divide_le_eq)
  have est: "real (sw_prev e) * (1 - ?f) + real (sw_curr e) < real (swc_max cfg)" using room by (simp add: sw_estimate_def)
  have "0 \<le> real (sw_prev e) * (1 - ?f)" using f by simp
  then show "sw_curr e < swc_max cfg" using est by linarith
  have "real (sw_prev e) * ?f \<le> real (swc_max cfg) * ?f" using w f(1) by (intro mult_right_mono) (simp_all add: sw_windows_def)
  then show "real (sw_prev e) + real (sw_curr e) < real (swc_max cfg) * (1 + ?f)" using est by (simp add: algebra_simps)
qed

lemma accept_seam:
  assumes w: "sw_windows cfg e h" and pos: "0 < swc_window cfg" and t: "sw_start e \<le> now" "now < sw_start e + swc_window cfg"
    and room: "sw_estimate cfg now e < real (swc_max cfg)" and u: "unit_costs now h" and seam: "seam_bound cfg h"
  shows "seam_bound cfg (h @ [(now, 1)])"
  unfolding seam_bound_def
proof (intro allI impI)
  fix a d :: real
  assume d: "0 \<le> d" "d \<le> swc_window cfg"
  let ?in = "\<lambda>t. a \<le> t \<and> t \<le> a + d" and ?s = "sw_start e"
  show "cost_in ?in (h @ [(now, 1)]) < real (swc_max cfg) * (1 + d / swc_window cfg) + 1"
  proof (cases "?in now")
    case False
    then show ?thesis using seam d by (auto simp: seam_bound_def)
  next
    case True
    have curr: "cost_in (\<lambda>t. ?in t \<and> ?s \<le> t) h \<le> real (sw_curr e)"
    proof -
      have "cost_in (\<lambda>t. ?in t \<and> ?s \<le> t) h \<le> cost_in (\<lambda>t. ?s \<le> t) h" using u by (rule unit_mono) simp
      then show ?thesis using w by (simp add: sw_windows_def)
    qed
    have "cost_in ?in h < real (swc_max cfg) * (1 + d / swc_window cfg)"
    proof (cases "?s \<le> a")
      case True
      then have "cost_in (\<lambda>t. ?in t \<and> \<not> ?s \<le> t) h = 0" by (intro cost_in_none) auto
      then have "cost_in ?in h \<le> real (sw_curr e)" using curr cost_in_split [of ?in h "\<lambda>t. ?s \<le> t"] by simp
      also have "\<dots> < real (swc_max cfg)" using accept_room(1) [OF w pos t room] by simp
      also have "\<dots> \<le> real (swc_max cfg) * (1 + d / swc_window cfg)" using d pos by (simp add: algebra_simps)
      finally show ?thesis .
    next
      case False
      have "cost_in (\<lambda>t. ?in t \<and> \<not> ?s \<le> t) h \<le> cost_in (\<lambda>t. a \<le> t \<and> t < ?s) h" using u by (rule unit_mono) auto
      also have "\<dots> \<le> real (sw_prev e)" using w True d t by (auto simp: sw_windows_def)
      finally have "cost_in ?in h \<le> real (sw_prev e) + real (sw_curr e)"
        using curr cost_in_split [of ?in h "\<lambda>t. ?s \<le> t"] by simp
      also have "\<dots> < real (swc_max cfg) * (1 + (now - ?s) / swc_window cfg)" by (rule accept_room(2) [OF w pos t room])
      also have "\<dots> \<le> real (swc_max cfg) * (1 + d / swc_window cfg)"
        using True False pos by (intro mult_left_mono add_left_mono divide_right_mono) auto
      finally show ?thesis .
    qed
    then show ?thesis using True by simp
  qed
qed

lemma accept_windows:
  assumes w: "sw_windows cfg e h" and t: "sw_start e \<le> now" "now < sw_start e + swc_window cfg" and room: "sw_curr e < swc_max cfg"
  shows "sw_windows cfg (e\<lparr>sw_curr := sw_curr e + 1\<rparr>) (h @ [(now, 1)])"
  using assms by (auto simp: sw_windows_def)

lemma sw_good_charge:
  assumes good: "sw_good cfg now entry h" and cost: "c = 1" and step: "sw_charge cfg now c entry = (ok, e')"
  shows "sw_good cfg now (Some e') (if ok then h @ [(now, c)] else h)"
  unfolding sw_good_def
proof (intro impI)
  assume pos: "0 < swc_max cfg \<and> 0 < swc_window cfg"
  let ?e = "case entry of None \<Rightarrow> \<lparr>sw_prev = 0, sw_curr = 0, sw_start = now\<rparr> | Some e \<Rightarrow> rotate_entry cfg now e"
  have u: "unit_costs now h" and seam: "seam_bound cfg h" using good pos by (auto simp: sw_good_def)
  have w: "sw_windows cfg ?e h" and t: "sw_start ?e \<le> now" "now < sw_start ?e + swc_window cfg"
    using good pos u fresh_windows [of h cfg now] rotate_windows [of cfg _ h now]
    by (auto simp: sw_good_def split: option.splits)
  show "unit_costs now (if ok then h @ [(now, c)] else h) \<and> seam_bound cfg (if ok then h @ [(now, c)] else h) \<and>
    (case Some e' of None \<Rightarrow> \<forall>p \<in> set (if ok then h @ [(now, c)] else h). fst p + swc_window cfg < now
      | Some e \<Rightarrow> sw_start e \<le> now \<and> sw_windows cfg e (if ok then h @ [(now, c)] else h))"
  proof (cases "real (swc_max cfg) \<le> sw_estimate cfg now ?e")
    case True
    then show ?thesis using step u seam w t by (auto simp: sw_charge_def Let_def)
  next
    case False
    then have room: "sw_estimate cfg now ?e < real (swc_max cfg)" by simp
    have e': "ok" "e' = ?e\<lparr>sw_curr := sw_curr ?e + 1\<rparr>" using step False by (auto simp: sw_charge_def Let_def)
    show ?thesis
      using accept_seam [OF w _ t room u seam] accept_windows [OF w t accept_room(1) [OF w _ t room]] u pos t cost
      by (auto simp: e' unit_costs_def)
  qed
qed

interpretation sliding: keyed_meter "sw_charge cfg" "sw_stale cfg" "\<lambda>_ _ _. False" "sw_good cfg" "\<lambda>h. 0 < swc_max cfg \<and> 0 < swc_window cfg \<longrightarrow> seam_bound cfg h"
    "\<lambda>c. c = 1" for cfg
proof unfold_locales
  show "sw_good cfg now None []" for now
  proof -
    have "real (swc_max cfg) * (1 + d / swc_window cfg) + 1 > 0" if "0 \<le> d" "0 < swc_window cfg" for d
    proof -
      have "0 \<le> real (swc_max cfg) * (1 + d / swc_window cfg)" using that by simp
      then show ?thesis by linarith
    qed
    then show ?thesis by (auto simp: sw_good_def unit_costs_def seam_bound_def)
  qed
  show "sw_good cfg n x h" if "sw_good cfg now x h" "now \<le> n" for now n x h
    using that by (fastforce simp: sw_good_def unit_costs_def split: option.splits)
  show "sw_good cfg now None h" if "sw_good cfg now (Some e) h" "sw_stale cfg now e" for now e h
    using that by (force simp: sw_good_def sw_windows_def sw_stale_def)
  show "sw_good cfg now (Some e') (if ok then h @ [(now, c)] else h)"
    if "sw_good cfg now x h" "c = 1" "sw_charge cfg now c x = (ok, e')" for now x h c ok e'
    using sw_good_charge that by blast
qed (auto simp: sw_good_def)

section \<open>The table\<close>

definition sw_history :: "sw_state \<Rightarrow> js_string \<Rightarrow> (real \<times> real) list" where
  "sw_history s k = map (\<lambda>p. (snd p, 1)) (filter (\<lambda>p. fst p = k) (sw_accepted s))"

lemma visit_some: "visit_all sw_visit ps best = None \<longleftrightarrow> ps = [] \<and> best = None"
  by (induction ps arbitrary: best) (auto simp: sw_visit_def Let_def split: option.split prod.split)

lemma visit_mem:
  "visit_all sw_visit ps best = Some (n, k) \<Longrightarrow> k \<in> fst ` set ps \<or> (\<exists>n. best = Some (n, k))"
proof (induction ps arbitrary: best)
  case (Cons p ps)
  then have "k \<in> fst ` set ps \<or> (\<exists>n. snd (sw_visit p best) = Some (n, k))" by (simp add: sw_visit_def Let_def)
  then show ?case by (auto simp: sw_visit_def Let_def split: option.splits prod.splits if_splits)
qed simp

lemma sample_positive: "0 < sample_target x"
proof (cases x)
  case (Some n)
  have "0 < nat \<lfloor>n\<rfloor>" if "1 \<le> n" using that by (simp add: le_floor_iff)
  then show ?thesis using Some by (simp add: sample_target_def)
qed (simp add: sample_target_def)

lemma evict_one_cases:
  obtains (empty) "sw_map s = []" and "sw_map (sw_evict_one cfg s) = []" and "sw_evicted (sw_evict_one cfg s) = sw_evicted s"
      and "sw_accepted (sw_evict_one cfg s) = sw_accepted s"
  | (gone) k where "jm_has (sw_map s) k" and "sw_map (sw_evict_one cfg s) = jm_del k (sw_map s)"
      and "sw_evicted (sw_evict_one cfg s) = sw_evicted s @ [k]" and "sw_accepted (sw_evict_one cfg s) = sw_accepted s"
proof -
  let ?n = "sample_target (swc_sample cfg)" and ?m = "sw_map s"
  let ?vs = "visits ?n (length ?m) 0 0 (sw_cursor s)"
  obtain cur best where loop: "sample_loop sw_visit ?n ?m 0 0 (sw_cursor s) None = (cur, best)" by fastforce
  have best: "best = visit_all sw_visit (map ((!) ?m) ?vs) None"
    using sample_loop_visits [of sw_visit ?n ?m 0 0 "sw_cursor s" None] loop by simp
  show ?thesis
  proof (cases best)
    case None
    then have "?vs = []" using best visit_some [of "map ((!) ?m) ?vs" None] by simp
    then have "?m = []" using visits_some [OF sample_positive, of "length ?m"] by (cases "?m = []") auto
    then show ?thesis using empty None loop by (simp add: sw_evict_one_def)
  next
    case (Some p)
    obtain n k where p: "p = (n, k)" by fastforce
    have "k \<in> fst ` set (map ((!) ?m) ?vs)" using visit_mem [of "map ((!) ?m) ?vs" None n k] best Some p by simp
    moreover have "set (map ((!) ?m) ?vs) \<subseteq> set ?m" using visits_bound [of ?n "length ?m" 0 0 "sw_cursor s"] by auto
    ultimately have "jm_has ?m k" by (auto simp: jm_has_def)
    then show ?thesis using gone Some p loop by (simp add: sw_evict_one_def)
  qed
qed

lemma evict_one_keeps:
  assumes "jm_wf (sw_map s)"
  shows "jm_wf (sw_map (sw_evict_one cfg s))" and "sw_accepted (sw_evict_one cfg s) = sw_accepted s"
    and "jm_size (sw_map (sw_evict_one cfg s)) = jm_size (sw_map s) - 1"
    and "set (sw_evicted s) \<subseteq> set (sw_evicted (sw_evict_one cfg s))"
    and "k \<in> set (sw_evicted (sw_evict_one cfg s)) \<or> jm_get (sw_map (sw_evict_one cfg s)) k = jm_get (sw_map s) k"
  using assms by (cases rule: evict_one_cases [of s cfg]; auto simp: length_jm_del jm_has_get)+

definition sw_ok :: "sw_config \<Rightarrow> sw_state \<Rightarrow> bool" where
  "sw_ok cfg s \<longleftrightarrow> jm_wf (sw_map s) \<and> jm_size (sw_map s) \<le> max 1 (swc_entries cfg)"

definition sw_tracked :: "sw_config \<Rightarrow> js_string \<Rightarrow> real \<Rightarrow> sw_state \<Rightarrow> bool" where
  "sw_tracked cfg k now s \<longleftrightarrow> sw_ok cfg s \<and>
     (k \<in> set (sw_evicted s) \<or> sliding.metered cfg now (jm_get (sw_map s) k) (sw_history s k))"

lemma lookup_keeps:
  assumes ok: "sw_ok cfg s" and l: "sw_lookup cfg key now s = (e, s')"
  shows "sw_ok cfg s'" and "sw_accepted s' = sw_accepted s" and "set (sw_evicted s) \<subseteq> set (sw_evicted s')"
    and "e = (case jm_get (sw_map s) key of None \<Rightarrow> \<lparr>sw_prev = 0, sw_curr = 0, sw_start = now\<rparr> | Some e \<Rightarrow> rotate_entry cfg now e)"
    and "jm_get (sw_map s') key = Some e"
    and "k = key \<or> k \<in> set (sw_evicted s') \<or> jm_get (sw_map s') k = jm_get (sw_map s) k"
proof -
  have wf: "jm_wf (sw_map s)" using ok by (simp add: sw_ok_def)
  let ?s = "if swc_entries cfg \<le> jm_size (sw_map s) then sw_evict_one cfg s else s"
  have "jm_size (jm_set key v (sw_map ?s)) \<le> max 1 (swc_entries cfg)" if "jm_get (sw_map s) key = None" for v
  proof -
    have "jm_size (jm_set key v (sw_map ?s)) \<le> Suc (jm_size (sw_map ?s))" by (simp add: length_jm_set)
    also have "\<dots> \<le> max 1 (swc_entries cfg)" using ok evict_one_keeps(3) [OF wf, of cfg] by (auto simp: sw_ok_def)
    finally show ?thesis .
  qed
  moreover have "jm_size (jm_set key v (sw_map s)) = jm_size (sw_map s)" if "jm_get (sw_map s) key = Some u" for u v
    using that by (simp add: length_jm_set)
  ultimately show "sw_ok cfg s'"
    using l ok evict_one_keeps(1) [OF wf, of cfg] by (auto simp: sw_lookup_def sw_ok_def Let_def split: option.splits)
  show "sw_accepted s' = sw_accepted s" "set (sw_evicted s) \<subseteq> set (sw_evicted s')"
    using l evict_one_keeps(2,4) [OF wf, of cfg] by (auto simp: sw_lookup_def Let_def split: option.splits if_splits)
  show "e = (case jm_get (sw_map s) key of None \<Rightarrow> \<lparr>sw_prev = 0, sw_curr = 0, sw_start = now\<rparr> | Some e \<Rightarrow> rotate_entry cfg now e)"
    "jm_get (sw_map s') key = Some e"
    using l by (auto simp: sw_lookup_def Let_def split: option.splits)
  show "k = key \<or> k \<in> set (sw_evicted s') \<or> jm_get (sw_map s') k = jm_get (sw_map s) k"
    using l evict_one_keeps(5) [OF wf, of k cfg] by (auto simp: sw_lookup_def Let_def split: option.splits if_splits)
qed

lemma exceeded_keeps:
  assumes tracked: "sw_tracked cfg k now s" and time: "now \<le> n"
  shows "sw_tracked cfg k n (snd (sw_exceeded cfg client n s))"
proof (cases "swc_max cfg = 0")
  case True
  then show ?thesis using tracked time by (auto simp: sw_exceeded_def sw_tracked_def intro: sliding.wait)
next
  case False
  let ?key = "rate_limit_key client (swc_key_len cfg)"
  obtain e s1 where l: "sw_lookup cfg ?key n s = (e, s1)" by fastforce
  have ok: "sw_ok cfg s" using tracked by (simp add: sw_tracked_def)
  note keeps = lookup_keeps [OF ok l]
  let ?full = "real (swc_max cfg) \<le> sw_estimate cfg n e"
  let ?s = "snd (sw_exceeded cfg client n s)"
  have s: "?s = (if ?full then s1
      else s1\<lparr>sw_map := jm_set ?key (e\<lparr>sw_curr := sw_curr e + 1\<rparr>) (sw_map s1), sw_accepted := sw_accepted s1 @ [(?key, n)]\<rparr>)"
    using False l by (simp add: sw_exceeded_def Let_def)
  have ev: "sw_evicted ?s = sw_evicted s1" by (simp add: s)
  have ok': "sw_ok cfg ?s" using keeps(1,5) by (auto simp: s sw_ok_def length_jm_set)
  show ?thesis
  proof (cases "k \<in> set (sw_evicted s1)")
    case True
    then show ?thesis using ok' ev by (simp add: sw_tracked_def)
  next
    case not_evicted: False
    then have "sliding.metered cfg now (jm_get (sw_map s) k) (sw_history s k)" using tracked keeps(3) by (auto simp: sw_tracked_def)
    then have m: "sliding.metered cfg n (jm_get (sw_map s) k) (sw_history s k)" using time by (rule sliding.wait)
    have "sliding.metered cfg n (jm_get (sw_map ?s) k) (sw_history ?s k)"
    proof (cases "k = ?key")
      case True
      have "sw_charge cfg n 1 (jm_get (sw_map s) k) = (\<not> ?full, if ?full then e else e\<lparr>sw_curr := sw_curr e + 1\<rparr>)"
        using keeps(4) True by (simp add: sw_charge_def Let_def)
      from sliding.charge [OF m _ this] show ?thesis using keeps(2,5) True by (auto simp: s sw_history_def)
    next
      case False
      then have "jm_get (sw_map ?s) k = jm_get (sw_map s) k" using keeps(6) [of k] not_evicted by (auto simp: s)
      then show ?thesis using m keeps(2) False by (simp add: s sw_history_def)
    qed
    then show ?thesis using ok' by (simp add: sw_tracked_def)
  qed
qed

lemma sweep_ok:
  assumes "sw_ok cfg s"
  shows "sw_ok cfg (sw_sweep cfg n s)"
proof -
  have "jm_size (sw_map (sw_sweep cfg n s)) \<le> jm_size (sw_map s)" by (simp add: sw_sweep_def)
  then have "jm_size (sw_map (sw_sweep cfg n s)) \<le> max 1 (swc_entries cfg)" using assms unfolding sw_ok_def by linarith
  then show ?thesis using assms wf_filter by (auto simp: sw_ok_def sw_sweep_def)
qed

lemma sweep_keeps:
  assumes tracked: "sw_tracked cfg k now s" and time: "now \<le> n"
  shows "sw_tracked cfg k n (sw_sweep cfg n s)"
proof -
  have wf: "jm_wf (sw_map s)" using tracked by (simp add: sw_tracked_def sw_ok_def)
  have ok: "sw_ok cfg (sw_sweep cfg n s)" using tracked sweep_ok by (simp add: sw_tracked_def)
  have "sliding.metered cfg n (jm_get (sw_map (sw_sweep cfg n s)) k) (sw_history (sw_sweep cfg n s) k)"
    if "k \<notin> set (sw_evicted s)"
  proof -
    have m: "sliding.metered cfg n (jm_get (sw_map s) k) (sw_history s k)"
      using tracked that time by (auto simp: sw_tracked_def intro: sliding.wait)
    show ?thesis
    proof (cases "jm_get (sw_map s) k")
      case None
      then show ?thesis using m wf by (simp add: sw_sweep_def get_filter sw_history_def)
    next
      case (Some e)
      then have me: "sliding.metered cfg n (Some e) (sw_history s k)" using m by simp
      show ?thesis using m Some sliding.forget [OF me]
        by (cases "sw_stale cfg n e") (simp_all add: sw_sweep_def get_filter [OF wf] sw_stale_def sw_history_def)
    qed
  qed
  then show ?thesis using ok by (auto simp: sw_tracked_def sw_sweep_def)
qed

lemma sw_step_keeps:
  assumes "sw_tracked cfg k now s" and "now \<le> sw_time e"
  shows "sw_tracked cfg k (sw_time e) (sw_step cfg s e)"
  using exceeded_keeps [OF assms(1)] sweep_keeps [OF assms(1)] assms(2) by (cases e) auto

lemma sw_run_keeps:
  assumes "sw_tracked cfg k now s" and "sorted (now # map sw_time es)"
  shows "\<exists>n. sw_tracked cfg k n (foldl (sw_step cfg) s es)"
  using assms
proof (induction es arbitrary: s now)
  case (Cons e es)
  then show ?case using Cons.IH [OF sw_step_keeps [OF Cons.prems(1)], of e] by simp
qed auto

lemma sw_start_tracked: "sw_tracked cfg k now create_sliding_window"
  by (simp add: sw_tracked_def create_sliding_window_def sw_ok_def sw_history_def sliding.start)

text \<open>C26: The sliding window smooths the seam between windows: a client whose entry was not evicted has, in
  any stretch of time of length \<open>d\<close> up to the window, fewer than \<open>max * (1 + d / window) + 1\<close> requests let
  through, so a burst on both sides of a boundary gets one allowance and not two.\<close>

theorem sliding_seam_bound:
  assumes "sorted (now # map sw_time es)" and "0 < swc_max cfg" and "0 < swc_window cfg" and "0 \<le> d" and "d \<le> swc_window cfg"
    and "k \<notin> set (sw_evicted (foldl (sw_step cfg) create_sliding_window es))"
  shows "real (length (filter (\<lambda>p. fst p = k \<and> a \<le> snd p \<and> snd p \<le> a + d) (sw_accepted (foldl (sw_step cfg) create_sliding_window es))))
      < real (swc_max cfg) * (1 + d / swc_window cfg) + 1"
proof -
  let ?s = "foldl (sw_step cfg) create_sliding_window es"
  have "seam_bound cfg (sw_history ?s k)"
    using sw_run_keeps [OF sw_start_tracked assms(1)] sliding.metered_bound assms(2,3,6) by (fastforce simp: sw_tracked_def)
  then have "cost_in (\<lambda>t. a \<le> t \<and> t \<le> a + d) (sw_history ?s k) < real (swc_max cfg) * (1 + d / swc_window cfg) + 1"
    using assms(4,5) unfolding seam_bound_def by blast
  moreover have "cost_in (\<lambda>t. a \<le> t \<and> t \<le> a + d) (map (\<lambda>p. (snd p, 1)) (filter (\<lambda>p. fst p = k) ps)) =
      real (length (filter (\<lambda>p. fst p = k \<and> a \<le> snd p \<and> snd p \<le> a + d) ps))" for ps :: "(js_string \<times> real) list"
    by (induction ps) auto
  ultimately show ?thesis by (simp only: sw_history_def)
qed

theorem sliding_seam_bound_witness:
  "real (length (filter (\<lambda>p. fst p = [98] \<and> 0 \<le> snd p \<and> snd p \<le> 0 + 5)
      (sw_accepted (foldl (sw_step \<lparr>swc_max = 3, swc_window = 10, swc_entries = 8, swc_sample = None, swc_key_len = 64\<rparr>)
         create_sliding_window [SwRequest [98] 1, SwSweep 30])))) < real 3 * (1 + 5 / 10) + 1"
  using sliding_seam_bound [of 0 "[SwRequest [98] 1, SwSweep 30]"
      "\<lparr>swc_max = 3, swc_window = 10, swc_entries = 8, swc_sample = None, swc_key_len = 64\<rparr>" 5 "[98]" 0]
  by (simp add: sw_exceeded_def sw_lookup_def sw_sweep_def create_sliding_window_def sw_estimate_def Let_def)

text \<open>The table never holds more than \<open>maxEntries\<close> clients (one if that is zero), whatever identities send
  requests and whatever the sample size.\<close>

theorem sliding_table_bounded:
  "jm_size (sw_map (foldl (sw_step cfg) create_sliding_window es)) \<le> max 1 (swc_entries cfg)"
proof -
  have "sw_ok cfg (sw_step cfg s e)" if "sw_ok cfg s" for s e
  proof (cases e)
    case (SwRequest client n)
    obtain e' s' where l: "sw_lookup cfg (rate_limit_key client (swc_key_len cfg)) n s = (e', s')" by fastforce
    show ?thesis using SwRequest that lookup_keeps(1,5) [OF that l] l by (auto simp: sw_exceeded_def sw_ok_def Let_def length_jm_set)
  next
    case (SwSweep n)
    then show ?thesis using sweep_ok [OF that] by simp
  qed
  then have "sw_ok cfg s \<Longrightarrow> sw_ok cfg (foldl (sw_step cfg) s es)" for s by (induction es arbitrary: s) auto
  moreover have "sw_ok cfg create_sliding_window" by (simp add: sw_ok_def create_sliding_window_def)
  ultimately show ?thesis by (simp add: sw_ok_def)
qed

end
