(* ===== verification/Rate_Limit.thy ===== *)
theory Rate_Limit
  imports Rotating_Cursor
begin

text \<open>
  The rate limit plugin, \<open>src/plugins/ratelimit/server.js\<close>: fixed windows per key with bans, tenant
  scopes, eviction from a rotating sample and the administrative operations. Key functions, tenant
  resolvers and the eviction listener are the application's: arguments of the configuration.
  \<open>rl_allowed\<close> and \<open>rl_evicted\<close> log the charges let through and the evictions; no operation reads them.
\<close>

section \<open>Connections and options\<close>

text \<open>Absent or empty addresses are the empty string.\<close>

record conn_data =
  cd_remote :: js_string
  cd_ip :: js_string
  cd_address :: js_string
  cd_tenant :: "js_string option"

datatype user_data_read = NoUserData | ReadThrows | UserData conn_data

record ws_conn =
  ws_id :: nat
  ws_read :: user_data_read

datatype key_by = ByIp | ByConnection | ByKey "ws_conn \<Rightarrow> js_string"

record rl_config =
  rc_points :: nat
  rc_interval :: real
  rc_block :: real
  rc_key_by :: key_by
  rc_tenant :: "(ws_conn \<Rightarrow> js_string option) option"
  rc_shared :: bool
  rc_max :: nat
  rc_sample :: nat
  rc_on_evict :: "(js_string \<times> bool \<Rightarrow> bool) option"

datatype rl_error =
  BadPoints | BadRlInterval | BadBlock | BadMaxBuckets | BadSample | BadCost
  | NulInTenant | NoTenantId | NoAdminTenant | DataUnreadable | ListenerThrew

text \<open>\<open>None\<close> stands for a number that is no integer, or not finite.\<close>

definition create_rate_limit ::
  "int option \<Rightarrow> real option \<Rightarrow> real option \<Rightarrow> key_by \<Rightarrow> (ws_conn \<Rightarrow> js_string option) option \<Rightarrow> bool \<Rightarrow> int option \<Rightarrow> int option \<Rightarrow>
   (js_string \<times> bool \<Rightarrow> bool) option \<Rightarrow> rl_error + rl_config" where
  "create_rate_limit points interval block key_by tenant shared max_buckets sample on_evict =
     (case points of None \<Rightarrow> Inl BadPoints | Some p \<Rightarrow> if p \<le> 0 then Inl BadPoints else
      case interval of None \<Rightarrow> Inl BadRlInterval | Some i \<Rightarrow> if i \<le> 0 then Inl BadRlInterval else
      case block of None \<Rightarrow> Inl BadBlock | Some b \<Rightarrow> if b < 0 then Inl BadBlock else
      case max_buckets of None \<Rightarrow> Inl BadMaxBuckets | Some m \<Rightarrow> if m < 1 then Inl BadMaxBuckets else
      case sample of None \<Rightarrow> Inl BadSample | Some n \<Rightarrow> if n < 1 then Inl BadSample else
      Inr \<lparr>rc_points = nat p, rc_interval = i, rc_block = b, rc_key_by = key_by, rc_tenant = tenant, rc_shared = shared,
           rc_max = nat m, rc_sample = nat n, rc_on_evict = on_evict\<rparr>)"

section \<open>State\<close>

record rl_bucket =
  bk_points :: real
  bk_reset :: real
  bk_banned :: real
  bk_prev :: real
  bk_seq :: nat

record rl_state =
  rl_buckets :: "(js_string, rl_bucket) jsmap"
  rl_cursor :: map_cursor
  rl_ban_seq :: nat
  rl_ws_keys :: "nat \<Rightarrow> js_string option"
  rl_conns :: nat
  rl_tenants :: "nat \<Rightarrow> js_string option option"
  rl_allowed :: "(js_string \<times> real \<times> real) list"
  rl_evicted :: "(js_string \<times> bool) list"

definition new_rate_limit :: rl_state where
  "new_rate_limit = \<lparr>rl_buckets = [], rl_cursor = None, rl_ban_seq = 0, rl_ws_keys = (\<lambda>_. None), rl_conns = 0,
     rl_tenants = (\<lambda>_. None), rl_allowed = [], rl_evicted = []\<rparr>"

section \<open>Keys\<close>

text \<open>\<open>'__conn:'\<close> followed by the number of the connection.\<close>

definition conn_key :: "nat \<Rightarrow> js_string" where
  "conn_key n = [95, 95, 99, 111, 110, 110, 58] @ decimal n"

definition unknown_key :: js_string where
  "unknown_key = [117, 110, 107, 110, 111, 119, 110]"

definition first_text :: "js_string list \<Rightarrow> js_string" where
  "first_text xs = (case filter (\<lambda>x. x \<noteq> []) xs of [] \<Rightarrow> unknown_key | x # _ \<Rightarrow> x)"

definition tenant_text :: "js_string option \<Rightarrow> js_string" where
  "tenant_text t = (case t of None \<Rightarrow> [] | Some t \<Rightarrow> t)"

definition bucket_key :: "rl_config \<Rightarrow> js_string \<Rightarrow> js_string option \<Rightarrow> rl_error + js_string" where
  "bucket_key cfg raw tenant =
     (let t = tenant_text tenant in
      if t \<noteq> [] \<and> 0 \<in> set t then Inl NulInTenant
      else if rc_shared cfg then (if t = [] then Inl NoTenantId else Inr t)
      else Inr (if t = [] then raw else t @ 0 # raw))"

definition admin_bucket_key :: "rl_config \<Rightarrow> js_string \<Rightarrow> js_string option \<Rightarrow> rl_error + js_string" where
  "admin_bucket_key cfg key tenant =
     (if rc_shared cfg \<and> tenant_text tenant = [] then Inl NoAdminTenant
      else bucket_key cfg (if rc_shared cfg then [] else key) tenant)"

text \<open>The attribution of a connection, read once and cached; an unreadable one counts as none.\<close>

definition attribution_tenant :: "ws_conn \<Rightarrow> rl_state \<Rightarrow> js_string option \<times> rl_state" where
  "attribution_tenant ws s =
     (case rl_tenants s (ws_id ws) of
        Some t \<Rightarrow> (t, s)
      | None \<Rightarrow>
          let t = (case ws_read ws of UserData d \<Rightarrow> cd_tenant d | _ \<Rightarrow> None)
          in (t, s\<lparr>rl_tenants := (rl_tenants s)(ws_id ws := Some t)\<rparr>))"

definition ip_text :: "conn_data \<Rightarrow> js_string" where
  "ip_text d = first_text [cd_remote d, cd_ip d, cd_address d]"

definition resolve_raw_key :: "rl_config \<Rightarrow> ws_conn \<Rightarrow> rl_state \<Rightarrow> (rl_error + js_string) \<times> rl_state" where
  "resolve_raw_key cfg ws s =
     (case rc_key_by cfg of
        ByKey f \<Rightarrow> (Inr (f ws), s)
      | ByConnection \<Rightarrow>
          (case rl_ws_keys s (ws_id ws) of
             Some k \<Rightarrow> (Inr k, s)
           | None \<Rightarrow>
               let n = rl_conns s + 1
               in (Inr (conn_key n), s\<lparr>rl_conns := n, rl_ws_keys := (rl_ws_keys s)(ws_id ws := Some (conn_key n))\<rparr>))
      | ByIp \<Rightarrow>
          (case ws_read ws of
             ReadThrows \<Rightarrow> (Inl DataUnreadable, s)
           | NoUserData \<Rightarrow> (Inr unknown_key, s)
           | UserData d \<Rightarrow> (Inr (ip_text d), s)))"

definition principal_bucket_key :: "rl_config \<Rightarrow> ws_conn \<Rightarrow> rl_state \<Rightarrow> (rl_error + js_string) \<times> rl_state" where
  "principal_bucket_key cfg ws s =
     (case rc_tenant cfg of
        Some f \<Rightarrow>
          (case resolve_raw_key cfg ws s of
             (Inl e, s) \<Rightarrow> (Inl e, s)
           | (Inr raw, s) \<Rightarrow> (bucket_key cfg raw (f ws), s))
      | None \<Rightarrow>
          (case rc_key_by cfg of
             ByConnection \<Rightarrow>
               (case rl_ws_keys s (ws_id ws) of
                  Some k \<Rightarrow> (Inr k, s)
                | None \<Rightarrow>
                    (case attribution_tenant ws (s\<lparr>rl_conns := rl_conns s + 1\<rparr>) of
                       (t, s) \<Rightarrow>
                         (case bucket_key cfg (conn_key (rl_conns s)) t of
                            Inl e \<Rightarrow> (Inl e, s)
                          | Inr k \<Rightarrow> (Inr k, s\<lparr>rl_ws_keys := (rl_ws_keys s)(ws_id ws := Some k)\<rparr>))))
           | ByKey f \<Rightarrow> (case attribution_tenant ws s of (t, s) \<Rightarrow> (bucket_key cfg (f ws) t, s))
           | ByIp \<Rightarrow>
               (case ws_read ws of
                  ReadThrows \<Rightarrow> (Inl DataUnreadable, s)
                | NoUserData \<Rightarrow> (bucket_key cfg unknown_key None, s)
                | UserData d \<Rightarrow> (bucket_key cfg (ip_text d) (cd_tenant d), s))))"

text \<open>The key a charge uses, in both budget modes.\<close>

definition consume_key :: "rl_config \<Rightarrow> ws_conn \<Rightarrow> rl_state \<Rightarrow> (rl_error + js_string) \<times> rl_state" where
  "consume_key cfg ws s =
     (if rc_shared cfg
      then (case rc_tenant cfg of
              Some f \<Rightarrow> (bucket_key cfg [] (f ws), s)
            | None \<Rightarrow> (case attribution_tenant ws s of (t, s) \<Rightarrow> (bucket_key cfg [] t, s)))
      else principal_bucket_key cfg ws s)"

section \<open>Sweep and eviction\<close>

definition rl_cleanup :: "real \<Rightarrow> rl_state \<Rightarrow> rl_state" where
  "rl_cleanup t s =
     (if jm_size (rl_buckets s) \<le> 1000 then s
      else
        let kept = filter (\<lambda>p. \<not> (bk_reset (snd p) \<le> t \<and> bk_banned (snd p) \<le> t)) (rl_buckets s)
        in s\<lparr>rl_buckets := kept, rl_cursor := (if jm_size kept < jm_size (rl_buckets s) then None else rl_cursor s)\<rparr>)"

definition activity :: "rl_config \<Rightarrow> rl_bucket \<Rightarrow> real \<Rightarrow> real" where
  "activity cfg b t =
     (let drawn = real (rc_points cfg) - bk_points b in
      if t < bk_reset b then drawn + bk_prev b
      else if t < bk_reset b + rc_interval cfg then drawn
      else 0)"

type_synonym rl_victims = "(real \<times> bool \<times> js_string) option \<times> (nat \<times> js_string) option"

definition rl_visit :: "rl_config \<Rightarrow> real \<Rightarrow> js_string \<times> rl_bucket \<Rightarrow> rl_victims \<Rightarrow> bool \<times> rl_victims" where
  "rl_visit cfg t p best =
     (case (p, best) of ((k, b), (victim, banned)) \<Rightarrow>
        if t < bk_banned b then
          (False, victim, case banned of
             None \<Rightarrow> Some (bk_seq b, k)
           | Some (q, _) \<Rightarrow> if q < bk_seq b then Some (bk_seq b, k) else banned)
        else
          let score = activity cfg b t; expired = (bk_reset b \<le> t)
          in (score = 0 \<and> expired,
              case victim of
                None \<Rightarrow> Some (score, expired, k)
              | Some (least, gone, _) \<Rightarrow>
                  if score < least \<or> (score = least \<and> expired \<and> \<not> gone) then Some (score, expired, k) else victim,
              banned))"

definition rl_drop :: "js_string \<Rightarrow> bool \<Rightarrow> map_cursor \<Rightarrow> rl_state \<Rightarrow> rl_state" where
  "rl_drop k banned cur s =
     s\<lparr>rl_cursor := cursor_del (rl_buckets s) k cur, rl_buckets := jm_del k (rl_buckets s), rl_evicted := rl_evicted s @ [(k, banned)]\<rparr>"

definition rl_evict_one :: "rl_config \<Rightarrow> real \<Rightarrow> rl_state \<Rightarrow> (js_string \<times> bool) option \<times> rl_state" where
  "rl_evict_one cfg t s =
     (case sample_loop (rl_visit cfg t) (rc_sample cfg) (rl_buckets s) 0 0 (rl_cursor s) (None, None) of
        (cur, Some (_, _, k), _) \<Rightarrow> (Some (k, False), rl_drop k False cur s)
      | (cur, None, Some (_, k)) \<Rightarrow> (Some (k, True), rl_drop k True cur s)
      | (cur, None, None) \<Rightarrow> (None, s\<lparr>rl_cursor := cur\<rparr>))"

text \<open>The bucket of a key, made with an allowance when there is none.\<close>

definition rl_enter :: "rl_config \<Rightarrow> js_string \<Rightarrow> real \<Rightarrow> real \<Rightarrow> rl_state \<Rightarrow> rl_bucket \<times> (js_string \<times> bool) option \<times> rl_state" where
  "rl_enter cfg key points t s =
     (case jm_get (rl_buckets s) key of
        Some b \<Rightarrow> (b, None, s)
      | None \<Rightarrow>
          (case (if rc_max cfg \<le> jm_size (rl_buckets s) then rl_evict_one cfg t s else (None, s)) of
             (evicted, s) \<Rightarrow>
               let b = \<lparr>bk_points = points, bk_reset = t + rc_interval cfg, bk_banned = 0, bk_prev = 0, bk_seq = 0\<rparr>
               in (b, evicted, s\<lparr>rl_buckets := jm_set key b (rl_buckets s)\<rparr>)))"

definition listener_ok :: "rl_config \<Rightarrow> (js_string \<times> bool) option \<Rightarrow> bool" where
  "listener_ok cfg evicted = (case (evicted, rc_on_evict cfg) of (Some e, Some throws) \<Rightarrow> \<not> throws e | _ \<Rightarrow> True)"

section \<open>Consume\<close>

record consume_result =
  cr_allowed :: bool
  cr_remaining :: real
  cr_reset :: real

definition rl_refill :: "rl_config \<Rightarrow> real \<Rightarrow> rl_bucket \<Rightarrow> rl_bucket" where
  "rl_refill cfg t b =
     (if bk_reset b \<le> t
      then b\<lparr>bk_prev := (if t < bk_reset b + rc_interval cfg then real (rc_points cfg) - bk_points b else 0),
             bk_points := real (rc_points cfg), bk_reset := t + rc_interval cfg\<rparr>
      else b)"

text \<open>The decision on one bucket, with the ban counter.\<close>

definition bucket_charge :: "rl_config \<Rightarrow> real \<Rightarrow> real \<Rightarrow> nat \<Rightarrow> rl_bucket \<Rightarrow> consume_result \<times> rl_bucket \<times> nat" where
  "bucket_charge cfg t cost seq b =
     (if t < bk_banned b then (\<lparr>cr_allowed = False, cr_remaining = 0, cr_reset = bk_banned b - t\<rparr>, b, seq)
      else
        let b = rl_refill cfg t b in
        if cost \<le> bk_points b then
          (\<lparr>cr_allowed = True, cr_remaining = bk_points b - cost, cr_reset = bk_reset b - t\<rparr>, b\<lparr>bk_points := bk_points b - cost\<rparr>, seq)
        else if 0 < rc_block cfg then
          (\<lparr>cr_allowed = False, cr_remaining = 0, cr_reset = rc_block cfg\<rparr>,
           b\<lparr>bk_banned := t + rc_block cfg, bk_seq := seq + 1\<rparr>, seq + 1)
        else (\<lparr>cr_allowed = False, cr_remaining = max 0 (bk_points b), cr_reset = bk_reset b - t\<rparr>, b, seq))"

text \<open>\<open>None\<close> stands for a cost that is no finite number.\<close>

definition rl_consume :: "rl_config \<Rightarrow> ws_conn \<Rightarrow> real option \<Rightarrow> real \<Rightarrow> rl_state \<Rightarrow> (rl_error + consume_result) \<times> rl_state" where
  "rl_consume cfg ws cost t s =
     (case cost of
        None \<Rightarrow> (Inl BadCost, s)
      | Some cost \<Rightarrow>
          if cost < 0 then (Inl BadCost, s)
          else case consume_key cfg ws s of
            (Inl e, s) \<Rightarrow> (Inl e, s)
          | (Inr key, s) \<Rightarrow>
              (case rl_enter cfg key (real (rc_points cfg)) t (rl_cleanup t s) of
                 (b, evicted, s) \<Rightarrow>
                   (case bucket_charge cfg t cost (rl_ban_seq s) b of
                      (result, b, seq) \<Rightarrow>
                        (if listener_ok cfg evicted then Inr result else Inl ListenerThrew,
                         s\<lparr>rl_buckets := jm_set key b (rl_buckets s), rl_ban_seq := seq,
                           rl_allowed := (if cr_allowed result then rl_allowed s @ [(key, t, cost)] else rl_allowed s)\<rparr>))))"

section \<open>Administration\<close>

definition rl_reset :: "rl_config \<Rightarrow> js_string \<Rightarrow> js_string option \<Rightarrow> rl_state \<Rightarrow> (rl_error + unit) \<times> rl_state" where
  "rl_reset cfg key tenant s =
     (case admin_bucket_key cfg key tenant of
        Inl e \<Rightarrow> (Inl e, s)
      | Inr k \<Rightarrow>
          (Inr (), if jm_has (rl_buckets s) k then s\<lparr>rl_buckets := jm_del k (rl_buckets s), rl_cursor := None\<rparr> else s))"

definition rl_ban :: "rl_config \<Rightarrow> js_string \<Rightarrow> real option \<Rightarrow> js_string option \<Rightarrow> real \<Rightarrow> rl_state \<Rightarrow> (rl_error + unit) \<times> rl_state" where
  "rl_ban cfg key duration tenant t s =
     (let dur = (case duration of Some d \<Rightarrow> d | None \<Rightarrow> if rc_block cfg = 0 then 60000 else rc_block cfg) in
      case admin_bucket_key cfg key tenant of
        Inl e \<Rightarrow> (Inl e, s)
      | Inr k \<Rightarrow>
          (case rl_enter cfg k 0 t s of
             (b, evicted, s) \<Rightarrow>
               (if listener_ok cfg evicted then Inr () else Inl ListenerThrew,
                s\<lparr>rl_buckets := jm_set k (b\<lparr>bk_banned := t + dur, bk_seq := rl_ban_seq s + 1\<rparr>) (rl_buckets s), rl_ban_seq := rl_ban_seq s + 1\<rparr>)))"

definition rl_unban :: "rl_config \<Rightarrow> js_string \<Rightarrow> js_string option \<Rightarrow> rl_state \<Rightarrow> (rl_error + unit) \<times> rl_state" where
  "rl_unban cfg key tenant s =
     (case admin_bucket_key cfg key tenant of
        Inl e \<Rightarrow> (Inl e, s)
      | Inr k \<Rightarrow>
          (Inr (), case jm_get (rl_buckets s) k of
             None \<Rightarrow> s
           | Some b \<Rightarrow> s\<lparr>rl_buckets := jm_set k (b\<lparr>bk_banned := 0\<rparr>) (rl_buckets s)\<rparr>))"

definition starts_with :: "js_string \<Rightarrow> js_string \<Rightarrow> bool" where
  "starts_with p x \<longleftrightarrow> take (length p) x = p"

definition rl_clear :: "rl_config \<Rightarrow> js_string option \<Rightarrow> rl_state \<Rightarrow> rl_state" where
  "rl_clear cfg tenant s =
     (let t = tenant_text tenant; s = s\<lparr>rl_cursor := None\<rparr> in
      if t = [] then s\<lparr>rl_buckets := [], rl_conns := 0\<rparr>
      else
        let m = (if rc_shared cfg then jm_del t (rl_buckets s) else rl_buckets s)
        in s\<lparr>rl_buckets := filter (\<lambda>p. \<not> starts_with (t @ [0]) (fst p)) m\<rparr>)"

section \<open>Runs\<close>

datatype rl_event =
    RlConsume ws_conn "real option" real
  | RlReset js_string "js_string option"
  | RlBan js_string "real option" "js_string option" real
  | RlUnban js_string "js_string option"
  | RlClear "js_string option"

fun rl_step :: "rl_config \<Rightarrow> rl_state \<Rightarrow> rl_event \<Rightarrow> rl_state" where
  "rl_step cfg s (RlConsume ws cost t) = snd (rl_consume cfg ws cost t s)"
| "rl_step cfg s (RlReset key tenant) = snd (rl_reset cfg key tenant s)"
| "rl_step cfg s (RlBan key dur tenant t) = snd (rl_ban cfg key dur tenant t s)"
| "rl_step cfg s (RlUnban key tenant) = snd (rl_unban cfg key tenant s)"
| "rl_step cfg s (RlClear tenant) = rl_clear cfg tenant s"

section \<open>The windows of one bucket\<close>

definition rl_charge :: "rl_config \<Rightarrow> real \<Rightarrow> real \<Rightarrow> rl_bucket option \<Rightarrow> bool \<times> rl_bucket" where
  "rl_charge cfg t cost x =
     (let b = (case x of Some b \<Rightarrow> b
         | None \<Rightarrow> \<lparr>bk_points = real (rc_points cfg), bk_reset = t + rc_interval cfg, bk_banned = 0, bk_prev = 0, bk_seq = 0\<rparr>)
      in case bucket_charge cfg t cost 0 b of (r, b, _) \<Rightarrow> (cr_allowed r, b))"

definition rl_stale :: "rl_config \<Rightarrow> real \<Rightarrow> rl_bucket \<Rightarrow> bool" where
  "rl_stale cfg t b \<longleftrightarrow> bk_reset b \<le> t"

definition same_window :: "rl_bucket \<Rightarrow> rl_bucket \<Rightarrow> bool" where
  "same_window b b' \<longleftrightarrow> bk_points b' = bk_points b \<and> bk_reset b' = bk_reset b"

definition rl_adjust :: "rl_config \<Rightarrow> real \<Rightarrow> rl_bucket option \<Rightarrow> rl_bucket \<Rightarrow> bool" where
  "rl_adjust cfg t x b' \<longleftrightarrow>
     (case x of Some b \<Rightarrow> same_window b b' | None \<Rightarrow> bk_points b' = 0 \<and> bk_reset b' = t + rc_interval cfg)"

definition window_bound :: "rl_config \<Rightarrow> (real \<times> real) list \<Rightarrow> bool" where
  "window_bound cfg h \<longleftrightarrow> (\<forall>a. cost_in (\<lambda>t. a \<le> t \<and> t < a + rc_interval cfg) h \<le> 2 * real (rc_points cfg))"

text \<open>A window that began at \<open>start\<close> and has \<open>left\<close> to give.\<close>

definition window_ok :: "rl_config \<Rightarrow> real \<Rightarrow> real \<Rightarrow> (real \<times> real) list \<Rightarrow> bool" where
  "window_ok cfg start left h \<longleftrightarrow> 0 \<le> left \<and> left \<le> real (rc_points cfg) \<and>
     (\<forall>p \<in> set h. fst p < start + rc_interval cfg) \<and>
     cost_in (\<lambda>t. start \<le> t) h \<le> real (rc_points cfg) - left \<and>
     (\<forall>a \<ge> start - rc_interval cfg. cost_in (\<lambda>t. a \<le> t \<and> t < start) h \<le> real (rc_points cfg))"

definition rl_good :: "rl_config \<Rightarrow> real \<Rightarrow> rl_bucket option \<Rightarrow> (real \<times> real) list \<Rightarrow> bool" where
  "rl_good cfg now x h \<longleftrightarrow> 0 < rc_interval cfg \<longrightarrow>
     (\<forall>p \<in> set h. 0 \<le> snd p \<and> fst p \<le> now) \<and> window_bound cfg h \<and>
     (case x of
        None \<Rightarrow> (\<forall>p \<in> set h. fst p < now) \<and> (\<forall>a \<ge> now - rc_interval cfg. cost_in (\<lambda>t. a \<le> t) h \<le> real (rc_points cfg))
      | Some b \<Rightarrow> bk_reset b - rc_interval cfg \<le> now \<and> window_ok cfg (bk_reset b - rc_interval cfg) (bk_points b) h)"

lemma cost_le: "\<forall>p \<in> set h. 0 \<le> snd p \<and> fst p \<le> (now::real) \<Longrightarrow> \<forall>p \<in> set h. P (fst p) \<longrightarrow> Q (fst p) \<Longrightarrow> cost_in P h \<le> cost_in Q h"
  by (rule cost_in_mono) auto

lemma fresh_window:
  assumes "\<forall>p \<in> set h. 0 \<le> snd p \<and> fst p \<le> now" and "\<forall>p \<in> set h. fst p < now" and "0 < rc_interval cfg"
    and "\<forall>a \<ge> now - rc_interval cfg. cost_in (\<lambda>t. a \<le> t) h \<le> real (rc_points cfg)" and "0 \<le> left" "left \<le> real (rc_points cfg)"
  shows "window_ok cfg now left h"
proof -
  have "cost_in (\<lambda>t. now \<le> t) h = 0" using assms(2) by (intro cost_in_none) auto
  moreover have "cost_in (\<lambda>t. a \<le> t \<and> t < now) h \<le> real (rc_points cfg)" if "now - rc_interval cfg \<le> a" for a
  proof -
    have "cost_in (\<lambda>t. a \<le> t \<and> t < now) h \<le> cost_in (\<lambda>t. a \<le> t) h" using assms(1) by (rule cost_le) simp
    then show ?thesis using assms(4) that by fastforce
  qed
  ultimately show ?thesis using assms by (fastforce simp: window_ok_def)
qed

text \<open>Once the window has ended.\<close>

lemma ended_window:
  assumes w: "window_ok cfg start left h" and u: "\<forall>p \<in> set h. 0 \<le> snd p \<and> fst p \<le> now" and ended: "start + rc_interval cfg \<le> now"
  shows "\<forall>p \<in> set h. fst p < now" and "\<forall>a \<ge> now - rc_interval cfg. cost_in (\<lambda>t. a \<le> t) h \<le> real (rc_points cfg)"
proof -
  show "\<forall>p \<in> set h. fst p < now" using w ended by (fastforce simp: window_ok_def)
  show "\<forall>a \<ge> now - rc_interval cfg. cost_in (\<lambda>t. a \<le> t) h \<le> real (rc_points cfg)"
  proof (intro allI impI)
    fix a
    assume "now - rc_interval cfg \<le> a"
    then have "cost_in (\<lambda>t. a \<le> t) h \<le> cost_in (\<lambda>t. start \<le> t) h" using u ended by (intro cost_le) auto
    then show "cost_in (\<lambda>t. a \<le> t) h \<le> real (rc_points cfg)" using w by (auto simp: window_ok_def)
  qed
qed

lemma refill_window:
  assumes w: "window_ok cfg (bk_reset b - rc_interval cfg) (bk_points b) h" and u: "\<forall>p \<in> set h. 0 \<le> snd p \<and> fst p \<le> now"
    and pos: "0 < rc_interval cfg" and le: "bk_reset b - rc_interval cfg \<le> now"
  shows "window_ok cfg (bk_reset (rl_refill cfg now b) - rc_interval cfg) (bk_points (rl_refill cfg now b)) h"
    and "bk_reset (rl_refill cfg now b) - rc_interval cfg \<le> now" and "now < bk_reset (rl_refill cfg now b)"
proof -
  show "window_ok cfg (bk_reset (rl_refill cfg now b) - rc_interval cfg) (bk_points (rl_refill cfg now b)) h"
  proof (cases "bk_reset b \<le> now")
    case True
    have e: "bk_reset b - rc_interval cfg + rc_interval cfg \<le> now" using True by simp
    show ?thesis using fresh_window [OF u ended_window(1) [OF w u e] pos ended_window(2) [OF w u e]] True by (simp add: rl_refill_def)
  qed (use w in \<open>simp add: rl_refill_def\<close>)
  show "bk_reset (rl_refill cfg now b) - rc_interval cfg \<le> now" "now < bk_reset (rl_refill cfg now b)"
    using le pos by (auto simp: rl_refill_def)
qed

lemma spend_window:
  assumes w: "window_ok cfg start left h" and u: "\<forall>p \<in> set h. 0 \<le> snd p \<and> fst p \<le> now" and bound: "window_bound cfg h"
    and t: "start \<le> now" "now < start + rc_interval cfg" and c: "0 \<le> c" "c \<le> left"
  shows "window_ok cfg start (left - c) (h @ [(now, c)])" and "window_bound cfg (h @ [(now, c)])"
proof -
  show "window_ok cfg start (left - c) (h @ [(now, c)])" using w t c by (auto simp: window_ok_def)
  show "window_bound cfg (h @ [(now, c)])"
    unfolding window_bound_def
  proof
    fix a
    let ?in = "\<lambda>t. a \<le> t \<and> t < a + rc_interval cfg"
    show "cost_in ?in (h @ [(now, c)]) \<le> 2 * real (rc_points cfg)"
    proof (cases "?in now")
      case False
      then show ?thesis using bound by (auto simp: window_bound_def)
    next
      case True
      have "cost_in (\<lambda>t. ?in t \<and> start \<le> t) h \<le> cost_in (\<lambda>t. start \<le> t) h" using u by (rule cost_le) simp
      moreover have "cost_in (\<lambda>t. start \<le> t) h \<le> real (rc_points cfg) - left" using w by (simp add: window_ok_def)
      moreover have "cost_in (\<lambda>t. ?in t \<and> \<not> start \<le> t) h \<le> cost_in (\<lambda>t. a \<le> t \<and> t < start) h" using u by (rule cost_le) auto
      moreover have "cost_in (\<lambda>t. a \<le> t \<and> t < start) h \<le> real (rc_points cfg)" using w True t by (auto simp: window_ok_def)
      ultimately show ?thesis using cost_in_split [of ?in h "\<lambda>t. start \<le> t"] True c by simp
    qed
  qed
qed

lemma charge_cases:
  assumes "bucket_charge cfg t c seq b = (r, b', seq')"
  obtains (banned) "\<not> cr_allowed r" and "b' = b" and "t < bk_banned b" and "seq' = seq"
  | (spent) "cr_allowed r" and "b' = (rl_refill cfg t b)\<lparr>bk_points := bk_points (rl_refill cfg t b) - c\<rparr>" and "c \<le> bk_points (rl_refill cfg t b)"
      and "\<not> t < bk_banned b" and "seq' = seq"
  | (refused) "\<not> cr_allowed r" and "same_window (rl_refill cfg t b) b'" and "\<not> t < bk_banned b"
      and "b' = rl_refill cfg t b \<and> seq' = seq \<or> bk_seq b' = seq + 1 \<and> seq' = seq + 1"
  using assms by (auto simp: bucket_charge_def Let_def same_window_def split: if_splits)

lemma rl_good_charge:
  assumes good: "rl_good cfg now x h" and cost: "0 \<le> c" and step: "rl_charge cfg now c x = (ok, b')"
  shows "rl_good cfg now (Some b') (if ok then h @ [(now, c)] else h)"
  unfolding rl_good_def
proof (intro impI)
  assume pos: "0 < rc_interval cfg"
  let ?b = "case x of Some b \<Rightarrow> b
    | None \<Rightarrow> \<lparr>bk_points = real (rc_points cfg), bk_reset = now + rc_interval cfg, bk_banned = 0, bk_prev = 0, bk_seq = 0\<rparr>"
  let ?h = "if ok then h @ [(now, c)] else h"
  have u: "\<forall>p \<in> set h. 0 \<le> snd p \<and> fst p \<le> now" and bound: "window_bound cfg h" using good pos by (auto simp: rl_good_def)
  have w: "window_ok cfg (bk_reset ?b - rc_interval cfg) (bk_points ?b) h" and le: "bk_reset ?b - rc_interval cfg \<le> now"
    using good pos fresh_window [OF u _ pos, of "real (rc_points cfg)"] by (auto simp: rl_good_def split: option.splits)
  note re = refill_window [OF w u pos le]
  obtain r seq where "bucket_charge cfg now c 0 ?b = (r, b', seq)" and ok: "ok = cr_allowed r"
    using step by (auto simp: rl_charge_def Let_def split: prod.splits)
  then show "(\<forall>p \<in> set ?h. 0 \<le> snd p \<and> fst p \<le> now) \<and> window_bound cfg ?h \<and>
     (case Some b' of None \<Rightarrow> (\<forall>p \<in> set ?h. fst p < now) \<and> (\<forall>a \<ge> now - rc_interval cfg. cost_in (\<lambda>t. a \<le> t) ?h \<le> real (rc_points cfg))
      | Some b \<Rightarrow> bk_reset b - rc_interval cfg \<le> now \<and> window_ok cfg (bk_reset b - rc_interval cfg) (bk_points b) ?h)"
  proof (cases rule: charge_cases)
    case spent
    have "now < bk_reset (rl_refill cfg now ?b) - rc_interval cfg + rc_interval cfg" using re(3) by simp
    then show ?thesis using spend_window [OF re(1) u bound re(2) _ cost spent(3)] re u spent ok cost by simp
  qed (use u bound w le re ok in \<open>simp_all add: same_window_def\<close>)
qed

interpretation fixed_window: keyed_meter "rl_charge cfg" "rl_stale cfg" "rl_adjust cfg" "rl_good cfg"
    "\<lambda>h. 0 < rc_interval cfg \<longrightarrow> window_bound cfg h" "\<lambda>c. 0 \<le> c" for cfg
proof unfold_locales
  show "rl_good cfg now None []" for now
    by (simp add: rl_good_def window_bound_def)
  show "rl_good cfg n x h" if "rl_good cfg now x h" "now \<le> n" for now n x h
    using that by (force simp: rl_good_def split: option.splits)
  show "rl_good cfg now (Some e') (if ok then h @ [(now, c)] else h)"
    if "rl_good cfg now x h" "0 \<le> c" "rl_charge cfg now c x = (ok, e')" for now x h c ok e'
    using rl_good_charge that by blast
  show "rl_good cfg now None h" if "rl_good cfg now (Some e) h" "rl_stale cfg now e" for now e h
    using that ended_window [of cfg "bk_reset e - rc_interval cfg" "bk_points e" h now] by (auto simp: rl_good_def rl_stale_def)
  show "rl_good cfg now (Some e') h" if "rl_good cfg now x h" "rl_adjust cfg now x e'" for now x h e'
    using that fresh_window [of h now cfg 0] by (auto simp: rl_good_def rl_adjust_def same_window_def split: option.splits)
qed (auto simp: rl_good_def)

section \<open>Eviction\<close>

definition newer_ban :: "js_string \<Rightarrow> nat \<Rightarrow> (nat \<times> js_string) option \<Rightarrow> (nat \<times> js_string) option" where
  "newer_ban k seq banned = (case banned of None \<Rightarrow> Some (seq, k) | Some (q, _) \<Rightarrow> if q < seq then Some (seq, k) else banned)"

lemma visit_on_ban: "t < bk_banned b \<Longrightarrow> rl_visit cfg t (k, b) (victim, banned) = (False, victim, newer_ban k (bk_seq b) banned)"
  by (simp add: rl_visit_def newer_ban_def)

lemma visit_on_free:
  assumes "\<not> t < bk_banned b"
  obtains stop x y k' where "rl_visit cfg t (k, b) (victim, banned) = (stop, Some (x, y, k'), banned)"
    and "k' = k \<or> victim = Some (x, y, k')"
proof (cases victim)
  case None
  then show ?thesis using that assms by (simp add: rl_visit_def Let_def)
next
  case (Some v)
  obtain x y k' where v: "v = (x, y, k')" by (cases v)
  show ?thesis
    using that [of "activity cfg b t = 0 \<and> bk_reset b \<le> t" "activity cfg b t" "bk_reset b \<le> t" k]
      that [of "activity cfg b t = 0 \<and> bk_reset b \<le> t" x y k'] assms Some v
    by (cases "activity cfg b t < x \<or> (activity cfg b t = x \<and> bk_reset b \<le> t \<and> \<not> y)") (auto simp: rl_visit_def Let_def)
qed

lemma victim_stays: "\<exists>w bs. visit_all (rl_visit cfg t) ps (Some v, banned) = (Some w, bs)"
proof (induction ps arbitrary: v banned)
  case (Cons p ps)
  obtain k b where p: "p = (k, b)" by fastforce
  show ?case
  proof (cases "t < bk_banned b")
    case True
    then show ?thesis using Cons.IH by (simp add: p visit_on_ban)
  next
    case False
    then obtain stop x y k' where "rl_visit cfg t (k, b) (Some v, banned) = (stop, Some (x, y, k'), banned)" by (rule visit_on_free)
    then show ?thesis using Cons.IH by (cases stop) (simp_all add: p)
  qed
qed auto

lemma visit_banned_only:
  assumes "visit_all (rl_visit cfg t) ps (None, banned) = (None, Some (q, k))"
  shows "(\<forall>p \<in> set ps. t < bk_banned (snd p) \<and> bk_seq (snd p) \<le> q) \<and> (case banned of Some (q0, _) \<Rightarrow> q0 \<le> q | None \<Rightarrow> True) \<and>
    (banned = Some (q, k) \<or> (\<exists>b. (k, b) \<in> set ps \<and> bk_seq b = q))"
  using assms
proof (induction ps arbitrary: banned)
  case (Cons p ps)
  obtain k' b where p: "p = (k', b)" by fastforce
  show ?case
  proof (cases "t < bk_banned b")
    case False
    then obtain stop x y k'' where "rl_visit cfg t (k', b) (None, banned) = (stop, Some (x, y, k''), banned)" by (rule visit_on_free)
    then show ?thesis using Cons.prems victim_stays [of cfg t ps "(x, y, k'')" banned] by (cases stop) (auto simp: p)
  next
    case True
    have "visit_all (rl_visit cfg t) ps (None, newer_ban k' (bk_seq b) banned) = (None, Some (q, k))"
      using Cons.prems True by (simp add: p visit_on_ban)
    from Cons.IH [OF this] show ?thesis using True by (auto simp: p newer_ban_def split: option.splits if_splits)
  qed
qed simp

lemma visit_victim:
  assumes "visit_all (rl_visit cfg t) ps (victim, banned) = (Some (x, y, k), z)"
  shows "(\<exists>b. (k, b) \<in> set ps \<and> \<not> t < bk_banned b) \<or> victim = Some (x, y, k)"
  using assms
proof (induction ps arbitrary: victim banned)
  case (Cons p ps)
  obtain k' b where p: "p = (k', b)" by fastforce
  show ?case
  proof (cases "t < bk_banned b")
    case True
    then show ?thesis using Cons.prems Cons.IH [of victim "newer_ban k' (bk_seq b) banned"] by (auto simp: p visit_on_ban)
  next
    case False
    then obtain stop x' y' k'' where v: "rl_visit cfg t (k', b) (victim, banned) = (stop, Some (x', y', k''), banned)"
      "k'' = k' \<or> victim = Some (x', y', k'')" by (rule visit_on_free)
    show ?thesis
    proof (cases stop)
      case True
      then show ?thesis using Cons.prems False v by (auto simp: p)
    next
      case go: False
      then show ?thesis using Cons.prems Cons.IH [of "Some (x', y', k'')" banned] False v by (auto simp: p)
    qed
  qed
qed simp

lemma ban_stays: "banned \<noteq> None \<Longrightarrow> visit_all (rl_visit cfg t) ps (victim, banned) \<noteq> (None, None)"
proof (induction ps arbitrary: victim banned)
  case (Cons p ps)
  obtain k b where p: "p = (k, b)" by fastforce
  show ?case
  proof (cases "t < bk_banned b")
    case True
    then show ?thesis using Cons.IH [of "newer_ban k (bk_seq b) banned" victim] Cons.prems
      by (auto simp: p visit_on_ban newer_ban_def split: option.splits)
  next
    case False
    then obtain stop x y k' where "rl_visit cfg t (k, b) (victim, banned) = (stop, Some (x, y, k'), banned)" by (rule visit_on_free)
    then show ?thesis using Cons.IH [of banned "Some (x, y, k')"] Cons.prems by (cases stop) (simp_all add: p)
  qed
qed simp

lemma visit_nothing:
  assumes "visit_all (rl_visit cfg t) ps (None, None) = (None, None)"
  shows "ps = []"
proof (cases ps)
  case (Cons p qs)
  obtain k b where p: "p = (k, b)" by fastforce
  show ?thesis
  proof (cases "t < bk_banned b")
    case True
    then show ?thesis using assms ban_stays [of "Some (bk_seq b, k)" cfg t qs None] by (simp add: Cons p visit_on_ban newer_ban_def)
  next
    case False
    then obtain stop x y k' where "rl_visit cfg t (k, b) (None, None) = (stop, Some (x, y, k'), None)" by (rule visit_on_free)
    then show ?thesis using assms victim_stays [of cfg t qs "(x, y, k')" None] by (cases stop) (auto simp: Cons p)
  qed
qed simp

text \<open>What an eviction does: it takes an entry whenever there is one, an unbanned one if it sampled any,
  and otherwise the newest ban of its sample.\<close>

lemma rl_evict_cases:
  assumes "rl_evict_one cfg t s = (evicted, s')" and "jm_wf (rl_buckets s)" and "0 < rc_sample cfg"
  obtains (empty) "rl_buckets s = []" and "evicted = None" and "s' = s\<lparr>rl_cursor := rl_cursor s'\<rparr>"
  | (gone) k b where "jm_get (rl_buckets s) k = Some b" and "evicted = Some (k, t < bk_banned b)"
      and "rl_buckets s' = jm_del k (rl_buckets s)" and "s' = (rl_drop k (t < bk_banned b) (Some 0) s)\<lparr>rl_cursor := rl_cursor s'\<rparr>"
      and "t < bk_banned b \<Longrightarrow> 2 \<le> rc_sample cfg \<Longrightarrow> 2 \<le> jm_size (rl_buckets s) \<Longrightarrow>
        \<exists>k' b'. k' \<noteq> k \<and> jm_get (rl_buckets s) k' = Some b' \<and> t < bk_banned b' \<and> bk_seq b' \<le> bk_seq b"
proof -
  let ?m = "rl_buckets s"
  let ?is = "visits (rc_sample cfg) (length ?m) 0 0 (rl_cursor s)"
  let ?ps = "map ((!) ?m) ?is"
  obtain cur victim banned where loop: "sample_loop (rl_visit cfg t) (rc_sample cfg) ?m 0 0 (rl_cursor s) (None, None) = (cur, victim, banned)"
    by (metis prod.exhaust)
  have acc: "visit_all (rl_visit cfg t) ?ps (None, None) = (victim, banned)"
    using sample_loop_visits [of "rl_visit cfg t" "rc_sample cfg" ?m 0 0 "rl_cursor s" "(None, None)"] loop by simp
  have sub: "set ?ps \<subseteq> set ?m" using visits_bound [of "rc_sample cfg" "length ?m" 0 0 "rl_cursor s"] by auto
  have get: "jm_get ?m k = Some b" if "(k, b) \<in> set ?ps" for k b using sub that assms(2) by (auto intro: jm_mem_get)
  show ?thesis
  proof (cases victim)
    case (Some v)
    obtain x y k where v: "v = (x, y, k)" by (cases v)
    then obtain b where b: "(k, b) \<in> set ?ps" "\<not> t < bk_banned b" using visit_victim [of cfg t ?ps None None x y k banned] acc Some by auto
    have "evicted = Some (k, False)" "s' = rl_drop k False cur s" using assms(1) loop Some v by (simp_all add: rl_evict_one_def)
    then show ?thesis using gone [OF get [OF b(1)]] b(2) by (simp add: rl_drop_def)
  next
    case None
    show ?thesis
    proof (cases banned)
      case None
      then have "?is = []" using visit_nothing [of cfg t ?ps] acc \<open>victim = None\<close> by simp
      then have "?m = []" using visits_some [OF assms(3), of "length ?m"] by (cases "?m = []") auto
      moreover have "evicted = None" "s' = s\<lparr>rl_cursor := cur\<rparr>" using assms(1) loop \<open>victim = None\<close> None by (simp_all add: rl_evict_one_def)
      ultimately show ?thesis using empty by simp
    next
      case (Some v)
      obtain q k where v: "v = (q, k)" by fastforce
      have all: "\<forall>p \<in> set ?ps. t < bk_banned (snd p) \<and> bk_seq (snd p) \<le> q" and "\<exists>b. (k, b) \<in> set ?ps \<and> bk_seq b = q"
        using visit_banned_only [of cfg t ?ps None q k] acc None Some v by auto
      then obtain b where b: "(k, b) \<in> set ?ps" "bk_seq b = q" by blast
      then have ban: "t < bk_banned b" using all by fastforce
      have e: "evicted = Some (k, True)" "s' = rl_drop k True cur s" using assms(1) loop None Some v by (simp_all add: rl_evict_one_def)
      have "\<exists>k' b'. k' \<noteq> k \<and> jm_get ?m k' = Some b' \<and> t < bk_banned b' \<and> bk_seq b' \<le> bk_seq b"
        if two: "2 \<le> rc_sample cfg" "2 \<le> jm_size ?m"
      proof -
        obtain i j rest where ij: "?is = i # j # rest" "i \<noteq> j" using visits_two [OF two, of "rl_cursor s"] by auto
        have len: "i < length ?m" "j < length ?m" using visits_bound [of "rc_sample cfg" "length ?m" 0 0 "rl_cursor s"] ij(1) by auto
        have "fst (?m ! i) \<noteq> fst (?m ! j)"
          using assms(2) ij(2) len nth_eq_iff_index_eq [of "jm_keys ?m" i j] by (simp add: jm_wf_def jm_keys_def)
        then obtain p where p: "p \<in> set ?ps" "fst p \<noteq> k" using ij(1) by (metis list.set_intros(1) list.set_intros(2) list.simps(9))
        then show ?thesis using all b(2) get [of "fst p" "snd p"] by auto
      qed
      then show ?thesis using gone [OF get [OF b(1)]] ban e by (simp add: rl_drop_def)
    qed
  qed
qed

section \<open>The table\<close>

lemma conns_of_keys:
  shows "rl_buckets (snd (consume_key cfg ws s)) = rl_buckets s" and "rl_cursor (snd (consume_key cfg ws s)) = rl_cursor s"
    and "rl_ban_seq (snd (consume_key cfg ws s)) = rl_ban_seq s" and "rl_allowed (snd (consume_key cfg ws s)) = rl_allowed s"
    and "rl_evicted (snd (consume_key cfg ws s)) = rl_evicted s"
  by (auto simp: consume_key_def principal_bucket_key_def resolve_raw_key_def attribution_tenant_def Let_def
      split: option.split key_by.split user_data_read.split sum.split)

definition rl_ok :: "rl_config \<Rightarrow> rl_state \<Rightarrow> bool" where
  "rl_ok cfg s \<longleftrightarrow> jm_wf (rl_buckets s) \<and> jm_size (rl_buckets s) \<le> rc_max cfg \<and>
     (\<forall>k b. jm_get (rl_buckets s) k = Some b \<longrightarrow> bk_seq b \<le> rl_ban_seq s)"

definition rl_config_ok :: "rl_config \<Rightarrow> bool" where
  "rl_config_ok cfg \<longleftrightarrow> 0 < rc_max cfg \<and> 0 < rc_sample cfg \<and> 0 < rc_interval cfg"

lemma create_ok: "create_rate_limit p i b kb tn sh m n ev = Inr cfg \<Longrightarrow> rl_config_ok cfg"
  by (auto simp: create_rate_limit_def rl_config_ok_def split: option.splits if_splits)

definition new_bucket :: "rl_config \<Rightarrow> real \<Rightarrow> real \<Rightarrow> rl_bucket" where
  "new_bucket cfg points t = \<lparr>bk_points = points, bk_reset = t + rc_interval cfg, bk_banned = 0, bk_prev = 0, bk_seq = 0\<rparr>"

lemma put_ok:
  assumes "rl_ok cfg s" and "jm_get (rl_buckets s) k = None \<Longrightarrow> jm_size (rl_buckets s) < rc_max cfg" and "bk_seq b \<le> seq" and "rl_ban_seq s \<le> seq"
  shows "rl_ok cfg (s\<lparr>rl_buckets := jm_set k b (rl_buckets s), rl_ban_seq := seq\<rparr>)"
proof -
  have "jm_size (jm_set k b (rl_buckets s)) \<le> rc_max cfg" using assms(1,2) by (auto simp: length_jm_set rl_ok_def)
  moreover have "bk_seq b' \<le> seq" if "jm_get (jm_set k b (rl_buckets s)) k' = Some b'" for k' b'
    using that assms(1,3,4) unfolding rl_ok_def by (cases "k' = k") (auto intro: order_trans)
  ultimately show ?thesis using assms(1) by (simp add: rl_ok_def)
qed

lemma put_new_ok:
  assumes "rl_ok cfg s" and "jm_size (rl_buckets s) < rc_max cfg"
  shows "rl_ok cfg (s\<lparr>rl_buckets := jm_set k (new_bucket cfg points t) (rl_buckets s)\<rparr>)"
  using put_ok [OF assms(1), of k "new_bucket cfg points t" "rl_ban_seq s"] assms(2) by (simp add: new_bucket_def)

lemma rl_enter_keeps:
  assumes ok: "rl_ok cfg s" and cfg: "rl_config_ok cfg" and e: "rl_enter cfg key points t s = (b, evicted, s')"
  shows "rl_ok cfg s'" and "jm_get (rl_buckets s') key = Some b" and "b = (case jm_get (rl_buckets s) key of None \<Rightarrow> new_bucket cfg points t | Some b \<Rightarrow> b)"
    and "rl_ban_seq s' = rl_ban_seq s" and "rl_allowed s' = rl_allowed s"
    and "rl_evicted s' = rl_evicted s @ (case evicted of None \<Rightarrow> [] | Some e \<Rightarrow> [e])"
    and "k \<noteq> key \<Longrightarrow> jm_get (rl_buckets s') k = jm_get (rl_buckets s) k \<or>
      (\<exists>b. jm_get (rl_buckets s) k = Some b \<and> evicted = Some (k, t < bk_banned b) \<and> jm_get (rl_buckets s') k = None \<and>
        (t < bk_banned b \<longrightarrow> 2 \<le> rc_sample cfg \<longrightarrow> 2 \<le> rc_max cfg \<longrightarrow>
          (\<exists>k' b'. k' \<noteq> k \<and> jm_get (rl_buckets s) k' = Some b' \<and> t < bk_banned b' \<and> bk_seq b' \<le> bk_seq b)))"
proof -
  have all: "rl_ok cfg s' \<and> jm_get (rl_buckets s') key = Some b \<and> b = (case jm_get (rl_buckets s) key of None \<Rightarrow> new_bucket cfg points t | Some b \<Rightarrow> b) \<and>
      rl_ban_seq s' = rl_ban_seq s \<and> rl_allowed s' = rl_allowed s \<and>
      rl_evicted s' = rl_evicted s @ (case evicted of None \<Rightarrow> [] | Some e \<Rightarrow> [e]) \<and>
      (\<forall>k. k \<noteq> key \<longrightarrow> jm_get (rl_buckets s') k = jm_get (rl_buckets s) k \<or>
      (\<exists>b. jm_get (rl_buckets s) k = Some b \<and> evicted = Some (k, t < bk_banned b) \<and> jm_get (rl_buckets s') k = None \<and>
        (t < bk_banned b \<longrightarrow> 2 \<le> rc_sample cfg \<longrightarrow> 2 \<le> rc_max cfg \<longrightarrow>
          (\<exists>k' b'. k' \<noteq> k \<and> jm_get (rl_buckets s) k' = Some b' \<and> t < bk_banned b' \<and> bk_seq b' \<le> bk_seq b))))"
  proof (cases "jm_get (rl_buckets s) key")
    case (Some b0)
    then show ?thesis using e ok by (simp add: rl_enter_def)
  next
    case None
    have wf: "jm_wf (rl_buckets s)" using ok by (simp add: rl_ok_def)
    show ?thesis
    proof (cases "rc_max cfg \<le> jm_size (rl_buckets s)")
      case False
      then have r: "evicted = None" "b = new_bucket cfg points t" "s' = s\<lparr>rl_buckets := jm_set key b (rl_buckets s)\<rparr>"
        using e None by (auto simp: rl_enter_def Let_def new_bucket_def)
      show ?thesis unfolding r using put_new_ok [OF ok, of key points t] False None by simp
    next
      case full: True
      obtain ev0 s1 where ev0: "rl_evict_one cfg t s = (ev0, s1)" by fastforce
      have ev: "rl_evict_one cfg t s = (evicted, s1)" and s': "s' = s1\<lparr>rl_buckets := jm_set key b (rl_buckets s1)\<rparr>" "b = new_bucket cfg points t"
        using e None full ev0 by (auto simp: rl_enter_def Let_def new_bucket_def)
      have "0 < rc_sample cfg" using cfg by (simp add: rl_config_ok_def)
      from ev wf this show ?thesis
      proof (cases rule: rl_evict_cases)
        case empty
        then show ?thesis using full cfg by (simp add: rl_config_ok_def)
      next
        case (gone k0 b0)
        have size: "jm_size (rl_buckets s) = rc_max cfg" using full ok by (simp add: rl_ok_def)
        have s1: "rl_ban_seq s1 = rl_ban_seq s" "rl_allowed s1 = rl_allowed s" "rl_evicted s1 = rl_evicted s @ [(k0, t < bk_banned b0)]"
          by (subst gone(4), simp add: rl_drop_def)+
        have smaller: "jm_size (rl_buckets s1) < rc_max cfg" using gone(1) size cfg by (simp add: gone(3) length_jm_del [OF wf] rl_config_ok_def)
        then have "rl_ok cfg s1" using ok by (auto simp: rl_ok_def s1 gone(3) split: if_splits)
        then have "rl_ok cfg s'" using put_new_ok smaller by (simp add: s')
        then show ?thesis using gone(1,2,5) None size by (auto simp: s' s1 gone(3))
      qed
    qed
  qed
  then show "rl_ok cfg s'" "jm_get (rl_buckets s') key = Some b" "b = (case jm_get (rl_buckets s) key of None \<Rightarrow> new_bucket cfg points t | Some b \<Rightarrow> b)"
    "rl_ban_seq s' = rl_ban_seq s" "rl_allowed s' = rl_allowed s" "rl_evicted s' = rl_evicted s @ (case evicted of None \<Rightarrow> [] | Some e \<Rightarrow> [e])"
    "k \<noteq> key \<Longrightarrow> jm_get (rl_buckets s') k = jm_get (rl_buckets s) k \<or>
      (\<exists>b. jm_get (rl_buckets s) k = Some b \<and> evicted = Some (k, t < bk_banned b) \<and> jm_get (rl_buckets s') k = None \<and>
        (t < bk_banned b \<longrightarrow> 2 \<le> rc_sample cfg \<longrightarrow> 2 \<le> rc_max cfg \<longrightarrow>
          (\<exists>k' b'. k' \<noteq> k \<and> jm_get (rl_buckets s) k' = Some b' \<and> t < bk_banned b' \<and> bk_seq b' \<le> bk_seq b)))"
    by blast+
qed

lemma cleanup_keeps:
  assumes "rl_ok cfg s"
  shows "rl_ok cfg (rl_cleanup t s)" and "rl_ban_seq (rl_cleanup t s) = rl_ban_seq s" and "rl_allowed (rl_cleanup t s) = rl_allowed s"
    and "rl_evicted (rl_cleanup t s) = rl_evicted s"
    and "jm_get (rl_buckets (rl_cleanup t s)) k = jm_get (rl_buckets s) k \<or>
      (\<exists>b. jm_get (rl_buckets s) k = Some b \<and> bk_reset b \<le> t \<and> bk_banned b \<le> t \<and> jm_get (rl_buckets (rl_cleanup t s)) k = None)"
proof -
  have wf: "jm_wf (rl_buckets s)" using assms by (simp add: rl_ok_def)
  have "jm_size (rl_buckets (rl_cleanup t s)) \<le> jm_size (rl_buckets s)" by (simp add: rl_cleanup_def Let_def)
  then have "jm_size (rl_buckets (rl_cleanup t s)) \<le> rc_max cfg" using assms unfolding rl_ok_def by linarith
  then show "rl_ok cfg (rl_cleanup t s)"
    using assms wf_filter [OF wf] by (auto simp: rl_cleanup_def Let_def rl_ok_def get_filter [OF wf] split: option.splits if_splits)
  show "rl_ban_seq (rl_cleanup t s) = rl_ban_seq s" "rl_allowed (rl_cleanup t s) = rl_allowed s" "rl_evicted (rl_cleanup t s) = rl_evicted s"
    by (simp_all add: rl_cleanup_def Let_def)
  show "jm_get (rl_buckets (rl_cleanup t s)) k = jm_get (rl_buckets s) k \<or>
      (\<exists>b. jm_get (rl_buckets s) k = Some b \<and> bk_reset b \<le> t \<and> bk_banned b \<le> t \<and> jm_get (rl_buckets (rl_cleanup t s)) k = None)"
    by (auto simp: rl_cleanup_def Let_def get_filter [OF wf] split: option.split)
qed

lemma charge_seq:
  assumes "bucket_charge cfg t c seq b = (r, b', seq')"
  shows "\<exists>b''. rl_charge cfg t c (Some b) = (cr_allowed r, b'') \<and> same_window b'' b'" and "seq \<le> seq'"
    and "bk_seq b \<le> seq \<Longrightarrow> bk_seq b' \<le> seq'"
  using assms by (auto simp: rl_charge_def bucket_charge_def Let_def same_window_def rl_refill_def split: if_splits)

lemma charge_fresh: "rl_charge cfg t c None = rl_charge cfg t c (Some (new_bucket cfg (real (rc_points cfg)) t))"
  by (simp add: rl_charge_def new_bucket_def)

definition rl_history :: "rl_state \<Rightarrow> js_string \<Rightarrow> (real \<times> real) list" where
  "rl_history s k = map snd (filter (\<lambda>p. fst p = k) (rl_allowed s))"

definition rl_tracked :: "rl_config \<Rightarrow> js_string \<Rightarrow> real \<Rightarrow> rl_state \<Rightarrow> bool" where
  "rl_tracked cfg k now s \<longleftrightarrow> rl_ok cfg s \<and>
     (k \<in> fst ` set (rl_evicted s) \<or> fixed_window.metered cfg now (jm_get (rl_buckets s) k) (rl_history s k))"

text \<open>A charge, taken apart.\<close>

lemma consume_cases:
  assumes ok: "rl_ok cfg s" and cfg: "rl_config_ok cfg"
  obtains (nothing) e where "fst (rl_consume cfg ws cost t s) = Inl e" and "rl_buckets (snd (rl_consume cfg ws cost t s)) = rl_buckets s"
      and "rl_ban_seq (snd (rl_consume cfg ws cost t s)) = rl_ban_seq s" and "rl_allowed (snd (rl_consume cfg ws cost t s)) = rl_allowed s"
      and "rl_evicted (snd (rl_consume cfg ws cost t s)) = rl_evicted s"
  | (charged) key c s1 s2 s3 b evicted r b' seq
      where "cost = Some c" and "0 \<le> c" and "s2 = rl_cleanup t s1" and "rl_enter cfg key (real (rc_points cfg)) t s2 = (b, evicted, s3)"
      and "bucket_charge cfg t c (rl_ban_seq s3) b = (r, b', seq)" and "rl_ok cfg s1"
      and "rl_buckets s1 = rl_buckets s" and "rl_ban_seq s1 = rl_ban_seq s" and "rl_allowed s1 = rl_allowed s" and "rl_evicted s1 = rl_evicted s"
      and "fst (rl_consume cfg ws cost t s) = (if listener_ok cfg evicted then Inr r else Inl ListenerThrew)"
      and "snd (rl_consume cfg ws cost t s) = s3\<lparr>rl_buckets := jm_set key b' (rl_buckets s3), rl_ban_seq := seq,
         rl_allowed := (if cr_allowed r then rl_allowed s3 @ [(key, t, c)] else rl_allowed s3)\<rparr>"
      and "fst (consume_key cfg ws s) = Inr key"
proof -
  show ?thesis
  proof (cases "cost = None \<or> (\<exists>c < 0. cost = Some c)")
    case True
    then have "rl_consume cfg ws cost t s = (Inl BadCost, s)" by (auto simp: rl_consume_def)
    then show ?thesis by - (rule nothing, simp_all)
  next
    case False
    then obtain c where c: "cost = Some c" "0 \<le> c" by (cases cost) auto
    obtain k s1 where key: "consume_key cfg ws s = (k, s1)" by (metis prod.exhaust)
    note same = conns_of_keys [of cfg ws s, unfolded key snd_conv]
    show ?thesis
    proof (cases k)
      case (Inl e)
      then have "rl_consume cfg ws cost t s = (Inl e, s1)" using c key by (simp add: rl_consume_def)
      then show ?thesis by - (rule nothing, simp_all add: same)
    next
      case (Inr key')
      obtain b evicted s3 where enter: "rl_enter cfg key' (real (rc_points cfg)) t (rl_cleanup t s1) = (b, evicted, s3)" by (metis prod.exhaust)
      obtain r b' seq where charge: "bucket_charge cfg t c (rl_ban_seq s3) b = (r, b', seq)" by (metis prod.exhaust)
      have "rl_ok cfg s1" using ok same by (simp add: rl_ok_def)
      then show ?thesis
        by (rule charged [OF c refl enter charge _ same(1,3,4,5)]) (use c key Inr enter charge in \<open>simp_all add: rl_consume_def\<close>)
    qed
  qed
qed

lemma consume_ok:
  assumes ok: "rl_ok cfg s" and cfg: "rl_config_ok cfg"
  shows "rl_ok cfg (snd (rl_consume cfg ws cost t s))"
  using ok cfg
proof (cases rule: consume_cases [of cfg s ws cost t])
  case (nothing e)
  then show ?thesis using ok by (simp add: rl_ok_def)
next
  case (charged key c s1 s2 s3 b evicted r b' seq)
  have ok2: "rl_ok cfg s2" using cleanup_keeps(1) charged(6) by (simp add: charged(3))
  note keeps = rl_enter_keeps [OF ok2 cfg charged(4)]
  have "bk_seq b \<le> rl_ban_seq s3" using keeps(1,2) by (auto simp: rl_ok_def)
  then have "rl_ok cfg (s3\<lparr>rl_buckets := jm_set key b' (rl_buckets s3), rl_ban_seq := seq\<rparr>)"
    using put_ok [OF keeps(1), of key b' seq] keeps(2) charge_seq(2,3) [OF charged(5)] by simp
  then show ?thesis by (simp add: charged(12) rl_ok_def)
qed

lemma ban_cases:
  obtains (nothing) "snd (rl_ban cfg key dur tenant t s) = s"
  | (banned) k b evicted s1 u where "rl_enter cfg k 0 t s = (b, evicted, s1)" and "admin_bucket_key cfg key tenant = Inr k"
      and "snd (rl_ban cfg key dur tenant t s) =
        s1\<lparr>rl_buckets := jm_set k (b\<lparr>bk_banned := u, bk_seq := rl_ban_seq s1 + 1\<rparr>) (rl_buckets s1), rl_ban_seq := rl_ban_seq s1 + 1\<rparr>"
proof (cases "admin_bucket_key cfg key tenant")
  case (Inl e)
  then have "snd (rl_ban cfg key dur tenant t s) = s" by (simp add: rl_ban_def Let_def)
  then show ?thesis by (rule nothing)
next
  case (Inr k)
  obtain b evicted s1 where "rl_enter cfg k 0 t s = (b, evicted, s1)" by (metis prod.exhaust)
  then show ?thesis using Inr by (intro banned) (simp_all add: rl_ban_def Let_def)
qed

lemma ban_ok:
  assumes ok: "rl_ok cfg s" and cfg: "rl_config_ok cfg"
  shows "rl_ok cfg (snd (rl_ban cfg key dur tenant t s))"
proof (cases rule: ban_cases [of cfg key dur tenant t s])
  case nothing
  then show ?thesis using ok by simp
next
  case (banned k b evicted s1 u)
  note keeps = rl_enter_keeps [OF ok cfg banned(1)]
  show ?thesis using put_ok [OF keeps(1), of k _ "rl_ban_seq s1 + 1"] keeps(2) by (simp add: banned(3))
qed

lemma unban_ok:
  assumes ok: "rl_ok cfg s"
  shows "rl_ok cfg (snd (rl_unban cfg key tenant s))"
proof (cases "admin_bucket_key cfg key tenant")
  case (Inr k)
  show ?thesis
  proof (cases "jm_get (rl_buckets s) k")
    case (Some b)
    have "bk_seq b \<le> rl_ban_seq s" using ok Some by (auto simp: rl_ok_def)
    then show ?thesis using put_ok [OF ok, of k "b\<lparr>bk_banned := 0\<rparr>" "rl_ban_seq s"] Some Inr by (simp add: rl_unban_def)
  qed (use ok Inr in \<open>simp add: rl_unban_def\<close>)
qed (use ok in \<open>simp add: rl_unban_def\<close>)

lemma shrink_ok:
  assumes "rl_ok cfg s" and "jm_wf m" and "jm_size m \<le> jm_size (rl_buckets s)" and "\<forall>k. jm_get m k = None \<or> jm_get m k = jm_get (rl_buckets s) k"
    and "rl_buckets s' = m" and "rl_ban_seq s' = rl_ban_seq s"
  shows "rl_ok cfg s'"
  using assms unfolding rl_ok_def by (metis option.distinct(1) order_trans)

lemma reset_ok:
  assumes "rl_ok cfg s"
  shows "rl_ok cfg (snd (rl_reset cfg key tenant s))"
proof (cases "admin_bucket_key cfg key tenant")
  case (Inr k)
  have "jm_wf (jm_del k (rl_buckets s))" using assms by (simp add: rl_ok_def)
  from shrink_ok [OF assms this] show ?thesis using assms Inr by (simp add: rl_reset_def length_jm_del_le)
qed (use assms in \<open>simp add: rl_reset_def\<close>)

lemma clear_ok:
  assumes ok: "rl_ok cfg s"
  shows "rl_ok cfg (rl_clear cfg tenant s)"
proof (cases "tenant_text tenant = []")
  case True
  then show ?thesis by (simp add: rl_clear_def Let_def rl_ok_def)
next
  case False
  let ?m = "if rc_shared cfg then jm_del (tenant_text tenant) (rl_buckets s) else rl_buckets s"
  let ?m' = "filter (\<lambda>p. \<not> starts_with (tenant_text tenant @ [0]) (fst p)) ?m"
  have wf: "jm_wf ?m" using ok by (simp add: rl_ok_def)
  have "jm_size ?m' \<le> jm_size ?m" by (rule length_filter_le)
  also have "\<dots> \<le> jm_size (rl_buckets s)" by (simp add: length_jm_del_le)
  finally have le: "jm_size ?m' \<le> jm_size (rl_buckets s)" .
  have "\<forall>k. jm_get ?m' k = None \<or> jm_get ?m' k = jm_get (rl_buckets s) k"
    by (auto simp: get_filter [OF wf] split: option.split)
  from shrink_ok [OF ok wf_filter [OF wf] le this] show ?thesis using False by (simp add: rl_clear_def Let_def)
qed

lemma rl_step_ok: "rl_ok cfg s \<Longrightarrow> rl_config_ok cfg \<Longrightarrow> rl_ok cfg (rl_step cfg s e)"
  by (cases e) (simp_all add: consume_ok ban_ok unban_ok reset_ok clear_ok)

lemma rl_run_ok: "rl_ok cfg s \<Longrightarrow> rl_config_ok cfg \<Longrightarrow> rl_ok cfg (foldl (rl_step cfg) s es)"
  by (induction es arbitrary: s) (simp_all add: rl_step_ok)

lemma new_ok: "rl_ok cfg new_rate_limit"
  by (simp add: rl_ok_def new_rate_limit_def)

text \<open>A concrete limiter for the witnesses: the key of a connection is its number.\<close>

definition demo_key :: "ws_conn \<Rightarrow> js_string" where
  "demo_key ws = [word_of_nat (ws_id ws)]"

definition demo_config :: rl_config where
  "demo_config = \<lparr>rc_points = 1, rc_interval = 10, rc_block = 100, rc_key_by = ByKey demo_key, rc_tenant = None, rc_shared = False,
     rc_max = 2, rc_sample = 2, rc_on_evict = None\<rparr>"

lemma demo_created: "create_rate_limit (Some 1) (Some 10) (Some 100) (ByKey demo_key) None False (Some 2) (Some 2) None = Inr demo_config"
  by (simp add: create_rate_limit_def demo_config_def)

definition demo_conn :: "nat \<Rightarrow> ws_conn" where
  "demo_conn n = \<lparr>ws_id = n, ws_read = NoUserData\<rparr>"

lemmas demo_eval = demo_config_def demo_conn_def demo_key_def rl_consume_def consume_key_def principal_bucket_key_def
  attribution_tenant_def bucket_key_def tenant_text_def rl_enter_def rl_cleanup_def bucket_charge_def rl_refill_def new_rate_limit_def Let_def jm_get_def

text \<open>The limiter never holds more than \<open>maxBuckets\<close> buckets: any run of charges, bans and administrative
  operations stays at the cap, because an insert at the cap always evicts.\<close>

theorem ratelimit_table_bounded:
  assumes "create_rate_limit p i b kb tn sh m n ev = Inr cfg"
  shows "jm_size (rl_buckets (foldl (rl_step cfg) new_rate_limit es)) \<le> rc_max cfg"
  using rl_run_ok [OF new_ok create_ok [OF assms]] by (simp add: rl_ok_def)

theorem ratelimit_table_bounded_witness:
  "jm_size (rl_buckets (foldl (rl_step demo_config) new_rate_limit
     [RlConsume (demo_conn 1) (Some 1) 1, RlBan [2] None None 2, RlConsume (demo_conn 3) (Some 1) 3])) \<le> 2"
  using ratelimit_table_bounded [OF demo_created, of "[RlConsume (demo_conn 1) (Some 1) 1, RlBan [2] None None 2, RlConsume (demo_conn 3) (Some 1) 3]"]
  by (simp add: demo_config_def)

section \<open>The rate of one key\<close>

lemma enter_tracked:
  assumes tracked: "rl_tracked cfg k now s" and cfg: "rl_config_ok cfg" and e: "rl_enter cfg key points now s = (b, evicted, s')"
    and keep: "k \<notin> fst ` set (rl_evicted s')"
  shows "fixed_window.metered cfg now (jm_get (rl_buckets s) k) (rl_history s' k)" and "k \<noteq> key \<Longrightarrow> jm_get (rl_buckets s') k = jm_get (rl_buckets s) k"
proof -
  have ok: "rl_ok cfg s" using tracked by (simp add: rl_tracked_def)
  note keeps = rl_enter_keeps [OF ok cfg e]
  have "k \<notin> fst ` set (rl_evicted s)" using keep keeps(6) by auto
  then show "fixed_window.metered cfg now (jm_get (rl_buckets s) k) (rl_history s' k)"
    using tracked keeps(5) by (simp add: rl_tracked_def rl_history_def)
  show "k \<noteq> key \<Longrightarrow> jm_get (rl_buckets s') k = jm_get (rl_buckets s) k"
    using keeps(6) keeps(7) [of k] keep by force
qed

lemma cleanup_tracked:
  assumes "rl_tracked cfg k now s"
  shows "rl_tracked cfg k now (rl_cleanup now s)"
proof -
  have ok: "rl_ok cfg s" using assms by (simp add: rl_tracked_def)
  note keeps = cleanup_keeps [OF ok, of now]
  have "rl_history (rl_cleanup now s) k = rl_history s k" by (simp add: rl_history_def keeps(3))
  moreover have "fixed_window.metered cfg now (jm_get (rl_buckets (rl_cleanup now s)) k) (rl_history s k)"
    if "fixed_window.metered cfg now (jm_get (rl_buckets s) k) (rl_history s k)"
    using keeps(5) [of k] that fixed_window.forget [of cfg now _ "rl_history s k"] by (auto simp: rl_stale_def)
  ultimately show ?thesis using assms keeps(1) by (auto simp: rl_tracked_def keeps(4))
qed

lemma later_tracked: "rl_tracked cfg k now s \<Longrightarrow> now \<le> t \<Longrightarrow> rl_tracked cfg k t s"
  by (auto simp: rl_tracked_def intro: fixed_window.wait)

lemma consume_tracked:
  assumes tracked: "rl_tracked cfg k now s" and cfg: "rl_config_ok cfg" and time: "now \<le> t"
  shows "rl_tracked cfg k t (snd (rl_consume cfg ws cost t s))"
proof -
  have ok: "rl_ok cfg s" using tracked by (simp add: rl_tracked_def)
  note tr = later_tracked [OF tracked time]
  from ok cfg show ?thesis
  proof (cases rule: consume_cases [of cfg s ws cost t])
    case (nothing e)
    then show ?thesis using tr consume_ok [OF ok cfg] by (simp add: rl_tracked_def rl_history_def)
  next
    case (charged key c s1 s2 s3 b evicted r b' seq)
    let ?s = "snd (rl_consume cfg ws cost t s)"
    have "rl_tracked cfg k t s1" using tr charged(6-10) by (simp add: rl_tracked_def rl_history_def)
    then have tr2: "rl_tracked cfg k t s2" using cleanup_tracked charged(3) by simp
    then have ok2: "rl_ok cfg s2" by (simp add: rl_tracked_def)
    note keeps = rl_enter_keeps [OF ok2 cfg charged(4)]
    have "fixed_window.metered cfg t (jm_get (rl_buckets ?s) k) (rl_history ?s k)" if "k \<notin> fst ` set (rl_evicted s3)"
    proof -
      note en = enter_tracked [OF tr2 cfg charged(4) that]
      show ?thesis
      proof (cases "k = key")
        case False
        then have "rl_history ?s k = rl_history s3 k" "jm_get (rl_buckets ?s) k = jm_get (rl_buckets s2) k"
          using en(2) by (simp_all add: charged(12) rl_history_def)
        then show ?thesis using en(1) by simp
      next
        case True
        obtain b'' where c: "rl_charge cfg t c (Some b) = (cr_allowed r, b'')" "same_window b'' b'" using charge_seq(1) [OF charged(5)] by blast
        have "rl_charge cfg t c (jm_get (rl_buckets s2) k) = (cr_allowed r, b'')"
          using c(1) keeps(3) True by (auto simp: charge_fresh split: option.splits)
        from fixed_window.charge [OF en(1) charged(2) this]
        have "fixed_window.metered cfg t (Some b'') (rl_history ?s k)" using True by (simp add: charged(12) rl_history_def split: if_splits)
        then have "fixed_window.metered cfg t (Some b') (rl_history ?s k)" by (rule fixed_window.adjust) (use c(2) in \<open>simp add: rl_adjust_def\<close>)
        then show ?thesis using True by (simp add: charged(12))
      qed
    qed
    moreover have "rl_evicted ?s = rl_evicted s3" by (simp add: charged(12))
    ultimately show ?thesis using consume_ok [OF ok cfg] unfolding rl_tracked_def by metis
  qed
qed

lemma ban_tracked:
  assumes tracked: "rl_tracked cfg k now s" and cfg: "rl_config_ok cfg" and time: "now \<le> t"
  shows "rl_tracked cfg k t (snd (rl_ban cfg key dur tenant t s))"
proof -
  have ok: "rl_ok cfg s" using tracked by (simp add: rl_tracked_def)
  note tr = later_tracked [OF tracked time]
  show ?thesis
  proof (cases rule: ban_cases [of cfg key dur tenant t s])
    case nothing
    then show ?thesis using tr by simp
  next
    case (banned key' b evicted s1 u)
    let ?s = "snd (rl_ban cfg key dur tenant t s)"
    note keeps = rl_enter_keeps [OF ok cfg banned(1)]
    have "fixed_window.metered cfg t (jm_get (rl_buckets ?s) k) (rl_history ?s k)" if "k \<notin> fst ` set (rl_evicted s1)"
    proof -
      note en = enter_tracked [OF tr cfg banned(1) that]
      have h: "rl_history ?s k = rl_history s1 k" by (simp add: banned(3) rl_history_def)
      show ?thesis
      proof (cases "k = key'")
        case False
        then show ?thesis using en h by (simp add: banned(3))
      next
        case True
        have "rl_adjust cfg t (jm_get (rl_buckets s) k) (b\<lparr>bk_banned := u, bk_seq := rl_ban_seq s1 + 1\<rparr>)"
          using keeps(3) True by (auto simp: rl_adjust_def same_window_def new_bucket_def split: option.splits)
        from fixed_window.adjust [OF en(1) this] show ?thesis using True h by (simp add: banned(3))
      qed
    qed
    moreover have "rl_evicted ?s = rl_evicted s1" by (simp add: banned(3))
    ultimately show ?thesis using ban_ok [OF ok cfg] unfolding rl_tracked_def by metis
  qed
qed

lemma unban_tracked:
  assumes tracked: "rl_tracked cfg k now s"
  shows "rl_tracked cfg k now (snd (rl_unban cfg key tenant s))"
proof -
  have ok: "rl_ok cfg s" using tracked by (simp add: rl_tracked_def)
  have cases: "snd (rl_unban cfg key tenant s) = s \<or>
      (\<exists>key' b. jm_get (rl_buckets s) key' = Some b \<and> snd (rl_unban cfg key tenant s) = s\<lparr>rl_buckets := jm_set key' (b\<lparr>bk_banned := 0\<rparr>) (rl_buckets s)\<rparr>)"
    by (auto simp: rl_unban_def split: sum.split option.split)
  then show ?thesis
  proof (elim disjE exE conjE)
    fix key' b
    assume b: "jm_get (rl_buckets s) key' = Some b" and s: "snd (rl_unban cfg key tenant s) = s\<lparr>rl_buckets := jm_set key' (b\<lparr>bk_banned := 0\<rparr>) (rl_buckets s)\<rparr>"
    have "fixed_window.metered cfg now (if k = key' then Some (b\<lparr>bk_banned := 0\<rparr>) else jm_get (rl_buckets s) k) h"
      if "fixed_window.metered cfg now (jm_get (rl_buckets s) k) h" for h
      using that b fixed_window.adjust [OF that, of "b\<lparr>bk_banned := 0\<rparr>"] by (auto simp: rl_adjust_def same_window_def)
    then show ?thesis using tracked unban_ok [OF ok, of key tenant] s by (auto simp: rl_tracked_def rl_history_def)
  qed (use tracked in simp)
qed

text \<open>Runs with a clock that does not run backwards, in which no bucket is given back by hand.\<close>

fun metered_run :: "real \<Rightarrow> rl_event list \<Rightarrow> bool" where
  "metered_run now [] \<longleftrightarrow> True"
| "metered_run now (RlConsume ws cost t # es) \<longleftrightarrow> now \<le> t \<and> metered_run t es"
| "metered_run now (RlBan key dur tenant t # es) \<longleftrightarrow> now \<le> t \<and> metered_run t es"
| "metered_run now (RlUnban key tenant # es) \<longleftrightarrow> metered_run now es"
| "metered_run now (_ # es) \<longleftrightarrow> False"

lemma run_tracked:
  assumes "metered_run now es" and "rl_config_ok cfg" and "rl_tracked cfg k now s"
  shows "\<exists>n. rl_tracked cfg k n (foldl (rl_step cfg) s es)"
  using assms
  by (induction now es arbitrary: s rule: metered_run.induct)
    (auto simp: consume_tracked ban_tracked unban_tracked)

lemma new_tracked: "rl_tracked cfg k now new_rate_limit"
  using new_ok [of cfg] fixed_window.start [of cfg now] by (simp add: rl_tracked_def new_rate_limit_def rl_history_def)

text \<open>A key that is not evicted or reset draws at most twice its points in any stretch as long as the
  interval, whatever costs it is charged and whatever bans, unbans and sweeps come between.\<close>

theorem ratelimit_window_bound:
  assumes "create_rate_limit p i b kb tn sh m n ev = Inr cfg" and "metered_run now es"
    and "k \<notin> fst ` set (rl_evicted (foldl (rl_step cfg) new_rate_limit es))"
  shows "sum_list (map (snd \<circ> snd) (filter (\<lambda>p. fst p = k \<and> a \<le> fst (snd p) \<and> fst (snd p) < a + rc_interval cfg)
      (rl_allowed (foldl (rl_step cfg) new_rate_limit es)))) \<le> 2 * real (rc_points cfg)"
proof -
  let ?s = "foldl (rl_step cfg) new_rate_limit es"
  note cfg = create_ok [OF assms(1)]
  have "0 < rc_interval cfg \<longrightarrow> window_bound cfg (rl_history ?s k)"
    using run_tracked [OF assms(2) cfg new_tracked, of k] assms(3) fixed_window.metered_bound by (auto simp: rl_tracked_def)
  then have "cost_in (\<lambda>t. a \<le> t \<and> t < a + rc_interval cfg) (rl_history ?s k) \<le> 2 * real (rc_points cfg)"
    using cfg by (simp add: rl_config_ok_def window_bound_def)
  moreover have "cost_in P (map snd (filter (\<lambda>p. fst p = k) ps)) = sum_list (map (snd \<circ> snd) (filter (\<lambda>p. fst p = k \<and> P (fst (snd p))) ps))"
    for P and ps :: "(js_string \<times> real \<times> real) list"
    by (induction ps) auto
  ultimately show ?thesis by (simp add: rl_history_def)
qed

theorem ratelimit_window_bound_witness:
  "sum_list (map (snd \<circ> snd) (filter (\<lambda>p. fst p = [1] \<and> 0 \<le> fst (snd p) \<and> fst (snd p) < 0 + 10)
      (rl_allowed (foldl (rl_step demo_config) new_rate_limit [RlConsume (demo_conn 1) (Some 1) 1, RlConsume (demo_conn 1) (Some 1) 2])))) \<le> 2 * 1"
proof -
  let ?es = "[RlConsume (demo_conn 1) (Some 1) 1, RlConsume (demo_conn 1) (Some 1) 2]"
  have "rl_evicted (foldl (rl_step demo_config) new_rate_limit ?es) = []"
    by (simp add: demo_eval)
  then show ?thesis using ratelimit_window_bound [OF demo_created, of 0 ?es "[1]" 0] by (simp add: demo_config_def)
qed

section \<open>Bans\<close>

text \<open>The bucket of a key whose ban is the oldest of those running.\<close>

definition oldest_ban :: "js_string \<Rightarrow> rl_bucket \<Rightarrow> real \<Rightarrow> rl_state \<Rightarrow> bool" where
  "oldest_ban k b now s \<longleftrightarrow> jm_get (rl_buckets s) k = Some b \<and>
     (\<forall>k' b'. k' \<noteq> k \<longrightarrow> jm_get (rl_buckets s) k' = Some b' \<longrightarrow> now < bk_banned b' \<longrightarrow> bk_seq b < bk_seq b')"

lemma oldestD:
  assumes "oldest_ban k b now s"
  shows "jm_get (rl_buckets s) k = Some b"
    and "k' \<noteq> k \<Longrightarrow> jm_get (rl_buckets s) k' = Some b' \<Longrightarrow> now < bk_banned b' \<Longrightarrow> bk_seq b < bk_seq b'"
  using assms by (auto simp: oldest_ban_def)

lemma oldestI:
  assumes "jm_get (rl_buckets s) k = Some b"
    and "\<And>k' b'. k' \<noteq> k \<Longrightarrow> jm_get (rl_buckets s) k' = Some b' \<Longrightarrow> now < bk_banned b' \<Longrightarrow> bk_seq b < bk_seq b'"
  shows "oldest_ban k b now s"
  using assms by (simp add: oldest_ban_def)

lemma oldest_later:
  assumes "oldest_ban k b now s" and "now \<le> t"
  shows "oldest_ban k b t s"
  using assms unfolding oldest_ban_def by (blast intro: le_less_trans)

lemma oldest_shrink:
  assumes "oldest_ban k b now s" and "jm_get (rl_buckets s') k = jm_get (rl_buckets s) k"
    and "\<And>k'. jm_get (rl_buckets s') k' = jm_get (rl_buckets s) k' \<or> jm_get (rl_buckets s') k' = None"
  shows "oldest_ban k b now s'"
proof -
  have "jm_get (rl_buckets s) k' = Some b'" if "jm_get (rl_buckets s') k' = Some b'" for k' b'
    using assms(3) [of k'] that by auto
  note was = this
  show ?thesis
  proof (rule oldestI)
    show "jm_get (rl_buckets s') k = Some b" using assms(2) oldestD(1) [OF assms(1)] by simp
    show "bk_seq b < bk_seq b'" if "k' \<noteq> k" "jm_get (rl_buckets s') k' = Some b'" "now < bk_banned b'" for k' b'
      using oldestD(2) [OF assms(1) that(1) was [OF that(2)] that(3)] .
  qed
qed

text \<open>An entry at the cap never takes the oldest ban.\<close>

lemma enter_oldest:
  assumes old: "oldest_ban k b0 t s" and ok: "rl_ok cfg s" and cfg: "rl_config_ok cfg" and two: "2 \<le> rc_sample cfg" "2 \<le> rc_max cfg"
    and run: "t < bk_banned b0" and e: "rl_enter cfg key points t s = (b, evicted, s')"
  shows "jm_get (rl_buckets s') k = Some b0" and "k \<notin> fst ` (case evicted of None \<Rightarrow> {} | Some e \<Rightarrow> {e})"
    and "k' \<noteq> key \<Longrightarrow> jm_get (rl_buckets s') k' = jm_get (rl_buckets s) k' \<or> jm_get (rl_buckets s') k' = None"
proof -
  note keeps = rl_enter_keeps [OF ok cfg e] and b0 = oldestD [OF old]
  have here: "k = key \<Longrightarrow> evicted = None \<and> s' = s" using e b0(1) by (simp add: rl_enter_def)
  have same: "jm_get (rl_buckets s') k = jm_get (rl_buckets s) k \<and> (\<forall>x. evicted \<noteq> Some (k, x))"
  proof (cases "k = key")
    case False
    have newer: "\<not> (\<exists>k' b'. k' \<noteq> k \<and> jm_get (rl_buckets s) k' = Some b' \<and> t < bk_banned b' \<and> bk_seq b' \<le> bk_seq b0)"
      using b0(2) by (meson not_less)
    have kept: "jm_get (rl_buckets s') k = jm_get (rl_buckets s) k"
    proof (rule ccontr)
      assume "jm_get (rl_buckets s') k \<noteq> jm_get (rl_buckets s) k"
      then obtain b1 where b1: "jm_get (rl_buckets s) k = Some b1" and drop: "t < bk_banned b1 \<longrightarrow> 2 \<le> rc_sample cfg \<longrightarrow> 2 \<le> rc_max cfg \<longrightarrow>
          (\<exists>k' b'. k' \<noteq> k \<and> jm_get (rl_buckets s) k' = Some b' \<and> t < bk_banned b' \<and> bk_seq b' \<le> bk_seq b1)"
        using keeps(7) [OF False] by blast
      have "b1 = b0" using b1 b0(1) by simp
      then show False using drop newer two run by blast
    qed
    have "evicted \<noteq> Some (k, x)" for x
    proof
      assume ev: "evicted = Some (k, x)"
      then have miss: "jm_get (rl_buckets s) key = None" and full: "rc_max cfg \<le> jm_size (rl_buckets s)"
        using e by (auto simp: rl_enter_def Let_def split: option.splits if_splits)
      obtain ev1 s1 where ev1: "rl_evict_one cfg t s = (ev1, s1)" by (metis prod.exhaust)
      then have s': "ev1 = evicted" "rl_buckets s' = jm_set key b (rl_buckets s1)"
        using e miss full by (auto simp: rl_enter_def Let_def)
      have wf: "jm_wf (rl_buckets s)" "0 < rc_sample cfg" using ok cfg by (simp_all add: rl_ok_def rl_config_ok_def)
      from ev1 wf show False
      proof (cases rule: rl_evict_cases)
        case (gone k1 b1)
        then have "jm_get (rl_buckets s') k = None" using s' ev False by auto
        then show False using kept b0(1) by simp
      qed (use s' ev in simp)
    qed
    then show ?thesis using kept by blast
  qed (use here in simp)
  then show "jm_get (rl_buckets s') k = Some b0" using b0(1) by simp
  show "jm_get (rl_buckets s') k' = jm_get (rl_buckets s) k' \<or> jm_get (rl_buckets s') k' = None" if ne: "k' \<noteq> key"
    using keeps(7) [OF ne] by (elim disjE exE conjE) simp_all
  show "k \<notin> fst ` (case evicted of None \<Rightarrow> {} | Some e \<Rightarrow> {e})" using same by (cases evicted) auto
qed

definition rl_refused :: "rl_config \<Rightarrow> js_string \<Rightarrow> rl_state \<Rightarrow> rl_event \<Rightarrow> bool" where
  "rl_refused cfg k s e =
     (case e of RlConsume ws cost t \<Rightarrow>
        fst (consume_key cfg ws s) = Inr k \<longrightarrow> (case fst (rl_consume cfg ws cost t s) of Inl _ \<Rightarrow> True | Inr r \<Rightarrow> \<not> cr_allowed r)
      | _ \<Rightarrow> True)"

text \<open>What a charge leaves behind on a bucket: its ban is the old one, or a new one.\<close>

lemma charge_ban:
  assumes "bucket_charge cfg t c seq b = (r, b', seq')" and "t < bk_banned b'"
  shows "t < bk_banned b \<and> b' = b \<or> bk_seq b' = seq + 1"
  using assms(1)
proof (cases rule: charge_cases)
  case spent
  then show ?thesis using assms(2) by (simp add: rl_refill_def split: if_splits)
next
  case refused
  then show ?thesis using assms(2) by (auto simp: rl_refill_def split: if_splits)
qed (use assms(2) in simp)

lemma consume_oldest:
  assumes old: "oldest_ban k b0 now s" and ok: "rl_ok cfg s" and cfg: "rl_config_ok cfg" and two: "2 \<le> rc_sample cfg" "2 \<le> rc_max cfg"
    and time: "0 \<le> now" "now \<le> t" "t < bk_banned b0"
  shows "oldest_ban k b0 t (snd (rl_consume cfg ws cost t s)) \<and> rl_refused cfg k s (RlConsume ws cost t)"
  using ok cfg
proof (cases rule: consume_cases [of cfg s ws cost t])
  case (nothing e)
  then show ?thesis using oldest_later [OF old time(2)] by (simp add: oldest_ban_def rl_refused_def)
next
  case (charged key c s1 s2 s3 b evicted r b' seq)
  let ?s = "snd (rl_consume cfg ws cost t s)"
  have old1: "oldest_ban k b0 t s1" using oldest_later [OF old time(2)] charged(7) by (simp add: oldest_ban_def)
  note clean = cleanup_keeps [OF charged(6), of t, folded charged(3)]
  have same2: "jm_get (rl_buckets s2) k = jm_get (rl_buckets s1) k" using clean(5) [of k] oldestD(1) [OF old1] time(3) by auto
  have old2: "oldest_ban k b0 t s2"
  proof (rule oldest_shrink [OF old1 same2])
    show "jm_get (rl_buckets s2) k' = jm_get (rl_buckets s1) k' \<or> jm_get (rl_buckets s2) k' = None" for k'
      using clean(5) [of k'] by (elim disjE exE conjE) simp_all
  qed
  note enter = enter_oldest [OF old2 clean(1) cfg two time(3) charged(4)] and keeps = rl_enter_keeps [OF clean(1) cfg charged(4)]
  have mine: "\<not> cr_allowed r \<and> b' = b0" if "key = k"
    using keeps(2) enter(1) that charged(5) time(3) by (auto simp: bucket_charge_def)
  have others: "bk_seq b0 < bk_seq b''"
    if k': "k' \<noteq> k" and get: "jm_get (jm_set key b' (rl_buckets s3)) k' = Some b''" and run: "t < bk_banned b''" for k' b''
  proof (cases "k' = key")
    case False
    then have "jm_get (rl_buckets s2) k' = Some b''" using get enter(3) [OF False] by auto
    then show ?thesis using oldestD(2) [OF old2 k' _ run] by simp
  next
    case True
    then have b'': "b'' = b'" using get by simp
    have le: "bk_seq b0 \<le> rl_ban_seq s3" using keeps(1) enter(1) by (auto simp: rl_ok_def)
    from charge_ban [OF charged(5)] run b'' have "t < bk_banned b \<and> b' = b \<or> bk_seq b' = rl_ban_seq s3 + 1" by simp
    then show ?thesis
    proof
      assume ban: "t < bk_banned b \<and> b' = b"
      then have "jm_get (rl_buckets s2) key = Some b" using keeps(3) time by (auto simp: new_bucket_def split: option.splits)
      then show ?thesis using oldestD(2) [OF old2, of key b] ban k' True b'' by simp
    qed (use le b'' in simp)
  qed
  have m: "rl_buckets ?s = jm_set key b' (rl_buckets s3)" by (simp add: charged(12))
  have "oldest_ban k b0 t ?s"
  proof (rule oldestI)
    show "jm_get (rl_buckets ?s) k = Some b0" using mine enter(1) by (simp add: m)
  qed (use others in \<open>simp only: m\<close>)
  moreover have "rl_refused cfg k s (RlConsume ws cost t)" using mine charged(11,13) by (auto simp: rl_refused_def)
  ultimately show ?thesis by simp
qed

fun consumes_before :: "real \<Rightarrow> real \<Rightarrow> rl_event list \<Rightarrow> bool" where
  "consumes_before now u [] \<longleftrightarrow> True"
| "consumes_before now u (RlConsume ws cost t # es) \<longleftrightarrow> now \<le> t \<and> t < u \<and> consumes_before t u es"
| "consumes_before now u (_ # es) \<longleftrightarrow> False"

lemma oldest_run:
  assumes "consumes_before now (bk_banned b) es" and "oldest_ban k b now s" and "rl_ok cfg s" and "rl_config_ok cfg"
    and "2 \<le> rc_sample cfg" "2 \<le> rc_max cfg" and "0 \<le> now"
  shows "(\<exists>n. oldest_ban k b n (foldl (rl_step cfg) s es)) \<and>
    (\<forall>xs e ys. es = xs @ e # ys \<longrightarrow> rl_refused cfg k (foldl (rl_step cfg) s xs) e)"
  using assms
proof (induction now "bk_banned b" es arbitrary: s rule: consumes_before.induct)
  case (2 now ws cost t es)
  have t: "now \<le> t" "t < bk_banned b" using 2(2) by simp_all
  note step = consume_oldest [OF 2(3-7) 2(8) t, of ws cost]
  have "consumes_before t (bk_banned b) es" "0 \<le> t" using 2(2,8) by simp_all
  from 2(1) [OF this(1) conjunct1 [OF step] consume_ok [OF 2(4,5)] 2(5-7) this(2)]
  have IH: "(\<exists>n. oldest_ban k b n (foldl (rl_step cfg) (snd (rl_consume cfg ws cost t s)) es)) \<and>
    (\<forall>xs e ys. es = xs @ e # ys \<longrightarrow> rl_refused cfg k (foldl (rl_step cfg) (snd (rl_consume cfg ws cost t s)) xs) e)" .
  have "rl_refused cfg k (foldl (rl_step cfg) s xs) e" if "RlConsume ws cost t # es = xs @ e # ys" for xs e ys
    using that IH conjunct2 [OF step] by (cases xs) auto
  then show ?case using IH by simp
qed auto

text \<open>C16: Enforcement survives a flood of identities: whatever charges arrive, the ban placed longest ago of
  those running is never evicted (with a sample and a cap of at least two), so every charge to its key
  is refused until it ends.\<close>

theorem ratelimit_oldest_ban_holds:
  assumes "create_rate_limit p i bl kb tn sh m n ev = Inr cfg" and "2 \<le> rc_sample cfg" and "2 \<le> rc_max cfg"
    and "oldest_ban k b now (foldl (rl_step cfg) new_rate_limit pre)" and "0 \<le> now" and "consumes_before now (bk_banned b) es"
  shows "jm_get (rl_buckets (foldl (rl_step cfg) new_rate_limit (pre @ es))) k = Some b \<and>
    (\<forall>xs ws cost t ys r. es = xs @ RlConsume ws cost t # ys \<longrightarrow>
       fst (consume_key cfg ws (foldl (rl_step cfg) new_rate_limit (pre @ xs))) = Inr k \<longrightarrow>
       fst (rl_consume cfg ws cost t (foldl (rl_step cfg) new_rate_limit (pre @ xs))) = Inr r \<longrightarrow> \<not> cr_allowed r)"
proof -
  note cfg = create_ok [OF assms(1)]
  note run = oldest_run [OF assms(6,4) rl_run_ok [OF new_ok cfg] cfg assms(2,3,5)]
  have "jm_get (rl_buckets (foldl (rl_step cfg) new_rate_limit (pre @ es))) k = Some b"
    using conjunct1 [OF run] by (auto simp: oldest_ban_def)
  moreover have "\<not> cr_allowed r"
    if "es = xs @ RlConsume ws cost t # ys" "fst (consume_key cfg ws (foldl (rl_step cfg) new_rate_limit (pre @ xs))) = Inr k"
      "fst (rl_consume cfg ws cost t (foldl (rl_step cfg) new_rate_limit (pre @ xs))) = Inr r" for xs ws cost t ys r
    using conjunct2 [OF run] that by (fastforce simp: rl_refused_def)
  ultimately show ?thesis by blast
qed

theorem ratelimit_oldest_ban_holds_witness:
  "jm_get (rl_buckets (foldl (rl_step demo_config) new_rate_limit
     ([RlConsume (demo_conn 1) (Some 1) 1, RlConsume (demo_conn 1) (Some 1) 2] @
      [RlConsume (demo_conn 2) (Some 1) 3, RlConsume (demo_conn 3) (Some 1) 4, RlConsume (demo_conn 1) (Some 1) 5]))) [1] =
   Some \<lparr>bk_points = 0, bk_reset = 11, bk_banned = 102, bk_prev = 0, bk_seq = 1\<rparr>"
proof -
  let ?pre = "[RlConsume (demo_conn 1) (Some 1) 1, RlConsume (demo_conn 1) (Some 1) 2]"
  let ?es = "[RlConsume (demo_conn 2) (Some 1) 3, RlConsume (demo_conn 3) (Some 1) 4, RlConsume (demo_conn 1) (Some 1) 5]"
  let ?b = "\<lparr>bk_points = 0, bk_reset = 11, bk_banned = 102, bk_prev = 0, bk_seq = 1\<rparr>"
  have "rl_buckets (foldl (rl_step demo_config) new_rate_limit ?pre) = [([1], ?b)]"
    by (simp add: demo_eval)
  then have old: "oldest_ban [1] ?b 2 (foldl (rl_step demo_config) new_rate_limit ?pre)"
    by (simp add: oldest_ban_def jm_get_def)
  have two: "2 \<le> rc_sample demo_config" "2 \<le> rc_max demo_config" by (simp_all add: demo_config_def)
  have run: "consumes_before 2 (bk_banned ?b) ?es" by simp
  show ?thesis using conjunct1 [OF ratelimit_oldest_ban_holds [OF demo_created two old _ run]] by simp
qed

section \<open>Tenants\<close>

lemma prefix_free:
  assumes "0 \<notin> set a" and "0 \<notin> set b"
  shows "a @ 0 # x = b @ 0 # y \<longleftrightarrow> a = b \<and> x = y"
  using assms by (induction a arbitrary: b) (case_tac b; auto)+

lemma starts_with_scope:
  assumes "0 \<notin> set a" and "0 \<notin> set b"
  shows "starts_with (a @ [0]) (b @ 0 # x) \<longleftrightarrow> a = b" and "\<not> starts_with (a @ [0]) b"
proof -
  have "\<exists>z. y = p @ z" if "starts_with p y" for p y
    using that append_take_drop_id [of "length p" y] unfolding starts_with_def by metis
  then have "starts_with (a @ [0]) y \<longleftrightarrow> (\<exists>z. y = a @ 0 # z)" for y
    by (fastforce simp: starts_with_def)
  note iff = this
  show "starts_with (a @ [0]) (b @ 0 # x) \<longleftrightarrow> a = b" unfolding iff prefix_free [OF assms(2,1)] by auto
  show "\<not> starts_with (a @ [0]) b" using assms(2) by (auto simp: iff)
qed

text \<open>Tenants do not share buckets and clearing one tenant is exact: keys of different tenants differ, and
  \<open>clear\<close> with a tenant id drops every bucket of that tenant and no bucket of another one.\<close>

theorem ratelimit_tenants_separate:
  assumes "bucket_key cfg r (Some t) = Inr k" and "bucket_key cfg r' (Some t') = Inr k'" and "t \<noteq> []" and "t' \<noteq> []"
    and "jm_wf (rl_buckets s)"
  shows "(k = k' \<longrightarrow> t = t') \<and> jm_get (rl_buckets (rl_clear cfg (Some t) s)) k' = (if t' = t then None else jm_get (rl_buckets s) k')"
proof -
  have nul: "0 \<notin> set t" "0 \<notin> set t'" and k: "k = (if rc_shared cfg then t else t @ 0 # r)" "k' = (if rc_shared cfg then t' else t' @ 0 # r')"
    using assms(1-4) by (auto simp: bucket_key_def tenant_text_def Let_def split: if_splits)
  have "k = k' \<longrightarrow> t = t'" using prefix_free [OF nul] by (auto simp: k)
  moreover have "jm_get (rl_buckets (rl_clear cfg (Some t) s)) k' = (if t' = t then None else jm_get (rl_buckets s) k')"
    using starts_with_scope [OF nul] assms(3,5) k
    by (auto simp: rl_clear_def tenant_text_def Let_def get_filter split: option.split)
  ultimately show ?thesis by simp
qed

text \<open>A connection without attribution that is seen for the first time.\<close>

lemma first_conn_key:
  assumes "rc_key_by cfg = ByConnection" and "rc_tenant cfg = None" and "\<not> rc_shared cfg" and "rl_ws_keys s (ws_id ws) = None"
    and "rl_tenants s (ws_id ws) = None" and "ws_read ws = NoUserData"
  shows "consume_key cfg ws s = (Inr (conn_key (rl_conns s + 1)), s\<lparr>rl_conns := rl_conns s + 1,
     rl_tenants := (rl_tenants s)(ws_id ws \<mapsto> None), rl_ws_keys := (rl_ws_keys s)(ws_id ws \<mapsto> conn_key (rl_conns s + 1))\<rparr>)"
  using assms by (simp add: consume_key_def principal_bucket_key_def attribution_tenant_def bucket_key_def tenant_text_def Let_def)

lemma fresh_consume:
  assumes "consume_key cfg ws s = (Inr key, s1)" and "rl_buckets s1 = []" and "0 < rc_max cfg" and "0 \<le> cost" and "cost \<le> real (rc_points cfg)"
    and "0 \<le> t" and "0 < rc_interval cfg"
  shows "snd (rl_consume cfg ws (Some cost) t s) = s1\<lparr>rl_buckets := [(key, \<lparr>bk_points = real (rc_points cfg) - cost,
     bk_reset = t + rc_interval cfg, bk_banned = 0, bk_prev = 0, bk_seq = 0\<rparr>)], rl_allowed := rl_allowed s1 @ [(key, t, cost)]\<rparr>"
  using assms by (simp add: rl_consume_def rl_enter_def rl_cleanup_def bucket_charge_def rl_refill_def Let_def)

text \<open>Clearing the limiter merges connections: with \<open>keyBy: 'connection'\<close>, \<open>clear()\<close> restarts the numbering but
  an open connection keeps its cached key, so the next connection gets the same bucket and can spend
  the allowance of the first.\<close>

theorem ratelimit_clear_merges_connections:
  assumes "create_rate_limit p i bl ByConnection None False m n ev = Inr cfg" and "ws_id a \<noteq> ws_id c"
    and "ws_read a = NoUserData" and "ws_read c = NoUserData" and "0 \<le> t1" and "0 \<le> t2" and "t2 \<le> t3" and "t3 < t2 + rc_interval cfg"
    and "s = foldl (rl_step cfg) new_rate_limit [RlConsume a (Some 0) t1, RlClear None, RlConsume c (Some (real (rc_points cfg))) t2]"
  shows "fst (consume_key cfg a s) = fst (consume_key cfg c s) \<and> (\<exists>r. fst (rl_consume cfg a (Some 1) t3 s) = Inr r \<and> \<not> cr_allowed r)"
proof -
  have cfg: "rc_key_by cfg = ByConnection" "rc_tenant cfg = None" "\<not> rc_shared cfg" "0 < rc_max cfg" "0 < rc_interval cfg"
    using assms(1) by (auto simp: create_rate_limit_def split: option.splits if_splits)
  let ?k = "conn_key 1" and ?new = "new_rate_limit"
  have new: "rl_buckets ?new = []" "rl_conns ?new = 0" "rl_ws_keys ?new = (\<lambda>_. None)" "rl_tenants ?new = (\<lambda>_. None)"
    by (simp_all add: new_rate_limit_def)
  let ?s1 = "rl_step cfg (rl_step cfg ?new (RlConsume a (Some 0) t1)) (RlClear None)"
  have "consume_key cfg a ?new = (Inr ?k, ?new\<lparr>rl_conns := 1, rl_tenants := [ws_id a \<mapsto> None], rl_ws_keys := [ws_id a \<mapsto> ?k]\<rparr>)"
    using first_conn_key [OF cfg(1-3), of ?new a] new assms(3) by simp
  from fresh_consume [OF this _ cfg(4), of 0 t1] have s1: "rl_buckets ?s1 = []" "rl_conns ?s1 = 0" "rl_ws_keys ?s1 = [ws_id a \<mapsto> ?k]"
    "rl_tenants ?s1 = [ws_id a \<mapsto> None]"
    using new assms(5) cfg(5) by (simp_all add: rl_clear_def tenant_text_def)
  let ?b = "\<lparr>bk_points = 0, bk_reset = t2 + rc_interval cfg, bk_banned = 0, bk_prev = 0, bk_seq = 0\<rparr>"
  have s: "s = rl_step cfg ?s1 (RlConsume c (Some (real (rc_points cfg))) t2)" using assms(9) by simp
  have "consume_key cfg c ?s1 = (Inr ?k, ?s1\<lparr>rl_conns := 1, rl_tenants := [ws_id a \<mapsto> None, ws_id c \<mapsto> None],
      rl_ws_keys := [ws_id a \<mapsto> ?k, ws_id c \<mapsto> ?k]\<rparr>)"
    using first_conn_key [OF cfg(1-3), of ?s1 c] s1 assms(2,4) by simp
  from fresh_consume [OF this _ cfg(4), of "real (rc_points cfg)" t2] have s2: "rl_buckets s = [(?k, ?b)]" "rl_ws_keys s = [ws_id a \<mapsto> ?k, ws_id c \<mapsto> ?k]"
    using s1 assms(6) cfg(5) by (simp_all add: s)
  have keys: "consume_key cfg a s = (Inr ?k, s)" "consume_key cfg c s = (Inr ?k, s)"
    using cfg s2(2) assms(2) by (simp_all add: consume_key_def principal_bucket_key_def)
  have "\<exists>r. fst (rl_consume cfg a (Some 1) t3 s) = Inr r \<and> \<not> cr_allowed r"
    using s2(1) keys assms(6-8)
    by (simp add: rl_consume_def rl_enter_def rl_cleanup_def bucket_charge_def rl_refill_def listener_ok_def jm_get_def Let_def)
  then show ?thesis using keys by simp
qed

theorem ratelimit_tenants_separate_witness:
  "jm_get (rl_buckets (rl_clear demo_config (Some [97]) new_rate_limit)) [98, 0, 1] = jm_get (rl_buckets new_rate_limit) [98, 0, 1]"
proof -
  have k: "bucket_key demo_config [1] (Some [97]) = Inr [97, 0, 1]" "bucket_key demo_config [1] (Some [98]) = Inr [98, 0, 1]"
    by (simp_all add: bucket_key_def tenant_text_def demo_config_def)
  show ?thesis using conjunct2 [OF ratelimit_tenants_separate [OF k, of new_rate_limit]] by (simp add: new_rate_limit_def)
qed

theorem ratelimit_clear_merges_connections_witness:
  "\<exists>r. fst (rl_consume (demo_config\<lparr>rc_key_by := ByConnection\<rparr>) (demo_conn 1) (Some 1) 3
     (foldl (rl_step (demo_config\<lparr>rc_key_by := ByConnection\<rparr>)) new_rate_limit
       [RlConsume (demo_conn 1) (Some 0) 1, RlClear None, RlConsume (demo_conn 2) (Some (real 1)) 2])) = Inr r \<and> \<not> cr_allowed r"
proof -
  let ?cfg = "demo_config\<lparr>rc_key_by := ByConnection\<rparr>"
  have new: "create_rate_limit (Some 1) (Some 10) (Some 100) ByConnection None False (Some 2) (Some 2) None = Inr ?cfg"
    by (simp add: create_rate_limit_def demo_config_def)
  have points: "rc_points ?cfg = 1" by (simp add: demo_config_def)
  show ?thesis
    using conjunct2 [OF ratelimit_clear_merges_connections [OF new, of "demo_conn 1" "demo_conn 2" 1 2 3]] unfolding points
    by (simp add: demo_conn_def demo_config_def)
qed

end
