(* ===== verification/Topic_Registry.thy ===== *)
theory Topic_Registry
  imports Prelude
begin

text \<open>
  The publish and subscribe fan-out surface of a worker, \<open>src/runtime/handler/topic-registry.js\<close>: the
  topics of every socket and the sockets of every topic, two indexes kept in lockstep. A socket is a
  number (the identity of its object); a \<open>Set\<close> is the list of its members in insertion order.
\<close>

section \<open>State and operations\<close>

record topic_registry =
  tr_topics :: "(nat, js_string list) jsmap"
  tr_sockets :: "(js_string, nat list) jsmap"

definition new_registry :: topic_registry where
  "new_registry = \<lparr>tr_topics = [], tr_sockets = []\<rparr>"

definition set_add :: "'a \<Rightarrow> 'a list \<Rightarrow> 'a list" where
  "set_add x xs = (if x \<in> set xs then xs else xs @ [x])"

definition set_delete :: "'a \<Rightarrow> 'a list \<Rightarrow> 'a list" where
  "set_delete x xs = filter (\<lambda>y. y \<noteq> x) xs"

definition register_socket :: "nat \<Rightarrow> topic_registry \<Rightarrow> topic_registry" where
  "register_socket ws r = r\<lparr>tr_topics := jm_set ws [] (tr_topics r)\<rparr>"

text \<open>Taking a socket out of the set of one topic; an emptied set leaves the map.\<close>

definition leave_topic :: "nat \<Rightarrow> js_string \<Rightarrow> topic_registry \<Rightarrow> topic_registry" where
  "leave_topic ws topic r =
     (case jm_get (tr_sockets r) topic of
        None \<Rightarrow> r
      | Some members \<Rightarrow>
          let members = set_delete ws members
          in if members = [] then r\<lparr>tr_sockets := jm_del topic (tr_sockets r)\<rparr>
             else r\<lparr>tr_sockets := jm_set topic members (tr_sockets r)\<rparr>)"

definition unregister_socket :: "nat \<Rightarrow> topic_registry \<Rightarrow> js_string list \<times> topic_registry" where
  "unregister_socket ws r =
     (let topics = (case jm_get (tr_topics r) ws of None \<Rightarrow> [] | Some ts \<Rightarrow> ts);
          r = foldl (\<lambda>r topic. leave_topic ws topic r) r topics
      in (topics, r\<lparr>tr_topics := jm_del ws (tr_topics r)\<rparr>))"

definition subscribe_socket :: "nat \<Rightarrow> js_string \<Rightarrow> topic_registry \<Rightarrow> bool \<times> topic_registry" where
  "subscribe_socket ws topic r =
     (case jm_get (tr_topics r) ws of
        None \<Rightarrow> (False, r)
      | Some topics \<Rightarrow>
          let members = (case jm_get (tr_sockets r) topic of None \<Rightarrow> [] | Some ms \<Rightarrow> ms)
          in (True, \<lparr>tr_topics = jm_set ws (set_add topic topics) (tr_topics r),
                     tr_sockets = jm_set topic (set_add ws members) (tr_sockets r)\<rparr>))"

definition unsubscribe_socket :: "nat \<Rightarrow> js_string \<Rightarrow> topic_registry \<Rightarrow> bool \<times> topic_registry" where
  "unsubscribe_socket ws topic r =
     (case jm_get (tr_topics r) ws of
        None \<Rightarrow> (False, r)
      | Some topics \<Rightarrow>
          if topic \<notin> set topics then (False, r)
          else (True, leave_topic ws topic (r\<lparr>tr_topics := jm_set ws (set_delete topic topics) (tr_topics r)\<rparr>)))"

definition socket_holds :: "nat \<Rightarrow> js_string \<Rightarrow> topic_registry \<Rightarrow> bool" where
  "socket_holds ws topic r = (case jm_get (tr_topics r) ws of None \<Rightarrow> False | Some ts \<Rightarrow> topic \<in> set ts)"

definition socket_topic_list :: "nat \<Rightarrow> topic_registry \<Rightarrow> js_string list" where
  "socket_topic_list ws r = (case jm_get (tr_topics r) ws of None \<Rightarrow> [] | Some ts \<Rightarrow> ts)"

definition subscribers_of :: "js_string \<Rightarrow> topic_registry \<Rightarrow> nat list option" where
  "subscribers_of topic r = jm_get (tr_sockets r) topic"

text \<open>\<open>is_open\<close> is \<open>readyState === OPEN\<close>.\<close>

definition num_subscribers :: "(nat \<Rightarrow> bool) \<Rightarrow> js_string \<Rightarrow> topic_registry \<Rightarrow> nat" where
  "num_subscribers is_open topic r =
     (case subscribers_of topic r of None \<Rightarrow> 0 | Some ms \<Rightarrow> length (filter is_open ms))"

section \<open>The two indexes agree\<close>

definition members_of :: "js_string \<Rightarrow> topic_registry \<Rightarrow> nat list" where
  "members_of topic r = (case subscribers_of topic r of None \<Rightarrow> [] | Some ms \<Rightarrow> ms)"

definition registry_ok :: "topic_registry \<Rightarrow> bool" where
  "registry_ok r \<longleftrightarrow> jm_wf (tr_topics r) \<and> jm_wf (tr_sockets r) \<and>
     (\<forall>ws. distinct (socket_topic_list ws r)) \<and> (\<forall>t. distinct (members_of t r)) \<and>
     (\<forall>ws t. t \<in> set (socket_topic_list ws r) \<longleftrightarrow> ws \<in> set (members_of t r)) \<and>
     (\<forall>t. subscribers_of t r \<noteq> Some [])"

text \<open>What the registry stands for: which socket holds which topic.\<close>

definition holding :: "topic_registry \<Rightarrow> (nat \<times> js_string) set" where
  "holding r = {(ws, t). socket_holds ws t r}"

lemma holding_iff: "socket_holds ws t r \<longleftrightarrow> t \<in> set (socket_topic_list ws r)"
  by (simp add: socket_holds_def socket_topic_list_def split: option.split)

lemma holding_member: "registry_ok r \<Longrightarrow> (ws, t) \<in> holding r \<longleftrightarrow> ws \<in> set (members_of t r)"
  by (simp add: holding_def holding_iff registry_ok_def)

lemma set_add_simps [simp]: "set (set_add x xs) = insert x (set xs)" "distinct xs \<Longrightarrow> distinct (set_add x xs)" "set_add x xs \<noteq> []"
  by (auto simp: set_add_def)

lemma set_delete_simps [simp]: "set (set_delete x xs) = set xs - {x}" "distinct xs \<Longrightarrow> distinct (set_delete x xs)"
  by (auto simp: set_delete_def)

lemma leave_topic_simps:
  "tr_topics (leave_topic ws t r) = tr_topics r" "jm_wf (tr_sockets r) \<Longrightarrow> jm_wf (tr_sockets (leave_topic ws t r))"
  "members_of k (leave_topic ws t r) = (if k = t then set_delete ws (members_of t r) else members_of k r)"
  "(\<And>k. subscribers_of k r \<noteq> Some []) \<Longrightarrow> subscribers_of k (leave_topic ws t r) \<noteq> Some []"
  by (auto simp: leave_topic_def members_of_def subscribers_of_def set_delete_def Let_def split: option.split)

lemma leave_all_simps:
  fixes r :: topic_registry
  shows "tr_topics (foldl (\<lambda>r t. leave_topic ws t r) r ts) = tr_topics r"
    and "jm_wf (tr_sockets r) \<Longrightarrow> jm_wf (tr_sockets (foldl (\<lambda>r t. leave_topic ws t r) r ts))"
    and "set (members_of k (foldl (\<lambda>r t. leave_topic ws t r) r ts)) = (if k \<in> set ts then set (members_of k r) - {ws} else set (members_of k r))"
    and "distinct (members_of k r) \<Longrightarrow> distinct (members_of k (foldl (\<lambda>r t. leave_topic ws t r) r ts))"
    and "(\<And>k. subscribers_of k r \<noteq> Some []) \<Longrightarrow> subscribers_of k (foldl (\<lambda>r t. leave_topic ws t r) r ts) \<noteq> Some []"
proof (induction ts arbitrary: r)
  case (Cons t ts)
  { case 1 show ?case using Cons(1) by (simp add: leave_topic_simps) }
  { case 2 then show ?case using Cons(2) by (simp add: leave_topic_simps) }
  { case 3 show ?case using Cons(3) [of "leave_topic ws t r"] by (auto simp: leave_topic_simps) }
  { case 4 then show ?case using Cons(4) [of "leave_topic ws t r"] by (cases "k = t") (simp_all add: leave_topic_simps) }
  { case 5 then show ?case using Cons(5) [of "leave_topic ws t r"] by (simp add: leave_topic_simps(4)) }
qed simp_all

lemma registry_new: "registry_ok new_registry" "holding new_registry = {}"
  by (auto simp: registry_ok_def new_registry_def socket_topic_list_def members_of_def subscribers_of_def holding_def socket_holds_def)

lemma registry_register:
  assumes "registry_ok r" and "jm_get (tr_topics r) ws = None"
  shows "registry_ok (register_socket ws r)" and "holding (register_socket ws r) = holding r"
proof -
  have l: "socket_topic_list k (register_socket ws r) = socket_topic_list k r" for k
    using assms(2) by (simp add: socket_topic_list_def register_socket_def)
  then show "registry_ok (register_socket ws r)"
    using assms(1) by (simp add: registry_ok_def members_of_def subscribers_of_def) (simp add: register_socket_def)
  show "holding (register_socket ws r) = holding r" using l by (simp add: holding_def holding_iff)
qed

lemma registry_unregister:
  assumes ok: "registry_ok r" and u: "unregister_socket ws r = (ts, r')"
  shows "registry_ok r'" and "holding r' = {p \<in> holding r. fst p \<noteq> ws}" and "set ts = {t. (ws, t) \<in> holding r}"
proof -
  let ?r = "foldl (\<lambda>r t. leave_topic ws t r) r (socket_topic_list ws r)"
  have r': "r' = ?r\<lparr>tr_topics := jm_del ws (tr_topics ?r)\<rparr>" and ts: "ts = socket_topic_list ws r"
    using u by (auto simp: unregister_socket_def socket_topic_list_def Let_def)
  have l: "socket_topic_list k r' = (if k = ws then [] else socket_topic_list k r)" for k
    by (simp add: r' socket_topic_list_def leave_all_simps(1))
  have m: "members_of k r' = members_of k ?r" "subscribers_of k r' = subscribers_of k ?r" "tr_sockets r' = tr_sockets ?r" for k
    by (simp_all add: r' members_of_def subscribers_of_def)
  have wf: "jm_wf (tr_topics r)" "jm_wf (tr_sockets r)" and d: "distinct (members_of k r)" "distinct (socket_topic_list j r)"
      and lock: "t \<in> set (socket_topic_list j r) \<longleftrightarrow> j \<in> set (members_of t r)" and ne: "subscribers_of k r \<noteq> Some []" for k t j
    using ok by (simp_all add: registry_ok_def)
  have "t \<in> set (socket_topic_list j r') \<longleftrightarrow> j \<in> set (members_of t r')" for j t
    using lock by (auto simp: l m leave_all_simps(3))
  moreover have "jm_wf (tr_topics r')" by (simp add: r' leave_all_simps(1) wf)
  ultimately show "registry_ok r'"
    using leave_all_simps(2) [OF wf(2)] leave_all_simps(4) [OF d(1)] leave_all_simps(5) [OF ne] d(2)
    by (simp add: registry_ok_def m l)
  show "holding r' = {p \<in> holding r. fst p \<noteq> ws}" by (auto simp: holding_def holding_iff l split: if_splits)
  show "set ts = {t. (ws, t) \<in> holding r}" by (simp add: ts holding_def holding_iff)
qed

lemma registry_subscribe:
  assumes ok: "registry_ok r" and s: "subscribe_socket ws topic r = (done_it, r')"
  shows "registry_ok r'" and "holding r' = (if jm_has (tr_topics r) ws then insert (ws, topic) (holding r) else holding r)"
    and "done_it \<longleftrightarrow> jm_has (tr_topics r) ws"
proof -
  have "registry_ok r' \<and> holding r' = (if jm_has (tr_topics r) ws then insert (ws, topic) (holding r) else holding r) \<and> (done_it \<longleftrightarrow> jm_has (tr_topics r) ws)"
  proof (cases "jm_get (tr_topics r) ws")
    case None
    then show ?thesis using s ok by (simp add: subscribe_socket_def jm_has_get)
  next
    case (Some ts)
    have l: "socket_topic_list k r' = (if k = ws then set_add topic (socket_topic_list ws r) else socket_topic_list k r)" for k
      using s Some by (auto simp: subscribe_socket_def socket_topic_list_def Let_def)
    have m: "subscribers_of k r' = (if k = topic then Some (set_add ws (members_of topic r)) else subscribers_of k r)" for k
      using s Some by (auto simp: subscribe_socket_def members_of_def subscribers_of_def Let_def)
    then have m': "members_of k r' = (if k = topic then set_add ws (members_of topic r) else members_of k r)" for k
      by (simp add: members_of_def)
    have "jm_wf (tr_topics r')" "jm_wf (tr_sockets r')"
      using s Some ok by (auto simp: subscribe_socket_def registry_ok_def Let_def)
    then have "registry_ok r'" using ok by (auto simp: registry_ok_def l m m')
    moreover have "holding r' = insert (ws, topic) (holding r)" by (auto simp: holding_def holding_iff l split: if_splits)
    moreover have done_it using s Some by (simp add: subscribe_socket_def Let_def)
    ultimately show ?thesis using Some by (simp add: jm_has_get)
  qed
  then show "registry_ok r'" "holding r' = (if jm_has (tr_topics r) ws then insert (ws, topic) (holding r) else holding r)"
    "done_it \<longleftrightarrow> jm_has (tr_topics r) ws" by simp_all
qed

lemma registry_unsubscribe:
  assumes ok: "registry_ok r" and s: "unsubscribe_socket ws topic r = (done_it, r')"
  shows "registry_ok r'" and "holding r' = holding r - {(ws, topic)}" and "done_it \<longleftrightarrow> (ws, topic) \<in> holding r"
proof -
  have "registry_ok r' \<and> holding r' = holding r - {(ws, topic)} \<and> (done_it \<longleftrightarrow> (ws, topic) \<in> holding r)"
  proof (cases "topic \<in> set (socket_topic_list ws r)")
    case False
    then show ?thesis using s ok by (auto simp: unsubscribe_socket_def socket_topic_list_def holding_def socket_holds_def split: option.splits)
  next
    case True
    then obtain ts where ts: "jm_get (tr_topics r) ws = Some ts" "topic \<in> set ts"
      by (cases "jm_get (tr_topics r) ws") (simp_all add: socket_topic_list_def)
    define q where "q = r\<lparr>tr_topics := jm_set ws (set_delete topic ts) (tr_topics r)\<rparr>"
    have r': "r' = leave_topic ws topic q" "done_it" using s ts by (simp_all add: unsubscribe_socket_def q_def)
    have l: "socket_topic_list k r' = (if k = ws then set_delete topic (socket_topic_list ws r) else socket_topic_list k r)" for k
      using ts(1) by (simp add: r' socket_topic_list_def leave_topic_simps(1) q_def)
    have q: "members_of k q = members_of k r" "subscribers_of k q = subscribers_of k r" "tr_sockets q = tr_sockets r" for k
      by (simp_all add: q_def members_of_def subscribers_of_def)
    have "jm_wf (tr_topics r')" "jm_wf (tr_sockets r')"
      using ok leave_topic_simps(2) [of q ws topic] by (simp_all add: r' leave_topic_simps(1) q) (simp_all add: registry_ok_def q_def)
    moreover have "subscribers_of k r' \<noteq> Some []" for k
      using ok leave_topic_simps(4) [of q k ws topic] by (simp add: r' q registry_ok_def)
    moreover have "members_of k r' = (if k = topic then set_delete ws (members_of topic r) else members_of k r)" for k
      by (simp add: r'(1) leave_topic_simps(3) q)
    ultimately have "registry_ok r'" using ok by (auto simp: registry_ok_def l)
    moreover have "holding r' = holding r - {(ws, topic)}" by (auto simp: holding_def holding_iff l split: if_splits)
    ultimately show ?thesis using r'(2) True by (simp add: holding_def holding_iff)
  qed
  then show "registry_ok r'" "holding r' = holding r - {(ws, topic)}" "done_it \<longleftrightarrow> (ws, topic) \<in> holding r" by simp_all
qed

section \<open>Runs\<close>

datatype registry_event = RegOpen nat | RegClose nat | RegSubscribe nat js_string | RegUnsubscribe nat js_string

fun registry_step :: "topic_registry \<Rightarrow> registry_event \<Rightarrow> topic_registry" where
  "registry_step r (RegOpen ws) = register_socket ws r"
| "registry_step r (RegClose ws) = snd (unregister_socket ws r)"
| "registry_step r (RegSubscribe ws t) = snd (subscribe_socket ws t r)"
| "registry_step r (RegUnsubscribe ws t) = snd (unsubscribe_socket ws t r)"

text \<open>The abstract registry: the open sockets and a relation.\<close>

fun relation_step :: "nat set \<times> (nat \<times> js_string) set \<Rightarrow> registry_event \<Rightarrow> nat set \<times> (nat \<times> js_string) set" where
  "relation_step (S, R) (RegOpen ws) = (insert ws S, R)"
| "relation_step (S, R) (RegClose ws) = (S - {ws}, {p \<in> R. fst p \<noteq> ws})"
| "relation_step (S, R) (RegSubscribe ws t) = (S, if ws \<in> S then insert (ws, t) R else R)"
| "relation_step (S, R) (RegUnsubscribe ws t) = (S, R - {(ws, t)})"

text \<open>A socket object is registered once in its life.\<close>

fun opens :: "registry_event \<Rightarrow> nat list" where
  "opens (RegOpen ws) = [ws]"
| "opens (RegClose ws) = []"
| "opens (RegSubscribe ws t) = []"
| "opens (RegUnsubscribe ws t) = []"

definition abstract_registry :: "topic_registry \<Rightarrow> nat set \<times> (nat \<times> js_string) set" where
  "abstract_registry r = (set (jm_keys (tr_topics r)), holding r)"

lemma keys_steps:
  "set (jm_keys (tr_topics (register_socket ws r))) = insert ws (set (jm_keys (tr_topics r)))"
  "set (jm_keys (tr_topics (snd (unregister_socket ws r)))) = set (jm_keys (tr_topics r)) - {ws}"
  "set (jm_keys (tr_topics (snd (subscribe_socket ws t r)))) = set (jm_keys (tr_topics r))"
  "set (jm_keys (tr_topics (snd (unsubscribe_socket ws t r)))) = set (jm_keys (tr_topics r))"
  by (auto simp: register_socket_def unregister_socket_def subscribe_socket_def unsubscribe_socket_def Let_def leave_all_simps(1)
      leave_topic_simps(1) split: option.split) (metis jm_get_None option.distinct(1))+

lemma registry_step_refines:
  assumes ok: "registry_ok r" and fresh: "\<And>ws. e = RegOpen ws \<Longrightarrow> ws \<notin> set (jm_keys (tr_topics r))"
  shows "registry_ok (registry_step r e)" and "abstract_registry (registry_step r e) = relation_step (abstract_registry r) e"
proof -
  have "registry_ok (registry_step r e) \<and> abstract_registry (registry_step r e) = relation_step (abstract_registry r) e"
  proof (cases e)
    case (RegOpen ws)
    then show ?thesis using registry_register [OF ok] fresh by (simp add: abstract_registry_def keys_steps jm_get_None)
  next
    case (RegClose ws)
    then show ?thesis using registry_unregister [OF ok prod.collapse [symmetric], of ws] by (simp add: abstract_registry_def keys_steps)
  next
    case (RegSubscribe ws t)
    then show ?thesis using registry_subscribe [OF ok prod.collapse [symmetric], of ws t] by (simp add: abstract_registry_def keys_steps jm_has_keys)
  next
    case (RegUnsubscribe ws t)
    then show ?thesis using registry_unsubscribe [OF ok prod.collapse [symmetric], of ws t] by (simp add: abstract_registry_def keys_steps)
  qed
  then show "registry_ok (registry_step r e)" "abstract_registry (registry_step r e) = relation_step (abstract_registry r) e" by simp_all
qed

lemma registry_run:
  assumes "registry_ok r" and "distinct (concat (map opens es))" and "set (jm_keys (tr_topics r)) \<inter> set (concat (map opens es)) = {}"
  shows "registry_ok (foldl registry_step r es) \<and> abstract_registry (foldl registry_step r es) = foldl relation_step (abstract_registry r) es"
  using assms
proof (induction es arbitrary: r)
  case (Cons e es)
  have fresh: "ws \<notin> set (jm_keys (tr_topics r))" if "e = RegOpen ws" for ws using that Cons.prems(3) by simp
  note step = registry_step_refines [OF Cons.prems(1) fresh]
  have "set (jm_keys (tr_topics (registry_step r e))) \<subseteq> set (jm_keys (tr_topics r)) \<union> set (opens e)"
    by (cases e) (auto simp: keys_steps)
  then have "set (jm_keys (tr_topics (registry_step r e))) \<inter> set (concat (map opens es)) = {}"
    using Cons.prems(2,3) by auto
  from Cons.IH [OF step(1) _ this] Cons.prems(2) step(2) show ?case by simp
qed simp

lemma members_card: "registry_ok r \<Longrightarrow> num_subscribers is_open t r = card {ws. is_open ws \<and> (ws, t) \<in> holding r}"
proof -
  assume ok: "registry_ok r"
  have "{ws. is_open ws \<and> (ws, t) \<in> holding r} = set (filter is_open (members_of t r))" using holding_member [OF ok] by auto
  moreover have "distinct (filter is_open (members_of t r))" using ok by (simp add: registry_ok_def)
  ultimately show ?thesis using distinct_card by (fastforce simp: num_subscribers_def members_of_def split: option.splits)
qed

text \<open>C22: The two indexes never drift: after any sequence of opens, closes, subscribes and unsubscribes the
  registry is one relation between sockets and topics, the same that the operations build abstractly;
  a topic's set holds exactly its subscribers, none twice and no empty set remains, and the subscriber
  count is the number of open sockets that hold the topic.\<close>

theorem registry_refines_relation:
  assumes "distinct (concat (map opens es))" and "r = foldl registry_step new_registry es"
  shows "abstract_registry r = foldl relation_step ({}, {}) es \<and> registry_ok r \<and>
    num_subscribers is_open t r = card {ws. is_open ws \<and> (ws, t) \<in> snd (foldl relation_step ({}, {}) es)}"
proof -
  have "registry_ok r \<and> abstract_registry r = foldl relation_step (abstract_registry new_registry) es"
    unfolding assms(2) by (rule registry_run [OF registry_new(1) assms(1)]) (simp add: new_registry_def)
  moreover have "abstract_registry new_registry = ({}, {})" using registry_new(2) by (simp add: abstract_registry_def) (simp add: new_registry_def)
  ultimately have r: "registry_ok r" "abstract_registry r = foldl relation_step ({}, {}) es" by simp_all
  then have "snd (foldl relation_step ({}, {}) es) = holding r" by (metis abstract_registry_def snd_conv)
  then show ?thesis using r members_card [OF r(1), of is_open t] by simp
qed

theorem registry_refines_relation_witness:
  "num_subscribers (\<lambda>ws. ws \<noteq> 2) [97] (foldl registry_step new_registry [RegOpen 1, RegOpen 2, RegSubscribe 1 [97], RegSubscribe 2 [97], RegSubscribe 1 [98]]) =
     card {ws. ws \<noteq> 2 \<and> (ws, [97]) \<in> snd (foldl relation_step ({}, {}) [RegOpen 1, RegOpen 2, RegSubscribe 1 [97], RegSubscribe 2 [97], RegSubscribe 1 [98]])}"
  using registry_refines_relation [OF _ refl, of "[RegOpen 1, RegOpen 2, RegSubscribe 1 [97], RegSubscribe 2 [97], RegSubscribe 1 [98]]" "\<lambda>ws. ws \<noteq> 2" "[97]"]
  by (simp del: foldl_Cons)

end
