(* ===== verification/Egress_Ledger.thy ===== *)
theory Egress_Ledger
  imports Rotating_Cursor
begin

text \<open>
  The windowed usage ledger of one egress scope, \<open>createWindowLedger\<close> of
  \<open>src/runtime/utils/egress-account.js\<close>: the windows by key, the iterator shared by the sweep and the
  eviction, and the instant until which no window can have lapsed. Instants are reals, counters
  naturals. \<open>lg_earliest\<close> is \<open>None\<close> for Infinity. \<open>lg_evicted\<close> logs the calls of \<open>onEvict\<close> with the
  key that went; no operation reads it.
\<close>

section \<open>State\<close>

record egress_window =
  ew_at :: real
  ew_pu :: real
  ew_m :: nat
  ew_b :: nat
  ew_d :: nat

record egress_ceilings =
  ec_messages :: nat
  ec_bytes :: nat
  ec_deliveries :: nat

record ledger_config =
  lc_ceilings :: egress_ceilings
  lc_window :: real
  lc_keys :: nat
  lc_sample :: nat

record ledger =
  lg_map :: "(js_string, egress_window) jsmap"
  lg_cursor :: map_cursor
  lg_until :: real
  lg_earliest :: "real option"
  lg_evicted :: "(bool \<times> js_string) list"

definition create_window_ledger :: ledger where
  "create_window_ledger = \<lparr>lg_map = [], lg_cursor = None, lg_until = 0, lg_earliest = None, lg_evicted = []\<rparr>"

definition egress_sweep_steps :: nat where
  "egress_sweep_steps = 32"

definition egress_slack_shift :: nat where
  "egress_slack_shift = 4"

definition sweep_floor :: "ledger_config \<Rightarrow> nat" where
  "sweep_floor cfg = lc_keys cfg - lc_keys cfg div 2 ^ egress_slack_shift"

section \<open>Operations\<close>

text \<open>The largest fraction of its allowance a window has spent, over the armed dimensions.\<close>

definition spent_fraction :: "egress_ceilings \<Rightarrow> egress_window \<Rightarrow> real" where
  "spent_fraction c w =
     (let u = 0;
          u = (if 0 < ec_messages c then max u (real (ew_m w) / real (ec_messages c)) else u);
          u = (if 0 < ec_deliveries c then max u (real (ew_d w) / real (ec_deliveries c)) else u)
      in if 0 < ec_bytes c then max u (real (ew_b w) / real (ec_bytes c)) else u)"

definition lapsed :: "real \<Rightarrow> real \<Rightarrow> egress_window \<Rightarrow> bool" where
  "lapsed win now w \<longleftrightarrow> win \<le> now - ew_at w"

definition open_pass :: "ledger \<Rightarrow> ledger" where
  "open_pass L = L\<lparr>lg_cursor := Some 0, lg_earliest := None\<rparr>"

definition close_pass :: "ledger \<Rightarrow> ledger" where
  "close_pass L = (case lg_earliest L of
     None \<Rightarrow> L\<lparr>lg_cursor := None\<rparr>
   | Some e \<Rightarrow> L\<lparr>lg_cursor := None, lg_until := e\<rparr>)"

text \<open>\<open>evictCursor.next()\<close>: the entry it stands on, and the iterator past it.\<close>

definition cursor_entry :: "ledger \<Rightarrow> (js_string \<times> egress_window) option" where
  "cursor_entry L = (case lg_cursor L of
     None \<Rightarrow> None
   | Some i \<Rightarrow> if i < length (lg_map L) then Some (lg_map L ! i) else None)"

definition cursor_past :: "ledger \<Rightarrow> ledger" where
  "cursor_past L = L\<lparr>lg_cursor := map_option Suc (lg_cursor L)\<rparr>"

definition ledger_drop :: "js_string \<Rightarrow> ledger \<Rightarrow> ledger" where
  "ledger_drop k L = L\<lparr>lg_map := jm_del k (lg_map L), lg_cursor := cursor_del (lg_map L) k (lg_cursor L)\<rparr>"

definition note_expiry :: "real \<Rightarrow> ledger \<Rightarrow> ledger" where
  "note_expiry e L = (case lg_earliest L of
     None \<Rightarrow> L\<lparr>lg_earliest := Some e\<rparr>
   | Some x \<Rightarrow> if e < x then L\<lparr>lg_earliest := Some e\<rparr> else L)"

definition sweep_entry :: "real \<Rightarrow> real \<Rightarrow> js_string \<times> egress_window \<Rightarrow> ledger \<Rightarrow> ledger" where
  "sweep_entry win now p L =
     (if lapsed win now (snd p) then ledger_drop (fst p) L else note_expiry (ew_at (snd p) + win) L)"

definition opened :: "ledger \<Rightarrow> ledger" where
  "opened L = (if lg_cursor L = None then open_pass L else L)"

lemma opened_simps [simp]:
  "lg_map (opened L) = lg_map L" "lg_cursor (opened L) \<noteq> None" "lg_evicted (opened L) = lg_evicted L" "lg_until (opened L) = lg_until L"
  by (auto simp: opened_def open_pass_def)

lemma pass_simps [simp]:
  "lg_map (close_pass L) = lg_map L" "lg_cursor (close_pass L) = None" "lg_evicted (close_pass L) = lg_evicted L"
  "lg_map (cursor_past L) = lg_map L" "lg_evicted (cursor_past L) = lg_evicted L" "lg_cursor (cursor_past L) = map_option Suc (lg_cursor L)"
  "lg_map (note_expiry e L) = lg_map L" "lg_evicted (note_expiry e L) = lg_evicted L" "lg_cursor (note_expiry e L) = lg_cursor L"
  "lg_map (ledger_drop k L) = jm_del k (lg_map L)" "lg_evicted (ledger_drop k L) = lg_evicted L" "lg_until (ledger_drop k L) = lg_until L"
  "lg_until (note_expiry e L) = lg_until L" "lg_until (cursor_past L) = lg_until L" "lg_earliest (ledger_drop k L) = lg_earliest L"
  "lg_earliest (cursor_past L) = lg_earliest L"
  by (auto simp: close_pass_def cursor_past_def note_expiry_def ledger_drop_def split: option.split)

lemma drop_cursor [simp]: "lg_cursor (ledger_drop k L) = None \<longleftrightarrow> lg_cursor L = None"
  by (simp add: ledger_drop_def cursor_del_def split: option.split)

lemma sweep_cursor [simp]: "lg_cursor (sweep_entry win now p L) = None \<longleftrightarrow> lg_cursor L = None"
  by (simp add: sweep_entry_def)

text \<open>The walks are bounded by their budget and open at most two passes.\<close>

definition pass_budget :: "nat \<Rightarrow> nat \<Rightarrow> ledger \<Rightarrow> nat" where
  "pass_budget todo wrapped L = todo + 2 * (2 - wrapped) + (if lg_cursor L = None then 0 else 1)"

lemma pass_budget_less:
  "wrapped < 2 \<Longrightarrow> lg_cursor L' = None \<Longrightarrow>
     pass_budget todo (if lg_cursor L = None then wrapped + 1 else wrapped) L' < pass_budget todo wrapped L"
  "wrapped < 2 \<Longrightarrow> todo' < todo \<Longrightarrow> lg_cursor L' \<noteq> None \<Longrightarrow>
     pass_budget todo' (if lg_cursor L = None then wrapped + 1 else wrapped) L' < pass_budget todo wrapped L"
  by (auto simp: pass_budget_def)

function reclaim_loop :: "real \<Rightarrow> real \<Rightarrow> nat \<Rightarrow> nat \<Rightarrow> ledger \<Rightarrow> ledger" where
  "reclaim_loop win now steps wrapped L =
     (if \<not> (steps < egress_sweep_steps \<and> wrapped < 2) then L
      else
        let wrapped' = (if lg_cursor L = None then wrapped + 1 else wrapped)
        in case cursor_entry (opened L) of
             None \<Rightarrow> reclaim_loop win now steps wrapped' (close_pass (opened L))
           | Some p \<Rightarrow> reclaim_loop win now (steps + 1) wrapped' (sweep_entry win now p (cursor_past (opened L))))"
  by pat_completeness auto

termination
proof (relation "measure (\<lambda>(win, now, steps, wrapped, L). pass_budget (egress_sweep_steps - steps) wrapped L)", goal_cases)
  case (2 win now steps wrapped L x)
  then show ?case using pass_budget_less(1) [of wrapped "close_pass (opened L)"] by simp
next
  case (3 win now steps wrapped L x p)
  then have w: "wrapped < 2" and "steps < egress_sweep_steps" by simp_all
  then have "egress_sweep_steps - (steps + 1) < egress_sweep_steps - steps" by linarith
  note b = w this
  show ?case using pass_budget_less(2) [OF b, of "sweep_entry win now p (cursor_past (opened L))" L] 3 by simp
qed simp

declare reclaim_loop.simps [simp del]

definition reclaim_expired :: "ledger_config \<Rightarrow> real \<Rightarrow> ledger \<Rightarrow> ledger" where
  "reclaim_expired cfg now L = (if now < lg_until L then L else reclaim_loop (lc_window cfg) now 0 0 L)"

function evict_loop :: "ledger_config \<Rightarrow> real \<Rightarrow> nat \<Rightarrow> nat \<Rightarrow> ledger \<Rightarrow> (real \<times> js_string) option \<Rightarrow> ledger" where
  "evict_loop cfg now sampled wrapped L best =
     (if \<not> (sampled < lc_sample cfg \<and> wrapped < 2)
      then (case best of
              None \<Rightarrow> L
            | Some (_, k) \<Rightarrow> let L = ledger_drop k L in L\<lparr>lg_evicted := lg_evicted L @ [(True, k)]\<rparr>)
      else
        let wrapped' = (if lg_cursor L = None then wrapped + 1 else wrapped)
        in case cursor_entry (opened L) of
             None \<Rightarrow> evict_loop cfg now sampled wrapped' (close_pass (opened L)) best
           | Some (k, w) \<Rightarrow>
               let L' = cursor_past (opened L)
               in if lapsed (lc_window cfg) now w
                  then (let L' = ledger_drop k L' in L'\<lparr>lg_evicted := lg_evicted L' @ [(False, k)]\<rparr>)
                  else
                    let score = spent_fraction (lc_ceilings cfg) w + ew_pu w;
                        best' = (case best of
                            None \<Rightarrow> Some (score, k)
                          | Some (least, _) \<Rightarrow> if score < least then Some (score, k) else best)
                    in evict_loop cfg now (sampled + 1) wrapped' (note_expiry (ew_at w + lc_window cfg) L') best')"
  by pat_completeness auto

termination
proof (relation "measure (\<lambda>(cfg, now, sampled, wrapped, L, best). pass_budget (lc_sample cfg - sampled) wrapped L)", goal_cases)
  case (2 cfg now sampled wrapped L best x)
  then show ?case using pass_budget_less(1) [of wrapped "close_pass (opened L)"] by simp
next
  case (3 cfg now sampled wrapped L best x p k w L' score best')
  then have w: "wrapped < 2" and "sampled < lc_sample cfg" by simp_all
  then have "lc_sample cfg - (sampled + 1) < lc_sample cfg - sampled" by linarith
  note b = w this
  show ?case using pass_budget_less(2) [OF b, of "note_expiry (ew_at w + lc_window cfg) L'" L] 3 by simp
qed simp

declare evict_loop.simps [simp del]

definition egress_evict_one :: "ledger_config \<Rightarrow> real \<Rightarrow> ledger \<Rightarrow> ledger" where
  "egress_evict_one cfg now L = evict_loop cfg now 0 0 L None"

definition new_window :: "real \<Rightarrow> egress_window" where
  "new_window now = \<lparr>ew_at = now, ew_pu = 0, ew_m = 0, ew_b = 0, ew_d = 0\<rparr>"

definition rotate_window :: "ledger_config \<Rightarrow> real \<Rightarrow> egress_window \<Rightarrow> egress_window" where
  "rotate_window cfg now w =
     (if lapsed (lc_window cfg) now w
      then \<lparr>ew_at = now, ew_pu = (if now - ew_at w < lc_window cfg * 2 then spent_fraction (lc_ceilings cfg) w else 0),
            ew_m = 0, ew_b = 0, ew_d = 0\<rparr>
      else w)"

definition window_for :: "ledger_config \<Rightarrow> js_string \<Rightarrow> real \<Rightarrow> ledger \<Rightarrow> egress_window \<times> ledger" where
  "window_for cfg key now L =
     (case jm_get (lg_map L) key of
        None \<Rightarrow>
          let L = (if sweep_floor cfg \<le> jm_size (lg_map L)
                   then (let L = reclaim_expired cfg now L
                         in if lc_keys cfg \<le> jm_size (lg_map L) then egress_evict_one cfg now L else L)
                   else L);
              w = new_window now
          in (w, L\<lparr>lg_map := jm_set key w (lg_map L)\<rparr>)
      | Some w \<Rightarrow> let w = rotate_window cfg now w in (w, L\<lparr>lg_map := jm_set key w (lg_map L)\<rparr>))"

text \<open>The window is a shared object: what the caller adds to it is in the ledger.\<close>

definition window_add :: "js_string \<Rightarrow> egress_window \<Rightarrow> nat \<Rightarrow> nat \<Rightarrow> nat \<Rightarrow> ledger \<Rightarrow> ledger" where
  "window_add key w m d b L =
     L\<lparr>lg_map := jm_set key (w\<lparr>ew_m := ew_m w + m, ew_d := ew_d w + d, ew_b := ew_b w + b\<rparr>) (lg_map L)\<rparr>"

section \<open>What the ledger keeps\<close>

text \<open>The window starts are in the past; every entry the pass in progress has left behind lapses no sooner
  than the earliest expiry it noted; and no entry lapses before the recorded instant.\<close>

definition pass_ok :: "real \<Rightarrow> real \<Rightarrow> ledger \<Rightarrow> bool" where
  "pass_ok win now L \<longleftrightarrow> (case lg_cursor L of
     None \<Rightarrow> True
   | Some i \<Rightarrow> i \<le> length (lg_map L) \<and> (\<forall>p \<in> set (take i (lg_map L)). \<exists>e. lg_earliest L = Some e \<and> e \<le> ew_at (snd p) + win) \<and>
       (\<forall>e. lg_earliest L = Some e \<longrightarrow> e \<le> now + win))"

definition ledger_ok :: "real \<Rightarrow> real \<Rightarrow> ledger \<Rightarrow> bool" where
  "ledger_ok win now L \<longleftrightarrow> jm_wf (lg_map L) \<and> (\<forall>p \<in> set (lg_map L). ew_at (snd p) \<le> now \<and> lg_until L \<le> ew_at (snd p) + win) \<and>
     lg_until L \<le> now + win \<and> pass_ok win now L"

lemma ledger_ok_wf: "ledger_ok win now L \<Longrightarrow> jm_wf (lg_map L)"
  by (simp add: ledger_ok_def)

lemma ledger_ok_later: "ledger_ok win now L \<Longrightarrow> now \<le> n \<Longrightarrow> ledger_ok win n L"
  by (fastforce simp: ledger_ok_def pass_ok_def split: option.splits)

lemma ledger_ok_new: "0 \<le> now \<Longrightarrow> 0 \<le> win \<Longrightarrow> ledger_ok win now create_window_ledger"
  by (simp add: ledger_ok_def pass_ok_def create_window_ledger_def)

lemma ledger_ok_log [simp]: "ledger_ok win now (L\<lparr>lg_evicted := x\<rparr>) \<longleftrightarrow> ledger_ok win now L"
  by (cases "lg_cursor L") (simp_all add: ledger_ok_def pass_ok_def)

lemma ledger_ok_opened: "ledger_ok win now L \<Longrightarrow> ledger_ok win now (opened L)"
  by (simp add: ledger_ok_def pass_ok_def opened_def open_pass_def)

text \<open>The end of a pass: all entries are behind the iterator, so what it noted holds of the whole ledger.\<close>

lemma ledger_ok_close:
  assumes ok: "ledger_ok win now L" and "lg_cursor L \<noteq> None" and "cursor_entry L = None"
  shows "ledger_ok win now (close_pass L)"
proof -
  obtain i where i: "lg_cursor L = Some i" and "take i (lg_map L) = lg_map L"
    using assms(2,3) by (auto simp: cursor_entry_def split: if_splits)
  then have "\<forall>p \<in> set (lg_map L). \<exists>e. lg_earliest L = Some e \<and> e \<le> ew_at (snd p) + win"
    and "\<forall>e. lg_earliest L = Some e \<longrightarrow> e \<le> now + win"
    using ok by (simp_all add: ledger_ok_def pass_ok_def)
  then show ?thesis using ok by (auto simp: ledger_ok_def pass_ok_def close_pass_def split: option.split)
qed

lemma take_filter: "take (length (filter P (take i xs))) (filter P xs) = filter P (take i xs)"
proof -
  have "filter P xs = filter P (take i xs) @ filter P (drop i xs)" by (metis append_take_drop_id filter_append)
  then show ?thesis by simp
qed

lemma filter_take_le: "length (filter P (take i xs)) \<le> length (filter P xs)"
proof -
  have "filter P xs = filter P (take i xs) @ filter P (drop i xs)" by (metis append_take_drop_id filter_append)
  then show ?thesis by simp
qed

lemma ledger_ok_drop: "ledger_ok win now L \<Longrightarrow> ledger_ok win now (ledger_drop k L)"
  by (auto simp: ledger_ok_def pass_ok_def ledger_drop_def cursor_del_def jm_del_def take_filter wf_filter filter_take_le split: option.split) force

text \<open>Past an entry that is dropped, and past one whose expiry is noted.\<close>

lemma entry_position:
  "cursor_entry L = Some p \<Longrightarrow> \<exists>i. lg_cursor L = Some i \<and> i < length (lg_map L) \<and> p = lg_map L ! i"
  by (auto simp: cursor_entry_def split: option.splits if_splits)

lemma ledger_ok_note:
  assumes ok: "ledger_ok win now L" and p: "cursor_entry L = Some p"
  shows "ledger_ok win now (note_expiry (ew_at (snd p) + win) (cursor_past L))"
proof -
  obtain i where i: "lg_cursor L = Some i" "i < length (lg_map L)" "p = lg_map L ! i" using entry_position [OF p] by blast
  then have "take (Suc i) (lg_map L) = take i (lg_map L) @ [p]" by (simp add: take_Suc_conv_app_nth)
  moreover have "ew_at (snd p) \<le> now" using ok i by (simp add: ledger_ok_def)
  ultimately show ?thesis using ok i(1,2)
    by (cases "lg_earliest L") (fastforce simp: ledger_ok_def pass_ok_def note_expiry_def cursor_past_def)+
qed

lemma ledger_ok_drop_past:
  assumes ok: "ledger_ok win now L" and p: "cursor_entry L = Some (k, w)"
  shows "ledger_ok win now (ledger_drop k (cursor_past L))"
proof -
  obtain i where i: "lg_cursor L = Some i" "i < length (lg_map L)" "(k, w) = lg_map L ! i" using entry_position [OF p] by blast
  have "take (Suc i) (lg_map L) = take i (lg_map L) @ [(k, w)]" using i by (simp add: take_Suc_conv_app_nth)
  then have "jm_del k (take (Suc i) (lg_map L)) = jm_del k (take i (lg_map L))" by (simp add: jm_del_def)
  then have "ledger_drop k (cursor_past L) = ledger_drop k L"
    using i(1) by (simp add: ledger_drop_def cursor_past_def cursor_del_def)
  then show ?thesis using ledger_ok_drop [OF ok] by simp
qed

section \<open>The walks\<close>

text \<open>Nothing but lapsed windows went.\<close>

definition only_lapsed :: "real \<Rightarrow> real \<Rightarrow> ledger \<Rightarrow> ledger \<Rightarrow> bool" where
  "only_lapsed win now L L' \<longleftrightarrow> (\<forall>k. jm_get (lg_map L') k = jm_get (lg_map L) k \<or>
     (\<exists>w. jm_get (lg_map L) k = Some w \<and> lapsed win now w \<and> jm_get (lg_map L') k = None))"

lemma only_lapsed_same: "lg_map L' = lg_map L \<Longrightarrow> only_lapsed win now L L'"
  by (simp add: only_lapsed_def)

lemma only_lapsed_trans: "only_lapsed win now A B \<Longrightarrow> only_lapsed win now B C \<Longrightarrow> only_lapsed win now A C"
  unfolding only_lapsed_def by metis

lemma entry_get: "ledger_ok win now L \<Longrightarrow> cursor_entry L = Some (k, w) \<Longrightarrow> jm_get (lg_map L) k = Some w"
  by (metis entry_position jm_mem_get ledger_ok_wf nth_mem)

lemma sweep_entry_keeps:
  assumes ok: "ledger_ok win now L" and p: "cursor_entry L = Some p"
  shows "ledger_ok win now (sweep_entry win now p (cursor_past L))" and "only_lapsed win now L (sweep_entry win now p (cursor_past L))"
    and "lg_evicted (sweep_entry win now p (cursor_past L)) = lg_evicted L"
    and "jm_size (lg_map (sweep_entry win now p (cursor_past L))) \<le> jm_size (lg_map L)"
proof -
  obtain k w where k: "p = (k, w)" by fastforce
  show "ledger_ok win now (sweep_entry win now p (cursor_past L))"
    using ledger_ok_note [OF ok p] ledger_ok_drop_past [OF ok] p k by (simp add: sweep_entry_def)
  show "only_lapsed win now L (sweep_entry win now p (cursor_past L))"
    using entry_get [OF ok] p k by (auto simp: sweep_entry_def only_lapsed_def)
  show "lg_evicted (sweep_entry win now p (cursor_past L)) = lg_evicted L"
    "jm_size (lg_map (sweep_entry win now p (cursor_past L))) \<le> jm_size (lg_map L)"
    by (simp_all add: sweep_entry_def length_jm_del_le)
qed

lemma reclaim_loop_keeps:
  "ledger_ok win now L \<Longrightarrow> ledger_ok win now (reclaim_loop win now steps wrapped L) \<and>
     only_lapsed win now L (reclaim_loop win now steps wrapped L) \<and>
     lg_evicted (reclaim_loop win now steps wrapped L) = lg_evicted L \<and>
     jm_size (lg_map (reclaim_loop win now steps wrapped L)) \<le> jm_size (lg_map L)"
proof (induction win now steps wrapped L rule: reclaim_loop.induct)
  case (1 win now steps wrapped L)
  let ?wrapped = "if lg_cursor L = None then wrapped + 1 else wrapped"
  show ?case
  proof (cases "steps < egress_sweep_steps \<and> wrapped < 2")
    case False
    then show ?thesis using 1(3) only_lapsed_same [of L L] by (subst (1 2 3 4) reclaim_loop.simps) auto
  next
    case go: True
    have ok: "ledger_ok win now (opened L)" using ledger_ok_opened [OF 1(3)] .
    have same: "only_lapsed win now L L'" if "only_lapsed win now (opened L) L'" for L'
      using that by (simp add: only_lapsed_def)
    show ?thesis
    proof (cases "cursor_entry (opened L)")
      case None
      have "reclaim_loop win now steps wrapped L = reclaim_loop win now steps ?wrapped (close_pass (opened L))"
        using go None by (subst reclaim_loop.simps) simp
      moreover have "ledger_ok win now (close_pass (opened L))" using ledger_ok_close [OF ok _ None] by simp
      ultimately show ?thesis using 1(1) [of ?wrapped] go None by (simp add: only_lapsed_def)
    next
      case (Some p)
      have "reclaim_loop win now steps wrapped L = reclaim_loop win now (steps + 1) ?wrapped (sweep_entry win now p (cursor_past (opened L)))"
        using go Some by (subst reclaim_loop.simps) simp
      moreover note sweep_entry_keeps [OF ok Some]
      moreover note 1(2) [OF _ refl Some]
      ultimately show ?thesis using go same only_lapsed_trans by (simp add: only_lapsed_def)
    qed
  qed
qed

text \<open>An eviction takes one entry, if there is one to sample, and reports whether it was still counting.\<close>

definition evicts :: "real \<Rightarrow> real \<Rightarrow> ledger \<Rightarrow> ledger \<Rightarrow> bool" where
  "evicts win now L L' \<longleftrightarrow> (\<exists>k w. jm_get (lg_map L) k = Some w \<and> lg_map L' = jm_del k (lg_map L) \<and>
     lg_evicted L' = lg_evicted L @ [(\<not> lapsed win now w, k)])"

definition can_sample :: "nat \<Rightarrow> nat \<Rightarrow> nat \<Rightarrow> ledger \<Rightarrow> bool" where
  "can_sample target sampled wrapped L \<longleftrightarrow> sampled < target \<and> wrapped < 2 \<and> lg_map L \<noteq> [] \<and>
     (wrapped = 0 \<or> lg_cursor L = None \<or> (\<exists>i < length (lg_map L). lg_cursor L = Some i))"

lemma can_sample_open:
  "can_sample target sampled wrapped L \<Longrightarrow> cursor_entry (opened L) = None \<Longrightarrow>
     can_sample target sampled (if lg_cursor L = None then wrapped + 1 else wrapped) (close_pass (opened L))"
  by (auto simp: can_sample_def cursor_entry_def opened_def open_pass_def split: if_splits option.splits)

lemma evict_loop_keeps:
  assumes "ledger_ok (lc_window cfg) now L"
    and "\<And>s k. best = Some (s, k) \<Longrightarrow> \<exists>w. jm_get (lg_map L) k = Some w \<and> \<not> lapsed (lc_window cfg) now w"
  shows "ledger_ok (lc_window cfg) now (evict_loop cfg now sampled wrapped L best) \<and>
    (evicts (lc_window cfg) now L (evict_loop cfg now sampled wrapped L best) \<or>
      best = None \<and> \<not> can_sample (lc_sample cfg) sampled wrapped L \<and>
      lg_map (evict_loop cfg now sampled wrapped L best) = lg_map L \<and> lg_evicted (evict_loop cfg now sampled wrapped L best) = lg_evicted L)"
  using assms
proof (induction cfg now sampled wrapped L best rule: evict_loop.induct)
  case (1 cfg now sampled wrapped L best)
  let ?wrapped = "if lg_cursor L = None then wrapped + 1 else wrapped" and ?win = "lc_window cfg"
  let ?go = "sampled < lc_sample cfg \<and> wrapped < 2"
  have ok: "ledger_ok ?win now (opened L)" using ledger_ok_opened [OF 1(3)] .
  consider (stop) "\<not> ?go" | (ended) "?go" "cursor_entry (opened L) = None"
    | (free) k w where "?go" "cursor_entry (opened L) = Some (k, w)" "lapsed ?win now w"
    | (live) k w where "?go" "cursor_entry (opened L) = Some (k, w)" "\<not> lapsed ?win now w"
    by (metis not_None_eq surj_pair)
  then show ?case
  proof cases
    case stop
    show ?thesis
    proof (cases best)
      case None
      then show ?thesis using stop 1(3) by (subst (1 2 3 4) evict_loop.simps) (auto simp: can_sample_def)
    next
      case (Some p)
      obtain s k where p: "p = (s, k)" by fastforce
      have "ledger_ok ?win now (ledger_drop k L)" using ledger_ok_drop [OF 1(3)] .
      then have "ledger_ok ?win now ((ledger_drop k L)\<lparr>lg_evicted := lg_evicted L @ [(True, k)]\<rparr>)"
        by simp
      moreover have "evict_loop cfg now sampled wrapped L best = (ledger_drop k L)\<lparr>lg_evicted := lg_evicted L @ [(True, k)]\<rparr>"
        using stop Some p by (subst evict_loop.simps) auto
      ultimately show ?thesis using 1(4) Some p by (fastforce simp: evicts_def)
    qed
  next
    case ended
    let ?L = "close_pass (opened L)"
    let ?R = "evict_loop cfg now sampled ?wrapped ?L best"
    have eq: "evict_loop cfg now sampled wrapped L best = ?R"
      using ended by (subst evict_loop.simps) simp
    have closed: "ledger_ok ?win now ?L" using ledger_ok_close [OF ok _ ended(2)] by simp
    have m: "\<exists>w. jm_get (lg_map ?L) k = Some w \<and> \<not> lapsed ?win now w" if "best = Some (s, k)" for s k
      using 1(4) [OF that] by simp
    have ih: "ledger_ok ?win now ?R \<and> (evicts ?win now ?L ?R \<or> best = None \<and> \<not> can_sample (lc_sample cfg) sampled ?wrapped ?L \<and>
        lg_map ?R = lg_map ?L \<and> lg_evicted ?R = lg_evicted ?L)"
      using ended(1) by - (rule 1(1) [OF _ refl ended(2) closed m], simp_all)
    have ev: "evicts ?win now ?L ?R \<longleftrightarrow> evicts ?win now L ?R" by (simp only: evicts_def pass_simps opened_simps)
    show ?thesis using ih can_sample_open [OF _ ended(2)] unfolding eq ev by (simp only: pass_simps opened_simps) blast
  next
    case free
    have eq: "evict_loop cfg now sampled wrapped L best =
        (let L' = ledger_drop k (cursor_past (opened L)) in L'\<lparr>lg_evicted := lg_evicted L' @ [(False, k)]\<rparr>)"
      using free by (subst evict_loop.simps) simp
    have "ledger_ok ?win now (ledger_drop k (cursor_past (opened L)))" using ledger_ok_drop_past [OF ok free(2)] .
    then show ?thesis using entry_get [OF ok free(2)] free(3) by (auto simp: eq Let_def evicts_def)
  next
    case live
    let ?score = "spent_fraction (lc_ceilings cfg) w + ew_pu w"
    let ?best = "case best of None \<Rightarrow> Some (?score, k) | Some (least, _) \<Rightarrow> if ?score < least then Some (?score, k) else best"
    let ?L = "note_expiry (ew_at w + ?win) (cursor_past (opened L))"
    have eq: "evict_loop cfg now sampled wrapped L best = evict_loop cfg now (sampled + 1) ?wrapped ?L ?best"
      using live by (subst evict_loop.simps) (simp add: Let_def)
    have noted: "ledger_ok ?win now ?L" using ledger_ok_note [OF ok live(2)] by simp
    have m: "\<exists>w. jm_get (lg_map ?L) j = Some w \<and> \<not> lapsed ?win now w" if "?best = Some (s, j)" for s j
      using that 1(4) [of s j] entry_get [OF ok live(2)] live(3) by (auto split: option.splits if_splits)
    let ?R = "evict_loop cfg now (sampled + 1) ?wrapped ?L ?best"
    have ih: "ledger_ok ?win now ?R \<and> (evicts ?win now ?L ?R \<or> ?best = None \<and> \<not> can_sample (lc_sample cfg) (sampled + 1) ?wrapped ?L \<and>
        lg_map ?R = lg_map ?L \<and> lg_evicted ?R = lg_evicted ?L)"
      using live(1) by - (rule 1(2) [OF _ refl live(2) refl refl live(3) refl refl noted], simp, rule m)
    have ev: "evicts ?win now ?L ?R \<longleftrightarrow> evicts ?win now L ?R" by (simp only: evicts_def pass_simps opened_simps)
    have "?best \<noteq> None" by (auto split: option.splits)
    then have "ledger_ok ?win now ?R" and "evicts ?win now L ?R" using ih ev by (simp_all only: HOL.simp_thms)
    then show ?thesis by (simp only: eq HOL.simp_thms)
  qed
qed

lemma reclaim_expired_keeps:
  assumes "ledger_ok (lc_window cfg) now L"
  shows "ledger_ok (lc_window cfg) now (reclaim_expired cfg now L)" and "only_lapsed (lc_window cfg) now L (reclaim_expired cfg now L)"
    and "lg_evicted (reclaim_expired cfg now L) = lg_evicted L"
    and "jm_size (lg_map (reclaim_expired cfg now L)) \<le> jm_size (lg_map L)"
  using reclaim_loop_keeps [OF assms, of 0 0] assms by (simp_all add: reclaim_expired_def only_lapsed_same)

lemma evict_one_frees:
  assumes ok: "ledger_ok (lc_window cfg) now L"
  shows "ledger_ok (lc_window cfg) now (egress_evict_one cfg now L)"
    and "lg_map L \<noteq> [] \<Longrightarrow> 0 < lc_sample cfg \<Longrightarrow> Suc (jm_size (lg_map (egress_evict_one cfg now L))) = jm_size (lg_map L)"
    and "(True, k) \<in> set (lg_evicted (egress_evict_one cfg now L)) \<or> jm_get (lg_map (egress_evict_one cfg now L)) k = jm_get (lg_map L) k \<or>
      (\<exists>w. jm_get (lg_map L) k = Some w \<and> lapsed (lc_window cfg) now w \<and> jm_get (lg_map (egress_evict_one cfg now L)) k = None)"
    and "set (lg_evicted L) \<subseteq> set (lg_evicted (egress_evict_one cfg now L))"
proof -
  let ?L = "egress_evict_one cfg now L"
  have all: "ledger_ok (lc_window cfg) now ?L \<and> (evicts (lc_window cfg) now L ?L \<or>
      \<not> can_sample (lc_sample cfg) 0 0 L \<and> lg_map ?L = lg_map L \<and> lg_evicted ?L = lg_evicted L)"
    using evict_loop_keeps [OF ok, of None 0 0] by (auto simp: egress_evict_one_def)
  then show "ledger_ok (lc_window cfg) now ?L" by simp
  show "Suc (jm_size (lg_map ?L)) = jm_size (lg_map L)" if "lg_map L \<noteq> []" "0 < lc_sample cfg"
  proof -
    have "can_sample (lc_sample cfg) 0 0 L" using that by (simp add: can_sample_def)
    then have "evicts (lc_window cfg) now L ?L" using all by blast
    then obtain j w where "jm_get (lg_map L) j = Some w" and "lg_map ?L = jm_del j (lg_map L)"
      unfolding evicts_def by blast
    then show ?thesis using ledger_ok_wf [OF ok] that by (simp add: length_jm_del jm_has_get)
  qed
  show "(True, k) \<in> set (lg_evicted ?L) \<or> jm_get (lg_map ?L) k = jm_get (lg_map L) k \<or>
      (\<exists>w. jm_get (lg_map L) k = Some w \<and> lapsed (lc_window cfg) now w \<and> jm_get (lg_map ?L) k = None)"
  proof (cases "lg_map ?L = lg_map L")
    case False
    then obtain j w where j: "jm_get (lg_map L) j = Some w" "lg_map ?L = jm_del j (lg_map L)"
        "lg_evicted ?L = lg_evicted L @ [(\<not> lapsed (lc_window cfg) now w, j)]"
      using all unfolding evicts_def by blast
    then show ?thesis by (cases "k = j"; cases "lapsed (lc_window cfg) now w") simp_all
  qed simp
  show "set (lg_evicted L) \<subseteq> set (lg_evicted ?L)" using all by (auto simp: evicts_def)
qed

section \<open>The window of a key\<close>

definition ledger_cfg_ok :: "ledger_config \<Rightarrow> bool" where
  "ledger_cfg_ok cfg \<longleftrightarrow> 0 < lc_window cfg \<and> 0 < lc_keys cfg \<and> 0 < lc_sample cfg"

definition ledger_inv :: "ledger_config \<Rightarrow> real \<Rightarrow> ledger \<Rightarrow> bool" where
  "ledger_inv cfg now L \<longleftrightarrow> ledger_ok (lc_window cfg) now L \<and> jm_size (lg_map L) \<le> lc_keys cfg"

text \<open>Replacing the window of a key: it keeps its place, so the pass in progress keeps what it covered.\<close>

lemma jm_set_take:
  "jm_wf m \<Longrightarrow> p \<in> set (take i (jm_set k v m)) \<Longrightarrow> p \<in> set (take i m) \<or> p = (k, v) \<and> (k \<in> fst ` set (take i m) \<or> length m < i)"
proof (induction m arbitrary: i)
  case (Cons q m)
  then show ?case using Cons.IH [of "i - 1"] by (cases i) (auto simp: jm_wf_def split: if_splits)
qed (auto split: if_splits simp: take_Cons' )

lemma ledger_ok_put:
  assumes ok: "ledger_ok win now L" and later: "ew_at w \<le> now"
    and from_old: "\<And>v. jm_get (lg_map L) key = Some v \<Longrightarrow> ew_at v \<le> ew_at w"
    and from_new: "jm_get (lg_map L) key = None \<Longrightarrow> ew_at w = now"
  shows "ledger_ok win now (L\<lparr>lg_map := jm_set key w (lg_map L)\<rparr>)"
proof -
  have wf: "jm_wf (lg_map L)" using ok by (simp add: ledger_ok_def)
  have old: "ew_at (snd p) \<le> ew_at w" if "p \<in> set (lg_map L)" "fst p = key" for p
    using that from_old jm_mem_get [OF wf, of key "snd p"] by (metis prod.collapse)
  have "lg_until L \<le> ew_at w + win"
  proof (cases "jm_get (lg_map L) key")
    case None
    then show ?thesis using ok from_new by (simp add: ledger_ok_def)
  next
    case (Some v)
    then show ?thesis using ok old [of "(key, v)"] jm_get_Some_mem [OF Some] by (fastforce simp: ledger_ok_def)
  qed
  then have all: "ew_at (snd p) \<le> now \<and> lg_until L \<le> ew_at (snd p) + win" if "p \<in> set (jm_set key w (lg_map L))" for p
    using mem_jm_set [of p key w "lg_map L"] ok later that by (auto simp: ledger_ok_def)
  have cursor: "i \<le> length (lg_map L)" if "lg_cursor L = Some i" for i using ok that by (simp add: ledger_ok_def pass_ok_def)
  have passed: "\<exists>e. lg_earliest L = Some e \<and> e \<le> ew_at (snd p) + win"
    if c: "lg_cursor L = Some i" and p: "p \<in> set (take i (jm_set key w (lg_map L)))" for i p
  proof -
    have seen: "\<exists>e. lg_earliest L = Some e \<and> e \<le> ew_at (snd q) + win" if "q \<in> set (take i (lg_map L))" for q
      using ok c that by (simp add: ledger_ok_def pass_ok_def)
    from jm_set_take [OF wf p] cursor [OF c] consider "p \<in> set (take i (lg_map L))"
      | q where "p = (key, w)" "q \<in> set (take i (lg_map L))" "fst q = key" by fastforce
    then show ?thesis
    proof cases
      case 2
      then have "ew_at (snd q) \<le> ew_at w" using old [of q] in_set_takeD [of q i "lg_map L"] by simp
      then show ?thesis using seen [OF 2(2)] 2(1) by fastforce
    qed (use seen in simp)
  qed
  have "i \<le> length (jm_set key w (lg_map L))" if "lg_cursor L = Some i" for i using cursor [OF that] by (simp add: length_jm_set)
  then show ?thesis using ok all passed wf by (cases "lg_cursor L") (simp_all add: ledger_ok_def pass_ok_def)
qed

text \<open>What \<open>windowFor\<close> returns and what it leaves: the window of the key, fresh or rotated, in the ledger; every
  other key as it was, unless its window had lapsed or an eviction of a live window was reported.\<close>

definition current_window :: "ledger_config \<Rightarrow> real \<Rightarrow> egress_window option \<Rightarrow> egress_window" where
  "current_window cfg now x = (case x of None \<Rightarrow> new_window now | Some w \<Rightarrow> rotate_window cfg now w)"

definition keeps_others :: "ledger_config \<Rightarrow> real \<Rightarrow> js_string \<Rightarrow> ledger \<Rightarrow> ledger \<Rightarrow> bool" where
  "keeps_others cfg now k L L' \<longleftrightarrow> (True, k) \<in> set (lg_evicted L') \<or> jm_get (lg_map L') k = jm_get (lg_map L) k \<or>
     (\<exists>w. jm_get (lg_map L) k = Some w \<and> lapsed (lc_window cfg) now w \<and> jm_get (lg_map L') k = None)"

lemma window_room:
  assumes inv: "ledger_inv cfg now L" and cfg: "ledger_cfg_ok cfg" and room: "room = (let L = reclaim_expired cfg now L
      in if lc_keys cfg \<le> jm_size (lg_map L) then egress_evict_one cfg now L else L)"
  shows "ledger_ok (lc_window cfg) now room" and "jm_size (lg_map room) < lc_keys cfg" and "set (lg_evicted L) \<subseteq> set (lg_evicted room)"
    and "keeps_others cfg now k L room" and "jm_get (lg_map L) k = None \<Longrightarrow> jm_get (lg_map room) k = None"
proof -
  let ?L = "reclaim_expired cfg now L"
  have ok: "ledger_ok (lc_window cfg) now L" using inv by (simp add: ledger_inv_def)
  note swept = reclaim_expired_keeps [OF ok] and freed = evict_one_frees [OF reclaim_expired_keeps(1) [OF ok]]
  have size: "jm_size (lg_map ?L) \<le> lc_keys cfg" using swept(4) inv by (simp add: ledger_inv_def)
  show "ledger_ok (lc_window cfg) now room" using swept(1) freed(1) by (simp add: room Let_def)
  show "jm_size (lg_map room) < lc_keys cfg"
  proof (cases "lc_keys cfg \<le> jm_size (lg_map ?L)")
    case True
    then have "lg_map ?L \<noteq> []" and "0 < lc_sample cfg" using cfg by (auto simp: ledger_cfg_ok_def)
    then show ?thesis using freed(2) True size by (simp add: room Let_def)
  qed (simp add: room Let_def)
  show "set (lg_evicted L) \<subseteq> set (lg_evicted room)" using swept(3) freed(4) by (auto simp: room Let_def)
  have step: "jm_get (lg_map ?L) k = jm_get (lg_map L) k \<or>
      (\<exists>w. jm_get (lg_map L) k = Some w \<and> lapsed (lc_window cfg) now w \<and> jm_get (lg_map ?L) k = None)" for k
    using swept(2) by (simp add: only_lapsed_def)
  show "keeps_others cfg now k L room" using step [of k] freed(3) [of k] by (auto simp: room Let_def keeps_others_def)
  show "jm_get (lg_map room) k = None" if "jm_get (lg_map L) k = None"
  proof (cases "lg_map room = lg_map ?L")
    case False
    then have "evicts (lc_window cfg) now ?L room"
      using evict_loop_keeps [OF swept(1), of None 0 0] by (auto simp: room Let_def egress_evict_one_def split: if_splits)
    then show ?thesis using step [of k] that by (auto simp: evicts_def)
  qed (use step [of k] that in simp)
qed

lemma window_for_keeps:
  assumes inv: "ledger_inv cfg now L" and cfg: "ledger_cfg_ok cfg" and w: "window_for cfg key now L = (w, L')"
  shows "ledger_inv cfg now L'" and "w = current_window cfg now (jm_get (lg_map L) key)" and "jm_get (lg_map L') key = Some w"
    and "set (lg_evicted L) \<subseteq> set (lg_evicted L')" and "k \<noteq> key \<Longrightarrow> keeps_others cfg now k L L'"
proof -
  let ?room = "let L = reclaim_expired cfg now L in if lc_keys cfg \<le> jm_size (lg_map L) then egress_evict_one cfg now L else L"
  have ok: "ledger_ok (lc_window cfg) now L" and size: "jm_size (lg_map L) \<le> lc_keys cfg" using inv by (simp_all add: ledger_inv_def)
  have put: "ledger_ok (lc_window cfg) now (B\<lparr>lg_map := jm_set key w (lg_map B)\<rparr>)"
    if "ledger_ok (lc_window cfg) now B" "jm_get (lg_map B) key = jm_get (lg_map L) key" for B
  proof (rule ledger_ok_put [OF that(1)])
    have past: "ew_at v \<le> now" if "jm_get (lg_map L) key = Some v" for v
      using ok jm_get_Some_mem [OF that] by (fastforce simp: ledger_ok_def)
    show "ew_at w \<le> now" "\<And>v. jm_get (lg_map B) key = Some v \<Longrightarrow> ew_at v \<le> ew_at w" "jm_get (lg_map B) key = None \<Longrightarrow> ew_at w = now"
      using w that(2) past by (auto simp: window_for_def new_window_def rotate_window_def Let_def split: option.splits)
  qed
  show "w = current_window cfg now (jm_get (lg_map L) key)" "jm_get (lg_map L') key = Some w"
    using w by (auto simp: window_for_def current_window_def Let_def split: option.splits)
  have "ledger_inv cfg now L' \<and> set (lg_evicted L) \<subseteq> set (lg_evicted L') \<and> (k \<noteq> key \<longrightarrow> keeps_others cfg now k L L')"
  proof (cases "jm_get (lg_map L) key")
    case (Some v)
    then have L': "L' = L\<lparr>lg_map := jm_set key w (lg_map L)\<rparr>" using w by (auto simp: window_for_def Let_def)
    show ?thesis using put [OF ok] Some size by (simp add: L' ledger_inv_def keeps_others_def length_jm_set)
  next
    case None
    note room = window_room [OF inv cfg refl]
    define B where "B = (if sweep_floor cfg \<le> jm_size (lg_map L) then ?room else L)"
    have L': "L' = B\<lparr>lg_map := jm_set key w (lg_map B)\<rparr>" using w None by (auto simp: window_for_def Let_def B_def)
    have "sweep_floor cfg \<le> lc_keys cfg" by (simp add: sweep_floor_def)
    then have small: "jm_size (lg_map B) < lc_keys cfg" using room(2) by (simp add: B_def)
    have B: "ledger_ok (lc_window cfg) now B" "set (lg_evicted L) \<subseteq> set (lg_evicted B)" "keeps_others cfg now k L B" "jm_get (lg_map B) key = None"
      using room(1,3) room(4) [of k] room(5) [of key] ok None by (simp_all add: B_def keeps_others_def)
    show ?thesis using put [OF B(1)] B small None by (auto simp: L' ledger_inv_def keeps_others_def length_jm_set)
  qed
  then show "ledger_inv cfg now L'" "set (lg_evicted L) \<subseteq> set (lg_evicted L')" "k \<noteq> key \<Longrightarrow> keeps_others cfg now k L L'"
    by simp_all
qed

end
