(* ===== verification/Egress_Account.thy ===== *)
theory Egress_Account
  imports Egress_Ledger Wire_Frame Utf8
begin

text \<open>
  The publish-egress account of \<open>src/runtime/utils/egress-account.js\<close>: normalised options, the two
  ledgers, the topic-to-tenant memo, the decision and the charge, and the publish of
  \<open>src/runtime/handler/platform.js\<close> that takes them in turn. Readings of the clock are arguments. The
  resolver is the application's, a function of the topic as documented. \<open>ea_refused\<close> and
  \<open>ea_charged\<close> log the refusals reported and the charges taken; no operation reads them.
\<close>

section \<open>One window, one dimension\<close>

text \<open>What a window counts in one dimension: its start and the amount. \<open>room\<close> decides from the amount and the cost.\<close>

definition wm_rotate :: "real \<Rightarrow> real \<Rightarrow> (real \<times> real) option \<Rightarrow> real \<times> real" where
  "wm_rotate win now x = (case x of None \<Rightarrow> (now, 0) | Some (a, u) \<Rightarrow> if win \<le> now - a then (now, 0) else (a, u))"

definition wm_charge :: "real \<Rightarrow> (real \<Rightarrow> real \<Rightarrow> bool) \<Rightarrow> real \<Rightarrow> real \<Rightarrow> (real \<times> real) option \<Rightarrow> bool \<times> real \<times> real" where
  "wm_charge win room now c x = (case wm_rotate win now x of (a, u) \<Rightarrow> if room u c then (True, a, u + c) else (False, a, u))"

definition wm_sound :: "real \<Rightarrow> (real \<Rightarrow> real \<Rightarrow> bool) \<Rightarrow> real \<Rightarrow> real \<Rightarrow> bool" where
  "wm_sound win room peak cmax \<longleftrightarrow> 0 < win \<and> 0 \<le> peak \<and> (\<forall>u c. 0 \<le> u \<and> 0 \<le> c \<and> c \<le> cmax \<and> room u c \<longrightarrow> u + c \<le> peak)"

definition twice_peak :: "real \<Rightarrow> real \<Rightarrow> (real \<times> real) list \<Rightarrow> bool" where
  "twice_peak win peak h \<longleftrightarrow> (\<forall>a. cost_in (\<lambda>t. a \<le> t \<and> t < a + win) h \<le> 2 * peak)"

definition wm_good :: "real \<Rightarrow> real \<Rightarrow> real \<Rightarrow> (real \<times> real) option \<Rightarrow> (real \<times> real) list \<Rightarrow> bool" where
  "wm_good win peak now x h \<longleftrightarrow> twice_peak win peak h \<and> (\<forall>p \<in> set h. 0 \<le> snd p) \<and>
     (case x of
        None \<Rightarrow> (\<forall>p \<in> set h. fst p < now) \<and> cost_in (\<lambda>t. now - win \<le> t) h \<le> peak \<or> h = []
      | Some (a, u) \<Rightarrow> a \<le> now \<and> (\<forall>p \<in> set h. fst p < a + win) \<and> cost_in (\<lambda>t. a \<le> t) h = u \<and> u \<le> peak \<and>
          cost_in (\<lambda>t. a - win \<le> t \<and> t < a) h \<le> peak)"

lemma wm_good_nonneg: "wm_good win peak now (Some (a, u)) h \<Longrightarrow> 0 \<le> u"
proof -
  assume g: "wm_good win peak now (Some (a, u)) h"
  have "0 \<le> cost_in (\<lambda>t. a \<le> t) h" using g by (auto simp: wm_good_def cost_in_def intro!: sum_list_nonneg)
  then show ?thesis using g by (simp add: wm_good_def)
qed

text \<open>Rotating: what the closed window counted is what lies behind the new start.\<close>

lemma wm_good_rotate:
  assumes g: "wm_good win peak now x h" and s: "0 < win" "0 \<le> peak"
  shows "wm_good win peak now (Some (wm_rotate win now x)) h"
proof -
  have nn: "\<forall>p \<in> set h. 0 \<le> snd p" using g by (simp add: wm_good_def)
  have fresh: "wm_good win peak now (Some (now, 0)) h" if before: "\<forall>p \<in> set h. fst p < now" and le: "cost_in (\<lambda>t. now - win \<le> t) h \<le> peak"
  proof -
    have "cost_in (\<lambda>t. now \<le> t) h = 0" using before by (intro cost_in_none) fastforce
    moreover have "cost_in (\<lambda>t. now - win \<le> t \<and> t < now) h \<le> cost_in (\<lambda>t. now - win \<le> t) h"
      by (rule cost_in_mono) (use nn in auto)
    ultimately show ?thesis using g before le s by (fastforce simp: wm_good_def)
  qed
  show ?thesis
  proof (cases x)
    case None
    then show ?thesis using g fresh s by (cases "h = []") (auto simp: wm_rotate_def wm_good_def)
  next
    case (Some p)
    obtain a u where p: "p = (a, u)" by fastforce
    show ?thesis
    proof (cases "win \<le> now - a")
      case True
      have "cost_in (\<lambda>t. now - win \<le> t) h \<le> cost_in (\<lambda>t. a \<le> t) h"
        by (rule cost_in_mono) (use nn True in auto)
      then show ?thesis using g fresh True Some p by (fastforce simp: wm_rotate_def wm_good_def)
    qed (use g Some p in \<open>simp add: wm_rotate_def\<close>)
  qed
qed

lemma wm_good_charge:
  assumes g: "wm_good win peak now x h" and s: "wm_sound win room peak cmax" and c: "0 \<le> c" "c \<le> cmax"
    and ch: "wm_charge win room now c x = (ok, e')"
  shows "wm_good win peak now (Some e') (if ok then h @ [(now, c)] else h)"
proof -
  have win: "0 < win" "0 \<le> peak" using s by (simp_all add: wm_sound_def)
  obtain a u where r: "wm_rotate win now x = (a, u)" by fastforce
  have g': "wm_good win peak now (Some (a, u)) h" using wm_good_rotate [OF g win] r by simp
  have near: "now < a + win" using r win by (auto simp: wm_rotate_def split: option.splits if_splits)
  show ?thesis
  proof (cases "room u c")
    case False
    then show ?thesis using ch r g' by (simp add: wm_charge_def)
  next
    case True
    then have "u + c \<le> peak" using s c wm_good_nonneg [OF g'] by (simp add: wm_sound_def)
    have nn: "\<forall>p \<in> set h. 0 \<le> snd p" and at: "a \<le> now" and le: "cost_in (\<lambda>t. a - win \<le> t \<and> t < a) h \<le> peak"
        and here: "cost_in (\<lambda>t. a \<le> t) h = u"
      using g' by (simp_all add: wm_good_def)
    have "cost_in (\<lambda>t. b \<le> t \<and> t < b + win) (h @ [(now, c)]) \<le> 2 * peak" for b
    proof (cases "b \<le> now \<and> now < b + win")
      case inside: True
      have "cost_in (\<lambda>t. b \<le> t \<and> t < b + win) h =
          cost_in (\<lambda>t. (b \<le> t \<and> t < b + win) \<and> a \<le> t) h + cost_in (\<lambda>t. (b \<le> t \<and> t < b + win) \<and> \<not> a \<le> t) h"
        by (rule cost_in_split)
      moreover have "cost_in (\<lambda>t. (b \<le> t \<and> t < b + win) \<and> a \<le> t) h \<le> cost_in (\<lambda>t. a \<le> t) h"
        by (rule cost_in_mono) (use nn in auto)
      moreover have "cost_in (\<lambda>t. (b \<le> t \<and> t < b + win) \<and> \<not> a \<le> t) h \<le> cost_in (\<lambda>t. a - win \<le> t \<and> t < a) h"
        by (rule cost_in_mono) (use nn inside at in auto)
      ultimately show ?thesis using inside \<open>u + c \<le> peak\<close> here le by simp
    next
      case False
      then show ?thesis using g' by (auto simp: wm_good_def twice_peak_def)
    qed
    then show ?thesis using ch r g' True near at c \<open>u + c \<le> peak\<close> by (auto simp: wm_charge_def wm_good_def twice_peak_def)
  qed
qed

definition wm_stale :: "real \<Rightarrow> real \<Rightarrow> real \<times> real \<Rightarrow> bool" where
  "wm_stale win now e \<longleftrightarrow> win \<le> now - fst e"

interpretation egress_meter: keyed_meter "wm_charge win room" "wm_stale win" "\<lambda>now x e'. e' = wm_rotate win now x"
    "\<lambda>now x h. wm_sound win room peak cmax \<longrightarrow> wm_good win peak now x h" "\<lambda>h. wm_sound win room peak cmax \<longrightarrow> twice_peak win peak h"
    "\<lambda>c. 0 \<le> c \<and> c \<le> cmax" for win room peak cmax
proof unfold_locales
  show "wm_sound win room peak cmax \<longrightarrow> wm_good win peak now None []" for now
    by (simp add: wm_sound_def wm_good_def twice_peak_def)
  show "wm_sound win room peak cmax \<longrightarrow> wm_good win peak n x h"
    if "wm_sound win room peak cmax \<longrightarrow> wm_good win peak now x h" "now \<le> n" for now n x h
  proof
    assume "wm_sound win room peak cmax"
    then have g: "wm_good win peak now x h" using that by simp
    have "cost_in (\<lambda>t. n - win \<le> t) h \<le> cost_in (\<lambda>t. now - win \<le> t) h"
      by (rule cost_in_mono) (use g that(2) in \<open>auto simp: wm_good_def\<close>)
    then show "wm_good win peak n x h" using g that(2) by (fastforce simp: wm_good_def split: option.splits)
  qed
  show "wm_sound win room peak cmax \<longrightarrow> wm_good win peak now None h"
    if "wm_sound win room peak cmax \<longrightarrow> wm_good win peak now (Some e) h" "wm_stale win now e" for now e h
  proof
    assume s: "wm_sound win room peak cmax"
    obtain a u where e: "e = (a, u)" by fastforce
    have g: "wm_good win peak now (Some (a, u)) h" using that(1) s e by simp
    have "cost_in (\<lambda>t. now - win \<le> t) h \<le> cost_in (\<lambda>t. a \<le> t) h"
      by (rule cost_in_mono) (use g that(2) e in \<open>auto simp: wm_good_def wm_stale_def\<close>)
    then show "wm_good win peak now None h" using g that(2) e by (fastforce simp: wm_good_def wm_stale_def)
  qed
next
  fix now x h c ok e'
  assume "wm_sound win room peak cmax \<longrightarrow> wm_good win peak now x h" "0 \<le> c \<and> c \<le> cmax" "wm_charge win room now c x = (ok, e')"
  then show "wm_sound win room peak cmax \<longrightarrow> wm_good win peak now (Some e') (if ok then h @ [(now, c)] else h)"
    using wm_good_charge by blast
next
  fix now x h e'
  assume "wm_sound win room peak cmax \<longrightarrow> wm_good win peak now x h" "e' = wm_rotate win now x"
  then show "wm_sound win room peak cmax \<longrightarrow> wm_good win peak now (Some e') h"
    using wm_good_rotate unfolding wm_sound_def by blast
next
  fix now x h
  assume "wm_sound win room peak cmax \<longrightarrow> wm_good win peak now x h"
  then show "wm_sound win room peak cmax \<longrightarrow> twice_peak win peak h" by (simp add: wm_good_def)
qed

section \<open>Configuration\<close>

datatype egress_dimension = DimMessages | DimBytes | DimDeliveries

datatype egress_scope = TopicScope | TenantScope

text \<open>An option as it arrives: a number, or anything else (absent included).\<close>

type_synonym number_option = "real option"

record scope_section =
  ss_messages :: number_option
  ss_bytes :: number_option
  ss_deliveries :: number_option

record egress_section =
  es_window :: number_option
  es_keys :: number_option
  es_sample :: number_option
  es_topic :: "scope_section option"
  es_tenant :: "scope_section option"

record egress_config =
  gc_window :: real
  gc_keys :: nat
  gc_sample :: nat
  gc_topic :: egress_ceilings
  gc_tenant :: egress_ceilings

definition egress_default_window :: real where
  "egress_default_window = 1000"

definition egress_default_keys :: nat where
  "egress_default_keys = 4096"

definition egress_keys_floor :: nat where
  "egress_keys_floor = 1024"

definition egress_keys_ceiling :: nat where
  "egress_keys_ceiling = 2 ^ 24"

definition egress_default_sample :: nat where
  "egress_default_sample = 8"

definition safe_option :: "real \<Rightarrow> bool" where
  "safe_option x \<longleftrightarrow> x = of_int \<lfloor>x\<rfloor> \<and> \<bar>x\<bar> \<le> 2 ^ 53 - 1"

text \<open>\<open>while (maxKeys < src.maxKeys) maxKeys *= 2\<close>.\<close>

function double_until :: "nat \<Rightarrow> nat \<Rightarrow> nat" where
  "double_until want n = (if 0 < n \<and> n < want then double_until want (n * 2) else n)"
  by pat_completeness auto

termination
  by (relation "measure (\<lambda>(want, n). want - n)") auto

declare double_until.simps [simp del]

definition round_keys :: "number_option \<Rightarrow> nat" where
  "round_keys x = (case x of
     None \<Rightarrow> egress_default_keys
   | Some v \<Rightarrow> if safe_option v \<and> real egress_keys_floor \<le> v \<and> v \<le> real egress_keys_ceiling
       then double_until (nat \<lfloor>v\<rfloor>) egress_keys_floor else egress_default_keys)"

definition ceiling_of :: "number_option \<Rightarrow> nat" where
  "ceiling_of x = (case x of None \<Rightarrow> 0 | Some v \<Rightarrow> if safe_option v \<and> 0 < v then nat \<lfloor>v\<rfloor> else 0)"

definition scope_ceilings :: "scope_section option \<Rightarrow> egress_ceilings" where
  "scope_ceilings x = (case x of
     None \<Rightarrow> \<lparr>ec_messages = 0, ec_bytes = 0, ec_deliveries = 0\<rparr>
   | Some s \<Rightarrow> \<lparr>ec_messages = ceiling_of (ss_messages s), ec_bytes = ceiling_of (ss_bytes s), ec_deliveries = ceiling_of (ss_deliveries s)\<rparr>)"

text \<open>A finite \<open>windowMs\<close> is a \<open>Some\<close>; NaN and the infinities are not numbers one can use, so \<open>None\<close>.\<close>

definition normalize_egress :: "egress_section option \<Rightarrow> egress_config" where
  "normalize_egress input =
     \<lparr>gc_window = (case Option.bind input es_window of None \<Rightarrow> egress_default_window
        | Some v \<Rightarrow> if 100 \<le> v then v else egress_default_window),
      gc_keys = round_keys (Option.bind input es_keys),
      gc_sample = (case Option.bind input es_sample of None \<Rightarrow> egress_default_sample
        | Some v \<Rightarrow> if safe_option v \<and> 1 \<le> v then nat \<lfloor>v\<rfloor> else egress_default_sample),
      gc_topic = scope_ceilings (Option.bind input es_topic),
      gc_tenant = scope_ceilings (Option.bind input es_tenant)\<rparr>"

definition scope_armed :: "egress_ceilings \<Rightarrow> bool" where
  "scope_armed c \<longleftrightarrow> 0 < ec_messages c \<or> 0 < ec_bytes c \<or> 0 < ec_deliveries c"

definition egress_enabled :: "egress_config \<Rightarrow> bool" where
  "egress_enabled cfg \<longleftrightarrow> scope_armed (gc_topic cfg) \<or> scope_armed (gc_tenant cfg)"

definition bytes_armed :: "egress_config \<Rightarrow> bool" where
  "bytes_armed cfg \<longleftrightarrow> 0 < ec_bytes (gc_topic cfg) \<or> 0 < ec_bytes (gc_tenant cfg)"

fun scope_config :: "egress_config \<Rightarrow> egress_scope \<Rightarrow> ledger_config" where
  "scope_config cfg TopicScope = \<lparr>lc_ceilings = gc_topic cfg, lc_window = gc_window cfg, lc_keys = gc_keys cfg, lc_sample = gc_sample cfg\<rparr>"
| "scope_config cfg TenantScope = \<lparr>lc_ceilings = gc_tenant cfg, lc_window = gc_window cfg, lc_keys = gc_keys cfg, lc_sample = gc_sample cfg\<rparr>"

section \<open>State and operations\<close>

datatype resolver_answer = ResolverThrew | ResolvedNothing | ResolvedText js_string | ResolvedOther

record charge_entry =
  eg_topic :: js_string
  eg_tenant :: "js_string option"
  eg_time :: real
  eg_m :: nat
  eg_d :: nat
  eg_b :: nat

record egress_account =
  ea_topics :: ledger
  ea_tenants :: ledger
  ea_memo :: "(js_string, js_string option) jsmap option"
  ea_reported :: nat
  ea_refused :: "(egress_scope \<times> egress_dimension) list"
  ea_charged :: "charge_entry list"

text \<open>\<open>ea_reported\<close> counts the calls of \<open>onResolverInvalid\<close>; the code's flag is whether there was one.
  There is a memo when there is a resolver.\<close>

definition create_egress_account :: "bool \<Rightarrow> egress_account" where
  "create_egress_account resolver =
     \<lparr>ea_topics = create_window_ledger, ea_tenants = create_window_ledger, ea_memo = (if resolver then Some [] else None),
      ea_reported = 0, ea_refused = [], ea_charged = []\<rparr>"

definition id_char :: "16 word \<Rightarrow> bool" where
  "id_char c \<longleftrightarrow> (let n = unat c in 97 \<le> n \<and> n \<le> 122 \<or> 65 \<le> n \<and> n \<le> 90 \<or> 48 \<le> n \<and> n \<le> 57 \<or> n = 95 \<or> n = 45)"

definition valid_attribution_id :: "js_string \<Rightarrow> bool" where
  "valid_attribution_id s \<longleftrightarrow> 1 \<le> length s \<and> length s \<le> 64 \<and> list_all id_char s"

definition report_invalid :: "egress_account \<Rightarrow> egress_account" where
  "report_invalid A = (if ea_reported A = 0 then A\<lparr>ea_reported := 1\<rparr> else A)"

definition resolve_tenant ::
  "egress_config \<Rightarrow> (js_string \<Rightarrow> resolver_answer) option \<Rightarrow> js_string \<Rightarrow> egress_account \<Rightarrow> js_string option \<times> egress_account" where
  "resolve_tenant cfg tenant_of topic A =
     (case tenant_of of
        None \<Rightarrow> (None, A)
      | Some f \<Rightarrow>
          (case Option.bind (ea_memo A) (\<lambda>memo. jm_get memo topic) of
             Some hit \<Rightarrow> (hit, A)
           | None \<Rightarrow>
               let found = (case f topic of
                     ResolverThrew \<Rightarrow> (None, report_invalid A)
                   | ResolvedNothing \<Rightarrow> (None, A)
                   | ResolvedText raw \<Rightarrow> if valid_attribution_id raw then (Some raw, A) else (None, report_invalid A)
                   | ResolvedOther \<Rightarrow> (None, report_invalid A));
                   A = snd found
               in (fst found, A\<lparr>ea_memo := (case ea_memo A of
                     None \<Rightarrow> None
                   | Some memo \<Rightarrow> Some (jm_set topic (fst found) (if gc_keys cfg \<le> jm_size memo then [] else memo)))\<rparr>)))"

definition over_ceiling :: "egress_window \<Rightarrow> egress_ceilings \<Rightarrow> nat \<Rightarrow> nat \<Rightarrow> egress_dimension option" where
  "over_ceiling w c messages deliveries =
     (if 0 < ec_messages c \<and> ec_messages c < ew_m w + messages then Some DimMessages
      else if 0 < ec_deliveries c \<and> ec_deliveries c < ew_d w + deliveries then Some DimDeliveries
      else if 0 < ec_bytes c \<and> ec_bytes c \<le> ew_b w then Some DimBytes
      else None)"

definition admit_topic :: "egress_config \<Rightarrow> js_string option \<Rightarrow> nat \<Rightarrow> nat \<Rightarrow> real \<Rightarrow> egress_account \<Rightarrow> bool \<times> egress_account" where
  "admit_topic cfg topic messages deliveries now A =
     (case topic of
        None \<Rightarrow> (True, A)
      | Some k \<Rightarrow>
          if \<not> egress_enabled cfg \<or> \<not> scope_armed (gc_topic cfg) then (True, A)
          else (case window_for (scope_config cfg TopicScope) k now (ea_topics A) of (w, L) \<Rightarrow>
            let A = A\<lparr>ea_topics := L\<rparr>
            in case over_ceiling w (gc_topic cfg) messages deliveries of
                 None \<Rightarrow> (True, A)
               | Some dm \<Rightarrow> (False, A\<lparr>ea_refused := ea_refused A @ [(TopicScope, dm)]\<rparr>)))"

definition admit_tenant :: "egress_config \<Rightarrow> js_string option \<Rightarrow> nat \<Rightarrow> nat \<Rightarrow> real \<Rightarrow> egress_account \<Rightarrow> bool \<times> egress_account" where
  "admit_tenant cfg tenant messages deliveries now A =
     (case tenant of
        None \<Rightarrow> (True, A)
      | Some k \<Rightarrow>
          if \<not> egress_enabled cfg \<or> \<not> scope_armed (gc_tenant cfg) then (True, A)
          else (case window_for (scope_config cfg TenantScope) k now (ea_tenants A) of (w, L) \<Rightarrow>
            let A = A\<lparr>ea_tenants := L\<rparr>
            in case over_ceiling w (gc_tenant cfg) messages deliveries of
                 None \<Rightarrow> (True, A)
               | Some dm \<Rightarrow> (False, A\<lparr>ea_refused := ea_refused A @ [(TenantScope, dm)]\<rparr>)))"

text \<open>\<open>admit\<close>: the tenant is asked only when the topic said yes. Each half reads the clock for itself.\<close>

definition egress_admit ::
  "egress_config \<Rightarrow> js_string option \<Rightarrow> js_string option \<Rightarrow> nat \<Rightarrow> nat \<Rightarrow> real \<Rightarrow> real \<Rightarrow> egress_account \<Rightarrow> bool \<times> egress_account" where
  "egress_admit cfg topic tenant messages deliveries t1 t2 A =
     (if \<not> egress_enabled cfg then (True, A)
      else (case admit_topic cfg topic messages deliveries t1 A of
          (False, A) \<Rightarrow> (False, A)
        | (True, A) \<Rightarrow> admit_tenant cfg tenant messages deliveries t2 A))"

definition charge_scope :: "ledger_config \<Rightarrow> js_string option \<Rightarrow> nat \<Rightarrow> nat \<Rightarrow> nat \<Rightarrow> real \<Rightarrow> ledger \<Rightarrow> ledger" where
  "charge_scope cfg key messages deliveries bytes now L =
     (case key of
        None \<Rightarrow> L
      | Some k \<Rightarrow> if \<not> scope_armed (lc_ceilings cfg) then L
          else (case window_for cfg k now L of (w, L) \<Rightarrow> window_add k w messages deliveries bytes L))"

definition egress_charge :: "egress_config \<Rightarrow> js_string option \<Rightarrow> js_string option \<Rightarrow> nat \<Rightarrow> nat \<Rightarrow> nat \<Rightarrow> real \<Rightarrow> egress_account \<Rightarrow> egress_account" where
  "egress_charge cfg topic tenant messages deliveries bytes now A =
     (if \<not> egress_enabled cfg then A
      else A\<lparr>ea_topics := charge_scope (scope_config cfg TopicScope) topic messages deliveries bytes now (ea_topics A),
             ea_tenants := charge_scope (scope_config cfg TenantScope) tenant messages deliveries bytes now (ea_tenants A)\<rparr>)"

text \<open>The path of a publish through the account: the tenant is resolved when the gate has tenant ceilings, the
  decision is taken, and what was admitted is charged once it is serialized.\<close>

definition publish_tenant :: "egress_config \<Rightarrow> (js_string \<Rightarrow> resolver_answer) option \<Rightarrow> js_string \<Rightarrow> egress_account \<Rightarrow> js_string option \<times> egress_account" where
  "publish_tenant cfg tenant_of topic A =
     (if scope_armed (gc_tenant cfg) \<and> tenant_of \<noteq> None then resolve_tenant cfg tenant_of topic A else (None, A))"

definition egress_publish ::
  "egress_config \<Rightarrow> (js_string \<Rightarrow> resolver_answer) option \<Rightarrow> js_string \<Rightarrow> nat \<Rightarrow> nat \<Rightarrow> nat \<Rightarrow> real \<Rightarrow> real \<Rightarrow> real \<Rightarrow> egress_account \<Rightarrow>
     bool \<times> egress_account" where
  "egress_publish cfg tenant_of topic messages deliveries bytes t1 t2 t3 A =
     (case (if egress_enabled cfg then publish_tenant cfg tenant_of topic A else (None, A)) of (tenant, A) \<Rightarrow>
        (case egress_admit cfg (Some topic) tenant messages deliveries t1 t2 A of
           (False, A) \<Rightarrow> (False, A)
         | (True, A) \<Rightarrow>
             let A = egress_charge cfg (Some topic) tenant messages deliveries bytes t3 A
             in (True, A\<lparr>ea_charged := ea_charged A @
                   [\<lparr>eg_topic = topic, eg_tenant = tenant, eg_time = t3, eg_m = messages, eg_d = deliveries, eg_b = bytes\<rparr>]\<rparr>)))"

datatype egress_event = EgressPublish js_string nat nat nat real real real

fun egress_times :: "egress_event \<Rightarrow> real list" where
  "egress_times (EgressPublish topic m d b t1 t2 t3) = [t1, t2, t3]"

fun egress_bytes :: "egress_event \<Rightarrow> nat" where
  "egress_bytes (EgressPublish topic m d b t1 t2 t3) = b"

fun egress_step :: "egress_config \<Rightarrow> (js_string \<Rightarrow> resolver_answer) option \<Rightarrow> egress_account \<Rightarrow> egress_event \<Rightarrow> egress_account" where
  "egress_step cfg tenant_of A (EgressPublish topic m d b t1 t2 t3) = snd (egress_publish cfg tenant_of topic m d b t1 t2 t3 A)"

section \<open>Normalised options\<close>

lemma double_until_ge: "0 < n \<Longrightarrow> want \<le> double_until want n"
  by (induction want n rule: double_until.induct) (subst double_until.simps, auto)

lemma double_until_power: "\<exists>k. double_until want n = n * 2 ^ k"
proof (induction want n rule: double_until.induct)
  case (1 want n)
  show ?case
  proof (cases "0 < n \<and> n < want")
    case True
    then obtain k where "double_until want (n * 2) = n * 2 * 2 ^ k" using 1 by blast
    then have "double_until want n = n * 2 ^ Suc k" using True by (subst double_until.simps) simp
    then show ?thesis by blast
  next
    case False
    then have "double_until want n = n * 2 ^ 0" by (subst double_until.simps) auto
    then show ?thesis by blast
  qed
qed

lemma double_until_least: "n \<le> double_until want n \<and> (double_until want n = n \<or> double_until want n < 2 * want)"
proof (induction want n rule: double_until.induct)
  case (1 want n)
  then show ?case by (cases "0 < n \<and> n < want") (auto simp: double_until.simps [of want n])
qed

definition egress_config_ok :: "egress_config \<Rightarrow> bool" where
  "egress_config_ok cfg \<longleftrightarrow> 100 \<le> gc_window cfg \<and> 0 < gc_keys cfg \<and> 0 < gc_sample cfg"

lemma round_keys_pos: "0 < round_keys x"
  using double_until_least [of egress_keys_floor]
  by (auto simp: round_keys_def egress_default_keys_def egress_keys_floor_def split: option.split) (metis gr0I not_numeral_le_zero)

lemma normalize_ok: "egress_config_ok (normalize_egress input)"
proof -
  have "0 < nat \<lfloor>v\<rfloor>" if "1 \<le> v" for v :: real using that by (simp add: le_floor_iff)
  then show ?thesis
    by (auto simp: egress_config_ok_def normalize_egress_def round_keys_pos egress_default_window_def egress_default_sample_def split: option.split)
qed

lemma scope_config_simps [simp]:
  "lc_window (scope_config cfg sc) = gc_window cfg" "lc_keys (scope_config cfg sc) = gc_keys cfg" "lc_sample (scope_config cfg sc) = gc_sample cfg"
  by (cases sc; simp)+

lemma scope_config_ok: "egress_config_ok cfg \<Longrightarrow> ledger_cfg_ok (scope_config cfg sc)"
  by (simp add: egress_config_ok_def ledger_cfg_ok_def)

section \<open>Ceilings over time\<close>

fun used_in :: "egress_dimension \<Rightarrow> egress_window \<Rightarrow> nat" where
  "used_in DimMessages w = ew_m w"
| "used_in DimBytes w = ew_b w"
| "used_in DimDeliveries w = ew_d w"

fun limit_in :: "egress_dimension \<Rightarrow> egress_ceilings \<Rightarrow> nat" where
  "limit_in DimMessages c = ec_messages c"
| "limit_in DimBytes c = ec_bytes c"
| "limit_in DimDeliveries c = ec_deliveries c"

fun weight_in :: "egress_dimension \<Rightarrow> charge_entry \<Rightarrow> nat" where
  "weight_in DimMessages e = eg_m e"
| "weight_in DimBytes e = eg_b e"
| "weight_in DimDeliveries e = eg_d e"

text \<open>Messages and deliveries must fit under the ceiling; bytes must not have reached it. So the bytes of a
  window may pass the ceiling by those of one publish.\<close>

definition room_in :: "egress_ceilings \<Rightarrow> egress_dimension \<Rightarrow> real \<Rightarrow> real \<Rightarrow> bool" where
  "room_in c dm u x = (if dm = DimBytes then u < real (limit_in dm c) else u + x \<le> real (limit_in dm c))"

definition peak_in :: "egress_ceilings \<Rightarrow> nat \<Rightarrow> egress_dimension \<Rightarrow> real" where
  "peak_in c big dm = (if dm = DimBytes then real (limit_in dm c) + real big else real (limit_in dm c))"

definition most_in :: "egress_ceilings \<Rightarrow> nat \<Rightarrow> egress_dimension \<Rightarrow> real" where
  "most_in c big dm = (if dm = DimBytes then real big else real (limit_in dm c))"

lemma room_sound: "0 < win \<Longrightarrow> wm_sound win (room_in c dm) (peak_in c big dm) (most_in c big dm)"
  by (auto simp: wm_sound_def room_in_def peak_in_def most_in_def)

definition counted_in :: "egress_dimension \<Rightarrow> egress_window \<Rightarrow> real \<times> real" where
  "counted_in dm w = (ew_at w, real (used_in dm w))"

lemma counted_current:
  "counted_in dm (current_window cfg now x) = wm_rotate (lc_window cfg) now (map_option (counted_in dm) x)"
  by (cases dm; cases x) (simp_all add: counted_in_def current_window_def wm_rotate_def new_window_def rotate_window_def lapsed_def)

fun entry_key :: "egress_scope \<Rightarrow> charge_entry \<Rightarrow> js_string option" where
  "entry_key TopicScope e = Some (eg_topic e)"
| "entry_key TenantScope e = eg_tenant e"

definition key_history :: "egress_scope \<Rightarrow> js_string \<Rightarrow> egress_dimension \<Rightarrow> charge_entry list \<Rightarrow> (real \<times> real) list" where
  "key_history sc k dm es = map (\<lambda>e. (eg_time e, real (weight_in dm e))) (filter (\<lambda>e. entry_key sc e = Some k) es)"

lemma key_history_snoc:
  "key_history sc k dm (es @ [e]) = key_history sc k dm es @ (if entry_key sc e = Some k then [(eg_time e, real (weight_in dm e))] else [])"
  by (simp add: key_history_def)

abbreviation "metered_in cfg big dm \<equiv> egress_meter.metered (lc_window cfg) (room_in (lc_ceilings cfg) dm) (most_in (lc_ceilings cfg) big dm)"

definition key_metered :: "ledger_config \<Rightarrow> nat \<Rightarrow> real \<Rightarrow> js_string \<Rightarrow> ledger \<Rightarrow> (egress_dimension \<Rightarrow> (real \<times> real) list) \<Rightarrow> bool" where
  "key_metered cfg big now k L h \<longleftrightarrow> (True, k) \<in> set (lg_evicted L) \<or>
     (\<forall>dm. 0 < limit_in dm (lc_ceilings cfg) \<longrightarrow> metered_in cfg big dm now (map_option (counted_in dm) (jm_get (lg_map L) k)) (h dm))"

lemma key_metered_later: "key_metered cfg big now k L h \<Longrightarrow> now \<le> n \<Longrightarrow> key_metered cfg big n k L h"
  by (auto simp: key_metered_def intro: egress_meter.wait)

lemma ledger_inv_later: "ledger_inv cfg now L \<Longrightarrow> now \<le> n \<Longrightarrow> ledger_inv cfg n L"
  by (auto simp: ledger_inv_def intro: ledger_ok_later)

text \<open>Another key's window, swept, rotated or evicted.\<close>

lemma key_metered_others:
  assumes m: "key_metered cfg big now k L h" and keep: "keeps_others cfg now k L L'" and ev: "set (lg_evicted L) \<subseteq> set (lg_evicted L')"
  shows "key_metered cfg big now k L' h"
proof (cases "(True, k) \<in> set (lg_evicted L')")
  case False
  then have meters: "metered_in cfg big dm now (map_option (counted_in dm) (jm_get (lg_map L) k)) (h dm)"
    if "0 < limit_in dm (lc_ceilings cfg)" for dm using m ev that by (auto simp: key_metered_def)
  from keep False consider "jm_get (lg_map L') k = jm_get (lg_map L) k"
    | w where "jm_get (lg_map L) k = Some w" "lapsed (lc_window cfg) now w" "jm_get (lg_map L') k = None"
    by (auto simp: keeps_others_def)
  then show ?thesis
  proof cases
    case 2
    have "metered_in cfg big dm now None (h dm)" if "0 < limit_in dm (lc_ceilings cfg)" for dm
      using meters [OF that] 2(1,2) by (intro egress_meter.forget [of _ _ _ _ "counted_in dm w"]) (simp_all add: wm_stale_def counted_in_def lapsed_def)
    then show ?thesis using 2(3) by (simp add: key_metered_def)
  qed (use meters in \<open>simp add: key_metered_def\<close>)
qed (simp add: key_metered_def)

lemma key_metered_window:
  assumes inv: "ledger_inv cfg now L" and cfg: "ledger_cfg_ok cfg" and m: "key_metered cfg big now k L h"
    and w: "window_for cfg key now L = (w, L')"
  shows "key_metered cfg big now k L' h"
proof (cases "k = key")
  case False
  then show ?thesis using key_metered_others [OF m] window_for_keeps(4,5) [OF inv cfg w] by simp
next
  case True
  note keeps = window_for_keeps(2-4) [OF inv cfg w]
  have "metered_in cfg big dm now (Some (counted_in dm w)) (h dm)"
    if "(True, k) \<notin> set (lg_evicted L')" "0 < limit_in dm (lc_ceilings cfg)" for dm
    using m that keeps(3) True by (intro egress_meter.adjust [of _ _ _ _ "map_option (counted_in dm) (jm_get (lg_map L) k)"])
      (auto simp: key_metered_def keeps(1) counted_current)
  then show ?thesis using keeps(2) True by (auto simp: key_metered_def)
qed

text \<open>An admitted publish finds room when it is charged: the window is the one it was admitted on, or a new one.\<close>

lemma room_left:
  assumes "over_ceiling w c (eg_m e) (eg_d e) = None" and "0 < limit_in dm c" and "u \<le> real (used_in dm w)" and "eg_b e \<le> big"
  shows "room_in c dm u (real (weight_in dm e))" and "real (weight_in dm e) \<le> most_in c big dm"
  using assms by (cases dm; auto simp: over_ceiling_def room_in_def most_in_def split: if_splits)+

lemma key_metered_charge:
  assumes inv: "ledger_inv cfg now L" and cfg: "ledger_cfg_ok cfg" and m: "key_metered cfg big now k L (\<lambda>dm. key_history sc k dm es)"
    and seen: "jm_get (lg_map L) key = Some v" and room: "over_ceiling v (lc_ceilings cfg) (eg_m e) (eg_d e) = None"
    and w: "window_for cfg key now L = (w, L')" and e: "entry_key sc e = Some key" "eg_time e = now" "eg_b e \<le> big"
  shows "ledger_inv cfg now (window_add key w (eg_m e) (eg_d e) (eg_b e) L')"
    and "key_metered cfg big now k (window_add key w (eg_m e) (eg_d e) (eg_b e) L') (\<lambda>dm. key_history sc k dm (es @ [e]))"
proof -
  note keeps = window_for_keeps [OF inv cfg w]
  have "ew_at w \<le> now"
    using keeps(1) jm_get_Some_mem [OF keeps(3)] by (fastforce simp: ledger_inv_def ledger_ok_def)
  then show "ledger_inv cfg now (window_add key w (eg_m e) (eg_d e) (eg_b e) L')"
    using keeps(1,3) unfolding window_add_def ledger_inv_def
    by (intro conjI ledger_ok_put) (simp_all add: length_jm_set jm_has_get)
  have kept: "key_metered cfg big now k L' (\<lambda>dm. key_history sc k dm es)" using key_metered_window [OF inv cfg m w] .
  show "key_metered cfg big now k (window_add key w (eg_m e) (eg_d e) (eg_b e) L') (\<lambda>dm. key_history sc k dm (es @ [e]))"
  proof (cases "k = key \<and> (True, k) \<notin> set (lg_evicted L')")
    case False
    then show ?thesis using kept e by (auto simp: key_metered_def window_add_def key_history_snoc)
  next
    case True
    let ?w = "w\<lparr>ew_m := ew_m w + eg_m e, ew_d := ew_d w + eg_d e, ew_b := ew_b w + eg_b e\<rparr>"
    have "metered_in cfg big dm now (Some (counted_in dm ?w)) (key_history sc k dm es @ [(now, real (weight_in dm e))])"
      if armed: "0 < limit_in dm (lc_ceilings cfg)" for dm
    proof -
      have before: "metered_in cfg big dm now (Some (counted_in dm v)) (key_history sc k dm es)"
        using m True keeps(4) armed seen by (auto simp: key_metered_def)
      have cur: "counted_in dm w = wm_rotate (lc_window cfg) now (Some (counted_in dm v))"
        using keeps(2) seen counted_current [of dm cfg now "Some v"] by simp
      then have "snd (counted_in dm w) \<le> real (used_in dm v)" by (auto simp: wm_rotate_def counted_in_def)
      note fits = room_left [OF room armed this e(3)]
      have "wm_charge (lc_window cfg) (room_in (lc_ceilings cfg) dm) now (real (weight_in dm e)) (Some (counted_in dm v)) =
          (True, counted_in dm ?w)"
        using fits(1) cur [symmetric] by (cases dm) (simp_all add: wm_charge_def counted_in_def [of _ w] counted_in_def [of _ ?w])
      from egress_meter.charge [OF before _ this] fits(2) show ?thesis by simp
    qed
    then show ?thesis using True e by (simp add: key_metered_def window_add_def key_history_snoc)
  qed
qed

section \<open>Runs of the account\<close>

text \<open>What the decision does to one scope's ledger.\<close>

definition looked :: "ledger_config \<Rightarrow> js_string option \<Rightarrow> nat \<Rightarrow> nat \<Rightarrow> real \<Rightarrow> ledger \<Rightarrow> bool \<Rightarrow> ledger \<Rightarrow> bool" where
  "looked cfg key messages deliveries now L ok L' \<longleftrightarrow> (case key of
     None \<Rightarrow> ok \<and> L' = L
   | Some k \<Rightarrow> if \<not> scope_armed (lc_ceilings cfg) then ok \<and> L' = L
       else \<exists>w. window_for cfg k now L = (w, L') \<and> (ok \<longleftrightarrow> over_ceiling w (lc_ceilings cfg) messages deliveries = None))"

definition scope_tracked :: "ledger_config \<Rightarrow> nat \<Rightarrow> egress_scope \<Rightarrow> js_string \<Rightarrow> real \<Rightarrow> ledger \<Rightarrow> charge_entry list \<Rightarrow> bool" where
  "scope_tracked cfg big sc k now L es \<longleftrightarrow> ledger_inv cfg now L \<and> key_metered cfg big now k L (\<lambda>dm. key_history sc k dm es)"

lemma scope_tracked_later: "scope_tracked cfg big sc k now L es \<Longrightarrow> now \<le> n \<Longrightarrow> scope_tracked cfg big sc k n L es"
  by (auto simp: scope_tracked_def intro: ledger_inv_later key_metered_later)

lemma looked_keeps:
  assumes tr: "scope_tracked cfg big sc k now L es" and cfg: "ledger_cfg_ok cfg" and l: "looked cfg key m d t L ok L'" and t: "now \<le> t"
  shows "scope_tracked cfg big sc k t L' es"
proof -
  have tr': "scope_tracked cfg big sc k t L es" using scope_tracked_later [OF tr t] .
  then show ?thesis
    using l window_for_keeps(1) [OF _ cfg] key_metered_window [OF _ cfg]
    by (auto simp: looked_def scope_tracked_def split: option.splits if_splits)
qed

lemma unarmed_limits: "\<not> scope_armed c \<Longrightarrow> limit_in dm c = 0"
  by (cases dm) (simp_all add: scope_armed_def)

lemma charged_keeps:
  assumes tr: "scope_tracked cfg big sc k now L es" and cfg: "ledger_cfg_ok cfg" and l: "looked cfg key (eg_m e) (eg_d e) t L True L'"
    and t: "now \<le> t" "t \<le> eg_time e" and e: "entry_key sc e = key" "eg_b e \<le> big"
  shows "scope_tracked cfg big sc k (eg_time e) (charge_scope cfg key (eg_m e) (eg_d e) (eg_b e) (eg_time e) L') (es @ [e])"
proof -
  have tr': "scope_tracked cfg big sc k (eg_time e) L' es"
    using scope_tracked_later [OF looked_keeps [OF tr cfg l t(1)] t(2)] .
  consider (none) "key = None" | (off) "\<not> scope_armed (lc_ceilings cfg)" | (on) j where "key = Some j" "scope_armed (lc_ceilings cfg)"
    by (cases key) auto
  then show ?thesis
  proof cases
    case none
    then show ?thesis using tr' e by (simp add: charge_scope_def scope_tracked_def key_history_snoc)
  next
    case off
    then show ?thesis using tr' unarmed_limits [OF off] by (auto simp: charge_scope_def scope_tracked_def key_metered_def split: option.split)
  next
    case on
    obtain v where v: "window_for cfg j t L = (v, L')" "over_ceiling v (lc_ceilings cfg) (eg_m e) (eg_d e) = None"
      using l on by (auto simp: looked_def)
    have "ledger_inv cfg t L" using tr t(1) by (auto simp: scope_tracked_def intro: ledger_inv_later)
    then have seen: "jm_get (lg_map L') j = Some v" using window_for_keeps(3) [OF _ cfg v(1)] by blast
    obtain w L'' where w: "window_for cfg j (eg_time e) L' = (w, L'')" by fastforce
    show ?thesis
      using key_metered_charge [OF _ cfg _ seen v(2) w _ refl e(2), of k sc es] tr' e(1) on w by (simp add: charge_scope_def scope_tracked_def)
  qed
qed

fun scope_ledger :: "egress_scope \<Rightarrow> egress_account \<Rightarrow> ledger" where
  "scope_ledger TopicScope A = ea_topics A"
| "scope_ledger TenantScope A = ea_tenants A"

lemma report_invalid_simps [simp]:
  "scope_ledger sc (report_invalid A) = scope_ledger sc A" "ea_charged (report_invalid A) = ea_charged A"
  "ea_memo (report_invalid A) = ea_memo A"
  by (cases sc; simp add: report_invalid_def)+

lemma memo_simps [simp]: "scope_ledger sc (A\<lparr>ea_memo := x\<rparr>) = scope_ledger sc A"
  by (cases sc) simp_all

lemma publish_tenant_keeps:
  assumes "publish_tenant cfg tenant_of topic A = (tenant, A')"
  shows "scope_ledger sc A' = scope_ledger sc A" and "ea_charged A' = ea_charged A"
  using assms by (auto simp: publish_tenant_def resolve_tenant_def Let_def split: option.splits resolver_answer.splits if_splits)

lemma admit_topic_looked:
  assumes "admit_topic cfg topic m d t A = (ok, A')"
  shows "looked (scope_config cfg TopicScope) topic m d t (ea_topics A) ok (ea_topics A')" and "ea_tenants A' = ea_tenants A"
    and "ea_charged A' = ea_charged A"
  using assms by (auto simp: admit_topic_def looked_def egress_enabled_def Let_def split: option.splits if_splits prod.splits)

lemma admit_tenant_looked:
  assumes "admit_tenant cfg tenant m d t A = (ok, A')"
  shows "looked (scope_config cfg TenantScope) tenant m d t (ea_tenants A) ok (ea_tenants A')" and "ea_topics A' = ea_topics A"
    and "ea_charged A' = ea_charged A"
  using assms by (auto simp: admit_tenant_def looked_def egress_enabled_def Let_def split: option.splits if_splits prod.splits)

lemma admit_looked:
  assumes a: "egress_admit cfg topic tenant m d t1 t2 A = (ok, A')"
  shows "\<exists>ok1. looked (scope_config cfg TopicScope) topic m d t1 (ea_topics A) ok1 (ea_topics A') \<and> (ok \<longrightarrow> ok1) \<and>
      (ok1 \<and> looked (scope_config cfg TenantScope) tenant m d t2 (ea_tenants A) ok (ea_tenants A') \<or> \<not> ok \<and> ea_tenants A' = ea_tenants A)"
    and "ea_charged A' = ea_charged A"
proof -
  obtain ok1 A1 where t: "admit_topic cfg topic m d t1 A = (ok1, A1)" by fastforce
  obtain ok2 A2 where n: "admit_tenant cfg tenant m d t2 A1 = (ok2, A2)" by fastforce
  note topic = admit_topic_looked [OF t] and tenant = admit_tenant_looked [OF n]
  show "ea_charged A' = ea_charged A" using a t n topic(3) tenant(3) by (auto simp: egress_admit_def split: if_splits bool.splits)
  show "\<exists>ok1. looked (scope_config cfg TopicScope) topic m d t1 (ea_topics A) ok1 (ea_topics A') \<and> (ok \<longrightarrow> ok1) \<and>
      (ok1 \<and> looked (scope_config cfg TenantScope) tenant m d t2 (ea_tenants A) ok (ea_tenants A') \<or> \<not> ok \<and> ea_tenants A' = ea_tenants A)"
  proof (cases "egress_enabled cfg")
    case False
    then show ?thesis using a by (auto simp: egress_admit_def looked_def egress_enabled_def split: option.split)
  next
    case True
    then show ?thesis using a t n topic(1,2) tenant(1,2) by (cases ok1) (auto simp: egress_admit_def)
  qed
qed

lemma egress_publish_keeps:
  assumes tr: "scope_tracked (scope_config cfg sc) big sc k now (scope_ledger sc A) (ea_charged A)" and cfg: "egress_config_ok cfg"
    and t: "now \<le> t1" "t1 \<le> t2" "t2 \<le> t3" and b: "b \<le> big"
  shows "scope_tracked (scope_config cfg sc) big sc k t3 (scope_ledger sc (snd (egress_publish cfg tenant_of topic m d b t1 t2 t3 A)))
      (ea_charged (snd (egress_publish cfg tenant_of topic m d b t1 t2 t3 A)))"
proof -
  note ok = scope_config_ok [OF cfg, of sc]
  obtain tenant A1 where r: "(if egress_enabled cfg then publish_tenant cfg tenant_of topic A else (None, A)) = (tenant, A1)" by fastforce
  have same: "scope_ledger sc A1 = scope_ledger sc A" "ea_charged A1 = ea_charged A"
    using r publish_tenant_keeps [of cfg tenant_of topic A tenant A1] by (auto split: if_splits)
  obtain go A2 where a: "egress_admit cfg (Some topic) tenant m d t1 t2 A1 = (go, A2)" by fastforce
  let ?e = "\<lparr>eg_topic = topic, eg_tenant = tenant, eg_time = t3, eg_m = m, eg_d = d, eg_b = b\<rparr>"
  let ?key = "entry_key sc ?e" and ?cfg = "scope_config cfg sc"
  obtain t go1 where t': "t1 \<le> t" "t \<le> t2"
      and l: "looked ?cfg ?key m d t (scope_ledger sc A1) go1 (scope_ledger sc A2) \<and> (go \<longrightarrow> go1) \<or> \<not> go \<and> scope_ledger sc A2 = scope_ledger sc A1"
    using admit_looked(1) [OF a] t(2) by (cases sc; cases go) force+
  show ?thesis
  proof (cases go)
    case False
    then have "egress_publish cfg tenant_of topic m d b t1 t2 t3 A = (False, A2)" using r a by (simp add: egress_publish_def)
    moreover have "scope_tracked ?cfg big sc k t3 (scope_ledger sc A2) (ea_charged A)"
    proof (cases "scope_ledger sc A2 = scope_ledger sc A1")
      case True
      then show ?thesis using scope_tracked_later [OF tr, of t3] t same by simp
    next
      case False
      then have "looked ?cfg ?key m d t (scope_ledger sc A) go1 (scope_ledger sc A2)" using l same by auto
      from scope_tracked_later [OF looked_keeps [OF tr ok this], of t3] show ?thesis using t t' by simp
    qed
    ultimately show ?thesis using same admit_looked(2) [OF a] by simp
  next
    case True
    let ?A = "(egress_charge cfg (Some topic) tenant m d b t3 A2)\<lparr>ea_charged := ea_charged A2 @ [?e]\<rparr>"
    have p: "egress_publish cfg tenant_of topic m d b t1 t2 t3 A = (True, ?A)"
      using r a True by (simp add: egress_publish_def Let_def egress_charge_def)
    have "scope_ledger sc ?A = charge_scope ?cfg ?key (eg_m ?e) (eg_d ?e) (eg_b ?e) (eg_time ?e) (scope_ledger sc A2)"
      by (cases sc) (auto simp: egress_charge_def charge_scope_def egress_enabled_def split: option.split)
    moreover have "looked ?cfg ?key (eg_m ?e) (eg_d ?e) t (scope_ledger sc A) True (scope_ledger sc A2)"
      using l True same by (cases go1) simp_all
    note charged_keeps [OF tr ok this]
    ultimately show ?thesis using p t t' b same admit_looked(2) [OF a] by simp
  qed
qed

lemma egress_run_keeps:
  assumes "scope_tracked (scope_config cfg sc) big sc k now (scope_ledger sc A) (ea_charged A)" and "egress_config_ok cfg"
    and "sorted (now # concat (map egress_times es))" and "\<forall>e \<in> set es. egress_bytes e \<le> big"
  shows "scope_tracked (scope_config cfg sc) big sc k (List.last (now # concat (map egress_times es)))
      (scope_ledger sc (foldl (egress_step cfg tenant_of) A es)) (ea_charged (foldl (egress_step cfg tenant_of) A es))"
  using assms
proof (induction es arbitrary: A now)
  case (Cons e es)
  obtain topic m d b t1 t2 t3 where e: "e = EgressPublish topic m d b t1 t2 t3" by (cases e)
  have "scope_tracked (scope_config cfg sc) big sc k t3 (scope_ledger sc (egress_step cfg tenant_of A e)) (ea_charged (egress_step cfg tenant_of A e))"
    using egress_publish_keeps [OF Cons.prems(1,2), of t1 t2 t3 b tenant_of topic m d] Cons.prems(3,4) e by simp
  from Cons.IH [OF this Cons.prems(2)] show ?case using Cons.prems(3,4) e by simp
qed simp

lemma egress_new_tracked: "egress_config_ok cfg \<Longrightarrow>
    scope_tracked (scope_config cfg sc) big sc k 0 (scope_ledger sc (create_egress_account r)) (ea_charged (create_egress_account r))"
  by (cases sc; auto simp: scope_tracked_def ledger_inv_def key_metered_def key_history_def create_egress_account_def egress_config_ok_def
      create_window_ledger_def ledger_ok_def pass_ok_def intro: egress_meter.start)

lemma key_history_cost:
  "cost_in (\<lambda>t. a \<le> t \<and> t < a + win) (key_history sc k dm es) =
     real (sum_list (map (weight_in dm) (filter (\<lambda>e. entry_key sc e = Some k \<and> a \<le> eg_time e \<and> eg_time e < a + win) es)))"
  by (induction es) (auto simp: key_history_def)

text \<open>C6: The ceilings hold over any stretch of time as long as the rotation window, and not only window by
  window: for every topic, and every tenant, that no eviction restarted, the messages and deliveries charged
  in such a stretch are at most twice the ceiling, and the bytes at most twice the ceiling and the largest
  publish. This covers publishes that the clock splits between the decision and the charge.\<close>

theorem egress_ceilings_hold:
  assumes "cfg = normalize_egress input" and "A = foldl (egress_step cfg tenant_of) (create_egress_account (tenant_of \<noteq> None)) es"
    and "sorted (0 # concat (map egress_times es))" and "\<forall>e \<in> set es. egress_bytes e \<le> big"
    and "0 < limit_in dm (lc_ceilings (scope_config cfg sc))" and "(True, k) \<notin> set (lg_evicted (scope_ledger sc A))"
  shows "sum_list (map (weight_in dm) (filter (\<lambda>e. entry_key sc e = Some k \<and> a \<le> eg_time e \<and> eg_time e < a + gc_window cfg) (ea_charged A)))
      \<le> 2 * (limit_in dm (lc_ceilings (scope_config cfg sc)) + (if dm = DimBytes then big else 0))"
proof -
  let ?cfg = "scope_config cfg sc"
  have ok: "egress_config_ok cfg" using assms(1) normalize_ok by simp
  then have sound: "wm_sound (gc_window cfg) (room_in (lc_ceilings ?cfg) dm) (peak_in (lc_ceilings ?cfg) big dm) (most_in (lc_ceilings ?cfg) big dm)"
    by (intro room_sound) (simp add: egress_config_ok_def)
  have "scope_tracked ?cfg big sc k (List.last (0 # concat (map egress_times es))) (scope_ledger sc A) (ea_charged A)"
    unfolding assms(2) by (rule egress_run_keeps [OF egress_new_tracked [OF ok] ok assms(3,4)])
  then obtain n x where "metered_in ?cfg big dm n x (key_history sc k dm (ea_charged A))"
    using assms(5,6) unfolding scope_tracked_def key_metered_def by blast
  from egress_meter.metered_bound [OF this] sound
  have "twice_peak (gc_window cfg) (peak_in (lc_ceilings ?cfg) big dm) (key_history sc k dm (ea_charged A))" by simp
  then have "cost_in (\<lambda>t. a \<le> t \<and> t < a + gc_window cfg) (key_history sc k dm (ea_charged A)) \<le> 2 * peak_in (lc_ceilings ?cfg) big dm"
    unfolding twice_peak_def by blast
  also have "\<dots> = real (2 * (limit_in dm (lc_ceilings ?cfg) + (if dm = DimBytes then big else 0)))" by (simp add: peak_in_def)
  finally show ?thesis unfolding key_history_cost by (simp only: of_nat_le_iff)
qed

theorem egress_ceilings_hold_witness:
  "sum_list (map (weight_in DimMessages) (filter (\<lambda>e. entry_key TopicScope e = Some [116] \<and> 0 \<le> eg_time e \<and> eg_time e < 0 + 1000)
      (ea_charged (foldl (egress_step (normalize_egress (Some \<lparr>es_window = None, es_keys = None, es_sample = None,
          es_topic = Some \<lparr>ss_messages = Some 1, ss_bytes = None, ss_deliveries = None\<rparr>, es_tenant = None\<rparr>)) None)
        (create_egress_account False) [EgressPublish [116] 1 3 40 0 0 0, EgressPublish [116] 1 3 40 5 5 5])))) \<le> 2"
  (is "sum_list (map _ (filter _ (ea_charged (foldl (egress_step ?cfg None) _ ?es)))) \<le> 2")
proof -
  let ?A = "foldl (egress_step ?cfg None) (create_egress_account ((None :: (js_string \<Rightarrow> resolver_answer) option) \<noteq> None)) ?es"
  have cfg: "lc_ceilings (scope_config ?cfg TopicScope) = \<lparr>ec_messages = 1, ec_bytes = 0, ec_deliveries = 0\<rparr>" "gc_window ?cfg = 1000"
      "gc_keys ?cfg = 4096" "gc_tenant ?cfg = \<lparr>ec_messages = 0, ec_bytes = 0, ec_deliveries = 0\<rparr>"
    by (simp_all add: normalize_egress_def scope_ceilings_def ceiling_of_def safe_option_def egress_default_window_def round_keys_def
        egress_default_keys_def)
  have topic: "gc_topic ?cfg = \<lparr>ec_messages = 1, ec_bytes = 0, ec_deliveries = 0\<rparr>" using cfg(1) by simp
  have "lg_evicted (ea_topics ?A) = []"
    by (simp add: egress_publish_def publish_tenant_def egress_admit_def admit_topic_def admit_tenant_def egress_charge_def charge_scope_def window_for_def window_add_def
        create_egress_account_def create_window_ledger_def egress_enabled_def scope_armed_def sweep_floor_def egress_slack_shift_def over_ceiling_def
        new_window_def rotate_window_def lapsed_def cfg(2-4) topic Let_def jm_get_def)
  then have "(True, [116]) \<notin> set (lg_evicted (scope_ledger TopicScope ?A))" by (simp del: foldl_Cons)
  from egress_ceilings_hold [OF refl refl _ _ _ this, of 40 DimMessages 0] cfg
  show ?thesis by (simp del: foldl_Cons scope_config.simps)
qed

text \<open>C18: No ledger ever holds more windows than its bound; and skipping the walk until the recorded instant
  loses nothing, the full walk at that time would drop no window.\<close>

theorem egress_ledgers_bounded:
  assumes "cfg = normalize_egress input" and "L = scope_ledger sc (foldl (egress_step cfg tenant_of) (create_egress_account (tenant_of \<noteq> None)) es)"
    and "sorted (0 # concat (map egress_times es) @ [now])"
  shows "jm_size (lg_map L) \<le> gc_keys cfg \<and>
    jm_get (lg_map (reclaim_expired (scope_config cfg sc) now L)) = jm_get (lg_map (reclaim_loop (gc_window cfg) now 0 0 L))"
proof -
  let ?A = "foldl (egress_step cfg tenant_of) (create_egress_account (tenant_of \<noteq> None)) es" and ?cfg = "scope_config cfg sc"
  let ?big = "sum_list (map egress_bytes es)"
  have ok: "egress_config_ok cfg" using assms(1) normalize_ok by simp
  have times: "sorted (0 # concat (map egress_times es))" using assms(3) by (simp add: sorted_append)
  have "List.last (0 # xs) \<le> now" if "sorted (0 # xs @ [now])" for xs :: "real list"
    using that last_in_set [of xs] by (cases "xs = []") (simp_all add: sorted_append)
  from this [OF assms(3)] have upto: "List.last (0 # concat (map egress_times es)) \<le> now" .
  have "\<forall>e \<in> set es. egress_bytes e \<le> ?big" by (induction es) auto
  from egress_run_keeps [OF egress_new_tracked [OF ok, of sc _ _ "tenant_of \<noteq> None"] ok times this, of _ tenant_of]
  have "ledger_inv ?cfg (List.last (0 # concat (map egress_times es))) L" by (simp only: scope_tracked_def assms(2))
  from ledger_inv_later [OF this upto] have inv: "ledger_inv ?cfg now L" .
  have "jm_get (lg_map (reclaim_loop (gc_window cfg) now 0 0 L)) k = jm_get (lg_map L) k" if "now < lg_until L" for k
  proof -
    have "\<not> lapsed (gc_window cfg) now w" if "jm_get (lg_map L) k = Some w" for w
      using inv jm_get_Some_mem [OF that] \<open>now < lg_until L\<close> by (fastforce simp: ledger_inv_def ledger_ok_def lapsed_def)
    then show ?thesis using reclaim_loop_keeps [of "gc_window cfg" now L 0 0] inv by (auto simp: ledger_inv_def only_lapsed_def)
  qed
  then show ?thesis using inv by (auto simp: ledger_inv_def reclaim_expired_def fun_eq_iff)
qed

theorem egress_ledgers_bounded_witness:
  "jm_size (lg_map (ea_topics (foldl (egress_step (normalize_egress None) None) (create_egress_account False) [EgressPublish [116] 1 3 40 0 0 0]))) \<le> 4096"
proof -
  have "gc_keys (normalize_egress None) = 4096" by (simp add: normalize_egress_def round_keys_def egress_default_keys_def)
  then show ?thesis
    using egress_ledgers_bounded [OF refl refl, where input = None and es = "[EgressPublish [116] 1 3 40 0 0 0]" and now = 7 and sc = TopicScope and tenant_of = None] by (simp del: foldl_Cons)
qed

section \<open>Attribution\<close>

text \<open>What the resolver's answer is worth, without a memo.\<close>

definition attributed :: "(js_string \<Rightarrow> resolver_answer) \<Rightarrow> js_string \<Rightarrow> js_string option" where
  "attributed f topic = (case f topic of ResolvedText raw \<Rightarrow> if valid_attribution_id raw then Some raw else None | _ \<Rightarrow> None)"

definition memo_ok :: "nat \<Rightarrow> (js_string \<Rightarrow> resolver_answer) \<Rightarrow> egress_account \<Rightarrow> bool" where
  "memo_ok n f A \<longleftrightarrow> ea_reported A \<le> 1 \<and> (case ea_memo A of
     None \<Rightarrow> True
   | Some memo \<Rightarrow> jm_size memo \<le> n \<and> (\<forall>topic hit. jm_get memo topic = Some hit \<longrightarrow> hit = attributed f topic))"

lemma resolve_memo:
  assumes "memo_ok (gc_keys cfg) f A" and "0 < gc_keys cfg" and "resolve_tenant cfg (Some f) topic A = (tn, A')"
  shows "tn = attributed f topic" and "memo_ok (gc_keys cfg) f A'"
proof -
  let ?found = "case f topic of ResolverThrew \<Rightarrow> (None, report_invalid A) | ResolvedNothing \<Rightarrow> (None, A)
      | ResolvedText raw \<Rightarrow> if valid_attribution_id raw then (Some raw, A) else (None, report_invalid A) | ResolvedOther \<Rightarrow> (None, report_invalid A)"
  have found: "fst ?found = attributed f topic" "ea_memo (snd ?found) = ea_memo A" "ea_reported (snd ?found) \<le> 1"
    using assms(1) by (auto simp: attributed_def memo_ok_def report_invalid_def split: resolver_answer.split)
  have "tn = attributed f topic \<and> memo_ok (gc_keys cfg) f A'"
  proof (cases "ea_memo A")
    case None
    then show ?thesis using assms(3) found by (auto simp: resolve_tenant_def Let_def memo_ok_def)
  next
    case (Some memo)
    then have memo: "jm_size memo \<le> gc_keys cfg" "\<And>topic hit. jm_get memo topic = Some hit \<Longrightarrow> hit = attributed f topic"
      using assms(1) by (auto simp: memo_ok_def)
    show ?thesis
    proof (cases "jm_get memo topic")
      case None
      then have r: "tn = fst ?found" "A' = (snd ?found)\<lparr>ea_memo := Some (jm_set topic (fst ?found) (if gc_keys cfg \<le> jm_size memo then [] else memo))\<rparr>"
        using assms(3) Some found(2) by (auto simp: resolve_tenant_def Let_def)
      have "jm_size (jm_set topic x (if gc_keys cfg \<le> jm_size memo then [] else memo)) \<le> gc_keys cfg" for x
        using assms(2) length_jm_set_le [of topic x memo] by auto
      then show ?thesis using r found(1,3) memo(2) by (auto simp: memo_ok_def split: if_splits)
    next
      case hit: (Some x)
      then show ?thesis using assms(1,3) Some memo(2) by (simp add: resolve_tenant_def)
    qed
  qed
  then show "tn = attributed f topic" "memo_ok (gc_keys cfg) f A'" by simp_all
qed

lemma admit_charge_memo:
  "egress_admit cfg topic tenant m d t1 t2 A = (ok, A') \<Longrightarrow> ea_memo A' = ea_memo A \<and> ea_reported A' = ea_reported A"
  by (auto simp: egress_admit_def admit_topic_def admit_tenant_def Let_def split: if_splits option.splits prod.splits bool.splits)

lemma publish_memo:
  assumes "memo_ok (gc_keys cfg) f A" and "0 < gc_keys cfg"
  shows "memo_ok (gc_keys cfg) f (snd (egress_publish cfg (Some f) topic m d b t1 t2 t3 A))"
proof -
  obtain tenant A1 where r: "(if egress_enabled cfg then publish_tenant cfg (Some f) topic A else (None, A)) = (tenant, A1)" by fastforce
  have m1: "memo_ok (gc_keys cfg) f A1"
    using r resolve_memo(2) [OF assms] assms(1) by (auto simp: publish_tenant_def split: if_splits)
  obtain go A2 where a: "egress_admit cfg (Some topic) tenant m d t1 t2 A1 = (go, A2)" by fastforce
  have "memo_ok (gc_keys cfg) f A2" using m1 admit_charge_memo [OF a] by (simp add: memo_ok_def)
  then show ?thesis using r a by (cases go) (simp_all add: egress_publish_def memo_ok_def egress_charge_def Let_def)
qed

text \<open>The memo is invisible: after any run, the tenant a topic is charged to is what the resolver says of
  it now, kept when it is a valid id and dropped otherwise; the memo stays within the key bound, and an
  unusable answer is reported at most once.\<close>

theorem egress_tenant_transparent:
  assumes "cfg = normalize_egress input" and "A = foldl (egress_step cfg (Some f)) (create_egress_account True) es"
    and "scope_armed (gc_tenant cfg)"
  shows "fst (publish_tenant cfg (Some f) topic A) = attributed f topic \<and> ea_reported A \<le> 1 \<and> jm_size (the (ea_memo A)) \<le> gc_keys cfg"
proof -
  have keys: "0 < gc_keys cfg" using assms(1) normalize_ok by (simp add: egress_config_ok_def)
  have memo: "memo_ok (gc_keys cfg) f A \<and> ea_memo A \<noteq> None"
    unfolding assms(2)
  proof (induction es rule: rev_induct)
    case Nil
    then show ?case by (simp add: memo_ok_def create_egress_account_def)
  next
    case (snoc e es)
    obtain topic m d b t1 t2 t3 where e: "e = EgressPublish topic m d b t1 t2 t3" by (cases e)
    let ?A = "foldl (egress_step cfg (Some f)) (create_egress_account True) es"
    obtain tenant A1 where r: "(if egress_enabled cfg then publish_tenant cfg (Some f) topic ?A else (None, ?A)) = (tenant, A1)" by fastforce
    have "ea_memo A1 \<noteq> None"
      using r snoc by (auto simp: publish_tenant_def resolve_tenant_def Let_def split: option.splits if_splits resolver_answer.splits)
    moreover obtain go A2 where a: "egress_admit cfg (Some topic) tenant m d t1 t2 A1 = (go, A2)" by fastforce
    ultimately have "ea_memo (snd (egress_publish cfg (Some f) topic m d b t1 t2 t3 ?A)) \<noteq> None"
      using r admit_charge_memo [OF a] by (cases go) (simp_all add: egress_publish_def egress_charge_def Let_def)
    then show ?case using publish_memo [OF _ keys] snoc e by simp
  qed
  obtain tn A' where r: "resolve_tenant cfg (Some f) topic A = (tn, A')" by fastforce
  show ?thesis using assms(3) memo resolve_memo(1) [OF _ keys r] r by (auto simp: publish_tenant_def memo_ok_def)
qed

theorem egress_tenant_transparent_witness:
  "fst (publish_tenant (normalize_egress (Some \<lparr>es_window = None, es_keys = None, es_sample = None, es_topic = None,
        es_tenant = Some \<lparr>ss_messages = Some 1, ss_bytes = None, ss_deliveries = None\<rparr>\<rparr>)) (Some (\<lambda>t. if t = [116] then ResolvedText [97] else ResolvedText [47]))
      [116] (create_egress_account True)) = Some [97]"
  (is "fst (publish_tenant ?cfg (Some ?f) [116] ?A) = Some [97]")
proof -
  have "scope_armed (gc_tenant ?cfg)"
    by (simp add: normalize_egress_def scope_ceilings_def ceiling_of_def safe_option_def scope_armed_def)
  from egress_tenant_transparent [OF refl refl this, where es = "[]" and topic = "[116]" and f = ?f]
  show ?thesis by (simp add: attributed_def valid_attribution_id_def id_char_def)
qed

section \<open>Bounds and weights\<close>

text \<open>A configured key bound becomes the least power of two that is not below it, from 1024 up, and never
  passes the size a Map can hold; every other value becomes the default, a power of two itself.\<close>

theorem egress_keys_power_of_two:
  "\<exists>k. round_keys x = 2 ^ k \<and> 1024 \<le> round_keys x \<and> round_keys x \<le> 2 ^ 24 \<and>
    (\<forall>v. x = Some v \<and> safe_option v \<and> 1024 \<le> v \<and> v \<le> 2 ^ 24 \<longrightarrow>
      v \<le> real (round_keys x) \<and> (\<forall>j. v \<le> 2 ^ j \<and> 10 \<le> j \<longrightarrow> round_keys x \<le> 2 ^ j))"
proof (cases "\<exists>v. x = Some v \<and> safe_option v \<and> 1024 \<le> v \<and> v \<le> 2 ^ 24")
  case False
  then have "round_keys x = 2 ^ 12"
    by (auto simp: round_keys_def egress_default_keys_def egress_keys_floor_def egress_keys_ceiling_def split: option.split)
  then show ?thesis using False by (intro exI [of _ 12]) auto
next
  case True
  then obtain v where v: "x = Some v" "safe_option v" "1024 \<le> v" "v \<le> 2 ^ 24" by blast
  define w where "w = nat \<lfloor>v\<rfloor>"
  have w: "v = real w" using v(2,3) by (simp add: w_def safe_option_def)
  have r: "round_keys x = double_until w 1024"
    using v by (simp add: round_keys_def egress_keys_floor_def egress_keys_ceiling_def w_def)
  obtain k where k: "double_until w 1024 = 1024 * 2 ^ k" using double_until_power by blast
  then have pow: "double_until w 1024 = 2 ^ (10 + k)" by (simp add: power_add)
  have ge: "w \<le> double_until w 1024" by (rule double_until_ge) simp
  have least: "double_until w 1024 \<le> 2 ^ j" if "w \<le> 2 ^ j" "10 \<le> j" for j
  proof (rule ccontr)
    assume "\<not> double_until w 1024 \<le> 2 ^ j"
    then have "j < 10 + k" unfolding pow by (metis linorder_not_less power_increasing numeral_One one_le_numeral)
    then have "2 ^ Suc j \<le> (2 :: nat) ^ (10 + k)" by (intro power_increasing) simp_all
    moreover have "double_until w 1024 = 1024 \<or> double_until w 1024 < 2 * w" using double_until_least by blast
    moreover have "(1024 :: nat) \<le> 2 ^ j" using power_increasing [OF that(2), of "2 :: nat"] by simp
    ultimately show False using that(1) \<open>\<not> double_until w 1024 \<le> 2 ^ j\<close> unfolding pow by auto
  qed
  have "w \<le> 2 ^ 24" using v(4) w by (metis of_nat_le_iff of_nat_numeral of_nat_power)
  then have "double_until w 1024 \<le> 2 ^ 24" using least [of 24] by simp
  moreover have "1024 \<le> double_until w 1024" using double_until_least [of 1024 w] by simp
  moreover have "v \<le> 2 ^ j \<and> 10 \<le> j \<longrightarrow> double_until w 1024 \<le> 2 ^ j" for j
    using least [of j] w by (metis of_nat_le_iff of_nat_numeral of_nat_power)
  ultimately show ?thesis using r pow ge w v(1) by (intro exI [of _ "10 + k"]) auto
qed

text \<open>The charge of a binary frame, \<open>binaryFrameChargeBytes\<close>.\<close>

function charge_seq_length :: "nat \<Rightarrow> nat \<Rightarrow> nat" where
  "charge_seq_length v seq_len = (if 0x7f < v then charge_seq_length (v div 128) (seq_len + 1) else seq_len)"
  by pat_completeness auto

termination
  by (relation "measure fst") auto

declare charge_seq_length.simps [simp del]

definition binary_frame_charge_bytes :: "nat \<Rightarrow> nat \<Rightarrow> nat" where
  "binary_frame_charge_bytes payload_length seq = 3 + charge_seq_length seq 1 + payload_length"

definition envelope_wire_bytes :: "js_string \<Rightarrow> nat \<Rightarrow> bool \<Rightarrow> nat" where
  "envelope_wire_bytes envelope recipients exact =
     (if recipients \<le> 0 then 0 else (if exact then length (utf8_encode envelope) else length envelope) * recipients)"

lemma charge_seq_varint: "charge_seq_length v (Suc n) = n + length_of_varint v"
  by (induction v "Suc n" arbitrary: n rule: charge_seq_length.induct) (subst charge_seq_length.simps, subst length_of_varint.simps, simp)

text \<open>The charge of a binary frame is its real length but for the topic id: exact for ids up to 127, one
  byte short for each further byte of the id, which is never over what is sent.\<close>

theorem binary_charge_exact:
  "length (build_binary_frame version topic_id seq payload) = binary_frame_charge_bytes (length payload) seq + (length_of_varint topic_id - 1) \<and>
    (topic_id \<le> 127 \<longrightarrow> length (build_binary_frame version topic_id seq payload) = binary_frame_charge_bytes (length payload) seq)"
proof -
  have "1 \<le> length_of_varint n" for n by (subst length_of_varint.simps) simp
  moreover have "length_of_varint topic_id = 1" if "topic_id \<le> 127" using that by (subst length_of_varint.simps) simp
  ultimately show ?thesis
    by (auto simp: build_binary_frame_bytes frame_head_def binary_frame_charge_bytes_def charge_seq_varint length_of_varint_bytes [symmetric])
qed

end
