(* ===== verification/Publish_Path.thy ===== *)
theory Publish_Path
  imports Topic_Registry Epoch Egress_Account Resume_Buffer "HOL-Library.Sublist"
begin

text \<open>
  The origin side of a publish, \<open>publish\<close> and \<open>publishBatched\<close> of
  \<open>src/runtime/handler/platform.js\<close>: the checks, the egress decision, the stamp, the charge, the
  capture for connections that are resuming, the fan-out to the sockets of this worker and the hand-over
  to the relay. It composes the registry, the sequence numbers, the egress account and the resume buffers.

  What a call finds outside is its world: the sockets' state and answers, the retention probes, the
  tenant resolver, the clock. \<open>pf_sent\<close>, \<open>pf_relayed\<close> and \<open>pf_stamped\<close> log the frames handed to
  sockets, those handed to the relay, and the numbers drawn from the counter; no operation reads them.
\<close>

section \<open>Envelopes and options\<close>

text \<open>An envelope before it is written out: the serialized prefix and data, the number and the jitter window
  (as the text of a positive number).\<close>

record envelope =
  en_topic :: js_string
  en_body :: js_string
  en_seq :: "nat option"
  en_jitter :: "js_string option"

definition complete_serialized_envelope :: "js_string \<Rightarrow> nat option \<Rightarrow> js_string option \<Rightarrow> js_string" where
  "complete_serialized_envelope body seq jitter =
     (let end = (case jitter of None \<Rightarrow> js_of ''}'' | Some j \<Rightarrow> js_of '',\"j\":'' @ j @ js_of ''}'')
      in case seq of None \<Rightarrow> body @ end | Some n \<Rightarrow> body @ js_of '',\"seq\":'' @ decimal n @ end)"

definition envelope_text :: "envelope \<Rightarrow> js_string" where
  "envelope_text e = complete_serialized_envelope (en_body e) (en_seq e) (en_jitter e)"

fun join_comma :: "js_string list \<Rightarrow> js_string" where
  "join_comma [] = []"
| "join_comma [x] = x"
| "join_comma (x # y # xs) = x @ js_of '','' @ join_comma (y # xs)"

definition wrap_batch_envelope :: "js_string list \<Rightarrow> js_string" where
  "wrap_batch_envelope es = js_of ''{\"type\":\"batch\",\"events\":['' @ join_comma es @ js_of '']}''"

text \<open>A frame handed to a socket, with the compress flag.\<close>

datatype fan_frame = OneFrame envelope bool | BatchFrame "envelope list" bool

fun frame_text :: "fan_frame \<Rightarrow> js_string" where
  "frame_text (OneFrame e compress) = envelope_text e"
| "frame_text (BatchFrame es compress) = wrap_batch_envelope (map envelope_text es)"

fun frame_events :: "fan_frame \<Rightarrow> envelope list" where
  "frame_events (OneFrame e compress) = [e]"
| "frame_events (BatchFrame es compress) = es"

text \<open>Options as the call reads them once: \<open>relay !== false\<close>, \<open>compress !== false\<close>, a positive number of
  \<open>jitterMs\<close>, and the marker of a batch that was admitted as a whole.\<close>

record publish_options =
  po_seq :: seq_opt
  po_relay :: bool
  po_compress :: bool
  po_jitter :: "js_string option"
  po_admitted :: bool

text \<open>A message: its body is \<open>None\<close> when its data cannot be serialized.\<close>

record publish_message =
  pm_topic :: js_string
  pm_body :: "js_string option"
  pm_seq :: seq_opt
  pm_relay :: bool
  pm_jitter :: "js_string option"
  pm_coalesce :: "js_string option"

datatype publish_error = ClusterSequence | RefusedSeq seq_error | NotSerializable

section \<open>World and state\<close>

record publish_world =
  pw_open :: "nat \<Rightarrow> bool"
  pw_facade :: "nat \<Rightarrow> bool"
  pw_batch_cap :: "nat \<Rightarrow> bool"
  pw_answer :: "nat \<Rightarrow> fan_frame \<Rightarrow> send_answer"
  pw_probes :: probes
  pw_egress :: egress_config
  pw_tenant_of :: "(js_string \<Rightarrow> resolver_answer) option"
  pw_clock :: "nat \<Rightarrow> real"
  pw_workers :: nat
  pw_relay :: bool
  pw_compression :: bool

record relay_item =
  ri_envelope :: envelope
  ri_compress :: bool

record publish_state =
  pf_registry :: topic_registry
  pf_seq :: seq_bound
  pf_egress :: egress_account
  pf_resume :: resume_registry
  pf_published :: nat
  pf_aborts :: nat
  pf_sent :: "(nat \<times> fan_frame) list"
  pf_relayed :: "relay_item list"
  pf_stamped :: "(js_string \<times> nat) list"

section \<open>The checks\<close>

text \<open>\<open>clusterSequenceValuesAccepted\<close>.\<close>

definition cluster_sequence_accepted :: "nat \<Rightarrow> seq_opt \<Rightarrow> bool \<Rightarrow> bool" where
  "cluster_sequence_accepted workers seq relay =
     (if \<not> 1 < workers then True
      else if seq = SeqBool False \<or> seq = SeqNull then True
      else case seq of
        SeqBigint b \<Rightarrow> 1 \<le> b \<and> \<not> relay
      | SeqNumber v \<Rightarrow> (case f64_int v of None \<Rightarrow> False | Some i \<Rightarrow> 1 \<le> i \<and> \<not> relay)
      | _ \<Rightarrow> False)"

definition check_seq :: "publish_world \<Rightarrow> seq_opt \<Rightarrow> bool \<Rightarrow> publish_error + unit" where
  "check_seq w seq relay =
     (if \<not> cluster_sequence_accepted (pw_workers w) seq relay then Inl ClusterSequence
      else map_sum RefusedSeq (\<lambda>_. ()) (assert_stampable_seq seq))"

section \<open>Stamping\<close>

text \<open>\<open>stampSeqValue\<close> and the record of the highest number seen.\<close>

fun explicit_seq :: "seq_opt \<Rightarrow> bool" where
  "explicit_seq (SeqNumber v) = True"
| "explicit_seq (SeqBigint b) = True"
| "explicit_seq SeqAbsent = False"
| "explicit_seq SeqNull = False"
| "explicit_seq (SeqBool b) = False"
| "explicit_seq SeqOther = False"

definition stamp_and_record :: "publish_world \<Rightarrow> seq_opt \<Rightarrow> js_string \<Rightarrow> publish_state \<Rightarrow> seq_error + nat option \<times> publish_state" where
  "stamp_and_record w seq topic s =
     (case stamp_seq_value (pw_probes w) seq topic (pf_seq s) of
        Inl e \<Rightarrow> Inl e
      | Inr (None, sb) \<Rightarrow> Inr (None, s\<lparr>pf_seq := sb\<rparr>)
      | Inr (Some n, sb) \<Rightarrow>
          Inr (Some n,
            if explicit_seq seq then s\<lparr>pf_seq := record_seen (pw_probes w) topic n sb\<rparr>
            else s\<lparr>pf_seq := record_stamped_seen (pw_probes w) topic n sb, pf_stamped := pf_stamped s @ [(topic, n)]\<rparr>))"

section \<open>The fan-out\<close>

text \<open>The walk over the sockets of a topic. The flags are \<open>sent\<close> and \<open>refused\<close>; a socket that throws is gone.\<close>

fun fan_walk :: "publish_world \<Rightarrow> nat option \<Rightarrow> fan_frame \<Rightarrow> nat list \<Rightarrow> bool \<Rightarrow> bool \<Rightarrow> publish_state \<Rightarrow> bool \<times> bool \<times> publish_state" where
  "fan_walk w exclude frame [] sent refused s = (sent, refused, s)"
| "fan_walk w exclude frame (ws # rest) sent refused s =
     (if \<not> pw_open w ws \<or> exclude = Some ws \<or> \<not> pw_facade w ws then fan_walk w exclude frame rest sent refused s
      else
        let s = s\<lparr>pf_sent := pf_sent s @ [(ws, frame)]\<rparr>
        in case pw_answer w ws frame of
             Taken \<Rightarrow> fan_walk w exclude frame rest True refused s
           | DroppedFull \<Rightarrow> fan_walk w exclude frame rest sent True s
           | SocketGone \<Rightarrow> fan_walk w exclude frame rest sent refused (s\<lparr>pf_aborts := pf_aborts s + 1\<rparr>))"

text \<open>\<open>fanOut\<close>: whether the topic had a live subscriber, and whether one took the frame.\<close>

definition fan_out :: "publish_world \<Rightarrow> js_string \<Rightarrow> fan_frame \<Rightarrow> nat option \<Rightarrow> publish_state \<Rightarrow> (bool \<times> bool) \<times> publish_state" where
  "fan_out w topic frame exclude s =
     (case subscribers_of topic (pf_registry s) of
        None \<Rightarrow> ((False, False), s)
      | Some members \<Rightarrow>
          (case fan_walk w exclude frame members False False s of (sent, refused, s) \<Rightarrow> ((sent \<or> refused, sent), s)))"

text \<open>Holding the frame for the connections that are resuming the topic.\<close>

definition capture_for_resume :: "envelope \<Rightarrow> bool \<Rightarrow> publish_state \<Rightarrow> publish_state" where
  "capture_for_resume e compress s =
     (if jm_size (rr_sets (pf_resume s)) = 0 then s
      else s\<lparr>pf_resume := capture_frame (en_topic e)
        \<lparr>rf_seq = map_option real (en_seq e), rf_envelope = envelope_text e, rf_compress = compress\<rparr> (pf_resume s)\<rparr>)"

section \<open>Publishing one event\<close>

definition charge_publish :: "publish_world \<Rightarrow> js_string \<Rightarrow> js_string option \<Rightarrow> nat \<Rightarrow> js_string \<Rightarrow> publish_state \<Rightarrow> publish_state" where
  "charge_publish w topic tenant recipients text s =
     s\<lparr>pf_published := pf_published s + 1,
       pf_egress := egress_charge (pw_egress w) (Some topic) tenant 1 recipients
         (envelope_wire_bytes text recipients (bytes_armed (pw_egress w))) (pw_clock w (pf_published s)) (pf_egress s)\<rparr>"

definition publish_one :: "publish_world \<Rightarrow> js_string \<Rightarrow> js_string option \<Rightarrow> publish_options \<Rightarrow> publish_state \<Rightarrow> (publish_error + bool) \<times> publish_state" where
  "publish_one w topic body opts s =
     (case check_seq w (po_seq opts) (po_relay opts) of
        Inl e \<Rightarrow> (Inl e, s)
      | Inr _ \<Rightarrow>
          let recipients = num_subscribers (pw_open w) topic (pf_registry s);
              cfg = pw_egress w;
              found = (if egress_enabled cfg then publish_tenant cfg (pw_tenant_of w) topic (pf_egress s) else (None, pf_egress s));
              tenant = fst found;
              asked = (if egress_enabled cfg \<and> \<not> po_admitted opts
                       then egress_admit cfg (Some topic) tenant 1 recipients (pw_clock w 0) (pw_clock w 1) (snd found) else (True, snd found));
              s = s\<lparr>pf_egress := snd asked\<rparr>
          in if \<not> fst asked then (Inr False, s)
             else case body of
               None \<Rightarrow> (Inl NotSerializable, s)
             | Some text \<Rightarrow>
                 (case stamp_and_record w (po_seq opts) topic s of
                    Inl e \<Rightarrow> (Inl (RefusedSeq e), s)
                  | Inr (seq, s) \<Rightarrow>
                      let e = \<lparr>en_topic = topic, en_body = text, en_seq = seq, en_jitter = po_jitter opts\<rparr>;
                          s = charge_publish w topic tenant recipients (envelope_text e) s;
                          compress = (pw_compression w \<and> po_compress opts);
                          s = capture_for_resume e compress s
                      in case fan_out w topic (OneFrame e compress) None s of
                           ((reached, sent), s) \<Rightarrow>
                             let relayed = (pw_relay w \<and> po_relay opts);
                                 s = (if relayed then s\<lparr>pf_relayed := pf_relayed s @ [\<lparr>ri_envelope = e, ri_compress = compress\<rparr>]\<rparr> else s)
                             in (Inr (sent \<or> relayed), s)))"

section \<open>Publishing a batch\<close>

text \<open>\<open>collapseByCoalesceKey\<close>: of the messages with one key, the last.\<close>

definition last_by_key :: "publish_message list \<Rightarrow> (js_string, nat) jsmap" where
  "last_by_key ms = foldl (\<lambda>m p. case pm_coalesce (snd p) of None \<Rightarrow> m | Some k \<Rightarrow> jm_set k (fst p) m) [] (enumerate 0 ms)"

definition collapse_by_coalesce_key :: "publish_message list \<Rightarrow> publish_message list" where
  "collapse_by_coalesce_key ms =
     (if list_all (\<lambda>m. pm_coalesce m = None) ms then ms
      else map snd (filter (\<lambda>p. case pm_coalesce (snd p) of None \<Rightarrow> True | Some k \<Rightarrow> jm_get (last_by_key ms) k = Some (fst p)) (enumerate 0 ms)))"

text \<open>The distinct topics of the batch, when there is more than one.\<close>

definition batch_topics :: "publish_message list \<Rightarrow> js_string list option" where
  "batch_topics ms =
     (if list_all (\<lambda>m. pm_topic m = pm_topic (hd ms)) ms then None
      else Some (foldl (\<lambda>ts m. set_add (pm_topic m) ts) [] ms))"

definition fast_socket :: "publish_world \<Rightarrow> js_string \<Rightarrow> js_string list option \<Rightarrow> nat \<times> js_string list \<Rightarrow> bool" where
  "fast_socket w first topics entry =
     (case entry of (ws, held) \<Rightarrow>
        if \<not> pw_open w ws \<or> held = [] then True
        else case topics of
          None \<Rightarrow> if first \<notin> set held then True else if \<not> pw_facade w ws then True else pw_batch_cap w ws
        | Some ts \<Rightarrow>
            let touches_any = list_ex (\<lambda>t. t \<in> set held) ts; touches_all = list_all (\<lambda>t. t \<in> set held) ts
            in if touches_any \<and> \<not> touches_all then False
               else if \<not> touches_any then True else if \<not> pw_facade w ws then True else pw_batch_cap w ws)"

definition batch_fast_path_eligible :: "publish_world \<Rightarrow> js_string \<Rightarrow> js_string list option \<Rightarrow> topic_registry \<Rightarrow> bool" where
  "batch_fast_path_eligible w first topics r = list_all (fast_socket w first topics) (tr_topics r)"

text \<open>\<open>deliverBatchedEnvelopes\<close>: one shared frame to every open socket that holds a topic of the batch.\<close>

fun deliver_walk :: "publish_world \<Rightarrow> fan_frame \<Rightarrow> js_string \<Rightarrow> js_string list option \<Rightarrow> (nat \<times> js_string list) list \<Rightarrow> bool \<Rightarrow> publish_state \<Rightarrow> bool \<times> publish_state" where
  "deliver_walk w frame first topics [] reached s = (reached, s)"
| "deliver_walk w frame first topics ((ws, held) # rest) reached s =
     (let receives = (case topics of None \<Rightarrow> first \<in> set held | Some ts \<Rightarrow> list_ex (\<lambda>t. t \<in> set held) ts)
      in if \<not> pw_open w ws \<or> \<not> receives \<or> \<not> pw_facade w ws then deliver_walk w frame first topics rest reached s
         else
           let s = s\<lparr>pf_sent := pf_sent s @ [(ws, frame)]\<rparr>
           in case pw_answer w ws frame of
                SocketGone \<Rightarrow> deliver_walk w frame first topics rest reached (s\<lparr>pf_aborts := pf_aborts s + 1\<rparr>)
              | _ \<Rightarrow> deliver_walk w frame first topics rest True s)"

text \<open>\<open>admitBatchEgress\<close>: every topic asks for its share, every tenant once for the sum of its topics.\<close>

definition count_by_topic :: "publish_message list \<Rightarrow> (js_string, nat) jsmap" where
  "count_by_topic ms = foldl (\<lambda>c m. jm_set (pm_topic m) ((case jm_get c (pm_topic m) of None \<Rightarrow> 0 | Some n \<Rightarrow> n) + 1) c) [] ms"

fun admit_topics ::
  "publish_world \<Rightarrow> nat option \<Rightarrow> (js_string \<times> nat) list \<Rightarrow> (js_string, nat \<times> nat) jsmap \<Rightarrow> topic_registry \<Rightarrow> egress_account \<Rightarrow>
     (js_string, nat \<times> nat) jsmap option \<times> egress_account" where
  "admit_topics w shared [] pooled r A = (Some pooled, A)"
| "admit_topics w shared ((t, c) # rest) pooled r A =
     (let recipients = (case shared of None \<Rightarrow> num_subscribers (pw_open w) t r | Some n \<Rightarrow> n)
      in case admit_topic (pw_egress w) (Some t) c (c * recipients) (pw_clock w 0) A of
           (False, A) \<Rightarrow> (None, A)
         | (True, A) \<Rightarrow>
             (case publish_tenant (pw_egress w) (pw_tenant_of w) t A of
                (None, A) \<Rightarrow> admit_topics w shared rest pooled r A
              | (Some tenant, A) \<Rightarrow>
                  let agg = (case jm_get pooled tenant of None \<Rightarrow> (c, c * recipients) | Some (m, d) \<Rightarrow> (m + c, d + c * recipients))
                  in admit_topics w shared rest (jm_set tenant agg pooled) r A))"

fun admit_tenants :: "publish_world \<Rightarrow> (js_string \<times> nat \<times> nat) list \<Rightarrow> egress_account \<Rightarrow> bool \<times> egress_account" where
  "admit_tenants w [] A = (True, A)"
| "admit_tenants w ((tenant, m, d) # rest) A =
     (case admit_tenant (pw_egress w) (Some tenant) m d (pw_clock w 1) A of
        (False, A) \<Rightarrow> (False, A)
      | (True, A) \<Rightarrow> admit_tenants w rest A)"

definition admit_batch :: "publish_world \<Rightarrow> publish_message list \<Rightarrow> nat option \<Rightarrow> topic_registry \<Rightarrow> egress_account \<Rightarrow> bool \<times> egress_account" where
  "admit_batch w ms shared r A =
     (case admit_topics w shared (count_by_topic ms) [] r A of
        (None, A) \<Rightarrow> (False, A)
      | (Some pooled, A) \<Rightarrow> admit_tenants w pooled A)"

text \<open>The per-event path: each message through \<open>publish\<close>, marked as admitted.\<close>

definition slow_options :: "bool \<Rightarrow> publish_message \<Rightarrow> publish_options" where
  "slow_options compress m =
     \<lparr>po_seq = pm_seq m, po_relay = pm_relay m, po_compress = compress, po_jitter = pm_jitter m, po_admitted = True\<rparr>"

fun batch_slow :: "publish_world \<Rightarrow> bool \<Rightarrow> publish_message list \<Rightarrow> publish_state \<Rightarrow> (publish_error + unit) \<times> publish_state" where
  "batch_slow w compress [] s = (Inr (), s)"
| "batch_slow w compress (m # ms) s =
     (case publish_one w (pm_topic m) (pm_body m) (slow_options compress m) s of
        (Inl e, s) \<Rightarrow> (Inl e, s)
      | (Inr _, s) \<Rightarrow> batch_slow w compress ms s)"

text \<open>The shared-frame path: all bodies first, then every entry stamped and charged, one relay frame, the
  captures, one walk.\<close>

fun stamp_batch :: "publish_world \<Rightarrow> nat \<Rightarrow> (js_string \<Rightarrow> egress_account \<Rightarrow> js_string option \<times> egress_account) \<Rightarrow> publish_message list \<Rightarrow> publish_state \<Rightarrow>
     (publish_error + envelope list) \<times> publish_state" where
  "stamp_batch w recipients tenant_for [] s = (Inr [], s)"
| "stamp_batch w recipients tenant_for (m # ms) s =
     (case stamp_and_record w (pm_seq m) (pm_topic m) s of
        Inl e \<Rightarrow> (Inl (RefusedSeq e), s)
      | Inr (seq, s) \<Rightarrow>
          let e = \<lparr>en_topic = pm_topic m, en_body = the (pm_body m), en_seq = seq, en_jitter = None\<rparr>;
              found = tenant_for (pm_topic m) (pf_egress s);
              s = charge_publish w (pm_topic m) (fst found) recipients (envelope_text e) (s\<lparr>pf_egress := snd found\<rparr>)
          in case stamp_batch w recipients tenant_for ms s of
               (Inl e, s) \<Rightarrow> (Inl e, s)
             | (Inr es, s) \<Rightarrow> (Inr (e # es), s))"

definition batch_fast :: "publish_world \<Rightarrow> bool \<Rightarrow> nat \<Rightarrow> (js_string \<Rightarrow> egress_account \<Rightarrow> js_string option \<times> egress_account) \<Rightarrow> publish_message list \<Rightarrow> publish_state \<Rightarrow>
     (publish_error + unit) \<times> publish_state" where
  "batch_fast w compress recipients tenant_for ms s =
     (if list_ex (\<lambda>m. pm_body m = None) ms then (Inl NotSerializable, s)
      else case stamp_batch w recipients tenant_for ms s of
        (Inl e, s) \<Rightarrow> (Inl e, s)
      | (Inr es, s) \<Rightarrow>
          let s = (if pw_relay w
                   then s\<lparr>pf_relayed := pf_relayed s @ map (\<lambda>p. \<lparr>ri_envelope = snd p, ri_compress = compress\<rparr>) (filter (\<lambda>p. pm_relay (fst p)) (zip ms es))\<rparr>
                   else s);
              s = foldl (\<lambda>s e. capture_for_resume e compress s) s es
          in (Inr (), snd (deliver_walk w (BatchFrame es compress) (pm_topic (hd ms)) (batch_topics ms) (tr_topics (pf_registry s)) False s)))"

fun check_batch :: "publish_world \<Rightarrow> publish_message list \<Rightarrow> publish_error + unit" where
  "check_batch w [] = Inr ()"
| "check_batch w (m # ms) = (case check_seq w (pm_seq m) (pm_relay m) of Inl e \<Rightarrow> Inl e | Inr _ \<Rightarrow> check_batch w ms)"

text \<open>\<open>compress_opt\<close> is \<open>options.compress === true\<close>.\<close>

definition publish_batched :: "publish_world \<Rightarrow> bool \<Rightarrow> publish_message list \<Rightarrow> publish_state \<Rightarrow> (publish_error + unit) \<times> publish_state" where
  "publish_batched w compress_opt messages s =
     (let compress = (pw_compression w \<and> compress_opt);
          ms = collapse_by_coalesce_key messages;
          armed = egress_enabled (pw_egress w)
      in if messages = [] \<or> ms = [] then (Inr (), s)
         else case check_batch w ms of
           Inl e \<Rightarrow> (Inl e, s)
         | Inr _ \<Rightarrow>
             let first = pm_topic (hd ms); topics = batch_topics ms
             in if \<not> batch_fast_path_eligible w first topics (pf_registry s)
                then
                  let asked = (if armed then admit_batch w ms None (pf_registry s) (pf_egress s) else (True, pf_egress s));
                      s = s\<lparr>pf_egress := snd asked\<rparr>
                  in if \<not> fst asked then (Inr (), s) else batch_slow w compress ms s
                else
                  let recipients = num_subscribers (pw_open w) first (pf_registry s);
                      found = (if armed \<and> topics = None then publish_tenant (pw_egress w) (pw_tenant_of w) first (pf_egress s) else (None, pf_egress s));
                      asked = (if \<not> armed then (True, snd found)
                               else if topics = None
                               then egress_admit (pw_egress w) (Some first) (fst found) (length ms) (length ms * recipients) (pw_clock w 0) (pw_clock w 1) (snd found)
                               else admit_batch w ms (Some recipients) (pf_registry s) (snd found));
                      tenant_for = (\<lambda>t A. if armed \<and> topics \<noteq> None then publish_tenant (pw_egress w) (pw_tenant_of w) t A else (fst found, A));
                      s = s\<lparr>pf_egress := snd asked\<rparr>
                  in if \<not> fst asked then (Inr (), s) else batch_fast w compress recipients tenant_for ms s)"

section \<open>What one publish does\<close>

definition live :: "publish_world \<Rightarrow> nat \<Rightarrow> bool" where
  "live w ws \<longleftrightarrow> pw_open w ws \<and> pw_facade w ws"

definition walked :: "publish_world \<Rightarrow> nat option \<Rightarrow> fan_frame \<Rightarrow> nat list \<Rightarrow> publish_state \<Rightarrow> publish_state" where
  "walked w exclude frame members s =
     s\<lparr>pf_sent := pf_sent s @ map (\<lambda>ws. (ws, frame)) (filter (\<lambda>ws. live w ws \<and> exclude \<noteq> Some ws) members),
       pf_aborts := pf_aborts s + length (filter (\<lambda>ws. live w ws \<and> exclude \<noteq> Some ws \<and> pw_answer w ws frame = SocketGone) members)\<rparr>"

lemma fan_walk_effect:
  "fan_walk w exclude frame members sent refused s =
     (sent \<or> (\<exists>ws \<in> set members. live w ws \<and> exclude \<noteq> Some ws \<and> pw_answer w ws frame = Taken),
      refused \<or> (\<exists>ws \<in> set members. live w ws \<and> exclude \<noteq> Some ws \<and> pw_answer w ws frame = DroppedFull),
      walked w exclude frame members s)"
proof (induction members arbitrary: sent refused s)
  case (Cons ws members)
  show ?case
  proof (cases "live w ws \<and> exclude \<noteq> Some ws")
    case False
    then show ?thesis using Cons by (auto simp: live_def walked_def)
  next
    case True
    then show ?thesis using Cons by (cases "pw_answer w ws frame") (auto simp: live_def walked_def Let_def)
  qed
qed (simp add: walked_def)

lemma fan_out_effect:
  "fan_out w topic frame exclude s =
     (let taken = (\<lambda>a. \<exists>ws \<in> set (members_of topic (pf_registry s)). live w ws \<and> exclude \<noteq> Some ws \<and> pw_answer w ws frame = a)
      in ((taken Taken \<or> taken DroppedFull, taken Taken), walked w exclude frame (members_of topic (pf_registry s)) s))"
  by (auto simp: fan_out_def fan_walk_effect members_of_def Let_def walked_def split: option.split)

text \<open>The part of the state a refused call must not touch.\<close>

definition untouched :: "publish_state \<Rightarrow> publish_state \<Rightarrow> bool" where
  "untouched s s' \<longleftrightarrow> pf_registry s' = pf_registry s \<and> pf_seq s' = pf_seq s \<and> pf_resume s' = pf_resume s \<and> pf_published s' = pf_published s \<and>
     pf_aborts s' = pf_aborts s \<and> pf_sent s' = pf_sent s \<and> pf_relayed s' = pf_relayed s \<and> pf_stamped s' = pf_stamped s"

lemma untouched_egress [simp]: "untouched s (s\<lparr>pf_egress := A\<rparr>)"
  by (simp add: untouched_def)

lemma untouched_refl [simp]: "untouched s s"
  by (simp add: untouched_def)

text \<open>What an event that goes out does: one capture, one walk, one relay frame.\<close>

definition sent_event :: "publish_world \<Rightarrow> envelope \<Rightarrow> bool \<Rightarrow> bool \<Rightarrow> publish_state \<Rightarrow> publish_state" where
  "sent_event w e compress relay s =
     (let s = walked w None (OneFrame e compress) (members_of (en_topic e) (pf_registry s)) (capture_for_resume e compress s)
      in if pw_relay w \<and> relay then s\<lparr>pf_relayed := pf_relayed s @ [\<lparr>ri_envelope = e, ri_compress = compress\<rparr>]\<rparr> else s)"

lemma capture_simps [simp]:
  "pf_registry (capture_for_resume e c s) = pf_registry s" "pf_seq (capture_for_resume e c s) = pf_seq s"
  "pf_egress (capture_for_resume e c s) = pf_egress s" "pf_published (capture_for_resume e c s) = pf_published s"
  "pf_aborts (capture_for_resume e c s) = pf_aborts s" "pf_sent (capture_for_resume e c s) = pf_sent s"
  "pf_relayed (capture_for_resume e c s) = pf_relayed s" "pf_stamped (capture_for_resume e c s) = pf_stamped s"
  by (simp_all add: capture_for_resume_def)

lemma walked_simps [simp]:
  "pf_registry (walked w x f ms s) = pf_registry s" "pf_seq (walked w x f ms s) = pf_seq s" "pf_egress (walked w x f ms s) = pf_egress s"
  "pf_published (walked w x f ms s) = pf_published s" "pf_resume (walked w x f ms s) = pf_resume s" "pf_relayed (walked w x f ms s) = pf_relayed s"
  "pf_stamped (walked w x f ms s) = pf_stamped s"
  by (simp_all add: walked_def)

lemma charge_simps [simp]:
  "pf_registry (charge_publish w t n r x s) = pf_registry s" "pf_seq (charge_publish w t n r x s) = pf_seq s"
  "pf_resume (charge_publish w t n r x s) = pf_resume s" "pf_aborts (charge_publish w t n r x s) = pf_aborts s"
  "pf_sent (charge_publish w t n r x s) = pf_sent s" "pf_relayed (charge_publish w t n r x s) = pf_relayed s"
  "pf_stamped (charge_publish w t n r x s) = pf_stamped s" "pf_published (charge_publish w t n r x s) = pf_published s + 1"
  by (simp_all add: charge_publish_def)

lemma stamp_simps:
  assumes "stamp_and_record w seq topic s = Inr (n, s')"
  shows "pf_registry s' = pf_registry s" "pf_egress s' = pf_egress s" "pf_resume s' = pf_resume s" "pf_published s' = pf_published s"
    "pf_aborts s' = pf_aborts s" "pf_sent s' = pf_sent s" "pf_relayed s' = pf_relayed s"
  using assms by (auto simp: stamp_and_record_def split: sum.splits option.splits if_splits)

text \<open>Stamping looks at the numbers only, and the early check has already answered for it.\<close>

lemma stamp_local:
  assumes "stamp_and_record w seq topic s = Inr (n, s')" and "pf_seq r = pf_seq s" and "pf_stamped r = pf_stamped s"
  shows "stamp_and_record w seq topic r = Inr (n, r\<lparr>pf_seq := pf_seq s', pf_stamped := pf_stamped s'\<rparr>)"
  using assms by (auto simp: stamp_and_record_def split: sum.splits option.splits if_splits)

lemma stamp_checked: "assert_stampable_seq seq = Inr u \<Longrightarrow> \<exists>n sb. stamp_seq_value p seq topic s = Inr (n, sb)"
  by (cases seq; cases "explicit_seq_value seq") (auto simp: assert_stampable_seq_def stamp_seq_value_def split: if_splits option.splits prod.splits)

lemma stamp_accepted:
  assumes "check_seq w seq relay = Inr u"
  obtains n s' where "stamp_and_record w seq topic s = Inr (n, s')"
proof -
  have "assert_stampable_seq seq = Inr ()" using assms by (cases "assert_stampable_seq seq") (auto simp: check_seq_def split: if_splits)
  then obtain n sb where "stamp_seq_value (pw_probes w) seq topic (pf_seq s) = Inr (n, sb)" using stamp_checked by blast
  then show ?thesis using that by (cases n) (auto simp: stamp_and_record_def)
qed

lemma publish_one_cases:
  assumes p: "publish_one w topic body opts s = (r, s')"
  obtains (nothing) "untouched s s'" and "(\<exists>e. r = Inl e) \<or> r = Inr False"
      and "\<not> (check_seq w (po_seq opts) (po_relay opts) = Inr () \<and> body \<noteq> None \<and> po_admitted opts)"
  | (gone) b seq st A tenant recipients e compress where
      "r = Inr ((\<exists>ws \<in> set (members_of topic (pf_registry s)). live w ws \<and> pw_answer w ws (OneFrame e compress) = Taken) \<or> pw_relay w \<and> po_relay opts)"
      and "check_seq w (po_seq opts) (po_relay opts) = Inr ()" and "body = Some b" and "stamp_and_record w (po_seq opts) topic (s\<lparr>pf_egress := A\<rparr>) = Inr (seq, st)"
      and "e = \<lparr>en_topic = topic, en_body = b, en_seq = seq, en_jitter = po_jitter opts\<rparr>" and "compress = (pw_compression w \<and> po_compress opts)"
      and "s' = sent_event w e compress (po_relay opts) (charge_publish w topic tenant recipients (envelope_text e) st)"
proof (cases "check_seq w (po_seq opts) (po_relay opts)")
  case (Inl e)
  show ?thesis by (rule nothing) (use p Inl in \<open>auto simp: publish_one_def\<close>)
next
  case (Inr u)
  let ?cfg = "pw_egress w" and ?n = "num_subscribers (pw_open w) topic (pf_registry s)"
  define found where "found = (if egress_enabled ?cfg then publish_tenant ?cfg (pw_tenant_of w) topic (pf_egress s) else (None, pf_egress s))"
  define asked where "asked = (if egress_enabled ?cfg \<and> \<not> po_admitted opts
      then egress_admit ?cfg (Some topic) (fst found) 1 ?n (pw_clock w 0) (pw_clock w 1) (snd found) else (True, snd found))"
  let ?s = "s\<lparr>pf_egress := snd asked\<rparr>"
  have unfold: "(r, s') = (if \<not> fst asked then (Inr False, ?s)
      else case body of
        None \<Rightarrow> (Inl NotSerializable, ?s)
      | Some text \<Rightarrow>
          (case stamp_and_record w (po_seq opts) topic ?s of
             Inl e \<Rightarrow> (Inl (RefusedSeq e), ?s)
           | Inr (seq, s) \<Rightarrow>
               let e = \<lparr>en_topic = topic, en_body = text, en_seq = seq, en_jitter = po_jitter opts\<rparr>;
                   s = charge_publish w topic (fst found) ?n (envelope_text e) s;
                   compress = (pw_compression w \<and> po_compress opts);
                   s = capture_for_resume e compress s
               in case fan_out w topic (OneFrame e compress) None s of
                    ((reached, sent), s) \<Rightarrow>
                      let relayed = (pw_relay w \<and> po_relay opts);
                          s = (if relayed then s\<lparr>pf_relayed := pf_relayed s @ [\<lparr>ri_envelope = e, ri_compress = compress\<rparr>]\<rparr> else s)
                      in (Inr (sent \<or> relayed), s)))"
    unfolding p [symmetric] found_def asked_def by (simp only: publish_one_def Inr Let_def sum.case)
  consider (refused) "\<not> fst asked" | (broken) "fst asked" "body = None" | (admitted) b where "fst asked" "body = Some b" by (cases body) auto
  then show ?thesis
  proof cases
    case refused
    then have "\<not> po_admitted opts" by (auto simp: asked_def)
    then show ?thesis by - (rule nothing; use refused unfold in auto)
  next
    case broken
    then show ?thesis by - (rule nothing; use broken unfold in auto)
  next
    case admitted
    obtain seq st where st: "stamp_and_record w (po_seq opts) topic ?s = Inr (seq, st)" using stamp_accepted [OF Inr] .
    let ?e = "\<lparr>en_topic = topic, en_body = b, en_seq = seq, en_jitter = po_jitter opts\<rparr>" and ?c = "pw_compression w \<and> po_compress opts"
    note keep = stamp_simps(1) [OF st]
    show ?thesis
      by (rule gone [OF _ _ admitted(2) st refl refl, of "fst found" ?n])
        (use unfold admitted Inr st keep in \<open>auto simp: fan_out_effect sent_event_def Let_def\<close>)
  qed
qed

definition resume_capture :: "envelope \<Rightarrow> bool \<Rightarrow> resume_registry \<Rightarrow> resume_registry" where
  "resume_capture e compress rr =
     (if jm_size (rr_sets rr) = 0 then rr
      else capture_frame (en_topic e) \<lparr>rf_seq = map_option real (en_seq e), rf_envelope = envelope_text e, rf_compress = compress\<rparr> rr)"

lemma resume_captured: "pf_resume (capture_for_resume e c s) = resume_capture e c (pf_resume s)"
  by (simp add: capture_for_resume_def resume_capture_def)

definition relay_items :: "publish_world \<Rightarrow> bool \<Rightarrow> envelope \<Rightarrow> bool \<Rightarrow> relay_item list" where
  "relay_items w relay e compress = (if pw_relay w \<and> relay then [\<lparr>ri_envelope = e, ri_compress = compress\<rparr>] else [])"

lemma sent_event_simps:
  "pf_registry (sent_event w e c rl s) = pf_registry s" "pf_seq (sent_event w e c rl s) = pf_seq s" "pf_stamped (sent_event w e c rl s) = pf_stamped s"
  "pf_published (sent_event w e c rl s) = pf_published s" "pf_resume (sent_event w e c rl s) = resume_capture e c (pf_resume s)"
  "pf_sent (sent_event w e c rl s) = pf_sent s @ map (\<lambda>ws. (ws, OneFrame e c)) (filter (live w) (members_of (en_topic e) (pf_registry s)))"
  "pf_relayed (sent_event w e c rl s) = pf_relayed s @ relay_items w rl e c"
  by (simp_all add: sent_event_def Let_def resume_captured relay_items_def) (simp_all add: walked_def)




section \<open>The two batch paths\<close>

definition events_to :: "nat \<Rightarrow> (nat \<times> fan_frame) list \<Rightarrow> envelope list" where
  "events_to ws l = concat (map (\<lambda>p. frame_events (snd p)) (filter (\<lambda>p. fst p = ws) l))"

lemma events_to_append [simp]: "events_to ws (a @ b) = events_to ws a @ events_to ws b"
  by (simp add: events_to_def)

lemma events_to_walk:
  "distinct members \<Longrightarrow> events_to ws (map (\<lambda>k. (k, f)) (filter P members)) = (if ws \<in> set members \<and> P ws then frame_events f else [])"
  by (induction members) (auto simp: events_to_def)

text \<open>The envelopes of a batch, stamped in order.\<close>

fun stamp_events :: "publish_world \<Rightarrow> publish_message list \<Rightarrow> publish_state \<Rightarrow> envelope list \<times> publish_state" where
  "stamp_events w [] s = ([], s)"
| "stamp_events w (m # ms) s =
     (case stamp_and_record w (pm_seq m) (pm_topic m) s of
        Inl e \<Rightarrow> ([], s)
      | Inr (seq, s) \<Rightarrow>
          (case stamp_events w ms s of (es, s) \<Rightarrow>
             (\<lparr>en_topic = pm_topic m, en_body = the (pm_body m), en_seq = seq, en_jitter = None\<rparr> # es, s)))"

definition plain_message :: "publish_world \<Rightarrow> publish_message \<Rightarrow> bool" where
  "plain_message w m \<longleftrightarrow> check_seq w (pm_seq m) (pm_relay m) = Inr () \<and> pm_body m \<noteq> None \<and> pm_jitter m = None"

lemma publish_marked:
  assumes m: "plain_message w m" and st: "stamp_and_record w (pm_seq m) (pm_topic m) r = Inr (seq, r')"
    and same: "pf_seq r = pf_seq s" "pf_stamped r = pf_stamped s"
    and e: "e = \<lparr>en_topic = pm_topic m, en_body = the (pm_body m), en_seq = seq, en_jitter = None\<rparr>"
  shows "\<exists>ok s'. publish_one w (pm_topic m) (pm_body m) (slow_options compress m) s = (Inr ok, s') \<and> pf_seq s' = pf_seq r' \<and> pf_stamped s' = pf_stamped r' \<and>
    pf_registry s' = pf_registry s \<and> pf_resume s' = resume_capture e (pw_compression w \<and> compress) (pf_resume s) \<and>
    pf_sent s' = pf_sent s @ map (\<lambda>ws. (ws, OneFrame e (pw_compression w \<and> compress))) (filter (live w) (members_of (pm_topic m) (pf_registry s))) \<and>
    pf_relayed s' = pf_relayed s @ relay_items w (pm_relay m) e (pw_compression w \<and> compress)"
proof -
  obtain r1 s1 where p: "publish_one w (pm_topic m) (pm_body m) (slow_options compress m) s = (r1, s1)" by fastforce
  then show ?thesis
  proof (cases rule: publish_one_cases)
    case nothing
    then show ?thesis using m by (simp add: plain_message_def slow_options_def)
  next
    case (gone b q st' A tenant recipients e' compress')
    have "stamp_and_record w (pm_seq m) (pm_topic m) (s\<lparr>pf_egress := A\<rparr>) = Inr (seq, s\<lparr>pf_egress := A, pf_seq := pf_seq r', pf_stamped := pf_stamped r'\<rparr>)"
      using stamp_local [OF st, of "s\<lparr>pf_egress := A\<rparr>"] same by simp
    then have q: "q = seq" "pf_seq st' = pf_seq r'" "pf_stamped st' = pf_stamped r'" using gone(4) by (auto simp: slow_options_def)
    have "e' = e" using gone(3,5) q(1) m e by (simp add: slow_options_def plain_message_def)
    then show ?thesis
      using p gone(1,6,7) q(2,3) stamp_simps [OF gone(4)] e by (simp add: sent_event_simps slow_options_def)
  qed
qed

lemma stamp_events_length: "\<forall>m \<in> set ms. plain_message w m \<Longrightarrow> stamp_events w ms r = (es, r') \<Longrightarrow> length es = length ms \<and> map en_topic es = map pm_topic ms"
proof (induction ms arbitrary: r r' es)
  case (Cons m ms)
  obtain seq r1 where st: "stamp_and_record w (pm_seq m) (pm_topic m) r = Inr (seq, r1)"
    using Cons.prems(1) stamp_accepted [of w "pm_seq m" "pm_relay m" "()" "pm_topic m" r] by (auto simp: plain_message_def)
  obtain es1 r2 where rest: "stamp_events w ms r1 = (es1, r2)" by fastforce
  then show ?case using Cons.IH [OF _ rest] Cons.prems st by (auto simp: plain_message_def)
qed simp

lemma batch_slow_effect:
  assumes "\<forall>m \<in> set ms. plain_message w m" and "registry_ok (pf_registry s)" and "compress \<longrightarrow> pw_compression w"
    and "stamp_events w ms r = (es, r')" and "pf_seq r = pf_seq s" and "pf_stamped r = pf_stamped s"
  shows "\<exists>s'. batch_slow w compress ms s = (Inr (), s') \<and> pf_seq s' = pf_seq r' \<and> pf_stamped s' = pf_stamped r' \<and> pf_registry s' = pf_registry s \<and>
    pf_resume s' = foldl (\<lambda>rr e. resume_capture e compress rr) (pf_resume s) es \<and>
    (\<forall>ws. events_to ws (pf_sent s') = events_to ws (pf_sent s) @ filter (\<lambda>e. live w ws \<and> ws \<in> set (members_of (en_topic e) (pf_registry s))) es) \<and>
    pf_relayed s' = pf_relayed s @ concat (map (\<lambda>p. relay_items w (pm_relay (fst p)) (snd p) compress) (zip ms es))"
  using assms
proof (induction ms arbitrary: s r es)
  case (Cons m ms)
  have m: "plain_message w m" using Cons.prems(1) by simp
  obtain seq r1 where st: "stamp_and_record w (pm_seq m) (pm_topic m) r = Inr (seq, r1)"
    using m stamp_accepted [of w "pm_seq m" "pm_relay m" "()" "pm_topic m" r] by (auto simp: plain_message_def)
  define e where "e = \<lparr>en_topic = pm_topic m, en_body = the (pm_body m), en_seq = seq, en_jitter = None\<rparr>"
  obtain es1 where es: "es = e # es1" "stamp_events w ms r1 = (es1, r')"
    using Cons.prems(4) st by (auto simp: e_def split: prod.splits)
  have c: "(pw_compression w \<and> compress) = compress" using Cons.prems(3) by auto
  from publish_marked [OF m st Cons.prems(5,6) e_def, of compress] obtain ok s1 where
    p: "publish_one w (pm_topic m) (pm_body m) (slow_options compress m) s = (Inr ok, s1)" "pf_seq s1 = pf_seq r1" "pf_stamped s1 = pf_stamped r1"
      "pf_registry s1 = pf_registry s" "pf_resume s1 = resume_capture e compress (pf_resume s)"
      "pf_sent s1 = pf_sent s @ map (\<lambda>ws. (ws, OneFrame e compress)) (filter (live w) (members_of (pm_topic m) (pf_registry s)))"
      "pf_relayed s1 = pf_relayed s @ relay_items w (pm_relay m) e compress"
    unfolding c by blast
  have "distinct (members_of (pm_topic m) (pf_registry s))" using Cons.prems(2) by (simp add: registry_ok_def)
  then have to: "events_to ws (pf_sent s1) = events_to ws (pf_sent s) @ (if live w ws \<and> ws \<in> set (members_of (en_topic e) (pf_registry s)) then [e] else [])" for ws
    by (auto simp: p(6) events_to_walk e_def)
  have rest: "\<forall>m \<in> set ms. plain_message w m" and ok1: "registry_ok (pf_registry s1)" using Cons.prems(1,2) p(4) by simp_all
  from Cons.IH [OF rest ok1 Cons.prems(3) es(2) p(2) [symmetric] p(3) [symmetric]] obtain s' where
    s': "batch_slow w compress ms s1 = (Inr (), s')" "pf_seq s' = pf_seq r'" "pf_stamped s' = pf_stamped r'" "pf_registry s' = pf_registry s1"
      "pf_resume s' = foldl (\<lambda>rr e. resume_capture e compress rr) (pf_resume s1) es1"
      "\<forall>ws. events_to ws (pf_sent s') = events_to ws (pf_sent s1) @ filter (\<lambda>e. live w ws \<and> ws \<in> set (members_of (en_topic e) (pf_registry s1))) es1"
      "pf_relayed s' = pf_relayed s1 @ concat (map (\<lambda>p. relay_items w (pm_relay (fst p)) (snd p) compress) (zip ms es1))"
    by blast
  then show ?case using p(1,4,5,7) to es(1) by (intro exI [of _ s']) simp
qed simp

lemma stamp_batch_effect:
  assumes "\<forall>m \<in> set ms. plain_message w m" and "stamp_events w ms r = (es, r')" and "pf_seq r = pf_seq s" and "pf_stamped r = pf_stamped s"
  shows "\<exists>s'. stamp_batch w recipients tenant_for ms s = (Inr es, s') \<and> pf_seq s' = pf_seq r' \<and> pf_stamped s' = pf_stamped r' \<and> pf_registry s' = pf_registry s \<and>
    pf_resume s' = pf_resume s \<and> pf_sent s' = pf_sent s \<and> pf_relayed s' = pf_relayed s"
  using assms
proof (induction ms arbitrary: s r es)
  case (Cons m ms)
  obtain seq r1 where st: "stamp_and_record w (pm_seq m) (pm_topic m) r = Inr (seq, r1)"
    using Cons.prems(1) stamp_accepted [of w "pm_seq m" "pm_relay m" "()" "pm_topic m" r] by (auto simp: plain_message_def)
  define e where "e = \<lparr>en_topic = pm_topic m, en_body = the (pm_body m), en_seq = seq, en_jitter = None\<rparr>"
  obtain es1 where es: "es = e # es1" "stamp_events w ms r1 = (es1, r')"
    using Cons.prems(2) st by (auto simp: e_def split: prod.splits)
  let ?s = "s\<lparr>pf_seq := pf_seq r1, pf_stamped := pf_stamped r1\<rparr>"
  have st': "stamp_and_record w (pm_seq m) (pm_topic m) s = Inr (seq, ?s)"
    using stamp_local [OF st, of s] Cons.prems(3,4) by simp
  let ?found = "tenant_for (pm_topic m) (pf_egress s)"
  let ?s1 = "charge_publish w (pm_topic m) (fst ?found) recipients (envelope_text e) (?s\<lparr>pf_egress := snd ?found\<rparr>)"
  obtain s' where "stamp_batch w recipients tenant_for ms ?s1 = (Inr es1, s')" "pf_seq s' = pf_seq r'" "pf_stamped s' = pf_stamped r'"
      "pf_registry s' = pf_registry ?s1" "pf_resume s' = pf_resume ?s1" "pf_sent s' = pf_sent ?s1" "pf_relayed s' = pf_relayed ?s1"
    using Cons.IH [OF _ es(2), of ?s1] Cons.prems(1) by auto
  then show ?case using st' es(1) by (intro exI [of _ s']) (simp add: e_def Let_def)
qed simp

text \<open>What the shared walk hands out.\<close>

definition gets_batch :: "publish_message list \<Rightarrow> js_string list \<Rightarrow> bool" where
  "gets_batch ms held \<longleftrightarrow> (\<exists>m \<in> set ms. pm_topic m \<in> set held)"

lemma batch_topics_set: "batch_topics ms = Some ts \<Longrightarrow> set ts = pm_topic ` set ms"
proof -
  have "set (foldl (\<lambda>ts m. set_add (pm_topic m) ts) ts0 ms) = set ts0 \<union> pm_topic ` set ms" for ts0
    by (induction ms arbitrary: ts0) auto
  then show "batch_topics ms = Some ts \<Longrightarrow> set ts = pm_topic ` set ms" by (auto simp: batch_topics_def split: if_splits)
qed

lemma batch_topics_None: "batch_topics ms = None \<Longrightarrow> m \<in> set ms \<Longrightarrow> pm_topic m = pm_topic (hd ms)"
  by (auto simp: batch_topics_def list_all_iff split: if_splits)

lemma receives_iff:
  "ms \<noteq> [] \<Longrightarrow> (case batch_topics ms of None \<Rightarrow> pm_topic (hd ms) \<in> set held | Some ts \<Rightarrow> list_ex (\<lambda>t. t \<in> set held) ts) \<longleftrightarrow> gets_batch ms held"
proof (cases "batch_topics ms")
  case None
  assume "ms \<noteq> []"
  then have "\<exists>m. m \<in> set ms" by (cases ms) auto
  then show ?thesis using None batch_topics_None [OF None] by (auto simp: gets_batch_def)
next
  case (Some ts)
  then show ?thesis using batch_topics_set [OF Some] by (auto simp: gets_batch_def list_ex_iff)
qed

lemma deliver_walk_effect:
  assumes "ms \<noteq> []"
  shows "\<exists>aborts reached'. deliver_walk w frame (pm_topic (hd ms)) (batch_topics ms) entries reached s =
    (reached', s\<lparr>pf_sent := pf_sent s @ map (\<lambda>ws. (ws, frame)) (map fst (filter (\<lambda>p. live w (fst p) \<and> gets_batch ms (snd p)) entries)), pf_aborts := aborts\<rparr>)"
proof (induction entries arbitrary: reached s)
  case Nil
  have "s\<lparr>pf_sent := pf_sent s, pf_aborts := pf_aborts s\<rparr> = s" by simp
  then show ?case by (auto intro: exI [of _ "pf_aborts s"])
next
  case (Cons entry entries)
  obtain ws held where entry: "entry = (ws, held)" by fastforce
  show ?case
  proof (cases "live w ws \<and> gets_batch ms held")
    case False
    then show ?thesis using Cons [of reached s] entry receives_iff [OF assms, of held] by (auto simp: live_def)
  next
    case True
    let ?s = "s\<lparr>pf_sent := pf_sent s @ [(ws, frame)]\<rparr>"
    show ?thesis
    proof (cases "pw_answer w ws frame = SocketGone")
      case gone: True
      then show ?thesis using Cons [of reached "?s\<lparr>pf_aborts := pf_aborts s + 1\<rparr>"] True entry receives_iff [OF assms, of held]
        by (auto simp: live_def Let_def)
    next
      case False
      then have "deliver_walk w frame (pm_topic (hd ms)) (batch_topics ms) (entry # entries) reached s =
          deliver_walk w frame (pm_topic (hd ms)) (batch_topics ms) entries True ?s"
        using True entry receives_iff [OF assms, of held] by (auto simp: live_def Let_def split: send_answer.split)
      then show ?thesis using Cons [of True ?s] True entry by simp
    qed
  qed
qed

text \<open>All-see-all: an open socket that holds one topic of the batch holds them all.\<close>

lemma eligible_all:
  assumes el: "batch_fast_path_eligible w (pm_topic (hd ms)) (batch_topics ms) r" and ms: "ms \<noteq> []"
    and entry: "(ws, held) \<in> set (tr_topics r)" and o: "pw_open w ws" and g: "gets_batch ms held" and m: "m \<in> set ms"
  shows "pm_topic m \<in> set held"
proof -
  have f: "fast_socket w (pm_topic (hd ms)) (batch_topics ms) (ws, held)"
    using el entry by (auto simp: batch_fast_path_eligible_def list_all_iff)
  show ?thesis
  proof (cases "batch_topics ms")
    case None
    then show ?thesis using g m batch_topics_None [OF None] by (auto simp: gets_batch_def)
  next
    case (Some ts)
    have "held \<noteq> []" using g by (auto simp: gets_batch_def)
    moreover have "list_ex (\<lambda>t. t \<in> set held) ts" using receives_iff [OF ms, of held] g Some by simp
    ultimately have "list_all (\<lambda>t. t \<in> set held) ts" using f o Some by (auto simp: fast_socket_def Let_def split: if_splits)
    then show ?thesis using batch_topics_set [OF Some] m by (auto simp: list_all_iff)
  qed
qed

lemma topic_list_entry: "registry_ok r \<Longrightarrow> (ws, held) \<in> set (tr_topics r) \<Longrightarrow> socket_topic_list ws r = held"
  by (simp add: registry_ok_def socket_topic_list_def jm_mem_get)

lemma member_entry:
  "registry_ok r \<Longrightarrow> ws \<in> set (members_of t r) \<longleftrightarrow> (\<exists>held. (ws, held) \<in> set (tr_topics r) \<and> t \<in> set held)"
proof -
  assume ok: "registry_ok r"
  then have "ws \<in> set (members_of t r) \<longleftrightarrow> t \<in> set (socket_topic_list ws r)" by (simp add: registry_ok_def)
  also have "\<dots> \<longleftrightarrow> (\<exists>held. (ws, held) \<in> set (tr_topics r) \<and> t \<in> set held)"
  proof
    assume t: "t \<in> set (socket_topic_list ws r)"
    then obtain held where h: "jm_get (tr_topics r) ws = Some held" by (cases "jm_get (tr_topics r) ws") (simp_all add: socket_topic_list_def)
    then show "\<exists>held. (ws, held) \<in> set (tr_topics r) \<and> t \<in> set held" using t jm_get_Some_mem [OF h] by (auto simp: socket_topic_list_def)
  qed (use topic_list_entry [OF ok] in auto)
  finally show ?thesis .
qed

lemma eligible_members:
  assumes "registry_ok r" and "batch_fast_path_eligible w (pm_topic (hd ms)) (batch_topics ms) r" and "ms \<noteq> []" and "pw_open w ws" and "m \<in> set ms"
  shows "ws \<in> set (members_of (pm_topic m) r) \<longleftrightarrow> (\<exists>held. (ws, held) \<in> set (tr_topics r) \<and> gets_batch ms held)"
  using eligible_all [OF assms(2,3) _ assms(4) _ assms(5)] assms(5) member_entry [OF assms(1)] by (auto simp: gets_batch_def)

lemma batch_fast_effect:
  assumes plain: "\<forall>m \<in> set ms. plain_message w m" and ms: "ms \<noteq> []" and ok: "registry_ok (pf_registry s)" and es: "stamp_events w ms s = (es, r')"
  shows "\<exists>s'. batch_fast w compress recipients tenant_for ms s = (Inr (), s') \<and> pf_seq s' = pf_seq r' \<and> pf_stamped s' = pf_stamped r' \<and> pf_registry s' = pf_registry s \<and>
    pf_resume s' = foldl (\<lambda>rr e. resume_capture e compress rr) (pf_resume s) es \<and>
    (\<forall>ws. events_to ws (pf_sent s') = events_to ws (pf_sent s) @
       (if live w ws \<and> (\<exists>held. (ws, held) \<in> set (tr_topics (pf_registry s)) \<and> gets_batch ms held) then es else [])) \<and>
    pf_relayed s' = pf_relayed s @ concat (map (\<lambda>p. relay_items w (pm_relay (fst p)) (snd p) compress) (zip ms es))"
proof -
  obtain s1 where s1: "stamp_batch w recipients tenant_for ms s = (Inr es, s1)" "pf_seq s1 = pf_seq r'" "pf_stamped s1 = pf_stamped r'"
      "pf_registry s1 = pf_registry s" "pf_resume s1 = pf_resume s" "pf_sent s1 = pf_sent s" "pf_relayed s1 = pf_relayed s"
    using stamp_batch_effect [OF plain es refl refl] by blast
  define s2 where "s2 = (if pw_relay w
      then s1\<lparr>pf_relayed := pf_relayed s1 @ map (\<lambda>p. \<lparr>ri_envelope = snd p, ri_compress = compress\<rparr>) (filter (\<lambda>p. pm_relay (fst p)) (zip ms es))\<rparr>
      else s1)"
  define s3 where "s3 = foldl (\<lambda>s e. capture_for_resume e compress s) s2 es"
  have cap: "pf_registry (foldl (\<lambda>s e. capture_for_resume e compress s) q l) = pf_registry q \<and> pf_seq (foldl (\<lambda>s e. capture_for_resume e compress s) q l) = pf_seq q \<and>
      pf_stamped (foldl (\<lambda>s e. capture_for_resume e compress s) q l) = pf_stamped q \<and> pf_sent (foldl (\<lambda>s e. capture_for_resume e compress s) q l) = pf_sent q \<and>
      pf_relayed (foldl (\<lambda>s e. capture_for_resume e compress s) q l) = pf_relayed q \<and>
      pf_resume (foldl (\<lambda>s e. capture_for_resume e compress s) q l) = foldl (\<lambda>rr e. resume_capture e compress rr) (pf_resume q) l" for q l
    by (induction l arbitrary: q) (simp_all add: resume_captured)
  have rel: "pf_relayed s2 = pf_relayed s @ concat (map (\<lambda>p. relay_items w (pm_relay (fst p)) (snd p) compress) (zip ms es))"
  proof -
    have "map (\<lambda>p. \<lparr>ri_envelope = snd p, ri_compress = compress\<rparr>) (filter (\<lambda>p. pm_relay (fst p)) l) =
        concat (map (\<lambda>p. relay_items w (pm_relay (fst p)) (snd p) compress) l)" if "pw_relay w" for l :: "(publish_message \<times> envelope) list"
      using that by (induction l) (auto simp: relay_items_def)
    moreover have "concat (map (\<lambda>p. relay_items w (pm_relay (fst p)) (snd p) compress) l) = []" if "\<not> pw_relay w" for l :: "(publish_message \<times> envelope) list"
      using that by (induction l) (auto simp: relay_items_def)
    ultimately show ?thesis by (cases "pw_relay w") (simp_all add: s2_def s1)
  qed
  have same: "pf_seq s2 = pf_seq r'" "pf_stamped s2 = pf_stamped r'" "pf_registry s2 = pf_registry s" "pf_resume s2 = pf_resume s" "pf_sent s2 = pf_sent s"
    by (simp_all add: s2_def s1)
  obtain aborts reached where walk: "deliver_walk w (BatchFrame es compress) (pm_topic (hd ms)) (batch_topics ms) (tr_topics (pf_registry s3)) False s3 =
      (reached, s3\<lparr>pf_sent := pf_sent s3 @ map (\<lambda>ws. (ws, BatchFrame es compress))
         (map fst (filter (\<lambda>p. live w (fst p) \<and> gets_batch ms (snd p)) (tr_topics (pf_registry s3)))), pf_aborts := aborts\<rparr>)"
    using deliver_walk_effect [OF ms, of w "BatchFrame es compress" "tr_topics (pf_registry s3)" False s3] by blast
  let ?to = "map fst (filter (\<lambda>p. live w (fst p) \<and> gets_batch ms (snd p)) (tr_topics (pf_registry s)))"
  have "distinct (map fst (tr_topics (pf_registry s)))" using ok by (simp add: registry_ok_def jm_wf_def jm_keys_def)
  then have "distinct ?to" by (rule distinct_map_filter)
  from events_to_walk [OF this, of _ "BatchFrame es compress" "\<lambda>_. True"]
  have to: "events_to ws (map (\<lambda>k. (k, BatchFrame es compress)) ?to) = (if ws \<in> set ?to then es else [])" for ws by simp
  have in_to: "ws \<in> set ?to \<longleftrightarrow> live w ws \<and> (\<exists>held. (ws, held) \<in> set (tr_topics (pf_registry s)) \<and> gets_batch ms held)" for ws
    by (auto simp: image_iff)
  have "batch_fast w compress recipients tenant_for ms s =
      (Inr (), s3\<lparr>pf_sent := pf_sent s3 @ map (\<lambda>ws. (ws, BatchFrame es compress)) (map fst (filter (\<lambda>p. live w (fst p) \<and> gets_batch ms (snd p)) (tr_topics (pf_registry s3)))), pf_aborts := aborts\<rparr>)"
    using plain walk unfolding s3_def s2_def by (auto simp: batch_fast_def s1(1) plain_message_def list_ex_iff Let_def)
  then show ?thesis
    using cap [of s2 es] rel same to in_to by (auto simp: s3_def [symmetric])
qed

text \<open>C8: The shared frame of a batch stands for its events. When the fast path is allowed and every message of
  the batch is plain (an accepted sequence option, data that can be serialized, no \<open>jitterMs\<close>), it and the
  per-event path do the same: every socket is handed the same events in the same order with the same numbers, the
  registries of numbers, the frames captured for resuming connections and those given to the relay are the
  same, and every topic has the one recipient count that the shared decision uses.\<close>

theorem batch_paths_agree:
  assumes "registry_ok (pf_registry s)" and "ms \<noteq> []" and "\<forall>m \<in> set ms. plain_message w m" and "compress \<longrightarrow> pw_compression w"
    and "batch_fast_path_eligible w (pm_topic (hd ms)) (batch_topics ms) (pf_registry s)"
    and "batch_slow w compress ms s = (r1, slow)" and "batch_fast w compress recipients tenant_for ms s = (r2, fast)"
  shows "r1 = Inr () \<and> r2 = Inr () \<and> (\<forall>ws. events_to ws (pf_sent slow) = events_to ws (pf_sent fast)) \<and> pf_seq slow = pf_seq fast \<and>
    pf_stamped slow = pf_stamped fast \<and> pf_resume slow = pf_resume fast \<and> pf_relayed slow = pf_relayed fast \<and>
    (\<forall>m \<in> set ms. num_subscribers (pw_open w) (pm_topic m) (pf_registry s) = num_subscribers (pw_open w) (pm_topic (hd ms)) (pf_registry s))"
proof -
  obtain es r' where es: "stamp_events w ms s = (es, r')" by fastforce
  obtain s1 where s1: "batch_slow w compress ms s = (Inr (), s1)" "pf_seq s1 = pf_seq r'" "pf_stamped s1 = pf_stamped r'"
      "pf_resume s1 = foldl (\<lambda>rr e. resume_capture e compress rr) (pf_resume s) es"
      "\<forall>ws. events_to ws (pf_sent s1) = events_to ws (pf_sent s) @ filter (\<lambda>e. live w ws \<and> ws \<in> set (members_of (en_topic e) (pf_registry s))) es"
      "pf_relayed s1 = pf_relayed s @ concat (map (\<lambda>p. relay_items w (pm_relay (fst p)) (snd p) compress) (zip ms es))"
    using batch_slow_effect [OF assms(3,1,4) es refl refl] by blast
  obtain s2 where s2: "batch_fast w compress recipients tenant_for ms s = (Inr (), s2)" "pf_seq s2 = pf_seq r'" "pf_stamped s2 = pf_stamped r'"
      "pf_resume s2 = foldl (\<lambda>rr e. resume_capture e compress rr) (pf_resume s) es"
      "\<forall>ws. events_to ws (pf_sent s2) = events_to ws (pf_sent s) @
         (if live w ws \<and> (\<exists>held. (ws, held) \<in> set (tr_topics (pf_registry s)) \<and> gets_batch ms held) then es else [])"
      "pf_relayed s2 = pf_relayed s @ concat (map (\<lambda>p. relay_items w (pm_relay (fst p)) (snd p) compress) (zip ms es))"
    using batch_fast_effect [OF assms(3,2,1) es] by blast
  have topics: "map en_topic es = map pm_topic ms" using stamp_events_length [OF assms(3) es] by simp
  have "filter (\<lambda>e. live w ws \<and> ws \<in> set (members_of (en_topic e) (pf_registry s))) es =
      (if live w ws \<and> (\<exists>held. (ws, held) \<in> set (tr_topics (pf_registry s)) \<and> gets_batch ms held) then es else [])" for ws
  proof (cases "live w ws")
    case True
    have "ws \<in> set (members_of (en_topic e) (pf_registry s)) \<longleftrightarrow> (\<exists>held. (ws, held) \<in> set (tr_topics (pf_registry s)) \<and> gets_batch ms held)"
      if "e \<in> set es" for e
    proof -
      have "en_topic e \<in> set (map pm_topic ms)" using that topics [symmetric] by simp
      then obtain m where "m \<in> set ms" "en_topic e = pm_topic m" by auto
      then show ?thesis using eligible_members [OF assms(1,5,2), of ws m] True by (simp add: live_def)
    qed
    then show ?thesis using True by (auto intro: filter_True filter_False)
  qed simp
  moreover have "num_subscribers (pw_open w) (pm_topic m) (pf_registry s) = num_subscribers (pw_open w) (pm_topic (hd ms)) (pf_registry s)" if "m \<in> set ms" for m
  proof -
    have "{ws. pw_open w ws \<and> (ws, pm_topic m) \<in> holding (pf_registry s)} = {ws. pw_open w ws \<and> (ws, pm_topic (hd ms)) \<in> holding (pf_registry s)}"
      using eligible_members [OF assms(1,5,2)] that assms(2) holding_member [OF assms(1)] by (metis (no_types, lifting) hd_in_set)
    then show ?thesis using members_card [OF assms(1)] by simp
  qed
  ultimately show ?thesis using s1 s2 assms(6,7) by simp
qed

text \<open>C40: The two paths differ when the data of an entry cannot be serialized: the shared-frame path refuses the
  whole batch before it stamps anything, while the per-event path has by then stamped and delivered every
  entry before it. So a batch is a prefix of itself to the subscribers, although its later entry is refused.\<close>

theorem batch_slow_delivers_prefix:
  assumes "registry_ok (pf_registry s)" and "compress \<longrightarrow> pw_compression w" and "\<forall>m \<in> set before. plain_message w m"
    and "check_seq w (pm_seq m) (pm_relay m) = Inr ()" and "pm_body m = None"
    and "batch_slow w compress (before @ m # after) s = (r1, s1)" and "batch_fast w compress recipients tenant_for (before @ m # after) s = (r2, s2)"
  shows "r1 = Inl NotSerializable \<and> r2 = Inl NotSerializable \<and> s2 = s \<and>
    (\<exists>es s'. batch_slow w compress before s = (Inr (), s') \<and> untouched s' s1 \<and> map en_topic es = map pm_topic before \<and>
       (\<forall>ws. events_to ws (pf_sent s1) = events_to ws (pf_sent s) @ filter (\<lambda>e. live w ws \<and> ws \<in> set (members_of (en_topic e) (pf_registry s))) es))"
proof -
  obtain es r' where es: "stamp_events w before s = (es, r')" by fastforce
  obtain s' where s': "batch_slow w compress before s = (Inr (), s')"
      "\<forall>ws. events_to ws (pf_sent s') = events_to ws (pf_sent s) @ filter (\<lambda>e. live w ws \<and> ws \<in> set (members_of (en_topic e) (pf_registry s))) es"
    using batch_slow_effect [OF assms(3,1,2) es refl refl] by blast
  have split: "batch_slow w compress (before @ rest) q = (case batch_slow w compress before q of (Inl e, q) \<Rightarrow> (Inl e, q) | (Inr _, q) \<Rightarrow> batch_slow w compress rest q)" for rest q
    by (induction before arbitrary: q) (auto split: prod.split sum.split)
  obtain r3 s3 where p: "publish_one w (pm_topic m) (pm_body m) (slow_options compress m) s' = (r3, s3)" by fastforce
  then have "r3 = Inl NotSerializable \<and> untouched s' s3"
    using assms(4,5) by (auto simp: publish_one_def slow_options_def Let_def)
  then have "r1 = Inl NotSerializable" and "s1 = s3" and "untouched s' s1" using assms(6) p s'(1) by (auto simp: split)
  moreover have "r2 = Inl NotSerializable \<and> s2 = s" using assms(5,7) by (simp add: batch_fast_def)
  moreover have "pf_sent s1 = pf_sent s'" using \<open>untouched s' s1\<close> by (simp add: untouched_def)
  ultimately show ?thesis using s' stamp_events_length [OF assms(3) es] by auto
qed

section \<open>What a subscriber sees over time\<close>

datatype platform_event =
    PfRegistry registry_event
  | PfPublish publish_world js_string "js_string option" publish_options
  | PfBatch publish_world bool "publish_message list"

fun platform_step :: "publish_state \<Rightarrow> platform_event \<Rightarrow> publish_state" where
  "platform_step s (PfRegistry e) = s\<lparr>pf_registry := registry_step (pf_registry s) e\<rparr>"
| "platform_step s (PfPublish w topic body opts) = snd (publish_one w topic body opts s)"
| "platform_step s (PfBatch w compress ms) = snd (publish_batched w compress ms s)"

definition new_platform :: "seq_bound \<Rightarrow> egress_account \<Rightarrow> resume_registry \<Rightarrow> publish_state" where
  "new_platform sb A rr = \<lparr>pf_registry = new_registry, pf_seq = sb, pf_egress = A, pf_resume = rr, pf_published = 0, pf_aborts = 0,
     pf_sent = [], pf_relayed = [], pf_stamped = []\<rparr>"

text \<open>A topic whose publishes all draw the counter.\<close>

fun draws_counter :: "js_string \<Rightarrow> platform_event \<Rightarrow> bool" where
  "draws_counter t (PfRegistry e) = True"
| "draws_counter t (PfPublish w topic body opts) = (topic = t \<longrightarrow> po_seq opts = SeqAbsent \<or> po_seq opts = SeqBool True)"
| "draws_counter t (PfBatch w compress ms) = (\<forall>m \<in> set ms. pm_topic m = t \<longrightarrow> pm_seq m = SeqAbsent \<or> pm_seq m = SeqBool True)"

definition numbers :: "js_string \<Rightarrow> envelope list \<Rightarrow> nat option list" where
  "numbers t es = map en_seq (filter (\<lambda>e. en_topic e = t) es)"

definition drawn :: "js_string \<Rightarrow> (js_string \<times> nat) list \<Rightarrow> nat option list" where
  "drawn t l = map (\<lambda>p. Some (snd p)) (filter (\<lambda>p. fst p = t) l)"

lemma numbers_simps [simp]:
  "numbers t [] = []" "numbers t (e # es) = (if en_topic e = t then [en_seq e] else []) @ numbers t es" "numbers t (a @ b) = numbers t a @ numbers t b"
  "drawn t [] = []" "drawn t (p # l) = (if fst p = t then [Some (snd p)] else []) @ drawn t l" "drawn t (x @ y) = drawn t x @ drawn t y"
  by (simp_all add: numbers_def drawn_def)

definition seen_ok :: "js_string \<Rightarrow> publish_state \<Rightarrow> bool" where
  "seen_ok t s \<longleftrightarrow> registry.covered (pf_seq s, pf_stamped s) \<and> (\<forall>ws. distinct (members_of ws (pf_registry s))) \<and>
     jm_wf (tr_topics (pf_registry s)) \<and> (\<forall>ws. subseq (numbers t (events_to ws (pf_sent s))) (drawn t (pf_stamped s)))"

lemma stamp_covered:
  assumes c: "registry.covered (pf_seq s, pf_stamped s)" and st: "stamp_and_record w seq topic s = Inr (n, s')"
    and draw: "topic = t \<longrightarrow> seq = SeqAbsent \<or> seq = SeqBool True"
  shows "registry.covered (pf_seq s', pf_stamped s')"
    and "drawn t (pf_stamped s') = drawn t (pf_stamped s) @ (if topic = t then [n] else [])"
proof -
  consider (counter) "seq = SeqAbsent \<or> seq = SeqBool True" | (none) "n = None" "s' = s"
    | (explicit) k where "explicit_seq seq" "n = Some k" "s' = s\<lparr>pf_seq := record_seen (pw_probes w) topic k (pf_seq s)\<rparr>"
    using st
    by (cases seq; cases "explicit_seq_value seq")
      (auto simp: stamp_and_record_def stamp_seq_value_def f64_ge_one_def split: if_splits option.splits prod.splits)
  then have "registry.covered (pf_seq s', pf_stamped s') \<and> drawn t (pf_stamped s') = drawn t (pf_stamped s) @ (if topic = t then [n] else [])"
  proof cases
    case counter
    obtain k sb where k: "stamp_counter (pw_probes w) topic (pf_seq s) = (k, sb)" by fastforce
    have "n = Some k" "s' = s\<lparr>pf_seq := record_stamped_seen (pw_probes w) topic k sb, pf_stamped := pf_stamped s @ [(topic, k)]\<rparr>"
      using st counter k by (auto simp: stamp_and_record_def stamp_seq_value_def)
    then show ?thesis using covered_step [OF c, of "PublishCounter (pw_probes w) topic"] k by auto
  next
    case none
    then show ?thesis using c draw st by (auto simp: stamp_and_record_def stamp_seq_value_def split: prod.splits)
  next
    case explicit
    then show ?thesis using covered_step [OF c, of "PublishExplicit (pw_probes w) topic k"] draw by auto
  qed
  then show "registry.covered (pf_seq s', pf_stamped s')"
    "drawn t (pf_stamped s') = drawn t (pf_stamped s) @ (if topic = t then [n] else [])" by simp_all
qed

lemma seen_ok_untouched: "seen_ok t s \<Longrightarrow> untouched s s' \<Longrightarrow> seen_ok t s'"
  by (simp add: seen_ok_def untouched_def)

lemma seen_ok_registry:
  assumes "seen_ok t s"
  shows "seen_ok t (s\<lparr>pf_registry := registry_step (pf_registry s) e\<rparr>)"
proof -
  have d: "distinct (members_of k (pf_registry s))" and wf: "jm_wf (tr_topics (pf_registry s))" for k
    using assms by (simp_all add: seen_ok_def)
  have dl: "distinct (members_of k (leave_topic ws j r))" if "\<And>k. distinct (members_of k r)" for k ws j r
    using that by (auto simp: leave_topic_simps(3))
  have "distinct (members_of k (registry_step (pf_registry s) e)) \<and> jm_wf (tr_topics (registry_step (pf_registry s) e))" for k
  proof (cases e)
    case (RegOpen ws)
    then show ?thesis using d wf by (simp add: register_socket_def members_of_def subscribers_of_def)
  next
    case (RegClose ws)
    have "distinct (members_of k (foldl (\<lambda>r t. leave_topic ws t r) (pf_registry s) ts))" for ts using leave_all_simps(4) d by blast
    then show ?thesis using RegClose wf by (simp add: unregister_socket_def Let_def leave_all_simps(1) members_of_def subscribers_of_def)
  next
    case (RegSubscribe ws j)
    have "distinct (set_add ws (members_of j (pf_registry s)))" using d by simp
    then show ?thesis using RegSubscribe d wf
      by (cases "jm_get (tr_topics (pf_registry s)) ws") (auto simp: subscribe_socket_def members_of_def subscribers_of_def Let_def)
  next
    case (RegUnsubscribe ws j)
    have "distinct (members_of k ((pf_registry s)\<lparr>tr_topics := x\<rparr>))" for k x using d by (simp add: members_of_def subscribers_of_def)
    from dl [OF this] show ?thesis using RegUnsubscribe d wf
      by (auto simp: unsubscribe_socket_def leave_topic_simps(1) Let_def split: option.split)
  qed
  then show ?thesis using assms by (simp add: seen_ok_def)
qed

lemma seen_ok_sent:
  assumes ok: "seen_ok t s" and cov: "registry.covered (pf_seq s', pf_stamped s')" and more: "drawn t (pf_stamped s') = drawn t (pf_stamped s) @ ns"
    and reg: "pf_registry s' = pf_registry s"
    and to: "\<And>ws. numbers t (events_to ws (pf_sent s')) = numbers t (events_to ws (pf_sent s)) \<or> numbers t (events_to ws (pf_sent s')) = numbers t (events_to ws (pf_sent s)) @ ns"
  shows "seen_ok t s'"
proof -
  have "subseq (numbers t (events_to ws (pf_sent s'))) (drawn t (pf_stamped s) @ ns)" for ws
  proof -
    have "subseq (numbers t (events_to ws (pf_sent s))) (drawn t (pf_stamped s))" using ok by (simp add: seen_ok_def)
    then show ?thesis using to [of ws] by (auto intro: list_emb_append_mono list_emb_prefix)
  qed
  then show ?thesis using ok cov more reg by (simp add: seen_ok_def)
qed

lemma seen_ok_publish:
  assumes ok: "seen_ok t s" and draw: "topic = t \<longrightarrow> po_seq opts = SeqAbsent \<or> po_seq opts = SeqBool True"
  shows "seen_ok t (snd (publish_one w topic body opts s))"
proof -
  obtain r s' where p: "publish_one w topic body opts s = (r, s')" by fastforce
  then show ?thesis
  proof (cases rule: publish_one_cases)
    case nothing
    then show ?thesis using p seen_ok_untouched [OF ok] by simp
  next
    case (gone b seq st A tenant recipients e compress)
    have "registry.covered (pf_seq (s\<lparr>pf_egress := A\<rparr>), pf_stamped (s\<lparr>pf_egress := A\<rparr>))" using ok by (simp add: seen_ok_def)
    note st = stamp_covered [OF this gone(4) draw] stamp_simps [OF gone(4)]
    have "distinct (members_of topic (pf_registry s))" using ok by (simp add: seen_ok_def)
    then have "events_to ws (pf_sent s') = events_to ws (pf_sent s) @ (if ws \<in> set (members_of topic (pf_registry s)) \<and> live w ws then [e] else [])" for ws
      using gone(5,7) st by (simp add: sent_event_simps events_to_walk)
    then have "seen_ok t s'"
      using gone(5,7) st by (intro seen_ok_sent [OF ok, of _ "if topic = t then [seq] else []"]) (auto simp: sent_event_simps)
    then show ?thesis using p by simp
  qed
qed

lemma seen_ok_slow:
  assumes "seen_ok t s" and "\<forall>m \<in> set ms. pm_topic m = t \<longrightarrow> pm_seq m = SeqAbsent \<or> pm_seq m = SeqBool True"
  shows "seen_ok t (snd (batch_slow w compress ms s))"
  using assms
proof (induction ms arbitrary: s)
  case (Cons m ms)
  obtain r s1 where p: "publish_one w (pm_topic m) (pm_body m) (slow_options compress m) s = (r, s1)" by fastforce
  have "seen_ok t s1" using seen_ok_publish [OF Cons.prems(1), of "pm_topic m" "slow_options compress m" w "pm_body m"] Cons.prems(2) p
    by (simp add: slow_options_def)
  then show ?case using Cons.IH [of s1] Cons.prems(2) p by (cases r) simp_all
qed simp

lemma stamp_batch_covered:
  assumes "registry.covered (pf_seq s, pf_stamped s)" and "\<forall>m \<in> set ms. pm_topic m = t \<longrightarrow> pm_seq m = SeqAbsent \<or> pm_seq m = SeqBool True"
    and "stamp_batch w recipients tenant_for ms s = (r, s')"
  shows "registry.covered (pf_seq s', pf_stamped s') \<and> pf_registry s' = pf_registry s \<and> pf_sent s' = pf_sent s \<and>
    (\<exists>ns. drawn t (pf_stamped s') = drawn t (pf_stamped s) @ ns \<and> (\<forall>es. r = Inr es \<longrightarrow> numbers t es = ns))"
  using assms
proof (induction ms arbitrary: s r s')
  case (Cons m ms)
  show ?case
  proof (cases "stamp_and_record w (pm_seq m) (pm_topic m) s")
    case (Inl e)
    then show ?thesis using Cons.prems by auto
  next
    case (Inr p)
    obtain seq s1 where p: "p = (seq, s1)" by fastforce
    have draw: "pm_topic m = t \<longrightarrow> pm_seq m = SeqAbsent \<or> pm_seq m = SeqBool True" using Cons.prems(2) by simp
    note st = stamp_covered [OF Cons.prems(1) Inr [unfolded p] draw] stamp_simps [OF Inr [unfolded p]]
    define e where "e = \<lparr>en_topic = pm_topic m, en_body = the (pm_body m), en_seq = seq, en_jitter = None\<rparr>"
    let ?found = "tenant_for (pm_topic m) (pf_egress s1)"
    let ?s1 = "charge_publish w (pm_topic m) (fst ?found) recipients (envelope_text e) (s1\<lparr>pf_egress := snd ?found\<rparr>)"
    obtain r2 s2 where rest: "stamp_batch w recipients tenant_for ms ?s1 = (r2, s2)" by fastforce
    have r: "r = (case r2 of Inl x \<Rightarrow> Inl x | Inr es \<Rightarrow> Inr (e # es)) \<and> s' = s2"
      using Cons.prems(3) Inr p rest by (cases r2) (auto simp: e_def Let_def)
    have "registry.covered (pf_seq ?s1, pf_stamped ?s1)" using st by simp
    from Cons.IH [OF this _ rest] Cons.prems(2) obtain ns where
      ns: "registry.covered (pf_seq s2, pf_stamped s2)" "pf_registry s2 = pf_registry ?s1" "pf_sent s2 = pf_sent ?s1"
        "drawn t (pf_stamped s2) = drawn t (pf_stamped ?s1) @ ns" "\<forall>es. r2 = Inr es \<longrightarrow> numbers t es = ns" by auto
    show ?thesis
      using ns st r by (cases r2) (auto simp: e_def intro!: exI [of _ "(if pm_topic m = t then [seq] else []) @ ns"])
  qed
qed auto

lemma seen_ok_fast:
  assumes ok: "seen_ok t s" and draw: "\<forall>m \<in> set ms. pm_topic m = t \<longrightarrow> pm_seq m = SeqAbsent \<or> pm_seq m = SeqBool True" and ms: "ms \<noteq> []"
  shows "seen_ok t (snd (batch_fast w compress recipients tenant_for ms s))"
proof (cases "list_ex (\<lambda>m. pm_body m = None) ms")
  case True
  then show ?thesis using ok by (simp add: batch_fast_def)
next
  case bodies: False
  obtain r s1 where sb: "stamp_batch w recipients tenant_for ms s = (r, s1)" by fastforce
  have "registry.covered (pf_seq s, pf_stamped s)" using ok by (simp add: seen_ok_def)
  from stamp_batch_covered [OF this draw sb] obtain ns where
    s1: "registry.covered (pf_seq s1, pf_stamped s1)" "pf_registry s1 = pf_registry s" "pf_sent s1 = pf_sent s"
      "drawn t (pf_stamped s1) = drawn t (pf_stamped s) @ ns" "\<forall>es. r = Inr es \<longrightarrow> numbers t es = ns" by blast
  show ?thesis
  proof (cases r)
    case (Inl e)
    then show ?thesis using sb bodies s1 by (intro seen_ok_sent [OF ok]) (auto simp: batch_fast_def)
  next
    case (Inr es)
    define s2 where "s2 = (if pw_relay w
        then s1\<lparr>pf_relayed := pf_relayed s1 @ map (\<lambda>p. \<lparr>ri_envelope = snd p, ri_compress = compress\<rparr>) (filter (\<lambda>p. pm_relay (fst p)) (zip ms es))\<rparr>
        else s1)"
    define s3 where "s3 = foldl (\<lambda>s e. capture_for_resume e compress s) s2 es"
    have cap: "pf_registry (foldl (\<lambda>s e. capture_for_resume e compress s) q l) = pf_registry q \<and> pf_seq (foldl (\<lambda>s e. capture_for_resume e compress s) q l) = pf_seq q \<and>
        pf_stamped (foldl (\<lambda>s e. capture_for_resume e compress s) q l) = pf_stamped q \<and> pf_sent (foldl (\<lambda>s e. capture_for_resume e compress s) q l) = pf_sent q" for q l
      by (induction l arbitrary: q) simp_all
    have s3: "pf_registry s3 = pf_registry s" "pf_seq s3 = pf_seq s1" "pf_stamped s3 = pf_stamped s1" "pf_sent s3 = pf_sent s"
      using cap [of s2 es] s1 by (simp_all add: s3_def s2_def)
    let ?to = "map fst (filter (\<lambda>p. live w (fst p) \<and> gets_batch ms (snd p)) (tr_topics (pf_registry s3)))"
    obtain aborts reached where walk: "deliver_walk w (BatchFrame es compress) (pm_topic (hd ms)) (batch_topics ms) (tr_topics (pf_registry s3)) False s3 =
        (reached, s3\<lparr>pf_sent := pf_sent s3 @ map (\<lambda>ws. (ws, BatchFrame es compress)) ?to, pf_aborts := aborts\<rparr>)"
      using deliver_walk_effect [OF ms, of w "BatchFrame es compress" "tr_topics (pf_registry s3)" False s3] by blast
    have "distinct (map fst (tr_topics (pf_registry s3)))" using ok by (simp add: seen_ok_def jm_wf_def jm_keys_def s3)
    then have "distinct ?to" by (rule distinct_map_filter)
    from events_to_walk [OF this, of _ "BatchFrame es compress" "\<lambda>_. True"]
    have to: "events_to ws (map (\<lambda>k. (k, BatchFrame es compress)) ?to) = (if ws \<in> set ?to then es else [])" for ws by simp
    have "batch_fast w compress recipients tenant_for ms s =
        (Inr (), s3\<lparr>pf_sent := pf_sent s3 @ map (\<lambda>ws. (ws, BatchFrame es compress)) ?to, pf_aborts := aborts\<rparr>)"
      using bodies walk sb Inr unfolding s3_def s2_def by (simp add: batch_fast_def Let_def)
    then show ?thesis
      using s1 s3 Inr to by (intro seen_ok_sent [OF ok, of _ ns]) auto
  qed
qed

lemma collapse_subset: "set (collapse_by_coalesce_key ms) \<subseteq> set ms"
  by (auto simp: collapse_by_coalesce_key_def dest: in_set_enumerate_eq [THEN iffD1]) (auto simp: in_set_enumerate_eq)

lemma seen_ok_batched:
  assumes ok: "seen_ok t s" and draw: "\<forall>m \<in> set messages. pm_topic m = t \<longrightarrow> pm_seq m = SeqAbsent \<or> pm_seq m = SeqBool True"
  shows "seen_ok t (snd (publish_batched w compress messages s))"
proof -
  have draw': "\<forall>m \<in> set (collapse_by_coalesce_key messages). pm_topic m = t \<longrightarrow> pm_seq m = SeqAbsent \<or> pm_seq m = SeqBool True"
    using draw collapse_subset [of messages] by blast
  have e: "seen_ok t (s\<lparr>pf_egress := A\<rparr>)" for A using seen_ok_untouched [OF ok] by simp
  show ?thesis
    using ok e seen_ok_slow [OF e draw'] seen_ok_fast [OF e draw'] seen_ok_slow [OF ok draw'] seen_ok_fast [OF ok draw'] by (auto simp: publish_batched_def Let_def split: sum.split)
qed

lemma sorted_subseq: "subseq xs ys \<Longrightarrow> sorted_wrt R ys \<Longrightarrow> sorted_wrt R xs"
proof (induction rule: list_emb.induct)
  case (list_emb_Cons2 x y xs ys)
  then show ?case using list_emb_set [of "(=)" xs ys] by auto
qed auto

text \<open>C1: A subscriber sees the numbers of a topic strictly increase. Over any run of publishes and batches, on
  either path, of opens, closes, subscribes and unsubscribes, with any sockets refusing or closing, any
  ceilings and any eviction from the registry of numbers: when the publishes of a topic draw the counter,
  every event a socket was handed on it has a number, and a greater one than the event before.\<close>

theorem subscriber_numbers_increase:
  assumes "\<forall>e \<in> set es. draws_counter t e"
    and "s = foldl platform_step (new_platform (create_seq_bound capacity floor_cap scan_limit) A rr) es"
  shows "\<exists>ns. map en_seq (filter (\<lambda>e. en_topic e = t) (events_to ws (pf_sent s))) = map Some ns \<and> sorted_wrt (<) ns"
proof -
  let ?s0 = "new_platform (create_seq_bound capacity floor_cap scan_limit) A rr"
  have start: "seen_ok t ?s0"
    using covered_create [of capacity floor_cap scan_limit]
    by (simp add: seen_ok_def new_platform_def new_registry_def members_of_def subscribers_of_def events_to_def)
  have step: "seen_ok t (platform_step q e)" if "seen_ok t q" "draws_counter t e" for q e
    using that seen_ok_registry seen_ok_publish seen_ok_batched by (cases e) auto
  have "seen_ok t (foldl platform_step q es)" if "seen_ok t q" "\<forall>e \<in> set es. draws_counter t e" for q es
    using that by (induction es arbitrary: q) (auto intro: step)
  then have ok: "seen_ok t s" using start assms by blast
  then have cov: "registry.covered (pf_seq s, pf_stamped s)" and sub: "subseq (numbers t (events_to ws (pf_sent s))) (drawn t (pf_stamped s))"
    by (simp_all add: seen_ok_def)
  have "sorted_wrt (<) (map snd (filter (\<lambda>p. fst p = t) (pf_stamped s)))" using cov by (simp add: registry.covered_def)
  then have "sorted_wrt (\<lambda>x y. the x < the y) (drawn t (pf_stamped s))" by (simp add: drawn_def sorted_wrt_map)
  from sorted_subseq [OF sub this] have sorted: "sorted_wrt (\<lambda>x y. the x < the y) (numbers t (events_to ws (pf_sent s)))" .
  have some: "x \<noteq> None" if "x \<in> set (numbers t (events_to ws (pf_sent s)))" for x
    using list_emb_set [OF sub that] by (auto simp: drawn_def)
  have "numbers t (events_to ws (pf_sent s)) = map Some (map the (numbers t (events_to ws (pf_sent s))))"
    using some by (simp add: map_idI)
  moreover have "sorted_wrt (<) (map the (numbers t (events_to ws (pf_sent s))))" using sorted by (simp add: sorted_wrt_map)
  ultimately show ?thesis unfolding numbers_def by blast
qed

section \<open>Examples\<close>

text \<open>One worker without ceilings whose sockets all take what they are handed.\<close>

definition calm_world :: publish_world where
  "calm_world = \<lparr>pw_open = (\<lambda>_. True), pw_facade = (\<lambda>_. True), pw_batch_cap = (\<lambda>_. True), pw_answer = (\<lambda>_ _. Taken),
     pw_probes = \<lparr>pr_quiet = (\<lambda>_. False), pr_protected = (\<lambda>_. False)\<rparr>, pw_egress = normalize_egress None, pw_tenant_of = None,
     pw_clock = (\<lambda>_. 0), pw_workers = 1, pw_relay = True, pw_compression = False\<rparr>"

definition one_subscriber :: publish_state where
  "one_subscriber = foldl platform_step (new_platform (create_seq_bound 8 8 8) (create_egress_account False) \<lparr>rr_sets = [], rr_bufs = [], rr_seen = []\<rparr>)
     [PfRegistry (RegOpen 1), PfRegistry (RegSubscribe 1 [97])]"

definition plain_text :: "js_string option \<Rightarrow> publish_message" where
  "plain_text body = \<lparr>pm_topic = [97], pm_body = body, pm_seq = SeqBool False, pm_relay = True, pm_jitter = None, pm_coalesce = None\<rparr>"

lemma one_subscriber_registry: "pf_registry one_subscriber = \<lparr>tr_topics = [(1, [[97]])], tr_sockets = [([97], [1])]\<rparr>" "pf_sent one_subscriber = []"
  by (simp_all add: one_subscriber_def new_platform_def new_registry_def register_socket_def subscribe_socket_def jm_get_def set_add_def)

lemma one_subscriber_ok: "registry_ok (pf_registry one_subscriber)"
  by (auto simp: one_subscriber_registry registry_ok_def socket_topic_list_def members_of_def subscribers_of_def jm_get_def jm_wf_def split: if_splits option.splits)

lemma calm_checks: "check_seq calm_world (SeqBool False) relay = Inr ()"
  by (simp add: check_seq_def cluster_sequence_accepted_def calm_world_def assert_stampable_seq_def stamp_seq_value_def)

lemma plain_plain: "plain_message calm_world (plain_text (Some b))"
  by (simp add: plain_message_def plain_text_def calm_checks)


theorem batch_paths_agree_witness:
  "events_to 1 (pf_sent (snd (batch_slow calm_world False [plain_text (Some [49]), plain_text (Some [50])] one_subscriber))) =
   events_to 1 (pf_sent (snd (batch_fast calm_world False 1 (\<lambda>t A. (None, A)) [plain_text (Some [49]), plain_text (Some [50])] one_subscriber)))"
proof -
  let ?ms = "[plain_text (Some [49]), plain_text (Some [50])]"
  have "batch_fast_path_eligible calm_world (pm_topic (hd ?ms)) (batch_topics ?ms) (pf_registry one_subscriber)"
    by (simp add: batch_fast_path_eligible_def fast_socket_def one_subscriber_registry batch_topics_def plain_text_def calm_world_def)
  from batch_paths_agree [OF one_subscriber_ok _ _ _ this prod.collapse [symmetric] prod.collapse [symmetric],
      where compress = False and recipients = 1 and tenant_for = "\<lambda>t A. (None, A)"] plain_plain
  show ?thesis by simp
qed

theorem batch_slow_delivers_prefix_witness:
  "fst (batch_slow calm_world False ([plain_text (Some [49])] @ plain_text None # []) one_subscriber) = Inl NotSerializable \<and>
   length (events_to 1 (pf_sent (snd (batch_slow calm_world False ([plain_text (Some [49])] @ plain_text None # []) one_subscriber)))) = 1"
proof -
  let ?ms = "[plain_text (Some [49])] @ plain_text None # []"
  have c: "check_seq calm_world (pm_seq (plain_text None)) (pm_relay (plain_text None)) = Inr ()" "pm_body (plain_text None) = None"
    by (simp_all add: plain_text_def calm_checks)
  have p: "\<forall>m \<in> set [plain_text (Some [49])]. plain_message calm_world m" using plain_plain by simp
  from batch_slow_delivers_prefix [OF one_subscriber_ok _ p c prod.collapse [symmetric] prod.collapse [symmetric],
      where compress = False and after = "[]" and recipients = 1 and tenant_for = "\<lambda>t A. (None, A)"]
  obtain es where "map en_topic es = map pm_topic [plain_text (Some [49])]" "fst (batch_slow calm_world False ?ms one_subscriber) = Inl NotSerializable"
      "events_to 1 (pf_sent (snd (batch_slow calm_world False ?ms one_subscriber))) = events_to 1 (pf_sent one_subscriber) @
         filter (\<lambda>e. live calm_world 1 \<and> 1 \<in> set (members_of (en_topic e) (pf_registry one_subscriber))) es"
    by blast
  then show ?thesis
    by (cases es) (auto simp: one_subscriber_registry plain_text_def live_def calm_world_def members_of_def subscribers_of_def jm_get_def events_to_def
        simp del: batch_slow.simps)
qed

theorem subscriber_numbers_increase_witness:
  "\<exists>ns. map en_seq (filter (\<lambda>e. en_topic e = [97]) (events_to 1 (pf_sent (foldl platform_step
      (new_platform (create_seq_bound 8 8 8) (create_egress_account False) \<lparr>rr_sets = [], rr_bufs = [], rr_seen = []\<rparr>)
      [PfRegistry (RegOpen 1), PfRegistry (RegSubscribe 1 [97]),
       PfPublish calm_world [97] (Some [49]) \<lparr>po_seq = SeqAbsent, po_relay = True, po_compress = True, po_jitter = None, po_admitted = False\<rparr>,
       PfPublish calm_world [97] (Some [50]) \<lparr>po_seq = SeqAbsent, po_relay = True, po_compress = True, po_jitter = None, po_admitted = False\<rparr>])))) = map Some ns \<and>
    sorted_wrt (<) ns"
  by (rule subscriber_numbers_increase [OF _ refl]) simp

end
