(* ===== verification/Subscribe_Policy.thy ===== *)
theory Subscribe_Policy
  imports Utf8
begin

text \<open>
  The decisions about subscribes, as the pure functions of \<open>utils/subscribe-policy.js\<close>, the names a
  client may subscribe to (\<open>utils/topic.js\<close>) and the prefixes a plugin may own (\<open>utils/ws-symbols.js\<close>).

  The registries of prefixes are arguments. A \<open>recover\<close> member is \<open>None\<close> when it is absent or not an
  object; its fields are \<open>None\<close> when they are not integers.
\<close>

section \<open>Names on the wire\<close>

abbreviation code :: "js_string \<Rightarrow> nat \<Rightarrow> nat" where
  "code s i \<equiv> unat (s ! i)"

definition always_illegal :: "nat \<Rightarrow> bool" where
  "always_illegal c \<longleftrightarrow> c < 32 \<or> c = 34 \<or> c = 92"

definition esc :: "js_string \<Rightarrow> js_string option" where
  "esc s = (if \<exists>c\<in>set s. always_illegal (unat c) then None else Some ([34] @ s @ [34]))"

definition max_topic_units :: nat where "max_topic_units = 256"

fun well_paired_name :: "js_string \<Rightarrow> bool" where
  "well_paired_name [] = True"
| "well_paired_name (w # s) =
    (let c = unat w in
     if always_illegal c then False
     else if c \<le> 126 then well_paired_name s
     else if and w 0xf800 \<noteq> 0xd800 then well_paired_name s
     else if c > 0xdbff then False
     else (case s of [] \<Rightarrow> False
           | low # s' \<Rightarrow> if unat low < 0xdc00 \<or> unat low > 0xdfff then False else well_paired_name s'))"

definition is_valid_wire_topic :: "js_string \<Rightarrow> bool \<Rightarrow> bool" where
  "is_valid_wire_topic topic allow_non_ascii =
    (if length topic = 0 \<or> max_topic_units < length topic then False
     else if allow_non_ascii then well_paired_name topic
     else \<forall>w\<in>set topic. \<not> always_illegal (unat w) \<and> unat w \<le> 126)"

section \<open>Prefixes a plugin owns\<close>

definition prefix_of :: "js_string \<Rightarrow> js_string \<Rightarrow> bool" where
  "prefix_of s p \<longleftrightarrow> take (length p) s = p"

datatype prefix_error = Bad_Length | Bad_Ends | Bad_Namespace

definition ascii_letter :: "nat \<Rightarrow> bool" where
  "ascii_letter c \<longleftrightarrow> (65 \<le> c \<and> c \<le> 90) \<or> (97 \<le> c \<and> c \<le> 122)"

definition namespace_tail :: "nat \<Rightarrow> bool" where
  "namespace_tail c \<longleftrightarrow> ascii_letter c \<or> (48 \<le> c \<and> c \<le> 57) \<or> c = 95 \<or> c = 45"

fun plugin_namespace :: "js_string \<Rightarrow> bool" where
  "plugin_namespace [] = False"
| "plugin_namespace (w # s) = (ascii_letter (unat w) \<and> (\<forall>x\<in>set s. namespace_tail (unat x)))"

definition register_plugin_owned_prefix :: "js_string \<Rightarrow> js_string list \<Rightarrow> prefix_error + js_string list" where
  "register_plugin_owned_prefix prefix owned =
    (if length prefix < 4 \<or> 64 < length prefix then Inl Bad_Length
     else if \<not> prefix_of prefix (js_of ''__'') \<or> List.last prefix \<noteq> 58 then Inl Bad_Ends
     else if \<not> plugin_namespace (butlast (drop 2 prefix)) then Inl Bad_Namespace
     else Inr (if prefix \<in> set owned then owned else owned @ [prefix]))"

definition is_plugin_owned_topic :: "js_string list \<Rightarrow> js_string \<Rightarrow> bool" where
  "is_plugin_owned_topic owned topic = list_ex (prefix_of topic) owned"

section \<open>The decisions\<close>

record recover =
  offset :: "int option"
  rec_epoch :: "int option"

definition denies_wire_system_topic_subscribe :: "bool \<Rightarrow> js_string list \<Rightarrow> js_string \<Rightarrow> bool" where
  "denies_wire_system_topic_subscribe allow_system owned topic =
    (if allow_system then False
     else if \<not> prefix_of topic (js_of ''__'') then False
     else \<not> is_plugin_owned_topic owned topic)"

definition denies_wire_subscribe_pre_hook :: "js_string list \<Rightarrow> bool \<Rightarrow> bool \<Rightarrow> bool \<Rightarrow> js_string \<Rightarrow> bool" where
  "denies_wire_subscribe_pre_hook owned armed has_user_hook held topic =
    (if \<not> armed \<or> has_user_hook then False
     else if held then False
     else if is_plugin_owned_topic owned topic then False
     else True)"

definition denies_wire_subscribe_landing :: "js_string list \<Rightarrow> bool \<Rightarrow> bool \<Rightarrow> bool \<Rightarrow> js_string \<Rightarrow> bool" where
  "denies_wire_subscribe_landing owned armed has_user_hook held topic =
    (if is_plugin_owned_topic owned topic then \<not> held
     else if \<not> armed \<or> has_user_hook then False
     else \<not> held)"

definition wants_recover :: "bool \<Rightarrow> recover option \<Rightarrow> bool" where
  "wants_recover has_resume_hook rec =
    (has_resume_hook \<and> (case rec of None \<Rightarrow> False
      | Some r \<Rightarrow> (case offset r of None \<Rightarrow> False | Some n \<Rightarrow> 0 \<le> n)))"

definition denies_ref_less_recover :: "bool \<Rightarrow> recover option \<Rightarrow> 'r option \<Rightarrow> bool" where
  "denies_ref_less_recover has_resume_hook rec ref = (ref = None \<and> wants_recover has_resume_hook rec)"

definition denies_ref_less_recover_batch ::
  "bool \<Rightarrow> (js_string, recover) jsmap \<Rightarrow> 'r option \<Rightarrow> bool" where
  "denies_ref_less_recover_batch has_resume_hook recs ref =
    (if ref \<noteq> None \<or> \<not> has_resume_hook then False
     else list_ex (\<lambda>(t, r). wants_recover has_resume_hook (Some r)) recs)"

definition recover_is_revoked :: "js_string list \<Rightarrow> bool \<Rightarrow> bool \<Rightarrow> bool \<Rightarrow> js_string \<Rightarrow> bool" where
  "recover_is_revoked owned held wire_authz cancelled topic =
    (\<not> held \<and> (is_plugin_owned_topic owned topic \<or> wire_authz \<or> cancelled))"

definition exceeds_subscription_cap :: "bool \<Rightarrow> nat \<Rightarrow> nat option \<Rightarrow> bool" where
  "exceeds_subscription_cap held n cap =
    (if held then False else (case cap of None \<Rightarrow> True | Some m \<Rightarrow> m \<le> n))"

definition exceeds_pending_subscribe_cap :: "int \<Rightarrow> nat option \<Rightarrow> bool" where
  "exceeds_pending_subscribe_cap pending cap = (case cap of None \<Rightarrow> True | Some m \<Rightarrow> int m \<le> pending)"

definition denies_ungranted_observe :: "bool \<Rightarrow> bool \<Rightarrow> js_string list option \<Rightarrow> js_string \<Rightarrow> bool" where
  "denies_ungranted_observe armed has_user_hook grants topic =
    (if \<not> armed \<or> has_user_hook then False
     else (case grants of None \<Rightarrow> True | Some g \<Rightarrow> topic \<notin> set g))"

section \<open>What the decisions give\<close>

text \<open>Every accepted name can be embedded in an envelope.\<close>

lemma surrogate_mask:
  fixes c :: "16 word"
  shows "and c 0xf800 = 0xd800 \<longleftrightarrow> 0xd800 \<le> unat c \<and> unat c \<le> 0xdfff"
proof -
  have m: "(0xf800 :: 16 word) = push_bit 11 (mask 5)" by (simp add: mask_eq_exp_minus_1 push_bit_eq_mult)
  have e: "and c 0xf800 = push_bit 11 (drop_bit 11 c)"
    unfolding m by (rule bit_word_eqI) (auto simp: bit_and_iff bit_push_bit_iff bit_drop_bit_eq bit_mask_iff)
  have d: "unat (drop_bit 11 c) = unat c div 2048" by (simp add: drop_bit_eq_div unat_div)
  have l: "unat c < 65536" by (rule unat16_less)
  then have q: "unat c div 2048 < 32" by simp
  have "unat (push_bit 11 (drop_bit 11 c)) = (unat (drop_bit 11 c) * 2048) mod 65536"
    by (simp add: push_bit_eq_mult unat_word_ariths(2))
  also have "\<dots> = (unat c div 2048) * 2048" using q by (simp add: d)
  finally have p: "unat (push_bit 11 (drop_bit 11 c)) = (unat c div 2048) * 2048" .
  have "and c 0xf800 = 0xd800 \<longleftrightarrow> unat (and c 0xf800) = 0xd800"
    by (simp add: word_unat_eq_iff)
  also have "\<dots> \<longleftrightarrow> unat c div 2048 = 27" unfolding e p by auto
  also have "\<dots> \<longleftrightarrow> 0xd800 \<le> unat c \<and> unat c \<le> 0xdfff" by auto
  finally show ?thesis .
qed

lemma well_paired_step:
  "well_paired_name (w # s) \<longleftrightarrow> \<not> always_illegal (unat w) \<and>
    (if is_high w then s \<noteq> [] \<and> is_low (hd s) \<and> well_paired_name (tl s)
     else \<not> is_low w \<and> well_paired_name s)"
proof -
  have hi: "is_high w \<longleftrightarrow> and w 0xf800 = 0xd800 \<and> \<not> unat w > 0xdbff"
    and lo: "is_low w \<longleftrightarrow> and w 0xf800 = 0xd800 \<and> unat w > 0xdbff"
    and small: "unat w \<le> 126 \<Longrightarrow> and w 0xf800 \<noteq> 0xd800"
    unfolding surrogate_mask is_high_def is_low_def by auto
  have l: "unat (low :: 16 word) < 0xdc00 \<or> unat low > 0xdfff \<longleftrightarrow> \<not> is_low low" for low by (auto simp: is_low_def)
  show ?thesis unfolding well_paired_name.simps(2) Let_def hi lo l
    by (cases "always_illegal (unat w)"; cases "unat w \<le> 126"; cases "and w 0xf800 = 0xd800"; cases s)
      (simp_all add: small)
qed

declare well_paired_name.simps(2) [simp del]

lemma well_paired_facts:
  "well_paired_name s \<Longrightarrow> well_formed16 s \<and> (\<forall>w\<in>set s. \<not> always_illegal (unat w))"
proof (induction s rule: well_formed16.induct)
  case 1
  then show ?case by simp
next
  case (2 u)
  then show ?case by (auto simp: well_paired_step split: if_splits)
next
  case (3 u v us)
  have low: "is_low x \<Longrightarrow> \<not> always_illegal (unat x) \<and> \<not> is_high x" for x
    by (auto simp: is_low_def is_high_def always_illegal_def)
  show ?case
  proof (cases "is_high u")
    case True
    then have "is_low v" "well_paired_name us" "\<not> always_illegal (unat u)"
      using "3.prems" unfolding well_paired_step [of u] by simp_all
    then show ?thesis using "3.IH"(1) True low by simp
  next
    case False
    then have n: "\<not> is_low u" "well_paired_name (v # us)" "\<not> always_illegal (unat u)"
      using "3.prems" unfolding well_paired_step [of u] by simp_all
    then show ?thesis using "3.IH"(2) False by simp
  qed
qed

lemmas well_paired_legal = well_paired_facts [THEN conjunct2, rule_format]

text \<open>An accepted name is read back as it was written.\<close>

lemma ascii_well_formed: "\<forall>w\<in>set s. unat w \<le> 126 \<Longrightarrow> well_formed16 s"
  by (induction s rule: well_formed16.induct) (auto simp: is_high_def is_low_def)

lemma valid_topic_survives: "is_valid_wire_topic t a \<Longrightarrow> of_scalars (to_scalars t) = t"
  using ascii_well_formed [of t] well_paired_facts [of t]
  by (auto simp: is_valid_wire_topic_def intro!: of_scalars_to_scalars split: if_splits)

lemma valid_topic_escapes: "is_valid_wire_topic t a \<Longrightarrow> esc t = Some ([34] @ t @ [34])"
  by (auto simp: is_valid_wire_topic_def esc_def dest: well_paired_legal split: if_splits)

text \<open>Two registered prefixes never overlap unless they are the same: a prefix carries its colon last
  and none before.\<close>

lemma namespace_no_colon: "plugin_namespace s \<Longrightarrow> 58 \<notin> set s"
  by (cases s) (auto simp: ascii_letter_def namespace_tail_def)

lemma registered_shape:
  assumes "register_plugin_owned_prefix p owned = Inr owned'"
  shows "\<exists>n. p = js_of ''__'' @ n @ [58] \<and> 58 \<notin> set n"
proof -
  have c: "4 \<le> length p" "prefix_of p (js_of ''__'')" "List.last p = 58" "plugin_namespace (butlast (drop 2 p))"
    using assms by (auto simp: register_plugin_owned_prefix_def split: if_splits)
  have "p = take 2 p @ drop 2 p" by simp
  moreover have "take 2 p = js_of ''__''" using c(2) by (simp add: prefix_of_def numeral_2_eq_2)
  moreover have "drop 2 p = butlast (drop 2 p) @ [58]"
  proof -
    have "drop 2 p \<noteq> []" using c(1) by simp
    moreover have "List.last (drop 2 p) = 58" using c(1,3) by (simp add: last_drop)
    ultimately show ?thesis using append_butlast_last_id [of "drop 2 p"] by simp
  qed
  ultimately have "p = js_of ''__'' @ butlast (drop 2 p) @ [58]" by simp
  then show ?thesis using namespace_no_colon [OF c(4)] by blast
qed

lemma owned_prefixes_disjoint:
  assumes "register_plugin_owned_prefix p o1 = Inr o1'" and "register_plugin_owned_prefix q o2 = Inr o2'"
    and "prefix_of t p" and "prefix_of t q"
  shows "p = q"
proof -
  obtain n m where p: "p = js_of ''__'' @ n @ [58]" "58 \<notin> set n" and q: "q = js_of ''__'' @ m @ [58]" "58 \<notin> set m"
    using registered_shape [OF assms(1)] registered_shape [OF assms(2)] by blast
  obtain u v where t: "t = p @ u" "t = q @ v"
    using assms(3,4) append_take_drop_id [of "length p" t] append_take_drop_id [of "length q" t]
    unfolding prefix_of_def by metis
  then have e: "n @ 58 # u = m @ 58 # v"
    unfolding p(1) q(1) by simp
  have "takeWhile (\<lambda>x. x \<noteq> 58) (n @ 58 # u) = n"
    using p(2) by (subst takeWhile_append2) auto
  moreover have "takeWhile (\<lambda>x. x \<noteq> 58) (m @ 58 # v) = m"
    using q(2) by (subst takeWhile_append2) auto
  ultimately have "n = m" using e by simp
  then show ?thesis using p q by simp
qed

text \<open>The pre-hook exemption is never the whole gate: what it lets through without membership, the
  landing refuses unless the plugin's hook installed it.\<close>

lemma plugin_exemption_needs_membership:
  "is_plugin_owned_topic owned t \<Longrightarrow> denies_wire_subscribe_landing owned a h False t"
  by (simp add: denies_wire_subscribe_landing_def)

lemma armed_landing_denies:
  "a \<Longrightarrow> \<not> h \<Longrightarrow> denies_wire_subscribe_landing owned a h False t"
  by (simp add: denies_wire_subscribe_landing_def)

end
