(* ===== verification/Pending_Subscribe.thy ===== *)
theory Pending_Subscribe
  imports Subscribe_Policy "HOL-Library.Multiset"
begin

text \<open>
  The slots of one connection that subscribes touch, and the operations of \<open>utils/ws-symbols.js\<close> on
  them: the in-flight subscribes with their revocation epoch, the tracked membership, the charge of
  the worker's counter.

  \<open>native\<close> is what the registry of the broadcast walk holds for this socket (\<open>Topic_Registry\<close> models
  that registry for all sockets), \<open>gone\<close> says that the socket is no longer open, so that its
  \<open>subscribe\<close> and \<open>unsubscribe\<close> throw, \<open>charge\<close> is what this connection has added to the worker's
  subscription counter and \<open>registry_settled\<close> that the close path has released it.
\<close>

section \<open>State\<close>

record pend_entry =
  epoch :: nat
  inflight :: int
  granted :: bool

record conn =
  subs :: "js_string list"
  pend :: "(js_string, pend_entry) jsmap"
  pend_total :: int
  publish_grant :: "js_string option"
  native :: "js_string list"
  gone :: bool
  registry_settled :: bool
  charge :: int

definition open_conn :: conn where
  "open_conn = \<lparr>subs = [], pend = [], pend_total = 0, publish_grant = None, native = [], gone = False,
    registry_settled = False, charge = 0\<rparr>"

record caps =
  max_subs :: nat
  max_pend :: nat

section \<open>Reading\<close>

definition membership_unconfirmed :: "conn \<Rightarrow> js_string \<Rightarrow> bool" where
  "membership_unconfirmed c topic =
    (if pend_total c = 0 then False
     else (case jm_get (pend c) topic of None \<Rightarrow> False | Some e \<Rightarrow> \<not> granted e))"

definition held_landing_would_ack :: "conn \<Rightarrow> js_string \<Rightarrow> nat \<Rightarrow> bool" where
  "held_landing_would_ack c topic token =
    (case jm_get (pend c) topic of None \<Rightarrow> True | Some e \<Rightarrow> epoch e = token \<or> granted e)"

definition held_subscribe_is_authorized :: "js_string list \<Rightarrow> conn \<Rightarrow> js_string \<Rightarrow> nat \<Rightarrow> bool" where
  "held_subscribe_is_authorized owned c topic token =
    (\<not> membership_unconfirmed c topic \<or>
     (is_plugin_owned_topic owned topic \<and> held_landing_would_ack c topic token))"

definition is_pending_subscribe_cancelled :: "conn \<Rightarrow> js_string \<Rightarrow> nat \<Rightarrow> bool" where
  "is_pending_subscribe_cancelled c topic token =
    (case jm_get (pend c) topic of None \<Rightarrow> True | Some e \<Rightarrow> epoch e \<noteq> token)"

section \<open>Opening and settling an attempt\<close>

definition begin_pending_subscribe :: "js_string \<Rightarrow> bool \<Rightarrow> conn \<Rightarrow> nat \<times> conn" where
  "begin_pending_subscribe topic is_held c =
    (let e = (case jm_get (pend c) topic of None \<Rightarrow> \<lparr>epoch = 0, inflight = 0, granted = is_held\<rparr> | Some e \<Rightarrow> e)
     in (epoch e, c\<lparr>pend := jm_set topic (e\<lparr>inflight := inflight e + 1\<rparr>) (pend c), pend_total := pend_total c + 1\<rparr>))"

definition close_attempt :: "js_string \<Rightarrow> pend_entry \<Rightarrow> conn \<Rightarrow> conn" where
  "close_attempt topic e c =
    (let e' = e\<lparr>inflight := inflight e - 1\<rparr> in
     c\<lparr>pend := (if inflight e' \<le> 0 then jm_del topic (pend c) else jm_set topic e' (pend c)),
       pend_total := pend_total c - 1\<rparr>)"

definition settle_pending_subscribe :: "js_string \<Rightarrow> nat \<Rightarrow> bool \<Rightarrow> conn \<Rightarrow> bool \<times> conn" where
  "settle_pending_subscribe topic token is_granted c =
    (case jm_get (pend c) topic of None \<Rightarrow> (False, c)
     | Some e \<Rightarrow>
       let e' = (if is_granted \<and> epoch e = token then e\<lparr>granted := True\<rparr> else e)
       in (epoch e = token, close_attempt topic e' c))"

datatype verdict = Verdict_Ack | Verdict_Deny | Verdict_Unwind

definition settle_held_subscribe :: "js_string \<Rightarrow> nat \<Rightarrow> conn \<Rightarrow> verdict \<times> conn" where
  "settle_held_subscribe topic token c =
    (case jm_get (pend c) topic of None \<Rightarrow> (Verdict_Ack, c)
     | Some e \<Rightarrow>
       if epoch e = token then (Verdict_Ack, close_attempt topic (e\<lparr>granted := True\<rparr>) c)
       else (if granted e then Verdict_Ack else if inflight e \<le> 1 then Verdict_Unwind else Verdict_Deny,
             close_attempt topic e c))"

definition settle_denied_subscribe :: "js_string \<Rightarrow> nat \<Rightarrow> bool \<Rightarrow> conn \<Rightarrow> verdict \<times> conn" where
  "settle_denied_subscribe topic token is_held c =
    (case jm_get (pend c) topic of None \<Rightarrow> (Verdict_Deny, c)
     | Some e \<Rightarrow>
       (if \<not> is_held \<or> granted e \<or> \<not> inflight e \<le> 1 then Verdict_Deny else Verdict_Unwind,
        close_attempt topic e c))"

definition tombstone_pending_subscribe :: "js_string \<Rightarrow> conn \<Rightarrow> bool \<times> conn" where
  "tombstone_pending_subscribe topic c =
    (case jm_get (pend c) topic of None \<Rightarrow> (False, c)
     | Some e \<Rightarrow>
       if inflight e \<le> 0 then (False, c)
       else (True, c\<lparr>pend := jm_set topic (e\<lparr>epoch := epoch e + 1, granted := False\<rparr>) (pend c)\<rparr>))"

section \<open>Tracked membership\<close>

definition account_subscription_delta :: "int \<Rightarrow> conn \<Rightarrow> conn" where
  "account_subscription_delta d c = (if registry_settled c then c else c\<lparr>charge := charge c + d\<rparr>)"

definition add_logical_subscription :: "js_string \<Rightarrow> conn \<Rightarrow> conn" where
  "add_logical_subscription topic c =
    (if topic \<in> set (subs c) then c else account_subscription_delta 1 (c\<lparr>subs := subs c @ [topic]\<rparr>))"

definition remove_logical_subscription :: "js_string \<Rightarrow> conn \<Rightarrow> conn" where
  "remove_logical_subscription topic c =
    (if topic \<notin> set (subs c) then c
     else account_subscription_delta (- 1) (c\<lparr>subs := filter (\<lambda>t. t \<noteq> topic) (subs c)\<rparr>))"

definition account_closed_logical_subscriptions :: "conn \<Rightarrow> conn" where
  "account_closed_logical_subscriptions c =
    (if registry_settled c then c
     else c\<lparr>registry_settled := True, charge := charge c - int (length (subs c))\<rparr>)"

text \<open>The socket's own calls; both throw on a socket that is not open.\<close>

definition native_subscribe :: "js_string \<Rightarrow> conn \<Rightarrow> conn option" where
  "native_subscribe topic c =
    (if gone c then None
     else Some (c\<lparr>native := (if topic \<in> set (native c) then native c else native c @ [topic])\<rparr>))"

definition native_unsubscribe :: "js_string \<Rightarrow> conn \<Rightarrow> conn option" where
  "native_unsubscribe topic c =
    (if gone c then None else Some (c\<lparr>native := filter (\<lambda>t. t \<noteq> topic) (native c)\<rparr>))"

definition tracked_subscribe :: "caps \<Rightarrow> js_string \<Rightarrow> conn \<Rightarrow> bool \<times> conn" where
  "tracked_subscribe k topic c =
    (if exceeds_subscription_cap (topic \<in> set (subs c)) (length (subs c)) (Some (max_subs k)) then (False, c)
     else (case native_subscribe topic c of None \<Rightarrow> (False, c)
           | Some c' \<Rightarrow> (True, add_logical_subscription topic c')))"

definition drop_publish_grant :: "js_string \<Rightarrow> conn \<Rightarrow> conn" where
  "drop_publish_grant topic c = (if publish_grant c = Some topic then c\<lparr>publish_grant := None\<rparr> else c)"

definition tracked_unsubscribe :: "js_string \<Rightarrow> conn \<Rightarrow> conn" where
  "tracked_unsubscribe topic c =
    (let c1 = snd (tombstone_pending_subscribe topic c);
         c2 = (case native_unsubscribe topic c1 of None \<Rightarrow> c1 | Some c' \<Rightarrow> c');
         c3 = remove_logical_subscription topic c2
     in drop_publish_grant topic c3)"

definition release_derived_subscriptions :: "js_string list \<Rightarrow> js_string \<Rightarrow> conn \<Rightarrow> conn" where
  "release_derived_subscriptions derived topic c =
    foldl (\<lambda>c prefix. if prefix_of topic prefix then c else tracked_unsubscribe (prefix @ topic) c) c derived"

definition unwind_revoked_membership :: "js_string list \<Rightarrow> js_string \<Rightarrow> conn \<Rightarrow> conn" where
  "unwind_revoked_membership derived topic c =
    tracked_unsubscribe topic (release_derived_subscriptions derived topic c)"

definition release_membership :: "js_string \<Rightarrow> conn \<Rightarrow> conn" where
  "release_membership topic c =
    (let c1 = (case jm_get (pend c) topic of None \<Rightarrow> c
               | Some e \<Rightarrow> c\<lparr>pend := jm_set topic (e\<lparr>granted := False\<rparr>) (pend c)\<rparr>)
     in case native_unsubscribe topic c1 of None \<Rightarrow> c1
        | Some c2 \<Rightarrow> drop_publish_grant topic (remove_logical_subscription topic c2))"

definition release_subscription :: "js_string list \<Rightarrow> js_string \<Rightarrow> conn \<Rightarrow> conn" where
  "release_subscription derived topic c =
    (if registry_settled c then c
     else foldl (\<lambda>c prefix. if prefix_of topic prefix then c else release_membership (prefix @ topic) c)
       (release_membership topic c) derived)"

section \<open>Revocation from outside\<close>

text \<open>\<open>platform.unsubscribe\<close>, and the client's own \<open>unsubscribe\<close> frame.\<close>

definition platform_unsubscribe :: "js_string list \<Rightarrow> js_string \<Rightarrow> conn \<Rightarrow> bool \<times> conn" where
  "platform_unsubscribe derived topic c =
    (let (cancelled, c1) = tombstone_pending_subscribe topic c;
         c2 = release_derived_subscriptions derived topic (drop_publish_grant topic c1)
     in if topic \<notin> set (subs c2) then (cancelled, c2)
        else (case native_unsubscribe topic c2 of None \<Rightarrow> (False, c2)
              | Some c3 \<Rightarrow> (True, remove_logical_subscription topic c3)))"

definition client_unsubscribe :: "js_string list \<Rightarrow> js_string \<Rightarrow> conn \<Rightarrow> conn" where
  "client_unsubscribe derived topic c =
    (let c1 = remove_logical_subscription topic (snd (tombstone_pending_subscribe topic c));
         c2 = (case native_unsubscribe topic c1 of None \<Rightarrow> c1 | Some c' \<Rightarrow> c')
     in release_derived_subscriptions derived topic (drop_publish_grant topic c2))"

definition close_conn :: "conn \<Rightarrow> conn" where
  "close_conn c = account_closed_logical_subscriptions (c\<lparr>gone := True, native := []\<rparr>)"

text \<open>What application code may do to the connection from a hook or between frames.\<close>

datatype conn_op =
    Tracked_Subscribe js_string
  | Tracked_Unsubscribe js_string
  | Platform_Unsubscribe js_string
  | Client_Unsubscribe js_string
  | Release_Subscription js_string
  | Grant_Publish js_string
  | Revoke_Publish
  | Socket_Closing
  | Socket_Closed

fun conn_op_step :: "caps \<Rightarrow> js_string list \<Rightarrow> conn \<Rightarrow> conn_op \<Rightarrow> conn" where
  "conn_op_step k derived c (Tracked_Subscribe t) = snd (tracked_subscribe k t c)"
| "conn_op_step k derived c (Tracked_Unsubscribe t) = tracked_unsubscribe t c"
| "conn_op_step k derived c (Platform_Unsubscribe t) = snd (platform_unsubscribe derived t c)"
| "conn_op_step k derived c (Client_Unsubscribe t) = client_unsubscribe derived t c"
| "conn_op_step k derived c (Release_Subscription t) = release_subscription derived t c"
| "conn_op_step k derived c (Grant_Publish t) = c\<lparr>publish_grant := Some t\<rparr>"
| "conn_op_step k derived c Revoke_Publish = c\<lparr>publish_grant := None\<rparr>"
| "conn_op_step k derived c Socket_Closing = c\<lparr>gone := True\<rparr>"
| "conn_op_step k derived c Socket_Closed = close_conn c"

section \<open>Membership: one set, one native registry, one charge\<close>

definition membership_ok :: "conn \<Rightarrow> bool" where
  "membership_ok c \<longleftrightarrow> distinct (subs c) \<and> distinct (native c) \<and>
    (\<not> gone c \<longrightarrow> set (native c) = set (subs c) \<and> \<not> registry_settled c) \<and>
    charge c = (if registry_settled c then 0 else int (length (subs c)))"

lemma membership_open: "membership_ok open_conn"
  by (simp add: membership_ok_def open_conn_def)

lemma length_filter_neq: "distinct xs \<Longrightarrow> x \<in> set xs \<Longrightarrow> int (length (filter (\<lambda>y. y \<noteq> x) xs)) = int (length xs) - 1"
proof (induction xs)
  case (Cons y xs)
  show ?case
  proof (cases "y = x")
    case True
    then have "filter (\<lambda>z. z \<noteq> x) xs = xs" using Cons.prems(1) by (auto simp: filter_id_conv)
    then show ?thesis using True by simp
  qed (use Cons in auto)
qed simp

lemma membership_pend [simp]:
  "membership_ok (c\<lparr>pend := p\<rparr>) = membership_ok c"
  "membership_ok (c\<lparr>pend_total := n\<rparr>) = membership_ok c"
  "membership_ok (c\<lparr>publish_grant := g\<rparr>) = membership_ok c"
  by (simp_all add: membership_ok_def)

lemma membership_close_attempt [simp]: "membership_ok (close_attempt t e c) = membership_ok c"
  by (simp add: close_attempt_def Let_def)

lemma membership_tombstone [simp]: "membership_ok (snd (tombstone_pending_subscribe t c)) = membership_ok c"
  by (simp add: tombstone_pending_subscribe_def split: option.split)

lemma membership_drop_grant [simp]: "membership_ok (drop_publish_grant t c) = membership_ok c"
  by (simp add: drop_publish_grant_def)

lemma drop_grant_simps [simp]:
  "subs (drop_publish_grant t c) = subs c" "gone (drop_publish_grant t c) = gone c"
  "pend (drop_publish_grant t c) = pend c" "pend_total (drop_publish_grant t c) = pend_total c"
  "native (drop_publish_grant t c) = native c" "registry_settled (drop_publish_grant t c) = registry_settled c"
  by (simp_all add: drop_publish_grant_def)

lemma tombstone_simps [simp]:
  "subs (snd (tombstone_pending_subscribe t c)) = subs c"
  "gone (snd (tombstone_pending_subscribe t c)) = gone c"
  "native (snd (tombstone_pending_subscribe t c)) = native c"
  "registry_settled (snd (tombstone_pending_subscribe t c)) = registry_settled c"
  "pend_total (snd (tombstone_pending_subscribe t c)) = pend_total c"
  by (simp_all add: tombstone_pending_subscribe_def split: option.split)

lemma logical_simps [simp]:
  "pend (add_logical_subscription t c) = pend c" "pend_total (add_logical_subscription t c) = pend_total c"
  "gone (add_logical_subscription t c) = gone c" "set (subs (add_logical_subscription t c)) = insert t (set (subs c))"
  "pend (remove_logical_subscription t c) = pend c" "pend_total (remove_logical_subscription t c) = pend_total c"
  "gone (remove_logical_subscription t c) = gone c" "set (subs (remove_logical_subscription t c)) = set (subs c) - {t}"
  "registry_settled (remove_logical_subscription t c) = registry_settled c"
  by (auto simp: add_logical_subscription_def remove_logical_subscription_def account_subscription_delta_def)

lemma native_sub_simps:
  assumes "native_subscribe t c = Some c'"
  shows "\<not> gone c" "c' = c\<lparr>native := native c'\<rparr>" "set (native c') = insert t (set (native c))"
    "distinct (native c) \<Longrightarrow> distinct (native c')"
  using assms by (auto simp: native_subscribe_def split: if_splits)

lemma native_unsub_simps:
  assumes "native_unsubscribe t c = Some c'"
  shows "\<not> gone c" "c' = c\<lparr>native := native c'\<rparr>" "set (native c') = set (native c) - {t}"
    "distinct (native c) \<Longrightarrow> distinct (native c')"
  using assms by (auto simp: native_unsubscribe_def split: if_splits)

lemma native_unsub_None: "native_unsubscribe t c = None \<longleftrightarrow> gone c"
  by (simp add: native_unsubscribe_def)

lemma native_sub_None: "native_subscribe t c = None \<longleftrightarrow> gone c"
  by (simp add: native_subscribe_def)

text \<open>The two halves of a change of membership: the socket's registry and the tracked set.\<close>

lemma membership_install:
  assumes "membership_ok c" and "native_subscribe t c = Some c'"
  shows "membership_ok (add_logical_subscription t c')"
proof -
  have c': "c' = c\<lparr>native := native c'\<rparr>" "\<not> gone c" "set (native c') = insert t (set (native c))" "distinct (native c')"
    using native_sub_simps [OF assms(2)] assms(1) by (auto simp: membership_ok_def)
  then have f: "subs c' = subs c" "charge c' = charge c" "gone c' = gone c" "registry_settled c' = registry_settled c"
    by (metis conn.select_convs conn.surjective conn.update_convs(5))+
  show ?thesis using assms(1) c' f
    by (auto simp: membership_ok_def add_logical_subscription_def account_subscription_delta_def)
qed

lemma membership_remove_gone:
  assumes "membership_ok c" and "gone c"
  shows "membership_ok (remove_logical_subscription t c)"
  using assms length_filter_neq [of "subs c" t]
  by (auto simp: membership_ok_def remove_logical_subscription_def account_subscription_delta_def)

lemma membership_remove:
  assumes "membership_ok c" and "native_unsubscribe t c = Some c'"
  shows "membership_ok (remove_logical_subscription t c')"
proof -
  have c': "\<not> gone c" "c' = c\<lparr>native := filter (\<lambda>x. x \<noteq> t) (native c)\<rparr>"
    using assms(2) by (auto simp: native_unsubscribe_def split: if_splits)
  have eq: "set (native c) = set (subs c)" "\<not> registry_settled c" "distinct (subs c)" "distinct (native c)"
    "charge c = int (length (subs c))" using assms(1) c'(1) by (auto simp: membership_ok_def)
  show ?thesis
  proof (cases "t \<in> set (subs c)")
    case True
    then show ?thesis using eq length_filter_neq [OF eq(3) True] unfolding c'(2)
      by (auto simp: membership_ok_def remove_logical_subscription_def account_subscription_delta_def)
  next
    case False
    then show ?thesis using eq unfolding c'(2)
      by (auto simp: membership_ok_def remove_logical_subscription_def)
  qed
qed

lemma membership_remove_either:
  "membership_ok c \<Longrightarrow> membership_ok (remove_logical_subscription t
    (case native_unsubscribe t c of None \<Rightarrow> c | Some c' \<Rightarrow> c'))"
  using membership_remove_gone [of c t] membership_remove [of c t]
  by (cases "gone c") (simp_all add: native_unsubscribe_def)

lemma membership_tracked_unsubscribe: "membership_ok c \<Longrightarrow> membership_ok (tracked_unsubscribe t c)"
  unfolding tracked_unsubscribe_def Let_def membership_drop_grant
  by (rule membership_remove_either) simp

lemma membership_foldl:
  assumes "\<And>c x. membership_ok c \<Longrightarrow> membership_ok (f c x)"
  shows "membership_ok c \<Longrightarrow> membership_ok (foldl f c xs)"
  by (induction xs arbitrary: c) (auto intro: assms)

lemma membership_derived: "membership_ok c \<Longrightarrow> membership_ok (release_derived_subscriptions d t c)"
  unfolding release_derived_subscriptions_def
  by (rule membership_foldl) (auto intro: membership_tracked_unsubscribe)

lemma membership_unwind: "membership_ok c \<Longrightarrow> membership_ok (unwind_revoked_membership d t c)"
  by (simp add: unwind_revoked_membership_def membership_tracked_unsubscribe membership_derived)

lemma membership_tracked_subscribe: "membership_ok c \<Longrightarrow> membership_ok (snd (tracked_subscribe k t c))"
  by (auto simp: tracked_subscribe_def split: option.split intro: membership_install)

lemma membership_release_membership: "membership_ok c \<Longrightarrow> membership_ok (release_membership t c)"
proof -
  assume ok: "membership_ok c"
  let ?c1 = "case jm_get (pend c) t of None \<Rightarrow> c | Some e \<Rightarrow> c\<lparr>pend := jm_set t (e\<lparr>granted := False\<rparr>) (pend c)\<rparr>"
  have "membership_ok ?c1" using ok by (simp split: option.split)
  then show ?thesis unfolding release_membership_def Let_def
    by (cases "native_unsubscribe t ?c1") (simp_all add: membership_remove)
qed

lemma membership_release_subscription: "membership_ok c \<Longrightarrow> membership_ok (release_subscription d t c)"
  unfolding release_subscription_def
  by (simp, rule impI, rule membership_foldl) (auto intro: membership_release_membership)

lemma membership_platform_unsubscribe: "membership_ok c \<Longrightarrow> membership_ok (snd (platform_unsubscribe d t c))"
proof -
  assume ok: "membership_ok c"
  let ?c2 = "release_derived_subscriptions d t (drop_publish_grant t (snd (tombstone_pending_subscribe t c)))"
  have c2: "membership_ok ?c2" using ok by (intro membership_derived) simp
  show ?thesis
  proof (cases "native_unsubscribe t ?c2")
    case None
    then show ?thesis using c2 by (simp add: platform_unsubscribe_def case_prod_unfold Let_def)
  next
    case (Some c3)
    then show ?thesis using c2 membership_remove [OF c2 Some]
      by (simp add: platform_unsubscribe_def case_prod_unfold Let_def)
  qed
qed

lemma membership_client_unsubscribe: "membership_ok c \<Longrightarrow> membership_ok (client_unsubscribe d t c)"
proof -
  assume ok: "membership_ok c"
  let ?c0 = "snd (tombstone_pending_subscribe t c)"
  have "membership_ok (case native_unsubscribe t (remove_logical_subscription t ?c0) of
      None \<Rightarrow> remove_logical_subscription t ?c0 | Some c' \<Rightarrow> c')"
  proof (cases "gone c")
    case True
    then show ?thesis using ok membership_remove_gone [of ?c0 t] by (simp add: native_unsubscribe_def)
  next
    case False
    then obtain c' where u: "native_unsubscribe t ?c0 = Some c'" by (simp add: native_unsubscribe_def)
    have "native_unsubscribe t (remove_logical_subscription t ?c0) = Some (remove_logical_subscription t c')"
      using u by (auto simp: native_unsubscribe_def remove_logical_subscription_def account_subscription_delta_def
          split: if_splits)
    then show ?thesis using membership_remove [of ?c0 t c'] ok u by simp
  qed
  then show ?thesis unfolding client_unsubscribe_def Let_def by (intro membership_derived) simp
qed

lemma membership_close: "membership_ok c \<Longrightarrow> membership_ok (close_conn c)"
  by (auto simp: membership_ok_def close_conn_def account_closed_logical_subscriptions_def)

lemma membership_conn_op: "membership_ok c \<Longrightarrow> membership_ok (conn_op_step k d c o')"
  by (cases o') (auto simp: membership_tracked_subscribe membership_tracked_unsubscribe
      membership_platform_unsubscribe membership_client_unsubscribe membership_release_subscription
      membership_close, auto simp: membership_ok_def)

lemma membership_conn_ops: "membership_ok c \<Longrightarrow> membership_ok (foldl (conn_op_step k d) c os)"
  by (induction os arbitrary: c) (simp_all add: membership_conn_op)

section \<open>The record of attempts in flight\<close>

text \<open>\<open>enrolled c E\<close>: the attempts in flight are exactly the pairs of a topic and a token in \<open>E\<close>; an
  entry exists for exactly the topics with an attempt, counts them, and no token is ahead of its epoch.\<close>

definition attempts_on :: "js_string \<Rightarrow> (js_string \<times> nat) multiset \<Rightarrow> nat" where
  "attempts_on t E = size (filter_mset (\<lambda>p. fst p = t) E)"

lemma attempts_on_simps [simp]:
  "attempts_on t {#} = 0" "attempts_on t (add_mset (u, k) E) = (if u = t then 1 else 0) + attempts_on t E"
  "attempts_on t (E + F) = attempts_on t E + attempts_on t F"
  by (simp_all add: attempts_on_def)

lemma attempts_on_0: "attempts_on t E = 0 \<longleftrightarrow> (\<forall>k. (t, k) \<notin># E)"
  by (induction E) auto

definition enrolled :: "conn \<Rightarrow> (js_string \<times> nat) multiset \<Rightarrow> bool" where
  "enrolled c E \<longleftrightarrow> jm_wf (pend c) \<and> pend_total c = int (size E) \<and>
    (\<forall>t. case jm_get (pend c) t of None \<Rightarrow> attempts_on t E = 0
      | Some e \<Rightarrow> inflight e = int (attempts_on t E) \<and> attempts_on t E \<noteq> 0 \<and>
          (\<forall>k. (t, k) \<in># E \<longrightarrow> k \<le> epoch e))"

lemma enrolled_open: "enrolled open_conn {#}"
  by (simp add: enrolled_def open_conn_def)

lemma enrolled_wf: "enrolled c E \<Longrightarrow> jm_wf (pend c)"
  by (simp add: enrolled_def)

lemma enrolled_total: "enrolled c E \<Longrightarrow> pend_total c = int (size E)"
  by (simp add: enrolled_def)

lemma enrolled_None: "enrolled c E \<Longrightarrow> jm_get (pend c) t = None \<Longrightarrow> attempts_on t E = 0"
  unfolding enrolled_def by (elim conjE, drule spec [of _ t]) simp

lemma enrolled_Some:
  assumes "enrolled c E" and "jm_get (pend c) t = Some e"
  shows "inflight e = int (attempts_on t E)" "attempts_on t E \<noteq> 0"
    "(t, k) \<in># E \<Longrightarrow> k \<le> epoch e" "1 \<le> inflight e"
proof -
  have all: "inflight e = int (attempts_on t E) \<and> attempts_on t E \<noteq> 0 \<and>
    (\<forall>k. (t, k) \<in># E \<longrightarrow> k \<le> epoch e)"
    using assms unfolding enrolled_def by (elim conjE, drule_tac x = t in spec) simp
  then show "inflight e = int (attempts_on t E)" "attempts_on t E \<noteq> 0"
    "(t, k) \<in># E \<Longrightarrow> k \<le> epoch e" by blast+
  show "1 \<le> inflight e" using all by linarith
qed

lemma enrolled_entry:
  assumes "enrolled c E" and "(t, k) \<in># E"
  obtains e where "jm_get (pend c) t = Some e" "k \<le> epoch e"
proof -
  have "attempts_on t E \<noteq> 0" using assms(2) by (auto simp: attempts_on_0)
  then obtain e where "jm_get (pend c) t = Some e" using enrolled_None [OF assms(1)] by (cases "jm_get (pend c) t") auto
  then show thesis using that enrolled_Some(3) [OF assms(1)] assms(2) by blast
qed

lemma enrolledI:
  assumes "jm_wf (pend c)" and "pend_total c = int (size E)"
    and "\<And>t. jm_get (pend c) t = None \<Longrightarrow> attempts_on t E = 0"
    and "\<And>t e. jm_get (pend c) t = Some e \<Longrightarrow> inflight e = int (attempts_on t E) \<and>
      attempts_on t E \<noteq> 0 \<and> (\<forall>k. (t, k) \<in># E \<longrightarrow> k \<le> epoch e)"
  shows "enrolled c E"
  unfolding enrolled_def using assms by (simp split: option.split)

lemma enrolled_begin:
  assumes "enrolled c E" and "begin_pending_subscribe t h c = (k, c')"
  shows "enrolled c' (add_mset (t, k) E)"
proof -
  let ?e = "case jm_get (pend c) t of None \<Rightarrow> \<lparr>epoch = 0, inflight = 0, granted = h\<rparr> | Some e \<Rightarrow> e"
  have k: "k = epoch ?e" and c': "pend c' = jm_set t (?e\<lparr>inflight := inflight ?e + 1\<rparr>) (pend c)"
    "pend_total c' = pend_total c + 1" using assms(2) by (auto simp: begin_pending_subscribe_def Let_def)
  show ?thesis
  proof (rule enrolledI)
    show "jm_wf (pend c')" using enrolled_wf [OF assms(1)] by (simp add: c')
    show "pend_total c' = int (size (add_mset (t, k) E))" using enrolled_total [OF assms(1)] by (simp add: c')
  next
    fix u assume "jm_get (pend c') u = None"
    then show "attempts_on u (add_mset (t, k) E) = 0"
      using enrolled_None [OF assms(1), of u] by (auto simp: c' split: if_splits)
  next
    fix u e assume g: "jm_get (pend c') u = Some e"
    show "inflight e = int (attempts_on u (add_mset (t, k) E)) \<and>
      attempts_on u (add_mset (t, k) E) \<noteq> 0 \<and> (\<forall>j. (u, j) \<in># add_mset (t, k) E \<longrightarrow> j \<le> epoch e)"
    proof (cases "u = t")
      case False
      then show ?thesis using g enrolled_Some [OF assms(1), of u e] by (auto simp: c')
    next
      case True
      then have e: "e = ?e\<lparr>inflight := inflight ?e + 1\<rparr>" using g by (simp add: c')
      show ?thesis
      proof (cases "jm_get (pend c) t")
        case None
        have "attempts_on t E = 0" by (rule enrolled_None [OF assms(1) None])
        moreover from this have "\<forall>j. (t, j) \<notin># E" by (simp add: attempts_on_0)
        ultimately show ?thesis using True e None k by simp
      next
        case (Some e0)
        then show ?thesis using True e k enrolled_Some [OF assms(1) Some] by auto
      qed
    qed
  qed
qed

lemma enrolled_close_attempt:
  assumes "enrolled c (add_mset (t, k) E)" and "jm_get (pend c) t = Some e0"
    and "epoch e = epoch e0" and "inflight e = inflight e0"
  shows "enrolled (close_attempt t e c) E"
proof (rule enrolledI)
  let ?c' = "close_attempt t e c"
  note wf = enrolled_wf [OF assms(1)]
  note at = enrolled_Some [OF assms(1) assms(2)]
  have n: "inflight e = int (attempts_on t E) + 1" using at(1) assms(4) by simp
  have p: "pend ?c' = (if attempts_on t E = 0 then jm_del t (pend c) else jm_set t (e\<lparr>inflight := inflight e - 1\<rparr>) (pend c))"
    using n by (simp add: close_attempt_def Let_def)
  show "jm_wf (pend ?c')" using wf by (simp add: p)
  show "pend_total ?c' = int (size E)" using enrolled_total [OF assms(1)] by (simp add: close_attempt_def Let_def)
  show "attempts_on u E = 0" if "jm_get (pend ?c') u = None" for u
    using that enrolled_None [OF assms(1), of u] by (auto simp: p split: if_splits)
  show "inflight e' = int (attempts_on u E) \<and> attempts_on u E \<noteq> 0 \<and>
      (\<forall>j. (u, j) \<in># E \<longrightarrow> j \<le> epoch e')" if g: "jm_get (pend ?c') u = Some e'" for u e'
  proof (cases "u = t")
    case True
    then have ne: "attempts_on t E \<noteq> 0" and e': "e' = e\<lparr>inflight := inflight e - 1\<rparr>"
      using g by (auto simp: p split: if_splits)
    have "\<forall>j. (t, j) \<in># E \<longrightarrow> j \<le> epoch e" using at(3) assms(3) by auto
    then show ?thesis using True ne e' n by simp
  next
    case False
    then have "jm_get (pend c) u = Some e'" using g by (auto simp: p split: if_splits)
    then show ?thesis using enrolled_Some [OF assms(1), of u e'] False by auto
  qed
qed

lemma enrolled_settle_pending:
  "enrolled c (add_mset (t, k) E) \<Longrightarrow> enrolled (snd (settle_pending_subscribe t k g c)) E"
  by (rule enrolled_entry [of c "add_mset (t, k) E" t k])
    (auto simp: settle_pending_subscribe_def Let_def intro: enrolled_close_attempt)

lemma enrolled_settle_held:
  "enrolled c (add_mset (t, k) E) \<Longrightarrow> enrolled (snd (settle_held_subscribe t k c)) E"
  by (rule enrolled_entry [of c "add_mset (t, k) E" t k])
    (auto simp: settle_held_subscribe_def intro: enrolled_close_attempt)

lemma enrolled_settle_denied:
  "enrolled c (add_mset (t, k) E) \<Longrightarrow> enrolled (snd (settle_denied_subscribe t k h c)) E"
  by (rule enrolled_entry [of c "add_mset (t, k) E" t k])
    (auto simp: settle_denied_subscribe_def intro: enrolled_close_attempt)

section \<open>What other code can do to the record\<close>

text \<open>Everything but opening and settling an attempt leaves the attempts alone; epochs only rise and
  granted marks only go away.\<close>

definition entry_revoked :: "pend_entry \<Rightarrow> pend_entry \<Rightarrow> bool" where
  "entry_revoked e e' \<longleftrightarrow> inflight e' = inflight e \<and> epoch e \<le> epoch e' \<and> (granted e' \<longrightarrow> granted e)"

definition pend_revoked :: "conn \<Rightarrow> conn \<Rightarrow> bool" where
  "pend_revoked c c' \<longleftrightarrow> pend_total c' = pend_total c \<and> (jm_wf (pend c) \<longrightarrow> jm_wf (pend c')) \<and> (gone c \<longrightarrow> gone c') \<and>
    (\<forall>t. rel_option entry_revoked (jm_get (pend c) t) (jm_get (pend c') t))"

lemma entry_revoked_refl [simp]: "entry_revoked e e"
  by (simp add: entry_revoked_def)

lemma pend_revoked_refl [simp]: "pend_revoked c c"
  by (simp add: pend_revoked_def option.rel_refl)

lemma pend_revoked_trans: "pend_revoked a b \<Longrightarrow> pend_revoked b c \<Longrightarrow> pend_revoked a c"
  unfolding pend_revoked_def
proof (elim conjE, intro conjI allI)
  fix t
  assume "\<forall>t. rel_option entry_revoked (jm_get (pend a) t) (jm_get (pend b) t)"
    and "\<forall>t. rel_option entry_revoked (jm_get (pend b) t) (jm_get (pend c) t)"
  then have "rel_option entry_revoked (jm_get (pend a) t) (jm_get (pend b) t)"
    and "rel_option entry_revoked (jm_get (pend b) t) (jm_get (pend c) t)" by blast+
  then show "rel_option entry_revoked (jm_get (pend a) t) (jm_get (pend c) t)"
    by (cases "jm_get (pend a) t"; cases "jm_get (pend b) t"; cases "jm_get (pend c) t")
      (auto simp: entry_revoked_def)
qed auto

lemma pend_revoked_same:
  "pend c' = pend c \<Longrightarrow> pend_total c' = pend_total c \<Longrightarrow> (gone c \<longrightarrow> gone c') \<Longrightarrow> pend_revoked c c'"
  by (simp add: pend_revoked_def option.rel_refl)

lemma pend_revoked_set:
  assumes "jm_get (pend c) t = Some e" and "entry_revoked e e'"
  shows "pend_revoked c (c\<lparr>pend := jm_set t e' (pend c)\<rparr>)"
  using assms by (auto simp: pend_revoked_def option.rel_refl)

lemma pend_revoked_at: "pend_revoked c c' \<Longrightarrow> rel_option entry_revoked (jm_get (pend c) t) (jm_get (pend c') t)"
  by (simp add: pend_revoked_def)

lemma pend_revoked_entry:
  assumes "pend_revoked c c'" and "jm_get (pend c) t = Some e"
  obtains e' where "jm_get (pend c') t = Some e'" "entry_revoked e e'"
  using pend_revoked_at [OF assms(1), of t] assms(2) that by (cases "jm_get (pend c') t") auto

lemma pend_revoked_entry':
  assumes "pend_revoked c c'" and "jm_get (pend c') t = Some e'"
  obtains e where "jm_get (pend c) t = Some e" "entry_revoked e e'"
  using pend_revoked_at [OF assms(1), of t] assms(2) that by (cases "jm_get (pend c) t") auto

lemma pend_revoked_None: "pend_revoked c c' \<Longrightarrow> jm_get (pend c') t = None \<longleftrightarrow> jm_get (pend c) t = None"
  using pend_revoked_at [of c c' t] by (cases "jm_get (pend c) t"; cases "jm_get (pend c') t") auto

lemma enrolled_revoked:
  assumes "enrolled c E" and "pend_revoked c c'"
  shows "enrolled c' E"
proof (rule enrolledI)
  show "jm_wf (pend c')" "pend_total c' = int (size E)"
    using assms by (auto simp: enrolled_def pend_revoked_def)
  show "attempts_on t E = 0" if "jm_get (pend c') t = None" for t
    using that pend_revoked_None [OF assms(2)] enrolled_None [OF assms(1)] by simp
  show "inflight e' = int (attempts_on t E) \<and> attempts_on t E \<noteq> 0 \<and>
      (\<forall>k. (t, k) \<in># E \<longrightarrow> k \<le> epoch e')" if g: "jm_get (pend c') t = Some e'" for t e'
  proof (rule pend_revoked_entry' [OF assms(2) g])
    fix e assume g0: "jm_get (pend c) t = Some e" and r: "entry_revoked e e'"
    show ?thesis using enrolled_Some [OF assms(1) g0] r unfolding entry_revoked_def by (auto intro: order_trans)
  qed
qed

lemma revoked_tombstone: "pend_revoked c (snd (tombstone_pending_subscribe t c))"
  by (auto simp: tombstone_pending_subscribe_def entry_revoked_def split: option.split intro!: pend_revoked_set)

lemma revoked_drop_grant: "pend_revoked c (drop_publish_grant t c)"
  by (rule pend_revoked_same) simp_all

lemma revoked_logical:
  "pend_revoked c (remove_logical_subscription t c)" "pend_revoked c (add_logical_subscription t c)"
  by (rule pend_revoked_same; simp)+

lemma revoked_native_unsub: "native_unsubscribe t c = Some c' \<Longrightarrow> pend_revoked c c'"
  by (rule pend_revoked_same) (auto simp: native_unsubscribe_def split: if_splits)

lemma revoked_native_sub: "native_subscribe t c = Some c' \<Longrightarrow> pend_revoked c c'"
  by (rule pend_revoked_same) (auto simp: native_subscribe_def split: if_splits)

lemma revoked_native_either:
  "pend_revoked c (case native_unsubscribe t c of None \<Rightarrow> c | Some c' \<Rightarrow> c')"
  by (auto split: option.split intro: revoked_native_unsub)

lemma revoked_tracked_unsubscribe: "pend_revoked c (tracked_unsubscribe t c)"
  unfolding tracked_unsubscribe_def Let_def
  by (rule pend_revoked_trans [OF revoked_tombstone]) (rule pend_revoked_trans [OF revoked_native_either [of _ t]],
      rule pend_revoked_trans [OF revoked_logical(1)], rule revoked_drop_grant)

lemma revoked_foldl:
  assumes "\<And>c x. pend_revoked c (f c x)"
  shows "pend_revoked c (foldl f c xs)"
proof (induction xs arbitrary: c)
  case (Cons x xs)
  show ?case using pend_revoked_trans [OF assms Cons.IH] by simp
qed simp

lemma revoked_derived: "pend_revoked c (release_derived_subscriptions d t c)"
  unfolding release_derived_subscriptions_def
  by (rule revoked_foldl) (auto intro: revoked_tracked_unsubscribe)

lemma revoked_unwind: "pend_revoked c (unwind_revoked_membership d t c)"
  unfolding unwind_revoked_membership_def
  by (rule pend_revoked_trans [OF revoked_derived revoked_tracked_unsubscribe])

lemma revoked_tracked_subscribe: "pend_revoked c (snd (tracked_subscribe k t c))"
  by (auto simp: tracked_subscribe_def split: option.split
      intro: pend_revoked_trans [OF revoked_native_sub revoked_logical(2)])

lemma revoked_release_membership: "pend_revoked c (release_membership t c)"
proof -
  let ?c1 = "case jm_get (pend c) t of None \<Rightarrow> c | Some e \<Rightarrow> c\<lparr>pend := jm_set t (e\<lparr>granted := False\<rparr>) (pend c)\<rparr>"
  have 1: "pend_revoked c ?c1" by (auto split: option.split intro!: pend_revoked_set simp: entry_revoked_def)
  have "pend_revoked ?c1 (case native_unsubscribe t ?c1 of None \<Rightarrow> ?c1
        | Some c2 \<Rightarrow> drop_publish_grant t (remove_logical_subscription t c2))"
    by (cases "native_unsubscribe t ?c1")
      (simp_all add: pend_revoked_trans [OF revoked_native_unsub pend_revoked_trans [OF revoked_logical(1) revoked_drop_grant]])
  then show ?thesis using pend_revoked_trans [OF 1] by (simp add: release_membership_def Let_def)
qed

lemma revoked_release_subscription: "pend_revoked c (release_subscription d t c)"
  unfolding release_subscription_def
  by (simp, rule impI, rule pend_revoked_trans [OF revoked_release_membership], rule revoked_foldl)
    (auto intro: revoked_release_membership)

lemma revoked_platform_unsubscribe: "pend_revoked c (snd (platform_unsubscribe d t c))"
proof -
  let ?c2 = "release_derived_subscriptions d t (drop_publish_grant t (snd (tombstone_pending_subscribe t c)))"
  have 2: "pend_revoked c ?c2"
    by (rule pend_revoked_trans [OF revoked_tombstone pend_revoked_trans [OF revoked_drop_grant revoked_derived]])
  have "pend_revoked ?c2 (case native_unsubscribe t ?c2 of None \<Rightarrow> ?c2 | Some c3 \<Rightarrow> remove_logical_subscription t c3)"
    by (cases "native_unsubscribe t ?c2") (simp_all add: pend_revoked_trans [OF revoked_native_unsub revoked_logical(1)])
  then have "pend_revoked ?c2 (snd (platform_unsubscribe d t c))"
    by (auto simp: platform_unsubscribe_def case_prod_unfold Let_def split: option.split)
  then show ?thesis by (rule pend_revoked_trans [OF 2])
qed

lemma revoked_client_unsubscribe: "pend_revoked c (client_unsubscribe d t c)"
  unfolding client_unsubscribe_def Let_def
  by (rule pend_revoked_trans [OF revoked_tombstone], rule pend_revoked_trans [OF revoked_logical(1)],
      rule pend_revoked_trans [OF revoked_native_either], rule pend_revoked_trans [OF revoked_drop_grant],
      rule revoked_derived)

lemma revoked_conn_op: "pend_revoked c (conn_op_step k d c o')"
proof (cases o')
  case Socket_Closed
  then show ?thesis
    by (simp, intro pend_revoked_same) (simp_all add: close_conn_def account_closed_logical_subscriptions_def)
qed (auto simp: revoked_tracked_subscribe revoked_tracked_unsubscribe revoked_platform_unsubscribe
    revoked_client_unsubscribe revoked_release_subscription intro: pend_revoked_same)

lemma revoked_conn_ops: "pend_revoked c (foldl (conn_op_step k d) c os)"
  by (rule revoked_foldl) (rule revoked_conn_op)

end
