(* ===== verification/Subscribe_Session.thy ===== *)
theory Subscribe_Session
  imports Pending_Subscribe
begin

text \<open>
  The subscribe lanes of one connection as a state machine: the wire's single and batch frames
  (\<open>handler/realtime.js\<close>), \<open>platform.subscribe\<close> and the observer gate (\<open>handler/platform.js\<close>,
  \<open>utils/ws-symbols.js\<close>).

  Each lane runs until it awaits an application hook; there it is parked. An event answers one parked
  lane, starts another, or is application code acting on the connection meanwhile, so that a list of
  events is one interleaving. What a lane sends and calls is its list of acts. The operations that
  the application's unsubscribe hook performs when an unwind calls it are part of the answer.
\<close>

section \<open>The server's side\<close>

record server =
  armed :: bool
  strict :: bool
  user_hook :: bool
  resume_hook :: bool
  allow_system :: bool
  allow_non_ascii :: bool
  owned :: "js_string list"
  derived :: "js_string list"
  limits :: caps

datatype denial = Invalid_Topic | Forbidden | Rate_Limited | Batch_Overflow | Hook_Denial js_string

datatype 'r act =
    Native_Subscribe js_string
  | Ack js_string 'r
  | Deny js_string 'r denial
  | Recover_Needs_Ref "js_string option"
  | Capture_Opened "js_string list"
  | Resume_Called "(js_string \<times> int) list"
  | Capture_Flushed js_string
  | Capture_Discarded
  | Unsubscribe_Hook js_string
  | Subscribe_Returned js_string "denial option"
  | Tap_Allowed js_string
  | Tap_Refused js_string

datatype hook_answer =
    One "denial option"
  | By_Topic "(js_string, denial) jsmap"
  | By_Index "denial option list"

record answer =
  hook_says :: hook_answer
  unsubscribe_ops :: "js_string \<Rightarrow> conn_op list"
  flush_closes :: "js_string \<Rightarrow> bool"

fun one_denial :: "hook_answer \<Rightarrow> denial option" where
  "one_denial (One d) = d"
| "one_denial (By_Topic m) = None"
| "one_denial (By_Index ds) = None"

fun denial_at :: "hook_answer \<Rightarrow> js_string \<Rightarrow> nat \<Rightarrow> denial option" where
  "denial_at (One d) t i = None"
| "denial_at (By_Topic m) t i = jm_get m t"
| "denial_at (By_Index ds) t i = (if i < length ds then ds ! i else None)"

definition app_decides :: "server \<Rightarrow> bool" where
  "app_decides s \<longleftrightarrow> user_hook s \<and> \<not> strict s"

definition wire_authz :: "server \<Rightarrow> bool" where
  "wire_authz s \<longleftrightarrow> armed s \<and> (strict s \<or> \<not> user_hook s)"

definition send_subscribed :: "js_string \<Rightarrow> 'r option \<Rightarrow> 'r act list" where
  "send_subscribed t ref = (case ref of None \<Rightarrow> [] | Some r \<Rightarrow> [Ack t r])"

definition send_denied :: "js_string \<Rightarrow> 'r option \<Rightarrow> denial \<Rightarrow> 'r act list" where
  "send_denied t ref d = (case ref of None \<Rightarrow> [] | Some r \<Rightarrow> [Deny t r d])"

definition held :: "js_string \<Rightarrow> conn \<Rightarrow> bool" where
  "held t c \<longleftrightarrow> t \<in> set (subs c)"

text \<open>Membership that no live authority backs is unwound, then the application hears of it.\<close>

definition unwind :: "server \<Rightarrow> answer \<Rightarrow> js_string \<Rightarrow> conn \<Rightarrow> conn" where
  "unwind s a t c =
    foldl (conn_op_step (limits s) (derived s)) (unwind_revoked_membership (derived s) t c) (unsubscribe_ops a t)"

definition unwind_if :: "verdict \<Rightarrow> server \<Rightarrow> answer \<Rightarrow> js_string \<Rightarrow> conn \<Rightarrow> 'r act list \<times> conn" where
  "unwind_if v s a t c = (if v = Verdict_Unwind then ([Unsubscribe_Hook t], unwind s a t c) else ([], c))"

definition refuse :: "server \<Rightarrow> answer \<Rightarrow> js_string \<Rightarrow> nat \<Rightarrow> conn \<Rightarrow> 'r act list \<times> conn" where
  "refuse s a t token c =
    (let (v, c1) = settle_denied_subscribe t token (held t c) c in unwind_if v s a t c1)"

definition land_held :: "server \<Rightarrow> answer \<Rightarrow> js_string \<Rightarrow> nat \<Rightarrow> conn \<Rightarrow> bool \<times> 'r act list \<times> conn" where
  "land_held s a t token c =
    (let (v, c1) = settle_held_subscribe t token c in (v = Verdict_Ack, unwind_if v s a t c1))"

section \<open>Parked lanes\<close>

record 'r batch =
  b_ref :: "'r option"
  b_items :: "(nat \<times> js_string \<times> nat \<times> bool) list"
  b_recover :: "(js_string, recover) jsmap option"
  b_user_hook :: bool

datatype 'r parked =
    Wire_Gate js_string "'r option" "recover option" nat
  | Wire_Resume js_string "'r option" nat
  | Batch_Gate "'r batch"
  | Batch_Resume "'r batch" hook_answer
  | Batch_Stopped "(nat \<times> js_string \<times> nat \<times> bool) list"
  | Platform_Gate js_string nat
  | Tap_Gate js_string nat "denial option" bool

type_synonym 'r outcome = "'r act list \<times> conn \<times> 'r parked option"

section \<open>The single subscribe frame\<close>

definition handle_subscribe :: "server \<Rightarrow> js_string \<Rightarrow> 'r option \<Rightarrow> recover option \<Rightarrow> conn \<Rightarrow> 'r outcome" where
  "handle_subscribe s t ref rec c =
    (if denies_ref_less_recover (resume_hook s) rec ref then ([Recover_Needs_Ref (Some t)], c, None)
     else if \<not> is_valid_wire_topic t (allow_non_ascii s) then (send_denied t ref Invalid_Topic, c, None)
     else if denies_wire_system_topic_subscribe (allow_system s) (owned s) t then (send_denied t ref Invalid_Topic, c, None)
     else if exceeds_subscription_cap (held t c) (length (subs c)) (Some (max_subs (limits s)))
       then (send_denied t ref Rate_Limited, c, None)
     else if denies_wire_subscribe_pre_hook (owned s) (armed s) (app_decides s)
         (held t c \<and> \<not> membership_unconfirmed c t) t then (send_denied t ref Forbidden, c, None)
     else if exceeds_pending_subscribe_cap (pend_total c) (Some (max_pend (limits s)))
       then (send_denied t ref Rate_Limited, c, None)
     else let (token, c1) = begin_pending_subscribe t (held t c) c in ([], c1, Some (Wire_Gate t ref rec token)))"

definition discard_if :: "bool \<Rightarrow> 'r act list" where
  "discard_if captured = (if captured then [Capture_Discarded] else [])"

definition subscribe_landing ::
  "server \<Rightarrow> answer \<Rightarrow> js_string \<Rightarrow> 'r option \<Rightarrow> nat \<Rightarrow> bool \<Rightarrow> conn \<Rightarrow> 'r outcome" where
  "subscribe_landing s a t ref token captured c =
    (if denies_wire_subscribe_landing (owned s) (armed s) (app_decides s) (held t c) t
     then (discard_if captured @ send_denied t ref Forbidden, snd (settle_pending_subscribe t token False c), None)
     else let (ok, c1) = settle_pending_subscribe t token True c in
       if \<not> ok then (discard_if captured @ send_denied t ref Forbidden, c1, None)
       else (case native_subscribe t c1 of None \<Rightarrow> (discard_if captured, c1, None)
         | Some c2 \<Rightarrow>
           let c3 = add_logical_subscription t c2 in
           if captured \<and> flush_closes a t then ([Native_Subscribe t, Capture_Flushed t], c3\<lparr>gone := True\<rparr>, None)
           else ([Native_Subscribe t] @ (if captured then [Capture_Flushed t] else []) @ send_subscribed t ref, c3, None)))"

definition landing_denies_held :: "server \<Rightarrow> bool \<Rightarrow> js_string \<Rightarrow> nat \<Rightarrow> conn \<Rightarrow> bool" where
  "landing_denies_held s hook t token c =
    denies_wire_subscribe_landing (owned s) (armed s) hook (held t c \<and> held_subscribe_is_authorized (owned s) c t token) t"

definition subscribe_answered ::
  "server \<Rightarrow> answer \<Rightarrow> js_string \<Rightarrow> 'r option \<Rightarrow> recover option \<Rightarrow> nat \<Rightarrow> conn \<Rightarrow> 'r outcome" where
  "subscribe_answered s a t ref rec token c =
    (case one_denial (hook_says a) of
       Some d \<Rightarrow> (let (as, c1) = refuse s a t token c in (as @ send_denied t ref d, c1, None))
     | None \<Rightarrow>
       if held t c \<and> landing_denies_held s (app_decides s) t token c
       then (let (as, c1) = refuse s a t token c in (as @ send_denied t ref Forbidden, c1, None))
       else if held t c \<and> \<not> wants_recover (resume_hook s) rec
       then (let (ok, as, c1) = land_held s a t token c in
             if ok then (send_subscribed t ref, c1, None) else (as @ send_denied t ref Forbidden, c1, None))
       else if exceeds_subscription_cap (held t c) (length (subs c)) (Some (max_subs (limits s)))
       then (send_denied t ref Rate_Limited, snd (settle_pending_subscribe t token False c), None)
       else let revoked = recover_is_revoked (owned s) (held t c \<and> held_landing_would_ack c t token) (wire_authz s)
             (is_pending_subscribe_cancelled c t token) t in
         if revoked \<and> wants_recover (resume_hook s) rec
         then (let (as, c1) = refuse s a t token c in (as @ send_denied t ref Forbidden, c1, None))
         else if wants_recover (resume_hook s) rec
         then ([Capture_Opened [t], Resume_Called [(t, the (offset (the rec)))]], c, Some (Wire_Resume t ref token))
         else subscribe_landing s a t ref token False c)"

definition subscribe_resumed ::
  "server \<Rightarrow> answer \<Rightarrow> js_string \<Rightarrow> 'r option \<Rightarrow> nat \<Rightarrow> conn \<Rightarrow> 'r outcome" where
  "subscribe_resumed s a t ref token c =
    (if held t c \<and> landing_denies_held s (app_decides s) t token c
     then (let (as, c1) = refuse s a t token c in (Capture_Discarded # as @ send_denied t ref Forbidden, c1, None))
     else if held t c
     then (let (ok, as, c1) = land_held s a t token c in
           if ok then (Capture_Discarded # send_subscribed t ref, c1, None)
           else (as @ Capture_Discarded # send_denied t ref Forbidden, c1, None))
     else subscribe_landing s a t ref token True c)"

section \<open>The batch frame\<close>

fun begin_batch :: "js_string list \<Rightarrow> conn \<Rightarrow> nat list \<times> conn" where
  "begin_batch [] c = ([], c)"
| "begin_batch (t # ts) c =
    (let (k, c1) = begin_pending_subscribe t (held t c) c; (ks, c2) = begin_batch ts c1 in (k # ks, c2))"

definition batch_entry_denied :: "server \<Rightarrow> js_string \<Rightarrow> bool" where
  "batch_entry_denied s t \<longleftrightarrow> \<not> is_valid_wire_topic t (allow_non_ascii s) \<or>
    denies_wire_system_topic_subscribe (allow_system s) (owned s) t"

definition handle_subscribe_batch ::
  "server \<Rightarrow> js_string list \<Rightarrow> 'r option \<Rightarrow> (js_string, recover) jsmap option \<Rightarrow> conn \<Rightarrow> 'r outcome" where
  "handle_subscribe_batch s topics ref recs c =
    (if denies_ref_less_recover_batch (resume_hook s) (case recs of None \<Rightarrow> [] | Some m \<Rightarrow> m) ref
     then ([Recover_Needs_Ref None], c, None)
     else
       let overflow = concat (map (\<lambda>t. send_denied t ref Batch_Overflow) (drop 256 topics));
           bad = concat (map (\<lambda>t. if batch_entry_denied s t then send_denied t ref Invalid_Topic else []) (take 256 topics));
           valid = filter (\<lambda>t. \<not> batch_entry_denied s t) (take 256 topics);
           authz = map (\<lambda>t. wire_authz s \<and> denies_wire_subscribe_pre_hook (owned s) (armed s) (app_decides s)
             (held t c \<and> \<not> membership_unconfirmed c t) t) valid;
           headroom = nat (int (max_pend (limits s)) - pend_total c);
           over = concat (map (\<lambda>(t, z). send_denied t ref (if z then Forbidden else Rate_Limited)) (drop headroom (zip valid authz)));
           kept = take headroom valid;
           (tokens, c1) = begin_batch kept c
       in (overflow @ bad @ over, c1,
           Some (Batch_Gate \<lparr>b_ref = ref, b_items = zip [0..<length kept] (zip kept (zip tokens authz)),
             b_recover = recs, b_user_hook = user_hook s\<rparr>)))"

definition batch_app_decides :: "server \<Rightarrow> 'r batch \<Rightarrow> bool" where
  "batch_app_decides s b \<longleftrightarrow> b_user_hook b \<and> \<not> strict s"

definition batch_recover_denied ::
  "server \<Rightarrow> 'r batch \<Rightarrow> hook_answer \<Rightarrow> conn \<Rightarrow> nat \<times> js_string \<times> nat \<times> bool \<Rightarrow> bool" where
  "batch_recover_denied s b h c = (\<lambda>(i, t, k, z).
    z \<or> recover_is_revoked (owned s)
          (held t c \<and> held_landing_would_ack c t k \<and>
           (\<not> armed s \<or> batch_app_decides s b \<or> held_subscribe_is_authorized (owned s) c t k))
          (armed s \<and> (strict s \<or> \<not> b_user_hook b)) (is_pending_subscribe_cancelled c t k) t
      \<or> denial_at h t i \<noteq> None)"

definition recover_seqs :: "server \<Rightarrow> 'r batch \<Rightarrow> hook_answer \<Rightarrow> conn \<Rightarrow> (js_string, int) jsmap" where
  "recover_seqs s b h c =
    (case b_recover b of None \<Rightarrow> []
     | Some recs \<Rightarrow> foldl (\<lambda>m item. case item of (i, t, k, z) \<Rightarrow>
         if batch_recover_denied s b h c item \<or> \<not> wants_recover (resume_hook s) (jm_get recs t) then m
         else jm_set t (the (offset (the (jm_get recs t)))) m) [] (b_items b))"

definition batch_entry ::
  "server \<Rightarrow> answer \<Rightarrow> 'r batch \<Rightarrow> hook_answer \<Rightarrow> bool \<Rightarrow> nat \<times> js_string \<times> nat \<times> bool \<Rightarrow> conn \<Rightarrow> 'r act list \<times> conn \<times> bool" where
  "batch_entry s a b h captured item c = (case item of (i, t, k, z) \<Rightarrow>
    (case (if z then Some Forbidden
           else if landing_denies_held s (batch_app_decides s b) t k c then Some Forbidden
           else denial_at h t i) of
       Some d \<Rightarrow> (let (as, c1) = refuse s a t k c in (as @ send_denied t (b_ref b) d, c1, False))
     | None \<Rightarrow>
         if held t c
         then (let (ok, as, c1) = land_held s a t k c in
               if ok then (send_subscribed t (b_ref b), c1, False) else (as @ send_denied t (b_ref b) Forbidden, c1, False))
         else if exceeds_subscription_cap (held t c) (length (subs c)) (Some (max_subs (limits s)))
         then (send_denied t (b_ref b) Rate_Limited, snd (settle_pending_subscribe t k False c), False)
         else let (ok, c1) = settle_pending_subscribe t k True c in
           if \<not> ok then (send_denied t (b_ref b) Forbidden, c1, False)
           else (case native_subscribe t c1 of None \<Rightarrow> ([], c1, False)
             | Some c2 \<Rightarrow>
               let c3 = add_logical_subscription t c2 in
               if captured \<and> flush_closes a t then ([Native_Subscribe t, Capture_Flushed t], c3\<lparr>gone := True\<rparr>, True)
               else ([Native_Subscribe t] @ (if captured then [Capture_Flushed t] else []) @ send_subscribed t (b_ref b), c3, False))))"

fun batch_loop ::
  "server \<Rightarrow> answer \<Rightarrow> 'r batch \<Rightarrow> hook_answer \<Rightarrow> bool \<Rightarrow> (nat \<times> js_string \<times> nat \<times> bool) list \<Rightarrow> conn \<Rightarrow> 'r outcome" where
  "batch_loop s a b h captured [] c = (discard_if captured, c, None)"
| "batch_loop s a b h captured (item # items) c =
    (let (as, c1, stop) = batch_entry s a b h captured item c in
     if stop then (as @ discard_if captured, c1, Some (Batch_Stopped items))
     else (let (bs, r) = batch_loop s a b h captured items c1 in (as @ bs, r)))"

definition batch_answered :: "server \<Rightarrow> answer \<Rightarrow> 'r batch \<Rightarrow> conn \<Rightarrow> 'r outcome" where
  "batch_answered s a b c =
    (let seqs = recover_seqs s b (hook_says a) c in
     if seqs \<noteq> [] \<and> resume_hook s
     then ([Capture_Opened (jm_keys seqs), Resume_Called seqs], c, Some (Batch_Resume b (hook_says a)))
     else batch_loop s a b (hook_says a) False (b_items b) c)"

section \<open>The platform's subscribe and the observer gate\<close>

definition platform_subscribe :: "server \<Rightarrow> js_string \<Rightarrow> conn \<Rightarrow> 'r outcome" where
  "platform_subscribe s t c =
    (if \<not> is_valid_wire_topic t True then ([Subscribe_Returned t (Some Invalid_Topic)], c, None)
     else if held t c \<and> \<not> membership_unconfirmed c t then ([Subscribe_Returned t None], c, None)
     else if exceeds_subscription_cap (held t c) (length (subs c)) (Some (max_subs (limits s)))
       then ([Subscribe_Returned t (Some Rate_Limited)], c, None)
     else if exceeds_pending_subscribe_cap (pend_total c) (Some (max_pend (limits s)))
       then ([Subscribe_Returned t (Some Rate_Limited)], c, None)
     else let (token, c1) = begin_pending_subscribe t (held t c) c in ([], c1, Some (Platform_Gate t token)))"

definition platform_answered :: "server \<Rightarrow> answer \<Rightarrow> js_string \<Rightarrow> nat \<Rightarrow> conn \<Rightarrow> 'r outcome" where
  "platform_answered s a t token c =
    (case one_denial (hook_says a) of
       Some d \<Rightarrow> (let (as, c1) = refuse s a t token c in (as @ [Subscribe_Returned t (Some d)], c1, None))
     | None \<Rightarrow>
       if held t c
       then (let (ok, as, c1) = land_held s a t token c in
             (as @ [Subscribe_Returned t (if ok then None else Some Forbidden)], c1, None))
       else if exceeds_subscription_cap (held t c) (length (subs c)) (Some (max_subs (limits s)))
       then ([Subscribe_Returned t (Some Rate_Limited)], snd (settle_pending_subscribe t token False c), None)
       else let (ok, c1) = settle_pending_subscribe t token True c in
         if \<not> ok then ([Subscribe_Returned t (Some Forbidden)], c1, None)
         else (case native_subscribe t c1 of None \<Rightarrow> ([Subscribe_Returned t None], c1, None)
           | Some c2 \<Rightarrow> ([Native_Subscribe t, Subscribe_Returned t None], add_logical_subscription t c2, None)))"

definition ungranted_observe :: "server \<Rightarrow> bool \<Rightarrow> js_string \<Rightarrow> conn \<Rightarrow> bool" where
  "ungranted_observe s hook t c =
    denies_ungranted_observe (armed s) (hook \<and> \<not> strict s) (if membership_unconfirmed c t then None else Some (subs c)) t"

definition check_subscribe_before :: "server \<Rightarrow> js_string \<Rightarrow> conn \<Rightarrow> denial option" where
  "check_subscribe_before s t c =
    (if \<not> is_valid_wire_topic t (allow_non_ascii s) then Some Invalid_Topic
     else if ungranted_observe s (user_hook s) t c then Some Forbidden else None)"

definition authorize_derived_subscribe :: "server \<Rightarrow> js_string \<Rightarrow> conn \<Rightarrow> 'r outcome" where
  "authorize_derived_subscribe s t c =
    (if exceeds_pending_subscribe_cap (pend_total c) (Some (max_pend (limits s))) then ([Tap_Refused t], c, None)
     else let (token, c1) = begin_pending_subscribe t (held t c) c
          in ([], c1, Some (Tap_Gate t token (check_subscribe_before s t c1) (user_hook s))))"

definition tap_answered ::
  "server \<Rightarrow> answer \<Rightarrow> js_string \<Rightarrow> nat \<Rightarrow> denial option \<Rightarrow> bool \<Rightarrow> conn \<Rightarrow> 'r outcome" where
  "tap_answered s a t token before hook c =
    (if before \<noteq> None \<or> one_denial (hook_says a) \<noteq> None \<or> ungranted_observe s hook t c
     then (let (as, c1) = refuse s a t token c in (as @ [Tap_Refused t], c1, None))
     else if held t c
     then (let (ok, as, c1) = land_held s a t token c in
           (as @ [if ok then Tap_Allowed t else Tap_Refused t], c1, None))
     else let (ok, c1) = settle_pending_subscribe t token False c
          in ([if ok then Tap_Allowed t else Tap_Refused t], c1, None))"

section \<open>All lanes together\<close>

record 'r session =
  server_of :: server
  conn_of :: conn
  lanes :: "(nat, 'r parked) jsmap"
  next_lane :: nat

definition new_session :: "server \<Rightarrow> 'r session" where
  "new_session s = \<lparr>server_of = s, conn_of = open_conn, lanes = [], next_lane = 0\<rparr>"

fun answer_lane :: "server \<Rightarrow> answer \<Rightarrow> 'r parked \<Rightarrow> conn \<Rightarrow> 'r outcome" where
  "answer_lane s a (Wire_Gate t ref rec k) c = subscribe_answered s a t ref rec k c"
| "answer_lane s a (Wire_Resume t ref k) c = subscribe_resumed s a t ref k c"
| "answer_lane s a (Batch_Gate b) c = batch_answered s a b c"
| "answer_lane s a (Batch_Resume b h) c = batch_loop s a b h True (b_items b) c"
| "answer_lane s a (Batch_Stopped items) c = ([], c, Some (Batch_Stopped items))"
| "answer_lane s a (Platform_Gate t k) c = platform_answered s a t k c"
| "answer_lane s a (Tap_Gate t k before hook) c = tap_answered s a t k before hook c"

datatype 'r event =
    Subscribe_Frame js_string "'r option" "recover option"
  | Subscribe_Batch_Frame "js_string list" "'r option" "(js_string, recover) jsmap option"
  | Platform_Subscribe js_string
  | Tap_Requested js_string
  | Answered nat answer
  | Application conn_op
  | Authorize_Wire_Subscribe bool
  | Hooks_Reloaded bool bool

definition start_lane :: "'r outcome \<Rightarrow> 'r session \<Rightarrow> 'r act list \<times> 'r session" where
  "start_lane r w = (case r of (as, c, p) \<Rightarrow>
    (as, case p of None \<Rightarrow> w\<lparr>conn_of := c\<rparr>
         | Some q \<Rightarrow> w\<lparr>conn_of := c, lanes := jm_set (next_lane w) q (lanes w), next_lane := Suc (next_lane w)\<rparr>))"

definition continue_lane :: "nat \<Rightarrow> 'r outcome \<Rightarrow> 'r session \<Rightarrow> 'r act list \<times> 'r session" where
  "continue_lane n r w = (case r of (as, c, p) \<Rightarrow>
    (as, w\<lparr>conn_of := c, lanes := (case p of None \<Rightarrow> jm_del n (lanes w) | Some q \<Rightarrow> jm_set n q (lanes w))\<rparr>))"

fun subscribe_step :: "'r session \<Rightarrow> 'r event \<Rightarrow> 'r act list \<times> 'r session" where
  "subscribe_step w (Subscribe_Frame t ref rec) = start_lane (handle_subscribe (server_of w) t ref rec (conn_of w)) w"
| "subscribe_step w (Subscribe_Batch_Frame ts ref recs) =
    start_lane (handle_subscribe_batch (server_of w) ts ref recs (conn_of w)) w"
| "subscribe_step w (Platform_Subscribe t) = start_lane (platform_subscribe (server_of w) t (conn_of w)) w"
| "subscribe_step w (Tap_Requested t) = start_lane (authorize_derived_subscribe (server_of w) t (conn_of w)) w"
| "subscribe_step w (Answered n a) =
    (case jm_get (lanes w) n of None \<Rightarrow> ([], w)
     | Some p \<Rightarrow> continue_lane n (answer_lane (server_of w) a p (conn_of w)) w)"
| "subscribe_step w (Application x) =
    ([], w\<lparr>conn_of := conn_op_step (limits (server_of w)) (derived (server_of w)) (conn_of w) x\<rparr>)"
| "subscribe_step w (Authorize_Wire_Subscribe is_strict) =
    ([], w\<lparr>server_of := (server_of w)\<lparr>armed := True, strict := strict (server_of w) \<or> is_strict\<rparr>\<rparr>)"
| "subscribe_step w (Hooks_Reloaded u r) =
    ([], w\<lparr>server_of := (server_of w)\<lparr>user_hook := u, resume_hook := r\<rparr>\<rparr>)"

definition session_next :: "'r session \<Rightarrow> 'r event \<Rightarrow> 'r session" where
  "session_next w e = snd (subscribe_step w e)"

section \<open>What one answer does to the record of attempts\<close>

definition epoch_of :: "conn \<Rightarrow> js_string \<Rightarrow> nat" where
  "epoch_of c t = (case jm_get (pend c) t of None \<Rightarrow> 0 | Some e \<Rightarrow> epoch e)"

text \<open>From \<open>c\<close> to \<open>c'\<close>, leaving the attempts \<open>F\<close> in flight.\<close>

definition gets_to :: "(js_string \<times> nat) multiset \<Rightarrow> conn \<Rightarrow> conn \<Rightarrow> bool" where
  "gets_to F c c' \<longleftrightarrow> enrolled c' F \<and> (membership_ok c \<longrightarrow> membership_ok c') \<and> (gone c \<longrightarrow> gone c') \<and>
    (\<forall>t k. (t, k) \<in># F \<longrightarrow> epoch_of c t \<le> epoch_of c' t)"

lemma reaches_refl: "enrolled c F \<Longrightarrow> gets_to F c c"
  by (simp add: gets_to_def)

lemma reaches_trans: "gets_to F c c' \<Longrightarrow> F' \<subseteq># F \<Longrightarrow> gets_to F' c' c'' \<Longrightarrow> gets_to F' c c''"
  unfolding gets_to_def by (blast dest: mset_subset_eqD intro: order_trans)

lemma reaches_step: "gets_to F c c' \<Longrightarrow> gets_to F c' c'' \<Longrightarrow> gets_to F c c''"
  by (rule reaches_trans [OF _ subset_mset.order_refl])

lemma reaches_enrolled: "gets_to F c c' \<Longrightarrow> enrolled c' F"
  by (simp add: gets_to_def)

lemma epoch_revoked: "pend_revoked c c' \<Longrightarrow> epoch_of c t \<le> epoch_of c' t"
  using pend_revoked_at [of c c' t]
  by (cases "jm_get (pend c) t"; cases "jm_get (pend c') t") (auto simp: epoch_of_def entry_revoked_def)

lemma reaches_revoked:
  "enrolled c F \<Longrightarrow> pend_revoked c c' \<Longrightarrow> (membership_ok c \<Longrightarrow> membership_ok c') \<Longrightarrow> gets_to F c c'"
  using epoch_revoked [of c c'] by (simp add: gets_to_def enrolled_revoked pend_revoked_def)

lemma reaches_conn_op: "enrolled c F \<Longrightarrow> gets_to F c (conn_op_step k d c x)"
  by (rule reaches_revoked) (simp_all add: revoked_conn_op membership_conn_op)

lemma reaches_unwind: "enrolled c F \<Longrightarrow> gets_to F c (unwind s a t c)"
  unfolding unwind_def
proof (rule reaches_revoked)
  show "pend_revoked c (foldl (conn_op_step (limits s) (derived s)) (unwind_revoked_membership (derived s) t c) (unsubscribe_ops a t))"
    by (rule pend_revoked_trans [OF revoked_unwind revoked_conn_ops])
  show "membership_ok (foldl (conn_op_step (limits s) (derived s)) (unwind_revoked_membership (derived s) t c) (unsubscribe_ops a t))"
    if "membership_ok c"
    by (rule membership_conn_ops [OF membership_unwind [OF that]])
qed

lemma epoch_close:
  assumes "jm_get (pend c) t = Some e0" and "epoch e = epoch e0" and "enrolled (close_attempt t e c) F"
    and "(u, k) \<in># F"
  shows "epoch_of c u \<le> epoch_of (close_attempt t e c) u"
proof -
  obtain e' where "jm_get (pend (close_attempt t e c)) u = Some e'" using enrolled_entry [OF assms(3,4)] .
  then show ?thesis using assms(1,2)
    by (cases "u = t"; cases "inflight e \<le> 1") (auto simp: epoch_of_def close_attempt_def Let_def)
qed

lemma reaches_close:
  assumes "enrolled c (add_mset (t, k) F)" and "jm_get (pend c) t = Some e0" and "epoch e = epoch e0" "inflight e = inflight e0"
  shows "gets_to F c (close_attempt t e c)"
  using enrolled_close_attempt [OF assms] epoch_close [OF assms(2,3)]
  by (auto simp: gets_to_def close_attempt_def Let_def membership_ok_def)

lemma reaches_settle_pending:
  "enrolled c (add_mset (t, k) F) \<Longrightarrow> gets_to F c (snd (settle_pending_subscribe t k g c))"
  by (rule enrolled_entry [of c "add_mset (t, k) F" t k])
    (auto simp: settle_pending_subscribe_def Let_def intro: reaches_close)

lemma reaches_settle_held:
  "enrolled c (add_mset (t, k) F) \<Longrightarrow> gets_to F c (snd (settle_held_subscribe t k c))"
  by (rule enrolled_entry [of c "add_mset (t, k) F" t k])
    (auto simp: settle_held_subscribe_def intro: reaches_close)

lemma reaches_settle_denied:
  "enrolled c (add_mset (t, k) F) \<Longrightarrow> gets_to F c (snd (settle_denied_subscribe t k h c))"
  by (rule enrolled_entry [of c "add_mset (t, k) F" t k])
    (auto simp: settle_denied_subscribe_def intro: reaches_close)

lemma reaches_begin:
  assumes "enrolled c F" and "begin_pending_subscribe t h c = (k, c')"
  shows "gets_to (add_mset (t, k) F) c c'"
proof -
  have "epoch_of c u \<le> epoch_of c' u" for u
    using assms(2)
    by (cases "u = t"; cases "jm_get (pend c) t") (auto simp: begin_pending_subscribe_def Let_def epoch_of_def)
  then show ?thesis using enrolled_begin [OF assms] assms(2)
    by (auto simp: gets_to_def begin_pending_subscribe_def Let_def)
qed

lemma reaches_unwind_if: "enrolled c F \<Longrightarrow> gets_to F c (snd (unwind_if v s a t c))"
  by (simp add: unwind_if_def reaches_unwind reaches_refl)

lemma reaches_refuse:
  assumes "enrolled c (add_mset (t, k) F)"
  shows "gets_to F c (snd (refuse s a t k c))"
proof -
  have 1: "gets_to F c (snd (settle_denied_subscribe t k (held t c) c))" by (rule reaches_settle_denied [OF assms])
  show ?thesis unfolding refuse_def case_prod_unfold Let_def
    by (rule reaches_step [OF 1 reaches_unwind_if]) (rule reaches_enrolled [OF 1])
qed

lemma reaches_land_held:
  assumes "enrolled c (add_mset (t, k) F)"
  shows "gets_to F c (snd (snd (land_held s a t k c)))"
proof -
  have 1: "gets_to F c (snd (settle_held_subscribe t k c))" by (rule reaches_settle_held [OF assms])
  show ?thesis unfolding land_held_def case_prod_unfold Let_def snd_conv
    by (rule reaches_step [OF 1 reaches_unwind_if]) (rule reaches_enrolled [OF 1])
qed

lemma reaches_install:
  assumes "enrolled c F" and "native_subscribe t c = Some c2"
  shows "gets_to F c (add_logical_subscription t c2)"
  by (rule reaches_revoked [OF assms(1) pend_revoked_trans [OF revoked_native_sub [OF assms(2)] revoked_logical(2)]])
    (rule membership_install [OF _ assms(2)])

lemma reaches_gone: "enrolled c F \<Longrightarrow> gets_to F c (c\<lparr>gone := True\<rparr>)"
  by (rule reaches_revoked) (auto intro: pend_revoked_same simp: membership_ok_def)

lemma reaches_install_close:
  assumes "enrolled c F" and "native_subscribe t c = Some c2"
  shows "gets_to F c ((add_logical_subscription t c2)\<lparr>gone := True\<rparr>)"
  using reaches_install [OF assms] by (rule reaches_step) (rule reaches_gone [OF reaches_enrolled [OF reaches_install [OF assms]]])

text \<open>The attempts that a parked lane has in flight.\<close>

definition item_attempts :: "(nat \<times> js_string \<times> nat \<times> bool) list \<Rightarrow> (js_string \<times> nat) multiset" where
  "item_attempts items = mset (map (\<lambda>(i, t, k, z). (t, k)) items)"

lemma item_attempts_simps [simp]:
  "item_attempts [] = {#}" "item_attempts ((i, t, k, z) # items) = add_mset (t, k) (item_attempts items)"
  by (simp_all add: item_attempts_def)

fun attempts :: "'r parked \<Rightarrow> (js_string \<times> nat) multiset" where
  "attempts (Wire_Gate t ref rec k) = {#(t, k)#}"
| "attempts (Wire_Resume t ref k) = {#(t, k)#}"
| "attempts (Batch_Gate b) = item_attempts (b_items b)"
| "attempts (Batch_Resume b h) = item_attempts (b_items b)"
| "attempts (Batch_Stopped items) = item_attempts items"
| "attempts (Platform_Gate t k) = {#(t, k)#}"
| "attempts (Tap_Gate t k before hook) = {#(t, k)#}"

definition left_in_flight :: "'r outcome \<Rightarrow> (js_string \<times> nat) multiset" where
  "left_in_flight r = (case snd (snd r) of None \<Rightarrow> {#} | Some p \<Rightarrow> attempts p)"

definition conn_after :: "'r outcome \<Rightarrow> conn" where
  "conn_after r = fst (snd r)"

lemma outcome_simps [simp]:
  "left_in_flight (as, c, None) = {#}" "left_in_flight (as, c, Some p) = attempts p" "conn_after (as, c, q) = c"
  by (simp_all add: left_in_flight_def conn_after_def)

definition runs_to :: "(js_string \<times> nat) multiset \<Rightarrow> conn \<Rightarrow> 'r outcome \<Rightarrow> bool" where
  "runs_to F c r \<longleftrightarrow> gets_to (left_in_flight r + F) c (conn_after r)"

lemma runs_to_simps [simp]:
  "runs_to F c (as, c', None) = gets_to F c c'"
  "runs_to F c (as, c', Some p) = gets_to (attempts p + F) c c'"
  by (simp_all add: runs_to_def)

lemma runs_to_pair [simp]: "runs_to F c (case X of (as, c1) \<Rightarrow> (f as, c1, None)) = gets_to F c (snd X)"
  by (cases X) simp

lemma runs_to_triple [simp]:
  "runs_to F c (case X of (ok, as, c1) \<Rightarrow> (f ok as, c1, None)) = gets_to F c (snd (snd X))"
  "runs_to F c (case X of (ok, as, c1) \<Rightarrow> if ok then (g as, c1, None) else (h as, c1, None)) = gets_to F c (snd (snd X))"
  by (cases X, simp)+

lemma runs_to_if: "(b \<Longrightarrow> runs_to F c x) \<Longrightarrow> (\<not> b \<Longrightarrow> runs_to F c y) \<Longrightarrow> runs_to F c (if b then x else y)"
  by simp

lemma runs_to_option:
  "(\<And>d. o' = Some d \<Longrightarrow> runs_to F c (f d)) \<Longrightarrow> (o' = None \<Longrightarrow> runs_to F c n) \<Longrightarrow>
    runs_to F c (case o' of Some d \<Rightarrow> f d | None \<Rightarrow> n)"
  by (cases o') simp_all

lemma runs_landing:
  assumes "enrolled c (add_mset (t, k) F)"
  shows "runs_to F c (subscribe_landing s a t ref k cap c)"
proof -
  obtain ok c1 where st: "settle_pending_subscribe t k True c = (ok, c1)" by fastforce
  have 1: "gets_to F c c1" using reaches_settle_pending [OF assms, of True] st by simp
  note e1 = reaches_enrolled [OF 1]
  show ?thesis
    using reaches_settle_pending [OF assms, of False] 1
      reaches_step [OF 1 reaches_install [OF e1, of t]] reaches_step [OF 1 reaches_install_close [OF e1, of t]]
    by (auto simp: subscribe_landing_def st Let_def split: option.split)
qed

lemma runs_subscribe_answered:
  assumes "enrolled c (add_mset (t, k) F)"
  shows "runs_to F c (subscribe_answered s a t ref rec k c)"
  using reaches_refuse [OF assms, of s a] reaches_land_held [OF assms, of s a] runs_landing [OF assms, of s a ref False]
    reaches_settle_pending [OF assms, of False] reaches_refl [OF assms]
  unfolding subscribe_answered_def Let_def by (intro runs_to_option runs_to_if) simp_all

lemma runs_subscribe_resumed:
  assumes "enrolled c (add_mset (t, k) F)"
  shows "runs_to F c (subscribe_resumed s a t ref k c)"
  using reaches_refuse [OF assms, of s a] reaches_land_held [OF assms, of s a] runs_landing [OF assms, of s a ref True]
  unfolding subscribe_resumed_def Let_def by (intro runs_to_if) simp_all

lemma runs_platform_answered:
  assumes "enrolled c (add_mset (t, k) F)"
  shows "runs_to F c (platform_answered s a t k c)"
proof -
  obtain ok c1 where st: "settle_pending_subscribe t k True c = (ok, c1)" by fastforce
  have 1: "gets_to F c c1" using reaches_settle_pending [OF assms, of True] st by simp
  show ?thesis
    using reaches_refuse [OF assms, of s a] reaches_land_held [OF assms, of s a] 1
      reaches_settle_pending [OF assms, of False] reaches_step [OF 1 reaches_install [OF reaches_enrolled [OF 1], of t]]
    by (auto simp: platform_answered_def st case_prod_unfold Let_def split: option.split)
qed

lemma runs_tap_answered:
  assumes "enrolled c (add_mset (t, k) F)"
  shows "runs_to F c (tap_answered s a t k before hook c)"
  using reaches_refuse [OF assms, of s a] reaches_land_held [OF assms, of s a] reaches_settle_pending [OF assms, of False]
  unfolding tap_answered_def Let_def by (intro runs_to_if) simp_all

text \<open>The batch: one entry settles one attempt.\<close>

lemma reaches_entry_pair [simp]: "gets_to F c (fst (snd (case X of (as, c1) \<Rightarrow> (f as, c1, st)))) = gets_to F c (snd X)"
  by (cases X) simp

lemma reaches_entry_triple [simp]:
  "gets_to F c (fst (snd (case X of (ok, as, c1) \<Rightarrow> if ok then (g as, c1, st) else (h as, c1, st')))) = gets_to F c (snd (snd X))"
  by (cases X) simp

lemma reaches_batch_entry:
  assumes "enrolled c (add_mset (t, k) F)"
  shows "gets_to F c (fst (snd (batch_entry s a b h cap (i, t, k, z) c)))"
proof -
  obtain ok c1 where st: "settle_pending_subscribe t k True c = (ok, c1)" by fastforce
  have 1: "gets_to F c c1" using reaches_settle_pending [OF assms, of True] st by simp
  note e1 = reaches_enrolled [OF 1]
  show ?thesis
    unfolding batch_entry_def
    by (simp add: st Let_def reaches_refuse [OF assms] reaches_land_held [OF assms] 1 reaches_settle_pending [OF assms]
        reaches_step [OF 1 reaches_install [OF e1]] reaches_step [OF 1 reaches_install_close [OF e1]]
        split: option.split)
qed

lemma loop_step:
  obtains as c1 stop where "batch_entry s a b h cap item c = (as, c1, stop)"
    "batch_loop s a b h cap (item # items) c =
      (if stop then (as @ discard_if cap, c1, Some (Batch_Stopped items))
       else (as @ fst (batch_loop s a b h cap items c1), snd (batch_loop s a b h cap items c1)))"
  by (cases "batch_entry s a b h cap item c") (simp add: Let_def case_prod_unfold)

lemma loop_attempts: "left_in_flight (batch_loop s a b h cap items c) \<subseteq># item_attempts items"
proof (induction items arbitrary: c)
  case Nil
  then show ?case by simp
next
  case (Cons item items)
  obtain as c1 stop where l: "batch_loop s a b h cap (item # items) c =
      (if stop then (as @ discard_if cap, c1, Some (Batch_Stopped items))
       else (as @ fst (batch_loop s a b h cap items c1), snd (batch_loop s a b h cap items c1)))"
    using loop_step [of s a b h cap item c items] by metis
  have sub: "item_attempts items \<subseteq># item_attempts (item # items)" by (simp add: item_attempts_def)
  show ?case using sub subset_mset.order_trans [OF Cons.IH sub, of c1] unfolding l
    by (simp add: left_in_flight_def)
qed

lemma runs_batch_loop:
  "enrolled c (item_attempts items + F) \<Longrightarrow> runs_to F c (batch_loop s a b h cap items c)"
proof (induction items arbitrary: c)
  case Nil
  then show ?case by (simp add: reaches_refl)
next
  case (Cons item items)
  obtain i t k z where item: "item = (i, t, k, z)" by (cases item) auto
  obtain as c1 stop where en: "batch_entry s a b h cap item c = (as, c1, stop)"
    and l: "batch_loop s a b h cap (item # items) c =
      (if stop then (as @ discard_if cap, c1, Some (Batch_Stopped items))
       else (as @ fst (batch_loop s a b h cap items c1), snd (batch_loop s a b h cap items c1)))"
    by (rule loop_step)
  have "enrolled c (add_mset (t, k) (item_attempts items + F))" using Cons.prems item by simp
  from reaches_batch_entry [OF this] have 1: "gets_to (item_attempts items + F) c c1" using en item by (metis fst_conv snd_conv)
  have 2: "runs_to F c1 (batch_loop s a b h cap items c1)" by (rule Cons.IH [OF reaches_enrolled [OF 1]])
  have "left_in_flight (batch_loop s a b h cap items c1) + F \<subseteq># item_attempts items + F"
    using loop_attempts by simp
  from reaches_trans [OF 1 this] 2 show ?case using 1 unfolding l
    by (simp add: runs_to_def left_in_flight_def conn_after_def)
qed

section \<open>The session's invariant\<close>

definition flight :: "(nat, 'r parked) jsmap \<Rightarrow> (js_string \<times> nat) multiset" where
  "flight m = sum_list (map (\<lambda>p. attempts (snd p)) m)"

lemma flight_Nil [simp]: "flight [] = {#}"
  by (simp add: flight_def)

lemma lane_sum_del:
  fixes f :: "'r parked \<Rightarrow> 'm :: comm_monoid_add"
  shows "jm_wf m \<Longrightarrow> jm_get m n = Some p \<Longrightarrow>
    sum_list (map (\<lambda>q. f (snd q)) m) = f p + sum_list (map (\<lambda>q. f (snd q)) (jm_del n m))"
proof (induction m)
  case (Cons q m)
  obtain i x where q: "q = (i, x)" by (cases q)
  show ?case
  proof (cases "i = n")
    case True
    then have "jm_del n m = m" using jm_del_absent [of n m] Cons.prems(1) q by (simp add: jm_wf_def)
    then show ?thesis using True Cons.prems q by (simp add: jm_del_def jm_get_def)
  next
    case False
    then have "sum_list (map (\<lambda>q. f (snd q)) m) = f p + sum_list (map (\<lambda>q. f (snd q)) (jm_del n m))"
      using Cons q by (intro Cons.IH) (auto simp: jm_wf_def jm_get_def)
    then show ?thesis using False q by (simp add: jm_del_def ac_simps)
  qed
qed simp

lemma lane_sum_set:
  fixes f :: "'r parked \<Rightarrow> 'm :: comm_monoid_add"
  assumes "jm_wf m"
  shows "sum_list (map (\<lambda>q. f (snd q)) (jm_set n p m)) = f p + sum_list (map (\<lambda>q. f (snd q)) (jm_del n m))"
proof -
  have "jm_del n (jm_set n p m) = jm_del n m" by (induction m) (auto simp: jm_del_def)
  then show ?thesis using lane_sum_del [of "jm_set n p m" n p f] assms by simp
qed

lemma flight_del:
  "jm_wf m \<Longrightarrow> jm_get m n = Some p \<Longrightarrow> flight m = attempts p + flight (jm_del n m)"
  unfolding flight_def by (rule lane_sum_del)

lemma flight_set: "jm_wf m \<Longrightarrow> flight (jm_set n q m) = attempts q + flight (jm_del n m)"
  unfolding flight_def by (rule lane_sum_set)

definition session_ok :: "'r session \<Rightarrow> bool" where
  "session_ok w \<longleftrightarrow> enrolled (conn_of w) (flight (lanes w)) \<and> membership_ok (conn_of w) \<and> jm_wf (lanes w) \<and>
    (\<forall>n\<in>set (jm_keys (lanes w)). n < next_lane w)"

lemma session_ok_new: "session_ok (new_session s)"
  by (simp add: session_ok_def new_session_def enrolled_open membership_open)

text \<open>What starting and answering do, in one form.\<close>

lemma runs_none [simp]: "enrolled c F \<Longrightarrow> runs_to F c (as, c, None)"
  by (simp add: reaches_refl)

lemma runs_begin:
  assumes "enrolled c F" and "\<And>k c1. attempts (p k c1) = {#(t, k)#}"
  shows "runs_to F c (let (k, c1) = begin_pending_subscribe t h c in ([], c1, Some (p k c1)))"
  using reaches_begin [OF assms(1)] by (cases "begin_pending_subscribe t h c") (simp add: assms(2))

lemma runs_handle_subscribe: "enrolled c F \<Longrightarrow> runs_to F c (handle_subscribe s t ref rec c)"
  unfolding handle_subscribe_def by (intro runs_to_if runs_none runs_begin) simp_all

lemma runs_platform_subscribe: "enrolled c F \<Longrightarrow> runs_to F c (platform_subscribe s t c)"
  unfolding platform_subscribe_def by (intro runs_to_if runs_none runs_begin) simp_all

lemma runs_authorize_derived: "enrolled c F \<Longrightarrow> runs_to F c (authorize_derived_subscribe s t c)"
  unfolding authorize_derived_subscribe_def by (intro runs_to_if runs_none runs_begin) simp_all

lemma reaches_begin_batch:
  "enrolled c F \<Longrightarrow> begin_batch ts c = (ks, c') \<Longrightarrow> gets_to (mset (zip ts ks) + F) c c' \<and> length ks = length ts"
proof (induction ts arbitrary: c F ks)
  case Nil
  then show ?case by (simp add: reaches_refl)
next
  case (Cons t ts)
  obtain k c1 where b: "begin_pending_subscribe t (held t c) c = (k, c1)" by fastforce
  obtain ks' c2 where r: "begin_batch ts c1 = (ks', c2)" by fastforce
  have e: "ks = k # ks'" "c2 = c'" using Cons.prems(2) b r by simp_all
  have 1: "gets_to (add_mset (t, k) F) c c1" by (rule reaches_begin [OF Cons.prems(1) b])
  have 2: "gets_to (mset (zip ts ks') + add_mset (t, k) F) c1 c2 \<and> length ks' = length ts"
    using Cons.IH [OF reaches_enrolled [OF 1], of ks'] r e(2) by simp
  have "epoch_of c u \<le> epoch_of c' u" if "(u, j) \<in># mset (zip ts ks') + add_mset (t, k) F" for u j
  proof -
    have "epoch_of c u \<le> epoch_of c1 u"
      using b by (cases "u = t"; cases "jm_get (pend c) t") (auto simp: begin_pending_subscribe_def Let_def epoch_of_def)
    also have "epoch_of c1 u \<le> epoch_of c' u" using 2 that e unfolding gets_to_def by blast
    finally show ?thesis .
  qed
  then show ?case using 1 2 e by (auto simp: gets_to_def)
qed

lemma item_attempts_zip:
  assumes "length ks = length ts" and "length ts \<le> length zs"
  shows "item_attempts (zip [0..<length ts] (zip ts (zip ks zs))) = mset (zip ts ks)"
proof -
  have "map (\<lambda>(i, t, k, z). (t, k)) (zip [a..<a + length ts] (zip ts (zip ks zs))) = zip ts ks" for a
    using assms
  proof (induction ts arbitrary: a ks zs)
    case (Cons t ts)
    obtain k ks' z zs' where "ks = k # ks'" "zs = z # zs'" using Cons.prems by (cases ks; cases zs) auto
    then show ?case using Cons.prems Cons.IH [of ks' zs' "Suc a"] by (simp add: upt_conv_Cons del: upt_Suc)
  qed simp
  from this [of 0] show ?thesis by (simp add: item_attempts_def)
qed

lemma runs_handle_subscribe_batch:
  assumes "enrolled c F"
  shows "runs_to F c (handle_subscribe_batch s topics ref recs c)"
proof -
  let ?valid = "filter (\<lambda>t. \<not> batch_entry_denied s t) (take 256 topics)"
  let ?kept = "take (nat (int (max_pend (limits s)) - pend_total c)) ?valid"
  obtain ks c1 where b: "begin_batch ?kept c = (ks, c1)" by fastforce
  have r: "gets_to (mset (zip ?kept ks) + F) c c1" and l: "length ks = length ?kept"
    using reaches_begin_batch [OF assms b] by blast+
  have "length ?kept \<le> length ?valid" by simp
  then show ?thesis using r assms
    by (auto simp: handle_subscribe_batch_def b Let_def item_attempts_zip [OF l] reaches_refl simp del: length_take)
qed

lemma runs_answer_lane:
  assumes "enrolled c (attempts p + F)"
  shows "runs_to F c (answer_lane s a p c)"
  using assms
proof (cases p)
  case (Batch_Gate b)
  then show ?thesis using assms by (simp add: batch_answered_def Let_def reaches_refl runs_batch_loop)
qed (auto simp: runs_subscribe_answered runs_subscribe_resumed runs_batch_loop runs_platform_answered
    runs_tap_answered reaches_refl)

lemma start_lane_facts:
  assumes "session_ok w" and "runs_to (flight (lanes w)) (conn_of w) r" and "start_lane r w = (as, w')"
  shows "session_ok w'" "gets_to (flight (lanes w')) (conn_of w) (conn_of w')"
proof -
  obtain c p where r: "r = (as, c, p)" using assms(3) by (cases r) (simp add: start_lane_def)
  have wf: "jm_wf (lanes w)" and lt: "\<And>n. n \<in> set (jm_keys (lanes w)) \<Longrightarrow> n < next_lane w" and mem: "membership_ok (conn_of w)"
    using assms(1) by (auto simp: session_ok_def)
  have del: "jm_del (next_lane w) (lanes w) = lanes w" using lt by (intro jm_del_absent) blast
  have fl: "flight (lanes w') = left_in_flight r + flight (lanes w)"
    using assms(3) by (cases p) (auto simp: r start_lane_def flight_set wf del left_in_flight_def)
  have re: "gets_to (flight (lanes w')) (conn_of w) c" using assms(2) unfolding fl by (simp add: r runs_to_def)
  have c: "conn_of w' = c" using assms(3) by (cases p) (auto simp: r start_lane_def)
  show "gets_to (flight (lanes w')) (conn_of w) (conn_of w')" using re c by simp
  have k: "jm_wf (lanes w')" "\<forall>n\<in>set (jm_keys (lanes w')). n < next_lane w'"
    using assms(3) wf lt by (cases p; fastforce simp: r start_lane_def)+
  show "session_ok w'" using re c k mem by (simp add: session_ok_def gets_to_def)
qed

lemma continue_lane_facts:
  assumes "session_ok w" and "jm_get (lanes w) n = Some p"
    and "runs_to (flight (jm_del n (lanes w))) (conn_of w) r" and "continue_lane n r w = (as, w')"
  shows "session_ok w'" "gets_to (flight (lanes w')) (conn_of w) (conn_of w')"
proof -
  obtain c q where r: "r = (as, c, q)" using assms(4) by (cases r) (simp add: continue_lane_def)
  have wf: "jm_wf (lanes w)" and lt: "\<And>n. n \<in> set (jm_keys (lanes w)) \<Longrightarrow> n < next_lane w" and mem: "membership_ok (conn_of w)"
    using assms(1) by (auto simp: session_ok_def)
  have n: "n \<in> set (jm_keys (lanes w))" using assms(2) by (metis jm_get_None option.distinct(1))
  have fl: "flight (lanes w') = left_in_flight r + flight (jm_del n (lanes w))"
    using assms(4) by (cases q) (auto simp: r continue_lane_def flight_set wf left_in_flight_def)
  have re: "gets_to (flight (lanes w')) (conn_of w) c" using assms(3) unfolding fl by (simp add: r runs_to_def)
  have c: "conn_of w' = c" using assms(4) by (auto simp: r continue_lane_def)
  show "gets_to (flight (lanes w')) (conn_of w) (conn_of w')" using re c by simp
  have k: "jm_wf (lanes w')" "\<forall>m\<in>set (jm_keys (lanes w')). m < next_lane w'"
    using assms(4) wf lt n by (cases q; auto simp: r continue_lane_def)+
  show "session_ok w'" using re c k mem by (simp add: session_ok_def gets_to_def)
qed

lemma session_facts:
  assumes ok: "session_ok w" and st: "subscribe_step w e = (as, w')"
  shows "session_ok w' \<and> gets_to (flight (lanes w')) (conn_of w) (conn_of w')"
proof -
  have en: "enrolled (conn_of w) (flight (lanes w))" and mem: "membership_ok (conn_of w)" and wf: "jm_wf (lanes w)"
    using ok by (auto simp: session_ok_def)
  note start = conjI [OF start_lane_facts [OF ok]]
  show ?thesis
  proof (cases e)
    case (Subscribe_Frame t ref rec)
    then show ?thesis using st start_lane_facts [OF ok runs_handle_subscribe [OF en]] by simp
  next
    case (Subscribe_Batch_Frame ts ref recs)
    then show ?thesis using st start_lane_facts [OF ok runs_handle_subscribe_batch [OF en]] by simp
  next
    case (Platform_Subscribe t)
    then show ?thesis using st start_lane_facts [OF ok runs_platform_subscribe [OF en]] by simp
  next
    case (Tap_Requested t)
    then show ?thesis using st start_lane_facts [OF ok runs_authorize_derived [OF en]] by simp
  next
    case (Answered n a)
    show ?thesis
    proof (cases "jm_get (lanes w) n")
      case None
      then show ?thesis using st Answered ok en by (auto simp: reaches_refl)
    next
      case (Some p)
      have "enrolled (conn_of w) (attempts p + flight (jm_del n (lanes w)))" using en flight_del [OF wf Some] by simp
      from continue_lane_facts [OF ok Some runs_answer_lane [OF this]] show ?thesis using st Answered Some by auto
    qed
  next
    case (Application x)
    have "gets_to (flight (lanes w)) (conn_of w) (conn_op_step (limits (server_of w)) (derived (server_of w)) (conn_of w) x)"
      by (rule reaches_conn_op [OF en])
    moreover from this have "session_ok w'" using st Application ok by (auto simp: session_ok_def gets_to_def)
    ultimately show ?thesis using st Application by auto
  qed (use st ok en in \<open>auto simp: session_ok_def reaches_refl\<close>)
qed

interpretation sessions: machine "new_session s" session_next session_ok
proof
  show "session_ok (new_session s)" by (rule session_ok_new)
  show "session_ok (session_next w e)" if "session_ok w" for w e
    using session_facts [OF that, of e "fst (subscribe_step w e)" "snd (subscribe_step w e)"] by (simp add: session_next_def)
qed

section \<open>What installs a membership\<close>

lemma unwind_if_acts: "x \<in> set (fst (unwind_if v s a t c)) \<Longrightarrow> x = Unsubscribe_Hook t"
  by (simp add: unwind_if_def split: if_splits)

lemma refuse_acts: "x \<in> set (fst (refuse s a t k c)) \<Longrightarrow> x = Unsubscribe_Hook t"
  by (auto simp: refuse_def case_prod_unfold Let_def dest: unwind_if_acts)

lemma land_held_acts: "x \<in> set (fst (snd (land_held s a t k c))) \<Longrightarrow> x = Unsubscribe_Hook t"
  by (auto simp: land_held_def case_prod_unfold Let_def dest: unwind_if_acts)

lemma send_acts:
  "x \<in> set (send_subscribed t ref) \<Longrightarrow> \<exists>r. x = Ack t r \<and> ref = Some r"
  "x \<in> set (send_denied t ref d) \<Longrightarrow> \<exists>r. x = Deny t r d \<and> ref = Some r"
  "x \<in> set (discard_if cap) \<Longrightarrow> x = Capture_Discarded \<and> cap"
  by (auto simp: send_subscribed_def send_denied_def discard_if_def split: option.splits if_splits)

lemma native_not_in [simp]:
  "Native_Subscribe u \<notin> set (fst (refuse s a t k c))" "Native_Subscribe u \<notin> set (fst (snd (land_held s a t k c)))"
  "Native_Subscribe u \<notin> set (send_subscribed t ref)" "Native_Subscribe u \<notin> set (send_denied t ref d)"
  "Native_Subscribe u \<notin> set (discard_if cap)"
  by (auto dest: refuse_acts land_held_acts send_acts)

lemma settle_fresh:
  "enrolled c (add_mset (t, k) F) \<Longrightarrow> fst (settle_pending_subscribe t k g c) \<longleftrightarrow> epoch_of c t = k"
  by (rule enrolled_entry [of c "add_mset (t, k) F" t k])
    (auto simp: settle_pending_subscribe_def epoch_of_def Let_def)

lemma fst_case_pair [simp]: "fst (case X of (as, c1) \<Rightarrow> (f as, g c1, h)) = f (fst X)"
  by (cases X) simp

lemma landing_native:
  assumes "enrolled c (add_mset (t, k) F)" and "Native_Subscribe u \<in> set (fst (subscribe_landing s a t ref k cap c))"
  shows "u = t \<and> epoch_of c t = k \<and>
    \<not> denies_wire_subscribe_landing (owned s) (armed s) (app_decides s) (held t c) t"
proof -
  obtain ok c1 where st: "settle_pending_subscribe t k True c = (ok, c1)" by fastforce
  show ?thesis using assms(2) settle_fresh [OF assms(1), of True]
    by (auto simp: subscribe_landing_def st Let_def split: if_splits option.splits)
qed

lemma answered_native:
  assumes "enrolled c (add_mset (t, k) F)" and "Native_Subscribe u \<in> set (fst (subscribe_answered s a t ref rec k c))"
  shows "Native_Subscribe u \<in> set (fst (subscribe_landing s a t ref k False c))"
  using assms(2)
  by (auto simp: subscribe_answered_def case_prod_unfold Let_def split: if_splits option.splits)

lemma resumed_native:
  assumes "Native_Subscribe u \<in> set (fst (subscribe_resumed s a t ref k c))"
  shows "Native_Subscribe u \<in> set (fst (subscribe_landing s a t ref k True c))"
  using assms by (auto simp: subscribe_resumed_def case_prod_unfold Let_def split: if_splits)

lemma platform_native:
  assumes "enrolled c (add_mset (t, k) F)" and "Native_Subscribe u \<in> set (fst (platform_answered s a t k c))"
  shows "u = t \<and> epoch_of c t = k"
proof -
  obtain ok c1 where st: "settle_pending_subscribe t k True c = (ok, c1)" by fastforce
  show ?thesis using assms(2) settle_fresh [OF assms(1), of True]
    by (auto simp: platform_answered_def st Let_def case_prod_unfold split: if_splits option.splits)
qed

lemma tap_native: "Native_Subscribe u \<notin> set (fst (tap_answered s a t k before hook c))"
  by (auto simp: tap_answered_def case_prod_unfold Let_def split: if_splits)

lemma entry_native:
  assumes "enrolled c (add_mset (t, k) F)" and "Native_Subscribe u \<in> set (fst (batch_entry s a b h cap (i, t, k, z) c))"
  shows "u = t \<and> epoch_of c t = k \<and> \<not> held t c \<and>
    \<not> denies_wire_subscribe_landing (owned s) (armed s) (batch_app_decides s b) False t"
proof -
  obtain ok c1 where st: "settle_pending_subscribe t k True c = (ok, c1)" by fastforce
  show ?thesis using assms(2) settle_fresh [OF assms(1), of True]
    by (auto simp: batch_entry_def st Let_def case_prod_unfold landing_denies_held_def split: if_splits option.splits)
qed

lemma loop_native:
  "enrolled c (item_attempts items + F) \<Longrightarrow> Native_Subscribe u \<in> set (fst (batch_loop s a b h cap items c)) \<Longrightarrow>
    (u, epoch_of c u) \<in># item_attempts items \<and>
    \<not> denies_wire_subscribe_landing (owned s) (armed s) (batch_app_decides s b) False u"
proof (induction items arbitrary: c)
  case Nil
  then show ?case by simp
next
  case (Cons item items)
  obtain i t k z where item: "item = (i, t, k, z)" by (cases item) auto
  have e: "enrolled c (add_mset (t, k) (item_attempts items + F))" using Cons.prems(1) item by simp
  obtain as c1 stop where en: "batch_entry s a b h cap item c = (as, c1, stop)"
    and l: "batch_loop s a b h cap (item # items) c =
      (if stop then (as @ discard_if cap, c1, Some (Batch_Stopped items))
       else (as @ fst (batch_loop s a b h cap items c1), snd (batch_loop s a b h cap items c1)))"
    by (rule loop_step)
  have 1: "gets_to (item_attempts items + F) c c1"
    using reaches_batch_entry [OF e, of s a b h cap i z] en item by simp
  from Cons.prems(2) consider "Native_Subscribe u \<in> set as"
    | "\<not> stop" "Native_Subscribe u \<in> set (fst (batch_loop s a b h cap items c1))"
    unfolding l by (auto split: if_splits)
  then show ?case
  proof cases
    case 1
    then show ?thesis using entry_native [OF e, of u s a b h cap i z] en item by auto
  next
    case 2
    then have in_rest: "(u, epoch_of c1 u) \<in># item_attempts items"
      and nd: "\<not> denies_wire_subscribe_landing (owned s) (armed s) (batch_app_decides s b) False u"
      using Cons.IH [OF reaches_enrolled [OF 1]] by blast+
    have "epoch_of c u \<le> epoch_of c1 u" using 1 in_rest unfolding gets_to_def by auto
    moreover have "epoch_of c1 u \<le> epoch_of c u"
    proof -
      have m: "(u, epoch_of c1 u) \<in># add_mset (t, k) (item_attempts items + F)" using in_rest by simp
      obtain e' where "jm_get (pend c) u = Some e'" "epoch_of c1 u \<le> epoch e'" by (rule enrolled_entry [OF e m])
      then show ?thesis by (simp add: epoch_of_def)
    qed
    ultimately show ?thesis using in_rest nd item by simp
  qed
qed

lemma lane_native:
  assumes "enrolled c (attempts p + F)" and "Native_Subscribe u \<in> set (fst (answer_lane s a p c))"
  shows "(u, epoch_of c u) \<in># attempts p"
proof (cases p)
  case (Wire_Gate t ref rec k)
  then have e: "enrolled c (add_mset (t, k) F)" using assms(1) by simp
  have "Native_Subscribe u \<in> set (fst (subscribe_landing s a t ref k False c))"
    using assms(2) Wire_Gate by (intro answered_native [OF e]) simp
  from landing_native [OF e this] show ?thesis using Wire_Gate by simp
next
  case (Wire_Resume t ref k)
  then have e: "enrolled c (add_mset (t, k) F)" using assms(1) by simp
  have "Native_Subscribe u \<in> set (fst (subscribe_landing s a t ref k True c))"
    using assms(2) Wire_Resume by (intro resumed_native) simp
  from landing_native [OF e this] show ?thesis using Wire_Resume by simp
next
  case (Batch_Gate b)
  have "Native_Subscribe u \<in> set (fst (batch_loop s a b (hook_says a) False (b_items b) c))"
    using assms(2) Batch_Gate by (auto simp: batch_answered_def Let_def split: if_splits)
  then show ?thesis using loop_native assms(1) Batch_Gate by fastforce
next
  case (Batch_Resume b h)
  then show ?thesis using loop_native assms by fastforce
next
  case (Platform_Gate t k)
  then show ?thesis using platform_native [of c t k F u s a] assms by auto
qed (use assms(2) in \<open>auto simp: tap_native\<close>)

section \<open>Lanes across steps\<close>

lemma start_lane_lanes:
  assumes "jm_get (lanes (snd (start_lane r w))) n = Some p" and "n < next_lane w"
  shows "jm_get (lanes w) n = Some p" "next_lane w \<le> next_lane (snd (start_lane r w))"
  using assms by (auto simp: start_lane_def split: prod.splits option.splits if_splits)

lemma answer_lane_attempts:
  assumes "snd (snd (answer_lane s a p c)) = Some q"
  shows "attempts q \<subseteq># attempts p"
proof -
  have "left_in_flight (answer_lane s a p c) \<subseteq># attempts p"
  proof (cases p)
    case (Wire_Gate t ref rec k)
    then show ?thesis
      by (auto simp: subscribe_answered_def subscribe_landing_def left_in_flight_def case_prod_unfold Let_def split: option.split)
  next
    case (Wire_Resume t ref k)
    then show ?thesis
      by (auto simp: subscribe_resumed_def subscribe_landing_def left_in_flight_def case_prod_unfold Let_def split: option.split)
  next
    case (Batch_Gate b)
    then show ?thesis by (simp add: batch_answered_def Let_def loop_attempts)
  next
    case (Batch_Resume b h)
    then show ?thesis by (simp add: loop_attempts)
  next
    case (Platform_Gate t k)
    then show ?thesis
      by (auto simp: platform_answered_def left_in_flight_def case_prod_unfold Let_def split: option.split)
  next
    case (Tap_Gate t k before hook)
    then show ?thesis by (auto simp: tap_answered_def left_in_flight_def case_prod_unfold Let_def)
  qed simp
  then show ?thesis using assms by (simp add: left_in_flight_def)
qed

lemma lane_step:
  assumes "jm_wf (lanes w)" and "n < next_lane w" and "jm_get (lanes (session_next w e)) n = Some q"
  shows "\<exists>p. jm_get (lanes w) n = Some p \<and> attempts q \<subseteq># attempts p"
proof (cases e)
  case (Answered m a)
  show ?thesis
  proof (cases "jm_get (lanes w) m")
    case None
    then show ?thesis using assms(3) Answered by (auto simp: session_next_def)
  next
    case (Some p)
    obtain as c q' where r: "answer_lane (server_of w) a p (conn_of w) = (as, c, q')" by (rule prod_cases3)
    show ?thesis
    proof (cases "m = n")
      case True
      then have "q' = Some q" using assms(3) Answered Some r
        by (cases q') (auto simp: session_next_def continue_lane_def)
      then show ?thesis using answer_lane_attempts [of "server_of w" a p "conn_of w" q] r Some True by simp
    next
      case False
      then have "jm_get (lanes w) n = Some q" using assms(3) Answered Some r
        by (cases q') (auto simp: session_next_def continue_lane_def)
      then show ?thesis by simp
    qed
  qed
qed (use assms in \<open>auto simp: session_next_def dest: start_lane_lanes\<close>)

lemma next_lane_mono: "next_lane w \<le> next_lane (session_next w e)"
  by (cases e) (auto simp: session_next_def start_lane_def continue_lane_def split: prod.splits option.splits)

lemma lane_run:
  assumes "session_ok w" and "n < next_lane w" and "jm_get (lanes (foldl session_next w es)) n = Some q"
  shows "\<exists>p. jm_get (lanes w) n = Some p \<and> attempts q \<subseteq># attempts p"
  using assms
proof (induction es arbitrary: w)
  case Nil
  then show ?case by auto
next
  case (Cons e es)
  have ok: "session_ok (session_next w e)" by (rule sessions.step_inv [OF Cons.prems(1)])
  have "n < next_lane (session_next w e)" using Cons.prems(2) next_lane_mono [of w e] by linarith
  from Cons.IH [OF ok this] Cons.prems(3) obtain p1 where "jm_get (lanes (session_next w e)) n = Some p1" "attempts q \<subseteq># attempts p1"
    by auto
  moreover have "jm_wf (lanes w)" using Cons.prems(1) by (simp add: session_ok_def)
  ultimately show ?case using lane_step [OF _ Cons.prems(2)] subset_mset.order_trans by blast
qed

text \<open>While an attempt is in flight its epoch only rises.\<close>

lemma epoch_run:
  assumes "session_ok w" and "n < next_lane w" and "jm_get (lanes (foldl session_next w es)) n = Some q" and "(t, k) \<in># attempts q"
  shows "epoch_of (conn_of w) t \<le> epoch_of (conn_of (foldl session_next w es)) t"
  using assms
proof (induction es arbitrary: w)
  case Nil
  then show ?case by simp
next
  case (Cons e es)
  let ?w1 = "session_next w e"
  have st: "subscribe_step w e = (fst (subscribe_step w e), ?w1)" by (simp add: session_next_def)
  have ok: "session_ok ?w1" and re: "gets_to (flight (lanes ?w1)) (conn_of w) (conn_of ?w1)"
    using session_facts [OF Cons.prems(1) st] by blast+
  have n: "n < next_lane ?w1" using Cons.prems(2) next_lane_mono [of w e] by linarith
  obtain p1 where p1: "jm_get (lanes ?w1) n = Some p1" "attempts q \<subseteq># attempts p1"
    using lane_run [OF ok n, of es q] Cons.prems(3) by auto
  have "(t, k) \<in># flight (lanes ?w1)"
    using flight_del [of "lanes ?w1" n p1] ok p1 Cons.prems(4) by (auto simp: session_ok_def dest: mset_subset_eqD)
  then have "epoch_of (conn_of w) t \<le> epoch_of (conn_of ?w1) t" using re unfolding gets_to_def by blast
  also have "\<dots> \<le> epoch_of (conn_of (foldl session_next ?w1 es)) t"
    by (rule Cons.IH [OF ok n]) (use Cons.prems in auto)
  finally show ?case by simp
qed

end
