(* ===== verification/Revocation.thy ===== *)
theory Revocation
  imports Subscribe_Session
begin

text \<open>
  What the subscribe lanes promise, over every interleaving of frames, hook answers, application
  calls and revocations: a revocation is final for the attempts it met, a topic nobody re-authorises
  stays out, the gate is not bypassed, the budgets hold, and every frame is answered.
\<close>

section \<open>A revoked attempt installs nothing\<close>

text \<open>The attempt is older than the topic's last revocation.\<close>

definition stale :: "conn \<Rightarrow> js_string \<Rightarrow> nat \<Rightarrow> bool" where
  "stale c t k \<longleftrightarrow> k < epoch_of c t"

definition revokes :: "js_string \<Rightarrow> conn_op \<Rightarrow> bool" where
  "revokes t x \<longleftrightarrow> x = Platform_Unsubscribe t \<or> x = Client_Unsubscribe t \<or> x = Tracked_Unsubscribe t"

text \<open>Handing history to the resume hook for \<open>t\<close>.\<close>

definition serves_history :: "js_string \<Rightarrow> 'r act list \<Rightarrow> bool" where
  "serves_history t as \<longleftrightarrow> list_ex (\<lambda>x. case x of Resume_Called l \<Rightarrow> t \<in> fst ` set l | _ \<Rightarrow> False) as"

definition live_authority :: "js_string \<Rightarrow> conn \<Rightarrow> bool" where
  "live_authority t c \<longleftrightarrow> held t c \<and> (case jm_get (pend c) t of None \<Rightarrow> False | Some e \<Rightarrow> granted e)"

lemma epoch_tombstone:
  assumes "enrolled c E" and "(t, k) \<in># E"
  shows "k < epoch_of (snd (tombstone_pending_subscribe t c)) t"
proof -
  obtain e where e: "jm_get (pend c) t = Some e" "k \<le> epoch e" by (rule enrolled_entry [OF assms])
  have "1 \<le> inflight e" by (rule enrolled_Some(4) [OF assms(1) e(1)])
  then show ?thesis using e by (simp add: tombstone_pending_subscribe_def epoch_of_def)
qed

lemma revokes_tombstones:
  assumes "revokes t x"
  shows "pend_revoked (snd (tombstone_pending_subscribe t c)) (conn_op_step k d c x)"
  using assms unfolding revokes_def
proof (elim disjE)
  assume x: "x = Tracked_Unsubscribe t"
  show ?thesis unfolding x conn_op_step.simps tracked_unsubscribe_def Let_def
    by (rule pend_revoked_trans [OF revoked_native_either pend_revoked_trans [OF revoked_logical(1) revoked_drop_grant]])
next
  assume x: "x = Client_Unsubscribe t"
  show ?thesis unfolding x conn_op_step.simps client_unsubscribe_def Let_def
    by (rule pend_revoked_trans [OF revoked_logical(1) pend_revoked_trans [OF revoked_native_either
          pend_revoked_trans [OF revoked_drop_grant revoked_derived]]])
next
  assume x: "x = Platform_Unsubscribe t"
  let ?c2 = "release_derived_subscriptions d t (drop_publish_grant t (snd (tombstone_pending_subscribe t c)))"
  have 1: "pend_revoked (snd (tombstone_pending_subscribe t c)) ?c2"
    by (rule pend_revoked_trans [OF revoked_drop_grant revoked_derived])
  have "pend_revoked ?c2 (snd (platform_unsubscribe d t c))"
    by (cases "native_unsubscribe t ?c2")
      (simp_all add: platform_unsubscribe_def case_prod_unfold Let_def pend_revoked_trans [OF revoked_native_unsub revoked_logical(1)])
  from pend_revoked_trans [OF 1 this] show ?thesis by (simp add: x)
qed

lemma epoch_revokes:
  assumes "enrolled c E" and "(t, k) \<in># E" and "revokes t x"
  shows "stale (conn_op_step l d c x) t k"
  using epoch_revoked [OF revokes_tombstones [OF assms(3)], of c t l d] epoch_tombstone [OF assms(1,2)]
  unfolding stale_def by linarith

lemma serves_history_Nil [simp]: "\<not> serves_history t []"
  by (simp add: serves_history_def)

lemma serves_history_append [simp]: "serves_history t (as @ bs) \<longleftrightarrow> serves_history t as \<or> serves_history t bs"
  by (auto simp: serves_history_def)

lemma serves_history_Cons [simp]:
  "serves_history t (x # as) \<longleftrightarrow> (case x of Resume_Called l \<Rightarrow> t \<in> fst ` set l | _ \<Rightarrow> False) \<or> serves_history t as"
  by (simp add: serves_history_def)

lemma no_history [simp]:
  "\<not> serves_history u (fst (refuse s a t k c))" "\<not> serves_history u (fst (snd (land_held s a t k c)))"
  "\<not> serves_history u (send_subscribed t ref)" "\<not> serves_history u (send_denied t ref d)" "\<not> serves_history u (discard_if cap)"
  by (auto simp: refuse_def land_held_def unwind_if_def case_prod_unfold Let_def send_subscribed_def send_denied_def
      discard_if_def split: option.split)

lemma no_history_landing [simp]: "\<not> serves_history u (fst (subscribe_landing s a t ref k cap c))"
  by (auto simp: subscribe_landing_def case_prod_unfold Let_def split: option.split)

lemma no_history_entry [simp]: "\<not> serves_history u (fst (batch_entry s a b h cap item c))"
  by (auto simp: batch_entry_def case_prod_unfold Let_def split: option.split)

lemma no_history_loop [simp]: "\<not> serves_history u (fst (batch_loop s a b h cap items c))"
  by (induction items arbitrary: c) (simp_all add: case_prod_unfold Let_def)

lemma cancelled_authority:
  assumes "enrolled c E" and "(t, k) \<in># E" and "stale c t k" and "held t c" and "held_landing_would_ack c t k"
  shows "live_authority t c"
  using assms enrolled_entry [OF assms(1,2)]
  by (auto simp: live_authority_def held_landing_would_ack_def stale_def epoch_of_def split: option.splits)

lemma stale_cancelled:
  "enrolled c E \<Longrightarrow> (t, k) \<in># E \<Longrightarrow> stale c t k \<Longrightarrow> is_pending_subscribe_cancelled c t k"
  by (rule enrolled_entry [of c E t k]) (auto simp: is_pending_subscribe_cancelled_def stale_def epoch_of_def)

lemma recover_seqs_keys:
  assumes "t \<in> fst ` set (recover_seqs s b h c)"
  shows "\<exists>i k z. (i, t, k, z) \<in> set (b_items b) \<and> \<not> batch_recover_denied s b h c (i, t, k, z)"
proof -
  let ?f = "\<lambda>recs m item. case item of (i, t, k, z) \<Rightarrow>
         if batch_recover_denied s b h c item \<or> \<not> wants_recover (resume_hook s) (jm_get recs t) then m
         else jm_set t (the (offset (the (jm_get recs t)))) m"
  have gen: "t \<in> set (jm_keys (foldl (?f recs) m items)) \<Longrightarrow> t \<in> set (jm_keys m) \<or>
    (\<exists>i k z. (i, t, k, z) \<in> set items \<and> \<not> batch_recover_denied s b h c (i, t, k, z))" for recs m items
  proof (induction items arbitrary: m)
    case (Cons item items)
    obtain i u k z where item: "item = (i, u, k, z)" by (cases item) auto
    show ?case
    proof (cases "batch_recover_denied s b h c item \<or> \<not> wants_recover (resume_hook s) (jm_get recs u)")
      case True
      then have "t \<in> set (jm_keys (foldl (?f recs) m items))" using Cons.prems by (simp add: item)
      from Cons.IH [OF this] show ?thesis by auto
    next
      case False
      then have "t \<in> set (jm_keys (foldl (?f recs) (jm_set u (the (offset (the (jm_get recs u)))) m) items))"
        using Cons.prems by (simp add: item)
      from Cons.IH [OF this] show ?thesis using False item by auto
    qed
  qed simp
  obtain recs where "b_recover b = Some recs" using assms by (cases "b_recover b") (auto simp: recover_seqs_def)
  then have "t \<in> set (jm_keys (foldl (?f recs) [] (b_items b)))"
    using assms by (simp only: recover_seqs_def option.case set_jm_keys)
  from gen [OF this] show ?thesis by simp
qed

lemma answered_history:
  assumes "serves_history u (fst (subscribe_answered s a t ref rec k c))"
  shows "u = t \<and> \<not> recover_is_revoked (owned s) (held t c \<and> held_landing_would_ack c t k) (wire_authz s)
    (is_pending_subscribe_cancelled c t k) t"
  using assms by (auto simp: subscribe_answered_def case_prod_unfold Let_def split: if_splits option.splits)

lemma lane_history:
  assumes "enrolled c (attempts p + F)" and "\<And>k. (t, k) \<in># attempts p \<Longrightarrow> stale c t k"
    and "serves_history t (fst (answer_lane s a p c))"
  shows "live_authority t c"
proof (cases p)
  case (Wire_Gate u ref rec k)
  have u: "u = t" and nr: "\<not> recover_is_revoked (owned s) (held t c \<and> held_landing_would_ack c t k) (wire_authz s)
    (is_pending_subscribe_cancelled c t k) t" using answered_history [of t s a u ref rec k c] assms(3) Wire_Gate by auto
  have m: "(t, k) \<in># attempts p + F" and st: "stale c t k" using assms(2) Wire_Gate u by auto
  have "held t c \<and> held_landing_would_ack c t k"
    using nr stale_cancelled [OF assms(1) m st] by (simp add: recover_is_revoked_def)
  then show ?thesis using cancelled_authority [OF assms(1) m st] by blast
next
  case (Batch_Gate b)
  then have "t \<in> fst ` set (recover_seqs s b (hook_says a) c)"
    using assms(3) by (auto simp: batch_answered_def Let_def split: if_splits)
  then obtain i k z where it: "(i, t, k, z) \<in> set (b_items b)" and nd: "\<not> batch_recover_denied s b (hook_says a) c (i, t, k, z)"
    using recover_seqs_keys by blast
  have "(t, k) \<in># attempts p" using it Batch_Gate by (force simp: item_attempts_def)
  then have m: "(t, k) \<in># attempts p + F" and st: "stale c t k" using assms(2) by auto
  have "held t c \<and> held_landing_would_ack c t k"
    using nd stale_cancelled [OF assms(1) m st] by (simp add: batch_recover_denied_def recover_is_revoked_def)
  then show ?thesis using cancelled_authority [OF assms(1) m st] by blast
qed (use assms(3) in \<open>auto simp: subscribe_resumed_def platform_answered_def tap_answered_def case_prod_unfold Let_def
    split: if_splits option.splits\<close>)

lemma stale_after_run:
  assumes "session_ok w" and "n < next_lane w" and "revokes t x"
    and "jm_get (lanes (foldl session_next (session_next w (Application x)) es)) n = Some q" and "(t, k) \<in># attempts q"
  shows "stale (conn_of (foldl session_next (session_next w (Application x)) es)) t k"
proof -
  let ?w1 = "session_next w (Application x)"
  have w1: "lanes ?w1 = lanes w" "next_lane ?w1 = next_lane w"
    "conn_of ?w1 = conn_op_step (limits (server_of w)) (derived (server_of w)) (conn_of w) x"
    by (simp_all add: session_next_def)
  have ok: "session_ok ?w1" by (rule sessions.step_inv [OF assms(1)])
  obtain p where p: "jm_get (lanes w) n = Some p" "attempts q \<subseteq># attempts p"
    using lane_run [OF ok _ assms(4)] assms(2) w1 by auto
  have "(t, k) \<in># flight (lanes w)"
    using flight_del [of "lanes w" n p] assms(1,5) p by (auto simp: session_ok_def dest: mset_subset_eqD)
  moreover have "enrolled (conn_of w) (flight (lanes w))" using assms(1) by (simp add: session_ok_def)
  ultimately have "stale (conn_of ?w1) t k" unfolding w1(3) by (intro epoch_revokes [OF _ _ assms(3)])
  moreover have "epoch_of (conn_of ?w1) t \<le> epoch_of (conn_of (foldl session_next ?w1 es)) t"
    by (rule epoch_run [OF ok _ assms(4,5)]) (use assms(2) w1 in simp)
  ultimately show ?thesis by (simp add: stale_def)
qed

text \<open>C2: Revoking a topic is final for every subscribe that was in flight: whatever happens in between,
  when the parked attempt's hook answers, or its resume hook, or a batch gets_to it, it does not
  subscribe the socket, and it is handed the topic's history only if the topic is held by an authority
  granted after the revocation.\<close>

theorem revoked_attempt_never_installs:
  assumes "w = foldl session_next (new_session s) es" and "n < next_lane w" and "revokes t x"
    and "w' = foldl session_next (session_next w (Application x)) es'"
  shows "Native_Subscribe t \<notin> set (fst (subscribe_step w' (Answered n a))) \<and>
    (serves_history t (fst (subscribe_step w' (Answered n a))) \<longrightarrow> live_authority t (conn_of w'))"
proof (cases "jm_get (lanes w') n")
  case None
  then show ?thesis by simp
next
  case (Some q)
  have ok: "session_ok w" unfolding assms(1) by (rule sessions.run_inv)
  have ok': "session_ok w'" unfolding assms(4) by (intro sessions.run_from_inv sessions.step_inv ok)
  have st: "stale (conn_of w') t k" if "(t, k) \<in># attempts q" for k
    using stale_after_run [OF ok assms(2,3), of es' q k] Some that by (simp add: assms(4))
  have en: "enrolled (conn_of w') (attempts q + flight (jm_del n (lanes w')))"
    using ok' flight_del [of "lanes w'" n q] Some by (simp add: session_ok_def)
  have acts: "fst (subscribe_step w' (Answered n a)) = fst (answer_lane (server_of w') a q (conn_of w'))"
    using Some by (simp add: continue_lane_def split: prod.split)
  have "Native_Subscribe t \<notin> set (fst (answer_lane (server_of w') a q (conn_of w')))"
    using lane_native [OF en] st by (auto simp: stale_def)
  then show ?thesis unfolding acts using lane_history [OF en st] by blast
qed

section \<open>A revoked topic stays out until somebody authorises it\<close>

text \<open>Nothing confirmed the topic since its revocation: whatever membership there is was installed by a
  hook while an attempt was in flight, and no attempt has been granted.\<close>

definition unconfirmed :: "js_string \<Rightarrow> conn \<Rightarrow> bool" where
  "unconfirmed t c \<longleftrightarrow> (held t c \<longrightarrow> jm_get (pend c) t \<noteq> None) \<and>
    (case jm_get (pend c) t of None \<Rightarrow> True | Some e \<Rightarrow> \<not> granted e)"

definition quiet_ops :: "js_string \<Rightarrow> answer \<Rightarrow> bool" where
  "quiet_ops t a \<longleftrightarrow> (\<forall>u. Tracked_Subscribe t \<notin> set (unsubscribe_ops a u))"

lemma unconfirmed_revoked:
  assumes "unconfirmed t c" and "pend_revoked c c'" and "held t c' \<Longrightarrow> held t c \<or> jm_get (pend c) t \<noteq> None"
  shows "unconfirmed t c'"
  using assms(1,3) pend_revoked_at [OF assms(2), of t]
  by (cases "jm_get (pend c) t"; cases "jm_get (pend c') t") (auto simp: unconfirmed_def entry_revoked_def)

lemma held_simps [simp]:
  "held t (add_logical_subscription u c) \<longleftrightarrow> t = u \<or> held t c"
  "held t (remove_logical_subscription u c) \<longleftrightarrow> t \<noteq> u \<and> held t c"
  "held t (drop_publish_grant u c) \<longleftrightarrow> held t c"
  "held t (snd (tombstone_pending_subscribe u c)) \<longleftrightarrow> held t c"
  "held t (c\<lparr>pend := p\<rparr>) \<longleftrightarrow> held t c" "held t (c\<lparr>pend_total := n\<rparr>) \<longleftrightarrow> held t c"
  "held t (c\<lparr>gone := g\<rparr>) \<longleftrightarrow> held t c" "held t (c\<lparr>publish_grant := pg\<rparr>) \<longleftrightarrow> held t c"
  "held t (c\<lparr>native := nt\<rparr>) \<longleftrightarrow> held t c"
  by (auto simp: held_def)

lemma held_native:
  "native_subscribe u c = Some c' \<Longrightarrow> held t c' \<longleftrightarrow> held t c"
  "native_unsubscribe u c = Some c' \<Longrightarrow> held t c' \<longleftrightarrow> held t c"
  by (auto simp: held_def native_subscribe_def native_unsubscribe_def split: if_splits)

lemma held_tracked_unsubscribe [simp]: "held t (tracked_unsubscribe u c) \<longleftrightarrow> t \<noteq> u \<and> held t c"
  by (auto simp: tracked_unsubscribe_def Let_def held_native split: option.split)

lemma foldl_back:
  assumes "\<And>c x. P (f c x) \<Longrightarrow> P c"
  shows "P (foldl f c xs) \<Longrightarrow> P c"
proof (induction xs arbitrary: c)
  case (Cons x xs)
  then have "P (f c x)" by simp
  then show ?case by (rule assms)
qed simp

lemma held_derived: "held t (release_derived_subscriptions d u c) \<Longrightarrow> held t c"
  unfolding release_derived_subscriptions_def by (erule foldl_back [rotated]) (simp split: if_splits)

lemma held_close_attempt [simp]: "held t (close_attempt u e c) \<longleftrightarrow> held t c"
  by (simp add: close_attempt_def Let_def)

lemma held_release_membership: "held t (release_membership u c) \<Longrightarrow> held t c"
proof -
  assume h: "held t (release_membership u c)"
  let ?c1 = "case jm_get (pend c) u of None \<Rightarrow> c | Some e \<Rightarrow> c\<lparr>pend := jm_set u (e\<lparr>granted := False\<rparr>) (pend c)\<rparr>"
  have "held t ?c1" using h held_native(2) [of u ?c1 _ t]
    by (cases "native_unsubscribe u ?c1") (auto simp: release_membership_def Let_def)
  then show ?thesis by (auto split: option.splits)
qed

lemma held_release_subscription: "held t (release_subscription d u c) \<Longrightarrow> held t c"
proof -
  have "held t (foldl (\<lambda>c p. if prefix_of u p then c else release_membership (p @ u) c) c d) \<Longrightarrow> held t c" for c
    by (erule foldl_back [rotated]) (auto dest: held_release_membership split: if_splits)
  then show "held t (release_subscription d u c) \<Longrightarrow> held t c"
    by (auto simp: release_subscription_def dest: held_release_membership split: if_splits)
qed

lemma held_platform_unsubscribe: "held t (snd (platform_unsubscribe d u c)) \<Longrightarrow> held t c"
  by (auto simp: platform_unsubscribe_def case_prod_unfold Let_def held_native dest: held_derived split: option.splits if_splits)

lemma held_client_unsubscribe: "held t (client_unsubscribe d u c) \<Longrightarrow> t \<noteq> u \<and> held t c"
  unfolding client_unsubscribe_def Let_def
  by (drule held_derived) (auto simp: held_native split: option.splits)

lemma held_tracked_subscribe: "held t (snd (tracked_subscribe k u c)) \<Longrightarrow> t = u \<or> held t c"
  by (auto simp: tracked_subscribe_def held_native split: option.splits if_splits)

lemma held_conn_op: "held t (conn_op_step k d c x) \<Longrightarrow> held t c \<or> x = Tracked_Subscribe t"
proof (cases x)
  case Socket_Closed
  then show "held t (conn_op_step k d c x) \<Longrightarrow> ?thesis"
    by (auto simp: close_conn_def account_closed_logical_subscriptions_def held_def split: if_splits)
qed (auto dest: held_tracked_subscribe held_platform_unsubscribe held_client_unsubscribe held_release_subscription)

lemma held_conn_ops: "Tracked_Subscribe t \<notin> set xs \<Longrightarrow> held t (foldl (conn_op_step k d) c xs) \<Longrightarrow> held t c"
  by (induction xs arbitrary: c) (auto dest: held_conn_op)

lemma unconfirmed_conn_op:
  assumes "unconfirmed t c" and "x = Tracked_Subscribe t \<longrightarrow> jm_get (pend c) t \<noteq> None"
  shows "unconfirmed t (conn_op_step k d c x)"
  using assms(2) by (intro unconfirmed_revoked [OF assms(1) revoked_conn_op]) (auto dest: held_conn_op)

lemma held_unwind: "quiet_ops t a \<Longrightarrow> held t (unwind s a u c) \<Longrightarrow> t \<noteq> u \<and> held t c"
  unfolding unwind_def quiet_ops_def
  by (drule spec, drule held_conn_ops, assumption) (auto simp: unwind_revoked_membership_def dest: held_derived)

lemma unconfirmed_unwind:
  assumes "quiet_ops t a" and "unconfirmed t c \<or> (u = t \<and> (case jm_get (pend c) t of None \<Rightarrow> True | Some e \<Rightarrow> \<not> granted e))"
  shows "unconfirmed t (unwind s a u c)"
proof -
  have r: "pend_revoked c (unwind s a u c)" unfolding unwind_def
    by (rule pend_revoked_trans [OF revoked_unwind revoked_conn_ops])
  from assms(2) show ?thesis
  proof
    assume "unconfirmed t c"
    then show ?thesis using held_unwind [OF assms(1)] by (intro unconfirmed_revoked [OF _ r]) blast+
  next
    assume u: "u = t \<and> (case jm_get (pend c) t of None \<Rightarrow> True | Some e \<Rightarrow> \<not> granted e)"
    then have "\<not> held t (unwind s a u c)" using held_unwind [OF assms(1)] by blast
    then show ?thesis using u pend_revoked_at [OF r, of t]
      by (cases "jm_get (pend c) t"; cases "jm_get (pend (unwind s a u c)) t") (auto simp: unconfirmed_def entry_revoked_def)
  qed
qed

lemma pend_close_other: "u \<noteq> t \<Longrightarrow> jm_get (pend (close_attempt u e c)) t = jm_get (pend c) t"
  by (simp add: close_attempt_def Let_def)

lemma unconfirmed_close_other: "u \<noteq> t \<Longrightarrow> unconfirmed t (close_attempt u e c) = unconfirmed t c"
  by (simp add: unconfirmed_def pend_close_other)

lemma unconfirmed_settle_other:
  assumes "u \<noteq> t"
  shows "unconfirmed t (snd (settle_pending_subscribe u k g c)) = unconfirmed t c"
    "unconfirmed t (snd (settle_held_subscribe u k c)) = unconfirmed t c"
    "unconfirmed t (snd (settle_denied_subscribe u k h c)) = unconfirmed t c"
  using unconfirmed_close_other [OF assms]
  by (auto simp: settle_pending_subscribe_def settle_held_subscribe_def settle_denied_subscribe_def Let_def
      split: option.split)

lemma pend_close_same:
  "inflight e \<le> 1 \<Longrightarrow> jm_get (pend (close_attempt t e c)) t = None"
  "\<not> inflight e \<le> 1 \<Longrightarrow> jm_get (pend (close_attempt t e c)) t = Some (e\<lparr>inflight := inflight e - 1\<rparr>)"
  by (simp_all add: close_attempt_def Let_def)

lemma unconfirmed_refuse:
  assumes "unconfirmed t c" and "quiet_ops t a" and "enrolled c (add_mset (u, k) F)"
  shows "unconfirmed t (snd (refuse s a u k c))"
proof (cases "u = t")
  case False
  then show ?thesis
    using assms(1,2) unconfirmed_settle_other(3) [OF False] unconfirmed_unwind
    by (simp add: refuse_def unwind_if_def case_prod_unfold Let_def)
next
  case True
  have "(u, k) \<in># add_mset (u, k) F" by simp
  from enrolled_entry [OF assms(3) this] obtain e where e: "jm_get (pend c) t = Some e" using True by blast
  have ng: "\<not> granted e" using assms(1) e by (simp add: unconfirmed_def)
  show ?thesis
  proof (cases "held t c \<and> inflight e \<le> 1")
    case True
    then show ?thesis using unconfirmed_unwind [OF assms(2), of "close_attempt t e c" t] e ng pend_close_same(1) [of e t c] \<open>u = t\<close>
      by (simp add: refuse_def settle_denied_subscribe_def unwind_if_def)
  next
    case False
    then show ?thesis using e ng pend_close_same [of e t c] \<open>u = t\<close>
      by (cases "inflight e \<le> 1") (auto simp: refuse_def settle_denied_subscribe_def unwind_if_def unconfirmed_def)
  qed
qed

lemma unconfirmed_land_held:
  assumes "unconfirmed t c" and "quiet_ops t a" and "enrolled c (add_mset (u, k) F)" and "u = t \<Longrightarrow> stale c t k"
  shows "unconfirmed t (snd (snd (land_held s a u k c)))"
proof (cases "u = t")
  case False
  then show ?thesis
    using assms(1,2) unconfirmed_settle_other(2) [OF False] unconfirmed_unwind
    by (simp add: land_held_def unwind_if_def case_prod_unfold Let_def)
next
  case True
  have "(u, k) \<in># add_mset (u, k) F" by simp
  from enrolled_entry [OF assms(3) this] obtain e where e: "jm_get (pend c) t = Some e" using True by blast
  have ng: "\<not> granted e" using assms(1) e by (simp add: unconfirmed_def)
  have ne: "epoch e \<noteq> k" using assms(4) True e by (auto simp: stale_def epoch_of_def)
  show ?thesis
  proof (cases "inflight e \<le> 1")
    case True
    then show ?thesis using unconfirmed_unwind [OF assms(2), of "close_attempt t e c" t] e ng ne pend_close_same(1) [of e t c] \<open>u = t\<close>
      by (simp add: land_held_def settle_held_subscribe_def unwind_if_def)
  next
    case False
    then show ?thesis using e ng ne pend_close_same [of e t c] \<open>u = t\<close>
      by (auto simp: land_held_def settle_held_subscribe_def unwind_if_def unconfirmed_def)
  qed
qed

lemma unconfirmed_settle_pending:
  assumes "unconfirmed t c" and "enrolled c (add_mset (u, k) F)" and "u = t \<Longrightarrow> \<not> held t c \<and> (g \<longrightarrow> stale c t k)"
  shows "unconfirmed t (snd (settle_pending_subscribe u k g c))"
proof (cases "u = t")
  case False
  then show ?thesis using assms(1) unconfirmed_settle_other(1) [OF False] by simp
next
  case True
  have "(u, k) \<in># add_mset (u, k) F" by simp
  from enrolled_entry [OF assms(2) this] obtain e where e: "jm_get (pend c) t = Some e" using True by blast
  have ng: "\<not> granted e" using assms(1) e by (simp add: unconfirmed_def)
  have ne: "\<not> (g \<and> epoch e = k)" using assms(3) True e by (auto simp: stale_def epoch_of_def)
  show ?thesis using e ng ne assms(3) True pend_close_same [of e t c]
    by (cases "inflight e \<le> 1") (auto simp: settle_pending_subscribe_def Let_def unconfirmed_def)
qed

lemma unconfirmed_begin:
  assumes "unconfirmed t c"
  shows "unconfirmed t (snd (begin_pending_subscribe u (held u c) c))"
  using assms
  by (cases "u = t"; cases "jm_get (pend c) t")
    (auto simp: begin_pending_subscribe_def Let_def unconfirmed_def)

lemma unconfirmed_install:
  assumes "unconfirmed t c" and "native_subscribe u c = Some c2" and "u \<noteq> t"
  shows "unconfirmed t (add_logical_subscription u c2)"
  by (rule unconfirmed_revoked [OF assms(1) pend_revoked_trans [OF revoked_native_sub [OF assms(2)] revoked_logical(2)]])
    (use assms(3) held_native(1) [OF assms(2)] in auto)

lemma unconfirmed_gone: "unconfirmed t (c\<lparr>gone := True\<rparr>) = unconfirmed t c"
  by (simp add: unconfirmed_def)

lemma denies_landing_held: "denies_wire_subscribe_landing ow ar h is_held u \<Longrightarrow> \<not> is_held"
  by (auto simp: denies_wire_subscribe_landing_def split: if_splits)

text \<open>A landing is only reached when the topic is not held.\<close>

lemma unconfirmed_landing:
  assumes "unconfirmed t c" and "enrolled c (add_mset (u, k) F)" and "u = t \<Longrightarrow> stale c t k" and "\<not> held u c"
  shows "unconfirmed t (conn_after (subscribe_landing s a u ref k cap c))"
proof -
  obtain ok c1 where st: "settle_pending_subscribe u k True c = (ok, c1)" by fastforce
  have 1: "unconfirmed t c1" using unconfirmed_settle_pending [OF assms(1,2), of True] assms(3,4) st by auto
  have 2: "unconfirmed t (snd (settle_pending_subscribe u k False c))"
    using unconfirmed_settle_pending [OF assms(1,2), of False] assms(4) by auto
  have nok: "\<not> ok" if "u = t" using settle_fresh [OF assms(2), of True] assms(3) st that by (auto simp: stale_def)
  show ?thesis
    unfolding subscribe_landing_def st Let_def prod.case
    using 1 2 nok by (auto simp: unconfirmed_gone intro: unconfirmed_install [OF 1] split: option.split)
qed

lemma conn_after_pair [simp]: "conn_after (case X of (as, c1) \<Rightarrow> (f as, c1, p)) = snd X"
  by (cases X) simp

lemma conn_after_triple [simp]:
  "conn_after (case X of (ok, as, c1) \<Rightarrow> if ok then (g as, c1, p) else (h as, c1, q)) = snd (snd X)"
  "conn_after (case X of (ok, as, c1) \<Rightarrow> (f ok as, c1, p)) = snd (snd X)"
  by (cases X, simp)+

lemma conn_after_if: "conn_after (if b then x else y) = (if b then conn_after x else conn_after y)"
  by simp

lemma unconfirmed_answered:
  assumes "unconfirmed t c" and "quiet_ops t a" and "enrolled c (add_mset (u, k) F)"
    and "u = t \<Longrightarrow> stale c t k \<or> one_denial (hook_says a) \<noteq> None"
  shows "unconfirmed t (conn_after (subscribe_answered s a u ref rec k c))"
proof (cases "one_denial (hook_says a)")
  case (Some d)
  then show ?thesis by (simp add: subscribe_answered_def Let_def unconfirmed_refuse [OF assms(1-3)])
next
  case None
  then have st: "u = t \<Longrightarrow> stale c t k" using assms(4) by simp
  have 3: "unconfirmed t (snd (settle_pending_subscribe u k False c))" if "\<not> held u c"
    using unconfirmed_settle_pending [OF assms(1,3), of False] that by auto
  show ?thesis unfolding subscribe_answered_def None option.case Let_def conn_after_if
    using unconfirmed_refuse [OF assms(1-3)] unconfirmed_land_held [OF assms(1-3) st] assms(1)
      unconfirmed_landing [OF assms(1,3) st] 3
    by (auto simp: exceeds_subscription_cap_def)
qed

lemma unconfirmed_resumed:
  assumes "unconfirmed t c" and "quiet_ops t a" and "enrolled c (add_mset (u, k) F)" and "u = t \<Longrightarrow> stale c t k"
  shows "unconfirmed t (conn_after (subscribe_resumed s a u ref k c))"
  unfolding subscribe_resumed_def Let_def conn_after_if
  using unconfirmed_refuse [OF assms(1-3)] unconfirmed_land_held [OF assms] unconfirmed_landing [OF assms(1,3,4)]
  by auto

lemma unconfirmed_platform_answered:
  assumes "unconfirmed t c" and "quiet_ops t a" and "enrolled c (add_mset (u, k) F)"
    and "u = t \<Longrightarrow> stale c t k \<or> one_denial (hook_says a) \<noteq> None"
  shows "unconfirmed t (conn_after (platform_answered s a u k c))"
proof (cases "one_denial (hook_says a)")
  case (Some d)
  then show ?thesis by (simp add: platform_answered_def Let_def unconfirmed_refuse [OF assms(1-3)])
next
  case None
  then have st: "u = t \<Longrightarrow> stale c t k" using assms(4) by simp
  obtain ok c1 where se: "settle_pending_subscribe u k True c = (ok, c1)" by fastforce
  have 1: "unconfirmed t c1" if "\<not> held u c"
    using unconfirmed_settle_pending [OF assms(1,3), of True] st that se by auto
  have 2: "unconfirmed t (snd (settle_pending_subscribe u k False c))" if "\<not> held u c"
    using unconfirmed_settle_pending [OF assms(1,3), of False] that by auto
  have nok: "\<not> ok" if "u = t" using settle_fresh [OF assms(3), of True] st se that by (auto simp: stale_def)
  show ?thesis unfolding platform_answered_def None option.case Let_def conn_after_if se prod.case
    using 1 2 nok by (auto simp: unconfirmed_land_held [OF assms(1-3) st] intro: unconfirmed_install split: option.split)
qed

lemma unconfirmed_tap_answered:
  assumes "unconfirmed t c" and "quiet_ops t a" and "enrolled c (add_mset (u, k) F)"
    and "u = t \<Longrightarrow> stale c t k \<or> before \<noteq> None \<or> one_denial (hook_says a) \<noteq> None"
  shows "unconfirmed t (conn_after (tap_answered s a u k before hook c))"
proof (cases "before \<noteq> None \<or> one_denial (hook_says a) \<noteq> None \<or> ungranted_observe s hook u c")
  case True
  then show ?thesis by (simp add: tap_answered_def Let_def unconfirmed_refuse [OF assms(1-3)])
next
  case False
  then have st: "u = t \<Longrightarrow> stale c t k" using assms(4) by simp
  have 2: "unconfirmed t (snd (settle_pending_subscribe u k False c))" if "\<not> held u c"
    using unconfirmed_settle_pending [OF assms(1,3), of False] that by auto
  show ?thesis unfolding tap_answered_def Let_def conn_after_if
    using False 2 by (auto simp: unconfirmed_land_held [OF assms(1-3) st] case_prod_unfold)
qed

text \<open>An attempt of a batch that will not be granted.\<close>

definition item_quiet :: "js_string \<Rightarrow> conn \<Rightarrow> hook_answer \<Rightarrow> nat \<times> js_string \<times> nat \<times> bool \<Rightarrow> bool" where
  "item_quiet t c h item = (case item of (i, u, k, z) \<Rightarrow> u = t \<longrightarrow> stale c t k \<or> z \<or> denial_at h t i \<noteq> None)"

lemma unconfirmed_entry:
  assumes "unconfirmed t c" and "quiet_ops t a" and "enrolled c (add_mset (u, k) F)" and "item_quiet t c h (i, u, k, z)"
  shows "unconfirmed t (fst (snd (batch_entry s a b h cap (i, u, k, z) c)))"
proof -
  obtain ok c1 where se: "settle_pending_subscribe u k True c = (ok, c1)" by fastforce
  let ?d = "if z then Some Forbidden else if landing_denies_held s (batch_app_decides s b) u k c then Some Forbidden
     else denial_at h u i"
  show ?thesis
  proof (cases ?d)
    case (Some d)
    then show ?thesis unfolding batch_entry_def prod.case Some option.case Let_def
      by (simp add: unconfirmed_refuse [OF assms(1-3)] case_prod_unfold)
  next
    case None
    then have st: "u = t \<Longrightarrow> stale c t k" using assms(4) by (auto simp: item_quiet_def split: if_splits)
    have 1: "unconfirmed t c1" if "\<not> held u c"
      using unconfirmed_settle_pending [OF assms(1,3), of True] st that se by auto
    have 2: "unconfirmed t (snd (settle_pending_subscribe u k False c))" if "\<not> held u c"
      using unconfirmed_settle_pending [OF assms(1,3), of False] that by auto
    have nok: "\<not> ok" if "u = t" using settle_fresh [OF assms(3), of True] st se that by (auto simp: stale_def)
    have 3: "unconfirmed t (snd (snd (land_held s a u k c :: bool \<times> 'a act list \<times> conn)))"
      by (rule unconfirmed_land_held [OF assms(1-3) st])
    show ?thesis unfolding batch_entry_def prod.case None option.case Let_def se
      using 1 2 3 nok by (auto simp: case_prod_unfold unconfirmed_gone intro: unconfirmed_install split: option.split)
  qed
qed

lemma item_quiet_reaches:
  assumes "gets_to F c c'" and "item_attempts [item] \<subseteq># F" and "item_quiet t c h item"
  shows "item_quiet t c' h item"
proof -
  obtain i u k z where item: "item = (i, u, k, z)" by (cases item) auto
  have "stale c' t k" if "u = t" "stale c t k"
  proof -
    have "(t, k) \<in># F" using assms(2) item that(1) by (simp add: single_subset_iff)
    then have "epoch_of c t \<le> epoch_of c' t" using assms(1) unfolding gets_to_def by blast
    then show ?thesis using that(2) by (simp add: stale_def)
  qed
  then show ?thesis using assms(3) by (auto simp: item item_quiet_def)
qed

lemma unconfirmed_loop:
  "unconfirmed t c \<Longrightarrow> quiet_ops t a \<Longrightarrow> enrolled c (item_attempts items + F) \<Longrightarrow> list_all (item_quiet t c h) items \<Longrightarrow>
    unconfirmed t (conn_after (batch_loop s a b h cap items c))"
proof (induction items arbitrary: c)
  case Nil
  then show ?case by simp
next
  case (Cons item items)
  obtain i u k z where item: "item = (i, u, k, z)" by (cases item) auto
  obtain as c1 stop where en: "batch_entry s a b h cap item c = (as, c1, stop)"
    and l: "batch_loop s a b h cap (item # items) c =
      (if stop then (as @ discard_if cap, c1, Some (Batch_Stopped items))
       else (as @ fst (batch_loop s a b h cap items c1), snd (batch_loop s a b h cap items c1)))"
    by (rule loop_step)
  have e: "enrolled c (add_mset (u, k) (item_attempts items + F))" using Cons.prems(3) item by simp
  have q: "item_quiet t c h (i, u, k, z)" using Cons.prems(4) item by simp
  have 1: "gets_to (item_attempts items + F) c c1"
    using reaches_batch_entry [OF e, of s a b h cap i z] en item by simp
  have u1: "unconfirmed t c1" using unconfirmed_entry [OF Cons.prems(1,2) e q, of s b cap] en item by simp
  have "item_quiet t c1 h x" if x: "x \<in> set items" for x
  proof (rule item_quiet_reaches [OF 1])
    show "item_attempts [x] \<subseteq># item_attempts items + F"
      using x by (cases x) (auto simp: item_attempts_def single_subset_iff intro!: image_eqI [of _ _ x])
    show "item_quiet t c h x" using Cons.prems(4) x by (simp add: list_all_iff)
  qed
  then have "unconfirmed t (conn_after (batch_loop s a b h cap items c1))"
    by (intro Cons.IH [OF u1 Cons.prems(2) reaches_enrolled [OF 1]]) (simp add: list_all_iff)
  then show ?case using u1 unfolding l by (simp add: conn_after_def)
qed

text \<open>An answer that grants no attempt on the topic made since the revocation.\<close>

fun lane_refuses :: "js_string \<Rightarrow> conn \<Rightarrow> answer \<Rightarrow> 'r parked \<Rightarrow> bool" where
  "lane_refuses t c a (Wire_Gate u ref rec k) = (u = t \<longrightarrow> stale c t k \<or> one_denial (hook_says a) \<noteq> None)"
| "lane_refuses t c a (Wire_Resume u ref k) = (u = t \<longrightarrow> stale c t k)"
| "lane_refuses t c a (Batch_Gate b) = list_all (item_quiet t c (hook_says a)) (b_items b)"
| "lane_refuses t c a (Batch_Resume b h) = list_all (item_quiet t c h) (b_items b)"
| "lane_refuses t c a (Batch_Stopped items) = True"
| "lane_refuses t c a (Platform_Gate u k) = (u = t \<longrightarrow> stale c t k \<or> one_denial (hook_says a) \<noteq> None)"
| "lane_refuses t c a (Tap_Gate u k before hook) =
    (u = t \<longrightarrow> stale c t k \<or> before \<noteq> None \<or> one_denial (hook_says a) \<noteq> None)"

fun resume_quiet :: "js_string \<Rightarrow> conn \<Rightarrow> 'r parked \<Rightarrow> bool" where
  "resume_quiet t c (Wire_Resume u ref k) = (u = t \<longrightarrow> stale c t k)"
| "resume_quiet t c (Batch_Resume b h) = list_all (item_quiet t c h) (b_items b)"
| "resume_quiet t c p = True"

lemma unconfirmed_lane:
  assumes "unconfirmed t c" and "quiet_ops t a" and "enrolled c (attempts p + F)" and "lane_refuses t c a p"
  shows "unconfirmed t (conn_after (answer_lane s a p c))"
  using assms
proof (cases p)
  case (Batch_Gate b)
  then show ?thesis using assms unconfirmed_loop [OF assms(1,2), of "b_items b" F "hook_says a" s b False]
    by (simp add: batch_answered_def Let_def)
qed (auto simp: unconfirmed_answered unconfirmed_resumed unconfirmed_loop unconfirmed_platform_answered unconfirmed_tap_answered)

lemma parked_again:
  assumes "snd (snd (answer_lane s a p c)) = Some q" and "lane_refuses t c a p" and "resume_quiet t c p"
  shows "resume_quiet t c q \<and> (conn_after (answer_lane s a p c) = c \<or> (\<exists>items. q = Batch_Stopped items))"
proof -
  have loop: "\<exists>items'. q = Batch_Stopped items'" if "snd (snd (batch_loop s a b h cap items c')) = Some q" for b h cap items c'
    using that by (induction items arbitrary: c') (auto simp: Let_def case_prod_unfold split: if_splits)
  show ?thesis
  proof (cases p)
    case (Wire_Gate u ref rec k)
    then show ?thesis using assms(1,2)
      by (auto simp: subscribe_answered_def subscribe_landing_def case_prod_unfold Let_def split: if_splits option.splits)
  next
    case (Batch_Gate b)
    show ?thesis
    proof (cases "recover_seqs s b (hook_says a) c \<noteq> [] \<and> resume_hook s")
      case True
      then show ?thesis using assms Batch_Gate by (auto simp: batch_answered_def Let_def)
    next
      case False
      then have "snd (snd (batch_loop s a b (hook_says a) False (b_items b) c)) = Some q"
        using assms(1) Batch_Gate by (auto simp: batch_answered_def Let_def split: if_splits)
      then show ?thesis using loop by fastforce
    qed
  next
    case (Batch_Resume b h)
    then show ?thesis using loop [of b h True "b_items b" c] assms(1) by fastforce
  qed (use assms in \<open>auto simp: subscribe_resumed_def subscribe_landing_def platform_answered_def tap_answered_def
      case_prod_unfold Let_def split: if_splits option.splits\<close>)
qed

lemma resume_quiet_reaches:
  assumes "gets_to F c c'" and "attempts p \<subseteq># F" and "resume_quiet t c p"
  shows "resume_quiet t c' p"
proof (cases p)
  case (Wire_Resume u ref k)
  then have "(u, k) \<in># F" using assms(2) by (simp add: single_subset_iff)
  then have "epoch_of c u \<le> epoch_of c' u" using assms(1) unfolding gets_to_def by blast
  then show ?thesis using assms(3) Wire_Resume by (auto simp: stale_def)
next
  case (Batch_Resume b h)
  have "item_quiet t c' h x" if x: "x \<in> set (b_items b)" for x
  proof (rule item_quiet_reaches [OF assms(1)])
    have "item_attempts [x] \<subseteq># item_attempts (b_items b)"
      using x by (cases x) (auto simp: item_attempts_def single_subset_iff intro!: image_eqI [of _ _ x])
    then show "item_attempts [x] \<subseteq># F" using assms(2) Batch_Resume by (simp add: subset_mset.order_trans)
    show "item_quiet t c h x" using assms(3) Batch_Resume x by (simp add: list_all_iff)
  qed
  then show ?thesis using Batch_Resume by (simp add: list_all_iff)
qed simp_all

fun quiet_event :: "js_string \<Rightarrow> 'r session \<Rightarrow> 'r event \<Rightarrow> bool" where
  "quiet_event t w (Application x) = (x = Tracked_Subscribe t \<longrightarrow> jm_get (pend (conn_of w)) t \<noteq> None)"
| "quiet_event t w (Answered n a) = (quiet_ops t a \<and>
    (case jm_get (lanes w) n of None \<Rightarrow> True | Some p \<Rightarrow> lane_refuses t (conn_of w) a p))"
| "quiet_event t w e = True"

fun quiet_run :: "js_string \<Rightarrow> 'r session \<Rightarrow> 'r event list \<Rightarrow> bool" where
  "quiet_run t w [] = True"
| "quiet_run t w (e # es) = (quiet_event t w e \<and> quiet_run t (session_next w e) es)"

definition stays_out :: "js_string \<Rightarrow> 'r session \<Rightarrow> bool" where
  "stays_out t w \<longleftrightarrow> session_ok w \<and> unconfirmed t (conn_of w) \<and>
    (\<forall>n p. jm_get (lanes w) n = Some p \<longrightarrow> resume_quiet t (conn_of w) p)"

lemma unconfirmed_begin_batch: "unconfirmed t c \<Longrightarrow> unconfirmed t (snd (begin_batch ts c))"
proof (induction ts arbitrary: c)
  case (Cons u ts)
  show ?case using Cons.IH [OF unconfirmed_begin [OF Cons.prems, of u]]
    by (simp add: case_prod_unfold Let_def)
qed simp

definition fresh_outcome :: "'r outcome \<Rightarrow> bool" where
  "fresh_outcome r \<longleftrightarrow> (case snd (snd r) of None \<Rightarrow> True | Some p \<Rightarrow> (\<forall>t c. resume_quiet t c p))"

lemma fresh_starts:
  "fresh_outcome (handle_subscribe s u ref rec c)" "fresh_outcome (handle_subscribe_batch s us ref recs c)"
  "fresh_outcome (platform_subscribe s u c)" "fresh_outcome (authorize_derived_subscribe s u c)"
  by (auto simp: fresh_outcome_def handle_subscribe_def handle_subscribe_batch_def platform_subscribe_def
      authorize_derived_subscribe_def case_prod_unfold Let_def)

lemma unconfirmed_starts:
  assumes "unconfirmed t c"
  shows "unconfirmed t (conn_after (handle_subscribe s u ref rec c))"
    "unconfirmed t (conn_after (handle_subscribe_batch s us ref recs c))"
    "unconfirmed t (conn_after (platform_subscribe s u c))" "unconfirmed t (conn_after (authorize_derived_subscribe s u c))"
  using assms unconfirmed_begin [OF assms, of u]
  by (simp_all add: handle_subscribe_def handle_subscribe_batch_def platform_subscribe_def
      authorize_derived_subscribe_def case_prod_unfold Let_def conn_after_def unconfirmed_begin_batch)

lemma lane_in_flight:
  assumes "session_ok w" and "jm_get (lanes w) n = Some p"
  shows "attempts p \<subseteq># flight (lanes w)"
  using flight_del [of "lanes w" n p] assms by (simp add: session_ok_def)

lemma stays_out_start:
  assumes ok: "stays_out t w" and st: "start_lane r w = (as, w')"
    and re: "session_ok w' \<and> gets_to (flight (lanes w')) (conn_of w) (conn_of w')"
    and fr: "fresh_outcome r" and un: "unconfirmed t (conn_after r)"
  shows "stays_out t w'"
proof -
  obtain c q where r: "r = (as, c, q)" using st by (cases r) (simp add: start_lane_def)
  have c: "conn_of w' = c" using st by (cases q) (auto simp: r start_lane_def)
  have "resume_quiet t (conn_of w') p" if p: "jm_get (lanes w') n = Some p" for n p
  proof (cases "jm_get (lanes w) n = Some p")
    case True
    have "resume_quiet t (conn_of w) p" using ok True by (auto simp: stays_out_def)
    then show ?thesis using resume_quiet_reaches [of "flight (lanes w')" "conn_of w" "conn_of w'" p t]
        re lane_in_flight [of w' n p] p by blast
  next
    case False
    then have "q = Some p" using p st by (cases q) (auto simp: r start_lane_def split: if_splits)
    then show ?thesis using fr by (simp add: r fresh_outcome_def)
  qed
  then show ?thesis using re un c by (simp add: stays_out_def r)
qed

lemma stays_out_step:
  assumes ok: "stays_out t w" and q: "quiet_event t w e"
  shows "stays_out t (session_next w e)"
proof -
  let ?w' = "session_next w e"
  have st: "subscribe_step w e = (fst (subscribe_step w e), ?w')" by (simp add: session_next_def)
  have sok: "session_ok w" and un: "unconfirmed t (conn_of w)"
    and rq: "\<And>n p. jm_get (lanes w) n = Some p \<Longrightarrow> resume_quiet t (conn_of w) p" using ok by (auto simp: stays_out_def)
  have re: "session_ok ?w' \<and> gets_to (flight (lanes ?w')) (conn_of w) (conn_of ?w')" by (rule session_facts [OF sok st])
  show ?thesis
  proof (cases e)
    case (Subscribe_Frame u ref rec)
    show ?thesis by (rule stays_out_start [OF ok _ re fresh_starts(1) unconfirmed_starts(1) [OF un]])
      (use st Subscribe_Frame in simp)
  next
    case (Subscribe_Batch_Frame us ref recs)
    show ?thesis by (rule stays_out_start [OF ok _ re fresh_starts(2) unconfirmed_starts(2) [OF un]])
      (use st Subscribe_Batch_Frame in simp)
  next
    case (Platform_Subscribe u)
    show ?thesis by (rule stays_out_start [OF ok _ re fresh_starts(3) unconfirmed_starts(3) [OF un]])
      (use st Platform_Subscribe in simp)
  next
    case (Tap_Requested u)
    show ?thesis by (rule stays_out_start [OF ok _ re fresh_starts(4) unconfirmed_starts(4) [OF un]])
      (use st Tap_Requested in simp)
  next
    case (Answered n a)
    show ?thesis
    proof (cases "jm_get (lanes w) n")
      case None
      then show ?thesis using ok Answered by (simp add: session_next_def)
    next
      case (Some p)
      obtain as c q' where r: "answer_lane (server_of w) a p (conn_of w) = (as, c, q')" by (rule prod_cases3)
      have qe: "quiet_ops t a" "lane_refuses t (conn_of w) a p" using q Answered Some by auto
      have en: "enrolled (conn_of w) (attempts p + flight (jm_del n (lanes w)))"
        using sok flight_del [of "lanes w" n p] Some by (simp add: session_ok_def)
      have c: "conn_of ?w' = c" using Answered Some r by (simp add: session_next_def continue_lane_def)
      have "unconfirmed t c" using unconfirmed_lane [OF un qe(1) en qe(2), of "server_of w"] r by simp
      moreover have "resume_quiet t (conn_of ?w') p'" if p': "jm_get (lanes ?w') m = Some p'" for m p'
      proof (cases "m = n")
        case True
        then have q': "q' = Some p'" using p' Answered Some r
          by (cases q') (auto simp: session_next_def continue_lane_def)
        then show ?thesis using parked_again [of "server_of w" a p "conn_of w" p' t] r qe(2) rq [OF Some] c by auto
      next
        case False
        then have "jm_get (lanes w) m = Some p'" using p' Answered Some r
          by (cases q') (auto simp: session_next_def continue_lane_def)
        from rq [OF this] show ?thesis
          using resume_quiet_reaches [of "flight (lanes ?w')" "conn_of w" "conn_of ?w'" p' t] re lane_in_flight [of ?w' m p'] p' by blast
      qed
      ultimately show ?thesis using re c by (simp add: stays_out_def)
    qed
  next
    case (Application x)
    have c: "conn_of ?w' = conn_op_step (limits (server_of w)) (derived (server_of w)) (conn_of w) x" "lanes ?w' = lanes w"
      using Application by (simp_all add: session_next_def)
    have "unconfirmed t (conn_of ?w')" unfolding c using q Application by (intro unconfirmed_conn_op [OF un]) simp
    moreover have "resume_quiet t (conn_of ?w') p" if "jm_get (lanes ?w') m = Some p" for m p
      using resume_quiet_reaches [of "flight (lanes ?w')" "conn_of w" "conn_of ?w'" p t] re lane_in_flight [of ?w' m p] that rq c by auto
    ultimately show ?thesis using re by (simp add: stays_out_def)
  qed (use ok re in \<open>auto simp: stays_out_def session_next_def\<close>)
qed

lemma stays_out_run: "stays_out t w \<Longrightarrow> quiet_run t w es \<Longrightarrow> stays_out t (foldl session_next w es)"
  by (induction es arbitrary: w) (simp_all add: stays_out_step)

lemma gone_simps [simp]:
  "gone (tracked_unsubscribe u c) = gone c"
  by (auto simp: tracked_unsubscribe_def Let_def native_unsubscribe_def)

lemma gone_derived [simp]: "gone (release_derived_subscriptions d u c) = gone c"
  unfolding release_derived_subscriptions_def by (induction d arbitrary: c) simp_all

lemma revokes_removes:
  assumes "revokes t x" and "\<not> gone c"
  shows "\<not> held t (conn_op_step k d c x)"
  using assms(1) unfolding revokes_def
proof (elim disjE)
  assume x: "x = Platform_Unsubscribe t"
  let ?c2 = "release_derived_subscriptions d t (drop_publish_grant t (snd (tombstone_pending_subscribe t c)))"
  have "\<not> gone ?c2" using assms(2) by simp
  then obtain c3 where "native_unsubscribe t ?c2 = Some c3" by (simp add: native_unsubscribe_def)
  then show ?thesis by (auto simp: x platform_unsubscribe_def case_prod_unfold Let_def held_def)
qed (auto dest: held_client_unsubscribe)

lemma stays_out_revoked:
  assumes "session_ok w" and "revokes t x" and "\<not> gone (conn_of w)"
  shows "stays_out t (session_next w (Application x))"
proof -
  let ?w1 = "session_next w (Application x)"
  have w1: "conn_of ?w1 = conn_op_step (limits (server_of w)) (derived (server_of w)) (conn_of w) x" "lanes ?w1 = lanes w"
    by (simp_all add: session_next_def)
  have en: "enrolled (conn_of w) (flight (lanes w))" using assms(1) by (simp add: session_ok_def)
  have out: "\<not> held t (conn_of ?w1)" unfolding w1 by (rule revokes_removes [OF assms(2,3)])
  have ng: "\<not> granted e" if g: "jm_get (pend (conn_of ?w1)) t = Some e" for e
  proof -
    obtain e0 where e0: "jm_get (pend (snd (tombstone_pending_subscribe t (conn_of w)))) t = Some e0" "entry_revoked e0 e"
      using pend_revoked_entry' [OF revokes_tombstones [OF assms(2)] g [unfolded w1]] .
    then have "\<not> granted e0" using enrolled_Some(4) [OF en, of t]
      by (auto simp: tombstone_pending_subscribe_def split: option.splits if_splits)
    then show ?thesis using e0(2) by (simp add: entry_revoked_def)
  qed
  have st: "stale (conn_of ?w1) t k" if "jm_get (lanes w) n = Some p" "(t, k) \<in># attempts p" for n p k
    unfolding w1 using lane_in_flight [OF assms(1) that(1)] that(2)
    by (intro epoch_revokes [OF en _ assms(2)]) (blast dest: mset_subset_eqD)
  have "resume_quiet t (conn_of ?w1) p" if p: "jm_get (lanes w) n = Some p" for n p
  proof (cases p)
    case (Batch_Resume b h)
    then have "stale (conn_of ?w1) t k" if "(i, t, k, z) \<in> set (b_items b)" for i k z
      using that by (intro st [OF p]) (force simp: item_attempts_def)
    then show ?thesis using Batch_Resume by (auto simp: list_all_iff item_quiet_def)
  qed (use st [OF p] in auto)
  then show ?thesis using out ng sessions.step_inv [OF assms(1)] w1(2)
    by (auto simp: stays_out_def unconfirmed_def split: option.split)
qed

text \<open>C7: A topic that was revoked and that nobody authorises again stays out. Hooks may still install
  it while subscribes are in flight (a plugin joining inside the authorisation that the revocation
  cancelled), older attempts may still be allowed by their hook and new ones may be denied: once no
  attempt on the topic is in flight, the socket does not hold it, in the tracked set or in the
  registry the broadcasts walk.\<close>

theorem revoked_topic_stays_out:
  assumes "w = foldl session_next (new_session s) es" and "revokes t x" and "\<not> gone (conn_of w)"
    and "quiet_run t (session_next w (Application x)) es'"
    and "w' = foldl session_next (session_next w (Application x)) es'"
    and "attempts_on t (flight (lanes w')) = 0"
  shows "\<not> held t (conn_of w') \<and> (gone (conn_of w') \<or> t \<notin> set (native (conn_of w')))"
proof -
  have ok: "session_ok w" unfolding assms(1) by (rule sessions.run_inv)
  have "stays_out t w'" unfolding assms(5) by (rule stays_out_run [OF stays_out_revoked [OF ok assms(2,3)] assms(4)])
  then have so: "session_ok w'" and un: "unconfirmed t (conn_of w')" by (simp_all add: stays_out_def)
  have "jm_get (pend (conn_of w')) t = None"
  proof (cases "jm_get (pend (conn_of w')) t")
    case (Some e)
    then show ?thesis using enrolled_Some(2) [of "conn_of w'" "flight (lanes w')" t e] so assms(6) by (simp add: session_ok_def)
  qed
  then show ?thesis using un so by (auto simp: unconfirmed_def session_ok_def membership_ok_def held_def)
qed

end
