(* ===== verification/Subscribe_Bounds.thy ===== *)
theory Subscribe_Bounds
  imports Revocation
begin

text \<open>
  What the subscribe lanes keep within limits: the attempts in flight, the memberships of a connection,
  the charge of the worker's counter; and the grant gate, which no wire lane bypasses.
\<close>

section \<open>The budget of attempts\<close>

definition within_budget :: "caps \<Rightarrow> 'r session \<Rightarrow> bool" where
  "within_budget l w \<longleftrightarrow> session_ok w \<and> limits (server_of w) = l \<and> size (flight (lanes w)) \<le> max_pend l"

lemma start_lane_flight:
  assumes "session_ok w" and "start_lane r w = (as, w')"
  shows "flight (lanes w') = left_in_flight r + flight (lanes w)" "server_of w' = server_of w" "conn_of w' = conn_after r"
proof -
  obtain c p where r: "r = (as, c, p)" using assms(2) by (cases r) (simp add: start_lane_def)
  have "jm_del (next_lane w) (lanes w) = lanes w" and "jm_wf (lanes w)"
    using assms(1) by (auto simp: session_ok_def intro!: jm_del_absent)
  then show "flight (lanes w') = left_in_flight r + flight (lanes w)" "server_of w' = server_of w" "conn_of w' = conn_after r"
    using assms(2) by (cases p; auto simp: r start_lane_def flight_set left_in_flight_def)+
qed

lemma continue_lane_flight:
  assumes "session_ok w" and "jm_get (lanes w) n = Some p" and "continue_lane n r w = (as, w')"
  shows "flight (lanes w') = left_in_flight r + flight (jm_del n (lanes w))" "server_of w' = server_of w" "conn_of w' = conn_after r"
proof -
  obtain c q where r: "r = (as, c, q)" using assms(3) by (cases r) (simp add: continue_lane_def)
  have "jm_wf (lanes w)" using assms(1) by (simp add: session_ok_def)
  then show "flight (lanes w') = left_in_flight r + flight (jm_del n (lanes w))" "server_of w' = server_of w" "conn_of w' = conn_after r"
    using assms(3) by (cases q; auto simp: r continue_lane_def flight_set left_in_flight_def)+
qed

lemma session_total: "session_ok w \<Longrightarrow> pend_total (conn_of w) = int (size (flight (lanes w)))"
  by (simp add: session_ok_def enrolled_total)

lemma single_start_room:
  assumes "pend_total c = int n" and "n \<le> max_pend (limits s)"
  shows "size (left_in_flight (handle_subscribe s t ref rec c)) + n \<le> max_pend (limits s)"
    "size (left_in_flight (platform_subscribe s t c)) + n \<le> max_pend (limits s)"
    "size (left_in_flight (authorize_derived_subscribe s t c)) + n \<le> max_pend (limits s)"
  using assms
  by (auto simp: handle_subscribe_def platform_subscribe_def authorize_derived_subscribe_def left_in_flight_def
      case_prod_unfold Let_def exceeds_pending_subscribe_cap_def)

lemma size_item_attempts: "size (item_attempts items) = length items"
  by (simp add: item_attempts_def)

lemma batch_start_room:
  assumes "pend_total c = int n" and "n \<le> max_pend (limits s)"
  shows "size (left_in_flight (handle_subscribe_batch s ts ref recs c)) + n \<le> max_pend (limits s)"
proof -
  have m: "nat (int (max_pend (limits s)) - pend_total c) = max_pend (limits s) - n" using assms(1) by simp
  show ?thesis using assms(2)
    by (auto simp: handle_subscribe_batch_def left_in_flight_def case_prod_unfold Let_def size_item_attempts m min_def)
qed

lemma budget_step:
  assumes "within_budget l w"
  shows "within_budget l (session_next w e)"
proof -
  have ok: "session_ok w" and l: "limits (server_of w) = l" and b: "size (flight (lanes w)) \<le> max_pend l"
    using assms by (auto simp: within_budget_def)
  have ok': "session_ok (session_next w e)" by (rule sessions.step_inv [OF ok])
  note tot = session_total [OF ok]
  have start: "within_budget l w'" if st: "start_lane r w = (as, w')" and r: "size (left_in_flight r) + size (flight (lanes w)) \<le> max_pend l"
    and o': "session_ok w'" for r as w'
    using start_lane_flight [OF ok st] r o' l by (simp add: within_budget_def)
  show ?thesis
  proof (cases e)
    case (Subscribe_Frame t ref rec)
    show ?thesis using ok' start [OF surjective_pairing single_start_room(1) [OF tot, of "server_of w", unfolded l, OF b]]
      by (simp add: session_next_def Subscribe_Frame)
  next
    case (Subscribe_Batch_Frame ts ref recs)
    show ?thesis using ok' start [OF surjective_pairing batch_start_room [OF tot, of "server_of w", unfolded l, OF b]]
      by (simp add: session_next_def Subscribe_Batch_Frame)
  next
    case (Platform_Subscribe t)
    show ?thesis using ok' start [OF surjective_pairing single_start_room(2) [OF tot, of "server_of w", unfolded l, OF b]]
      by (simp add: session_next_def Platform_Subscribe)
  next
    case (Tap_Requested t)
    show ?thesis using ok' start [OF surjective_pairing single_start_room(3) [OF tot, of "server_of w", unfolded l, OF b]]
      by (simp add: session_next_def Tap_Requested)
  next
    case (Answered n a)
    show ?thesis
    proof (cases "jm_get (lanes w) n")
      case None
      then show ?thesis using Answered assms by (simp add: session_next_def)
    next
      case (Some p)
      let ?r = "answer_lane (server_of w) a p (conn_of w)"
      have st: "continue_lane n ?r w = (fst (continue_lane n ?r w), session_next w e)"
        using Answered Some by (simp add: session_next_def)
      note f = continue_lane_flight [OF ok Some st]
      have "left_in_flight ?r \<subseteq># attempts p"
        using answer_lane_attempts [of "server_of w" a p "conn_of w"] by (auto simp: left_in_flight_def split: option.split)
      then have "size (left_in_flight ?r) \<le> size (attempts p)" by (rule size_mset_mono)
      moreover have "size (flight (lanes w)) = size (attempts p) + size (flight (jm_del n (lanes w)))"
        using flight_del [of "lanes w" n p] ok Some by (simp add: session_ok_def)
      ultimately show ?thesis using ok' b l f by (simp add: within_budget_def)
    qed
  qed (use ok' l b in \<open>auto simp: within_budget_def session_next_def\<close>)
qed

lemma budget_new: "within_budget (limits s) (new_session s)"
  using session_ok_new [of s] by (simp add: within_budget_def new_session_def)

interpretation budgets: machine "new_session s" session_next "within_budget (limits s)" for s
  by unfold_locales (auto intro: budget_new budget_step)

text \<open>C15: The connection's count of subscribes in flight is the number of attempts that are parked in a
  hook, over all lanes, never more than the limit, and the record holds an entry for exactly the topics
  that have one: nothing leaks and nothing is dropped while somebody waits on it.\<close>

theorem subscribe_budget_exact:
  assumes "w = foldl session_next (new_session s) es"
  shows "pend_total (conn_of w) = int (size (flight (lanes w))) \<and> size (flight (lanes w)) \<le> max_pend (limits s) \<and>
    {t. jm_get (pend (conn_of w)) t \<noteq> None} = {t. attempts_on t (flight (lanes w)) \<noteq> 0}"
proof -
  have b: "within_budget (limits s) w" unfolding assms by (rule budgets.run_inv)
  then have en: "enrolled (conn_of w) (flight (lanes w))" by (simp add: within_budget_def session_ok_def)
  have "jm_get (pend (conn_of w)) t \<noteq> None \<longleftrightarrow> attempts_on t (flight (lanes w)) \<noteq> 0" for t
    using enrolled_None [OF en, of t] enrolled_Some(2) [OF en, of t] by (cases "jm_get (pend (conn_of w)) t") auto
  then show ?thesis using b session_total [of w] by (auto simp: within_budget_def)
qed

section \<open>One membership, one charge\<close>

text \<open>C19: The worker is charged for exactly the memberships of a connection, once each and nothing once
  the close path has released them, and while the socket is open the registry that broadcasts walk
  holds exactly the tracked topics, each once.\<close>

theorem subscription_charged_once:
  assumes "w = foldl session_next (new_session s) es"
  shows "charge (conn_of w) = (if registry_settled (conn_of w) then 0 else int (length (subs (conn_of w)))) \<and>
    distinct (subs (conn_of w)) \<and> distinct (native (conn_of w)) \<and>
    (gone (conn_of w) \<or> (set (native (conn_of w)) = set (subs (conn_of w)) \<and> \<not> registry_settled (conn_of w)))"
proof -
  have "session_ok w" unfolding assms by (rule sessions.run_inv)
  then show ?thesis by (auto simp: session_ok_def membership_ok_def)
qed

section \<open>The grant gate\<close>

fun wire_lane :: "'r parked \<Rightarrow> bool" where
  "wire_lane (Wire_Gate t ref rec k) = True"
| "wire_lane (Wire_Resume t ref k) = True"
| "wire_lane (Batch_Gate b) = True"
| "wire_lane (Batch_Resume b h) = True"
| "wire_lane p = False"

text \<open>Whether an application hook decides for this lane; a batch reads the hooks once.\<close>

fun lane_app_decides :: "server \<Rightarrow> 'r parked \<Rightarrow> bool" where
  "lane_app_decides s (Batch_Gate b) = batch_app_decides s b"
| "lane_app_decides s (Batch_Resume b h) = batch_app_decides s b"
| "lane_app_decides s p = app_decides s"

lemma open_landing:
  "\<not> denies_wire_subscribe_landing ow ar h False t \<Longrightarrow> \<not> is_plugin_owned_topic ow t \<and> (\<not> ar \<or> h)"
  by (auto simp: denies_wire_subscribe_landing_def split: if_splits)

lemma landing_not_held:
  "Native_Subscribe u \<in> set (fst (subscribe_answered s a t ref rec k c)) \<Longrightarrow> \<not> held t c"
  "Native_Subscribe u \<in> set (fst (subscribe_resumed s a t ref k c)) \<Longrightarrow> \<not> held t c"
  by (auto simp: subscribe_answered_def subscribe_resumed_def exceeds_subscription_cap_def case_prod_unfold Let_def
      split: if_splits option.splits)

text \<open>C4: No wire lane bypasses the grant gate. If answering a parked frame installs a topic, then no
  plugin owns that topic, and the gate is either off or an application hook that may decide has
  admitted the frame, read at the landing: arming the gate, or making it strict, while the frame is
  parked in its hook or in its resume stops it. A topic that a plugin owns is never installed by the
  wire, only by its plugin's hook.\<close>

theorem wire_gate_not_bypassed:
  assumes "w = foldl session_next (new_session s) es" and "jm_get (lanes w) n = Some p" and "wire_lane p"
    and "Native_Subscribe t \<in> set (fst (subscribe_step w (Answered n a)))"
  shows "\<not> is_plugin_owned_topic (owned (server_of w)) t \<and> (\<not> armed (server_of w) \<or> lane_app_decides (server_of w) p)"
proof -
  have ok: "session_ok w" unfolding assms(1) by (rule sessions.run_inv)
  have en: "enrolled (conn_of w) (attempts p + flight (jm_del n (lanes w)))"
    using ok flight_del [of "lanes w" n p] assms(2) by (simp add: session_ok_def)
  have acts: "Native_Subscribe t \<in> set (fst (answer_lane (server_of w) a p (conn_of w)))"
    using assms(2,4) by (simp add: continue_lane_def split: prod.splits)
  show ?thesis
  proof (cases p)
    case (Wire_Gate u ref rec k)
    then have e: "enrolled (conn_of w) (add_mset (u, k) (flight (jm_del n (lanes w))))"
      and na: "Native_Subscribe t \<in> set (fst (subscribe_answered (server_of w) a u ref rec k (conn_of w)))"
      using en acts by simp_all
    show ?thesis using landing_native [OF e answered_native [OF e na]] landing_not_held(1) [OF na] open_landing Wire_Gate by auto
  next
    case (Wire_Resume u ref k)
    then have e: "enrolled (conn_of w) (add_mset (u, k) (flight (jm_del n (lanes w))))"
      and na: "Native_Subscribe t \<in> set (fst (subscribe_resumed (server_of w) a u ref k (conn_of w)))"
      using en acts by simp_all
    show ?thesis using landing_native [OF e resumed_native [OF na]] landing_not_held(2) [OF na] open_landing Wire_Resume by auto
  next
    case (Batch_Gate b)
    then have e: "enrolled (conn_of w) (item_attempts (b_items b) + flight (jm_del n (lanes w)))"
      and na: "Native_Subscribe t \<in> set (fst (batch_loop (server_of w) a b (hook_says a) False (b_items b) (conn_of w)))"
      using en acts by (auto simp: batch_answered_def Let_def split: if_splits)
    show ?thesis using loop_native [OF e na] open_landing Batch_Gate by auto
  next
    case (Batch_Resume b h)
    then have e: "enrolled (conn_of w) (item_attempts (b_items b) + flight (jm_del n (lanes w)))"
      and na: "Native_Subscribe t \<in> set (fst (batch_loop (server_of w) a b h True (b_items b) (conn_of w)))"
      using en acts by auto
    show ?thesis using loop_native [OF e na] open_landing Batch_Resume by auto
  qed (use assms(3) in auto)
qed

section \<open>The number of memberships\<close>

text \<open>Topics only leave, or the number of topics is within \<open>m\<close> after the step.\<close>

definition grows_within :: "nat \<Rightarrow> conn \<Rightarrow> conn \<Rightarrow> bool" where
  "grows_within m c c' \<longleftrightarrow> set (subs c') \<subseteq> set (subs c) \<or> card (set (subs c')) \<le> m"

lemma grows_same: "subs c' = subs c \<Longrightarrow> grows_within m c c'"
  by (simp add: grows_within_def)

lemma grows_trans: "grows_within m a b \<Longrightarrow> grows_within m b c \<Longrightarrow> grows_within m a c"
  unfolding grows_within_def by (meson List.finite_set card_mono order_trans)

lemma grows_subset: "(\<And>t. held t c' \<Longrightarrow> held t c) \<Longrightarrow> grows_within m c c'"
  by (auto simp: grows_within_def held_def)

lemma subs_close_attempt [simp]: "subs (close_attempt t e c) = subs c"
  by (simp add: close_attempt_def Let_def)

lemma subs_settle [simp]:
  "subs (snd (settle_pending_subscribe t k g c)) = subs c" "subs (snd (settle_held_subscribe t k c)) = subs c"
  "subs (snd (settle_denied_subscribe t k h c)) = subs c"
  by (auto simp: settle_pending_subscribe_def settle_held_subscribe_def settle_denied_subscribe_def Let_def split: option.split)

lemma subs_native: "native_subscribe t c = Some c' \<Longrightarrow> subs c' = subs c"
  by (auto simp: native_subscribe_def split: if_splits)

lemma card_install: "length (subs c) < m \<Longrightarrow> card (insert t (set (subs c))) \<le> m"
  using card_insert_le_m1 [of m "set (subs c)" t] card_length [of "subs c"] by simp

lemma grows_conn_op: "grows_within (max_subs l) c (conn_op_step l d c x)"
proof (cases "\<exists>t. x = Tracked_Subscribe t")
  case True
  then obtain t where x: "x = Tracked_Subscribe t" by blast
  show ?thesis
    using card_install [of c "max_subs l" t]
    by (cases "held t c") (auto simp: x tracked_subscribe_def exceeds_subscription_cap_def grows_within_def held_def
        insert_absorb dest: subs_native split: option.split)
next
  case False
  then show ?thesis by (intro grows_subset) (use held_conn_op in blast)
qed

lemma grows_unwind: "grows_within (max_subs (limits s)) c (unwind s a t c)"
proof -
  have ops: "grows_within (max_subs (limits s)) c (foldl (conn_op_step (limits s) (derived s)) c xs)" for c xs
    by (induction xs arbitrary: c) (auto simp: grows_same intro: grows_trans [OF grows_conn_op])
  have "grows_within (max_subs (limits s)) c (unwind_revoked_membership (derived s) t c)"
    by (rule grows_subset) (auto simp: unwind_revoked_membership_def dest: held_derived)
  then show ?thesis unfolding unwind_def by (rule grows_trans) (rule ops)
qed

lemma grows_refuse: "grows_within (max_subs (limits s)) c (snd (refuse s a t k c))"
proof -
  have "grows_within (max_subs (limits s)) c (snd (settle_denied_subscribe t k (held t c) c))" by (rule grows_same) simp
  then show ?thesis using grows_trans [OF _ grows_unwind]
    by (simp add: refuse_def unwind_if_def case_prod_unfold Let_def)
qed

lemma grows_land_held: "grows_within (max_subs (limits s)) c (snd (snd (land_held s a t k c)))"
proof -
  have "grows_within (max_subs (limits s)) c (snd (settle_held_subscribe t k c))" by (rule grows_same) simp
  then show ?thesis using grows_trans [OF _ grows_unwind]
    by (simp add: land_held_def unwind_if_def case_prod_unfold Let_def)
qed

fun resume_topic :: "'r parked \<Rightarrow> js_string set" where
  "resume_topic (Wire_Resume t ref k) = {t}"
| "resume_topic p = {}"

text \<open>Either nothing new is held or about to be, or the membership is within the cap.\<close>

definition fine :: "nat \<Rightarrow> js_string set \<Rightarrow> conn \<Rightarrow> bool" where
  "fine m T c' \<longleftrightarrow> set (subs c') \<subseteq> T \<or> card (set (subs c')) \<le> m"

definition capped_to :: "nat \<Rightarrow> js_string set \<Rightarrow> 'r outcome \<Rightarrow> bool" where
  "capped_to m T r \<longleftrightarrow> (set (subs (conn_after r)) \<union> (case snd (snd r) of None \<Rightarrow> {} | Some p \<Rightarrow> resume_topic p) \<subseteq> T) \<or>
    card (set (subs (conn_after r))) \<le> m"

lemma fine_grows: "grows_within m c c' \<Longrightarrow> set (subs c) \<subseteq> T \<Longrightarrow> fine m T c'"
  by (auto simp: fine_def grows_within_def)

lemma capped_None [simp]: "capped_to m T (as, c', None) = fine m T c'"
  by (simp add: capped_to_def fine_def)

lemma capped_pair [simp]: "capped_to m T (case X of (as, c1) \<Rightarrow> (f as, c1, None)) = fine m T (snd X)"
  by (cases X) simp

lemma capped_triple [simp]:
  "capped_to m T (case X of (ok, as, c1) \<Rightarrow> (f ok as, c1, None)) = fine m T (snd (snd X))"
  "capped_to m T (case X of (ok, as, c1) \<Rightarrow> if ok then (g as, c1, None) else (h as, c1, None)) = fine m T (snd (snd X))"
  by (cases X, simp)+

lemma capped_if: "(b \<Longrightarrow> capped_to m T x) \<Longrightarrow> (\<not> b \<Longrightarrow> capped_to m T y) \<Longrightarrow> capped_to m T (if b then x else y)"
  by simp

lemma capped_option:
  "(\<And>d. o' = Some d \<Longrightarrow> capped_to m T (f d)) \<Longrightarrow> (o' = None \<Longrightarrow> capped_to m T n) \<Longrightarrow>
    capped_to m T (case o' of Some d \<Rightarrow> f d | None \<Rightarrow> n)"
  by (cases o') simp_all

lemma settle_subs: "settle_pending_subscribe t k g c = (ok, c1) \<Longrightarrow> subs c1 = subs c"
  using subs_settle(1) [of t k g c] by simp

lemma install_subs:
  "settle_pending_subscribe t k g c = (ok, c1) \<Longrightarrow> native_subscribe t c1 = Some c2 \<Longrightarrow>
    set (subs (add_logical_subscription t c2)) = insert t (set (subs c))"
  by (simp add: subs_native settle_subs)

lemma fine_same: "subs c' = subs c \<Longrightarrow> set (subs c) \<subseteq> T \<Longrightarrow> fine m T c'"
  by (simp add: fine_def)

lemma fine_room:
  "\<not> exceeds_subscription_cap (held t c) (length (subs c)) (Some m) \<Longrightarrow> set (subs c') = insert t (set (subs c)) \<Longrightarrow>
    fine m (set (subs c)) c'"
  using card_install [of c m t]
  by (auto simp: exceeds_subscription_cap_def fine_def held_def split: if_splits)

lemma capped_landing:
  assumes "t \<in> T \<or> \<not> exceeds_subscription_cap (held t c) (length (subs c)) (Some m)" and "set (subs c) \<subseteq> T"
  shows "capped_to m T (subscribe_landing s a t ref k cap c)"
proof -
  have room: "fine m T c'" if "set (subs c') = insert t (set (subs c))" for c'
    using assms fine_room [of t c m c'] that by (auto simp: fine_def)
  obtain ok c1 where st: "settle_pending_subscribe t k True c = (ok, c1)" by fastforce
  have "fine m T c1" by (rule fine_same [OF settle_subs [OF st] assms(2)])
  moreover have "fine m T (snd (settle_pending_subscribe t k False c))" by (rule fine_same [OF _ assms(2)]) simp
  moreover have "fine m T (add_logical_subscription t c2)" "fine m T ((add_logical_subscription t c2)\<lparr>gone := True\<rparr>)"
    if "native_subscribe t c1 = Some c2" for c2 using install_subs [OF st that] by (auto intro: room)
  ultimately show ?thesis unfolding subscribe_landing_def Let_def st prod.case
    by (intro capped_if capped_option) simp_all
qed

lemma fine_refuse: "set (subs c) \<subseteq> T \<Longrightarrow> fine (max_subs (limits s)) T (snd (refuse s a t k c))"
  by (rule fine_grows [OF grows_refuse])

lemma fine_land_held: "set (subs c) \<subseteq> T \<Longrightarrow> fine (max_subs (limits s)) T (snd (snd (land_held s a t k c)))"
  by (rule fine_grows [OF grows_land_held])

lemma fine_settle: "set (subs c) \<subseteq> T \<Longrightarrow> fine m T (snd (settle_pending_subscribe t k g c))"
  by (rule fine_same [of _ c]) simp_all

lemma capped_answered:
  "capped_to (max_subs (limits s)) (set (subs c)) (subscribe_answered s a t ref rec k c)"
proof -
  have park: "capped_to (max_subs (limits s)) (set (subs c)) (as, c, Some (Wire_Resume t ref k))"
    if "\<not> exceeds_subscription_cap (held t c) (length (subs c)) (Some (max_subs (limits s)))" for as :: "'a act list"
    using that card_length [of "subs c"] by (auto simp: exceeds_subscription_cap_def held_def capped_to_def split: if_splits)
  show ?thesis unfolding subscribe_answered_def Let_def
    by (intro capped_option capped_if) (use park in \<open>simp_all add: fine_refuse fine_land_held fine_settle capped_landing\<close>)
qed

lemma capped_resumed:
  "capped_to (max_subs (limits s)) (insert t (set (subs c))) (subscribe_resumed s a t ref k c)"
proof -
  have sub: "set (subs c) \<subseteq> insert t (set (subs c))" by blast
  show ?thesis unfolding subscribe_resumed_def Let_def
    by (intro capped_if) (simp_all add: fine_refuse [OF sub] fine_land_held [OF sub] capped_landing [OF _ sub])
qed

lemma capped_platform:
  "capped_to (max_subs (limits s)) (set (subs c)) (platform_answered s a t k c)"
proof -
  obtain ok c1 where st: "settle_pending_subscribe t k True c = (ok, c1)" by fastforce
  have 1: "fine (max_subs (limits s)) (set (subs c)) c1" by (rule fine_same [OF settle_subs [OF st]]) simp
  have 2: "fine (max_subs (limits s)) (set (subs c)) (add_logical_subscription t c2)"
    if "\<not> exceeds_subscription_cap (held t c) (length (subs c)) (Some (max_subs (limits s)))" "native_subscribe t c1 = Some c2" for c2
    by (rule fine_room [OF that(1) install_subs [OF st that(2)]])
  show ?thesis unfolding platform_answered_def Let_def st prod.case
    by (intro capped_option capped_if) (use 1 2 in \<open>auto simp: fine_refuse fine_land_held fine_settle split: option.split\<close>)
qed

lemma capped_tap: "capped_to (max_subs (limits s)) (set (subs c)) (tap_answered s a t k before hook c)"
  unfolding tap_answered_def Let_def
  by (intro capped_if) (simp_all add: fine_refuse fine_land_held fine_settle case_prod_unfold)

lemma fine_fst_pair [simp]: "fine m T (fst (snd (case X of (as, c1) \<Rightarrow> (f as, c1, st)))) = fine m T (snd X)"
  by (cases X) simp

lemma fine_fst_triple [simp]:
  "fine m T (fst (snd (case X of (ok, as, c1) \<Rightarrow> if ok then (g as, c1, st) else (h as, c1, st')))) = fine m T (snd (snd X))"
  by (cases X) simp

lemma fine_if:
  "(b \<Longrightarrow> fine m T (fst (snd x))) \<Longrightarrow> (\<not> b \<Longrightarrow> fine m T (fst (snd y))) \<Longrightarrow> fine m T (fst (snd (if b then x else y)))"
  by simp

lemma fine_option:
  "fine m T (fst (snd x)) \<Longrightarrow> (\<And>d. v = Some d \<Longrightarrow> fine m T (fst (snd (y d)))) \<Longrightarrow>
    fine m T (fst (snd (case v of None \<Rightarrow> x | Some d \<Rightarrow> y d)))"
  by (cases v) simp_all

lemma grows_entry: "grows_within (max_subs (limits s)) c (fst (snd (batch_entry s a b h cap item c)))"
proof -
  obtain i t k z where item: "item = (i, t, k, z)" by (cases item) auto
  obtain ok c1 where st: "settle_pending_subscribe t k True c = (ok, c1)" by fastforce
  have 1: "fine (max_subs (limits s)) (set (subs c)) c1" by (rule fine_same [OF settle_subs [OF st]]) simp
  have 2: "fine (max_subs (limits s)) (set (subs c)) (add_logical_subscription t c2)"
    "fine (max_subs (limits s)) (set (subs c)) ((add_logical_subscription t c2)\<lparr>gone := True\<rparr>)"
    if "\<not> exceeds_subscription_cap (held t c) (length (subs c)) (Some (max_subs (limits s)))" "native_subscribe t c1 = Some c2" for c2
    using install_subs [OF st that(2)] by (auto intro: fine_room [OF that(1)])
  have "fine (max_subs (limits s)) (set (subs c)) (fst (snd (batch_entry s a b h cap item c)))"
    unfolding item batch_entry_def prod.case Let_def st
    by (intro fine_option fine_if) (use 1 2 in \<open>simp_all add: fine_refuse fine_land_held fine_settle\<close>)
  then show ?thesis by (simp add: fine_def grows_within_def)
qed

lemma grows_loop: "grows_within (max_subs (limits s)) c (conn_after (batch_loop s a b h cap items c))"
proof (induction items arbitrary: c)
  case Nil
  then show ?case by (simp add: grows_same)
next
  case (Cons item items)
  obtain as c1 stop where en: "batch_entry s a b h cap item c = (as, c1, stop)"
    and l: "batch_loop s a b h cap (item # items) c =
      (if stop then (as @ discard_if cap, c1, Some (Batch_Stopped items))
       else (as @ fst (batch_loop s a b h cap items c1), snd (batch_loop s a b h cap items c1)))"
    by (rule loop_step)
  have "grows_within (max_subs (limits s)) c c1" using grows_entry [of s c a b h cap item] en by simp
  then show ?case using grows_trans [OF _ Cons.IH [of c1]] unfolding l by (simp add: conn_after_def)
qed

definition pool :: "'r session \<Rightarrow> js_string set" where
  "pool w = set (subs (conn_of w)) \<union> (\<Union>q\<in>set (lanes w). resume_topic (snd q))"

definition resumes :: "'r session \<Rightarrow> js_string set" where
  "resumes w = (\<Union>q\<in>set (lanes w). resume_topic (snd q))"

lemma resume_topic_attempts: "resume_topic p \<subseteq> fst ` set_mset (attempts p)"
  by (cases p) auto

lemma resumes_flight: "resumes w \<subseteq> fst ` set_mset (flight (lanes w))"
proof -
  have "(\<Union>q\<in>set m. resume_topic (snd q)) \<subseteq> fst ` set_mset (flight m)" for m :: "(nat, 'a parked) jsmap"
  proof (induction m)
    case (Cons q m)
    have "fst ` set_mset (flight (q # m)) = fst ` set_mset (attempts (snd q)) \<union> fst ` set_mset (flight m)"
      by (simp add: flight_def image_Un)
    then show ?case using Cons.IH resume_topic_attempts [of "snd q"] by auto
  qed simp
  then show ?thesis by (simp add: resumes_def)
qed

lemma card_resumes: "within_budget l w \<Longrightarrow> finite (resumes w) \<and> card (resumes w) \<le> max_pend l"
proof -
  assume b: "within_budget l w"
  have f: "finite (fst ` set_mset (flight (lanes w)))" by simp
  have "card (resumes w) \<le> card (fst ` set_mset (flight (lanes w)))" by (rule card_mono [OF f resumes_flight])
  also have "\<dots> \<le> card (set_mset (flight (lanes w)))" by (rule card_image_le) simp
  also have "\<dots> \<le> size (flight (lanes w))"
    by (rule multiset_induct [of _ "flight (lanes w)"]) (auto simp: card_insert_if)
  finally show ?thesis using b finite_subset [OF resumes_flight f] by (simp add: within_budget_def)
qed

definition within_caps :: "caps \<Rightarrow> 'r session \<Rightarrow> bool" where
  "within_caps l w \<longleftrightarrow> within_budget l w \<and> card (pool w) \<le> max_subs l + max_pend l"

lemma pool_resumes: "pool w = set (subs (conn_of w)) \<union> resumes w"
  by (simp add: pool_def resumes_def)

lemma resume_topic_starts:
  "(case snd (snd (handle_subscribe s t ref rec c)) of None \<Rightarrow> {} | Some p \<Rightarrow> resume_topic p) = {}"
  "(case snd (snd (handle_subscribe_batch s ts ref recs c)) of None \<Rightarrow> {} | Some p \<Rightarrow> resume_topic p) = {}"
  "(case snd (snd (platform_subscribe s t c)) of None \<Rightarrow> {} | Some p \<Rightarrow> resume_topic p) = {}"
  "(case snd (snd (authorize_derived_subscribe s t c)) of None \<Rightarrow> {} | Some p \<Rightarrow> resume_topic p) = {}"
  by (auto simp: handle_subscribe_def handle_subscribe_batch_def platform_subscribe_def authorize_derived_subscribe_def
      case_prod_unfold Let_def split: option.split)

lemma subs_begin [simp]: "subs (snd (begin_pending_subscribe t h c)) = subs c"
  by (simp add: begin_pending_subscribe_def Let_def)

lemma subs_begin_batch [simp]: "subs (snd (begin_batch ts c)) = subs c"
  by (induction ts arbitrary: c) (simp_all add: case_prod_unfold Let_def)

lemma subs_starts:
  "subs (conn_after (handle_subscribe s t ref rec c)) = subs c"
  "subs (conn_after (handle_subscribe_batch s ts ref recs c)) = subs c"
  "subs (conn_after (platform_subscribe s t c)) = subs c"
  "subs (conn_after (authorize_derived_subscribe s t c)) = subs c"
  by (simp_all add: handle_subscribe_def handle_subscribe_batch_def platform_subscribe_def
      authorize_derived_subscribe_def case_prod_unfold Let_def conn_after_def)

lemma capped_starts:
  "capped_to m (set (subs c)) (handle_subscribe s t ref rec c)"
  "capped_to m (set (subs c)) (handle_subscribe_batch s ts ref recs c)"
  "capped_to m (set (subs c)) (platform_subscribe s t c)"
  "capped_to m (set (subs c)) (authorize_derived_subscribe s t c)"
  by (simp_all add: capped_to_def resume_topic_starts subs_starts)

lemma capped_lane:
  "capped_to (max_subs (limits s)) (set (subs c) \<union> resume_topic p) (answer_lane s a p c)"
proof (cases p)
  case (Wire_Resume t ref k)
  then show ?thesis by (simp add: capped_resumed)
next
  case (Batch_Gate b)
  have park: "resume_topic q = {}" if "snd (snd (batch_loop s a b h cap items c')) = Some q" for h cap items c' q
    using that by (induction items arbitrary: c') (auto simp: Let_def case_prod_unfold split: if_splits)
  show ?thesis using grows_loop [of s c a b "hook_says a" False "b_items b"] park Batch_Gate
    by (auto simp: batch_answered_def Let_def capped_to_def grows_within_def split: option.split)
next
  case (Batch_Resume b h)
  have park: "resume_topic q = {}" if "snd (snd (batch_loop s a b h cap items c')) = Some q" for h cap items c' q
    using that by (induction items arbitrary: c') (auto simp: Let_def case_prod_unfold split: if_splits)
  show ?thesis using grows_loop [of s c a b h True "b_items b"] park Batch_Resume
    by (auto simp: capped_to_def grows_within_def split: option.split)
qed (simp_all add: capped_answered capped_platform capped_tap, simp add: capped_to_def)

lemma pool_step:
  assumes "capped_to m T r" and "T \<subseteq> pool w" and "conn_of w' = conn_after r"
    and "resumes w' \<subseteq> resumes w \<union> (case snd (snd r) of None \<Rightarrow> {} | Some p \<Rightarrow> resume_topic p)"
  shows "pool w' \<subseteq> pool w \<or> card (set (subs (conn_of w'))) \<le> m"
  using assms(1,2,4) unfolding capped_to_def pool_resumes assms(3) by blast

lemma within_caps_step:
  assumes "within_caps l w"
  shows "within_caps l (session_next w e)"
proof -
  let ?w' = "session_next w e"
  have b: "within_budget l w" and c: "card (pool w) \<le> max_subs l + max_pend l" using assms by (auto simp: within_caps_def)
  have ok: "session_ok w" and l: "limits (server_of w) = l" using b by (auto simp: within_budget_def)
  have b': "within_budget l ?w'" by (rule budget_step [OF b])
  have start: "pool ?w' \<subseteq> pool w \<or> card (set (subs (conn_of ?w'))) \<le> max_subs l"
    if "subscribe_step w e = start_lane r w" and "capped_to (max_subs l) (set (subs (conn_of w))) r" for r
  proof (rule pool_step [OF that(2)])
    have st: "start_lane r w = (fst (start_lane r w), ?w')" using that(1) by (simp add: session_next_def)
    show "conn_of ?w' = conn_after r" by (rule start_lane_flight(3) [OF ok st])
    show "resumes ?w' \<subseteq> resumes w \<union> (case snd (snd r) of None \<Rightarrow> {} | Some p \<Rightarrow> resume_topic p)"
      using that(1) mem_jm_set [of _ "next_lane w" _ "lanes w"]
      by (fastforce simp: session_next_def start_lane_def resumes_def split: prod.splits option.splits)
  qed (simp add: pool_def)
  have "pool ?w' \<subseteq> pool w \<or> card (set (subs (conn_of ?w'))) \<le> max_subs l"
  proof (cases e)
    case (Subscribe_Frame t ref rec)
    show ?thesis by (rule start [OF _ capped_starts(1)]) (simp add: Subscribe_Frame)
  next
    case (Subscribe_Batch_Frame ts ref recs)
    show ?thesis by (rule start [OF _ capped_starts(2)]) (simp add: Subscribe_Batch_Frame)
  next
    case (Platform_Subscribe t)
    show ?thesis by (rule start [OF _ capped_starts(3)]) (simp add: Platform_Subscribe)
  next
    case (Tap_Requested t)
    show ?thesis by (rule start [OF _ capped_starts(4)]) (simp add: Tap_Requested)
  next
    case (Answered n a)
    show ?thesis
    proof (cases "jm_get (lanes w) n")
      case None
      then show ?thesis using Answered by (simp add: session_next_def)
    next
      case (Some p)
      let ?r = "answer_lane (server_of w) a p (conn_of w)"
      have st: "continue_lane n ?r w = (fst (continue_lane n ?r w), ?w')" using Answered Some by (simp add: session_next_def)
      show ?thesis
      proof (rule pool_step [OF capped_lane [of "server_of w" "conn_of w" p a, unfolded l]])
        show "set (subs (conn_of w)) \<union> resume_topic p \<subseteq> pool w"
          using jm_get_Some_mem [OF Some] by (force simp: pool_def)
        show "conn_of ?w' = conn_after ?r" by (rule continue_lane_flight(3) [OF ok Some st])
        show "resumes ?w' \<subseteq> resumes w \<union> (case snd (snd ?r) of None \<Rightarrow> {} | Some q \<Rightarrow> resume_topic q)"
          using Answered Some mem_jm_set [of _ n _ "lanes w"] mem_jm_del_subset [of n "lanes w"]
          by (fastforce simp: session_next_def continue_lane_def resumes_def split: prod.splits option.splits)
      qed
    qed
  next
    case (Application x)
    then have "resumes ?w' = resumes w" and "conn_of ?w' = conn_op_step l (derived (server_of w)) (conn_of w) x"
      by (simp_all add: session_next_def resumes_def l)
    then show ?thesis using grows_conn_op [of l "conn_of w" "derived (server_of w)" x]
      by (auto simp: grows_within_def pool_resumes)
  qed (simp_all add: session_next_def pool_def)
  then show ?thesis
  proof
    assume "pool ?w' \<subseteq> pool w"
    moreover have "finite (pool w)" using card_resumes [OF b] by (simp add: pool_resumes)
    ultimately have "card (pool ?w') \<le> card (pool w)" by (rule card_mono [rotated])
    then show ?thesis using b' c by (simp add: within_caps_def)
  next
    assume "card (set (subs (conn_of ?w'))) \<le> max_subs l"
    moreover have "card (pool ?w') \<le> card (set (subs (conn_of ?w'))) + card (resumes ?w')"
      unfolding pool_resumes by (rule card_Un_le)
    ultimately show ?thesis using b' card_resumes [OF b'] by (simp add: within_caps_def)
  qed
qed

interpretation caps_hold: machine "new_session s" session_next "within_caps (limits s)" for s
proof
  show "within_caps (limits s) (new_session s)"
    using budget_new [of s] by (simp add: within_caps_def, simp add: pool_def new_session_def open_conn_def)
qed (rule within_caps_step)

text \<open>C21: A connection never holds more topics than the subscription cap plus the cap on subscribes in
  flight. The cap alone is not a bound: the single frame checks it before its resume hook is awaited
  and not again when it lands, so frames parked in their resume can each land beyond it.\<close>

theorem subscriptions_bounded:
  assumes "w = foldl session_next (new_session s) es"
  shows "length (subs (conn_of w)) \<le> max_subs (limits s) + max_pend (limits s)"
proof -
  have c: "within_caps (limits s) w" unfolding assms by (rule caps_hold.run_inv)
  then have b: "within_budget (limits s) w" by (simp add: within_caps_def)
  then have "distinct (subs (conn_of w))" by (simp add: within_budget_def session_ok_def membership_ok_def)
  then have "length (subs (conn_of w)) = card (set (subs (conn_of w)))" by (simp add: distinct_card)
  also have "\<dots> \<le> card (pool w)" using card_resumes [OF b] by (intro card_mono) (auto simp: pool_resumes)
  finally show ?thesis using c by (simp add: within_caps_def)
qed

end
