(* ===== verification/Subscribe_Answers.thy ===== *)
theory Subscribe_Answers
  imports Subscribe_Bounds
begin

text \<open>
  Every subscribe frame that carries a reference is answered once per topic, captures opened for a
  resume are closed, and the runs that show the other theorems' hypotheses can hold.
\<close>

section \<open>Replies\<close>

definition replies :: "'r act list \<Rightarrow> (js_string \<times> 'r) list" where
  "replies as = concat (map (\<lambda>x. case x of Ack t r \<Rightarrow> [(t, r)] | Deny t r d \<Rightarrow> [(t, r)] | _ \<Rightarrow> []) as)"

text \<open>What a frame with these topics is owed, what a parked lane still owes, and what all of them owe.\<close>

fun asks :: "'r option \<Rightarrow> js_string list \<Rightarrow> (js_string \<times> 'r) list" where
  "asks None ts = []"
| "asks (Some r) ts = map (\<lambda>t. (t, r)) ts"

fun frame_asks :: "'r event \<Rightarrow> (js_string \<times> 'r) list" where
  "frame_asks (Subscribe_Frame t ref rec) = asks ref [t]"
| "frame_asks (Subscribe_Batch_Frame ts ref recs) = asks ref ts"
| "frame_asks e = []"

fun lane_topics :: "'r parked \<Rightarrow> js_string list" where
  "lane_topics (Wire_Gate t ref rec k) = [t]"
| "lane_topics (Wire_Resume t ref k) = [t]"
| "lane_topics (Batch_Gate b) = map (\<lambda>(i, t, k, z). t) (b_items b)"
| "lane_topics (Batch_Resume b h) = map (\<lambda>(i, t, k, z). t) (b_items b)"
| "lane_topics p = []"

fun lane_asks :: "'r parked \<Rightarrow> (js_string \<times> 'r) list" where
  "lane_asks (Wire_Gate t ref rec k) = asks ref [t]"
| "lane_asks (Wire_Resume t ref k) = asks ref [t]"
| "lane_asks (Batch_Gate b) = asks (b_ref b) (lane_topics (Batch_Gate b))"
| "lane_asks (Batch_Resume b h) = asks (b_ref b) (lane_topics (Batch_Resume b h))"
| "lane_asks p = []"

definition unanswered :: "'r session \<Rightarrow> (js_string \<times> 'r) multiset" where
  "unanswered w = sum_list (map (\<lambda>p. mset (lane_asks (snd p))) (lanes w))"

fun run_replies :: "'r session \<Rightarrow> 'r event list \<Rightarrow> (js_string \<times> 'r) list" where
  "run_replies w [] = []"
| "run_replies w (e # es) = replies (fst (subscribe_step w e)) @ run_replies (session_next w e) es"

text \<open>A capture is closed when every topic was flushed or the whole of it discarded.\<close>

definition closes_capture :: "js_string list \<Rightarrow> 'r act list \<Rightarrow> bool" where
  "closes_capture ts as \<longleftrightarrow> Capture_Discarded \<in> set as \<or> (\<forall>t \<in> set ts. Capture_Flushed t \<in> set as)"

fun resuming :: "'r parked \<Rightarrow> bool" where
  "resuming (Wire_Resume t ref k) = True"
| "resuming (Batch_Resume b h) = True"
| "resuming p = False"

lemma replies_simps [simp]:
  "replies [] = []" "replies (as @ bs) = replies as @ replies bs"
  "replies (x # as) = (case x of Ack t r \<Rightarrow> [(t, r)] | Deny t r d \<Rightarrow> [(t, r)] | _ \<Rightarrow> []) @ replies as"
  by (simp_all add: replies_def)

lemma replies_sends [simp]:
  "replies (send_subscribed t ref) = asks ref [t]" "replies (send_denied t ref d) = asks ref [t]"
  "replies (discard_if cap) = []"
  by (cases ref; simp add: send_subscribed_def send_denied_def discard_if_def)+

lemma asks_append: "asks ref (ts @ us) = asks ref ts @ asks ref us"
  by (cases ref) simp_all

lemma asks_Cons: "asks ref (t # ts) = asks ref [t] @ asks ref ts"
  by (cases ref) simp_all

lemma replies_refuse [simp]: "replies (fst (refuse s a t k c)) = []"
  by (simp add: refuse_def unwind_if_def case_prod_unfold Let_def)

lemma replies_land_held [simp]: "replies (fst (snd (land_held s a t k c))) = []"
  by (simp add: land_held_def unwind_if_def case_prod_unfold Let_def)

lemma gone_close_attempt [simp]: "gone (close_attempt t e c) = gone c"
  by (simp add: close_attempt_def Let_def)

lemma gone_settle [simp]:
  "gone (snd (settle_pending_subscribe t k g c)) = gone c"
  by (auto simp: settle_pending_subscribe_def Let_def split: option.split)

lemma settle_gone: "settle_pending_subscribe t k g c = (ok, c1) \<Longrightarrow> gone c1 = gone c"
  using gone_settle [of t k g c] by simp

section \<open>What a lane answers\<close>

text \<open>Nothing twice; and on an open socket everything, in order, when the lane ends, nothing when it is parked.\<close>

definition parked_asks :: "'r outcome \<Rightarrow> (js_string \<times> 'r) list" where
  "parked_asks r = (case snd (snd r) of None \<Rightarrow> [] | Some p \<Rightarrow> lane_asks p)"

definition answers :: "(js_string \<times> 'r) list \<Rightarrow> 'r outcome \<Rightarrow> bool" where
  "answers owed r \<longleftrightarrow> mset (replies (fst r)) + mset (parked_asks r) \<subseteq># mset owed \<and>
    (\<not> gone (conn_after r) \<longrightarrow> (snd (snd r) = None \<and> replies (fst r) = owed) \<or>
       (snd (snd r) \<noteq> None \<and> replies (fst r) = [] \<and> parked_asks r = owed))"

lemma answers_ended [simp]: "answers owed (as, c, None) \<longleftrightarrow>
    mset (replies as) \<subseteq># mset owed \<and> (\<not> gone c \<longrightarrow> replies as = owed)"
  by (simp add: answers_def parked_asks_def conn_after_def)

lemma answers_parked: "replies as = [] \<Longrightarrow> lane_asks p = owed \<Longrightarrow> answers owed (as, c, Some p)"
  by (simp add: answers_def parked_asks_def)

lemma landing_answers: "answers (asks ref [t]) (subscribe_landing s a t ref k cap c)"
proof -
  obtain ok c1 where st: "settle_pending_subscribe t k True c = (ok, c1)" by fastforce
  show ?thesis unfolding subscribe_landing_def st Let_def prod.case
    by (auto simp: native_subscribe_def split: option.split)
qed

lemma landing_closes: "closes_capture [t] (fst (subscribe_landing s a t ref k True c))"
  by (auto simp: subscribe_landing_def Let_def closes_capture_def discard_if_def split: prod.split option.split)

lemma answered_answers: "answers (asks ref [t]) (subscribe_answered s a t ref rec k c)"
  using landing_answers [of ref t s a k False c]
  by (auto simp: subscribe_answered_def case_prod_unfold Let_def answers_parked split: option.split)

lemma resumed_answers: "answers (asks ref [t]) (subscribe_resumed s a t ref k c)"
  using landing_answers [of ref t s a k True c]
  by (auto simp: subscribe_resumed_def case_prod_unfold Let_def)

lemma resumed_closes: "closes_capture [t] (fst (subscribe_resumed s a t ref k c))"
  using landing_closes [of t s a ref k c]
  by (auto simp: subscribe_resumed_def case_prod_unfold Let_def closes_capture_def)

lemma entry_answers:
  assumes "batch_entry s a b h cap (i, t, k, z) c = (as, c1, stop)"
  shows "mset (replies as) \<subseteq># mset (asks (b_ref b) [t])"
    and "\<not> gone c1 \<Longrightarrow> replies as = asks (b_ref b) [t] \<and> \<not> stop"
proof -
  obtain ok c0 where st: "settle_pending_subscribe t k True c = (ok, c0)" by fastforce
  show "mset (replies as) \<subseteq># mset (asks (b_ref b) [t])"
    "\<not> gone c1 \<Longrightarrow> replies as = asks (b_ref b) [t] \<and> \<not> stop"
    using assms unfolding batch_entry_def st Let_def prod.case
    by (auto simp: native_subscribe_def case_prod_unfold split: if_splits option.splits)
qed

lemma loop_answers:
  "enrolled c (item_attempts items + F) \<Longrightarrow>
    answers (asks (b_ref b) (map (\<lambda>(i, t, k, z). t) items)) (batch_loop s a b h cap items c) \<and>
    (\<not> gone (conn_after (batch_loop s a b h cap items c)) \<longrightarrow> snd (snd (batch_loop s a b h cap items c)) = None)"
proof (induction items arbitrary: c)
  case Nil
  then show ?case by (cases "b_ref b") simp_all
next
  case (Cons item items)
  obtain i t k z where item: "item = (i, t, k, z)" by (cases item) auto
  obtain as c1 stop where en: "batch_entry s a b h cap item c = (as, c1, stop)"
    and l: "batch_loop s a b h cap (item # items) c =
      (if stop then (as @ discard_if cap, c1, Some (Batch_Stopped items))
       else (as @ fst (batch_loop s a b h cap items c1), snd (batch_loop s a b h cap items c1)))"
    by (rule loop_step)
  let ?r = "batch_loop s a b h cap items c1" and ?rest = "asks (b_ref b) (map (\<lambda>(i, t, k, z). t) items)"
  have owed: "asks (b_ref b) (map (\<lambda>(i, t, k, z). t) (item # items)) = asks (b_ref b) [t] @ ?rest"
    unfolding item by (subst asks_Cons [symmetric]) simp
  have e: "enrolled c (add_mset (t, k) (item_attempts items + F))" using Cons.prems(1) item by simp
  have 1: "gets_to (item_attempts items + F) c c1"
    using reaches_batch_entry [OF e, of s a b h cap i z] en item by simp
  note entry = entry_answers [OF en [unfolded item]]
  note ih = Cons.IH [OF reaches_enrolled [OF 1]]
  have "gets_to (left_in_flight ?r + F) c1 (conn_after ?r)"
    using runs_batch_loop [OF reaches_enrolled [OF 1], of s a b h cap] by (simp add: runs_to_def)
  then have mono: "gone c1 \<longrightarrow> gone (conn_after ?r)" by (simp add: gets_to_def)
  show ?case
  proof (cases stop)
    case True
    then have "gone c1" using entry(2) by blast
    then show ?thesis using entry(1) subset_mset.add_increasing2 [OF subset_mset.zero_le] unfolding l owed
      by (simp add: True answers_def parked_asks_def conn_after_def subset_mset.add_increasing2)
  next
    case False
    have "mset (replies as) + (mset (replies (fst ?r)) + mset (parked_asks ?r)) \<subseteq># mset (asks (b_ref b) [t]) + mset ?rest"
      using entry(1) ih unfolding answers_def by (intro subset_mset.add_mono) blast+
    then show ?thesis using False entry(2) ih mono unfolding l owed answers_def
      by (auto simp: parked_asks_def conn_after_def add.assoc)
  qed
qed

lemma loop_discards: "Capture_Discarded \<in> set (fst (batch_loop s a b h True items c))"
proof (induction items arbitrary: c)
  case Nil
  then show ?case by (simp add: discard_if_def)
next
  case (Cons item items)
  obtain as c1 stop where l: "batch_loop s a b h True (item # items) c =
      (if stop then (as @ discard_if True, c1, Some (Batch_Stopped items))
       else (as @ fst (batch_loop s a b h True items c1), snd (batch_loop s a b h True items c1)))"
    using loop_step [of s a b h True item c items] by metis
  show ?case using Cons.IH [of c1] unfolding l by (auto simp: discard_if_def)
qed

lemma replies_platform: "replies (fst (platform_subscribe s t c)) = []" "replies (fst (platform_answered s a t k c)) = []"
  "replies (fst (authorize_derived_subscribe s t c)) = []" "replies (fst (tap_answered s a t k before hook c)) = []"
  by (auto simp: platform_subscribe_def platform_answered_def authorize_derived_subscribe_def tap_answered_def
      case_prod_unfold Let_def split: option.split)

lemma parked_platform: "parked_asks (platform_subscribe s t c) = []" "parked_asks (platform_answered s a t k c) = []"
  "parked_asks (authorize_derived_subscribe s t c) = []" "parked_asks (tap_answered s a t k before hook c) = []"
  by (auto simp: platform_subscribe_def platform_answered_def authorize_derived_subscribe_def tap_answered_def
      parked_asks_def case_prod_unfold Let_def split: option.split)

lemma lane_answers:
  assumes "enrolled c (attempts p + F)"
  shows "mset (replies (fst (answer_lane s a p c))) + mset (parked_asks (answer_lane s a p c)) \<subseteq># mset (lane_asks p)"
    and "\<not> gone (conn_after (answer_lane s a p c)) \<Longrightarrow>
      (if snd (snd (answer_lane s a p c)) = None then replies (fst (answer_lane s a p c)) = lane_asks p
       else replies (fst (answer_lane s a p c)) = [] \<and> parked_asks (answer_lane s a p c) = lane_asks p)"
    and "resuming p \<Longrightarrow> closes_capture (lane_topics p) (fst (answer_lane s a p c))"
proof -
  have "answers (lane_asks p) (answer_lane s a p c) \<or>
      (replies (fst (answer_lane s a p c)) = [] \<and> parked_asks (answer_lane s a p c) = [] \<and> lane_asks p = [])"
  proof (cases p)
    case (Batch_Gate b)
    then show ?thesis using loop_answers [of c "b_items b" F b s a "hook_says a" False] assms
      by (auto simp: batch_answered_def Let_def intro!: answers_parked)
  next
    case (Batch_Resume b h)
    then show ?thesis using loop_answers [of c "b_items b" F b s a h True] assms by simp
  qed (simp_all add: answered_answers resumed_answers replies_platform parked_platform, simp add: parked_asks_def)
  then show "mset (replies (fst (answer_lane s a p c))) + mset (parked_asks (answer_lane s a p c)) \<subseteq># mset (lane_asks p)"
    "\<not> gone (conn_after (answer_lane s a p c)) \<Longrightarrow>
      (if snd (snd (answer_lane s a p c)) = None then replies (fst (answer_lane s a p c)) = lane_asks p
       else replies (fst (answer_lane s a p c)) = [] \<and> parked_asks (answer_lane s a p c) = lane_asks p)"
    by (auto simp: answers_def)
  show "resuming p \<Longrightarrow> closes_capture (lane_topics p) (fst (answer_lane s a p c))"
    using resumed_closes [of _ s a _ _ c, unfolded closes_capture_def]
    by (cases p) (simp_all add: closes_capture_def loop_discards)
qed

section \<open>What a frame answers at once\<close>

lemma subscribe_frame_answers:
  "replies (fst (handle_subscribe s t ref rec c)) @ parked_asks (handle_subscribe s t ref rec c) = asks ref [t]"
  by (auto simp: handle_subscribe_def parked_asks_def denies_ref_less_recover_def Let_def split: prod.split)

lemma length_begin_batch: "length (fst (begin_batch ts c)) = length ts"
  by (induction ts arbitrary: c) (simp_all add: case_prod_unfold Let_def)

lemma replies_concat: "replies (concat (map f xs)) = concat (map (replies \<circ> f) xs)"
  by (induction xs) simp_all

lemma mset_asks_split: "mset (concat (map (\<lambda>t. if P t then asks ref [t] else []) ts)) +
    mset (asks ref (filter (\<lambda>t. \<not> P t) ts)) = mset (asks ref ts)"
proof (cases ref)
  case None
  then have none: "asks ref us = []" for us by simp
  have "(if P t then [] else []) = ([] :: (js_string \<times> 'b) list)" for t by simp
  then show ?thesis unfolding none by simp
next
  case (Some r)
  show ?thesis unfolding Some asks.simps
  proof (induction ts)
    case (Cons t ts)
    then show ?case by (cases "P t") simp_all
  qed simp
qed

lemma concat_asks: "concat (map (\<lambda>t. asks ref [t]) ts) = asks ref ts"
  by (cases ref) (simp_all add: concat_map_singleton)

lemma batch_frame_answers:
  "mset (replies (fst (handle_subscribe_batch s ts ref recs c))) + mset (parked_asks (handle_subscribe_batch s ts ref recs c)) =
     mset (asks ref ts)"
proof (cases "denies_ref_less_recover_batch (resume_hook s) (case recs of None \<Rightarrow> [] | Some m \<Rightarrow> m) ref")
  case True
  then have "ref = None" by (auto simp: denies_ref_less_recover_batch_def split: if_splits)
  then show ?thesis using True by (simp add: handle_subscribe_batch_def parked_asks_def)
next
  case False
  define valid where "valid = filter (\<lambda>t. \<not> batch_entry_denied s t) (take 256 ts)"
  define authz where "authz = map (\<lambda>t. wire_authz s \<and> denies_wire_subscribe_pre_hook (owned s) (armed s) (app_decides s)
             (held t c \<and> \<not> membership_unconfirmed c t) t) valid"
  define room where "room = nat (int (max_pend (limits s)) - pend_total c)"
  obtain tokens c1 where bb: "begin_batch (take room valid) c = (tokens, c1)" by fastforce
  let ?over = "concat (map (\<lambda>(t, z). send_denied t ref (if z then Forbidden else Rate_Limited)) (drop room (zip valid authz)))"
  let ?bad = "concat (map (\<lambda>t. if batch_entry_denied s t then send_denied t ref Invalid_Topic else []) (take 256 ts))"
  let ?most = "concat (map (\<lambda>t. send_denied t ref Batch_Overflow) (drop 256 ts))"
  have r: "handle_subscribe_batch s ts ref recs c = (?most @ ?bad @ ?over, c1,
      Some (Batch_Gate \<lparr>b_ref = ref, b_items = zip [0..<length (take room valid)] (zip (take room valid) (zip tokens authz)),
        b_recover = recs, b_user_hook = user_hook s\<rparr>))"
    using False bb by (simp add: handle_subscribe_batch_def Let_def flip: valid_def room_def, simp flip: authz_def)
  have len: "length authz = length valid" "length tokens = length (take room valid)"
    using length_begin_batch [of "take room valid" c] bb by (simp_all add: authz_def)
  have "map (\<lambda>(i, t, k, z). t) (zip [0..<length (take room valid)] (zip (take room valid) (zip tokens authz))) = take room valid"
    using len by (intro nth_equalityI) simp_all
  then have parked: "parked_asks (handle_subscribe_batch s ts ref recs c) = asks ref (take room valid)"
    unfolding r by (simp add: parked_asks_def)
  have "replies ?over = concat (map (\<lambda>t. asks ref [t]) (map fst (drop room (zip valid authz))))"
    by (simp add: replies_concat comp_def case_prod_unfold)
  also have "map fst (drop room (zip valid authz)) = drop room valid" using len by (simp add: drop_zip)
  finally have over: "replies ?over = asks ref (drop room valid)" by (simp add: concat_asks)
  have most: "replies ?most = asks ref (drop 256 ts)" by (simp add: replies_concat comp_def concat_asks)
  have "replies ?bad = concat (map (\<lambda>t. if batch_entry_denied s t then asks ref [t] else []) (take 256 ts))"
    by (simp add: replies_concat comp_def if_distrib cong: if_cong)
  then have bad: "mset (replies ?bad) + mset (asks ref valid) = mset (asks ref (take 256 ts))"
    using mset_asks_split [of "batch_entry_denied s" ref "take 256 ts"] by (simp add: valid_def)
  define O' B D K where "O' = mset (asks ref (drop 256 ts))" and "B = mset (replies ?bad)"
    and "D = mset (asks ref (drop room valid))" and "K = mset (asks ref (take room valid))"
  have split: "K + D = mset (asks ref valid)" "mset (asks ref (take 256 ts)) + O' = mset (asks ref ts)"
    by (simp_all add: K_def D_def O'_def flip: mset_append asks_append)
  have "mset (replies (fst (handle_subscribe_batch s ts ref recs c))) = O' + (B + D)"
    unfolding r O'_def B_def D_def by (simp only: fst_conv replies_simps(2) over most mset_append)
  moreover have "mset (parked_asks (handle_subscribe_batch s ts ref recs c)) = K" by (simp add: parked K_def)
  moreover have "O' + (B + D) + K = B + (K + D) + O'" by (simp only: ac_simps)
  moreover have "B + (K + D) + O' = mset (asks ref ts)" using bad by (simp only: split B_def)
  ultimately show ?thesis by simp
qed

section \<open>Nothing lost, nothing twice\<close>

lemma unanswered_start:
  assumes "session_ok w" and "start_lane r w = (as, w')"
  shows "unanswered w' = mset (parked_asks r) + unanswered w" and "conn_of w' = conn_after r" and "as = fst r"
proof -
  have "jm_del (next_lane w) (lanes w) = lanes w" and wf: "jm_wf (lanes w)"
    using assms(1) by (auto simp: session_ok_def intro!: jm_del_absent)
  then show "unanswered w' = mset (parked_asks r) + unanswered w"
    using assms(2) lane_sum_set [OF wf, of "\<lambda>p. mset (lane_asks p)"]
    by (auto simp: start_lane_def unanswered_def parked_asks_def split: prod.splits option.splits)
  show "conn_of w' = conn_after r" "as = fst r"
    using assms(2) by (auto simp: start_lane_def conn_after_def split: prod.splits option.splits)
qed

lemma unanswered_continue:
  assumes "session_ok w" and "jm_get (lanes w) n = Some p" and "continue_lane n r w = (as, w')"
  shows "unanswered w' + mset (lane_asks p) = mset (parked_asks r) + unanswered w" and "conn_of w' = conn_after r" and "as = fst r"
proof -
  have wf: "jm_wf (lanes w)" using assms(1) by (simp add: session_ok_def)
  then show "unanswered w' + mset (lane_asks p) = mset (parked_asks r) + unanswered w"
    using assms(3) lane_sum_set [OF wf, of "\<lambda>p. mset (lane_asks p)" n]
      lane_sum_del [OF wf assms(2), of "\<lambda>p. mset (lane_asks p)"]
    by (auto simp: continue_lane_def unanswered_def parked_asks_def split: prod.splits option.splits)
  show "conn_of w' = conn_after r" "as = fst r"
    using assms(3) by (auto simp: continue_lane_def conn_after_def split: prod.splits)
qed

lemma unanswered_step:
  assumes ok: "session_ok w" and st: "subscribe_step w e = (as, w')"
  shows "mset (replies as) + unanswered w' \<subseteq># mset (frame_asks e) + unanswered w"
    and "\<not> gone (conn_of w') \<Longrightarrow> mset (replies as) + unanswered w' = mset (frame_asks e) + unanswered w"
proof -
  have start: "mset (replies as) + unanswered w' = mset (frame_asks e) + unanswered w"
    if "start_lane r w = (as, w')" and "mset (replies (fst r)) + mset (parked_asks r) = mset (frame_asks e)" for r
    using unanswered_start [OF ok that(1)] that(2) by (simp flip: add.assoc)
  have same: "mset (replies as) + unanswered w' = mset (frame_asks e) + unanswered w \<or> (\<exists>n a p. e = Answered n a \<and> jm_get (lanes w) n = Some p)"
  proof (cases e)
    case (Subscribe_Frame t ref rec)
    then show ?thesis using st start subscribe_frame_answers [of "server_of w" t ref rec "conn_of w"]
      by (simp flip: mset_append)
  next
    case (Subscribe_Batch_Frame ts ref recs)
    then show ?thesis using st start batch_frame_answers [of "server_of w" ts ref recs "conn_of w"] by simp
  next
    case (Platform_Subscribe t)
    then show ?thesis using st start [of "platform_subscribe (server_of w) t (conn_of w)"]
      by (simp add: replies_platform parked_platform)
  next
    case (Tap_Requested t)
    then show ?thesis using st start [of "authorize_derived_subscribe (server_of w) t (conn_of w)"]
      by (simp add: replies_platform parked_platform)
  next
    case (Answered n a)
    then show ?thesis using st by (cases "jm_get (lanes w) n") auto
  qed (use st in \<open>auto simp: unanswered_def\<close>)
  have both: "mset (replies as) + unanswered w' \<subseteq># mset (frame_asks e) + unanswered w \<and>
      (\<not> gone (conn_of w') \<longrightarrow> mset (replies as) + unanswered w' = mset (frame_asks e) + unanswered w)"
    if e: "e = Answered n a" and p: "jm_get (lanes w) n = Some p" for n a p
  proof -
    let ?r = "answer_lane (server_of w) a p (conn_of w)"
    have cl: "continue_lane n ?r w = (as, w')" using st e p by simp
    have en: "enrolled (conn_of w) (attempts p + flight (jm_del n (lanes w)))"
      using ok flight_del [of "lanes w" n p] p by (simp add: session_ok_def)
    note c = unanswered_continue [OF ok p cl]
    have sub: "mset (replies as) + mset (parked_asks ?r) \<subseteq># mset (lane_asks p)"
      using lane_answers(1) [OF en] unfolding c(3) .
    have all: "mset (replies as) + mset (parked_asks ?r) = mset (lane_asks p)" if "\<not> gone (conn_of w')"
      using lane_answers(2) [OF en, of "server_of w" a] that unfolding c(2,3)
      by (cases "snd (snd ?r) = None") (simp_all add: parked_asks_def)
    have sum: "mset (replies as) + unanswered w' + mset (lane_asks p) = mset (replies as) + mset (parked_asks ?r) + unanswered w"
      using c(1) by (simp add: add.assoc)
    have "mset (replies as) + unanswered w' + mset (lane_asks p) \<subseteq># unanswered w + mset (lane_asks p)"
      unfolding sum using sub by (simp add: add.commute)
    moreover have "mset (replies as) + unanswered w' = unanswered w" if "\<not> gone (conn_of w')"
      using sum all [OF that] by (simp add: add.commute)
    ultimately show ?thesis by (simp add: e)
  qed
  show "mset (replies as) + unanswered w' \<subseteq># mset (frame_asks e) + unanswered w" using same both by fastforce
  show "\<not> gone (conn_of w') \<Longrightarrow> mset (replies as) + unanswered w' = mset (frame_asks e) + unanswered w"
    using same both by blast
qed

lemma gone_run: "session_ok w \<Longrightarrow> gone (conn_of w) \<Longrightarrow> gone (conn_of (foldl session_next w es))"
proof (induction es arbitrary: w)
  case (Cons e es)
  obtain as w' where st: "subscribe_step w e = (as, w')" by fastforce
  then have "session_ok w'" "gone (conn_of w')"
    using session_facts [OF Cons.prems(1) st] Cons.prems(2) by (auto simp: gets_to_def)
  then show ?case using Cons.IH st by (simp add: session_next_def)
qed simp

lemma run_answers:
  "session_ok w \<Longrightarrow>
    mset (run_replies w es) + unanswered (foldl session_next w es) \<subseteq># mset (concat (map frame_asks es)) + unanswered w \<and>
    (\<not> gone (conn_of (foldl session_next w es)) \<longrightarrow>
      mset (run_replies w es) + unanswered (foldl session_next w es) = mset (concat (map frame_asks es)) + unanswered w)"
proof (induction es arbitrary: w)
  case (Cons e es)
  obtain as w' where st: "subscribe_step w e = (as, w')" by fastforce
  have ok: "session_ok w'" using session_facts [OF Cons.prems st] by blast
  let ?now = "mset (replies as)" and ?later = "mset (run_replies w' es) + unanswered (foldl session_next w' es)"
    and ?asks = "mset (concat (map frame_asks es))"
  have "?now + ?later \<subseteq># ?now + (?asks + unanswered w')" using Cons.IH [OF ok] by simp
  moreover have "?now + (?asks + unanswered w') = ?asks + (?now + unanswered w')" by (simp only: ac_simps)
  moreover have "?asks + (?now + unanswered w') \<subseteq># ?asks + (mset (frame_asks e) + unanswered w)"
    using unanswered_step(1) [OF Cons.prems st] by simp
  ultimately have sub: "?now + ?later \<subseteq># ?asks + (mset (frame_asks e) + unanswered w)"
    using subset_mset.order_trans by (simp only:)
  have eq: "?now + ?later = ?asks + (mset (frame_asks e) + unanswered w)" if open_end: "\<not> gone (conn_of (foldl session_next w' es))"
  proof -
    have "\<not> gone (conn_of w')" using gone_run [OF ok] open_end by blast
    then have "?now + unanswered w' = mset (frame_asks e) + unanswered w" by (rule unanswered_step(2) [OF Cons.prems st])
    moreover have "?later = ?asks + unanswered w'" using Cons.IH [OF ok] open_end by blast
    ultimately show ?thesis by (simp add: \<open>?now + (?asks + unanswered w') = ?asks + (?now + unanswered w')\<close>)
  qed
  have run: "foldl session_next w (e # es) = foldl session_next w' es" "run_replies w (e # es) = replies as @ run_replies w' es"
    using st by (simp_all add: session_next_def)
  have sums: "mset (replies as @ run_replies w' es) + unanswered (foldl session_next w' es) = ?now + ?later"
    "mset (concat (map frame_asks (e # es))) + unanswered w = ?asks + (mset (frame_asks e) + unanswered w)"
    by simp_all
  show ?case unfolding run sums using sub eq by blast
qed simp

text \<open>C11: Every topic of every subscribe frame with a reference is answered exactly once, with an acknowledgement or a
  denial, the topics refused before any hook is asked (past the batch limit, invalid, past the budget of subscribes
  in flight) included. Over any run, what was answered and what parked lanes still owe is at most what the frames
  asked, so nothing is answered twice, and is all of it as long as the socket is open. A lane that ends on an open
  socket answers its topics in order, and one that is parked again for the resume hook has not answered yet.
  A lane that was resuming closes the capture it opened on every exit, whether the socket is open or gone.\<close>

theorem subscribe_answered_once:
  assumes "w = foldl session_next (new_session s) es"
  shows "mset (run_replies (new_session s) es) + unanswered w \<subseteq># mset (concat (map frame_asks es)) \<and>
    (\<not> gone (conn_of w) \<longrightarrow>
      mset (run_replies (new_session s) es) + unanswered w = mset (concat (map frame_asks es))) \<and>
    (\<forall>n p a as w'. jm_get (lanes w) n = Some p \<and> subscribe_step w (Answered n a) = (as, w') \<longrightarrow>
      (resuming p \<longrightarrow> closes_capture (lane_topics p) as) \<and>
      (\<not> gone (conn_of w') \<longrightarrow> replies as = (if jm_get (lanes w') n = None then lane_asks p else [])))"
proof -
  have ok: "session_ok w" unfolding assms by (rule sessions.run_inv)
  have lane: "(resuming p \<longrightarrow> closes_capture (lane_topics p) as) \<and>
      (\<not> gone (conn_of w') \<longrightarrow> replies as = (if jm_get (lanes w') n = None then lane_asks p else []))"
    if p: "jm_get (lanes w) n = Some p" and st: "subscribe_step w (Answered n a) = (as, w')" for n p a as w'
  proof -
    let ?r = "answer_lane (server_of w) a p (conn_of w)"
    have en: "enrolled (conn_of w) (attempts p + flight (jm_del n (lanes w)))"
      using ok flight_del [of "lanes w" n p] p by (simp add: session_ok_def)
    have cl: "continue_lane n ?r w = (as, w')" using p st by simp
    then have "jm_get (lanes w') n = None \<longleftrightarrow> snd (snd ?r) = None"
      by (auto simp: continue_lane_def split: prod.splits option.splits)
    then show ?thesis using lane_answers(2,3) [OF en, of "server_of w" a] unanswered_continue(2,3) [OF ok p cl] by auto
  qed
  have "unanswered (new_session s) = {#}" by (simp add: unanswered_def new_session_def)
  then show ?thesis using run_answers [OF session_ok_new, of s es] lane unfolding assms by auto
qed

section \<open>Runs\<close>

definition small_server :: server where
  "small_server = \<lparr>armed = False, strict = False, user_hook = True, resume_hook = True, allow_system = False,
    allow_non_ascii = False, owned = [], derived = [], limits = \<lparr>max_subs = 1, max_pend = 2\<rparr>\<rparr>"

definition allow :: answer where
  "allow = \<lparr>hook_says = One None, unsubscribe_ops = (\<lambda>t. []), flush_closes = (\<lambda>t. False)\<rparr>"

definition refuse_all :: answer where
  "refuse_all = \<lparr>hook_says = One (Some Forbidden), unsubscribe_ops = (\<lambda>t. []), flush_closes = (\<lambda>t. False)\<rparr>"

definition from_start :: recover where
  "from_start = \<lparr>offset = Some 0, rec_epoch = None\<rparr>"

lemmas run_defs = small_server_def allow_def refuse_all_def from_start_def

theorem revoked_attempt_never_installs_witness:
  "Native_Subscribe [97] \<notin> set (fst (subscribe_step (foldl session_next (session_next
     (foldl session_next (new_session small_server) [Subscribe_Frame [97] (Some (1 :: nat)) None])
     (Application (Platform_Unsubscribe [97]))) []) (Answered 0 allow)))"
proof -
  have n: "0 < next_lane (foldl session_next (new_session small_server) [Subscribe_Frame [97] (Some (1 :: nat)) None])"
    by code_simp
  show ?thesis
    by (rule conjunct1 [OF revoked_attempt_never_installs [OF refl n _ refl]]) (simp add: revokes_def)
qed

theorem revoked_topic_stays_out_witness:
  "\<not> held [97] (conn_of (foldl session_next (session_next
     (foldl session_next (new_session small_server) [Subscribe_Frame [97] (Some (1 :: nat)) None])
     (Application (Platform_Unsubscribe [97]))) [Answered 0 refuse_all]))"
proof -
  let ?w = "foldl session_next (new_session small_server) [Subscribe_Frame [97] (Some (1 :: nat)) None]"
  have g: "\<not> gone (conn_of ?w)" by code_simp
  let ?w1 = "session_next ?w (Application (Platform_Unsubscribe [97]))"
  have l: "jm_get (lanes ?w1) 0 = Some (Wire_Gate [97] (Some 1) None 0)" by code_simp
  have r: "lane_refuses [97] (conn_of ?w1) refuse_all (Wire_Gate [97] (Some (1 :: nat)) None 0)" by code_simp
  have q: "quiet_run [97] ?w1 [Answered 0 refuse_all]"
    using l r by (simp add: quiet_ops_def refuse_all_def)
  have n: "attempts_on [97] (flight (lanes (foldl session_next (session_next ?w (Application (Platform_Unsubscribe [97])))
      [Answered 0 refuse_all]))) = 0"
    by (simp add: run_defs) code_simp
  show ?thesis
    by (rule conjunct1 [OF revoked_topic_stays_out [OF refl _ g q refl n]]) (simp add: revokes_def)
qed

theorem subscribe_budget_exact_witness:
  "pend_total (conn_of (foldl session_next (new_session small_server) [Subscribe_Frame [97] (Some (1 :: nat)) None])) =
   int (size (flight (lanes (foldl session_next (new_session small_server) [Subscribe_Frame [97] (Some (1 :: nat)) None]))))"
  by (rule conjunct1 [OF subscribe_budget_exact [OF refl]])

theorem subscription_charged_once_witness:
  "charge (conn_of (foldl session_next (new_session small_server)
     [Subscribe_Frame [97] (Some (1 :: nat)) None, Answered 0 allow])) = 1"
proof -
  let ?c = "conn_of (foldl session_next (new_session small_server)
     [Subscribe_Frame [97] (Some (1 :: nat)) None, Answered 0 allow])"
  have "\<not> registry_settled ?c \<and> length (subs ?c) = 1" by code_simp
  then show ?thesis using conjunct1 [OF subscription_charged_once [OF refl,
      of small_server "[Subscribe_Frame [97] (Some (1 :: nat)) None, Answered 0 allow]"]] by simp
qed

theorem subscriptions_bounded_witness:
  "length (subs (conn_of (foldl session_next (new_session small_server)
     [Subscribe_Frame [97] (Some (1 :: nat)) None, Answered 0 allow]))) \<le> 3"
  using subscriptions_bounded [OF refl, of small_server "[Subscribe_Frame [97] (Some (1 :: nat)) None, Answered 0 allow]"]
  by (simp add: small_server_def)

theorem wire_gate_not_bypassed_witness:
  "\<not> is_plugin_owned_topic (owned (server_of (foldl session_next (new_session small_server)
     [Subscribe_Frame [97] (Some (1 :: nat)) None]))) [97]"
proof -
  let ?w = "foldl session_next (new_session small_server) [Subscribe_Frame [97] (Some (1 :: nat)) None]"
  have p: "jm_get (lanes ?w) 0 = Some (Wire_Gate [97] (Some 1) None 0)" by code_simp
  have a: "Native_Subscribe [97] \<in> set (fst (subscribe_step ?w (Answered 0 allow)))" by code_simp
  show ?thesis by (rule conjunct1 [OF wire_gate_not_bypassed [OF refl p _ a]]) simp
qed

definition answered_run :: "nat event list" where
  "answered_run = [Subscribe_Batch_Frame [[98], [], [98]] (Some 7) None, Subscribe_Frame [97] (Some 1) None, Answered 0 allow]"

theorem subscribe_answered_once_witness:
  "mset (run_replies (new_session small_server) answered_run) +
     unanswered (foldl session_next (new_session small_server) answered_run) =
   {#([98], 7), ([], 7), ([98], 7), ([97], 1)#}"
proof -
  have "\<not> gone (conn_of (foldl session_next (new_session small_server) answered_run))" by code_simp
  then show ?thesis
    using subscribe_answered_once [OF refl, of small_server answered_run] by (simp add: answered_run_def)
qed

text \<open>The subscription cap can be exceeded: with a cap of one topic, two frames that ask for history
  both pass the check, are parked in the resume hook, and both land.\<close>

theorem subscription_cap_overshoots:
  "subs (conn_of (foldl session_next (new_session small_server)
     [Subscribe_Frame [97] (Some (1 :: nat)) (Some from_start), Subscribe_Frame [98] (Some 2) (Some from_start),
      Answered 0 allow, Answered 1 allow, Answered 0 allow, Answered 1 allow])) = [[97], [98]] \<and>
   max_subs (limits small_server) = 1"
  by code_simp

end
