(* ===== verification/Spec2Isabelle.thy ===== *)
theory Spec2Isabelle
  imports Wire_Value Wire_Frame Wire_Lease Epoch Relay_Codec Task_Queue Lock Replay Rate_Key Restart_Supervisor
    Message_Admission Upgrade_Admission Expiring_Cache Resume_Buffer Gap_Tracker Wire_Stream Key_Dict Throttle
    Sliding_Window Rate_Limit Publish_Path Subscribe_Answers
begin

text \<open>
  A verification library for \<open>svelte-adapter-ws\<close>, a SvelteKit adapter whose server runs HTTP and
  WebSockets on Node, spreads over worker threads and lets browsers subscribe to topics.

  \<^bold>\<open>How the parts fit together.\<close> A publish is stamped with a per-topic sequence number
  (\<open>utils/seq-bound.js\<close>, \<open>utils/epoch.js\<close>), framed for the wire (\<open>wire.js\<close>, \<open>wire-value.js\<close>), sent to
  the local subscribers and relayed to the sibling workers over shared-memory rings
  (\<open>relay-ring.js\<close>). A receiving worker checks that the stream of each sibling has no hole
  (\<open>handler/state.js\<close>). A client that reconnects is let in by the admission gate
  (\<open>utils/upgrade-admission.js\<close>), its frames pass the message gate (\<open>utils/message-admission.js\<close>), and
  what it missed is replayed, with live frames held back meanwhile (\<open>handler/resume-buffer.js\<close>,
  \<open>plugins/replay\<close>). Plugins offer queues, locks, deduplication and sessions; a supervisor restarts
  workers that die. Paths below are relative to \<open>src/runtime\<close> unless they name a plugin.

  \<^bold>\<open>Theories, in the order of the data flow.\<close>
  \<^item> \<open>Prelude\<close>: UTF-16 strings (\<open>js_string\<close>), insertion-ordered JavaScript maps (\<open>jsmap\<close>), limits that
    may be infinite (\<open>js_cap\<close>), the locale \<open>machine\<close> (an invariant kept by every step holds in every
    run) that the state machines below interpret.
  \<^item> \<open>Utf8\<close>, \<open>Wire_Bytes\<close>: the text encoder and decoder as the platform documents them, the growable
    \<open>ByteWriter\<close> and the bounds-checked \<open>ByteReader\<close> with varints, floats and strings. A failed read is
    \<open>Inl\<close> of a range error; a write that the code rejects is \<open>None\<close>.
  \<^item> \<open>Float64\<close>, \<open>Wire_Value\<close>: doubles as 64-bit patterns and the schema-free value codec. Decoding takes
    fuel; \<open>decode_value_total\<close> shows that the length of the buffer always suffices, and
    \<open>value_json_parity\<close> that the codec agrees with a JSON round trip.
  \<^item> \<open>Wire_Frame\<close>: binary topic frames, the two parsers, per-connection topic ids and capability counts.
  \<^item> \<open>Wire_Bits\<close>, \<open>Wire_Stream\<close>, \<open>Key_Dict\<close>: the bit-granular writer and reader, the temporal codec for
    series of numbers (delta of delta and XOR against the previous sample), and the per-connection key
    dictionaries with their delta-coded stamps.
  \<^item> \<open>Wire_Lease\<close>: the send-gate lease (credits, window, deadline) and the pressure scalars.
  \<^item> \<open>Seq_Bound\<close>, \<open>Epoch\<close>: the bounded sequence registry with floors that survive eviction, topic epochs,
    the spellings of the \<open>seq\<close> option, the hybrid logical clock.
  \<^item> \<open>Relay_Ring\<close>, \<open>Relay_Link\<close>, \<open>Relay_Codec\<close>: the single-producer ring with 32-bit wrapping positions and
    both sides as atomic steps; the spilling writer and reassembling reader on top of it, cut where the other
    thread can get in between (a push that failed, the registration of its wait, the reader's store, its
    notification); the frames.
  \<^item> \<open>Gap_Tracker\<close>: per-origin contiguity of relayed frames, with bounded memory and staged reports.
  \<^item> \<open>Upgrade_Admission\<close>, \<open>Message_Admission\<close>: ceilings and paced admission of upgrades; token buckets,
    concurrency caps and the bounded waiting line for frames.
  \<^item> \<open>Resume_Buffer\<close>, \<open>Replay\<close>: the buffer that covers the cut-over from replay to live, and the
    in-memory replay plugin with the copying of its payloads and the throw of a copy that fails.
  \<^item> \<open>Task_Queue\<close>, \<open>Lock\<close>, \<open>Expiring_Cache\<close>, \<open>Throttle\<close>: the queue, lock, dedup, session and throttle
    plugins.
  \<^item> \<open>Rate_Key\<close>, \<open>Rotating_Cursor\<close>, \<open>Sliding_Window\<close>, \<open>Rate_Limit\<close>: the bucket key of a client address, with
    IPv6 folded to its prefix; a \<open>Map\<close> iterator kept across calls and the locale \<open>keyed_meter\<close> (what a
    limiter keeps for one key) that the sliding-window limiter and the fixed-window plugin interpret.
  \<^item> \<open>Egress_Ledger\<close>, \<open>Egress_Account\<close>: the windowed usage ledger of publishes with its sweep and eviction,
    and the account that admits and charges a publish per topic and tenant; a window's dimension
    interprets \<open>keyed_meter\<close> as well.
  \<^item> \<open>Topic_Registry\<close>, \<open>Publish_Path\<close>: who is subscribed to what, and the publish that composes the
    registry, the sequence numbers, the account, the resume buffers and the relay, one event or a batch.
  \<^item> \<open>Subscribe_Policy\<close>, \<open>Pending_Subscribe\<close>: the pure decisions about subscribes and the names a client may
    ask for; the record of subscribes in flight with the epoch a revocation bumps, the tracked set, the
    socket's own registry and the charge of the worker.
  \<^item> \<open>Subscribe_Session\<close>: the subscribe and subscribe-batch frames (\<open>handler/realtime.js\<close>),
    \<open>platform.subscribe\<close> and the plugin tap, each cut where it awaits a hook, as lanes of one connection
    whose answers, revocations and gate changes interleave in any order. \<open>Revocation\<close>,
    \<open>Subscribe_Bounds\<close> and \<open>Subscribe_Answers\<close>: what holds of every such run.
  \<^item> \<open>Restart_Supervisor\<close>: restart back-off, crash-loop exhaustion and slot accounting.

  \<^bold>\<open>How state and effects are modelled.\<close> Every class or closure is a record with the same variables;
  an operation is a function from the state (and the clock reading it takes) to its result and the
  new state; a raise is a constructor of an error type. Objects whose identity matters (the queue
  states of a lock, resume buffers) live in a store indexed by natural numbers. Promises and timers
  are events of a step function, so that every interleaving of calls, settlements and timeouts is a
  list of events. Some records carry a history (what arrived, what started) that no branch reads.

  \<^bold>\<open>What the lemmas show.\<close> Each theory proves an invariant of its state and that every operation keeps
  it, then the behaviour seen by a caller: round trips for the codecs, refinement of an ideal
  machine that forgets nothing for ring, link, replay and caches, order and exclusion for queue,
  lock and gates, bounds for everything that is capped, and progress (a waiting entry that can
  start does start, an aged hole is reported, a parked flush is woken, a flapping worker exhausts). What a
  theorem compares the code with is defined on its own: the JSON trip, the frames a client still needs, the
  age of a hole and the turn of a callback are read off the values and the run, not off the code's
  predicates and counters. Eleven theorems state
  behaviour that the code does not intend: \<open>value_loses_bom\<close>, \<open>relay_loses_bom\<close>,
  \<open>replay_failed_copy_leaves_hole\<close>, \<open>replay_eviction_hides_gap\<close>,
  \<open>lock_clear_admits_two_holders\<close>, \<open>cursor_lane_fills_gate\<close>, \<open>stream_negative_zero_flips_sign\<close>,
  \<open>throttle_throw_wedges\<close>, \<open>ratelimit_clear_merges_connections\<close>, \<open>batch_slow_delivers_prefix\<close> and
  \<open>subscription_cap_overshoots\<close>.

  \<^bold>\<open>Bounds, fuel and idealisations.\<close> Recursions are structural or carry a measure; the only fuel is
  that of the value decoder. Integers below \<open>2 ^ 53\<close> are naturals or integers
  (the stamps of \<open>Key_Dict\<close> carry the bound as a hypothesis on the clock), ring positions are
  32-bit words, doubles on the wire are 64-bit patterns. Clocks, token-bucket levels and times to
  live are real numbers: rounding of double arithmetic is not modelled there. \<open>Date.now\<close> and the
  monotonic clock are arguments, and theorems say when they must not run backwards.

  \<^bold>\<open>Not modelled.\<close> Sockets, HTTP, TLS, files and worker threads; the build integration; the browser
  client; metrics, diagnostics and message catalogues; the direct sends, the binary fan-out and the
  relay's receiving side of \<open>handler/platform.js\<close>; the opening, the game lane and the whole-session resume
  of \<open>handler/realtime.js\<close>; the presence, cursor, smooth, groups and
  webhook plugins; the CRDT plugin, whose merge belongs to a third-party library.
\<close>

end
